(* ===== verification/Prelude.thy ===== *)
theory Prelude
  imports Main "HOL-Library.Word" "HOL-Library.Multiset" "HOL-Library.Monad_Syntax"
begin

section \<open>Shared types, byte encodings and list lemmas\<close>

text \<open>
  What every component theory uses: names for the machine integers of the code
  (\<open>uint8_t\<close> \<dots> \<open>uint64_t\<close> as words), the little-endian reading and writing of
  integers by \<open>memcpy\<close> (the code runs on little-endian machines), and lemmas on lists that
  several components share. \<open>psync_simps\<close> collects the rewrite rules on those helpers.
\<close>

named_theorems psync_simps \<open>rewrite rules on the shared helpers\<close>

type_synonym byte = "8 word"
type_synonym u16 = "16 word"
type_synonym u32 = "32 word"
type_synonym u64 = "64 word"

subsection \<open>Little-endian integers\<close>

text \<open>
  \<open>len=0; memcpy(&len, p, n)\<close> reads \<open>n\<close> bytes, least significant first:
  \<open>le_val\<close>. \<open>memcpy(p, &v, n)\<close> writes them: \<open>le_bytes n v\<close>.
\<close>

fun le_val :: "byte list \<Rightarrow> nat" where
  "le_val [] = 0"
| "le_val (b # bs) = unat b + 256 * le_val bs"

fun le_bytes :: "nat \<Rightarrow> nat \<Rightarrow> byte list" where
  "le_bytes 0 v = []"
| "le_bytes (Suc n) v = of_nat v # le_bytes n (v div 256)"

lemma length_le_bytes [simp, psync_simps]: "length (le_bytes n v) = n"
  by (induction n arbitrary: v) auto

lemma unat_of_nat_byte [psync_simps]: "unat (of_nat v :: byte) = v mod 256"
  by (simp add: unat_of_nat)

lemma unat_byte_less [simp]: "unat (b :: byte) < 256"
  using unsigned_less [of b] by simp

lemma le_val_le_bytes [psync_simps]: "v < 256 ^ n \<Longrightarrow> le_val (le_bytes n v) = v"
proof (induction n arbitrary: v)
  case 0
  then show ?case by simp
next
  case (Suc n)
  have "v div 256 < 256 ^ n"
    using Suc.prems by (simp add: less_mult_imp_div_less mult.commute)
  then show ?case
    using Suc.IH by (simp add: unat_of_nat_byte)
qed

lemma le_bytes_le_val [psync_simps]: "length bs = n \<Longrightarrow> le_bytes n (le_val bs) = bs"
proof (induction bs arbitrary: n)
  case Nil
  then show ?case by simp
next
  case (Cons b bs)
  have "(of_nat (unat b + 256 * le_val bs) :: byte) = b"
    by (rule word_unat_eq_iff [THEN iffD2], simp only: unat_of_nat_byte) simp
  moreover have "(unat b + 256 * le_val bs) div 256 = le_val bs"
    using unat_byte_less [of b] by simp
  ultimately show ?case
    using Cons by auto
qed

lemma le_val_less: "le_val bs < 256 ^ length bs"
proof (induction bs)
  case Nil
  then show ?case by simp
next
  case (Cons b bs)
  have "unat b + 256 * le_val bs < 256 * Suc (le_val bs)"
    using unat_byte_less [of b] by simp
  also have "\<dots> \<le> 256 * 256 ^ length bs"
    using Cons by (intro mult_left_mono) auto
  finally show ?case by simp
qed

subsection \<open>Lists\<close>

lemma take_append_drop_Suc:
  "i < length xs \<Longrightarrow> xs = take i xs @ xs ! i # drop (Suc i) xs"
  by (rule id_take_nth_drop)

lemma distinct_split_unique:
  assumes "distinct (xs @ p # ys)" and "xs @ p # ys = xs' @ p # ys'"
  shows "xs' = xs \<and> ys' = ys"
  using assms by (metis append_Cons_eq_iff distinct_append not_distinct_conv_prefix disjoint_iff list.set_intros(1) distinct.simps(2))

end
