(* ===== verification/Plocks.thy ===== *)
theory Plocks
  imports Prelude
begin

section \<open>Read-write locks (plocks.c)\<close>

text \<open>
  The lock of the database: readers, writers, and reserved readers that may become writers. A thread that holds a lock
  can take it again; its own count is thread-specific data. Every call is one step from taking the mutex
  to giving it back or to waiting on one of the two condition variables, and so is every return from such a wait.
  A waiting thread may wake at any time; \<open>twoken\<close> says that it has been signalled. A failing assertion ends the program.
\<close>

unbundle bit_operations_syntax

subsection \<open>State\<close>

type_synonym tid = nat

abbreviation PSYNC_RW_OPT_PREFER_READ :: u32 where "PSYNC_RW_OPT_PREFER_READ \<equiv> 1"
abbreviation PSYNC_RW_OPT_RESERVED :: u32 where "PSYNC_RW_OPT_RESERVED \<equiv> 2"
abbreviation PSYNC_WR_RESERVED :: u32 where "PSYNC_WR_RESERVED \<equiv> - 1"

text \<open>The call a thread waits in.\<close>

datatype rw_pc = Running | In_rdlock | In_timedrdlock | In_rdlock_starvewr | In_wrlock | In_timedwrlock | In_rslock | In_towrlock

text \<open>The thread's own count (\<open>psync_rwlock_lockcnt_t\<close>) and where it is.\<close>

record rw_thread =
  cnt0 :: u32
  cnt1 :: u32
  tpc :: rw_pc
  twoken :: bool

record psync_rwlock =
  rcount :: int
  rwait :: int
  wcount :: int
  wwait :: int
  opts :: u32
  thr :: "tid \<Rightarrow> rw_thread"

definition idle_thread :: rw_thread where
  "idle_thread = \<lparr>cnt0 = 0, cnt1 = 0, tpc = Running, twoken = False\<rparr>"

definition psync_rwlock_init :: psync_rwlock where
  "psync_rwlock_init = \<lparr>rcount = 0, rwait = 0, wcount = 0, wwait = 0, opts = 0, thr = (\<lambda>_. idle_thread)\<rparr>"

text \<open>How a call goes on: it returns, it waits, or an assertion fails.\<close>

datatype rw_outcome = Returns int psync_rwlock | Waits psync_rwlock | Aborts

subsection \<open>The thread's count\<close>

definition psync_rwlock_set_count :: "tid \<Rightarrow> u32 \<Rightarrow> u32 \<Rightarrow> psync_rwlock \<Rightarrow> psync_rwlock" where
  "psync_rwlock_set_count t rd wr s = s\<lparr>thr := (thr s)(t := (thr s t)\<lparr>cnt0 := rd, cnt1 := wr\<rparr>)\<rparr>"

definition psync_rwlock_check_rdrecursive_in :: "tid \<Rightarrow> psync_rwlock \<Rightarrow> (bool \<times> psync_rwlock) option" where
  "psync_rwlock_check_rdrecursive_in t s =
     (if cnt0 (thr s t) \<noteq> 0 then Some (True, psync_rwlock_set_count t (cnt0 (thr s t) + 1) (cnt1 (thr s t)) s)
      else if cnt1 (thr s t) \<noteq> 0 then
        (if cnt1 (thr s t) = PSYNC_WR_RESERVED then None
         else Some (True, psync_rwlock_set_count t (cnt0 (thr s t)) (cnt1 (thr s t) + 1) s))
      else Some (False, s))"

definition psync_rwlock_check_wrrecursive_in :: "tid \<Rightarrow> psync_rwlock \<Rightarrow> (bool \<times> psync_rwlock) option" where
  "psync_rwlock_check_wrrecursive_in t s =
     (if cnt0 (thr s t) \<noteq> 0 then None
      else if cnt1 (thr s t) \<noteq> 0 then
        (if cnt1 (thr s t) = PSYNC_WR_RESERVED then None
         else Some (True, psync_rwlock_set_count t (cnt0 (thr s t)) (cnt1 (thr s t) + 1) s))
      else Some (False, s))"

definition psync_rwlock_check_recursive_out :: "tid \<Rightarrow> psync_rwlock \<Rightarrow> (bool \<times> psync_rwlock) option" where
  "psync_rwlock_check_recursive_out t s =
     (if cnt0 (thr s t) \<noteq> 0 then
        Some (cnt0 (thr s t) - 1 > 0, psync_rwlock_set_count t (cnt0 (thr s t) - 1) (cnt1 (thr s t)) s)
      else if cnt1 (thr s t) = 0 then None
      else Some (cnt1 (thr s t) - 1 > 0, psync_rwlock_set_count t (cnt0 (thr s t)) (cnt1 (thr s t) - 1) s))"

definition psync_rwlock_is_reserved_by_this_thread_clr :: "tid \<Rightarrow> psync_rwlock \<Rightarrow> bool \<times> psync_rwlock" where
  "psync_rwlock_is_reserved_by_this_thread_clr t s =
     (if cnt1 (thr s t) = PSYNC_WR_RESERVED then (True, psync_rwlock_set_count t (cnt0 (thr s t)) 0 s) else (False, s))"

subsection \<open>Condition variables\<close>

definition waits_rcond :: "rw_thread \<Rightarrow> bool" where
  "waits_rcond th \<longleftrightarrow> tpc th = In_rdlock \<or> tpc th = In_timedrdlock \<or> tpc th = In_rdlock_starvewr"

definition waits_wcond :: "rw_thread \<Rightarrow> bool" where
  "waits_wcond th \<longleftrightarrow> tpc th = In_wrlock \<or> tpc th = In_timedwrlock \<or> tpc th = In_rslock \<or> tpc th = In_towrlock"

definition cond_wait :: "tid \<Rightarrow> rw_pc \<Rightarrow> psync_rwlock \<Rightarrow> psync_rwlock" where
  "cond_wait t k s = s\<lparr>thr := (thr s)(t := (thr s t)\<lparr>tpc := k, twoken := False\<rparr>)\<rparr>"

definition broadcast_rcond :: "psync_rwlock \<Rightarrow> psync_rwlock" where
  "broadcast_rcond s = s\<lparr>thr := (\<lambda>t. if waits_rcond (thr s t) then (thr s t)\<lparr>twoken := True\<rparr> else thr s t)\<rparr>"

definition broadcast_wcond :: "psync_rwlock \<Rightarrow> psync_rwlock" where
  "broadcast_wcond s = s\<lparr>thr := (\<lambda>t. if waits_wcond (thr s t) then (thr s t)\<lparr>twoken := True\<rparr> else thr s t)\<rparr>"

text \<open>\<open>pthread_cond_signal\<close> unblocks one waiting thread; which one is the argument \<open>w\<close>.\<close>

definition signal_wcond :: "tid \<Rightarrow> psync_rwlock \<Rightarrow> psync_rwlock" where
  "signal_wcond w s = (if waits_wcond (thr s w) then s\<lparr>thr := (thr s)(w := (thr s w)\<lparr>twoken := True\<rparr>)\<rparr> else s)"

subsection \<open>Taking the lock for reading\<close>

definition rd_blocked :: "psync_rwlock \<Rightarrow> bool" where
  "rd_blocked s \<longleftrightarrow> wcount s \<noteq> 0 \<or> (wwait s \<noteq> 0 \<and> opts s AND PSYNC_RW_OPT_RESERVED = 0)"

definition rd_acquire :: "tid \<Rightarrow> psync_rwlock \<Rightarrow> rw_outcome" where
  "rd_acquire t s = Returns 0 (psync_rwlock_set_count t 1 0 (s\<lparr>rcount := rcount s + 1\<rparr>))"

text \<open>The loops of \<open>rdlock\<close> and \<open>timedrdlock\<close>, which differ in the wait only.\<close>

definition rdlock_loop :: "rw_pc \<Rightarrow> tid \<Rightarrow> psync_rwlock \<Rightarrow> rw_outcome" where
  "rdlock_loop k t s = (if rd_blocked s then Waits (cond_wait t k (s\<lparr>rwait := rwait s + 1\<rparr>)) else rd_acquire t s)"

definition psync_rwlock_rdlock :: "tid \<Rightarrow> psync_rwlock \<Rightarrow> rw_outcome" where
  "psync_rwlock_rdlock t s =
     (case psync_rwlock_check_rdrecursive_in t s of
        None \<Rightarrow> Aborts | Some (True, s) \<Rightarrow> Returns 0 s | Some (False, s) \<Rightarrow> rdlock_loop In_rdlock t s)"

definition psync_rwlock_tryrdlock :: "tid \<Rightarrow> psync_rwlock \<Rightarrow> rw_outcome" where
  "psync_rwlock_tryrdlock t s =
     (case psync_rwlock_check_rdrecursive_in t s of
        None \<Rightarrow> Aborts | Some (True, s) \<Rightarrow> Returns 0 s
      | Some (False, s) \<Rightarrow> if rd_blocked s then Returns (- 1) s else rd_acquire t s)"

definition psync_rwlock_timedrdlock :: "tid \<Rightarrow> psync_rwlock \<Rightarrow> rw_outcome" where
  "psync_rwlock_timedrdlock t s =
     (case psync_rwlock_check_rdrecursive_in t s of
        None \<Rightarrow> Aborts | Some (True, s) \<Rightarrow> Returns 0 s | Some (False, s) \<Rightarrow> rdlock_loop In_timedrdlock t s)"

definition starvewr_loop :: "tid \<Rightarrow> psync_rwlock \<Rightarrow> rw_outcome" where
  "starvewr_loop t s =
     (if wcount s \<noteq> 0 then
        Waits (cond_wait t In_rdlock_starvewr (s\<lparr>rwait := rwait s + 1, opts := opts s OR PSYNC_RW_OPT_PREFER_READ\<rparr>))
      else rd_acquire t s)"

definition psync_rwlock_rdlock_starvewr :: "tid \<Rightarrow> psync_rwlock \<Rightarrow> rw_outcome" where
  "psync_rwlock_rdlock_starvewr t s =
     (case psync_rwlock_check_rdrecursive_in t s of
        None \<Rightarrow> Aborts | Some (True, s) \<Rightarrow> Returns 0 s | Some (False, s) \<Rightarrow> starvewr_loop t s)"

subsection \<open>Taking the lock for writing\<close>

definition wr_acquire :: "tid \<Rightarrow> psync_rwlock \<Rightarrow> rw_outcome" where
  "wr_acquire t s = Returns 0 (psync_rwlock_set_count t 0 1 (s\<lparr>wcount := wcount s + 1\<rparr>))"

definition wrlock_loop :: "rw_pc \<Rightarrow> tid \<Rightarrow> psync_rwlock \<Rightarrow> rw_outcome" where
  "wrlock_loop k t s =
     (if rcount s \<noteq> 0 \<or> wcount s \<noteq> 0 then Waits (cond_wait t k (s\<lparr>wwait := wwait s + 1\<rparr>)) else wr_acquire t s)"

definition psync_rwlock_wrlock :: "tid \<Rightarrow> psync_rwlock \<Rightarrow> rw_outcome" where
  "psync_rwlock_wrlock t s =
     (case psync_rwlock_check_wrrecursive_in t s of
        None \<Rightarrow> Aborts | Some (True, s) \<Rightarrow> Returns 0 s | Some (False, s) \<Rightarrow> wrlock_loop In_wrlock t s)"

definition psync_rwlock_trywrlock :: "tid \<Rightarrow> psync_rwlock \<Rightarrow> rw_outcome" where
  "psync_rwlock_trywrlock t s =
     (case psync_rwlock_check_wrrecursive_in t s of
        None \<Rightarrow> Aborts | Some (True, s) \<Rightarrow> Returns 0 s
      | Some (False, s) \<Rightarrow> if rcount s \<noteq> 0 \<or> wcount s \<noteq> 0 then Returns (- 1) s else wr_acquire t s)"

definition psync_rwlock_timedwrlock :: "tid \<Rightarrow> psync_rwlock \<Rightarrow> rw_outcome" where
  "psync_rwlock_timedwrlock t s =
     (case psync_rwlock_check_wrrecursive_in t s of
        None \<Rightarrow> Aborts | Some (True, s) \<Rightarrow> Returns 0 s | Some (False, s) \<Rightarrow> wrlock_loop In_timedwrlock t s)"

subsection \<open>Reserved locks and the upgrade\<close>

definition rslock_loop :: "tid \<Rightarrow> psync_rwlock \<Rightarrow> rw_outcome" where
  "rslock_loop t s =
     (if wcount s \<noteq> 0 \<or> opts s AND PSYNC_RW_OPT_RESERVED \<noteq> 0 then Waits (cond_wait t In_rslock (s\<lparr>wwait := wwait s + 1\<rparr>))
      else let s = (if rwait s \<noteq> 0 then broadcast_rcond s else s) in
        Returns 0 (psync_rwlock_set_count t 1 PSYNC_WR_RESERVED (s\<lparr>rcount := rcount s + 1, opts := opts s OR PSYNC_RW_OPT_RESERVED\<rparr>)))"

definition psync_rwlock_rslock :: "tid \<Rightarrow> psync_rwlock \<Rightarrow> rw_outcome" where
  "psync_rwlock_rslock t s =
     (if cnt0 (thr s t) \<noteq> 0 then Aborts
      else if cnt1 (thr s t) \<noteq> 0 then
        (if cnt1 (thr s t) = PSYNC_WR_RESERVED then Returns 0 (psync_rwlock_set_count t (cnt0 (thr s t) + 1) (cnt1 (thr s t)) s)
         else Returns 0 (psync_rwlock_set_count t (cnt0 (thr s t)) (cnt1 (thr s t) + 1) s))
      else rslock_loop t s)"

definition towrlock_loop :: "tid \<Rightarrow> psync_rwlock \<Rightarrow> rw_outcome" where
  "towrlock_loop t s =
     (if rcount s \<noteq> 0 then Waits (cond_wait t In_towrlock (s\<lparr>wwait := wwait s + 1\<rparr>))
      else if wcount s \<noteq> 0 then Aborts
      else Returns 0 (psync_rwlock_set_count t 0 (cnt0 (thr s t))
        (s\<lparr>wcount := wcount s + 1, opts := opts s AND NOT PSYNC_RW_OPT_RESERVED\<rparr>)))"

definition psync_rwlock_towrlock :: "tid \<Rightarrow> psync_rwlock \<Rightarrow> rw_outcome" where
  "psync_rwlock_towrlock t s =
     (if cnt1 (thr s t) \<noteq> 0 \<and> cnt1 (thr s t) \<noteq> PSYNC_WR_RESERVED then Returns 0 s
      else if rcount s = 0 \<or> wcount s \<noteq> 0 then Aborts
      else if opts s AND PSYNC_RW_OPT_RESERVED \<noteq> 0 \<and> cnt1 (thr s t) \<noteq> PSYNC_WR_RESERVED then Returns (- 1) s
      else towrlock_loop t (s\<lparr>opts := opts s OR PSYNC_RW_OPT_RESERVED, rcount := rcount s - 1\<rparr>))"

subsection \<open>Giving the lock back\<close>

definition unlock_reader :: "tid \<Rightarrow> tid \<Rightarrow> psync_rwlock \<Rightarrow> psync_rwlock" where
  "unlock_reader t w s =
     (let s = (if opts s AND PSYNC_RW_OPT_RESERVED \<noteq> 0 then
                 (case psync_rwlock_is_reserved_by_this_thread_clr t s of
                    (True, s) \<Rightarrow> s\<lparr>opts := opts s AND NOT PSYNC_RW_OPT_RESERVED\<rparr> | (False, s) \<Rightarrow> s)
               else s);
          s = s\<lparr>rcount := rcount s - 1\<rparr> in
      if rcount s = 0 \<and> wwait s \<noteq> 0 then
        (if opts s AND PSYNC_RW_OPT_RESERVED \<noteq> 0 then broadcast_wcond s else signal_wcond w s)
      else s)"

definition unlock_writer :: "tid \<Rightarrow> psync_rwlock \<Rightarrow> rw_outcome" where
  "unlock_writer w s =
     (if wcount s = 0 then Aborts
      else let s = s\<lparr>wcount := wcount s - 1\<rparr> in
        if wcount s \<noteq> 0 then Returns 0 s
        else if opts s AND PSYNC_RW_OPT_RESERVED \<noteq> 0 then (if wwait s = 0 then Aborts else Returns 0 (broadcast_wcond s))
        else if opts s AND PSYNC_RW_OPT_PREFER_READ \<noteq> 0 then
          Returns 0 (if rwait s \<noteq> 0 then broadcast_rcond s else if wwait s \<noteq> 0 then signal_wcond w s else s)
        else Returns 0 (if wwait s \<noteq> 0 then signal_wcond w s else if rwait s \<noteq> 0 then broadcast_rcond s else s))"

definition psync_rwlock_unlock :: "tid \<Rightarrow> tid \<Rightarrow> psync_rwlock \<Rightarrow> rw_outcome" where
  "psync_rwlock_unlock t w s =
     (case psync_rwlock_check_recursive_out t s of
        None \<Rightarrow> Aborts
      | Some (True, s) \<Rightarrow> Returns 0 s
      | Some (False, s) \<Rightarrow>
          if rcount s \<noteq> 0 \<and> wcount s \<noteq> 0 then Aborts
          else if rcount s \<noteq> 0 then Returns 0 (unlock_reader t w s)
          else unlock_writer w s)"

subsection \<open>Waking and timing out\<close>

definition rw_wake :: "tid \<Rightarrow> psync_rwlock \<Rightarrow> rw_outcome" where
  "rw_wake t s =
     (let r = cond_wait t Running (s\<lparr>rwait := rwait s - 1\<rparr>); w = cond_wait t Running (s\<lparr>wwait := wwait s - 1\<rparr>) in
      case tpc (thr s t) of
        In_rdlock \<Rightarrow> rdlock_loop In_rdlock t r
      | In_timedrdlock \<Rightarrow> rdlock_loop In_timedrdlock t r
      | In_rdlock_starvewr \<Rightarrow> starvewr_loop t (r\<lparr>opts := opts r AND NOT PSYNC_RW_OPT_PREFER_READ\<rparr>)
      | In_wrlock \<Rightarrow> wrlock_loop In_wrlock t w
      | In_timedwrlock \<Rightarrow> wrlock_loop In_timedwrlock t w
      | In_rslock \<Rightarrow> rslock_loop t w
      | In_towrlock \<Rightarrow> towrlock_loop t w
      | Running \<Rightarrow> Returns 0 s)"

definition rw_timeout :: "tid \<Rightarrow> psync_rwlock \<Rightarrow> rw_outcome" where
  "rw_timeout t s =
     (if tpc (thr s t) = In_timedrdlock then Returns (- 1) (cond_wait t Running (s\<lparr>rwait := rwait s - 1\<rparr>))
      else let s = cond_wait t Running (s\<lparr>wwait := wwait s - 1\<rparr>) in
        Returns (- 1) (if wwait s \<noteq> 0 \<and> wcount s = 0 \<and> rwait s \<noteq> 0 then broadcast_rcond s else s))"

definition psync_rwlock_num_waiters :: "psync_rwlock \<Rightarrow> int" where
  "psync_rwlock_num_waiters s = rwait s + wwait s"

definition psync_rwlock_holding_rdlock :: "tid \<Rightarrow> psync_rwlock \<Rightarrow> bool" where
  "psync_rwlock_holding_rdlock t s \<longleftrightarrow> cnt0 (thr s t) \<noteq> 0"

definition psync_rwlock_holding_lock :: "tid \<Rightarrow> psync_rwlock \<Rightarrow> bool" where
  "psync_rwlock_holding_lock t s \<longleftrightarrow> cnt0 (thr s t) \<noteq> 0 \<and> cnt1 (thr s t) \<noteq> 0"

subsection \<open>Steps\<close>

datatype rw_event = Rdlock | Tryrdlock | Timedrdlock | Rdlock_starvewr | Wrlock | Trywrlock | Timedwrlock | Rslock | Towrlock | Unlock
  | Wake | Timeout_rd | Timeout_wr

fun rw_run :: "rw_event \<Rightarrow> tid \<Rightarrow> tid \<Rightarrow> psync_rwlock \<Rightarrow> rw_outcome" where
  "rw_run Rdlock t w s = psync_rwlock_rdlock t s"
| "rw_run Tryrdlock t w s = psync_rwlock_tryrdlock t s"
| "rw_run Timedrdlock t w s = psync_rwlock_timedrdlock t s"
| "rw_run Rdlock_starvewr t w s = psync_rwlock_rdlock_starvewr t s"
| "rw_run Wrlock t w s = psync_rwlock_wrlock t s"
| "rw_run Trywrlock t w s = psync_rwlock_trywrlock t s"
| "rw_run Timedwrlock t w s = psync_rwlock_timedwrlock t s"
| "rw_run Rslock t w s = psync_rwlock_rslock t s"
| "rw_run Towrlock t w s = psync_rwlock_towrlock t s"
| "rw_run Unlock t w s = psync_rwlock_unlock t w s"
| "rw_run Wake t w s = rw_wake t s"
| "rw_run Timeout_rd t w s = rw_timeout t s"
| "rw_run Timeout_wr t w s = rw_timeout t s"

text \<open>
  A running thread may call any function, as long as its own count stays below the 32 bits of the half pointer, but it upgrades
  only a lock it holds: nothing in \<open>psync_rwlock_towrlock\<close> checks that. A signalled thread does not time out.
\<close>

definition nesting_ok :: "rw_thread \<Rightarrow> bool" where
  "nesting_ok th \<longleftrightarrow> cnt0 th < PSYNC_WR_RESERVED - 1 \<and> (cnt1 th < PSYNC_WR_RESERVED - 1 \<or> cnt1 th = PSYNC_WR_RESERVED)"

definition rw_enabled :: "rw_event \<Rightarrow> tid \<Rightarrow> psync_rwlock \<Rightarrow> bool" where
  "rw_enabled ev t s \<longleftrightarrow>
     (let th = thr s t in
      case ev of
        Wake \<Rightarrow> tpc th \<noteq> Running
      | Timeout_rd \<Rightarrow> tpc th = In_timedrdlock \<and> \<not> twoken th
      | Timeout_wr \<Rightarrow> tpc th = In_timedwrlock \<and> \<not> twoken th
      | Rdlock \<Rightarrow> tpc th = Running \<and> nesting_ok th
      | Tryrdlock \<Rightarrow> tpc th = Running \<and> nesting_ok th
      | Timedrdlock \<Rightarrow> tpc th = Running \<and> nesting_ok th
      | Rdlock_starvewr \<Rightarrow> tpc th = Running \<and> nesting_ok th
      | Wrlock \<Rightarrow> tpc th = Running \<and> nesting_ok th
      | Trywrlock \<Rightarrow> tpc th = Running \<and> nesting_ok th
      | Timedwrlock \<Rightarrow> tpc th = Running \<and> nesting_ok th
      | Rslock \<Rightarrow> tpc th = Running \<and> nesting_ok th
      | Towrlock \<Rightarrow> tpc th = Running \<and> (cnt0 th \<noteq> 0 \<or> cnt1 th \<noteq> 0)
      | Unlock \<Rightarrow> tpc th = Running)"

text \<open>The thread a signal wakes waits and has not been signalled yet, if there is such a thread.\<close>

definition signals :: "tid \<Rightarrow> psync_rwlock \<Rightarrow> bool" where
  "signals w s \<longleftrightarrow> (\<forall>v. waits_wcond (thr s v) \<and> \<not> twoken (thr s v) \<longrightarrow> waits_wcond (thr s w) \<and> \<not> twoken (thr s w))"

fun rw_after :: "rw_outcome \<Rightarrow> psync_rwlock option" where
  "rw_after (Returns r s) = Some s"
| "rw_after (Waits s) = Some s"
| "rw_after Aborts = None"

text \<open>The states that runs with the events \<open>E\<close> reach; \<open>None\<close> is a failed assertion.\<close>

inductive rw_reachable :: "rw_event set \<Rightarrow> psync_rwlock option \<Rightarrow> bool" for E where
  init: "rw_reachable E (Some psync_rwlock_init)"
| step: "rw_reachable E (Some s) \<Longrightarrow> ev \<in> E \<Longrightarrow> rw_enabled ev t s \<Longrightarrow> signals w s \<Longrightarrow> rw_reachable E (rw_after (rw_run ev t w s))"

subsection \<open>Counting threads\<close>

definition num :: "(rw_thread \<Rightarrow> bool) \<Rightarrow> psync_rwlock \<Rightarrow> int" where
  "num P s = int (card {t. P (thr s t)})"

definition few :: "psync_rwlock \<Rightarrow> bool" where
  "few s \<longleftrightarrow> finite {t. thr s t \<noteq> idle_thread}"

text \<open>Who holds the lock: the thread that upgrades has given its read lock back while it waits.\<close>

definition reading :: "rw_thread \<Rightarrow> bool" where
  "reading th \<longleftrightarrow> cnt0 th \<noteq> 0 \<and> tpc th \<noteq> In_towrlock"

definition writing :: "rw_thread \<Rightarrow> bool" where
  "writing th \<longleftrightarrow> cnt0 th = 0 \<and> cnt1 th \<noteq> 0"

definition reserving :: "rw_thread \<Rightarrow> bool" where
  "reserving th \<longleftrightarrow> cnt1 th = PSYNC_WR_RESERVED \<or> tpc th = In_towrlock"

definition starving :: "rw_thread \<Rightarrow> bool" where
  "starving th \<longleftrightarrow> tpc th = In_rdlock_starvewr"

lemma few_finite: "few s \<Longrightarrow> \<not> P idle_thread \<Longrightarrow> finite {t. P (thr s t)}"
  unfolding few_def by (rule finite_subset [rotated]) auto

lemma num_nonneg [simp]: "0 \<le> num P s"
  by (simp add: num_def)

lemma num_eq_0: "few s \<Longrightarrow> \<not> P idle_thread \<Longrightarrow> num P s = 0 \<longleftrightarrow> (\<forall>t. \<not> P (thr s t))"
  using few_finite [of s P] by (auto simp: num_def)

lemma num_pos: "few s \<Longrightarrow> \<not> P idle_thread \<Longrightarrow> P (thr s t) \<Longrightarrow> 0 < num P s"
  using num_eq_0 [of s P] num_nonneg [of P s] by (metis order_le_less)

lemma num_posE: "0 < num P s \<Longrightarrow> \<exists>t. P (thr s t)"
  by (auto simp: num_def card_gt_0_iff)

lemma num_update:
  assumes "few s" and "\<not> P idle_thread" and "thr s' = (thr s)(t := x)"
  shows "num P s' = num P s - (if P (thr s t) then 1 else 0) + (if P x then 1 else 0)"
proof -
  have fin: "finite {v. P (thr s v)}" using assms(1,2) by (rule few_finite)
  define F where "F = {v. P (thr s v)} - {t}"
  have F: "finite F" "t \<notin> F" using fin by (simp_all add: F_def)
  have "{v. P (thr s' v)} = (if P x then insert t F else F)" unfolding assms(3) F_def by auto
  then have "int (card {v. P (thr s' v)}) = int (card F) + (if P x then 1 else 0)"
    using F by simp
  moreover have "int (card F) = int (card {v. P (thr s v)}) - (if P (thr s t) then 1 else 0)"
    unfolding F_def using fin card_gt_0_iff [of "{v. P (thr s v)}"] by (auto simp: card_Diff_singleton_if)
  ultimately show ?thesis by (simp add: num_def)
qed

lemma few_update: "few s \<Longrightarrow> thr s' = (thr s)(t := x) \<Longrightarrow> few s'"
proof -
  assume few: "few s" and "thr s' = (thr s)(t := x)"
  then have "{v. thr s' v \<noteq> idle_thread} \<subseteq> insert t {v. thr s v \<noteq> idle_thread}" by auto
  then show "few s'" using few unfolding few_def by (metis (no_types, lifting) finite_insert finite_subset)
qed

lemma num_cong: "(\<And>t. P (thr s' t) \<longleftrightarrow> Q (thr s t)) \<Longrightarrow> num P s' = num Q s"
  by (simp add: num_def)

lemma idle_none [simp]:
  "\<not> reading idle_thread" "\<not> writing idle_thread" "\<not> reserving idle_thread" "\<not> starving idle_thread"
  "\<not> waits_rcond idle_thread" "\<not> waits_wcond idle_thread"
  by (simp_all add: reading_def writing_def reserving_def starving_def waits_rcond_def waits_wcond_def idle_thread_def)

subsection \<open>The counts are right\<close>

definition thread_ok :: "rw_thread \<Rightarrow> bool" where
  "thread_ok th \<longleftrightarrow> cnt0 th \<noteq> PSYNC_WR_RESERVED \<and> (cnt0 th \<noteq> 0 \<longrightarrow> cnt1 th = 0 \<or> cnt1 th = PSYNC_WR_RESERVED) \<and>
     (cnt1 th = PSYNC_WR_RESERVED \<longrightarrow> cnt0 th \<noteq> 0) \<and>
     (tpc th \<noteq> Running \<and> tpc th \<noteq> In_towrlock \<longrightarrow> cnt0 th = 0 \<and> cnt1 th = 0) \<and> (tpc th = In_towrlock \<longrightarrow> cnt0 th \<noteq> 0) \<and>
     (twoken th \<longrightarrow> tpc th \<noteq> Running)"

definition rw_inv :: "psync_rwlock \<Rightarrow> bool" where
  "rw_inv s \<longleftrightarrow> few s \<and> (\<forall>t. thread_ok (thr s t)) \<and> rcount s = num reading s \<and> wcount s = num writing s \<and>
     rwait s = num waits_rcond s \<and> wwait s = num waits_wcond s \<and> wcount s \<le> 1 \<and> (rcount s = 0 \<or> wcount s = 0) \<and>
     num reserving s = (if opts s AND PSYNC_RW_OPT_RESERVED \<noteq> 0 then 1 else 0) \<and>
     (opts s AND PSYNC_RW_OPT_PREFER_READ \<noteq> 0 \<longrightarrow> 0 < num starving s)"

fun returns_with :: "(psync_rwlock \<Rightarrow> bool) \<Rightarrow> rw_outcome \<Rightarrow> bool" where
  "returns_with P (Returns r s) \<longleftrightarrow> P s"
| "returns_with P (Waits s) \<longleftrightarrow> P s"
| "returns_with P Aborts \<longleftrightarrow> True"

lemma opts_bits:
  "(x OR PSYNC_RW_OPT_RESERVED) AND PSYNC_RW_OPT_RESERVED \<noteq> (0 :: u32)"
  "(x OR PSYNC_RW_OPT_PREFER_READ) AND PSYNC_RW_OPT_PREFER_READ \<noteq> (0 :: u32)"
  "(x OR PSYNC_RW_OPT_RESERVED) AND PSYNC_RW_OPT_PREFER_READ = x AND PSYNC_RW_OPT_PREFER_READ"
  "(x OR PSYNC_RW_OPT_PREFER_READ) AND PSYNC_RW_OPT_RESERVED = x AND PSYNC_RW_OPT_RESERVED"
  "x AND NOT PSYNC_RW_OPT_RESERVED AND PSYNC_RW_OPT_RESERVED = 0"
  "x AND NOT PSYNC_RW_OPT_PREFER_READ AND PSYNC_RW_OPT_PREFER_READ = 0"
  "x AND NOT PSYNC_RW_OPT_RESERVED AND PSYNC_RW_OPT_PREFER_READ = x AND PSYNC_RW_OPT_PREFER_READ"
  "x AND NOT PSYNC_RW_OPT_PREFER_READ AND PSYNC_RW_OPT_RESERVED = x AND PSYNC_RW_OPT_RESERVED"
  "(x AND - 3) AND PSYNC_RW_OPT_RESERVED = 0"
  "(x AND - 2) AND PSYNC_RW_OPT_PREFER_READ = 0"
  "(x AND - 3) AND PSYNC_RW_OPT_PREFER_READ = x AND PSYNC_RW_OPT_PREFER_READ"
  "(x AND - 2) AND PSYNC_RW_OPT_RESERVED = x AND PSYNC_RW_OPT_RESERVED"
  by (simp_all add: bit.conj_disj_distrib2 and.assoc)

lemmas rw_updates = psync_rwlock_set_count_def cond_wait_def rd_acquire_def wr_acquire_def

lemma inv_set:
  assumes "rw_inv s" and "thr s' = (thr s)(t := x)" and "thread_ok x" and "rcount s' = rcount s - (if reading (thr s t) then 1 else 0) + (if reading x then 1 else 0)"
    and "wcount s' = wcount s - (if writing (thr s t) then 1 else 0) + (if writing x then 1 else 0)"
    and "rwait s' = rwait s - (if waits_rcond (thr s t) then 1 else 0) + (if waits_rcond x then 1 else 0)"
    and "wwait s' = wwait s - (if waits_wcond (thr s t) then 1 else 0) + (if waits_wcond x then 1 else 0)"
    and "wcount s' \<le> 1" and "rcount s' = 0 \<or> wcount s' = 0"
    and "(if opts s' AND PSYNC_RW_OPT_RESERVED \<noteq> 0 then 1 else 0) =
      (if opts s AND PSYNC_RW_OPT_RESERVED \<noteq> 0 then 1 else 0) - (if reserving (thr s t) then 1 else 0) + (if reserving x then (1 :: int) else 0)"
    and "opts s' AND PSYNC_RW_OPT_PREFER_READ \<noteq> 0 \<longrightarrow> starving x \<or> opts s AND PSYNC_RW_OPT_PREFER_READ \<noteq> 0 \<and> \<not> starving (thr s t)"
  shows "rw_inv s'"
proof -
  have few: "few s" using assms(1) by (simp add: rw_inv_def)
  note n = num_update [OF few _ assms(2)]
  have p: "num P s' = num P s - (if P (thr s t) then 1 else 0) + (if P x then 1 else 0)" if "\<not> P idle_thread" for P
    using that by (rule n)
  have "thread_ok (thr s' v)" for v using assms(1,2,3) by (simp add: rw_inv_def)
  moreover have "0 < num starving s'" if "opts s' AND PSYNC_RW_OPT_PREFER_READ \<noteq> 0"
  proof -
    have "0 < num starving s" if "opts s AND PSYNC_RW_OPT_PREFER_READ \<noteq> 0" using that assms(1) by (simp add: rw_inv_def)
    moreover have "0 \<le> num starving s - (if starving (thr s t) then 1 else 0)"
      using num_pos [OF few, of starving t] by (auto simp: int_one_le_iff_zero_less)
    ultimately show ?thesis using assms(11) that by (auto simp: p split: if_splits)
  qed
  moreover have "num reserving s' = (if opts s' AND PSYNC_RW_OPT_RESERVED \<noteq> 0 then 1 else 0)"
    unfolding p [of reserving, OF idle_none(3)] assms(10) using assms(1) by (simp only: rw_inv_def)
  ultimately show ?thesis
    using assms(1,4-9) few_update [OF few assms(2)] by (simp add: rw_inv_def p)
qed

lemmas inv_wait = inv_set [of s s' t "(thr s t)\<lparr>tpc := k, twoken := False\<rparr>" for s s' t k]
lemmas inv_count = inv_set [of s s' t "(thr s t)\<lparr>cnt0 := rd, cnt1 := wr\<rparr>" for s s' t rd wr]

text \<open>Signals change who is woken, which the invariant does not look at.\<close>

lemma inv_woken:
  assumes "rw_inv s" and "s' = s\<lparr>thr := f\<rparr>" and "\<And>t. f t = thr s t \<or> tpc (thr s t) \<noteq> Running \<and> (\<exists>b. f t = (thr s t)\<lparr>twoken := b\<rparr>)"
  shows "rw_inv s'"
proof -
  have same: "cnt0 (f t) = cnt0 (thr s t)" "cnt1 (f t) = cnt1 (thr s t)" "tpc (f t) = tpc (thr s t)" for t
    using assms(3) [of t] by auto
  have n: "num P s' = num P s" if "\<And>t. P (f t) = P (thr s t)" for P using that assms(2) by (intro num_cong) simp
  have "\<forall>t. thread_ok (f t)"
  proof
    fix t
    show "thread_ok (f t)" using assms(1) assms(3) [of t] by (auto simp: rw_inv_def thread_ok_def)
  qed
  moreover have "few s'"
  proof -
    have "f v = idle_thread" if "thr s v = idle_thread" for v using assms(3) [of v] that by (auto simp: idle_thread_def)
    then have "{t. f t \<noteq> idle_thread} \<subseteq> {t. thr s t \<noteq> idle_thread}" by auto
    then show ?thesis using assms(1,2) by (auto simp: few_def rw_inv_def intro: finite_subset)
  qed
  moreover have "num reading s' = num reading s" "num writing s' = num writing s" "num reserving s' = num reserving s"
    "num starving s' = num starving s" "num waits_rcond s' = num waits_rcond s" "num waits_wcond s' = num waits_wcond s"
    by (rule n, simp add: same reading_def writing_def reserving_def starving_def waits_rcond_def waits_wcond_def)+
  moreover have "rcount s' = rcount s" "wcount s' = wcount s" "rwait s' = rwait s" "wwait s' = wwait s" "opts s' = opts s"
    "thr s' = f" using assms(2) by simp_all
  ultimately show ?thesis using assms(1) unfolding rw_inv_def by (simp only:) (elim conjE, simp)
qed

lemma inv_broadcast: "rw_inv s \<Longrightarrow> rw_inv (broadcast_rcond s)" "rw_inv s \<Longrightarrow> rw_inv (broadcast_wcond s)" "rw_inv s \<Longrightarrow> rw_inv (signal_wcond w s)"
proof -
  show "rw_inv s \<Longrightarrow> rw_inv (broadcast_rcond s)"
    by (erule inv_woken) (auto simp: broadcast_rcond_def waits_rcond_def)
  show "rw_inv s \<Longrightarrow> rw_inv (broadcast_wcond s)"
    by (erule inv_woken) (auto simp: broadcast_wcond_def waits_wcond_def)
  show "rw_inv s \<Longrightarrow> rw_inv (signal_wcond w s)"
  proof (cases "waits_wcond (thr s w)")
    case True
    then show "rw_inv s \<Longrightarrow> rw_inv (signal_wcond w s)"
      by (erule_tac inv_woken) (auto simp: signal_wcond_def waits_wcond_def split: if_splits)
  qed (simp add: signal_wcond_def)
qed

subsection \<open>Every step keeps the invariant\<close>

lemma inv_thread: "rw_inv s \<Longrightarrow> thread_ok (thr s t)"
  by (simp add: rw_inv_def)

lemmas thread_kinds = reading_def writing_def reserving_def starving_def waits_rcond_def waits_wcond_def

lemma inv_counts:
  assumes "rw_inv s"
  shows "reading (thr s t) \<Longrightarrow> 0 < rcount s" "writing (thr s t) \<Longrightarrow> 0 < wcount s" "reserving (thr s t) \<Longrightarrow> opts s AND PSYNC_RW_OPT_RESERVED \<noteq> 0"
    "waits_rcond (thr s t) \<Longrightarrow> 0 < rwait s" "waits_wcond (thr s t) \<Longrightarrow> 0 < wwait s"
    "0 \<le> rcount s" "0 \<le> wcount s" "wcount s \<le> 1" "rcount s = 0 \<or> wcount s = 0" "0 \<le> rwait s" "0 \<le> wwait s"
  using assms num_pos [of s reading t] num_pos [of s writing t] num_pos [of s reserving t] num_pos [of s waits_rcond t]
    num_pos [of s waits_wcond t] unfolding rw_inv_def by (auto split: if_splits)

lemma inv_excl: "rw_inv s \<Longrightarrow> wcount s \<noteq> 0 \<Longrightarrow> rcount s = 0" "rw_inv s \<Longrightarrow> rcount s \<noteq> 0 \<Longrightarrow> wcount s = 0"
  by (auto simp: rw_inv_def)

text \<open>A thread that runs and holds nothing.\<close>

definition free_thread :: "rw_thread \<Rightarrow> bool" where
  "free_thread th \<longleftrightarrow> cnt0 th = 0 \<and> cnt1 th = 0 \<and> tpc th = Running \<and> \<not> twoken th"

lemma inv_rd_acquire: "rw_inv s \<Longrightarrow> free_thread (thr s t) \<Longrightarrow> wcount s = 0 \<Longrightarrow> returns_with rw_inv (rd_acquire t s)"
  by (simp add: rd_acquire_def psync_rwlock_set_count_def)
    (rule inv_count, assumption, simp, simp_all add: thread_ok_def thread_kinds free_thread_def rw_inv_def)

lemma inv_wr_acquire:
  "rw_inv s \<Longrightarrow> free_thread (thr s t) \<Longrightarrow> rcount s = 0 \<Longrightarrow> wcount s = 0 \<Longrightarrow> returns_with rw_inv (wr_acquire t s)"
  by (simp add: wr_acquire_def psync_rwlock_set_count_def)
    (rule inv_count, assumption, simp, simp_all add: thread_ok_def thread_kinds free_thread_def rw_inv_def)

lemma inv_rdlock_loop:
  "rw_inv s \<Longrightarrow> free_thread (thr s t) \<Longrightarrow> k = In_rdlock \<or> k = In_timedrdlock \<Longrightarrow> returns_with rw_inv (rdlock_loop k t s)"
  unfolding rdlock_loop_def
  by (auto intro!: inv_rd_acquire inv_wait [of s _ t] simp: rd_blocked_def cond_wait_def thread_ok_def thread_kinds free_thread_def inv_counts inv_excl(1))

lemma inv_starvewr_loop: "rw_inv s \<Longrightarrow> free_thread (thr s t) \<Longrightarrow> returns_with rw_inv (starvewr_loop t s)"
  unfolding starvewr_loop_def
  by (auto intro!: inv_rd_acquire inv_wait [of s _ t] simp: cond_wait_def thread_ok_def thread_kinds free_thread_def inv_counts inv_excl(1) opts_bits)

lemma inv_wrlock_loop:
  "rw_inv s \<Longrightarrow> free_thread (thr s t) \<Longrightarrow> k = In_wrlock \<or> k = In_timedwrlock \<Longrightarrow> returns_with rw_inv (wrlock_loop k t s)"
  unfolding wrlock_loop_def
  by (auto intro!: inv_wr_acquire inv_wait [of s _ t] simp: cond_wait_def thread_ok_def thread_kinds free_thread_def inv_counts inv_excl(1))

lemma inv_rslock_loop: "rw_inv s \<Longrightarrow> free_thread (thr s t) \<Longrightarrow> returns_with rw_inv (rslock_loop t s)"
proof -
  assume inv: "rw_inv s" and free: "free_thread (thr s t)"
  have acq: "rw_inv (psync_rwlock_set_count t 1 PSYNC_WR_RESERVED (s'\<lparr>rcount := rcount s' + 1, opts := opts s' OR PSYNC_RW_OPT_RESERVED\<rparr>))"
    if "rw_inv s'" "free_thread (thr s' t)" "wcount s' = 0" "opts s' AND PSYNC_RW_OPT_RESERVED = 0" for s'
    by (rule inv_count [OF that(1), where t = t and rd = 1 and wr = PSYNC_WR_RESERVED]) (use that in \<open>auto simp: psync_rwlock_set_count_def thread_ok_def thread_kinds free_thread_def opts_bits\<close>)
  have "free_thread (thr (broadcast_rcond s) t)" using free by (simp add: broadcast_rcond_def free_thread_def waits_rcond_def)
  moreover have "rw_inv (cond_wait t In_rslock (s\<lparr>wwait := wwait s + 1\<rparr>))" 
    by (rule inv_wait [OF inv, where t = t and k = In_rslock]) (use inv free in \<open>auto simp: cond_wait_def thread_ok_def thread_kinds free_thread_def inv_counts inv_excl(1)\<close>)
  ultimately show ?thesis unfolding rslock_loop_def
    using acq [OF inv free] acq [OF inv_broadcast(1) [OF inv]] by (auto simp: Let_def broadcast_rcond_def)
qed

text \<open>A count that stays of the same kind.\<close>

lemma inv_recount:
  assumes "rw_inv s" and "thread_ok ((thr s t)\<lparr>cnt0 := rd, cnt1 := wr\<rparr>)" and "rd = 0 \<longleftrightarrow> cnt0 (thr s t) = 0"
    and "wr = 0 \<longleftrightarrow> cnt1 (thr s t) = 0" and "wr = PSYNC_WR_RESERVED \<longleftrightarrow> cnt1 (thr s t) = PSYNC_WR_RESERVED"
  shows "rw_inv (psync_rwlock_set_count t rd wr s)"
proof -
  let ?x = "(thr s t)\<lparr>cnt0 := rd, cnt1 := wr\<rparr>"
  have "reading ?x = reading (thr s t)" "writing ?x = writing (thr s t)" "reserving ?x = reserving (thr s t)"
    "starving ?x = starving (thr s t)" "waits_rcond ?x = waits_rcond (thr s t)" "waits_wcond ?x = waits_wcond (thr s t)"
    using assms(3-5) by (simp_all add: thread_kinds)
  moreover have "num starving s > 0" if "opts s AND PSYNC_RW_OPT_PREFER_READ \<noteq> 0" using assms(1) that by (simp add: rw_inv_def)
  ultimately show ?thesis using inv_counts(8,9) [OF assms(1)]
    by (intro inv_set [OF assms(1), of _ t ?x]) (simp_all add: psync_rwlock_set_count_def assms(2))
qed

lemma succ_small: "x < PSYNC_WR_RESERVED - 1 \<Longrightarrow> x + 1 \<noteq> PSYNC_WR_RESERVED \<and> x + 1 \<noteq> (0 :: u32)"
proof -
  assume x: "x < PSYNC_WR_RESERVED - 1"
  have "x = y - 1" if "x + 1 = y" for y using that by (simp add: eq_diff_eq)
  then show ?thesis using x by fastforce
qed

lemma inv_recursive_in:
  assumes "rw_inv s" and "nesting_ok (thr s t)" and "tpc (thr s t) = Running"
  shows "psync_rwlock_check_rdrecursive_in t s = Some (b, s') \<Longrightarrow> rw_inv s' \<and> (\<not> b \<longrightarrow> s' = s \<and> free_thread (thr s t))"
    "psync_rwlock_check_wrrecursive_in t s = Some (b, s') \<Longrightarrow> rw_inv s' \<and> (\<not> b \<longrightarrow> s' = s \<and> free_thread (thr s t))"
proof -
  have nest: "cnt0 (thr s t) + 1 \<noteq> PSYNC_WR_RESERVED" "cnt0 (thr s t) + 1 \<noteq> 0"
      "cnt1 (thr s t) \<noteq> PSYNC_WR_RESERVED \<Longrightarrow> cnt1 (thr s t) + 1 \<noteq> PSYNC_WR_RESERVED \<and> cnt1 (thr s t) + 1 \<noteq> 0"
    using assms(2) succ_small unfolding nesting_ok_def by blast+
  have "rw_inv (psync_rwlock_set_count t (cnt0 (thr s t) + 1) (cnt1 (thr s t)) s)" if "cnt0 (thr s t) \<noteq> 0"
    using nest inv_thread [OF assms(1), of t] that
    by (intro inv_recount [OF assms(1)]) (auto simp: thread_ok_def)
  moreover have "rw_inv (psync_rwlock_set_count t (cnt0 (thr s t)) (cnt1 (thr s t) + 1) s)"
    if "cnt0 (thr s t) = 0" "cnt1 (thr s t) \<noteq> 0" "cnt1 (thr s t) \<noteq> PSYNC_WR_RESERVED"
    using nest inv_thread [OF assms(1), of t] that
    by (intro inv_recount [OF assms(1)]) (auto simp: thread_ok_def)
  ultimately show "psync_rwlock_check_rdrecursive_in t s = Some (b, s') \<Longrightarrow> rw_inv s' \<and> (\<not> b \<longrightarrow> s' = s \<and> free_thread (thr s t))"
    "psync_rwlock_check_wrrecursive_in t s = Some (b, s') \<Longrightarrow> rw_inv s' \<and> (\<not> b \<longrightarrow> s' = s \<and> free_thread (thr s t))"
    using assms(1,3) inv_thread [OF assms(1), of t]
    by (auto simp: psync_rwlock_check_rdrecursive_in_def psync_rwlock_check_wrrecursive_in_def free_thread_def thread_ok_def split: if_splits)
qed

lemma inv_rs_recursive:
  assumes "rw_inv s" and "nesting_ok (thr s t)" and "cnt0 (thr s t) = 0" and "cnt1 (thr s t) \<noteq> 0" and "cnt1 (thr s t) \<noteq> PSYNC_WR_RESERVED"
  shows "rw_inv (psync_rwlock_set_count t 0 (cnt1 (thr s t) + 1) s)"
  using succ_small [of "cnt1 (thr s t)"] assms(2-5) inv_thread [OF assms(1), of t]
  by (intro inv_recount [OF assms(1)]) (auto simp: thread_ok_def nesting_ok_def)

lemma inv_rslock:
  "rw_inv s \<Longrightarrow> nesting_ok (thr s t) \<Longrightarrow> tpc (thr s t) = Running \<Longrightarrow> returns_with rw_inv (psync_rwlock_rslock t s)"
  using inv_rslock_loop [of s t] inv_rs_recursive [of s t] inv_thread [of s t]
  by (auto simp: psync_rwlock_rslock_def free_thread_def thread_ok_def)

lemma inv_towrlock_loop:
  assumes "rw_inv s'" and "tpc (thr s t) = Running" and "thr s = thr s'" and "cnt0 (thr s t) \<noteq> 0" and "cnt1 (thr s t) = 0 \<or> cnt1 (thr s t) = PSYNC_WR_RESERVED"
    and "opts s AND PSYNC_RW_OPT_RESERVED \<noteq> 0" and "cnt1 (thr s t) = 0 \<longleftrightarrow> opts s' AND PSYNC_RW_OPT_RESERVED = 0" and "rcount s = rcount s' - 1"
    and "wcount s = wcount s'" "rwait s = rwait s'" "wwait s = wwait s'" 
    and "opts s AND PSYNC_RW_OPT_PREFER_READ = opts s' AND PSYNC_RW_OPT_PREFER_READ"
  shows "returns_with rw_inv (towrlock_loop t s)"
proof -
  have ok: "thread_ok (thr s' t)" "rcount s' \<noteq> 0" "wcount s' = 0"
    using inv_thread [OF assms(1)] inv_counts(1) [OF assms(1), of t] inv_excl(2) [OF assms(1)] assms(2-5) by (auto simp: reading_def)
  then have cnt: "cnt0 (thr s' t) \<noteq> PSYNC_WR_RESERVED" "\<not> twoken (thr s' t)" using assms(2,3) by (simp_all add: thread_ok_def)
  have "rw_inv (cond_wait t In_towrlock (s\<lparr>wwait := wwait s + 1\<rparr>))"
    by (rule inv_wait [OF assms(1), where t = t and k = In_towrlock]) (use assms ok cnt in \<open>auto simp: cond_wait_def thread_ok_def thread_kinds\<close>)
  moreover have "rw_inv (psync_rwlock_set_count t 0 (cnt0 (thr s t)) (s\<lparr>wcount := wcount s + 1, opts := opts s AND NOT PSYNC_RW_OPT_RESERVED\<rparr>))"
    if "rcount s = 0" "wcount s = 0"
    by (rule inv_count [OF assms(1), where t = t and rd = 0 and wr = "cnt0 (thr s t)"]) (use assms ok cnt that in \<open>auto simp: psync_rwlock_set_count_def thread_ok_def thread_kinds opts_bits\<close>)
  ultimately show ?thesis by (simp add: towrlock_loop_def del: bit.double_compl word_not_simps)
qed

lemma inv_towrlock:
  assumes "rw_inv s" and "tpc (thr s t) = Running" and "cnt0 (thr s t) \<noteq> 0 \<or> cnt1 (thr s t) \<noteq> 0"
  shows "returns_with rw_inv (psync_rwlock_towrlock t s)"
proof -
  have ok: "thread_ok (thr s t)" using inv_thread [OF assms(1)] .
  let ?s = "s\<lparr>opts := opts s OR PSYNC_RW_OPT_RESERVED, rcount := rcount s - 1\<rparr>"
  have "returns_with rw_inv (towrlock_loop t ?s)"
    if "cnt1 (thr s t) = 0 \<or> cnt1 (thr s t) = PSYNC_WR_RESERVED" "cnt1 (thr s t) = 0 \<longleftrightarrow> opts s AND PSYNC_RW_OPT_RESERVED = 0"
    by (rule inv_towrlock_loop [OF assms(1)]) (use assms ok that in \<open>auto simp: opts_bits thread_ok_def\<close>)
  moreover have "cnt1 (thr s t) = PSYNC_WR_RESERVED \<Longrightarrow> opts s AND PSYNC_RW_OPT_RESERVED \<noteq> 0"
    using inv_counts(3) [OF assms(1), of t] by (simp add: reserving_def)
  ultimately show ?thesis using assms(1) by (auto simp: psync_rwlock_towrlock_def)
qed

lemma signals_kept: "rcount (signal_wcond w s) = rcount s" "opts (signal_wcond w s) = opts s" "wwait (signal_wcond w s) = wwait s"
  by (simp_all add: signal_wcond_def)

text \<open>The last release of a lock: the thread is free again, and the signals change nothing the invariant sees.\<close>

lemma inv_maybe: "rw_inv s \<Longrightarrow> rw_inv (if a then (if b then broadcast_wcond s else signal_wcond w s) else s)"
  by (simp add: inv_broadcast)

definition reader_gone :: "tid \<Rightarrow> psync_rwlock \<Rightarrow> psync_rwlock" where
  "reader_gone t s = (psync_rwlock_set_count t 0 0 s)
     \<lparr>opts := (if cnt1 (thr s t) = PSYNC_WR_RESERVED then opts s AND NOT PSYNC_RW_OPT_RESERVED else opts s), rcount := rcount s - 1\<rparr>"

definition writer_gone :: "tid \<Rightarrow> psync_rwlock \<Rightarrow> psync_rwlock" where
  "writer_gone t s = (psync_rwlock_set_count t 0 0 s)\<lparr>wcount := 0\<rparr>"

lemma unlock_reader_at_last:
  assumes "rw_inv s" and "cnt0 (thr s t) = 1"
  shows "unlock_reader t w (psync_rwlock_set_count t 0 (cnt1 (thr s t)) s) =
    (if rcount (reader_gone t s) = 0 \<and> wwait (reader_gone t s) \<noteq> 0 then
       (if opts (reader_gone t s) AND PSYNC_RW_OPT_RESERVED \<noteq> 0 then broadcast_wcond (reader_gone t s) else signal_wcond w (reader_gone t s))
     else reader_gone t s)"
proof (cases "cnt1 (thr s t) = PSYNC_WR_RESERVED")
  case True
  then have "opts s AND PSYNC_RW_OPT_RESERVED \<noteq> 0" using inv_counts(3) [OF assms(1), of t] by (simp add: reserving_def)
  then show ?thesis using True
    by (simp add: unlock_reader_def reader_gone_def psync_rwlock_is_reserved_by_this_thread_clr_def psync_rwlock_set_count_def Let_def)
next
  case False
  then have "cnt1 (thr s t) = 0" using inv_thread [OF assms(1), of t] assms(2) by (auto simp: thread_ok_def)
  then show ?thesis
    by (simp add: unlock_reader_def reader_gone_def psync_rwlock_is_reserved_by_this_thread_clr_def psync_rwlock_set_count_def Let_def)
qed

lemma inv_reader_gone:
  assumes "rw_inv s" and "tpc (thr s t) = Running" and "cnt0 (thr s t) = 1"
  shows "rw_inv (reader_gone t s)"
proof -
  have ok: "thread_ok (thr s t)" using inv_thread [OF assms(1)] .
  have res: "cnt1 (thr s t) = PSYNC_WR_RESERVED \<Longrightarrow> opts s AND PSYNC_RW_OPT_RESERVED \<noteq> 0"
    using inv_counts(3) [OF assms(1), of t] by (simp add: reserving_def)
  have pos: "rcount s \<noteq> 0" using inv_counts(1) [OF assms(1), of t] assms(2,3) by (simp add: reading_def)
  show ?thesis unfolding reader_gone_def
    by (rule inv_count [OF assms(1), where t = t and rd = 0 and wr = 0]) (use assms(2,3) ok res inv_excl(2) [OF assms(1) pos] in
      \<open>auto simp: psync_rwlock_set_count_def thread_ok_def thread_kinds opts_bits\<close>)
qed

lemma inv_unlock_reader:
  assumes "rw_inv s" and "tpc (thr s t) = Running" and "cnt0 (thr s t) = 1"
  shows "rw_inv (unlock_reader t w (psync_rwlock_set_count t 0 (cnt1 (thr s t)) s))"
  unfolding unlock_reader_at_last [OF assms(1,3)] by (rule inv_maybe) (rule inv_reader_gone [OF assms])

lemma unlock_writer_at_last:
  assumes "rw_inv s" and "cnt0 (thr s t) = 0" and "cnt1 (thr s t) = 1"
  shows "unlock_writer w (psync_rwlock_set_count t 0 0 s) =
    (if opts s AND PSYNC_RW_OPT_RESERVED \<noteq> 0 then
       (if wwait s = 0 then Aborts else Returns 0 (broadcast_wcond (writer_gone t s)))
     else if opts s AND PSYNC_RW_OPT_PREFER_READ \<noteq> 0 then
       Returns 0 (if rwait s \<noteq> 0 then broadcast_rcond (writer_gone t s) else if wwait s \<noteq> 0 then signal_wcond w (writer_gone t s) else writer_gone t s)
     else Returns 0 (if wwait s \<noteq> 0 then signal_wcond w (writer_gone t s) else if rwait s \<noteq> 0 then broadcast_rcond (writer_gone t s) else writer_gone t s))"
proof -
  have "wcount s = 1" using inv_counts(2) [OF assms(1), of t] inv_counts(8) [OF assms(1)] assms(2,3) by (simp add: writing_def)
  then show ?thesis by (simp add: unlock_writer_def writer_gone_def Let_def psync_rwlock_set_count_def)
qed

lemma inv_writer_gone:
  assumes "rw_inv s" and "tpc (thr s t) = Running" and "cnt0 (thr s t) = 0" and "cnt1 (thr s t) = 1"
  shows "rw_inv (writer_gone t s)"
proof -
  have one: "wcount s = 1" using inv_counts(2) [OF assms(1), of t] inv_counts(8) [OF assms(1)] assms(3,4) by (simp add: writing_def)
  then show ?thesis unfolding writer_gone_def
    by (intro inv_count [OF assms(1), where t = t and rd = 0 and wr = 0]) (use assms(2-4) inv_excl(1) [OF assms(1)] inv_thread [OF assms(1), of t] in
      \<open>auto simp: psync_rwlock_set_count_def thread_ok_def thread_kinds\<close>)
qed

lemma inv_unlock_writer:
  assumes "rw_inv s" and "tpc (thr s t) = Running" and "cnt0 (thr s t) = 0" and "cnt1 (thr s t) = 1"
  shows "returns_with rw_inv (unlock_writer w (psync_rwlock_set_count t 0 0 s))"
  unfolding unlock_writer_at_last [OF assms(1,3,4)] using inv_broadcast [OF inv_writer_gone [OF assms]] inv_writer_gone [OF assms] by simp

lemma inv_rw_unlock:
  assumes "rw_inv s" and "tpc (thr s t) = Running"
  shows "returns_with rw_inv (psync_rwlock_unlock t w s)"
proof -
  have ok: "thread_ok (thr s t)" using inv_thread [OF assms(1)] .
  have minus: "x - 1 \<noteq> PSYNC_WR_RESERVED" if "x \<noteq> 0" for x :: u32 using that by simp
  have "rw_inv (psync_rwlock_set_count t (cnt0 (thr s t) - 1) (cnt1 (thr s t)) s)" if "cnt0 (thr s t) \<noteq> 0" "cnt0 (thr s t) \<noteq> 1"
    using ok that minus by (intro inv_recount [OF assms(1)]) (auto simp: thread_ok_def)
  moreover have "rw_inv (psync_rwlock_set_count t 0 (cnt1 (thr s t) - 1) s)" if "cnt0 (thr s t) = 0" "cnt1 (thr s t) \<noteq> 0" "cnt1 (thr s t) \<noteq> 1"
    using ok that minus by (intro inv_recount [OF assms(1)]) (auto simp: thread_ok_def)
  moreover have "rcount s \<noteq> 0 \<and> wcount s = 0" if "cnt0 (thr s t) \<noteq> 0"
    using inv_counts(1) [OF assms(1), of t] inv_excl(2) [OF assms(1)] assms(2) that by (auto simp: reading_def)
  moreover have "rcount s = 0 \<and> wcount s \<noteq> 0" if "cnt0 (thr s t) = 0" "cnt1 (thr s t) \<noteq> 0"
    using inv_counts(2) [OF assms(1), of t] inv_excl(1) [OF assms(1)] that by (auto simp: writing_def)
  ultimately show ?thesis using inv_unlock_reader [OF assms] inv_unlock_writer [OF assms]
    by (auto simp: psync_rwlock_unlock_def psync_rwlock_check_recursive_out_def psync_rwlock_set_count_def word_gt_0 split: bool.splits)
qed

lemma inv_calls:
  assumes "rw_inv s" and "tpc (thr s t) = Running" and "nesting_ok (thr s t)"
  shows "returns_with rw_inv (psync_rwlock_rdlock t s)" "returns_with rw_inv (psync_rwlock_tryrdlock t s)"
    "returns_with rw_inv (psync_rwlock_timedrdlock t s)" "returns_with rw_inv (psync_rwlock_rdlock_starvewr t s)"
    "returns_with rw_inv (psync_rwlock_wrlock t s)" "returns_with rw_inv (psync_rwlock_trywrlock t s)"
    "returns_with rw_inv (psync_rwlock_timedwrlock t s)"
proof -
  note r = inv_recursive_in [OF assms(1,3,2)]
  have rd: "returns_with rw_inv (case psync_rwlock_check_rdrecursive_in t s of
      None \<Rightarrow> Aborts | Some (True, s) \<Rightarrow> Returns 0 s | Some (False, s) \<Rightarrow> f s)"
    if "free_thread (thr s t) \<Longrightarrow> returns_with rw_inv (f s)" for f
    using r(1) that by (auto split: option.splits bool.splits)
  have wr: "returns_with rw_inv (case psync_rwlock_check_wrrecursive_in t s of
      None \<Rightarrow> Aborts | Some (True, s) \<Rightarrow> Returns 0 s | Some (False, s) \<Rightarrow> f s)"
    if "free_thread (thr s t) \<Longrightarrow> returns_with rw_inv (f s)" for f
    using r(2) that by (auto split: option.splits bool.splits)
  show "returns_with rw_inv (psync_rwlock_rdlock t s)" "returns_with rw_inv (psync_rwlock_timedrdlock t s)"
    unfolding psync_rwlock_rdlock_def psync_rwlock_timedrdlock_def by (rule rd, rule inv_rdlock_loop, use assms in simp_all)+
  show "returns_with rw_inv (psync_rwlock_tryrdlock t s)"
    unfolding psync_rwlock_tryrdlock_def by (rule rd) (use inv_rd_acquire [OF assms(1)] assms(1) in \<open>auto simp: rd_blocked_def\<close>)
  show "returns_with rw_inv (psync_rwlock_rdlock_starvewr t s)"
    unfolding psync_rwlock_rdlock_starvewr_def by (rule rd) (rule inv_starvewr_loop [OF assms(1)])
  show "returns_with rw_inv (psync_rwlock_wrlock t s)" "returns_with rw_inv (psync_rwlock_timedwrlock t s)"
    unfolding psync_rwlock_wrlock_def psync_rwlock_timedwrlock_def by (rule wr, rule inv_wrlock_loop, use assms in simp_all)+
  show "returns_with rw_inv (psync_rwlock_trywrlock t s)"
    unfolding psync_rwlock_trywrlock_def by (rule wr) (use inv_wr_acquire [OF assms(1)] assms(1) in auto)
qed

text \<open>A thread that returns from its wait is first put back.\<close>

lemma inv_rwake:
  assumes "rw_inv s" and "tpc (thr s t) = In_rdlock \<or> tpc (thr s t) = In_timedrdlock"
  shows "rw_inv (cond_wait t Running (s\<lparr>rwait := rwait s - 1\<rparr>)) \<and> free_thread (thr (cond_wait t Running (s\<lparr>rwait := rwait s - 1\<rparr>)) t)"
proof -
  have ok: "cnt0 (thr s t) = 0" "cnt1 (thr s t) = 0" using inv_thread [OF assms(1), of t] assms(2) by (auto simp: thread_ok_def)
  have "rw_inv (cond_wait t Running (s\<lparr>rwait := rwait s - 1\<rparr>))"
    using assms(2)
    by (intro inv_wait [OF assms(1), where t = t and k = Running])
      (simp_all add: cond_wait_def thread_ok_def thread_kinds ok inv_counts(8,9) [OF assms(1)], auto)
  then show ?thesis using ok by (simp add: cond_wait_def free_thread_def)
qed

lemma inv_swake:
  assumes "rw_inv s" and "tpc (thr s t) = In_rdlock_starvewr"
  defines "s' \<equiv> (cond_wait t Running (s\<lparr>rwait := rwait s - 1\<rparr>))\<lparr>opts := opts s AND NOT PSYNC_RW_OPT_PREFER_READ\<rparr>"
  shows "rw_inv s' \<and> free_thread (thr s' t)"
proof -
  have ok: "cnt0 (thr s t) = 0" "cnt1 (thr s t) = 0" using inv_thread [OF assms(1), of t] assms(2) by (auto simp: thread_ok_def)
  have "rw_inv s'"
    using assms(2)
    by (intro inv_wait [OF assms(1), where t = t and k = Running])
      (simp_all add: s'_def cond_wait_def thread_ok_def thread_kinds opts_bits ok inv_counts(8,9) [OF assms(1)])
  then show ?thesis using ok by (simp add: s'_def cond_wait_def free_thread_def)
qed

lemma inv_wwake:
  assumes "rw_inv s" and "tpc (thr s t) = In_wrlock \<or> tpc (thr s t) = In_timedwrlock \<or> tpc (thr s t) = In_rslock"
  shows "rw_inv (cond_wait t Running (s\<lparr>wwait := wwait s - 1\<rparr>)) \<and> free_thread (thr (cond_wait t Running (s\<lparr>wwait := wwait s - 1\<rparr>)) t)"
proof -
  have ok: "cnt0 (thr s t) = 0" "cnt1 (thr s t) = 0" using inv_thread [OF assms(1), of t] assms(2) by (auto simp: thread_ok_def)
  have "rw_inv (cond_wait t Running (s\<lparr>wwait := wwait s - 1\<rparr>))"
    using assms(2)
    by (intro inv_wait [OF assms(1), where t = t and k = Running])
      (simp_all add: cond_wait_def thread_ok_def thread_kinds ok inv_counts(8,9) [OF assms(1)], auto)
  then show ?thesis using ok by (simp add: cond_wait_def free_thread_def)
qed

lemma inv_upwake:
  assumes "rw_inv s" and "tpc (thr s t) = In_towrlock"
  defines "s' \<equiv> cond_wait t Running (s\<lparr>wwait := wwait s - 1\<rparr>)"
  shows "returns_with rw_inv (towrlock_loop t s')"
proof -
  have ok: "thread_ok (thr s t)" using inv_thread [OF assms(1)] .
  have res: "opts s AND PSYNC_RW_OPT_RESERVED \<noteq> 0" using inv_counts(3) [OF assms(1), of t] assms(2) by (simp add: reserving_def)
  have "rw_inv (cond_wait t In_towrlock (s'\<lparr>wwait := wwait s' + 1\<rparr>))"
    using assms(2) ok
    by (intro inv_wait [OF assms(1), where t = t and k = In_towrlock])
      (simp_all add: s'_def cond_wait_def thread_ok_def thread_kinds inv_counts(8,9) [OF assms(1)])
  moreover have "rw_inv (psync_rwlock_set_count t 0 (cnt0 (thr s' t)) (s'\<lparr>wcount := wcount s' + 1, opts := opts s' AND NOT PSYNC_RW_OPT_RESERVED\<rparr>))"
    if "rcount s' = 0" "wcount s' = 0"
    using assms(2) ok that
    by (intro inv_set [OF assms(1), where t = t and x = "(thr s t)\<lparr>tpc := Running, twoken := False, cnt0 := 0, cnt1 := cnt0 (thr s t)\<rparr>"])
      (simp_all add: s'_def cond_wait_def psync_rwlock_set_count_def thread_ok_def thread_kinds opts_bits res)
  ultimately show ?thesis by (simp add: towrlock_loop_def)
qed

lemma inv_wake: "rw_inv s \<Longrightarrow> returns_with rw_inv (rw_wake t s)"
  using inv_rwake [of s t] inv_swake [of s t] inv_wwake [of s t] inv_upwake [of s t]
  by (cases "tpc (thr s t)")
    (auto simp: rw_wake_def Let_def cond_wait_def intro!: inv_rdlock_loop inv_starvewr_loop inv_wrlock_loop inv_rslock_loop)

lemma inv_timeout: "rw_inv s \<Longrightarrow> tpc (thr s t) = In_timedrdlock \<or> tpc (thr s t) = In_timedwrlock \<Longrightarrow> returns_with rw_inv (rw_timeout t s)"
  using inv_rwake [of s t] inv_wwake [of s t] by (auto simp: rw_timeout_def Let_def intro!: inv_broadcast)

lemma inv_run: "rw_inv s \<Longrightarrow> rw_enabled ev t s \<Longrightarrow> returns_with rw_inv (rw_run ev t w s)"
  using inv_calls [of s t] inv_rslock [of s t] inv_towrlock [of s t] inv_rw_unlock [of s t w] inv_wake [of s t] inv_timeout [of s t]
  by (cases ev) (simp_all add: rw_enabled_def Let_def)

lemma rw_after_Some: "rw_after r = Some s \<Longrightarrow> returns_with P r \<Longrightarrow> P s"
  by (cases r) simp_all

lemma inv_init: "rw_inv psync_rwlock_init"
proof -
  have "thread_ok idle_thread" by (simp add: thread_ok_def idle_thread_def)
  then show ?thesis by (simp add: rw_inv_def few_def num_def psync_rwlock_init_def)
qed

lemma rw_inv_reachable: "rw_reachable E (Some s) \<Longrightarrow> rw_inv s"
proof (induction "Some s" arbitrary: s rule: rw_reachable.induct)
  case init
  show ?case by (rule inv_init)
next
  case (step s ev t w s')
  then show ?case using rw_after_Some inv_run by metis
qed

subsection \<open>A free lock does not sleep\<close>

text \<open>
  When nobody holds the lock, a waiting upgrade has been signalled; if there is none, one of the waiting writers has been, or a reader that starves writers.
  Readers sleep only behind a writer.
\<close>

definition upgrader_woken :: "rw_thread \<Rightarrow> bool" where
  "upgrader_woken th \<longleftrightarrow> tpc th = In_towrlock \<and> twoken th"

definition taker_woken :: "rw_thread \<Rightarrow> bool" where
  "taker_woken th \<longleftrightarrow> (tpc th = In_wrlock \<or> tpc th = In_timedwrlock \<or> tpc th = In_rslock \<or> tpc th = In_rdlock_starvewr) \<and> twoken th"

definition reader_asleep :: "rw_thread \<Rightarrow> bool" where
  "reader_asleep th \<longleftrightarrow> waits_rcond th \<and> \<not> twoken th"

definition lock_free :: "psync_rwlock \<Rightarrow> bool" where
  "lock_free s \<longleftrightarrow> rcount s = 0 \<and> wcount s = 0"

definition rw_live :: "psync_rwlock \<Rightarrow> bool" where
  "rw_live s \<longleftrightarrow>
     (lock_free s \<and> opts s AND PSYNC_RW_OPT_RESERVED \<noteq> 0 \<longrightarrow> (\<exists>t. upgrader_woken (thr s t))) \<and>
     (lock_free s \<and> opts s AND PSYNC_RW_OPT_RESERVED = 0 \<and> wwait s \<noteq> 0 \<longrightarrow> (\<exists>t. taker_woken (thr s t))) \<and>
     ((\<exists>t. reader_asleep (thr s t)) \<longrightarrow> wcount s \<noteq> 0 \<or> wwait s \<noteq> 0)"

lemma live_set:
  assumes "rw_live s" and "thr s' = (thr s)(t := x)"
    and "lock_free s' \<Longrightarrow> lock_free s \<and> (opts s' AND PSYNC_RW_OPT_RESERVED = 0 \<longleftrightarrow> opts s AND PSYNC_RW_OPT_RESERVED = 0)"
    and "lock_free s' \<Longrightarrow> opts s AND PSYNC_RW_OPT_RESERVED \<noteq> 0 \<Longrightarrow> \<not> upgrader_woken (thr s t)"
    and "lock_free s' \<Longrightarrow> opts s AND PSYNC_RW_OPT_RESERVED = 0 \<Longrightarrow> \<not> taker_woken (thr s t) \<and> (wwait s' \<noteq> 0 \<longrightarrow> wwait s \<noteq> 0)"
    and "reader_asleep x \<Longrightarrow> wcount s' \<noteq> 0 \<or> wwait s' \<noteq> 0"
    and "wcount s \<noteq> 0 \<or> wwait s \<noteq> 0 \<Longrightarrow> wcount s' \<noteq> 0 \<or> wwait s' \<noteq> 0"
  shows "rw_live s'"
proof -
  have "\<exists>u. upgrader_woken (thr s' u)" if f: "lock_free s'" and o: "opts s' AND PSYNC_RW_OPT_RESERVED \<noteq> 0"
  proof -
    have r: "opts s AND PSYNC_RW_OPT_RESERVED \<noteq> 0" using assms(3) [OF f] o by simp
    then obtain u where "upgrader_woken (thr s u)" using assms(1) assms(3) [OF f] by (auto simp: rw_live_def)
    moreover have "u \<noteq> t" using assms(4) [OF f r] calculation by auto
    ultimately show ?thesis unfolding assms(2) by (auto intro: exI [of _ u])
  qed
  moreover have "\<exists>u. taker_woken (thr s' u)" if f: "lock_free s'" and o: "opts s' AND PSYNC_RW_OPT_RESERVED = 0" and w: "wwait s' \<noteq> 0"
  proof -
    have r: "opts s AND PSYNC_RW_OPT_RESERVED = 0" using assms(3) [OF f] o by simp
    then obtain u where "taker_woken (thr s u)" using assms(1) assms(3) [OF f] assms(5) [OF f r] w by (auto simp: rw_live_def)
    moreover have "u \<noteq> t" using assms(5) [OF f r] calculation by auto
    ultimately show ?thesis unfolding assms(2) by (auto intro: exI [of _ u])
  qed
  moreover have "wcount s' \<noteq> 0 \<or> wwait s' \<noteq> 0" if "reader_asleep (thr s' u)" for u
    using that assms(1,2,6,7) by (cases "u = t") (auto simp: rw_live_def)
  ultimately show ?thesis by (auto simp: rw_live_def)
qed

lemma live_awake: "\<not> lock_free s \<Longrightarrow> (\<And>t. \<not> reader_asleep (thr s t)) \<Longrightarrow> rw_live s"
  by (simp add: rw_live_def)

lemmas live_wait = live_set [of s s' t "(thr s t)\<lparr>tpc := k, twoken := False\<rparr>" for s s' t k]
lemmas live_count = live_set [of s s' t "(thr s t)\<lparr>cnt0 := rd, cnt1 := wr\<rparr>" for s s' t rd wr]
lemmas live_both = live_set [of s s' t "(thr s t)\<lparr>cnt0 := rd, cnt1 := wr, tpc := k, twoken := False\<rparr>" for s s' t rd wr k]
lemmas live_kinds = upgrader_woken_def taker_woken_def reader_asleep_def waits_rcond_def lock_free_def

text \<open>A running thread's own count does not matter.\<close>

lemma live_recount: "rw_live s \<Longrightarrow> tpc (thr s t) = Running \<Longrightarrow> rw_live (psync_rwlock_set_count t rd wr s)"
  by (rule live_count [where t = t and rd = rd and wr = wr], assumption)
    (simp_all add: psync_rwlock_set_count_def live_kinds)

lemma live_rd_acquire:
  assumes "rw_live s" and "tpc (thr s t) = Running" and "rw_inv s"
  shows "returns_with rw_live (rd_acquire t s)"
  using assms(2) inv_counts(6) [OF assms(3)]
  by (simp add: rd_acquire_def)
    (intro live_count [OF assms(1), where t = t and rd = 1 and wr = 0], simp_all add: psync_rwlock_set_count_def live_kinds)

lemma live_wr_acquire:
  assumes "rw_live s" and "tpc (thr s t) = Running" and "rw_inv s"
  shows "returns_with rw_live (wr_acquire t s)"
  using assms(2) inv_counts(7) [OF assms(3)]
  by (simp add: wr_acquire_def)
    (intro live_count [OF assms(1), where t = t and rd = 0 and wr = 1], simp_all add: psync_rwlock_set_count_def live_kinds)

text \<open>A thread that does not get the lock sleeps, and so do readers behind a writer.\<close>

lemmas live_at = live_set [of s s' t "thr s' t" for s s' t]

lemma live_rdlock_loop:
  assumes "rw_live s" and "rw_inv s" and "tpc (thr s t) = Running"
  shows "returns_with rw_live (rdlock_loop k t s)"
proof -
  have "rw_live (cond_wait t k (s\<lparr>rwait := rwait s + 1\<rparr>))" if "rd_blocked s"
    using that assms(3) by (intro live_at [OF assms(1), of _ t]) (auto simp: cond_wait_def live_kinds rd_blocked_def)
  then show ?thesis using live_rd_acquire [OF assms(1,3,2)] by (simp add: rdlock_loop_def)
qed

lemma live_starvewr_loop:
  assumes "rw_live s" and "rw_inv s" and "tpc (thr s t) = Running"
  shows "returns_with rw_live (starvewr_loop t s)"
proof -
  have "rw_live (cond_wait t In_rdlock_starvewr (s\<lparr>rwait := rwait s + 1, opts := opts s OR PSYNC_RW_OPT_PREFER_READ\<rparr>))" if "wcount s \<noteq> 0"
    using that assms(3) by (intro live_at [OF assms(1), of _ t]) (auto simp: cond_wait_def live_kinds opts_bits)
  then show ?thesis using live_rd_acquire [OF assms(1,3,2)] by (simp add: starvewr_loop_def)
qed

lemma live_wrlock_loop:
  assumes "rw_live s" and "rw_inv s" and "tpc (thr s t) = Running" and "k = In_wrlock \<or> k = In_timedwrlock"
  shows "returns_with rw_live (wrlock_loop k t s)"
proof -
  have "rw_live (cond_wait t k (s\<lparr>wwait := wwait s + 1\<rparr>))" if "rcount s \<noteq> 0 \<or> wcount s \<noteq> 0"
    using that assms(3,4) inv_counts(11) [OF assms(2)] by (intro live_at [OF assms(1), of _ t]) (auto simp: cond_wait_def live_kinds)
  then show ?thesis using live_wr_acquire [OF assms(1,3,2)] by (auto simp: wrlock_loop_def)
qed

lemma no_reader_asleep: "rw_inv s \<Longrightarrow> rwait s = 0 \<Longrightarrow> \<not> reader_asleep (thr s t)"
  using inv_counts(4) [of s t] by (auto simp: reader_asleep_def)

lemma reader_awake: "\<not> reader_asleep (thr (broadcast_rcond s) t)"
  by (simp add: reader_asleep_def broadcast_rcond_def waits_rcond_def)

lemma live_rs_acquire:
  assumes "rw_inv s" and "tpc (thr s t) = Running"
  shows "rw_live (psync_rwlock_set_count t rd wr ((if rwait s \<noteq> 0 then broadcast_rcond s else s)\<lparr>rcount := rcount s + 1, opts := op\<rparr>))" (is "rw_live ?s")
proof (rule live_awake)
  show "\<not> lock_free ?s" using inv_counts(6) [OF assms(1)] by (simp add: lock_free_def psync_rwlock_set_count_def)
  show "\<not> reader_asleep (thr ?s v)" for v
    using no_reader_asleep [OF assms(1), of v] reader_awake [of s v] assms(2)
    by (auto simp: psync_rwlock_set_count_def reader_asleep_def waits_rcond_def broadcast_rcond_def)
qed

lemma live_rslock_loop:
  assumes "rw_live s" and "rw_inv s" and "tpc (thr s t) = Running"
  shows "returns_with rw_live (rslock_loop t s)"
proof -
  have "rw_live (cond_wait t In_rslock (s\<lparr>wwait := wwait s + 1\<rparr>))" if "wcount s \<noteq> 0 \<or> opts s AND PSYNC_RW_OPT_RESERVED \<noteq> 0"
    using that assms(3) inv_counts(11) [OF assms(2)] by (intro live_at [OF assms(1), of _ t]) (auto simp: cond_wait_def live_kinds)
  moreover have "rcount (if rwait s \<noteq> 0 then broadcast_rcond s else s) = rcount s" by (simp add: broadcast_rcond_def)
  ultimately show ?thesis using live_rs_acquire [OF assms(2,3)] by (simp add: rslock_loop_def Let_def)
qed

lemma live_towrlock:
  assumes "rw_live s" and "rw_inv s" and "tpc (thr s t) = Running"
  shows "returns_with rw_live (psync_rwlock_towrlock t s)"
proof -
  let ?s = "s\<lparr>opts := opts s OR PSYNC_RW_OPT_RESERVED, rcount := rcount s - 1\<rparr>"
  have "rw_live (cond_wait t In_towrlock (?s\<lparr>wwait := wwait ?s + 1\<rparr>))" if "rcount ?s \<noteq> 0"
    using that assms(3) inv_counts(11) [OF assms(2)] by (intro live_at [OF assms(1), of _ t]) (auto simp: cond_wait_def live_kinds)
  moreover have "rw_live (psync_rwlock_set_count t 0 (cnt0 (thr s t)) (?s\<lparr>wcount := wcount ?s + 1, opts := opts ?s AND NOT PSYNC_RW_OPT_RESERVED\<rparr>))"
    if "rcount ?s = 0" "wcount ?s = 0"
    using assms(3) inv_counts(7) [OF assms(2)] by (intro live_at [OF assms(1), of _ t]) (auto simp: psync_rwlock_set_count_def live_kinds)
  ultimately have "returns_with rw_live (towrlock_loop t ?s)" by (simp add: towrlock_loop_def)
  then show ?thesis using assms(1) by (simp add: psync_rwlock_towrlock_def)
qed

text \<open>Waking up: the thread that was woken takes the free lock.\<close>

lemma live_rwake:
  assumes "rw_live s" and "rw_inv s" and "tpc (thr s t) = In_rdlock \<or> tpc (thr s t) = In_timedrdlock"
  shows "rw_live (cond_wait t Running (s\<lparr>rwait := rwait s - 1\<rparr>))"
  using assms(3) by (intro live_at [OF assms(1), of _ t]) (auto simp: cond_wait_def live_kinds)

lemma live_wake:
  assumes "rw_live s" and "rw_inv s"
  shows "returns_with rw_live (rw_wake t s)"
proof -
  let ?r = "cond_wait t Running (s\<lparr>rwait := rwait s - 1\<rparr>)" and ?w = "cond_wait t Running (s\<lparr>wwait := wwait s - 1\<rparr>)"
  let ?v = "?r\<lparr>opts := opts ?r AND NOT PSYNC_RW_OPT_PREFER_READ\<rparr>"
  have pc: "tpc (thr ?r t) = Running" by (simp add: cond_wait_def)
  have rd: "returns_with rw_live (rdlock_loop k t ?r)" if "tpc (thr s t) = In_rdlock \<or> tpc (thr s t) = In_timedrdlock" for k
    using live_rdlock_loop [OF live_rwake [OF assms that] _ pc] inv_rwake [OF assms(2) that] by blast
  have "rw_live (cond_wait t In_rdlock_starvewr (?v\<lparr>rwait := rwait ?v + 1, opts := opts ?v OR PSYNC_RW_OPT_PREFER_READ\<rparr>))"
    if "wcount s \<noteq> 0"
    using that by (intro live_at [OF assms(1), of _ t]) (auto simp: cond_wait_def live_kinds opts_bits)
  moreover have "rw_live (psync_rwlock_set_count t 1 0 (?v\<lparr>rcount := rcount ?v + 1\<rparr>))"
    using inv_counts(6) [OF assms(2)]
    by (intro live_at [OF assms(1), of _ t]) (auto simp: cond_wait_def psync_rwlock_set_count_def live_kinds opts_bits)
  ultimately have "returns_with rw_live (starvewr_loop t ?v)"
    by (simp add: starvewr_loop_def rd_acquire_def) (simp add: cond_wait_def)
  moreover have wr: "returns_with rw_live (wrlock_loop k t ?w)" if "tpc (thr s t) = In_wrlock \<or> tpc (thr s t) = In_timedwrlock"
      "k = In_wrlock \<or> k = In_timedwrlock" for k
  proof -
    have "rw_live (cond_wait t k (?w\<lparr>wwait := wwait ?w + 1\<rparr>))" if "rcount s \<noteq> 0 \<or> wcount s \<noteq> 0"
      using that \<open>k = In_wrlock \<or> k = In_timedwrlock\<close> inv_counts(11) [OF assms(2)]
      by (intro live_at [OF assms(1), of _ t]) (auto simp: cond_wait_def live_kinds)
    moreover have "rw_live (psync_rwlock_set_count t 0 1 (?w\<lparr>wcount := wcount ?w + 1\<rparr>))" if "rcount s = 0" "wcount s = 0"
      using inv_counts(7) [OF assms(2)] by (intro live_at [OF assms(1), of _ t]) (auto simp: cond_wait_def psync_rwlock_set_count_def live_kinds)
    ultimately show ?thesis by (simp add: wrlock_loop_def wr_acquire_def) (simp add: cond_wait_def)
  qed
  moreover have "returns_with rw_live (rslock_loop t ?w)" if "tpc (thr s t) = In_rslock"
  proof -
    have inv: "rw_inv ?w" using inv_wwake [OF assms(2)] that by blast
    have "rw_live (cond_wait t In_rslock (?w\<lparr>wwait := wwait ?w + 1\<rparr>))" if "wcount s \<noteq> 0 \<or> opts s AND PSYNC_RW_OPT_RESERVED \<noteq> 0"
      using that \<open>tpc (thr s t) = In_rslock\<close> inv_counts(11) [OF inv]
      by (intro live_at [OF assms(1), of _ t]) (auto simp: cond_wait_def live_kinds)
    moreover have "rcount (if rwait ?w \<noteq> 0 then broadcast_rcond ?w else ?w) = rcount ?w" by (simp add: broadcast_rcond_def)
    moreover have "wcount ?w = wcount s" "opts ?w = opts s" "tpc (thr ?w t) = Running" by (simp_all add: cond_wait_def)
    ultimately show ?thesis using live_rs_acquire [OF inv, of t] by (simp add: rslock_loop_def Let_def)
  qed
  moreover have "returns_with rw_live (towrlock_loop t ?w)" if "tpc (thr s t) = In_towrlock"
  proof -
    have "rw_live (cond_wait t In_towrlock (?w\<lparr>wwait := wwait ?w + 1\<rparr>))" if "rcount s \<noteq> 0"
      using that \<open>tpc (thr s t) = In_towrlock\<close> inv_counts(5) [OF assms(2), of t]
      by (intro live_at [OF assms(1), of _ t]) (auto simp: cond_wait_def live_kinds)
    moreover have "rw_live (psync_rwlock_set_count t 0 (cnt0 (thr ?w t)) (?w\<lparr>wcount := wcount ?w + 1, opts := opts ?w AND NOT PSYNC_RW_OPT_RESERVED\<rparr>))"
      if "rcount ?w = 0" "wcount ?w = 0"
      using inv_counts(7) [OF assms(2)] by (intro live_at [OF assms(1), of _ t]) (auto simp: cond_wait_def psync_rwlock_set_count_def live_kinds)
    ultimately show ?thesis by (simp add: towrlock_loop_def) (simp add: cond_wait_def)
  qed
  ultimately show ?thesis using rd assms(1) by (cases "tpc (thr s t)") (simp_all add: rw_wake_def Let_def)
qed

text \<open>Giving the lock back signals somebody who can take it.\<close>

lemma upgrader_waits:
  assumes "rw_inv s" and "rcount s = 0" and "opts s AND PSYNC_RW_OPT_RESERVED \<noteq> 0"
  shows "\<exists>t. tpc (thr s t) = In_towrlock"
proof -
  have "0 < num reserving s" using assms(1,3) by (simp add: rw_inv_def)
  then obtain t where t: "reserving (thr s t)" using num_posE by blast
  moreover have "\<not> reading (thr s t)" using inv_counts(1) [OF assms(1), of t] assms(2) by auto
  ultimately show ?thesis using inv_thread [OF assms(1), of t] by (auto simp: reserving_def reading_def thread_ok_def)
qed

lemma no_upgrader: "rw_inv s \<Longrightarrow> opts s AND PSYNC_RW_OPT_RESERVED = 0 \<Longrightarrow> tpc (thr s t) \<noteq> In_towrlock"
  using inv_counts(3) [of s t] by (auto simp: reserving_def)

lemma live_broadcast_wcond:
  assumes "rw_inv s" and "opts s AND PSYNC_RW_OPT_RESERVED \<noteq> 0" and "rcount s = 0" and "wwait s \<noteq> 0"
  shows "rw_live (broadcast_wcond s)"
proof -
  obtain t where "tpc (thr s t) = In_towrlock" using upgrader_waits [OF assms(1,3,2)] by blast
  then have "upgrader_woken (thr (broadcast_wcond s) t)" by (simp add: broadcast_wcond_def upgrader_woken_def waits_wcond_def)
  then have "\<exists>t. upgrader_woken (thr (broadcast_wcond s) t)" by blast
  moreover have "opts (broadcast_wcond s) = opts s" "wwait (broadcast_wcond s) = wwait s" by (simp_all add: broadcast_wcond_def)
  ultimately show ?thesis using assms(2,4) by (simp add: rw_live_def)
qed

lemma live_signal_wcond:
  assumes "rw_inv s" and "opts s AND PSYNC_RW_OPT_RESERVED = 0" and "wwait s \<noteq> 0" and "signals w s"
  shows "rw_live (signal_wcond w s)"
proof -
  have "wwait s = num waits_wcond s" using assms(1) by (simp add: rw_inv_def)
  then have "0 < num waits_wcond s" using assms(3) inv_counts(11) [OF assms(1)] by linarith
  then obtain v where v: "waits_wcond (thr s v)" using num_posE by blast
  have taker: "taker_woken (th\<lparr>twoken := True\<rparr>)" if "th = thr s u" "waits_wcond (thr s u)" for th u
    using no_upgrader [OF assms(1,2), of u] that by (auto simp: taker_woken_def waits_wcond_def)
  have "\<exists>u. taker_woken (thr (signal_wcond w s) u)"
  proof (cases "twoken (thr s v)")
    case True
    then have "(thr s v)\<lparr>twoken := True\<rparr> = thr s v" by simp
    then have "taker_woken (thr s v)" using taker [OF refl v] by simp
    then have "taker_woken (thr (signal_wcond w s) v)" by (auto simp: signal_wcond_def taker_woken_def)
    then show ?thesis by blast
  next
    case False
    then have "waits_wcond (thr s w)" using v assms(4) by (auto simp: signals_def)
    then have "taker_woken (thr (signal_wcond w s) w)" using taker by (simp add: signal_wcond_def)
    then show ?thesis by blast
  qed
  then show ?thesis using assms(2,3) by (simp add: rw_live_def signals_kept)
qed

lemma live_broadcast_rcond:
  assumes "rw_inv s" and "opts s AND PSYNC_RW_OPT_RESERVED = 0" and "wwait s \<noteq> 0 \<longrightarrow> opts s AND PSYNC_RW_OPT_PREFER_READ \<noteq> 0"
  shows "rw_live (broadcast_rcond s)"
proof -
  have "\<exists>t. taker_woken (thr (broadcast_rcond s) t)" if "wwait s \<noteq> 0"
  proof -
    have "0 < num starving s" using assms(1,3) that by (simp add: rw_inv_def)
    then obtain t where "starving (thr s t)" using num_posE by blast
    then show ?thesis by (intro exI [of _ t]) (simp add: starving_def broadcast_rcond_def taker_woken_def waits_rcond_def)
  qed
  then show ?thesis using assms(2) reader_awake [of s] by (simp add: rw_live_def) (simp add: broadcast_rcond_def)
qed

lemma live_nobody:
  assumes "rw_inv s" and "opts s AND PSYNC_RW_OPT_RESERVED = 0" and "wwait s = 0" and "rwait s = 0"
  shows "rw_live s"
  using assms no_reader_asleep [OF assms(1,4)] by (simp add: rw_live_def)

lemma gone_fields:
  "rcount (writer_gone t s) = rcount s" "wwait (writer_gone t s) = wwait s" "rwait (writer_gone t s) = rwait s" "opts (writer_gone t s) = opts s"
  "wcount (writer_gone t s) = 0" "wcount (reader_gone t s) = wcount s" "wwait (reader_gone t s) = wwait s"
  by (simp_all add: writer_gone_def reader_gone_def psync_rwlock_set_count_def)

lemma signals_gone:
  "signals w s \<Longrightarrow> tpc (thr s t) = Running \<Longrightarrow> signals w (writer_gone t s)"
  "signals w s \<Longrightarrow> tpc (thr s t) = Running \<Longrightarrow> signals w (reader_gone t s)"
  by (auto simp: signals_def writer_gone_def reader_gone_def psync_rwlock_set_count_def waits_wcond_def)

lemma live_reader_gone:
  assumes "rw_live s" and "rw_inv s" and "tpc (thr s t) = Running" and "cnt0 (thr s t) = 1" and "rcount (reader_gone t s) \<noteq> 0 \<or> wwait s = 0"
  shows "rw_live (reader_gone t s)"
proof -
  have inv: "rw_inv (reader_gone t s)" by (rule inv_reader_gone [OF assms(2-4)])
  have excl: "wcount s = 0" using inv_excl(2) [OF assms(2)] inv_counts(1) [OF assms(2), of t] assms(3,4) by (auto simp: reading_def)
  have asleep: "wwait s \<noteq> 0" if "reader_asleep (thr (reader_gone t s) v)" for v
    using that assms(1,3) excl
    by (auto simp: rw_live_def reader_gone_def psync_rwlock_set_count_def reader_asleep_def waits_rcond_def split: if_splits)
  have up: "False" if z: "rcount (reader_gone t s) = 0" and r: "opts (reader_gone t s) AND PSYNC_RW_OPT_RESERVED \<noteq> 0"
  proof -
    obtain v where "tpc (thr (reader_gone t s) v) = In_towrlock" using upgrader_waits [OF inv z r] by blast
    then have "0 < wwait (reader_gone t s)" using inv_counts(5) [OF inv, of v] by (simp add: waits_wcond_def)
    then show False using assms(5) z by (simp add: gone_fields)
  qed
  then show ?thesis using asleep assms(5) by (auto simp: rw_live_def lock_free_def gone_fields)
qed

lemma live_unlock_reader:
  assumes "rw_live s" and "rw_inv s" and "tpc (thr s t) = Running" and "cnt0 (thr s t) = 1" and "signals w s"
  shows "rw_live (unlock_reader t w (psync_rwlock_set_count t 0 (cnt1 (thr s t)) s))"
  unfolding unlock_reader_at_last [OF assms(2,4)]
  using live_broadcast_wcond [OF inv_reader_gone [OF assms(2-4)]] live_signal_wcond [OF inv_reader_gone [OF assms(2-4)]]
    signals_gone(2) [OF assms(5,3)] live_reader_gone [OF assms(1-4)]
  by (simp add: gone_fields)

lemma live_unlock_writer:
  assumes "rw_live s" and "rw_inv s" and "tpc (thr s t) = Running" and "cnt0 (thr s t) = 0" and "cnt1 (thr s t) = 1" and "signals w s"
  shows "returns_with rw_live (unlock_writer w (psync_rwlock_set_count t 0 0 s))"
proof -
  note inv = inv_writer_gone [OF assms(2-5)]
  have one: "wcount s \<noteq> 0" using inv_counts(2) [OF assms(2), of t] assms(4,5) by (simp add: writing_def)
  then have rc: "rcount s = 0" using inv_excl(1) [OF assms(2)] by blast
  have pref: "rwait s \<noteq> 0" if "opts s AND PSYNC_RW_OPT_PREFER_READ \<noteq> 0"
  proof -
    have "0 < num starving s" using assms(2) that by (simp add: rw_inv_def)
    then obtain v where "starving (thr s v)" using num_posE by blast
    then show ?thesis using inv_counts(4) [OF assms(2), of v] by (auto simp: starving_def waits_rcond_def)
  qed
  show ?thesis unfolding unlock_writer_at_last [OF assms(2,4,5)]
    using live_broadcast_wcond [OF inv] live_signal_wcond [OF inv _ _ signals_gone(1) [OF assms(6,3)]] live_broadcast_rcond [OF inv]
      live_nobody [OF inv] pref rc
    by (simp add: gone_fields)
qed

lemma live_unlock:
  assumes "rw_live s" and "rw_inv s" and "tpc (thr s t) = Running" and "signals w s"
  shows "returns_with rw_live (psync_rwlock_unlock t w s)"
  using live_recount [OF assms(1,3), of "cnt0 (thr s t) - 1" "cnt1 (thr s t)"] live_recount [OF assms(1,3), of 0 "cnt1 (thr s t) - 1"] live_unlock_reader [OF assms(1-3) _ assms(4)] live_unlock_writer [OF assms(1-3) _ _ assms(4)]
    inv_counts(1) [OF assms(2), of t] inv_excl [OF assms(2)]
    inv_counts(2) [OF assms(2), of t]
  by (auto simp: psync_rwlock_unlock_def psync_rwlock_check_recursive_out_def psync_rwlock_set_count_def word_gt_0 reading_def writing_def
      assms(3) split: bool.splits)

lemma live_calls:
  assumes "rw_live s" and "rw_inv s" and "tpc (thr s t) = Running" and "nesting_ok (thr s t)"
  shows "returns_with rw_live (psync_rwlock_rdlock t s)" "returns_with rw_live (psync_rwlock_tryrdlock t s)"
    "returns_with rw_live (psync_rwlock_timedrdlock t s)" "returns_with rw_live (psync_rwlock_rdlock_starvewr t s)"
    "returns_with rw_live (psync_rwlock_wrlock t s)" "returns_with rw_live (psync_rwlock_trywrlock t s)"
    "returns_with rw_live (psync_rwlock_timedwrlock t s)" "returns_with rw_live (psync_rwlock_rslock t s)"
proof -
  note recount = live_recount [OF assms(1,3)]
  have rd: "returns_with rw_live (case psync_rwlock_check_rdrecursive_in t s of
      None \<Rightarrow> Aborts | Some (True, s) \<Rightarrow> Returns 0 s | Some (False, s) \<Rightarrow> f s)"
    if "returns_with rw_live (f s)" for f
    using recount that by (simp add: psync_rwlock_check_rdrecursive_in_def)
  have wr: "returns_with rw_live (case psync_rwlock_check_wrrecursive_in t s of
      None \<Rightarrow> Aborts | Some (True, s) \<Rightarrow> Returns 0 s | Some (False, s) \<Rightarrow> f s)"
    if "returns_with rw_live (f s)" for f
    using recount that by (simp add: psync_rwlock_check_wrrecursive_in_def)
  note ls = live_rdlock_loop [OF assms(1-3)] live_starvewr_loop [OF assms(1-3)] live_wrlock_loop [OF assms(1-3)]
    live_rd_acquire [OF assms(1,3,2)] live_wr_acquire [OF assms(1,3,2)] live_rslock_loop [OF assms(1-3)]
  show "returns_with rw_live (psync_rwlock_rdlock t s)" "returns_with rw_live (psync_rwlock_timedrdlock t s)"
    "returns_with rw_live (psync_rwlock_rdlock_starvewr t s)" "returns_with rw_live (psync_rwlock_tryrdlock t s)"
    unfolding psync_rwlock_rdlock_def psync_rwlock_timedrdlock_def psync_rwlock_rdlock_starvewr_def psync_rwlock_tryrdlock_def
    by (rule rd, simp add: ls assms(1))+
  show "returns_with rw_live (psync_rwlock_wrlock t s)" "returns_with rw_live (psync_rwlock_timedwrlock t s)"
    "returns_with rw_live (psync_rwlock_trywrlock t s)"
    unfolding psync_rwlock_wrlock_def psync_rwlock_timedwrlock_def psync_rwlock_trywrlock_def
    by (rule wr, simp add: ls assms(1))+
  show "returns_with rw_live (psync_rwlock_rslock t s)"
    unfolding psync_rwlock_rslock_def by (simp add: ls recount)
qed

lemma live_run:
  assumes "rw_live s" and "rw_inv s" and "rw_enabled ev t s" and "signals w s" and "ev \<noteq> Timeout_wr"
  shows "returns_with rw_live (rw_run ev t w s)"
proof (cases ev)
  case Timeout_rd
  then show ?thesis using assms live_rwake [OF assms(1,2)] by (simp add: rw_enabled_def rw_timeout_def Let_def)
qed (use assms live_calls [OF assms(1,2)] live_towrlock [OF assms(1,2)] live_unlock [OF assms(1,2)] live_wake [OF assms(1,2)] in
    \<open>simp_all add: rw_enabled_def Let_def\<close>)

lemma live_reachable: "rw_reachable E (Some s) \<Longrightarrow> Timeout_wr \<notin> E \<Longrightarrow> rw_live s"
proof (induction "Some s" arbitrary: s rule: rw_reachable.induct)
  case init
  then show ?case by (simp add: rw_live_def psync_rwlock_init_def idle_thread_def reader_asleep_def waits_rcond_def)
next
  case (step s ev t w s')
  then show ?case using rw_after_Some live_run rw_inv_reachable by metis
qed

subsection \<open>Assertions\<close>

lemma aborts_loops [simp]:
  "rdlock_loop k t s \<noteq> Aborts" "starvewr_loop t s \<noteq> Aborts" "wrlock_loop k t s \<noteq> Aborts" "rslock_loop t s \<noteq> Aborts"
  "rd_acquire t s \<noteq> Aborts" "wr_acquire t s \<noteq> Aborts" "rw_timeout t s \<noteq> Aborts"
  by (simp_all add: rdlock_loop_def starvewr_loop_def wrlock_loop_def rslock_loop_def rd_acquire_def wr_acquire_def rw_timeout_def Let_def)

lemma aborts_towrlock_loop: "towrlock_loop t s = Aborts \<longleftrightarrow> rcount s = 0 \<and> wcount s \<noteq> 0"
  by (simp add: towrlock_loop_def)

lemma aborts_wake: "rw_wake t s = Aborts \<longleftrightarrow> tpc (thr s t) = In_towrlock \<and> rcount s = 0 \<and> wcount s \<noteq> 0"
  by (cases "tpc (thr s t)") (simp_all add: rw_wake_def Let_def aborts_towrlock_loop cond_wait_def)

lemma aborts_rd:
  assumes "rw_inv s"
  shows "psync_rwlock_rdlock t s \<noteq> Aborts" "psync_rwlock_tryrdlock t s \<noteq> Aborts" "psync_rwlock_timedrdlock t s \<noteq> Aborts"
    "psync_rwlock_rdlock_starvewr t s \<noteq> Aborts"
proof -
  have "cnt0 (thr s t) = 0 \<Longrightarrow> cnt1 (thr s t) \<noteq> PSYNC_WR_RESERVED" using inv_thread [OF assms, of t] by (auto simp: thread_ok_def)
  then show "psync_rwlock_rdlock t s \<noteq> Aborts" "psync_rwlock_tryrdlock t s \<noteq> Aborts" "psync_rwlock_timedrdlock t s \<noteq> Aborts"
    "psync_rwlock_rdlock_starvewr t s \<noteq> Aborts"
    by (simp_all add: psync_rwlock_rdlock_def psync_rwlock_tryrdlock_def psync_rwlock_timedrdlock_def
        psync_rwlock_rdlock_starvewr_def psync_rwlock_check_rdrecursive_in_def)
qed

lemma aborts_wr:
  assumes "rw_inv s"
  shows "psync_rwlock_wrlock t s = Aborts \<longleftrightarrow> cnt0 (thr s t) \<noteq> 0" "psync_rwlock_trywrlock t s = Aborts \<longleftrightarrow> cnt0 (thr s t) \<noteq> 0"
    "psync_rwlock_timedwrlock t s = Aborts \<longleftrightarrow> cnt0 (thr s t) \<noteq> 0" "psync_rwlock_rslock t s = Aborts \<longleftrightarrow> cnt0 (thr s t) \<noteq> 0"
proof -
  have "cnt0 (thr s t) = 0 \<Longrightarrow> cnt1 (thr s t) \<noteq> PSYNC_WR_RESERVED" using inv_thread [OF assms, of t] by (auto simp: thread_ok_def)
  then show "psync_rwlock_wrlock t s = Aborts \<longleftrightarrow> cnt0 (thr s t) \<noteq> 0" "psync_rwlock_trywrlock t s = Aborts \<longleftrightarrow> cnt0 (thr s t) \<noteq> 0"
    "psync_rwlock_timedwrlock t s = Aborts \<longleftrightarrow> cnt0 (thr s t) \<noteq> 0" "psync_rwlock_rslock t s = Aborts \<longleftrightarrow> cnt0 (thr s t) \<noteq> 0"
    by (simp_all add: psync_rwlock_wrlock_def psync_rwlock_trywrlock_def psync_rwlock_timedwrlock_def psync_rwlock_rslock_def
        psync_rwlock_check_wrrecursive_in_def)
qed

lemma holder_counts:
  assumes "rw_inv s" and "tpc (thr s t) = Running"
  shows "cnt0 (thr s t) \<noteq> 0 \<Longrightarrow> rcount s \<noteq> 0 \<and> wcount s = 0" "cnt0 (thr s t) = 0 \<Longrightarrow> cnt1 (thr s t) \<noteq> 0 \<Longrightarrow> rcount s = 0 \<and> wcount s \<noteq> 0"
  using inv_counts(1,2) [OF assms(1), of t] inv_excl [OF assms(1)] assms(2) by (auto simp: reading_def writing_def)

lemma aborts_towrlock:
  assumes "rw_inv s" and "tpc (thr s t) = Running" and "cnt0 (thr s t) \<noteq> 0 \<or> cnt1 (thr s t) \<noteq> 0"
  shows "psync_rwlock_towrlock t s \<noteq> Aborts"
proof -
  have "cnt1 (thr s t) = PSYNC_WR_RESERVED \<Longrightarrow> cnt0 (thr s t) \<noteq> 0" using inv_thread [OF assms(1), of t] by (simp add: thread_ok_def)
  then show ?thesis using holder_counts [OF assms(1,2)] assms(3) by (auto simp: psync_rwlock_towrlock_def aborts_towrlock_loop)
qed

text \<open>The last writer finds a waiting thread whenever the lock is reserved: the one that is upgrading.\<close>

lemma aborts_unlock_writer:
  assumes "rw_inv s" and "cnt0 (thr s t) = 0" and "cnt1 (thr s t) = 1"
  shows "unlock_writer w (psync_rwlock_set_count t 0 0 s) \<noteq> Aborts"
proof -
  have "rcount s = 0" using inv_counts(2) [OF assms(1), of t] inv_excl(1) [OF assms(1)] assms(2,3) by (simp add: writing_def)
  moreover have "tpc (thr s v) = In_towrlock \<Longrightarrow> 0 < wwait s" for v using inv_counts(5) [OF assms(1), of v] by (simp add: waits_wcond_def)
  ultimately have "opts s AND PSYNC_RW_OPT_RESERVED \<noteq> 0 \<Longrightarrow> wwait s \<noteq> 0" using upgrader_waits [OF assms(1)] by fastforce
  then show ?thesis by (simp add: unlock_writer_at_last [OF assms])
qed

lemma aborts_unlock:
  assumes "rw_inv s" and "tpc (thr s t) = Running"
  shows "psync_rwlock_unlock t w s = Aborts \<longleftrightarrow> cnt0 (thr s t) = 0 \<and> cnt1 (thr s t) = 0"
  using holder_counts [OF assms] aborts_unlock_writer [OF assms(1)]
  by (auto simp: psync_rwlock_unlock_def psync_rwlock_check_recursive_out_def word_gt_0 psync_rwlock_set_count_def split: bool.splits)

subsection \<open>What the lock promises\<close>

text \<open>Concrete runs: what each thread does, and whom a signal of it wakes.\<close>

fun run_ok :: "(rw_event \<times> tid \<times> tid) list \<Rightarrow> psync_rwlock \<Rightarrow> bool" where
  "run_ok [] s \<longleftrightarrow> True"
| "run_ok ((ev, t, w) # es) s \<longleftrightarrow> rw_enabled ev t s \<and> signals w s \<and>
     (case rw_after (rw_run ev t w s) of None \<Rightarrow> es = [] | Some s \<Rightarrow> run_ok es s)"

fun run_end :: "(rw_event \<times> tid \<times> tid) list \<Rightarrow> psync_rwlock \<Rightarrow> psync_rwlock option" where
  "run_end [] s = Some s"
| "run_end ((ev, t, w) # es) s = Option.bind (rw_after (rw_run ev t w s)) (run_end es)"

lemma run_reachable: "rw_reachable E (Some s) \<Longrightarrow> fst ` set es \<subseteq> E \<Longrightarrow> run_ok es s \<Longrightarrow> rw_reachable E (run_end es s)"
proof (induction es s rule: run_end.induct)
  case (2 ev t w es s)
  then have "rw_reachable E (rw_after (rw_run ev t w s))" by (auto intro: rw_reachable.step)
  then show ?case using 2 by (cases "rw_after (rw_run ev t w s)") auto
qed simp

lemma half_pointer: "(0 :: u32) < - 2" "(1 :: u32) < - 2"
  by (simp_all add: word_less_nat_alt)

lemmas rw_defs = half_pointer psync_rwlock_rdlock_def psync_rwlock_timedrdlock_def psync_rwlock_rslock_def psync_rwlock_wrlock_def psync_rwlock_timedwrlock_def
  psync_rwlock_towrlock_def psync_rwlock_unlock_def psync_rwlock_check_rdrecursive_in_def psync_rwlock_check_wrrecursive_in_def
  psync_rwlock_check_recursive_out_def psync_rwlock_is_reserved_by_this_thread_clr_def psync_rwlock_set_count_def
  rdlock_loop_def wrlock_loop_def rslock_loop_def towrlock_loop_def rd_acquire_def wr_acquire_def rd_blocked_def unlock_reader_def unlock_writer_def
  rw_wake_def rw_timeout_def cond_wait_def broadcast_rcond_def broadcast_wcond_def signal_wcond_def waits_rcond_def waits_wcond_def
  rw_enabled_def signals_def nesting_ok_def psync_rwlock_init_def idle_thread_def Let_def

text \<open>C13. The lock excludes: in every state that threads can reach by calling the lock's functions in any order, with any
  wake-ups, timeouts and upgrades, a thread that holds the lock for writing is the only one that holds it.\<close>

theorem rwlock_mutual_exclusion:
  assumes "rw_reachable E (Some s)" and "writing (thr s t)" and "v \<noteq> t"
  shows "\<not> writing (thr s v) \<and> \<not> reading (thr s v)"
proof -
  have inv: "rw_inv s" by (rule rw_inv_reachable [OF assms(1)])
  then have "0 < num writing s" using assms(2) num_pos [of s writing t] by (simp add: rw_inv_def)
  moreover have "\<not> reading (thr s v)" using inv calculation num_pos [of s reading v] by (auto simp: rw_inv_def)
  moreover have "v = t" if "writing (thr s v)"
  proof -
    have "card {u. writing (thr s u)} \<le> 1" using inv by (simp add: rw_inv_def num_def)
    moreover have "finite {u. writing (thr s u)}" using inv few_finite [of s writing] by (simp add: rw_inv_def)
    ultimately show ?thesis using assms(2) that by (auto simp: card_le_Suc0_iff_eq)
  qed
  ultimately show ?thesis using assms(3) by blast
qed

lemma writer_alone: "\<exists>s. run_end [(Wrlock, 1, 0)] psync_rwlock_init = Some s \<and> run_ok [(Wrlock, 1, 0)] psync_rwlock_init \<and> writing (thr s 1)"
  by (simp add: rw_defs writing_def)

lemma rwlock_mutual_exclusion_witness:
  "\<exists>s. rw_reachable UNIV (Some s) \<and> writing (thr s 1) \<and> \<not> reading (thr s 2)"
proof -
  obtain s where s: "run_end [(Wrlock, 1, 0)] psync_rwlock_init = Some s" "run_ok [(Wrlock, 1, 0)] psync_rwlock_init" "writing (thr s 1)"
    using writer_alone by blast
  then have "rw_reachable UNIV (Some s)" using run_reachable [OF rw_reachable.init, of "[(Wrlock, 1, 0)]" UNIV] by simp
  then show ?thesis using s(3) rwlock_mutual_exclusion [of UNIV s 1 2] by auto
qed

text \<open>C15. No wake-up is lost, as long as no writer gives up waiting: whenever the lock is free and some thread waits for it, a thread has been
  signalled that gets the lock if it is the next to run.\<close>

theorem rwlock_no_lost_wakeup:
  assumes "rw_reachable E (Some s)" and "Timeout_wr \<notin> E" and "rcount s = 0" and "wcount s = 0" and "tpc (thr s t) \<noteq> Running"
  shows "\<exists>v s'. tpc (thr s v) \<noteq> Running \<and> twoken (thr s v) \<and> rw_wake v s = Returns 0 s'"
proof -
  have inv: "rw_inv s" and live: "rw_live s" by (rule rw_inv_reachable [OF assms(1)], rule live_reachable [OF assms(1,2)])
  have up: "\<exists>s'. rw_wake v s = Returns 0 s'" if "upgrader_woken (thr s v)" for v
    using that assms(3,4) by (simp add: rw_wake_def upgrader_woken_def towrlock_loop_def cond_wait_def)
  have take: "\<exists>s'. rw_wake v s = Returns 0 s'" if "taker_woken (thr s v)" "opts s AND PSYNC_RW_OPT_RESERVED = 0" for v
    using that assms(3,4) by (auto simp: rw_wake_def Let_def taker_woken_def wrlock_loop_def wr_acquire_def starvewr_loop_def rd_acquire_def rslock_loop_def cond_wait_def)
  have "\<exists>v. tpc (thr s v) \<noteq> Running \<and> twoken (thr s v) \<and> (\<exists>s'. rw_wake v s = Returns 0 s')"
  proof (cases "opts s AND PSYNC_RW_OPT_RESERVED = 0")
    case False
    then obtain v where v: "upgrader_woken (thr s v)" using live assms(3,4) by (auto simp: rw_live_def lock_free_def)
    moreover have "tpc (thr s v) \<noteq> Running \<and> twoken (thr s v)" using v by (simp add: upgrader_woken_def)
    ultimately show ?thesis using up by blast
  next
    case res: True
    show ?thesis
    proof (cases "wwait s = 0")
      case False
      then obtain v where v: "taker_woken (thr s v)" using live assms(3,4) res by (auto simp: rw_live_def lock_free_def)
      moreover have "tpc (thr s v) \<noteq> Running \<and> twoken (thr s v)" using v by (auto simp: taker_woken_def)
      ultimately show ?thesis using take res by blast
    next
      case True
      then have "waits_rcond (thr s t)" using assms(5) inv_counts(5) [OF inv, of t] by (cases "tpc (thr s t)") (auto simp: waits_rcond_def waits_wcond_def)
      moreover have "twoken (thr s t)" using live calculation True assms(4) by (auto simp: rw_live_def reader_asleep_def)
      moreover have "\<exists>s'. rw_wake t s = Returns 0 s'" using calculation(1) True assms(4)
        by (auto simp: waits_rcond_def rw_wake_def Let_def rdlock_loop_def rd_blocked_def rd_acquire_def starvewr_loop_def cond_wait_def)
      ultimately show ?thesis using assms(5) by blast
    qed
  qed
  then show ?thesis by blast
qed

lemma reader_behind_writer:
  "\<exists>s. run_end [(Wrlock, 1, 0), (Rdlock, 2, 0), (Unlock, 1, 0)] psync_rwlock_init = Some s \<and>
     run_ok [(Wrlock, 1, 0), (Rdlock, 2, 0), (Unlock, 1, 0)] psync_rwlock_init \<and> rcount s = 0 \<and> wcount s = 0 \<and> tpc (thr s 2) \<noteq> Running"
  by (simp add: rw_defs)

lemma rwlock_no_lost_wakeup_witness:
  "\<exists>s v s'. rw_reachable {Wrlock, Rdlock, Unlock} (Some s) \<and> tpc (thr s 2) \<noteq> Running \<and> twoken (thr s v) \<and> rw_wake v s = Returns 0 s'"
proof -
  let ?es = "[(Wrlock, 1, 0), (Rdlock, 2, 0), (Unlock, 1, 0)]" and ?E = "{Wrlock, Rdlock, Unlock}"
  obtain s where s: "run_end ?es psync_rwlock_init = Some s" "run_ok ?es psync_rwlock_init" "rcount s = 0" "wcount s = 0" "tpc (thr s 2) \<noteq> Running"
    using reader_behind_writer by blast
  then have "rw_reachable ?E (Some s)" using run_reachable [OF rw_reachable.init, of ?es ?E] by simp
  then show ?thesis using s rwlock_no_lost_wakeup [of ?E s 2] by auto
qed

text \<open>C35. Assertions: in every state that threads can reach, an assertion of the lock fails in these cases and in no others. A thread that
  holds a read lock (or a reserved one) asks for a write or a reserved lock; a thread unlocks a lock that it does not hold; or a thread that waits in an
  upgrade finds the readers gone and a writer inside. A thread is taken to upgrade only a lock it holds, and to nest fewer than \<open>2 ^ 32 - 2\<close> locks.\<close>

theorem rwlock_asserts_exact:
  assumes "rw_reachable E (Some s)" and "rw_enabled ev t s"
  shows "rw_run ev t w s = Aborts \<longleftrightarrow>
    ev \<in> {Wrlock, Trywrlock, Timedwrlock, Rslock} \<and> cnt0 (thr s t) \<noteq> 0 \<or>
    ev = Unlock \<and> cnt0 (thr s t) = 0 \<and> cnt1 (thr s t) = 0 \<or>
    ev = Wake \<and> tpc (thr s t) = In_towrlock \<and> rcount s = 0 \<and> wcount s \<noteq> 0"
proof -
  note inv = rw_inv_reachable [OF assms(1)]
  show ?thesis
    using assms(2) aborts_towrlock [OF inv, of t] aborts_unlock [OF inv, of t w]
    by (cases ev) (simp_all add: rw_enabled_def Let_def aborts_rd [OF inv] aborts_wr [OF inv] aborts_wake)
qed

lemma upgrade_race:
  "\<exists>s. run_end [(Rdlock, 1, 0), (Rslock, 2, 0), (Towrlock, 2, 0), (Unlock, 1, 2), (Wrlock, 3, 0)] psync_rwlock_init = Some s \<and>
     run_ok [(Rdlock, 1, 0), (Rslock, 2, 0), (Towrlock, 2, 0), (Unlock, 1, 2), (Wrlock, 3, 0)] psync_rwlock_init \<and>
     rw_enabled Wake 2 s \<and> rw_enabled Unlock 3 s \<and> tpc (thr s 2) = In_towrlock \<and> rcount s = 0 \<and> wcount s \<noteq> 0 \<and> cnt1 (thr s 3) \<noteq> 0"
  by (simp add: rw_defs)

lemma rwlock_asserts_exact_witness:
  "\<exists>s. rw_reachable UNIV (Some s) \<and> rw_enabled Wake 2 s \<and> rw_run Wake 2 0 s = Aborts \<and> rw_enabled Unlock 3 s \<and> rw_run Unlock 3 0 s \<noteq> Aborts"
proof -
  let ?es = "[(Rdlock, 1, 0), (Rslock, 2, 0), (Towrlock, 2, 0), (Unlock, 1, 2), (Wrlock, 3, 0)]"
  obtain s where s: "run_end ?es psync_rwlock_init = Some s" "run_ok ?es psync_rwlock_init" "rw_enabled Wake 2 s" "rw_enabled Unlock 3 s"
    "tpc (thr s 2) = In_towrlock" "rcount s = 0" "wcount s \<noteq> 0" "cnt1 (thr s 3) \<noteq> 0"
    using upgrade_race by blast
  then have r: "rw_reachable UNIV (Some s)" using run_reachable [OF rw_reachable.init, of ?es UNIV] by simp
  have "rw_run Wake 2 0 s = Aborts" using rwlock_asserts_exact [OF r s(3), of 0] s(5,6,7) by simp
  moreover have "rw_run Unlock 3 0 s \<noteq> Aborts" using rwlock_asserts_exact [OF r s(4), of 0] s(8) by simp
  ultimately show ?thesis using r s(3,4) by blast
qed

text \<open>
  \<open>psync_rwlock_holding_lock\<close> asks for both counts, and only a reserved lock has both.
\<close>

lemma holding_lock_only_reserved:
  "rw_reachable E (Some s) \<Longrightarrow> psync_rwlock_holding_lock t s \<longleftrightarrow> cnt1 (thr s t) = PSYNC_WR_RESERVED"
  using inv_thread [OF rw_inv_reachable, of E s t] by (auto simp: psync_rwlock_holding_lock_def thread_ok_def)

lemma num_waiters_counts:
  assumes "rw_reachable E (Some s)"
  shows "psync_rwlock_num_waiters s = num (\<lambda>th. tpc th \<noteq> Running) s"
proof -
  have inv: "rw_inv s" by (rule rw_inv_reachable [OF assms])
  then have "finite {t. waits_rcond (thr s t)}" "finite {t. waits_wcond (thr s t)}" by (simp_all add: rw_inv_def few_finite)
  moreover have "tpc th \<noteq> Running \<longleftrightarrow> waits_rcond th \<or> waits_wcond th" for th
    by (cases "tpc th") (simp_all add: waits_rcond_def waits_wcond_def)
  then have "{t. tpc (thr s t) \<noteq> Running} = {t. waits_rcond (thr s t)} \<union> {t. waits_wcond (thr s t)}" by auto
  moreover have "{t. waits_rcond (thr s t)} \<inter> {t. waits_wcond (thr s t)} = {}" by (auto simp: waits_rcond_def waits_wcond_def)
  ultimately show ?thesis using inv by (simp add: psync_rwlock_num_waiters_def rw_inv_def num_def card_Un_disjoint)
qed

text \<open>
  A writer that times out leaves the readers behind it asleep: here thread 3 waits for a lock that nobody holds, nobody else waits for, and nobody will signal.
\<close>

lemma timed_writer_strands_reader:
  "\<exists>s. rw_reachable UNIV (Some s) \<and> rcount s = 0 \<and> wcount s = 0 \<and> tpc (thr s 3) = In_rdlock \<and> \<not> twoken (thr s 3) \<and>
     (\<forall>v. v \<noteq> 3 \<longrightarrow> thr s v = idle_thread)"
proof -
  let ?es = "[(Rdlock, 1, 0), (Timedwrlock, 2, 0), (Rdlock, 3, 2), (Timeout_wr, 2, 2), (Unlock, 1, 0)]"
  have "\<exists>s. run_end ?es psync_rwlock_init = Some s \<and> rcount s = 0 \<and> wcount s = 0 \<and> tpc (thr s 3) = In_rdlock \<and> \<not> twoken (thr s 3) \<and>
      (\<forall>v. v \<noteq> 3 \<longrightarrow> thr s v = idle_thread)"
    by (simp add: rw_defs)
  moreover have "run_ok ?es psync_rwlock_init" by (simp add: rw_defs)
  ultimately show ?thesis using run_reachable [OF rw_reachable.init, of ?es UNIV] by auto
qed

text \<open>
  A thread that waits to upgrade has given its read lock back, and a writer may come first: then the upgrade's second assertion fails.
\<close>

lemma upgrade_can_abort: "rw_reachable UNIV None"
proof -
  let ?es = "[(Rdlock, 1, 0), (Rslock, 2, 0), (Towrlock, 2, 0), (Unlock, 1, 2), (Wrlock, 3, 0), (Wake, 2, 0)]"
  have "run_end ?es psync_rwlock_init = None" "run_ok ?es psync_rwlock_init" by (simp_all add: rw_defs)
  then show ?thesis using run_reachable [OF rw_reachable.init, of ?es UNIV] by simp
qed

end
