(* ===== verification/Ptree.thy ===== *)
theory Ptree
  imports Prelude
begin

section \<open>The intrusive AVL tree (ptree.h, ptree.c)\<close>

text \<open>
  A \<open>psync_tree\<close> node is embedded in the structure that uses it, so a node is its address:
  the type \<open>'a\<close> is the type of addresses. A tree is the shape the \<open>left\<close>, \<open>right\<close> and
  \<open>height\<close> fields span from the root pointer. The \<open>parent\<close> pointers of a node are the path
  from it to the root: a cursor holds the subtree at a node and one frame per ancestor, the
  innermost first, and \<open>focus\<close> finds the cursor a node pointer denotes. Following \<open>parent\<close>
  is taking the first frame; writing \<open>parent->left\<close> or \<open>parent->right\<close> is \<open>link\<close>.
  A null dereference or a failed \<open>assert\<close> is \<open>None\<close>; the theorems show that neither happens
  on balanced trees. That parent and child pointers agree is built into the cursors, so the asserts of \<^verbatim>\<open>ptree.c\<close> that compare
  only such links (as \<^verbatim>\<open>assert(e2->right==e)\<close>) are not represented.
\<close>

subsection \<open>Nodes, paths and cursors\<close>

datatype 'a ptree = Null | Node "'a ptree" 'a int "'a ptree"

datatype 'a frame = InLeft 'a int "'a ptree" | InRight "'a ptree" 'a int

type_synonym 'a cursor = "'a ptree \<times> 'a frame list"

fun psync_tree_height :: "'a ptree \<Rightarrow> int" where
  "psync_tree_height Null = 0"
| "psync_tree_height (Node l a h r) = h"

fun link :: "'a ptree \<Rightarrow> 'a frame \<Rightarrow> 'a ptree" where
  "link t (InLeft a h r) = Node t a h r"
| "link t (InRight l a h) = Node l a h t"

fun plug :: "'a ptree \<Rightarrow> 'a frame list \<Rightarrow> 'a ptree" where
  "plug t [] = t"
| "plug t (f # fs) = plug (link t f) fs"

fun focus :: "'a \<Rightarrow> 'a ptree \<Rightarrow> 'a frame list \<Rightarrow> 'a cursor option" where
  "focus p Null fs = None"
| "focus p (Node l a h r) fs =
     (if a = p then Some (Node l a h r, fs)
      else case focus p l (InLeft a h r # fs) of
             Some c \<Rightarrow> Some c
           | None \<Rightarrow> focus p r (InRight l a h # fs))"

fun inorder :: "'a ptree \<Rightarrow> 'a list" where
  "inorder Null = []"
| "inorder (Node l a h r) = inorder l @ a # inorder r"

fun postorder :: "'a ptree \<Rightarrow> 'a list" where
  "postorder Null = []"
| "postorder (Node l a h r) = postorder l @ postorder r @ [a]"

subsection \<open>Walking the tree (ptree.h)\<close>

fun leftmost :: "'a ptree \<Rightarrow> 'a frame list \<Rightarrow> 'a cursor" where
  "leftmost Null fs = (Null, fs)"
| "leftmost (Node l a h r) fs = (if l = Null then (Node l a h r, fs) else leftmost l (InLeft a h r # fs))"

fun rightmost :: "'a ptree \<Rightarrow> 'a frame list \<Rightarrow> 'a cursor" where
  "rightmost Null fs = (Null, fs)"
| "rightmost (Node l a h r) fs = (if r = Null then (Node l a h r, fs) else rightmost r (InRight l a h # fs))"

fun node_addr :: "'a ptree \<Rightarrow> 'a option" where
  "node_addr Null = None"
| "node_addr (Node l a h r) = Some a"

definition psync_tree_get_first :: "'a ptree \<Rightarrow> 'a option" where
  "psync_tree_get_first t = node_addr (fst (leftmost t []))"

definition psync_tree_get_last :: "'a ptree \<Rightarrow> 'a option" where
  "psync_tree_get_last t = node_addr (fst (rightmost t []))"

text \<open>\<open>while (tree->parent && tree==tree->parent->right) tree=tree->parent; return tree->parent;\<close>\<close>

fun climb_from_right :: "'a frame list \<Rightarrow> 'a option" where
  "climb_from_right [] = None"
| "climb_from_right (InRight l a h # fs) = climb_from_right fs"
| "climb_from_right (InLeft a h r # fs) = Some a"

fun climb_from_left :: "'a frame list \<Rightarrow> 'a option" where
  "climb_from_left [] = None"
| "climb_from_left (InLeft a h r # fs) = climb_from_left fs"
| "climb_from_left (InRight l a h # fs) = Some a"

definition psync_tree_get_next :: "'a ptree \<Rightarrow> 'a \<Rightarrow> 'a option" where
  "psync_tree_get_next t p =
     (case focus p t [] of
        Some (Node l a h r, fs) \<Rightarrow>
          (if r \<noteq> Null then node_addr (fst (leftmost r (InRight l a h # fs))) else climb_from_right fs)
      | _ \<Rightarrow> None)"

definition psync_tree_get_prev :: "'a ptree \<Rightarrow> 'a \<Rightarrow> 'a option" where
  "psync_tree_get_prev t p =
     (case focus p t [] of
        Some (Node l a h r, fs) \<Rightarrow>
          (if l \<noteq> Null then node_addr (fst (rightmost l (InLeft a h r # fs))) else climb_from_left fs)
      | _ \<Rightarrow> None)"

text \<open>The order in which nodes can be freed: a node after both its subtrees.\<close>

fun deepest :: "'a ptree \<Rightarrow> 'a option" where
  "deepest Null = None"
| "deepest (Node l a h r) =
     (if l \<noteq> Null then deepest l else if r \<noteq> Null then deepest r else Some a)"

definition psync_tree_get_first_safe :: "'a ptree \<Rightarrow> 'a option" where
  "psync_tree_get_first_safe t = deepest t"

definition psync_tree_get_next_safe :: "'a ptree \<Rightarrow> 'a \<Rightarrow> 'a option" where
  "psync_tree_get_next_safe t p =
     (case focus p t [] of
        None \<Rightarrow> None
      | Some (e, []) \<Rightarrow> None
      | Some (e, InRight l a h # fs) \<Rightarrow> Some a
      | Some (e, InLeft a h r # fs) \<Rightarrow> (if r = Null then Some a else deepest r))"

subsection \<open>Rotations and rebalancing (ptree.c)\<close>

definition psync_tree_recalc_height :: "'a ptree \<Rightarrow> 'a \<Rightarrow> 'a ptree \<Rightarrow> 'a ptree" where
  "psync_tree_recalc_height l a r = Node l a (max (psync_tree_height l) (psync_tree_height r) + 1) r"

fun psync_tree_rotate_left :: "'a ptree \<Rightarrow> 'a ptree option" where
  "psync_tree_rotate_left (Node l a h (Node l2 b h2 r2)) =
     (let e = (if l2 \<noteq> Null then psync_tree_recalc_height l a l2
               else Node l a (psync_tree_height l + 1) l2)
      in Some (psync_tree_recalc_height e b r2))"
| "psync_tree_rotate_left e = None"

fun psync_tree_rotate_right :: "'a ptree \<Rightarrow> 'a ptree option" where
  "psync_tree_rotate_right (Node (Node l2 b h2 r2) a h r) =
     (let e = (if r2 \<noteq> Null then psync_tree_recalc_height r2 a r
               else Node r2 a (psync_tree_height r + 1) r)
      in Some (psync_tree_recalc_height l2 b e))"
| "psync_tree_rotate_right e = None"

definition psync_tree_init_node :: "'a \<Rightarrow> 'a ptree" where
  "psync_tree_init_node a = Node Null a 1 Null"

text \<open>The branches \<open>dheight==2\<close> and \<open>dheight==-2\<close>, the same in both rebalancing functions.\<close>

fun rotate_left_heavy :: "'a ptree \<Rightarrow> 'a \<Rightarrow> int \<Rightarrow> 'a ptree \<Rightarrow> 'a ptree option" where
  "rotate_left_heavy Null a h r = None"
| "rotate_left_heavy (Node ll b hb lr) a h r =
     (case (if psync_tree_height lr > psync_tree_height ll
            then psync_tree_rotate_left (Node ll b hb lr) else Some (Node ll b hb lr)) of
        None \<Rightarrow> None
      | Some l' \<Rightarrow> psync_tree_rotate_right (Node l' a h r))"

fun rotate_right_heavy :: "'a ptree \<Rightarrow> 'a \<Rightarrow> int \<Rightarrow> 'a ptree \<Rightarrow> 'a ptree option" where
  "rotate_right_heavy l a h Null = None"
| "rotate_right_heavy l a h (Node rl b hb rr) =
     (case (if psync_tree_height rl > psync_tree_height rr
            then psync_tree_rotate_right (Node rl b hb rr) else Some (Node rl b hb rr)) of
        None \<Rightarrow> None
      | Some r' \<Rightarrow> psync_tree_rotate_left (Node l a h r'))"

fun psync_tree_go_up_rebalance_add :: "'a ptree \<Rightarrow> 'a frame list \<Rightarrow> 'a ptree option" where
  "psync_tree_go_up_rebalance_add Null fs = None"
| "psync_tree_go_up_rebalance_add (Node l a h r) fs =
     (let dheight = psync_tree_height l - psync_tree_height r in
      if dheight = 0 then Some (plug (Node l a h r) fs)
      else if dheight = 1 \<or> dheight = -1 then
        (let e = Node l a (psync_tree_height r + (dheight + 1) div 2 + 1) r in
         case fs of
           [] \<Rightarrow> Some e
         | f # fs' \<Rightarrow> psync_tree_go_up_rebalance_add (link e f) fs')
      else if dheight = 2 then map_option (\<lambda>e. plug e fs) (rotate_left_heavy l a h r)
      else if dheight = -2 then map_option (\<lambda>e. plug e fs) (rotate_right_heavy l a h r)
      else None)"

fun psync_tree_go_up_rebalance_del :: "'a ptree \<Rightarrow> 'a frame list \<Rightarrow> 'a ptree option" where
  "psync_tree_go_up_rebalance_del Null fs = None"
| "psync_tree_go_up_rebalance_del (Node l a h r) fs =
     (let dheight = psync_tree_height l - psync_tree_height r in
      if dheight = 0 then
        (let e = Node l a (psync_tree_height r + 1) r in
         case fs of
           [] \<Rightarrow> Some e
         | f # fs' \<Rightarrow> psync_tree_go_up_rebalance_del (link e f) fs')
      else if dheight = 1 \<or> dheight = -1 then Some (plug (Node l a h r) fs)
      else if dheight = 2 \<or> dheight = -2 then
        (case (if dheight = 2 then rotate_left_heavy l a h r else rotate_right_heavy l a h r) of
           None \<Rightarrow> None
         | Some e \<Rightarrow>
             (case fs of
                [] \<Rightarrow> Some e
              | f # fs' \<Rightarrow> psync_tree_go_up_rebalance_del (link e f) fs'))
      else None)"

subsection \<open>Insertion and removal (ptree.c, ptree.h)\<close>

definition insert_after_node :: "'a ptree \<Rightarrow> 'a \<Rightarrow> 'a \<Rightarrow> 'a ptree option" where
  "insert_after_node t node n =
     (case focus node t [] of
        Some (Node l a h r, fs) \<Rightarrow>
          (if r \<noteq> Null then
             (case leftmost r (InRight l a h # fs) of
                (Node l2 b h2 r2, fs2) \<Rightarrow>
                  psync_tree_go_up_rebalance_add (Node (psync_tree_init_node n) b h2 r2) fs2
              | _ \<Rightarrow> None)
           else psync_tree_go_up_rebalance_add (Node l a h (psync_tree_init_node n)) fs)
      | _ \<Rightarrow> None)"

definition insert_before_node :: "'a ptree \<Rightarrow> 'a \<Rightarrow> 'a \<Rightarrow> 'a ptree option" where
  "insert_before_node t node n =
     (case focus node t [] of
        Some (Node l a h r, fs) \<Rightarrow>
          (if l \<noteq> Null then
             (case rightmost l (InLeft a h r # fs) of
                (Node l2 b h2 r2, fs2) \<Rightarrow>
                  psync_tree_go_up_rebalance_add (Node l2 b h2 (psync_tree_init_node n)) fs2
              | _ \<Rightarrow> None)
           else psync_tree_go_up_rebalance_add (Node (psync_tree_init_node n) a h r) fs)
      | _ \<Rightarrow> None)"

definition psync_tree_get_add_after :: "'a ptree \<Rightarrow> 'a option \<Rightarrow> 'a \<Rightarrow> 'a ptree option" where
  "psync_tree_get_add_after t node n =
     (if t = Null then Some (psync_tree_init_node n)
      else case node of
             None \<Rightarrow> Option.bind (psync_tree_get_first t) (\<lambda>f. insert_before_node t f n)
           | Some p \<Rightarrow> insert_after_node t p n)"

definition psync_tree_get_add_before :: "'a ptree \<Rightarrow> 'a option \<Rightarrow> 'a \<Rightarrow> 'a ptree option" where
  "psync_tree_get_add_before t node n =
     (if t = Null then Some (psync_tree_init_node n)
      else case node of
             None \<Rightarrow> Option.bind (psync_tree_get_last t) (\<lambda>f. insert_after_node t f n)
           | Some p \<Rightarrow> insert_before_node t p n)"

text \<open>
  The caller of \<open>psync_tree_get_added_at\<close> has stored the new node in the free child slot it
  found (\<open>*addto=&node->tree\<close>), or in the root pointer when the tree was empty.
\<close>

datatype slot = LeftSlot | RightSlot

definition psync_tree_get_added_at :: "'a ptree \<Rightarrow> ('a \<times> slot) option \<Rightarrow> 'a \<Rightarrow> 'a ptree option" where
  "psync_tree_get_added_at t at n =
     (case at of
        None \<Rightarrow> Some (psync_tree_init_node n)
      | Some (p, s) \<Rightarrow>
          (case focus p t [] of
             Some (Node l a h r, fs) \<Rightarrow>
               psync_tree_go_up_rebalance_add
                 (case s of LeftSlot \<Rightarrow> Node (psync_tree_init_node n) a h r
                          | RightSlot \<Rightarrow> Node l a h (psync_tree_init_node n)) fs
           | _ \<Rightarrow> None))"

fun add_position :: "('a \<Rightarrow> 'a \<Rightarrow> int) \<Rightarrow> 'a \<Rightarrow> 'a ptree \<Rightarrow> ('a \<times> slot) option" where
  "add_position cmp n Null = None"
| "add_position cmp n (Node l a h r) =
     (if cmp n a < 0 then (if l \<noteq> Null then add_position cmp n l else Some (a, LeftSlot))
      else (if r \<noteq> Null then add_position cmp n r else Some (a, RightSlot)))"

definition psync_tree_get_add :: "('a \<Rightarrow> 'a \<Rightarrow> int) \<Rightarrow> 'a ptree \<Rightarrow> 'a \<Rightarrow> 'a ptree option" where
  "psync_tree_get_add cmp t n =
     (case add_position cmp n t of
        None \<Rightarrow> psync_tree_get_add_after t None n
      | Some (el, LeftSlot) \<Rightarrow> psync_tree_get_add_before t (Some el) n
      | Some (el, RightSlot) \<Rightarrow> psync_tree_get_add_after t (Some el) n)"

fun go_up_from_child_del :: "'a ptree \<Rightarrow> 'a frame list \<Rightarrow> 'a ptree option" where
  "go_up_from_child_del t [] = (if t = Null then Some Null else psync_tree_go_up_rebalance_del t [])"
| "go_up_from_child_del t (f # fs) = psync_tree_go_up_rebalance_del (link t f) fs"

text \<open>
  \<open>psync_tree_replace_me_with\<close>: the parent's link (or the root pointer) takes the replacement,
  then rebalancing goes up from the parent, or from the new root when there is no parent.
\<close>

definition psync_tree_replace_me_with :: "'a frame list \<Rightarrow> 'a ptree \<Rightarrow> 'a ptree option" where
  "psync_tree_replace_me_with fs repl = go_up_from_child_del repl fs"

definition psync_tree_get_del :: "'a ptree \<Rightarrow> 'a \<Rightarrow> 'a ptree option" where
  "psync_tree_get_del t node =
     (case focus node t [] of
        Some (Node l a h r, fs) \<Rightarrow>
          (if l = Null \<and> r = Null then psync_tree_replace_me_with fs Null
           else if l = Null then psync_tree_replace_me_with fs r
           else if r = Null then psync_tree_replace_me_with fs l
           else if psync_tree_height l > psync_tree_height r then
             (case rightmost l [] of
                (Node l2 el h2 r2, down) \<Rightarrow> go_up_from_child_del l2 (down @ InLeft el h r # fs)
              | _ \<Rightarrow> None)
           else
             (case leftmost r [] of
                (Node l2 el h2 r2, down) \<Rightarrow> go_up_from_child_del r2 (down @ InRight l el h # fs)
              | _ \<Rightarrow> None))
      | _ \<Rightarrow> None)"

subsection \<open>The balance invariant\<close>

fun avl :: "'a ptree \<Rightarrow> bool" where
  "avl Null = True"
| "avl (Node l a h r) =
     (avl l \<and> avl r \<and> h = max (psync_tree_height l) (psync_tree_height r) + 1 \<and>
      \<bar>psync_tree_height l - psync_tree_height r\<bar> \<le> 1)"

text \<open>The same for a path: its frames accept a subtree of height \<open>k\<close>.\<close>

fun avl_path :: "'a frame list \<Rightarrow> int \<Rightarrow> bool" where
  "avl_path [] k = True"
| "avl_path (InLeft a h r # fs) k =
     (avl r \<and> h = max k (psync_tree_height r) + 1 \<and> \<bar>k - psync_tree_height r\<bar> \<le> 1 \<and> avl_path fs h)"
| "avl_path (InRight l a h # fs) k =
     (avl l \<and> h = max (psync_tree_height l) k + 1 \<and> \<bar>psync_tree_height l - k\<bar> \<le> 1 \<and> avl_path fs h)"

fun before :: "'a frame list \<Rightarrow> 'a list" where
  "before [] = []"
| "before (InLeft a h r # fs) = before fs"
| "before (InRight l a h # fs) = before fs @ inorder l @ [a]"

fun after :: "'a frame list \<Rightarrow> 'a list" where
  "after [] = []"
| "after (InLeft a h r # fs) = a # inorder r @ after fs"
| "after (InRight l a h # fs) = after fs"

lemma inorder_plug [simp]: "inorder (plug t fs) = before fs @ inorder t @ after fs"
  by (induction fs arbitrary: t rule: before.induct) auto

lemma before_append [simp]: "before (fs @ gs) = before gs @ before fs"
  by (induction fs rule: before.induct) auto

lemma after_append [simp]: "after (fs @ gs) = after fs @ after gs"
  by (induction fs rule: after.induct) auto

lemma plug_append [simp]: "plug t (fs @ gs) = plug (plug t fs) gs"
  by (induction fs arbitrary: t) auto

lemma avl_plug: "avl (plug t fs) \<longleftrightarrow> avl t \<and> avl_path fs (psync_tree_height t)"
  by (induction fs arbitrary: t rule: before.induct) auto

lemma avl_height_nonneg: "avl t \<Longrightarrow> 0 \<le> psync_tree_height t"
  by (induction t) auto

lemma avl_height_pos: "avl t \<Longrightarrow> 0 < psync_tree_height t \<longleftrightarrow> t \<noteq> Null"
  by (cases t) (auto dest: avl_height_nonneg)

lemma inorder_Null_iff [simp]: "inorder t = [] \<longleftrightarrow> t = Null"
  by (cases t) auto

lemma link_not_Null [simp]: "link t f \<noteq> Null"
  by (cases f) auto

subsection \<open>Rotations keep the order and restore the balance\<close>

lemma inorder_recalc [simp]: "inorder (psync_tree_recalc_height l a r) = inorder l @ a # inorder r"
  by (simp add: psync_tree_recalc_height_def)

lemma inorder_rotate_left: "psync_tree_rotate_left e = Some e' \<Longrightarrow> inorder e' = inorder e"
  by (induction e rule: psync_tree_rotate_left.induct) (auto simp: Let_def)

lemma inorder_rotate_right: "psync_tree_rotate_right e = Some e' \<Longrightarrow> inorder e' = inorder e"
  by (induction e rule: psync_tree_rotate_right.induct) (auto simp: Let_def)

lemma inorder_rotate_left_heavy:
  "rotate_left_heavy l a h r = Some e \<Longrightarrow> inorder e = inorder l @ a # inorder r"
  by (cases l) (auto split: option.splits if_splits dest!: inorder_rotate_left inorder_rotate_right)

lemma inorder_rotate_right_heavy:
  "rotate_right_heavy l a h r = Some e \<Longrightarrow> inorder e = inorder l @ a # inorder r"
  by (cases r) (auto split: option.splits if_splits dest!: inorder_rotate_left inorder_rotate_right)

text \<open>A subtree whose two children have different heights (as after an insertion into it).\<close>

fun skew :: "'a ptree \<Rightarrow> bool" where
  "skew Null = False"
| "skew (Node l a h r) = (psync_tree_height l \<noteq> psync_tree_height r)"

lemma rotate_left_heavy_avl:
  assumes "avl l" "avl r" "psync_tree_height l = psync_tree_height r + 2"
  shows "\<exists>e. rotate_left_heavy l a h r = Some e \<and> avl e \<and>
           psync_tree_height e = psync_tree_height l + (if skew l then 0 else 1)"
proof -
  from assms have "0 \<le> psync_tree_height r" by (simp add: avl_height_nonneg)
  with assms obtain ll b hb lr where l: "l = Node ll b hb lr" by (cases l) auto
  show ?thesis
  proof (cases "psync_tree_height lr > psync_tree_height ll")
    case True
    with assms l have "0 < psync_tree_height lr" using avl_height_nonneg [of ll] by auto
    then obtain lrl c hc lrr where lr: "lr = Node lrl c hc lrr" by (cases lr) auto
    show ?thesis using True assms l lr avl_height_nonneg [of r] avl_height_nonneg [of ll]
        avl_height_nonneg [of lrl] avl_height_nonneg [of lrr]
      by (cases "lrl = Null"; cases "lrr = Null")
        (auto simp: Let_def psync_tree_recalc_height_def max_def split: if_splits)
  next
    case False
    then show ?thesis using assms l avl_height_nonneg [of r] avl_height_nonneg [of lr] avl_height_nonneg [of ll]
      by (cases "lr = Null") (auto simp: Let_def psync_tree_recalc_height_def max_def split: if_splits)
  qed
qed

lemma rotate_right_heavy_avl:
  assumes "avl l" "avl r" "psync_tree_height r = psync_tree_height l + 2"
  shows "\<exists>e. rotate_right_heavy l a h r = Some e \<and> avl e \<and>
           psync_tree_height e = psync_tree_height r + (if skew r then 0 else 1)"
proof -
  from assms have "0 \<le> psync_tree_height l" by (simp add: avl_height_nonneg)
  with assms obtain rl b hb rr where r: "r = Node rl b hb rr" by (cases r) auto
  show ?thesis
  proof (cases "psync_tree_height rl > psync_tree_height rr")
    case True
    with assms r have "0 < psync_tree_height rl" using avl_height_nonneg [of rr] by auto
    then obtain rll c hc rlr where rl: "rl = Node rll c hc rlr" by (cases rl) auto
    show ?thesis using True assms r rl avl_height_nonneg [of l] avl_height_nonneg [of rr]
        avl_height_nonneg [of rll] avl_height_nonneg [of rlr]
      by (cases "rll = Null"; cases "rlr = Null")
        (auto simp: Let_def psync_tree_recalc_height_def max_def split: if_splits)
  next
    case False
    then show ?thesis using assms r avl_height_nonneg [of l] avl_height_nonneg [of rl] avl_height_nonneg [of rr]
      by (cases "rl = Null") (auto simp: Let_def psync_tree_recalc_height_def max_def split: if_splits)
  qed
qed

subsection \<open>Rebalancing on the way up\<close>

text \<open>
  The state \<open>psync_tree_go_up_rebalance_add\<close> finds: one child of the node grew by one, the
  stored height \<open>h\<close> is the height before. A child that is now too high is not itself evenly
  balanced, which is why a single rotation ends the walk.
\<close>

fun grown :: "'a ptree \<Rightarrow> int \<Rightarrow> 'a ptree \<Rightarrow> bool" where
  "grown l h r =
     (avl l \<and> avl r \<and>
      (let d = psync_tree_height l - psync_tree_height r in
       (d = 0 \<and> h = psync_tree_height l + 1) \<or>
       (d = 1 \<and> h = psync_tree_height l) \<or> (d = -1 \<and> h = psync_tree_height r) \<or>
       (d = 2 \<and> h = psync_tree_height l \<and> skew l) \<or> (d = -2 \<and> h = psync_tree_height r \<and> skew r)))"

text \<open>The state \<open>psync_tree_go_up_rebalance_del\<close> finds: at most one child shrank by one.\<close>

fun shrunk :: "'a ptree \<Rightarrow> int \<Rightarrow> 'a ptree \<Rightarrow> bool" where
  "shrunk l h r =
     (avl l \<and> avl r \<and>
      (let d = psync_tree_height l - psync_tree_height r;
           m = max (psync_tree_height l) (psync_tree_height r) in
       \<bar>d\<bar> \<le> 2 \<and> (h = m + 1 \<or> (d = 0 \<and> h = m + 2))))"

definition good :: "'a list \<Rightarrow> 'a ptree option \<Rightarrow> bool" where
  "good xs res \<longleftrightarrow> (\<exists>t. res = Some t \<and> avl t \<and> inorder t = xs)"

lemma goodI [intro?]: "avl t \<Longrightarrow> inorder t = xs \<Longrightarrow> good xs (Some t)"
  by (simp add: good_def)

lemma near_cases:
  assumes "\<bar>(k :: int) - m\<bar> \<le> 1"
  obtains "m = k - 1" | "m = k" | "m = k + 1"
  using assms by linarith

lemma grown_left:
  assumes "avl r" "avl e" "skew e" "psync_tree_height e = k + 1" "h = max k (psync_tree_height r) + 1"
    and "\<bar>k - psync_tree_height r\<bar> \<le> 1"
  shows "grown e h r"
  by (cases rule: near_cases [OF assms(6)]) (use assms(1-5) in \<open>simp_all add: Let_def\<close>)

lemma grown_right:
  assumes "avl l" "avl e" "skew e" "psync_tree_height e = k + 1" "h = max (psync_tree_height l) k + 1"
    and "\<bar>psync_tree_height l - k\<bar> \<le> 1"
  shows "grown l h e"
  by (cases rule: near_cases [OF assms(6)]) (use assms(1-5) in \<open>simp_all add: Let_def\<close>)

lemma grown_link:
  assumes "avl_path (f # fs) k" and "avl e" and "psync_tree_height e = k + 1" and "skew e"
  shows "\<exists>l a h r. link e f = Node l a h r \<and> grown l h r \<and> avl_path fs h"
proof (cases f)
  case (InLeft a h r)
  have "grown e h r" by (rule grown_left [of _ _ k]) (use assms InLeft in simp_all)
  moreover have "avl_path fs h" using assms(1) unfolding InLeft avl_path.simps by blast
  ultimately show ?thesis unfolding InLeft link.simps by blast
next
  case (InRight l a h)
  have "grown l h e" by (rule grown_right [of _ _ k]) (use assms InRight in simp_all)
  moreover have "avl_path fs h" using assms(1) unfolding InRight avl_path.simps by blast
  ultimately show ?thesis unfolding InRight link.simps by blast
qed

lemma rebalance_add_good:
  "grown l h r \<Longrightarrow> avl_path fs h \<Longrightarrow>
   good (before fs @ inorder l @ a # inorder r @ after fs) (psync_tree_go_up_rebalance_add (Node l a h r) fs)"
proof (induction fs arbitrary: l a h r)
  case (Cons f fs)
  let ?d = "psync_tree_height l - psync_tree_height r"
  consider "?d = 0" | "?d = 1 \<or> ?d = -1" | "?d = 2" | "?d = -2"
    using Cons.prems(1) by (auto simp: Let_def)
  then show ?case
  proof cases
    case 2
    define e where "e = Node l a (psync_tree_height r + (?d + 1) div 2 + 1) r"
    have e: "avl e" "psync_tree_height e = h + 1" "skew e"
      using 2 Cons.prems(1) by (auto simp: e_def Let_def)
    obtain l' a' h' r' where le: "link e f = Node l' a' h' r'" "grown l' h' r'" "avl_path fs h'"
      using grown_link [OF Cons.prems(2) e] by blast
    have "inorder (link e f) = inorder l' @ a' # inorder r'" by (simp add: le(1))
    then have "before fs @ inorder l' @ a' # inorder r' @ after fs = inorder (plug e (f # fs))" by simp
    also have "\<dots> = before (f # fs) @ inorder l @ a # inorder r @ after (f # fs)"
      unfolding inorder_plug by (simp add: e_def)
    finally have "good (before (f # fs) @ inorder l @ a # inorder r @ after (f # fs)) (psync_tree_go_up_rebalance_add (link e f) fs)"
      using Cons.IH [OF le(2,3), of a'] by (simp only: le(1))
    moreover have "psync_tree_go_up_rebalance_add (Node l a h r) (f # fs) = psync_tree_go_up_rebalance_add (link e f) fs"
      using 2 by (auto simp: e_def)
    ultimately show ?thesis by simp
  next
    case 1
    then have "avl (plug (Node l a h r) (f # fs))" unfolding avl_plug using Cons.prems by (auto simp: Let_def)
    moreover have "inorder (plug (Node l a h r) (f # fs)) = before (f # fs) @ inorder l @ a # inorder r @ after (f # fs)"
      unfolding inorder_plug by simp
    ultimately show ?thesis using 1 by (simp add: good_def)
  next
    case 3
    with Cons.prems obtain e where "rotate_left_heavy l a h r = Some e" "avl e" "psync_tree_height e = h"
      using rotate_left_heavy_avl [of l r a h] by (auto simp: Let_def)
    moreover from this have "avl (plug e (f # fs))"
      unfolding avl_plug using Cons.prems by simp
    moreover have "inorder (plug e (f # fs)) = before (f # fs) @ inorder l @ a # inorder r @ after (f # fs)"
      unfolding inorder_plug using inorder_rotate_left_heavy [of l a h r e] calculation(1) by simp
    ultimately show ?thesis using 3 by (simp add: good_def Let_def)
  next
    case 4
    with Cons.prems obtain e where "rotate_right_heavy l a h r = Some e" "avl e" "psync_tree_height e = h"
      using rotate_right_heavy_avl [of l r a h] by (auto simp: Let_def)
    moreover from this have "avl (plug e (f # fs))"
      unfolding avl_plug using Cons.prems by simp
    moreover have "inorder (plug e (f # fs)) = before (f # fs) @ inorder l @ a # inorder r @ after (f # fs)"
      unfolding inorder_plug using inorder_rotate_right_heavy [of l a h r e] calculation(1) by simp
    ultimately show ?thesis using 4 by (simp add: good_def Let_def)
  qed
next
  case Nil
  let ?d = "psync_tree_height l - psync_tree_height r"
  consider "?d = 0" | "?d = 1 \<or> ?d = -1" | "?d = 2" | "?d = -2"
    using Nil.prems(1) by (auto simp: Let_def)
  then show ?case
  proof cases
    case 3
    with Nil.prems show ?thesis
      using rotate_left_heavy_avl [of l r a h] inorder_rotate_left_heavy [of l a h r] by (auto simp: good_def)
  next
    case 4
    with Nil.prems show ?thesis
      using rotate_right_heavy_avl [of l r a h] inorder_rotate_right_heavy [of l a h r] by (auto simp: good_def)
  qed (use Nil.prems in \<open>auto simp: good_def Let_def\<close>)
qed

lemma shrunk_link:
  assumes "avl_path (f # fs) k" and "avl e" and "psync_tree_height e = k \<or> psync_tree_height e = k - 1"
  shows "\<exists>l a h r. link e f = Node l a h r \<and> shrunk l h r \<and> avl_path fs h"
  using assms by (cases f) (auto simp: Let_def)

lemma shrunk_rotated:
  assumes "shrunk l h r" and "psync_tree_height l - psync_tree_height r = 2 \<or> psync_tree_height l - psync_tree_height r = -2"
  shows "\<exists>e. (if psync_tree_height l - psync_tree_height r = 2 then rotate_left_heavy l a h r else rotate_right_heavy l a h r) = Some e
    \<and> avl e \<and> inorder e = inorder l @ a # inorder r \<and> (psync_tree_height e = h \<or> psync_tree_height e = h - 1)"
proof (cases "psync_tree_height l - psync_tree_height r = 2")
  case True
  with assms obtain e where "rotate_left_heavy l a h r = Some e" "avl e"
      "psync_tree_height e = psync_tree_height l + (if skew l then 0 else 1)"
    using rotate_left_heavy_avl [of l r a h] by auto
  with assms True inorder_rotate_left_heavy [of l a h r e] show ?thesis by (auto simp: Let_def)
next
  case False
  with assms obtain e where "rotate_right_heavy l a h r = Some e" "avl e"
      "psync_tree_height e = psync_tree_height r + (if skew r then 0 else 1)"
    using rotate_right_heavy_avl [of l r a h] by auto
  with assms False inorder_rotate_right_heavy [of l a h r e] show ?thesis by (auto simp: Let_def)
qed

lemma go_up_del_link:
  assumes IH: "\<forall>l a h r. shrunk l h r \<longrightarrow> avl_path fs h \<longrightarrow>
      good (before fs @ inorder l @ a # inorder r @ after fs) (psync_tree_go_up_rebalance_del (Node l a h r) fs)"
    and "avl_path (f # fs) k" "avl e" "psync_tree_height e = k \<or> psync_tree_height e = k - 1"
  shows "good (before (f # fs) @ inorder e @ after (f # fs)) (psync_tree_go_up_rebalance_del (link e f) fs)"
proof -
  obtain l a h r where le: "link e f = Node l a h r" "shrunk l h r" "avl_path fs h"
    using shrunk_link [OF assms(2-4)] by blast
  have "inorder (link e f) = inorder l @ a # inorder r" by (simp add: le(1))
  then have "before fs @ inorder l @ a # inorder r @ after fs = inorder (plug e (f # fs))" by simp
  then have eq: "before fs @ inorder l @ a # inorder r @ after fs = before (f # fs) @ inorder e @ after (f # fs)"
    unfolding inorder_plug .
  from IH le(2,3) have "good (before fs @ inorder l @ a # inorder r @ after fs) (psync_tree_go_up_rebalance_del (Node l a h r) fs)"
    by blast
  then show ?thesis by (simp only: le(1) eq)
qed

lemma rebalance_del_good:
  "shrunk l h r \<Longrightarrow> avl_path fs h \<Longrightarrow>
   good (before fs @ inorder l @ a # inorder r @ after fs) (psync_tree_go_up_rebalance_del (Node l a h r) fs)"
proof (induction fs arbitrary: l a h r)
  case (Cons f fs)
  have "\<forall>l a h r. shrunk l h r \<longrightarrow> avl_path fs h \<longrightarrow>
      good (before fs @ inorder l @ a # inorder r @ after fs) (psync_tree_go_up_rebalance_del (Node l a h r) fs)"
    using Cons.IH by blast
  note link = go_up_del_link [OF this Cons.prems(2)]
  let ?d = "psync_tree_height l - psync_tree_height r"
  consider "?d = 0" | "?d = 1 \<or> ?d = -1" | "?d = 2 \<or> ?d = -2"
    using Cons.prems(1) by (fastforce simp: Let_def)
  then show ?case
  proof cases
    case 1
    then show ?thesis
      using link [of "Node l a (psync_tree_height r + 1) r"] Cons.prems(1) by (auto simp: Let_def)
  next
    case 2
    then have "avl (plug (Node l a h r) (f # fs))" unfolding avl_plug using Cons.prems by (auto simp: Let_def)
    moreover have "inorder (plug (Node l a h r) (f # fs)) = before (f # fs) @ inorder l @ a # inorder r @ after (f # fs)"
      unfolding inorder_plug by simp
    moreover have "psync_tree_go_up_rebalance_del (Node l a h r) (f # fs) = Some (plug (Node l a h r) (f # fs))"
      using 2 by auto
    ultimately show ?thesis by (simp add: good_def)
  next
    case 3
    then obtain e where e: "(if ?d = 2 then rotate_left_heavy l a h r else rotate_right_heavy l a h r) = Some e"
      "avl e" "inorder e = inorder l @ a # inorder r" "psync_tree_height e = h \<or> psync_tree_height e = h - 1"
      using shrunk_rotated [OF Cons.prems(1)] by blast
    have "psync_tree_go_up_rebalance_del (Node l a h r) (f # fs) = psync_tree_go_up_rebalance_del (link e f) fs"
      using 3 e(1) by (auto simp: Let_def)
    then show ?thesis using link [OF e(2,4)] e(3) by simp
  qed
next
  case Nil
  let ?d = "psync_tree_height l - psync_tree_height r"
  consider "?d = 0" | "?d = 1 \<or> ?d = -1" | "?d = 2 \<or> ?d = -2"
    using Nil.prems(1) by (fastforce simp: Let_def)
  then show ?case
  proof cases
    case 3
    then obtain e where e: "(if ?d = 2 then rotate_left_heavy l a h r else rotate_right_heavy l a h r) = Some e"
      "avl e" "inorder e = inorder l @ a # inorder r"
      using shrunk_rotated [OF Nil.prems(1)] by blast
    have "psync_tree_go_up_rebalance_del (Node l a h r) [] = Some e" using 3 e(1) by (auto simp: Let_def)
    then show ?thesis using e by (simp add: good_def)
  qed (use Nil.prems in \<open>auto simp: good_def Let_def\<close>)
qed

lemma go_up_from_child_del_good:
  assumes "avl_path fs k" and "avl t" and "psync_tree_height t = k \<or> psync_tree_height t = k - 1"
  shows "good (before fs @ inorder t @ after fs) (go_up_from_child_del t fs)"
proof (cases fs)
  case (Cons f gs)
  have "\<forall>l a h r. shrunk l h r \<longrightarrow> avl_path gs h \<longrightarrow>
      good (before gs @ inorder l @ a # inorder r @ after gs) (psync_tree_go_up_rebalance_del (Node l a h r) gs)"
    by (blast intro: rebalance_del_good)
  from go_up_del_link [OF this assms(1) [unfolded Cons] assms(2,3)] show ?thesis
    unfolding Cons by (simp only: go_up_from_child_del.simps)
next
  case Nil
  with assms show ?thesis
    using rebalance_del_good [of _ _ _ "[]"] by (cases t) (auto simp: good_def Let_def)
qed

subsection \<open>Cursors\<close>

lemma focus_sound:
  "focus p t fs = Some (e, gs) \<Longrightarrow> plug e gs = plug t fs \<and> (\<exists>l h r. e = Node l p h r)"
  by (induction p t fs rule: focus.induct) (auto split: if_splits option.splits)

lemma focus_complete: "p \<in> set (inorder t) \<Longrightarrow> focus p t fs \<noteq> None"
  by (induction p t fs rule: focus.induct) (auto split: option.splits)

lemma focus_None: "p \<notin> set (inorder t) \<Longrightarrow> focus p t fs = None"
  by (induction p t fs rule: focus.induct) auto

lemma focus_split:
  assumes "distinct (inorder t)" and "inorder t = xs @ p # ys"
  obtains l h r fs where "focus p t [] = Some (Node l p h r, fs)" "plug (Node l p h r) fs = t"
    "before fs @ inorder l = xs" "inorder r @ after fs = ys"
proof -
  from assms have "p \<in> set (inorder t)" by simp
  then obtain c where "focus p t [] = Some c" using focus_complete [of p t "[]"] by blast
  then obtain l h r fs where f: "focus p t [] = Some (Node l p h r, fs)" "plug (Node l p h r) fs = t"
    using focus_sound [of p t "[]"] by (cases c) auto
  then have "(before fs @ inorder l) @ p # inorder r @ after fs = xs @ p # ys"
    using assms(2) inorder_plug [of "Node l p h r" fs] by simp
  moreover from this have "distinct ((before fs @ inorder l) @ p # inorder r @ after fs)"
    using assms by simp
  ultimately have "before fs @ inorder l = xs" "inorder r @ after fs = ys"
    using distinct_split_unique by metis+
  with f show thesis by (rule that)
qed

lemma leftmost_split:
  "t \<noteq> Null \<Longrightarrow> \<exists>a h r gs. leftmost t fs = (Node Null a h r, gs @ fs) \<and>
     plug (Node Null a h r) gs = t \<and> before gs = []"
proof (induction t arbitrary: fs)
  case (Node l a h r)
  show ?case
  proof (cases "l = Null")
    case False
    then obtain b h2 r2 gs where "leftmost l (InLeft a h r # fs) = (Node Null b h2 r2, gs @ InLeft a h r # fs)"
      "plug (Node Null b h2 r2) gs = l" "before gs = []" using Node.IH(1) by blast
    then show ?thesis using False by (intro exI [of _ b] exI [of _ h2] exI [of _ r2] exI [of _ "gs @ [InLeft a h r]"]) simp
  qed (intro exI [of _ a] exI [of _ h] exI [of _ r] exI [of _ "[]"], simp)
qed simp

lemma rightmost_split:
  "t \<noteq> Null \<Longrightarrow> \<exists>l a h gs. rightmost t fs = (Node l a h Null, gs @ fs) \<and>
     plug (Node l a h Null) gs = t \<and> after gs = []"
proof (induction t arbitrary: fs)
  case (Node l a h r)
  show ?case
  proof (cases "r = Null")
    case False
    then obtain l2 b h2 gs where "rightmost r (InRight l a h # fs) = (Node l2 b h2 Null, gs @ InRight l a h # fs)"
      "plug (Node l2 b h2 Null) gs = r" "after gs = []" using Node.IH(2) by blast
    then show ?thesis using False by (intro exI [of _ l2] exI [of _ b] exI [of _ h2] exI [of _ "gs @ [InRight l a h]"]) simp
  qed (intro exI [of _ l] exI [of _ a] exI [of _ h] exI [of _ "[]"], simp)
qed simp

lemma leftmost_addr: "t \<noteq> Null \<Longrightarrow> node_addr (fst (leftmost t fs)) = Some (hd (inorder t))"
  by (induction t fs rule: leftmost.induct) auto

lemma rightmost_addr: "t \<noteq> Null \<Longrightarrow> node_addr (fst (rightmost t fs)) = Some (last (inorder t))"
  by (induction t fs rule: rightmost.induct) auto

lemma climb_from_right_after: "climb_from_right fs = (if after fs = [] then None else Some (hd (after fs)))"
  by (induction fs rule: climb_from_right.induct) auto

lemma climb_from_left_before: "climb_from_left fs = (if before fs = [] then None else Some (last (before fs)))"
  by (induction fs rule: climb_from_left.induct) auto

lemma get_first_inorder:
  "psync_tree_get_first t = (if inorder t = [] then None else Some (hd (inorder t)))"
  by (cases "t = Null") (simp_all add: psync_tree_get_first_def leftmost_addr)

lemma get_last_inorder:
  "psync_tree_get_last t = (if inorder t = [] then None else Some (last (inorder t)))"
  by (cases "t = Null") (simp_all add: psync_tree_get_last_def rightmost_addr)

lemma get_next_inorder:
  assumes "distinct (inorder t)" and "inorder t = xs @ p # ys"
  shows "psync_tree_get_next t p = (if ys = [] then None else Some (hd ys))"
proof -
  obtain l h r fs where "focus p t [] = Some (Node l p h r, fs)" "inorder r @ after fs = ys"
    using assms by (rule focus_split)
  then show ?thesis
    by (cases "r = Null") (auto simp: psync_tree_get_next_def leftmost_addr climb_from_right_after)
qed

lemma get_prev_inorder:
  assumes "distinct (inorder t)" and "inorder t = xs @ p # ys"
  shows "psync_tree_get_prev t p = (if xs = [] then None else Some (last xs))"
proof -
  obtain l h r fs where "focus p t [] = Some (Node l p h r, fs)" "before fs @ inorder l = xs"
    using assms by (rule focus_split)
  then show ?thesis
    by (cases "l = Null") (auto simp: psync_tree_get_prev_def rightmost_addr climb_from_left_before)
qed

text \<open>The same splitting for the order \<open>psync_tree_get_first_safe\<close> and \<open>_next_safe\<close> follow.\<close>

fun post_before :: "'a frame list \<Rightarrow> 'a list" where
  "post_before [] = []"
| "post_before (InLeft a h r # fs) = post_before fs"
| "post_before (InRight l a h # fs) = post_before fs @ postorder l"

fun post_after :: "'a frame list \<Rightarrow> 'a list" where
  "post_after [] = []"
| "post_after (InLeft a h r # fs) = postorder r @ a # post_after fs"
| "post_after (InRight l a h # fs) = a # post_after fs"

lemma postorder_plug: "postorder (plug t fs) = post_before fs @ postorder t @ post_after fs"
  by (induction fs arbitrary: t rule: post_before.induct) auto

lemma set_postorder: "set (postorder t) = set (inorder t)"
  by (induction t) auto

lemma postorder_Null_iff [simp]: "postorder t = [] \<longleftrightarrow> t = Null"
  by (cases t) auto

lemma deepest_postorder: "t \<noteq> Null \<Longrightarrow> deepest t = Some (hd (postorder t))"
  by (induction t) auto

lemma get_first_safe_postorder:
  "psync_tree_get_first_safe t = (if t = Null then None else Some (hd (postorder t)))"
  by (simp add: psync_tree_get_first_safe_def deepest_postorder)

lemma get_next_safe_postorder:
  assumes "distinct (postorder t)" and "postorder t = xs @ p # ys"
  shows "psync_tree_get_next_safe t p = (if ys = [] then None else Some (hd ys))"
proof -
  from assms have "p \<in> set (inorder t)" by (simp flip: set_postorder)
  then obtain c where "focus p t [] = Some c" using focus_complete [of p t "[]"] by blast
  then obtain l h r fs where f: "focus p t [] = Some (Node l p h r, fs)" "plug (Node l p h r) fs = t"
    using focus_sound [of p t "[]"] by (cases c) auto
  then have eq: "(post_before fs @ postorder l @ postorder r) @ p # post_after fs = xs @ p # ys"
    using assms(2) postorder_plug [of "Node l p h r" fs] by simp
  with assms have "distinct ((post_before fs @ postorder l @ postorder r) @ p # post_after fs)" by simp
  then have "post_after fs = ys" using eq distinct_split_unique by metis
  then show ?thesis using f(1)
    by (cases fs rule: post_after.cases) (auto simp: psync_tree_get_next_safe_def deepest_postorder)
qed

subsection \<open>Insertion\<close>

lemma add_left_good:
  assumes "avl (plug (Node Null a h r) fs)"
  shows "good (before fs @ n # a # inorder r @ after fs)
    (psync_tree_go_up_rebalance_add (Node (psync_tree_init_node n) a h r) fs)"
proof -
  from assms have "avl r" "h = psync_tree_height r + 1" "psync_tree_height r = 0 \<or> psync_tree_height r = 1" "avl_path fs h"
    by (auto simp: avl_plug dest: avl_height_nonneg)
  then show ?thesis
    using rebalance_add_good [of "psync_tree_init_node n" h r fs a] by (auto simp: psync_tree_init_node_def)
qed

lemma add_right_good:
  assumes "avl (plug (Node l a h Null) fs)"
  shows "good (before fs @ inorder l @ a # n # after fs)
    (psync_tree_go_up_rebalance_add (Node l a h (psync_tree_init_node n)) fs)"
proof -
  from assms have "avl l" "h = psync_tree_height l + 1" "psync_tree_height l = 0 \<or> psync_tree_height l = 1" "avl_path fs h"
    by (auto simp: avl_plug dest: avl_height_nonneg)
  then show ?thesis
    using rebalance_add_good [of l h "psync_tree_init_node n" fs a] by (auto simp: psync_tree_init_node_def)
qed

lemma insert_after_node_good:
  assumes "avl t" "distinct (inorder t)" "inorder t = xs @ p # ys"
  shows "good (xs @ p # n # ys) (insert_after_node t p n)"
proof -
  obtain l h r fs where f: "focus p t [] = Some (Node l p h r, fs)" "plug (Node l p h r) fs = t"
    "before fs @ inorder l = xs" "inorder r @ after fs = ys"
    using assms(2,3) by (rule focus_split)
  show ?thesis
  proof (cases "r = Null")
    case True
    then show ?thesis using add_right_good [of l p h fs n] f assms(1)
      by (auto simp: insert_after_node_def)
  next
    case False
    then obtain b h2 r2 gs where lm: "leftmost r (InRight l p h # fs) = (Node Null b h2 r2, gs @ InRight l p h # fs)"
      "plug (Node Null b h2 r2) gs = r" "before gs = []" using leftmost_split by blast
    have "avl (plug (Node Null b h2 r2) (gs @ InRight l p h # fs))" using lm(2) f(2) assms(1) by simp
    then have "good (xs @ p # n # b # inorder r2 @ after gs @ after fs)
        (psync_tree_go_up_rebalance_add (Node (psync_tree_init_node n) b h2 r2) (gs @ InRight l p h # fs))"
      using add_left_good [of b h2 r2 "gs @ InRight l p h # fs" n] f(3) lm(3) by auto
    moreover have "inorder r = b # inorder r2 @ after gs"
      using lm inorder_plug [of "Node Null b h2 r2" gs] by simp
    ultimately show ?thesis using False f lm(1) by (auto simp: insert_after_node_def)
  qed
qed

lemma insert_before_node_good:
  assumes "avl t" "distinct (inorder t)" "inorder t = xs @ p # ys"
  shows "good (xs @ n # p # ys) (insert_before_node t p n)"
proof -
  obtain l h r fs where f: "focus p t [] = Some (Node l p h r, fs)" "plug (Node l p h r) fs = t"
    "before fs @ inorder l = xs" "inorder r @ after fs = ys"
    using assms(2,3) by (rule focus_split)
  show ?thesis
  proof (cases "l = Null")
    case True
    then show ?thesis using add_left_good [of p h r fs n] f assms(1)
      by (auto simp: insert_before_node_def)
  next
    case False
    then obtain l2 b h2 gs where rm: "rightmost l (InLeft p h r # fs) = (Node l2 b h2 Null, gs @ InLeft p h r # fs)"
      "plug (Node l2 b h2 Null) gs = l" "after gs = []" using rightmost_split by blast
    have "avl (plug (Node l2 b h2 Null) (gs @ InLeft p h r # fs))" using rm(2) f(2) assms(1) by simp
    then have "good ((before fs @ before gs @ inorder l2 @ [b]) @ n # p # ys)
        (psync_tree_go_up_rebalance_add (Node l2 b h2 (psync_tree_init_node n)) (gs @ InLeft p h r # fs))"
      using add_right_good [of l2 b h2 "gs @ InLeft p h r # fs" n] f(4) rm(3) by auto
    moreover have "inorder l = before gs @ inorder l2 @ [b]"
      using rm inorder_plug [of "Node l2 b h2 Null" gs] by simp
    ultimately show ?thesis using False f rm(1) by (auto simp: insert_before_node_def)
  qed
qed


lemma get_add_after_good:
  assumes "avl t" "distinct (inorder t)" "inorder t = xs @ p # ys"
  shows "good (xs @ p # n # ys) (psync_tree_get_add_after t (Some p) n)"
  using insert_after_node_good [OF assms] assms(3) by (auto simp: psync_tree_get_add_after_def)

lemma get_add_before_good:
  assumes "avl t" "distinct (inorder t)" "inorder t = xs @ p # ys"
  shows "good (xs @ n # p # ys) (psync_tree_get_add_before t (Some p) n)"
  using insert_before_node_good [OF assms] assms(3) by (auto simp: psync_tree_get_add_before_def)

lemma get_add_first_good:
  assumes "avl t" "distinct (inorder t)"
  shows "good (n # inorder t) (psync_tree_get_add_after t None n)"
proof (cases "inorder t")
  case Nil
  then show ?thesis by (simp add: psync_tree_get_add_after_def psync_tree_init_node_def good_def)
next
  case (Cons p ys)
  then show ?thesis using insert_before_node_good [OF assms, of "[]" p ys n]
    by (auto simp: psync_tree_get_add_after_def get_first_inorder)
qed

lemma get_add_last_good:
  assumes "avl t" "distinct (inorder t)"
  shows "good (inorder t @ [n]) (psync_tree_get_add_before t None n)"
proof (cases "inorder t" rule: rev_cases)
  case Nil
  then show ?thesis by (simp add: psync_tree_get_add_before_def psync_tree_init_node_def good_def)
next
  case (snoc xs p)
  then show ?thesis using insert_after_node_good [OF assms, of xs p "[]" n]
    by (auto simp: psync_tree_get_add_before_def get_last_inorder)
qed

text \<open>
  Where the free slot below a node is: its left slot is free when \<open>l = Null\<close>, its right slot
  when \<open>r = Null\<close>. The callers of \<open>psync_tree_get_added_at\<close> only pass a free one.
\<close>

lemma get_added_at_left_good:
  assumes "avl t" "distinct (inorder t)" "inorder t = xs @ p # ys" "focus p t [] = Some (Node Null p h r, fs)"
  shows "good (xs @ n # p # ys) (psync_tree_get_added_at t (Some (p, LeftSlot)) n)"
proof -
  have "psync_tree_get_added_at t (Some (p, LeftSlot)) n = insert_before_node t p n"
    using assms(4) by (simp add: psync_tree_get_added_at_def insert_before_node_def)
  then show ?thesis using insert_before_node_good [OF assms(1-3)] by simp
qed

lemma get_added_at_right_good:
  assumes "avl t" "distinct (inorder t)" "inorder t = xs @ p # ys" "focus p t [] = Some (Node l p h Null, fs)"
  shows "good (xs @ p # n # ys) (psync_tree_get_added_at t (Some (p, RightSlot)) n)"
proof -
  have "psync_tree_get_added_at t (Some (p, RightSlot)) n = insert_after_node t p n"
    using assms(4) by (simp add: psync_tree_get_added_at_def insert_after_node_def)
  then show ?thesis using insert_after_node_good [OF assms(1-3)] by simp
qed

text \<open>The search of \<open>psync_tree_get_add\<close> ends between the elements not above and those above the new one.\<close>

lemma add_position_split:
  assumes "t \<noteq> Null" and "sorted_wrt (\<lambda>a b. cmp n a < 0 \<longrightarrow> cmp n b < 0) (inorder t)"
  shows "\<exists>xs el ys. inorder t = xs @ el # ys \<and> (\<forall>x \<in> set xs. \<not> cmp n x < 0) \<and> (\<forall>y \<in> set ys. cmp n y < 0) \<and>
     add_position cmp n t = Some (el, if cmp n el < 0 then LeftSlot else RightSlot)"
  using assms
proof (induction cmp n t rule: add_position.induct)
  case (2 cmp n l a h r)
  have sorted: "sorted_wrt (\<lambda>a b. cmp n a < 0 \<longrightarrow> cmp n b < 0) (inorder l)"
    "sorted_wrt (\<lambda>a b. cmp n a < 0 \<longrightarrow> cmp n b < 0) (inorder r)"
    "\<And>x. x \<in> set (inorder l) \<Longrightarrow> cmp n x < 0 \<Longrightarrow> cmp n a < 0"
    "\<And>y. y \<in> set (inorder r) \<Longrightarrow> cmp n a < 0 \<Longrightarrow> cmp n y < 0"
    using "2.prems"(2) unfolding inorder.simps sorted_wrt_append sorted_wrt.simps
    by (blast, blast, auto simp only: list.set)
  show ?case
  proof (cases "cmp n a < 0")
    case True
    show ?thesis
    proof (cases "l = Null")
      case False
      with "2.IH"(1) [OF True False False sorted(1)] obtain xs el ys where
        "inorder l = xs @ el # ys" "\<forall>x \<in> set xs. \<not> cmp n x < 0" "\<forall>y \<in> set ys. cmp n y < 0"
        "add_position cmp n l = Some (el, if cmp n el < 0 then LeftSlot else RightSlot)" by blast
      then show ?thesis using True False sorted(4)
        by (intro exI [of _ xs] exI [of _ el] exI [of _ "ys @ a # inorder r"]) auto
    qed (intro exI [of _ "[]"] exI [of _ a] exI [of _ "inorder r"], use True sorted(4) in simp)
  next
    case False
    show ?thesis
    proof (cases "r = Null")
      case r: False
      with "2.IH"(2) [OF False r r sorted(2)] obtain xs el ys where
        "inorder r = xs @ el # ys" "\<forall>x \<in> set xs. \<not> cmp n x < 0" "\<forall>y \<in> set ys. cmp n y < 0"
        "add_position cmp n r = Some (el, if cmp n el < 0 then LeftSlot else RightSlot)" by blast
      then show ?thesis using False r sorted(3)
        by (intro exI [of _ "inorder l @ a # xs"] exI [of _ el] exI [of _ ys]) auto
    qed (intro exI [of _ "inorder l"] exI [of _ a] exI [of _ "[]"], use False sorted(3) in auto)
  qed
qed simp

lemma takeWhile_dropWhile_split:
  "(\<forall>x \<in> set xs. P x) \<Longrightarrow> (\<forall>y \<in> set ys. \<not> P y) \<Longrightarrow> takeWhile P (xs @ ys) = xs \<and> dropWhile P (xs @ ys) = ys"
  by (cases ys) auto

lemma get_add_good:
  assumes "avl t" "distinct (inorder t)" "sorted_wrt (\<lambda>a b. cmp n a < 0 \<longrightarrow> cmp n b < 0) (inorder t)"
  shows "good (takeWhile (\<lambda>a. \<not> cmp n a < 0) (inorder t) @ n # dropWhile (\<lambda>a. \<not> cmp n a < 0) (inorder t))
    (psync_tree_get_add cmp t n)"
proof (cases "t = Null")
  case False
  then obtain xs el ys where *: "inorder t = xs @ el # ys" "\<forall>x \<in> set xs. \<not> cmp n x < 0" "\<forall>y \<in> set ys. cmp n y < 0"
     "add_position cmp n t = Some (el, if cmp n el < 0 then LeftSlot else RightSlot)"
    using add_position_split [where cmp = cmp and n = n and t = t, OF False assms(3)] by blast
  show ?thesis
  proof (cases "cmp n el < 0")
    case True
    then show ?thesis using * get_add_before_good [OF assms(1,2) *(1), of n]
      takeWhile_dropWhile_split [of xs "\<lambda>a. \<not> cmp n a < 0" "el # ys"] by (simp add: psync_tree_get_add_def)
  next
    case False
    then show ?thesis using * get_add_after_good [OF assms(1,2) *(1), of n]
      takeWhile_dropWhile_split [of "xs @ [el]" "\<lambda>a. \<not> cmp n a < 0" ys] by (simp add: psync_tree_get_add_def)
  qed
next
  case True
  then show ?thesis by (simp add: psync_tree_get_add_def psync_tree_get_add_after_def psync_tree_init_node_def good_def)
qed

subsection \<open>Removal\<close>

lemma avl_plug_Node:
  assumes "avl (plug (Node l a h r) fs)"
  shows "avl l" "avl r" "h = max (psync_tree_height l) (psync_tree_height r) + 1"
    "\<bar>psync_tree_height l - psync_tree_height r\<bar> \<le> 1" "avl_path fs h"
  using assms unfolding avl_plug avl.simps psync_tree_height.simps by blast+

lemma avl_path_same_shape:
  "avl_path (gs @ InLeft a h r # fs) k = avl_path (gs @ InLeft b h r # fs) k"
  "avl_path (gs @ InRight l a h # fs) k = avl_path (gs @ InRight l b h # fs) k"
  by (induction gs arbitrary: k rule: before.induct) auto

lemma get_del_good:
  assumes "avl t" "distinct (inorder t)" "inorder t = xs @ p # ys"
  shows "good (xs @ ys) (psync_tree_get_del t p)"
proof -
  obtain l h r fs where f: "focus p t [] = Some (Node l p h r, fs)" "plug (Node l p h r) fs = t"
    "before fs @ inorder l = xs" "inorder r @ after fs = ys"
    using assms(2,3) by (rule focus_split)
  have "avl (plug (Node l p h r) fs)" unfolding f(2) by (rule assms(1))
  note avl = avl_plug_Node [OF this]
  note nonneg = avl_height_nonneg [of l] avl_height_nonneg [of r]
  consider (none) "l = Null" "r = Null" | (right) "l = Null" "r \<noteq> Null" | (left) "r = Null" "l \<noteq> Null"
    | (down_left) "l \<noteq> Null" "r \<noteq> Null" "psync_tree_height l > psync_tree_height r"
    | (down_right) "l \<noteq> Null" "r \<noteq> Null" "\<not> psync_tree_height l > psync_tree_height r" by blast
  then show ?thesis
  proof cases
    case none
    then show ?thesis using f avl go_up_from_child_del_good [of fs h Null]
      by (auto simp: psync_tree_get_del_def psync_tree_replace_me_with_def)
  next
    case right
    then have "psync_tree_height r = h - 1" using avl nonneg by auto
    with right show ?thesis using f avl go_up_from_child_del_good [of fs h r]
      by (auto simp: psync_tree_get_del_def psync_tree_replace_me_with_def)
  next
    case left
    then have "psync_tree_height l = h - 1" using avl nonneg by auto
    with left show ?thesis using f avl go_up_from_child_del_good [of fs h l]
      by (auto simp: psync_tree_get_del_def psync_tree_replace_me_with_def)
  next
    case down_left
    then obtain l2 el h2 gs where rm: "rightmost l [] = (Node l2 el h2 Null, gs)"
      "plug (Node l2 el h2 Null) gs = l" "after gs = []" using rightmost_split [of l "[]"] by auto
    have "avl (plug (Node l2 el h2 Null) (gs @ InLeft p h r # fs))" using rm(2) f(2) assms(1) by simp
    note below = avl_plug_Node [OF this]
    have path: "avl_path (gs @ InLeft el h r # fs) h2" "psync_tree_height l2 = h2 - 1"
      using below(3,5) avl_height_nonneg [OF below(1)] avl_path_same_shape(1) [of gs p h r fs h2 el] by simp_all
    have "inorder l = before gs @ inorder l2 @ [el]" using rm inorder_plug [of "Node l2 el h2 Null" gs] by simp
    then show ?thesis using go_up_from_child_del_good [OF path(1) below(1)] path(2) down_left rm f
      by (auto simp: psync_tree_get_del_def)
  next
    case down_right
    then obtain el h2 r2 gs where lm: "leftmost r [] = (Node Null el h2 r2, gs)"
      "plug (Node Null el h2 r2) gs = r" "before gs = []" using leftmost_split [of r "[]"] by auto
    have "avl (plug (Node Null el h2 r2) (gs @ InRight l p h # fs))" using lm(2) f(2) assms(1) by simp
    note below = avl_plug_Node [OF this]
    have path: "avl_path (gs @ InRight l el h # fs) h2" "psync_tree_height r2 = h2 - 1"
      using below(3,5) avl_height_nonneg [OF below(2)] avl_path_same_shape(2) [of gs l p h fs h2 el] by simp_all
    have "inorder r = el # inorder r2 @ after gs" using lm inorder_plug [of "Node Null el h2 r2" gs] by simp
    then show ?thesis using go_up_from_child_del_good [OF path(1) below(2)] path(2) down_right lm f
      by (auto simp: psync_tree_get_del_def)
  qed
qed

subsection \<open>The height is logarithmic\<close>

lemma avl_size: "avl t \<Longrightarrow> 2 ^ (nat (psync_tree_height t) div 2) \<le> length (inorder t) + 1"
proof (induction t)
  case (Node l a h r)
  let ?k = "nat h div 2"
  have avl: "avl l" "avl r" using Node.prems by simp_all
  have nonneg: "0 \<le> psync_tree_height l" "0 \<le> psync_tree_height r" using Node.prems by (auto dest: avl_height_nonneg)
  show ?case
  proof (cases "h \<le> 1")
    case True
    then have "?k = 0" by simp
    then show ?thesis by simp
  next
    case False
    have "nat h - 2 \<le> nat (psync_tree_height l)" "nat h - 2 \<le> nat (psync_tree_height r)"
      using Node.prems nonneg by (auto simp: max_def split: if_splits)
    then have "(nat h - 2) div 2 \<le> nat (psync_tree_height l) div 2" "(nat h - 2) div 2 \<le> nat (psync_tree_height r) div 2"
      by (auto intro: div_le_mono)
    moreover have "(nat h - 2) div 2 = ?k - 1" by simp
    ultimately have "?k - 1 \<le> nat (psync_tree_height l) div 2" "?k - 1 \<le> nat (psync_tree_height r) div 2" by simp_all
    then have "(2::nat) ^ (?k - 1) \<le> 2 ^ (nat (psync_tree_height l) div 2)" "(2::nat) ^ (?k - 1) \<le> 2 ^ (nat (psync_tree_height r) div 2)"
      by (simp_all add: power_increasing)
    then have "(2::nat) ^ (?k - 1) \<le> length (inorder l) + 1" "(2::nat) ^ (?k - 1) \<le> length (inorder r) + 1"
      using order_trans Node.IH(1) [OF avl(1)] Node.IH(2) [OF avl(2)] by blast+
    moreover have "(2::nat) ^ ?k = 2 * 2 ^ (?k - 1)" using False by (subst power_eq_if) auto
    ultimately show ?thesis by simp
  qed
qed simp

fun levels :: "'a ptree \<Rightarrow> nat" where
  "levels Null = 0"
| "levels (Node l a h r) = max (levels l) (levels r) + 1"

lemma avl_levels: "avl t \<Longrightarrow> psync_tree_height t = int (levels t)"
  by (induction t) auto


subsection \<open>The interface the users of the tree rely on\<close>

text \<open>
  \<open>elems\<close> lists the nodes from first to last. The laws say what iteration sees and how the
  two insertions and the removal change the list; whatever a user of \<open>ptree.h\<close> does through
  these calls can be argued about on lists.
\<close>

locale ordered_tree =
  fixes elems :: "'t \<Rightarrow> 'a list" and balanced :: "'t \<Rightarrow> bool"
    and first_of :: "'t \<Rightarrow> 'a option" and last_of :: "'t \<Rightarrow> 'a option"
    and next_of :: "'t \<Rightarrow> 'a \<Rightarrow> 'a option" and prev_of :: "'t \<Rightarrow> 'a \<Rightarrow> 'a option"
    and add_after :: "'t \<Rightarrow> 'a option \<Rightarrow> 'a \<Rightarrow> 't option"
    and add_before :: "'t \<Rightarrow> 'a option \<Rightarrow> 'a \<Rightarrow> 't option"
    and del :: "'t \<Rightarrow> 'a \<Rightarrow> 't option"
  assumes first_law: "first_of t = (if elems t = [] then None else Some (hd (elems t)))"
    and last_law: "last_of t = (if elems t = [] then None else Some (last (elems t)))"
    and next_law: "distinct (elems t) \<Longrightarrow> elems t = xs @ p # ys \<Longrightarrow> next_of t p = (if ys = [] then None else Some (hd ys))"
    and prev_law: "distinct (elems t) \<Longrightarrow> elems t = xs @ p # ys \<Longrightarrow> prev_of t p = (if xs = [] then None else Some (last xs))"
    and next_outside: "p \<notin> set (elems t) \<Longrightarrow> next_of t p = None"
    and prev_outside: "p \<notin> set (elems t) \<Longrightarrow> prev_of t p = None"
    and add_after_law: "balanced t \<Longrightarrow> distinct (elems t) \<Longrightarrow> elems t = xs @ p # ys \<Longrightarrow>
      \<exists>t'. add_after t (Some p) n = Some t' \<and> balanced t' \<and> elems t' = xs @ p # n # ys"
    and add_before_law: "balanced t \<Longrightarrow> distinct (elems t) \<Longrightarrow> elems t = xs @ p # ys \<Longrightarrow>
      \<exists>t'. add_before t (Some p) n = Some t' \<and> balanced t' \<and> elems t' = xs @ n # p # ys"
    and add_first_law: "balanced t \<Longrightarrow> distinct (elems t) \<Longrightarrow>
      \<exists>t'. add_after t None n = Some t' \<and> balanced t' \<and> elems t' = n # elems t"
    and add_last_law: "balanced t \<Longrightarrow> distinct (elems t) \<Longrightarrow>
      \<exists>t'. add_before t None n = Some t' \<and> balanced t' \<and> elems t' = elems t @ [n]"
    and del_law: "balanced t \<Longrightarrow> distinct (elems t) \<Longrightarrow> elems t = xs @ p # ys \<Longrightarrow>
      \<exists>t'. del t p = Some t' \<and> balanced t' \<and> elems t' = xs @ ys"
begin

lemma next_nth:
  assumes "distinct (elems t)" "i < length (elems t)"
  shows "next_of t (elems t ! i) = (if Suc i < length (elems t) then Some (elems t ! Suc i) else None)"
  using next_law [OF assms(1) id_take_nth_drop [OF assms(2)]] assms(2)
  by (auto simp: hd_drop_conv_nth)

lemma prev_nth:
  assumes "distinct (elems t)" "i < length (elems t)"
  shows "prev_of t (elems t ! i) = (if i = 0 then None else Some (elems t ! (i - 1)))"
proof -
  have "last (take i (elems t)) = elems t ! (i - 1)" if "i \<noteq> 0"
    using that assms(2) by (subst last_conv_nth) auto
  then show ?thesis using prev_law [OF assms(1) id_take_nth_drop [OF assms(2)]] assms(2) by auto
qed

lemma next_iff_prev:
  assumes "distinct (elems t)"
  shows "next_of t p = Some q \<longleftrightarrow> prev_of t q = Some p"
proof
  assume next_eq: "next_of t p = Some q"
  then obtain i where i: "i < length (elems t)" "p = elems t ! i"
    using next_outside [of p t] by (auto simp: in_set_conv_nth)
  then have "Suc i < length (elems t)" "q = elems t ! Suc i"
    using next_eq next_nth [OF assms i(1)] by (auto split: if_splits)
  then show "prev_of t q = Some p" using prev_nth [OF assms, of "Suc i"] i by simp
next
  assume prev_eq: "prev_of t q = Some p"
  then obtain i where i: "i < length (elems t)" "q = elems t ! i"
    using prev_outside [of q t] by (auto simp: in_set_conv_nth)
  then have "i \<noteq> 0" "p = elems t ! (i - 1)"
    using prev_eq prev_nth [OF assms i(1)] by (auto split: if_splits)
  then show "next_of t p = Some q" using next_nth [OF assms, of "i - 1"] i by simp
qed

lemma del_member:
  assumes "balanced t" "distinct (elems t)" "p \<in> set (elems t)"
  obtains t' where "del t p = Some t'" "balanced t'" "elems t' = filter (\<lambda>q. q \<noteq> p) (elems t)"
proof -
  obtain xs ys where split: "elems t = xs @ p # ys" using assms(3) by (auto dest: split_list)
  then have "filter (\<lambda>q. q \<noteq> p) (elems t) = xs @ ys"
    using assms(2) by (auto intro!: arg_cong2 [of _ _ _ _ append] simp: filter_id_conv)
  then show thesis using del_law [OF assms(1,2) split] that by auto
qed

end

lemma goodE: "good xs res \<Longrightarrow> \<exists>t. res = Some t \<and> avl t \<and> inorder t = xs"
  by (simp add: good_def)

lemmas tree_laws = get_add_after_good [THEN goodE] get_add_before_good [THEN goodE]
  get_add_first_good [THEN goodE] get_add_last_good [THEN goodE] get_del_good [THEN goodE]

interpretation psync_tree: ordered_tree inorder avl psync_tree_get_first psync_tree_get_last
  psync_tree_get_next psync_tree_get_prev psync_tree_get_add_after psync_tree_get_add_before psync_tree_get_del
  by unfold_locales
    (rule get_first_inorder get_last_inorder get_next_inorder get_prev_inorder tree_laws
       | assumption | simp add: psync_tree_get_next_def psync_tree_get_prev_def focus_None)+

subsection \<open>Properties\<close>

text \<open>
  Iteration. On a tree with distinct nodes \<open>psync_tree_get_first\<close> and \<open>psync_tree_get_last\<close>
  return the ends of the in-order list, and from its i-th node \<open>psync_tree_get_next\<close> and
  \<open>psync_tree_get_prev\<close> return its neighbours in the list, null at the ends: the macro
  \<open>psync_tree_for_each\<close> visits every node once, in order.
\<close>

lemma tree_iteration:
  assumes "distinct (inorder t)" and "i < length (inorder t)"
  shows "psync_tree_get_first t = Some (inorder t ! 0) \<and>
    psync_tree_get_last t = Some (inorder t ! (length (inorder t) - 1)) \<and>
    psync_tree_get_next t (inorder t ! i) =
      (if Suc i < length (inorder t) then Some (inorder t ! Suc i) else None) \<and>
    psync_tree_get_prev t (inorder t ! i) = (if i = 0 then None else Some (inorder t ! (i - 1)))"
  using assms psync_tree.next_nth [OF assms] psync_tree.prev_nth [OF assms]
  by (auto simp: get_first_inorder get_last_inorder hd_conv_nth last_conv_nth simp del: inorder_Null_iff)

definition three :: "nat ptree" where
  "three = Node (Node Null 10 1 Null) 20 2 (Node Null 30 1 Null)"

lemma inorder_three: "inorder three = [10, 20, 30]" and avl_three: "avl three"
  by (simp_all add: three_def)

lemma tree_iteration_witness:
  "psync_tree_get_next three 10 = Some 20 \<and> psync_tree_get_prev three 10 = None"
  using tree_iteration [of three 0] by (simp add: inorder_three)

text \<open>
  C27. \<open>psync_tree_get_add\<close> on a balanced tree ordered by the comparison never trips an assert,
  keeps the tree balanced, and puts the new node after every node it does not compare below and
  before every other one, so equal elements stay in the order of insertion.
\<close>

theorem tree_add_ordered:
  assumes "avl t" and "distinct (inorder t)"
    and "sorted_wrt (\<lambda>a b. cmp n a < 0 \<longrightarrow> cmp n b < 0) (inorder t)"
  shows "\<exists>t'. psync_tree_get_add cmp t n = Some t' \<and> avl t' \<and>
    inorder t' = takeWhile (\<lambda>a. \<not> cmp n a < 0) (inorder t) @ n # dropWhile (\<lambda>a. \<not> cmp n a < 0) (inorder t)"
  using get_add_good [where cmp = cmp and n = n, OF assms(1,2) assms(3)] by (rule goodE)

lemma tree_add_ordered_witness:
  "\<exists>t'. psync_tree_get_add (\<lambda>x y. int x - int y) three 25 = Some t' \<and> avl t' \<and> inorder t' = [10, 20, 25, 30]"
  using tree_add_ordered [of three "\<lambda>x y. int x - int y" 25] by (simp add: inorder_three avl_three)

text \<open>
  \<open>psync_tree_get_add_after\<close> and \<open>psync_tree_get_add_before\<close> put the new node directly after
  (before) the given one and keep the tree balanced.
\<close>

lemma tree_add_neighbour:
  assumes "avl t" and "distinct (inorder t)" and "inorder t = xs @ p # ys"
  shows "(\<exists>t'. psync_tree_get_add_after t (Some p) n = Some t' \<and> avl t' \<and> inorder t' = xs @ p # n # ys) \<and>
    (\<exists>t'. psync_tree_get_add_before t (Some p) n = Some t' \<and> avl t' \<and> inorder t' = xs @ n # p # ys)"
  using psync_tree.add_after_law [OF assms] psync_tree.add_before_law [OF assms] by blast

lemma tree_add_neighbour_witness:
  "\<exists>t'. psync_tree_get_add_after three (Some 30) 40 = Some t' \<and> avl t' \<and> inorder t' = [10, 20, 30, 40]"
  using tree_add_neighbour [of three "[10, 20]" 30 "[]" 40] by (simp add: inorder_three avl_three)

text \<open>
  C12. \<open>psync_tree_get_del\<close> unlinks exactly the given node of a balanced tree: the others keep
  their order, the tree is balanced again, and no assert or null dereference is reached.
\<close>

theorem tree_del_exact:
  assumes "avl t" and "distinct (inorder t)" and "p \<in> set (inorder t)"
  shows "\<exists>t'. psync_tree_get_del t p = Some t' \<and> avl t' \<and> inorder t' = filter (\<lambda>q. q \<noteq> p) (inorder t)"
  using psync_tree.del_member [OF assms] by blast

lemma tree_del_exact_witness:
  "\<exists>t'. psync_tree_get_del three 20 = Some t' \<and> avl t' \<and> inorder t' = [10, 30]"
  using tree_del_exact [of three 20] by (simp add: inorder_three avl_three)

text \<open>
  \<open>psync_tree_get_first_safe\<close> and \<open>psync_tree_get_next_safe\<close> walk the tree in post-order:
  every node is met after both its subtrees, so freeing a node once its successor is known
  never touches freed memory.
\<close>

lemma tree_safe_iteration:
  assumes "distinct (postorder t)" and "postorder t = xs @ p # ys"
  shows "psync_tree_get_first_safe t = Some (hd (postorder t)) \<and>
    psync_tree_get_next_safe t p = (if ys = [] then None else Some (hd ys))"
  using assms get_next_safe_postorder [OF assms] get_first_safe_postorder [of t] by (cases "t = Null") auto

lemma tree_safe_iteration_witness:
  "psync_tree_get_first_safe three = Some 10 \<and> psync_tree_get_next_safe three 10 = Some 30 \<and>
   psync_tree_get_next_safe three 30 = Some 20"
  using tree_safe_iteration [of three "[]" 10 "[30, 20]"] tree_safe_iteration [of three "[10]" 30 "[20]"]
  by (simp add: three_def)

text \<open>Sequences of operations on one tree, and what they do to the list of its nodes.\<close>

datatype 'a tree_op = Add 'a | Add_after "'a option" 'a | Add_before "'a option" 'a | Del 'a

fun tree_step :: "('a \<Rightarrow> 'a \<Rightarrow> int) \<Rightarrow> 'a tree_op \<Rightarrow> 'a ptree \<Rightarrow> 'a ptree option" where
  "tree_step cmp (Add n) t = psync_tree_get_add cmp t n"
| "tree_step cmp (Add_after p n) t = psync_tree_get_add_after t p n"
| "tree_step cmp (Add_before p n) t = psync_tree_get_add_before t p n"
| "tree_step cmp (Del n) t = psync_tree_get_del t n"

fun tree_run :: "('a \<Rightarrow> 'a \<Rightarrow> int) \<Rightarrow> 'a tree_op list \<Rightarrow> 'a ptree \<Rightarrow> 'a ptree option" where
  "tree_run cmp [] t = Some t"
| "tree_run cmp (op # ops) t = Option.bind (tree_step cmp op t) (tree_run cmp ops)"

fun list_step :: "('a \<Rightarrow> 'a \<Rightarrow> int) \<Rightarrow> 'a tree_op \<Rightarrow> 'a list \<Rightarrow> 'a list" where
  "list_step cmp (Add n) xs = takeWhile (\<lambda>a. \<not> cmp n a < 0) xs @ n # dropWhile (\<lambda>a. \<not> cmp n a < 0) xs"
| "list_step cmp (Add_after None n) xs = n # xs"
| "list_step cmp (Add_after (Some p) n) xs = takeWhile (\<lambda>a. a \<noteq> p) xs @ p # n # tl (dropWhile (\<lambda>a. a \<noteq> p) xs)"
| "list_step cmp (Add_before None n) xs = xs @ [n]"
| "list_step cmp (Add_before (Some p) n) xs = takeWhile (\<lambda>a. a \<noteq> p) xs @ n # dropWhile (\<lambda>a. a \<noteq> p) xs"
| "list_step cmp (Del n) xs = filter (\<lambda>a. a \<noteq> n) xs"

text \<open>
  A node is added that is not in the tree yet, next to one that is; one that is in the tree is removed. \<open>psync_tree_get_add\<close> needs the nodes in the order of the comparison.
\<close>

fun op_ok :: "('a \<Rightarrow> 'a \<Rightarrow> int) \<Rightarrow> 'a tree_op \<Rightarrow> 'a list \<Rightarrow> bool" where
  "op_ok cmp (Add n) xs \<longleftrightarrow> n \<notin> set xs \<and> sorted_wrt (\<lambda>a b. cmp n a < 0 \<longrightarrow> cmp n b < 0) xs"
| "op_ok cmp (Add_after p n) xs \<longleftrightarrow> n \<notin> set xs \<and> (p = None \<or> the p \<in> set xs)"
| "op_ok cmp (Add_before p n) xs \<longleftrightarrow> n \<notin> set xs \<and> (p = None \<or> the p \<in> set xs)"
| "op_ok cmp (Del n) xs \<longleftrightarrow> n \<in> set xs"

fun ops_ok :: "('a \<Rightarrow> 'a \<Rightarrow> int) \<Rightarrow> 'a tree_op list \<Rightarrow> 'a list \<Rightarrow> bool" where
  "ops_ok cmp [] xs \<longleftrightarrow> True"
| "ops_ok cmp (op # ops) xs \<longleftrightarrow> op_ok cmp op xs \<and> ops_ok cmp ops (list_step cmp op xs)"

lemma member_split:
  assumes "p \<in> set xs"
  obtains ys where "xs = takeWhile (\<lambda>a. a \<noteq> p) xs @ p # ys" "dropWhile (\<lambda>a. a \<noteq> p) xs = p # ys"
proof -
  have ne: "dropWhile (\<lambda>a. a \<noteq> p) xs \<noteq> []" using assms by (auto simp: dropWhile_eq_Nil_conv)
  then have "hd (dropWhile (\<lambda>a. a \<noteq> p) xs) = p" using hd_dropWhile [of "\<lambda>a. a \<noteq> p" xs] by blast
  then have "dropWhile (\<lambda>a. a \<noteq> p) xs = p # tl (dropWhile (\<lambda>a. a \<noteq> p) xs)" using ne by (metis list.collapse)
  then show thesis using that takeWhile_dropWhile_id [of "\<lambda>a. a \<noteq> p" xs] by metis
qed

lemma tree_step_list:
  assumes "avl t" and "distinct (inorder t)" and "op_ok cmp op (inorder t)"
  shows "\<exists>t'. tree_step cmp op t = Some t' \<and> avl t' \<and> inorder t' = list_step cmp op (inorder t) \<and> distinct (inorder t')"
proof (cases op)
  case (Add n)
  let ?A = "takeWhile (\<lambda>a. \<not> cmp n a < 0) (inorder t)" and ?B = "dropWhile (\<lambda>a. \<not> cmp n a < 0) (inorder t)"
  have "distinct (?A @ ?B)" "n \<notin> set (?A @ ?B)" using assms(2,3) Add by (simp_all del: distinct_append set_append)
  then have "distinct (?A @ n # ?B)" unfolding distinct_append set_append by auto
  moreover have "\<exists>t'. psync_tree_get_add cmp t n = Some t' \<and> avl t' \<and> inorder t' = ?A @ n # ?B"
    using goodE [OF get_add_good [where cmp = cmp and n = n, OF assms(1,2)]] assms(3) Add by simp
  ultimately show ?thesis unfolding Add tree_step.simps list_step.simps by metis
next
  case (Add_after p n)
  show ?thesis
  proof (cases p)
    case None
    then show ?thesis using psync_tree.add_first_law [OF assms(1,2), of n] assms(2,3) Add_after by auto
  next
    case (Some q)
    then have "q \<in> set (inorder t)" using assms(3) Add_after by simp
    then obtain ys where ys: "inorder t = takeWhile (\<lambda>a. a \<noteq> q) (inorder t) @ q # ys" "dropWhile (\<lambda>a. a \<noteq> q) (inorder t) = q # ys"
      by (rule member_split)
    have "distinct (takeWhile (\<lambda>a. a \<noteq> q) (inorder t) @ q # ys)" "n \<notin> set (takeWhile (\<lambda>a. a \<noteq> q) (inorder t) @ q # ys)"
      using assms(2,3) Add_after unfolding ys(1) [symmetric] by simp_all
    then show ?thesis using psync_tree.add_after_law [OF assms(1,2) ys(1), of n] Some Add_after ys(2) by auto
  qed
next
  case (Add_before p n)
  show ?thesis
  proof (cases p)
    case None
    then show ?thesis using psync_tree.add_last_law [OF assms(1,2), of n] assms(2,3) Add_before by auto
  next
    case (Some q)
    then have "q \<in> set (inorder t)" using assms(3) Add_before by simp
    then obtain ys where ys: "inorder t = takeWhile (\<lambda>a. a \<noteq> q) (inorder t) @ q # ys" "dropWhile (\<lambda>a. a \<noteq> q) (inorder t) = q # ys"
      by (rule member_split)
    have "distinct (takeWhile (\<lambda>a. a \<noteq> q) (inorder t) @ q # ys)" "n \<notin> set (takeWhile (\<lambda>a. a \<noteq> q) (inorder t) @ q # ys)"
      using assms(2,3) Add_before unfolding ys(1) [symmetric] by simp_all
    then show ?thesis using psync_tree.add_before_law [OF assms(1,2) ys(1), of n] Some Add_before ys(2) by auto
  qed
next
  case (Del n)
  then have "n \<in> set (inorder t)" using assms(3) by simp
  then obtain t' where "psync_tree_get_del t n = Some t'" "avl t'" "inorder t' = filter (\<lambda>q. q \<noteq> n) (inorder t)"
    using psync_tree.del_member [OF assms(1,2)] by blast
  then show ?thesis using Del assms(2) by simp
qed

lemma tree_run_list:
  "avl t \<Longrightarrow> distinct (inorder t) \<Longrightarrow> ops_ok cmp ops (inorder t) \<Longrightarrow>
   \<exists>t'. tree_run cmp ops t = Some t' \<and> avl t' \<and> inorder t' = fold (list_step cmp) ops (inorder t)"
proof (induction ops arbitrary: t)
  case (Cons op ops)
  then obtain t1 where t1: "tree_step cmp op t = Some t1" "avl t1" "inorder t1 = list_step cmp op (inorder t)" "distinct (inorder t1)"
    using tree_step_list [of t cmp op] by auto
  then show ?case using Cons.IH [OF t1(2,4)] Cons.prems(3) by simp
qed simp

text \<open>
  C40. Any sequence of insertions (by comparison, after a node, before a node) and removals that starts with the empty tree
  succeeds without a failed assert or a null dereference, leaves the nodes in the order that the same operations give on a list,
  the stored height of the root equal to the number of levels, and the number of levels at most twice the logarithm of the number of
  nodes, so that every descent and every walk up stays logarithmic.
\<close>

theorem tree_stays_logarithmic:
  assumes "ops_ok cmp ops []"
  shows "\<exists>t. tree_run cmp ops Null = Some t \<and> inorder t = fold (list_step cmp) ops [] \<and>
    psync_tree_height t = int (levels t) \<and> 2 ^ (levels t div 2) \<le> length (fold (list_step cmp) ops []) + 1"
proof -
  obtain t where t: "tree_run cmp ops Null = Some t" "avl t" "inorder t = fold (list_step cmp) ops []"
    using tree_run_list [of Null cmp ops] assms by auto
  then show ?thesis using avl_levels [OF t(2)] avl_size [OF t(2)] by simp
qed

lemma tree_stays_logarithmic_witness:
  "\<exists>t. tree_run (\<lambda>x y. int x - int y) [Add 5, Add 1, Add 3, Add_after (Some 3) 9, Del 1, Add_before None 7] Null = Some t \<and>
     inorder t = [3, 9, 5, 7] \<and> psync_tree_height t = int (levels t) \<and> 2 ^ (levels t div 2) \<le> (5 :: nat)"
proof -
  let ?cmp = "\<lambda>x y. int x - int y" and ?ops = "[Add 5, Add 1, Add 3, Add_after (Some 3) 9, Del 1, Add_before None 7]"
  have ok: "ops_ok ?cmp ?ops []" and f: "fold (list_step ?cmp) ?ops [] = [3, 9, 5, 7]" by simp_all
  have len: "length [3, 9, 5, 7 :: nat] + 1 = 5" by simp
  show ?thesis using tree_stays_logarithmic [OF ok] unfolding f len .
qed

end
