(* ===== verification/Pintervaltree.thy ===== *)
theory Pintervaltree
  imports Ptree
begin

section \<open>Sets of byte intervals (pintervaltree.h, pintervaltree.c)\<close>

text \<open>
  An interval tree is a \<open>psync_tree\<close> whose nodes carry a half-open interval. The state holds the
  tree and the \<open>from\<close>/\<open>to\<close> fields of every node, indexed by its address; \<open>psync_new\<close> is
  modelled by the fresh address the operation is given. Loops carry fuel, one unit per node; that
  it is enough is part of the theorems, as is that no \<open>assert\<close> fails (\<open>None\<close>).
\<close>

subsection \<open>Operations\<close>

record interval =
  ifrom :: u64
  ito :: u64

record 'a itree =
  root :: "'a ptree"
  ivals :: "'a \<Rightarrow> interval"

definition set_ifrom :: "'a itree \<Rightarrow> 'a \<Rightarrow> u64 \<Rightarrow> 'a itree" where
  "set_ifrom s e v = s\<lparr>ivals := (ivals s)(e := (ivals s e)\<lparr>ifrom := v\<rparr>)\<rparr>"

definition set_ito :: "'a itree \<Rightarrow> 'a \<Rightarrow> u64 \<Rightarrow> 'a itree" where
  "set_ito s e v = s\<lparr>ivals := (ivals s)(e := (ivals s e)\<lparr>ito := v\<rparr>)\<rparr>"

definition psync_interval_new :: "'a itree \<Rightarrow> 'a \<Rightarrow> u64 \<Rightarrow> u64 \<Rightarrow> 'a itree" where
  "psync_interval_new s n fr t = s\<lparr>ivals := (ivals s)(n := \<lparr>ifrom = fr, ito = t\<rparr>)\<rparr>"

definition psync_interval_tree_del :: "'a itree \<Rightarrow> 'a \<Rightarrow> 'a itree option" where
  "psync_interval_tree_del s e = map_option (\<lambda>t. s\<lparr>root := t\<rparr>) (psync_tree_get_del (root s) e)"

fun containing_or_after :: "'a itree \<Rightarrow> 'a ptree \<Rightarrow> u64 \<Rightarrow> 'a option" where
  "containing_or_after s Null point = None"
| "containing_or_after s (Node l e h r) point =
     (if ito (ivals s e) \<le> point then
        (if r \<noteq> Null then containing_or_after s r point else psync_tree_get_next (root s) e)
      else if ifrom (ivals s e) \<le> point \<or> l = Null then Some e
      else containing_or_after s l point)"

definition psync_interval_tree_first_interval_containing_or_after :: "'a itree \<Rightarrow> u64 \<Rightarrow> 'a option" where
  "psync_interval_tree_first_interval_containing_or_after s point = containing_or_after s (root s) point"

fun consume_intervals :: "nat \<Rightarrow> 'a itree \<Rightarrow> 'a \<Rightarrow> 'a itree option" where
  "consume_intervals n s e =
     (case psync_tree_get_next (root s) e of
        None \<Rightarrow> Some s
      | Some next \<Rightarrow>
          (if ito (ivals s e) < ifrom (ivals s next) then Some s
           else case n of
                  0 \<Rightarrow> None
                | Suc m \<Rightarrow>
                    Option.bind (psync_interval_tree_del s next) (\<lambda>s'.
                      if ito (ivals s e) \<le> ito (ivals s next) then Some (set_ito s' e (ito (ivals s next)))
                      else consume_intervals m s' e)))"

declare consume_intervals.simps [simp del]

definition psync_interval_tree_consume_intervals :: "'a itree \<Rightarrow> 'a \<Rightarrow> 'a itree option" where
  "psync_interval_tree_consume_intervals s e = consume_intervals (length (inorder (root s))) s e"

fun add_descend :: "'a itree \<Rightarrow> 'a ptree \<Rightarrow> u64 \<Rightarrow> u64 \<Rightarrow> 'a \<Rightarrow> 'a itree option" where
  "add_descend s Null fr t new = None"
| "add_descend s (Node l e h r) fr t new =
     (if ifrom (ivals s e) \<le> fr \<and> fr \<le> ito (ivals s e) then
        (if t \<le> ito (ivals s e) then Some s
         else psync_interval_tree_consume_intervals (set_ito s e t) e)
      else if fr < ifrom (ivals s e) then
        (if l \<noteq> Null then add_descend s l fr t new
         else if ifrom (ivals s e) \<le> t \<and> t \<le> ito (ivals s e) then Some (set_ifrom s e fr)
         else Option.bind (psync_tree_get_add_before (root s) (Some e) new) (\<lambda>tr.
                psync_interval_tree_consume_intervals (psync_interval_new (s\<lparr>root := tr\<rparr>) new fr t) new))
      else if ito (ivals s e) < fr then
        (if r \<noteq> Null then add_descend s r fr t new
         else Option.bind (psync_tree_get_add_after (root s) (Some e) new) (\<lambda>tr.
                psync_interval_tree_consume_intervals (psync_interval_new (s\<lparr>root := tr\<rparr>) new fr t) new))
      else None)"

definition psync_interval_tree_add :: "'a itree \<Rightarrow> u64 \<Rightarrow> u64 \<Rightarrow> 'a \<Rightarrow> 'a itree option" where
  "psync_interval_tree_add s fr t new =
     (if \<not> fr < t then None
      else if root s = Null then
        map_option (\<lambda>tr. psync_interval_new (s\<lparr>root := tr\<rparr>) new fr t) (psync_tree_get_add_after Null None new)
      else add_descend s (root s) fr t new)"

fun remove_from :: "nat \<Rightarrow> 'a itree \<Rightarrow> 'a option \<Rightarrow> u64 \<Rightarrow> u64 \<Rightarrow> 'a \<Rightarrow> 'a itree option" where
  "remove_from n s None fr t new = Some s"
| "remove_from 0 s (Some tr) fr t new = None"
| "remove_from (Suc n) s (Some tr) fr t new =
     (let x = ivals s tr in
      if ifrom x < fr \<and> t < ito x then
        map_option (\<lambda>tree. set_ito (psync_interval_new (s\<lparr>root := tree\<rparr>) new t (ito x)) tr fr)
          (psync_tree_get_add_after (root s) (Some tr) new)
      else
        (let ntr = psync_tree_get_next (root s) tr in
         if fr \<le> ifrom x \<and> ifrom x < t then
           (if ito x \<le> t
            then Option.bind (psync_interval_tree_del (set_ifrom s tr t) tr) (\<lambda>s'. remove_from n s' ntr fr t new)
            else remove_from n (set_ifrom s tr t) ntr fr t new)
         else if ifrom x < fr then remove_from n (set_ito s tr fr) ntr fr t new
         else Some s))"

definition psync_interval_tree_remove :: "'a itree \<Rightarrow> u64 \<Rightarrow> u64 \<Rightarrow> 'a \<Rightarrow> 'a itree option" where
  "psync_interval_tree_remove s fr t new =
     remove_from (length (inorder (root s))) s
       (psync_interval_tree_first_interval_containing_or_after s fr) fr t new"

fun cut_end_from :: "nat \<Rightarrow> 'a itree \<Rightarrow> 'a option \<Rightarrow> u64 \<Rightarrow> 'a itree option" where
  "cut_end_from n s None bound = Some s"
| "cut_end_from n s (Some el) bound =
     (if ito (ivals s el) \<le> bound then Some s
      else if ifrom (ivals s el) < bound then Some (set_ito s el bound)
      else case n of
             0 \<Rightarrow> None
           | Suc m \<Rightarrow>
               (let prev = psync_tree_get_prev (root s) el in
                Option.bind (psync_interval_tree_del s el) (\<lambda>s'. cut_end_from m s' prev bound)))"

definition psync_interval_tree_cut_end :: "'a itree \<Rightarrow> u64 \<Rightarrow> 'a itree option" where
  "psync_interval_tree_cut_end s bound =
     cut_end_from (length (inorder (root s))) s (psync_tree_get_last (root s)) bound"

text \<open>\<open>psync_tree_for_each_element_call_safe\<close> with \<open>psync_free\<close>: the addresses freed, in order.\<close>

fun free_from :: "nat \<Rightarrow> 'a ptree \<Rightarrow> 'a option \<Rightarrow> 'a list option" where
  "free_from n t None = Some []"
| "free_from 0 t (Some a) = None"
| "free_from (Suc n) t (Some a) = map_option ((#) a) (free_from n t (psync_tree_get_next_safe t a))"

definition psync_interval_tree_free :: "'a ptree \<Rightarrow> 'a list option" where
  "psync_interval_tree_free t = free_from (length (inorder t)) t (psync_tree_get_first_safe t)"

subsection \<open>The invariant and the set a tree stands for\<close>

definition ivlist :: "'a itree \<Rightarrow> interval list" where
  "ivlist s = map (ivals s) (inorder (root s))"

definition span :: "interval list \<Rightarrow> u64 set" where
  "span xs = (\<Union>x \<in> set xs. {ifrom x ..< ito x})"

text \<open>Non-empty intervals with a gap between neighbours.\<close>

fun separated :: "interval list \<Rightarrow> bool" where
  "separated [] = True"
| "separated (x # xs) = (ifrom x < ito x \<and> (\<forall>y \<in> set xs. ito x < ifrom y) \<and> separated xs)"

definition wf_itree :: "'a itree \<Rightarrow> bool" where
  "wf_itree s \<longleftrightarrow> avl (root s) \<and> distinct (inorder (root s)) \<and> separated (ivlist s)"

definition covers :: "'a itree \<Rightarrow> u64 set" where
  "covers s = span (ivlist s)"

lemma separated_append:
  "separated (xs @ ys) \<longleftrightarrow> separated xs \<and> separated ys \<and> (\<forall>x \<in> set xs. \<forall>y \<in> set ys. ito x < ifrom y)"
  by (induction xs) auto

lemma separated_nonempty: "separated xs \<Longrightarrow> x \<in> set xs \<Longrightarrow> ifrom x < ito x"
  by (induction xs) auto

lemma span_simps [simp]:
  "span [] = {}" "span (x # xs) = {ifrom x ..< ito x} \<union> span xs" "span (xs @ ys) = span xs \<union> span ys"
  by (auto simp: span_def)

lemma set_ifrom_simps [simp]:
  "root (set_ifrom s e v) = root s" "ivals (set_ifrom s e v) = (ivals s)(e := (ivals s e)\<lparr>ifrom := v\<rparr>)"
  by (simp_all add: set_ifrom_def)

lemma set_ito_simps [simp]:
  "root (set_ito s e v) = root s" "ivals (set_ito s e v) = (ivals s)(e := (ivals s e)\<lparr>ito := v\<rparr>)"
  by (simp_all add: set_ito_def)

lemma interval_new_simps [simp]:
  "root (psync_interval_new s n fr t) = root s"
  "ivals (psync_interval_new s n fr t) = (ivals s)(n := \<lparr>ifrom = fr, ito = t\<rparr>)"
  by (simp_all add: psync_interval_new_def)

lemma map_upd_other [simp]: "e \<notin> set xs \<Longrightarrow> map (f(e := v)) xs = map f xs"
  by (induction xs) auto

text \<open>A state whose nodes are known: the form in which the loop lemmas describe it.\<close>

definition holds :: "'a itree \<Rightarrow> 'a list \<Rightarrow> bool" where
  "holds s as \<longleftrightarrow> avl (root s) \<and> distinct as \<and> inorder (root s) = as"

lemma wf_holds: "wf_itree s \<longleftrightarrow> (\<exists>as. holds s as \<and> separated (map (ivals s) as))"
  by (auto simp: wf_itree_def holds_def ivlist_def)

lemma covers_holds: "holds s as \<Longrightarrow> covers s = span (map (ivals s) as)"
  by (simp add: covers_def ivlist_def holds_def)

lemma holds_root [simp]:
  "holds (set_ifrom s e v) as = holds s as" "holds (set_ito s e v) as = holds s as"
  "holds (psync_interval_new s n fr t) as = holds s as"
  by (simp_all add: holds_def)

lemma holds_next: "holds s (xs @ p # ys) \<Longrightarrow> psync_tree_get_next (root s) p = (if ys = [] then None else Some (hd ys))"
  using psync_tree.next_law [of "root s" xs p ys] by (simp add: holds_def)

lemma holds_prev: "holds s (xs @ p # ys) \<Longrightarrow> psync_tree_get_prev (root s) p = (if xs = [] then None else Some (last xs))"
  using psync_tree.prev_law [of "root s" xs p ys] by (simp add: holds_def)

lemma holds_del:
  assumes "holds s (xs @ p # ys)"
  obtains s' where "psync_interval_tree_del s p = Some s'" "holds s' (xs @ ys)" "ivals s' = ivals s"
  using assms psync_tree.del_law [of "root s" xs p ys]
  by (auto simp: holds_def psync_interval_tree_del_def)

lemma holds_add_after:
  assumes "holds s (xs @ p # ys)" "n \<notin> set (xs @ p # ys)"
  obtains t where "psync_tree_get_add_after (root s) (Some p) n = Some t" "holds (s\<lparr>root := t\<rparr>) (xs @ p # n # ys)"
  using assms psync_tree.add_after_law [of "root s" xs p ys n] by (auto simp: holds_def)

lemma holds_add_before:
  assumes "holds s (xs @ p # ys)" "n \<notin> set (xs @ p # ys)"
  obtains t where "psync_tree_get_add_before (root s) (Some p) n = Some t" "holds (s\<lparr>root := t\<rparr>) (xs @ n # p # ys)"
  using assms psync_tree.add_before_law [of "root s" xs p ys n] by (auto simp: holds_def)

subsection \<open>The loops\<close>

lemma consume_correct:
  assumes "holds s (xs @ e # ys)" and "separated (map (ivals s) xs)" and "separated (map (ivals s) ys)"
    and "ifrom (ivals s e) < ito (ivals s e)" and "\<forall>x \<in> set xs. ito (ivals s x) < ifrom (ivals s e)"
    and "\<forall>y \<in> set ys. ifrom (ivals s e) \<le> ifrom (ivals s y)" and "length ys \<le> n"
  shows "\<exists>s'. consume_intervals n s e = Some s' \<and> wf_itree s' \<and> covers s' = span (map (ivals s) (xs @ e # ys))"
  using assms
proof (induction ys arbitrary: n s)
  case Nil
  then show ?case
    using holds_next [OF Nil.prems(1)] covers_holds [OF Nil.prems(1)]
    by (subst consume_intervals.simps) (auto simp: wf_holds separated_append)
next
  case (Cons y ys)
  have next_eq: "psync_tree_get_next (root s) e = Some y" using holds_next [OF Cons.prems(1)] by simp
  show ?case
  proof (cases "ito (ivals s e) < ifrom (ivals s y)")
    case True
    then have "separated (map (ivals s) (xs @ e # y # ys))"
      using Cons.prems by (fastforce simp: separated_append)
    then show ?thesis
      using True next_eq covers_holds [OF Cons.prems(1)] Cons.prems(1)
      by (subst consume_intervals.simps) (auto simp: wf_holds)
  next
    case False
    obtain m where n: "n = Suc m" "length ys \<le> m" using Cons.prems(7) by (cases n) auto
    obtain s' where del: "psync_interval_tree_del s y = Some s'" "holds s' ((xs @ [e]) @ ys)" "ivals s' = ivals s"
      using holds_del [of s "xs @ [e]" y ys] Cons.prems(1) by auto
    have y: "ifrom (ivals s y) < ito (ivals s y)" using Cons.prems(3) by simp
    show ?thesis
    proof (cases "ito (ivals s e) \<le> ito (ivals s y)")
      case True
      let ?r = "set_ito s' e (ito (ivals s y))"
      have d: "e \<notin> set xs" "e \<notin> set ys" using Cons.prems(1) by (auto simp: holds_def)
      have h: "holds ?r (xs @ e # ys)" using del by simp
      have ivs: "map (ivals ?r) (xs @ e # ys) = map (ivals s) xs @ (ivals s e)\<lparr>ito := ito (ivals s y)\<rparr> # map (ivals s) ys"
        using d del(3) by simp
      have "separated (map (ivals ?r) (xs @ e # ys))"
        unfolding ivs separated_append using Cons.prems False True y by (fastforce dest: less_le_trans)
      moreover have "covers ?r = span (map (ivals s) (xs @ e # y # ys))"
        unfolding covers_holds [OF h] ivs using False True Cons.prems(6) y by fastforce
      moreover have "consume_intervals n s e = Some ?r"
        using next_eq False True n del by (subst consume_intervals.simps) simp
      ultimately show ?thesis using h by (auto simp: wf_holds)
    next
      case ge: False
      have "\<exists>r. consume_intervals m s' e = Some r \<and> wf_itree r \<and> covers r = span (map (ivals s') (xs @ e # ys))"
        using Cons.IH [of s' m] Cons.prems del n by simp
      moreover have "consume_intervals n s e = consume_intervals m s' e"
        using next_eq False ge n del by (subst consume_intervals.simps) simp
      moreover have "span (map (ivals s') (xs @ e # ys)) = span (map (ivals s) (xs @ e # y # ys))"
        using ge Cons.prems(6) del(3) by fastforce
      ultimately show ?thesis by simp
    qed
  qed
qed

lemma tree_consume_correct:
  assumes "holds s (xs @ e # ys)" and "separated (map (ivals s) xs)" and "separated (map (ivals s) ys)"
    and "ifrom (ivals s e) < ito (ivals s e)" and "\<forall>x \<in> set xs. ito (ivals s x) < ifrom (ivals s e)"
    and "\<forall>y \<in> set ys. ifrom (ivals s e) \<le> ifrom (ivals s y)"
  shows "\<exists>s'. psync_interval_tree_consume_intervals s e = Some s' \<and> wf_itree s' \<and>
    covers s' = span (map (ivals s) xs) \<union> {ifrom (ivals s e) ..< ito (ivals s e)} \<union> span (map (ivals s) ys)"
  unfolding psync_interval_tree_consume_intervals_def
  using consume_correct [OF assms, of "length (inorder (root s))"] assms(1)
  by (auto simp: holds_def Un_assoc)

text \<open>
  One step of the descent, at the node \<open>e\<close> between \<open>xs\<close> and \<open>ys\<close>: what \<open>add_descend\<close>
  does when it stops there.
\<close>

definition added :: "'a itree \<Rightarrow> u64 \<Rightarrow> u64 \<Rightarrow> 'a itree option \<Rightarrow> bool" where
  "added s fr t res \<longleftrightarrow> (\<exists>s'. res = Some s' \<and> wf_itree s' \<and> covers s' = covers s \<union> {fr ..< t})"

lemma add_extend:
  assumes s: "holds s (xs @ e # ys)" "separated (map (ivals s) (xs @ e # ys))"
    and "ifrom (ivals s e) \<le> fr" "fr \<le> ito (ivals s e)" "ito (ivals s e) < t"
  shows "added s fr t (psync_interval_tree_consume_intervals (set_ito s e t) e)"
proof -
  let ?s = "set_ito s e t"
  have d: "e \<notin> set xs" "e \<notin> set ys" using s(1) by (auto simp: holds_def)
  have same: "ivals ?s x = ivals s x" if "x \<in> set xs \<union> set ys" for x using d that by auto
  have sep: "separated (map (ivals s) xs)" "separated (map (ivals s) ys)" "ifrom (ivals s e) < ito (ivals s e)"
    "\<forall>x \<in> set xs. ito (ivals s x) < ifrom (ivals s e)" "\<forall>y \<in> set ys. ito (ivals s e) < ifrom (ivals s y)"
    using s(2) by (simp_all add: separated_append)
  have "ifrom (ivals s e) < t" "\<forall>y \<in> set ys. ifrom (ivals s e) \<le> ifrom (ivals s y)"
    using sep(3,5) assms(5) less_trans less_imp_le by blast+
  then have "\<exists>s'. psync_interval_tree_consume_intervals ?s e = Some s' \<and> wf_itree s' \<and>
    covers s' = span (map (ivals ?s) xs) \<union> {ifrom (ivals ?s e) ..< ito (ivals ?s e)} \<union> span (map (ivals ?s) ys)"
    using s(1) sep(1,2,4) d same by (intro tree_consume_correct) auto
  moreover have "{ifrom (ivals s e) ..< t} = {ifrom (ivals s e) ..< ito (ivals s e)} \<union> {fr ..< t}"
    using assms(3-5) by auto
  ultimately show ?thesis unfolding added_def covers_holds [OF s(1)] using d by auto
qed

lemma add_new:
  assumes h: "holds (s\<lparr>root := tr\<rparr>) (xs @ new # ys)" and s: "holds s (xs @ ys)" "separated (map (ivals s) (xs @ ys))"
    and "fr < t" "\<forall>x \<in> set xs. ito (ivals s x) < fr" "\<forall>y \<in> set ys. fr \<le> ifrom (ivals s y)"
  shows "added s fr t (psync_interval_tree_consume_intervals (psync_interval_new (s\<lparr>root := tr\<rparr>) new fr t) new)"
proof -
  let ?s = "psync_interval_new (s\<lparr>root := tr\<rparr>) new fr t"
  have d: "new \<notin> set xs" "new \<notin> set ys" using h by (auto simp: holds_def)
  have "ivals ?s x = ivals s x" if "x \<in> set xs \<union> set ys" for x using d that by auto
  then have "\<exists>s'. psync_interval_tree_consume_intervals ?s new = Some s' \<and> wf_itree s' \<and>
    covers s' = span (map (ivals ?s) xs) \<union> {ifrom (ivals ?s new) ..< ito (ivals ?s new)} \<union> span (map (ivals ?s) ys)"
    using h s(2) assms(4-6) d by (intro tree_consume_correct) (auto simp: separated_append)
  then show ?thesis unfolding added_def covers_holds [OF s(1)] using d by auto
qed

text \<open>The descent knows that everything left of the subtree ends before \<open>fr\<close> and everything
  right of it starts after \<open>fr\<close>.\<close>

lemma add_descend_correct:
  assumes "separated (map (ivals s) (xs @ inorder u @ ys))" and "holds s (xs @ inorder u @ ys)"
    and "u \<noteq> Null" and "fr < t" and "new \<notin> set (xs @ inorder u @ ys)"
    and "\<forall>x \<in> set xs. ito (ivals s x) < fr" and "\<forall>y \<in> set ys. fr < ifrom (ivals s y)"
  shows "added s fr t (add_descend s u fr t new)"
  using assms
proof (induction u arbitrary: xs ys)
  case (Node l e h r)
  let ?x = "ivals s e"
  have sep: "separated (map (ivals s) ((xs @ inorder l) @ e # (inorder r @ ys)))"
    and holds: "holds s ((xs @ inorder l) @ e # (inorder r @ ys))" using Node.prems by simp_all
  have nonempty: "ifrom ?x < ito ?x"
    and left: "\<forall>x \<in> set (inorder l). ito (ivals s x) < ifrom ?x"
    and right: "\<forall>y \<in> set (inorder r). ito ?x < ifrom (ivals s y)"
    using sep by (simp_all add: separated_append)
  have above: "\<forall>y \<in> set (e # inorder r @ ys). fr < ifrom (ivals s y)" if "fr < ifrom ?x"
    using that Node.prems(7) right nonempty by (auto dest: less_trans)
  have below: "\<forall>x \<in> set (xs @ inorder l @ [e]). ito (ivals s x) < fr" if "ito ?x < fr"
    using that Node.prems(6) left nonempty by (auto dest: less_trans)
  consider (inside) "ifrom ?x \<le> fr" "fr \<le> ito ?x" "t \<le> ito ?x"
    | (extend) "ifrom ?x \<le> fr" "fr \<le> ito ?x" "ito ?x < t"
    | (goleft) "fr < ifrom ?x" "l \<noteq> Null"
    | (grow) "fr < ifrom ?x" "l = Null" "ifrom ?x \<le> t" "t \<le> ito ?x"
    | (before) "fr < ifrom ?x" "l = Null" "\<not> (ifrom ?x \<le> t \<and> t \<le> ito ?x)"
    | (goright) "ito ?x < fr" "r \<noteq> Null" | (after) "ito ?x < fr" "r = Null"
    by (meson linorder_not_le)
  then show ?case
  proof cases
    case inside
    then have "{fr ..< t} \<subseteq> {ifrom ?x ..< ito ?x}" by auto
    then have "covers s = covers s \<union> {fr ..< t}" unfolding covers_holds [OF holds] by auto
    moreover have "wf_itree s" unfolding wf_holds using sep holds by blast
    ultimately show ?thesis using inside by (auto simp: added_def)
  next
    case extend
    then show ?thesis using add_extend [OF holds sep] by (auto simp: not_le)
  next
    case goleft
    have "added s fr t (add_descend s l fr t new)"
      using above [OF goleft(1)] Node.IH(1) [of xs "e # inorder r @ ys"] Node.prems goleft(2) by simp
    then show ?thesis using goleft by auto
  next
    case goright
    have "added s fr t (add_descend s r fr t new)"
      using below [OF goright(1)] Node.IH(2) [of "xs @ inorder l @ [e]" ys] Node.prems goright(2) by simp
    then show ?thesis using goright nonempty by auto
  next
    case grow
    let ?r = "set_ifrom s e fr"
    have d: "e \<notin> set xs" "e \<notin> set (inorder r)" "e \<notin> set ys" using holds by (auto simp: holds_def)
    have h: "holds ?r (xs @ e # (inorder r @ ys))" using holds grow by simp
    have "separated (map (ivals ?r) (xs @ e # (inorder r @ ys)))"
      using sep d grow Node.prems(4,6) nonempty by (auto simp: separated_append)
    then have "wf_itree ?r" unfolding wf_holds using h by blast
    moreover have "{fr ..< ito ?x} = {ifrom ?x ..< ito ?x} \<union> {fr ..< t}" using grow by auto
    then have "covers ?r = covers s \<union> {fr ..< t}"
      unfolding covers_holds [OF h] covers_holds [OF holds] using d grow by auto
    ultimately show ?thesis using grow by (auto simp: added_def)
  next
    case before
    then have hs: "holds s (xs @ e # (inorder r @ ys))" using holds by simp
    obtain tr where tr: "psync_tree_get_add_before (root s) (Some e) new = Some tr"
      "holds (s\<lparr>root := tr\<rparr>) (xs @ new # e # (inorder r @ ys))"
      using holds_add_before [OF hs] Node.prems(5) before by auto
    have "added s fr t (psync_interval_tree_consume_intervals (psync_interval_new (s\<lparr>root := tr\<rparr>) new fr t) new)"
      using tr(2) hs sep before(2) above [OF before(1)] Node.prems(4,6)
      by (intro add_new [where ys = "e # inorder r @ ys"]) (auto dest: less_imp_le)
    then show ?thesis using before tr(1) by (auto simp: not_le)
  next
    case after
    then have hs: "holds s ((xs @ inorder l) @ e # ys)" using holds by simp
    obtain tr where tr: "psync_tree_get_add_after (root s) (Some e) new = Some tr"
      "holds (s\<lparr>root := tr\<rparr>) ((xs @ inorder l) @ e # new # ys)"
      using holds_add_after [OF hs] Node.prems(5) after by auto
    have "added s fr t (psync_interval_tree_consume_intervals (psync_interval_new (s\<lparr>root := tr\<rparr>) new fr t) new)"
      using tr(2) hs sep after(2) below [OF after(1)] Node.prems(4,7)
      by (intro add_new [where xs = "xs @ inorder l @ [e]"]) (auto dest: less_imp_le)
    then show ?thesis using after tr(1) nonempty by auto
  qed
qed simp

lemma interval_tree_add_correct:
  assumes "wf_itree s" and "fr < t" and "new \<notin> set (inorder (root s))"
  shows "added s fr t (psync_interval_tree_add s fr t new)"
proof (cases "root s = Null")
  case True
  then have "added s fr t (Some (psync_interval_new (s\<lparr>root := psync_tree_init_node new\<rparr>) new fr t))"
    using assms(2) by (simp add: added_def wf_itree_def ivlist_def covers_def psync_tree_init_node_def)
  then show ?thesis using True assms(2) by (simp add: psync_interval_tree_add_def psync_tree_get_add_after_def)
next
  case False
  then show ?thesis using assms add_descend_correct [of s "[]" "root s" "[]" fr t new]
    by (auto simp: psync_interval_tree_add_def wf_itree_def holds_def ivlist_def)
qed


lemma containing_or_after_split:
  assumes "holds s (xs @ inorder u @ ys)" and "separated (map (ivals s) (xs @ inorder u @ ys))" and "u \<noteq> Null"
    and "\<forall>x \<in> set xs. ito (ivals s x) \<le> point" and "\<forall>y \<in> set ys. point < ito (ivals s y)"
  shows "\<exists>as bs. xs @ inorder u @ ys = as @ bs \<and> (\<forall>a \<in> set as. ito (ivals s a) \<le> point) \<and>
    (\<forall>b \<in> set bs. point < ito (ivals s b)) \<and> containing_or_after s u point = (if bs = [] then None else Some (hd bs))"
  using assms
proof (induction u arbitrary: xs ys)
  case (Node l e h r)
  let ?x = "ivals s e"
  have sep: "separated (map (ivals s) ((xs @ inorder l) @ e # (inorder r @ ys)))"
    and holds: "holds s ((xs @ inorder l) @ e # (inorder r @ ys))" using Node.prems by simp_all
  have nonempty: "ifrom ?x < ito ?x"
    and left: "\<forall>x \<in> set (inorder l). ito (ivals s x) < ifrom ?x"
    and right: "\<forall>y \<in> set (inorder r). ito ?x < ifrom (ivals s y)"
    and rights: "\<forall>y \<in> set (inorder r). ifrom (ivals s y) < ito (ivals s y)"
    using sep separated_nonempty [OF sep] by (simp_all add: separated_append)
  have below: "\<forall>x \<in> set (xs @ inorder l). ito (ivals s x) \<le> point" if "ifrom ?x \<le> point"
    using that Node.prems(4) left by (auto dest: less_le_trans less_imp_le)
  have above: "\<forall>y \<in> set (e # inorder r @ ys). point < ito (ivals s y)" if "point < ito ?x"
    using that Node.prems(5) right rights by (auto intro: less_trans [OF less_trans])
  consider (right) "ito ?x \<le> point" "r \<noteq> Null" | (stop) "ito ?x \<le> point" "r = Null"
    | (here) "point < ito ?x" "ifrom ?x \<le> point \<or> l = Null"
    | (left) "point < ito ?x" "\<not> ifrom ?x \<le> point" "l \<noteq> Null" by force
  then show ?case
  proof cases
    case right
    then have "\<forall>x \<in> set (xs @ inorder l @ [e]). ito (ivals s x) \<le> point" using below nonempty by auto
    then show ?thesis using Node.IH(2) [of "xs @ inorder l @ [e]" ys] Node.prems right by auto
  next
    case stop
    have "\<forall>x \<in> set ((xs @ inorder l) @ [e]). ito (ivals s x) \<le> point" using stop(1) below nonempty by auto
    then show ?thesis using holds_next [OF holds] stop Node.prems(5)
      by (intro exI [of _ "(xs @ inorder l) @ [e]"] exI [of _ ys]) simp
  next
    case here
    then have "\<forall>x \<in> set (xs @ inorder l). ito (ivals s x) \<le> point" using below Node.prems(4) by auto
    then show ?thesis using above [OF here(1)] here
      by (intro exI [of _ "xs @ inorder l"] exI [of _ "e # inorder r @ ys"]) (auto simp: not_le)
  next
    case left
    have "containing_or_after s (Node l e h r) point = containing_or_after s l point" using left by auto
    then show ?thesis using above [OF left(1)] Node.IH(1) [of xs "e # inorder r @ ys"] Node.prems left(3) by simp
  qed
qed simp

lemma first_interval_split:
  assumes "wf_itree s"
  obtains as bs where "inorder (root s) = as @ bs" "\<forall>a \<in> set as. ito (ivals s a) \<le> point"
    "\<forall>b \<in> set bs. point < ito (ivals s b)"
    "psync_interval_tree_first_interval_containing_or_after s point = (if bs = [] then None else Some (hd bs))"
proof (cases "root s = Null")
  case True
  then show thesis using that [of "[]" "[]"]
    by (simp add: psync_interval_tree_first_interval_containing_or_after_def)
next
  case False
  then show thesis using containing_or_after_split [of s "[]" "root s" "[]" point] assms that
    by (auto simp: wf_itree_def holds_def ivlist_def psync_interval_tree_first_interval_containing_or_after_def)
qed

definition removed :: "'a itree \<Rightarrow> u64 set \<Rightarrow> 'a itree option \<Rightarrow> bool" where
  "removed s gone res \<longleftrightarrow> (\<exists>s'. res = Some s' \<and> wf_itree s' \<and> covers s' = covers s - gone)"

lemma removed_same: "removed s' gone res \<Longrightarrow> covers s' - gone = covers s - gone \<Longrightarrow> removed s gone res"
  by (auto simp: removed_def)

lemma Diff_part: "Y' - G = Y - G \<Longrightarrow> (X \<union> Y' \<union> Z) - G = (X \<union> Y \<union> Z) - G"
  by blast

lemma remove_split:
  assumes s: "holds s (xs @ e # ys)" "separated (map (ivals s) (xs @ e # ys))"
    and cut: "ifrom (ivals s e) < fr" "fr < t" "t < ito (ivals s e)" and "new \<notin> set (xs @ e # ys)"
    and tr: "holds (s\<lparr>root := tr\<rparr>) (xs @ e # new # ys)"
  shows "removed s {fr ..< t} (Some (set_ito (psync_interval_new (s\<lparr>root := tr\<rparr>) new t (ito (ivals s e))) e fr))"
proof -
  let ?s = "set_ito (psync_interval_new (s\<lparr>root := tr\<rparr>) new t (ito (ivals s e))) e fr"
  have h: "holds ?s (xs @ e # new # ys)" using tr by simp
  have ivs: "map (ivals ?s) (xs @ e # new # ys) = map (ivals s) xs @
      (ivals s e)\<lparr>ito := fr\<rparr> # \<lparr>ifrom = t, ito = ito (ivals s e)\<rparr> # map (ivals s) ys"
    using tr assms(6) by (auto simp: holds_def)
  have left: "\<forall>x \<in> set xs. ito (ivals s x) < ifrom (ivals s e)"
    and right: "\<forall>y \<in> set ys. ito (ivals s e) < ifrom (ivals s y)" using s(2) by (simp_all add: separated_append)
  have "\<forall>x \<in> set xs. ito (ivals s x) < t" "\<forall>y \<in> set ys. fr < ifrom (ivals s y)"
    using left right cut by (meson less_trans)+
  then have "separated (map (ivals ?s) (xs @ e # new # ys))"
    unfolding ivs using s(2) cut by (simp add: separated_append)
  moreover have "covers ?s = covers s - {fr ..< t}"
    unfolding covers_holds [OF h] covers_holds [OF s(1)] ivs using cut left right
    by (fastforce simp: span_def)
  ultimately show ?thesis unfolding removed_def wf_holds using h by blast
qed

text \<open>Replacing the interval of one node by a smaller one, or dropping the node.\<close>

lemma shrink_interval:
  assumes s: "holds s (xs @ e # ys)" "separated (map (ivals s) (xs @ e # ys))"
    and r: "root r = root s" "ivals r = (ivals s)(e := x')"
    and x': "ifrom (ivals s e) \<le> ifrom x'" "ifrom x' < ito x'" "ito x' \<le> ito (ivals s e)"
  shows "holds r ((xs @ [e]) @ ys)" "separated (map (ivals r) ((xs @ [e]) @ ys))"
    "covers r = span (map (ivals s) xs) \<union> {ifrom x' ..< ito x'} \<union> span (map (ivals s) ys)"
proof -
  show h: "holds r ((xs @ [e]) @ ys)" using s(1) r(1) by (simp add: holds_def)
  have ivs: "map (ivals r) ((xs @ [e]) @ ys) = map (ivals s) xs @ x' # map (ivals s) ys"
    using s(1) r(2) by (auto simp: holds_def)
  have "\<forall>x \<in> set xs. ito (ivals s x) < ifrom x'" "\<forall>y \<in> set ys. ito x' < ifrom (ivals s y)"
    using s(2) x' by (auto simp: separated_append dest: less_le_trans le_less_trans)
  then show "separated (map (ivals r) ((xs @ [e]) @ ys))"
    unfolding ivs using s(2) x' by (simp add: separated_append)
  show "covers r = span (map (ivals s) xs) \<union> {ifrom x' ..< ito x'} \<union> span (map (ivals s) ys)"
    unfolding covers_holds [OF h] ivs by auto
qed

lemma remove_from_correct:
  assumes "holds s (xs @ ys)" and "separated (map (ivals s) (xs @ ys))" and "fr < t" and "new \<notin> set (xs @ ys)"
    and "\<forall>x \<in> set xs. ito (ivals s x) \<le> fr \<or> t \<le> ifrom (ivals s x)" and "\<forall>y \<in> set ys. fr < ito (ivals s y)"
    and "length ys \<le> n"
  shows "removed s {fr ..< t} (remove_from n s (if ys = [] then None else Some (hd ys)) fr t new)"
  using assms
proof (induction ys arbitrary: n s xs)
  case Nil
  have "span (map (ivals s) xs) \<inter> {fr ..< t} = {}" using Nil.prems(5) by (fastforce simp: span_def)
  then have "covers s = covers s - {fr ..< t}" using covers_holds [OF Nil.prems(1)] by auto
  moreover have "wf_itree s" unfolding wf_holds using Nil.prems by blast
  ultimately show ?case by (auto simp: removed_def)
next
  case (Cons e ys)
  let ?x = "ivals s e" and ?next = "if ys = [] then None else Some (hd ys)"
  obtain m where n: "n = Suc m" "length ys \<le> m" using Cons.prems(7) by (cases n) auto
  note nxt = holds_next [OF Cons.prems(1)]
  have cov: "covers s = span (map (ivals s) xs) \<union> {ifrom ?x ..< ito ?x} \<union> span (map (ivals s) ys)"
    using covers_holds [OF Cons.prems(1)] by auto
  have outside: "e \<notin> set xs" "e \<notin> set ys" using Cons.prems(1) by (auto simp: holds_def)
  have left: "span (map (ivals s) xs) \<inter> {fr ..< t} = {}" using Cons.prems(5) by (fastforce simp: span_def)
  have nonempty: "ifrom ?x < ito ?x" and reach: "fr < ito ?x" using Cons.prems(2,6) by (simp_all add: separated_append)
  consider (split) "ifrom ?x < fr" "t < ito ?x" | (whole) "fr \<le> ifrom ?x" "ifrom ?x < t" "ito ?x \<le> t"
    | (front) "fr \<le> ifrom ?x" "ifrom ?x < t" "t < ito ?x" | (tail) "ifrom ?x < fr" "ito ?x \<le> t"
    | (past) "fr \<le> ifrom ?x" "t \<le> ifrom ?x" by force
  then show ?case
  proof cases
    case split
    obtain tr where "psync_tree_get_add_after (root s) (Some e) new = Some tr" "holds (s\<lparr>root := tr\<rparr>) (xs @ e # new # ys)"
      using holds_add_after [OF Cons.prems(1,4)] by blast
    with remove_split [OF Cons.prems(1,2) split(1) Cons.prems(3) split(2) Cons.prems(4)] split n show ?thesis
      by simp
  next
    case whole
    have "holds (set_ifrom s e t) (xs @ e # ys)" using Cons.prems(1) by simp
    then obtain s' where s': "psync_interval_tree_del (set_ifrom s e t) e = Some s'" "holds s' (xs @ ys)"
      "ivals s' = (ivals s)(e := ?x\<lparr>ifrom := t\<rparr>)" by (rule holds_del) simp
    have ivs: "map (ivals s') (xs @ ys) = map (ivals s) (xs @ ys)" using s'(3) outside by auto
    have same: "\<forall>x \<in> set xs \<union> set ys. ivals s' x = ivals s x" using s'(3) outside by auto
    have "separated (map (ivals s') (xs @ ys))" unfolding ivs using Cons.prems(2) by (simp add: separated_append)
    from Cons.IH [OF s'(2) this Cons.prems(3)]
    have "removed s' {fr ..< t} (remove_from m s' ?next fr t new)"
      using Cons.prems(4-6) same n(2) by simp
    moreover have c': "covers s' = span (map (ivals s) xs) \<union> {} \<union> span (map (ivals s) ys)"
      unfolding covers_holds [OF s'(2)] ivs by simp
    have "covers s' - {fr ..< t} = covers s - {fr ..< t}"
      unfolding c' cov by (rule Diff_part) (use whole in auto)
    ultimately have "removed s {fr ..< t} (remove_from m s' ?next fr t new)" by (rule removed_same)
    moreover have "remove_from n s (Some e) fr t new = remove_from m s' ?next fr t new"
      using whole n nxt s'(1) by (auto simp: Let_def)
    ultimately show ?thesis by simp
  next
    case front
    define s1 where "s1 = set_ifrom s e t"
    have x': "ifrom ?x \<le> ifrom (?x\<lparr>ifrom := t\<rparr>)" "ifrom (?x\<lparr>ifrom := t\<rparr>) < ito (?x\<lparr>ifrom := t\<rparr>)"
      "ito (?x\<lparr>ifrom := t\<rparr>) \<le> ito ?x" using front reach by simp_all
    note r = shrink_interval [OF Cons.prems(1,2) set_ifrom_simps x', folded s1_def]
    have same: "\<forall>x \<in> set xs \<union> set ys. ivals s1 x = ivals s x" and at_e: "ifrom (ivals s1 e) = t"
      using outside by (auto simp: s1_def)
    from Cons.IH [OF r(1,2) Cons.prems(3)]
    have "removed s1 {fr ..< t} (remove_from m s1 ?next fr t new)"
      using Cons.prems(4-6) same at_e n(2) by simp
    moreover have "covers s1 - {fr ..< t} = covers s - {fr ..< t}"
      unfolding r(3) cov by (rule Diff_part) (use front in auto)
    ultimately have "removed s {fr ..< t} (remove_from m s1 ?next fr t new)" by (rule removed_same)
    moreover have "remove_from n s (Some e) fr t new = remove_from m s1 ?next fr t new"
      using front n nxt by (auto simp: Let_def s1_def)
    ultimately show ?thesis by simp
  next
    case tail
    define s1 where "s1 = set_ito s e fr"
    have x': "ifrom ?x \<le> ifrom (?x\<lparr>ito := fr\<rparr>)" "ifrom (?x\<lparr>ito := fr\<rparr>) < ito (?x\<lparr>ito := fr\<rparr>)"
      "ito (?x\<lparr>ito := fr\<rparr>) \<le> ito ?x" using tail reach by simp_all
    note r = shrink_interval [OF Cons.prems(1,2) set_ito_simps x', folded s1_def]
    have same: "\<forall>x \<in> set xs \<union> set ys. ivals s1 x = ivals s x" and at_e: "ito (ivals s1 e) = fr"
      using outside by (auto simp: s1_def)
    from Cons.IH [OF r(1,2) Cons.prems(3)]
    have "removed s1 {fr ..< t} (remove_from m s1 ?next fr t new)"
      using Cons.prems(4-6) same at_e n(2) by simp
    moreover have "covers s1 - {fr ..< t} = covers s - {fr ..< t}"
      unfolding r(3) cov by (rule Diff_part) (use tail reach in auto)
    ultimately have "removed s {fr ..< t} (remove_from m s1 ?next fr t new)" by (rule removed_same)
    moreover have "remove_from n s (Some e) fr t new = remove_from m s1 ?next fr t new"
      using tail n nxt by (auto simp: Let_def s1_def)
    ultimately show ?thesis by simp
  next
    case past
    have "\<forall>y \<in> set (e # ys). t \<le> ifrom (ivals s y)"
      using past Cons.prems(2) nonempty by (auto simp: separated_append dest: less_trans)
    then have "span (map (ivals s) (e # ys)) \<inter> {fr ..< t} = {}" by (fastforce simp: span_def)
    then have "covers s = covers s - {fr ..< t}" using left covers_holds [OF Cons.prems(1)] by auto
    moreover have "wf_itree s" unfolding wf_holds using Cons.prems(1,2) by blast
    ultimately show ?thesis using past n by (auto simp: removed_def Let_def not_less)
  qed
qed

lemma interval_tree_remove_correct:
  assumes "wf_itree s" and "fr < t" and "new \<notin> set (inorder (root s))"
  shows "removed s {fr ..< t} (psync_interval_tree_remove s fr t new)"
proof -
  obtain as bs where split: "inorder (root s) = as @ bs" "\<forall>a \<in> set as. ito (ivals s a) \<le> fr"
    "\<forall>b \<in> set bs. fr < ito (ivals s b)"
    "psync_interval_tree_first_interval_containing_or_after s fr = (if bs = [] then None else Some (hd bs))"
    by (rule first_interval_split [OF assms(1)])
  have "holds s (as @ bs)" "separated (map (ivals s) (as @ bs))"
    using assms(1) split(1) by (auto simp: wf_itree_def holds_def ivlist_def)
  then show ?thesis unfolding psync_interval_tree_remove_def split(4)
    using assms(2,3) split by (intro remove_from_correct [of s as]) auto
qed

lemma cut_end_from_correct:
  assumes "holds s xs" and "separated (map (ivals s) xs)" and "length xs \<le> n"
  shows "removed s {bound ..} (cut_end_from n s (if xs = [] then None else Some (last xs)) bound)"
  using assms
proof (induction xs arbitrary: n s rule: rev_induct)
  case Nil
  then show ?case using covers_holds [OF Nil.prems(1)] by (auto simp: removed_def wf_holds)
next
  case (snoc e xs)
  let ?x = "ivals s e"
  obtain m where n: "n = Suc m" "length xs \<le> m" using snoc.prems(3) by (cases n) auto
  have sep: "ifrom ?x < ito ?x" "\<forall>x \<in> set xs. ito (ivals s x) < ifrom ?x" "separated (map (ivals s) xs)"
    using snoc.prems(2) by (simp_all add: separated_append)
  have keep: "covers s = covers s - {bound ..}" if "ito ?x \<le> bound"
  proof -
    have "\<forall>x \<in> set (xs @ [e]). ito (ivals s x) \<le> bound" using that sep by (auto dest: less_trans)
    then show ?thesis unfolding covers_holds [OF snoc.prems(1)] by (fastforce simp: span_def)
  qed
  consider (fits) "ito ?x \<le> bound" | (trim) "\<not> ito ?x \<le> bound" "ifrom ?x < bound"
    | (drop) "\<not> ito ?x \<le> bound" "bound \<le> ifrom ?x" by force
  then show ?case
  proof cases
    case fits
    then show ?thesis using keep snoc.prems by (auto simp: removed_def wf_holds)
  next
    case trim
    let ?s = "set_ito s e bound"
    have x': "ifrom ?x \<le> ifrom (?x\<lparr>ito := bound\<rparr>)" "ifrom (?x\<lparr>ito := bound\<rparr>) < ito (?x\<lparr>ito := bound\<rparr>)"
      "ito (?x\<lparr>ito := bound\<rparr>) \<le> ito ?x" using trim by simp_all
    note r = shrink_interval [of s xs e "[]" ?s, OF snoc.prems(1,2) _ _ x', simplified]
    have "\<forall>x \<in> set xs. ito (ivals s x) \<le> bound" using sep trim by (auto dest: less_trans)
    then have "span (map (ivals s) xs) \<inter> {bound ..} = {}" by (fastforce simp: span_def)
    moreover have "{ifrom ?x ..< ito ?x} - {bound ..} = {ifrom ?x ..< bound}" using trim by auto
    ultimately have "covers ?s = covers s - {bound ..}" using r covers_holds [OF snoc.prems(1)] by auto
    then show ?thesis using trim r by (auto simp: removed_def wf_holds)
  next
    case drop
    obtain s' where s': "psync_interval_tree_del s e = Some s'" "holds s' xs" "ivals s' = ivals s"
      using holds_del [of s xs e "[]"] snoc.prems(1) by auto
    have "removed s' {bound ..} (cut_end_from m s' (if xs = [] then None else Some (last xs)) bound)"
      using snoc.IH [of s' m] s' sep(3) n by simp
    moreover have "covers s' - {bound ..} = covers s - {bound ..}"
      using drop covers_holds [OF s'(2)] covers_holds [OF snoc.prems(1)] s'(3) by auto
    ultimately show ?thesis using drop n s'(1) holds_prev [of s xs e "[]"] snoc.prems(1)
      by (auto simp: removed_def Let_def)
  qed
qed

lemma free_from_postorder:
  assumes "distinct (postorder t)" and "postorder t = xs @ ys" and "length ys \<le> n"
  shows "free_from n t (if ys = [] then None else Some (hd ys)) = Some ys"
  using assms
proof (induction ys arbitrary: xs n)
  case (Cons y ys)
  then obtain m where n: "n = Suc m" "length ys \<le> m" by (cases n) auto
  then show ?case using Cons get_next_safe_postorder [OF Cons.prems(1,2)] Cons.IH [of "xs @ [y]" m] by simp
qed simp


subsection \<open>Properties\<close>

text \<open>
  C3. \<open>psync_interval_tree_add\<close> of a non-empty interval to a well-formed tree succeeds (no assert
  fails, no loop runs out) and gives a well-formed tree: non-empty intervals, in order, with a gap
  between neighbours. It covers exactly the old bytes and the new ones, whatever was merged.
\<close>

theorem interval_add_union:
  assumes "wf_itree s" and "fr < t" and "new \<notin> set (inorder (root s))"
  shows "\<exists>s'. psync_interval_tree_add s fr t new = Some s' \<and> wf_itree s' \<and> covers s' = covers s \<union> {fr ..< t}"
  using interval_tree_add_correct [OF assms] by (simp add: added_def)

definition two_intervals :: "nat itree" where
  "two_intervals = \<lparr>root = Node Null 1 2 (Node Null 2 1 Null),
     ivals = (\<lambda>a. if a = 1 then \<lparr>ifrom = 10, ito = 20\<rparr> else \<lparr>ifrom = 30, ito = 40\<rparr>)\<rparr>"

lemma two_intervals_simps [simp]:
  "inorder (root two_intervals) = [1, 2]" "wf_itree two_intervals" "covers two_intervals = {10 ..< 20} \<union> {30 ..< 40}"
  by (simp_all add: two_intervals_def wf_itree_def ivlist_def covers_def)

lemma interval_add_union_witness:
  "\<exists>s'. psync_interval_tree_add two_intervals 15 35 3 = Some s' \<and> wf_itree s' \<and>
    covers s' = {10 ..< 20} \<union> {30 ..< 40} \<union> {15 ..< 35}"
  using interval_add_union [of two_intervals 15 35 3] by simp

text \<open>
  C16. \<open>psync_interval_tree_remove\<close> of a non-empty range keeps the tree well formed and leaves
  exactly the covered bytes outside the range, also when the range falls inside one interval,
  which is then split around it.
\<close>

theorem interval_remove_diff:
  assumes "wf_itree s" and "fr < t" and "new \<notin> set (inorder (root s))"
  shows "\<exists>s'. psync_interval_tree_remove s fr t new = Some s' \<and> wf_itree s' \<and> covers s' = covers s - {fr ..< t}"
  using interval_tree_remove_correct [OF assms] by (simp add: removed_def)

lemma interval_remove_diff_witness:
  "\<exists>s'. psync_interval_tree_remove two_intervals 12 15 3 = Some s' \<and> wf_itree s' \<and>
    covers s' = ({10 ..< 20} \<union> {30 ..< 40}) - {12 ..< 15}"
  using interval_remove_diff [of two_intervals 12 15 3] by simp

text \<open>
  \<open>psync_interval_tree_cut_end\<close> drops exactly the bytes from the given end on.
\<close>

lemma interval_cut_end_bound:
  assumes "wf_itree s"
  shows "\<exists>s'. psync_interval_tree_cut_end s bound = Some s' \<and> wf_itree s' \<and> covers s' = covers s - {bound ..}"
proof -
  have "holds s (inorder (root s))" "separated (map (ivals s) (inorder (root s)))"
    using assms by (auto simp: wf_itree_def holds_def ivlist_def)
  from cut_end_from_correct [OF this order_refl, of bound] show ?thesis
    by (simp only: psync_interval_tree_cut_end_def psync_tree.last_law removed_def)
qed

lemma interval_cut_end_bound_witness:
  "\<exists>s'. psync_interval_tree_cut_end two_intervals 15 = Some s' \<and> wf_itree s' \<and>
    covers s' = ({10 ..< 20} \<union> {30 ..< 40}) - {15 ..}"
  using interval_cut_end_bound [of two_intervals 15] by simp

text \<open>
  \<open>psync_interval_tree_first_interval_containing_or_after\<close> returns the first interval in
  order whose end lies after the point: the one containing it if there is one, else the next one.
\<close>

lemma first_interval_is_first:
  assumes "wf_itree s"
  shows "psync_interval_tree_first_interval_containing_or_after s point =
    find (\<lambda>e. point < ito (ivals s e)) (inorder (root s))"
proof -
  obtain as bs where split: "inorder (root s) = as @ bs" "\<forall>a \<in> set as. \<not> point < ito (ivals s a)"
    "\<forall>b \<in> set bs. point < ito (ivals s b)"
    "psync_interval_tree_first_interval_containing_or_after s point = (if bs = [] then None else Some (hd bs))"
    by (rule first_interval_split [OF assms, of point]) (auto simp: not_less)
  have "find P (as @ bs) = (if bs = [] then None else Some (hd bs))"
    if "\<forall>a \<in> set as. \<not> P a" "\<forall>b \<in> set bs. P b" for P :: "'a \<Rightarrow> bool"
    using that by (induction as) (cases bs, auto)
  then show ?thesis using split by simp
qed

lemma first_interval_is_first_witness:
  "psync_interval_tree_first_interval_containing_or_after two_intervals 20 = Some 2"
  using first_interval_is_first [of two_intervals 20] by simp (simp add: two_intervals_def)

text \<open>
  \<open>psync_interval_tree_free\<close> frees every node of the tree exactly once, children first.
\<close>

lemma interval_tree_free_all:
  assumes "distinct (postorder t)"
  shows "psync_interval_tree_free t = Some (postorder t)"
proof -
  have "length (inorder t) = length (postorder t)" by (induction t) auto
  then show ?thesis using free_from_postorder [OF assms, of "[]" "postorder t"]
    by (simp add: psync_interval_tree_free_def get_first_safe_postorder)
qed

lemma interval_tree_free_all_witness: "psync_interval_tree_free three = Some [10, 30, 20]"
  using interval_tree_free_all [of three] by (simp add: three_def)

end
