(* ===== verification/Papi.thy ===== *)
theory Papi
  imports Prelude
begin

section \<open>The binary API protocol (papi.h, papi.c)\<close>

text \<open>
  A response is a sequence of opcodes. \<open>calc_ret_len\<close> walks it once, checking lengths, to find
  how much memory the parsed tree needs and how many strings it defines; \<open>do_parse_result\<close>
  walks it again without checks and builds the tree. The input pointer and \<open>datalen\<close> are the
  list of bytes left; the output pointer is the number of bytes written so far; \<open>strings\<close> is
  the list of the strings defined so far, which later opcodes refer to by index.

  \<open>Reject\<close> is a return of -1 or null, \<open>Overread\<close> the first read at or past the end of the input,
  at which the model stops (it does not know the memory there: in the loop of an array or a hash a byte other than 255 makes
  the next length check return -1, while 255 ends the container, \<open>datalen\<close> wraps to \<open>SIZE_MAX\<close> and the code goes on
  behind the input), \<open>BadId\<close> a read of \<open>strings\<close> past what has been stored. The loops over the elements of an
  array or a hash take the parser of an element as an argument. Nesting and loops carry fuel, one
  more than the number of bytes left, which is always enough. Sizes are those of the 64-bit ABI.
\<close>

subsection \<open>Opcodes and results\<close>

abbreviation "RPARAM_STR1 \<equiv> (0 :: nat)"
abbreviation "RPARAM_STR4 \<equiv> (3 :: nat)"
abbreviation "RPARAM_RSTR1 \<equiv> (4 :: nat)"
abbreviation "RPARAM_RSTR4 \<equiv> (7 :: nat)"
abbreviation "RPARAM_NUM1 \<equiv> (8 :: nat)"
abbreviation "RPARAM_NUM8 \<equiv> (15 :: nat)"
abbreviation "RPARAM_HASH \<equiv> (16 :: nat)"
abbreviation "RPARAM_ARRAY \<equiv> (17 :: nat)"
abbreviation "RPARAM_BFALSE \<equiv> (18 :: nat)"
abbreviation "RPARAM_BTRUE \<equiv> (19 :: nat)"
abbreviation "RPARAM_DATA \<equiv> (20 :: nat)"
abbreviation "RPARAM_SHORT_STR_BASE \<equiv> (100 :: nat)"
abbreviation "RPARAM_SHORT_RSTR_BASE \<equiv> (150 :: nat)"
abbreviation "RPARAM_SMALL_NUM_BASE \<equiv> (200 :: nat)"
abbreviation "RPARAM_END \<equiv> (255 :: byte)"
abbreviation "VSHORT_STR_LEN \<equiv> (50 :: nat)"
abbreviation "VSHORT_RSTR_CNT \<equiv> (50 :: nat)"
abbreviation "VSMALL_NUMBER_NUM \<equiv> (20 :: nat)"

abbreviation "ALIGN_BYTES \<equiv> (8 :: nat)"
abbreviation "sizeof_binresult \<equiv> (16 :: nat)"
abbreviation "offsetof_str \<equiv> (8 :: nat)"
abbreviation "sizeof_pointer \<equiv> (8 :: nat)"
abbreviation "sizeof_hashpair \<equiv> (16 :: nat)"

datatype binresult =
    BStr "byte list"
  | BNum u64
  | BBool bool
  | BArray "binresult list"
  | BHash "(byte list \<times> binresult) list"
  | BData u64

datatype 'a outcome = Done 'a | Reject | Overread | BadId | NoFuel

fun obind :: "'a outcome \<Rightarrow> ('a \<Rightarrow> 'b outcome) \<Rightarrow> 'b outcome" where
  "obind (Done x) k = k x"
| "obind Reject k = Reject"
| "obind Overread k = Overread"
| "obind BadId k = BadId"
| "obind NoFuel k = NoFuel"

lemma obind_Done: "obind x k = Done y \<longleftrightarrow> (\<exists>z. x = Done z \<and> k z = Done y)"
  by (cases x) auto

lemma obind_NoFuel: "obind x k = NoFuel \<longleftrightarrow> x = NoFuel \<or> (\<exists>z. x = Done z \<and> k z = NoFuel)"
  by (cases x) auto

lemma obind_Overread: "obind x k = Overread \<longleftrightarrow> x = Overread \<or> (\<exists>z. x = Done z \<and> k z = Overread)"
  by (cases x) auto

lemma obind_BadId: "obind x k = BadId \<longleftrightarrow> x = BadId \<or> (\<exists>z. x = Done z \<and> k z = BadId)"
  by (cases x) auto

text \<open>Taking \<open>n\<close> bytes: after \<open>_NEED_DATA(n)\<close>, and without that check.\<close>

definition need :: "nat \<Rightarrow> byte list \<Rightarrow> (byte list \<times> byte list) outcome" where
  "need n d = (if length d < n then Reject else Done (take n d, drop n d))"

definition fetch :: "nat \<Rightarrow> byte list \<Rightarrow> (byte list \<times> byte list) outcome" where
  "fetch n d = (if length d < n then Overread else Done (take n d, drop n d))"

definition str_space :: "nat \<Rightarrow> nat" where
  "str_space len = (len + ALIGN_BYTES) div ALIGN_BYTES * ALIGN_BYTES"

subsection \<open>First pass: sizes\<close>

text \<open>The bytes needed, the input left and the number of strings so far.\<close>

type_synonym sized = "nat \<times> byte list \<times> nat"

definition calc_str :: "nat \<Rightarrow> byte list \<Rightarrow> nat \<Rightarrow> sized outcome" where
  "calc_str len d strcnt = obind (need len d) (\<lambda>(_, d). Done (offsetof_str + str_space len, d, strcnt + 1))"

definition calc_rstr :: "nat \<Rightarrow> byte list \<Rightarrow> nat \<Rightarrow> sized outcome" where
  "calc_rstr i d strcnt = (if i < strcnt then Done (0, d, strcnt) else Reject)"

text \<open>The opcodes without elements.\<close>

definition calc_scalar :: "nat \<Rightarrow> byte list \<Rightarrow> nat \<Rightarrow> sized outcome" where
  "calc_scalar type d strcnt =
    (if RPARAM_SHORT_STR_BASE \<le> type \<and> type < RPARAM_SHORT_STR_BASE + VSHORT_STR_LEN then
       calc_str (type - RPARAM_SHORT_STR_BASE) d strcnt
     else if RPARAM_STR1 \<le> type \<and> type \<le> RPARAM_STR4 then
       obind (need (type - RPARAM_STR1 + 1) d) (\<lambda>(l, d). calc_str (le_val l) d strcnt)
     else if RPARAM_RSTR1 \<le> type \<and> type \<le> RPARAM_RSTR4 then
       obind (need (type - RPARAM_RSTR1 + 1) d) (\<lambda>(l, d). calc_rstr (le_val l) d strcnt)
     else if RPARAM_SHORT_RSTR_BASE \<le> type \<and> type < RPARAM_SHORT_RSTR_BASE + VSHORT_RSTR_CNT then
       calc_rstr (type - RPARAM_SHORT_RSTR_BASE) d strcnt
     else if RPARAM_NUM1 \<le> type \<and> type \<le> RPARAM_NUM8 then
       obind (need (type - RPARAM_NUM1 + 1) d) (\<lambda>(_, d). Done (sizeof_binresult, d, strcnt))
     else if RPARAM_SMALL_NUM_BASE \<le> type \<and> type < RPARAM_SMALL_NUM_BASE + VSMALL_NUMBER_NUM then
       Done (0, d, strcnt)
     else if type = RPARAM_BFALSE \<or> type = RPARAM_BTRUE then Done (0, d, strcnt)
     else if type = RPARAM_DATA then
       obind (need 8 d) (\<lambda>(_, d). Done (sizeof_binresult, d, strcnt))
     else Reject)"

fun calc_array :: "(byte list \<Rightarrow> nat \<Rightarrow> sized outcome) \<Rightarrow> nat \<Rightarrow> byte list \<Rightarrow> nat \<Rightarrow> nat \<Rightarrow> nat \<Rightarrow> sized outcome" where
  "calc_array elem 0 d strcnt ret cnt = NoFuel"
| "calc_array elem (Suc n) [] strcnt ret cnt = Overread"
| "calc_array elem (Suc n) (b # d) strcnt ret cnt =
     (if b = RPARAM_END then Done (ret + sizeof_pointer * cnt, d, strcnt)
      else obind (elem (b # d) strcnt) (\<lambda>(r, d, strcnt).
             if d = [] then Reject else calc_array elem n d strcnt (ret + r) (cnt + 1)))"

fun calc_hash :: "(byte list \<Rightarrow> nat \<Rightarrow> sized outcome) \<Rightarrow> nat \<Rightarrow> byte list \<Rightarrow> nat \<Rightarrow> nat \<Rightarrow> nat \<Rightarrow> sized outcome" where
  "calc_hash elem 0 d strcnt ret cnt = NoFuel"
| "calc_hash elem (Suc n) [] strcnt ret cnt = Overread"
| "calc_hash elem (Suc n) (b # d) strcnt ret cnt =
     (if b = RPARAM_END then Done (ret + sizeof_hashpair * cnt, d, strcnt)
      else obind (elem (b # d) strcnt) (\<lambda>(r, d, strcnt).
             obind (elem d strcnt) (\<lambda>(r2, d, strcnt).
               if d = [] then Reject else calc_hash elem n d strcnt (ret + r + r2) (cnt + 1))))"

fun calc_ret_len :: "nat \<Rightarrow> byte list \<Rightarrow> nat \<Rightarrow> sized outcome" where
  "calc_ret_len 0 d strcnt = NoFuel"
| "calc_ret_len (Suc f) [] strcnt = Reject"
| "calc_ret_len (Suc f) (b # d) strcnt =
     (if unat b = RPARAM_ARRAY then calc_array (calc_ret_len f) (length d + 1) d strcnt sizeof_binresult 0
      else if unat b = RPARAM_HASH then calc_hash (calc_ret_len f) (length d + 1) d strcnt sizeof_binresult 0
      else calc_scalar (unat b) d strcnt)"

subsection \<open>Second pass: the tree\<close>

type_synonym parsed = "binresult \<times> byte list \<times> nat \<times> binresult list"

definition parse_str :: "nat \<Rightarrow> byte list \<Rightarrow> nat \<Rightarrow> binresult list \<Rightarrow> parsed outcome" where
  "parse_str len d odata strings =
     obind (fetch len d) (\<lambda>(str, d).
       Done (BStr str, d, odata + offsetof_str + str_space len, strings @ [BStr str]))"

definition parse_rstr :: "nat \<Rightarrow> byte list \<Rightarrow> nat \<Rightarrow> binresult list \<Rightarrow> parsed outcome" where
  "parse_rstr i d odata strings = (if i < length strings then Done (strings ! i, d, odata, strings) else BadId)"

definition hash_entry :: "binresult \<Rightarrow> binresult \<Rightarrow> (byte list \<times> binresult) list" where
  "hash_entry key v = (case key of BStr k \<Rightarrow> [(k, v)] | _ \<Rightarrow> [])"

definition parse_scalar :: "nat \<Rightarrow> byte list \<Rightarrow> nat \<Rightarrow> binresult list \<Rightarrow> parsed outcome" where
  "parse_scalar type d odata strings =
    (if RPARAM_SHORT_STR_BASE \<le> type \<and> type < RPARAM_SHORT_STR_BASE + VSHORT_STR_LEN then
       parse_str (type - RPARAM_SHORT_STR_BASE) d odata strings
     else if RPARAM_STR1 \<le> type \<and> type \<le> RPARAM_STR4 then
       obind (fetch (type - RPARAM_STR1 + 1) d) (\<lambda>(l, d). parse_str (le_val l) d odata strings)
     else if RPARAM_RSTR1 \<le> type \<and> type \<le> RPARAM_RSTR4 then
       obind (fetch (type - RPARAM_RSTR1 + 1) d) (\<lambda>(l, d). parse_rstr (le_val l) d odata strings)
     else if RPARAM_SHORT_RSTR_BASE \<le> type \<and> type < RPARAM_SHORT_RSTR_BASE + VSHORT_RSTR_CNT then
       parse_rstr (type - RPARAM_SHORT_RSTR_BASE) d odata strings
     else if RPARAM_NUM1 \<le> type \<and> type \<le> RPARAM_NUM8 then
       obind (fetch (type - RPARAM_NUM1 + 1) d) (\<lambda>(l, d).
         Done (BNum (of_nat (le_val l)), d, odata + sizeof_binresult, strings))
     else if RPARAM_SMALL_NUM_BASE \<le> type \<and> type < RPARAM_SMALL_NUM_BASE + VSMALL_NUMBER_NUM then
       Done (BNum (of_nat (type - RPARAM_SMALL_NUM_BASE)), d, odata, strings)
     else if type = RPARAM_BTRUE then Done (BBool True, d, odata, strings)
     else if type = RPARAM_BFALSE then Done (BBool False, d, odata, strings)
     else if type = RPARAM_DATA then
       obind (fetch 8 d) (\<lambda>(l, d). Done (BData (of_nat (le_val l)), d, odata + sizeof_binresult, strings))
     else Reject)"

fun parse_array :: "(byte list \<Rightarrow> nat \<Rightarrow> binresult list \<Rightarrow> parsed outcome) \<Rightarrow> nat \<Rightarrow> byte list \<Rightarrow> nat \<Rightarrow>
    binresult list \<Rightarrow> binresult list \<Rightarrow> parsed outcome" where
  "parse_array elem 0 d odata strings arr = NoFuel"
| "parse_array elem (Suc n) [] odata strings arr = Overread"
| "parse_array elem (Suc n) (b # d) odata strings arr =
     (if b = RPARAM_END then Done (BArray arr, d, odata + sizeof_pointer * length arr, strings)
      else obind (elem (b # d) odata strings) (\<lambda>(v, d, odata, strings).
             parse_array elem n d odata strings (arr @ [v])))"

fun parse_hash :: "(byte list \<Rightarrow> nat \<Rightarrow> binresult list \<Rightarrow> parsed outcome) \<Rightarrow> nat \<Rightarrow> byte list \<Rightarrow> nat \<Rightarrow>
    binresult list \<Rightarrow> (byte list \<times> binresult) list \<Rightarrow> parsed outcome" where
  "parse_hash elem 0 d odata strings arr = NoFuel"
| "parse_hash elem (Suc n) [] odata strings arr = Overread"
| "parse_hash elem (Suc n) (b # d) odata strings arr =
     (if b = RPARAM_END then Done (BHash arr, d, odata + sizeof_hashpair * length arr, strings)
      else obind (elem (b # d) odata strings) (\<lambda>(key, d, odata, strings).
             obind (elem d odata strings) (\<lambda>(v, d, odata, strings).
               parse_hash elem n d odata strings (arr @ hash_entry key v))))"

fun do_parse_result :: "nat \<Rightarrow> byte list \<Rightarrow> nat \<Rightarrow> binresult list \<Rightarrow> parsed outcome" where
  "do_parse_result 0 d odata strings = NoFuel"
| "do_parse_result (Suc f) [] odata strings = Overread"
| "do_parse_result (Suc f) (b # d) odata strings =
     (if unat b = RPARAM_ARRAY then
        parse_array (do_parse_result f) (length d + 1) d (odata + sizeof_binresult) strings []
      else if unat b = RPARAM_HASH then
        parse_hash (do_parse_result f) (length d + 1) d (odata + sizeof_binresult) strings []
      else parse_scalar (unat b) d odata strings)"

text \<open>
  \<open>parse_result\<close>: \<open>Reject\<close> is its null. The second component is the number of output bytes the
  two passes agree on: what was allocated and what was written.
\<close>

definition parse_fuel :: "byte list \<Rightarrow> nat" where
  "parse_fuel d = length d + 1"

definition parse_result :: "byte list \<Rightarrow> (binresult \<times> nat \<times> nat) outcome" where
  "parse_result d =
     obind (calc_ret_len (parse_fuel d) d 0) (\<lambda>(retlen, _, strcnt).
       obind (do_parse_result (parse_fuel d) d 0 []) (\<lambda>(res, _, used, _). Done (res, retlen, used)))"

subsection \<open>What the first pass consumes and how much it asks for\<close>

lemmas scalar_defs = calc_scalar_def calc_str_def calc_rstr_def need_def

definition consumes :: "(byte list \<Rightarrow> nat \<Rightarrow> sized outcome) \<Rightarrow> bool" where
  "consumes elem \<longleftrightarrow> (\<forall>d s n d' s'. elem d s = Done (n, d', s') \<longrightarrow>
     (\<exists>p. d = p @ d' \<and> p \<noteq> [] \<and> n + 8 \<le> 24 * length p))"

lemma consumesD:
  "consumes elem \<Longrightarrow> elem d s = Done (n, d', s') \<Longrightarrow> \<exists>p. d = p @ d' \<and> p \<noteq> [] \<and> n + 8 \<le> 24 * length p"
  unfolding consumes_def by blast

lemma str_space_le: "str_space len \<le> len + 8"
  by (simp add: str_space_def)

lemma calc_str_consumes:
  "calc_str len d s = Done (n, d', s') \<Longrightarrow> \<exists>p. d = p @ d' \<and> n \<le> length p + 16"
  using str_space_le [of len]
  by (auto simp: calc_str_def need_def obind_Done split: if_splits
      intro!: exI [of _ "take len d"] simp flip: append_take_drop_id)

lemma need_split: "need n d = Done (x, d') \<Longrightarrow> d = x @ d' \<and> length x = n"
  by (auto simp: need_def split: if_splits)

lemma calc_rstr_consumes: "calc_rstr i d s = Done (n, d', s') \<Longrightarrow> d' = d \<and> n = 0 \<and> s' = s"
  by (auto simp: calc_rstr_def split: if_splits)

lemma calc_scalar_consumes:
  "calc_scalar t d s = Done (n, d', s') \<Longrightarrow> \<exists>p. d = p @ d' \<and> n \<le> length p + 16"
  unfolding calc_scalar_def
  by (fastforce simp: obind_Done split: if_splits
      dest!: need_split calc_str_consumes calc_rstr_consumes)

lemma calc_array_consumes:
  "consumes elem \<Longrightarrow> calc_array elem k d s ret cnt = Done (n, d', s') \<Longrightarrow>
   \<exists>p. d = p @ d' \<and> p \<noteq> [] \<and> n + 24 \<le> ret + 8 * cnt + 24 * length p"
proof (induction elem k d s ret cnt rule: calc_array.induct)
  case (3 elem k b d s ret cnt)
  show ?case
  proof (cases "b = RPARAM_END")
    case False
    with "3.prems" obtain r d1 s1 where e: "elem (b # d) s = Done (r, d1, s1)" "d1 \<noteq> []"
      "calc_array elem k d1 s1 (ret + r) (cnt + 1) = Done (n, d', s')"
      by (auto simp: obind_Done split: if_splits)
    obtain p where "b # d = p @ d1" "p \<noteq> []" "r + 8 \<le> 24 * length p"
      using consumesD [OF "3.prems"(1) e(1)] by blast
    moreover obtain q where "d1 = q @ d'" "n + 24 \<le> ret + r + 8 * (cnt + 1) + 24 * length q"
      using "3.IH" [OF False e(2) "3.prems"(1) e(3)] by blast
    ultimately show ?thesis by (intro exI [of _ "p @ q"]) auto
  qed (use 3 in auto)
qed auto

lemma calc_hash_consumes:
  "consumes elem \<Longrightarrow> calc_hash elem k d s ret cnt = Done (n, d', s') \<Longrightarrow>
   \<exists>p. d = p @ d' \<and> p \<noteq> [] \<and> n + 24 \<le> ret + 16 * cnt + 24 * length p"
proof (induction elem k d s ret cnt rule: calc_hash.induct)
  case (3 elem k b d s ret cnt)
  show ?case
  proof (cases "b = RPARAM_END")
    case False
    with "3.prems" obtain r d1 s1 r2 d2 s2 where e: "elem (b # d) s = Done (r, d1, s1)"
      "elem d1 s1 = Done (r2, d2, s2)" "d2 \<noteq> []"
      "calc_hash elem k d2 s2 (ret + r + r2) (cnt + 1) = Done (n, d', s')"
      by (auto simp: obind_Done split: if_splits)
    obtain p where "b # d = p @ d1" "p \<noteq> []" "r + 8 \<le> 24 * length p"
      using consumesD [OF "3.prems"(1) e(1)] by blast
    moreover obtain p2 where "d1 = p2 @ d2" "r2 + 8 \<le> 24 * length p2"
      using consumesD [OF "3.prems"(1) e(2)] by blast
    moreover obtain q where "d2 = q @ d'" "n + 24 \<le> ret + r + r2 + 16 * (cnt + 1) + 24 * length q"
      using "3.IH" [OF False e(3) "3.prems"(1) e(4)] by blast
    ultimately show ?thesis by (intro exI [of _ "p @ p2 @ q"]) auto
  qed (use 3 in auto)
qed auto

lemma calc_ret_len_consumes: "consumes (calc_ret_len f)"
proof (induction f)
  case (Suc f)
  have "\<exists>p. d = p @ d' \<and> p \<noteq> [] \<and> n + 8 \<le> 24 * length p"
    if calc: "calc_ret_len (Suc f) d s = Done (n, d', s')" for d s n d' s'
  proof -
    from calc obtain b d1 where d: "d = b # d1" by (cases d) auto
    consider (arr) "calc_array (calc_ret_len f) (length d1 + 1) d1 s 16 0 = Done (n, d', s')"
      | (hash) "calc_hash (calc_ret_len f) (length d1 + 1) d1 s 16 0 = Done (n, d', s')"
      | (scalar) "calc_scalar (unat b) d1 s = Done (n, d', s')" using calc d by (auto split: if_splits)
    then show ?thesis
    proof cases
      case arr
      from calc_array_consumes [OF Suc.IH this] obtain p where "d1 = p @ d'" "n + 24 \<le> 16 + 24 * length p" by auto
      then show ?thesis using d by (intro exI [of _ "b # p"]) auto
    next
      case hash
      from calc_hash_consumes [OF Suc.IH this] obtain p where "d1 = p @ d'" "n + 24 \<le> 16 + 24 * length p" by auto
      then show ?thesis using d by (intro exI [of _ "b # p"]) auto
    next
      case scalar
      from calc_scalar_consumes [OF this] obtain p where "d1 = p @ d'" "n \<le> length p + 16" by auto
      then show ?thesis using d by (intro exI [of _ "b # p"]) auto
    qed
  qed
  then show ?case unfolding consumes_def by blast
qed (simp add: consumes_def)

subsection \<open>The fuel is enough, and where the first pass reads past the end\<close>

lemma calc_scalar_errors: "calc_scalar t d s \<noteq> NoFuel" "calc_scalar t d s \<noteq> Overread"
  by (auto simp: scalar_defs obind_NoFuel obind_Overread)

lemma consumes_shorter:
  "consumes elem \<Longrightarrow> elem d s = Done (n, d', s') \<Longrightarrow> length d' < length d"
  by (auto dest!: consumesD)

lemma calc_array_fuel:
  "consumes elem \<Longrightarrow> \<forall>e s. length e \<le> length d \<longrightarrow> elem e s \<noteq> NoFuel \<Longrightarrow> length d < k \<Longrightarrow>
   calc_array elem k d s ret cnt \<noteq> NoFuel"
proof (induction elem k d s ret cnt rule: calc_array.induct)
  case (3 elem k b d s ret cnt)
  have "calc_array elem k d1 s1 (ret + r) (cnt + 1) \<noteq> NoFuel"
    if "b \<noteq> RPARAM_END" "d1 \<noteq> []" "elem (b # d) s = Done (r, d1, s1)" for r d1 s1
    using "3.IH" [OF that(1,2) "3.prems"(1)] "3.prems"(2,3) consumes_shorter [OF "3.prems"(1) that(3)] by auto
  then show ?case using "3.prems"(2) by (auto simp: obind_NoFuel split: if_splits)
qed auto

lemma calc_hash_fuel:
  "consumes elem \<Longrightarrow> \<forall>e s. length e \<le> length d \<longrightarrow> elem e s \<noteq> NoFuel \<Longrightarrow> length d < k \<Longrightarrow>
   calc_hash elem k d s ret cnt \<noteq> NoFuel"
proof (induction elem k d s ret cnt rule: calc_hash.induct)
  case (3 elem k b d s ret cnt)
  have "calc_hash elem k d2 s2 (ret + r + r2) (cnt + 1) \<noteq> NoFuel"
    if "b \<noteq> RPARAM_END" "d2 \<noteq> []" "elem (b # d) s = Done (r, d1, s1)" "elem d1 s1 = Done (r2, d2, s2)"
    for r d1 s1 r2 d2 s2
    using "3.IH" [OF that(1,2) "3.prems"(1)] "3.prems"(2,3)
      consumes_shorter [OF "3.prems"(1) that(3)] consumes_shorter [OF "3.prems"(1) that(4)] by auto
  moreover have "elem d1 s1 \<noteq> NoFuel" if "elem (b # d) s = Done (r, d1, s1)" for r d1 s1
    using "3.prems"(2) consumes_shorter [OF "3.prems"(1) that] by auto
  ultimately show ?case using "3.prems"(2) by (auto simp: obind_NoFuel split: if_splits)
qed auto

lemma calc_ret_len_fuel: "length d < f \<Longrightarrow> calc_ret_len f d s \<noteq> NoFuel"
proof (induction f arbitrary: d s)
  case (Suc f)
  show ?case
  proof (cases d)
    case (Cons b e)
    have "\<forall>x s. length x \<le> length e \<longrightarrow> calc_ret_len f x s \<noteq> NoFuel" using Suc Cons by auto
    then show ?thesis
      using Cons calc_array_fuel [OF calc_ret_len_consumes] calc_hash_fuel [OF calc_ret_len_consumes]
        calc_scalar_errors(1) by simp
  qed simp
qed simp

definition ends_open :: "byte list \<Rightarrow> bool" where
  "ends_open d \<longleftrightarrow> d \<noteq> [] \<and> unat (last d) \<in> {RPARAM_ARRAY, RPARAM_HASH}"

lemma ends_open_append: "d \<noteq> [] \<Longrightarrow> ends_open (p @ d) = ends_open d"
  by (simp add: ends_open_def)

definition overreads_at_end :: "(byte list \<Rightarrow> nat \<Rightarrow> sized outcome) \<Rightarrow> bool" where
  "overreads_at_end elem \<longleftrightarrow> (\<forall>d s. elem d s = Overread \<longrightarrow> ends_open d)"

lemma calc_array_overread:
  "consumes elem \<Longrightarrow> overreads_at_end elem \<Longrightarrow> calc_array elem k d s ret cnt = Overread \<Longrightarrow> d = [] \<or> ends_open d"
proof (induction elem k d s ret cnt rule: calc_array.induct)
  case (3 elem k b d s ret cnt)
  then have b: "b \<noteq> RPARAM_END" by auto
  have "ends_open (b # d)" if e: "elem (b # d) s = Done (r, d1, s1)" "d1 \<noteq> []"
    "calc_array elem k d1 s1 (ret + r) (cnt + 1) = Overread" for r d1 s1
  proof -
    obtain p where "b # d = p @ d1" using consumesD [OF "3.prems"(1) e(1)] by blast
    moreover have "ends_open d1" using "3.IH" [OF b e(2) "3.prems"(1,2) e(3)] e(2) by simp
    ultimately show ?thesis using ends_open_append [OF e(2)] by simp
  qed
  then show ?case using "3.prems" b by (auto simp: obind_Overread overreads_at_end_def split: if_splits)
qed auto

lemma calc_hash_overread:
  "consumes elem \<Longrightarrow> overreads_at_end elem \<Longrightarrow> calc_hash elem k d s ret cnt = Overread \<Longrightarrow> d = [] \<or> ends_open d"
proof (induction elem k d s ret cnt rule: calc_hash.induct)
  case (3 elem k b d s ret cnt)
  then have b: "b \<noteq> RPARAM_END" by auto
  have first: "ends_open (b # d)" if e: "elem (b # d) s = Done (r, d1, s1)" "ends_open d1" for r d1 s1
  proof -
    obtain p where "b # d = p @ d1" using consumesD [OF "3.prems"(1) e(1)] by blast
    then show ?thesis using e(2) ends_open_append [of d1 p] by (auto simp: ends_open_def)
  qed
  have "ends_open d1" if e: "elem d1 s1 = Done (r2, d2, s2)" "d2 \<noteq> []"
    "calc_hash elem k d2 s2 (ret + r + r2) (cnt + 1) = Overread" for d1 s1 r r2 d2 s2
  proof -
    obtain p where "d1 = p @ d2" using consumesD [OF "3.prems"(1) e(1)] by blast
    moreover have "ends_open d2" using "3.IH" [OF b e(2) "3.prems"(1,2) e(3)] e(2) by simp
    ultimately show ?thesis using ends_open_append [OF e(2)] by simp
  qed
  then show ?case using "3.prems" b first
    by (auto simp: obind_Overread overreads_at_end_def split: if_splits)
qed auto

lemma calc_ret_len_overread: "overreads_at_end (calc_ret_len f)"
proof (induction f)
  case (Suc f)
  have "ends_open d" if "calc_ret_len (Suc f) d s = Overread" for d s
  proof -
    from that obtain b e where d: "d = b # e" by (cases d) auto
    with that have "unat b \<in> {RPARAM_ARRAY, RPARAM_HASH}" "e = [] \<or> ends_open e"
      using calc_scalar_errors(2) calc_array_overread [OF calc_ret_len_consumes Suc.IH]
        calc_hash_overread [OF calc_ret_len_consumes Suc.IH] by (auto split: if_splits)
    then show ?thesis using d by (auto simp: ends_open_def)
  qed
  then show ?case by (simp add: overreads_at_end_def)
qed (simp add: overreads_at_end_def)

subsection \<open>The second pass stays within what the first one checked\<close>

definition followed :: "sized outcome \<Rightarrow> nat \<Rightarrow> parsed outcome \<Rightarrow> bool" where
  "followed sized odata parsed \<longleftrightarrow> (\<forall>n d' s'. sized = Done (n, d', s') \<longrightarrow>
     (\<exists>v odata' strings'. parsed = Done (v, d', odata', strings') \<and>
        odata' \<le> odata + n \<and> length strings' = s'))"

definition follows :: "(byte list \<Rightarrow> nat \<Rightarrow> sized outcome) \<Rightarrow>
    (byte list \<Rightarrow> nat \<Rightarrow> binresult list \<Rightarrow> parsed outcome) \<Rightarrow> bool" where
  "follows celem pelem \<longleftrightarrow> (\<forall>d odata strings. followed (celem d (length strings)) odata (pelem d odata strings))"

lemma followsD:
  assumes "follows celem pelem" and "celem d s = Done (n, d', s')" and "length strings = s"
  shows "\<exists>v odata' strings'. pelem d odata strings = Done (v, d', odata', strings') \<and>
    odata' \<le> odata + n \<and> length strings' = s'"
  using assms unfolding follows_def followed_def by blast

lemma parse_scalar_follows: "followed (calc_scalar t d (length strings)) odata (parse_scalar t d odata strings)"
  unfolding followed_def calc_scalar_def parse_scalar_def
  by (auto simp: obind_Done need_def fetch_def calc_str_def parse_str_def calc_rstr_def parse_rstr_def split: if_splits)

lemma parse_array_follows:
  "follows celem pelem \<Longrightarrow> calc_array celem k d s ret cnt = Done (n, d', s') \<Longrightarrow> length strings = s \<Longrightarrow> length arr \<le> cnt \<Longrightarrow>
   \<exists>v odata' strings'. parse_array pelem k d odata strings arr = Done (v, d', odata', strings') \<and>
     odata' + ret \<le> odata + n \<and> length strings' = s'"
proof (induction celem k d s ret cnt arbitrary: odata strings arr rule: calc_array.induct)
  case (3 elem k b d s ret cnt)
  show ?case
  proof (cases "b = RPARAM_END")
    case False
    with "3.prems"(2) obtain r d1 s1 where e: "elem (b # d) s = Done (r, d1, s1)" "d1 \<noteq> []"
      "calc_array elem k d1 s1 (ret + r) (cnt + 1) = Done (n, d', s')"
      by (auto simp: obind_Done split: if_splits)
    obtain v o1 ss1 where p: "pelem (b # d) odata strings = Done (v, d1, o1, ss1)" "o1 \<le> odata + r" "length ss1 = s1"
      using followsD [OF "3.prems"(1) e(1) "3.prems"(3)] by blast
    have "length (arr @ [v]) \<le> cnt + 1" using "3.prems"(4) by simp
    from "3.IH" [OF False e(2) "3.prems"(1) e(3) p(3) this, of o1] p(1,2) False show ?thesis by auto
  qed (use 3 in auto)
qed auto

lemma parse_hash_follows:
  "follows celem pelem \<Longrightarrow> calc_hash celem k d s ret cnt = Done (n, d', s') \<Longrightarrow> length strings = s \<Longrightarrow> length arr \<le> cnt \<Longrightarrow>
   \<exists>v odata' strings'. parse_hash pelem k d odata strings arr = Done (v, d', odata', strings') \<and>
     odata' + ret \<le> odata + n \<and> length strings' = s'"
proof (induction celem k d s ret cnt arbitrary: odata strings arr rule: calc_hash.induct)
  case (3 elem k b d s ret cnt)
  show ?case
  proof (cases "b = RPARAM_END")
    case False
    with "3.prems"(2) obtain r d1 s1 r2 d2 s2 where e: "elem (b # d) s = Done (r, d1, s1)"
      "elem d1 s1 = Done (r2, d2, s2)" "d2 \<noteq> []"
      "calc_hash elem k d2 s2 (ret + r + r2) (cnt + 1) = Done (n, d', s')"
      by (auto simp: obind_Done split: if_splits)
    obtain key o1 ss1 where p: "pelem (b # d) odata strings = Done (key, d1, o1, ss1)" "o1 \<le> odata + r" "length ss1 = s1"
      using followsD [OF "3.prems"(1) e(1) "3.prems"(3)] by blast
    obtain v o2 ss2 where q: "pelem d1 o1 ss1 = Done (v, d2, o2, ss2)" "o2 \<le> o1 + r2" "length ss2 = s2"
      using followsD [OF "3.prems"(1) e(2) p(3)] by blast
    have "length (arr @ hash_entry key v) \<le> cnt + 1"
      using "3.prems"(4) by (simp add: hash_entry_def split: binresult.split)
    from "3.IH" [OF False e(3) "3.prems"(1) e(4) q(3) this, of o2] p(1,2) q(1,2) False show ?thesis by auto
  qed (use 3 in auto)
qed auto

lemma do_parse_result_follows: "follows (calc_ret_len f) (do_parse_result f)"
proof (induction f)
  case (Suc f)
  have "\<exists>v odata' strings'. do_parse_result (Suc f) d odata strings = Done (v, d', odata', strings') \<and>
      odata' \<le> odata + n \<and> length strings' = s'"
    if calc: "calc_ret_len (Suc f) d (length strings) = Done (n, d', s')" for d odata strings n d' s'
  proof -
    from calc obtain b d1 where d: "d = b # d1" by (cases d) auto
    consider (arr) "unat b = RPARAM_ARRAY" | (hash) "unat b = RPARAM_HASH" "unat b \<noteq> RPARAM_ARRAY"
      | (scalar) "unat b \<noteq> RPARAM_ARRAY" "unat b \<noteq> RPARAM_HASH" by blast
    then show ?thesis
    proof cases
      case arr
      with calc d have "calc_array (calc_ret_len f) (length d1 + 1) d1 (length strings) sizeof_binresult 0 = Done (n, d', s')"
        by simp
      from parse_array_follows [OF Suc.IH this refl, of "[]" "odata + sizeof_binresult"] arr d show ?thesis by auto
    next
      case hash
      with calc d have "calc_hash (calc_ret_len f) (length d1 + 1) d1 (length strings) sizeof_binresult 0 = Done (n, d', s')"
        by simp
      from parse_hash_follows [OF Suc.IH this refl, of "[]" "odata + sizeof_binresult"] hash d show ?thesis by auto
    next
      case scalar
      with calc d have "calc_scalar (unat b) d1 (length strings) = Done (n, d', s')" by simp
      with parse_scalar_follows [of "unat b" d1 strings odata] scalar d show ?thesis by (auto simp: followed_def)
    qed
  qed
  then show ?case unfolding follows_def followed_def by blast
qed (simp add: follows_def followed_def)

subsection \<open>The wire format\<close>

text \<open>
  The grammar the two passes implement, without lengths, fuel or memory: \<open>wire ss bs v ss'\<close>
  says that \<open>bs\<close> encodes \<open>v\<close> when the strings \<open>ss\<close> have been defined before, and leaves \<open>ss'\<close>
  defined.
\<close>

inductive wire :: "binresult list \<Rightarrow> byte list \<Rightarrow> binresult \<Rightarrow> binresult list \<Rightarrow> bool"
  and wire_array :: "binresult list \<Rightarrow> byte list \<Rightarrow> binresult list \<Rightarrow> binresult list \<Rightarrow> bool"
  and wire_hash :: "binresult list \<Rightarrow> byte list \<Rightarrow> (byte list \<times> binresult) list \<Rightarrow> binresult list \<Rightarrow> bool" where
  short_str: "length str < 50 \<Longrightarrow> unat b = 100 + length str \<Longrightarrow> wire ss (b # str) (BStr str) (ss @ [BStr str])"
| long_str: "1 \<le> length lb \<Longrightarrow> length lb \<le> 4 \<Longrightarrow> le_val lb = length str \<Longrightarrow> unat b + 1 = length lb \<Longrightarrow>
    wire ss (b # lb @ str) (BStr str) (ss @ [BStr str])"
| long_rstr: "1 \<le> length lb \<Longrightarrow> length lb \<le> 4 \<Longrightarrow> le_val lb < length ss \<Longrightarrow> unat b = 3 + length lb \<Longrightarrow>
    wire ss (b # lb) (ss ! le_val lb) ss"
| short_rstr: "i < 50 \<Longrightarrow> i < length ss \<Longrightarrow> unat b = 150 + i \<Longrightarrow> wire ss [b] (ss ! i) ss"
| num: "1 \<le> length lb \<Longrightarrow> length lb \<le> 8 \<Longrightarrow> unat b = 7 + length lb \<Longrightarrow> wire ss (b # lb) (BNum (of_nat (le_val lb))) ss"
| small_num: "i < 20 \<Longrightarrow> unat b = 200 + i \<Longrightarrow> wire ss [b] (BNum (of_nat i)) ss"
| false: "unat b = 18 \<Longrightarrow> wire ss [b] (BBool False) ss"
| true: "unat b = 19 \<Longrightarrow> wire ss [b] (BBool True) ss"
| data: "length lb = 8 \<Longrightarrow> unat b = 20 \<Longrightarrow> wire ss (b # lb) (BData (of_nat (le_val lb))) ss"
| array: "wire_array ss bs vs ss' \<Longrightarrow> unat b = 17 \<Longrightarrow> wire ss (b # bs) (BArray vs) ss'"
| hash: "wire_hash ss bs kvs ss' \<Longrightarrow> unat b = 16 \<Longrightarrow> wire ss (b # bs) (BHash kvs) ss'"
| array_end: "wire_array ss [RPARAM_END] [] ss"
| array_next: "wire ss bs v ss1 \<Longrightarrow> wire_array ss1 cs vs ss2 \<Longrightarrow> wire_array ss (bs @ cs) (v # vs) ss2"
| hash_end: "wire_hash ss [RPARAM_END] [] ss"
| hash_next: "wire ss bs k ss1 \<Longrightarrow> wire ss1 cs v ss2 \<Longrightarrow> wire_hash ss2 ds kvs ss3 \<Longrightarrow>
    wire_hash ss (bs @ cs @ ds) (hash_entry k v @ kvs) ss3"

definition recognises :: "(byte list \<Rightarrow> nat \<Rightarrow> binresult list \<Rightarrow> parsed outcome) \<Rightarrow> bool" where
  "recognises elem \<longleftrightarrow> (\<forall>d odata ss v d' odata' ss'. elem d odata ss = Done (v, d', odata', ss') \<longrightarrow>
     (\<exists>bs. d = bs @ d' \<and> wire ss bs v ss'))"

lemma recognisesD: "recognises elem \<Longrightarrow> elem d odata ss = Done (v, d', odata', ss') \<Longrightarrow> \<exists>bs. d = bs @ d' \<and> wire ss bs v ss'"
  unfolding recognises_def by blast

lemma fetch_split: "fetch n d = Done (x, d') \<Longrightarrow> d = x @ d' \<and> length x = n"
  by (auto simp: fetch_def split: if_splits)

lemma parse_str_split:
  "parse_str len d odata ss = Done (v, d', odata', ss') \<Longrightarrow>
   \<exists>str. d = str @ d' \<and> length str = len \<and> v = BStr str \<and> ss' = ss @ [BStr str]"
  by (auto simp: parse_str_def obind_Done dest: fetch_split)

lemma parse_rstr_split:
  "parse_rstr i d odata ss = Done (v, d', odata', ss') \<Longrightarrow> d' = d \<and> ss' = ss \<and> i < length ss \<and> v = ss ! i"
  by (auto simp: parse_rstr_def split: if_splits)

lemma opcode_cases:
  obtains (lstr) "(t :: nat) \<le> 3" | (lrstr) "4 \<le> t \<and> t \<le> 7" | (num) "8 \<le> t \<and> t \<le> 15"
    | (ff) "t = 18" | (tt) "t = 19" | (data) "t = 20" | (sstr) "100 \<le> t \<and> t < 150"
    | (srstr) "150 \<le> t \<and> t < 200" | (small) "200 \<le> t \<and> t < 220"
    | (none) "t = 16 \<or> t = 17 \<or> 21 \<le> t \<and> t < 100 \<or> 220 \<le> t"
proof (cases "t < 16")
  case True
  then consider "t \<le> 3" | "4 \<le> t \<and> t \<le> 7" | "8 \<le> t \<and> t \<le> 15" by linarith
  then show thesis using lstr lrstr num by cases
next
  case ge: False
  show thesis
  proof (cases "t < 100")
    case True
    with ge consider "t = 16 \<or> t = 17" | "t = 18" | "t = 19" | "t = 20" | "21 \<le> t \<and> t < 100" by linarith
    then show thesis using none ff tt data by cases auto
  next
    case False
    then consider "100 \<le> t \<and> t < 150" | "150 \<le> t \<and> t < 200" | "200 \<le> t \<and> t < 220" | "220 \<le> t" by linarith
    then show thesis using sstr srstr small none by cases auto
  qed
qed

lemma parse_scalar_other:
  "t = 16 \<or> t = 17 \<or> 21 \<le> t \<and> t < 100 \<or> 220 \<le> t \<Longrightarrow> parse_scalar t d odata ss = Reject"
  unfolding parse_scalar_def by (elim disjE conjE) simp_all

lemma parse_scalar_wire:
  assumes "parse_scalar (unat b) d odata ss = Done (v, d', odata', ss')"
  shows "\<exists>bs. d = bs @ d' \<and> wire ss (b # bs) v ss'"
proof -
  let ?t = "unat b"
  show ?thesis
  proof (cases rule: opcode_cases [of ?t])
    case none
    from parse_scalar_other [OF this] show ?thesis using assms by simp
  next
    case sstr
    with assms have "parse_str (?t - 100) d odata ss = Done (v, d', odata', ss')" by (simp add: parse_scalar_def)
    from parse_str_split [OF this] obtain str where "d = str @ d'" "length str = ?t - 100" "v = BStr str" "ss' = ss @ [BStr str]"
      by blast
    moreover from this have "wire ss (b # str) (BStr str) (ss @ [BStr str])" by (intro short_str) (use sstr in linarith)+
    ultimately show ?thesis by blast
  next
    case lstr
    with assms obtain l d1 where l: "fetch (?t + 1) d = Done (l, d1)" "parse_str (le_val l) d1 odata ss = Done (v, d', odata', ss')"
      by (auto simp: parse_scalar_def obind_Done)
    from parse_str_split [OF l(2)] obtain str where "d1 = str @ d'" "length str = le_val l" "v = BStr str" "ss' = ss @ [BStr str]"
      by blast
    moreover have l': "d = l @ d1" "length l = ?t + 1" using fetch_split [OF l(1)] by blast+
    moreover from calculation have "wire ss (b # l @ str) (BStr str) (ss @ [BStr str])"
      by (intro long_str) (use lstr in linarith)+
    ultimately show ?thesis by (metis append.assoc)
  next
    case lrstr
    with assms obtain l d1 where l: "fetch (?t - 4 + 1) d = Done (l, d1)" "parse_rstr (le_val l) d1 odata ss = Done (v, d', odata', ss')"
      by (auto simp: parse_scalar_def obind_Done)
    have l': "d = l @ d1" "length l = ?t - 4 + 1" using fetch_split [OF l(1)] by blast+
    note r = parse_rstr_split [OF l(2)]
    have "wire ss (b # l) (ss ! le_val l) ss" by (rule long_rstr) (use lrstr l'(2) r in linarith)+
    then show ?thesis using r l'(1) by blast
  next
    case srstr
    with assms have "parse_rstr (?t - 150) d odata ss = Done (v, d', odata', ss')" by (simp add: parse_scalar_def)
    note r = parse_rstr_split [OF this]
    have "wire ss [b] (ss ! (?t - 150)) ss" by (rule short_rstr) (use srstr r in linarith)+
    then show ?thesis using r by (intro exI [of _ "[]"]) simp
  next
    case num
    with assms obtain l where "fetch (?t - 8 + 1) d = Done (l, d')" "v = BNum (of_nat (le_val l))" "ss' = ss"
      by (auto simp: parse_scalar_def obind_Done)
    moreover from this fetch_split have "d = l @ d'" "length l = ?t - 8 + 1" by blast+
    moreover from this have "wire ss (b # l) (BNum (of_nat (le_val l))) ss"
      by (intro wire_wire_array_wire_hash.num) (use num in linarith)+
    ultimately show ?thesis by blast
  next
    case small
    have "wire ss [b] (BNum (of_nat (?t - 200))) ss" by (rule small_num) (use small in linarith)+
    moreover have "d' = d" "v = BNum (of_nat (?t - 200))" "ss' = ss" using assms small by (simp_all add: parse_scalar_def)
    ultimately show ?thesis by (intro exI [of _ "[]"]) simp
  next
    case tt
    have "d' = d" "v = BBool True" "ss' = ss" using assms tt by (simp_all add: parse_scalar_def)
    then show ?thesis using wire_wire_array_wire_hash.true [OF tt] by (intro exI [of _ "[]"]) simp
  next
    case ff
    have "d' = d" "v = BBool False" "ss' = ss" using assms ff by (simp_all add: parse_scalar_def)
    then show ?thesis using wire_wire_array_wire_hash.false [OF ff] by (intro exI [of _ "[]"]) simp
  next
    case data
    with assms obtain l where "fetch 8 d = Done (l, d')" "v = BData (of_nat (le_val l))" "ss' = ss"
      by (auto simp: parse_scalar_def obind_Done)
    moreover from this fetch_split have "d = l @ d'" "length l = 8" by blast+
    ultimately show ?thesis using wire_wire_array_wire_hash.data [OF _ data] by blast
  qed
qed

lemma parse_array_wire:
  "recognises elem \<Longrightarrow> parse_array elem k d odata ss arr = Done (v, d', odata', ss') \<Longrightarrow>
   \<exists>bs vs. d = bs @ d' \<and> v = BArray (arr @ vs) \<and> wire_array ss bs vs ss'"
proof (induction elem k d odata ss arr rule: parse_array.induct)
  case (3 elem k b d odata ss arr)
  show ?case
  proof (cases "b = RPARAM_END")
    case True
    then show ?thesis using "3.prems"(2) array_end [of ss] by (intro exI [of _ "[RPARAM_END]"] exI [of _ "[]"]) auto
  next
    case False
    with "3.prems"(2) obtain x d1 o1 ss1 where e: "elem (b # d) odata ss = Done (x, d1, o1, ss1)"
      "parse_array elem k d1 o1 ss1 (arr @ [x]) = Done (v, d', odata', ss')"
      by (auto simp: obind_Done)
    obtain bs where bs: "b # d = bs @ d1" "wire ss bs x ss1" using recognisesD [OF "3.prems"(1) e(1)] by blast
    obtain cs vs where "d1 = cs @ d'" "v = BArray ((arr @ [x]) @ vs)" "wire_array ss1 cs vs ss'"
      using "3.IH" [OF False "3.prems"(1) e(2)] by blast
    then show ?thesis using bs array_next [OF bs(2)] by (intro exI [of _ "bs @ cs"] exI [of _ "x # vs"]) auto
  qed
qed auto

lemma parse_hash_wire:
  "recognises elem \<Longrightarrow> parse_hash elem k d odata ss arr = Done (v, d', odata', ss') \<Longrightarrow>
   \<exists>bs kvs. d = bs @ d' \<and> v = BHash (arr @ kvs) \<and> wire_hash ss bs kvs ss'"
proof (induction elem k d odata ss arr rule: parse_hash.induct)
  case (3 elem k b d odata ss arr)
  show ?case
  proof (cases "b = RPARAM_END")
    case True
    then show ?thesis using "3.prems"(2) hash_end [of ss] by (intro exI [of _ "[RPARAM_END]"] exI [of _ "[]"]) auto
  next
    case False
    with "3.prems"(2) obtain key d1 o1 ss1 x d2 o2 ss2 where e: "elem (b # d) odata ss = Done (key, d1, o1, ss1)"
      "elem d1 o1 ss1 = Done (x, d2, o2, ss2)"
      "parse_hash elem k d2 o2 ss2 (arr @ hash_entry key x) = Done (v, d', odata', ss')"
      by (auto simp: obind_Done)
    obtain bs where bs: "b # d = bs @ d1" "wire ss bs key ss1" using recognisesD [OF "3.prems"(1) e(1)] by blast
    obtain cs where cs: "d1 = cs @ d2" "wire ss1 cs x ss2" using recognisesD [OF "3.prems"(1) e(2)] by blast
    obtain ds kvs where "d2 = ds @ d'" "v = BHash ((arr @ hash_entry key x) @ kvs)" "wire_hash ss2 ds kvs ss'"
      using "3.IH" [OF False "3.prems"(1) e(3)] by blast
    then show ?thesis using bs cs hash_next [OF bs(2) cs(2)]
      by (intro exI [of _ "bs @ cs @ ds"] exI [of _ "hash_entry key x @ kvs"]) auto
  qed
qed auto

lemma do_parse_result_wire: "recognises (do_parse_result f)"
proof (induction f)
  case (Suc f)
  have "\<exists>bs. d = bs @ d' \<and> wire ss bs v ss'"
    if parse: "do_parse_result (Suc f) d odata ss = Done (v, d', odata', ss')" for d odata ss v d' odata' ss'
  proof -
    from parse obtain b d1 where d: "d = b # d1" by (cases d) auto
    consider (arr) "unat b = RPARAM_ARRAY" | (hash) "unat b = RPARAM_HASH" "unat b \<noteq> RPARAM_ARRAY"
      | (scalar) "unat b \<noteq> RPARAM_ARRAY" "unat b \<noteq> RPARAM_HASH" by blast
    then show ?thesis
    proof cases
      case arr
      with parse d have "parse_array (do_parse_result f) (length d1 + 1) d1 (odata + sizeof_binresult) ss [] = Done (v, d', odata', ss')"
        by simp
      from parse_array_wire [OF Suc.IH this] obtain bs vs where
        "d1 = bs @ d'" "v = BArray vs" "wire_array ss bs vs ss'" by auto
      then show ?thesis using d wire_wire_array_wire_hash.array [OF _ arr] by (intro exI [of _ "b # bs"]) auto
    next
      case hash
      with parse d have "parse_hash (do_parse_result f) (length d1 + 1) d1 (odata + sizeof_binresult) ss [] = Done (v, d', odata', ss')"
        by simp
      from parse_hash_wire [OF Suc.IH this] obtain bs kvs where
        "d1 = bs @ d'" "v = BHash kvs" "wire_hash ss bs kvs ss'" by auto
      then show ?thesis using d wire_wire_array_wire_hash.hash [OF _ hash(1)] by (intro exI [of _ "b # bs"]) auto
    next
      case scalar
      with parse d have "parse_scalar (unat b) d1 odata ss = Done (v, d', odata', ss')" by simp
      from parse_scalar_wire [OF this] d show ?thesis by auto
    qed
  qed
  then show ?case unfolding recognises_def by blast
qed (simp add: recognises_def)

text \<open>The other direction: both passes accept every encoding, with a bit of fuel per byte.\<close>

definition scalar_ok :: "binresult list \<Rightarrow> nat \<Rightarrow> byte list \<Rightarrow> binresult \<Rightarrow> binresult list \<Rightarrow> bool" where
  "scalar_ok ss t bs v ss' \<longleftrightarrow> (\<forall>rest odata.
     (\<exists>n. calc_scalar t (bs @ rest) (length ss) = Done (n, rest, length ss')) \<and>
     (\<exists>odata'. parse_scalar t (bs @ rest) odata ss = Done (v, rest, odata', ss')))"

lemmas all_scalar_defs = scalar_ok_def calc_scalar_def parse_scalar_def calc_str_def parse_str_def calc_rstr_def
  parse_rstr_def need_def fetch_def

lemma scalar_ok_str: "length str < 50 \<Longrightarrow> scalar_ok ss (100 + length str) str (BStr str) (ss @ [BStr str])"
  by (simp add: all_scalar_defs)

lemma scalar_ok_long_str:
  "1 \<le> length lb \<Longrightarrow> length lb \<le> 4 \<Longrightarrow> le_val lb = length str \<Longrightarrow>
   scalar_ok ss (length lb - 1) (lb @ str) (BStr str) (ss @ [BStr str])"
  by (cases "length lb") (simp_all add: all_scalar_defs)

lemma scalar_ok_long_rstr:
  "1 \<le> length lb \<Longrightarrow> length lb \<le> 4 \<Longrightarrow> le_val lb < length ss \<Longrightarrow> scalar_ok ss (3 + length lb) lb (ss ! le_val lb) ss"
  by (cases "length lb") (simp_all add: all_scalar_defs)

lemma scalar_ok_short_rstr: "i < 50 \<Longrightarrow> i < length ss \<Longrightarrow> scalar_ok ss (150 + i) [] (ss ! i) ss"
  by (simp add: all_scalar_defs)

lemma scalar_ok_num:
  "1 \<le> length lb \<Longrightarrow> length lb \<le> 8 \<Longrightarrow> scalar_ok ss (7 + length lb) lb (BNum (of_nat (le_val lb))) ss"
  by (cases "length lb") (simp_all add: all_scalar_defs)

lemma scalar_ok_small: "i < 20 \<Longrightarrow> scalar_ok ss (200 + i) [] (BNum (of_nat i)) ss"
  by (simp add: all_scalar_defs)

lemma scalar_ok_bool: "scalar_ok ss 18 [] (BBool False) ss" "scalar_ok ss 19 [] (BBool True) ss"
  by (simp_all add: all_scalar_defs)

lemma scalar_ok_data: "length lb = 8 \<Longrightarrow> scalar_ok ss 20 lb (BData (of_nat (le_val lb))) ss"
  by (simp add: all_scalar_defs)

definition wire_ok :: "binresult list \<Rightarrow> byte list \<Rightarrow> binresult \<Rightarrow> binresult list \<Rightarrow> bool" where
  "wire_ok ss bs v ss' \<longleftrightarrow> bs \<noteq> [] \<and> hd bs \<noteq> RPARAM_END \<and> (\<forall>f rest odata. length bs \<le> f \<longrightarrow>
     (\<exists>n. calc_ret_len f (bs @ rest) (length ss) = Done (n, rest, length ss')) \<and>
     (\<exists>odata'. do_parse_result f (bs @ rest) odata ss = Done (v, rest, odata', ss')))"

definition array_ok :: "binresult list \<Rightarrow> byte list \<Rightarrow> binresult list \<Rightarrow> binresult list \<Rightarrow> bool" where
  "array_ok ss bs vs ss' \<longleftrightarrow> bs \<noteq> [] \<and> (\<forall>f k rest odata arr ret cnt. length bs \<le> f \<longrightarrow> length bs \<le> k \<longrightarrow>
     (\<exists>n. calc_array (calc_ret_len f) k (bs @ rest) (length ss) ret cnt = Done (n, rest, length ss')) \<and>
     (\<exists>odata'. parse_array (do_parse_result f) k (bs @ rest) odata ss arr = Done (BArray (arr @ vs), rest, odata', ss')))"

definition hash_ok :: "binresult list \<Rightarrow> byte list \<Rightarrow> (byte list \<times> binresult) list \<Rightarrow> binresult list \<Rightarrow> bool" where
  "hash_ok ss bs kvs ss' \<longleftrightarrow> bs \<noteq> [] \<and> (\<forall>f k rest odata arr ret cnt. length bs \<le> f \<longrightarrow> length bs \<le> k \<longrightarrow>
     (\<exists>n. calc_hash (calc_ret_len f) k (bs @ rest) (length ss) ret cnt = Done (n, rest, length ss')) \<and>
     (\<exists>odata'. parse_hash (do_parse_result f) k (bs @ rest) odata ss arr = Done (BHash (arr @ kvs), rest, odata', ss')))"

lemma wire_ok_scalar:
  assumes "scalar_ok ss t bs v ss'" and "unat b = t" and "t \<noteq> 16" "t \<noteq> 17" "t < 255"
  shows "wire_ok ss (b # bs) v ss'"
proof -
  have "b \<noteq> RPARAM_END" using assms(2,5) by auto
  moreover have "(\<exists>n. calc_ret_len f ((b # bs) @ rest) (length ss) = Done (n, rest, length ss')) \<and>
      (\<exists>odata'. do_parse_result f ((b # bs) @ rest) odata ss = Done (v, rest, odata', ss'))"
    if len: "length (b # bs) \<le> f" for f rest odata
  proof -
    obtain g where "f = Suc g" using len by (cases f) auto
    then show ?thesis using assms(1-4) by (simp add: scalar_ok_def)
  qed
  ultimately show ?thesis by (simp add: wire_ok_def)
qed

lemma wire_ok_array:
  assumes "array_ok ss bs vs ss'" and "unat b = 17"
  shows "wire_ok ss (b # bs) (BArray vs) ss'"
proof -
  have "b \<noteq> RPARAM_END" using assms(2) by auto
  moreover have "(\<exists>n. calc_ret_len f ((b # bs) @ rest) (length ss) = Done (n, rest, length ss')) \<and>
      (\<exists>odata'. do_parse_result f ((b # bs) @ rest) odata ss = Done (BArray vs, rest, odata', ss'))"
    if len: "length (b # bs) \<le> f" for f rest odata
  proof -
    obtain g where g: "f = Suc g" "length bs \<le> g" using len Suc_le_D by fastforce
    have k: "length bs \<le> length (bs @ rest) + 1" by simp
    from assms(1) g(2) k show ?thesis
      unfolding array_ok_def g(1) append_Cons calc_ret_len.simps do_parse_result.simps if_P [OF assms(2)]
      by (metis append_Nil)
  qed
  ultimately show ?thesis by (simp add: wire_ok_def)
qed

lemma wire_ok_hash:
  assumes "hash_ok ss bs kvs ss'" and "unat b = 16"
  shows "wire_ok ss (b # bs) (BHash kvs) ss'"
proof -
  have b: "b \<noteq> RPARAM_END" "\<not> unat b = 17" using assms(2) by auto
  have "(\<exists>n. calc_ret_len f ((b # bs) @ rest) (length ss) = Done (n, rest, length ss')) \<and>
      (\<exists>odata'. do_parse_result f ((b # bs) @ rest) odata ss = Done (BHash kvs, rest, odata', ss'))"
    if len: "length (b # bs) \<le> f" for f rest odata
  proof -
    obtain g where g: "f = Suc g" "length bs \<le> g" using len Suc_le_D by fastforce
    have k: "length bs \<le> length (bs @ rest) + 1" by simp
    from assms(1) g(2) k show ?thesis
      unfolding hash_ok_def g(1) append_Cons calc_ret_len.simps do_parse_result.simps if_P [OF assms(2)] if_not_P [OF b(2)]
      by (metis append_Nil)
  qed
  then show ?thesis using b(1) by (simp add: wire_ok_def)
qed

lemma array_ok_next:
  assumes "wire_ok ss bs v ss1" and "array_ok ss1 cs vs ss2"
  shows "array_ok ss (bs @ cs) (v # vs) ss2"
proof -
  obtain b e where b: "bs = b # e" "b \<noteq> RPARAM_END" using assms(1) by (cases bs) (auto simp: wire_ok_def)
  have cs: "cs \<noteq> []" using assms(2) by (simp add: array_ok_def)
  have "(\<exists>n. calc_array (calc_ret_len f) k ((bs @ cs) @ rest) (length ss) ret cnt = Done (n, rest, length ss2)) \<and>
     (\<exists>odata'. parse_array (do_parse_result f) k ((bs @ cs) @ rest) odata ss arr = Done (BArray (arr @ v # vs), rest, odata', ss2))"
    if fuel: "length (bs @ cs) \<le> f" "length (bs @ cs) \<le> k" for f k rest odata arr ret cnt
  proof -
    obtain j where j: "k = Suc j" "length cs \<le> j" using fuel(2) b(1) by (cases k) auto
    have "length bs \<le> f" "length cs \<le> f" using fuel(1) by auto
    then obtain r o1 where "calc_ret_len f (bs @ cs @ rest) (length ss) = Done (r, cs @ rest, length ss1)"
      "do_parse_result f (bs @ cs @ rest) odata ss = Done (v, cs @ rest, o1, ss1)"
      using assms(1) unfolding wire_ok_def by metis
    moreover obtain n o2 where "calc_array (calc_ret_len f) j (cs @ rest) (length ss1) (ret + r) (cnt + 1) = Done (n, rest, length ss2)"
      "parse_array (do_parse_result f) j (cs @ rest) o1 ss1 (arr @ [v]) = Done (BArray ((arr @ [v]) @ vs), rest, o2, ss2)"
      using assms(2) j(2) \<open>length cs \<le> f\<close> unfolding array_ok_def by metis
    ultimately show ?thesis using b cs j(1) by simp
  qed
  then show ?thesis using cs by (simp add: array_ok_def)
qed

lemma hash_ok_next:
  assumes "wire_ok ss bs key ss1" and "wire_ok ss1 cs v ss2" and "hash_ok ss2 ds kvs ss3"
  shows "hash_ok ss (bs @ cs @ ds) (hash_entry key v @ kvs) ss3"
proof -
  obtain b e where b: "bs = b # e" "b \<noteq> RPARAM_END" using assms(1) by (cases bs) (auto simp: wire_ok_def)
  have ds: "ds \<noteq> []" using assms(3) by (simp add: hash_ok_def)
  have "(\<exists>n. calc_hash (calc_ret_len f) k ((bs @ cs @ ds) @ rest) (length ss) ret cnt = Done (n, rest, length ss3)) \<and>
     (\<exists>odata'. parse_hash (do_parse_result f) k ((bs @ cs @ ds) @ rest) odata ss arr =
        Done (BHash (arr @ hash_entry key v @ kvs), rest, odata', ss3))"
    if fuel: "length (bs @ cs @ ds) \<le> f" "length (bs @ cs @ ds) \<le> k" for f k rest odata arr ret cnt
  proof -
    obtain j where j: "k = Suc j" "length ds \<le> j" using fuel(2) b(1) by (cases k) auto
    have f: "length bs \<le> f" "length cs \<le> f" "length ds \<le> f" using fuel(1) by auto
    obtain r o1 where "calc_ret_len f (bs @ cs @ ds @ rest) (length ss) = Done (r, cs @ ds @ rest, length ss1)"
      "do_parse_result f (bs @ cs @ ds @ rest) odata ss = Done (key, cs @ ds @ rest, o1, ss1)"
      using assms(1) f(1) unfolding wire_ok_def by metis
    moreover obtain r2 o2 where "calc_ret_len f (cs @ ds @ rest) (length ss1) = Done (r2, ds @ rest, length ss2)"
      "do_parse_result f (cs @ ds @ rest) o1 ss1 = Done (v, ds @ rest, o2, ss2)"
      using assms(2) f(2) unfolding wire_ok_def by metis
    moreover obtain n o3 where "calc_hash (calc_ret_len f) j (ds @ rest) (length ss2) (ret + r + r2) (cnt + 1) = Done (n, rest, length ss3)"
      "parse_hash (do_parse_result f) j (ds @ rest) o2 ss2 (arr @ hash_entry key v) =
         Done (BHash ((arr @ hash_entry key v) @ kvs), rest, o3, ss3)"
      using assms(3) j(2) f(3) unfolding hash_ok_def by metis
    ultimately show ?thesis using b ds j(1) by simp
  qed
  then show ?thesis using ds by (simp add: hash_ok_def)
qed

lemma wire_accepted:
  "wire ss bs v ss' \<Longrightarrow> wire_ok ss bs v ss'"
  "wire_array ss bs vs ss' \<Longrightarrow> array_ok ss bs vs ss'"
  "wire_hash ss bs kvs ss' \<Longrightarrow> hash_ok ss bs kvs ss'"
proof (induction rule: wire_wire_array_wire_hash.inducts)
  case (short_str str b ss)
  from wire_ok_scalar [OF scalar_ok_str [OF short_str(1)] short_str(2)] short_str(1) show ?case by simp
next
  case (long_str lb str b ss)
  have "unat b = length lb - 1" using long_str(1,4) by simp
  from wire_ok_scalar [OF scalar_ok_long_str [OF long_str(1-3)] this] long_str(2) show ?case by simp
next
  case (long_rstr lb ss b)
  from wire_ok_scalar [OF scalar_ok_long_rstr [OF long_rstr(1-3)] long_rstr(4)] long_rstr(2) show ?case by simp
next
  case (short_rstr i ss b)
  from wire_ok_scalar [OF scalar_ok_short_rstr [OF short_rstr(1,2)] short_rstr(3)] short_rstr(1) show ?case by simp
next
  case (num lb b ss)
  from wire_ok_scalar [OF scalar_ok_num [OF num(1,2)] num(3)] num(2) show ?case by simp
next
  case (small_num i b ss)
  from wire_ok_scalar [OF scalar_ok_small [OF small_num(1)] small_num(2)] small_num(1) show ?case by simp
next
  case (false b ss)
  from wire_ok_scalar [OF scalar_ok_bool(1) false] show ?case by simp
next
  case (true b ss)
  from wire_ok_scalar [OF scalar_ok_bool(2) true] show ?case by simp
next
  case (data lb b ss)
  from wire_ok_scalar [OF scalar_ok_data [OF data(1)] data(2)] show ?case by simp
next
  case (array ss bs vs ss' b)
  then show ?case by (intro wire_ok_array)
next
  case (hash ss bs kvs ss' b)
  then show ?case by (intro wire_ok_hash)
next
  case (array_end ss)
  have "(\<exists>n. calc_array (calc_ret_len f) k ([RPARAM_END] @ rest) (length ss) ret cnt = Done (n, rest, length ss)) \<and>
     (\<exists>odata'. parse_array (do_parse_result f) k ([RPARAM_END] @ rest) odata ss arr = Done (BArray (arr @ []), rest, odata', ss))"
    if "length [RPARAM_END] \<le> k" for f k rest odata arr ret cnt using that by (cases k) auto
  then show ?case by (simp add: array_ok_def)
next
  case (array_next ss bs v ss1 cs vs ss2)
  then show ?case by (intro array_ok_next)
next
  case (hash_end ss)
  have "(\<exists>n. calc_hash (calc_ret_len f) k ([RPARAM_END] @ rest) (length ss) ret cnt = Done (n, rest, length ss)) \<and>
     (\<exists>odata'. parse_hash (do_parse_result f) k ([RPARAM_END] @ rest) odata ss arr = Done (BHash (arr @ []), rest, odata', ss))"
    if "length [RPARAM_END] \<le> k" for f k rest odata arr ret cnt using that by (cases k) auto
  then show ?case by (simp add: hash_ok_def)
next
  case (hash_next ss bs k ss1 cs v ss2 ds kvs ss3)
  then show ?case by (intro hash_ok_next)
qed

lemma parse_result_wire:
  "(\<exists>n used. parse_result d = Done (v, n, used)) \<longleftrightarrow> (\<exists>bs rest ss. d = bs @ rest \<and> wire [] bs v ss)"
proof
  assume "\<exists>n used. parse_result d = Done (v, n, used)"
  then obtain d' o' ss' where "do_parse_result (parse_fuel d) d 0 [] = Done (v, d', o', ss')"
    by (auto simp: parse_result_def obind_Done)
  from recognisesD [OF do_parse_result_wire this] show "\<exists>bs rest ss. d = bs @ rest \<and> wire [] bs v ss" by blast
next
  assume "\<exists>bs rest ss. d = bs @ rest \<and> wire [] bs v ss"
  then obtain bs rest ss where d: "d = bs @ rest" and "wire [] bs v ss" by blast
  then have "wire_ok [] bs v ss" by (intro wire_accepted)
  moreover have "length bs \<le> parse_fuel d" using d by (simp add: parse_fuel_def)
  ultimately obtain n o' where "calc_ret_len (parse_fuel d) d (length ([] :: binresult list)) = Done (n, rest, length ss)"
    "do_parse_result (parse_fuel d) d 0 [] = Done (v, rest, o', ss)"
    unfolding wire_ok_def d by blast
  then show "\<exists>n used. parse_result d = Done (v, n, used)" by (auto simp: parse_result_def obind_Done)
qed

subsection \<open>Reading fields of a result\<close>

abbreviation "PARAM_STR \<equiv> (0 :: nat)"
abbreviation "PARAM_NUM \<equiv> (1 :: nat)"
abbreviation "PARAM_BOOL \<equiv> (2 :: nat)"
abbreviation "PARAM_ARRAY \<equiv> (3 :: nat)"
abbreviation "PARAM_HASH \<equiv> (4 :: nat)"
abbreviation "PARAM_DATA \<equiv> (5 :: nat)"

fun result_type :: "binresult \<Rightarrow> nat" where
  "result_type (BStr s) = PARAM_STR"
| "result_type (BNum n) = PARAM_NUM"
| "result_type (BBool b) = PARAM_BOOL"
| "result_type (BArray a) = PARAM_ARRAY"
| "result_type (BHash h) = PARAM_HASH"
| "result_type (BData n) = PARAM_DATA"

definition empty_types :: "binresult list" where
  "empty_types = [BStr [], BNum 0, BBool False, BArray [], BHash [], BData 0]"

text \<open>Keys are compared with \<open>strcmp\<close>, so only up to the first zero byte.\<close>

definition c_str :: "byte list \<Rightarrow> byte list" where
  "c_str s = takeWhile (\<lambda>b. b \<noteq> 0) s"

fun hash_lookup :: "(byte list \<times> binresult) list \<Rightarrow> byte list \<Rightarrow> binresult option" where
  "hash_lookup [] name = None"
| "hash_lookup ((k, v) # kvs) name = (if c_str k = name then Some v else hash_lookup kvs name)"

definition psync_do_check_result :: "binresult option \<Rightarrow> byte list \<Rightarrow> nat \<Rightarrow> binresult option" where
  "psync_do_check_result res name type =
     (case res of
        Some (BHash kvs) \<Rightarrow>
          (case hash_lookup kvs name of
             Some v \<Rightarrow> (if result_type v = type then Some v else None)
           | None \<Rightarrow> None)
      | _ \<Rightarrow> None)"

definition psync_do_find_result :: "binresult option \<Rightarrow> byte list \<Rightarrow> nat \<Rightarrow> binresult" where
  "psync_do_find_result res name type =
     (case res of
        Some (BHash kvs) \<Rightarrow>
          (case hash_lookup kvs name of
             Some v \<Rightarrow> (if result_type v = type then v else empty_types ! type)
           | None \<Rightarrow> empty_types ! type)
      | _ \<Rightarrow> empty_types ! type)"

lemma empty_types_type: "type < 6 \<Longrightarrow> result_type (empty_types ! type) = type"
  by (auto simp: empty_types_def less_Suc_eq numeral_eq_Suc)

subsection \<open>The asynchronous reader\<close>

text \<open>
  The socket is what it delivers from now on: chunks of bytes, moments where a read would block,
  and the end of the connection. A read of \<open>n\<close> bytes returns at most \<open>n\<close> bytes of the next chunk.
  In the reader \<open>rdata\<close> is \<open>data[0..bytesread)\<close> and \<open>Reject\<close> is the null result.
\<close>

datatype sock_event = Chunk "byte list" | Pause | Eof

datatype read_ret = WouldBlock | SockError | Bytes "byte list"

fun psync_socket_read_noblock :: "sock_event list \<Rightarrow> nat \<Rightarrow> read_ret \<times> sock_event list" where
  "psync_socket_read_noblock [] n = (WouldBlock, [])"
| "psync_socket_read_noblock (Pause # c) n = (WouldBlock, c)"
| "psync_socket_read_noblock (Eof # c) n = (SockError, Eof # c)"
| "psync_socket_read_noblock (Chunk bs # c) n =
     (if length bs \<le> n then (Bytes bs, c) else (Bytes (take n bs), Chunk (drop n bs) # c))"

type_synonym api_result = "(binresult \<times> nat \<times> nat) outcome"

record async_result_reader =
  rresult :: api_result
  rstate :: nat
  bytestoread :: nat
  respsize :: nat
  rdata :: "byte list"

datatype async_status = ASYNC_RES_NEEDMORE | ASYNC_RES_READY

definition async_result_reader_init :: "async_result_reader \<Rightarrow> async_result_reader" where
  "async_result_reader_init r = r\<lparr>rstate := 0, bytestoread := 4, rdata := []\<rparr>"

text \<open>The fuel bounds \<open>goto again\<close>, which is taken at most once per call.\<close>

fun get_result_async_from ::
  "nat \<Rightarrow> sock_event list \<Rightarrow> async_result_reader \<Rightarrow> (async_status \<times> async_result_reader \<times> sock_event list) option" where
  "get_result_async_from 0 c r = None"
| "get_result_async_from (Suc n) c r =
     (case psync_socket_read_noblock c (bytestoread r - length (rdata r)) of
        (WouldBlock, c') \<Rightarrow> Some (ASYNC_RES_NEEDMORE, r, c')
      | (SockError, c') \<Rightarrow> Some (ASYNC_RES_READY, (async_result_reader_init r)\<lparr>rresult := Reject\<rparr>, c')
      | (Bytes bs, c') \<Rightarrow>
          (if bs = [] then Some (ASYNC_RES_READY, (async_result_reader_init r)\<lparr>rresult := Reject\<rparr>, c')
           else
             (let r' = r\<lparr>rdata := rdata r @ bs\<rparr> in
              if length (rdata r') = bytestoread r' then
                (if rstate r' = 0 then
                   (let size = le_val (rdata r') in
                    get_result_async_from n c' (r'\<lparr>respsize := size, rstate := 1, bytestoread := size, rdata := []\<rparr>))
                 else Some (ASYNC_RES_READY, (async_result_reader_init r')\<lparr>rresult := parse_result (rdata r')\<rparr>, c'))
              else Some (ASYNC_RES_NEEDMORE, r', c'))))"

definition get_result_async ::
  "sock_event list \<Rightarrow> async_result_reader \<Rightarrow> (async_status \<times> async_result_reader \<times> sock_event list) option" where
  "get_result_async c r = get_result_async_from 2 c r"

text \<open>A caller that keeps calling while more data is needed.\<close>

fun poll_result :: "nat \<Rightarrow> sock_event list \<Rightarrow> async_result_reader \<Rightarrow> (async_result_reader \<times> sock_event list) option" where
  "poll_result 0 c r = None"
| "poll_result (Suc n) c r =
     (case get_result_async c r of
        Some (ASYNC_RES_READY, r', c') \<Rightarrow> Some (r', c')
      | Some (ASYNC_RES_NEEDMORE, r', c') \<Rightarrow> poll_result n c' r'
      | None \<Rightarrow> None)"

fun payload :: "sock_event list \<Rightarrow> byte list" where
  "payload [] = []"
| "payload (Chunk bs # c) = bs @ payload c"
| "payload (Pause # c) = payload c"
| "payload (Eof # c) = []"

fun alive :: "sock_event list \<Rightarrow> bool" where
  "alive [] = True"
| "alive (Chunk bs # c) = (bs \<noteq> [] \<and> alive c)"
| "alive (Pause # c) = alive c"
| "alive (Eof # c) = False"

text \<open>The two states a reader is in while the response \<open>body\<close> arrives.\<close>

definition in_header :: "byte list \<Rightarrow> byte list \<Rightarrow> sock_event list \<Rightarrow> async_result_reader \<Rightarrow> bool" where
  "in_header body rest c r \<longleftrightarrow> alive c \<and> rstate r = 0 \<and> bytestoread r = 4 \<and> length (rdata r) < 4 \<and>
     rdata r @ payload c = le_bytes 4 (length body) @ body @ rest"

definition in_body :: "byte list \<Rightarrow> byte list \<Rightarrow> sock_event list \<Rightarrow> async_result_reader \<Rightarrow> bool" where
  "in_body body rest c r \<longleftrightarrow> alive c \<and> rstate r = 1 \<and> bytestoread r = length body \<and> length (rdata r) < length body \<and>
     rdata r @ payload c = body @ rest"

definition finished :: "byte list \<Rightarrow> byte list \<Rightarrow> async_result_reader \<Rightarrow> sock_event list \<Rightarrow> bool" where
  "finished body rest r c \<longleftrightarrow> rresult r = parse_result body \<and> rstate r = 0 \<and> bytestoread r = 4 \<and> rdata r = [] \<and>
     alive c \<and> payload c = rest"

lemma body_step:
  assumes "in_body body rest c r"
  shows "(\<exists>r' c'. get_result_async_from (Suc n) c r = Some (ASYNC_RES_READY, r', c') \<and> finished body rest r' c') \<or>
    (\<exists>r' c'. get_result_async_from (Suc n) c r = Some (ASYNC_RES_NEEDMORE, r', c') \<and> in_body body rest c' r' \<and> length c' < length c)"
proof (cases c rule: payload.cases)
  case (2 bs c1)
  let ?n = "length body - length (rdata r)"
  have r: "rdata r @ bs @ payload c1 = body @ rest" "bs \<noteq> []" "length (rdata r) < length body" "alive c1"
    using assms 2 by (auto simp: in_body_def)
  show ?thesis
  proof (cases "length bs < ?n")
    case True
    then show ?thesis using assms 2 r by (auto simp: in_body_def Let_def)
  next
    case False
    from r(1) have "take (length body) (rdata r @ bs @ payload c1) = body" "drop (length body) (rdata r @ bs @ payload c1) = rest"
      by simp_all
    then have split: "rdata r @ take ?n bs = body" "drop ?n bs @ payload c1 = rest" using False r(3) by simp_all
    have "psync_socket_read_noblock c ?n = (Bytes (take ?n bs), if length bs = ?n then c1 else Chunk (drop ?n bs) # c1)"
      using 2 False by auto
    then show ?thesis using False assms r split
      by (auto simp: in_body_def finished_def Let_def async_result_reader_init_def)
  qed
qed (use assms in \<open>auto simp: in_body_def\<close>)

lemma header_step:
  assumes "in_header body rest c r" and "body \<noteq> []" and "length body < 256 ^ 4"
  shows "(\<exists>r' c'. get_result_async c r = Some (ASYNC_RES_READY, r', c') \<and> finished body rest r' c') \<or>
    (\<exists>r' c'. get_result_async c r = Some (ASYNC_RES_NEEDMORE, r', c') \<and> (in_header body rest c' r' \<or> in_body body rest c' r') \<and>
       length c' < length c)"
proof (cases c rule: payload.cases)
  case (2 bs c1)
  let ?n = "4 - length (rdata r)"
  have r: "rdata r @ bs @ payload c1 = le_bytes 4 (length body) @ body @ rest" "bs \<noteq> []" "length (rdata r) < 4" "alive c1"
    using assms(1) 2 by (auto simp: in_header_def)
  show ?thesis
  proof (cases "length bs < ?n")
    case True
    then show ?thesis using assms(1) 2 r unfolding get_result_async_def numeral_2_eq_2
      by (auto simp: in_header_def Let_def)
  next
    case False
    define c' where "c' = (if length bs = ?n then c1 else Chunk (drop ?n bs) # c1)"
    define r' where "r' = r\<lparr>rdata := rdata r @ take ?n bs, respsize := length body, rstate := 1, bytestoread := length body, rdata := []\<rparr>"
    from r(1) have "take 4 (rdata r @ bs @ payload c1) = le_bytes 4 (length body)" "drop 4 (rdata r @ bs @ payload c1) = body @ rest"
      by simp_all
    then have split: "rdata r @ take ?n bs = le_bytes 4 (length body)" "drop ?n bs @ payload c1 = body @ rest"
      using False r(3) by simp_all
    have "psync_socket_read_noblock c ?n = (Bytes (take ?n bs), c')" using 2 False by (auto simp: c'_def)
    then have "get_result_async c r = get_result_async_from (Suc 0) c' r'"
      using assms r False split(1) unfolding get_result_async_def numeral_2_eq_2
      by (simp add: in_header_def Let_def r'_def le_val_le_bytes del: psync_socket_read_noblock.simps)
    moreover have "in_body body rest c' r'"
      using assms(2) r False split(2) by (auto simp: in_body_def c'_def r'_def)
    moreover have "length c' \<le> length c" using 2 by (simp add: c'_def)
    ultimately show ?thesis using body_step [of body rest c' r' 0] by force
  qed
qed (use assms in \<open>auto simp: in_header_def get_result_async_def numeral_2_eq_2\<close>)

lemma poll_result_correct:
  assumes "in_header body rest c r \<or> in_body body rest c r" and "body \<noteq> []" and "length body < 256 ^ 4" and "length c < n"
  shows "\<exists>r' c'. poll_result n c r = Some (r', c') \<and> finished body rest r' c'"
  using assms(1,4)
proof (induction n arbitrary: c r)
  case (Suc n)
  have "(\<exists>r' c'. get_result_async c r = Some (ASYNC_RES_READY, r', c') \<and> finished body rest r' c') \<or>
    (\<exists>r' c'. get_result_async c r = Some (ASYNC_RES_NEEDMORE, r', c') \<and> (in_header body rest c' r' \<or> in_body body rest c' r') \<and>
       length c' < length c)"
    using Suc.prems(1) header_step [OF _ assms(2,3)] body_step [of body rest c r 1]
    unfolding get_result_async_def numeral_2_eq_2 One_nat_def by blast
  then show ?case using Suc.IH Suc.prems(2) by fastforce
qed simp

subsection \<open>Properties\<close>

lemma calc_never_bad_id: "calc_ret_len f d s \<noteq> BadId"
proof -
  have scalar: "calc_scalar t e s \<noteq> BadId" for t e s by (auto simp: scalar_defs obind_BadId)
  have arr: "\<forall>e s. elem e s \<noteq> BadId \<Longrightarrow> calc_array elem k d s ret cnt \<noteq> BadId" for elem k d s ret cnt
    by (induction elem k d s ret cnt rule: calc_array.induct) (auto simp: obind_BadId)
  have hash: "\<forall>e s. elem e s \<noteq> BadId \<Longrightarrow> calc_hash elem k d s ret cnt \<noteq> BadId" for elem k d s ret cnt
    by (induction elem k d s ret cnt rule: calc_hash.induct) (auto simp: obind_BadId)
  show ?thesis
  proof (induction f arbitrary: d s)
    case (Suc f)
    then show ?case using scalar arr [of "calc_ret_len f"] hash [of "calc_ret_len f"] by (cases d) auto
  qed simp
qed

lemma parse_result_cases:
  "(\<exists>n d' s' v used ss. calc_ret_len (parse_fuel d) d 0 = Done (n, d', s') \<and> parse_result d = Done (v, n, used) \<and>
      do_parse_result (parse_fuel d) d 0 [] = Done (v, d', used, ss) \<and> used \<le> n \<and> length ss = s') \<or>
   parse_result d = Reject \<or> (parse_result d = Overread \<and> calc_ret_len (parse_fuel d) d 0 = Overread)"
proof (cases "calc_ret_len (parse_fuel d) d 0")
  case (Done x)
  obtain n d' s' where x: "x = (n, d', s')" by (cases x)
  from followsD [OF do_parse_result_follows Done [unfolded x], of "[]" 0] Done x show ?thesis
    by (auto simp: parse_result_def)
next
  case NoFuel
  then show ?thesis using calc_ret_len_fuel [of d "parse_fuel d" 0] by (simp add: parse_fuel_def)
next
  case BadId
  then show ?thesis using calc_never_bad_id [of "parse_fuel d" d 0] by simp
qed (simp_all add: parse_result_def)

text \<open>
  C10. Memory safety of \<open>parse_result\<close>, up to a first read outside the input. On any input it ends (with a tree or with null)
  or comes to such a read. That can only be the byte right behind an input whose last byte is an array or hash opcode, in the
  first pass, before anything is allocated or written; on \<open>[17]\<close> it happens. What the code does after that read depends on the byte there and is not
  claimed: with 255, \<open>datalen\<close> wraps and it parses on behind the input. When the first pass accepts, the second pass reads only bytes that pass
  looked at, uses only string indexes already defined, writes at most the \<open>retlen\<close> bytes allocated (at most 24 per
  input byte, so the sizes fit their types) and fills exactly the \<open>strcnt\<close> string slots.
\<close>

theorem api_parse_safe:
  "(parse_result d = Reject \<or> (\<exists>v n used. parse_result d = Done (v, n, used)) \<or>
     parse_result d = Overread \<and> ends_open d \<and> calc_ret_len (parse_fuel d) d 0 = Overread) \<and>
   (\<forall>n d' s'. calc_ret_len (parse_fuel d) d 0 = Done (n, d', s') \<longrightarrow> n \<le> 24 * length d \<and>
      (\<exists>v used ss. do_parse_result (parse_fuel d) d 0 [] = Done (v, d', used, ss) \<and> used \<le> n \<and> length ss = s')) \<and>
   parse_result [17] = Overread"
proof -
  have "ends_open d" if "calc_ret_len (parse_fuel d) d 0 = Overread"
    using that calc_ret_len_overread [of "parse_fuel d"] unfolding overreads_at_end_def by blast
  moreover have "n \<le> 24 * length d" if "calc_ret_len (parse_fuel d) d 0 = Done (n, d', s')" for n d' s'
    using consumesD [OF calc_ret_len_consumes that] by auto
  moreover have "\<exists>v used ss. do_parse_result (parse_fuel d) d 0 [] = Done (v, d', used, ss) \<and> used \<le> n \<and> length ss = s'"
    if "calc_ret_len (parse_fuel d) d 0 = Done (n, d', s')" for n d' s'
    using followsD [OF do_parse_result_follows that, of "[]" 0] by auto
  moreover have "parse_result [17] = Overread" by code_simp
  ultimately show ?thesis using parse_result_cases [of d] by auto
qed

lemma api_parse_safe_witness:
  "\<exists>v used ss. do_parse_result (parse_fuel [17, 200, 8, 7, 255]) [17, 200, 8, 7, 255] 0 [] = Done (v, [], used, ss) \<and>
    used \<le> 48 \<and> length ss = 0"
proof -
  have "calc_ret_len (parse_fuel [17, 200, 8, 7, 255]) [17, 200, 8, 7, 255] 0 = Done (48, [], 0)" by code_simp
  then show ?thesis using api_parse_safe [of "[17, 200, 8, 7, 255]"] by blast
qed


text \<open>
  C32. \<open>get_result_async\<close> started afresh and called until it is ready delivers the parse of the
  response body, whatever chunks the four length bytes and the body arrive in and however often a
  read would block; it leaves the bytes after the response unread and itself ready for the next one.
\<close>

theorem api_async_chunking:
  assumes "alive c" and "payload c = le_bytes 4 (length body) @ body @ rest"
    and "body \<noteq> []" and "length body < 2 ^ 32" and "length c < n"
  shows "\<exists>r' c'. poll_result n c (async_result_reader_init r) = Some (r', c') \<and>
    rresult r' = parse_result body \<and> r' = async_result_reader_init r' \<and> payload c' = rest"
proof -
  have "in_header body rest c (async_result_reader_init r)"
    using assms by (simp add: in_header_def async_result_reader_init_def)
  then show ?thesis using poll_result_correct [of body rest c "async_result_reader_init r" n] assms
    by (auto simp: finished_def async_result_reader_init_def)
qed

definition blank_reader :: async_result_reader where
  "blank_reader = \<lparr>rresult = Reject, rstate = 0, bytestoread = 0, respsize = 0, rdata = []\<rparr>"

lemma api_async_chunking_witness:
  "\<exists>r' c'. poll_result 6 [Chunk [1, 0], Pause, Chunk [0], Chunk [0, 200], Chunk [9]] (async_result_reader_init blank_reader) =
      Some (r', c') \<and> rresult r' = parse_result [200] \<and> r' = async_result_reader_init r' \<and> payload c' = [9]"
proof -
  have "le_bytes 4 (length [200 :: byte]) = [1, 0, 0, 0]" by code_simp
  then show ?thesis
    using api_async_chunking [of "[Chunk [1, 0], Pause, Chunk [0], Chunk [0, 200], Chunk [9]]" "[200]" "[9]" 6 blank_reader]
    by simp
qed

text \<open>
  C39. \<open>psync_find_result\<close> always returns a result of the requested type (so the union member the
  caller reads is the one that was written): the field when \<open>psync_check_result\<close> finds it, else
  the empty value of the type.
\<close>

theorem api_find_typed:
  assumes "type < 6"
  shows "result_type (psync_do_find_result res name type) = type \<and>
    psync_do_find_result res name type =
      (case psync_do_check_result res name type of Some v \<Rightarrow> v | None \<Rightarrow> empty_types ! type)"
  using empty_types_type [OF assms]
  by (auto simp: psync_do_find_result_def psync_do_check_result_def split: option.splits binresult.splits)

lemma api_find_typed_witness:
  "result_type (psync_do_find_result (Some (BHash [([97], BBool True)])) [97] PARAM_NUM) = PARAM_NUM"
  by (rule api_find_typed [THEN conjunct1]) simp

end
