(* ===== verification/Papirequest.thy ===== *)
theory Papirequest
  imports Prelude
begin

section \<open>Requests of the binary API (papi.h, papi.c)\<close>

text \<open>
  \<open>do_prepare_command\<close> writes a request into one buffer whose size it computes first. The size of
  a parameter is computed in 32-bit arithmetic (a \<open>uint16_t\<close> and a \<open>uint32_t\<close> are added), so it is
  kept as a 32-bit word here; the sum is a \<open>size_t\<close>. \<open>paramname\<close> and \<open>str\<close> are the bytes behind the
  pointers. The result is the buffer as written and its allocated size.
\<close>

unbundle bit_operations_syntax

record binparam =
  paramtype :: u16
  paramnamelen :: u16
  opts :: u32
  paramname :: "byte list"
  num :: u64
  str :: "byte list"

definition P_LSTR :: "byte list \<Rightarrow> byte list \<Rightarrow> binparam" where
  "P_LSTR name val = \<lparr>paramtype = 0, paramnamelen = of_nat (length name), opts = of_nat (length val),
     paramname = name, num = 0, str = val\<rparr>"

definition P_NUM :: "byte list \<Rightarrow> u64 \<Rightarrow> binparam" where
  "P_NUM name val = \<lparr>paramtype = 1, paramnamelen = of_nat (length name), opts = 0, paramname = name, num = val, str = []\<rparr>"

definition P_BOOL :: "byte list \<Rightarrow> bool \<Rightarrow> binparam" where
  "P_BOOL name val = \<lparr>paramtype = 2, paramnamelen = of_nat (length name), opts = 0, paramname = name,
     num = (if val then 1 else 0), str = []\<rparr>"

definition param_size :: "binparam \<Rightarrow> nat" where
  "param_size p =
     (if paramtype p = 0 then unat (ucast (paramnamelen p) + opts p + 5)
      else if paramtype p = 1 then unat (paramnamelen p) + 1 + 8
      else if paramtype p = 2 then unat (paramnamelen p) + 2
      else 0)"

definition request_size :: "nat \<Rightarrow> binparam list \<Rightarrow> int \<Rightarrow> nat" where
  "request_size cmdlen params datalen =
     cmdlen + 2 + (if datalen \<noteq> -1 then 8 else 0) + sum_list (map param_size params)"

definition param_bytes :: "binparam \<Rightarrow> byte list" where
  "param_bytes p =
     of_nat (unat (paramtype p) * 64 + unat (paramnamelen p)) # take (unat (paramnamelen p)) (paramname p) @
     (if paramtype p = 0 then le_bytes 4 (unat (opts p)) @ take (unat (opts p)) (str p)
      else if paramtype p = 1 then le_bytes 8 (unat (num p))
      else if paramtype p = 2 then [of_nat (unat (num p AND 1))]
      else [])"

definition do_prepare_command ::
  "byte list \<Rightarrow> nat \<Rightarrow> binparam list \<Rightarrow> nat \<Rightarrow> int \<Rightarrow> nat \<Rightarrow> (byte list \<times> nat) option" where
  "do_prepare_command command cmdlen params paramcnt datalen additionalalloc =
     (let params = take paramcnt params; plen = request_size cmdlen params datalen in
      if plen > 0xffff then None
      else Some (le_bytes 2 plen @
                 (if datalen \<noteq> -1 then (of_nat cmdlen OR 0x80) # le_bytes 8 (nat (datalen mod 2 ^ 64))
                  else [of_nat cmdlen]) @
                 take cmdlen command @ of_nat paramcnt # concat (map param_bytes params),
                 plen + 2 + additionalalloc))"

subsection \<open>Choosing the API host\<close>

datatype api_host = PSYNC_API_HOST | PSYNC_API_AHOST

definition psync_api_connect :: "u32 \<Rightarrow> api_host" where
  "psync_api_connect connfailures = (if connfailures mod 5 = 4 then PSYNC_API_AHOST else PSYNC_API_HOST)"

definition psync_api_conn_fail_inc :: "u32 \<Rightarrow> u32" where
  "psync_api_conn_fail_inc connfailures = connfailures + 1"

definition psync_api_conn_fail_reset :: "u32 \<Rightarrow> u32" where
  "psync_api_conn_fail_reset connfailures = (if connfailures mod 5 = 4 then 4 else 0)"

lemma conn_fail_reset_keeps_host:
  "psync_api_connect (psync_api_conn_fail_reset n) = psync_api_connect n"
  by (simp add: psync_api_connect_def psync_api_conn_fail_reset_def)

subsection \<open>What the bytes mean\<close>

text \<open>A parameter as the receiver sees it, and the receiver's reading of a request.\<close>

datatype param = StrParam "byte list" "byte list" | NumParam "byte list" u64 | BoolParam "byte list" bool

fun param_of :: "binparam \<Rightarrow> param" where
  "param_of p =
     (if paramtype p = 0 then StrParam (paramname p) (str p)
      else if paramtype p = 1 then NumParam (paramname p) (num p)
      else BoolParam (paramname p) (num p AND 1 = 1))"

text \<open>What the macros \<open>P_STR\<close>, \<open>P_LSTR\<close>, \<open>P_NUM\<close> and \<open>P_BOOL\<close> build from short enough arguments.\<close>

definition wf_param :: "binparam \<Rightarrow> bool" where
  "wf_param p \<longleftrightarrow> paramtype p \<in> {0, 1, 2} \<and> unat (paramnamelen p) = length (paramname p) \<and> length (paramname p) < 64 \<and>
     (paramtype p = 0 \<longrightarrow> unat (opts p) = length (str p) \<and> length (str p) + 69 \<le> 2 ^ 32)"

definition grab :: "nat \<Rightarrow> byte list \<Rightarrow> (byte list \<times> byte list) option" where
  "grab n d = (if length d < n then None else Some (take n d, drop n d))"

fun read_param :: "byte list \<Rightarrow> (param \<times> byte list) option" where
  "read_param [] = None"
| "read_param (h # d) =
     Option.bind (grab (unat h mod 64) d) (\<lambda>(name, d).
       if unat h div 64 = 0 then
         Option.bind (grab 4 d) (\<lambda>(l, d). Option.bind (grab (le_val l) d) (\<lambda>(s, d). Some (StrParam name s, d)))
       else if unat h div 64 = 1 then
         Option.bind (grab 8 d) (\<lambda>(l, d). Some (NumParam name (of_nat (le_val l)), d))
       else if unat h div 64 = 2 then
         Option.bind (grab 1 d) (\<lambda>(l, d). Some (BoolParam name (le_val l = 1), d))
       else None)"

fun read_params :: "nat \<Rightarrow> byte list \<Rightarrow> (param list \<times> byte list) option" where
  "read_params 0 d = Some ([], d)"
| "read_params (Suc n) d =
     Option.bind (read_param d) (\<lambda>(p, d). Option.bind (read_params n d) (\<lambda>(ps, d). Some (p # ps, d)))"

definition read_body :: "byte list \<Rightarrow> (byte list \<times> u64 option \<times> param list) option" where
  "read_body d =
     Option.bind (grab 1 d) (\<lambda>(h, d).
     Option.bind (grab (if le_val h < 128 then 0 else 8) d) (\<lambda>(dl, d).
     Option.bind (grab (le_val h mod 128) d) (\<lambda>(cmd, d).
     Option.bind (grab 1 d) (\<lambda>(n, d).
     Option.bind (read_params (le_val n) d) (\<lambda>(ps, d).
       if d = [] then Some (cmd, if le_val h < 128 then None else Some (of_nat (le_val dl)), ps) else None)))))"

definition read_request :: "byte list \<Rightarrow> ((byte list \<times> u64 option \<times> param list) \<times> byte list) option" where
  "read_request d =
     Option.bind (grab 2 d) (\<lambda>(l, d).
     Option.bind (grab (le_val l) d) (\<lambda>(d, rest).
     Option.bind (read_body d) (\<lambda>body. Some (body, rest))))"

lemma grab_append [simp]: "length xs = n \<Longrightarrow> grab n (xs @ ys) = Some (xs, ys)"
  by (simp add: grab_def)

lemma grab_0 [simp]: "grab 0 d = Some ([], d)"
  by (simp add: grab_def)

lemma grab_1 [simp]: "grab (Suc 0) (x # d) = Some ([x], d)"
  by (simp add: grab_def)

lemma unat_u32_sum:
  assumes "unat a + unat b + 5 < 2 ^ 32"
  shows "unat (ucast (a :: u16) + (b :: u32) + 5) = unat a + unat b + 5"
proof -
  have a: "unat a < 2 ^ 16" using unsigned_less [of a] by simp
  have "unat (ucast a :: u32) = unat a"
    using a by (simp add: unsigned_ucast_eq take_bit_nat_eq_self)
  then show ?thesis using assms by (simp add: unat_word_ariths)
qed

lemma length_param_bytes: "wf_param p \<Longrightarrow> length (param_bytes p) = param_size p"
  by (auto simp: wf_param_def param_bytes_def param_size_def unat_u32_sum)

lemma param_header:
  assumes "wf_param p"
  shows "unat (of_nat (unat (paramtype p) * 64 + unat (paramnamelen p)) :: byte) =
    unat (paramtype p) * 64 + length (paramname p)"
  unfolding unat_of_nat_byte using assms by (auto simp: wf_param_def)

lemma read_param_bytes:
  assumes "wf_param p"
  shows "read_param (param_bytes p @ d) = Some (param_of p, d)"
proof -
  have len: "unat (paramnamelen p) = length (paramname p)" "length (paramname p) < 64" using assms by (simp_all add: wf_param_def)
  have h: "(unat (paramtype p) * 64 + length (paramname p)) mod 64 = length (paramname p)"
    "(unat (paramtype p) * 64 + length (paramname p)) div 64 = unat (paramtype p)" using len by simp_all
  consider (str) "paramtype p = 0" | (num) "paramtype p = 1" | (bool) "paramtype p = 2" using assms by (auto simp: wf_param_def)
  then show ?thesis
  proof cases
    case str
    then have "unat (opts p) = length (str p)" using assms by (simp add: wf_param_def)
    moreover have "unat (opts p) < 256 ^ 4" using unsigned_less [of "opts p"] by simp
    ultimately show ?thesis using str len h param_header [OF assms] by (simp add: param_bytes_def le_val_le_bytes)
  next
    case num
    have "unat (binparam.num p) < 256 ^ 8" using unsigned_less [of "binparam.num p"] by simp
    then show ?thesis using num len h param_header [OF assms] by (simp add: param_bytes_def le_val_le_bytes)
  next
    case bool
    have "unat (binparam.num p AND 1) = 0 \<or> unat (binparam.num p AND 1) = 1" by (simp add: and_one_eq unat_mod) presburger
    then have "(unat (of_nat (unat (binparam.num p AND 1)) :: byte) = 1) = (binparam.num p AND 1 = 1)"
      unfolding unat_of_nat_byte word_unat_eq_iff [of _ 1] by auto
    then show ?thesis using bool len h param_header [OF assms] by (simp add: param_bytes_def)
  qed
qed

lemma read_params_bytes:
  "\<forall>p \<in> set ps. wf_param p \<Longrightarrow> read_params (length ps) (concat (map param_bytes ps) @ d) = Some (map param_of ps, d)"
  by (induction ps) (simp_all add: read_param_bytes del: read_param.simps param_of.simps)

lemma concat_param_bytes: "\<forall>p \<in> set ps. wf_param p \<Longrightarrow> length (concat (map param_bytes ps)) = sum_list (map param_size ps)"
  by (induction ps) (simp_all add: length_param_bytes)

definition wf_request :: "byte list \<Rightarrow> binparam list \<Rightarrow> int \<Rightarrow> bool" where
  "wf_request command params datalen \<longleftrightarrow> length command < 128 \<and> length params < 256 \<and> (\<forall>p \<in> set params. wf_param p) \<and>
     -1 \<le> datalen \<and> datalen < 2 ^ 63"

text \<open>The bytes after the length field.\<close>

definition request_body :: "byte list \<Rightarrow> binparam list \<Rightarrow> int \<Rightarrow> byte list" where
  "request_body command params datalen =
     (if datalen \<noteq> -1 then (of_nat (length command) OR 0x80) # le_bytes 8 (nat (datalen mod 2 ^ 64))
      else [of_nat (length command)]) @ command @ of_nat (length params) # concat (map param_bytes params)"

lemma prepare_command_body:
  "do_prepare_command command (length command) params (length params) datalen extra =
     (let plen = request_size (length command) params datalen in
      if plen > 0xffff then None else Some (le_bytes 2 plen @ request_body command params datalen, plen + 2 + extra))"
  by (simp only: do_prepare_command_def request_body_def take_all_iff [THEN iffD2] order_refl append_assoc Let_def)

lemma length_request_body:
  "wf_request command params datalen \<Longrightarrow>
   length (request_body command params datalen) = request_size (length command) params datalen"
  by (simp add: request_body_def request_size_def wf_request_def concat_param_bytes)

lemma command_header:
  assumes "n < 128"
  shows "unat (of_nat n OR 0x80 :: byte) = n + 128"
proof -
  have "\<forall>n \<in> set [0..<128]. unat (of_nat n OR 0x80 :: byte) = n + 128" by code_simp
  then show ?thesis using assms by simp
qed

lemma read_body_request:
  assumes "wf_request command params datalen"
  shows "read_body (request_body command params datalen) =
    Some (command, if datalen = -1 then None else Some (of_nat (nat datalen)), map param_of params)"
proof -
  have wf: "length command < 128" "length params < 256" "\<forall>p \<in> set params. wf_param p" "-1 \<le> datalen" "datalen < 2 ^ 63"
    using assms(1) by (simp_all add: wf_request_def)
  have ps: "read_params (length params) (concat (map param_bytes params)) = Some (map param_of params, [])"
    using read_params_bytes [OF wf(3), of "[]"] by simp
  have cnt: "le_val [of_nat (length params)] = length params" using wf(2) by (simp add: unat_of_nat_byte)
  show ?thesis
  proof (cases "datalen = -1")
    case True
    have "le_val [of_nat (length command)] = length command" using wf(1) by (simp add: unat_of_nat_byte)
    then show ?thesis using True wf(1) ps cnt
      by (simp add: read_body_def request_body_def del: param_of.simps)
  next
    case False
    have "le_val [of_nat (length command) OR 0x80] = length command + 128" using command_header [OF wf(1)] by simp
    moreover have "le_val (le_bytes 8 (nat (datalen mod 2 ^ 64))) = nat datalen"
      using False wf(4,5) by (simp add: le_val_le_bytes)
    ultimately show ?thesis using False wf(1) ps cnt
      by (simp add: read_body_def request_body_def del: param_of.simps)
  qed
qed

subsection \<open>Properties\<close>

text \<open>
  C29. \<open>do_prepare_command\<close> on a command shorter than 128 bytes with at most 255 well-formed
  parameters fills exactly the buffer it allocates (less the caller's extra space), returns null
  just when the size does not fit the two length bytes, and what it writes is read back as the same
  command, data length and parameters, with nothing left over: no two requests share their bytes.
\<close>

theorem request_roundtrip:
  assumes "wf_request command params datalen"
  shows "case do_prepare_command command (length command) params (length params) datalen extra of
      None \<Rightarrow> request_size (length command) params datalen > 0xffff
    | Some (bytes, alloc) \<Rightarrow> length bytes + extra = alloc \<and>
        read_request bytes = Some ((command, if datalen = -1 then None else Some (of_nat (nat datalen)), map param_of params), [])"
proof (cases "request_size (length command) params datalen > 0xffff")
  case True
  then show ?thesis by (simp add: prepare_command_body Let_def)
next
  case False
  let ?n = "request_size (length command) params datalen"
  have "le_val (le_bytes 2 ?n) = length (request_body command params datalen)"
    using False by (simp add: le_val_le_bytes length_request_body [OF assms])
  then have "read_request (le_bytes 2 ?n @ request_body command params datalen) =
      Option.bind (read_body (request_body command params datalen)) (\<lambda>body. Some (body, []))"
    using grab_append [OF refl, of "request_body command params datalen" "[]"] by (simp add: read_request_def)
  then show ?thesis using False read_body_request [OF assms]
    by (simp add: prepare_command_body Let_def length_request_body [OF assms] del: param_of.simps)
qed

lemma request_roundtrip_witness:
  "case do_prepare_command [97] 1 [P_NUM [98] 7, P_BOOL [99] True, P_LSTR [100] [101]] 3 5 0 of
      None \<Rightarrow> False
    | Some (bytes, alloc) \<Rightarrow> length bytes = alloc \<and>
        read_request bytes = Some (([97], Some 5, [NumParam [98] 7, BoolParam [99] True, StrParam [100] [101]]), [])"
proof -
  let ?ps = "[P_NUM [98] 7, P_BOOL [99] True, P_LSTR [100] [101]]"
  have "wf_request [97] ?ps 5"
    by (simp add: wf_request_def wf_param_def P_NUM_def P_BOOL_def P_LSTR_def)
  moreover have "request_size (length [97 :: byte]) ?ps 5 = 31" "length [97 :: byte] = 1" "length ?ps = 3"
    "map param_of ?ps = [NumParam [98] 7, BoolParam [99] True, StrParam [100] [101]]"
    by (simp_all add: request_size_def param_size_def P_NUM_def P_BOOL_def P_LSTR_def)
  ultimately show ?thesis using request_roundtrip [of "[97]" ?ps 5 0]
    by (cases "do_prepare_command [97] 1 ?ps 3 5 0") (simp_all only:, auto)
qed
end
