(* ===== verification/Pcodec.thy ===== *)
theory Pcodec
  imports Prelude
begin

section \<open>Text encodings and string helpers (plibs.h, plibs.c)\<close>

text \<open>
  Strings are byte lists without the terminating zero. The base32 encoder and decoder keep a 32-bit
  shift register of which only the lowest \<open>bits\<close> bits count; the base64 decoder keeps the byte it
  is filling. A null result is \<open>None\<close>.
\<close>

unbundle bit_operations_syntax

definition bytes_of :: "string \<Rightarrow> byte list" where
  "bytes_of s = map of_char s"

subsection \<open>Base 32\<close>

definition base32_table :: "byte list" where
  "base32_table = bytes_of ''ABCDEFGHIJKLMNOPQRSTUVWXYZ234567''"

definition base32_emit :: "u32 \<Rightarrow> nat \<Rightarrow> byte" where
  "base32_emit buff bits = base32_table ! unat (0x1f AND drop_bit bits buff)"

text \<open>The second loop: what is left in the register, padded with zeros to five bits.\<close>

function base32_flush :: "nat \<Rightarrow> u32 \<Rightarrow> byte list" where
  "base32_flush bits buff =
     (if bits = 0 then []
      else if bits < 5 then base32_emit (push_bit (5 - bits) buff) 0 # base32_flush 0 (push_bit (5 - bits) buff)
      else base32_emit buff (bits - 5) # base32_flush (bits - 5) buff)"
  by pat_completeness auto
termination by (relation "measure fst") auto

function base32_encode_loop :: "byte list \<Rightarrow> nat \<Rightarrow> u32 \<Rightarrow> byte list" where
  "base32_encode_loop [] bits buff = base32_flush bits buff"
| "base32_encode_loop (b # str) bits buff =
     (if bits < 5 then
        (let buff' = push_bit 8 buff OR ucast b in
         base32_emit buff' (bits + 8 - 5) # base32_encode_loop str (bits + 8 - 5) buff')
      else base32_emit buff (bits - 5) # base32_encode_loop (b # str) (bits - 5) buff)"
  by pat_completeness auto
termination by (relation "measures [\<lambda>(str, bits, buff). length str, \<lambda>(str, bits, buff). bits]") auto

definition psync_base32_encode :: "byte list \<Rightarrow> byte list" where
  "psync_base32_encode str = base32_encode_loop str 0 0"

declare base32_flush.simps [simp del]

definition base32_value :: "byte \<Rightarrow> byte option" where
  "base32_value ch =
     (if 65 \<le> ch \<and> ch \<le> 90 then Some ((ch AND 0x1f) - 1)
      else if 50 \<le> ch \<and> ch \<le> 55 then Some (ch - (50 - 26))
      else None)"

fun base32_decode_loop :: "byte list \<Rightarrow> nat \<Rightarrow> u32 \<Rightarrow> byte list option" where
  "base32_decode_loop [] bits buff = Some []"
| "base32_decode_loop (ch # str) bits buff =
     (case base32_value ch of
        None \<Rightarrow> None
      | Some v \<Rightarrow>
          (let buff' = push_bit 5 buff + ucast v; bits' = bits + 5 in
           if 8 \<le> bits' then
             map_option ((#) (ucast (drop_bit (bits' - 8) buff'))) (base32_decode_loop str (bits' - 8) buff')
           else base32_decode_loop str bits' buff'))"

definition psync_base32_decode :: "byte list \<Rightarrow> byte list option" where
  "psync_base32_decode str = base32_decode_loop str 0 0"

lemma base32_value_table:
  assumes "i < 32"
  shows "base32_value (base32_table ! i) = Some (of_nat i)"
proof -
  have "\<forall>i \<in> set [0..<32]. base32_value (base32_table ! i) = Some (of_nat i)" by code_simp
  then show ?thesis using assms by simp
qed

lemma and_low5: "0x1f AND w = take_bit 5 (w :: u32)"
proof -
  have "(0x1f :: u32) = mask 5" by (simp add: mask_eq_exp_minus_1)
  then show ?thesis by (simp only: take_bit_eq_mask and.commute)
qed

lemma base32_value_emit: "base32_value (base32_emit buff bits) = Some (ucast (take_bit 5 (drop_bit bits buff)))"
proof -
  have "unat (take_bit 5 (drop_bit bits buff)) < 32"
    using take_bit_nat_less_exp [of 5 "unat (drop_bit bits buff)"] by (simp add: unsigned_take_bit_eq)
  then show ?thesis
    unfolding base32_emit_def and_low5 by (simp add: base32_value_table) 
qed

text \<open>
  Encoder and decoder side by side: of the bits loaded and not yet returned, the decoder holds
  the first \<open>dbits\<close> and the encoder the last \<open>bits\<close>. There are none, or they are the byte \<open>p\<close>.
\<close>

definition split_byte :: "nat \<Rightarrow> u32 \<Rightarrow> nat \<Rightarrow> u32 \<Rightarrow> byte \<Rightarrow> bool" where
  "split_byte bits buff dbits dbuff p \<longleftrightarrow> bits + dbits = 8 \<and>
     (\<forall>i<8. bit p i = (if i < bits then bit buff i else bit dbuff (i - bits)))"

definition dec_step :: "u32 \<Rightarrow> u32 \<Rightarrow> nat \<Rightarrow> u32" where
  "dec_step dbuff buff bits = push_bit 5 dbuff + ucast (ucast (take_bit 5 (drop_bit bits buff)) :: byte)"

lemma bit_dec_step:
  "bit (dec_step dbuff buff bits) i \<longleftrightarrow> i < 32 \<and> (if i < 5 then bit buff (bits + i) else bit dbuff (i - 5))"
proof -
  have "dec_step dbuff buff bits = push_bit 5 dbuff OR ucast (ucast (take_bit 5 (drop_bit bits buff)) :: byte)"
    unfolding dec_step_def
    by (rule disjunctive_add_eq_or) (auto simp: bit_eq_iff bit_simps)
  then show ?thesis by (auto simp: bit_simps bit_imp_le_length dest: bit_imp_le_length)
qed

lemma decode_emit:
  "base32_decode_loop (base32_emit buff bits # str) dbits dbuff =
     (if 8 \<le> dbits + 5 then
        map_option ((#) (ucast (drop_bit (dbits + 5 - 8) (dec_step dbuff buff bits))))
          (base32_decode_loop str (dbits + 5 - 8) (dec_step dbuff buff bits))
      else base32_decode_loop str (dbits + 5) (dec_step dbuff buff bits))"
  by (simp add: base32_value_emit dec_step_def Let_def)

declare base32_decode_loop.simps(2) [simp del]

lemma byte_eqI: "(\<And>i. i < 8 \<Longrightarrow> bit a i = bit b i) \<Longrightarrow> a = (b :: byte)"
  by (rule bit_word_eqI) simp

lemma emit_full:
  assumes "split_byte bits buff dbits dbuff p" and "5 \<le> bits" "bits \<le> 7"
  shows "\<exists>dbuff'. if bits = 5 then base32_decode_loop (base32_emit buff (bits - 5) # str) dbits dbuff =
        map_option ((#) p) (base32_decode_loop str 0 dbuff')
    else base32_decode_loop (base32_emit buff (bits - 5) # str) dbits dbuff = base32_decode_loop str (dbits + 5) dbuff' \<and>
      split_byte (bits - 5) buff (dbits + 5) dbuff' p"
proof -
  let ?d = "dec_step dbuff buff (bits - 5)"
  have sum: "dbits = 8 - bits" and p: "\<And>i. i < 8 \<Longrightarrow> bit p i = (if i < bits then bit buff i else bit dbuff (i - bits))"
    using assms by (auto simp: split_byte_def)
  show ?thesis
  proof (cases "bits = 5")
    case True
    have "ucast ?d = p" by (rule byte_eqI) (use True p in \<open>auto simp: bit_simps bit_dec_step\<close>)
    then show ?thesis using True sum by (auto simp: decode_emit)
  next
    case False
    have "split_byte (bits - 5) buff (dbits + 5) ?d p"
      unfolding split_byte_def using assms False sum p by (auto simp: bit_dec_step)
    then show ?thesis using False sum assms(2,3) by (auto simp: decode_emit)
  qed
qed

lemma flush_roundtrip:
  "(bits = 0 \<longrightarrow> base32_decode_loop (base32_flush bits buff) dbits dbuff = Some []) \<and>
   (split_byte bits buff dbits dbuff p \<and> bits \<le> 7 \<and> dbits \<le> 7 \<longrightarrow>
      base32_decode_loop (base32_flush bits buff) dbits dbuff = Some [p])"
proof (induction bits buff arbitrary: dbits dbuff rule: base32_flush.induct)
  case (1 bits buff)
  consider "bits = 0" | "1 \<le> bits" "bits < 5" | "5 \<le> bits" by linarith
  then show ?case
  proof cases
    case 2
    let ?b = "push_bit (5 - bits) buff"
    have "base32_decode_loop (base32_flush bits buff) dbits dbuff = Some [p]"
      if split: "split_byte bits buff dbits dbuff p" and small: "dbits \<le> 7"
    proof -
      have sum: "dbits = 8 - bits" and p: "\<And>i. i < 8 \<Longrightarrow> bit p i = (if i < bits then bit buff i else bit dbuff (i - bits))"
        using split by (auto simp: split_byte_def)
      have "ucast (drop_bit (dbits + 5 - 8) (dec_step dbuff ?b 0)) = p"
        by (rule byte_eqI) (use 2 sum p in \<open>auto simp: bit_simps bit_dec_step\<close>)
      moreover have "base32_flush bits buff = [base32_emit ?b 0]"
        using 2 by (simp add: base32_flush.simps [of bits] base32_flush.simps [of 0])
      ultimately show ?thesis using 2 sum by (simp add: decode_emit)
    qed
    then show ?thesis using 2 by auto
  next
    case 3
    have "base32_decode_loop (base32_flush bits buff) dbits dbuff = Some [p]"
      if split: "split_byte bits buff dbits dbuff p" and small: "bits \<le> 7" "dbits \<le> 7"
    proof -
      have flush: "base32_flush bits buff = base32_emit buff (bits - 5) # base32_flush (bits - 5) buff"
        using 3 by (simp add: base32_flush.simps [of bits])
      obtain dbuff' where "if bits = 5 then base32_decode_loop (base32_flush bits buff) dbits dbuff =
          map_option ((#) p) (base32_decode_loop (base32_flush (bits - 5) buff) 0 dbuff')
        else base32_decode_loop (base32_flush bits buff) dbits dbuff = base32_decode_loop (base32_flush (bits - 5) buff) (dbits + 5) dbuff' \<and>
          split_byte (bits - 5) buff (dbits + 5) dbuff' p"
        using emit_full [OF split 3 small(1), of "base32_flush (bits - 5) buff"] unfolding flush by blast
      then show ?thesis using "1.IH"(2) 3 small split
        by (cases "bits = 5") (auto simp: split_byte_def base32_flush.simps [of 0])
    qed
    then show ?thesis using 3 by auto
  qed (simp add: base32_flush.simps [of 0] split_byte_def)
qed

lemma encode_roundtrip:
  "(bits = 0 \<and> dbits = 0 \<longrightarrow> base32_decode_loop (base32_encode_loop str bits buff) dbits dbuff = Some str) \<and>
   (split_byte bits buff dbits dbuff p \<and> bits \<le> 7 \<and> dbits \<le> 7 \<longrightarrow>
      base32_decode_loop (base32_encode_loop str bits buff) dbits dbuff = Some (p # str))"
proof (induction str bits buff arbitrary: dbits dbuff p rule: base32_encode_loop.induct)
  case (1 bits buff)
  then show ?case using flush_roundtrip by auto
next
  case (2 b str bits buff)
  show ?case
  proof (cases "bits < 5")
    case True
    let ?b = "push_bit 8 buff OR ucast b"
    let ?d = "dec_step dbuff ?b (bits + 3)"
    have enc: "base32_encode_loop (b # str) bits buff = base32_emit ?b (bits + 3) # base32_encode_loop str (bits + 3) ?b"
      using True by (simp add: Let_def add.commute [of 3])
    have IH: "base32_decode_loop (base32_encode_loop str (bits + 3) ?b) e ?d = Some (b # str)"
      if "split_byte (bits + 3) ?b e ?d b" "e \<le> 7" for e
      using "2.IH"(1) [OF True refl, of e ?d b] that True by (simp add: add.commute [of 3])
    have "base32_decode_loop (base32_encode_loop (b # str) bits buff) dbits dbuff = Some (b # str)"
      if zero: "bits = 0" "dbits = 0"
    proof -
      have "split_byte (bits + 3) ?b 5 ?d b" unfolding split_byte_def using zero by (auto simp: bit_simps bit_dec_step)
      from IH [OF this] show ?thesis using zero enc by (simp add: decode_emit)
    qed
    moreover have "base32_decode_loop (base32_encode_loop (b # str) bits buff) dbits dbuff = Some (p # b # str)"
      if split: "split_byte bits buff dbits dbuff p" and small: "dbits \<le> 7"
    proof -
      have sum: "bits = 8 - dbits" "4 \<le> dbits" and p: "\<And>i. i < 8 \<Longrightarrow> bit p i = (if i < bits then bit buff i else bit dbuff (i - bits))"
        using split True by (auto simp: split_byte_def)
      have "ucast (drop_bit (dbits + 5 - 8) ?d) = p"
        by (rule byte_eqI) (use sum small p in \<open>auto simp: bit_simps bit_dec_step add.commute dest: bit_imp_le_length\<close>)
      moreover have "split_byte (bits + 3) ?b (dbits + 5 - 8) ?d b"
        unfolding split_byte_def using sum small by (auto simp: bit_simps bit_dec_step)
      from IH [OF this] have "base32_decode_loop (base32_encode_loop str (bits + 3) ?b) (dbits + 5 - 8) ?d = Some (b # str)"
        using small by simp
      ultimately show ?thesis using sum enc by (simp add: decode_emit)
    qed
    ultimately show ?thesis by blast
  next
    case False
    then have five: "5 \<le> bits" by simp
    have enc: "base32_encode_loop (b # str) bits buff = base32_emit buff (bits - 5) # base32_encode_loop (b # str) (bits - 5) buff"
      using False by simp
    have "base32_decode_loop (base32_encode_loop (b # str) bits buff) dbits dbuff = Some (p # b # str)"
      if split: "split_byte bits buff dbits dbuff p" and small: "bits \<le> 7" "dbits \<le> 7"
    proof -
      obtain dbuff' where "if bits = 5 then base32_decode_loop (base32_encode_loop (b # str) bits buff) dbits dbuff =
          map_option ((#) p) (base32_decode_loop (base32_encode_loop (b # str) (bits - 5) buff) 0 dbuff')
        else base32_decode_loop (base32_encode_loop (b # str) bits buff) dbits dbuff =
            base32_decode_loop (base32_encode_loop (b # str) (bits - 5) buff) (dbits + 5) dbuff' \<and>
          split_byte (bits - 5) buff (dbits + 5) dbuff' p"
        using emit_full [OF split five small(1), of "base32_encode_loop (b # str) (bits - 5) buff"] unfolding enc by blast
      then show ?thesis using "2.IH"(2) [OF False, of 0 dbuff' p] "2.IH"(2) [OF False, of "dbits + 5" dbuff' p] False small split
        by (cases "bits = 5") (auto simp: split_byte_def simp del: base32_encode_loop.simps)
    qed
    moreover have "bits \<noteq> 0" using five by simp
    ultimately show ?thesis by blast
  qed
qed

lemma base32_decode_encode: "psync_base32_decode (psync_base32_encode str) = Some str"
  using encode_roundtrip by (simp add: psync_base32_decode_def psync_base32_encode_def)

text \<open>The number of characters: the eight bits of every byte in groups of five.\<close>

lemma length_base32_flush: "length (base32_flush bits buff) = (bits + 4) div 5"
proof (induction bits buff rule: base32_flush.induct)
  case (1 bits buff)
  then show ?case by (cases "bits = 0"; cases "bits < 5") (simp_all add: base32_flush.simps [of bits] base32_flush.simps [of 0])
qed

lemma length_base32_loop: "length (base32_encode_loop str bits buff) = (8 * length str + bits + 4) div 5"
proof (induction str bits buff rule: base32_encode_loop.induct)
  case (1 bits buff)
  then show ?case by (simp add: length_base32_flush)
next
  case (2 b str bits buff)
  show ?case
  proof (cases "bits < 5")
    case True
    have "(8 * length (b # str) + bits + 4) div 5 = Suc ((8 * length str + (bits + 8 - 5) + 4) div 5)" by simp
    then show ?thesis using "2.IH"(1) [OF True refl] True by (simp add: Let_def)
  next
    case False
    then have "(8 * length (b # str) + bits + 4) div 5 = Suc ((8 * length (b # str) + (bits - 5) + 4) div 5)"
      by presburger
    then show ?thesis using "2.IH"(2) [OF False] False by simp
  qed
qed

subsection \<open>Base 64\<close>

definition base64_table :: "byte list" where
  "base64_table = bytes_of ''ABCDEFGHIJKLMNOPQRSTUVWXYZabcdefghijklmnopqrstuvwxyz0123456789-_''"

definition base64_reverse_table :: "int list" where
  "base64_reverse_table =
    [-2, -2, -2, -2, -2, -2, -2, -2, -2, -1, -1, -2, -2, -1, -2, -2,
     -2, -2, -2, -2, -2, -2, -2, -2, -2, -2, -2, -2, -2, -2, -2, -2,
     -1, -2, -2, -2, -2, -2, -2, -2, -2, -2, -2, 62, -2, 62, -2, 63,
     52, 53, 54, 55, 56, 57, 58, 59, 60, 61, -2, -2, -2, -1, -2, -2,
     -2,  0,  1,  2,  3,  4,  5,  6,  7,  8,  9, 10, 11, 12, 13, 14,
     15, 16, 17, 18, 19, 20, 21, 22, 23, 24, 25, -2, -2, -2, -2, 63,
     -2, 26, 27, 28, 29, 30, 31, 32, 33, 34, 35, 36, 37, 38, 39, 40,
     41, 42, 43, 44, 45, 46, 47, 48, 49, 50, 51, -2, -2, -2, -2, -2] @ replicate 128 (-2)"

fun psync_base64_encode :: "byte list \<Rightarrow> byte list" where
  "psync_base64_encode [] = []"
| "psync_base64_encode [a] =
     [base64_table ! unat (drop_bit 2 a), base64_table ! unat (push_bit 4 (a AND 0x03))]"
| "psync_base64_encode [a, b] =
     [base64_table ! unat (drop_bit 2 a),
      base64_table ! unat (push_bit 4 (a AND 0x03) + drop_bit 4 b),
      base64_table ! unat (push_bit 2 (b AND 0x0f))]"
| "psync_base64_encode (a # b # c # str) =
     base64_table ! unat (drop_bit 2 a) #
     base64_table ! unat (push_bit 4 (a AND 0x03) + drop_bit 4 b) #
     base64_table ! unat (push_bit 2 (b AND 0x0f) + drop_bit 6 c) #
     base64_table ! unat (c AND 0x3f) #
     psync_base64_encode str"

text \<open>The decoder: \<open>i\<close> is \<open>i%4\<close> and \<open>cur\<close> is \<open>result[j]\<close>, the byte being filled.\<close>

fun base64_decode_loop :: "byte list \<Rightarrow> nat \<Rightarrow> byte \<Rightarrow> byte list option" where
  "base64_decode_loop [] i cur = Some []"
| "base64_decode_loop (c # str) i cur =
     (let ch = base64_reverse_table ! unat c in
      if ch = -1 then base64_decode_loop str i cur
      else if ch = -2 then None
      else
        (let v = of_int ch :: byte in
         if i = 0 then base64_decode_loop str 1 (push_bit 2 v)
         else if i = 1 then
           map_option ((#) (cur OR drop_bit 4 v)) (base64_decode_loop str 2 (push_bit 4 (v AND 0x0f)))
         else if i = 2 then
           map_option ((#) (cur OR drop_bit 2 v)) (base64_decode_loop str 3 (push_bit 6 (v AND 0x03)))
         else map_option ((#) (cur OR v)) (base64_decode_loop str 0 0)))"

definition psync_base64_decode :: "byte list \<Rightarrow> byte list option" where
  "psync_base64_decode str = base64_decode_loop str 0 0"

lemma base64_reverse:
  assumes "unat v < 64"
  shows "base64_reverse_table ! unat (base64_table ! unat v) = uint v"
proof -
  have "\<forall>i \<in> set [0..<64]. base64_reverse_table ! unat (base64_table ! i) = int i" by code_simp
  then show ?thesis using assms by simp
qed

lemma base64_decode_char:
  assumes "unat (v :: byte) < 64"
  shows "base64_decode_loop (base64_table ! unat v # str) i cur =
     (if i = 0 then base64_decode_loop str 1 (push_bit 2 v)
      else if i = 1 then
        map_option ((#) (cur OR drop_bit 4 v)) (base64_decode_loop str 2 (push_bit 4 (v AND 0x0f)))
      else if i = 2 then
        map_option ((#) (cur OR drop_bit 2 v)) (base64_decode_loop str 3 (push_bit 6 (v AND 0x03)))
      else map_option ((#) (cur OR v)) (base64_decode_loop str 0 0))"
proof -
  have "uint v \<noteq> -1" "uint v \<noteq> -2" using uint_nonnegative [of v] by linarith+
  then show ?thesis by (simp add: base64_reverse [OF assms] Let_def)
qed

lemma masks: "0x03 = (mask 2 :: byte)" "0x0f = (mask 4 :: byte)" "0x3f = (mask 6 :: byte)"
  by (simp_all add: mask_eq_exp_minus_1)

lemma six_bits: "(\<And>i. bit v i \<Longrightarrow> i < 6) \<Longrightarrow> unat (v :: byte) < 64"
proof -
  assume "\<And>i. bit v i \<Longrightarrow> i < 6"
  then have "take_bit 6 v = v" by (auto simp: bit_eq_iff bit_simps)
  then have "unat v = take_bit 6 (unat v)" by (simp flip: unsigned_take_bit_eq)
  then show ?thesis using take_bit_nat_less_exp [of 6 "unat v"] by simp
qed

text \<open>The four characters of a group as bit operations without carries.\<close>

lemma second_char: "push_bit 4 (a AND 0x03) + drop_bit 4 b = push_bit 4 (take_bit 2 a) OR drop_bit 4 (b :: byte)"
  unfolding masks take_bit_eq_mask [symmetric]
  by (rule disjunctive_add_eq_or) (auto simp: bit_eq_iff bit_simps dest: bit_imp_le_length)

lemma third_char: "push_bit 2 (b AND 0x0f) + drop_bit 6 c = push_bit 2 (take_bit 4 b) OR drop_bit 6 (c :: byte)"
  unfolding masks take_bit_eq_mask [symmetric]
  by (rule disjunctive_add_eq_or) (auto simp: bit_eq_iff bit_simps dest: bit_imp_le_length)

lemma Suc_Suc_minus_two [simp]: "2 \<le> n \<Longrightarrow> Suc (Suc (n - 2)) = n"
  by simp

lemma bit_shifted_two: "bit w n \<Longrightarrow> \<not> bit w (Suc (Suc (n - 2))) \<Longrightarrow> n < 2"
  by (cases "n < 2") simp_all

lemma base64_char_bounds:
  "unat (drop_bit 2 (a :: byte)) < 64" "unat (push_bit 4 (take_bit 2 (a :: byte))) < 64"
  "unat (push_bit 4 (take_bit 2 a) OR drop_bit 4 (b :: byte)) < 64" "unat (push_bit 2 (take_bit 4 (b :: byte))) < 64"
  "unat (push_bit 2 (take_bit 4 b) OR drop_bit 6 (c :: byte)) < 64" "unat (take_bit 6 (c :: byte)) < 64"
  by (rule six_bits, auto simp: bit_simps dest: bit_imp_le_length)+

text \<open>The decoded bytes, in the form the simplifier leaves them.\<close>

lemma base64_first_byte:
  "push_bit 2 (drop_bit 2 a) OR drop_bit 4 (push_bit 4 (take_bit 2 a)) = (a :: byte)"
  "push_bit 2 (drop_bit 2 a) OR (drop_bit 4 (push_bit 4 (take_bit 2 a)) OR drop_bit 4 (drop_bit 4 b)) = (a :: byte)"
  by (auto simp: bit_eq_iff bit_simps dest: bit_imp_le_length bit_shifted_two)

lemma base64_second_byte:
  "(push_bit 4 (take_bit 4 (push_bit 4 (take_bit 2 a))) OR push_bit 4 (take_bit 4 (drop_bit 4 b))) OR
   drop_bit 2 (push_bit 2 (take_bit 4 b)) = (b :: byte)"
  by (auto simp: bit_eq_iff bit_simps dest: bit_imp_le_length)

lemma base64_third_byte:
  "(push_bit 6 (take_bit 2 (push_bit 2 (take_bit 4 b))) OR push_bit 6 (take_bit 2 (drop_bit 6 c))) OR take_bit 6 c = (c :: byte)"
  by (auto simp: bit_eq_iff bit_simps dest: bit_imp_le_length)

lemmas base64_bytes = base64_char_bounds base64_first_byte base64_second_byte base64_third_byte

lemma base64_roundtrip: "base64_decode_loop (psync_base64_encode str) 0 cur = Some str"
  by (induction str arbitrary: cur rule: psync_base64_encode.induct)
    (simp_all only: psync_base64_encode.simps second_char third_char,
     simp_all add: masks base64_decode_char base64_bytes del: base64_decode_loop.simps(2) flip: take_bit_eq_mask)

subsection \<open>Cache keys from numbers\<close>

text \<open>\<open>do {*dst++=base64_table[id%64]; id/=64;} while (id)\<close>\<close>

function base64_digits :: "nat \<Rightarrow> byte list" where
  "base64_digits i = base64_table ! (i mod 64) # (if i div 64 = 0 then [] else base64_digits (i div 64))"
  by pat_completeness auto
termination by (relation "measure id") auto

declare base64_digits.simps [simp del]

definition psync_get_string_id :: "byte list \<Rightarrow> u64 \<Rightarrow> byte list" where
  "psync_get_string_id prefix i = prefix @ base64_digits (unat i)"

definition psync_get_string_id2 :: "byte list \<Rightarrow> u64 \<Rightarrow> u64 \<Rightarrow> byte list" where
  "psync_get_string_id2 prefix id1 id2 = prefix @ base64_digits (unat id1) @ bytes_of ''.'' @ base64_digits (unat id2)"

fun undigits :: "byte list \<Rightarrow> nat" where
  "undigits [] = 0"
| "undigits (c # cs) = nat (base64_reverse_table ! unat c) + 64 * undigits cs"

lemma table_facts:
  assumes "k < 64"
  shows "nat (base64_reverse_table ! unat (base64_table ! k)) = k" "base64_table ! k \<noteq> 46"
proof -
  have k: "unat (of_nat k :: byte) = k" using assms by (simp add: unat_of_nat_byte)
  have "base64_reverse_table ! unat (base64_table ! k) = uint (of_nat k :: byte)"
    using assms base64_reverse [of "of_nat k :: byte"] unfolding k by blast
  then show "nat (base64_reverse_table ! unat (base64_table ! k)) = k"
    using k by (simp only: unat_eq_nat_uint [symmetric])
  have "\<forall>i \<in> set [0..<64]. base64_table ! i \<noteq> 46" by code_simp
  then show "base64_table ! k \<noteq> 46" using assms by simp
qed

lemma undigits_digits: "undigits (base64_digits i) = i"
proof (induction i rule: base64_digits.induct)
  case (1 i)
  have "i mod 64 + 64 * (i div 64) = i" by simp
  then show ?case using 1 by (subst base64_digits.simps) (auto simp: table_facts)
qed

lemma digits_no_dot: "46 \<notin> set (base64_digits i)"
proof (induction i rule: base64_digits.induct)
  case (1 i)
  then show ?case using table_facts(2) [of "i mod 64"] by (subst base64_digits.simps) auto
qed

lemma length_digits: "i < 64 ^ n \<Longrightarrow> 0 < n \<Longrightarrow> length (base64_digits i) \<le> n"
proof (induction n arbitrary: i)
  case (Suc n)
  show ?case
  proof (cases "i div 64 = 0")
    case False
    moreover have "i div 64 < 64 ^ n" using Suc.prems by (simp add: less_mult_imp_div_less mult.commute)
    moreover from calculation have "0 < n" by (cases n) auto
    ultimately show ?thesis using Suc.IH [of "i div 64"] by (subst base64_digits.simps) simp
  qed (subst base64_digits.simps, simp)
qed simp

subsection \<open>Numbers, file names, hexadecimal\<close>

fun ato64_from :: "byte list \<Rightarrow> u64 \<Rightarrow> u64" where
  "ato64_from [] n = n"
| "ato64_from (c # str) n = (if 48 \<le> c \<and> c \<le> 57 then ato64_from str (n * 10 + ucast c - 48) else n)"

definition psync_ato64 :: "byte list \<Rightarrow> u64" where
  "psync_ato64 str = ato64_from str 0"

fun ato32_from :: "byte list \<Rightarrow> u32 \<Rightarrow> u32" where
  "ato32_from [] n = n"
| "ato32_from (c # str) n = (if 48 \<le> c \<and> c \<le> 57 then ato32_from str (n * 10 + ucast c - 48) else n)"

definition psync_ato32 :: "byte list \<Rightarrow> u32" where
  "psync_ato32 str = ato32_from str 0"

text \<open>The decimal digits of a number, most significant first.\<close>

definition digit_char :: "nat \<Rightarrow> byte" where
  "digit_char d = of_nat (48 + d)"

fun decimal_value :: "nat list \<Rightarrow> nat \<Rightarrow> nat" where
  "decimal_value [] n = n"
| "decimal_value (d # ds) n = decimal_value ds (n * 10 + d)"

lemma unat_digit_char: "d < 10 \<Longrightarrow> unat (digit_char d) = 48 + d"
  unfolding digit_char_def unat_of_nat_byte by simp

lemma digit_char_range: "d < 10 \<Longrightarrow> 48 \<le> digit_char d \<and> digit_char d \<le> 57"
  by (simp add: word_le_nat_alt unat_digit_char)

lemma ucast_digit_char: "d < 10 \<Longrightarrow> (ucast (digit_char d) :: 'a::len word) = of_nat (48 + d)"
  using unat_digit_char [of d] by (metis of_nat_unat)

definition stops :: "byte list \<Rightarrow> bool" where
  "stops rest \<longleftrightarrow> (case rest of [] \<Rightarrow> True | c # _ \<Rightarrow> c < 48 \<or> 57 < c)"

lemma ato64_digits:
  "\<forall>d \<in> set ds. d < 10 \<Longrightarrow> stops rest \<Longrightarrow>
   ato64_from (map digit_char ds @ rest) (of_nat n) = of_nat (decimal_value ds n)"
proof (induction ds arbitrary: n)
  case Nil
  then show ?case by (cases rest) (auto simp: stops_def)
next
  case (Cons d ds)
  then have d: "d < 10" "\<forall>d \<in> set ds. d < 10" by simp_all
  then have eq: "of_nat n * 10 + ucast (digit_char d) - 48 = (of_nat (n * 10 + d) :: u64)"
    by (simp add: ucast_digit_char)
  have "ato64_from (map digit_char (d # ds) @ rest) (of_nat n) =
      ato64_from (map digit_char ds @ rest) (of_nat n * 10 + ucast (digit_char d) - 48)"
    using digit_char_range [OF d(1)] by simp
  then show ?case unfolding eq Cons.IH [OF d(2) Cons.prems(2)] by simp
qed

lemma ato32_digits:
  "\<forall>d \<in> set ds. d < 10 \<Longrightarrow> stops rest \<Longrightarrow>
   ato32_from (map digit_char ds @ rest) (of_nat n) = of_nat (decimal_value ds n)"
proof (induction ds arbitrary: n)
  case Nil
  then show ?case by (cases rest) (auto simp: stops_def)
next
  case (Cons d ds)
  then have d: "d < 10" "\<forall>d \<in> set ds. d < 10" by simp_all
  then have eq: "of_nat n * 10 + ucast (digit_char d) - 48 = (of_nat (n * 10 + d) :: u32)"
    by (simp add: ucast_digit_char)
  have "ato32_from (map digit_char (d # ds) @ rest) (of_nat n) =
      ato32_from (map digit_char ds @ rest) (of_nat n * 10 + ucast (digit_char d) - 48)"
    using digit_char_range [OF d(1)] by simp
  then show ?case unfolding eq Cons.IH [OF d(2) Cons.prems(2)] by simp
qed

definition normalize_table :: "byte \<Rightarrow> byte" where
  "normalize_table c = (if c = 58 \<or> c = 47 \<or> c = 92 then 95 else c)"

definition psync_strnormalize_filename :: "byte list \<Rightarrow> byte list" where
  "psync_strnormalize_filename str = map normalize_table str"

definition hex_lookup :: "byte \<Rightarrow> byte list" where
  "hex_lookup b = [bytes_of ''0123456789abcdef'' ! (unat b div 16), bytes_of ''0123456789abcdef'' ! (unat b mod 16)]"

definition psync_binhex :: "byte list \<Rightarrow> byte list" where
  "psync_binhex src = concat (map hex_lookup src)"

text \<open>\<open>psync_strlcpy\<close>: the bytes of \<open>dst\<close> written, with the terminating zero, and the value returned.\<close>

definition psync_strlcpy :: "byte list \<Rightarrow> nat \<Rightarrow> byte list \<times> nat" where
  "psync_strlcpy src sz =
     (if length src < sz then (src @ [0], length src)
      else if sz \<noteq> 0 then (take (sz - 1) src @ [0], sz - 1)
      else ([], 0))"

subsection \<open>Patterns\<close>

text \<open>
  \<open>psync_match_pattern\<close> on the rest of the name and of the pattern. \<open>match_star\<close> is the loop after a
  star, \<open>match_search\<close> the search for the next literal, which calls the matcher again behind every
  occurrence.
\<close>

abbreviation "star \<equiv> (42 :: byte)"
abbreviation "quest \<equiv> (63 :: byte)"

function (sequential) psync_match_pattern :: "byte list \<Rightarrow> byte list \<Rightarrow> bool"
  and match_star :: "byte list \<Rightarrow> byte list \<Rightarrow> bool"
  and match_search :: "byte \<Rightarrow> byte list \<Rightarrow> byte list \<Rightarrow> bool" where
  "psync_match_pattern name [] = (name = [])"
| "psync_match_pattern name (p # pattern) =
     (if p = star then match_star name pattern
      else case name of
             [] \<Rightarrow> False
           | c # name' \<Rightarrow> (p = c \<or> p = quest) \<and> psync_match_pattern name' pattern)"
| "match_star name [] = True"
| "match_star name (p # pattern) =
     (if p = quest then (case name of [] \<Rightarrow> False | c # name' \<Rightarrow> match_star name' pattern)
      else if p = star then match_star name pattern
      else match_search p name pattern)"
| "match_search p [] pattern = False"
| "match_search p (c # name) pattern =
     (if c = p then psync_match_pattern name pattern \<or> match_search p name pattern
      else match_search p name pattern)"
  by pat_completeness auto
termination
  by (relation "measures [\<lambda>x. case x of Inl (n, p) \<Rightarrow> length p | Inr (Inl (n, p)) \<Rightarrow> length p | Inr (Inr (c, n, p)) \<Rightarrow> length p,
       \<lambda>x. case x of Inl _ \<Rightarrow> 0 | Inr (Inl _) \<Rightarrow> 0 | Inr (Inr (c, n, p)) \<Rightarrow> Suc (length n)]") auto

text \<open>What the pattern language means.\<close>

fun glob :: "byte list \<Rightarrow> byte list \<Rightarrow> bool" where
  "glob name [] = (name = [])"
| "glob name (p # pattern) =
     (if p = star then (\<exists>pre suf. name = pre @ suf \<and> glob suf pattern)
      else (\<exists>c name'. name = c # name' \<and> (p = quest \<or> p = c) \<and> glob name' pattern))"

lemma skip_one:
  "(\<exists>pre b suf. c # n = pre @ b # suf \<and> P suf) \<longleftrightarrow> (\<exists>pre suf. n = pre @ suf \<and> P suf)"
proof
  assume "\<exists>pre b suf. c # n = pre @ b # suf \<and> P suf"
  then obtain pre b suf where s: "c # n = pre @ b # suf" "P suf" by blast
  then have "n = tl (pre @ [b]) @ suf" by (cases pre) auto
  then show "\<exists>pre suf. n = pre @ suf \<and> P suf" using s(2) by blast
next
  assume "\<exists>pre suf. n = pre @ suf \<and> P suf"
  then obtain pre suf where s: "n = pre @ suf" "P suf" by blast
  then have "c # n = butlast (c # pre) @ last (c # pre) # suf"
    using append_butlast_last_id [of "c # pre"] by (metis append.assoc append_Cons append_Nil list.distinct(1))
  then show "\<exists>pre b suf. c # n = pre @ b # suf \<and> P suf" using s(2) by blast
qed

lemma match_glob:
  "psync_match_pattern name pattern = glob name pattern"
  "match_star name pattern = (\<exists>pre suf. name = pre @ suf \<and> glob suf pattern)"
  "match_search p name pattern = (\<exists>pre suf. name = pre @ p # suf \<and> glob suf pattern)"
proof (induction name pattern and name pattern and p name pattern rule: psync_match_pattern_match_star_match_search.induct)
  case (4 name p pattern)
  show ?case
  proof (cases "p = quest")
    case True
    then have rhs: "(\<exists>pre suf. name = pre @ suf \<and> glob suf (p # pattern)) \<longleftrightarrow>
        (\<exists>pre b suf. name = pre @ b # suf \<and> glob suf pattern)" by auto
    show ?thesis
    proof (cases name)
      case (Cons c name')
      have "match_star name (p # pattern) = match_star name' pattern" using True Cons by simp
      also have "\<dots> = (\<exists>pre suf. name' = pre @ suf \<and> glob suf pattern)" by (rule 4(1) [OF True Cons])
      finally show ?thesis using rhs unfolding Cons skip_one by blast
    qed (use True in simp)
  next
    case q: False
    show ?thesis
    proof (cases "p = star")
      case True
      then have "match_star name (p # pattern) = (\<exists>pre suf. name = pre @ suf \<and> glob suf pattern)" using 4(2) [OF q True] q by simp
      also have "\<dots> = (\<exists>pre suf. name = pre @ suf \<and> (\<exists>pre' suf'. suf = pre' @ suf' \<and> glob suf' pattern))"
        by (metis append.assoc append_Nil)
      finally show ?thesis using True by simp
    next
      case False
      then show ?thesis using 4(3) [OF q False] q by auto
    qed
  qed
next
  case (6 p c name pattern)
  then show ?case by (auto simp: Cons_eq_append_conv)
qed (auto split: list.splits)

subsection \<open>Names for conflicted files\<close>

text \<open>\<open>while (dotidx && path[dotidx]!='.') dotidx--; if (!dotidx) dotidx=plen;\<close>\<close>

fun dot_index :: "byte list \<Rightarrow> nat \<Rightarrow> nat" where
  "dot_index path 0 = length path"
| "dot_index path (Suc n) = (if Suc n < length path \<and> path ! Suc n = 46 then Suc n else dot_index path n)"

text \<open>The decimal digits \<open>psync_slprintf\<close> prints for \<open>num\<close>.\<close>

function print_num :: "nat \<Rightarrow> byte list" where
  "print_num n = (if n < 10 then [digit_char n] else print_num (n div 10) @ [digit_char (n mod 10)])"
  by pat_completeness auto
termination by (relation "measure id") auto

declare print_num.simps [simp del]

definition conflicted_name :: "byte list \<Rightarrow> nat \<Rightarrow> byte list" where
  "conflicted_name path k =
     (let dotidx = dot_index path (length path) in
      take dotidx path @
      (if k \<noteq> 0 then bytes_of '' (conflicted '' @ print_num k @ bytes_of '')'' else bytes_of '' (conflicted)'') @
      drop dotidx path)"

text \<open>The loop: the first name \<open>psync_stat\<close> does not find. \<open>exists\<close> is the file system.\<close>

fun rename_target :: "nat \<Rightarrow> (byte list \<Rightarrow> bool) \<Rightarrow> byte list \<Rightarrow> nat \<Rightarrow> byte list option" where
  "rename_target 0 exists path k = None"
| "rename_target (Suc f) exists path k =
     (if exists (conflicted_name path k) then rename_target f exists path (k + 1)
      else Some (conflicted_name path k))"

lemma rename_target_fresh:
  "rename_target f exists path k = Some name \<Longrightarrow>
   \<not> exists name \<and> (\<exists>j\<ge>k. name = conflicted_name path j \<and> (\<forall>i. k \<le> i \<and> i < j \<longrightarrow> exists (conflicted_name path i)))"
proof (induction f exists path k rule: rename_target.induct)
  case (2 f exists path k)
  show ?case
  proof (cases "exists (conflicted_name path k)")
    case True
    then obtain j where "Suc k \<le> j" "name = conflicted_name path j" "\<not> exists name"
      "\<forall>i. Suc k \<le> i \<and> i < j \<longrightarrow> exists (conflicted_name path i)" using 2 by auto
    moreover from this have "exists (conflicted_name path i)" if "k \<le> i" "i < j" for i
      using that True by (cases "i = k") auto
    ultimately show ?thesis by (intro conjI exI [of _ j]) auto
  qed (use 2 in auto)
qed simp

lemma rename_target_found:
  assumes "\<not> exists (conflicted_name path j)" and "k \<le> j" and "j - k < f"
  shows "\<exists>name. rename_target f exists path k = Some name"
  using assms
proof (induction f exists path k rule: rename_target.induct)
  case (2 f exists path k)
  show ?case
  proof (cases "exists (conflicted_name path k)")
    case True
    with "2.prems" have "k \<noteq> j" by blast
    then have "k + 1 \<le> j" "j - (k + 1) < f" using "2.prems"(2,3) by auto
    then show ?thesis using 2 True by simp
  qed (use 2 in auto)
qed simp

subsection \<open>Properties\<close>

text \<open>
  C23. Decoding what \<open>psync_base32_encode\<close> and \<open>psync_base64_encode\<close> produce gives the input back,
  for every input, and the characters and the terminating zero fit the buffer the encoder allocates.
\<close>

lemma length_base64: "length (psync_base64_encode str) \<le> (length str + 2) div 3 * 4"
proof (induction str rule: psync_base64_encode.induct)
  case (4 a b c str)
  have "(length (a # b # c # str) + 2) div 3 = Suc ((length str + 2) div 3)"
    using div_add_self2 [of 3 "length str + 2"] by (simp add: add.commute)
  then show ?case using 4 by simp
qed simp_all

theorem base_encodings_roundtrip:
  "psync_base32_decode (psync_base32_encode str) = Some str \<and>
   length (psync_base32_encode str) + 1 \<le> (length str + 4) div 5 * 8 + 1 \<and>
   psync_base64_decode (psync_base64_encode str) = Some str \<and>
   length (psync_base64_encode str) + 1 \<le> (length str + 2) div 3 * 4 + 1"
proof -
  have "length (psync_base32_encode str) = (8 * length str + 4) div 5"
    by (simp add: psync_base32_encode_def length_base32_loop)
  moreover have "length str \<le> 5 * ((length str + 4) div 5)" by linarith
  then have "(8 * length str + 4) div 5 \<le> (40 * ((length str + 4) div 5) + 4) div 5" by (intro div_le_mono) linarith
  then have "(8 * length str + 4) div 5 \<le> (length str + 4) div 5 * 8" by simp
  ultimately show ?thesis
    using base32_decode_encode base64_roundtrip length_base64 [of str] by (simp add: psync_base64_decode_def)
qed

text \<open>
  C36. \<open>psync_match_pattern\<close> decides the pattern language: a star matches any string, a question
  mark any one character, everything else itself.
\<close>

theorem match_pattern_is_glob: "psync_match_pattern name pattern = glob name pattern"
  by (rule match_glob)

text \<open>
  The cache keys \<open>psync_get_string_id\<close> and \<open>psync_get_string_id2\<close> build are unique: with the
  same prefix, different numbers (pairs of numbers) give different keys; and they need at most
  the 12 and 24 characters behind the prefix that the header promises.
\<close>

lemma digits_split:
  "base64_digits a @ bytes_of ''.'' @ base64_digits b = base64_digits c @ bytes_of ''.'' @ base64_digits d \<Longrightarrow>
   base64_digits a = base64_digits c \<and> base64_digits b = base64_digits d"
proof -
  have dot: "bytes_of ''.'' = [46]" by code_simp
  have split: "takeWhile (\<lambda>c. c \<noteq> 46) (base64_digits x @ 46 # ys) = base64_digits x" for x ys
    using digits_no_dot [of x] by (simp add: takeWhile_tail) (metis takeWhile_eq_all_conv)
  assume eq: "base64_digits a @ bytes_of ''.'' @ base64_digits b = base64_digits c @ bytes_of ''.'' @ base64_digits d"
  then have "takeWhile (\<lambda>c. c \<noteq> 46) (base64_digits a @ 46 # base64_digits b) =
      takeWhile (\<lambda>c. c \<noteq> 46) (base64_digits c @ 46 # base64_digits d)" by (simp add: dot)
  then have "base64_digits a = base64_digits c" unfolding split .
  then show ?thesis using eq by simp
qed

lemma string_id_unique:
  "(psync_get_string_id prefix i = psync_get_string_id prefix j \<longleftrightarrow> i = j) \<and>
   (psync_get_string_id2 prefix i j = psync_get_string_id2 prefix i' j' \<longleftrightarrow> i = i' \<and> j = j') \<and>
   length (psync_get_string_id prefix i) + 1 \<le> length prefix + 12 \<and>
   length (psync_get_string_id2 prefix i j) + 1 \<le> length prefix + 24"
proof -
  have inj: "base64_digits (unat x) = base64_digits (unat y) \<longleftrightarrow> x = y" for x y :: u64
    by (metis undigits_digits unsigned_word_eqI)
  have len: "length (base64_digits (unat x)) \<le> 11" for x :: u64
  proof -
    have "unat x < 2 ^ 64" using unsigned_less [of x] by simp
    then show ?thesis by (intro length_digits) auto
  qed
  have dot: "length (bytes_of ''.'') = 1" by (simp add: bytes_of_def)
  show ?thesis using inj len [of i] len [of j] digits_split [of "unat i" "unat j" "unat i'" "unat j'"]
    by (auto simp: psync_get_string_id_def psync_get_string_id2_def dot)
qed

text \<open>
  \<open>psync_ato64\<close> and \<open>psync_ato32\<close> read the decimal digits up to the first other character,
  modulo the width of the result.
\<close>

lemma ato_reads_decimal:
  assumes "\<forall>d \<in> set ds. d < 10" and "stops rest"
  shows "psync_ato64 (map digit_char ds @ rest) = of_nat (decimal_value ds 0) \<and>
    psync_ato32 (map digit_char ds @ rest) = of_nat (decimal_value ds 0)"
  using ato64_digits [OF assms, of 0] ato32_digits [OF assms, of 0]
  by (simp add: psync_ato64_def psync_ato32_def)

lemma ato_reads_decimal_witness: "psync_ato64 (map digit_char [4, 2] @ [46]) = 42"
  using ato_reads_decimal [of "[4, 2]" "[46]"] by (simp add: stops_def)
end
