(* ===== verification/Plist.thy ===== *)
theory Plist
  imports Prelude
begin

section \<open>Sorting linked lists (plist.c)\<close>

text \<open>
  \<open>psync_list_sort\<close> merges neighbouring runs of 1, 2, 4, \<dots> elements in place, counting elements
  instead of cutting the list. Here a list is the sequence of its elements, from the first; the
  walk over the \<open>next\<close> pointers is recursion on the list, and \<open>prev\<close> pointers, rebuilt at the end,
  carry no information. \<open>cmp\<close> is the caller's comparison.
\<close>

subsection \<open>The code\<close>

text \<open>
  One merge: the first run with \<open>l1len\<close> elements left, and the rest of the list, of which at most
  \<open>l2len\<close> elements are the second run. The result is the merged run and what follows it.
\<close>

fun merge_runs :: "('a \<Rightarrow> 'a \<Rightarrow> int) \<Rightarrow> 'a list \<Rightarrow> nat \<Rightarrow> 'a list \<Rightarrow> 'a list \<times> 'a list" where
  "merge_runs cmp (a # l1) l2len (b # l2) =
     (if cmp a b \<le> 0 then
        (if l1 = [] then (a # take l2len (b # l2), drop l2len (b # l2))
         else (case merge_runs cmp l1 l2len (b # l2) of (m, rest) \<Rightarrow> (a # m, rest)))
      else
        (if l2len - 1 = 0 \<or> l2 = [] then (b # a # l1, l2)
         else (case merge_runs cmp (a # l1) (l2len - 1) l2 of (m, rest) \<Rightarrow> (b # m, rest))))"
| "merge_runs cmp l1 l2len l2 = (l1 @ take l2len l2, drop l2len l2)"

lemma merge_runs_rest: "l1 \<noteq> [] \<Longrightarrow> l2 \<noteq> [] \<Longrightarrow> 0 < l2len \<Longrightarrow> snd (merge_runs cmp l1 l2len l2) = drop l2len l2"
proof (induction cmp l1 l2len l2 rule: merge_runs.induct)
  case (1 cmp a l1 l2len b l2)
  then show ?case by (cases l2len) (auto split: prod.splits)
qed auto

text \<open>One pass over the list: the merged list and the number of merges (and of a last lone run).\<close>

function sort_pass :: "('a \<Rightarrow> 'a \<Rightarrow> int) \<Rightarrow> nat \<Rightarrow> 'a list \<Rightarrow> 'a list \<times> nat" where
  "sort_pass cmp depth xs =
     (if xs = [] then ([], 0)
      else if depth = 0 \<or> drop depth xs = [] then (xs, 1)
      else
        (case merge_runs cmp (take depth xs) depth (drop depth xs) of
           (m, rest) \<Rightarrow> (case sort_pass cmp depth rest of (out, cnt) \<Rightarrow> (m @ out, cnt + 1))))"
  by pat_completeness auto
termination
proof (relation "measure (\<lambda>(cmp, depth, xs). length xs)", goal_cases)
  case (2 cmp depth xs m rest)
  then have "rest = drop depth (drop depth xs)"
    using merge_runs_rest [of "take depth xs" "drop depth xs" depth cmp] by (metis snd_conv take_eq_Nil neq0_conv)
  then show ?case using 2 by simp
qed simp

declare sort_pass.simps [simp del]

fun sort_from :: "nat \<Rightarrow> ('a \<Rightarrow> 'a \<Rightarrow> int) \<Rightarrow> nat \<Rightarrow> 'a list \<Rightarrow> 'a list option" where
  "sort_from 0 cmp depth xs = None"
| "sort_from (Suc f) cmp depth xs =
     (case sort_pass cmp depth xs of
        (ys, cnt) \<Rightarrow> (if cnt \<le> 1 then Some ys else sort_from f cmp (depth * 2) ys))"

text \<open>The fuel is the length of the list: the depth doubles in every pass.\<close>

definition psync_list_sort :: "('a \<Rightarrow> 'a \<Rightarrow> int) \<Rightarrow> 'a list \<Rightarrow> 'a list option" where
  "psync_list_sort cmp xs = (if xs = [] then Some [] else sort_from (length xs) cmp 1 xs)"

text \<open>The walk of \<open>psync_list_extract_repeating\<close> over two sorted lists: what stays in each, what is moved.\<close>

fun extract_loop :: "('a \<Rightarrow> 'a \<Rightarrow> int) \<Rightarrow> 'a list \<Rightarrow> 'a list \<Rightarrow> 'a list \<times> 'a list \<times> 'a list \<times> 'a list" where
  "extract_loop cmp (a # l1) (b # l2) =
     (if cmp a b < 0 then (case extract_loop cmp l1 (b # l2) of (k1, k2, e1, e2) \<Rightarrow> (a # k1, k2, e1, e2))
      else if cmp a b > 0 then (case extract_loop cmp (a # l1) l2 of (k1, k2, e1, e2) \<Rightarrow> (k1, b # k2, e1, e2))
      else (case extract_loop cmp l1 l2 of (k1, k2, e1, e2) \<Rightarrow> (k1, k2, a # e1, b # e2)))"
| "extract_loop cmp l1 l2 = (l1, l2, [], [])"

definition psync_list_extract_repeating ::
  "'a list \<Rightarrow> 'a list \<Rightarrow> 'a list \<Rightarrow> 'a list \<Rightarrow> ('a \<Rightarrow> 'a \<Rightarrow> int) \<Rightarrow> ('a list \<times> 'a list \<times> 'a list \<times> 'a list) option" where
  "psync_list_extract_repeating l1 l2 extracted1 extracted2 cmp =
     (case (psync_list_sort cmp l1, psync_list_sort cmp l2) of
        (Some s1, Some s2) \<Rightarrow>
          (case extract_loop cmp s1 s2 of (k1, k2, e1, e2) \<Rightarrow> Some (k1, k2, extracted1 @ e1, extracted2 @ e2))
      | _ \<Rightarrow> None)"

subsection \<open>Orders by a key\<close>

definition ordered :: "('a \<Rightarrow> 'k :: linorder) \<Rightarrow> 'a list \<Rightarrow> bool" where
  "ordered key xs \<longleftrightarrow> sorted (map key xs)"

text \<open>The same elements, those with the same key in the same order.\<close>

definition same_order :: "('a \<Rightarrow> 'k) \<Rightarrow> 'a list \<Rightarrow> 'a list \<Rightarrow> bool" where
  "same_order key xs ys \<longleftrightarrow> (\<forall>k. filter (\<lambda>x. k = key x) xs = filter (\<lambda>x. k = key x) ys)"

lemma ordered_Cons [simp]: "ordered key (x # xs) \<longleftrightarrow> (\<forall>y \<in> set xs. key x \<le> key y) \<and> ordered key xs"
  by (simp add: ordered_def)

lemma ordered_Nil [simp]: "ordered key []"
  by (simp add: ordered_def)

lemma ordered_append: "ordered key (xs @ ys) \<longleftrightarrow> ordered key xs \<and> ordered key ys \<and> (\<forall>x \<in> set xs. \<forall>y \<in> set ys. key x \<le> key y)"
  by (auto simp: ordered_def sorted_append)

lemma same_order_mset: 
  assumes "same_order key xs ys"
  shows "mset xs = mset ys"
proof (rule multiset_eqI)
  fix x
  have "count (mset zs) x = count (mset (filter (\<lambda>y. key x = key y) zs)) x" for zs
    by (induction zs) auto
  then show "count (mset xs) x = count (mset ys) x" using assms by (metis same_order_def)
qed

lemma same_order_set: "same_order key xs ys \<Longrightarrow> set xs = set ys"
  by (metis same_order_mset set_mset_mset)

lemma same_order_length: "same_order key xs ys \<Longrightarrow> length xs = length ys"
  by (metis same_order_mset size_mset)

lemma same_order_trans: "same_order key xs ys \<Longrightarrow> same_order key ys zs \<Longrightarrow> same_order key xs zs"
  by (simp add: same_order_def)

lemma same_order_append: "same_order key xs xs' \<Longrightarrow> same_order key ys ys' \<Longrightarrow> same_order key (xs @ ys) (xs' @ ys')"
  by (simp add: same_order_def)

lemma same_order_refl [simp]: "same_order key xs xs"
  by (simp add: same_order_def)

lemma same_order_Cons: "same_order key xs ys \<Longrightarrow> same_order key (x # xs) (x # ys)"
  by (simp add: same_order_def)

text \<open>An element may move forward over elements with greater keys.\<close>

lemma same_order_move: 
  assumes "\<forall>x \<in> set xs. key b < (key x :: 'k :: linorder)"
  shows "same_order key (b # xs @ ys) (xs @ b # ys)"
proof -
  have "filter (\<lambda>x. key b = key x) xs = []" using assms by (auto simp: filter_empty_conv)
  then show ?thesis by (auto simp: same_order_def)
qed

lemma ordered_same_order_sort_key:
  assumes "ordered key ys" and "same_order key ys xs"
  shows "ys = sort_key key xs"
  using assms properties_for_sort_key [of ys xs key]
  by (simp add: ordered_def same_order_def same_order_mset [OF assms(2)])

subsection \<open>The interface a comparison has to satisfy\<close>

text \<open>Consecutive runs of \<open>d\<close> elements, each in order.\<close>

definition runs :: "('a \<Rightarrow> 'k :: linorder) \<Rightarrow> nat \<Rightarrow> 'a list \<Rightarrow> bool" where
  "runs key d xs \<longleftrightarrow> (\<forall>i. ordered key (take d (drop (i * d) xs)))"

lemma runs_one: "runs key 1 xs"
proof -
  have "ordered key ys" if "length ys \<le> 1" for ys :: "'a list" using that by (cases ys) auto
  then show ?thesis by (simp add: runs_def)
qed

lemma runs_drop: "runs key d xs \<Longrightarrow> runs key d (drop (k * d) xs)"
  by (simp add: runs_def flip: add_mult_distrib)

lemma runs_append:
  assumes "ordered key m" and "length m = d \<or> length m \<le> d \<and> ys = []" and "runs key d ys"
  shows "runs key d (m @ ys)"
  unfolding runs_def
proof
  fix i
  show "ordered key (take d (drop (i * d) (m @ ys)))"
  proof (cases i)
    case 0
    then show ?thesis using assms(1,2) by auto
  next
    case (Suc j)
    show ?thesis
    proof (cases "length m = d")
      case True
      then have "drop (i * d) (m @ ys) = drop (j * d) ys" using Suc by simp
      then show ?thesis using assms(3) by (simp add: runs_def)
    next
      case False
      then have "ys = []" "length m \<le> d" using assms(2) by auto
      then have "drop (i * d) (m @ ys) = []" using Suc by simp
      then show ?thesis by simp
    qed
  qed
qed

text \<open>On the elements it is used for (\<open>valid\<close>) the comparison orders by a key.\<close>

locale keyed_compare =
  fixes cmp :: "'a \<Rightarrow> 'a \<Rightarrow> int" and key :: "'a \<Rightarrow> 'k :: linorder" and valid :: "'a \<Rightarrow> bool"
  assumes cmp_le: "valid a \<Longrightarrow> valid b \<Longrightarrow> cmp a b \<le> 0 \<longleftrightarrow> key a \<le> key b"
    and cmp_less: "valid a \<Longrightarrow> valid b \<Longrightarrow> cmp a b < 0 \<longleftrightarrow> key a < key b"
begin

lemma merge_runs_correct:
  "ordered key l1 \<Longrightarrow> ordered key (take n l2) \<Longrightarrow> l1 \<noteq> [] \<Longrightarrow> l2 \<noteq> [] \<Longrightarrow> 0 < n \<Longrightarrow> \<forall>x \<in> set l1 \<union> set l2. valid x \<Longrightarrow>
   ordered key (fst (merge_runs cmp l1 n l2)) \<and> same_order key (fst (merge_runs cmp l1 n l2)) (l1 @ take n l2)"
proof (induction "length l1 + length l2" arbitrary: l1 n l2 rule: less_induct)
  case less
  obtain a l1' b l2' where l: "l1 = a # l1'" "l2 = b # l2'" using less.prems(3,4) by (meson list.exhaust)
  obtain m where n: "n = Suc m" using less.prems(5) by (cases n) auto
  have valid: "valid a" "valid b" using less.prems(6) l by auto
  show ?case
  proof (cases "cmp a b \<le> 0")
    case True
    then have ab: "key a \<le> key b" using cmp_le valid by simp
    have later: "\<forall>y \<in> set l1' \<union> set (take n l2). key a \<le> key y"
      using less.prems(1,2) l n ab by (auto dest: order_trans)
    show ?thesis
    proof (cases "l1' = []")
      case True
      then have "merge_runs cmp l1 n l2 = (a # take n l2, drop n l2)" using \<open>cmp a b \<le> 0\<close> l by simp
      then show ?thesis using less.prems(2) later l True by simp
    next
      case False
      then have eq: "fst (merge_runs cmp l1 n l2) = a # fst (merge_runs cmp l1' n l2)"
        using \<open>cmp a b \<le> 0\<close> l by (simp split: prod.split)
      have IH: "ordered key (fst (merge_runs cmp l1' n l2))" "same_order key (fst (merge_runs cmp l1' n l2)) (l1' @ take n l2)"
        using less.hyps [of l1' l2 n] less.prems False l by simp_all
      have "set (fst (merge_runs cmp l1' n l2)) = set l1' \<union> set (take n l2)" using same_order_set [OF IH(2)] by simp
      then show ?thesis unfolding eq using IH later l same_order_Cons [OF IH(2), of a] by simp
    qed
  next
    case False
    then have ba: "key b < key a" using cmp_le valid by (simp add: not_le)
    have above: "\<forall>x \<in> set l1. key b < key x" using less.prems(1) l ba by (auto dest: less_le_trans)
    have later: "\<forall>y \<in> set l1 \<union> set (take m l2'). key b \<le> key y"
      using above less.prems(2) l n by (auto dest: less_imp_le)
    show ?thesis
    proof (cases "m = 0 \<or> l2' = []")
      case True
      then have "merge_runs cmp l1 n l2 = (b # l1, l2')" "take n l2 = [b]" using False l n by auto
      then show ?thesis using less.prems(1) later same_order_move [OF above, of "[]"] by auto
    next
      case False
      then have eq: "fst (merge_runs cmp l1 n l2) = b # fst (merge_runs cmp l1 m l2')"
        using \<open>\<not> cmp a b \<le> 0\<close> l n by (simp split: prod.split)
      have IH: "ordered key (fst (merge_runs cmp l1 m l2'))" "same_order key (fst (merge_runs cmp l1 m l2')) (l1 @ take m l2')"
        using less.hyps [of l1 l2' m] less.prems False l n by auto
      have "set (fst (merge_runs cmp l1 m l2')) = set l1 \<union> set (take m l2')" using same_order_set [OF IH(2)] by simp
      moreover have "same_order key (b # fst (merge_runs cmp l1 m l2')) (l1 @ b # take m l2')"
        using same_order_trans [OF same_order_Cons [OF IH(2)] same_order_move [OF above]] .
      ultimately show ?thesis unfolding eq using IH(1) later l n by simp
    qed
  qed
qed

lemma sort_pass_correct:
  "runs key d xs \<Longrightarrow> 0 < d \<Longrightarrow> \<forall>x \<in> set xs. valid x \<Longrightarrow>
   runs key (2 * d) (fst (sort_pass cmp d xs)) \<and> same_order key (fst (sort_pass cmp d xs)) xs \<and>
   (snd (sort_pass cmp d xs) \<le> 1 \<longleftrightarrow> length xs \<le> 2 * d)"
proof (induction "length xs" arbitrary: xs rule: less_induct)
  case less
  consider "xs = []" | "xs \<noteq> []" "drop d xs = []" | "xs \<noteq> []" "drop d xs \<noteq> []" by blast
  then show ?case
  proof cases
    case 1
    then show ?thesis by (simp add: sort_pass.simps runs_def)
  next
    case 2
    have "ordered key xs" using less.prems(1) 2(2) spec [of "\<lambda>i. ordered key (take d (drop (i * d) xs))" 0]
      by (simp add: runs_def)
    then have "runs key (2 * d) (xs @ [])" using 2 by (intro runs_append) (auto simp: runs_def)
    then show ?thesis using 2 by (simp add: sort_pass.simps [of cmp d xs])
  next
    case 3
    let ?m = "merge_runs cmp (take d xs) d (drop d xs)"
    have rest: "snd ?m = drop (2 * d) xs"
      using merge_runs_rest [of "take d xs" "drop d xs" d cmp] 3 less.prems(2) by (simp add: mult_2)
    have first: "ordered key (take d xs)" "ordered key (take d (drop d xs))"
      using less.prems(1) spec [of "\<lambda>i. ordered key (take d (drop (i * d) xs))" 0]
        spec [of "\<lambda>i. ordered key (take d (drop (i * d) xs))" 1] by (simp_all add: runs_def)
    have valid: "\<forall>x \<in> set (take d xs) \<union> set (drop d xs). valid x"
      using less.prems(3) by (auto dest: in_set_takeD in_set_dropD)
    have m: "ordered key (fst ?m)" "same_order key (fst ?m) (take d xs @ take d (drop d xs))"
      using merge_runs_correct [OF first _ 3(2) less.prems(2) valid] 3(1) less.prems(2) by simp_all
    have both: "take d xs @ take d (drop d xs) = take (2 * d) xs" by (simp add: take_add mult_2)
    have out: "sort_pass cmp d xs = (fst ?m @ fst (sort_pass cmp d (drop (2 * d) xs)), snd (sort_pass cmp d (drop (2 * d) xs)) + 1)"
    proof -
      have "sort_pass cmp d xs = (fst ?m @ fst (sort_pass cmp d (snd ?m)), snd (sort_pass cmp d (snd ?m)) + 1)"
        using 3 less.prems(2) by (subst sort_pass.simps) (simp add: case_prod_beta del: drop_eq_Nil)
      then show ?thesis by (simp only: rest)
    qed
    have IH: "runs key (2 * d) (fst (sort_pass cmp d (drop (2 * d) xs)))"
      "same_order key (fst (sort_pass cmp d (drop (2 * d) xs))) (drop (2 * d) xs)"
      "snd (sort_pass cmp d (drop (2 * d) xs)) \<le> 1 \<longleftrightarrow> length (drop (2 * d) xs) \<le> 2 * d"
      using less.hyps [of "drop (2 * d) xs"] less.prems runs_drop [OF less.prems(1), of 2] 3(1)
      by (auto dest: in_set_dropD)
    have len: "length (fst ?m) = length (take (2 * d) xs)" using same_order_length [OF m(2)] both by simp
    have "length (fst ?m) = 2 * d \<or> length (fst ?m) \<le> 2 * d \<and> fst (sort_pass cmp d (drop (2 * d) xs)) = []"
    proof (cases "length xs \<le> 2 * d")
      case True
      then have "drop (2 * d) xs = []" by simp
      then show ?thesis using len by (simp add: sort_pass.simps [of _ _ "[]"])
    qed (simp add: len)
    then have "runs key (2 * d) (fst (sort_pass cmp d xs))"
      unfolding out using m(1) IH(1) by (simp add: runs_append)
    moreover have "same_order key (fst (sort_pass cmp d xs)) xs"
      using same_order_append [OF m(2) IH(2)] unfolding both out by simp
    moreover have "snd (sort_pass cmp d xs) \<le> 1 \<longleftrightarrow> length xs \<le> 2 * d"
    proof (cases "length xs \<le> 2 * d")
      case True
      then show ?thesis unfolding out by (simp add: sort_pass.simps)
    next
      case False
      then have "drop (2 * d) xs \<noteq> []" by simp
      then have "snd (sort_pass cmp d (drop (2 * d) xs)) \<noteq> 0" by (subst sort_pass.simps) (simp split: prod.split)
      then show ?thesis unfolding out using False by simp
    qed
    ultimately show ?thesis by blast
  qed
qed

lemma sort_from_correct:
  "runs key d xs \<Longrightarrow> 0 < d \<Longrightarrow> \<forall>x \<in> set xs. valid x \<Longrightarrow> length xs < f + d \<Longrightarrow> 0 < f \<Longrightarrow>
   \<exists>ys. sort_from f cmp d xs = Some ys \<and> ordered key ys \<and> same_order key ys xs"
proof (induction f arbitrary: d xs)
  case (Suc f)
  obtain ys cnt where pass: "sort_pass cmp d xs = (ys, cnt)" by fastforce
  have ys: "runs key (2 * d) ys" "same_order key ys xs" "cnt \<le> 1 \<longleftrightarrow> length xs \<le> 2 * d"
    using sort_pass_correct [OF Suc.prems(1-3)] pass by simp_all
  show ?case
  proof (cases "cnt \<le> 1")
    case True
    then have "length ys \<le> 2 * d" using ys(3) same_order_length [OF ys(2)] by simp
    then have "ordered key ys" using ys(1) spec [of "\<lambda>i. ordered key (take (2 * d) (drop (i * (2 * d)) ys))" 0]
      by (simp add: runs_def)
    then show ?thesis using True pass ys(2) by simp
  next
    case False
    then have "2 * d < length xs" using ys(3) by simp
    then have fuel: "length ys < f + d * 2" "0 < f" "0 < d * 2"
      using Suc.prems(2,4) same_order_length [OF ys(2)] by simp_all
    have "\<forall>x \<in> set ys. valid x" using Suc.prems(3) same_order_set [OF ys(2)] by simp
    from Suc.IH [OF _ fuel(3) this fuel(1,2)] ys(1) obtain zs where
      "sort_from f cmp (d * 2) ys = Some zs" "ordered key zs" "same_order key zs ys" by (auto simp: mult.commute)
    then show ?thesis using False pass same_order_trans [OF _ ys(2)] by auto
  qed
qed simp

lemma list_sort_stable:
  assumes "\<forall>x \<in> set xs. valid x"
  shows "psync_list_sort cmp xs = Some (sort_key key xs)"
proof (cases "xs = []")
  case False
  obtain ys where "sort_from (length xs) cmp 1 xs = Some ys" "ordered key ys" "same_order key ys xs"
    using sort_from_correct [OF runs_one _ assms, of "length xs"] False by auto
  then show ?thesis using False ordered_same_order_sort_key by (auto simp: psync_list_sort_def)
qed (simp add: psync_list_sort_def)

text \<open>Pairing off equal elements of two ordered lists.\<close>

lemma extract_loop_correct:
  assumes "extract_loop cmp l1 l2 = (k1, k2, e1, e2)" and "ordered key l1" and "ordered key l2"
    and "\<forall>x \<in> set l1 \<union> set l2. valid x"
  shows "mset l1 = mset k1 + mset e1 \<and> mset l2 = mset k2 + mset e2 \<and> map key e1 = map key e2 \<and>
    key ` set k1 \<inter> key ` set k2 = {}"
  using assms
proof (induction "length l1 + length l2" arbitrary: l1 l2 k1 k2 e1 e2 rule: less_induct)
  case less
  show ?case
  proof (cases "l1 = [] \<or> l2 = []")
    case True
    then show ?thesis using less.prems(1) by (cases l1; cases l2) auto
  next
    case False
    then obtain a l1' b l2' where l: "l1 = a # l1'" "l2 = b # l2'" by (meson list.exhaust)
    have valid: "valid a" "valid b" using less.prems(4) l by auto
    consider (less) "key a < key b" | (greater) "key b < key a" | (eq) "key a = key b" by fastforce
    then show ?thesis
    proof cases
      case less
      then obtain j1 where j: "extract_loop cmp l1' l2 = (j1, k2, e1, e2)" "k1 = a # j1"
        using less.prems(1) l cmp_less valid by (auto split: prod.splits)
      then have IH: "mset l1' = mset j1 + mset e1" "mset l2 = mset k2 + mset e2" "map key e1 = map key e2"
          "key ` set j1 \<inter> key ` set k2 = {}"
        using less.hyps [of l1' l2 j1 k2 e1 e2] less.prems l by simp_all
      have "set k2 \<subseteq> set l2" using IH(2) by (metis set_mset_mset set_mset_union Un_upper1)
      moreover have "\<forall>y \<in> set l2. key a < key y" using less less.prems(3) l by (auto dest: less_le_trans)
      ultimately have "key a \<notin> key ` set k2" by fastforce
      then show ?thesis using IH j l by auto
    next
      case greater
      then have "\<not> cmp a b < 0" "0 < cmp a b" using cmp_le [of a b] cmp_less [of a b] valid by auto
      then obtain j2 where j: "extract_loop cmp l1 l2' = (k1, j2, e1, e2)" "k2 = b # j2"
        using less.prems(1) l by (auto split: prod.splits)
      then have IH: "mset l1 = mset k1 + mset e1" "mset l2' = mset j2 + mset e2" "map key e1 = map key e2"
          "key ` set k1 \<inter> key ` set j2 = {}"
        using less.hyps [of l1 l2' k1 j2 e1 e2] less.prems l by simp_all
      have "set k1 \<subseteq> set l1" using IH(1) by (metis set_mset_mset set_mset_union Un_upper1)
      moreover have "\<forall>y \<in> set l1. key b < key y" using greater less.prems(2) l by (auto dest: less_le_trans)
      ultimately have "key b \<notin> key ` set k1" by fastforce
      then show ?thesis using IH j l by auto
    next
      case eq
      then have "\<not> cmp a b < 0" "\<not> 0 < cmp a b" using cmp_le [of a b] cmp_less [of a b] valid by auto
      then obtain f1 f2 where j: "extract_loop cmp l1' l2' = (k1, k2, f1, f2)" "e1 = a # f1" "e2 = b # f2"
        using less.prems(1) l by (auto split: prod.splits)
      then have "mset l1' = mset k1 + mset f1" "mset l2' = mset k2 + mset f2" "map key f1 = map key f2"
          "key ` set k1 \<inter> key ` set k2 = {}"
        using less.hyps [of l1' l2' k1 k2 f1 f2] less.prems l by simp_all
      then show ?thesis using eq j l by auto
    qed
  qed
qed

lemma extract_repeating_pairs:
  assumes "\<forall>x \<in> set l1 \<union> set l2. valid x"
  shows "\<exists>k1 k2 e1 e2. psync_list_extract_repeating l1 l2 x1 x2 cmp = Some (k1, k2, x1 @ e1, x2 @ e2) \<and>
    mset l1 = mset k1 + mset e1 \<and> mset l2 = mset k2 + mset e2 \<and> map key e1 = map key e2 \<and>
    key ` set k1 \<inter> key ` set k2 = {}"
proof -
  obtain k1 k2 e1 e2 where e: "extract_loop cmp (sort_key key l1) (sort_key key l2) = (k1, k2, e1, e2)"
    by (metis prod_cases4)
  have "psync_list_sort cmp l1 = Some (sort_key key l1)" "psync_list_sort cmp l2 = Some (sort_key key l2)"
    using assms by (simp_all add: list_sort_stable)
  moreover have "mset l1 = mset k1 + mset e1 \<and> mset l2 = mset k2 + mset e2 \<and> map key e1 = map key e2 \<and>
      key ` set k1 \<inter> key ` set k2 = {}"
    using extract_loop_correct [OF e] assms by (simp add: ordered_def)
  ultimately show ?thesis using e by (simp add: psync_list_extract_repeating_def)
qed

end

end
