(* ===== verification/Plocalscan.thy ===== *)
theory Plocalscan
  imports Plist Pcodec "HOL-Library.List_Lexorder" "HOL-Library.Product_Lexorder"
begin

section \<open>Scanning local folders for changes (plocalscan.c)\<close>

text \<open>
  \<open>scanner_scan_folder\<close> sorts what is on disk and what the database knows by name, walks both lists
  and appends the differences to the scan lists; \<open>scanner_scan\<close> then pairs deleted with new elements
  to find what was renamed. Listing a directory and reading and writing the database are arguments
  of the definitions; names are byte lists without a zero byte.
\<close>

subsection \<open>Data\<close>

record sync_folderlist =
  localid :: u64
  remoteid :: u64
  localparentfolderid :: u64
  parentfolderid :: u64
  inode :: u64
  deviceid :: u64
  mtimenat :: u64
  size_of :: u64
  syncid :: u32
  synctype :: u32
  isfolder :: bool
  name :: "byte list"

datatype scan_list_id =
    SCAN_LIST_NEWFILES | SCAN_LIST_DELFILES | SCAN_LIST_NEWFOLDERS | SCAN_LIST_DELFOLDERS | SCAN_LIST_MODFILES
  | SCAN_LIST_RENFILESFROM | SCAN_LIST_RENFILESTO | SCAN_LIST_RENFOLDERSROM | SCAN_LIST_RENFOLDERSTO

text \<open>The scanner's globals, and the statements it ran on the table of local folders (id, device).\<close>

record scanner =
  scan_lists :: "scan_list_id \<Rightarrow> sync_folderlist list"
  changes :: nat
  localsleepperfolder :: nat
  device_updates :: "(u64 \<times> u64) list"

text \<open>What the caller of \<open>scanner_scan_folder\<close> passes down: folder, local folder, sync, kind of sync.\<close>

record scan_place =
  at_folderid :: u64
  at_localfolderid :: u64
  at_syncid :: u32
  at_synctype :: u32

subsection \<open>Comparisons\<close>

text \<open>\<open>strcmp\<close> on strings whose end compares below every byte.\<close>

fun psync_filename_cmp :: "byte list \<Rightarrow> byte list \<Rightarrow> int" where
  "psync_filename_cmp [] [] = 0"
| "psync_filename_cmp [] (b # bs) = - 1"
| "psync_filename_cmp (a # as) [] = 1"
| "psync_filename_cmp (a # as) (b # bs) = (if a = b then psync_filename_cmp as bs else if a < b then - 1 else 1)"

definition folderlist_cmp :: "sync_folderlist \<Rightarrow> sync_folderlist \<Rightarrow> int" where
  "folderlist_cmp l1 l2 = psync_filename_cmp (name l1) (name l2)"

definition compare_sizeinodemtime :: "sync_folderlist \<Rightarrow> sync_folderlist \<Rightarrow> int" where
  "compare_sizeinodemtime f1 f2 =
     (let d = sint (size_of f1 - size_of f2) in
      if d < 0 then - 1 else if d > 0 then 1
      else let d = sint (inode f1 - inode f2) in
      if d < 0 then - 1 else if d > 0 then 1
      else let d = sint (mtimenat f1 - mtimenat f2) in
      if d < 0 then - 1 else if d > 0 then 1 else 0)"

definition compare_inode :: "sync_folderlist \<Rightarrow> sync_folderlist \<Rightarrow> int" where
  "compare_inode f1 f2 =
     (let d = sint (inode f1 - inode f2) in if d < 0 then - 1 else if d > 0 then 1 else 0)"

subsection \<open>Names that are not synchronised (psynclib.c)\<close>

definition tolower :: "byte \<Rightarrow> byte" where
  "tolower c = (if 65 \<le> c \<and> c \<le> 90 then c + 32 else c)"

definition isspace :: "byte \<Rightarrow> bool" where
  "isspace c \<longleftrightarrow> c = 32 \<or> 9 \<le> c \<and> c \<le> 13"

definition trim_pattern :: "byte list \<Rightarrow> byte list" where
  "trim_pattern pt = rev (dropWhile isspace (rev (dropWhile isspace pt)))"

text \<open>The patterns of the setting, cut at each semicolon; the name is matched in lower case.\<close>

function ignore_loop :: "byte list \<Rightarrow> byte list \<Rightarrow> bool" where
  "ignore_loop namelower ign =
     (let pt = takeWhile (\<lambda>c. c \<noteq> 59) ign in
      if psync_match_pattern namelower (trim_pattern pt) then True
      else if 59 \<in> set ign then ignore_loop namelower (drop (length pt + 1) ign)
      else False)"
  by pat_completeness auto
termination
proof (relation "measure (\<lambda>(n, ign). length ign)", goal_cases)
  case (2 namelower ign pt)
  then have "length ign \<noteq> 0" by auto
  then show ?case by simp
qed simp

declare ignore_loop.simps [simp del]

definition psync_is_name_to_ignore :: "byte list \<Rightarrow> byte list \<Rightarrow> bool" where
  "psync_is_name_to_ignore ignorepatterns nm = ignore_loop (List.map tolower nm) ignorepatterns"

subsection \<open>The differences of one folder\<close>

definition copy_folderlist_element :: "sync_folderlist \<Rightarrow> scan_place \<Rightarrow> sync_folderlist" where
  "copy_folderlist_element e p = e\<lparr>localparentfolderid := at_localfolderid p, parentfolderid := at_folderid p,
     syncid := at_syncid p, synctype := at_synctype p\<rparr>"

definition add_element_to_scan_list :: "scan_list_id \<Rightarrow> sync_folderlist \<Rightarrow> scanner \<Rightarrow> scanner" where
  "add_element_to_scan_list i e s = s\<lparr>scan_lists := (scan_lists s)(i := scan_lists s i @ [e]),
     localsleepperfolder := 0, changes := changes s + 1\<rparr>"

definition add_new_element :: "byte list \<Rightarrow> sync_folderlist \<Rightarrow> scan_place \<Rightarrow> scanner \<Rightarrow> scanner" where
  "add_new_element ign e p s =
     (if psync_is_name_to_ignore ign (name e) then s
      else if isfolder e then add_element_to_scan_list SCAN_LIST_NEWFOLDERS (copy_folderlist_element e p) s
      else add_element_to_scan_list SCAN_LIST_NEWFILES (copy_folderlist_element e p) s)"

definition add_deleted_element :: "sync_folderlist \<Rightarrow> scan_place \<Rightarrow> scanner \<Rightarrow> scanner" where
  "add_deleted_element e p s =
     (if isfolder e then add_element_to_scan_list SCAN_LIST_DELFOLDERS (copy_folderlist_element e p) s
      else add_element_to_scan_list SCAN_LIST_DELFILES (copy_folderlist_element e p) s)"

definition add_modified_file :: "sync_folderlist \<Rightarrow> scan_place \<Rightarrow> scanner \<Rightarrow> scanner" where
  "add_modified_file e p s = add_element_to_scan_list SCAN_LIST_MODFILES (copy_folderlist_element e p) s"

text \<open>An element found on disk and in the database: the element of the disk list afterwards.\<close>

definition scan_same :: "byte list \<Rightarrow> u64 \<Rightarrow> scan_place \<Rightarrow> sync_folderlist \<Rightarrow> sync_folderlist \<Rightarrow> scanner \<Rightarrow> sync_folderlist \<times> scanner" where
  "scan_same ign dev p fdisk fdb s =
     (if isfolder fdisk = isfolder fdb then
        let fdisk = fdisk\<lparr>localid := localid fdb, remoteid := remoteid fdb\<rparr>;
            s = (if \<not> isfolder fdisk \<and> (mtimenat fdisk \<noteq> mtimenat fdb \<or> size_of fdisk \<noteq> size_of fdb \<or> inode fdisk \<noteq> inode fdb)
                 then add_modified_file fdisk p s else s)
        in if isfolder fdisk \<and> deviceid fdisk \<noteq> deviceid fdb then
             (if deviceid fdisk = dev then (fdisk\<lparr>localid := 0\<rparr>, s)
              else (fdisk, s\<lparr>device_updates := device_updates s @ [(localid fdisk, deviceid fdisk)]\<rparr>))
           else (fdisk, s)
      else (fdisk, add_new_element ign fdisk p (add_deleted_element fdb p s)))"

fun scan_compare :: "byte list \<Rightarrow> u64 \<Rightarrow> scan_place \<Rightarrow> sync_folderlist list \<Rightarrow> sync_folderlist list \<Rightarrow> scanner \<Rightarrow>
    sync_folderlist list \<times> scanner" where
  "scan_compare ign dev p (fdisk # disklist) (fdb # dblist) s =
     (let cmp = psync_filename_cmp (name fdisk) (name fdb) in
      if cmp = 0 then
        (case scan_same ign dev p fdisk fdb s of (e, s) \<Rightarrow>
           (case scan_compare ign dev p disklist dblist s of (l, s) \<Rightarrow> (e # l, s)))
      else if cmp < 0 then
        (case scan_compare ign dev p disklist (fdb # dblist) (add_new_element ign fdisk p s) of (l, s) \<Rightarrow> (fdisk # l, s))
      else scan_compare ign dev p (fdisk # disklist) dblist (add_deleted_element fdb p s))"
| "scan_compare ign dev p (fdisk # disklist) [] s =
     (case scan_compare ign dev p disklist [] (add_new_element ign fdisk p s) of (l, s) \<Rightarrow> (fdisk # l, s))"
| "scan_compare ign dev p [] (fdb # dblist) s = scan_compare ign dev p [] dblist (add_deleted_element fdb p s)"
| "scan_compare ign dev p [] [] s = ([], s)"

definition scan_diff :: "byte list \<Rightarrow> u64 \<Rightarrow> scan_place \<Rightarrow> sync_folderlist list \<Rightarrow> sync_folderlist list \<Rightarrow> scanner \<Rightarrow>
    (sync_folderlist list \<times> scanner) option" where
  "scan_diff ign dev p disklist dblist s =
     (case (psync_list_sort folderlist_cmp dblist, psync_list_sort folderlist_cmp disklist) of
        (Some db, Some disk) \<Rightarrow> Some (scan_compare ign dev p disk db s)
      | _ \<Rightarrow> None)"

text \<open>
  The scan of a folder and of the folders below it. \<open>dir\<close> lists a directory (nothing when that
  fails), \<open>db\<close> reads the elements of a local folder of a sync from the database. The fuel bounds the
  depth of the tree; the pauses between folders are left out.
\<close>

fun scanner_scan_folder :: "nat \<Rightarrow> (byte list \<Rightarrow> sync_folderlist list option) \<Rightarrow> (u32 \<Rightarrow> u64 \<Rightarrow> sync_folderlist list) \<Rightarrow>
    byte list \<Rightarrow> byte list \<Rightarrow> u64 \<Rightarrow> scan_place \<Rightarrow> scanner \<Rightarrow> scanner option" where
  "scanner_scan_folder 0 dir db ign localpath dev p s = None"
| "scanner_scan_folder (Suc f) dir db ign localpath dev p s =
     (case dir localpath of
        None \<Rightarrow> Some s
      | Some disklist \<Rightarrow>
          (case scan_diff ign dev p disklist (db (at_syncid p) (at_localfolderid p)) s of
             None \<Rightarrow> None
           | Some (disk, s) \<Rightarrow>
               fold (\<lambda>l so. if isfolder l \<and> localid l \<noteq> 0 then
                   (case so of None \<Rightarrow> None
                    | Some s \<Rightarrow> scanner_scan_folder f dir db ign (localpath @ [47] @ name l) (deviceid l)
                        (p\<lparr>at_folderid := remoteid l, at_localfolderid := localid l\<rparr>) s)
                 else so) disk (Some s)))"

subsection \<open>Renames and the actions of a scan\<close>

definition extract_renames :: "scan_list_id \<Rightarrow> scan_list_id \<Rightarrow> scan_list_id \<Rightarrow> scan_list_id \<Rightarrow>
    (sync_folderlist \<Rightarrow> sync_folderlist \<Rightarrow> int) \<Rightarrow> scanner \<Rightarrow> scanner option" where
  "extract_renames del new from to cmp s =
     (case psync_list_extract_repeating (scan_lists s del) (scan_lists s new) (scan_lists s from) (scan_lists s to) cmp of
        None \<Rightarrow> None
      | Some (d, n, f, t) \<Rightarrow> Some (s\<lparr>scan_lists := (scan_lists s)(del := d, new := n, from := f, to := t)\<rparr>))"

datatype scan_action =
    RenameFolder sync_folderlist sync_folderlist
  | CreateFolder sync_folderlist
  | RenameFile sync_folderlist sync_folderlist
  | UploadFile sync_folderlist
  | UploadModified sync_folderlist
  | DeleteFile sync_folderlist
  | DeleteFolder sync_folderlist

text \<open>
  One round on the folders. The renamed folders are handled first, and each is scanned at once, which may add to the
  lists; the folders then new are created, and are scanned after all of them have been. \<open>renamed\<close> and \<open>created\<close> are
  these scans, \<open>scanner_scan_folder\<close> at the path the database has for the folder by then.
\<close>

definition scan_all :: "('a \<Rightarrow> scanner \<Rightarrow> scanner option) \<Rightarrow> 'a list \<Rightarrow> scanner \<Rightarrow> scanner option" where
  "scan_all scan xs s = fold (\<lambda>x so. Option.bind so (scan x)) xs (Some s)"

definition scan_folder_actions :: "(sync_folderlist \<times> sync_folderlist \<Rightarrow> scanner \<Rightarrow> scanner option) \<Rightarrow>
    (sync_folderlist \<Rightarrow> scanner \<Rightarrow> scanner option) \<Rightarrow> scanner \<Rightarrow> (scan_action list \<times> scanner) option" where
  "scan_folder_actions renamed created s =
     (case extract_renames SCAN_LIST_DELFOLDERS SCAN_LIST_NEWFOLDERS SCAN_LIST_RENFOLDERSROM SCAN_LIST_RENFOLDERSTO compare_inode s of
        None \<Rightarrow> None
      | Some s \<Rightarrow>
          (let pairs = zip (scan_lists s SCAN_LIST_RENFOLDERSROM) (scan_lists s SCAN_LIST_RENFOLDERSTO) in
           case scan_all renamed pairs s of
             None \<Rightarrow> None
           | Some s \<Rightarrow>
               (let news = scan_lists s SCAN_LIST_NEWFOLDERS;
                    s = s\<lparr>scan_lists := (scan_lists s)(SCAN_LIST_RENFOLDERSROM := [], SCAN_LIST_RENFOLDERSTO := [], SCAN_LIST_NEWFOLDERS := [])\<rparr> in
                case scan_all created news s of
                  None \<Rightarrow> None
                | Some s \<Rightarrow> Some (List.map (\<lambda>(a, b). RenameFolder a b) pairs @ List.map CreateFolder news, s))))"

definition scan_file_actions :: "scanner \<Rightarrow> scan_action list option" where
  "scan_file_actions s =
     (case extract_renames SCAN_LIST_DELFILES SCAN_LIST_NEWFILES SCAN_LIST_RENFILESFROM SCAN_LIST_RENFILESTO compare_sizeinodemtime s of
        None \<Rightarrow> None
      | Some s \<Rightarrow>
          Some (map2 RenameFile (scan_lists s SCAN_LIST_RENFILESFROM) (scan_lists s SCAN_LIST_RENFILESTO)
                  @ List.map UploadFile (scan_lists s SCAN_LIST_NEWFILES)
                  @ List.map UploadModified (scan_lists s SCAN_LIST_MODFILES)
                  @ List.map DeleteFile (scan_lists s SCAN_LIST_DELFILES)
                  @ List.map DeleteFolder (scan_lists s SCAN_LIST_DELFOLDERS)))"

subsection \<open>The comparisons order by a key\<close>

lemma filename_cmp_order:
  "(psync_filename_cmp a b \<le> 0 \<longleftrightarrow> a \<le> b) \<and> (psync_filename_cmp a b < 0 \<longleftrightarrow> a < b) \<and> (psync_filename_cmp a b = 0 \<longleftrightarrow> a = b)"
  by (induction a b rule: psync_filename_cmp.induct) (auto simp: le_less)

interpretation by_name: keyed_compare folderlist_cmp name "\<lambda>_. True"
  by unfold_locales (simp_all add: folderlist_cmp_def filename_cmp_order)

text \<open>Below \<open>2\<^sup>6\<^sup>3\<close> the difference of two numbers, read as signed, has the sign of the order.\<close>

definition below63 :: "u64 \<Rightarrow> bool" where
  "below63 x \<longleftrightarrow> x < 0x8000000000000000"

lemma sint_diff:
  assumes "below63 a" and "below63 b"
  shows "sint (a - b) = uint a - uint b"
proof -
  have "uint a < 2 ^ 63" "uint b < 2 ^ 63" "0 \<le> uint a" "0 \<le> uint b"
    using assms by (simp_all add: below63_def word_less_def)
  then have "- (2 ^ 63) \<le> uint a - uint b" "uint a - uint b < 2 ^ 63" by linarith+
  then have "signed_take_bit 63 (uint a - uint b) = uint a - uint b" by (rule signed_take_bit_int_eq_self)
  moreover have "uint (a - b) = take_bit 64 (uint a - uint b)"
    by (simp add: uint_word_ariths take_bit_eq_mod)
  ultimately show ?thesis by (simp add: sint_uint signed_take_bit_take_bit)
qed

definition valid_key :: "sync_folderlist \<Rightarrow> bool" where
  "valid_key f \<longleftrightarrow> below63 (size_of f) \<and> below63 (inode f) \<and> below63 (mtimenat f)"

definition stat_key :: "sync_folderlist \<Rightarrow> int \<times> int \<times> int" where
  "stat_key f = (uint (size_of f), uint (inode f), uint (mtimenat f))"

interpretation by_inode: keyed_compare compare_inode "\<lambda>f. uint (inode f)" valid_key
  by unfold_locales (simp_all add: compare_inode_def valid_key_def sint_diff Let_def)

interpretation by_stat: keyed_compare compare_sizeinodemtime stat_key valid_key
  by unfold_locales (auto simp: compare_sizeinodemtime_def valid_key_def stat_key_def sint_diff Let_def)

text \<open>On larger values the comparison is no order: it goes round in a circle.\<close>

lemma compare_inode_cyclic:
  "\<exists>a b c. compare_inode a b < 0 \<and> compare_inode b c < 0 \<and> compare_inode c a < 0"
proof -
  let ?f = "\<lambda>i. \<lparr>localid = 0, remoteid = 0, localparentfolderid = 0, parentfolderid = 0, inode = i, deviceid = 0,
    mtimenat = 0, size_of = 0, syncid = 0, synctype = 0, isfolder = True, name = []\<rparr>"
  have "compare_inode (?f 0) (?f 0x6000000000000000) < 0 \<and> compare_inode (?f 0x6000000000000000) (?f 0xC000000000000000) < 0 \<and>
      compare_inode (?f 0xC000000000000000) (?f 0) < 0"
    by code_simp
  then show ?thesis by blast
qed

subsection \<open>What the walk finds\<close>

text \<open>The element of the same name in the other list, and what the walk makes of a disk element.\<close>

definition twin :: "sync_folderlist list \<Rightarrow> sync_folderlist \<Rightarrow> sync_folderlist option" where
  "twin xs e = List.find (\<lambda>x. name x = name e) xs"

definition same_kind :: "sync_folderlist list \<Rightarrow> sync_folderlist \<Rightarrow> bool" where
  "same_kind xs e = (case twin xs e of Some x \<Rightarrow> isfolder x = isfolder e | None \<Rightarrow> False)"

definition with_ids :: "sync_folderlist list \<Rightarrow> sync_folderlist \<Rightarrow> sync_folderlist" where
  "with_ids db f = (case twin db f of Some d \<Rightarrow> f\<lparr>localid := localid d, remoteid := remoteid d\<rparr> | None \<Rightarrow> f)"

definition content_differs :: "sync_folderlist list \<Rightarrow> sync_folderlist \<Rightarrow> bool" where
  "content_differs db f = (case twin db f of
     Some d \<Rightarrow> mtimenat f \<noteq> mtimenat d \<or> size_of f \<noteq> size_of d \<or> inode f \<noteq> inode d | None \<Rightarrow> False)"

definition matched_element :: "u64 \<Rightarrow> sync_folderlist list \<Rightarrow> sync_folderlist \<Rightarrow> sync_folderlist" where
  "matched_element dev db f =
     (if same_kind db f then
        (let f' = with_ids db f in
         if isfolder f \<and> deviceid f \<noteq> deviceid (the (twin db f)) \<and> deviceid f = dev then f'\<lparr>localid := 0\<rparr> else f')
      else f)"

fun found :: "byte list \<Rightarrow> sync_folderlist list \<Rightarrow> sync_folderlist list \<Rightarrow> scan_list_id \<Rightarrow> sync_folderlist list" where
  "found ign disk db SCAN_LIST_NEWFILES =
     filter (\<lambda>f. \<not> isfolder f \<and> \<not> same_kind db f \<and> \<not> psync_is_name_to_ignore ign (name f)) disk"
| "found ign disk db SCAN_LIST_NEWFOLDERS =
     filter (\<lambda>f. isfolder f \<and> \<not> same_kind db f \<and> \<not> psync_is_name_to_ignore ign (name f)) disk"
| "found ign disk db SCAN_LIST_DELFILES = filter (\<lambda>d. \<not> isfolder d \<and> \<not> same_kind disk d) db"
| "found ign disk db SCAN_LIST_DELFOLDERS = filter (\<lambda>d. isfolder d \<and> \<not> same_kind disk d) db"
| "found ign disk db SCAN_LIST_MODFILES =
     List.map (with_ids db) (filter (\<lambda>f. \<not> isfolder f \<and> same_kind db f \<and> content_differs db f) disk)"
| "found ign disk db _ = []"

text \<open>What one step adds to a list.\<close>

definition found_new :: "byte list \<Rightarrow> sync_folderlist \<Rightarrow> scan_list_id \<Rightarrow> sync_folderlist list" where
  "found_new ign f i = (if \<not> psync_is_name_to_ignore ign (name f) \<and>
     ((i = SCAN_LIST_NEWFILES \<and> \<not> isfolder f) \<or> (i = SCAN_LIST_NEWFOLDERS \<and> isfolder f)) then [f] else [])"

definition found_del :: "sync_folderlist \<Rightarrow> scan_list_id \<Rightarrow> sync_folderlist list" where
  "found_del d i = (if (i = SCAN_LIST_DELFILES \<and> \<not> isfolder d) \<or> (i = SCAN_LIST_DELFOLDERS \<and> isfolder d) then [d] else [])"

definition found_both :: "byte list \<Rightarrow> sync_folderlist \<Rightarrow> sync_folderlist \<Rightarrow> scan_list_id \<Rightarrow> sync_folderlist list" where
  "found_both ign f d i =
    (if isfolder f = isfolder d then
       (if i = SCAN_LIST_MODFILES \<and> \<not> isfolder f \<and> (mtimenat f \<noteq> mtimenat d \<or> size_of f \<noteq> size_of d \<or> inode f \<noteq> inode d)
        then [f\<lparr>localid := localid d, remoteid := remoteid d\<rparr>] else [])
     else found_del d i @ found_new ign f i)"

lemmas found_step_defs = found_new_def found_del_def found_both_def

lemma twin_simps [simp]:
  "twin [] e = None"
  "twin (x # xs) e = (if name x = name e then Some x else twin xs e)"
  by (simp_all add: twin_def)

lemma twin_none: "(\<And>x. x \<in> set xs \<Longrightarrow> name x \<noteq> name e) \<Longrightarrow> twin xs e = None"
  by (auto simp: twin_def find_None_iff)

abbreviation ascending :: "sync_folderlist list \<Rightarrow> bool" where
  "ascending xs \<equiv> sorted_wrt (\<lambda>x y. name x < name y) xs"

text \<open>A first element below every name of the other list does not matter to that list.\<close>

lemma skip_first:
  assumes "\<And>y. y \<in> set ys \<Longrightarrow> name x \<noteq> name y"
  shows "\<And>y. y \<in> set ys \<Longrightarrow> same_kind (x # xs) y = same_kind xs y"
    and "\<And>y. y \<in> set ys \<Longrightarrow> content_differs (x # xs) y = content_differs xs y"
    and "\<And>y. y \<in> set ys \<Longrightarrow> with_ids (x # xs) y = with_ids xs y"
    and "\<And>y. y \<in> set ys \<Longrightarrow> matched_element dev (x # xs) y = matched_element dev xs y"
proof -
  fix y assume "y \<in> set ys"
  then have "twin (x # xs) y = twin xs y" using assms by simp
  then show "same_kind (x # xs) y = same_kind xs y" "content_differs (x # xs) y = content_differs xs y"
    "with_ids (x # xs) y = with_ids xs y" "matched_element dev (x # xs) y = matched_element dev xs y"
    by (simp_all only: same_kind_def content_differs_def with_ids_def matched_element_def)
qed

lemma found_skip_db:
  assumes "\<And>f. f \<in> set disk \<Longrightarrow> name d \<noteq> name f"
  shows "found ign disk (d # db) i =
    found_del d i @ found ign disk db i"
proof -
  have "\<not> same_kind disk d" using assms by (subst same_kind_def) (metis twin_none option.case(1))
  then show ?thesis using skip_first [OF assms]
    by (cases i) (auto simp: found_step_defs intro!: filter_cong arg_cong2 [where f = List.map] map_cong)
qed

lemma found_skip_disk:
  assumes "\<And>d. d \<in> set db \<Longrightarrow> name f \<noteq> name d"
  shows "found ign (f # disk) db i =
    found_new ign f i @ found ign disk db i"
proof -
  have "\<not> same_kind db f" using assms by (subst same_kind_def) (metis twin_none option.case(1))
  then show ?thesis using skip_first(1) [OF assms] by (cases i) (auto simp: found_step_defs intro!: filter_cong)
qed

lemma found_same:
  assumes "name f = name d" and "\<And>x. x \<in> set db \<Longrightarrow> name f \<noteq> name x" and "\<And>x. x \<in> set disk \<Longrightarrow> name d \<noteq> name x"
  shows "found ign (f # disk) (d # db) i =
    found_both ign f d i
    @ found ign disk db i"
proof -
  have disk: "same_kind (d # db) y = same_kind db y" "content_differs (d # db) y = content_differs db y"
    "with_ids (d # db) y = with_ids db y" if "y \<in> set disk" for y
    using skip_first [OF assms(3)] that by simp_all
  have db: "same_kind (f # disk) y = same_kind disk y" if "y \<in> set db" for y
    using skip_first [OF assms(2)] that by simp
  have "same_kind (d # db) f \<longleftrightarrow> isfolder f = isfolder d" "same_kind (f # disk) d \<longleftrightarrow> isfolder f = isfolder d"
    using assms(1) by (auto simp: same_kind_def)
  moreover have "content_differs (d # db) f \<longleftrightarrow> mtimenat f \<noteq> mtimenat d \<or> size_of f \<noteq> size_of d \<or> inode f \<noteq> inode d"
    "with_ids (d # db) f = f\<lparr>localid := localid d, remoteid := remoteid d\<rparr>"
    using assms(1) by (simp_all add: content_differs_def with_ids_def)
  ultimately show ?thesis using disk db
    by (cases i) (auto simp: found_step_defs intro!: filter_cong arg_cong2 [where f = List.map] map_cong)
qed

lemma scan_lists_add [simp]:
  "scan_lists (add_new_element ign f p s) i = scan_lists s i @ List.map (\<lambda>e. copy_folderlist_element e p)
     (found_new ign f i)"
  "scan_lists (add_deleted_element d p s) i = scan_lists s i @ List.map (\<lambda>e. copy_folderlist_element e p)
     (found_del d i)"
  "scan_lists (add_modified_file f p s) i = scan_lists s i @ List.map (\<lambda>e. copy_folderlist_element e p)
     (if i = SCAN_LIST_MODFILES then [f] else [])"
  by (auto simp: found_step_defs add_new_element_def add_deleted_element_def add_modified_file_def add_element_to_scan_list_def)

lemma scan_same_effect:
  assumes "name f = name d"
  shows "fst (scan_same ign dev p f d s) = matched_element dev (d # db) f"
    and "scan_lists (snd (scan_same ign dev p f d s)) i = scan_lists s i @ List.map (\<lambda>e. copy_folderlist_element e p)
      (found_both ign f d i)"
  using assms by (auto simp: found_both_def scan_same_def matched_element_def same_kind_def with_ids_def Let_def)

lemma scan_compare_correct:
  "ascending disk \<Longrightarrow> ascending db \<Longrightarrow>
   fst (scan_compare ign dev p disk db s) = List.map (matched_element dev db) disk \<and>
   (\<forall>i. scan_lists (snd (scan_compare ign dev p disk db s)) i =
        scan_lists s i @ List.map (\<lambda>e. copy_folderlist_element e p) (found ign disk db i))"
proof (induction ign dev p disk db s rule: scan_compare.induct)
  case (1 ign dev p f disk d db s)
  consider (same) "name f = name d" | (less) "name f < name d" | (greater) "name d < name f" by fastforce
  then show ?case
  proof cases
    case same
    have apart: "\<And>x. x \<in> set db \<Longrightarrow> name f \<noteq> name x" "\<And>x. x \<in> set disk \<Longrightarrow> name d \<noteq> name x"
      using 1(4,5) same by auto
    obtain e s' where e: "scan_same ign dev p f d s = (e, s')" by fastforce
    have ih: "fst (scan_compare ign dev p disk db s') = List.map (matched_element dev db) disk"
      "\<And>i. scan_lists (snd (scan_compare ign dev p disk db s')) i =
        scan_lists s' i @ List.map (\<lambda>e. copy_folderlist_element e p) (found ign disk db i)"
      using 1(1) [OF refl _ e [symmetric]] 1(4,5) same by (simp_all add: filename_cmp_order)
    have "List.map (matched_element dev db) disk = List.map (matched_element dev (d # db)) disk"
      using skip_first(4) [OF apart(2)] by simp
    then show ?thesis
      using ih same scan_same_effect [OF same, of ign dev p s] e found_same [OF same apart]
      by (simp add: filename_cmp_order case_prod_beta)
  next
    case less
    have apart: "\<And>x. x \<in> set (d # db) \<Longrightarrow> name f \<noteq> name x"
      using 1(5) less by (auto dest: less_trans)
    have "same_kind (d # db) f = False" using apart by (subst same_kind_def) (metis twin_none option.case(1))
    then have "matched_element dev (d # db) f = f" by (simp add: matched_element_def)
    then show ?thesis
      using 1(2) [OF refl] 1(4,5) less less_imp_neq [OF less] found_skip_disk [of "d # db" f ign disk, OF apart]
      by (simp add: filename_cmp_order case_prod_beta Let_def)
  next
    case greater
    have apart: "\<And>x. x \<in> set (f # disk) \<Longrightarrow> name d \<noteq> name x"
      using 1(4) greater by (auto dest: less_trans)
    have "\<not> name f < name d" "name f \<noteq> name d" using greater by auto
    then show ?thesis
      using 1(3) [OF refl] 1(4,5) found_skip_db [of "f # disk" d ign db, OF apart] skip_first(4) [of "f # disk" d _ dev db, OF apart]
      by (simp add: filename_cmp_order case_prod_beta Let_def)
  qed
next
  case (2 ign dev p f disk s)
  have "matched_element dev [] f = f" by (simp add: matched_element_def same_kind_def)
  then show ?case using 2 found_skip_disk [of "[]" f ign disk] by (simp add: case_prod_beta)
next
  case (3 ign dev p d db s)
  then show ?case using found_skip_db [of "[]" d ign db] by simp
next
  case (4 ign dev p s)
  have "found ign [] [] i = []" for i by (cases i) simp_all
  then show ?case by simp
qed

lemma ascending_sort:
  assumes "distinct (List.map name xs)"
  shows "ascending (sort_key name xs)"
proof -
  have "distinct (List.map name (sort_key name xs))"
    using assms by (metis distinct_map distinct_sort set_sort)
  then have "sorted_wrt (<) (List.map name (sort_key name xs))"
    by (simp add: strict_sorted_iff)
  then show ?thesis by (simp add: sorted_wrt_map)
qed

text \<open>
  C21. Comparing a folder on disk with the database, each name occurring once on either side, the scan
  appends to the lists of new, deleted and modified files and folders exactly those elements that
  are on one side only (or there as the other kind), and those with another time, size or inode; it
  leaves the other lists, and in the disk list it marks the elements known with their ids.
\<close>

theorem local_scan_exact:
  assumes "distinct (List.map name disk)" and "distinct (List.map name db)"
  shows "\<exists>s'. scan_diff ign dev p disk db s =
      Some (List.map (matched_element dev (sort_key name db)) (sort_key name disk), s') \<and>
    (\<forall>i. scan_lists s' i = scan_lists s i @
       List.map (\<lambda>e. copy_folderlist_element e p) (found ign (sort_key name disk) (sort_key name db) i))"
  using scan_compare_correct [OF ascending_sort [OF assms(1)] ascending_sort [OF assms(2)], of ign dev p s]
  by (simp add: scan_diff_def by_name.list_sort_stable)
    (metis prod.collapse)

definition sample_entry :: "u64 \<Rightarrow> u64 \<Rightarrow> string \<Rightarrow> sync_folderlist" where
  "sample_entry l sz nm = \<lparr>localid = l, remoteid = 7, localparentfolderid = 0, parentfolderid = 0, inode = 5, deviceid = 1,
     mtimenat = 9, size_of = sz, syncid = 0, synctype = 0, isfolder = False, name = bytes_of nm\<rparr>"

definition sample_scanner :: scanner where
  "sample_scanner = \<lparr>scan_lists = (\<lambda>_. []), changes = 0, localsleepperfolder = 0, device_updates = []\<rparr>"

definition sample_place :: scan_place where
  "sample_place = \<lparr>at_folderid = 2, at_localfolderid = 3, at_syncid = 1, at_synctype = 3\<rparr>"

lemma local_scan_exact_witness:
  "\<exists>s'. scan_diff [] 1 sample_place [sample_entry 0 8 ''b'', sample_entry 0 8 ''a''] [sample_entry 4 6 ''b''] sample_scanner =
      Some (List.map (matched_element 1 (sort_key name [sample_entry 4 6 ''b'']))
             (sort_key name [sample_entry 0 8 ''b'', sample_entry 0 8 ''a'']), s') \<and>
    (\<forall>i. scan_lists s' i = scan_lists sample_scanner i @
       List.map (\<lambda>e. copy_folderlist_element e sample_place)
         (found [] (sort_key name [sample_entry 0 8 ''b'', sample_entry 0 8 ''a'']) (sort_key name [sample_entry 4 6 ''b'']) i))"
  by (rule local_scan_exact) (simp_all add: sample_entry_def bytes_of_def)

text \<open>
  C30. Pairing the deleted with the new files: when sizes, inodes and times are below 2^63, every pair
  that is renamed agrees in all three, each deleted file is either renamed or deleted and each new
  one is either the target of a rename or uploaded, and no file left to be deleted agrees with one
  left to be uploaded. Files modified in place and deleted folders are passed on as they are.
\<close>

theorem renames_pair_equal_files:
  assumes "\<forall>f \<in> set (scan_lists s SCAN_LIST_DELFILES) \<union> set (scan_lists s SCAN_LIST_NEWFILES). valid_key f"
    and "scan_lists s SCAN_LIST_RENFILESFROM = []" and "scan_lists s SCAN_LIST_RENFILESTO = []"
  shows "\<exists>from to new del. scan_file_actions s = Some (map2 RenameFile from to @ List.map UploadFile new @
        List.map UploadModified (scan_lists s SCAN_LIST_MODFILES) @ List.map DeleteFile del @
        List.map DeleteFolder (scan_lists s SCAN_LIST_DELFOLDERS)) \<and>
      List.map stat_key from = List.map stat_key to \<and>
      mset (scan_lists s SCAN_LIST_DELFILES) = mset del + mset from \<and>
      mset (scan_lists s SCAN_LIST_NEWFILES) = mset new + mset to \<and>
      stat_key ` set del \<inter> stat_key ` set new = {}"
proof -
  obtain del new rf rt where
    "psync_list_extract_repeating (scan_lists s SCAN_LIST_DELFILES) (scan_lists s SCAN_LIST_NEWFILES) [] [] compare_sizeinodemtime
       = Some (del, new, rf, rt)"
    and "mset (scan_lists s SCAN_LIST_DELFILES) = mset del + mset rf \<and>
      mset (scan_lists s SCAN_LIST_NEWFILES) = mset new + mset rt \<and> List.map stat_key rf = List.map stat_key rt \<and>
      stat_key ` set del \<inter> stat_key ` set new = {}"
    using by_stat.extract_repeating_pairs [OF assms(1), of "[]" "[]"] by auto
  then show ?thesis
    using assms(2,3)
    by (intro exI [of _ rf] exI [of _ rt] exI [of _ new] exI [of _ del]) (simp add: scan_file_actions_def extract_renames_def)
qed

lemma renames_pair_equal_files_witness:
  "\<exists>from to new del. scan_file_actions (sample_scanner\<lparr>scan_lists := (\<lambda>_. [])(SCAN_LIST_DELFILES := [sample_entry 1 4 ''x''],
        SCAN_LIST_NEWFILES := [sample_entry 2 4 ''y''])\<rparr>) = Some (map2 RenameFile from to @ List.map UploadFile new @
        List.map UploadModified [] @ List.map DeleteFile del @ List.map DeleteFolder []) \<and>
      List.map stat_key from = List.map stat_key to \<and>
      mset [sample_entry 1 4 ''x''] = mset del + mset from \<and> mset [sample_entry 2 4 ''y''] = mset new + mset to \<and>
      stat_key ` set del \<inter> stat_key ` set new = {}"
  using renames_pair_equal_files [of "sample_scanner\<lparr>scan_lists := (\<lambda>_. [])(SCAN_LIST_DELFILES := [sample_entry 1 4 ''x''],
        SCAN_LIST_NEWFILES := [sample_entry 2 4 ''y''])\<rparr>"]
  by (simp add: sample_entry_def valid_key_def below63_def)

end
