(* ===== verification/Ptaskmanager.thy ===== *)
theory Ptaskmanager
  imports Prelude
begin

section \<open>The task manager (plibs.c, psync_task_*)\<close>

text \<open>
  A client runs some callbacks in threads of their own, takes their results one by one and drops the
  manager; a callback that finishes hands its result over with \<open>psync_task_complete\<close> and waits until
  it is taken, or learns that nobody wants it and that the result is still its own. Every critical section of the code,
  from taking the mutex to giving it back or to waiting on a condition, is one step of the state;
  giving up a reference is two, since \<open>psync_task_free\<close> looks at the count without the mutex.
  Waiting threads may wake at any time; \<open>woken\<close> says that one has been signalled.
\<close>

subsection \<open>State\<close>

datatype task_status =
    PSYNC_TASK_STATUS_RUNNING | PSYNC_TASK_STATUS_READY | PSYNC_TASK_STATUS_DONE | PSYNC_TASK_STATUS_RETURNED

abbreviation PSYNC_WAIT_NOBODY :: int where "PSYNC_WAIT_NOBODY \<equiv> - 2"
abbreviation PSYNC_WAIT_FREED :: int where "PSYNC_WAIT_FREED \<equiv> - 3"

text \<open>Where a task's thread is; between \<open>--refcnt\<close> and the release of the mutex it keeps the value read.\<close>

datatype worker_pc = In_callback | In_wait | Completed | In_unlock int | Finished

text \<open>Where the client is; in \<open>Freeing\<close> it has found the count not to be 1.\<close>

datatype client_pc = Idle | Waiting nat | Freeing | Gone

record 'd task =
  param :: 'd
  status :: task_status
  woken :: bool
  pc :: worker_pc
  ret :: "int option"

record 'd manager =
  tasks :: "'d task list"
  refcnt :: int
  waitfor :: int
  locked :: bool
  destroyed :: bool
  client :: client_pc
  results :: "(nat \<times> 'd) list"

subsection \<open>The operations\<close>

definition set_task :: "nat \<Rightarrow> ('d task \<Rightarrow> 'd task) \<Rightarrow> 'd manager \<Rightarrow> 'd manager" where
  "set_task i f tm = tm\<lparr>tasks := (tasks tm)[i := f (tasks tm ! i)]\<rparr>"

definition psync_task_run_tasks :: "'d list \<Rightarrow> 'd manager" where
  "psync_task_run_tasks params = \<lparr>
     tasks = List.map (\<lambda>p. \<lparr>param = p, status = PSYNC_TASK_STATUS_RUNNING, woken = False, pc = In_callback, ret = None\<rparr>) params,
     refcnt = int (length params) + 1, waitfor = PSYNC_WAIT_NOBODY, locked = False, destroyed = False, client = Idle, results = []\<rparr>"

definition psync_task_complete :: "nat \<Rightarrow> 'd \<Rightarrow> 'd manager \<Rightarrow> 'd manager" where
  "psync_task_complete i d tm =
     (if waitfor tm = int i then
        set_task i (\<lambda>t. t\<lparr>param := d, status := PSYNC_TASK_STATUS_READY, woken := True, pc := Completed, ret := Some 0\<rparr>) tm
      else if waitfor tm = PSYNC_WAIT_NOBODY \<or> waitfor tm \<ge> 0 then
        set_task i (\<lambda>t. t\<lparr>param := d, status := PSYNC_TASK_STATUS_READY, woken := False, pc := In_wait\<rparr>) tm
      else set_task i (\<lambda>t. t\<lparr>pc := Completed, ret := Some (- 1)\<rparr>) tm)"

definition task_complete_wake :: "nat \<Rightarrow> 'd manager \<Rightarrow> 'd manager" where
  "task_complete_wake i tm =
     set_task i (\<lambda>t. if status t = PSYNC_TASK_STATUS_READY then t\<lparr>woken := False\<rparr>
       else t\<lparr>pc := Completed, ret := Some (if status t = PSYNC_TASK_STATUS_RETURNED then - 1 else 0)\<rparr>) tm"

definition psync_task_dec_refcnt :: "nat \<Rightarrow> 'd manager \<Rightarrow> 'd manager" where
  "psync_task_dec_refcnt i tm = (set_task i (\<lambda>t. t\<lparr>pc := In_unlock (refcnt tm - 1)\<rparr>) tm)\<lparr>refcnt := refcnt tm - 1, locked := True\<rparr>"

definition task_unlock :: "nat \<Rightarrow> 'd manager \<Rightarrow> 'd manager" where
  "task_unlock i tm = (set_task i (\<lambda>t. t\<lparr>pc := Finished\<rparr>) tm)\<lparr>locked := False,
     destroyed := destroyed tm \<or> pc (tasks tm ! i) = In_unlock 0\<rparr>"

definition take_result :: "nat \<Rightarrow> 'd manager \<Rightarrow> 'd manager" where
  "take_result i tm = (set_task i (\<lambda>t. t\<lparr>status := PSYNC_TASK_STATUS_DONE, woken := True\<rparr>) tm)
     \<lparr>results := results tm @ [(i, param (tasks tm ! i))], client := Idle\<rparr>"

definition psync_task_get_result :: "nat \<Rightarrow> 'd manager \<Rightarrow> 'd manager" where
  "psync_task_get_result i tm =
     (case status (tasks tm ! i) of
        PSYNC_TASK_STATUS_RUNNING \<Rightarrow> (set_task i (\<lambda>t. t\<lparr>woken := False\<rparr>) tm)\<lparr>waitfor := int i, client := Waiting i\<rparr>
      | PSYNC_TASK_STATUS_READY \<Rightarrow> take_result i tm
      | _ \<Rightarrow> tm)"

definition task_get_result_wake :: "nat \<Rightarrow> 'd manager \<Rightarrow> 'd manager" where
  "task_get_result_wake i tm =
     (if status (tasks tm ! i) = PSYNC_TASK_STATUS_RUNNING then (set_task i (\<lambda>t. t\<lparr>woken := False\<rparr>) tm)\<lparr>waitfor := int i\<rparr>
      else (take_result i tm)\<lparr>waitfor := PSYNC_WAIT_NOBODY\<rparr>)"

text \<open>\<open>psync_task_free\<close>: the look at the count, and the rest of it, under the mutex.\<close>

definition psync_task_free :: "'d manager \<Rightarrow> 'd manager" where
  "psync_task_free tm = (if refcnt tm = 1 then tm\<lparr>destroyed := True, client := Gone\<rparr> else tm\<lparr>client := Freeing\<rparr>)"

definition return_task :: "'d task \<Rightarrow> 'd task" where
  "return_task t = (if status t = PSYNC_TASK_STATUS_READY then t\<lparr>status := PSYNC_TASK_STATUS_RETURNED, woken := True\<rparr> else t)"

definition task_free_locked :: "'d manager \<Rightarrow> 'd manager" where
  "task_free_locked tm = tm\<lparr>waitfor := PSYNC_WAIT_FREED, tasks := List.map return_task (tasks tm), refcnt := refcnt tm - 1,
     destroyed := refcnt tm - 1 = 0, client := Gone\<rparr>"

subsection \<open>Steps\<close>

text \<open>A callback may also return without having completed its task.\<close>

inductive task_step :: "'d manager \<Rightarrow> 'd manager \<Rightarrow> bool" where
  complete: "\<not> locked tm \<Longrightarrow> i < length (tasks tm) \<Longrightarrow> pc (tasks tm ! i) = In_callback \<Longrightarrow> task_step tm (psync_task_complete i d tm)"
| complete_wake: "\<not> locked tm \<Longrightarrow> i < length (tasks tm) \<Longrightarrow> pc (tasks tm ! i) = In_wait \<Longrightarrow> task_step tm (task_complete_wake i tm)"
| dec: "\<not> locked tm \<Longrightarrow> i < length (tasks tm) \<Longrightarrow> pc (tasks tm ! i) = In_callback \<or> pc (tasks tm ! i) = Completed \<Longrightarrow>
    task_step tm (psync_task_dec_refcnt i tm)"
| unlock: "i < length (tasks tm) \<Longrightarrow> pc (tasks tm ! i) = In_unlock r \<Longrightarrow> task_step tm (task_unlock i tm)"
| get: "\<not> locked tm \<Longrightarrow> i < length (tasks tm) \<Longrightarrow> client tm = Idle \<Longrightarrow> task_step tm (psync_task_get_result i tm)"
| get_wake: "\<not> locked tm \<Longrightarrow> client tm = Waiting i \<Longrightarrow> task_step tm (task_get_result_wake i tm)"
| free: "client tm = Idle \<Longrightarrow> task_step tm (psync_task_free tm)"
| free_locked: "\<not> locked tm \<Longrightarrow> client tm = Freeing \<Longrightarrow> task_step tm (task_free_locked tm)"

inductive task_reachable :: "'d manager \<Rightarrow> bool" where
  start: "task_reachable (psync_task_run_tasks ps)"
| step: "task_reachable tm \<Longrightarrow> task_step tm tm' \<Longrightarrow> task_reachable tm'"

subsection \<open>Invariants\<close>

definition active :: "'d task \<Rightarrow> bool" where
  "active t \<longleftrightarrow> pc t = In_callback \<or> pc t = In_wait \<or> pc t = Completed"

definition actives :: "'d task list \<Rightarrow> int" where
  "actives ts = sum_list (List.map (\<lambda>t. if active t then 1 else 0) ts)"

text \<open>Each thread that still needs the manager is counted, and so is the client.\<close>

definition count_inv :: "'d manager \<Rightarrow> bool" where
  "count_inv tm \<longleftrightarrow>
     (if client tm = Gone then refcnt tm = actives (tasks tm) \<or> refcnt tm = 1 \<and> actives (tasks tm) = 0 \<and> destroyed tm
      else refcnt tm = actives (tasks tm) + 1) \<and>
     (destroyed tm \<longrightarrow> client tm = Gone \<and> actives (tasks tm) = 0) \<and>
     (\<forall>i < length (tasks tm). \<forall>r. pc (tasks tm ! i) = In_unlock r \<longrightarrow> locked tm \<and> (r = refcnt tm \<or> client tm = Gone \<and> 0 < r) \<and>
        (\<forall>j < length (tasks tm). \<forall>r. pc (tasks tm ! j) = In_unlock r \<longrightarrow> j = i))"

definition client_inv :: "'d manager \<Rightarrow> bool" where
  "client_inv tm \<longleftrightarrow>
     (case client tm of
        Waiting i \<Rightarrow> waitfor tm = int i \<and> i < length (tasks tm)
      | Gone \<Rightarrow> waitfor tm = PSYNC_WAIT_FREED \<or> actives (tasks tm) = 0
      | _ \<Rightarrow> waitfor tm = PSYNC_WAIT_NOBODY) \<and>
     distinct (List.map fst (results tm)) \<and> fst ` set (results tm) \<subseteq> {..< length (tasks tm)}"

text \<open>What holds of task \<open>i\<close>, for each state of its thread.\<close>

definition task_inv :: "client_pc \<Rightarrow> (nat \<times> 'd) list \<Rightarrow> nat \<Rightarrow> 'd task \<Rightarrow> bool" where
  "task_inv c rs i t \<longleftrightarrow>
     (pc t = In_callback \<longrightarrow> status t = PSYNC_TASK_STATUS_RUNNING \<and> ret t = None) \<and>
     (pc t = In_wait \<longrightarrow> status t \<noteq> PSYNC_TASK_STATUS_RUNNING \<and> ret t = None \<and> c \<noteq> Waiting i \<and>
        (status t \<noteq> PSYNC_TASK_STATUS_READY \<longrightarrow> woken t)) \<and>
     (pc t = Completed \<longrightarrow> ret t \<noteq> None) \<and>
     (ret t = None \<longrightarrow> pc t = In_wait \<or> status t = PSYNC_TASK_STATUS_RUNNING) \<and>
     (\<forall>r. ret t = Some r \<longrightarrow>
        r = 0 \<and> (status t = PSYNC_TASK_STATUS_DONE \<or> status t = PSYNC_TASK_STATUS_READY \<and> c = Waiting i \<and> woken t) \<or>
        r = - 1 \<and> (status t = PSYNC_TASK_STATUS_RUNNING \<or> status t = PSYNC_TASK_STATUS_RETURNED) \<and> c = Gone) \<and>
     (status t = PSYNC_TASK_STATUS_DONE \<longrightarrow> (i, param t) \<in> set rs) \<and>
     (i \<in> fst ` set rs \<longrightarrow> status t = PSYNC_TASK_STATUS_DONE) \<and>
     (status t = PSYNC_TASK_STATUS_RETURNED \<longrightarrow> c = Gone) \<and>
     (c = Waiting i \<longrightarrow> status t \<noteq> PSYNC_TASK_STATUS_DONE) \<and>
     (c = Gone \<longrightarrow> status t \<noteq> PSYNC_TASK_STATUS_READY)"

definition manager_inv :: "'d manager \<Rightarrow> bool" where
  "manager_inv tm \<longleftrightarrow> count_inv tm \<and> client_inv tm \<and> (\<forall>i < length (tasks tm). task_inv (client tm) (results tm) i (tasks tm ! i))"

lemmas manager_inv_defs = manager_inv_def count_inv_def client_inv_def

lemma tasks_set_task [simp]: "tasks (set_task i f tm) = (tasks tm)[i := f (tasks tm ! i)]"
  by (simp add: set_task_def)

lemma set_task_other [simp]:
  "refcnt (set_task i f tm) = refcnt tm" "waitfor (set_task i f tm) = waitfor tm" "locked (set_task i f tm) = locked tm"
  "destroyed (set_task i f tm) = destroyed tm" "client (set_task i f tm) = client tm" "results (set_task i f tm) = results tm"
  by (simp_all add: set_task_def)

lemma actives_update:
  "i < length ts \<Longrightarrow> actives (ts[i := t]) = actives ts - (if active (ts ! i) then 1 else 0) + (if active t then 1 else 0)"
proof (induction ts arbitrary: i)
  case (Cons a ts)
  then show ?case by (cases i) (auto simp: actives_def)
qed simp

lemma actives_nonneg: "0 \<le> actives ts"
  by (induction ts) (auto simp: actives_def)

lemma actives_pos: "i < length ts \<Longrightarrow> active (ts ! i) \<Longrightarrow> 0 < actives ts"
  using actives_update [of i ts "(ts ! i)\<lparr>pc := Finished\<rparr>"] actives_nonneg [of "ts[i := (ts ! i)\<lparr>pc := Finished\<rparr>]"]
  by (simp add: active_def)

lemma manager_inv_start: "manager_inv (psync_task_run_tasks ps)"
proof -
  have "actives (tasks (psync_task_run_tasks ps)) = int (length ps)"
    by (induction ps) (simp_all add: actives_def psync_task_run_tasks_def active_def)
  then show ?thesis
    by (simp add: manager_inv_defs task_inv_def) (simp add: psync_task_run_tasks_def)
qed

text \<open>A step on task \<open>i\<close> that leaves the client where it is.\<close>

lemma manager_inv_one:
  assumes "manager_inv tm" and "i < length (tasks tm)" and "tasks tm' = (tasks tm)[i := t]"
    and "client tm' = client tm" and "results tm' = results tm" and "waitfor tm' = waitfor tm"
    and "active t \<Longrightarrow> active (tasks tm ! i)" and "count_inv tm'" and "task_inv (client tm) (results tm) i t"
  shows "manager_inv tm'"
proof -
  have "client tm = Gone \<Longrightarrow> actives (tasks tm) = 0 \<Longrightarrow> actives (tasks tm') = 0"
    using assms(2,3,7) actives_update [of i "tasks tm" t] actives_pos [of i "tasks tm"] by auto
  then have "client_inv tm'" using assms(1-6) by (auto simp: manager_inv_def client_inv_def split: client_pc.splits)
  moreover have "task_inv (client tm') (results tm') j (tasks tm' ! j)" if "j < length (tasks tm')" for j
    using assms that by (cases "j = i") (simp_all add: manager_inv_def)
  ultimately show ?thesis using assms(8) by (simp add: manager_inv_def)
qed

lemma manager_inv_task: "manager_inv tm \<Longrightarrow> i < length (tasks tm) \<Longrightarrow> task_inv (client tm) (results tm) i (tasks tm ! i)"
  by (simp add: manager_inv_def)

text \<open>A step that leaves a thread counted.\<close>

lemma count_inv_one:
  assumes "count_inv tm" and "i < length (tasks tm)" and "tasks tm' = (tasks tm)[i := t]"
    and "client tm' = client tm" and "refcnt tm' = refcnt tm" and "locked tm' = locked tm" and "destroyed tm' = destroyed tm"
    and "active (tasks tm ! i)" and "active t"
  shows "count_inv tm'"
proof -
  have "actives (tasks tm') = actives (tasks tm)" using assms(2,3,8,9) by (simp add: actives_update)
  moreover have "pc t \<noteq> In_unlock r" for r using assms(9) by (auto simp: active_def)
  moreover have "j \<noteq> i" if "tasks tm ! j = tasks tm ! i \<Longrightarrow> False" for j using that by auto
  ultimately show ?thesis using assms(1-7) by (auto simp: count_inv_def nth_list_update)
qed

lemma waitfor_of_client:
  assumes "manager_inv tm" and "0 < actives (tasks tm)"
  shows "waitfor tm = (case client tm of Waiting i \<Rightarrow> int i | Gone \<Rightarrow> PSYNC_WAIT_FREED | _ \<Rightarrow> PSYNC_WAIT_NOBODY)"
  using assms by (auto simp: manager_inv_def client_inv_def split: client_pc.splits)

lemma inv_complete:
  assumes "manager_inv tm" and "\<not> locked tm" and "i < length (tasks tm)" and "pc (tasks tm ! i) = In_callback"
  shows "manager_inv (psync_task_complete i d tm)"
proof -
  have act: "active (tasks tm ! i)" using assms(4) by (simp add: active_def)
  let ?t = "tasks (psync_task_complete i d tm) ! i"
  have set: "tasks (psync_task_complete i d tm) = (tasks tm)[i := ?t]" using assms(3) by (simp add: psync_task_complete_def)
  have same: "client (psync_task_complete i d tm) = client tm" "results (psync_task_complete i d tm) = results tm"
    "waitfor (psync_task_complete i d tm) = waitfor tm" "refcnt (psync_task_complete i d tm) = refcnt tm"
    "locked (psync_task_complete i d tm) = locked tm" "destroyed (psync_task_complete i d tm) = destroyed tm"
    by (simp_all add: psync_task_complete_def)
  have act': "active ?t" using assms(3) by (simp add: psync_task_complete_def active_def)
  have "task_inv (client tm) (results tm) i ?t"
    using manager_inv_task [OF assms(1,3)] waitfor_of_client [OF assms(1) actives_pos [OF assms(3) act]] assms(3,4)
    by (cases "client tm") (auto simp: psync_task_complete_def task_inv_def)
  moreover have "count_inv (psync_task_complete i d tm)"
    using count_inv_one [OF _ assms(3) set same(1,4,5,6) act act'] assms(1) by (simp add: manager_inv_def)
  ultimately show ?thesis using manager_inv_one [OF assms(1,3) set same(1,2,3)] act by blast
qed

lemma inv_complete_wake:
  assumes "manager_inv tm" and "i < length (tasks tm)" and "pc (tasks tm ! i) = In_wait"
  shows "manager_inv (task_complete_wake i tm)"
proof -
  have act: "active (tasks tm ! i)" using assms(3) by (simp add: active_def)
  let ?t = "tasks (task_complete_wake i tm) ! i"
  have set: "tasks (task_complete_wake i tm) = (tasks tm)[i := ?t]" using assms(2) by (simp add: task_complete_wake_def)
  have act': "active ?t" using assms(2,3) by (simp add: task_complete_wake_def active_def)
  have "task_inv (client tm) (results tm) i ?t"
    using manager_inv_task [OF assms(1,2)] assms(2,3)
    by (cases "status (tasks tm ! i)") (auto simp: task_complete_wake_def task_inv_def)
  moreover have "count_inv (task_complete_wake i tm)"
    using count_inv_one [OF _ assms(2) set _ _ _ _ act act'] assms(1) by (simp add: manager_inv_def task_complete_wake_def)
  ultimately show ?thesis using manager_inv_one [OF assms(1,2) set] act by (simp add: task_complete_wake_def)
qed

lemma inv_dec:
  assumes "manager_inv tm" and "\<not> locked tm" and "i < length (tasks tm)" and "pc (tasks tm ! i) = In_callback \<or> pc (tasks tm ! i) = Completed"
  shows "manager_inv (psync_task_dec_refcnt i tm)"
proof -
  have act: "active (tasks tm ! i)" using assms(4) by (auto simp: active_def)
  let ?t = "(tasks tm ! i)\<lparr>pc := In_unlock (refcnt tm - 1)\<rparr>"
  have set: "tasks (psync_task_dec_refcnt i tm) = (tasks tm)[i := ?t]" by (simp add: psync_task_dec_refcnt_def)
  have act': "\<not> active ?t" by (simp add: active_def)
  have none: "pc (tasks tm ! j) \<noteq> In_unlock r" if "j < length (tasks tm)" for j r
    using assms(1,2) that by (auto simp: manager_inv_defs)
  have "actives (tasks (psync_task_dec_refcnt i tm)) = actives (tasks tm) - 1"
    unfolding set using actives_update [OF assms(3)] act act' by simp
  then have "count_inv (psync_task_dec_refcnt i tm)"
    using assms(1,3) none actives_pos [OF assms(3) act]
    by (auto simp: manager_inv_def count_inv_def psync_task_dec_refcnt_def nth_list_update split: if_splits)
  moreover have "task_inv (client tm) (results tm) i ?t"
    using manager_inv_task [OF assms(1,3)] assms(4) by (auto simp: task_inv_def)
  ultimately show ?thesis using manager_inv_one [OF assms(1,3) set] act by (simp add: psync_task_dec_refcnt_def)
qed

lemma inv_unlock:
  assumes "manager_inv tm" and "i < length (tasks tm)" and "pc (tasks tm ! i) = In_unlock r"
  shows "manager_inv (task_unlock i tm)"
proof -
  let ?t = "(tasks tm ! i)\<lparr>pc := Finished\<rparr>"
  have set: "tasks (task_unlock i tm) = (tasks tm)[i := ?t]" by (simp add: task_unlock_def)
  have act: "\<not> active (tasks tm ! i)" "\<not> active ?t" using assms(3) by (simp_all add: active_def)
  then have same: "actives (tasks (task_unlock i tm)) = actives (tasks tm)"
    unfolding set using actives_update [OF assms(2)] by simp
  have others: "pc (tasks tm ! j) \<noteq> In_unlock q" if "j < length (tasks tm)" "j \<noteq> i" for j q
    using assms that by (auto simp: manager_inv_defs)
  have r: "r = refcnt tm \<or> client tm = Gone \<and> 0 < r" and inv: "count_inv tm" using assms by (auto simp: manager_inv_defs)
  have last: "client tm = Gone \<and> actives (tasks tm) = 0" if "destroyed (task_unlock i tm)"
  proof (cases "destroyed tm")
    case True
    then show ?thesis using inv by (simp add: count_inv_def)
  next
    case False
    then have "r = 0" using that assms(3) by (simp add: task_unlock_def)
    then show ?thesis using r inv actives_nonneg [of "tasks tm"] False by (auto simp: count_inv_def split: if_splits)
  qed
  have none: "pc (tasks (task_unlock i tm) ! j) \<noteq> In_unlock q" if "j < length (tasks (task_unlock i tm))" for j q
    using that others by (cases "j = i") (simp_all add: task_unlock_def)
  have "client (task_unlock i tm) = client tm" "refcnt (task_unlock i tm) = refcnt tm" "destroyed tm \<Longrightarrow> destroyed (task_unlock i tm)"
    by (simp_all add: task_unlock_def)
  then have "count_inv (task_unlock i tm)"
    unfolding count_inv_def using inv last none same by (auto simp only: count_inv_def split: if_splits)
  moreover have "task_inv (client tm) (results tm) i ?t"
    using manager_inv_task [OF assms(1,2)] assms(3) by (auto simp: task_inv_def)
  ultimately show ?thesis using manager_inv_one [OF assms(1,2) set] act by (simp add: task_unlock_def)
qed

text \<open>The client's steps.\<close>

lemma task_inv_ready:
  assumes "task_inv c rs i t" and "status t = PSYNC_TASK_STATUS_READY"
  shows "pc t \<noteq> In_callback \<and> (pc t = In_wait \<longrightarrow> ret t = None) \<and> (pc t = Completed \<longrightarrow> ret t \<noteq> None) \<and>
    (ret t = None \<longrightarrow> pc t = In_wait) \<and> (\<forall>r. ret t = Some r \<longrightarrow> r = 0)"
  using assms by (cases "ret t") (simp_all add: task_inv_def)

lemma task_inv_other:
  assumes "task_inv c rs j t" and "c \<noteq> Gone" and "c \<noteq> Waiting j" and "j \<noteq> i"
  shows "task_inv Idle (rs @ [(i, d)]) j t"
  using assms by (cases "ret t") (simp_all add: task_inv_def)

lemma count_inv_transfer:
  fixes tm tm' :: "'d manager"
  assumes "count_inv tm" and "List.map pc (tasks tm') = List.map pc (tasks tm)"
    and "refcnt tm' = refcnt tm" and "destroyed tm' = destroyed tm" and "locked tm' = locked tm"
    and "client tm' = Gone \<longleftrightarrow> client tm = Gone"
  shows "count_inv tm'"
proof -
  let ?n = "\<lambda>p. if p = In_callback \<or> p = In_wait \<or> p = Completed then 1 else (0 :: int)"
  have n: "actives ts = sum_list (List.map ?n (List.map pc ts))" for ts :: "'d task list"
    by (simp add: actives_def active_def comp_def)
  have "actives (tasks tm') = actives (tasks tm)" by (simp only: n assms(2))
  moreover have len: "length (tasks tm') = length (tasks tm)" using assms(2) by (rule map_eq_imp_length_eq)
  moreover have "pc (tasks tm' ! j) = pc (tasks tm ! j)" if "j < length (tasks tm)" for j
    using assms(2) that len by (metis nth_map)
  ultimately show ?thesis using assms(1) unfolding count_inv_def assms(3-6) by simp
qed

lemma map_pc_update: "pc t = pc (ts ! i) \<Longrightarrow> List.map pc (ts[i := t]) = List.map pc ts"
proof (cases "i < length ts")
  case True
  assume "pc t = pc (ts ! i)"
  then have "pc t = List.map pc ts ! i" using True by simp
  then show ?thesis by (simp only: map_update list_update_id)
qed (simp add: list_update_beyond)

lemma manager_inv_split:
  assumes "count_inv tm'" and "client_inv tm'" and "tasks tm' = (tasks tm)[i := t]" and "i < length (tasks tm)"
    and "task_inv (client tm') (results tm') i t"
    and "\<And>j. j < length (tasks tm) \<Longrightarrow> j \<noteq> i \<Longrightarrow> task_inv (client tm') (results tm') j (tasks tm ! j)"
  shows "manager_inv tm'"
proof -
  have "task_inv (client tm') (results tm') j (tasks tm' ! j)" if "j < length (tasks tm')" for j
    using assms(3-6) that by (cases "j = i") simp_all
  then show ?thesis using assms(1,2) by (simp add: manager_inv_def)
qed

lemma inv_take_result:
  assumes "manager_inv tm" and "i < length (tasks tm)" and "status (tasks tm ! i) = PSYNC_TASK_STATUS_READY"
    and "client tm = Idle \<or> client tm = Waiting i"
  shows "manager_inv ((take_result i tm)\<lparr>waitfor := PSYNC_WAIT_NOBODY\<rparr>)"
proof -
  let ?tm = "(take_result i tm)\<lparr>waitfor := PSYNC_WAIT_NOBODY\<rparr>"
  let ?t = "(tasks tm ! i)\<lparr>status := PSYNC_TASK_STATUS_DONE, woken := True\<rparr>"
  have set: "tasks ?tm = (tasks tm)[i := ?t]" by (simp add: take_result_def)
  have "List.map pc (tasks ?tm) = List.map pc (tasks tm)" unfolding set by (rule map_pc_update) simp
  then have "count_inv ?tm"
    using count_inv_transfer [of tm ?tm] assms(1,4) by (auto simp: manager_inv_def take_result_def)
  moreover have fresh: "i \<notin> fst ` set (results tm)"
    using manager_inv_task [OF assms(1,2)] assms(3) by (auto simp: task_inv_def)
  then have "client_inv ?tm" using assms(1,2) by (auto simp: manager_inv_def client_inv_def take_result_def)
  moreover have c: "client ?tm = Idle" by (simp add: take_result_def)
  moreover have "task_inv Idle (results ?tm) i ?t"
  proof -
    have "pc (tasks tm ! i) \<noteq> In_callback \<and> (pc (tasks tm ! i) = In_wait \<longrightarrow> ret (tasks tm ! i) = None) \<and>
        (pc (tasks tm ! i) = Completed \<longrightarrow> ret (tasks tm ! i) \<noteq> None) \<and> (ret (tasks tm ! i) = None \<longrightarrow> pc (tasks tm ! i) = In_wait) \<and>
        (\<forall>r. ret (tasks tm ! i) = Some r \<longrightarrow> r = 0)"
      by (rule task_inv_ready [OF manager_inv_task [OF assms(1,2)] assms(3)])
    then show ?thesis by (simp add: task_inv_def take_result_def)
  qed
  moreover have "task_inv Idle (results ?tm) j (tasks tm ! j)" if "j < length (tasks tm)" "j \<noteq> i" for j
  proof -
    have "client tm \<noteq> Gone" "client tm \<noteq> Waiting j" using assms(4) that(2) by auto
    then show ?thesis using task_inv_other [OF manager_inv_task [OF assms(1) that(1)]] that(2) by (simp add: take_result_def)
  qed
  ultimately show ?thesis using manager_inv_split [OF _ _ set assms(2)] by (simp only: c) blast
qed

lemma inv_get:
  assumes "manager_inv tm" and "i < length (tasks tm)" and "client tm = Idle"
  shows "manager_inv (psync_task_get_result i tm)"
proof (cases "status (tasks tm ! i)")
  case PSYNC_TASK_STATUS_RUNNING
  let ?tm = "psync_task_get_result i tm"
  let ?t = "(tasks tm ! i)\<lparr>woken := False\<rparr>"
  have tm: "?tm = (set_task i (\<lambda>t. t\<lparr>woken := False\<rparr>) tm)\<lparr>waitfor := int i, client := Waiting i\<rparr>"
    using PSYNC_TASK_STATUS_RUNNING by (simp add: psync_task_get_result_def)
  have set: "tasks ?tm = (tasks tm)[i := ?t]" by (simp add: tm)
  have "List.map pc (tasks ?tm) = List.map pc (tasks tm)" unfolding set by (rule map_pc_update) simp
  then have "count_inv ?tm"
    using count_inv_transfer [of tm ?tm] assms(1,3) by (simp add: manager_inv_def tm)
  moreover have "client_inv ?tm" using assms by (simp add: manager_inv_def client_inv_def tm)
  moreover have "task_inv (Waiting i) (results tm) i ?t"
    using manager_inv_task [OF assms(1,2)] PSYNC_TASK_STATUS_RUNNING assms(3) by (auto simp: task_inv_def)
  moreover have "task_inv (Waiting i) (results tm) j (tasks tm ! j)" if "j < length (tasks tm)" "j \<noteq> i" for j
    using manager_inv_task [OF assms(1) that(1)] assms(3) that(2) by (auto simp: task_inv_def)
  moreover have "client ?tm = Waiting i" "results ?tm = results tm" by (simp_all add: tm)
  ultimately show ?thesis using manager_inv_split [OF _ _ set assms(2)] by presburger
next
  case PSYNC_TASK_STATUS_READY
  have "waitfor (take_result i tm) = PSYNC_WAIT_NOBODY"
    using assms(1,3) by (simp add: take_result_def manager_inv_def client_inv_def)
  then have "(take_result i tm)\<lparr>waitfor := PSYNC_WAIT_NOBODY\<rparr> = take_result i tm" by simp
  then show ?thesis using inv_take_result [OF assms(1,2) PSYNC_TASK_STATUS_READY] assms(3) PSYNC_TASK_STATUS_READY
    by (simp add: psync_task_get_result_def)
qed (use assms in \<open>simp_all add: psync_task_get_result_def\<close>)

lemma inv_get_wake:
  assumes "manager_inv tm" and "client tm = Waiting i"
  shows "manager_inv (task_get_result_wake i tm)"
proof -
  have i: "i < length (tasks tm)" "waitfor tm = int i" using assms by (simp_all add: manager_inv_defs)
  show ?thesis
  proof (cases "status (tasks tm ! i) = PSYNC_TASK_STATUS_RUNNING")
    case True
    let ?t = "(tasks tm ! i)\<lparr>woken := False\<rparr>"
    have set: "tasks (task_get_result_wake i tm) = (tasks tm)[i := ?t]" using True by (simp add: task_get_result_wake_def)
    have "task_inv (client tm) (results tm) i ?t"
      using manager_inv_task [OF assms(1) i(1)] True assms(2) by (auto simp: task_inv_def)
    moreover have same: "client (task_get_result_wake i tm) = client tm" "refcnt (task_get_result_wake i tm) = refcnt tm"
      "destroyed (task_get_result_wake i tm) = destroyed tm" "locked (task_get_result_wake i tm) = locked tm"
      "waitfor (task_get_result_wake i tm) = waitfor tm" "results (task_get_result_wake i tm) = results tm"
      using True i(2) by (simp_all add: task_get_result_wake_def)
    moreover have "List.map pc (tasks (task_get_result_wake i tm)) = List.map pc (tasks tm)"
      unfolding set by (rule map_pc_update) simp
    then have "count_inv (task_get_result_wake i tm)"
      using count_inv_transfer [of tm "task_get_result_wake i tm"] assms(1) same by (simp add: manager_inv_def)
    moreover have "active ?t \<Longrightarrow> active (tasks tm ! i)" by (simp add: active_def)
    ultimately show ?thesis using manager_inv_one [OF assms(1) i(1) set] by blast
  next
    case False
    then have "status (tasks tm ! i) = PSYNC_TASK_STATUS_READY"
      using manager_inv_task [OF assms(1) i(1)] assms(2) by (cases "status (tasks tm ! i)") (auto simp: task_inv_def)
    then show ?thesis using False inv_take_result [OF assms(1) i(1)] assms(2) by (simp add: task_get_result_wake_def)
  qed
qed

lemma inv_free:
  assumes "manager_inv tm" and "client tm = Idle"
  shows "manager_inv (psync_task_free tm)"
proof (cases "refcnt tm = 1")
  case True
  then have none: "actives (tasks tm) = 0" using assms by (simp add: manager_inv_defs)
  then have "task_inv Gone (results tm) i (tasks tm ! i)" if "i < length (tasks tm)" for i
    using manager_inv_task [OF assms(1) that] actives_pos [OF that] assms(2) by (auto simp: task_inv_def active_def)
  then show ?thesis using True none assms by (auto simp: psync_task_free_def manager_inv_defs)
next
  case False
  have "task_inv Freeing (results tm) i (tasks tm ! i)" if "i < length (tasks tm)" for i
    using manager_inv_task [OF assms(1) that] assms(2) by (auto simp: task_inv_def)
  then show ?thesis using False assms by (auto simp: psync_task_free_def manager_inv_defs)
qed

lemma actives_return [simp]: "actives (List.map return_task ts) = actives ts"
  by (induction ts) (auto simp: actives_def return_task_def active_def)

lemma task_inv_return: "task_inv Freeing rs i t \<Longrightarrow> task_inv Gone rs i (return_task t)"
  by (cases "ret t"; cases "status t") (simp_all add: task_inv_def return_task_def)

lemma inv_free_locked:
  assumes "manager_inv tm" and "\<not> locked tm" and "client tm = Freeing"
  shows "manager_inv (task_free_locked tm)"
proof -
  have "task_inv Gone (results tm) i (return_task (tasks tm ! i))" if "i < length (tasks tm)" for i
    by (rule task_inv_return [OF manager_inv_task [OF assms(1) that, unfolded assms(3)]])
  moreover have "pc (return_task t) = pc t" for t :: "'a task" by (simp add: return_task_def)
  ultimately show ?thesis using assms by (auto simp: task_free_locked_def manager_inv_defs)
qed

lemma inv_step: "task_step tm tm' \<Longrightarrow> manager_inv tm \<Longrightarrow> manager_inv tm'"
  by (induction rule: task_step.induct)
    (simp_all add: inv_complete inv_complete_wake inv_dec inv_unlock inv_get inv_get_wake inv_free inv_free_locked)

lemma inv_reachable: "task_reachable tm \<Longrightarrow> manager_inv tm"
  by (induction rule: task_reachable.induct) (auto intro: manager_inv_start inv_step)

subsection \<open>A run\<close>

text \<open>One task; the client waits for it, takes the result and drops the manager while the thread gives up its reference.\<close>

definition sample_waiting :: "'d \<Rightarrow> 'd manager" where
  "sample_waiting d = psync_task_complete 0 d (psync_task_get_result 0 (psync_task_run_tasks [d]))"

definition sample_taken :: "'d \<Rightarrow> 'd manager" where
  "sample_taken d = task_get_result_wake 0 (sample_waiting d)"

definition sample_freed :: "'d \<Rightarrow> 'd manager" where
  "sample_freed d = psync_task_free (psync_task_dec_refcnt 0 (sample_taken d))"

lemmas sample_run_defs = sample_freed_def sample_taken_def sample_waiting_def psync_task_free_def psync_task_dec_refcnt_def
  task_get_result_wake_def take_result_def psync_task_complete_def psync_task_get_result_def psync_task_run_tasks_def

lemma sample_reachable: "task_reachable (sample_waiting d)" "task_reachable (sample_taken d)" "task_reachable (sample_freed d)"
proof -
  let ?s1 = "psync_task_get_result 0 (psync_task_run_tasks [d])"
  have "task_step (psync_task_run_tasks [d]) ?s1" by (rule task_step.get) (simp_all add: sample_run_defs)
  then have "task_reachable ?s1" by (meson task_reachable.intros)
  moreover have "task_step ?s1 (sample_waiting d)"
    unfolding sample_waiting_def by (rule task_step.complete) (simp_all add: sample_run_defs)
  ultimately show waiting: "task_reachable (sample_waiting d)" by (rule task_reachable.step)
  have "task_step (sample_waiting d) (sample_taken d)"
    unfolding sample_taken_def by (rule task_step.get_wake) (simp_all add: sample_run_defs)
  then show taken: "task_reachable (sample_taken d)" by (rule task_reachable.step [OF waiting])
  have "task_step (sample_taken d) (psync_task_dec_refcnt 0 (sample_taken d))"
    by (rule task_step.dec) (simp_all add: sample_run_defs)
  then have "task_reachable (psync_task_dec_refcnt 0 (sample_taken d))" by (rule task_reachable.step [OF taken])
  moreover have "task_step (psync_task_dec_refcnt 0 (sample_taken d)) (sample_freed d)"
    unfolding sample_freed_def by (rule task_step.free) (simp add: sample_run_defs)
  ultimately show "task_reachable (sample_freed d)" by (rule task_reachable.step)
qed

subsection \<open>Properties\<close>

text \<open>
  C17. Every result has one owner, in any interleaving. When a task's \<open>psync_task_complete\<close> has returned
  0 and the client is not just about to take the result, the client has been given exactly what the
  task handed over, once; when it has returned -1 the client has not been given it, never will be (it
  is gone), and the result is the task's to free.
\<close>

theorem task_result_has_one_owner:
  assumes "task_reachable tm" and "i < length (tasks tm)" and "ret (tasks tm ! i) = Some r"
  shows "(r = 0 \<and> (client tm = Waiting i \<or>
            filter (\<lambda>x. fst x = i) (results tm) = [(i, param (tasks tm ! i))])) \<or>
         (r = - 1 \<and> client tm = Gone \<and> i \<notin> fst ` set (results tm))"
proof -
  let ?t = "tasks tm ! i"
  have inv: "manager_inv tm" using inv_reachable [OF assms(1)] .
  then have dist: "distinct (List.map fst (results tm))" by (simp add: manager_inv_def client_inv_def)
  have once: "filter (\<lambda>x. fst x = i) rs = [(i, d)]" if "(i, d) \<in> set rs" "distinct (List.map fst rs)" for d and rs :: "(nat \<times> 'a) list"
    using that by (induction rs) (force simp: filter_empty_conv)+
  consider "r = 0" "status ?t = PSYNC_TASK_STATUS_DONE" | "r = 0" "client tm = Waiting i"
    | "r = - 1" "status ?t = PSYNC_TASK_STATUS_RUNNING \<or> status ?t = PSYNC_TASK_STATUS_RETURNED" "client tm = Gone"
    using manager_inv_task [OF inv assms(2)] assms(3) by (simp add: task_inv_def) blast
  then show ?thesis
  proof cases
    case 1
    then have "(i, param ?t) \<in> set (results tm)" using manager_inv_task [OF inv assms(2)] by (simp add: task_inv_def)
    then show ?thesis using once dist 1 by blast
  next
    case 3
    then have "status ?t \<noteq> PSYNC_TASK_STATUS_DONE" by auto
    then show ?thesis using manager_inv_task [OF inv assms(2)] 3 by (simp add: task_inv_def)
  qed simp
qed

lemma task_result_has_one_owner_witness:
  "client (sample_taken (5 :: nat)) = Waiting 0 \<or> filter (\<lambda>x. fst x = 0) (results (sample_taken 5)) = [(0, param (tasks (sample_taken 5) ! 0))]"
  using task_result_has_one_owner [OF sample_reachable(2), of 0 "5 :: nat" 0] by (simp add: sample_run_defs)

text \<open>
  C33. No wakeup is lost: when the task the client waits for has completed, the client has been
  signalled; when the result of a task waiting in \<open>psync_task_complete\<close> has been taken or will never be,
  the task has been signalled; and once the client is gone no task waits for it, every waiting task
  has its answer.
\<close>

theorem task_no_lost_wakeup:
  assumes "task_reachable tm" and "i < length (tasks tm)"
  shows "(client tm = Waiting i \<and> status (tasks tm ! i) \<noteq> PSYNC_TASK_STATUS_RUNNING \<longrightarrow> woken (tasks tm ! i)) \<and>
    (pc (tasks tm ! i) = In_wait \<and> status (tasks tm ! i) \<noteq> PSYNC_TASK_STATUS_READY \<longrightarrow> woken (tasks tm ! i)) \<and>
    (pc (tasks tm ! i) = In_wait \<and> client tm = Gone \<longrightarrow> woken (tasks tm ! i) \<and> status (tasks tm ! i) \<noteq> PSYNC_TASK_STATUS_READY)"
proof -
  let ?t = "tasks tm ! i"
  have t: "task_inv (client tm) (results tm) i ?t" using manager_inv_task [OF inv_reachable [OF assms(1)] assms(2)] .
  have "woken ?t" if "client tm = Waiting i" "status ?t \<noteq> PSYNC_TASK_STATUS_RUNNING"
    using t that by (cases "ret ?t"; cases "status ?t") (simp_all add: task_inv_def)
  moreover have "woken ?t" if "pc ?t = In_wait" "status ?t \<noteq> PSYNC_TASK_STATUS_READY" using t that by (simp add: task_inv_def)
  moreover have "status ?t \<noteq> PSYNC_TASK_STATUS_READY" if "client tm = Gone" using t that by (simp add: task_inv_def)
  ultimately show ?thesis by blast
qed

lemma task_no_lost_wakeup_witness: "woken (tasks (sample_waiting (5 :: nat)) ! 0)"
proof -
  have "client (sample_waiting (5 :: nat)) = Waiting 0" "status (tasks (sample_waiting (5 :: nat)) ! 0) \<noteq> PSYNC_TASK_STATUS_RUNNING"
    "0 < length (tasks (sample_waiting (5 :: nat)))"
    by (simp_all add: sample_run_defs)
  then show ?thesis using task_no_lost_wakeup [OF sample_reachable(1), of 0 "5 :: nat"] by blast
qed

text \<open>
  C37. The manager is destroyed only when the client has dropped it and no task can use it any more
  except for one that is just giving back the mutex; and that one exists: with a single task, a client
  that looks at the count without the mutex frees it while the task's thread still holds the mutex
  inside it.
\<close>

theorem task_manager_freed_while_locked:
  "(\<forall>tm :: 'd manager. task_reachable tm \<and> destroyed tm \<longrightarrow> client tm = Gone \<and> (\<forall>t \<in> set (tasks tm). \<not> active t)) \<and>
   (\<exists>tm :: 'd manager. task_reachable tm \<and> destroyed tm \<and> locked tm \<and> pc (tasks tm ! 0) = In_unlock 1 \<and> waitfor tm = PSYNC_WAIT_NOBODY)"
proof
  show "\<forall>tm :: 'd manager. task_reachable tm \<and> destroyed tm \<longrightarrow> client tm = Gone \<and> (\<forall>t \<in> set (tasks tm). \<not> active t)"
  proof (intro allI impI)
    fix tm :: "'d manager"
    assume tm: "task_reachable tm \<and> destroyed tm"
    then have inv: "client tm = Gone" "actives (tasks tm) = 0" using inv_reachable [of tm] by (simp_all add: manager_inv_defs)
    then have "\<not> active (tasks tm ! i)" if "i < length (tasks tm)" for i using actives_pos [OF that] by auto
    then show "client tm = Gone \<and> (\<forall>t \<in> set (tasks tm). \<not> active t)" using inv(1) by (auto simp: in_set_conv_nth)
  qed
next
  fix d :: 'd
  have "task_reachable (sample_freed d)" by (rule sample_reachable)
  moreover have "destroyed (sample_freed d) \<and> locked (sample_freed d) \<and> pc (tasks (sample_freed d) ! 0) = In_unlock 1 \<and>
      waitfor (sample_freed d) = PSYNC_WAIT_NOBODY"
    by (simp add: sample_run_defs)
  ultimately show "\<exists>tm :: 'd manager. task_reachable tm \<and> destroyed tm \<and> locked tm \<and> pc (tasks tm ! 0) = In_unlock 1 \<and> waitfor tm = PSYNC_WAIT_NOBODY"
    by blast
qed

lemma task_manager_freed_while_locked_witness: "\<exists>tm :: nat manager. task_reachable tm \<and> destroyed tm \<and> locked tm \<and> client tm = Gone"
  using task_manager_freed_while_locked [where 'd = nat] by blast

end
