(* ===== verification/Pcrc32c.thy ===== *)
theory Pcrc32c
  imports Pcrctables
begin

unbundle bit_operations_syntax

section \<open>CRC-32C in software and with the processor's instruction (pcrc32c.c)\<close>

text \<open>
  \<open>psync_crc32c\<close> is computed eight bytes at a time from the tables, or by the \<open>crc32\<close> instruction of
  the processor, there in three strands whose results are combined. Data are the bytes from the
  pointer on, and \<open>addr\<close> is the pointer itself, of which only the alignment matters. The instructions are
  the parameters \<open>hw8\<close> and \<open>hw64\<close>, with what the processor's documentation says of them as hypothesis
  \<open>crc_hw_ok\<close>. Both versions are shown to compute the checksum bit by bit.
\<close>

subsection \<open>The code\<close>

definition crc32c_entry :: "nat \<Rightarrow> u32 \<Rightarrow> u32" where
  "crc32c_entry k x = crc32c_table ! k ! unat x"

definition load32 :: "byte list \<Rightarrow> u32" where
  "load32 data = of_nat (le_val (take 4 data))"

definition load64 :: "byte list \<Rightarrow> u64" where
  "load64 data = of_nat (le_val (take 8 data))"

definition CRC32C_64BIT :: "u32 \<Rightarrow> byte list \<Rightarrow> u32" where
  "CRC32C_64BIT crc data =
     (let crc = crc XOR load32 data in
      crc32c_entry 7 (crc AND 0xff) XOR
      crc32c_entry 6 (drop_bit 8 crc AND 0xff) XOR
      crc32c_entry 5 (drop_bit 16 crc AND 0xff) XOR
      crc32c_entry 4 (drop_bit 24 crc AND 0xff) XOR
      crc32c_entry 3 (ucast (data ! 4)) XOR
      crc32c_entry 2 (ucast (data ! 5)) XOR
      crc32c_entry 1 (ucast (data ! 6)) XOR
      crc32c_entry 0 (ucast (data ! 7)))"

definition CRC32C_8BIT :: "u32 \<Rightarrow> byte \<Rightarrow> u32" where
  "CRC32C_8BIT crc b = crc32c_entry 0 ((crc XOR ucast b) AND 0xff) XOR drop_bit 8 crc"

fun crc_align :: "nat \<Rightarrow> nat \<Rightarrow> ('c \<Rightarrow> byte \<Rightarrow> 'c) \<Rightarrow> 'c \<Rightarrow> byte list \<Rightarrow> 'c \<times> byte list" where
  "crc_align align addr step crc [] = (crc, [])"
| "crc_align align addr step crc (b # data) =
     (if addr mod align \<noteq> 0 then crc_align align (addr + 1) step (step crc b) data else (crc, b # data))"

function crc_sw_loop64 :: "u32 \<Rightarrow> byte list \<Rightarrow> u32 \<times> byte list" where
  "crc_sw_loop64 crc data =
     (if length data \<ge> 64 then
        (let crc = CRC32C_64BIT crc data;
             crc = CRC32C_64BIT crc (drop 8 data);
             crc = CRC32C_64BIT crc (drop 16 data);
             crc = CRC32C_64BIT crc (drop 24 data);
             crc = CRC32C_64BIT crc (drop 32 data);
             crc = CRC32C_64BIT crc (drop 40 data);
             crc = CRC32C_64BIT crc (drop 48 data);
             crc = CRC32C_64BIT crc (drop 56 data)
         in crc_sw_loop64 crc (drop 64 data))
      else (crc, data))"
  by auto
termination by (relation "measure (\<lambda>(crc, data). length data)") auto

function crc_sw_loop8 :: "u32 \<Rightarrow> byte list \<Rightarrow> u32 \<times> byte list" where
  "crc_sw_loop8 crc data =
     (if length data \<ge> 8 then crc_sw_loop8 (CRC32C_64BIT crc data) (drop 8 data) else (crc, data))"
  by auto
termination by (relation "measure (\<lambda>(crc, data). length data)") auto

definition psync_crc32c_sw :: "nat \<Rightarrow> u32 \<Rightarrow> byte list \<Rightarrow> u32" where
  "psync_crc32c_sw addr crc data =
     (let (crc, data) = crc_align 4 addr CRC32C_8BIT crc data;
          (crc, data) = crc_sw_loop64 crc data;
          (crc, data) = crc_sw_loop8 crc data
      in foldl CRC32C_8BIT crc data)"

definition crc32c_shift_chunk :: "u32 \<Rightarrow> u32" where
  "crc32c_shift_chunk crc =
     crc32c_shift_chunk_table1360 ! 0 ! unat (crc AND 0xff) XOR
     crc32c_shift_chunk_table1360 ! 1 ! unat (drop_bit 8 crc AND 0xff) XOR
     crc32c_shift_chunk_table1360 ! 2 ! unat (drop_bit 16 crc AND 0xff) XOR
     crc32c_shift_chunk_table1360 ! 3 ! unat (drop_bit 24 crc)"

abbreviation CRC32_PARALLEL_CHUNK :: nat where "CRC32_PARALLEL_CHUNK \<equiv> 1360"
abbreviation CRC32_WORD_SIZE :: nat where "CRC32_WORD_SIZE \<equiv> 8"

type_synonym crc_hw8 = "u64 \<Rightarrow> byte \<Rightarrow> u64"
type_synonym crc_hw64 = "u64 \<Rightarrow> u64 \<Rightarrow> u64"

text \<open>The three strands of a chunk: as many words of each as the counter says.\<close>

primrec crc_hw_chunk :: "crc_hw64 \<Rightarrow> nat \<Rightarrow> byte list \<Rightarrow> u64 \<times> u64 \<times> u64 \<Rightarrow> u64 \<times> u64 \<times> u64" where
  "crc_hw_chunk hw64 0 data crcs = crcs"
| "crc_hw_chunk hw64 (Suc n) data crcs =
     (case crcs of (crc0, crc1, crc2) \<Rightarrow>
        crc_hw_chunk hw64 n (drop CRC32_WORD_SIZE data)
          (hw64 crc0 (load64 data),
           hw64 crc1 (load64 (drop CRC32_PARALLEL_CHUNK data)),
           hw64 crc2 (load64 (drop (CRC32_PARALLEL_CHUNK * 2) data))))"

function crc_hw_chunks :: "crc_hw64 \<Rightarrow> u64 \<Rightarrow> byte list \<Rightarrow> u64 \<times> byte list" where
  "crc_hw_chunks hw64 crc0 data =
     (if length data \<ge> CRC32_PARALLEL_CHUNK * 3 then
        (let (crc0, crc1, crc2) = crc_hw_chunk hw64 (CRC32_PARALLEL_CHUNK div CRC32_WORD_SIZE) data (crc0, 0, 0);
             crc0 = ucast (crc32c_shift_chunk (ucast crc0)) XOR crc1;
             crc0 = ucast (crc32c_shift_chunk (ucast crc0)) XOR crc2
         in crc_hw_chunks hw64 crc0 (drop (CRC32_PARALLEL_CHUNK * 3) data))
      else (crc0, data))"
  by auto
termination by (relation "measure (\<lambda>(hw64, crc0, data). length data)") auto

function crc_hw_loop4 :: "crc_hw64 \<Rightarrow> u64 \<Rightarrow> byte list \<Rightarrow> u64 \<times> byte list" where
  "crc_hw_loop4 hw64 crc0 data =
     (if length data \<ge> CRC32_WORD_SIZE * 4 then
        (let crc0 = hw64 crc0 (load64 data);
             crc0 = hw64 crc0 (load64 (drop CRC32_WORD_SIZE data));
             crc0 = hw64 crc0 (load64 (drop (CRC32_WORD_SIZE * 2) data));
             crc0 = hw64 crc0 (load64 (drop (CRC32_WORD_SIZE * 3) data))
         in crc_hw_loop4 hw64 crc0 (drop (CRC32_WORD_SIZE * 4) data))
      else (crc0, data))"
  by auto
termination by (relation "measure (\<lambda>(hw64, crc0, data). length data)") auto

function crc_hw_loop1 :: "crc_hw64 \<Rightarrow> u64 \<Rightarrow> byte list \<Rightarrow> u64 \<times> byte list" where
  "crc_hw_loop1 hw64 crc0 data =
     (if length data \<ge> CRC32_WORD_SIZE then
        crc_hw_loop1 hw64 (hw64 crc0 (load64 data)) (drop CRC32_WORD_SIZE data)
      else (crc0, data))"
  by auto
termination by (relation "measure (\<lambda>(hw64, crc0, data). length data)") auto

definition psync_crc32c_hw :: "crc_hw8 \<Rightarrow> crc_hw64 \<Rightarrow> nat \<Rightarrow> u32 \<Rightarrow> byte list \<Rightarrow> u32" where
  "psync_crc32c_hw hw8 hw64 addr crc data =
     (let (crc0, data) = crc_align CRC32_WORD_SIZE addr hw8 (ucast crc) data;
          (crc0, data) = crc_hw_chunks hw64 crc0 data;
          (crc0, data) = crc_hw_loop4 hw64 crc0 data;
          (crc0, data) = crc_hw_loop1 hw64 crc0 data
      in ucast (foldl hw8 crc0 data))"

text \<open>
  The global \<open>crc_hashw\<close> is 0 until the processor has been asked (\<open>has_hw\<close>, the answer of \<open>cpuid\<close>),
  then 2 if it has the instruction and 1 if not.
\<close>

definition psync_crc32c_init :: "crc_hw8 \<Rightarrow> crc_hw64 \<Rightarrow> bool \<Rightarrow> nat \<Rightarrow> u32 \<Rightarrow> byte list \<Rightarrow> nat \<times> u32" where
  "psync_crc32c_init hw8 hw64 has_hw addr crc data =
     (let crc_hashw = (if has_hw then 1 else 0) + 1 in
      (crc_hashw, if crc_hashw = 2 then psync_crc32c_hw hw8 hw64 addr crc data else psync_crc32c_sw addr crc data))"

definition psync_crc32c :: "crc_hw8 \<Rightarrow> crc_hw64 \<Rightarrow> bool \<Rightarrow> nat \<Rightarrow> nat \<Rightarrow> u32 \<Rightarrow> byte list \<Rightarrow> nat \<times> u32" where
  "psync_crc32c hw8 hw64 has_hw crc_hashw addr crc data =
     (if crc_hashw = 0 then psync_crc32c_init hw8 hw64 has_hw addr crc data
      else (crc_hashw, if crc_hashw = 2 then psync_crc32c_hw hw8 hw64 addr crc data else psync_crc32c_sw addr crc data))"

declare crc_sw_loop64.simps [simp del] crc_sw_loop8.simps [simp del] crc_hw_chunks.simps [simp del]
  crc_hw_loop4.simps [simp del] crc_hw_loop1.simps [simp del]

subsection \<open>The checksum bit by bit\<close>

definition crc_byte :: "u32 \<Rightarrow> byte \<Rightarrow> u32" where
  "crc_byte c b = (crc_bit ^^ 8) (c XOR ucast b)"

abbreviation crc_bytes :: "u32 \<Rightarrow> byte list \<Rightarrow> u32" where
  "crc_bytes \<equiv> foldl crc_byte"

definition crc_hw_ok :: "crc_hw8 \<Rightarrow> crc_hw64 \<Rightarrow> bool" where
  "crc_hw_ok hw8 hw64 \<longleftrightarrow>
     (\<forall>crc b. hw8 crc b = ucast (crc_byte (ucast crc) b)) \<and>
     (\<forall>crc v. hw64 crc v = ucast (crc_bytes (ucast crc) (le_bytes 8 (unat v))))"

text \<open>Bytes of zero.\<close>

definition crc_zeros :: "nat \<Rightarrow> u32 \<Rightarrow> u32" where
  "crc_zeros n = crc_bit ^^ (8 * n)"

lemma linear_zeros: "linear (crc_zeros n)"
  by (simp add: crc_zeros_def linear_funpow linear_crc_bit)

lemmas zeros_xor = linear_xor [OF linear_zeros]

lemma zeros_0 [simp]: "crc_zeros n 0 = 0"
  by (rule linear_0 [OF linear_zeros])

lemma zeros_zeros [simp]: "crc_zeros m (crc_zeros n c) = crc_zeros (m + n) c"
  by (simp add: crc_zeros_def funpow_add add_mult_distrib2)

lemma crc_byte_zeros: "crc_byte c b = crc_zeros 1 (c XOR ucast b)"
  by (simp add: crc_byte_def crc_zeros_def)

lemma zeros_id [simp]: "crc_zeros 0 c = c"
  by (simp add: crc_zeros_def)

lemma low_bits_zero: "(\<And>i. i < m \<Longrightarrow> \<not> bit c i) \<Longrightarrow> (crc_bit ^^ m) c = drop_bit m c"
proof (induction m arbitrary: c)
  case (Suc m)
  have "crc_bit c = drop_bit 1 c" using Suc.prems [of 0] by (simp add: crc_bit_def)
  then have "(crc_bit ^^ Suc m) c = (crc_bit ^^ m) (drop_bit 1 c)" by (simp only: funpow_Suc_right o_apply)
  also have "\<dots> = drop_bit m (drop_bit 1 c)"
    by (rule Suc.IH) (simp add: bit_drop_bit_eq Suc.prems)
  also have "\<dots> = drop_bit (Suc m) c" by (simp only: drop_bit_drop_bit Suc_eq_plus1)
  finally show ?case .
qed simp

lemma zeros_push: "k \<le> n \<Longrightarrow> k < 4 \<Longrightarrow> unat b < 256 \<Longrightarrow> crc_zeros n (push_bit (8 * k) b) = crc_zeros (n - k) b"
proof -
  assume k: "k \<le> n" "k < 4" "unat b < 256"
  have "take_bit 8 b = b" using k(3) by (intro unsigned_word_eqI [where 'a = nat]) (simp add: unsigned_take_bit_eq take_bit_nat_eq_self)
  then have high: "\<not> bit b i" if "8 \<le> i" for i using that by (metis bit_take_bit_iff not_le)
  have "crc_zeros k (push_bit (8 * k) b) = drop_bit (8 * k) (push_bit (8 * k) b)"
    unfolding crc_zeros_def by (rule low_bits_zero) (simp add: bit_push_bit_iff)
  also have "\<dots> = b"
  proof (rule bit_word_eqI)
    fix i assume "i < LENGTH(32)"
    then show "bit (drop_bit (8 * k) (push_bit (8 * k) b)) i = bit b i"
      using k(2) high [of i] by (cases "8 * k + i < 32") (auto simp: bit_drop_bit_eq bit_push_bit_iff)
  qed
  finally have "crc_zeros k (push_bit (8 * k) b) = b" .
  then show ?thesis using zeros_zeros [of "n - k" k "push_bit (8 * k) b"] k(1) by simp
qed

lemma and_255: "x AND 0xff = take_bit 8 x" for x :: u32
  by (simp add: take_bit_eq_mask mask_eq_exp_minus_1)

lemma unat_take_8 [simp]: "unat (take_bit 8 x :: u32) < 256"
  using take_bit_nat_less_exp [of 8 "unat x"] by (simp add: unsigned_take_bit_eq)

lemma unat_ucast_byte [simp]: "unat (ucast (b :: byte) :: u32) = unat b"
  by (simp add: unsigned_ucast_eq take_bit_nat_eq_self order_less_trans [OF unat_byte_less])

lemma split_low: "x = take_bit 8 x XOR push_bit 8 (drop_bit 8 x)" for x :: u32
  by (intro bit_word_eqI) (auto simp: bit_simps simp del: take_bit_numeral_numeral)

lemma split_bytes:
  "x = take_bit 8 x XOR push_bit 8 (take_bit 8 (drop_bit 8 x)) XOR push_bit 16 (take_bit 8 (drop_bit 16 x))
     XOR push_bit 24 (take_bit 8 (drop_bit 24 x))" for x :: u32
proof (rule bit_word_eqI)
  fix i assume i: "i < LENGTH(32)"
  then have "i < 8 \<or> 8 \<le> i \<and> i < 16 \<or> 16 \<le> i \<and> i < 24 \<or> 24 \<le> i \<and> i < 32" by auto
  then show "bit x i = bit (take_bit 8 x XOR push_bit 8 (take_bit 8 (drop_bit 8 x)) XOR push_bit 16 (take_bit 8 (drop_bit 16 x))
     XOR push_bit 24 (take_bit 8 (drop_bit 24 x))) i"
    by (elim disjE) (auto simp: bit_simps)
qed

lemma zeros_bytes:
  assumes "4 \<le> n"
  shows "crc_zeros n x = crc_zeros n (take_bit 8 x) XOR crc_zeros (n - 1) (take_bit 8 (drop_bit 8 x))
     XOR crc_zeros (n - 2) (take_bit 8 (drop_bit 16 x)) XOR crc_zeros (n - 3) (take_bit 8 (drop_bit 24 x))"
proof -
  have "crc_zeros n x = crc_zeros n (take_bit 8 x) XOR crc_zeros n (push_bit (8 * 1) (take_bit 8 (drop_bit 8 x)))
     XOR crc_zeros n (push_bit (8 * 2) (take_bit 8 (drop_bit 16 x))) XOR crc_zeros n (push_bit (8 * 3) (take_bit 8 (drop_bit 24 x)))"
    by (subst (1) split_bytes) (simp only: zeros_xor, simp)
  moreover have push: "crc_zeros n (push_bit (8 * k) (take_bit 8 y)) = crc_zeros (n - k) (take_bit 8 y)" if "k < 4" for k and y
    using assms that by (intro zeros_push) simp_all
  ultimately show ?thesis using push [of 1] push [of 2] push [of 3] by simp
qed

lemma crc_bytes_xor: "crc_bytes (a XOR b) bs = crc_zeros (length bs) a XOR crc_bytes b bs"
proof (induction bs arbitrary: a b)
  case (Cons x bs)
  have "crc_byte (a XOR b) x = crc_zeros 1 a XOR crc_byte b x"
    by (simp add: crc_byte_zeros xor.assoc zeros_xor)
  then show ?case using Cons by simp
qed simp

lemma crc_bytes_4: "crc_bytes c [b0, b1, b2, b3] =
  crc_zeros 4 c XOR crc_zeros 4 (ucast b0) XOR crc_zeros 3 (ucast b1) XOR crc_zeros 2 (ucast b2) XOR crc_zeros 1 (ucast b3)"
  by (simp add: crc_byte_zeros zeros_xor ac_simps eval_nat_numeral)

lemma byte_cons: "(of_nat (unat (b :: byte) + 256 * n) :: u32) = ucast b XOR push_bit 8 (of_nat n)"
proof -
  have "(ucast b :: u32) AND push_bit 8 (of_nat n) = 0"
  proof (rule bit_word_eqI)
    fix i
    have "\<not> bit b i" if "8 \<le> i" using that bit_imp_le_length [of b i] by auto
    then show "bit (ucast b AND push_bit 8 (of_nat n :: u32)) i = bit (0 :: u32) i"
      by (auto simp: bit_and_iff bit_push_bit_iff bit_ucast_iff)
  qed
  then have "ucast b + push_bit 8 (of_nat n) = ucast b XOR push_bit 8 (of_nat n :: u32)" by (rule disjunctive_add_eq_xor)
  then show ?thesis by (simp add: push_bit_eq_mult mult.commute)
qed

lemma zeros_load32:
  "crc_zeros 4 (load32 (b0 # b1 # b2 # b3 # data)) =
     crc_zeros 4 (ucast b0) XOR crc_zeros 3 (ucast b1) XOR crc_zeros 2 (ucast b2) XOR crc_zeros 1 (ucast b3)"
proof -
  have "load32 (b0 # b1 # b2 # b3 # data) = of_nat (unat b0 + 256 * (unat b1 + 256 * (unat b2 + 256 * (unat b3 + 256 * 0))))"
    by (simp add: load32_def)
  also have "\<dots> = push_bit (8 * 0) (ucast b0) XOR push_bit (8 * 1) (ucast b1) XOR push_bit (8 * 2) (ucast b2) XOR push_bit (8 * 3) (ucast b3)"
    by (simp only: byte_cons push_bit_xor push_bit_push_bit) (simp add: xor.assoc)
  finally show ?thesis
    using zeros_push [of 0 4 "ucast b0"] zeros_push [of 1 4 "ucast b1"] zeros_push [of 2 4 "ucast b2"] zeros_push [of 3 4 "ucast b3"]
    by (simp add: zeros_xor)
qed

lemma entry_zeros: "k < 8 \<Longrightarrow> unat x < 256 \<Longrightarrow> crc32c_entry k x = crc_zeros (Suc k) x"
  by (simp only: crc32c_entry_def crc32c_table_nth crc_zeros_def)

lemma entry_byte: "k < 8 \<Longrightarrow> crc32c_entry k (ucast (b :: byte)) = crc_zeros (Suc k) (ucast b)"
  by (simp add: entry_zeros)

lemma take_8_high: "take_bit 8 (drop_bit 24 x) = drop_bit 24 (x :: u32)"
  by (intro bit_word_eqI) (auto simp: bit_simps dest: bit_imp_le_length)

lemma CRC32C_8BIT_eq: "CRC32C_8BIT = crc_byte"
proof (intro ext)
  fix c :: u32 and b :: byte
  let ?x = "c XOR ucast b"
  have "drop_bit 8 ?x = drop_bit 8 c"
    by (intro bit_word_eqI) (auto simp: bit_simps dest: bit_imp_le_length)
  have "crc_zeros 1 (push_bit 8 (drop_bit 8 ?x)) = drop_bit 8 (push_bit 8 (drop_bit 8 ?x))"
    unfolding crc_zeros_def by (simp only: mult_1_right) (rule low_bits_zero, simp add: bit_push_bit_iff bit_xor_iff)
  also have "\<dots> = drop_bit 8 ?x" by (intro bit_word_eqI) (auto simp: bit_simps dest: bit_imp_le_length)
  finally have "crc_zeros 1 ?x = crc_zeros 1 (take_bit 8 ?x) XOR drop_bit 8 c"
    using \<open>drop_bit 8 ?x = drop_bit 8 c\<close> by (subst (1) split_low) (simp only: zeros_xor)
  then show "CRC32C_8BIT c b = crc_byte c b"
    by (simp only: CRC32C_8BIT_def and_255 entry_zeros [OF _ unat_take_8] zero_less_numeral crc_byte_zeros One_nat_def)
qed

lemma CRC32C_64BIT_eq: "8 \<le> length data \<Longrightarrow> CRC32C_64BIT c data = crc_bytes c (take 8 data)"
proof -
  assume "8 \<le> length data"
  then obtain b0 b1 b2 b3 b4 b5 b6 b7 rest where d: "data = [b0, b1, b2, b3, b4, b5, b6, b7] @ rest"
    by (auto simp: numeral_eq_Suc Suc_le_length_iff)
  have "crc_bytes c (take 8 data) = crc_bytes (crc_bytes c [b0, b1, b2, b3]) [b4, b5, b6, b7]" by (simp add: d)
  also have "crc_bytes c [b0, b1, b2, b3] = crc_zeros 4 (c XOR load32 data)"
    by (simp only: crc_bytes_4) (simp add: zeros_xor zeros_load32 d)
  also have "crc_bytes (crc_zeros 4 (c XOR load32 data)) [b4, b5, b6, b7] = crc_zeros 8 (c XOR load32 data) XOR
      crc_zeros 4 (ucast b4) XOR crc_zeros 3 (ucast b5) XOR crc_zeros 2 (ucast b6) XOR crc_zeros 1 (ucast b7)"
    by (simp only: crc_bytes_4) simp
  also have "\<dots> = CRC32C_64BIT c data"
  proof -
    define x where "x = c XOR load32 data"
    have "crc_zeros 8 x = crc32c_entry 7 (x AND 0xff) XOR crc32c_entry 6 (drop_bit 8 x AND 0xff)
        XOR crc32c_entry 5 (drop_bit 16 x AND 0xff) XOR crc32c_entry 4 (drop_bit 24 x AND 0xff)"
      by (subst zeros_bytes) (simp_all add: and_255 entry_zeros)
    moreover have e: "crc32c_entry 3 (ucast b4) = crc_zeros 4 (ucast b4)" "crc32c_entry 2 (ucast b5) = crc_zeros 3 (ucast b5)"
      "crc32c_entry 1 (ucast b6) = crc_zeros 2 (ucast b6)" "crc32c_entry 0 (ucast b7) = crc_zeros 1 (ucast b7)"
      using entry_byte [of 3 b4] entry_byte [of 2 b5] entry_byte [of 1 b6] entry_byte [of 0 b7] by (simp_all add: eval_nat_numeral)
    moreover have n: "data ! 4 = b4" "data ! 5 = b5" "data ! 6 = b6" "data ! 7 = b7" by (simp_all add: d)
    ultimately show ?thesis
      unfolding CRC32C_64BIT_def Let_def x_def [symmetric]
      by (simp only: e n xor.assoc)
  qed
  finally show ?thesis by simp
qed

lemma foldl_take_drop: "foldl f c data = foldl f (foldl f c (take n data)) (drop n data)"
  by (metis append_take_drop_id foldl_append)

lemma crc_align_fold: "crc_align align addr step c data = (c', data') \<Longrightarrow> foldl step c' data' = foldl step c data"
  by (induction align addr step c data rule: crc_align.induct) (auto split: if_splits)

lemma CRC32C_64BIT_drop: "n + 8 \<le> length data \<Longrightarrow> CRC32C_64BIT (crc_bytes c (take n data)) (drop n data) = crc_bytes c (take (n + 8) data)"
  by (simp add: CRC32C_64BIT_eq take_add)

lemma sw_loop64_step:
  assumes "64 \<le> length data"
  shows "crc_sw_loop64 c data = crc_sw_loop64 (crc_bytes c (take 64 data)) (drop 64 data)"
proof -
  have s: "CRC32C_64BIT (crc_bytes c (take n data)) (drop n data) = crc_bytes c (take (n + 8) data)" if "n \<le> 56" for n
    using assms that by (intro CRC32C_64BIT_drop) simp
  have "CRC32C_64BIT c data = crc_bytes c (take 8 data)" using s [of 0] by simp
  moreover note s [of 8] s [of 16] s [of 24] s [of 32] s [of 40] s [of 48] s [of 56]
  ultimately show ?thesis by (subst crc_sw_loop64.simps) (simp add: assms Let_def)
qed

text \<open>A loop that takes a number of bytes at a time; \<open>u\<close> embeds the checksum in the register the loop uses.\<close>

lemma loop_fold:
  assumes step: "\<And>c data. k \<le> length data \<Longrightarrow> loop (u c) data = loop (u (crc_bytes c (take k data))) (drop k data)"
    and stop: "\<And>c data. length data < k \<Longrightarrow> loop c data = (c, data)" and pos: "0 < k"
  shows "loop (u c) data = (c1, data') \<Longrightarrow> \<exists>c'. c1 = u c' \<and> crc_bytes c' data' = crc_bytes c data"
proof (induction data arbitrary: c rule: length_induct)
  case (1 data)
  show ?case
  proof (cases "k \<le> length data")
    case True
    moreover have "length (drop k data) < length data" using True pos by simp
    moreover have "loop (u (crc_bytes c (take k data))) (drop k data) = (c1, data')" using 1(2) step [OF True] by simp
    ultimately have "\<exists>c'. c1 = u c' \<and> crc_bytes c' data' = crc_bytes (crc_bytes c (take k data)) (drop k data)" using 1(1) by blast
    then show ?thesis by (simp only: foldl_take_drop [symmetric])
  next
    case False
    then show ?thesis using 1(2) stop [of data "u c"] by auto
  qed
qed

lemma sw_loop64_fold: "crc_sw_loop64 c data = (c', data') \<Longrightarrow> crc_bytes c' data' = crc_bytes c data"
  using loop_fold [of 64 crc_sw_loop64 "\<lambda>c. c" c data c' data'] sw_loop64_step by (auto simp: crc_sw_loop64.simps)

lemma sw_loop8_step: "8 \<le> length data \<Longrightarrow> crc_sw_loop8 c data = crc_sw_loop8 (crc_bytes c (take 8 data)) (drop 8 data)"
  by (subst crc_sw_loop8.simps) (simp add: CRC32C_64BIT_eq)

lemma sw_loop8_fold: "crc_sw_loop8 c data = (c', data') \<Longrightarrow> crc_bytes c' data' = crc_bytes c data"
  using loop_fold [of 8 crc_sw_loop8 "\<lambda>c. c" c data c' data'] sw_loop8_step by (auto simp: crc_sw_loop8.simps)

lemma crc32c_sw_bytes: "psync_crc32c_sw addr crc data = crc_bytes crc data"
proof -
  obtain c1 d1 where 1: "crc_align 4 addr CRC32C_8BIT crc data = (c1, d1)" by fastforce
  obtain c2 d2 where 2: "crc_sw_loop64 c1 d1 = (c2, d2)" by fastforce
  obtain c3 d3 where 3: "crc_sw_loop8 c2 d2 = (c3, d3)" by fastforce
  have "psync_crc32c_sw addr crc data = foldl CRC32C_8BIT c3 d3" by (simp add: psync_crc32c_sw_def 1 2 3)
  also have "\<dots> = foldl CRC32C_8BIT c1 d1"
    using sw_loop64_fold [OF 2] sw_loop8_fold [OF 3] by (simp add: CRC32C_8BIT_eq)
  also have "\<dots> = crc_bytes crc data"
    using crc_align_fold [OF 1] by (simp add: CRC32C_8BIT_eq)
  finally show ?thesis .
qed

text \<open>
  C28. The software version of the checksum, which reads eight bytes at a time from eight tables,
  computes the CRC-32C of the data bit by bit, for data of any length at any alignment.
\<close>

theorem crc32c_sw_correct: "psync_crc32c_sw addr crc data = foldl (\<lambda>c b. (crc_bit ^^ 8) (c XOR ucast b)) crc data"
  using crc32c_sw_bytes [of addr crc data] by (simp add: crc_byte_def [abs_def])

subsection \<open>The instruction computes the same\<close>

lemma ucast_ucast_u32 [simp]: "ucast (ucast (c :: u32) :: u64) = c"
  by (intro bit_word_eqI) (auto simp: bit_simps)

lemma hw_ok_8: "crc_hw_ok hw8 hw64 \<Longrightarrow> hw8 (ucast c) b = ucast (crc_byte c b)"
  by (simp add: crc_hw_ok_def)

lemma hw_ok_64: "crc_hw_ok hw8 hw64 \<Longrightarrow> 8 \<le> length data \<Longrightarrow> hw64 (ucast c) (load64 data) = ucast (crc_bytes c (take 8 data))"
proof -
  assume hw: "crc_hw_ok hw8 hw64" and len: "8 \<le> length data"
  have "le_val (take 8 data) < 256 ^ length (take 8 data)" by (rule le_val_less)
  then have "le_val (take 8 data) < 2 ^ 64" using len by simp
  then have "unat (load64 data) = le_val (take 8 data)" by (simp add: load64_def unat_of_nat)
  then have "le_bytes 8 (unat (load64 data)) = take 8 data" using len by (simp add: le_bytes_le_val)
  moreover have "hw64 (ucast c) (load64 data) = ucast (crc_bytes (ucast (ucast c :: u64)) (le_bytes 8 (unat (load64 data))))"
    using hw by (simp only: crc_hw_ok_def)
  ultimately show ?thesis by simp
qed

lemma hw_ok_64_drop:
  "crc_hw_ok hw8 hw64 \<Longrightarrow> n + 8 \<le> length data \<Longrightarrow>
     hw64 (ucast (crc_bytes c (take n data))) (load64 (drop n data)) = ucast (crc_bytes c (take (n + 8) data))"
  by (simp add: hw_ok_64 take_add)

lemma hw8_fold: "crc_hw_ok hw8 hw64 \<Longrightarrow> foldl hw8 (ucast c) data = ucast (crc_bytes c data)"
  by (induction data arbitrary: c) (simp_all add: hw_ok_8)

lemma hw_align_fold:
  "crc_hw_ok hw8 hw64 \<Longrightarrow> crc_align align addr hw8 (ucast c) data = (c1, data') \<Longrightarrow>
     \<exists>c'. c1 = ucast c' \<and> crc_bytes c' data' = crc_bytes c data"
proof (induction data arbitrary: addr c)
  case (Cons b data)
  then show ?case
    using Cons.IH [of "addr + 1" "crc_byte c b"] by (cases "addr mod align = 0") (auto simp: hw_ok_8)
qed auto

lemma shift_chunk_zeros: "crc32c_shift_chunk c = crc_zeros 1360 c"
proof -
  let ?b = "\<lambda>k. take_bit 8 (drop_bit (8 * k) c)"
  have "crc_zeros 1360 c = crc_zeros 1360 (push_bit (8 * 0) (?b 0)) XOR crc_zeros 1360 (push_bit (8 * 1) (?b 1))
      XOR crc_zeros 1360 (push_bit (8 * 2) (?b 2)) XOR crc_zeros 1360 (push_bit (8 * 3) (?b 3))"
    by (subst (1) split_bytes [of c]) (simp only: zeros_xor, simp)
  moreover have "crc_zeros 1360 (push_bit (8 * k) (?b k)) = crc32c_shift_chunk_table1360 ! k ! unat (?b k)" if "k < 4" for k
    using crc32c_shift_chunk_nth [OF that, of "?b k"] by (simp add: crc_zeros_def)
  note this [of 0] this [of 1] this [of 2] this [of 3]
  ultimately show ?thesis by (simp add: crc32c_shift_chunk_def and_255 take_8_high)
qed

lemma hw_chunk_fold:
  assumes "crc_hw_ok hw8 hw64"
  shows "8 * n + 2720 \<le> length data \<Longrightarrow> crc_hw_chunk hw64 n data (ucast c0, ucast c1, ucast c2) =
    (ucast (crc_bytes c0 (take (8 * n) data)), ucast (crc_bytes c1 (take (8 * n) (drop 1360 data))),
     ucast (crc_bytes c2 (take (8 * n) (drop 2720 data))))"
proof (induction n arbitrary: data c0 c1 c2)
  case (Suc n)
  have hw: "hw64 (ucast c) (load64 (drop k data)) = ucast (crc_bytes c (take 8 (drop k data)))" if "k \<le> 2720" for k c
    using that Suc.prems by (intro hw_ok_64 [OF assms]) simp
  have split: "crc_bytes (crc_bytes c (take 8 (drop k data))) (take (8 * n) (drop k (drop 8 data))) = crc_bytes c (take (8 * Suc n) (drop k data))" for c k
    by (simp add: take_add add.commute flip: foldl_append)
  show ?case
    using Suc.IH [of "drop 8 data" "crc_bytes c0 (take 8 data)" "crc_bytes c1 (take 8 (drop 1360 data))" "crc_bytes c2 (take 8 (drop 2720 data))"]
      Suc.prems hw [of 0] hw [of 1360] hw [of 2720] split [of c0 0] split [of c1 1360] split [of c2 2720]
    by simp
qed simp

lemma chunk_split:
  assumes "4080 \<le> length data"
  shows "crc32c_shift_chunk (crc32c_shift_chunk (crc_bytes c (take 1360 data)) XOR crc_bytes 0 (take 1360 (drop 1360 data)))
     XOR crc_bytes 0 (take 1360 (drop 2720 data)) = crc_bytes c (take 4080 data)"
proof -
  have shift: "crc32c_shift_chunk a XOR crc_bytes 0 (take 1360 (drop n data)) = crc_bytes a (take 1360 (drop n data))" if "n \<le> 2720" for a n
    using crc_bytes_xor [of a 0 "take 1360 (drop n data)"] that assms by (simp add: shift_chunk_zeros)
  have "take 4080 data = take 1360 data @ take 1360 (drop 1360 data) @ take 1360 (drop 2720 data)"
    using take_add [of 1360 2720 data] take_add [of 1360 1360 "drop 1360 data"] by simp
  then show ?thesis by (simp add: shift)
qed

lemma hw_chunks_step:
  assumes "crc_hw_ok hw8 hw64" and "4080 \<le> length data"
  shows "crc_hw_chunks hw64 (ucast c) data = crc_hw_chunks hw64 (ucast (crc_bytes c (take 4080 data))) (drop 4080 data)"
proof -
  have "crc_hw_chunk hw64 170 data (ucast c, 0, 0) = (ucast (crc_bytes c (take 1360 data)),
      ucast (crc_bytes 0 (take 1360 (drop 1360 data))), ucast (crc_bytes 0 (take 1360 (drop 2720 data))))"
    using hw_chunk_fold [OF assms(1), of 170 data c 0 0] assms(2) by simp
  moreover have "ucast a XOR ucast b = (ucast (a XOR b) :: u64)" for a b :: u32 by (simp add: unsigned_xor_eq)
  ultimately show ?thesis
    using assms(2) chunk_split [OF assms(2), of c] by (subst crc_hw_chunks.simps) (simp add: Let_def)
qed

lemma hw_loop4_step:
  assumes "crc_hw_ok hw8 hw64" and "32 \<le> length data"
  shows "crc_hw_loop4 hw64 (ucast c) data = crc_hw_loop4 hw64 (ucast (crc_bytes c (take 32 data))) (drop 32 data)"
proof -
  have s: "hw64 (ucast (crc_bytes c (take n data))) (load64 (drop n data)) = ucast (crc_bytes c (take (n + 8) data))" if "n \<le> 24" for n
    using assms that by (intro hw_ok_64_drop [OF assms(1)]) simp
  have "hw64 (ucast c) (load64 data) = ucast (crc_bytes c (take 8 data))" using s [of 0] by simp
  moreover note s [of 8] s [of 16] s [of 24]
  ultimately show ?thesis by (subst crc_hw_loop4.simps) (simp add: assms(2) Let_def)
qed

lemma hw_loop1_step:
  "crc_hw_ok hw8 hw64 \<Longrightarrow> 8 \<le> length data \<Longrightarrow>
     crc_hw_loop1 hw64 (ucast c) data = crc_hw_loop1 hw64 (ucast (crc_bytes c (take 8 data))) (drop 8 data)"
  by (subst crc_hw_loop1.simps) (simp add: hw_ok_64)

lemma crc32c_hw_bytes:
  assumes hw: "crc_hw_ok hw8 hw64"
  shows "psync_crc32c_hw hw8 hw64 addr crc data = crc_bytes crc data"
proof -
  obtain x1 d1 where 1: "crc_align 8 addr hw8 (ucast crc) data = (x1, d1)" by fastforce
  then obtain c1 where c1: "x1 = ucast c1" "crc_bytes c1 d1 = crc_bytes crc data" using hw_align_fold [OF hw] by blast
  obtain x2 d2 where 2: "crc_hw_chunks hw64 x1 d1 = (x2, d2)" by fastforce
  then obtain c2 where c2: "x2 = ucast c2" "crc_bytes c2 d2 = crc_bytes c1 d1"
    using loop_fold [of 4080 "crc_hw_chunks hw64" ucast c1 d1 x2 d2] hw_chunks_step [OF hw] c1(1) by (auto simp: crc_hw_chunks.simps)
  obtain x3 d3 where 3: "crc_hw_loop4 hw64 x2 d2 = (x3, d3)" by fastforce
  then obtain c3 where c3: "x3 = ucast c3" "crc_bytes c3 d3 = crc_bytes c2 d2"
    using loop_fold [of 32 "crc_hw_loop4 hw64" ucast c2 d2 x3 d3] hw_loop4_step [OF hw] c2(1) by (auto simp: crc_hw_loop4.simps)
  obtain x4 d4 where 4: "crc_hw_loop1 hw64 x3 d3 = (x4, d4)" by fastforce
  then obtain c4 where c4: "x4 = ucast c4" "crc_bytes c4 d4 = crc_bytes c3 d3"
    using loop_fold [of 8 "crc_hw_loop1 hw64" ucast c3 d3 x4 d4] hw_loop1_step [OF hw] c3(1) by (auto simp: crc_hw_loop1.simps)
  have "psync_crc32c_hw hw8 hw64 addr crc data = ucast (foldl hw8 (ucast c4) d4)"
    by (simp add: psync_crc32c_hw_def 1 2 3 4 flip: c4(1))
  then show ?thesis using c1(2) c2(2) c3(2) c4(2) by (simp add: hw8_fold [OF hw])
qed

text \<open>
  C31. Whether or not the processor has the instruction, and whether or not it has been asked yet, the checksum
  is the CRC-32C of the data bit by bit: the table and the instruction compute the same, also in the three
  interleaved strands of 1360 bytes that are joined by the shift table.
\<close>

theorem crc32c_hw_eq_sw:
  assumes "crc_hw_ok hw8 hw64"
  shows "snd (psync_crc32c hw8 hw64 has_hw crc_hashw addr crc data) = psync_crc32c_sw addr crc data"
proof -
  have "psync_crc32c_hw hw8 hw64 addr crc data = psync_crc32c_sw addr crc data"
    using crc32c_hw_bytes [OF assms] crc32c_sw_bytes by simp
  then show ?thesis by (simp add: psync_crc32c_def psync_crc32c_init_def Let_def)
qed

definition sample_hw8 :: crc_hw8 where
  "sample_hw8 crc b = ucast (crc_byte (ucast crc) b)"

definition sample_hw64 :: crc_hw64 where
  "sample_hw64 crc v = ucast (crc_bytes (ucast crc) (le_bytes 8 (unat v)))"

lemma crc32c_hw_eq_sw_witness:
  "snd (psync_crc32c sample_hw8 sample_hw64 True 0 3 0 (replicate 5000 7)) = psync_crc32c_sw 3 0 (replicate 5000 7)"
  by (rule crc32c_hw_eq_sw) (simp add: crc_hw_ok_def sample_hw8_def sample_hw64_def)

end
