(* ===== verification/Pfasthash.thy ===== *)
theory Pfasthash
  imports Pcrc32c
begin

unbundle bit_operations_syntax

section \<open>The fast hash of log files (pcrc32c.c)\<close>

text \<open>
  \<open>psync_fast_hash256\<close> keeps six 64-bit words and a buffer of 64 bytes whose last byte counts the bytes
  waiting in it; whole blocks are mixed into the words, with the software or the processor's CRC.
  The theorem shows that the hash depends on the bytes alone: not on how they were cut into updates and
  not on which CRC was used.
\<close>

subsection \<open>The code\<close>

type_synonym fh_state = "u64 \<times> u64 \<times> u64 \<times> u64 \<times> u64 \<times> u64"
type_synonym fh_crc = "u64 \<Rightarrow> u64 \<Rightarrow> u64"

record fast_hash256_ctx =
  fh_state :: fh_state
  fh_length :: u64
  fh_buff :: "byte list"

abbreviation PSYNC_FAST_HASH256_BLOCK_LEN :: nat where "PSYNC_FAST_HASH256_BLOCK_LEN \<equiv> 64"

abbreviation k0 :: u64 where "k0 \<equiv> 0xc3a5c85c97cb3127"
abbreviation k1 :: u64 where "k1 \<equiv> 0xb492b66fbe98f273"
abbreviation k2 :: u64 where "k2 \<equiv> 0x9ae16a3b2f90404f"

definition table_bytes :: "nat \<Rightarrow> nat \<Rightarrow> nat \<Rightarrow> byte list" where
  "table_bytes k i n = take n (concat (List.map (\<lambda>w. le_bytes 4 (unat w)) (drop i (crc32c_table ! k))))"

definition state_of_bytes :: "byte list \<Rightarrow> fh_state" where
  "state_of_bytes bs = (load64 bs, load64 (drop 8 bs), load64 (drop 16 bs), load64 (drop 24 bs), load64 (drop 32 bs), load64 (drop 40 bs))"

definition bytes_of_state :: "fh_state \<Rightarrow> byte list" where
  "bytes_of_state st = (case st of (a, b, c, d, x, y) \<Rightarrow> concat (List.map (\<lambda>w. le_bytes 8 (unat w)) [a, b, c, d, x, y]))"

definition pending :: "fast_hash256_ctx \<Rightarrow> nat" where
  "pending ctx = unat (fh_buff ctx ! (PSYNC_FAST_HASH256_BLOCK_LEN - 1))"

text \<open>\<open>junk\<close> is what the buffer held before: only its last byte is set.\<close>

definition psync_fast_hash256_init :: "byte list \<Rightarrow> fast_hash256_ctx" where
  "psync_fast_hash256_init junk =
     \<lparr>fh_state = state_of_bytes (table_bytes 0 2 48), fh_length = 0, fh_buff = junk[PSYNC_FAST_HASH256_BLOCK_LEN - 1 := 0]\<rparr>"

definition psync_fast_hash256_init_seed :: "byte list \<Rightarrow> byte list \<Rightarrow> fast_hash256_ctx" where
  "psync_fast_hash256_init_seed junk seed =
     (let ctx = psync_fast_hash256_init junk;
          seedlen = (if length seed > 48 then 48 else length seed);
          bs = bytes_of_state (fh_state ctx)
      in ctx\<lparr>fh_state := state_of_bytes (map2 (XOR) (take seedlen bs) (take seedlen seed) @ drop seedlen bs)\<rparr>)"

definition fh_shiftmix :: "u64 \<Rightarrow> u64" where
  "fh_shiftmix val = val XOR drop_bit 47 val"

definition fh_rotate64 :: "u64 \<Rightarrow> nat \<Rightarrow> u64" where
  "fh_rotate64 val s = (if s \<noteq> 0 then drop_bit s val OR push_bit (64 - s) val else val)"

definition fh_hashmul3 :: "u64 \<Rightarrow> u64 \<Rightarrow> u64 \<Rightarrow> u64" where
  "fh_hashmul3 u v mul = fh_shiftmix ((fh_shiftmix ((u XOR v) * mul) XOR v) * mul) * mul"

definition fh_hashmul2 :: "u64 \<Rightarrow> u64 \<Rightarrow> u64" where
  "fh_hashmul2 u v = fh_hashmul3 u v 0x9ddfea08eb382d69"

definition CRC32C_64BIT_UINT :: "u64 \<Rightarrow> u64 \<Rightarrow> u64" where
  "CRC32C_64BIT_UINT crc v =
     (let crc = crc XOR (v AND 0xffffffff);
          entry = (\<lambda>k i. ucast (crc32c_table ! k ! unat i) :: u64)
      in entry 7 (crc AND 0xff) XOR
         entry 6 (drop_bit 8 crc AND 0xff) XOR
         entry 5 (drop_bit 16 crc AND 0xff) XOR
         entry 4 (drop_bit 24 crc AND 0xff) XOR
         entry 3 (drop_bit 32 v AND 0xff) XOR
         entry 2 (drop_bit 40 v AND 0xff) XOR
         entry 1 (drop_bit 48 v AND 0xff) XOR
         entry 0 (drop_bit 56 v AND 0xff))"

definition fh_crc32_64sw :: fh_crc where
  "fh_crc32_64sw crc data = CRC32C_64BIT_UINT crc data"

definition fh_crc32_64hw :: "crc_hw64 \<Rightarrow> fh_crc" where
  "fh_crc32_64hw hw64 crc data = hw64 crc data"

definition fh_load64 :: "byte list \<Rightarrow> nat \<Rightarrow> u64" where
  "fh_load64 src i = load64 (drop (8 * i) src)"

definition ROUND_GEN :: "fh_crc \<Rightarrow> byte list \<Rightarrow> fh_state \<Rightarrow> fh_state" where
  "ROUND_GEN crc src st =
     (case st of (a, b, c, d, x, y) \<Rightarrow>
        let a = a + fh_load64 src 0;
            b = b + fh_load64 src 1;
            c = c + fh_load64 src 2;
            d = d + fh_load64 src 3;
            b = b XOR fh_rotate64 a 21;
            d = d XOR fh_rotate64 c 17;
            x = crc x (a + b);
            y = crc y (c + d);
            a = a + fh_load64 src 4;
            b = b + fh_load64 src 5;
            c = c + fh_load64 src 6;
            d = d + fh_load64 src 7;
            a = a XOR fh_rotate64 b 13;
            c = c XOR fh_rotate64 d 16;
            x = crc x (a + b);
            y = crc y (c + d);
            (a, b, c, d) = (d, a, b, c);
            (x, y) = (y, x)
        in (a, b, c, d, x, y))"

definition psync_fast_hash256_update_short_sw :: "fast_hash256_ctx \<Rightarrow> byte list \<Rightarrow> fast_hash256_ctx" where
  "psync_fast_hash256_update_short_sw ctx cdata =
     (let l = pending ctx;
          buff = (fh_buff ctx)[PSYNC_FAST_HASH256_BLOCK_LEN - 1 := of_nat (l + length cdata)]
      in ctx\<lparr>fh_buff := take l buff @ cdata @ drop (l + length cdata) buff\<rparr>)"

function update_blocks :: "fh_crc \<Rightarrow> fh_state \<Rightarrow> byte list \<Rightarrow> fh_state \<times> byte list" where
  "update_blocks crc st cdata =
     (if length cdata \<ge> PSYNC_FAST_HASH256_BLOCK_LEN
      then update_blocks crc (ROUND_GEN crc cdata st) (drop PSYNC_FAST_HASH256_BLOCK_LEN cdata)
      else (st, cdata))"
  by auto
termination by (relation "measure (\<lambda>(crc, st, cdata). length cdata)") auto

declare update_blocks.simps [simp del]

text \<open>\<open>psync_fast_hash256_update_long_sw\<close> and \<open>psync_fast_hash256_update_long_hw\<close> differ in the CRC only.\<close>

definition psync_fast_hash256_update_long :: "fh_crc \<Rightarrow> fast_hash256_ctx \<Rightarrow> byte list \<Rightarrow> fast_hash256_ctx" where
  "psync_fast_hash256_update_long crc ctx cdata =
     (let l = pending ctx;
          (st, buff, cdata) =
            (if l \<noteq> 0 then
               (let buff = take l (fh_buff ctx) @ take (PSYNC_FAST_HASH256_BLOCK_LEN - l) cdata
                in (ROUND_GEN crc buff (fh_state ctx), buff, drop (PSYNC_FAST_HASH256_BLOCK_LEN - l) cdata))
             else (fh_state ctx, fh_buff ctx, cdata));
          (st, cdata) = update_blocks crc st cdata;
          buff = (cdata @ drop (length cdata) buff)[PSYNC_FAST_HASH256_BLOCK_LEN - 1 := of_nat (length cdata)]
      in ctx\<lparr>fh_state := st, fh_buff := buff\<rparr>)"

definition psync_fast_hash256_update_long_hw :: "crc_hw64 \<Rightarrow> fast_hash256_ctx \<Rightarrow> byte list \<Rightarrow> fast_hash256_ctx" where
  "psync_fast_hash256_update_long_hw hw64 = psync_fast_hash256_update_long (fh_crc32_64hw hw64)"

definition psync_fast_hash256_update_long_sw :: "fast_hash256_ctx \<Rightarrow> byte list \<Rightarrow> fast_hash256_ctx" where
  "psync_fast_hash256_update_long_sw = psync_fast_hash256_update_long fh_crc32_64sw"

definition psync_fast_hash256_update :: "crc_hw64 \<Rightarrow> nat \<Rightarrow> fast_hash256_ctx \<Rightarrow> byte list \<Rightarrow> fast_hash256_ctx" where
  "psync_fast_hash256_update hw64 crc_hashw ctx data =
     (let ctx = ctx\<lparr>fh_length := fh_length ctx + of_nat (length data)\<rparr> in
      if length data + pending ctx < PSYNC_FAST_HASH256_BLOCK_LEN then psync_fast_hash256_update_short_sw ctx data
      else if crc_hashw = 2 then psync_fast_hash256_update_long_hw hw64 ctx data
      else psync_fast_hash256_update_long_sw ctx data)"

definition psync_fast_hash256_final :: "crc_hw64 \<Rightarrow> nat \<Rightarrow> fast_hash256_ctx \<Rightarrow> byte list" where
  "psync_fast_hash256_final hw64 crc_hashw ctx =
     (let len = pending ctx;
          buff = take len (fh_buff ctx) @ table_bytes 1 2 (PSYNC_FAST_HASH256_BLOCK_LEN - len);
          len = fh_length ctx;
          w0 = fh_load64 buff 0 + len * k0;
          w1 = fh_load64 buff 1 XOR fh_hashmul2 len k0;
          w2 = fh_load64 buff 2 XOR len * k1;
          w3 = fh_load64 buff 3 - len * k2;
          buff = concat (List.map (\<lambda>w. le_bytes 8 (unat w)) [w0, w1, w2, w3]) @ drop 32 buff;
          (a, b, c, d, x, y) =
            (if crc_hashw = 2 then ROUND_GEN (fh_crc32_64hw hw64) buff (fh_state ctx) else ROUND_GEN fh_crc32_64sw buff (fh_state ctx));
          d = d XOR fh_rotate64 a 43;
          a = a + fh_rotate64 b 42;
          b = b XOR fh_rotate64 c 41;
          c = c + fh_rotate64 d 40;
          a = fh_hashmul2 a (x + b);
          b = fh_hashmul2 b (y + c);
          c = fh_hashmul2 c (x + d);
          d = fh_hashmul2 d (y + a);
          w0 = a + b + y + x;
          w1 = fh_shiftmix ((a + x) * k0) * k0 + b;
          w2 = fh_shiftmix ((c XOR y) * k1) * k1 + d;
          w3 = fh_shiftmix ((x - y) * k2) * k2 + (c XOR d)
      in concat (List.map (\<lambda>w. le_bytes 8 (unat w)) [w0, w1, w2, w3]))"

subsection \<open>Both CRC functions are the same\<close>

lemma take_le_bytes: "k \<le> m \<Longrightarrow> take k (le_bytes m n) = le_bytes k n"
proof (induction m arbitrary: k n)
  case (Suc m)
  then show ?case by (cases k) simp_all
qed simp

lemma nth_le_bytes: "i < m \<Longrightarrow> le_bytes m n ! i = of_nat (n div 256 ^ i)"
proof (induction m arbitrary: i n)
  case (Suc m)
  then show ?case by (cases i) (simp_all add: div_mult2_eq)
qed simp

lemma le_val_le_bytes_mod: "le_val (le_bytes k n) = n mod 256 ^ k"
proof (induction k arbitrary: n)
  case (Suc k)
  then show ?case by (simp add: unat_of_nat_byte mod_mult2_eq)
qed simp

lemma load32_le_bytes: "load32 (le_bytes 8 (unat v)) = ucast (v :: u64)"
proof -
  have "le_val (le_bytes 4 (unat v)) = unat v mod 2 ^ 32" by (simp add: le_val_le_bytes_mod)
  also have "\<dots> = unat (ucast v :: u32)" by (simp add: unsigned_ucast_eq take_bit_eq_mod)
  finally show ?thesis by (simp add: load32_def take_le_bytes)
qed

lemma and_255_64: "x AND 0xff = take_bit 8 x" for x :: u64
  by (simp add: take_bit_eq_mask mask_eq_exp_minus_1)

lemma low_byte: "unat (drop_bit k w AND 0xff) = unat (drop_bit k (ucast w :: u32) AND 0xff)" if "k \<le> 24" for w :: u64
proof -
  have "take_bit 8 (drop_bit k (unat w)) = take_bit 8 (drop_bit k (take_bit 32 (unat w)))"
    using that by (intro bit_eqI) (auto simp: bit_simps)
  moreover have "unat (ucast w :: u32) = take_bit 32 (unat w)" by (simp add: unsigned_ucast_eq)
  ultimately show ?thesis by (simp add: and_255 and_255_64 unsigned_take_bit_eq unat_drop_bit_eq)
qed

lemma high_byte: "i < 8 \<Longrightarrow> unat (drop_bit (8 * i) v AND 0xff) = unat (le_bytes 8 (unat v) ! i)" for v :: u64
proof -
  assume "i < 8"
  have "unat (drop_bit (8 * i) v AND 0xff) = take_bit 8 (drop_bit (8 * i) (unat v))"
    by (simp only: and_255_64 unsigned_take_bit_eq unat_drop_bit_eq)
  also have "\<dots> = unat v div 256 ^ i mod 256" by (simp add: take_bit_eq_mod drop_bit_eq_div power_mult)
  finally show ?thesis using \<open>i < 8\<close> by (simp add: nth_le_bytes unat_of_nat_byte)
qed

lemma fh_crc32_64sw_bytes: "fh_crc32_64sw crc v = ucast (foldl crc_byte (ucast crc) (le_bytes 8 (unat v)))"
proof -
  define y where "y = crc XOR (v AND 0xffffffff)"
  have "ucast (v AND 0xffffffff) = (ucast v :: u32)"
  proof -
    have "v AND 0xffffffff = take_bit 32 v" by (simp add: take_bit_eq_mask mask_eq_exp_minus_1)
    then show ?thesis by (intro bit_word_eqI) (auto simp: bit_simps)
  qed
  then have y: "ucast y = (ucast crc XOR load32 (le_bytes 8 (unat v)) :: u32)"
    by (simp add: y_def load32_le_bytes unsigned_xor_eq)
  note low = low_byte [of 0 y] low_byte [of 8 y] low_byte [of 16 y] low_byte [of 24 y]
  note high = high_byte [of 4 v] high_byte [of 5 v] high_byte [of 6 v] high_byte [of 7 v]
  have "fh_crc32_64sw crc v = ucast (CRC32C_64BIT (ucast crc) (le_bytes 8 (unat v)))"
    unfolding fh_crc32_64sw_def CRC32C_64BIT_UINT_def CRC32C_64BIT_def Let_def y_def [symmetric] y [symmetric] crc32c_entry_def
    using low high by (simp add: unsigned_xor_eq)
  then show ?thesis by (simp add: CRC32C_64BIT_eq)
qed

lemma fh_crc_hw: "crc_hw_ok hw8 hw64 \<Longrightarrow> fh_crc32_64hw hw64 = fh_crc32_64sw"
  by (intro ext) (simp add: fh_crc32_64hw_def fh_crc32_64sw_bytes crc_hw_ok_def)

subsection \<open>Streaming\<close>

text \<open>What the blocks of the data do to a state, and the bytes that remain.\<close>

definition absorb :: "fh_state \<Rightarrow> byte list \<Rightarrow> fh_state \<times> byte list" where
  "absorb = update_blocks fh_crc32_64sw"

lemma absorb_short: "length data < 64 \<Longrightarrow> absorb st data = (st, data)"
  by (simp add: absorb_def update_blocks.simps)

lemma absorb_block: "64 \<le> length data \<Longrightarrow> absorb st data = absorb (ROUND_GEN fh_crc32_64sw data st) (drop 64 data)"
  by (simp add: absorb_def update_blocks.simps [of _ _ data])

lemma fh_load64_append: "i < 8 \<Longrightarrow> length bs = 64 \<Longrightarrow> fh_load64 (bs @ cs) i = fh_load64 bs i"
  by (simp add: fh_load64_def load64_def)

lemma ROUND_GEN_append: "length bs = 64 \<Longrightarrow> ROUND_GEN crc (bs @ cs) st = ROUND_GEN crc bs st"
  by (simp add: ROUND_GEN_def fh_load64_append)

lemma absorb_cons: "length bs = 64 \<Longrightarrow> absorb st (bs @ cs) = absorb (ROUND_GEN fh_crc32_64sw bs st) cs"
  by (simp add: absorb_block ROUND_GEN_append)

lemma absorb_rest: "length (snd (absorb st data)) < 64"
proof (induction data arbitrary: st rule: length_induct)
  case (1 data)
  show ?case
  proof (cases "64 \<le> length data")
    case True
    moreover have "length (drop 64 data) < length data" using True by simp
    ultimately show ?thesis using 1 absorb_block [OF True, of st] by metis
  qed (simp add: absorb_short)
qed

lemma absorb_append: "absorb st (as @ bs) = (case absorb st as of (st', rest) \<Rightarrow> absorb st' (rest @ bs))"
proof (induction as arbitrary: st rule: length_induct)
  case (1 as)
  show ?case
  proof (cases "64 \<le> length as")
    case True
    have "length (drop 64 as) < length as" using True by simp
    then have ih: "absorb s (drop 64 as @ bs) = (case absorb s (drop 64 as) of (st', rest) \<Rightarrow> absorb st' (rest @ bs))" for s
      using 1 by blast
    have "ROUND_GEN fh_crc32_64sw (as @ bs) st = ROUND_GEN fh_crc32_64sw as st"
      using ROUND_GEN_append [of "take 64 as" fh_crc32_64sw "drop 64 as" st] ROUND_GEN_append [of "take 64 as" fh_crc32_64sw "drop 64 as @ bs" st] True
      by (simp flip: append_assoc)
    then show ?thesis using True ih by (simp add: absorb_block [of "as @ bs"] absorb_block [of as])
  qed (simp add: absorb_short)
qed

text \<open>A context that has been given \<open>given\<close> since its state was \<open>st0\<close>.\<close>

definition hashed :: "fh_state \<Rightarrow> byte list \<Rightarrow> fast_hash256_ctx \<Rightarrow> bool" where
  "hashed st0 given ctx \<longleftrightarrow> length (fh_buff ctx) = 64 \<and> fh_length ctx = of_nat (length given) \<and>
     absorb st0 given = (fh_state ctx, take (pending ctx) (fh_buff ctx))"

lemma unat_of_nat_byte_small: "n < 256 \<Longrightarrow> unat (of_nat n :: byte) = n"
  by (simp add: unat_of_nat_byte)

lemma hashedD:
  assumes "hashed st0 given ctx"
  shows "length (fh_buff ctx) = 64" "fh_length ctx = of_nat (length given)"
    "absorb st0 given = (fh_state ctx, take (pending ctx) (fh_buff ctx))"
  using assms unfolding hashed_def by blast+

lemma hashed_pending: "hashed st0 given ctx \<Longrightarrow> pending ctx < 64"
proof -
  assume h: "hashed st0 given ctx"
  have "length (take (pending ctx) (fh_buff ctx)) < 64"
    using absorb_rest [of st0 given] unfolding hashedD(3) [OF h] snd_conv .
  then show ?thesis using hashedD(1) [OF h] by (simp only: length_take)
qed

lemma hashed_append:
  "hashed st0 given ctx \<Longrightarrow> absorb st0 (given @ data) = absorb (fh_state ctx) (take (pending ctx) (fh_buff ctx) @ data)"
  by (subst absorb_append) (simp add: hashedD(3))

lemma hashedI:
  assumes "length b = 64" "unat (b ! 63) = n" "absorb st0 given = (st, take n b)" "len = of_nat (length given)"
  shows "hashed st0 given \<lparr>fh_state = st, fh_length = len, fh_buff = b\<rparr>"
  using assms by (simp add: hashed_def pending_def)

lemma hashed_short:
  assumes "hashed st0 given ctx" and "length data + pending ctx < 64"
  shows "hashed st0 (given @ data) (psync_fast_hash256_update_short_sw (ctx\<lparr>fh_length := fh_length ctx + of_nat (length data)\<rparr>) data)"
proof -
  define l where "l = pending ctx"
  define n where "n = l + length data"
  define b0 where "b0 = fh_buff ctx"
  define b where "b = take l (b0[63 := of_nat n]) @ data @ drop n (b0[63 := of_nat n])"
  have n: "l \<le> n" "n < 64" "length b0 = 64" using assms by (simp_all add: hashed_def l_def n_def b0_def)
  have ab: "absorb st0 (given @ data) = (fh_state ctx, take l b0 @ data)"
    unfolding hashed_append [OF assms(1)] using n by (intro absorb_short [THEN trans]) (simp_all add: l_def b0_def n_def)
  have len: "length b = 64" using n by (simp add: b_def n_def)
  have "b ! 63 = of_nat n" using n by (auto simp: b_def nth_append n_def)
  then have 63: "unat (b ! 63) = n" using n by (simp add: unat_of_nat_byte_small)
  have "take n b = take l b0 @ data" using n by (simp add: b_def n_def)
  then have "hashed st0 (given @ data) \<lparr>fh_state = fh_state ctx, fh_length = fh_length ctx + of_nat (length data), fh_buff = b\<rparr>"
    using ab len 63 assms(1) by (intro hashedI [of _ n]) (simp_all add: hashed_def)
  moreover have "psync_fast_hash256_update_short_sw (ctx\<lparr>fh_length := fh_length ctx + of_nat (length data)\<rparr>) data =
      \<lparr>fh_state = fh_state ctx, fh_length = fh_length ctx + of_nat (length data), fh_buff = b\<rparr>"
    by (cases ctx) (simp add: psync_fast_hash256_update_short_sw_def pending_def Let_def b_def l_def n_def b0_def)
  ultimately show ?thesis by simp
qed

lemma hashed_long:
  assumes "hashed st0 given ctx" and "64 \<le> length data + pending ctx"
  shows "hashed st0 (given @ data) (psync_fast_hash256_update_long fh_crc32_64sw (ctx\<lparr>fh_length := fh_length ctx + of_nat (length data)\<rparr>) data)"
proof -
  define l where "l = pending ctx"
  define b0 where "b0 = fh_buff ctx"
  define first where "first = take l b0 @ take (64 - l) data"
  define start where "start = (if l \<noteq> 0 then (ROUND_GEN fh_crc32_64sw first (fh_state ctx), first, drop (64 - l) data) else (fh_state ctx, b0, data))"
  obtain st buff cdata where start: "start = (st, buff, cdata)" by (cases start)
  have l: "l < 64" "length b0 = 64" "64 \<le> length data + l"
    using assms hashed_pending [OF assms(1)] by (simp_all add: hashed_def l_def b0_def)
  have first: "length first = 64" using l by (simp add: first_def)
  have "first @ drop (64 - l) data = take l b0 @ data" by (simp add: first_def)
  then have "absorb st0 (given @ data) = absorb st cdata"
    using start absorb_cons [OF first, of "fh_state ctx" "drop (64 - l) data"]
    by (auto simp: hashed_append [OF assms(1)] start_def simp flip: l_def b0_def split: if_splits)
  moreover obtain st' rest where rest: "absorb st cdata = (st', rest)" by fastforce
  moreover have "length rest < 64" using absorb_rest [of st cdata] rest by simp
  moreover have "length buff = 64" using start first l by (auto simp: start_def split: if_splits)
  moreover define b where "b = (rest @ drop (length rest) buff)[63 := of_nat (length rest)]"
  ultimately have "hashed st0 (given @ data) \<lparr>fh_state = st', fh_length = fh_length ctx + of_nat (length data), fh_buff = b\<rparr>"
    using assms(1) by (intro hashedI [of _ "length rest"]) (simp_all add: hashed_def unat_of_nat_byte_small)
  moreover have "psync_fast_hash256_update_long fh_crc32_64sw (ctx\<lparr>fh_length := fh_length ctx + of_nat (length data)\<rparr>) data =
      \<lparr>fh_state = st', fh_length = fh_length ctx + of_nat (length data), fh_buff = b\<rparr>"
  proof (cases "l = 0")
    case True
    then have "st = fh_state ctx" "buff = b0" "cdata = data" using start by (simp_all add: start_def)
    then show ?thesis using True rest
      by (cases ctx) (simp add: psync_fast_hash256_update_long_def pending_def Let_def b_def l_def b0_def absorb_def)
  next
    case False
    then have "st = ROUND_GEN fh_crc32_64sw first (fh_state ctx)" "buff = first" "cdata = drop (64 - l) data"
      using start by (auto simp: start_def)
    then show ?thesis using False rest
      by (cases ctx) (simp add: psync_fast_hash256_update_long_def pending_def Let_def b_def l_def b0_def absorb_def first_def)
  qed
  ultimately show ?thesis by simp
qed

lemma hashed_update:
  assumes "crc_hw_ok hw8 hw64" and "hashed st0 given ctx"
  shows "hashed st0 (given @ data) (psync_fast_hash256_update hw64 crc_hashw ctx data)"
  using hashed_short [OF assms(2), of data] hashed_long [OF assms(2), of data] fh_crc_hw [OF assms(1)]
  by (simp add: psync_fast_hash256_update_def psync_fast_hash256_update_long_hw_def psync_fast_hash256_update_long_sw_def
    pending_def Let_def not_less)

lemma hashed_updates:
  "crc_hw_ok hw8 hw64 \<Longrightarrow> hashed st0 given ctx \<Longrightarrow> hashed st0 (given @ concat chunks) (foldl (psync_fast_hash256_update hw64 crc_hashw) ctx chunks)"
  by (induction chunks arbitrary: given ctx) (simp_all add: hashed_update flip: append_assoc)

lemma hashed_final:
  assumes "crc_hw_ok hw8 hw64" and "hashed st0 given ctx" and "hashed st0 given ctx'"
  shows "psync_fast_hash256_final hw64 crc_hashw ctx = psync_fast_hash256_final hw64 crc_hashw' ctx'"
proof -
  have s: "fh_state ctx = fh_state ctx'" "take (pending ctx) (fh_buff ctx) = take (pending ctx') (fh_buff ctx')"
    using hashedD(3) [OF assms(2)] hashedD(3) [OF assms(3)] by simp_all
  have n: "fh_length ctx = fh_length ctx'" using hashedD(2) [OF assms(2)] hashedD(2) [OF assms(3)] by simp
  have l: "pending ctx = pending ctx'"
    using arg_cong [OF s(2), of length] hashedD(1) [OF assms(2)] hashedD(1) [OF assms(3)]
      hashed_pending [OF assms(2)] hashed_pending [OF assms(3)] by simp
  show ?thesis
    by (simp only: psync_fast_hash256_final_def Let_def [of "pending _"] s(1) n s(2) [unfolded l] l fh_crc_hw [OF assms(1)] if_cancel)
qed

lemma hashed_init: "length junk = 64 \<Longrightarrow> hashed (state_of_bytes (table_bytes 0 2 48)) [] (psync_fast_hash256_init junk)"
  by (simp add: hashed_def psync_fast_hash256_init_def pending_def absorb_short)

text \<open>
  C34. The fast hash of a log file depends only on the bytes that it was given: not on how they were cut into
  updates, nor on whether the processor's CRC instruction or the tables were used for any of them or for
  the end, nor on what the buffer held before.
\<close>

theorem fast_hash_streaming:
  assumes "crc_hw_ok hw8 hw64" and "length junk = 64" and "length junk' = 64" and "concat chunks = concat chunks'"
  shows "psync_fast_hash256_final hw64 h (foldl (psync_fast_hash256_update hw64 h) (psync_fast_hash256_init junk) chunks) =
    psync_fast_hash256_final hw64 h' (foldl (psync_fast_hash256_update hw64 h') (psync_fast_hash256_init junk') chunks')"
  by (rule hashed_final [OF assms(1) hashed_updates [OF assms(1) hashed_init [OF assms(2)]]])
    (use hashed_updates [OF assms(1) hashed_init [OF assms(3)], where chunks = chunks' and crc_hashw = h'] assms(4) in simp)

lemma fast_hash_streaming_witness:
  "psync_fast_hash256_final sample_hw64 2 (foldl (psync_fast_hash256_update sample_hw64 2) (psync_fast_hash256_init (replicate 64 0)) [[1, 2], replicate 100 3]) =
    psync_fast_hash256_final sample_hw64 1 (foldl (psync_fast_hash256_update sample_hw64 1) (psync_fast_hash256_init (replicate 64 9)) [1 # 2 # replicate 100 3])"
  by (rule fast_hash_streaming [of sample_hw8]) (simp_all add: crc_hw_ok_def sample_hw8_def sample_hw64_def)

end
