(* ===== verification/Pfslayout.thy ===== *)
theory Pfslayout
  imports Prelude
begin

section \<open>Where an encrypted file keeps its sectors (pfscrypto.c)\<close>

text \<open>
  An encrypted file consists of data sectors of 4096 bytes, the last one possibly shorter, and of a tree
  of authentication sectors: each holds the 32-byte authentication blocks of up to 128 sectors
  of the level below and follows the last of them in the file; a file of more than one sector
  ends with a master block. Sizes and offsets are naturals; where the code computes in 32 or
  64 bits the definitions reduce modulo \<open>2\<^sup>3\<^sup>2\<close> or \<open>2\<^sup>6\<^sup>4\<close>.
\<close>

subsection \<open>The code\<close>

abbreviation PSYNC_CRYPTO_SECTOR_SIZE :: nat where "PSYNC_CRYPTO_SECTOR_SIZE \<equiv> 4096"
abbreviation PSYNC_CRYPTO_AUTH_SIZE :: nat where "PSYNC_CRYPTO_AUTH_SIZE \<equiv> 32"
abbreviation PSYNC_CRYPTO_HASH_TREE_SECTORS :: nat where "PSYNC_CRYPTO_HASH_TREE_SECTORS \<equiv> 128"
abbreviation PSYNC_CRYPTO_MAX_HASH_TREE_LEVEL :: nat where "PSYNC_CRYPTO_MAX_HASH_TREE_LEVEL \<equiv> 6"
abbreviation PSYNC_CRYPTO_MAX_SECTORID :: nat where "PSYNC_CRYPTO_MAX_SECTORID \<equiv> 4294967294"
abbreviation PSYNC_CRYPTO_INVALID_SECTORID :: nat where "PSYNC_CRYPTO_INVALID_SECTORID \<equiv> 4294967295"

definition wrap32 :: "nat \<Rightarrow> nat" where "wrap32 n = n mod 0x100000000"
definition wrap64 :: "nat \<Rightarrow> nat" where "wrap64 n = n mod 0x10000000000000000"

record crypto_offsets =
  masterauthoff :: nat
  plainsize :: nat
  lastauthsectoroff :: "nat list"
  lastauthsectorlen :: "nat list"
  treelevels :: nat
  needmasterauth :: bool

definition zero_offsets :: crypto_offsets where
  "zero_offsets = \<lparr>masterauthoff = 0, plainsize = 0, lastauthsectoroff = replicate PSYNC_CRYPTO_MAX_HASH_TREE_LEVEL 0,
     lastauthsectorlen = replicate PSYNC_CRYPTO_MAX_HASH_TREE_LEVEL 0, treelevels = 0, needmasterauth = False\<rparr>"

definition max_level_size :: "nat list" where
  "max_level_size = [0x1000, 0x81000, 0x4081000, 0x204081000, 0x10204081000, 0x810204081000, 0x40810204081000]"

text \<open>The sum over the levels; the addition is one of 32 bits here.\<close>

function data_sectorid_loop :: "nat \<Rightarrow> nat \<Rightarrow> nat" where
  "data_sectorid_loop sectorid sect =
     (if sectorid \<ge> PSYNC_CRYPTO_HASH_TREE_SECTORS
      then data_sectorid_loop (sectorid div PSYNC_CRYPTO_HASH_TREE_SECTORS) (wrap32 (sect + sectorid div PSYNC_CRYPTO_HASH_TREE_SECTORS))
      else sect)"
  by pat_completeness auto
termination by (relation "measure fst") auto

definition psync_fs_crypto_data_sectorid_by_sectorid :: "nat \<Rightarrow> nat" where
  "psync_fs_crypto_data_sectorid_by_sectorid sectorid = data_sectorid_loop sectorid sectorid"

function data_offset_loop :: "nat \<Rightarrow> nat \<Rightarrow> nat" where
  "data_offset_loop sectorid off =
     (if sectorid \<ge> PSYNC_CRYPTO_HASH_TREE_SECTORS
      then data_offset_loop (sectorid div PSYNC_CRYPTO_HASH_TREE_SECTORS)
             (wrap64 (off + sectorid div PSYNC_CRYPTO_HASH_TREE_SECTORS * PSYNC_CRYPTO_SECTOR_SIZE))
      else off)"
  by pat_completeness auto
termination by (relation "measure fst") auto

definition psync_fs_crypto_data_offset_by_sectorid :: "nat \<Rightarrow> nat" where
  "psync_fs_crypto_data_offset_by_sectorid sectorid = data_offset_loop sectorid (wrap64 (sectorid * PSYNC_CRYPTO_SECTOR_SIZE))"

text \<open>Here the products \<open>id*PSYNC_CRYPTO_SECTOR_SIZE\<close> have 32 bits.\<close>

function auth_offset_loop :: "nat \<Rightarrow> nat \<Rightarrow> nat" where
  "auth_offset_loop aid ret =
     (if aid \<ge> PSYNC_CRYPTO_HASH_TREE_SECTORS
      then auth_offset_loop (aid div PSYNC_CRYPTO_HASH_TREE_SECTORS)
             (wrap64 (ret + wrap32 (aid div PSYNC_CRYPTO_HASH_TREE_SECTORS * PSYNC_CRYPTO_SECTOR_SIZE)))
      else ret)"
  by pat_completeness auto
termination by (relation "measure fst") auto

definition psync_fs_crypto_auth_offset :: "nat \<Rightarrow> nat \<Rightarrow> nat" where
  "psync_fs_crypto_auth_offset level aid =
     auth_offset_loop aid (wrap64 (max_level_size ! (level + 1) * wrap32 (aid + 1) + 2 ^ 64 - PSYNC_CRYPTO_SECTOR_SIZE))"

declare data_sectorid_loop.simps [simp del] data_offset_loop.simps [simp del] auth_offset_loop.simps [simp del]

text \<open>
  The \<open>do \<dots> while\<close> loop over the levels: the sectors of the level, the offset and the offsets so far.
  The arrays have six elements: writing behind them is no result. (No file of up to 2^44 bytes has so many
  levels: see \<open>crypto_size_roundtrip\<close>.)
\<close>

function plainsize_levels :: "nat \<Rightarrow> nat \<Rightarrow> nat \<Rightarrow> crypto_offsets \<Rightarrow> crypto_offsets option" where
  "plainsize_levels fsize off level offsets =
     (if level + 1 \<ge> PSYNC_CRYPTO_MAX_HASH_TREE_LEVEL then None
      else
        (let sz = (if fsize mod PSYNC_CRYPTO_HASH_TREE_SECTORS = 0 then PSYNC_CRYPTO_HASH_TREE_SECTORS
                   else fsize mod PSYNC_CRYPTO_HASH_TREE_SECTORS) * PSYNC_CRYPTO_AUTH_SIZE;
             fsize = (fsize + PSYNC_CRYPTO_HASH_TREE_SECTORS - 1) div PSYNC_CRYPTO_HASH_TREE_SECTORS;
             offsets = offsets\<lparr>lastauthsectoroff := (lastauthsectoroff offsets)[level := off], lastauthsectorlen := (lastauthsectorlen offsets)[level := sz]\<rparr>;
             off = off + sz; level = level + 1
         in if fsize > 1 then plainsize_levels fsize off level offsets
            else Some (offsets\<lparr>lastauthsectoroff := (lastauthsectoroff offsets)[level := off],
                   lastauthsectorlen := (lastauthsectorlen offsets)[level := PSYNC_CRYPTO_AUTH_SIZE],
                   masterauthoff := off, treelevels := level\<rparr>)))"
  by pat_completeness auto
termination by (relation "measure (\<lambda>(fsize, off, level, offsets). PSYNC_CRYPTO_MAX_HASH_TREE_LEVEL - level)") auto

declare plainsize_levels.simps [simp del]

definition psync_fs_crypto_offsets_by_plainsize :: "nat \<Rightarrow> crypto_offsets option" where
  "psync_fs_crypto_offsets_by_plainsize fsize =
     (let offsets = zero_offsets\<lparr>plainsize := fsize, needmasterauth := fsize > PSYNC_CRYPTO_SECTOR_SIZE\<rparr> in
      if fsize = 0 then Some offsets
      else
        (let lastsectorid = wrap32 (fsize div PSYNC_CRYPTO_SECTOR_SIZE);
             lastsectorsize = fsize mod PSYNC_CRYPTO_SECTOR_SIZE;
             (lastsectorid, lastsectorsize) =
               (if lastsectorsize = 0 then (wrap32 (lastsectorid + 2 ^ 32 - 1), PSYNC_CRYPTO_SECTOR_SIZE) else (lastsectorid, lastsectorsize));
             off = psync_fs_crypto_data_offset_by_sectorid lastsectorid + lastsectorsize
         in plainsize_levels (wrap64 (fsize + PSYNC_CRYPTO_SECTOR_SIZE - 1) div PSYNC_CRYPTO_SECTOR_SIZE) off 0 offsets))"

text \<open>From the top level down: the size without the authentication blocks of the levels above, and the offset.\<close>

primrec cryptosize_levels :: "nat \<Rightarrow> nat \<Rightarrow> nat \<Rightarrow> crypto_offsets \<Rightarrow> crypto_offsets" where
  "cryptosize_levels 0 fsize off offsets = offsets\<lparr>plainsize := fsize\<rparr>"
| "cryptosize_levels (Suc level) fsize off offsets =
     (let cnt = (fsize + max_level_size ! level + PSYNC_CRYPTO_AUTH_SIZE - 1) div (max_level_size ! level + PSYNC_CRYPTO_AUTH_SIZE);
          fsize = fsize - cnt * PSYNC_CRYPTO_AUTH_SIZE;
          cnt = (if cnt mod PSYNC_CRYPTO_HASH_TREE_SECTORS = 0 then PSYNC_CRYPTO_HASH_TREE_SECTORS else cnt mod PSYNC_CRYPTO_HASH_TREE_SECTORS);
          off = off - cnt * PSYNC_CRYPTO_AUTH_SIZE
      in cryptosize_levels level fsize off
           (offsets\<lparr>lastauthsectorlen := (lastauthsectorlen offsets)[level := cnt * PSYNC_CRYPTO_AUTH_SIZE],
              lastauthsectoroff := (lastauthsectoroff offsets)[level := off]\<rparr>))"

text \<open>
  The number of levels is the first whose capacity suffices; none is the failing assertion, and with
  six levels the code writes behind the arrays: no result.
\<close>

definition psync_fs_crypto_offsets_by_cryptosize :: "nat \<Rightarrow> crypto_offsets option" where
  "psync_fs_crypto_offsets_by_cryptosize fsize =
     (if fsize \<le> PSYNC_CRYPTO_AUTH_SIZE then Some zero_offsets
      else
        (let needmaster = (fsize > PSYNC_CRYPTO_SECTOR_SIZE + PSYNC_CRYPTO_AUTH_SIZE);
             fsize = (if needmaster then fsize - PSYNC_CRYPTO_AUTH_SIZE else fsize)
         in case List.find (\<lambda>level. fsize \<le> max_level_size ! level) [1, 2, 3, 4, 5, 6] of
              None \<Rightarrow> None
            | Some level \<Rightarrow>
                if level \<ge> PSYNC_CRYPTO_MAX_HASH_TREE_LEVEL then None
                else Some (cryptosize_levels level fsize fsize
                  (zero_offsets\<lparr>needmasterauth := needmaster, masterauthoff := fsize, treelevels := level,
                     lastauthsectoroff := (lastauthsectoroff zero_offsets)[level := fsize],
                     lastauthsectorlen := (lastauthsectorlen zero_offsets)[level := PSYNC_CRYPTO_AUTH_SIZE]\<rparr>))))"

definition psync_fs_crypto_plain_size :: "nat \<Rightarrow> nat option" where
  "psync_fs_crypto_plain_size cryptosize = map_option plainsize (psync_fs_crypto_offsets_by_cryptosize cryptosize)"

definition psync_fs_crypto_crypto_size :: "nat \<Rightarrow> nat option" where
  "psync_fs_crypto_crypto_size fsize =
     map_option (\<lambda>offsets. masterauthoff offsets + (if needmasterauth offsets then PSYNC_CRYPTO_AUTH_SIZE else 0)) (psync_fs_crypto_offsets_by_plainsize fsize)"

definition get_last_sectorid_by_size :: "nat \<Rightarrow> nat" where
  "get_last_sectorid_by_size fsize = (if fsize = 0 then 0 else wrap32 ((fsize - 1) div PSYNC_CRYPTO_SECTOR_SIZE))"

text \<open>The authentication sector of a level above a data sector, and the place of the sector's block in it.\<close>

primrec auth_path :: "nat \<Rightarrow> nat \<times> nat \<times> nat \<Rightarrow> nat \<times> nat \<times> nat" where
  "auth_path 0 st = st"
| "auth_path (Suc n) st =
     (case st of (sizesecd, secd, aid) \<Rightarrow>
        auth_path n (sizesecd div PSYNC_CRYPTO_HASH_TREE_SECTORS, secd div PSYNC_CRYPTO_HASH_TREE_SECTORS,
          secd mod PSYNC_CRYPTO_HASH_TREE_SECTORS))"

definition psync_fs_crypto_get_auth_sector_off :: "nat \<Rightarrow> nat \<Rightarrow> crypto_offsets \<Rightarrow> (nat \<times> nat \<times> nat) option" where
  "psync_fs_crypto_get_auth_sector_off sectorid level offsets =
     (case auth_path level (get_last_sectorid_by_size (plainsize offsets) div PSYNC_CRYPTO_HASH_TREE_SECTORS,
          sectorid div PSYNC_CRYPTO_HASH_TREE_SECTORS, sectorid mod PSYNC_CRYPTO_HASH_TREE_SECTORS) of
        (sizesecd, secd, aid) \<Rightarrow>
          if secd = sizesecd then Some (lastauthsectoroff offsets ! level, lastauthsectorlen offsets ! level, aid)
          else if secd < sizesecd then Some (psync_fs_crypto_auth_offset level secd, PSYNC_CRYPTO_SECTOR_SIZE, aid)
          else None)"

subsection \<open>The tree in numbers\<close>

text \<open>
  For a file of \<open>s\<close> bytes: the sectors of each level (level 0 are the data), the authentication blocks in
  the last authentication sector above a level, and the bytes of the file up to a level.
\<close>

fun nsect :: "nat \<Rightarrow> nat \<Rightarrow> nat" where
  "nsect s 0 = (s + 4095) div 4096"
| "nsect s (Suc l) = (nsect s l + 127) div 128"

declare nsect.simps(2) [simp del]

definition last_blocks :: "nat \<Rightarrow> nat \<Rightarrow> nat" where
  "last_blocks s l = (if nsect s l mod 128 = 0 then 128 else nsect s l mod 128)"

definition bytes_to :: "nat \<Rightarrow> nat \<Rightarrow> nat" where
  "bytes_to s l = s + 32 * (\<Sum>k<l. nsect s k)"

lemma ceil_div:
  assumes "0 < n"
  shows "128 * ((n + 127) div 128 - 1) < n" and "n \<le> 128 * ((n + 127) div 128)" and "(n - 1) div 128 = (n + 127) div 128 - (1 :: nat)"
    and "0 < (n + 127) div 128" and "n = 128 * ((n + 127) div 128 - 1) + (if n mod 128 = 0 then 128 else n mod 128)"
proof -
  obtain q r where n: "n = 128 * q + r" "r < 128" by (metis mod_less_divisor mult_div_mod_eq zero_less_numeral)
  show "128 * ((n + 127) div 128 - 1) < n" "n \<le> 128 * ((n + 127) div 128)" "(n - 1) div 128 = (n + 127) div 128 - 1" "0 < (n + 127) div 128"
    "n = 128 * ((n + 127) div 128 - 1) + (if n mod 128 = 0 then 128 else n mod 128)"
  proof -
    consider "r = 0" "0 < q" | "0 < r" using assms n by auto
    then have "(n + 127) div 128 = (if r = 0 then q else q + 1) \<and> (n - 1) div 128 = (if r = 0 then q - 1 else q) \<and> n mod 128 = r \<and> (r = 0 \<longrightarrow> 0 < q)"
    proof cases
      case 1
      have "n + 127 = 127 + q * 128" "n - 1 = 127 + (q - 1) * 128" using 1 n by (auto simp: algebra_simps diff_mult_distrib2)
      then show ?thesis using 1 n by (simp only: div_mult_self1) simp
    next
      case 2
      have "n + 127 = (r - 1) + (q + 1) * 128" "n - 1 = (r - 1) + q * 128" using 2 n by auto
      then show ?thesis using 2 n by (simp only: div_mult_self1) simp
    qed
    then show "128 * ((n + 127) div 128 - 1) < n" "n \<le> 128 * ((n + 127) div 128)" "(n - 1) div 128 = (n + 127) div 128 - 1" "0 < (n + 127) div 128"
      "n = 128 * ((n + 127) div 128 - 1) + (if n mod 128 = 0 then 128 else n mod 128)"
      using n by (auto split: if_splits)
  qed
qed

lemma nsect_pos: "0 < s \<Longrightarrow> 0 < nsect s l"
  by (induction l) (simp_all add: ceil_div(4) div_greater_zero_iff nsect.simps(2))

lemma last_blocks_eq: "0 < s \<Longrightarrow> nsect s l = 128 * (nsect s (Suc l) - 1) + last_blocks s l"
  unfolding last_blocks_def nsect.simps(2) using nsect_pos by (rule ceil_div(5))

lemma nsect_pred: "0 < s \<Longrightarrow> (nsect s l - 1) div 128 = nsect s (Suc l) - 1"
  unfolding nsect.simps(2) using nsect_pos by (rule ceil_div(3))

lemma max_level_size_Suc: "l < 6 \<Longrightarrow> max_level_size ! Suc l = 128 * (max_level_size ! l + 32)"
proof -
  assume "l < 6"
  then have "l = 0 \<or> l = 1 \<or> l = 2 \<or> l = 3 \<or> l = 4 \<or> l = 5" by auto
  then show ?thesis by (elim disjE) (simp_all add: max_level_size_def)
qed

lemma bytes_to_Suc: "bytes_to s (Suc l) = bytes_to s l + 32 * nsect s l"
  by (simp add: bytes_to_def)

text \<open>All subtrees of a level are full except the last one.\<close>

lemma bytes_to_bounds:
  assumes "0 < s"
  shows "l \<le> 6 \<Longrightarrow> (nsect s l - 1) * max_level_size ! l < bytes_to s l \<and> bytes_to s l \<le> nsect s l * max_level_size ! l"
proof (induction l)
  case 0
  obtain q r where s: "s = 4096 * q + r" "r < 4096" by (metis mod_less_divisor mult_div_mod_eq zero_less_numeral)
  have "(s + 4095) div 4096 = (if r = 0 then q else q + 1)"
  proof (cases "r = 0")
    case True
    have "s + 4095 = 4095 + q * 4096" using True s by simp
    then show ?thesis using True by (simp only: div_mult_self1) simp
  next
    case False
    have "s + 4095 = (r - 1) + (q + 1) * 4096" using False s by simp
    then show ?thesis using False s(2) by (simp only: div_mult_self1) simp
  qed
  then show ?case using s assms by (auto simp: bytes_to_def max_level_size_def diff_mult_distrib)
next
  case (Suc l)
  let ?n = "nsect s l" and ?m = "nsect s (Suc l)" and ?M = "max_level_size ! l"
  have M: "max_level_size ! Suc l = 128 * (?M + 32)" using Suc.prems by (intro max_level_size_Suc) simp
  have ih: "(?n - 1) * ?M < bytes_to s l" "bytes_to s l \<le> ?n * ?M" using Suc by simp_all
  have n: "0 < ?n" using nsect_pos [OF assms] .
  then have ceil: "128 * (?m - 1) < ?n" "?n \<le> 128 * ?m" unfolding nsect.simps(2) by (rule ceil_div)+
  have "bytes_to s (Suc l) \<le> ?n * (?M + 32)" unfolding bytes_to_Suc using ih(2) by (simp add: algebra_simps)
  also have "\<dots> \<le> (128 * ?m) * (?M + 32)" using ceil(2) by (rule mult_le_mono1)
  finally have upper: "bytes_to s (Suc l) \<le> ?m * max_level_size ! Suc l" unfolding M by (simp only: ac_simps)
  have "(?m - 1) * max_level_size ! Suc l = (128 * (?m - 1)) * (?M + 32)" unfolding M by (simp only: ac_simps)
  also have "\<dots> \<le> (?n - 1) * (?M + 32)" using ceil(1) by (intro mult_le_mono1) simp
  also have "\<dots> = (?n - 1) * ?M + 32 * (?n - 1)" by (simp add: algebra_simps)
  also have "\<dots> < bytes_to s l + 32 * ?n" using ih(1) n by simp
  finally show ?case using upper unfolding bytes_to_Suc by simp
qed

text \<open>What both computations of the offsets give, from a level up or down.\<close>

definition block_offsets :: "nat \<Rightarrow> nat \<Rightarrow> nat \<Rightarrow> crypto_offsets" where
  "block_offsets s L off = \<lparr>masterauthoff = off + 32 * (\<Sum>k<L. last_blocks s k), plainsize = s,
     lastauthsectoroff = List.map (\<lambda>k. if k \<le> L then off + 32 * (\<Sum>j<k. last_blocks s j) else 0) [0..<6],
     lastauthsectorlen = List.map (\<lambda>k. if k < L then 32 * last_blocks s k else if k = L then 32 else 0) [0..<6],
     treelevels = L, needmasterauth = s > 4096\<rparr>"

text \<open>The levels of the tree: above them there is one sector.\<close>

definition is_height :: "nat \<Rightarrow> nat \<Rightarrow> bool" where
  "is_height s L \<longleftrightarrow> 1 \<le> L \<and> L \<le> 5 \<and> nsect s L = 1 \<and> (\<forall>l. 1 \<le> l \<and> l < L \<longrightarrow> 1 < nsect s l)"

lemma list_update_map6: "k < 6 \<Longrightarrow> (List.map f [0..<6])[k := v] = List.map (f(k := v)) [0..<6]"
  by (rule nth_equalityI) (auto simp: nth_list_update)

lemma plainsize_levels_step:
  assumes "Suc l < 6"
  shows "plainsize_levels (nsect s l) off l offs =
    (let offs' = offs\<lparr>lastauthsectoroff := (lastauthsectoroff offs)[l := off], lastauthsectorlen := (lastauthsectorlen offs)[l := last_blocks s l * 32]\<rparr>
     in if nsect s (Suc l) > 1 then plainsize_levels (nsect s (Suc l)) (off + last_blocks s l * 32) (Suc l) offs'
        else Some (offs'\<lparr>lastauthsectoroff := (lastauthsectoroff offs')[Suc l := off + last_blocks s l * 32],
              lastauthsectorlen := (lastauthsectorlen offs')[Suc l := 32], masterauthoff := off + last_blocks s l * 32, treelevels := Suc l\<rparr>))"
proof -
  have n: "(nsect s l + 128 - 1) div 128 = nsect s (Suc l)" by (simp add: nsect.simps(2))
  have l: "\<not> 6 \<le> Suc l" "l + 1 = Suc l" using assms by simp_all
  show ?thesis
    by (subst plainsize_levels.simps) (simp only: Let_def n l if_False last_blocks_def)
qed

lemma plainsize_levels_eq:
  assumes "0 < s" and "is_height s L"
  shows "l < L \<Longrightarrow> lastauthsectoroff offs = List.map (\<lambda>k. if k < l then f k else 0) [0..<6] \<Longrightarrow>
    lastauthsectorlen offs = List.map (\<lambda>k. if k < l then g k else 0) [0..<6] \<Longrightarrow>
    plainsize_levels (nsect s l) off l offs = Some (offs\<lparr>
      lastauthsectoroff := List.map (\<lambda>k. if k < l then f k else if k \<le> L then off + 32 * (\<Sum>j=l..<k. last_blocks s j) else 0) [0..<6],
      lastauthsectorlen := List.map (\<lambda>k. if k < l then g k else if k < L then 32 * last_blocks s k else if k = L then 32 else 0) [0..<6],
      masterauthoff := off + 32 * (\<Sum>j=l..<L. last_blocks s j), treelevels := L\<rparr>)"
proof (induction "L - l" arbitrary: l off offs f g)
  case 0
  then show ?case by simp
next
  case (Suc d)
  have L: "1 \<le> L" "L \<le> 5" "nsect s L = 1" "\<And>l. 1 \<le> l \<Longrightarrow> l < L \<Longrightarrow> 1 < nsect s l" using assms(2) by (auto simp: is_height_def)
  let ?r = "last_blocks s l"
  let ?offs = "offs\<lparr>lastauthsectoroff := List.map (\<lambda>k. if k < Suc l then (f(l := off)) k else 0) [0..<6],
    lastauthsectorlen := List.map (\<lambda>k. if k < Suc l then (g(l := 32 * ?r)) k else 0) [0..<6]\<rparr>"
  have upd: "offs\<lparr>lastauthsectoroff := (lastauthsectoroff offs)[l := off], lastauthsectorlen := (lastauthsectorlen offs)[l := ?r * 32]\<rparr> = ?offs"
    using Suc.prems L by (auto simp: list_update_map6 mult.commute intro!: map_cong)
  have step: "plainsize_levels (nsect s l) off l offs =
      (if nsect s (Suc l) > 1 then plainsize_levels (nsect s (Suc l)) (off + ?r * 32) (Suc l) ?offs
       else Some (?offs\<lparr>lastauthsectoroff := (lastauthsectoroff ?offs)[Suc l := off + ?r * 32],
              lastauthsectorlen := (lastauthsectorlen ?offs)[Suc l := 32], masterauthoff := off + ?r * 32, treelevels := Suc l\<rparr>))"
  proof -
    have "Suc l < 6" using Suc.prems(1) L(2) by simp
    then show ?thesis by (simp only: plainsize_levels_step upd Let_def)
  qed
  show ?case
  proof (cases "Suc l < L")
    case True
    then have "1 < nsect s (Suc l)" using L(4) by simp
    moreover have "(\<Sum>j=l..<k. last_blocks s j) = ?r + (\<Sum>j=Suc l..<k. last_blocks s j)" if "l < k" for k
      using that by (rule sum.atLeast_Suc_lessThan)
    moreover have "plainsize_levels (nsect s (Suc l)) (off + ?r * 32) (Suc l) ?offs = Some (?offs\<lparr>
        lastauthsectoroff := List.map (\<lambda>k. if k < Suc l then (f(l := off)) k else if k \<le> L then off + ?r * 32 + 32 * (\<Sum>j=Suc l..<k. last_blocks s j) else 0) [0..<6],
        lastauthsectorlen := List.map (\<lambda>k. if k < Suc l then (g(l := 32 * ?r)) k else if k < L then 32 * last_blocks s k else if k = L then 32 else 0) [0..<6],
        masterauthoff := off + ?r * 32 + 32 * (\<Sum>j=Suc l..<L. last_blocks s j), treelevels := L\<rparr>)"
      using Suc.hyps(2) True by (intro Suc.hyps(1)) simp_all
    ultimately show ?thesis using Suc.prems(1) step by (auto simp: less_Suc_eq algebra_simps intro!: map_cong)
  next
    case False
    then have "L = Suc l" using Suc.prems(1) by simp
    then show ?thesis using L(2,3) step by (auto simp: list_update_map6 less_Suc_eq intro!: map_cong)
  qed
qed

lemma ceil_count:
  fixes n d b :: nat
  assumes "(n - 1) * d < b" and "b \<le> n * d" and "0 < n" and "0 < d"
  shows "(b + d - 1) div d = n"
proof (rule div_nat_eqI)
  have "n * d = (n - 1) * d + d" using assms(3) by (cases n) simp_all
  then show "d * n \<le> b + d - 1" using assms(1) by (simp add: mult.commute)
  show "b + d - 1 < d * Suc n" using assms(2,4) by (simp add: mult.commute)
qed

lemma cryptosize_levels_eq:
  assumes "0 < s"
  shows "l \<le> 5 \<Longrightarrow> lastauthsectoroff offs = List.map f [0..<6] \<Longrightarrow> lastauthsectorlen offs = List.map g [0..<6] \<Longrightarrow>
    cryptosize_levels l (bytes_to s l) off offs = offs\<lparr>plainsize := s,
      lastauthsectoroff := List.map (\<lambda>k. if k < l then off - 32 * (\<Sum>j=k..<l. last_blocks s j) else f k) [0..<6],
      lastauthsectorlen := List.map (\<lambda>k. if k < l then 32 * last_blocks s k else g k) [0..<6]\<rparr>"
proof (induction l arbitrary: off offs f g)
  case 0
  then show ?case by (simp add: bytes_to_def)
next
  case (Suc l)
  let ?M = "max_level_size ! l" and ?n = "nsect s l" and ?r = "last_blocks s l"
  have b: "(?n - 1) * ?M < bytes_to s l" "bytes_to s l \<le> ?n * ?M" using bytes_to_bounds [OF assms, of l] Suc.prems(1) by simp_all
  have n: "0 < ?n" using nsect_pos [OF assms] .
  have "(?n - 1) * (?M + 32) = (?n - 1) * ?M + 32 * (?n - 1)" by (simp add: algebra_simps)
  then have "(?n - 1) * (?M + 32) < bytes_to s (Suc l)" using b(1) n unfolding bytes_to_Suc by linarith
  moreover have "bytes_to s (Suc l) \<le> ?n * (?M + 32)" using b(2) unfolding bytes_to_Suc by (simp add: algebra_simps)
  ultimately have cnt: "(bytes_to s (Suc l) + ?M + 32 - 1) div (?M + 32) = ?n"
    using ceil_count [of ?n "?M + 32" "bytes_to s (Suc l)"] n by (simp add: add.assoc)
  have rest: "bytes_to s (Suc l) - ?n * 32 = bytes_to s l" unfolding bytes_to_Suc by simp
  let ?offs = "offs\<lparr>lastauthsectorlen := (lastauthsectorlen offs)[l := ?r * 32], lastauthsectoroff := (lastauthsectoroff offs)[l := off - ?r * 32]\<rparr>"
  have step: "cryptosize_levels (Suc l) (bytes_to s (Suc l)) off offs = cryptosize_levels l (bytes_to s l) (off - ?r * 32) ?offs"
    by (simp only: cryptosize_levels.simps Let_def cnt rest last_blocks_def)
  have "cryptosize_levels l (bytes_to s l) (off - ?r * 32) ?offs = ?offs\<lparr>plainsize := s,
      lastauthsectoroff := List.map (\<lambda>k. if k < l then off - ?r * 32 - 32 * (\<Sum>j=k..<l. last_blocks s j) else (f(l := off - ?r * 32)) k) [0..<6],
      lastauthsectorlen := List.map (\<lambda>k. if k < l then 32 * last_blocks s k else (g(l := ?r * 32)) k) [0..<6]\<rparr>"
    using Suc.prems by (intro Suc.IH) (simp_all add: list_update_map6)
  then show ?case unfolding step by (auto simp: less_Suc_eq algebra_simps intro!: map_cong)
qed

text \<open>Data offsets, from the sector ids of the levels above.\<close>

lemma data_offset_loop_eq:
  assumes "0 < s" and "is_height s L"
  shows "l < L \<Longrightarrow> off + 4096 * (\<Sum>j=Suc l..<L. nsect s j - 1) < 0x10000000000000000 \<Longrightarrow>
    data_offset_loop (nsect s l - 1) off = off + 4096 * (\<Sum>j=Suc l..<L. nsect s j - 1)"
proof (induction "L - l" arbitrary: l off)
  case 0
  then show ?case by simp
next
  case (Suc d)
  have L: "nsect s L = 1" "\<And>l. 1 \<le> l \<Longrightarrow> l < L \<Longrightarrow> 1 < nsect s l" using assms(2) by (auto simp: is_height_def)
  have up: "(nsect s l - 1) div 128 = nsect s (Suc l) - 1" by (rule nsect_pred [OF assms(1)])
  show ?case
  proof (cases "Suc l < L")
    case True
    have sum: "(\<Sum>j=Suc l..<L. nsect s j - 1) = (nsect s (Suc l) - 1) + (\<Sum>j=Suc (Suc l)..<L. nsect s j - 1)"
      using True by (rule sum.atLeast_Suc_lessThan)
    have "0 < (nsect s l - 1) div 128" using L(2) [of "Suc l"] True up by simp
    then have ge: "128 \<le> nsect s l - 1" by (simp add: div_greater_zero_iff)
    have bound: "off + (nsect s (Suc l) - 1) * 4096 + 4096 * (\<Sum>j=Suc (Suc l)..<L. nsect s j - 1) < 0x10000000000000000"
      using Suc.prems(2) unfolding sum by simp
    then have "wrap64 (off + (nsect s (Suc l) - 1) * 4096) = off + (nsect s (Suc l) - 1) * 4096" by (simp add: wrap64_def)
    then have "data_offset_loop (nsect s l - 1) off = data_offset_loop (nsect s (Suc l) - 1) (off + (nsect s (Suc l) - 1) * 4096)"
      using ge by (subst data_offset_loop.simps) (simp only: up if_True)
    also have "\<dots> = off + (nsect s (Suc l) - 1) * 4096 + 4096 * (\<Sum>j=Suc (Suc l)..<L. nsect s j - 1)"
      using Suc.hyps(2) True bound by (intro Suc.hyps(1)) simp_all
    finally show ?thesis unfolding sum by simp
  next
    case False
    then have "L = Suc l" using Suc.prems(1) by simp
    then have "(nsect s l - 1) div 128 = 0" using up L(1) by simp
    then have "\<not> 128 \<le> nsect s l - 1" by (simp add: div_eq_0_iff)
    then show ?thesis using \<open>L = Suc l\<close> by (subst data_offset_loop.simps) simp
  qed
qed

lemma height_exists:
  assumes "0 < s" and "s \<le> 2 ^ 44"
  shows "\<exists>L. is_height s L"
proof -
  have c: "(n + 127) div 128 \<le> m" if "n \<le> 128 * m" for n m :: nat
  proof -
    have "(n + 127) div 128 \<le> (127 + m * 128) div 128" using that by (intro div_le_mono) simp
    also have "\<dots> = m" by simp
    finally show ?thesis .
  qed
  have "(s + 4095) div 4096 \<le> (4095 + 4294967296 * 4096) div 4096" using assms(2) by (intro div_le_mono) simp
  then have "nsect s 0 \<le> 128 * 33554432" by simp
  then have "nsect s 1 \<le> 128 * 262144" using c [of "nsect s 0" 33554432] by (simp add: nsect.simps(2))
  then have "nsect s 2 \<le> 128 * 2048" using c [of "nsect s 1" 262144] by (simp add: nsect.simps(2) numeral_2_eq_2)
  then have "nsect s 3 \<le> 128 * 16" using c [of "nsect s 2" 2048] by (simp add: nsect.simps(2) numeral_3_eq_3 numeral_2_eq_2)
  then have "nsect s 4 \<le> 128 * 1" using c [of "nsect s 3" 16] nsect.simps(2) [of s 3] by simp
  then have "nsect s 5 \<le> 1" using c [of "nsect s 4" 1] nsect.simps(2) [of s 4] by simp
  then have ex: "1 \<le> (5 :: nat) \<and> nsect s 5 \<le> 1" by simp
  define L where "L = (LEAST L. 1 \<le> L \<and> nsect s L \<le> 1)"
  have "1 \<le> L \<and> nsect s L \<le> 1" unfolding L_def using ex by (rule LeastI)
  moreover have "L \<le> 5" unfolding L_def using ex by (rule Least_le)
  moreover have "1 < nsect s l" if "1 \<le> l" "l < L" for l
    using not_less_Least [of l "\<lambda>L. 1 \<le> L \<and> nsect s L \<le> 1"] that unfolding L_def by auto
  ultimately have "is_height s L" using nsect_pos [OF assms(1), of L] by (auto simp: is_height_def)
  then show ?thesis ..
qed

lemma find_height:
  assumes "0 < s" and "is_height s L"
  shows "List.find (\<lambda>l. bytes_to s L \<le> max_level_size ! l) [1, 2, 3, 4, 5, 6] = Some L"
proof -
  have L: "1 \<le> L" "L \<le> 5" "nsect s L = 1" "\<And>l. 1 \<le> l \<Longrightarrow> l < L \<Longrightarrow> 1 < nsect s l" using assms(2) by (auto simp: is_height_def)
  have le: "bytes_to s L \<le> max_level_size ! L" using bytes_to_bounds [OF assms(1), of L] L by simp
  have gt: "\<not> bytes_to s L \<le> max_level_size ! l" if "1 \<le> l" "l < L" for l
  proof -
    have "max_level_size ! l \<le> (nsect s l - 1) * max_level_size ! l" using L(4) [OF that] by (cases "nsect s l - 1") simp_all
    moreover have "(nsect s l - 1) * max_level_size ! l < bytes_to s l" using bytes_to_bounds [OF assms(1), of l] that L(2) by simp
    moreover have "bytes_to s l \<le> bytes_to s L"
      using that by (simp add: bytes_to_def sum_mono2)
    ultimately show ?thesis by linarith
  qed
  have "L = 1 \<or> L = 2 \<or> L = 3 \<or> L = 4 \<or> L = 5" using L(1,2) by auto
  then show ?thesis using le gt [of 1] gt [of 2] gt [of 3] gt [of 4] by (elim disjE) simp_all
qed

lemma first_offset:
  assumes "0 < s" and "is_height s L"
  shows "4096 * (nsect s 0 - 1) + 4096 * (\<Sum>j=Suc 0..<L. nsect s j - 1) + (s - 4096 * (nsect s 0 - 1)) + 32 * (\<Sum>k<L. last_blocks s k) = bytes_to s L"
proof -
  have L: "1 \<le> L" "nsect s L = 1" using assms(2) by (auto simp: is_height_def)
  have "4096 * (nsect s 0 - 1) \<le> s"
    using bytes_to_bounds [OF assms(1), of 0] by (simp add: bytes_to_def max_level_size_def mult.commute)
  moreover have "32 * (\<Sum>k<L. nsect s k) = 4096 * (\<Sum>j=Suc 0..<L. nsect s j - 1) + 32 * (\<Sum>k<L. last_blocks s k)"
  proof -
    have "32 * (\<Sum>k<L. nsect s k) = (\<Sum>k<L. 4096 * (nsect s (Suc k) - 1) + 32 * last_blocks s k)"
    proof (subst sum_distrib_left, rule sum.cong [OF refl])
      fix k
      show "32 * nsect s k = 4096 * (nsect s (Suc k) - 1) + 32 * last_blocks s k"
        using last_blocks_eq [OF assms(1), of k] by linarith
    qed
    also have "\<dots> = 4096 * (\<Sum>k<L. nsect s (Suc k) - 1) + 32 * (\<Sum>k<L. last_blocks s k)"
      by (simp add: sum.distrib sum_distrib_left)
    also have "(\<Sum>k<L. nsect s (Suc k) - 1) = (\<Sum>j=Suc 0..<Suc L. nsect s j - 1)"
      by (simp only: sum.shift_bounds_Suc_ivl lessThan_atLeast0)
    also have "\<dots> = (\<Sum>j=Suc 0..<L. nsect s j - 1)" using L by simp
    finally show ?thesis .
  qed
  ultimately show ?thesis by (simp add: bytes_to_def)
qed

lemma nsect_le: "nsect s (Suc l) \<le> nsect s l"
proof -
  have "(nsect s l + 127) div 128 \<le> nsect s l"
  proof (cases "nsect s l")
    case (Suc n)
    have "(nsect s l + 127) div 128 \<le> (127 + nsect s l * 128) div 128" by (intro div_le_mono) simp
    then show ?thesis by simp
  qed simp
  then show ?thesis by (simp add: nsect.simps(2))
qed

lemma nsect_le_0: "nsect s l \<le> nsect s 0"
  by (induction l) (use nsect_le le_trans in blast)+

lemma nsect_0_le: "s \<le> 2 ^ 44 \<Longrightarrow> nsect s 0 \<le> 4294967296"
proof -
  assume "s \<le> 2 ^ 44"
  then have "(s + 4095) div 4096 \<le> (4095 + 4294967296 * 4096) div 4096" by (intro div_le_mono) simp
  then show ?thesis by simp
qed

lemma last_sector:
  assumes "0 < s"
  shows "nsect s 0 - 1 = (if s mod 4096 = 0 then s div 4096 - 1 else s div 4096)"
    and "s - 4096 * (nsect s 0 - 1) = (if s mod 4096 = 0 then 4096 else s mod 4096)"
proof -
  obtain q r where s: "s = 4096 * q + r" "r < 4096" by (metis mod_less_divisor mult_div_mod_eq zero_less_numeral)
  have "(s + 4095) div 4096 = (if r = 0 then q else q + 1)"
  proof (cases "r = 0")
    case True
    have "s + 4095 = 4095 + q * 4096" using True s by simp
    then show ?thesis using True by (simp only: div_mult_self1) simp
  next
    case False
    have "s + 4095 = (r - 1) + (q + 1) * 4096" using False s by simp
    then show ?thesis using False s(2) by (simp only: div_mult_self1) simp
  qed
  then have n0: "nsect s 0 = (if r = 0 then q else q + 1)" by simp
  have dm: "s mod 4096 = r" "s div 4096 = q" using s by simp_all
  show "nsect s 0 - 1 = (if s mod 4096 = 0 then s div 4096 - 1 else s div 4096)" unfolding dm n0 by simp
  have "s - 4096 * (q - 1) = 4096" if "r = 0"
    using that s assms by (cases q) simp_all
  then show "s - 4096 * (nsect s 0 - 1) = (if s mod 4096 = 0 then 4096 else s mod 4096)"
    unfolding dm n0 using s by simp
qed

lemma plainsize_offsets:
  assumes "0 < s" and "s \<le> 2 ^ 44" and "is_height s L"
  shows "psync_fs_crypto_offsets_by_plainsize s =
    Some (block_offsets s L (bytes_to s L - 32 * (\<Sum>k<L. last_blocks s k)))"
proof -
  have L: "1 \<le> L" "L \<le> 5" using assms(3) by (auto simp: is_height_def)
  have n0: "nsect s 0 \<le> 4294967296" using nsect_0_le [OF assms(2)] .
  let ?id = "nsect s 0 - 1" and ?len = "s - 4096 * (nsect s 0 - 1)"
  have pos: "0 < nsect s 0" by (rule nsect_pos [OF assms(1)])
  have sector: "(let lastsectorid = wrap32 (s div 4096); lastsectorsize = s mod 4096
      in if lastsectorsize = 0 then (wrap32 (lastsectorid + 2 ^ 32 - 1), 4096) else (lastsectorid, lastsectorsize)) = (?id, ?len)"
  proof (cases "s mod 4096 = 0")
    case True
    then have "?id = s div 4096 - 1" "s div 4096 \<le> 4294967296" "0 < s div 4096"
      using last_sector [OF assms(1)] n0 pos assms(1) by (auto simp: div_greater_zero_iff)
    then have "wrap32 (wrap32 (s div 4096) + 2 ^ 32 - 1) = ?id"
      by (cases "s div 4096 = 4294967296") (simp_all add: wrap32_def mod_if)
    then show ?thesis using True last_sector [OF assms(1)] by (simp add: Let_def)
  next
    case False
    then have "wrap32 (s div 4096) = ?id" using last_sector [OF assms(1)] n0 by (simp add: wrap32_def)
    then show ?thesis using False last_sector [OF assms(1)] by (simp add: Let_def)
  qed
  have sum: "(\<Sum>j=Suc 0..<L. nsect s j - 1) \<le> 5 * 4294967296"
  proof -
    have "(\<Sum>j=Suc 0..<L. nsect s j - 1) \<le> (\<Sum>j=Suc 0..<L. 4294967296)"
      
    proof (rule sum_mono)
      fix j
      show "nsect s j - 1 \<le> 4294967296" using nsect_le_0 [of s j] n0 by linarith
    qed
    also have "\<dots> \<le> 5 * 4294967296" using L by simp
    finally show ?thesis .
  qed
  have off: "psync_fs_crypto_data_offset_by_sectorid ?id = ?id * 4096 + 4096 * (\<Sum>j=Suc 0..<L. nsect s j - 1)"
  proof -
    have "wrap64 (?id * 4096) = ?id * 4096" using n0 by (simp add: wrap64_def)
    then show ?thesis
      unfolding psync_fs_crypto_data_offset_by_sectorid_def using L(1) n0 sum by (subst data_offset_loop_eq [OF assms(1,3)]) auto
  qed
  let ?offs = "zero_offsets\<lparr>plainsize := s, needmasterauth := s > 4096\<rparr>"
  let ?off = "bytes_to s L - 32 * (\<Sum>k<L. last_blocks s k)"
  have start: "psync_fs_crypto_data_offset_by_sectorid ?id + ?len = ?off"
    using first_offset [OF assms(1,3)] off by (simp add: mult.commute)
  have count: "wrap64 (s + 4096 - 1) div 4096 = nsect s 0" using assms(2) by (simp add: wrap64_def)
  have "psync_fs_crypto_offsets_by_plainsize s = plainsize_levels (nsect s 0) ?off 0 ?offs"
    using assms(1) by (simp only: psync_fs_crypto_offsets_by_plainsize_def Let_def sector [unfolded Let_def] prod.case start count neq0_conv [symmetric] if_False)
  also have "\<dots> = Some (block_offsets s L ?off)"
    using L plainsize_levels_eq [OF assms(1,3), of 0 ?offs "\<lambda>_. 0" "\<lambda>_. 0" ?off]
    by (simp add: block_offsets_def zero_offsets_def map_replicate_const atLeast0LessThan)
  finally show ?thesis .
qed

lemma sum_split_last: "k \<le> L \<Longrightarrow> (\<Sum>j<L. f j) = (\<Sum>j<k. f j) + (\<Sum>j=k..<L. f j)" for f :: "nat \<Rightarrow> nat"
  by (metis lessThan_atLeast0 sum.atLeastLessThan_concat zero_le)

lemma block_offsets_le: "is_height s L \<Longrightarrow> 0 < s \<Longrightarrow> 32 * (\<Sum>k<L. last_blocks s k) \<le> bytes_to s L"
  using first_offset [of s L] by linarith

lemma cryptosize_offsets:
  assumes "0 < s" and "is_height s L"
  shows "psync_fs_crypto_offsets_by_cryptosize (bytes_to s L + (if s > 4096 then 32 else 0)) =
    Some (block_offsets s L (bytes_to s L - 32 * (\<Sum>k<L. last_blocks s k)))"
proof -
  have L: "1 \<le> L" "L \<le> 5" using assms(2) by (auto simp: is_height_def)
  let ?c = "bytes_to s L + (if s > 4096 then 32 else 0)" and ?S = "\<lambda>k. \<Sum>j=k..<L. last_blocks s j"
  have small: "L = 1" "bytes_to s L = s + 32" if "s \<le> 4096"
  proof -
    have "nsect s 0 = 1" using that assms(1) by (simp add: div_nat_eqI)
    then have "nsect s l = 1" for l by (induction l) (simp_all add: nsect.simps(2))
    then show "L = 1" using assms(2) L by (metis is_height_def le_neq_implies_less less_irrefl order_refl)
    then show "bytes_to s L = s + 32" using \<open>nsect s 0 = 1\<close> by (simp add: bytes_to_def)
  qed
  have large: "s + 32 \<le> bytes_to s L"
  proof -
    have "nsect s 0 \<le> (\<Sum>k<L. nsect s k)" using L(1) by (intro member_le_sum) auto
    then have "1 \<le> (\<Sum>k<L. nsect s k)" using nsect_pos [OF assms(1), of 0] by linarith
    then show ?thesis unfolding bytes_to_def by simp
  qed
  have needmaster: "4128 < ?c \<longleftrightarrow> 4096 < s" using small large by auto
  have tot: "\<not> ?c \<le> 32" using large assms(1) by simp
  let ?offs = "zero_offsets\<lparr>needmasterauth := 4096 < s, masterauthoff := bytes_to s L, treelevels := L,
     lastauthsectoroff := (lastauthsectoroff zero_offsets)[L := bytes_to s L], lastauthsectorlen := (lastauthsectorlen zero_offsets)[L := 32]\<rparr>"
  have lists: "lastauthsectoroff ?offs = List.map ((\<lambda>_. 0)(L := bytes_to s L)) [0..<6]"
    "lastauthsectorlen ?offs = List.map ((\<lambda>_. 0)(L := 32)) [0..<6]"
  proof -
    have "replicate 6 0 = List.map (\<lambda>_. 0 :: nat) [0..<6]" by (simp add: map_replicate_const)
    then show "lastauthsectoroff ?offs = List.map ((\<lambda>_. 0)(L := bytes_to s L)) [0..<6]" "lastauthsectorlen ?offs = List.map ((\<lambda>_. 0)(L := 32)) [0..<6]"
      using L(2) list_update_map6 [of L "\<lambda>_. 0 :: nat"] by (simp_all add: zero_offsets_def)
  qed
  have "psync_fs_crypto_offsets_by_cryptosize ?c = Some (cryptosize_levels L (bytes_to s L) (bytes_to s L) ?offs)"
  proof -
    have "(if 4128 < ?c then ?c - 32 else ?c) = bytes_to s L" using needmaster by simp
    moreover have "4096 + 32 < ?c \<longleftrightarrow> 4096 < s" using needmaster by simp
    moreover have "\<not> 6 \<le> L" using L(2) by simp
    ultimately show ?thesis
      using tot find_height [OF assms] by (simp only: psync_fs_crypto_offsets_by_cryptosize_def Let_def if_False) simp
  qed
  also have "cryptosize_levels L (bytes_to s L) (bytes_to s L) ?offs = ?offs\<lparr>plainsize := s,
      lastauthsectoroff := List.map (\<lambda>k. if k < L then bytes_to s L - 32 * ?S k else ((\<lambda>_. 0)(L := bytes_to s L)) k) [0..<6],
      lastauthsectorlen := List.map (\<lambda>k. if k < L then 32 * last_blocks s k else ((\<lambda>_. 0)(L := 32)) k) [0..<6]\<rparr>"
    by (rule cryptosize_levels_eq [OF assms(1) L(2) lists])
  also have "\<dots> = block_offsets s L (bytes_to s L - 32 * (\<Sum>k<L. last_blocks s k))"
  proof -
    have off: "bytes_to s L - 32 * (\<Sum>k<L. last_blocks s k) + 32 * (\<Sum>j<k. last_blocks s j) = bytes_to s L - 32 * ?S k" if "k \<le> L" for k
      using block_offsets_le [OF assms(2,1)] sum_split_last [OF that, of "last_blocks s"] by linarith
    show ?thesis
      unfolding block_offsets_def using off [of L] off by (auto simp: zero_offsets_def intro!: map_cong)
  qed
  finally show ?thesis .
qed

text \<open>
  C14. The layout of an encrypted file is determined by its size: for every file of 1 byte to 2^44 bytes (the
  sectors that have an id of 32 bits) the encrypted size is computed, no array bound is exceeded, and the
  layout computed back from the encrypted size (the offsets and lengths of the last authentication
  sectors of all levels, the number of levels, the master block) is the one computed from the plain size;
  in particular the plain size comes back.
\<close>

theorem crypto_size_roundtrip:
  assumes "0 < s" and "s \<le> 2 ^ 44"
  shows "\<exists>c offsets. psync_fs_crypto_crypto_size s = Some c \<and> psync_fs_crypto_offsets_by_plainsize s = Some offsets \<and>
    psync_fs_crypto_offsets_by_cryptosize c = Some offsets \<and> psync_fs_crypto_plain_size c = Some s \<and> s < c"
proof -
  obtain L where L: "is_height s L" using height_exists [OF assms] by blast
  let ?b = "block_offsets s L (bytes_to s L - 32 * (\<Sum>k<L. last_blocks s k))"
  have plain: "psync_fs_crypto_offsets_by_plainsize s = Some ?b" by (rule plainsize_offsets [OF assms L])
  have master: "masterauthoff ?b = bytes_to s L" using block_offsets_le [OF L assms(1)] by (simp add: block_offsets_def)
  have c: "psync_fs_crypto_crypto_size s = Some (bytes_to s L + (if s > 4096 then 32 else 0))"
    using plain master by (simp add: psync_fs_crypto_crypto_size_def) (simp add: block_offsets_def)
  have crypto: "psync_fs_crypto_offsets_by_cryptosize (bytes_to s L + (if s > 4096 then 32 else 0)) = Some ?b"
    by (rule cryptosize_offsets [OF assms(1) L])
  have "0 < nsect s 0" by (rule nsect_pos [OF assms(1)])
  moreover have "nsect s 0 \<le> (\<Sum>k<L. nsect s k)" using L by (intro member_le_sum) (auto simp: is_height_def)
  ultimately have "s < bytes_to s L + (if s > 4096 then 32 else 0)" by (simp add: bytes_to_def)
  then show ?thesis using plain c crypto by (auto simp: psync_fs_crypto_plain_size_def block_offsets_def)
qed

lemma crypto_size_roundtrip_witness:
  "\<exists>c offsets. psync_fs_crypto_crypto_size 600000 = Some c \<and> psync_fs_crypto_offsets_by_plainsize 600000 = Some offsets \<and>
    psync_fs_crypto_offsets_by_cryptosize c = Some offsets \<and> psync_fs_crypto_plain_size c = Some 600000 \<and> 600000 < c"
  by (rule crypto_size_roundtrip) simp_all

subsection \<open>Every sector has its own place\<close>

text \<open>The index of a data sector in the file, without any wrapping: it and the data sectors and authentication sectors before it.\<close>

fun sector_index :: "nat \<Rightarrow> nat" where
  "sector_index i = i + (if i < 128 then 0 else sector_index (i div 128))"

declare sector_index.simps [simp del]

lemma sector_index_rec: "sector_index i = i + sector_index (i div 128)"
proof (cases "i < 128")
  case True
  then show ?thesis using sector_index.simps [of i] sector_index.simps [of 0] by simp
qed (simp add: sector_index.simps [of i])

lemma sector_index_le: "127 * sector_index i \<le> 128 * i"
proof (induction i rule: sector_index.induct)
  case (1 i)
  show ?case
  proof (cases "i < 128")
    case False
    have "127 * sector_index i = 127 * i + 127 * sector_index (i div 128)" by (subst sector_index_rec) simp
    also have "\<dots> \<le> 127 * i + 128 * (i div 128)" using 1 False by simp
    also have "\<dots> \<le> 128 * i" using times_div_less_eq_dividend [of 128 i] by linarith
    finally show ?thesis .
  qed (simp add: sector_index.simps [of i])
qed

lemma data_sectorid_loop_eq:
  "sect + sector_index (i div 128) < 0x100000000 \<Longrightarrow> data_sectorid_loop i sect = sect + sector_index (i div 128)"
proof (induction i arbitrary: sect rule: sector_index.induct)
  case (1 i)
  show ?case
  proof (cases "i < 128")
    case True
    then show ?thesis by (simp add: data_sectorid_loop.simps sector_index.simps [of 0])
  next
    case False
    have r: "sector_index (i div 128) = i div 128 + sector_index (i div 128 div 128)" by (rule sector_index_rec)
    then have "wrap32 (sect + i div 128) = sect + i div 128" using 1(2) by (simp add: wrap32_def)
    then show ?thesis using 1 False r by (subst data_sectorid_loop.simps) simp
  qed
qed

lemma data_offset_loop_index:
  "off + 4096 * sector_index (i div 128) < 0x10000000000000000 \<Longrightarrow> data_offset_loop i off = off + 4096 * sector_index (i div 128)"
proof (induction i arbitrary: off rule: sector_index.induct)
  case (1 i)
  show ?case
  proof (cases "i < 128")
    case True
    then show ?thesis by (simp add: data_offset_loop.simps sector_index.simps [of 0])
  next
    case False
    have r: "sector_index (i div 128) = i div 128 + sector_index (i div 128 div 128)" by (rule sector_index_rec)
    then have "wrap64 (off + i div 128 * 4096) = off + i div 128 * 4096" using 1(2) by (simp add: wrap64_def)
    then show ?thesis using 1 False r by (subst data_offset_loop.simps) simp
  qed
qed

lemma auth_offset_loop_index:
  "i < 2 ^ 27 \<Longrightarrow> ret + 4096 * sector_index (i div 128) < 0x10000000000000000 \<Longrightarrow> auth_offset_loop i ret = ret + 4096 * sector_index (i div 128)"
proof (induction i arbitrary: ret rule: sector_index.induct)
  case (1 i)
  show ?case
  proof (cases "i < 128")
    case True
    then show ?thesis by (simp add: auth_offset_loop.simps sector_index.simps [of 0])
  next
    case False
    have r: "sector_index (i div 128) = i div 128 + sector_index (i div 128 div 128)" by (rule sector_index_rec)
    have "i div 128 < 2 ^ 20" using 1(2) by (simp add: less_mult_imp_div_less)
    then have w: "wrap32 (i div 128 * 4096) = i div 128 * 4096" "i div 128 < 2 ^ 27" by (simp_all add: wrap32_def)
    then have "wrap64 (ret + i div 128 * 4096) = ret + i div 128 * 4096" using 1(3) r by (simp add: wrap64_def)
    then show ?thesis using 1 False r w by (subst auth_offset_loop.simps) simp
  qed
qed

lemma data_offset_index:
  assumes "i \<le> PSYNC_CRYPTO_INVALID_SECTORID"
  shows "psync_fs_crypto_data_offset_by_sectorid i = 4096 * sector_index i"
proof -
  have "127 * sector_index (i div 128) \<le> 128 * (i div 128)" by (rule sector_index_le)
  moreover have "128 * (i div 128) \<le> i" by (rule times_div_less_eq_dividend)
  ultimately have "i * 4096 + 4096 * sector_index (i div 128) < 0x10000000000000000" using assms by linarith
  then show ?thesis using assms sector_index_rec [of i]
    by (simp add: psync_fs_crypto_data_offset_by_sectorid_def data_offset_loop_index wrap64_def)
qed

lemma level_unit: "l \<le> 5 \<Longrightarrow> max_level_size ! Suc l = max_level_size ! l + 4096 * 128 ^ Suc l"
proof -
  assume "l \<le> 5"
  then have "l = 0 \<or> l = 1 \<or> l = 2 \<or> l = 3 \<or> l = 4 \<or> l = 5" by auto
  then show ?thesis by (elim disjE) (simp_all add: max_level_size_def)
qed

lemma pred_mult_div: "0 < n \<Longrightarrow> (128 * n - 1) div 128 = n - 1" for n :: nat
  by (cases n) simp_all

text \<open>An authentication sector follows the last data sector below it, and the sectors of the levels between them.\<close>

lemma auth_index:
  "l \<le> 5 \<Longrightarrow> max_level_size ! Suc l * Suc j + 4096 * sector_index (j div 128) = 4096 * (sector_index (128 ^ Suc l * Suc j - 1) + 2 + l)"
proof (induction l)
  case 0
  have "(128 * Suc j - 1) div 128 = j" using pred_mult_div [of "Suc j"] by simp
  then have "sector_index (128 * Suc j - 1) = 128 * Suc j - 1 + sector_index j" by (subst sector_index_rec) simp
  then show ?case using sector_index_rec [of j] by (simp add: max_level_size_def)
next
  case (Suc l)
  define n where "n = (128 :: nat) ^ Suc l * Suc j"
  define m where "m = max_level_size ! Suc l * Suc j"
  define x where "x = sector_index (j div 128)"
  define y where "y = sector_index (n - 1)"
  have pos: "0 < n" by (simp add: n_def)
  have "sector_index (128 * n - 1) = 128 * n - 1 + y"
    using pred_mult_div [OF pos] by (subst sector_index_rec) (simp add: y_def)
  moreover have "128 ^ Suc (Suc l) * Suc j = 128 * n" by (simp add: n_def)
  moreover have "max_level_size ! Suc (Suc l) * Suc j = m + 4096 * (128 * n)"
    using level_unit [of "Suc l"] Suc.prems by (simp add: add_mult_distrib m_def n_def)
  moreover have "m + 4096 * x = 4096 * (y + 2 + l)" using Suc by (simp add: m_def x_def y_def n_def)
  moreover have "m + 4096 * (128 * n) + 4096 * x = 4096 * (128 * n - 1 + y + 2 + Suc l)"
    if "m + 4096 * x = 4096 * (y + 2 + l)" using that pos by (cases n) simp_all
  ultimately show ?case by (simp only: x_def [symmetric])
qed

lemma sector_index_mono: "a \<le> b \<Longrightarrow> sector_index a \<le> sector_index b"
proof (induction b arbitrary: a rule: sector_index.induct)
  case (1 b)
  show ?case
  proof (cases "b < 128")
    case True
    then show ?thesis using 1(2) by (simp add: sector_index.simps)
  next
    case False
    have "sector_index (a div 128) \<le> sector_index (b div 128)" using 1 False by (simp add: div_le_mono)
    then show ?thesis using 1(2) by (subst (1 2) sector_index_rec) linarith
  qed
qed

lemma sector_index_less: "a < b \<Longrightarrow> sector_index a < sector_index b"
  using sector_index_mono [of "a div 128" "b div 128"] sector_index_rec [of a] sector_index_rec [of b] by (simp add: div_le_mono)

text \<open>Between two data sectors are the authentication sectors that end at the first of them, one for each level.\<close>

lemma div_pred_eq: "\<not> m dvd n \<Longrightarrow> (n - 1) div m = n div m" for n :: nat
  by (cases n) (simp_all add: div_Suc dvd_eq_mod_eq_0)

lemma auth_first: "\<not> 128 dvd n \<Longrightarrow> sector_index n \<le> sector_index (n - 1) + 1"
  using div_pred_eq [of 128 n] sector_index_rec [of n] sector_index_rec [of "n - 1"] by simp

lemma auth_between: "0 < n \<Longrightarrow> 128 ^ Suc l dvd n \<longleftrightarrow> sector_index (n - 1) + 1 + l < sector_index n"
proof (induction l arbitrary: n)
  case (0 n)
  show ?case
  proof (cases "128 dvd n")
    case True
    then obtain q where q: "n = 128 * q" "0 < q" using 0 by (auto elim: dvdE)
    have "sector_index (q - 1) < sector_index q" using q by (intro sector_index_less) simp
    then show ?thesis
      using q pred_mult_div [OF q(2)] sector_index_rec [of n] sector_index_rec [of "n - 1"] by simp
  next
    case False
    then show ?thesis using auth_first [of n] by simp
  qed
next
  case (Suc l n)
  show ?case
  proof (cases "128 dvd n")
    case True
    then obtain q where q: "n = 128 * q" "0 < q" using Suc by (auto elim: dvdE)
    have "128 ^ Suc (Suc l) dvd n \<longleftrightarrow> 128 ^ Suc l dvd q" using q by simp
    moreover have "sector_index n = n + sector_index q" "sector_index (n - 1) = n - 1 + sector_index (q - 1)"
      using q pred_mult_div [OF q(2)] sector_index_rec [of n] sector_index_rec [of "n - 1"] by simp_all
    ultimately show ?thesis using Suc(1) [OF q(2)] Suc(2) by linarith
  next
    case False
    then have "\<not> 128 ^ Suc (Suc l) dvd n" using dvd_mult_left [of 128 "128 ^ Suc l" n] by (auto simp only: power_Suc)
    moreover have "\<not> sector_index (n - 1) + 1 + Suc l < sector_index n"
      using Suc(2) False auth_first [of n] by linarith
    ultimately show ?thesis by simp
  qed
qed


text \<open>The places of an encrypted file: its data sectors and the full authentication sectors of each level.\<close>

datatype place = Data_sector nat | Auth_sector nat nat

fun place_offset :: "place \<Rightarrow> nat" where
  "place_offset (Data_sector i) = psync_fs_crypto_data_offset_by_sectorid i"
| "place_offset (Auth_sector level aid) = psync_fs_crypto_auth_offset level aid"

fun place_before :: "nat \<Rightarrow> place \<Rightarrow> bool" where
  "place_before n (Data_sector i) \<longleftrightarrow> i < n"
| "place_before n (Auth_sector level aid) \<longleftrightarrow> 128 ^ Suc level * Suc aid \<le> n"

fun place_index :: "place \<Rightarrow> nat" where
  "place_index (Data_sector i) = sector_index i"
| "place_index (Auth_sector level aid) = sector_index (128 ^ Suc level * Suc aid - 1) + 1 + level"

fun place_base :: "place \<Rightarrow> nat" where
  "place_base (Data_sector i) = i"
| "place_base (Auth_sector level aid) = 128 ^ Suc level * Suc aid - 1"

fun place_number :: "place \<Rightarrow> nat" where
  "place_number (Data_sector i) = 0"
| "place_number (Auth_sector level aid) = Suc level"

lemma auth_offset_index:
  assumes "128 ^ Suc l * Suc j \<le> 2 ^ 32"
  shows "psync_fs_crypto_auth_offset l j = 4096 * (sector_index (128 ^ Suc l * Suc j - 1) + 1 + l)"
proof -
  define n where "n = (128 :: nat) ^ Suc l * Suc j"
  have n: "0 < n" "n \<le> 2 ^ 32" using assms by (simp_all add: n_def)
  have "(128 :: nat) ^ Suc l \<le> 2 ^ 32" using assms order_trans [of "(128 :: nat) ^ Suc l" "128 ^ Suc l * Suc j"] by simp
  also have "(2 :: nat) ^ 32 < 128 ^ 5" by simp
  finally have l: "Suc l < 5" by (rule power_less_imp_less_exp [rotated]) simp
  have "(128 :: nat) \<le> 128 ^ Suc l" by simp
  then have "128 * Suc j \<le> n" unfolding n_def by (rule mult_le_mono1)
  then have j: "Suc j \<le> 2 ^ 25" using n by simp
  define x where "x = sector_index (j div 128)"
  define y where "y = sector_index (n - 1)"
  define m where "m = max_level_size ! Suc l * Suc j"
  have m: "m + 4096 * x = 4096 * (y + 2 + l)"
    using auth_index [of l j] l by (simp add: m_def x_def y_def n_def)
  have "127 * y \<le> 128 * (n - 1)" unfolding y_def by (rule sector_index_le)
  then have y: "y < 2 ^ 33" using n by simp
  have m4: "4096 \<le> m"
  proof -
    have "(1 :: nat) \<le> 128 ^ Suc l" by (rule one_le_power) simp
    moreover have "max_level_size ! Suc l = max_level_size ! l + 4096 * 128 ^ Suc l" using level_unit [of l] l by simp
    ultimately have "4096 \<le> max_level_size ! Suc l" by linarith
    then show ?thesis unfolding m_def using order_trans [of 4096 "max_level_size ! Suc l" "max_level_size ! Suc l * Suc j"] by simp
  qed
  have "m < 2 ^ 50" using m y l by simp
  then have w: "wrap64 (m + 2 ^ 64 - 4096) = m - 4096" using m4 by (simp add: wrap64_def mod_if)
  have "wrap32 (j + 1) = Suc j" using j by (simp add: wrap32_def)
  then have "psync_fs_crypto_auth_offset l j = auth_offset_loop j (m - 4096)"
    using w by (simp add: psync_fs_crypto_auth_offset_def m_def)
  also have "\<dots> = m - 4096 + 4096 * x"
  proof -
    have "j < 2 ^ 27" using j by simp
    moreover have "m - 4096 + 4096 * x < 0x10000000000000000" using m y l by simp
    ultimately show ?thesis unfolding x_def by (rule auth_offset_loop_index)
  qed
  also have "\<dots> = 4096 * (y + 1 + l)" using m m4 by simp
  finally show ?thesis by (simp add: y_def n_def)
qed

lemma place_offset_index: "place_before n p \<Longrightarrow> n \<le> 2 ^ 32 \<Longrightarrow> place_offset p = 4096 * place_index p"
proof (cases p)
  case (Data_sector i)
  moreover assume "place_before n p" "n \<le> 2 ^ 32"
  ultimately have "i \<le> PSYNC_CRYPTO_INVALID_SECTORID" by simp
  then show ?thesis using Data_sector by (simp add: data_offset_index)
next
  case (Auth_sector l j)
  moreover assume "place_before n p" "n \<le> 2 ^ 32"
  ultimately have "128 ^ Suc l * Suc j \<le> 2 ^ 32" by (simp only: place_before.simps)
  then show ?thesis using Auth_sector by (simp only: place_offset.simps place_index.simps auth_offset_index)
qed

lemma place_index_number: "place_index p = sector_index (place_base p) + place_number p"
  by (cases p) simp_all

lemma place_number_less: "place_index p < sector_index (Suc (place_base p))"
proof (cases p)
  case (Data_sector i)
  then show ?thesis using sector_index_less [of i "Suc i"] by simp
next
  case (Auth_sector l j)
  then show ?thesis using auth_between [of "128 ^ Suc l * Suc j" l] by simp
qed

lemma place_base_number_inj: "place_base p = place_base q \<Longrightarrow> place_number p = place_number q \<Longrightarrow> p = q"
proof (cases p; cases q)
  fix l j l' j'
  assume "place_base p = place_base q" "place_number p = place_number q" "p = Auth_sector l j" "q = Auth_sector l' j'"
  moreover from this have "(128 :: nat) ^ Suc l * Suc j - 1 = 128 ^ Suc l * Suc j' - 1" by simp
  then have "(128 :: nat) ^ Suc l * Suc j = 128 ^ Suc l * Suc j'"
    by (metis Suc_pred' nat_0_less_mult_iff zero_less_Suc zero_less_numeral zero_less_power)
  then have "j = j'" by (simp only: mult_cancel1) simp
  ultimately show "p = q" by simp
qed simp_all

lemma place_index_inj: "place_index p = place_index q \<Longrightarrow> p = q"
proof -
  assume eq: "place_index p = place_index q"
  have le: "place_base a \<le> place_base b" if "place_index a = place_index b" for a b
  proof (rule ccontr)
    assume "\<not> place_base a \<le> place_base b"
    then have "sector_index (Suc (place_base b)) \<le> sector_index (place_base a)" by (intro sector_index_mono) simp
    then show False using that place_number_less [of b] place_index_number [of a] by simp
  qed
  have base: "place_base p = place_base q" using le eq by (simp add: antisym)
  then show ?thesis using eq by (intro place_base_number_inj) (simp_all add: place_index_number)
qed

lemma place_index_less: "place_before n p \<Longrightarrow> place_index p < sector_index n"
proof -
  assume "place_before n p"
  then have "Suc (place_base p) \<le> n" by (cases p) simp_all
  then show ?thesis using sector_index_mono place_number_less [of p] less_le_trans by blast
qed

lemma place_index_surj: "k < sector_index n \<Longrightarrow> \<exists>p. place_before n p \<and> place_index p = k"
proof (induction n)
  case 0
  then show ?case by (simp add: sector_index.simps)
next
  case (Suc n)
  show ?case
  proof (cases "k < sector_index n")
    case True
    then obtain p where "place_before n p" "place_index p = k" using Suc by blast
    then have "place_before (Suc n) p \<and> place_index p = k" by (cases p) simp_all
    then show ?thesis by blast
  next
    case False
    show ?thesis
    proof (cases "k = sector_index n")
      case True
      then show ?thesis by (intro exI [of _ "Data_sector n"]) simp
    next
      case neq: False
      define l where "l = k - sector_index n - 1"
      have k: "k = sector_index n + 1 + l" using False neq by (simp add: l_def)
      then have "128 ^ Suc l dvd Suc n" using auth_between [of "Suc n" l] Suc(2) by simp
      then obtain q where q: "Suc n = 128 ^ Suc l * q" by (auto elim: dvdE)
      then obtain j where "q = Suc j" by (cases q) simp_all
      then have "Suc n = 128 ^ Suc l * Suc j" using q by simp
      then have "128 ^ Suc l * Suc j - 1 = n" by (simp only: diff_Suc_1)
      then have "place_index (Auth_sector l j) = k" "place_before (Suc n) (Auth_sector l j)"
        using k \<open>Suc n = 128 ^ Suc l * Suc j\<close> by (simp_all only: place_index.simps place_before.simps)
      then show ?thesis by blast
    qed
  qed
qed

text \<open>
  C25. The sectors of an encrypted file tile it: the data sectors below any number up to 2^32 and the
  full authentication sectors, on each level, of the data sectors below it, take up every place of a
  sector from the start of the file up to an end, each exactly one: no two overlap, and there is no gap.
\<close>

theorem sectors_tile_file:
  assumes "n \<le> 2 ^ 32"
  shows "bij_betw place_offset {p. place_before n p} {4096 * k |k. k < sector_index n}"
proof (rule bij_betw_imageI)
  have offset: "place_offset p = 4096 * place_index p" if "place_before n p" for p
    by (rule place_offset_index [OF that assms])
  show "inj_on place_offset {p. place_before n p}"
    by (rule inj_onI) (simp add: offset place_index_inj)
  show "place_offset ` {p. place_before n p} = {4096 * k |k. k < sector_index n}" (is "?L = ?R")
  proof (rule subset_antisym)
    show "?L \<subseteq> ?R" using offset place_index_less by fastforce
    show "?R \<subseteq> ?L"
    proof
      fix x assume "x \<in> ?R"
      then obtain k where k: "x = 4096 * k" "k < sector_index n" by blast
      then obtain p where "place_before n p" "place_index p = k" using place_index_surj by blast
      then show "x \<in> ?L" using k offset [of p] by (intro image_eqI [of _ _ p]) simp_all
    qed
  qed
qed

lemma sectors_tile_file_witness:
  "bij_betw place_offset {p. place_before 33000 p} {4096 * k |k. k < sector_index 33000}"
  by (rule sectors_tile_file) simp

text \<open>
  The sector number under which a data sector is written to the log is computed in 32 bits: for a sector
  id near the end of the range it wraps around and is not the place of the sector.
\<close>

lemma data_sectorid_wraps:
  "psync_fs_crypto_data_sectorid_by_sectorid 4294967295 = 33818635 \<and>
   psync_fs_crypto_data_offset_by_sectorid 4294967295 = 4096 * (33818635 + 2 ^ 32)"
  by (simp add: psync_fs_crypto_data_sectorid_by_sectorid_def psync_fs_crypto_data_offset_by_sectorid_def
    data_sectorid_loop.simps data_offset_loop.simps wrap32_def wrap64_def)

end
