(* ===== verification/Pfsreplay.thy ===== *)
theory Pfsreplay
  imports Pfasthash Pfslayout
begin

section \<open>Replaying the log of an encrypted file (pfscrypto.c)\<close>

text \<open>
  Changes to an encrypted file are first written to a log file: a sector for a master record, then
  records with bytes for the data file and, for files that exist remotely, the changed intervals for the
  index file. A finished log is replayed to the data file, again after a crash. A file is the list of its
  bytes; every file operation takes the next entry of a list of \<open>faults\<close> that says how it ends
  (an empty list: all succeed). \<open>None\<close> as a result is a failing assertion, which ends the program.
\<close>

subsection \<open>Files\<close>

type_synonym file_bytes = "byte list"

datatype fault = Full | Short nat | Fail

type_synonym faults = "fault list"

definition next_fault :: "faults \<Rightarrow> fault \<times> faults" where
  "next_fault fs = (case fs of [] \<Rightarrow> (Full, []) | f # fs \<Rightarrow> (f, fs))"

definition file_write :: "nat \<Rightarrow> byte list \<Rightarrow> file_bytes \<Rightarrow> file_bytes" where
  "file_write off data f =
     (if data = [] then f else take off (f @ replicate (off - length f) 0) @ data @ drop (off + length data) f)"

definition file_set_size :: "nat \<Rightarrow> file_bytes \<Rightarrow> file_bytes" where
  "file_set_size n f = take n f @ replicate (n - length f) 0"

text \<open>A short read or write transfers some bytes, but not all that were asked for.\<close>

definition psync_file_pread :: "file_bytes \<Rightarrow> nat \<Rightarrow> nat \<Rightarrow> faults \<Rightarrow> int \<times> byte list \<times> faults" where
  "psync_file_pread f cnt off fs =
     (case next_fault fs of
        (Full, fs) \<Rightarrow> (let data = take cnt (drop off f) in (int (length data), data, fs))
      | (Short n, fs) \<Rightarrow> (let data = take (min (Suc n) cnt) (drop off f) in (int (length data), data, fs))
      | (Fail, fs) \<Rightarrow> (-1, [], fs))"

definition psync_file_pwrite :: "file_bytes \<Rightarrow> byte list \<Rightarrow> nat \<Rightarrow> faults \<Rightarrow> int \<times> file_bytes \<times> faults" where
  "psync_file_pwrite f data off fs =
     (case next_fault fs of
        (Full, fs) \<Rightarrow> (int (length data), file_write off data f, fs)
      | (Short n, fs) \<Rightarrow> (let data = take n data in (int (length data), file_write off data f, fs))
      | (Fail, fs) \<Rightarrow> (-1, f, fs))"

definition psync_file_size :: "file_bytes \<Rightarrow> faults \<Rightarrow> int \<times> faults" where
  "psync_file_size f fs = (case next_fault fs of (Fail, fs) \<Rightarrow> (-1, fs) | (_, fs) \<Rightarrow> (int (length f), fs))"

text \<open>Seeking to a position and cutting the file there: true if either fails.\<close>

definition seek_truncate :: "file_bytes \<Rightarrow> nat \<Rightarrow> faults \<Rightarrow> bool \<times> file_bytes \<times> faults" where
  "seek_truncate f off fs =
     (case next_fault fs of
        (Fail, fs) \<Rightarrow> (True, f, fs)
      | (_, fs) \<Rightarrow> (case next_fault fs of (Fail, fs) \<Rightarrow> (True, f, fs) | (_, fs) \<Rightarrow> (False, file_set_size off f, fs)))"

subsection \<open>Records\<close>

abbreviation PSYNC_CRYPTO_LOG_DATA :: nat where "PSYNC_CRYPTO_LOG_DATA \<equiv> 1"
abbreviation PSYNC_CRYPTO_LOG_INT :: nat where "PSYNC_CRYPTO_LOG_INT \<equiv> 2"
abbreviation PSYNC_LOG_STATUS_FINALIZED :: nat where "PSYNC_LOG_STATUS_FINALIZED \<equiv> 1"
abbreviation PSYNC_LOG_HASHID_FH256 :: nat where "PSYNC_LOG_HASHID_FH256 \<equiv> 0"
abbreviation LOG_START :: nat where "LOG_START \<equiv> 4096"

text \<open>The unions of the header: \<open>length\<close> is also the high part of a long length.\<close>

record log_header =
  htype :: nat
  finalized :: nat
  hlength :: nat
  longlengthlo :: nat
  hoffset :: nat

definition header_bytes :: "log_header \<Rightarrow> byte list" where
  "header_bytes h = le_bytes 1 (htype h) @ le_bytes 1 (finalized h) @ le_bytes 2 (hlength h) @ le_bytes 4 (longlengthlo h) @ le_bytes 8 (hoffset h)"

definition header_of :: "byte list \<Rightarrow> log_header" where
  "header_of bs = \<lparr>htype = le_val (take 1 bs), finalized = le_val (take 1 (drop 1 bs)), hlength = le_val (take 2 (drop 2 bs)),
     longlengthlo = le_val (take 4 (drop 4 bs)), hoffset = le_val (take 8 (drop 8 bs))\<rparr>"

record master_record =
  mstatus :: nat
  mhashid :: nat
  mlogsize :: nat
  mfilesize :: nat
  mhash :: "byte list"
  mcrc :: nat

text \<open>Without and with the checksum at the end; the compiler pads the structure to 64 bytes.\<close>

definition master_prefix :: "master_record \<Rightarrow> byte list" where
  "master_prefix mr = le_bytes 4 (mstatus mr) @ le_bytes 4 (mhashid mr) @ le_bytes 8 (mlogsize mr) @ le_bytes 8 (mfilesize mr) @ mhash mr"

definition master_bytes :: "byte list \<Rightarrow> master_record \<Rightarrow> byte list" where
  "master_bytes padding mr = master_prefix mr @ le_bytes 4 (mcrc mr) @ padding"

definition master_of :: "byte list \<Rightarrow> master_record" where
  "master_of bs = \<lparr>mstatus = le_val (take 4 bs), mhashid = le_val (take 4 (drop 4 bs)), mlogsize = le_val (take 8 (drop 8 bs)),
     mfilesize = le_val (take 8 (drop 16 bs)), mhash = take 32 (drop 24 bs), mcrc = le_val (take 4 (drop 56 bs))\<rparr>"

subsection \<open>Checking and replaying a log\<close>

text \<open>How checksums are computed: the instructions, whether they are used, and where buffers lie.\<close>

record hash_env =
  ins8 :: crc_hw8
  ins64 :: crc_hw64
  has_ins :: bool
  hashw :: nat
  buff_addr :: nat
  stack_junk :: "byte list"

definition fh_init :: "hash_env \<Rightarrow> fast_hash256_ctx" where
  "fh_init env = psync_fast_hash256_init (stack_junk env)"

definition fh_update :: "hash_env \<Rightarrow> fast_hash256_ctx \<Rightarrow> byte list \<Rightarrow> fast_hash256_ctx" where
  "fh_update env = psync_fast_hash256_update (ins64 env) (hashw env)"

definition fh_final :: "hash_env \<Rightarrow> fast_hash256_ctx \<Rightarrow> byte list" where
  "fh_final env = psync_fast_hash256_final (ins64 env) (hashw env)"

definition crc_of :: "hash_env \<Rightarrow> byte list \<Rightarrow> nat" where
  "crc_of env bs = unat (snd (psync_crc32c (ins8 env) (ins64 env) (has_ins env) (hashw env) (buff_addr env) 0 bs))"

function check_hash_loop :: "hash_env \<Rightarrow> file_bytes \<Rightarrow> nat \<Rightarrow> fast_hash256_ctx \<Rightarrow> faults \<Rightarrow> fast_hash256_ctx option \<times> faults" where
  "check_hash_loop env lfd off ctx fs =
     (case psync_file_pread lfd PSYNC_CRYPTO_SECTOR_SIZE off fs of (rd, buff, fs) \<Rightarrow>
        if rd = 0 then (Some ctx, fs)
        else if rd = -1 then (None, fs)
        else check_hash_loop env lfd (off + nat rd) (fh_update env ctx buff) fs)"
  by auto


lemma pread_progress:
  "psync_file_pread f cnt off fs = (rd, buff, fs') \<Longrightarrow> rd \<noteq> -1 \<Longrightarrow>
     rd = int (length buff) \<and> buff = take (length buff) (drop off f) \<and> length buff \<le> cnt \<and> length buff \<le> length f - off"
  by (auto simp: psync_file_pread_def Let_def min_def split: fault.splits prod.splits)

lemma pread_advances:
  "psync_file_pread f cnt off fs = (rd, buff, fs') \<Longrightarrow> rd \<noteq> -1 \<Longrightarrow> rd \<noteq> 0 \<Longrightarrow> length f - (off + nat rd) < length f - off"
proof -
  assume "psync_file_pread f cnt off fs = (rd, buff, fs')" "rd \<noteq> -1" "rd \<noteq> 0"
  then have "rd = int (length buff)" "length buff \<le> length f - off" using pread_progress [of f cnt off fs rd buff fs'] by simp_all
  then have "0 < nat rd" "nat rd \<le> length f - off" using \<open>rd \<noteq> 0\<close> by simp_all
  then show ?thesis by linarith
qed

termination check_hash_loop
  by (relation "measure (\<lambda>(env, lfd, off, ctx, fs). length lfd - off)") (auto dest!: sym [of "(_, _, _)"] dest: pread_advances)

definition psync_fs_crypto_check_log_hash :: "hash_env \<Rightarrow> file_bytes \<Rightarrow> master_record \<Rightarrow> faults \<Rightarrow> int \<times> faults" where
  "psync_fs_crypto_check_log_hash env lfd mr fs =
     (if mhashid mr \<noteq> PSYNC_LOG_HASHID_FH256 then (-1, fs)
      else
        (case check_hash_loop env lfd LOG_START (fh_init env) fs of
           (None, fs) \<Rightarrow> (-1, fs)
         | (Some ctx, fs) \<Rightarrow> (if fh_final env ctx \<noteq> mhash mr then -1 else 0, fs)))"

record replay =
  rdfd :: file_bytes
  rifd :: "file_bytes option"
  rrecs :: "(nat \<times> nat) list"
  rioff :: nat

abbreviation INDEX_HEADER_SIZE :: nat where "INDEX_HEADER_SIZE \<equiv> 0"
abbreviation INDEX_RECORD_SIZE :: nat where "INDEX_RECORD_SIZE \<equiv> 16"

text \<open>Writing the collected index records; the file handle has been checked.\<close>

definition flush_records :: "replay \<Rightarrow> faults \<Rightarrow> bool \<times> replay \<times> faults" where
  "flush_records st fs =
     (let data = concat (List.map (\<lambda>(off, len). le_bytes 8 off @ le_bytes 8 len) (rrecs st)) in
      case psync_file_pwrite (the (rifd st)) data (INDEX_RECORD_SIZE * rioff st + INDEX_HEADER_SIZE) fs of
        (rd, ifd, fs) \<Rightarrow> (rd = int (INDEX_RECORD_SIZE * length (rrecs st)), st\<lparr>rifd := Some ifd\<rparr>, fs))"

function process_records :: "file_bytes \<Rightarrow> nat \<Rightarrow> nat \<Rightarrow> replay \<Rightarrow> faults \<Rightarrow> int option \<times> replay \<times> faults" where
  "process_records lfd fsize off st fs =
     (case psync_file_pread lfd 16 off fs of (rd, hb, fs) \<Rightarrow>
        if rd = 0 then (Some 0, st, fs)
        else if rd \<noteq> 16 then (Some (-1), st, fs)
        else
          (let hdr = header_of hb; off = off + 16 in
           if htype hdr = PSYNC_CRYPTO_LOG_DATA then
             (if hlength hdr > PSYNC_CRYPTO_SECTOR_SIZE \<or> rrecs st \<noteq> [] then (None, st, fs)
              else if wrap64 (hoffset hdr + hlength hdr) > fsize then process_records lfd fsize (off + hlength hdr) st fs
              else
                (case psync_file_pread lfd (hlength hdr) off fs of (rd, buff, fs) \<Rightarrow>
                   if rd \<noteq> int (hlength hdr) then (Some (-1), st, fs)
                   else
                     (case psync_file_pwrite (rdfd st) buff (hoffset hdr) fs of (rd, dfd, fs) \<Rightarrow>
                        if rd \<noteq> int (hlength hdr) then (Some (-1), st\<lparr>rdfd := dfd\<rparr>, fs)
                        else process_records lfd fsize (off + hlength hdr) (st\<lparr>rdfd := dfd\<rparr>) fs)))
           else if htype hdr = PSYNC_CRYPTO_LOG_INT then
             (if rifd st = None then (None, st, fs)
              else
                (let st = st\<lparr>rrecs := rrecs st @ [(hoffset hdr, longlengthlo hdr + hlength hdr * 2 ^ 32)]\<rparr> in
                 if length (rrecs st) \<ge> PSYNC_CRYPTO_SECTOR_SIZE div INDEX_RECORD_SIZE then
                   (case flush_records st fs of (ok, st, fs) \<Rightarrow>
                      if \<not> ok then (Some (-1), st, fs)
                      else process_records lfd fsize off (st\<lparr>rioff := rioff st + length (rrecs st), rrecs := []\<rparr>) fs)
                 else process_records lfd fsize off st fs))
           else (Some (-1), st, fs)))"
  by auto

lemma read_header_advances:
  "psync_file_pread f cnt off fs = (16, buff, fs') \<Longrightarrow> length f - (off + 16 + k) < length f - off"
  using pread_advances [of f cnt off fs 16 buff fs'] by simp

termination process_records
  by (relation "measure (\<lambda>(lfd, fsize, off, st, fs). length lfd - off)") (auto dest!: sym [of "(_, _, _)"] dest: read_header_advances [where k = 0] read_header_advances)

declare check_hash_loop.simps [simp del] process_records.simps [simp del]

text \<open>The checks before anything is written, and the writing.\<close>

definition process_log_check :: "hash_env \<Rightarrow> file_bytes \<Rightarrow> bool \<Rightarrow> faults \<Rightarrow> master_record option \<times> faults" where
  "process_log_check env lfd checkhash fs =
     (case psync_file_pread lfd 64 0 fs of (rd, mb, fs) \<Rightarrow>
        (let mr = master_of mb in
         if rd \<noteq> 64 \<or> mstatus mr \<noteq> PSYNC_LOG_STATUS_FINALIZED then (None, fs)
         else
           (case psync_file_size lfd fs of (lsize, fs) \<Rightarrow>
              if int (mlogsize mr) \<noteq> lsize mod 2 ^ 64 \<or> mcrc mr \<noteq> crc_of env (take 56 mb) then (None, fs)
              else if checkhash then
                (case psync_fs_crypto_check_log_hash env lfd mr fs of (rc, fs) \<Rightarrow> (if rc \<noteq> 0 then None else Some mr, fs))
              else (Some mr, fs))))"

definition seek_truncate_index :: "file_bytes option \<Rightarrow> faults \<Rightarrow> bool \<times> file_bytes option \<times> faults" where
  "seek_truncate_index ifd fs =
     (case ifd of None \<Rightarrow> (False, None, fs)
      | Some f \<Rightarrow> (case seek_truncate f INDEX_HEADER_SIZE fs of (bad, f, fs) \<Rightarrow> (bad, Some f, fs)))"

definition process_log_replay :: "file_bytes \<Rightarrow> nat \<Rightarrow> file_bytes \<Rightarrow> file_bytes option \<Rightarrow> faults \<Rightarrow> int option \<times> file_bytes \<times> file_bytes option \<times> faults" where
  "process_log_replay lfd fsize dfd ifd fs =
     (case process_records lfd fsize LOG_START \<lparr>rdfd = dfd, rifd = ifd, rrecs = [], rioff = 0\<rparr> fs of (rc, st, fs) \<Rightarrow>
        if rc \<noteq> Some 0 then (rc, rdfd st, rifd st, fs)
        else
          (case (if rrecs st \<noteq> [] then flush_records st fs else (True, st, fs)) of (ok, st, fs) \<Rightarrow>
             if \<not> ok then (Some (-1), rdfd st, rifd st, fs)
             else
               (case seek_truncate (rdfd st) fsize fs of (bad, dfd, fs) \<Rightarrow>
                  (Some (if bad then -1 else 0), dfd, rifd st, fs))))"

definition psync_fs_crypto_process_log ::
  "hash_env \<Rightarrow> file_bytes \<Rightarrow> file_bytes \<Rightarrow> file_bytes option \<Rightarrow> bool \<Rightarrow> faults \<Rightarrow> int option \<times> file_bytes \<times> file_bytes option \<times> faults" where
  "psync_fs_crypto_process_log env lfd dfd ifd checkhash fs =
     (case process_log_check env lfd checkhash fs of
        (None, fs) \<Rightarrow> (Some (-1), dfd, ifd, fs)
      | (Some mr, fs) \<Rightarrow>
          (case seek_truncate dfd (mfilesize mr) fs of (bad, dfd, fs) \<Rightarrow>
             if bad then (Some (-1), dfd, ifd, fs)
             else
               (case seek_truncate_index ifd fs of (bad, ifd, fs) \<Rightarrow>
                  if bad then (Some (-1), dfd, ifd, fs)
                  else process_log_replay lfd (mfilesize mr) dfd ifd fs)))"


subsection \<open>Replaying again\<close>

text \<open>The byte of a file at a position, if the file is that long.\<close>

definition byte_at :: "file_bytes \<Rightarrow> nat \<Rightarrow> byte option" where
  "byte_at f p = (if p < length f then Some (f ! p) else None)"

lemma file_eqI: "(\<And>p. byte_at f p = byte_at g p) \<Longrightarrow> f = g"
proof (rule nth_equalityI)
  assume eq: "\<And>p. byte_at f p = byte_at g p"
  show len: "length f = length g"
    using eq [of "length f"] eq [of "length g"] by (auto simp: byte_at_def split: if_splits)
  show "f ! i = g ! i" if "i < length f" for i using that eq [of i] len by (simp add: byte_at_def)
qed

lemma length_file_set_size [simp]: "length (file_set_size n f) = n"
  by (simp add: file_set_size_def)

lemma length_file_write: "length (file_write off data f) = (if data = [] then length f else max (length f) (off + length data))"
  by (auto simp: file_write_def)

text \<open>The writes of a log, as positions and bytes; \<open>covers p\<close> are those that set the byte at \<open>p\<close>.\<close>

type_synonym writes = "(nat \<times> byte list) list"

definition write_all :: "writes \<Rightarrow> file_bytes \<Rightarrow> file_bytes" where
  "write_all ws f = foldl (\<lambda>f (off, data). file_write off data f) f ws"

definition written :: "writes \<Rightarrow> nat \<Rightarrow> bool" where
  "written ws p \<longleftrightarrow> (\<exists>(off, data) \<in> set ws. off \<le> p \<and> p < off + length data)"

lemma byte_at_set_size: "byte_at (file_set_size n f) p = (if p < n then Some (if p < length f then f ! p else 0) else None)"
  by (auto simp: byte_at_def file_set_size_def nth_append)

lemma file_write_nth:
  "p < length (file_write off data f) \<Longrightarrow> file_write off data f ! p =
     (if off \<le> p \<and> p < off + length data then data ! (p - off) else if p < length f then f ! p else 0)"
  by (auto simp: file_write_def nth_append min_def)

lemma write_all_simps [simp]:
  "write_all [] f = f" "write_all (w # ws) f = write_all ws (file_write (fst w) (snd w) f)"
  "write_all (ws @ vs) f = write_all vs (write_all ws f)"
  by (simp_all add: write_all_def case_prod_beta)

lemma written_simps [simp]:
  "\<not> written [] p" "written (w # ws) p \<longleftrightarrow> (fst w \<le> p \<and> p < fst w + length (snd w)) \<or> written ws p"
  by (auto simp: written_def)

text \<open>Two files that agree where nothing is written are the same once everything is.\<close>

lemma write_all_absorbs:
  assumes "length f = length g" and "\<And>p. p < length f \<Longrightarrow> \<not> written ws p \<Longrightarrow> f ! p = g ! p"
  shows "write_all ws f = write_all ws g"
  using assms
proof (induction ws arbitrary: f g)
  case Nil
  then show ?case by (simp add: nth_equalityI)
next
  case (Cons w ws)
  let ?f = "file_write (fst w) (snd w) f" and ?g = "file_write (fst w) (snd w) g"
  have len: "length ?f = length ?g" using Cons.prems(1) by (simp add: length_file_write)
  have "?f ! p = ?g ! p" if "p < length ?f" "\<not> written ws p" for p
    using that Cons.prems len by (simp add: file_write_nth)
  then show ?case using Cons.IH [OF len] by simp
qed

lemma write_all_untouched:
  "p < length f \<Longrightarrow> \<not> written ws p \<Longrightarrow> p < length (write_all ws f) \<and> write_all ws f ! p = f ! p"
proof (induction ws arbitrary: f)
  case (Cons w ws)
  let ?f = "file_write (fst w) (snd w) f"
  have "p < length ?f" using Cons.prems(1) by (auto simp: length_file_write)
  then show ?case using Cons.IH [of ?f] Cons.prems by (auto simp: file_write_nth)
qed simp

text \<open>Whatever part of the writes was done before, and whether or not the size was set in between.\<close>

lemma write_all_again:
  assumes "\<And>p. written vs p \<Longrightarrow> written ws p"
  shows "write_all ws (file_set_size n (write_all vs (file_set_size n f))) = write_all ws (file_set_size n f)"
proof (rule write_all_absorbs)
  fix p
  assume p: "p < length (file_set_size n (write_all vs (file_set_size n f)))" "\<not> written ws p"
  then have "\<not> written vs p" using assms by blast
  then have u: "p < length (write_all vs (file_set_size n f))" "write_all vs (file_set_size n f) ! p = file_set_size n f ! p"
    using p(1) write_all_untouched [of p "file_set_size n f" vs] by simp_all
  have "byte_at (file_set_size n (write_all vs (file_set_size n f))) p = Some (write_all vs (file_set_size n f) ! p)"
    using p(1) u(1) by (simp add: byte_at_set_size)
  then show "file_set_size n (write_all vs (file_set_size n f)) ! p = file_set_size n f ! p"
    using p(1) u(2) by (simp add: byte_at_def split: if_splits)
qed simp

lemma file_set_size_idem [simp]: "file_set_size n (file_set_size n f) = file_set_size n f"
  by (simp add: file_set_size_def)


text \<open>The writes to the data file of a replay in which no file operation fails: read off the log.\<close>

function log_writes :: "file_bytes \<Rightarrow> nat \<Rightarrow> nat \<Rightarrow> nat \<Rightarrow> bool \<Rightarrow> writes" where
  "log_writes lfd fsize off k indexed =
     (let hb = take 16 (drop off lfd); hdr = header_of hb; off' = off + 16; buff = take (hlength hdr) (drop off' lfd) in
      if length hb \<noteq> 16 then []
      else if htype hdr = PSYNC_CRYPTO_LOG_DATA then
        (if hlength hdr > PSYNC_CRYPTO_SECTOR_SIZE \<or> k \<noteq> 0 then []
         else if wrap64 (hoffset hdr + hlength hdr) > fsize then log_writes lfd fsize (off' + hlength hdr) k indexed
         else if length buff \<noteq> hlength hdr then []
         else (hoffset hdr, buff) # log_writes lfd fsize (off' + hlength hdr) k indexed)
      else if htype hdr = PSYNC_CRYPTO_LOG_INT then
        (if \<not> indexed then []
         else log_writes lfd fsize off' (if k + 1 \<ge> PSYNC_CRYPTO_SECTOR_SIZE div INDEX_RECORD_SIZE then 0 else k + 1) indexed)
      else [])"
  by auto
termination by (relation "measure (\<lambda>(lfd, fsize, off, k, indexed). length lfd - off)") auto

declare log_writes.simps [simp del]

lemma pread_Full [simp]: "psync_file_pread f cnt off [] = (int (length (take cnt (drop off f))), take cnt (drop off f), [])"
  by (simp add: psync_file_pread_def next_fault_def Let_def)

lemma pwrite_Full [simp]: "psync_file_pwrite f data off [] = (int (length data), file_write off data f, [])"
  by (simp add: psync_file_pwrite_def next_fault_def)

lemma file_write_Nil [simp]: "file_write off [] f = f"
  by (simp add: file_write_def)

lemma pread_all:
  "psync_file_pread f cnt off fs = (int cnt, buff, fs') \<Longrightarrow> buff = take cnt (drop off f) \<and> length (take cnt (drop off f)) = cnt"
  using pread_progress [of f cnt off fs "int cnt" buff fs'] by auto

lemma pwrite_part:
  "psync_file_pwrite f data off fs = (rd, f', fs') \<Longrightarrow> \<exists>n. f' = file_write off (take n data) f \<and> (rd = int (length data) \<longrightarrow> take n data = data)"
proof -
  assume w: "psync_file_pwrite f data off fs = (rd, f', fs')"
  consider "fst (next_fault fs) = Full" | n where "fst (next_fault fs) = Short n" | "fst (next_fault fs) = Fail"
    by (cases "fst (next_fault fs)") auto
  then show ?thesis
  proof cases
    case 1
    then show ?thesis using w by (intro exI [of _ "length data"]) (auto simp: psync_file_pwrite_def split: prod.splits)
  next
    case 2
    then show ?thesis using w by (intro exI [of _ n]) (auto simp: psync_file_pwrite_def Let_def split: prod.splits)
  next
    case 3
    then show ?thesis using w by (intro exI [of _ 0]) (auto simp: psync_file_pwrite_def split: prod.splits)
  qed
qed

lemma flush_records_state:
  "flush_records st fs = (ok, st', fs') \<Longrightarrow> rdfd st' = rdfd st \<and> rrecs st' = rrecs st \<and> rioff st' = rioff st \<and> rifd st' \<noteq> None"
  by (auto simp: flush_records_def Let_def split: prod.splits)

lemma log_writes_end: "length (take 16 (drop off lfd)) \<noteq> 16 \<Longrightarrow> log_writes lfd fsize off k indexed = []"
  by (subst log_writes.simps) (simp only: Let_def if_True not_False_eq_True)

lemma log_writes_bad:
  assumes "take 16 (drop off lfd) = hb" "length hb = 16" "header_of hb = hdr"
    and "htype hdr \<noteq> PSYNC_CRYPTO_LOG_DATA \<and> htype hdr \<noteq> PSYNC_CRYPTO_LOG_INT
      \<or> htype hdr = PSYNC_CRYPTO_LOG_DATA \<and> (hlength hdr > PSYNC_CRYPTO_SECTOR_SIZE \<or> k \<noteq> 0
          \<or> \<not> wrap64 (hoffset hdr + hlength hdr) > fsize \<and> length (take (hlength hdr) (drop (off + 16) lfd)) \<noteq> hlength hdr)
      \<or> htype hdr = PSYNC_CRYPTO_LOG_INT \<and> \<not> indexed"
  shows "log_writes lfd fsize off k indexed = []"
  using assms by (subst log_writes.simps) (auto simp: Let_def)

lemma log_writes_data:
  assumes "take 16 (drop off lfd) = hb" "length hb = 16" "header_of hb = hdr" "htype hdr = PSYNC_CRYPTO_LOG_DATA"
    "\<not> hlength hdr > PSYNC_CRYPTO_SECTOR_SIZE"
  shows "wrap64 (hoffset hdr + hlength hdr) > fsize \<Longrightarrow>
      log_writes lfd fsize off 0 indexed = log_writes lfd fsize (off + 16 + hlength hdr) 0 indexed"
    "\<not> wrap64 (hoffset hdr + hlength hdr) > fsize \<Longrightarrow> take (hlength hdr) (drop (off + 16) lfd) = buff \<Longrightarrow> length buff = hlength hdr \<Longrightarrow>
      log_writes lfd fsize off 0 indexed = (hoffset hdr, buff) # log_writes lfd fsize (off + 16 + hlength hdr) 0 indexed"
  using assms by (simp_all add: log_writes.simps [of _ _ off] Let_def)

lemma log_writes_int:
  assumes "take 16 (drop off lfd) = hb" "length hb = 16" "header_of hb = hdr" "htype hdr = PSYNC_CRYPTO_LOG_INT"
  shows "log_writes lfd fsize off k True =
    log_writes lfd fsize (off + 16) (if k + 1 \<ge> PSYNC_CRYPTO_SECTOR_SIZE div INDEX_RECORD_SIZE then 0 else k + 1) True"
  using assms by (simp add: log_writes.simps [of _ _ off] Let_def)

text \<open>A replay with any faults writes a part of what a replay without faults writes.\<close>

definition replayed :: "file_bytes \<Rightarrow> nat \<Rightarrow> nat \<Rightarrow> replay \<Rightarrow> replay \<Rightarrow> bool" where
  "replayed lfd fsize off st st' \<longleftrightarrow>
     (\<exists>vs. rdfd st' = write_all vs (rdfd st) \<and> (\<forall>p. written vs p \<longrightarrow> written (log_writes lfd fsize off (length (rrecs st)) (rifd st \<noteq> None)) p)) \<and>
     (rifd st' = None \<longleftrightarrow> rifd st = None) \<and> (rifd st = None \<longrightarrow> rrecs st' = rrecs st)"

lemma replayed_same:
  "rdfd st' = rdfd st \<Longrightarrow> rifd st' = None \<longleftrightarrow> rifd st = None \<Longrightarrow> (rifd st = None \<longrightarrow> rrecs st' = rrecs st) \<Longrightarrow> replayed lfd fsize off st st'"
  unfolding replayed_def by (intro conjI exI [of _ "[]"]) simp_all

lemma replayed_step:
  assumes "replayed lfd fsize off2 st2 st'" "rdfd st2 = rdfd st" "rifd st2 = None \<longleftrightarrow> rifd st = None" "rifd st = None \<longrightarrow> rrecs st2 = rrecs st"
    "log_writes lfd fsize off (length (rrecs st)) (rifd st \<noteq> None) = log_writes lfd fsize off2 (length (rrecs st2)) (rifd st2 \<noteq> None)"
  shows "replayed lfd fsize off st st'"
  using assms unfolding replayed_def by simp

lemma replayed_write:
  assumes "replayed lfd fsize off2 (st\<lparr>rdfd := file_write woff data (rdfd st)\<rparr>) st'"
    "log_writes lfd fsize off (length (rrecs st)) (rifd st \<noteq> None) = (woff, data) # log_writes lfd fsize off2 (length (rrecs st)) (rifd st \<noteq> None)"
  shows "replayed lfd fsize off st st'"
proof -
  obtain vs where "rdfd st' = write_all vs (file_write woff data (rdfd st))"
    "\<forall>p. written vs p \<longrightarrow> written (log_writes lfd fsize off2 (length (rrecs st)) (rifd st \<noteq> None)) p" "rifd st' = None \<longleftrightarrow> rifd st = None" "rifd st = None \<longrightarrow> rrecs st' = rrecs st"
    using assms(1) by (auto simp: replayed_def)
  then show ?thesis unfolding replayed_def assms(2) by (intro conjI exI [of _ "(woff, data) # vs"]) auto
qed

lemma replayed_part:
  assumes "log_writes lfd fsize off (length (rrecs st)) (rifd st \<noteq> None) = (woff, data) # ws"
  shows "replayed lfd fsize off st (st\<lparr>rdfd := file_write woff (take n data) (rdfd st)\<rparr>)"
  unfolding replayed_def assms by (intro conjI exI [of _ "[(woff, take n data)]"]) auto

lemma process_records_replayed:
  "process_records lfd fsize off st fs = (rc, st', fs') \<Longrightarrow> replayed lfd fsize off st st'"
proof (induction "length lfd - off" arbitrary: off st fs rule: less_induct)
  case less
  obtain rd hb fs1 where h: "psync_file_pread lfd 16 off fs = (rd, hb, fs1)" using prod_cases3 by blast
  define hdr where "hdr = header_of hb"
  show ?case
  proof (cases "rd = 16")
    case False
    then have "st' = st" using less(2) h by (auto simp: process_records.simps [of lfd fsize off st fs] split: if_splits)
    then show ?thesis by (simp add: replayed_same)
  next
    case True
    then have hb: "take 16 (drop off lfd) = hb" "length hb = 16" using pread_all [of lfd 16 off fs hb fs1] h by simp_all
    have adv: "length lfd - (off + 16 + k) < length lfd - off" for k using read_header_advances [of lfd 16 off fs hb fs1 k] h True by simp
    have "length lfd - (off + 16) < length lfd - off" using adv [of 0] by simp
    note ih = less(1) [OF adv] less(1) [OF this]
    note run = less(2) [unfolded process_records.simps [of lfd fsize off st fs] h prod.case True Let_def hdr_def [symmetric], simplified]
    consider (bad) "htype hdr \<noteq> PSYNC_CRYPTO_LOG_DATA" "htype hdr \<noteq> PSYNC_CRYPTO_LOG_INT"
      | (data) "htype hdr = PSYNC_CRYPTO_LOG_DATA" | (int) "htype hdr = PSYNC_CRYPTO_LOG_INT" by blast
    then show ?thesis
    proof cases
      case bad
      then have "st' = st" using run by simp
      then show ?thesis by (simp add: replayed_same)
    next
      case data
      consider (assertion) "hlength hdr > PSYNC_CRYPTO_SECTOR_SIZE \<or> rrecs st \<noteq> []"
        | (skip) "\<not> hlength hdr > PSYNC_CRYPTO_SECTOR_SIZE" "rrecs st = []" "wrap64 (hoffset hdr + hlength hdr) > fsize"
        | (store) "\<not> hlength hdr > PSYNC_CRYPTO_SECTOR_SIZE" "rrecs st = []" "\<not> wrap64 (hoffset hdr + hlength hdr) > fsize" by blast
      then show ?thesis
      proof cases
        case assertion
        then have "st' = st" using run data by (auto split: if_splits)
        then show ?thesis by (simp add: replayed_same)
      next
        case skip
        then have "process_records lfd fsize (off + 16 + hlength hdr) st fs1 = (rc, st', fs')" using run data by simp
        then show ?thesis
          using replayed_step [OF ih(1) refl refl impI [OF refl]] log_writes_data(1) [OF hb hdr_def [symmetric] data skip(1,3)] skip(2) by simp
      next
        case store
        obtain rd2 buff fs2 where r: "psync_file_pread lfd (hlength hdr) (off + 16) fs1 = (rd2, buff, fs2)" using prod_cases3 by blast
        obtain rd3 dfd fs3 where w: "psync_file_pwrite (rdfd st) buff (hoffset hdr) fs2 = (rd3, dfd, fs3)" using prod_cases3 by blast
        show ?thesis
        proof (cases "rd2 = int (hlength hdr)")
          case False
          then have "st' = st" using run data store r by simp
          then show ?thesis by (simp add: replayed_same)
        next
          case rd2: True
          then have buff: "take (hlength hdr) (drop (off + 16) lfd) = buff" "length buff = hlength hdr"
            using pread_all [of lfd "hlength hdr" "off + 16" fs1 buff fs2] r by simp_all
          have ws: "log_writes lfd fsize off (length (rrecs st)) (rifd st \<noteq> None) =
              (hoffset hdr, buff) # log_writes lfd fsize (off + 16 + hlength hdr) (length (rrecs st)) (rifd st \<noteq> None)"
            using log_writes_data(2) [OF hb hdr_def [symmetric] data store(1,3) buff] store(2) by simp
          obtain n where n: "dfd = file_write (hoffset hdr) (take n buff) (rdfd st)" "rd3 = int (length buff) \<longrightarrow> take n buff = buff"
            using pwrite_part [OF w] by blast
          show ?thesis
          proof (cases "rd3 = int (hlength hdr)")
            case False
            then have "st' = st\<lparr>rdfd := dfd\<rparr>" using run data store r rd2 w by simp
            then show ?thesis using replayed_part [OF ws] n(1) by simp
          next
            case True
            then have "process_records lfd fsize (off + 16 + hlength hdr) (st\<lparr>rdfd := file_write (hoffset hdr) buff (rdfd st)\<rparr>) fs3 = (rc, st', fs')"
              using run data store r rd2 w n buff(2) by simp
            then show ?thesis by (rule replayed_write [OF ih(1) ws])
          qed
        qed
      qed
    next
      case int
      show ?thesis
      proof (cases "rifd st = None")
        case True
        then have "st' = st" using run int by simp
        then show ?thesis by (simp add: replayed_same)
      next
        case index: False
        define st1 where "st1 = st\<lparr>rrecs := rrecs st @ [(hoffset hdr, longlengthlo hdr + hlength hdr * 2 ^ 32)]\<rparr>"
        have ws: "log_writes lfd fsize off (length (rrecs st)) (rifd st \<noteq> None) =
            log_writes lfd fsize (off + 16) (if length (rrecs st1) \<ge> 256 then 0 else length (rrecs st1)) (rifd st \<noteq> None)"
          using log_writes_int [OF hb hdr_def [symmetric] int] index by (simp add: st1_def)
        show ?thesis
        proof (cases "length (rrecs st1) \<ge> 256")
          case False
          then have "process_records lfd fsize (off + 16) st1 fs1 = (rc, st', fs')" using run int index by (simp add: st1_def)
          then have r: "replayed lfd fsize (off + 16) st1 st'" by (rule ih(2))
          show ?thesis by (rule replayed_step [OF r]) (use ws False index in \<open>auto simp: st1_def\<close>)
        next
          case True
          obtain ok st2 fs2 where fl: "flush_records st1 fs1 = (ok, st2, fs2)" using prod_cases3 by blast
          note same = flush_records_state [OF fl]
          show ?thesis
          proof (cases ok)
            case False
            then have "st' = st2" using run int index True fl by (simp add: st1_def)
            then show ?thesis using same index by (intro replayed_same) (auto simp: st1_def)
          next
            case ok: True
            define st3 where "st3 = st2\<lparr>rioff := rioff st2 + length (rrecs st2), rrecs := []\<rparr>"
            have "process_records lfd fsize (off + 16) st3 fs2 = (rc, st', fs')"
              using run int index True fl ok by (simp add: st1_def st3_def)
            then have r: "replayed lfd fsize (off + 16) st3 st'" by (rule ih(2))
            show ?thesis by (rule replayed_step [OF r]) (use ws True same index in \<open>auto simp: st1_def st3_def\<close>)
          qed
        qed
      qed
    qed
  qed
qed


lemma le_val_replicate_0: "le_val (replicate n 0) = 0"
  by (induction n) simp_all

lemma index_bytes_length: "length (concat (List.map (\<lambda>(off, len). le_bytes 8 off @ le_bytes 8 len) xs)) = 16 * length xs"
  by (induction xs) auto

text \<open>Without faults it writes all of it, whatever is in the data file.\<close>

lemma process_records_all:
  "process_records lfd fsize off st [] = (rc, st', fs') \<Longrightarrow>
     process_records lfd fsize off (st\<lparr>rdfd := d\<rparr>) [] =
       (rc, st'\<lparr>rdfd := write_all (log_writes lfd fsize off (length (rrecs st)) (rifd st \<noteq> None)) d\<rparr>, [])"
proof (induction "length lfd - off" arbitrary: off st d rule: less_induct)
  case less
  define hb where "hb = take 16 (drop off lfd)"
  define hdr where "hdr = header_of hb"
  show ?case
  proof (cases "length hb = 16")
    case False
    have "log_writes lfd fsize off (length (rrecs st)) (rifd st \<noteq> None) = []" using False unfolding hb_def by (rule log_writes_end)
    then show ?thesis
      using less(2) False by (auto simp: process_records.simps [of lfd fsize off] hb_def)
  next
    case True
    note hb = hb_def [symmetric] True
    have adv: "length lfd - (off + 16 + k) < length lfd - off" for k using True by (simp add: hb_def)
    have "length lfd - (off + 16) < length lfd - off" using adv [of 0] by simp
    note ih = less(1) [OF adv] less(1) [OF this]
    note unfold = process_records.simps [of lfd fsize off _ "[]", unfolded pread_Full hb_def [symmetric] prod.case True Let_def hdr_def [symmetric], simplified]
    note run = less(2) [unfolded unfold]
    consider (bad) "htype hdr \<noteq> PSYNC_CRYPTO_LOG_DATA" "htype hdr \<noteq> PSYNC_CRYPTO_LOG_INT"
      | (data) "htype hdr = PSYNC_CRYPTO_LOG_DATA" | (int) "htype hdr = PSYNC_CRYPTO_LOG_INT" by blast
    then show ?thesis
    proof cases
      case bad
      then show ?thesis using run unfold log_writes_bad [OF hb hdr_def [symmetric]] by simp
    next
      case data
      show ?thesis
      proof (cases "hlength hdr > PSYNC_CRYPTO_SECTOR_SIZE \<or> rrecs st \<noteq> []")
        case True
        then show ?thesis using run data log_writes_bad [OF hb hdr_def [symmetric], of "length (rrecs st)" fsize] by (auto simp: unfold)
      next
        case False
        then have r: "rrecs st = []" "\<not> hlength hdr > PSYNC_CRYPTO_SECTOR_SIZE" by simp_all
        define buff where "buff = take (hlength hdr) (drop (off + 16) lfd)"
        consider (skip) "wrap64 (hoffset hdr + hlength hdr) > fsize"
          | (short) "\<not> wrap64 (hoffset hdr + hlength hdr) > fsize" "length buff \<noteq> hlength hdr"
          | (store) "\<not> wrap64 (hoffset hdr + hlength hdr) > fsize" "length buff = hlength hdr" by blast
        then show ?thesis
        proof cases
          case skip
          then have "process_records lfd fsize (off + 16 + hlength hdr) st [] = (rc, st', fs')" using run data r by simp
          from ih(1) [OF this, of d] show ?thesis
            using skip data r log_writes_data(1) [OF hb hdr_def [symmetric] data r(2) skip] by (simp add: unfold)
        next
          case short
          then show ?thesis
            using run data r log_writes_bad [OF hb hdr_def [symmetric], of 0 fsize "rifd st \<noteq> None"] unfolding buff_def by (auto simp: unfold)
        next
          case store
          then have "process_records lfd fsize (off + 16 + hlength hdr) (st\<lparr>rdfd := file_write (hoffset hdr) buff (rdfd st)\<rparr>) [] = (rc, st', fs')"
            using run data r by (simp add: buff_def)
          from ih(1) [OF this, of "file_write (hoffset hdr) buff d"] show ?thesis
            using store data r log_writes_data(2) [OF hb hdr_def [symmetric] data r(2) store(1) buff_def [symmetric] store(2)]
            by (simp add: unfold buff_def)
        qed
      qed
    next
      case int
      show ?thesis
      proof (cases "rifd st")
        case None
        then show ?thesis using run int log_writes_bad [OF hb hdr_def [symmetric], of _ _ False] by (auto simp: unfold)
      next
        case (Some index)
        define st1 where "st1 = st\<lparr>rrecs := rrecs st @ [(hoffset hdr, longlengthlo hdr + hlength hdr * 2 ^ 32)]\<rparr>"
        have d: "st\<lparr>rdfd := d, rrecs := rrecs st @ [(hoffset hdr, longlengthlo hdr + hlength hdr * 4294967296)]\<rparr> = st1\<lparr>rdfd := d\<rparr>"
          by (simp add: st1_def)
        have st1: "length (rrecs st1) = Suc (length (rrecs st))" "rifd st1 = rifd st" by (simp_all add: st1_def)
        have ws: "log_writes lfd fsize off (length (rrecs st)) True =
            log_writes lfd fsize (off + 16) (if length (rrecs st1) \<ge> 256 then 0 else length (rrecs st1)) True"
          using log_writes_int [OF hb hdr_def [symmetric] int] by (simp add: st1_def)
        show ?thesis
        proof (cases "length (rrecs st1) \<ge> 256")
          case False
          then have "process_records lfd fsize (off + 16) st1 [] = (rc, st', fs')" using run int Some by (simp add: st1_def)
          from ih(2) [OF this, of d] show ?thesis using False ws int Some st1 by (simp add: unfold d)
        next
          case True
          obtain st2 where fl: "flush_records st1 [] = (True, st2, [])"
            by (simp add: flush_records_def Let_def index_bytes_length)
          have fld: "flush_records (st1\<lparr>rdfd := d\<rparr>) [] = (True, st2\<lparr>rdfd := d\<rparr>, [])"
            using fl by (auto simp: flush_records_def Let_def index_bytes_length)
          note same = flush_records_state [OF fl]
          define st3 where "st3 = st2\<lparr>rioff := rioff st2 + length (rrecs st2), rrecs := []\<rparr>"
          have d3: "st3\<lparr>rdfd := d\<rparr> = st2\<lparr>rdfd := d, rioff := Suc (rioff st1 + length (rrecs st)), rrecs := []\<rparr>"
            "rrecs st3 = []" "\<exists>y. rifd st3 = Some y" using same st1 by (simp_all add: st3_def)
          have "process_records lfd fsize (off + 16) st3 [] = (rc, st', fs')"
            using run int Some True fl by (simp add: st1_def st3_def)
          from ih(2) [OF this, of d] show ?thesis
            using True ws int Some same fld st1 d3 by (simp add: unfold d)
        qed
      qed
    qed
  qed
qed


subsection \<open>The hash of a log, read with any faults\<close>

definition hash_env_ok :: "hash_env \<Rightarrow> bool" where
  "hash_env_ok env \<longleftrightarrow> crc_hw_ok (ins8 env) (ins64 env) \<and> length (stack_junk env) = PSYNC_FAST_HASH256_BLOCK_LEN"

text \<open>The hash of some bytes, in one go.\<close>

definition fh_hash :: "hash_env \<Rightarrow> byte list \<Rightarrow> byte list" where
  "fh_hash env bs = fh_final env (fh_update env (fh_init env) bs)"

lemma fh_hash_chunks: "hash_env_ok env \<Longrightarrow> fh_final env (foldl (fh_update env) (fh_init env) chunks) = fh_hash env (concat chunks)"
  using hashed_final [of "ins8 env" "ins64 env" "state_of_bytes (table_bytes 0 2 48)" "concat chunks"]
    hashed_updates [of "ins8 env" "ins64 env" _ "[]" "fh_init env"] hashed_init [of "stack_junk env"]
    hashed_updates [of "ins8 env" "ins64 env" _ "[]" "fh_init env" "[concat chunks]"]
  by (auto simp: fh_hash_def fh_final_def fh_update_def fh_init_def hash_env_ok_def)

lemma check_hash_loop_chunks:
  "check_hash_loop env lfd off ctx fs = (Some ctx', fs') \<Longrightarrow> \<exists>chunks. concat chunks = drop off lfd \<and> ctx' = foldl (fh_update env) ctx chunks"
proof (induction "length lfd - off" arbitrary: off ctx fs rule: less_induct)
  case less
  obtain rd buff fs1 where r: "psync_file_pread lfd 4096 off fs = (rd, buff, fs1)" using prod_cases3 by blast
  note run = less(2) [unfolded check_hash_loop.simps [of env lfd off ctx fs] r prod.case]
  consider "rd = 0" | "rd = -1" | "rd \<noteq> 0" "rd \<noteq> -1" by blast
  then show ?case
  proof cases
    case 1
    then have "length buff = 0" using pread_progress [OF r] by simp
    then have "drop off lfd = []" using r 1 by (auto simp: psync_file_pread_def Let_def split: prod.splits fault.splits)
    then show ?thesis using run 1 by (intro exI [of _ "[]"]) simp
  next
    case 2
    then show ?thesis using run by simp
  next
    case 3
    note p = pread_progress [OF r 3(2)]
    have "length lfd - (off + nat rd) < length lfd - off" by (rule pread_advances [OF r 3(2,1)])
    moreover have "check_hash_loop env lfd (off + nat rd) (fh_update env ctx buff) fs1 = (Some ctx', fs')" using run 3 by simp
    ultimately obtain chunks where c: "concat chunks = drop (off + nat rd) lfd" "ctx' = foldl (fh_update env) (fh_update env ctx buff) chunks"
      using less(1) by blast
    have "buff @ drop (off + nat rd) lfd = drop off lfd"
      using p append_take_drop_id [of "length buff" "drop off lfd"] by (simp add: add.commute)
    then show ?thesis using c by (intro exI [of _ "buff # chunks"]) simp
  qed
qed

lemma check_hash_loop_Full: "\<exists>ctx'. check_hash_loop env lfd off ctx [] = (Some ctx', [])"
proof (induction "length lfd - off" arbitrary: off ctx rule: less_induct)
  case less
  show ?case
  proof (cases "off < length lfd")
    case True
    then have "length lfd - (off + length (take 4096 (drop off lfd))) < length lfd - off" by simp
    then show ?thesis using less True by (subst check_hash_loop.simps) auto
  next
    case False
    then show ?thesis by (subst check_hash_loop.simps) simp
  qed
qed

lemma check_log_hash_any:
  assumes "hash_env_ok env" and "psync_fs_crypto_check_log_hash env lfd mr fs = (0, fs')"
  shows "mhashid mr = PSYNC_LOG_HASHID_FH256 \<and> mhash mr = fh_hash env (drop LOG_START lfd)"
proof -
  obtain res fs2 where res: "check_hash_loop env lfd LOG_START (fh_init env) fs = (res, fs2)" by fastforce
  then obtain ctx where ctx: "res = Some ctx" "fh_final env ctx = mhash mr" "mhashid mr = 0"
    using assms(2) by (auto simp: psync_fs_crypto_check_log_hash_def split: if_splits option.splits)
  obtain chunks where "concat chunks = drop LOG_START lfd" "ctx = foldl (fh_update env) (fh_init env) chunks"
    using check_hash_loop_chunks res ctx(1) by blast
  then show ?thesis using fh_hash_chunks [OF assms(1), of chunks] ctx by simp
qed

lemma check_log_hash_Full:
  assumes "hash_env_ok env" and "mhashid mr = PSYNC_LOG_HASHID_FH256" and "mhash mr = fh_hash env (drop LOG_START lfd)"
  shows "psync_fs_crypto_check_log_hash env lfd mr [] = (0, [])"
proof -
  obtain ctx where ctx: "check_hash_loop env lfd LOG_START (fh_init env) [] = (Some ctx, [])" using check_hash_loop_Full by blast
  then obtain chunks where "concat chunks = drop LOG_START lfd" "ctx = foldl (fh_update env) (fh_init env) chunks"
    using check_hash_loop_chunks by blast
  then show ?thesis using fh_hash_chunks [OF assms(1), of chunks] ctx assms by (simp add: psync_fs_crypto_check_log_hash_def)
qed

text \<open>When a log is valid: it is finished, has the size, checksum and (if that is checked) the hash that it says.\<close>

definition log_valid :: "hash_env \<Rightarrow> file_bytes \<Rightarrow> bool \<Rightarrow> bool" where
  "log_valid env lfd checkhash \<longleftrightarrow>
     (let mr = master_of (take 64 lfd) in
      64 \<le> length lfd \<and> mstatus mr = PSYNC_LOG_STATUS_FINALIZED \<and> mlogsize mr = length lfd mod 2 ^ 64 \<and>
      mcrc mr = unat (foldl crc_byte 0 (take 56 lfd)) \<and>
      (checkhash \<longrightarrow> mhashid mr = PSYNC_LOG_HASHID_FH256 \<and> mhash mr = fh_hash env (drop LOG_START lfd)))"

lemma crc_of_bytes: "hash_env_ok env \<Longrightarrow> crc_of env bs = unat (foldl crc_byte 0 bs)"
  using crc32c_hw_bytes [of "ins8 env" "ins64 env"] crc32c_sw_bytes
  by (auto simp: crc_of_def psync_crc32c_def psync_crc32c_init_def Let_def hash_env_ok_def)

lemma master_prefix_bytes: "take k (take 64 lfd) = take (min k 64) lfd"
  by (simp add: min.commute)

lemma log_check_any:
  assumes "hash_env_ok env" and "process_log_check env lfd checkhash fs = (Some mr, fs')"
    and "mlogsize (master_of (take 64 lfd)) \<noteq> 2 ^ 64 - 1"
  shows "log_valid env lfd checkhash \<and> mr = master_of (take 64 lfd)"
proof -
  obtain rd mb fs1 where r: "psync_file_pread lfd 64 0 fs = (rd, mb, fs1)" using prod_cases3 by blast
  obtain lsize fs2 where z: "psync_file_size lfd fs1 = (lsize, fs2)" by fastforce
  note run = assms(2) [unfolded process_log_check_def r prod.case Let_def z]
  have rd: "rd = int 64" using run by (auto split: if_splits)
  then have mb: "mb = take 64 lfd" "64 \<le> length lfd" using pread_all [of lfd 64 0 fs mb fs1] r by (auto simp: min_def split: if_splits)
  have c: "mstatus (master_of mb) = PSYNC_LOG_STATUS_FINALIZED" "int (mlogsize (master_of mb)) = lsize mod 2 ^ 64"
    "mcrc (master_of mb) = crc_of env (take 56 mb)" using run rd by (auto split: if_splits)
  have "lsize = -1 \<or> lsize = int (length lfd)" using z by (auto simp: psync_file_size_def split: prod.splits fault.splits)
  moreover have "lsize \<noteq> -1"
  proof
    assume "lsize = -1"
    then have "int (mlogsize (master_of mb)) = 2 ^ 64 - 1" using c(2) by simp
    then show False using assms(3) mb(1) by simp
  qed
  ultimately have "int (mlogsize (master_of mb)) = int (length lfd mod 2 ^ 64)" using c(2) by (simp add: zmod_int)
  then have "mlogsize (master_of mb) = length lfd mod 2 ^ 64" by (simp only: of_nat_eq_iff)
  moreover have "mcrc (master_of mb) = unat (foldl crc_byte 0 (take 56 lfd))"
    using c(3) mb(1) by (simp add: crc_of_bytes [OF assms(1)])
  moreover have "mhashid (master_of mb) = PSYNC_LOG_HASHID_FH256 \<and> mhash (master_of mb) = fh_hash env (drop LOG_START lfd)" if checkhash
  proof -
    obtain rc fs3 where h: "psync_fs_crypto_check_log_hash env lfd (master_of mb) fs2 = (rc, fs3)" by fastforce
    then have "rc = 0" using run that rd c by (auto split: if_splits)
    then show ?thesis using check_log_hash_any [OF assms(1)] h by simp
  qed
  moreover have "mr = master_of mb" using run by (auto split: if_splits prod.splits)
  ultimately show ?thesis using mb c(1) by (simp add: log_valid_def Let_def)
qed

lemma log_check_Full:
  assumes "hash_env_ok env" and "log_valid env lfd checkhash"
  shows "process_log_check env lfd checkhash [] = (Some (master_of (take 64 lfd)), [])"
proof -
  have "psync_fs_crypto_check_log_hash env lfd (master_of (take 64 lfd)) [] = (0, [])" if checkhash
    using assms that by (intro check_log_hash_Full) (simp_all add: log_valid_def Let_def)
  moreover have "psync_file_size lfd [] = (int (length lfd), [])" by (simp add: psync_file_size_def next_fault_def)
  ultimately show ?thesis
    using assms by (auto simp: process_log_check_def log_valid_def Let_def crc_of_bytes zmod_int)
qed

lemma invalid_log_unchanged:
  assumes "hash_env_ok env" and "\<not> log_valid env lfd checkhash" and "mlogsize (master_of (take 64 lfd)) \<noteq> 2 ^ 64 - 1"
  shows "\<exists>fs'. psync_fs_crypto_process_log env lfd dfd ifd checkhash fs = (Some (-1), dfd, ifd, fs')"
proof -
  obtain res fs' where "process_log_check env lfd checkhash fs = (res, fs')" by fastforce
  moreover from this have "res = None" using log_check_any [OF assms(1) _ assms(3)] assms(2) by (cases res) auto
  ultimately show ?thesis by (simp add: psync_fs_crypto_process_log_def)
qed

text \<open>
  C26. A log that is not finished, or has not the size, the checksum or (if it is checked) the hash that its
  master record says, is not replayed: whatever the file operations do, the call fails and neither the data file
  nor the index file is changed. (A size field of all ones is excluded: it matches the error of
  asking for the size.)
\<close>

theorem invalid_log_rejected:
  assumes "hash_env_ok env" and "\<not> log_valid env lfd checkhash" and "mlogsize (master_of (take 64 lfd)) \<noteq> 2 ^ 64 - 1"
  shows "\<exists>fs'. psync_fs_crypto_process_log env lfd dfd ifd checkhash fs = (Some (-1), dfd, ifd, fs')"
  by (rule invalid_log_unchanged [OF assms])

definition sample_env :: hash_env where
  "sample_env = \<lparr>ins8 = sample_hw8, ins64 = sample_hw64, has_ins = True, hashw = 2, buff_addr = 0, stack_junk = replicate 64 0\<rparr>"

lemma sample_env_ok: "hash_env_ok sample_env"
  by (simp add: hash_env_ok_def sample_env_def crc_hw_ok_def sample_hw8_def sample_hw64_def)

lemma invalid_log_rejected_witness:
  "\<exists>fs'. psync_fs_crypto_process_log sample_env (replicate 64 0) [1, 2] None True [Short 3] = (Some (-1), [1, 2], None, fs')"
  by (rule invalid_log_rejected [OF sample_env_ok])
    (simp_all add: log_valid_def master_of_def Let_def le_val_replicate_0)


text \<open>A replay as a whole.\<close>

lemma seek_truncate_Full [simp]: "seek_truncate f n [] = (False, file_set_size n f, [])"
  by (simp add: seek_truncate_def next_fault_def)

lemma seek_truncate_any: "seek_truncate f n fs = (bad, f', fs') \<Longrightarrow> f' = file_set_size n f \<or> bad \<and> f' = f"
  by (auto simp: seek_truncate_def split: fault.splits prod.splits)

lemma seek_truncate_index_any:
  "seek_truncate_index ifd fs = (bad, ifd', fs') \<Longrightarrow> (ifd' = None \<longleftrightarrow> ifd = None)"
  by (auto simp: seek_truncate_index_def split: option.splits prod.splits)

lemma flush_records_Full:
  "rifd st = Some i \<Longrightarrow> \<exists>i'. \<forall>d. flush_records (st\<lparr>rdfd := d\<rparr>) [] = (True, st\<lparr>rdfd := d, rifd := Some i'\<rparr>, [])"
  by (auto simp: flush_records_def Let_def index_bytes_length)

definition index_start :: "file_bytes option \<Rightarrow> file_bytes option" where
  "index_start ifd = map_option (\<lambda>_. []) ifd"

lemma seek_truncate_index_Full: "seek_truncate_index ifd [] = (False, index_start ifd, [])"
  by (cases ifd) (simp_all add: seek_truncate_index_def index_start_def file_set_size_def)

text \<open>The writes of the log done twice leave what doing them once leaves, for the data file and the index.\<close>

lemma replay_Full_depends:
  assumes "write_all (log_writes lfd fsize LOG_START 0 (ifd \<noteq> None)) d = write_all (log_writes lfd fsize LOG_START 0 (ifd \<noteq> None)) d'"
  shows "process_log_replay lfd fsize d ifd [] = process_log_replay lfd fsize d' ifd []"
proof -
  let ?st = "\<lambda>d. \<lparr>rdfd = d, rifd = ifd, rrecs = [], rioff = 0\<rparr>"
  obtain rc st' fs' where run: "process_records lfd fsize LOG_START (?st d) [] = (rc, st', fs')" using prod_cases3 by blast
  have both: "process_records lfd fsize LOG_START (?st e) [] =
      (rc, st'\<lparr>rdfd := write_all (log_writes lfd fsize LOG_START 0 (ifd \<noteq> None)) e\<rparr>, [])" for e
    using process_records_all [OF run, of e] by simp
  show ?thesis unfolding process_log_replay_def both assms by simp
qed

lemma replay_any:
  assumes "process_log_replay lfd fsize (file_set_size fsize d) ifd fs = (rc, d', ifd', fs')"
  shows "\<exists>vs. (d' = write_all vs (file_set_size fsize d) \<or> d' = file_set_size fsize (write_all vs (file_set_size fsize d))) \<and>
      (\<forall>p. written vs p \<longrightarrow> written (log_writes lfd fsize LOG_START 0 (ifd \<noteq> None)) p)"
    "ifd' = None \<longleftrightarrow> ifd = None"
proof -
  let ?st = "\<lparr>rdfd = file_set_size fsize d, rifd = ifd, rrecs = [], rioff = 0\<rparr>"
  obtain rc1 st1 fs1 where run: "process_records lfd fsize LOG_START ?st fs = (rc1, st1, fs1)" using prod_cases3 by blast
  have rep: "replayed lfd fsize LOG_START ?st st1" by (rule process_records_replayed [OF run])
  obtain ok st2 fs2 where fl: "(if rrecs st1 \<noteq> [] then flush_records st1 fs1 else (True, st1, fs1)) = (ok, st2, fs2)" using prod_cases3 by blast
  have st2: "rdfd st2 = rdfd st1" "rifd st2 = None \<longrightarrow> rifd st1 = None"
    using fl flush_records_state [of st1 fs1 ok st2 fs2] by (auto split: if_splits)
  obtain bad d2 fs3 where tr: "seek_truncate (rdfd st2) fsize fs2 = (bad, d2, fs3)" using prod_cases3 by blast
  have d': "d' = rdfd st1 \<or> d' = file_set_size fsize (rdfd st1)"
    using assms seek_truncate_any [OF tr] st2(1) unfolding process_log_replay_def run prod.case fl tr by (auto split: if_splits)
  then show "\<exists>vs. (d' = write_all vs (file_set_size fsize d) \<or> d' = file_set_size fsize (write_all vs (file_set_size fsize d))) \<and>
      (\<forall>p. written vs p \<longrightarrow> written (log_writes lfd fsize LOG_START 0 (ifd \<noteq> None)) p)"
    using rep by (auto simp: replayed_def)
  have "rifd st2 = None \<longleftrightarrow> ifd = None" using st2(2) rep fl by (auto simp: replayed_def split: if_splits)
  moreover have "rifd st1 = None \<longleftrightarrow> ifd = None" using rep by (simp add: replayed_def)
  moreover have "ifd' = rifd st1 \<or> ifd' = rifd st2"
    using assms unfolding process_log_replay_def run prod.case fl tr by (auto split: if_splits)
  ultimately show "ifd' = None \<longleftrightarrow> ifd = None" by auto
qed


lemma replay_valid_again:
  assumes "hash_env_ok env" and "mlogsize (master_of (take 64 lfd)) \<noteq> 2 ^ 64 - 1"
    and "psync_fs_crypto_process_log env lfd dfd ifd checkhash fs = (rc, dfd1, ifd1, fs1)"
    and "log_valid env lfd checkhash"
  shows "psync_fs_crypto_process_log env lfd dfd1 ifd1 checkhash [] = psync_fs_crypto_process_log env lfd dfd ifd checkhash []"
proof -
  define n where "n = mfilesize (master_of (take 64 lfd))"
  define ws where "ws = log_writes lfd n LOG_START 0 (ifd \<noteq> None)"
  have full: "psync_fs_crypto_process_log env lfd d i checkhash [] = process_log_replay lfd n (file_set_size n d) (index_start i) []" for d i
    by (simp add: psync_fs_crypto_process_log_def log_check_Full [OF assms(1,4)] seek_truncate_index_Full n_def)
  have "(\<exists>vs. (dfd1 = dfd \<or> dfd1 = write_all vs (file_set_size n dfd) \<or> dfd1 = file_set_size n (write_all vs (file_set_size n dfd))) \<and>
      (\<forall>p. written vs p \<longrightarrow> written ws p)) \<and> (ifd1 = None \<longleftrightarrow> ifd = None)"
  proof (cases "process_log_check env lfd checkhash fs")
    case (Pair res fs2)
    show ?thesis
    proof (cases res)
      case None
      then have "dfd1 = dfd" "ifd1 = ifd" using assms(3) Pair by (simp_all add: psync_fs_crypto_process_log_def)
      then show ?thesis by (intro conjI exI [of _ "[]"]) simp_all
    next
      case (Some mr)
      have mr: "mfilesize mr = n" using log_check_any [OF assms(1) Pair [unfolded Some] assms(2)] by (simp add: n_def)
      obtain bad d fs3 where t: "seek_truncate dfd n fs2 = (bad, d, fs3)" using prod_cases3 by blast
      obtain bad2 i fs4 where ti: "seek_truncate_index ifd fs3 = (bad2, i, fs4)" using prod_cases3 by blast
      note run = assms(3) [unfolded psync_fs_crypto_process_log_def Pair Some prod.case option.case mr t ti]
      note i = seek_truncate_index_any [OF ti]
      show ?thesis
      proof (cases "bad \<or> bad2")
        case True
        then have "dfd1 = d" "ifd1 = ifd \<or> ifd1 = i" using run by (auto split: if_splits)
        moreover have "d = dfd \<or> d = file_set_size n dfd" using seek_truncate_any [OF t] by blast
        ultimately show ?thesis using i by (intro conjI exI [of _ "[]"]) auto
      next
        case False
        then have "process_log_replay lfd n (file_set_size n dfd) i fs4 = (rc, dfd1, ifd1, fs1)"
          using run seek_truncate_any [OF t] by simp
        from replay_any [OF this] show ?thesis using i by (auto simp: ws_def)
      qed
    qed
  qed
  then obtain vs where vs: "dfd1 = dfd \<or> dfd1 = write_all vs (file_set_size n dfd) \<or> dfd1 = file_set_size n (write_all vs (file_set_size n dfd))"
    "\<And>p. written vs p \<Longrightarrow> written ws p" and ifd1: "ifd1 = None \<longleftrightarrow> ifd = None" by blast
  have "write_all ws (file_set_size n dfd1) = write_all ws (file_set_size n dfd)"
    using vs(1) write_all_again [of vs ws n dfd] vs(2) by auto
  moreover have "index_start ifd1 = index_start ifd" using ifd1 by (cases ifd; cases ifd1) (simp_all add: index_start_def)
  moreover have "index_start ifd \<noteq> None \<longleftrightarrow> ifd \<noteq> None" by (simp add: index_start_def)
  ultimately show ?thesis
    unfolding full using replay_Full_depends [of lfd n "index_start ifd" "file_set_size n dfd1" "file_set_size n dfd"] by (simp add: ws_def)
qed

text \<open>
  C11. A replay can be repeated: whatever happened in a first attempt (file operations that failed, short reads and
  writes, a crash between two of them), replaying the same log again when nothing fails gives the result, the
  data file and the index file that a first attempt in which nothing fails gives.
\<close>

theorem replay_after_crash:
  assumes "hash_env_ok env" and "mlogsize (master_of (take 64 lfd)) \<noteq> 2 ^ 64 - 1"
  shows "case psync_fs_crypto_process_log env lfd dfd ifd checkhash fs of (rc, dfd1, ifd1, fs1) \<Rightarrow>
    psync_fs_crypto_process_log env lfd dfd1 ifd1 checkhash [] = psync_fs_crypto_process_log env lfd dfd ifd checkhash []"
proof (cases "log_valid env lfd checkhash")
  case True
  then show ?thesis using replay_valid_again [OF assms] by (auto split: prod.splits)
next
  case False
  then show ?thesis using invalid_log_unchanged [OF assms(1) False assms(2), of dfd ifd fs] by auto
qed

lemma replay_after_crash_witness:
  "case psync_fs_crypto_process_log sample_env (1 # replicate 5000 0) [1, 2, 3] (Some []) False [Full, Full, Short 4] of (rc, dfd1, ifd1, fs1) \<Rightarrow>
    psync_fs_crypto_process_log sample_env (1 # replicate 5000 0) dfd1 ifd1 False [] =
    psync_fs_crypto_process_log sample_env (1 # replicate 5000 0) [1, 2, 3] (Some []) False []"
  by (rule replay_after_crash [OF sample_env_ok]) (simp add: master_of_def le_val_replicate_0)

end
