(* ===== verification/Pcrypto.thy ===== *)
theory Pcrypto
  imports Prelude
begin

section \<open>Encryption of names, keys and sectors (pcrypto.c)\<close>

text \<open>
  AES-256 on one block, for encoding (\<open>E\<close>) and decoding (\<open>D\<close>), and SHA-512 (\<open>sha\<close>) are what the TLS
  library provides: they are arguments of the definitions. Buffers are byte lists; the variants for
  aligned and unaligned pointers compute the same and are shown to. A block has 16 bytes.
\<close>

unbundle bit_operations_syntax

type_synonym block_fun = "byte list \<Rightarrow> byte list"

abbreviation PSYNC_AES256_BLOCK_SIZE :: nat where "PSYNC_AES256_BLOCK_SIZE \<equiv> 16"
abbreviation PSYNC_AES256_KEY_SIZE :: nat where "PSYNC_AES256_KEY_SIZE \<equiv> 32"
abbreviation PSYNC_SHA512_BLOCK_LEN :: nat where "PSYNC_SHA512_BLOCK_LEN \<equiv> 128"
abbreviation PSYNC_SHA512_DIGEST_LEN :: nat where "PSYNC_SHA512_DIGEST_LEN \<equiv> 64"

subsection \<open>Exclusive or\<close>

definition xor_bytes :: "byte list \<Rightarrow> byte list \<Rightarrow> byte list" where
  "xor_bytes a b = map2 (XOR) a b"

definition xor_cnt_inplace :: "byte list \<Rightarrow> byte list \<Rightarrow> nat \<Rightarrow> byte list" where
  "xor_cnt_inplace data key cnt = xor_bytes (take cnt data) (take cnt key) @ drop cnt data"

definition xor16_unaligned_inplace :: "byte list \<Rightarrow> byte list \<Rightarrow> byte list" where
  "xor16_unaligned_inplace data key = xor_cnt_inplace data key PSYNC_AES256_BLOCK_SIZE"

text \<open>\<open>((unsigned long *)x)[a]\<close>, on a machine where that has 8 bytes, least significant first.\<close>

definition LONG_DEREF :: "byte list \<Rightarrow> nat \<Rightarrow> u64" where
  "LONG_DEREF x a = of_nat (le_val (take 8 (drop (8 * a) x)))"

definition long_bytes :: "u64 \<Rightarrow> byte list" where
  "long_bytes w = le_bytes 8 (unat w)"

definition xor16_aligned_inplace :: "byte list \<Rightarrow> byte list \<Rightarrow> byte list" where
  "xor16_aligned_inplace data key =
     long_bytes (LONG_DEREF data 0 XOR LONG_DEREF key 0) @ long_bytes (LONG_DEREF data 1 XOR LONG_DEREF key 1) @ drop 16 data"

definition copy_iv_and_xor_with_counter :: "byte list \<Rightarrow> byte list \<Rightarrow> u64 \<Rightarrow> byte list" where
  "copy_iv_and_xor_with_counter dest iv counter = long_bytes (LONG_DEREF iv 0 XOR counter) @ drop 8 dest"

subsection \<open>HMAC\<close>

record hmac_ctx =
  shadata :: "byte list"
  hfinal :: "byte list"

definition hmac_pad :: "byte \<Rightarrow> byte list \<Rightarrow> byte list" where
  "hmac_pad c key = List.map (\<lambda>k. k XOR c) (take PSYNC_SHA512_BLOCK_LEN key) @ replicate (PSYNC_SHA512_BLOCK_LEN - length key) c"

definition psync_hmac_sha512_init :: "byte list \<Rightarrow> hmac_ctx" where
  "psync_hmac_sha512_init key = \<lparr>shadata = hmac_pad 0x36 key, hfinal = hmac_pad 0x5c key\<rparr>"

definition psync_hmac_sha512_update :: "hmac_ctx \<Rightarrow> byte list \<Rightarrow> hmac_ctx" where
  "psync_hmac_sha512_update ctx data = ctx\<lparr>shadata := shadata ctx @ data\<rparr>"

definition psync_hmac_sha512_final :: "block_fun \<Rightarrow> hmac_ctx \<Rightarrow> byte list" where
  "psync_hmac_sha512_final sha ctx = sha (hfinal ctx @ sha (shadata ctx))"

definition psync_hmac_sha512 :: "block_fun \<Rightarrow> byte list \<Rightarrow> byte list \<Rightarrow> byte list" where
  "psync_hmac_sha512 sha msg key = sha (hmac_pad 0x5c key @ sha (hmac_pad 0x36 key @ msg))"

subsection \<open>Counter mode\<close>

text \<open>The key stream block for a counter; \<open>iv\<close> are the 16 bytes after the key.\<close>

definition ctr_block :: "block_fun \<Rightarrow> byte list \<Rightarrow> u64 \<Rightarrow> byte list" where
  "ctr_block E iv counter = E (copy_iv_and_xor_with_counter (replicate 8 0 @ drop 8 iv) iv counter)"

primrec ctr_blocks :: "block_fun \<Rightarrow> byte list \<Rightarrow> nat \<Rightarrow> u64 \<Rightarrow> byte list \<Rightarrow> byte list" where
  "ctr_blocks E iv 0 counter data = (if data = [] then [] else xor_cnt_inplace data (ctr_block E iv counter) (length data))"
| "ctr_blocks E iv (Suc blocksrem) counter data =
     xor16_unaligned_inplace (take 16 data) (ctr_block E iv counter) @ ctr_blocks E iv blocksrem (counter + 1) (drop 16 data)"

text \<open>
  When the data ends inside the block it starts in, the code writes behind the data and goes on with a
  length that has wrapped around: no result.
\<close>

definition psync_crypto_aes256_ctr_encode_decode_inplace :: "block_fun \<Rightarrow> byte list \<Rightarrow> byte list \<Rightarrow> u64 \<Rightarrow> byte list option" where
  "psync_crypto_aes256_ctr_encode_decode_inplace E iv data dataoffset =
     (let counter = dataoffset div 16; off = unat (dataoffset mod 16) in
      if off = 0 then Some (ctr_blocks E iv (length data div 16) counter data)
      else let blocksrem = PSYNC_AES256_BLOCK_SIZE - off in
        if length data < blocksrem then None
        else Some (xor_cnt_inplace (take blocksrem data) (drop off (ctr_block E iv counter)) blocksrem @
                   ctr_blocks E iv ((length data - blocksrem) div 16) (counter + 1) (drop blocksrem data)))"

subsection \<open>Texts\<close>

definition copy_pad :: "nat \<Rightarrow> byte list \<Rightarrow> byte list \<times> byte list" where
  "copy_pad cnt txt = (if cnt \<le> length txt then (take cnt txt, drop cnt txt) else (txt @ replicate (cnt - length txt) 0, []))"

definition ALIGN_A256_BS :: "nat \<Rightarrow> nat" where
  "ALIGN_A256_BS n = ((n + PSYNC_AES256_BLOCK_SIZE - 1) div PSYNC_AES256_BLOCK_SIZE) * PSYNC_AES256_BLOCK_SIZE"

text \<open>The \<open>do \<dots> while\<close> loop: the text left (not empty), the last block written.\<close>

function encode_text_loop :: "block_fun \<Rightarrow> byte list \<Rightarrow> byte list \<Rightarrow> byte list" where
  "encode_text_loop E aesdst txt =
     (case copy_pad PSYNC_AES256_BLOCK_SIZE txt of (aessrc, txt') \<Rightarrow>
        let aesdst = E (xor16_aligned_inplace aessrc aesdst) in
        aesdst @ (if txt' = [] then [] else encode_text_loop E aesdst txt'))"
  by pat_completeness auto
termination by (relation "measure (\<lambda>(E, d, txt). length txt)") (auto simp: copy_pad_def split: if_splits)

declare encode_text_loop.simps [simp del]

text \<open>The size of the output buffer, and what is written to it.\<close>

definition psync_crypto_aes256_encode_text :: "block_fun \<Rightarrow> block_fun \<Rightarrow> byte list \<Rightarrow> byte list \<Rightarrow> nat \<times> byte list" where
  "psync_crypto_aes256_encode_text sha E iv txt =
     (ALIGN_A256_BS (length txt),
      if length txt \<le> PSYNC_AES256_BLOCK_SIZE then E (xor16_aligned_inplace (fst (copy_pad PSYNC_AES256_BLOCK_SIZE txt)) iv)
      else
        (let hmac = psync_hmac_sha512 sha (drop PSYNC_AES256_BLOCK_SIZE txt) iv;
             aesdst = E (xor16_aligned_inplace (take PSYNC_AES256_BLOCK_SIZE txt) hmac)
         in aesdst @ encode_text_loop E aesdst (drop PSYNC_AES256_BLOCK_SIZE txt)))"

text \<open>The further blocks, each xor-ed with the encoded block before it.\<close>

primrec decode_text_loop :: "block_fun \<Rightarrow> nat \<Rightarrow> byte list \<Rightarrow> byte list" where
  "decode_text_loop D 0 data = []"
| "decode_text_loop D (Suc n) data =
     xor16_aligned_inplace (D (take 16 (drop 16 data))) (take 16 data) @ decode_text_loop D n (drop 16 data)"

definition c_strlen :: "byte list \<Rightarrow> nat" where
  "c_strlen s = length (takeWhile (\<lambda>c. c \<noteq> 0) s)"

text \<open>The decoded buffer without its terminating zero; nothing when it is refused.\<close>

definition psync_crypto_aes256_decode_text :: "block_fun \<Rightarrow> block_fun \<Rightarrow> byte list \<Rightarrow> byte list \<Rightarrow> byte list option" where
  "psync_crypto_aes256_decode_text sha D iv data =
     (if length data mod 16 \<noteq> 0 \<or> length data = 0 then None
      else if length data div 16 = 1 then
        (let ret = xor16_aligned_inplace (D data) iv in
         if \<exists>c \<in> set (drop (c_strlen ret + 1) ret). c \<noteq> 0 then None else Some ret)
      else
        (let first = D (take 16 data);
             rest = decode_text_loop D (length data div 16 - 1) data;
             len = c_strlen rest;
             ret = xor16_aligned_inplace (first @ rest) (take 16 (psync_hmac_sha512 sha (take len rest) iv))
         in if \<exists>c \<in> set (drop (len + 16 + 1) ret). c \<noteq> 0 then None else Some ret))"

subsection \<open>Sectors\<close>

definition memcmp_const :: "byte list \<Rightarrow> byte list \<Rightarrow> nat \<Rightarrow> int" where
  "memcmp_const s1 s2 cnt =
     (let r = fold (\<lambda>i r. r OR ucast (s1 ! i XOR s2 ! i)) [0..<cnt] (0 :: u32)
      in uint ((drop_bit 8 (r - 1) AND 1) XOR 1))"

definition psync_aes256_encode_2blocks_consec :: "block_fun \<Rightarrow> byte list \<Rightarrow> byte list" where
  "psync_aes256_encode_2blocks_consec E src = E (take 16 src) @ E (take 16 (drop 16 src))"

definition psync_aes256_decode_2blocks_consec :: "block_fun \<Rightarrow> byte list \<Rightarrow> byte list" where
  "psync_aes256_decode_2blocks_consec D src = D (take 16 src) @ D (take 16 (drop 16 src))"

definition psync_aes256_decode_4blocks_consec_xor :: "block_fun \<Rightarrow> byte list \<Rightarrow> byte list \<Rightarrow> byte list" where
  "psync_aes256_decode_4blocks_consec_xor D src bxor =
     concat (List.map (\<lambda>i. xor_bytes (D (take 16 (drop (16 * i) src))) (take 16 (drop (16 * i) bxor))) [0, 1, 2, 3])"

text \<open>The chained blocks, with the last block written.\<close>

primrec encode_sector_loop :: "block_fun \<Rightarrow> nat \<Rightarrow> byte list \<Rightarrow> byte list \<Rightarrow> byte list \<times> byte list" where
  "encode_sector_loop E 0 aessrc data = ([], aessrc)"
| "encode_sector_loop E (Suc n) aessrc data =
     (let aesdst = E (xor16_unaligned_inplace aessrc (take 16 data))
      in case encode_sector_loop E n aesdst (drop 16 data) of (out, lst) \<Rightarrow> (aesdst @ out, lst))"

definition sector_hmac :: "block_fun \<Rightarrow> byte list \<Rightarrow> byte list \<Rightarrow> u64 \<Rightarrow> byte list \<Rightarrow> byte list" where
  "sector_hmac sha iv data sectorid rnd =
     psync_hmac_sha512_final sha (psync_hmac_sha512_update (psync_hmac_sha512_update
       (psync_hmac_sha512_update (psync_hmac_sha512_init iv) data) (long_bytes sectorid)) rnd)"

text \<open>The encoded sector and the authentication block; \<open>rnd\<close> are the 16 random bytes drawn.\<close>

definition psync_crypto_aes256_encode_sector ::
  "block_fun \<Rightarrow> block_fun \<Rightarrow> byte list \<Rightarrow> byte list \<Rightarrow> byte list \<Rightarrow> u64 \<Rightarrow> byte list \<times> byte list" where
  "psync_crypto_aes256_encode_sector sha E iv rnd data sectorid =
     (let hmac = sector_hmac sha iv data sectorid rnd; datalen = length data in
      if datalen < PSYNC_AES256_BLOCK_SIZE then
        (take datalen rnd,
         psync_aes256_encode_2blocks_consec E (xor_cnt_inplace rnd data datalen @ take 16 hmac))
      else
        (let needsteal = datalen mod 16;
             n = (if needsteal \<noteq> 0 then datalen - (needsteal + 16) else datalen) div 16;
             auth = psync_aes256_encode_2blocks_consec E (take 8 rnd @ take 16 hmac @ drop 8 rnd);
             (out, aessrc) = encode_sector_loop E n (take 16 hmac) data;
             rest = drop (16 * n) data
         in if needsteal \<noteq> 0 then
              (let aesdst = E (xor16_unaligned_inplace aessrc (take 16 rest));
                   stolen = take needsteal aesdst;
                   aessrc = E (xor_cnt_inplace aesdst (drop 16 rest) needsteal)
               in (out @ aessrc @ stolen, auth))
            else (out, auth)))"

text \<open>Four blocks at a time, then one at a time; \<open>aesxor\<close> is the encoded block before.\<close>

primrec decode_sector_loop4 :: "block_fun \<Rightarrow> nat \<Rightarrow> byte list \<Rightarrow> byte list \<Rightarrow> byte list \<times> byte list" where
  "decode_sector_loop4 D 0 aesxor data = ([], aesxor)"
| "decode_sector_loop4 D (Suc n) aesxor data =
     (let aessrc = take 64 data;
          aesdst = psync_aes256_decode_4blocks_consec_xor D aessrc (aesxor @ take 48 aessrc)
      in case decode_sector_loop4 D n (drop 48 aessrc) (drop 64 data) of (out, lst) \<Rightarrow> (aesdst @ out, lst))"

primrec decode_sector_loop :: "block_fun \<Rightarrow> nat \<Rightarrow> byte list \<Rightarrow> byte list \<Rightarrow> byte list \<times> byte list" where
  "decode_sector_loop D 0 aesxor data = ([], aesxor)"
| "decode_sector_loop D (Suc n) aesxor data =
     (let aessrc = take 16 data; aesdst = xor16_aligned_inplace (D aessrc) aesxor
      in case decode_sector_loop D n aessrc (drop 16 data) of (out, lst) \<Rightarrow> (aesdst @ out, lst))"

text \<open>The last block and the stolen bytes after it.\<close>

definition decode_steal :: "block_fun \<Rightarrow> byte list \<Rightarrow> byte list \<Rightarrow> nat \<Rightarrow> byte list" where
  "decode_steal D aesxor data needsteal =
     (let aesdst = xor_cnt_inplace (D (take 16 data)) (drop 16 data) needsteal;
          tail = take needsteal aesdst;
          aesdst = take needsteal (drop 16 data) @ drop needsteal aesdst
      in xor16_aligned_inplace (D aesdst) aesxor @ tail)"

definition psync_crypto_aes256_decode_sector ::
  "block_fun \<Rightarrow> block_fun \<Rightarrow> byte list \<Rightarrow> byte list \<Rightarrow> byte list \<Rightarrow> u64 \<Rightarrow> byte list \<times> int" where
  "psync_crypto_aes256_decode_sector sha D iv data auth sectorid =
     (let hmac = psync_aes256_decode_2blocks_consec D auth;
          datalen = length data;
          (out, hmac) =
            (if datalen < PSYNC_AES256_BLOCK_SIZE then
               (take datalen (xor_cnt_inplace hmac data datalen), data @ drop datalen hmac)
             else
               (let needsteal = datalen mod 16;
                    len = (if needsteal \<noteq> 0 then datalen - (needsteal + 16) else datalen);
                    aesxor = take 16 (drop 8 hmac);
                    hmac = take 8 hmac @ take 8 (drop 24 hmac) @ aesxor;
                    (out1, aesxor) = decode_sector_loop4 D (len div 64) aesxor data;
                    (out2, aesxor) = decode_sector_loop D (len mod 64 div 16) aesxor (drop (64 * (len div 64)) data)
                in (out1 @ out2 @ (if needsteal \<noteq> 0 then decode_steal D aesxor (drop len data) needsteal else []), hmac)))
      in (out, - memcmp_const (sector_hmac sha iv out sectorid (take 16 hmac)) (drop 16 hmac) PSYNC_AES256_BLOCK_SIZE))"

definition psync_crypto_sign_auth_sector :: "block_fun \<Rightarrow> block_fun \<Rightarrow> byte list \<Rightarrow> byte list \<Rightarrow> byte list" where
  "psync_crypto_sign_auth_sector sha E iv data =
     psync_aes256_encode_2blocks_consec E (take 32 (psync_hmac_sha512 sha data iv))"

subsection \<open>Creating encoders\<close>

text \<open>
  \<open>mkenc\<close> and \<open>mkdec\<close> set up AES for a key, or fail; \<open>None\<close> is the invalid encoder. What follows the 32
  bytes of the AES key is the initialisation vector; for counter mode only its first block is kept.
\<close>

record 'e text_crypto =
  text_encoder :: 'e
  text_iv :: "byte list"

record 'e sector_crypto =
  sector_encoder :: 'e
  sector_decoder :: "'e option"
  sector_iv :: "byte list"

definition psync_crypto_aes256_ctr_encoder_decoder_create :: "(byte list \<Rightarrow> 'e option) \<Rightarrow> byte list \<Rightarrow> 'e text_crypto option" where
  "psync_crypto_aes256_ctr_encoder_decoder_create mkenc key =
     (if length key < PSYNC_AES256_KEY_SIZE + PSYNC_AES256_BLOCK_SIZE then None
      else case mkenc key of None \<Rightarrow> None
        | Some e \<Rightarrow> Some \<lparr>text_encoder = e, text_iv = take PSYNC_AES256_BLOCK_SIZE (drop PSYNC_AES256_KEY_SIZE key)\<rparr>)"

definition psync_crypto_aes256_text_encoder_create :: "(byte list \<Rightarrow> 'e option) \<Rightarrow> byte list \<Rightarrow> 'e text_crypto option" where
  "psync_crypto_aes256_text_encoder_create mkenc key =
     (if length key < PSYNC_AES256_KEY_SIZE + PSYNC_AES256_BLOCK_SIZE then None
      else case mkenc key of None \<Rightarrow> None
        | Some e \<Rightarrow> Some \<lparr>text_encoder = e, text_iv = drop PSYNC_AES256_KEY_SIZE key\<rparr>)"

definition psync_crypto_aes256_text_decoder_create :: "(byte list \<Rightarrow> 'e option) \<Rightarrow> byte list \<Rightarrow> 'e text_crypto option" where
  "psync_crypto_aes256_text_decoder_create mkdec key =
     (if length key < PSYNC_AES256_KEY_SIZE + PSYNC_AES256_BLOCK_SIZE then None
      else case mkdec key of None \<Rightarrow> None
        | Some e \<Rightarrow> Some \<lparr>text_encoder = e, text_iv = drop PSYNC_AES256_KEY_SIZE key\<rparr>)"

text \<open>After creating the decoder the code looks at the encoder again.\<close>

definition psync_crypto_aes256_sector_encoder_decoder_create ::
  "(byte list \<Rightarrow> 'e option) \<Rightarrow> (byte list \<Rightarrow> 'e option) \<Rightarrow> byte list \<Rightarrow> 'e sector_crypto option" where
  "psync_crypto_aes256_sector_encoder_decoder_create mkenc mkdec key =
     (if length key < PSYNC_AES256_KEY_SIZE then None
      else case mkenc key of None \<Rightarrow> None
        | Some enc \<Rightarrow> (let dec = mkdec key in
            if mkenc key = None then None
            else Some \<lparr>sector_encoder = enc, sector_decoder = dec, sector_iv = drop PSYNC_AES256_KEY_SIZE key\<rparr>))"

subsection \<open>Exclusive or, byte by byte\<close>

lemma length_xor_bytes [simp]: "length (xor_bytes a b) = min (length a) (length b)"
  by (simp add: xor_bytes_def)

lemma xor_bytes_nth: "i < length a \<Longrightarrow> i < length b \<Longrightarrow> xor_bytes a b ! i = a ! i XOR b ! i"
  by (simp add: xor_bytes_def)

lemma xor_bytes_cancel: "length a \<le> length b \<Longrightarrow> xor_bytes (xor_bytes a b) b = a"
  by (rule nth_equalityI) (simp_all add: xor_bytes_nth xor.assoc)

lemma xor_bytes_commute: "xor_bytes a b = xor_bytes b a"
  by (rule nth_equalityI) (simp_all add: xor_bytes_nth xor.commute min.commute)

lemma xor_bytes_append:
  "length a = length c \<Longrightarrow> xor_bytes (a @ b) (c @ d) = xor_bytes a c @ xor_bytes b d"
  by (simp add: xor_bytes_def)

lemma take_xor_bytes: "take n (xor_bytes a b) = xor_bytes (take n a) (take n b)"
  by (simp add: xor_bytes_def take_map take_zip)

lemma drop_xor_bytes: "drop n (xor_bytes a b) = xor_bytes (drop n a) (drop n b)"
  by (simp add: xor_bytes_def drop_map drop_zip)

lemma length_long_bytes [simp]: "length (long_bytes w) = 8"
  by (simp add: long_bytes_def)

lemma le_bytes_xor: "le_bytes n (a XOR b) = xor_bytes (le_bytes n a) (le_bytes n b)"
proof (induction n arbitrary: a b)
  case (Suc n)
  have "(a XOR b) div 256 = (a div 256) XOR (b div 256)"
    using drop_bit_xor [of 8 a b] by (simp add: drop_bit_eq_div)
  moreover have "(of_nat (a XOR b) :: byte) = of_nat a XOR of_nat b" by (rule of_nat_xor_eq)
  ultimately show ?case using Suc by (simp add: xor_bytes_def)
qed (simp add: xor_bytes_def)

lemma long_bytes_xor: "long_bytes (a XOR b) = xor_bytes (long_bytes a) (long_bytes b)"
  by (simp add: long_bytes_def unsigned_xor_eq le_bytes_xor)

lemma long_bytes_DEREF: "8 * a + 8 \<le> length x \<Longrightarrow> long_bytes (LONG_DEREF x a) = take 8 (drop (8 * a) x)"
proof -
  assume len: "8 * a + 8 \<le> length x"
  let ?b = "take 8 (drop (8 * a) x)"
  have "length ?b = 8" using len by simp
  then have "le_val ?b < 2 ^ 64" using le_val_less [of ?b] by simp
  then have "unat (of_nat (le_val ?b) :: u64) = le_val ?b" by (simp add: unat_of_nat take_bit_eq_mod)
  then show ?thesis using le_bytes_le_val [of ?b 8] \<open>length ?b = 8\<close> by (simp only: long_bytes_def LONG_DEREF_def)
qed

text \<open>The word-wise exclusive or is the byte-wise one.\<close>

lemma xor16_aligned_eq:
  assumes "16 \<le> length data" and "16 \<le> length key"
  shows "xor16_aligned_inplace data key = xor16_unaligned_inplace data key"
proof -
  have split: "take 16 x = take 8 x @ take 8 (drop 8 x)" for x :: "byte list" using take_add [of 8 8 x] by simp
  have "long_bytes (LONG_DEREF data 0 XOR LONG_DEREF key 0) = xor_bytes (take 8 data) (take 8 key)"
    "long_bytes (LONG_DEREF data 1 XOR LONG_DEREF key 1) = xor_bytes (take 8 (drop 8 data)) (take 8 (drop 8 key))"
    using assms by (simp_all add: long_bytes_xor long_bytes_DEREF)
  then show ?thesis
    unfolding xor16_aligned_inplace_def xor16_unaligned_inplace_def xor_cnt_inplace_def split
    using assms by (simp add: xor_bytes_append)
qed

lemma xor16_block [simp]:
  assumes "length a = 16" and "16 \<le> length b"
  shows "xor16_unaligned_inplace a b = xor_bytes a (take 16 b)" and "xor16_aligned_inplace a b = xor_bytes a (take 16 b)"
  using assms xor16_aligned_eq [of a b] by (simp_all add: xor16_unaligned_inplace_def xor_cnt_inplace_def)

subsection \<open>What the theorems ask of AES and SHA-512\<close>

text \<open>Blocks are encoded into blocks, decoding inverts encoding, and a digest has 64 bytes.\<close>

definition aes_ok :: "block_fun \<Rightarrow> block_fun \<Rightarrow> bool" where
  "aes_ok E D \<longleftrightarrow> (\<forall>b. length b = 16 \<longrightarrow> length (E b) = 16 \<and> length (D b) = 16 \<and> D (E b) = b \<and> E (D b) = b)"

definition sha_ok :: "block_fun \<Rightarrow> bool" where
  "sha_ok sha \<longleftrightarrow> (\<forall>m. length (sha m) = PSYNC_SHA512_DIGEST_LEN)"

lemma aes_okD:
  assumes "aes_ok E D" and "length b = 16"
  shows "length (E b) = 16" "length (D b) = 16" "D (E b) = b" "E (D b) = b"
  using assms by (simp_all add: aes_ok_def)

subsection \<open>Chained blocks\<close>

lemma encode_sector_loop_length:
  assumes "aes_ok E D"
  shows "length prev = 16 \<Longrightarrow> 16 * n \<le> length data \<Longrightarrow>
    length (fst (encode_sector_loop E n prev data)) = 16 * n \<and> length (snd (encode_sector_loop E n prev data)) = 16"
proof (induction n arbitrary: prev data)
  case (Suc n)
  then show ?case by (simp add: Let_def case_prod_beta aes_okD [OF assms])
qed simp

lemma decode_sector_loop_length:
  assumes "aes_ok E D"
  shows "length prev = 16 \<Longrightarrow> 16 * n \<le> length data \<Longrightarrow>
    length (fst (decode_sector_loop D n prev data)) = 16 * n \<and> length (snd (decode_sector_loop D n prev data)) = 16"
proof (induction n arbitrary: prev data)
  case (Suc n)
  then show ?case by (simp add: Let_def case_prod_beta aes_okD [OF assms])
qed simp

text \<open>Decoding looks at no more than the blocks it decodes.\<close>

lemma decode_sector_loop_append:
  "16 * n \<le> length data \<Longrightarrow> decode_sector_loop D n prev (data @ xs) = decode_sector_loop D n prev data"
proof (induction n arbitrary: prev data)
  case (Suc n)
  then show ?case by (simp add: Let_def)
qed simp

lemma encode_sector_loop_append:
  "16 * n \<le> length data \<Longrightarrow> encode_sector_loop E n prev (data @ xs) = encode_sector_loop E n prev data"
proof (induction n arbitrary: prev data)
  case (Suc n)
  then show ?case by (simp add: Let_def)
qed simp

lemma decode_encode_loop:
  assumes "aes_ok E D"
  shows "length prev = 16 \<Longrightarrow> 16 * n \<le> length data \<Longrightarrow>
    decode_sector_loop D n prev (fst (encode_sector_loop E n prev data)) = (take (16 * n) data, snd (encode_sector_loop E n prev data))"
proof (induction n arbitrary: prev data)
  case (Suc n)
  let ?x = "xor_bytes prev (take 16 data)" and ?r = "encode_sector_loop E n (E (xor_bytes prev (take 16 data))) (drop 16 data)"
  have E: "length (E ?x) = 16" "D (E ?x) = ?x" using Suc.prems by (simp_all add: aes_okD [OF assms])
  have "xor_bytes ?x prev = take 16 data" using Suc.prems xor_bytes_cancel [of "take 16 data" prev] by (simp add: xor_bytes_commute)
  moreover have "take (16 + 16 * n) data = take 16 data @ take (16 * n) (drop 16 data)" by (rule take_add)
  ultimately show ?case using Suc.prems Suc.IH [of "E ?x" "drop 16 data"] E
    by (simp add: Let_def case_prod_beta)
qed simp

lemma encode_decode_loop:
  assumes "aes_ok E D"
  shows "length prev = 16 \<Longrightarrow> 16 * n \<le> length data \<Longrightarrow>
    encode_sector_loop E n prev (fst (decode_sector_loop D n prev data)) = (take (16 * n) data, snd (decode_sector_loop D n prev data))"
proof (induction n arbitrary: prev data)
  case (Suc n)
  let ?c = "take 16 data"
  have D: "length (D ?c) = 16" "E (D ?c) = ?c" using Suc.prems by (simp_all add: aes_okD [OF assms])
  have "xor_bytes prev (xor_bytes (D ?c) prev) = D ?c"
    using Suc.prems D xor_bytes_cancel [of "D ?c" prev] by (simp add: xor_bytes_commute)
  moreover have "take (16 + 16 * n) data = take 16 data @ take (16 * n) (drop 16 data)" by (rule take_add)
  ultimately show ?case using Suc.prems Suc.IH [of ?c "drop 16 data"] D
    by (simp add: Let_def case_prod_beta)
qed simp

text \<open>Four blocks at a time is the same as one at a time.\<close>

lemma decode_sector_loop_add:
  "decode_sector_loop D (m + n) prev data =
     (case decode_sector_loop D m prev data of (out, lst) \<Rightarrow>
        (case decode_sector_loop D n lst (drop (16 * m) data) of (out', lst') \<Rightarrow> (out @ out', lst')))"
  by (induction m arbitrary: prev data) (simp_all add: Let_def case_prod_beta add.commute)

lemma decode_sector_loop4_eq:
  assumes "aes_ok E D"
  shows "length prev = 16 \<Longrightarrow> 64 * n \<le> length data \<Longrightarrow> decode_sector_loop4 D n prev data = decode_sector_loop D (4 * n) prev data"
proof (induction n arbitrary: prev data)
  case (Suc n)
  have four: "decode_sector_loop D (Suc (Suc (Suc (Suc 0)))) prev data =
      (psync_aes256_decode_4blocks_consec_xor D (take 64 data) (prev @ take 48 (take 64 data)), drop 48 (take 64 data))"
    using Suc.prems
    by (simp add: Let_def psync_aes256_decode_4blocks_consec_xor_def aes_okD [OF assms] take_drop)
  have ih: "decode_sector_loop4 D n (drop 48 (take 64 data)) (drop 64 data) =
      decode_sector_loop D (4 * n) (drop 48 (take 64 data)) (drop 64 data)"
    by (rule Suc.IH) (use Suc.prems in simp_all)
  have "4 * Suc n = Suc (Suc (Suc (Suc 0))) + 4 * n" by simp
  then have "decode_sector_loop D (4 * Suc n) prev data =
      (case decode_sector_loop D (Suc (Suc (Suc (Suc 0)))) prev data of (out, lst) \<Rightarrow>
        (case decode_sector_loop D (4 * n) lst (drop 64 data) of (out', lst') \<Rightarrow> (out @ out', lst')))"
    by (simp only: decode_sector_loop_add) (simp add: case_prod_beta)
  then show ?case
    using ih four by (simp del: decode_sector_loop.simps mult_Suc_right add: Let_def case_prod_beta)
qed simp

text \<open>The data of a sector of at least one block, with ciphertext stealing.\<close>

definition whole_blocks :: "nat \<Rightarrow> nat" where
  "whole_blocks len = (if len mod 16 \<noteq> 0 then len - (len mod 16 + 16) else len) div 16"

definition encode_steal :: "block_fun \<Rightarrow> byte list \<Rightarrow> byte list \<Rightarrow> nat \<Rightarrow> byte list" where
  "encode_steal E prev rest k =
     (let aesdst = E (xor16_unaligned_inplace prev (take 16 rest))
      in E (xor_cnt_inplace aesdst (drop 16 rest) k) @ take k aesdst)"

definition encode_data :: "block_fun \<Rightarrow> byte list \<Rightarrow> byte list \<Rightarrow> byte list" where
  "encode_data E prev data =
     (let n = whole_blocks (length data); k = length data mod 16; (out, prev) = encode_sector_loop E n prev data
      in out @ (if k \<noteq> 0 then encode_steal E prev (drop (16 * n) data) k else []))"

definition decode_data :: "block_fun \<Rightarrow> byte list \<Rightarrow> byte list \<Rightarrow> byte list" where
  "decode_data D prev data =
     (let n = whole_blocks (length data); k = length data mod 16; (out, prev) = decode_sector_loop D n prev data
      in out @ (if k \<noteq> 0 then decode_steal D prev (drop (16 * n) data) k else []))"

lemma whole_blocks:
  assumes "16 \<le> len"
  shows "16 * whole_blocks len = (if len mod 16 \<noteq> 0 then len - (len mod 16 + 16) else len)"
    and "len mod 16 \<noteq> 0 \<Longrightarrow> len = 16 * whole_blocks len + 16 + len mod 16"
    and "len mod 16 = 0 \<Longrightarrow> len = 16 * whole_blocks len"
proof -
  obtain q where q: "len = 16 * q + len mod 16" by (metis mult_div_mod_eq)
  then have "len mod 16 \<noteq> 0 \<Longrightarrow> 0 < q" using assms by (cases q) auto
  then obtain p where p: "len mod 16 \<noteq> 0 \<Longrightarrow> q = Suc p" by (cases q) auto
  then have w: "whole_blocks len = (if len mod 16 \<noteq> 0 then p else q)" using q by (auto simp: whole_blocks_def)
  then show "16 * whole_blocks len = (if len mod 16 \<noteq> 0 then len - (len mod 16 + 16) else len)"
    "len mod 16 \<noteq> 0 \<Longrightarrow> len = 16 * whole_blocks len + 16 + len mod 16" "len mod 16 = 0 \<Longrightarrow> len = 16 * whole_blocks len"
    using q p by (auto split: if_splits)
qed

lemma xor_bytes_cancel_left: "length a \<le> length b \<Longrightarrow> xor_bytes b (xor_bytes a b) = a"
  by (metis xor_bytes_cancel xor_bytes_commute)

lemma steal_roundtrip:
  assumes "aes_ok E D" and "length prev = 16" and "length rest = 16 + k" and "k < 16"
  shows "decode_steal D prev (encode_steal E prev rest k) k = rest"
    and "encode_steal E prev (decode_steal D prev rest k) k = rest"
    and "length (encode_steal E prev rest k) = length rest" and "length (decode_steal D prev rest k) = length rest"
proof -
  let ?p = "take 16 rest" and ?t = "drop 16 rest"
  define a where "a = E (xor_bytes prev ?p)"
  have len: "length ?p = 16" "length ?t = k" using assms by simp_all
  have a: "length a = 16" "D a = xor_bytes prev ?p" unfolding a_def using len assms(2) by (simp_all add: aes_okD [OF assms(1)])
  define b where "b = xor_bytes (take k a) ?t @ drop k a"
  have b: "length b = 16" "length (E b) = 16" "D (E b) = b" unfolding b_def using len assms(4) a by (simp_all add: aes_okD [OF assms(1)])
  have enc: "encode_steal E prev rest k = E b @ take k a"
    using len assms(2,3) a by (simp add: encode_steal_def Let_def xor_cnt_inplace_def a_def b_def)
  have "xor_bytes (xor_bytes (take k a) ?t) (take k a) = ?t"
    using xor_bytes_cancel [of ?t "take k a"] len assms(4) a by (simp add: xor_bytes_commute)
  moreover have "xor_bytes (xor_bytes prev ?p) prev = ?p"
    using xor_bytes_cancel [of ?p prev] len assms(2) by (simp add: xor_bytes_commute)
  ultimately have "decode_steal D prev (E b @ take k a) k = ?p @ ?t"
    using len assms(2,4) a b by (simp add: decode_steal_def Let_def xor_cnt_inplace_def b_def)
  then show "decode_steal D prev (encode_steal E prev rest k) k = rest" unfolding enc by simp
  show "length (encode_steal E prev rest k) = length rest" unfolding enc using a b assms(3,4) by simp
  define d where "d = D ?p"
  have d: "length d = 16" "E d = ?p" unfolding d_def using len by (simp_all add: aes_okD [OF assms(1)])
  define c where "c = ?t @ drop k d"
  have c: "length c = 16" "length (D c) = 16" "E (D c) = c" unfolding c_def using d len assms(4) by (simp_all add: aes_okD [OF assms(1)])
  have dec: "decode_steal D prev rest k = xor_bytes (D c) prev @ xor_bytes (take k d) ?t"
    using len assms(2-4) d c by (simp add: decode_steal_def Let_def xor_cnt_inplace_def d_def c_def)
  have "xor_bytes prev (xor_bytes (D c) prev) = D c" using xor_bytes_cancel_left [of "D c" prev] c assms(2) by simp
  moreover have "xor_bytes ?t (xor_bytes (take k d) ?t) = take k d" using xor_bytes_cancel_left [of "take k d" ?t] d len assms(4) by simp
  ultimately have "encode_steal E prev (xor_bytes (D c) prev @ xor_bytes (take k d) ?t) k = ?p @ ?t"
    using len assms(2,4) c d by (simp add: encode_steal_def Let_def xor_cnt_inplace_def c_def)
  then show "encode_steal E prev (decode_steal D prev rest k) k = rest" unfolding dec by simp
  show "length (decode_steal D prev rest k) = length rest" unfolding dec using c d len assms(2,3,4) by simp
qed

lemma encode_data_length:
  assumes "aes_ok E D" and "length prev = 16" and "16 \<le> length data"
  shows "length (encode_data E prev data) = length data" and "length (decode_data D prev data) = length data"
proof -
  let ?n = "whole_blocks (length data)" and ?k = "length data mod 16"
  have n: "16 * ?n \<le> length data" using whole_blocks [OF assms(3)] by simp
  have loop: "length (fst (encode_sector_loop E ?n prev data)) = 16 * ?n" "length (snd (encode_sector_loop E ?n prev data)) = 16"
    "length (fst (decode_sector_loop D ?n prev data)) = 16 * ?n" "length (snd (decode_sector_loop D ?n prev data)) = 16"
    using encode_sector_loop_length [OF assms(1,2) n] decode_sector_loop_length [OF assms(1,2) n] by simp_all
  have rest: "?k \<noteq> 0 \<Longrightarrow> length (drop (16 * ?n) data) = 16 + ?k" using whole_blocks(2) [OF assms(3)] by simp
  show "length (encode_data E prev data) = length data" "length (decode_data D prev data) = length data"
    using loop steal_roundtrip(3,4) [OF assms(1) _ rest] whole_blocks(2,3) [OF assms(3)]
    by (cases "?k = 0"; simp add: encode_data_def decode_data_def Let_def case_prod_beta)+
qed

lemma decode_encode_data:
  assumes "aes_ok E D" and "length prev = 16" and "16 \<le> length data"
  shows "decode_data D prev (encode_data E prev data) = data" and "encode_data E prev (decode_data D prev data) = data"
proof -
  let ?n = "whole_blocks (length data)" and ?k = "length data mod 16"
  have n: "16 * ?n \<le> length data" using whole_blocks [OF assms(3)] by simp
  have rest: "?k \<noteq> 0 \<Longrightarrow> length (drop (16 * ?n) data) = 16 + ?k" using whole_blocks(2) [OF assms(3)] by simp
  have all: "?k = 0 \<Longrightarrow> take (16 * ?n) data = data" using whole_blocks(3) [OF assms(3)] by simp
  let ?e = "encode_sector_loop E ?n prev data"
  have e: "length (fst ?e) = 16 * ?n" "length (snd ?e) = 16" using encode_sector_loop_length [OF assms(1,2) n] by simp_all
  have ed: "encode_data E prev data = fst ?e @ (if ?k \<noteq> 0 then encode_steal E (snd ?e) (drop (16 * ?n) data) ?k else [])"
    by (simp add: encode_data_def Let_def case_prod_beta)
  have "decode_sector_loop D ?n prev (encode_data E prev data) = (take (16 * ?n) data, snd ?e)"
    unfolding ed using decode_encode_loop [OF assms(1,2) n] e by (simp add: decode_sector_loop_append)
  moreover have "drop (16 * ?n) (encode_data E prev data) = (if ?k \<noteq> 0 then encode_steal E (snd ?e) (drop (16 * ?n) data) ?k else [])"
    unfolding ed using e by simp
  ultimately show "decode_data D prev (encode_data E prev data) = data"
    using encode_data_length(1) [OF assms] steal_roundtrip(1) [OF assms(1) e(2) rest] all
    by (simp add: decode_data_def Let_def)
  let ?d = "decode_sector_loop D ?n prev data"
  have d: "length (fst ?d) = 16 * ?n" "length (snd ?d) = 16" using decode_sector_loop_length [OF assms(1,2) n] by simp_all
  have dd: "decode_data D prev data = fst ?d @ (if ?k \<noteq> 0 then decode_steal D (snd ?d) (drop (16 * ?n) data) ?k else [])"
    by (simp add: decode_data_def Let_def case_prod_beta)
  have "encode_sector_loop E ?n prev (decode_data D prev data) = (take (16 * ?n) data, snd ?d)"
    unfolding dd using encode_decode_loop [OF assms(1,2) n] d by (simp add: encode_sector_loop_append)
  moreover have "drop (16 * ?n) (decode_data D prev data) = (if ?k \<noteq> 0 then decode_steal D (snd ?d) (drop (16 * ?n) data) ?k else [])"
    unfolding dd using d by simp
  ultimately show "encode_data E prev (decode_data D prev data) = data"
    using encode_data_length(2) [OF assms] steal_roundtrip(2) [OF assms(1) d(2) rest] all
    by (simp add: encode_data_def Let_def)
qed

subsection \<open>The sector code in these terms\<close>

lemma encode_sector_eq:
  assumes "length rnd = 16"
  shows "psync_crypto_aes256_encode_sector sha E iv rnd data sectorid =
    (if length data < 16 then
       (take (length data) rnd, E (xor_bytes (take (length data) rnd) data @ drop (length data) rnd) @
          E (take 16 (take 16 (sector_hmac sha iv data sectorid rnd))))
     else (encode_data E (take 16 (sector_hmac sha iv data sectorid rnd)) data,
       psync_aes256_encode_2blocks_consec E (take 8 rnd @ take 16 (sector_hmac sha iv data sectorid rnd) @ drop 8 rnd)))"
  using assms
  by (auto simp: psync_crypto_aes256_encode_sector_def encode_data_def encode_steal_def whole_blocks_def Let_def case_prod_beta
      psync_aes256_encode_2blocks_consec_def xor_cnt_inplace_def)

lemma decode_sector_eq:
  assumes "aes_ok E D" and "length auth = 32"
  shows "psync_crypto_aes256_decode_sector sha D iv data auth sectorid =
    (let h = D (take 16 auth) @ D (drop 16 auth);
         mac = (if length data < 16 then drop 16 h else take 16 (drop 8 h));
         rnd = (if length data < 16 then data @ take (16 - length data) (drop (length data) h) else take 8 h @ drop 24 h);
         out = (if length data < 16 then xor_bytes (take (length data) h) data else decode_data D mac data)
     in (out, - memcmp_const (sector_hmac sha iv out sectorid rnd) mac 16))"
proof -
  let ?h = "D (take 16 auth) @ D (drop 16 auth)"
  have len: "length (D (take 16 auth)) = 16" "length (D (drop 16 auth)) = 16"
    using assms(2) by (simp_all add: aes_okD [OF assms(1)])
  have h: "psync_aes256_decode_2blocks_consec D auth = ?h" "length ?h = 32"
    using assms(2) len by (simp_all add: psync_aes256_decode_2blocks_consec_def)
  show ?thesis
  proof (cases "length data < 16")
    case True
    then show ?thesis using h len by (simp add: psync_crypto_aes256_decode_sector_def Let_def xor_cnt_inplace_def)
  next
    case False
    let ?len = "16 * whole_blocks (length data)" and ?x = "take 16 (drop 8 ?h)"
    have w: "?len = (if length data mod 16 \<noteq> 0 then length data - (length data mod 16 + 16) else length data)"
      using whole_blocks(1) [of "length data"] False by simp
    have le: "?len \<le> length data" unfolding w by simp
    have parts: "4 * (?len div 64) + ?len mod 64 div 16 = whole_blocks (length data)"
      using div_mult_mult1 [of 16 "whole_blocks (length data)" 4] mult_mod_right [of 16 "whole_blocks (length data)" 4, symmetric]
      by (simp del: mult_mod_right)
    have four: "64 * (?len div 64) \<le> length data" using le times_div_less_eq_dividend [of 64 ?len] by linarith
    have "decode_sector_loop D (whole_blocks (length data)) ?x data =
        (let (out1, aesxor) = decode_sector_loop4 D (?len div 64) ?x data;
             (out2, aesxor) = decode_sector_loop D (?len mod 64 div 16) aesxor (drop (64 * (?len div 64)) data)
         in (out1 @ out2, aesxor))"
      using decode_sector_loop_add [of D "4 * (?len div 64)" "?len mod 64 div 16" ?x data]
        decode_sector_loop4_eq [OF assms(1) _ four, of ?x] h(2)
      by (simp only: parts) (simp add: case_prod_beta)
    then show ?thesis using False h len w
      by (simp add: psync_crypto_aes256_decode_sector_def decode_data_def Let_def case_prod_beta del: decode_sector_loop.simps)
  qed
qed

text \<open>The comparison that takes the same time on all inputs compares.\<close>

lemma byte_to_bit: "uint ((drop_bit 8 ((ucast (b :: byte) :: u32) - 1) AND 1) XOR 1) = (if b = 0 then 0 else 1)"
proof (cases "b = 0")
  case True
  have "uint ((drop_bit 8 ((0 :: u32) - 1) AND 1) XOR 1) = 0" by code_simp
  then show ?thesis using True by (simp only: unsigned_0 if_True simp_thms)
next
  case False
  have u: "unat (ucast b :: u32) = unat b" 
  proof -
    have "unat b < 2 ^ 32" using unat_byte_less [of b] by (rule less_le_trans) simp
    then have "take_bit 32 (unat b) = unat b" by (rule take_bit_nat_eq_self)
    then show ?thesis by (simp add: unsigned_ucast_eq)
  qed
  have nz: "(ucast b :: u32) \<noteq> 0" using False u by (metis unsigned_0 unat_eq_zero)
  have "unat ((ucast b :: u32) - 1) < 256" using unat_minus_one [OF nz] u unat_byte_less [of b] by linarith
  then have "drop_bit 8 ((ucast b :: u32) - 1) = 0" by (simp only: word_unat_eq_iff unat_drop_bit_eq) (simp add: drop_bit_eq_div)
  then show ?thesis using False by simp
qed

lemma fold_or_byte:
  "fold (\<lambda>i r. r OR ucast (f i :: byte)) is (ucast (b :: byte) :: u32) = ucast (fold (\<lambda>i r. r OR f i) is b)"
  by (induction "is" arbitrary: b) (simp_all flip: unsigned_or_eq)

lemma fold_or_zero: "fold (\<lambda>i r. r OR f i) is (b :: byte) = 0 \<longleftrightarrow> b = 0 \<and> (\<forall>i \<in> set is. f i = 0)"
  by (induction "is" arbitrary: b) (auto simp: or_eq_0_iff)

lemma xor_byte_eq_0: "(a::byte) XOR b = 0 \<longleftrightarrow> a = b"
proof
  assume "a XOR b = 0"
  then have "(a XOR b) XOR b = 0 XOR b" by simp
  then show "a = b" by (simp add: xor.assoc)
qed simp

lemma memcmp_const_eq:
  assumes "cnt \<le> length s1" and "cnt \<le> length s2"
  shows "memcmp_const s1 s2 cnt = (if take cnt s1 = take cnt s2 then 0 else 1)"
proof -
  let ?b = "fold (\<lambda>i r. r OR (s1 ! i XOR s2 ! i)) [0..<cnt] (0 :: byte)"
  have "memcmp_const s1 s2 cnt = (if ?b = 0 then 0 else 1)"
    using fold_or_byte [of "\<lambda>i. s1 ! i XOR s2 ! i" "[0..<cnt]" 0] by (simp add: memcmp_const_def byte_to_bit)
  moreover have "?b = 0 \<longleftrightarrow> take cnt s1 = take cnt s2"
    using assms by (auto simp: fold_or_zero xor_byte_eq_0 list_eq_iff_nth_eq)
  ultimately show ?thesis by simp
qed

lemma sector_hmac_length [simp]: "sha_ok sha \<Longrightarrow> length (sector_hmac sha iv data sectorid rnd) = 64"
  by (simp add: sector_hmac_def psync_hmac_sha512_final_def sha_ok_def)

lemma sector_decode_iff:
  assumes aes: "aes_ok E D" and sha: "sha_ok sha" and auth: "length auth = 32"
  shows "psync_crypto_aes256_decode_sector sha D iv data auth sectorid = (out, 0) \<longleftrightarrow>
    (\<exists>rnd. length rnd = 16 \<and> length out = length data \<and>
      psync_crypto_aes256_encode_sector sha E iv rnd out sectorid = (data, auth))"
    (is "?dec \<longleftrightarrow> ?enc")
proof -
  let ?n = "length data" and ?a = "D (take 16 auth)" and ?m = "D (drop 16 auth)"
  let ?h = "?a @ ?m"
  have am: "length ?a = 16" "length ?m = 16" "E ?a = take 16 auth" "E ?m = drop 16 auth"
    using auth by (simp_all add: aes_okD [OF aes])
  note eqs = decode_sector_eq [OF aes auth, of sha iv data sectorid] encode_sector_eq
  show ?thesis
  proof (cases "?n < 16")
    case True
    let ?rnd = "data @ take (16 - ?n) (drop ?n ?a)" and ?out = "xor_bytes (take ?n ?a) data"
    have rnd: "length ?rnd = 16" "length ?out = ?n" using True am by simp_all
    have dec: "?dec \<longleftrightarrow> out = ?out \<and> take 16 (sector_hmac sha iv ?out sectorid ?rnd) = ?m"
      using True am sha by (auto simp: eqs(1) Let_def memcmp_const_eq)
    have a: "xor_bytes data ?out = take ?n ?a" using True am xor_bytes_cancel_left [of "take ?n ?a" data] by simp
    show ?thesis
    proof
      assume ?dec
      then have "psync_crypto_aes256_encode_sector sha E iv ?rnd out sectorid = (data, auth)"
        using dec True am rnd a by (simp add: eqs(2))
      then show ?enc using \<open>?dec\<close> dec rnd by blast
    next
      assume ?enc
      then obtain rnd where r: "length rnd = 16" "length out = ?n" "take ?n rnd = data"
          "E (xor_bytes (take ?n rnd) out @ drop ?n rnd) @ E (take 16 (sector_hmac sha iv out sectorid rnd)) = auth"
        using True by (auto simp: eqs(2))
      let ?x = "xor_bytes (take ?n rnd) out @ drop ?n rnd" and ?y = "take 16 (sector_hmac sha iv out sectorid rnd)"
      have xy: "length ?x = 16" "length ?y = 16" using r True sha by simp_all
      then have ax: "?a = ?x" "?m = ?y" using r(4) by (auto simp: aes_okD [OF aes])
      have "xor_bytes (xor_bytes data out) data = out" using r(2) by (metis xor_bytes_cancel xor_bytes_commute le_refl)
      then have out: "?out = out" using r ax by simp
      have "?rnd = take ?n rnd @ drop ?n rnd" using r(1,2,3) ax True by simp
      then show ?dec using dec out ax by simp
    qed
  next
    case False
    define h where "h = ?h"
    define mac where "mac = take 16 (drop 8 h)"
    define rnd0 where "rnd0 = take 8 h @ drop 24 h"
    define out0 where "out0 = decode_data D mac data"
    have h: "length h = 32" "take 16 h = ?a" "drop 16 h = ?m" unfolding h_def using am by simp_all
    have len: "length mac = 16" "length rnd0 = 16" unfolding mac_def rnd0_def using h by simp_all
    have h8: "take 8 rnd0 @ mac @ drop 8 rnd0 = h"
      unfolding mac_def rnd0_def using h(1) append_take_drop_id [of 16 "drop 8 h"] by simp
    have out0: "length out0 = ?n" "encode_data E mac out0 = data"
      unfolding out0_def using False encode_data_length(2) [OF aes len(1)] decode_encode_data(2) [OF aes len(1)] by simp_all
    have "psync_crypto_aes256_decode_sector sha D iv data auth sectorid = (out0, - memcmp_const (sector_hmac sha iv out0 sectorid rnd0) mac 16)"
      using False by (simp only: eqs(1) Let_def if_False mac_def rnd0_def out0_def h_def)
    moreover have "memcmp_const (sector_hmac sha iv out0 sectorid rnd0) mac 16 =
        (if take 16 (sector_hmac sha iv out0 sectorid rnd0) = mac then 0 else 1)"
      using len(1) sha by (simp add: memcmp_const_eq)
    ultimately have dec: "?dec \<longleftrightarrow> out = out0 \<and> take 16 (sector_hmac sha iv out0 sectorid rnd0) = mac" by auto
    show ?thesis
    proof
      assume d: ?dec
      then have "psync_crypto_aes256_encode_sector sha E iv rnd0 out0 sectorid = (data, psync_aes256_encode_2blocks_consec E h)"
        using dec False len out0 h8 by (simp add: eqs(2))
      moreover have "psync_aes256_encode_2blocks_consec E h = auth"
        using h am by (simp add: psync_aes256_encode_2blocks_consec_def)
      ultimately show ?enc using d dec len(2) out0(1) by auto
    next
      assume ?enc
      then obtain rnd where r: "length rnd = 16" "length out = ?n"
          "encode_data E (take 16 (sector_hmac sha iv out sectorid rnd)) out = data"
          "psync_aes256_encode_2blocks_consec E (take 8 rnd @ take 16 (sector_hmac sha iv out sectorid rnd) @ drop 8 rnd) = auth"
        using False by (auto simp: eqs(2))
      define y where "y = take 16 (sector_hmac sha iv out sectorid rnd)"
      define x where "x = take 8 rnd @ y @ drop 8 rnd"
      have y: "length y = 16" unfolding y_def using sha by simp
      then have x: "length x = 32" "take 8 x = take 8 rnd" "take 16 (drop 8 x) = y" "drop 24 x = drop 8 rnd"
        unfolding x_def using r(1) by simp_all
      have xx: "length (take 16 x) = 16" "length (drop 16 x) = 16" "take 16 (drop 16 x) = drop 16 x" using x(1) by simp_all
      have "E (take 16 x) @ E (drop 16 x) = auth" using r(4) xx(3) by (simp add: psync_aes256_encode_2blocks_consec_def x_def y_def)
      then have "take 16 auth = E (take 16 x)" "drop 16 auth = E (drop 16 x)"
        using aes_okD(1) [OF aes xx(1)] by auto
      then have "h = x" unfolding h_def using xx by (simp add: aes_okD [OF aes])
      then have mac: "mac = y" "rnd0 = rnd" unfolding mac_def rnd0_def using x by simp_all
      have "out0 = out" unfolding out0_def mac(1) using decode_encode_data(1) [OF aes y, of out] r(2,3) False by (simp add: y_def)
      then show ?dec using dec mac by (simp add: y_def)
    qed
  qed
qed

text \<open>
  C4. A sector decodes, with return value 0, to exactly those data whose encoding it is: the code accepts a
  pair of encoded sector and authentication block, of any length, if and only if encoding the result
  with some 16 random bytes and the same sector id gives that pair. In particular encoding and then decoding
  gives the data back, and a sector moved to another id is accepted only where the keyed hash agrees.
\<close>

theorem sector_decode_iff_encoding:
  assumes aes: "aes_ok E D" and sha: "sha_ok sha" and auth: "length auth = 32"
  shows "psync_crypto_aes256_decode_sector sha D iv data auth sectorid = (out, 0) \<longleftrightarrow>
    (\<exists>rnd. length rnd = 16 \<and> length out = length data \<and>
      psync_crypto_aes256_encode_sector sha E iv rnd out sectorid = (data, auth))"
  by (rule sector_decode_iff [OF assms])

text \<open>The conditions hold of byte-wise functions, for example.\<close>

definition sample_aes :: block_fun where
  "sample_aes b = List.map (\<lambda>x. x XOR 0x5a) (rev b)"

definition sample_sha :: block_fun where
  "sample_sha m = take 64 (m @ replicate 64 1)"

lemma sample_ok: "aes_ok sample_aes sample_aes" "sha_ok sample_sha"
  by (auto simp: aes_ok_def sha_ok_def sample_aes_def sample_sha_def rev_map comp_def xor.assoc min_def)

definition sample_iv :: "byte list" where
  "sample_iv = List.map of_nat [0..<16]"

definition sample_sector :: "byte list \<times> byte list" where
  "sample_sector = psync_crypto_aes256_encode_sector sample_sha sample_aes sample_iv (replicate 16 9) (List.map of_nat [0..<21]) 3"

lemma sector_decode_iff_encoding_witness:
  "psync_crypto_aes256_decode_sector sample_sha sample_aes sample_iv (fst sample_sector) (snd sample_sector) 3 = (List.map of_nat [0..<21], 0)"
proof -
  have len: "length (snd sample_sector) = 32" "length (fst sample_sector) = 21" by code_simp+
  have "psync_crypto_aes256_encode_sector sample_sha sample_aes sample_iv (replicate 16 9) (List.map of_nat [0..<21]) 3 =
      (fst sample_sector, snd sample_sector)" by (simp add: sample_sector_def)
  then show ?thesis
    using sector_decode_iff_encoding [OF sample_ok len(1), of sample_iv "fst sample_sector" 3 "List.map of_nat [0..<21]"] len(2)
    by (metis length_map length_replicate length_upt minus_nat.diff_0)
qed

subsection \<open>Texts and their blocks\<close>

definition padded :: "byte list \<Rightarrow> byte list" where
  "padded txt = txt @ replicate (ALIGN_A256_BS (length txt) - length txt) 0"

lemma align_ge: "n \<le> ALIGN_A256_BS n"
proof -
  have "n + 15 = 16 * ((n + 15) div 16) + (n + 15) mod 16" by simp
  moreover have "(n + 15) mod 16 < 16" by simp
  ultimately have "n \<le> 16 * ((n + 15) div 16)" by linarith
  then show ?thesis by (simp add: ALIGN_A256_BS_def)
qed

lemma length_padded [simp]: "length (padded txt) = ALIGN_A256_BS (length txt)"
  using align_ge by (simp add: padded_def)

lemma align_step: "0 < n \<Longrightarrow> n \<le> 16 \<Longrightarrow> ALIGN_A256_BS n = 16" "16 \<le> n \<Longrightarrow> ALIGN_A256_BS n = 16 + ALIGN_A256_BS (n - 16)"
proof -
  assume "0 < n" "n \<le> 16"
  then have "(n + 15) div 16 = 1" by (simp add: div_nat_eqI)
  then show "ALIGN_A256_BS n = 16" by (simp add: ALIGN_A256_BS_def)
next
  assume "16 \<le> n"
  then have "(n + 15) div 16 = 1 + (n - 16 + 15) div 16" using div_add_self1 [of 16 "n - 1"] by simp
  then show "ALIGN_A256_BS n = 16 + ALIGN_A256_BS (n - 16)" by (simp add: ALIGN_A256_BS_def add.commute)
qed

lemma padded_split: "16 \<le> length txt \<Longrightarrow> padded txt = take 16 txt @ padded (drop 16 txt)"
  using align_step(2) [of "length txt"] by (simp add: padded_def add.commute)

lemma encode_text_loop_eq:
  assumes "aes_ok E D"
  shows "t \<noteq> [] \<Longrightarrow> length prev = 16 \<Longrightarrow>
    encode_text_loop E prev t = fst (encode_sector_loop E (ALIGN_A256_BS (length t) div 16) prev (padded t))"
proof (induction "length t" arbitrary: prev t rule: less_induct)
  case less
  show ?case
  proof (cases "16 < length t")
    case True
    let ?c = "E (xor_bytes prev (take 16 t))"
    have c: "length ?c = 16" using True less.prems(2) by (simp add: aes_okD [OF assms])
    have "encode_text_loop E prev t = ?c @ encode_text_loop E ?c (drop 16 t)"
      using True less.prems(2) by (subst encode_text_loop.simps) (simp add: copy_pad_def Let_def xor_bytes_commute [of "take 16 t"])
    also have "encode_text_loop E ?c (drop 16 t) =
        fst (encode_sector_loop E (ALIGN_A256_BS (length (drop 16 t)) div 16) ?c (padded (drop 16 t)))"
      by (rule less.hyps) (use True c in simp_all)
    finally show ?thesis
      using True less.prems(2) padded_split [of t] align_step(2) [of "length t"]
        div_add_self1 [of 16 "ALIGN_A256_BS (length t - 16)"] by (simp add: Let_def case_prod_beta)
  next
    case False
    then have one: "ALIGN_A256_BS (length t) = 16" using less.prems(1) align_step(1) [of "length t"] by simp
    then have "fst (copy_pad 16 t) = padded t" "snd (copy_pad 16 t) = []"
      using False by (auto simp: copy_pad_def padded_def)
    then have "encode_text_loop E prev t = E (xor_bytes (padded t) prev)"
      using one less.prems(2) by (subst encode_text_loop.simps) (simp add: case_prod_beta)
    then show ?thesis using one less.prems(2) by (simp add: Let_def xor_bytes_commute)
  qed
qed

lemma decode_text_loop_eq:
  assumes "aes_ok E D"
  shows "length prev = 16 \<Longrightarrow> 16 * n \<le> length c \<Longrightarrow> decode_text_loop D n (prev @ c) = fst (decode_sector_loop D n prev c)"
proof (induction n arbitrary: prev c)
  case (Suc n)
  have "c = take 16 c @ drop 16 c" by simp
  then have "decode_text_loop D n c = fst (decode_sector_loop D n (take 16 c) (drop 16 c))"
    using Suc.IH [of "take 16 c" "drop 16 c"] Suc.prems by simp
  then show ?case using Suc.prems by (simp add: Let_def case_prod_beta aes_okD [OF assms])
qed simp

lemma c_strlen_padded: "0 \<notin> set t \<Longrightarrow> c_strlen (t @ replicate k 0) = length t"
proof -
  assume "0 \<notin> set t"
  then have nz: "\<forall>c \<in> set t. c \<noteq> 0" by metis
  have eq: "takeWhile (\<lambda>c. c \<noteq> 0) t = t" by (rule takeWhile_eq_all_conv [THEN iffD2]) (rule nz)
  show ?thesis
  proof (cases k)
    case 0
    then show ?thesis unfolding c_strlen_def by (simp only: eq replicate_0 append_Nil2)
  next
    case (Suc n)
    then show ?thesis using nz by (simp add: c_strlen_def takeWhile_append)
  qed
qed

lemma encode_text_long:
  assumes "aes_ok E D" and "sha_ok sha" and "16 < length t"
  shows "snd (psync_crypto_aes256_encode_text sha E iv t) =
    (let c = E (xor_bytes (take 16 t) (take 16 (psync_hmac_sha512 sha (drop 16 t) iv)))
     in c @ fst (encode_sector_loop E (ALIGN_A256_BS (length t - 16) div 16) c (padded (drop 16 t))))"
proof -
  let ?h = "psync_hmac_sha512 sha (drop 16 t) iv"
  have h: "length ?h = 64" using assms(2) by (simp add: psync_hmac_sha512_def sha_ok_def)
  have "length (E (xor_bytes (take 16 t) (take 16 ?h))) = 16" using assms(3) h by (simp add: aes_okD [OF assms(1)])
  then show ?thesis
    using assms(3) h encode_text_loop_eq [OF assms(1), of "drop 16 t"]
    by (simp add: psync_crypto_aes256_encode_text_def Let_def)
qed

text \<open>
  C24. Decoding an encoded text gives the text back, padded with zeros, for every non-empty text without a zero
  byte, and what is written fills the output buffer exactly.
\<close>

theorem text_roundtrip:
  assumes aes: "aes_ok E D" and sha: "sha_ok sha" and iv: "16 \<le> length iv" and t: "0 \<notin> set t" "t \<noteq> []"
  shows "length (snd (psync_crypto_aes256_encode_text sha E iv t)) = fst (psync_crypto_aes256_encode_text sha E iv t) \<and>
    (\<exists>k. psync_crypto_aes256_decode_text sha D iv (snd (psync_crypto_aes256_encode_text sha E iv t)) = Some (t @ replicate k 0))"
proof (cases "16 < length t")
  case False
  then have one: "ALIGN_A256_BS (length t) = 16" using t align_step(1) [of "length t"] by simp
  then have pad: "fst (copy_pad 16 t) = padded t" "length (padded t) = 16" using False by (auto simp: copy_pad_def padded_def)
  have enc: "snd (psync_crypto_aes256_encode_text sha E iv t) = E (xor_bytes (padded t) (take 16 iv))"
    using False pad iv by (simp add: psync_crypto_aes256_encode_text_def)
  have len: "length (E (xor_bytes (padded t) (take 16 iv))) = 16" "length (xor_bytes (padded t) (take 16 iv)) = 16"
    using pad iv by (simp_all add: aes_okD [OF aes])
  have "xor_bytes (xor_bytes (padded t) (take 16 iv)) (take 16 iv) = padded t" using pad iv by (intro xor_bytes_cancel) simp
  then have ret: "xor16_aligned_inplace (D (E (xor_bytes (padded t) (take 16 iv)))) iv = padded t"
    using len iv by (simp add: aes_okD [OF aes])
  have "drop (length t + 1) (padded t) = replicate (ALIGN_A256_BS (length t) - length t - 1) 0" by (simp add: padded_def)
  then have "psync_crypto_aes256_decode_text sha D iv (E (xor_bytes (padded t) (take 16 iv))) = Some (padded t)"
    using len ret c_strlen_padded [OF t(1)] by (simp add: psync_crypto_aes256_decode_text_def padded_def)
  then show ?thesis unfolding enc using len one by (auto simp: psync_crypto_aes256_encode_text_def padded_def)
next
  case True
  let ?r = "drop 16 t" and ?n = "ALIGN_A256_BS (length t - 16) div 16"
  let ?h = "take 16 (psync_hmac_sha512 sha (drop 16 t) iv)"
  define c where "c = E (xor_bytes (take 16 t) ?h)"
  let ?e = "fst (encode_sector_loop E ?n c (padded ?r))"
  have h: "length ?h = 16" using sha by (simp add: psync_hmac_sha512_def sha_ok_def)
  have c: "length c = 16" "D c = xor_bytes (take 16 t) ?h" unfolding c_def using True h by (simp_all add: aes_okD [OF aes])
  have n: "16 * ?n = ALIGN_A256_BS (length t - 16)" "length (padded ?r) = 16 * ?n" "0 < ?n"
    using align_ge [of "length t - 16"] True by (auto simp: ALIGN_A256_BS_def)
  have e: "length ?e = 16 * ?n" using encode_sector_loop_length [OF aes c(1), of ?n "padded ?r"] n(2) by simp
  have enc: "snd (psync_crypto_aes256_encode_text sha E iv t) = c @ ?e"
    using encode_text_long [OF aes sha True, of iv] by (simp add: Let_def c_def)
  have rest: "decode_text_loop D ?n (c @ ?e) = padded ?r"
    using decode_text_loop_eq [OF aes c(1), of ?n ?e] decode_encode_loop [OF aes c(1), of ?n "padded ?r"] e n(2) by simp
  have len: "length (c @ ?e) = 16 + 16 * ?n" using c e by simp
  then have blocks: "length (c @ ?e) div 16 = Suc ?n" by simp
  have r: "0 \<notin> set ?r" using t(1) by (auto dest: in_set_dropD)
  have strlen: "c_strlen (padded ?r) = length ?r" using c_strlen_padded [OF r] by (simp add: padded_def)
  have "take (length ?r) (padded ?r) = ?r" by (simp add: padded_def)
  then have key: "take (c_strlen (padded ?r)) (padded ?r) = ?r" using strlen by simp
  have "xor_bytes (xor_bytes (take 16 t) ?h) ?h = take 16 t" using h True by (intro xor_bytes_cancel) simp
  then have ret: "xor16_aligned_inplace (D (take 16 (c @ ?e)) @ padded ?r) ?h = take 16 t @ padded ?r"
    using c h xor16_aligned_eq [of "D c @ padded ?r" ?h] True
    by (simp add: xor16_unaligned_inplace_def xor_cnt_inplace_def)
  have "drop (length ?r + 16 + 1) (take 16 t @ padded ?r) = replicate (ALIGN_A256_BS (length ?r) - length ?r - 1) 0"
    using True by (simp add: padded_def)
  then have zeros: "\<not> (\<exists>x \<in> set (drop (length ?r + 16 + 1) (take 16 t @ padded ?r)). x \<noteq> 0)" by simp
  have "length (c @ ?e) mod 16 = 0" "length (c @ ?e) \<noteq> 0" "length (c @ ?e) div 16 \<noteq> 1" "length (c @ ?e) div 16 - 1 = ?n"
    using len blocks n(3) by simp_all
  then have "psync_crypto_aes256_decode_text sha D iv (c @ ?e) = Some (take 16 t @ padded ?r)"
    unfolding psync_crypto_aes256_decode_text_def Let_def using rest key ret zeros strlen by (simp only: if_False simp_thms)
  moreover have "take 16 t @ padded ?r = t @ replicate (ALIGN_A256_BS (length ?r) - length ?r) 0" by (simp add: padded_def)
  moreover have "fst (psync_crypto_aes256_encode_text sha E iv t) = 16 + 16 * ?n"
    using n(1) True align_step(2) [of "length t"] by (simp add: psync_crypto_aes256_encode_text_def)
  ultimately show ?thesis unfolding enc using len by auto
qed

lemma text_roundtrip_witness:
  "\<exists>k. psync_crypto_aes256_decode_text sample_sha sample_aes sample_iv
     (snd (psync_crypto_aes256_encode_text sample_sha sample_aes sample_iv (List.map of_nat [1..<21]))) = Some (List.map of_nat [1..<21] @ replicate k 0)"
proof -
  have "0 \<notin> set (List.map of_nat [1..<21] :: byte list)" by code_simp
  then show ?thesis using text_roundtrip [OF sample_ok, of sample_iv "List.map of_nat [1..<21]"]
    by (simp add: sample_iv_def upt_conv_Nil del: upt_Suc)
qed

text \<open>For the empty text the buffer has no byte, and a whole block is written.\<close>

lemma encode_text_empty:
  assumes "aes_ok E D" and "16 \<le> length iv"
  shows "fst (psync_crypto_aes256_encode_text sha E iv []) = 0 \<and> length (snd (psync_crypto_aes256_encode_text sha E iv [])) = 16"
  using assms by (simp add: psync_crypto_aes256_encode_text_def copy_pad_def ALIGN_A256_BS_def aes_okD [OF assms(1)])

subsection \<open>The key stream\<close>

definition ctr_stream :: "block_fun \<Rightarrow> byte list \<Rightarrow> nat \<Rightarrow> byte" where
  "ctr_stream E iv k = ctr_block E iv (of_nat (k div 16)) ! (k mod 16)"

lemma ctr_block_length: "aes_ok E D \<Longrightarrow> length iv = 16 \<Longrightarrow> length (ctr_block E iv c) = 16"
  by (simp add: ctr_block_def copy_iv_and_xor_with_counter_def aes_okD)

lemma ctr_blocks_eq:
  assumes "aes_ok E D" and "length iv = 16"
  shows "length data div 16 = n \<Longrightarrow> ctr_blocks E iv n (of_nat c) data =
    List.map (\<lambda>i. data ! i XOR ctr_stream E iv (16 * c + i)) [0..<length data]"
proof (induction n arbitrary: c data)
  case 0
  then have "length data < 16" by (simp add: div_eq_0_iff)
  then show ?case
    by (intro nth_equalityI)
      (auto simp: xor_cnt_inplace_def xor_bytes_nth ctr_block_length [OF assms] ctr_stream_def)
next
  case (Suc n)
  then have ge: "16 \<le> length data" by (metis div_less nat.distinct(1) not_less)
  then have len: "16 \<le> length data" "length (drop 16 data) div 16 = n" using Suc.prems le_div_geq [of 16 "length data"] by simp_all
  let ?f = "\<lambda>i. data ! i XOR ctr_stream E iv (16 * c + i)"
  have "xor_bytes (take 16 data) (ctr_block E iv (of_nat c)) = List.map ?f [0..<16]"
    using len(1) by (intro nth_equalityI) (auto simp: xor_bytes_nth ctr_block_length [OF assms] ctr_stream_def)
  moreover have "ctr_blocks E iv n (of_nat c + 1) (drop 16 data) = List.map ?f [16..<length data]"
  proof -
    have "ctr_blocks E iv n (of_nat (Suc c)) (drop 16 data) =
        List.map (\<lambda>i. drop 16 data ! i XOR ctr_stream E iv (16 * Suc c + i)) [0..<length (drop 16 data)]"
      by (rule Suc.IH) (rule len(2))
    also have "\<dots> = List.map ?f [16..<length data]"
      using len(1) by (intro nth_equalityI) (simp_all add: algebra_simps)
    finally show ?thesis by (simp add: add.commute)
  qed
  moreover have "[0..<length data] = [0..<16] @ [16..<length data]" using len(1) by (metis le_add_diff_inverse upt_add_eq_append zero_le)
  ultimately show ?case using len(1) by (simp add: ctr_block_length [OF assms] del: upt_Suc)
qed

lemma split_block: "s < 16 \<Longrightarrow> (16 * q + s) div 16 = q \<and> (16 * q + s) mod 16 = (s :: nat)"
  by simp

lemma next_block: "m < 16 \<Longrightarrow> off = 16 * q + m \<Longrightarrow> 16 * Suc q + i = off + (16 - m + i)" for off :: nat
  by simp

text \<open>
  C38. Counter mode xors every byte with the key stream at its position in the file, for any offset and any
  length that reaches the end of the block the data start in, so the encoding does not depend on how the data
  are cut, and encoding twice gives the data back; data that end inside that first block, away from
  its start, corrupt memory.
\<close>

theorem ctr_is_stream_cipher:
  assumes aes: "aes_ok E D" and iv: "length iv = 16"
  shows "psync_crypto_aes256_ctr_encode_decode_inplace E iv data off =
    (if unat off mod 16 \<noteq> 0 \<and> length data < 16 - unat off mod 16 then None
     else Some (List.map (\<lambda>i. data ! i XOR ctr_stream E iv (unat off + i)) [0..<length data]))"
proof -
  have "unat off < 2 ^ 64" using unsigned_less [of off, where 'a = nat] by simp
  then have "unat off div 16 < 2 ^ 64" by (meson div_le_dividend le_less_trans)
  then have off: "unat (off mod 16) = unat off mod 16" "off div 16 = of_nat (unat off div 16)"
    by (simp_all add: unat_mod word_unat_eq_iff unat_div unat_of_nat)
  let ?b = "16 - unat off mod 16" and ?f = "\<lambda>i. data ! i XOR ctr_stream E iv (unat off + i)"
  show ?thesis
  proof (cases "unat off mod 16 = 0")
    case True
    then have "16 * (unat off div 16) = unat off" by (simp add: mult_div_mod_eq flip: minus_mod_eq_mult_div)
    then show ?thesis using True off ctr_blocks_eq [OF aes iv refl, of data "unat off div 16"]
      by (simp add: psync_crypto_aes256_ctr_encode_decode_inplace_def)
  next
    case False
    have q: "unat off = 16 * (unat off div 16) + unat off mod 16" by simp
    show ?thesis
    proof (cases "length data < ?b")
      case True
      then show ?thesis using False off by (simp add: psync_crypto_aes256_ctr_encode_decode_inplace_def)
    next
      case enough: False
      have pos: "(unat off + i) div 16 = unat off div 16" "(unat off + i) mod 16 = unat off mod 16 + i" if "i < ?b" for i
      proof -
        have s: "unat off mod 16 + i < 16" using that by simp
        have e: "unat off + i = 16 * (unat off div 16) + (unat off mod 16 + i)" using q by linarith
        show "(unat off + i) div 16 = unat off div 16" "(unat off + i) mod 16 = unat off mod 16 + i"
          unfolding e using split_block [OF s] by blast+
      qed
      have first: "xor_cnt_inplace (take ?b data) (drop (unat off mod 16) (ctr_block E iv (of_nat (unat off div 16)))) ?b = List.map ?f [0..<?b]"
        using enough pos by (intro nth_equalityI)
          (auto simp: xor_cnt_inplace_def xor_bytes_nth ctr_block_length [OF aes iv] ctr_stream_def)
      have "ctr_blocks E iv (length (drop ?b data) div 16) (of_nat (Suc (unat off div 16))) (drop ?b data) =
          List.map (\<lambda>i. drop ?b data ! i XOR ctr_stream E iv (16 * Suc (unat off div 16) + i)) [0..<length (drop ?b data)]"
        by (rule ctr_blocks_eq [OF aes iv refl])
      also have "\<dots> = List.map ?f [?b..<length data]"
      proof (rule nth_equalityI)
        fix i assume "i < length (List.map (\<lambda>i. drop ?b data ! i XOR ctr_stream E iv (16 * Suc (unat off div 16) + i)) [0..<length (drop ?b data)])"
        then have i: "i < length data - ?b" by simp
        have "16 * Suc (unat off div 16) + i = unat off + (?b + i)" 
        proof -
          have "unat off mod 16 < 16" by simp
          then show ?thesis using q by (rule next_block)
        qed
        then show "List.map (\<lambda>i. drop ?b data ! i XOR ctr_stream E iv (16 * Suc (unat off div 16) + i)) [0..<length (drop ?b data)] ! i =
            List.map ?f [?b..<length data] ! i"
          using i enough by (simp add: not_less)
      qed simp
      finally have rest: "ctr_blocks E iv ((length data - ?b) div 16) (off div 16 + 1) (drop ?b data) = List.map ?f [?b..<length data]"
        using off(2) by (simp add: add.commute)
      have "[0..<length data] = [0..<?b] @ [?b..<length data]"
        using enough by (metis le_add_diff_inverse not_less upt_add_eq_append zero_le)
      then show ?thesis using False enough off first rest
        by (simp add: psync_crypto_aes256_ctr_encode_decode_inplace_def Let_def)
    qed
  qed
qed

lemma ctr_is_stream_cipher_witness:
  "psync_crypto_aes256_ctr_encode_decode_inplace sample_aes sample_iv (List.map of_nat [0..<40]) 5 =
     Some (List.map (\<lambda>i. (List.map of_nat [0..<40] ! i :: byte) XOR ctr_stream sample_aes sample_iv (5 + i)) [0..<40]) \<and>
   psync_crypto_aes256_ctr_encode_decode_inplace sample_aes sample_iv [1, 2] 5 = None"
proof -
  have "length sample_iv = 16" by (simp add: sample_iv_def)
  then show ?thesis
    using ctr_is_stream_cipher [OF sample_ok(1), of sample_iv "List.map of_nat [0..<40]" 5] ctr_is_stream_cipher [OF sample_ok(1), of sample_iv "[1, 2]" 5]
    by simp
qed

text \<open>
  Creating an encoder or decoder for texts gives the invalid one exactly when the key is too short or the
  library fails, and otherwise an initialisation vector of at least one block, as the encoding needs; the
  pair for sectors fails in the same way except that a decoder the library could not create is not noticed.
\<close>

lemma crypto_create_errors:
  "(psync_crypto_aes256_text_encoder_create mk key = None \<longleftrightarrow> length key < 48 \<or> mk key = None) \<and>
   (psync_crypto_aes256_text_decoder_create mk key = None \<longleftrightarrow> length key < 48 \<or> mk key = None) \<and>
   (case psync_crypto_aes256_text_encoder_create mk key of None \<Rightarrow> True | Some c \<Rightarrow> 16 \<le> length (text_iv c)) \<and>
   (case psync_crypto_aes256_ctr_encoder_decoder_create mk key of None \<Rightarrow> length key < 48 \<or> mk key = None
      | Some c \<Rightarrow> length (text_iv c) = 16) \<and>
   (psync_crypto_aes256_sector_encoder_decoder_create mk mkdec key = None \<longleftrightarrow> length key < 32 \<or> mk key = None) \<and>
   (case psync_crypto_aes256_sector_encoder_decoder_create mk mkdec key of None \<Rightarrow> True | Some c \<Rightarrow> sector_decoder c = mkdec key)"
  by (auto simp: psync_crypto_aes256_text_encoder_create_def psync_crypto_aes256_text_decoder_create_def
      psync_crypto_aes256_ctr_encoder_decoder_create_def psync_crypto_aes256_sector_encoder_decoder_create_def Let_def split: option.splits)

end
