(* ===== verification/Pfslog.thy ===== *)
theory Pfslog
  imports Pfsreplay Pcrypto Pintervaltree
begin

section \<open>Reading and writing an encrypted file through its log (pfscrypto.c)\<close>

text \<open>
  A file that is being written has a data file, with what was replayed, and a log, with the sectors written
  since; \<open>sectorsinlog\<close> is a search tree with the place of the newest copy of each sector in
  the log. A sector is read from the log if it is there, else from the data file; writing one appends a
  record. Finalising a log appends the authentication sectors of the changed sectors and, for a file that
  exists remotely, the changed intervals, marks the log as complete, moves it away and replays it.

  An operation maps the state of the open file to the new state with a result or an error code; \<open>None\<close> is a
  failing assertion. The file has no \<open>extender\<close> (the thread that fills a hole of many sectors in the
  background). Debug output and sleeping are left out.
\<close>

subsection \<open>State\<close>

abbreviation EIO :: int where "EIO \<equiv> 5"
abbreviation EINVAL :: int where "EINVAL \<equiv> 22"
abbreviation PSYNC_CRYPTO_MAX_LOG_SIZE :: nat where "PSYNC_CRYPTO_MAX_LOG_SIZE \<equiv> 67108864"

record sector_inlog =
  lsectorid :: nat
  inlogoffset :: nat
  lauth :: "byte list"

text \<open>
  \<open>logfile\<close> is \<open>None\<close> when the handle is invalid, \<open>flog\<close> is the file a complete log is renamed to.
  \<open>allocated\<close> is the next fresh address, \<open>draws\<close> counts the random strings drawn.
\<close>

record openfile =
  datafile :: file_bytes
  indexfile :: "file_bytes option"
  logfile :: "file_bytes option"
  logoffset :: nat
  loghashctx :: fast_hash256_ctx
  sectorsinlog :: "nat ptree"
  inlog :: "nat \<Rightarrow> sector_inlog"
  currentsize :: nat
  newfile :: bool
  writeintervals :: "nat itree"
  flog :: "file_bytes option"
  allocated :: nat
  draws :: nat
  pending :: faults

text \<open>The encoder of the file, the random strings, and what uninitialised memory holds.\<close>

record file_env =
  hashing :: hash_env
  fsha :: block_fun
  fE :: block_fun
  fD :: block_fun
  fiv :: "byte list"
  randoms :: "nat \<Rightarrow> byte list"
  stack_auth :: "nat \<Rightarrow> byte list"
  stack_pad :: "byte list"

type_synonym 'a op = "openfile \<Rightarrow> ((int + 'a) \<times> openfile) option"

definition op_return :: "'a \<Rightarrow> 'a op" where "op_return x = (\<lambda>s. Some (Inr x, s))"
definition op_error :: "int \<Rightarrow> 'a op" where "op_error e = (\<lambda>s. Some (Inl e, s))"
definition op_assert :: "bool \<Rightarrow> unit op" where "op_assert b = (\<lambda>s. if b then Some (Inr (), s) else None)"
definition op_get :: "(openfile \<Rightarrow> 'a) \<Rightarrow> 'a op" where "op_get f = (\<lambda>s. Some (Inr (f s), s))"
definition op_modify :: "(openfile \<Rightarrow> openfile) \<Rightarrow> unit op" where "op_modify f = (\<lambda>s. Some (Inr (), f s))"

definition op_some :: "'a option \<Rightarrow> 'a op" where
  "op_some v = (\<lambda>s. case v of None \<Rightarrow> None | Some x \<Rightarrow> Some (Inr x, s))"

definition op_bind :: "'a op \<Rightarrow> ('a \<Rightarrow> 'b op) \<Rightarrow> 'b op" where
  "op_bind m f = (\<lambda>s. case m s of None \<Rightarrow> None | Some (Inl e, s) \<Rightarrow> Some (Inl e, s) | Some (Inr x, s) \<Rightarrow> f x s)"

definition op_unless :: "bool \<Rightarrow> int \<Rightarrow> unit op" where
  "op_unless b e = (if b then op_return () else op_error (- e))"

text \<open>The file operations on the handles; on an invalid handle they fail. The last is any other call, true if it fails.\<close>

definition log_pread :: "nat \<Rightarrow> nat \<Rightarrow> (int \<times> byte list) op" where
  "log_pread cnt off = (\<lambda>s. case logfile s of
       None \<Rightarrow> Some (Inr (-1, []), s)
     | Some f \<Rightarrow> (case psync_file_pread f cnt off (pending s) of (rd, buff, fs) \<Rightarrow> Some (Inr (rd, buff), s\<lparr>pending := fs\<rparr>)))"

definition log_pwrite :: "byte list \<Rightarrow> nat \<Rightarrow> int op" where
  "log_pwrite data off = (\<lambda>s. case logfile s of
       None \<Rightarrow> Some (Inr (-1), s)
     | Some f \<Rightarrow> (case psync_file_pwrite f data off (pending s) of (wrt, f, fs) \<Rightarrow> Some (Inr wrt, s\<lparr>logfile := Some f, pending := fs\<rparr>)))"

definition log_size :: "int op" where
  "log_size = (\<lambda>s. case logfile s of
       None \<Rightarrow> Some (Inr (-1), s)
     | Some f \<Rightarrow> (case psync_file_size f (pending s) of (sz, fs) \<Rightarrow> Some (Inr sz, s\<lparr>pending := fs\<rparr>)))"

definition log_seek_truncate :: "nat \<Rightarrow> bool op" where
  "log_seek_truncate off = (\<lambda>s. case logfile s of
       None \<Rightarrow> Some (Inr True, s)
     | Some f \<Rightarrow> (case seek_truncate f off (pending s) of (bad, f, fs) \<Rightarrow> Some (Inr bad, s\<lparr>logfile := Some f, pending := fs\<rparr>)))"

definition data_pread :: "nat \<Rightarrow> nat \<Rightarrow> (int \<times> byte list) op" where
  "data_pread cnt off = (\<lambda>s. case psync_file_pread (datafile s) cnt off (pending s) of (rd, buff, fs) \<Rightarrow> Some (Inr (rd, buff), s\<lparr>pending := fs\<rparr>))"

definition data_size :: "int op" where
  "data_size = (\<lambda>s. case psync_file_size (datafile s) (pending s) of (sz, fs) \<Rightarrow> Some (Inr sz, s\<lparr>pending := fs\<rparr>))"

definition file_call :: "bool op" where
  "file_call = (\<lambda>s. case next_fault (pending s) of (f, fs) \<Rightarrow> Some (Inr (f = Fail), s\<lparr>pending := fs\<rparr>))"

definition hash_update :: "file_env \<Rightarrow> byte list \<Rightarrow> unit op" where
  "hash_update env bs = op_modify (\<lambda>s. s\<lparr>loghashctx := fh_update (hashing env) (loghashctx s) bs\<rparr>)"

definition psync_fs_crypto_init_log :: "file_env \<Rightarrow> unit op" where
  "psync_fs_crypto_init_log env =
     op_bind (log_pwrite (replicate PSYNC_CRYPTO_SECTOR_SIZE 0xff) 0) (\<lambda>wrt.
     op_bind (op_unless (wrt = int PSYNC_CRYPTO_SECTOR_SIZE) EIO) (\<lambda>_.
     op_modify (\<lambda>s. s\<lparr>logoffset := PSYNC_CRYPTO_SECTOR_SIZE, loghashctx := fh_init (hashing env)\<rparr>)))"

subsection \<open>Reading\<close>

definition decode_sector :: "file_env \<Rightarrow> byte list \<Rightarrow> byte list \<Rightarrow> nat \<Rightarrow> byte list \<times> int" where
  "decode_sector env data auth sectorid = psync_crypto_aes256_decode_sector (fsha env) (fD env) (fiv env) data auth (of_nat sectorid)"

definition psync_fs_crypto_read_newfile_full_sector_from_log :: "file_env \<Rightarrow> sector_inlog \<Rightarrow> byte list op" where
  "psync_fs_crypto_read_newfile_full_sector_from_log env se =
     op_bind (log_pread 16 (inlogoffset se)) (\<lambda>(rd, hb).
     op_bind (op_unless (rd = 16) EIO) (\<lambda>_.
     (let hdr = header_of hb in
      op_bind (op_unless (htype hdr = PSYNC_CRYPTO_LOG_DATA) EIO) (\<lambda>_.
      op_bind (op_assert (hoffset hdr = psync_fs_crypto_data_sectorid_by_sectorid (lsectorid se) * PSYNC_CRYPTO_SECTOR_SIZE)) (\<lambda>_.
      op_bind (op_assert (hlength hdr \<le> PSYNC_CRYPTO_SECTOR_SIZE)) (\<lambda>_.
      op_bind (log_pread (hlength hdr) (inlogoffset se + 16)) (\<lambda>(rd, buff).
      op_bind (op_unless (rd = int (hlength hdr)) EIO) (\<lambda>_.
      (case decode_sector env buff (lauth se) (lsectorid se) of
         (buf, bad) \<Rightarrow> op_bind (op_unless (bad = 0) EIO) (\<lambda>_. op_return buf))))))))))"

definition psync_fs_crypto_read_newfile_full_sector_from_datafile :: "file_env \<Rightarrow> nat \<Rightarrow> byte list op" where
  "psync_fs_crypto_read_newfile_full_sector_from_datafile env sectorid =
     op_bind data_size (\<lambda>fs.
     op_bind (op_unless (fs \<noteq> -1) EIO) (\<lambda>_.
     op_bind (op_some (psync_fs_crypto_offsets_by_cryptosize (nat fs))) (\<lambda>offsets.
     (if sectorid * PSYNC_CRYPTO_SECTOR_SIZE \<ge> plainsize offsets then op_return []
      else
        (let ssize = (if sectorid * PSYNC_CRYPTO_SECTOR_SIZE + PSYNC_CRYPTO_SECTOR_SIZE > plainsize offsets
                      then plainsize offsets - sectorid * PSYNC_CRYPTO_SECTOR_SIZE else PSYNC_CRYPTO_SECTOR_SIZE)
         in
         op_bind (data_pread ssize (psync_fs_crypto_data_offset_by_sectorid sectorid)) (\<lambda>(rd, buff).
         op_bind (op_unless (rd = int ssize) EIO) (\<lambda>_.
         (let off = (if sectorid div PSYNC_CRYPTO_HASH_TREE_SECTORS =
                        get_last_sectorid_by_size (plainsize offsets) div PSYNC_CRYPTO_HASH_TREE_SECTORS
                     then lastauthsectoroff offsets ! 0
                     else psync_fs_crypto_auth_offset 0 (sectorid div PSYNC_CRYPTO_HASH_TREE_SECTORS));
              off = off + sectorid mod PSYNC_CRYPTO_HASH_TREE_SECTORS * PSYNC_CRYPTO_AUTH_SIZE
          in
          op_bind (data_pread PSYNC_CRYPTO_AUTH_SIZE off) (\<lambda>(rd, auth).
          op_bind (op_unless (rd = int PSYNC_CRYPTO_AUTH_SIZE) EIO) (\<lambda>_.
          (case decode_sector env buff auth sectorid of
             (buf, bad) \<Rightarrow> op_bind (op_unless (bad = 0) EIO) (\<lambda>_. op_return buf))))))))))))"

text \<open>The sign of the difference of two sector ids, one of 32 bits.\<close>

definition sector_diff :: "nat \<Rightarrow> nat \<Rightarrow> int" where
  "sector_diff a b = sint (of_nat a - of_nat b :: u32)"

fun sector_lookup :: "(nat \<Rightarrow> sector_inlog) \<Rightarrow> nat ptree \<Rightarrow> nat \<Rightarrow> nat option" where
  "sector_lookup secs Null sectorid = None"
| "sector_lookup secs (Node l tr h r) sectorid =
     (let d = sector_diff sectorid (lsectorid (secs tr)) in
      if d < 0 then sector_lookup secs l sectorid else if d > 0 then sector_lookup secs r sectorid else Some tr)"

definition psync_fs_crypto_read_newfile_full_sector :: "file_env \<Rightarrow> nat \<Rightarrow> byte list op" where
  "psync_fs_crypto_read_newfile_full_sector env sectorid =
     op_bind (op_get (\<lambda>s. map_option (inlog s) (sector_lookup (inlog s) (sectorsinlog s) sectorid))) (\<lambda>tr.
       case tr of Some se \<Rightarrow> psync_fs_crypto_read_newfile_full_sector_from_log env se
       | None \<Rightarrow> psync_fs_crypto_read_newfile_full_sector_from_datafile env sectorid)"

definition psync_fs_crypto_read_newfile_partial_sector :: "file_env \<Rightarrow> nat \<Rightarrow> nat \<Rightarrow> nat \<Rightarrow> byte list op" where
  "psync_fs_crypto_read_newfile_partial_sector env sectorid len off =
     op_bind (op_assert (off + len \<le> PSYNC_CRYPTO_SECTOR_SIZE)) (\<lambda>_.
     op_bind (psync_fs_crypto_read_newfile_full_sector env sectorid) (\<lambda>buff.
     op_return (if length buff \<le> off then [] else take len (drop off buff))))"

text \<open>The whole sectors in the middle; then the part of a sector that is left.\<close>

fun read_sectors :: "file_env \<Rightarrow> nat \<Rightarrow> nat \<Rightarrow> byte list op" where
  "read_sectors env len sectorid =
     (if len \<ge> PSYNC_CRYPTO_SECTOR_SIZE then
        op_bind (psync_fs_crypto_read_newfile_full_sector env sectorid) (\<lambda>buf.
        if length buf \<noteq> PSYNC_CRYPTO_SECTOR_SIZE then op_return buf
        else op_bind (read_sectors env (len - PSYNC_CRYPTO_SECTOR_SIZE) (wrap32 (sectorid + 1))) (\<lambda>rest. op_return (buf @ rest)))
      else if len > 0 then psync_fs_crypto_read_newfile_partial_sector env sectorid len 0
      else op_return [])"

declare read_sectors.simps [simp del]

text \<open>The result is what was stored in the buffer; its length is the number the code returns.\<close>

definition psync_fs_crypto_read_newfile_locked :: "file_env \<Rightarrow> nat \<Rightarrow> nat \<Rightarrow> byte list op" where
  "psync_fs_crypto_read_newfile_locked env len off =
     (if wrap64 (len + off + PSYNC_CRYPTO_SECTOR_SIZE - 1) div PSYNC_CRYPTO_SECTOR_SIZE > PSYNC_CRYPTO_MAX_SECTORID
      then op_error (- EINVAL)
      else
        op_bind (op_get currentsize) (\<lambda>fsize.
        if len = 0 \<or> fsize \<le> off then op_return []
        else
          (let len = (if wrap64 (off + len) > fsize then fsize - off else len);
               sectorid = wrap32 (off div PSYNC_CRYPTO_SECTOR_SIZE);
               off2 = off mod PSYNC_CRYPTO_SECTOR_SIZE
           in
           if off2 \<noteq> 0 then
             (let offdiff = (if PSYNC_CRYPTO_SECTOR_SIZE - off2 < len then PSYNC_CRYPTO_SECTOR_SIZE - off2 else len) in
              op_bind (psync_fs_crypto_read_newfile_partial_sector env sectorid offdiff off2) (\<lambda>buf.
              if length buf \<noteq> offdiff then op_return buf
              else op_bind (read_sectors env (len - offdiff) (wrap32 (sectorid + 1))) (\<lambda>rest. op_return (buf @ rest))))
           else read_sectors env len sectorid)))"

subsection \<open>Finalising the log\<close>

definition psync_interval_tree_add_op :: "nat \<Rightarrow> nat \<Rightarrow> unit op" where
  "psync_interval_tree_add_op fr to =
     op_bind (op_get (\<lambda>s. psync_interval_tree_add (writeintervals s) (of_nat fr) (of_nat to) (allocated s))) (\<lambda>res.
     op_bind (op_some res) (\<lambda>tree. op_modify (\<lambda>s. s\<lparr>writeintervals := tree, allocated := allocated s + 1\<rparr>)))"

definition add_written_interval :: "nat \<Rightarrow> nat \<Rightarrow> unit op" where
  "add_written_interval fr to =
     op_bind (op_get newfile) (\<lambda>isnew. if \<not> isnew then psync_interval_tree_add_op fr to else op_return ())"

text \<open>The sectors of authentication blocks being put together, one for each level.\<close>

type_synonym auth_array = "nat \<Rightarrow> byte list"

definition set_auth_block :: "nat \<Rightarrow> nat \<Rightarrow> byte list \<Rightarrow> auth_array \<Rightarrow> auth_array" where
  "set_auth_block level n auth arr =
     arr(level := take (PSYNC_CRYPTO_AUTH_SIZE * n) (arr level) @ auth @ drop (PSYNC_CRYPTO_AUTH_SIZE * n + PSYNC_CRYPTO_AUTH_SIZE) (arr level))"

definition sign_auth :: "file_env \<Rightarrow> byte list \<Rightarrow> byte list" where
  "sign_auth env data = psync_crypto_sign_auth_sector (fsha env) (fE env) (fiv env) data"

definition data_header :: "nat \<Rightarrow> nat \<Rightarrow> log_header" where
  "data_header len off = \<lparr>htype = PSYNC_CRYPTO_LOG_DATA, finalized = 0, hlength = len, longlengthlo = 0, hoffset = off\<rparr>"

text \<open>The position of an authentication sector and its size; the assertions are the code's.\<close>

definition auth_place :: "crypto_offsets \<Rightarrow> nat \<Rightarrow> nat \<Rightarrow> nat \<Rightarrow> (nat \<times> nat) option" where
  "auth_place offsets level secd sizesecd =
     (if secd = sizesecd then Some (lastauthsectoroff offsets ! level, lastauthsectorlen offsets ! level)
      else if \<not> secd < sizesecd then None
      else Some (psync_fs_crypto_auth_offset level secd, PSYNC_CRYPTO_SECTOR_SIZE))"

text \<open>Writing the sectors above the last changed data sector, up to the level it shares with the next one.\<close>

function switch_write :: "file_env \<Rightarrow> crypto_offsets \<Rightarrow> nat \<Rightarrow> nat \<Rightarrow> nat \<Rightarrow> nat \<Rightarrow> auth_array \<Rightarrow> auth_array op" where
  "switch_write env offsets level oldsecd newsecd sizesecd arr =
     op_bind (op_some (auth_place offsets level oldsecd sizesecd)) (\<lambda>(off, sz).
     op_bind (op_assert (wrap64 (off + sz) \<le> masterauthoff offsets + PSYNC_CRYPTO_AUTH_SIZE)) (\<lambda>_.
     (let hb = header_bytes (data_header sz off);
          data = take sz (arr level);
          arr = set_auth_block (level + 1) (oldsecd mod PSYNC_CRYPTO_HASH_TREE_SECTORS) (sign_auth env data) arr
      in
      op_bind (op_get logoffset) (\<lambda>logoff.
      op_bind (log_pwrite hb logoff) (\<lambda>wrt.
      op_bind (op_unless (wrt = 16) EIO) (\<lambda>_.
      op_bind (hash_update env hb) (\<lambda>_.
      op_bind (log_pwrite data (logoff + 16)) (\<lambda>wrt.
      op_bind (op_unless (wrt = int sz) EIO) (\<lambda>_.
      op_bind (hash_update env data) (\<lambda>_.
      op_bind (add_written_interval off (wrap64 (off + sz))) (\<lambda>_.
      op_bind (op_modify (\<lambda>s. s\<lparr>logoffset := wrap32 (logoff + sz + 16)\<rparr>)) (\<lambda>_.
      (let oldsecd = oldsecd div PSYNC_CRYPTO_HASH_TREE_SECTORS; newsecd = newsecd div PSYNC_CRYPTO_HASH_TREE_SECTORS;
           sizesecd = sizesecd div PSYNC_CRYPTO_HASH_TREE_SECTORS
       in if oldsecd \<noteq> newsecd \<and> level + 1 < treelevels offsets
          then switch_write env offsets (level + 1) oldsecd newsecd sizesecd arr
          else op_return arr)))))))))))))"
  by auto
termination by (relation "measure (\<lambda>(env, offsets, level, oldsecd, newsecd, sizesecd, arr). treelevels offsets - level)") auto

text \<open>Reading the sectors above the next one as they are in the data file.\<close>

function switch_read :: "nat \<Rightarrow> crypto_offsets \<Rightarrow> nat \<Rightarrow> nat \<Rightarrow> nat \<Rightarrow> nat \<Rightarrow> auth_array \<Rightarrow> auth_array op" where
  "switch_read nlevels ooffsets level oldsecd newsecd sizesecd arr =
     op_bind
       (if newsecd \<le> sizesecd then
          op_bind (op_some (auth_place ooffsets level newsecd sizesecd)) (\<lambda>(off, sz).
          op_bind (data_pread sz off) (\<lambda>(rd, data).
          op_bind (op_unless (rd = int sz) EIO) (\<lambda>_.
          op_return (arr(level := data @ drop sz (arr level))))))
        else op_return arr) (\<lambda>arr.
     (let oldsecd = oldsecd div PSYNC_CRYPTO_HASH_TREE_SECTORS; newsecd = newsecd div PSYNC_CRYPTO_HASH_TREE_SECTORS;
          sizesecd = sizesecd div PSYNC_CRYPTO_HASH_TREE_SECTORS; level = level + 1
      in if oldsecd \<noteq> newsecd \<and> level < nlevels \<and> (level < treelevels ooffsets \<or> needmasterauth ooffsets \<and> level = treelevels ooffsets)
         then switch_read nlevels ooffsets level oldsecd newsecd sizesecd arr
         else op_return arr))"
  by auto
termination by (relation "measure (\<lambda>(nlevels, ooffsets, level, oldsecd, newsecd, sizesecd, arr). nlevels - level)") auto

declare switch_write.simps [simp del] switch_read.simps [simp del]

definition psync_fs_crypto_switch_sectors :: "file_env \<Rightarrow> nat \<Rightarrow> nat \<Rightarrow> crypto_offsets \<Rightarrow> auth_array \<Rightarrow> auth_array op" where
  "psync_fs_crypto_switch_sectors env oldsectorid newsectorid offsets arr =
     (let secd = (\<lambda>sectorid. sectorid div PSYNC_CRYPTO_HASH_TREE_SECTORS) in
      op_bind
        (if oldsectorid \<noteq> PSYNC_CRYPTO_INVALID_SECTORID then
           switch_write env offsets 0 (secd oldsectorid) (secd newsectorid) (secd (get_last_sectorid_by_size (plainsize offsets))) arr
         else op_return arr) (\<lambda>arr.
      if newsectorid \<noteq> PSYNC_CRYPTO_INVALID_SECTORID then
        op_bind data_size (\<lambda>fsize.
        op_bind (op_unless (fsize \<noteq> -1) EIO) (\<lambda>_.
        if fsize > int PSYNC_CRYPTO_AUTH_SIZE then
          op_bind (op_some (psync_fs_crypto_offsets_by_cryptosize (nat fsize))) (\<lambda>ooffsets.
          switch_read (treelevels offsets) ooffsets 0 (secd oldsectorid) (secd newsectorid)
            (secd (get_last_sectorid_by_size (plainsize ooffsets))) arr)
        else op_return arr))
      else op_return arr))"

definition psync_fs_crypto_write_master_auth :: "file_env \<Rightarrow> crypto_offsets \<Rightarrow> auth_array \<Rightarrow> unit op" where
  "psync_fs_crypto_write_master_auth env offsets arr =
     op_bind (op_assert (treelevels offsets > 0)) (\<lambda>_.
     (let level = treelevels offsets - 1; sz = lastauthsectorlen offsets ! level;
          data = header_bytes (data_header PSYNC_CRYPTO_AUTH_SIZE (masterauthoff offsets)) @ sign_auth env (take sz (arr level))
      in
      op_bind (op_assert (sz > 0 \<and> sz \<le> PSYNC_CRYPTO_SECTOR_SIZE)) (\<lambda>_.
      op_bind (op_get logoffset) (\<lambda>logoff.
      op_bind (log_pwrite data logoff) (\<lambda>wrt.
      op_bind (op_unless (wrt = 48) EIO) (\<lambda>_.
      op_bind (hash_update env data) (\<lambda>_.
      op_bind (add_written_interval (masterauthoff offsets) (wrap64 (masterauthoff offsets + PSYNC_CRYPTO_AUTH_SIZE))) (\<lambda>_.
      op_modify (\<lambda>s. s\<lparr>logoffset := wrap32 (logoff + 48)\<rparr>)))))))))"

text \<open>The loop over the sectors in the log, in the order of the tree; \<open>None\<close> without fuel.\<close>

fun write_auth_loop :: "nat \<Rightarrow> file_env \<Rightarrow> crypto_offsets \<Rightarrow> nat option \<Rightarrow> nat \<Rightarrow> auth_array \<Rightarrow> (nat \<times> auth_array) op" where
  "write_auth_loop n env offsets None lastsect arr = op_return (lastsect, arr)"
| "write_auth_loop 0 env offsets (Some a) lastsect arr = op_some None"
| "write_auth_loop (Suc n) env offsets (Some a) lastsect arr =
     op_bind (op_get (\<lambda>s. (inlog s a, psync_tree_get_next (sectorsinlog s) a))) (\<lambda>(sect, nxt).
     op_bind
       (if lastsect div PSYNC_CRYPTO_HASH_TREE_SECTORS \<noteq> lsectorid sect div PSYNC_CRYPTO_HASH_TREE_SECTORS
        then psync_fs_crypto_switch_sectors env lastsect (lsectorid sect) offsets arr
        else op_return arr) (\<lambda>arr.
     write_auth_loop n env offsets nxt (lsectorid sect)
       (set_auth_block 0 (lsectorid sect mod PSYNC_CRYPTO_HASH_TREE_SECTORS) (lauth sect) arr)))"

definition psync_fs_write_auth_tree_to_log :: "file_env \<Rightarrow> crypto_offsets \<Rightarrow> unit op" where
  "psync_fs_write_auth_tree_to_log env offsets =
     op_bind (op_get (\<lambda>s. (length (inorder (sectorsinlog s)), psync_tree_get_first (sectorsinlog s)))) (\<lambda>(n, first).
     op_bind (write_auth_loop n env offsets first PSYNC_CRYPTO_INVALID_SECTORID (stack_auth env)) (\<lambda>(lastsect, arr).
     op_bind (psync_fs_crypto_switch_sectors env lastsect PSYNC_CRYPTO_INVALID_SECTORID offsets arr) (\<lambda>arr.
     if needmasterauth offsets then psync_fs_crypto_write_master_auth env offsets arr else op_return ())))"

text \<open>The records of the changed intervals, written 256 at a time.\<close>

definition interval_header :: "interval \<Rightarrow> log_header option" where
  "interval_header itr =
     (let len = unat (ito itr - ifrom itr) in
      if len div 2 ^ 48 \<noteq> 0 then None
      else Some \<lparr>htype = PSYNC_CRYPTO_LOG_INT, finalized = 0, hlength = len div 2 ^ 32, longlengthlo = len mod 2 ^ 32, hoffset = unat (ifrom itr)\<rparr>)"

definition write_intervals :: "file_env \<Rightarrow> log_header list \<Rightarrow> unit op" where
  "write_intervals env logs =
     (let data = concat (List.map header_bytes logs) in
      op_bind (op_get logoffset) (\<lambda>logoff.
      op_bind (log_pwrite data logoff) (\<lambda>wrt.
      op_bind (op_unless (wrt = int (16 * length logs)) EIO) (\<lambda>_.
      op_bind (hash_update env data) (\<lambda>_.
      op_modify (\<lambda>s. s\<lparr>logoffset := wrap32 (logoff + 16 * length logs)\<rparr>))))))"

fun write_interval_loop :: "nat \<Rightarrow> file_env \<Rightarrow> nat option \<Rightarrow> log_header list \<Rightarrow> log_header list op" where
  "write_interval_loop n env None logs = op_return logs"
| "write_interval_loop 0 env (Some a) logs = op_some None"
| "write_interval_loop (Suc n) env (Some a) logs =
     op_bind (op_get (\<lambda>s. (ivals (writeintervals s) a, psync_tree_get_next (root (writeintervals s)) a))) (\<lambda>(itr, nxt).
     op_bind (if length logs = PSYNC_CRYPTO_SECTOR_SIZE div 16 then op_bind (write_intervals env logs) (\<lambda>_. op_return []) else op_return logs) (\<lambda>logs.
     op_bind (op_some (interval_header itr)) (\<lambda>hdr.
     write_interval_loop n env nxt (logs @ [hdr]))))"

definition psync_fs_write_interval_tree_to_log :: "file_env \<Rightarrow> unit op" where
  "psync_fs_write_interval_tree_to_log env =
     op_bind (op_get (\<lambda>s. (length (inorder (root (writeintervals s))), psync_tree_get_first (root (writeintervals s))))) (\<lambda>(n, first).
     op_bind (write_interval_loop n env first []) (\<lambda>logs.
     if logs \<noteq> [] then write_intervals env logs else op_return ()))"

definition psync_fs_crypto_mark_log_finalized :: "file_env \<Rightarrow> nat \<Rightarrow> unit op" where
  "psync_fs_crypto_mark_log_finalized env fsize =
     op_bind log_size (\<lambda>lsize.
     op_bind (op_unless (lsize \<noteq> -1) EIO) (\<lambda>_.
     op_bind (op_get loghashctx) (\<lambda>ctx.
     op_bind (op_assert (lsize = uint (fh_length ctx + of_nat PSYNC_CRYPTO_SECTOR_SIZE))) (\<lambda>_.
     (let mr = \<lparr>mstatus = PSYNC_LOG_STATUS_FINALIZED, mhashid = PSYNC_LOG_HASHID_FH256, mlogsize = nat lsize, mfilesize = fsize,
                mhash = fh_final (hashing env) ctx, mcrc = 0\<rparr>;
          mr = mr\<lparr>mcrc := crc_of (hashing env) (master_prefix mr)\<rparr>
      in
      op_bind (log_pwrite (master_bytes (stack_pad env) mr) 0) (\<lambda>wrt.
      op_unless (wrt = 64) EIO))))))"

text \<open>Opening the complete log, flushing it, replaying it, and flushing what it was replayed to.\<close>

definition process_flog :: "file_env \<Rightarrow> int op" where
  "process_flog env = (\<lambda>s.
     case psync_fs_crypto_process_log (hashing env) (the (flog s)) (datafile s) (indexfile s) False (pending s) of
       (None, dfd, ifd, fs) \<Rightarrow> None
     | (Some rc, dfd, ifd, fs) \<Rightarrow> Some (Inr rc, s\<lparr>datafile := dfd, indexfile := ifd, pending := fs\<rparr>))"

definition psync_fs_crypto_log_flush_and_process :: "file_env \<Rightarrow> unit op" where
  "psync_fs_crypto_log_flush_and_process env =
     op_bind file_call (\<lambda>bad.
     op_bind (op_unless (\<not> bad) EIO) (\<lambda>_.
     op_bind file_call (\<lambda>bad.
     if bad then op_bind file_call (\<lambda>_. op_error (- EIO))
     else
       op_bind (process_flog env) (\<lambda>rc.
       op_bind file_call (\<lambda>_.
       if rc \<noteq> 0 then op_error (- EIO)
       else
         op_bind file_call (\<lambda>bad.
         op_bind (op_unless (\<not> bad) EIO) (\<lambda>_.
         op_bind (op_get newfile) (\<lambda>isnew.
         if \<not> isnew then op_bind file_call (\<lambda>bad. op_unless (\<not> bad) EIO) else op_return ())))))))) "

definition crypto_file_size :: "crypto_offsets \<Rightarrow> nat" where
  "crypto_file_size offsets = wrap64 (masterauthoff offsets + (if needmasterauth offsets then PSYNC_CRYPTO_AUTH_SIZE else 0))"

text \<open>The result of an operation as a value: the code goes on and returns it later.\<close>

definition op_try :: "unit op \<Rightarrow> int op" where
  "op_try m = (\<lambda>s. case m s of None \<Rightarrow> None | Some (Inl e, s) \<Rightarrow> Some (Inr e, s) | Some (Inr _, s) \<Rightarrow> Some (Inr 0, s))"

text \<open>The log is closed, renamed and opened anew; the sectors in it are forgotten before it is replayed.\<close>

definition finalize_switch_logs :: "file_env \<Rightarrow> unit op" where
  "finalize_switch_logs env =
     op_bind (op_get logfile) (\<lambda>olog.
     op_bind file_call (\<lambda>bad.
     op_bind (op_modify (\<lambda>s. s\<lparr>logfile := None\<rparr>)) (\<lambda>_.
     op_bind (op_unless (\<not> bad) EIO) (\<lambda>_.
     op_bind file_call (\<lambda>bad.
     op_bind (op_unless (\<not> bad) EIO) (\<lambda>_.
     op_bind (op_modify (\<lambda>s. s\<lparr>flog := olog\<rparr>)) (\<lambda>_.
     op_bind file_call (\<lambda>bad.
     op_bind (op_unless (\<not> bad) EIO) (\<lambda>_.
     op_bind (op_modify (\<lambda>s. s\<lparr>logfile := Some []\<rparr>)) (\<lambda>_.
     op_bind (psync_fs_crypto_init_log env) (\<lambda>_.
     op_modify (\<lambda>s. s\<lparr>sectorsinlog := Null\<rparr>))))))))))))"

definition psync_fs_crypto_do_finalize_log :: "file_env \<Rightarrow> unit op" where
  "psync_fs_crypto_do_finalize_log env =
     op_bind (op_get currentsize) (\<lambda>fsize.
     op_bind (op_some (psync_fs_crypto_offsets_by_plainsize fsize)) (\<lambda>offsets.
     op_bind (op_get logoffset) (\<lambda>logoff.
     op_bind (if logoff = PSYNC_CRYPTO_SECTOR_SIZE then data_size else op_return (-1)) (\<lambda>dsize.
     if logoff = PSYNC_CRYPTO_SECTOR_SIZE \<and> int (crypto_file_size offsets) = dsize mod 2 ^ 64 then op_return ()
     else
       op_bind (psync_fs_write_auth_tree_to_log env offsets) (\<lambda>_.
       op_bind (op_get newfile) (\<lambda>isnew.
       op_bind (if \<not> isnew then psync_fs_write_interval_tree_to_log env else op_return ()) (\<lambda>_.
       op_bind (psync_fs_crypto_mark_log_finalized env (crypto_file_size offsets)) (\<lambda>_.
       op_bind (finalize_switch_logs env) (\<lambda>_.
       op_bind (op_try (psync_fs_crypto_log_flush_and_process env)) (\<lambda>rc.
       op_bind file_call (\<lambda>bad.
       op_bind (op_modify (\<lambda>s. if bad then s else s\<lparr>flog := None\<rparr>)) (\<lambda>_.
       if rc \<noteq> 0 then op_error rc else op_return ()))))))))))))"

definition psync_fs_crypto_finalize_log :: "file_env \<Rightarrow> unit op" where
  "psync_fs_crypto_finalize_log env = psync_fs_crypto_do_finalize_log env"

subsection \<open>Writing\<close>

text \<open>Where a sector is in the tree, or the free child slot it belongs in (none in an empty tree).\<close>

datatype found_sector = At nat | Slot "(nat \<times> slot) option"

fun sector_slot :: "(nat \<Rightarrow> sector_inlog) \<Rightarrow> nat ptree \<Rightarrow> nat \<Rightarrow> found_sector" where
  "sector_slot secs Null sectorid = Slot None"
| "sector_slot secs (Node l tr h r) sectorid =
     (let d = sector_diff sectorid (lsectorid (secs tr)) in
      if d < 0 then (if l \<noteq> Null then sector_slot secs l sectorid else Slot (Some (tr, LeftSlot)))
      else if d > 0 then (if r \<noteq> Null then sector_slot secs r sectorid else Slot (Some (tr, RightSlot)))
      else At tr)"

definition psync_fs_crypto_set_sector_log_offset :: "nat \<Rightarrow> nat \<Rightarrow> byte list \<Rightarrow> unit op" where
  "psync_fs_crypto_set_sector_log_offset sectorid off auth =
     op_bind (op_get (\<lambda>s. (sector_slot (inlog s) (sectorsinlog s) sectorid, allocated s, sectorsinlog s))) (\<lambda>(pe, ntr, tree).
     case pe of
       At tr \<Rightarrow> op_modify (\<lambda>s. s\<lparr>inlog := (inlog s)(tr := (inlog s tr)\<lparr>inlogoffset := off, lauth := auth\<rparr>)\<rparr>)
     | Slot place \<Rightarrow>
         op_bind (op_some (psync_tree_get_added_at tree place ntr)) (\<lambda>tree.
         op_modify (\<lambda>s. s\<lparr>sectorsinlog := tree,
           inlog := (inlog s)(ntr := \<lparr>lsectorid = sectorid, inlogoffset = off, lauth = auth\<rparr>), allocated := ntr + 1\<rparr>)))"

definition psync_fs_crypt_add_sector_to_interval_tree :: "nat \<Rightarrow> nat \<Rightarrow> unit op" where
  "psync_fs_crypt_add_sector_to_interval_tree sectorid len =
     (let off = psync_fs_crypto_data_sectorid_by_sectorid sectorid * PSYNC_CRYPTO_SECTOR_SIZE in psync_interval_tree_add_op off (wrap64 (off + len)))"

text \<open>After a failed write to the log: cut it back, or start it again with the size of the data file.\<close>

definition reset_to_datafile :: "file_env \<Rightarrow> unit op" where
  "reset_to_datafile env =
     op_bind data_size (\<lambda>sz.
     if sz = -1 then op_return ()
     else
       op_bind (op_some (psync_fs_crypto_plain_size (nat sz))) (\<lambda>fsize.
       op_bind (op_modify (\<lambda>s. s\<lparr>currentsize := fsize\<rparr>)) (\<lambda>_.
       op_bind file_call (\<lambda>_.
       op_bind file_call (\<lambda>_.
       op_bind file_call (\<lambda>bad.
       op_bind (op_modify (\<lambda>s. s\<lparr>logfile := if bad then None else Some []\<rparr>)) (\<lambda>_.
       if bad then op_return () else op_bind (op_try (psync_fs_crypto_init_log env)) (\<lambda>_. op_return ()))))))))"

definition psync_fs_crypto_reset_log_to_off :: "file_env \<Rightarrow> nat \<Rightarrow> unit op" where
  "psync_fs_crypto_reset_log_to_off env off =
     op_bind log_size (\<lambda>sz.
     op_bind (if sz > int off then log_seek_truncate off else op_return False) (\<lambda>bad.
     if sz = -1 \<or> sz < int off \<or> bad then reset_to_datafile env else op_return ()))"

definition draw_random :: "file_env \<Rightarrow> byte list op" where
  "draw_random env = op_bind (op_get draws) (\<lambda>n. op_bind (op_modify (\<lambda>s. s\<lparr>draws := n + 1\<rparr>)) (\<lambda>_. op_return (randoms env n)))"

definition psync_fs_crypto_write_newfile_full_sector :: "file_env \<Rightarrow> byte list \<Rightarrow> nat \<Rightarrow> unit op" where
  "psync_fs_crypto_write_newfile_full_sector env buf sectorid =
     op_bind (op_assert (length buf \<le> PSYNC_CRYPTO_SECTOR_SIZE)) (\<lambda>_.
     op_bind (draw_random env) (\<lambda>rnd.
     case psync_crypto_aes256_encode_sector (fsha env) (fE env) (fiv env) rnd buf (of_nat sectorid) of (data, auth) \<Rightarrow>
     (let rec = header_bytes (data_header (length buf) (psync_fs_crypto_data_offset_by_sectorid sectorid)) @ data;
          len = 16 + length buf
      in
      op_bind (op_get logoffset) (\<lambda>logoff.
      op_bind (log_pwrite (take len rec) logoff) (\<lambda>wrt.
      if wrt \<noteq> int len then op_bind (psync_fs_crypto_reset_log_to_off env logoff) (\<lambda>_. op_error (- EIO))
      else
        op_bind (hash_update env (take len rec)) (\<lambda>_.
        op_bind (psync_fs_crypto_set_sector_log_offset sectorid logoff auth) (\<lambda>_.
        op_bind (op_modify (\<lambda>s. s\<lparr>logoffset := wrap32 (logoff + len)\<rparr>)) (\<lambda>_.
        op_bind (op_get newfile) (\<lambda>isnew.
        if \<not> isnew then psync_fs_crypt_add_sector_to_interval_tree sectorid (length buf) else op_return ())))))))))"

text \<open>The buffer has room for a sector and starts with zeros.\<close>

definition psync_fs_crypto_write_newfile_partial_sector :: "file_env \<Rightarrow> byte list \<Rightarrow> nat \<Rightarrow> nat \<Rightarrow> unit op" where
  "psync_fs_crypto_write_newfile_partial_sector env buf sectorid off =
     op_bind (op_assert (off + length buf \<le> PSYNC_CRYPTO_SECTOR_SIZE)) (\<lambda>_.
     op_bind (psync_fs_crypto_read_newfile_full_sector env sectorid) (\<lambda>old.
     (let buff = old @ replicate (PSYNC_CRYPTO_SECTOR_SIZE - length old) 0;
          buff = take off buff @ buf @ drop (off + length buf) buff;
          rd = (if length old < length buf + off then length buf + off else length old)
      in psync_fs_crypto_write_newfile_full_sector env (take rd buff) sectorid)))"

definition grow_currentsize :: "nat \<Rightarrow> unit op" where
  "grow_currentsize off = op_modify (\<lambda>s. if currentsize s < off then s\<lparr>currentsize := off\<rparr> else s)"

fun fillzero_sectors :: "file_env \<Rightarrow> nat \<Rightarrow> nat \<Rightarrow> nat \<Rightarrow> unit op" where
  "fillzero_sectors env len off sectorid =
     (if len = 0 then op_return ()
      else
        (let wr = (if len > PSYNC_CRYPTO_SECTOR_SIZE then PSYNC_CRYPTO_SECTOR_SIZE else len) in
         op_bind (psync_fs_crypto_write_newfile_full_sector env (replicate wr 0) sectorid) (\<lambda>_.
         op_bind (grow_currentsize (off + wr)) (\<lambda>_.
         fillzero_sectors env (len - wr) (off + wr) (wrap32 (sectorid + 1))))))"

definition psync_fs_newfile_fillzero :: "file_env \<Rightarrow> nat \<Rightarrow> nat \<Rightarrow> unit op" where
  "psync_fs_newfile_fillzero env len off =
     (let sectorid = wrap32 (off div PSYNC_CRYPTO_SECTOR_SIZE) in
      if off mod PSYNC_CRYPTO_SECTOR_SIZE \<noteq> 0 then
        (let wr = min (PSYNC_CRYPTO_SECTOR_SIZE - off mod PSYNC_CRYPTO_SECTOR_SIZE) len in
         op_bind (psync_fs_crypto_write_newfile_partial_sector env (replicate wr 0) sectorid (off mod PSYNC_CRYPTO_SECTOR_SIZE)) (\<lambda>_.
         op_bind (grow_currentsize (off + wr)) (\<lambda>_.
         fillzero_sectors env (len - wr) (off + wr) (wrap32 (sectorid + 1)))))
      else fillzero_sectors env len off sectorid)"

text \<open>The whole sectors in the middle, and the part of a sector that is left.\<close>

fun write_sectors :: "file_env \<Rightarrow> byte list \<Rightarrow> nat \<Rightarrow> nat \<Rightarrow> unit op" where
  "write_sectors env buf off sectorid =
     (if length buf \<ge> PSYNC_CRYPTO_SECTOR_SIZE then
        op_bind (psync_fs_crypto_write_newfile_full_sector env (take PSYNC_CRYPTO_SECTOR_SIZE buf) sectorid) (\<lambda>_.
        op_bind (grow_currentsize (off + PSYNC_CRYPTO_SECTOR_SIZE)) (\<lambda>_.
        write_sectors env (drop PSYNC_CRYPTO_SECTOR_SIZE buf) (off + PSYNC_CRYPTO_SECTOR_SIZE) (wrap32 (sectorid + 1))))
      else if buf \<noteq> [] then
        op_bind (op_get currentsize) (\<lambda>fsize.
        op_bind
          (if off = fsize then psync_fs_crypto_write_newfile_full_sector env buf sectorid
           else psync_fs_crypto_write_newfile_partial_sector env buf sectorid 0) (\<lambda>_.
        grow_currentsize (off + length buf)))
      else op_return ())"

declare fillzero_sectors.simps [simp del] write_sectors.simps [simp del]

definition write_at :: "file_env \<Rightarrow> byte list \<Rightarrow> nat \<Rightarrow> unit op" where
  "write_at env buf off =
     (let sectorid = wrap32 (off div PSYNC_CRYPTO_SECTOR_SIZE); off2 = off mod PSYNC_CRYPTO_SECTOR_SIZE in
      if off2 \<noteq> 0 then
        (let offdiff = min (PSYNC_CRYPTO_SECTOR_SIZE - off2) (length buf) in
         op_bind (psync_fs_crypto_write_newfile_partial_sector env (take offdiff buf) sectorid off2) (\<lambda>_.
         op_bind (grow_currentsize (off + offdiff)) (\<lambda>_.
         write_sectors env (drop offdiff buf) (off + offdiff) (wrap32 (sectorid + 1)))))
      else write_sectors env buf off sectorid)"

definition psync_fs_crypto_write_newfile_locked_nu :: "file_env \<Rightarrow> byte list \<Rightarrow> nat \<Rightarrow> nat op" where
  "psync_fs_crypto_write_newfile_locked_nu env buf off =
     (if wrap64 (length buf + off + PSYNC_CRYPTO_SECTOR_SIZE - 1) div PSYNC_CRYPTO_SECTOR_SIZE > PSYNC_CRYPTO_MAX_SECTORID
      then op_error (- EINVAL)
      else if buf = [] then op_return 0
      else
        op_bind (op_get currentsize) (\<lambda>fsize.
        op_bind (if fsize < off then psync_fs_newfile_fillzero env (off - fsize) fsize else op_return ()) (\<lambda>_.
        op_bind (op_get currentsize) (\<lambda>fsize'.
        op_bind (op_assert (fsize < off \<longrightarrow> fsize' = off)) (\<lambda>_.
        op_bind (write_at env buf off) (\<lambda>_.
        op_bind (op_get logoffset) (\<lambda>logoff.
        op_bind (if logoff \<ge> PSYNC_CRYPTO_MAX_LOG_SIZE then psync_fs_crypto_finalize_log env else op_return ()) (\<lambda>_.
        op_return (length buf)))))))))"

definition psync_fs_crypto_write_newfile_locked :: "file_env \<Rightarrow> byte list \<Rightarrow> nat \<Rightarrow> nat op" where
  "psync_fs_crypto_write_newfile_locked env buf off = psync_fs_crypto_write_newfile_locked_nu env buf off"

end
