(* ===== verification/Pfsops.thy ===== *)
theory Pfsops
  imports Pfslog
begin

section \<open>Running the operations on an open file\<close>

text \<open>
  Rules for the operations of \<open>Pfslog\<close>, one for each way to combine them and for each file operation with the test of its
  result, and the search tree \<open>sectorsinlog\<close> seen as a map from sector ids to entries.
\<close>

subsection \<open>Running operations\<close>

text \<open>
  \<open>runs m s Q\<close>: no assertion of \<open>m\<close> fails in \<open>s\<close>, an error is \<open>-EIO\<close>, a success satisfies \<open>Q\<close>, and if no
  file operation fails there is no error.
\<close>

definition runs :: "'a op \<Rightarrow> openfile \<Rightarrow> ('a \<Rightarrow> openfile \<Rightarrow> bool) \<Rightarrow> bool" where
  "runs m s Q \<longleftrightarrow> (\<exists>r s'. m s = Some (r, s') \<and> (case r of Inl e \<Rightarrow> e = - EIO | Inr x \<Rightarrow> Q x s') \<and>
     (pending s = [] \<longrightarrow> pending s' = [] \<and> (\<exists>x. r = Inr x)))"

definition fails :: "'a op \<Rightarrow> openfile \<Rightarrow> bool" where
  "fails m s \<longleftrightarrow> (\<exists>s'. m s = Some (Inl (- EIO), s'))"

named_theorems op_rules

lemma runs_bind: "runs m s (\<lambda>x s'. runs (f x) s' Q) \<Longrightarrow> runs (op_bind m f) s Q"
proof -
  assume m: "runs m s (\<lambda>x s'. runs (f x) s' Q)"
  then obtain r s' where r: "m s = Some (r, s')" by (auto simp: runs_def)
  then show "runs (op_bind m f) s Q" using m by (cases r) (auto simp: runs_def op_bind_def)
qed

lemma runs_mono: "runs m s P \<Longrightarrow> (\<And>x s'. P x s' \<Longrightarrow> Q x s') \<Longrightarrow> runs m s Q"
  by (auto simp: runs_def split: sum.splits) blast+

lemma runs_return [op_rules]: "Q x s \<Longrightarrow> runs (op_return x) s Q"
  by (simp add: runs_def op_return_def)

lemma runs_assert [op_rules]: "b \<Longrightarrow> Q () s \<Longrightarrow> runs (op_assert b) s Q"
  by (simp add: runs_def op_assert_def)

lemma runs_get [op_rules]: "Q (f s) s \<Longrightarrow> runs (op_get f) s Q"
  by (simp add: runs_def op_get_def)

lemma runs_modify [op_rules]: "pending (f s) = pending s \<Longrightarrow> Q () (f s) \<Longrightarrow> runs (op_modify f) s Q"
  by (simp add: runs_def op_modify_def)

lemma runs_some [op_rules]: "v = Some x \<Longrightarrow> Q x s \<Longrightarrow> runs (op_some v) s Q"
  by (simp add: runs_def op_some_def)

lemma runs_unless: "b \<Longrightarrow> Q () s \<Longrightarrow> runs (op_unless b e) s Q"
  by (simp add: op_unless_def runs_return)

lemma op_unless_simps [simp]: "op_unless True e = op_return ()" "op_unless False e = op_error (- e)"
  by (simp_all add: op_unless_def)

lemma op_bind_return [simp]: "op_bind (op_return x) f = f x"
  by (simp add: op_bind_def op_return_def)

lemma op_bind_get [simp]: "op_bind (op_get g) f s = f (g s) s"
  by (simp add: op_bind_def op_get_def)

lemma runs_bind_get [simp]: "runs (op_bind (op_get g) f) s Q = runs (f (g s)) s Q"
  by (simp add: runs_def)

lemma runs_bind_modify: "pending (f s) = pending s \<Longrightarrow> runs (K ()) (f s) Q \<Longrightarrow> runs (op_bind (op_modify f) K) s Q"
  by (rule runs_bind) (simp add: runs_modify)

lemma runs_bind_some: "v = Some x \<Longrightarrow> runs (K x) s Q \<Longrightarrow> runs (op_bind (op_some v) K) s Q"
  by (rule runs_bind) (simp add: runs_some)

lemma runs_bind_assert: "b \<Longrightarrow> runs (K ()) s Q \<Longrightarrow> runs (op_bind (op_assert b) K) s Q"
  by (rule runs_bind) (simp add: runs_assert)

lemma op_bind_assoc: "op_bind (op_bind m f) g = op_bind m (\<lambda>x. op_bind (f x) g)"
  by (rule ext) (simp add: op_bind_def split: option.splits sum.splits prod.splits)

lemma fails_bind_l: "fails m s \<Longrightarrow> fails (op_bind m f) s"
  by (auto simp: fails_def op_bind_def)

lemma fails_error [simp]: "fails (op_error (- EIO)) s"
  by (simp add: fails_def op_error_def)

lemma fails_unless: "\<not> b \<Longrightarrow> fails (op_unless b EIO) s"
  by (simp add: op_unless_def)

lemma fails_bind: "m s = Some (Inr x, s') \<Longrightarrow> fails (f x) s' \<Longrightarrow> fails (op_bind m f) s"
  by (auto simp: fails_def op_bind_def)

text \<open>A file operation and the test of its result.\<close>

lemma runs_or_fails:
  assumes "m s = Some (Inr x, s')" and "(pending s = [] \<longrightarrow> pending s' = [] \<and> runs (f x) s' Q) \<and> (pending s \<noteq> [] \<longrightarrow> runs (f x) s' Q \<or> fails (f x) s')"
  shows "runs (op_bind m f) s Q"
  using assms by (auto simp: runs_def fails_def op_bind_def)

lemma next_fault_Nil: "next_fault [] = (Full, [])"
  by (simp add: next_fault_def)

lemma runs_log_pread:
  assumes f: "logfile s = Some f" "off + cnt \<le> length f"
    and rest: "\<And>fs. (pending s = [] \<Longrightarrow> fs = []) \<Longrightarrow> runs (K (take cnt (drop off f))) (s\<lparr>pending := fs\<rparr>) Q"
  shows "runs (op_bind (log_pread cnt off) (\<lambda>(rd, buff). op_bind (op_unless (rd = int cnt) EIO) (\<lambda>_. K buff))) s Q"
proof -
  obtain rd buff fs where r: "psync_file_pread f cnt off (pending s) = (rd, buff, fs)" using prod_cases3 by blast
  have run: "log_pread cnt off s = Some (Inr (rd, buff), s\<lparr>pending := fs\<rparr>)" using f(1) r by (simp add: log_pread_def)
  moreover have "runs (K (take cnt (drop off f))) (s\<lparr>pending := fs\<rparr>) Q" if "pending s = [] \<longrightarrow> fs = []"
    using rest that by blast
  moreover have "rd = int cnt \<Longrightarrow> buff = take cnt (drop off f)" using pread_all [of f cnt off "pending s" buff fs] r by simp
  moreover have "pending s = [] \<Longrightarrow> rd = int cnt \<and> fs = []" using r f(2) by auto
  ultimately show ?thesis
    by (intro runs_or_fails [where m = "log_pread cnt off", OF run]) (auto intro: runs_bind runs_unless fails_bind_l fails_unless)
qed

lemma runs_data_pread:
  assumes "off + cnt \<le> length (datafile s)"
    and rest: "\<And>fs. (pending s = [] \<Longrightarrow> fs = []) \<Longrightarrow> runs (K (take cnt (drop off (datafile s)))) (s\<lparr>pending := fs\<rparr>) Q"
  shows "runs (op_bind (data_pread cnt off) (\<lambda>(rd, buff). op_bind (op_unless (rd = int cnt) EIO) (\<lambda>_. K buff))) s Q"
proof -
  obtain rd buff fs where r: "psync_file_pread (datafile s) cnt off (pending s) = (rd, buff, fs)" using prod_cases3 by blast
  have run: "data_pread cnt off s = Some (Inr (rd, buff), s\<lparr>pending := fs\<rparr>)" using r by (simp add: data_pread_def)
  moreover have "runs (K (take cnt (drop off (datafile s)))) (s\<lparr>pending := fs\<rparr>) Q" if "pending s = [] \<longrightarrow> fs = []"
    using rest that by blast
  moreover have "rd = int cnt \<Longrightarrow> buff = take cnt (drop off (datafile s))"
    using pread_all [of "datafile s" cnt off "pending s" buff fs] r by simp
  moreover have "pending s = [] \<Longrightarrow> rd = int cnt \<and> fs = []" using r assms(1) by auto
  ultimately show ?thesis
    by (intro runs_or_fails [where m = "data_pread cnt off", OF run]) (auto intro: runs_bind runs_unless fails_bind_l fails_unless)
qed

lemma file_size_any: "psync_file_size f fs = (sz, fs') \<Longrightarrow> (sz = -1 \<or> sz = int (length f)) \<and> (fs = [] \<longrightarrow> sz = int (length f) \<and> fs' = [])"
  by (auto simp: psync_file_size_def next_fault_def split: list.splits fault.splits prod.splits)

lemma runs_data_size:
  assumes "\<And>fs. (pending s = [] \<Longrightarrow> fs = []) \<Longrightarrow> runs (K (int (length (datafile s)))) (s\<lparr>pending := fs\<rparr>) Q"
  shows "runs (op_bind data_size (\<lambda>sz. op_bind (op_unless (sz \<noteq> -1) EIO) (\<lambda>_. K sz))) s Q"
proof -
  obtain sz fs where z: "psync_file_size (datafile s) (pending s) = (sz, fs)" by fastforce
  have run: "data_size s = Some (Inr sz, s\<lparr>pending := fs\<rparr>)" using z by (simp add: data_size_def)
  moreover have "runs (K (int (length (datafile s)))) (s\<lparr>pending := fs\<rparr>) Q" if "pending s = [] \<longrightarrow> fs = []" using assms that by blast
  moreover have "sz = int (length (datafile s)) \<or> sz = -1 \<and> pending s \<noteq> []" "pending s = [] \<longrightarrow> fs = []" using file_size_any [OF z] by blast+
  ultimately show ?thesis
    by (intro runs_or_fails [where m = "data_size", OF run]) (auto intro: runs_bind runs_unless fails_bind_l fails_unless)
qed

lemma runs_log_size:
  assumes "logfile s = Some f" "\<And>fs. (pending s = [] \<Longrightarrow> fs = []) \<Longrightarrow> runs (K (int (length f))) (s\<lparr>pending := fs\<rparr>) Q"
  shows "runs (op_bind log_size (\<lambda>sz. op_bind (op_unless (sz \<noteq> -1) EIO) (\<lambda>_. K sz))) s Q"
proof -
  obtain sz fs where z: "psync_file_size f (pending s) = (sz, fs)" by fastforce
  have run: "log_size s = Some (Inr sz, s\<lparr>pending := fs\<rparr>)" using assms(1) z by (simp add: log_size_def)
  moreover have "runs (K (int (length f))) (s\<lparr>pending := fs\<rparr>) Q" if "pending s = [] \<longrightarrow> fs = []" using assms(2) that by blast
  moreover have "sz = int (length f) \<or> sz = -1 \<and> pending s \<noteq> []" "pending s = [] \<longrightarrow> fs = []" using file_size_any [OF z] by blast+
  ultimately show ?thesis
    by (intro runs_or_fails [where m = "log_size", OF run]) (auto intro: runs_bind runs_unless fails_bind_l fails_unless)
qed

lemma runs_log_pwrite_if:
  assumes f: "logfile s = Some f"
    and ok: "\<And>fs. (pending s = [] \<Longrightarrow> fs = []) \<Longrightarrow> runs K (s\<lparr>logfile := Some (file_write off data f), pending := fs\<rparr>) Q"
    and bad: "\<And>n fs. fails F (s\<lparr>logfile := Some (file_write off (take n data) f), pending := fs\<rparr>)"
  shows "runs (op_bind (log_pwrite data off) (\<lambda>wrt. if wrt \<noteq> int (length data) then F else K)) s Q"
proof -
  obtain wrt f' fs where w: "psync_file_pwrite f data off (pending s) = (wrt, f', fs)" using prod_cases3 by blast
  obtain n where n: "f' = file_write off (take n data) f" "wrt = int (length data) \<longrightarrow> take n data = data" using pwrite_part [OF w] by blast
  have run: "log_pwrite data off s = Some (Inr wrt, s\<lparr>logfile := Some f', pending := fs\<rparr>)" using f w by (simp add: log_pwrite_def)
  moreover have "fails F (s\<lparr>logfile := Some f', pending := fs\<rparr>)" using bad n(1) by simp
  moreover have "runs K (s\<lparr>logfile := Some f', pending := fs\<rparr>) Q" if "wrt = int (length data)" "pending s = [] \<longrightarrow> fs = []"
    using ok [of fs] that n by simp
  moreover have "pending s = [] \<Longrightarrow> wrt = int (length data) \<and> fs = []" using w by auto
  ultimately show ?thesis by (intro runs_or_fails [where m = "log_pwrite data off", OF run]) auto
qed

lemma runs_log_pwrite:
  assumes "logfile s = Some f" "n = int (length data)"
    and "\<And>fs. (pending s = [] \<Longrightarrow> fs = []) \<Longrightarrow> runs (K ()) (s\<lparr>logfile := Some (file_write off data f), pending := fs\<rparr>) Q"
  shows "runs (op_bind (log_pwrite data off) (\<lambda>wrt. op_bind (op_unless (wrt = n) EIO) K)) s Q"
proof -
  have eq: "op_bind (op_unless (wrt = n) EIO) K = (if wrt \<noteq> int (length data) then op_error (- EIO) else K ())" for wrt
    by (rule ext) (simp add: op_unless_def op_bind_def op_error_def op_return_def assms(2))
  show ?thesis unfolding eq by (rule runs_log_pwrite_if [OF assms(1,3)]) simp_all
qed

lemma runs_file_call:
  assumes "\<And>bad fs. (pending s = [] \<Longrightarrow> \<not> bad \<and> fs = []) \<Longrightarrow> runs (K bad) (s\<lparr>pending := fs\<rparr>) Q \<or> pending s \<noteq> [] \<and> fails (K bad) (s\<lparr>pending := fs\<rparr>)"
  shows "runs (op_bind file_call K) s Q"
proof -
  obtain f fs where n: "next_fault (pending s) = (f, fs)" by fastforce
  have run: "file_call s = Some (Inr (f = Fail), s\<lparr>pending := fs\<rparr>)" using n by (simp add: file_call_def)
  moreover have "pending s = [] \<Longrightarrow> f \<noteq> Fail \<and> fs = []" using n by (auto simp: next_fault_def)
  ultimately show ?thesis using assms [of "f = Fail" fs] by (intro runs_or_fails [where m = "file_call", OF run]) auto
qed

text \<open>\<open>completes m s Q\<close>: no assertion fails, there is no error, and \<open>Q\<close> holds afterwards, whatever the file operations do.\<close>

definition completes :: "'a op \<Rightarrow> openfile \<Rightarrow> ('a \<Rightarrow> openfile \<Rightarrow> bool) \<Rightarrow> bool" where
  "completes m s Q \<longleftrightarrow> (\<exists>x s'. m s = Some (Inr x, s') \<and> Q x s')"

lemma completes_bind: "completes m s (\<lambda>x s'. completes (f x) s' Q) \<Longrightarrow> completes (op_bind m f) s Q"
  by (auto simp: completes_def op_bind_def)

lemma completes_simps [simp]:
  "completes (op_return x) s Q = Q x s" "completes (op_modify f) s Q = Q () (f s)"
  "completes (op_bind (op_modify f) K) s Q = completes (K ()) (f s) Q"
  by (auto simp: completes_def op_return_def op_modify_def op_bind_def)

lemma completes_some: "v = Some x \<Longrightarrow> completes (K x) s Q \<Longrightarrow> completes (op_bind (op_some v) K) s Q"
  by (auto simp: completes_def op_some_def op_bind_def)

lemma completes_file_call: "(\<And>bad fs. completes (K bad) (s\<lparr>pending := fs\<rparr>) Q) \<Longrightarrow> completes (op_bind file_call K) s Q"
  by (rule completes_bind) (auto simp: completes_def file_call_def split: prod.splits)

lemma completes_data_size:
  "(\<And>sz fs. sz = -1 \<or> sz = int (length (datafile s)) \<Longrightarrow> completes (K sz) (s\<lparr>pending := fs\<rparr>) Q) \<Longrightarrow> completes (op_bind data_size K) s Q"
  by (rule completes_bind) (auto simp: completes_def data_size_def dest: file_size_any split: prod.splits)

lemma completes_log_size:
  "(\<And>sz fs. completes (K sz) (s\<lparr>pending := fs\<rparr>) Q) \<Longrightarrow> logfile s = Some f \<Longrightarrow> completes (op_bind log_size K) s Q"
  by (rule completes_bind) (auto simp: completes_def log_size_def split: prod.splits)

subsection \<open>The sectors in the log as a map\<close>

definition tree_ok :: "openfile \<Rightarrow> bool" where
  "tree_ok s \<longleftrightarrow> avl (sectorsinlog s) \<and> distinct (inorder (sectorsinlog s)) \<and>
     sorted_wrt (\<lambda>a b. lsectorid (inlog s a) < lsectorid (inlog s b)) (inorder (sectorsinlog s)) \<and>
     (\<forall>a \<in> set (inorder (sectorsinlog s)). a < allocated s \<and> lsectorid (inlog s a) < 2 ^ 31)"

definition in_log :: "openfile \<Rightarrow> nat \<Rightarrow> sector_inlog option" where
  "in_log s i = map_option (inlog s) (sector_lookup (inlog s) (sectorsinlog s) i)"

lemma sector_diff_eq: "a < 2 ^ 31 \<Longrightarrow> b < 2 ^ 31 \<Longrightarrow> sector_diff a b = int a - int b"
proof -
  assume ab: "a < 2 ^ 31" "b < 2 ^ 31"
  have "(of_nat a - of_nat b :: u32) = word_of_int (int a - int b)" by simp
  then have "sector_diff a b = sint (word_of_int (int a - int b) :: u32)" by (simp only: sector_diff_def)
  also have "\<dots> = int a - int b"
    using ab by (simp only: sint_sbintrunc') (simp add: signed_take_bit_int_eq_self)
  finally show ?thesis .
qed

lemma sector_lookup_sorted:
  assumes "i < 2 ^ 31"
  shows "sorted_wrt (\<lambda>a b. lsectorid (secs a) < lsectorid (secs b)) (inorder t) \<Longrightarrow> (\<forall>a \<in> set (inorder t). lsectorid (secs a) < 2 ^ 31) \<Longrightarrow>
    (sector_lookup secs t i = Some a \<longleftrightarrow> a \<in> set (inorder t) \<and> lsectorid (secs a) = i) "
proof (induction t)
  case (Node l b h r)
  have d: "sector_diff i (lsectorid (secs b)) = int i - int (lsectorid (secs b))"
    using assms Node.prems by (intro sector_diff_eq) simp_all
  have ord: "\<forall>x \<in> set (inorder l). lsectorid (secs x) < lsectorid (secs b)" "\<forall>x \<in> set (inorder r). lsectorid (secs b) < lsectorid (secs x)"
    using Node.prems(1) by (simp_all add: sorted_wrt_append)
  have ih: "sector_lookup secs l i = Some a \<longleftrightarrow> a \<in> set (inorder l) \<and> lsectorid (secs a) = i"
    "sector_lookup secs r i = Some a \<longleftrightarrow> a \<in> set (inorder r) \<and> lsectorid (secs a) = i"
    using Node.prems by (auto intro!: Node.IH simp: sorted_wrt_append)
  consider "i < lsectorid (secs b)" | "i = lsectorid (secs b)" | "lsectorid (secs b) < i" by linarith
  then show ?case
  proof cases
    case 1
    then have "sector_lookup secs (Node l b h r) i = sector_lookup secs l i" by (simp add: d Let_def)
    then show ?thesis using ih(1) ord 1 by auto
  next
    case 2
    then have "sector_diff i (lsectorid (secs b)) = 0" using d by simp
    then have "sector_lookup secs (Node l b h r) i = Some b" by (simp add: Let_def)
    then show ?thesis using ord 2 by auto
  next
    case 3
    then have "sector_lookup secs (Node l b h r) i = sector_lookup secs r i" by (simp add: d Let_def)
    then show ?thesis using ih(2) ord 3 by auto
  qed
qed simp

lemma in_log_iff:
  assumes "tree_ok s" and "i < 2 ^ 31"
  shows "in_log s i = Some se \<longleftrightarrow> (\<exists>a \<in> set (inorder (sectorsinlog s)). inlog s a = se \<and> lsectorid se = i)"
  using assms sector_lookup_sorted [OF assms(2), of "inlog s" "sectorsinlog s"] by (auto simp: in_log_def tree_ok_def)

lemma sector_slot_None: "sector_slot secs t i = Slot None \<Longrightarrow> t = Null"
  by (induction secs t i rule: sector_slot.induct) (auto simp: Let_def split: if_splits)

lemma sector_slot_between:
  assumes "i < 2 ^ 31"
  shows "sorted_wrt (\<lambda>a b. lsectorid (secs a) < lsectorid (secs b)) (inorder t) \<Longrightarrow> (\<forall>a \<in> set (inorder t). lsectorid (secs a) < 2 ^ 31) \<Longrightarrow>
    sector_slot secs t i = Slot (Some (a, sl)) \<Longrightarrow>
    \<exists>xs ys. inorder t = xs @ a # ys \<and> (case sl of LeftSlot \<Rightarrow> i < lsectorid (secs a) \<and> (\<forall>x \<in> set xs. lsectorid (secs x) < i)
      | RightSlot \<Rightarrow> lsectorid (secs a) < i \<and> (\<forall>y \<in> set ys. i < lsectorid (secs y)))"
proof (induction t)
  case (Node l b h r)
  have d: "sector_diff i (lsectorid (secs b)) = int i - int (lsectorid (secs b))"
    using assms Node.prems by (intro sector_diff_eq) simp_all
  consider (left) "i < lsectorid (secs b)" "l \<noteq> Null" | (leftslot) "i < lsectorid (secs b)" "l = Null"
    | (here) "i = lsectorid (secs b)" | (right) "lsectorid (secs b) < i" "r \<noteq> Null" | (rightslot) "lsectorid (secs b) < i" "r = Null" by linarith
  then show ?case
  proof cases
    case left
    then obtain xs ys where "inorder l = xs @ a # ys" "case sl of LeftSlot \<Rightarrow> i < lsectorid (secs a) \<and> (\<forall>x \<in> set xs. lsectorid (secs x) < i)
      | RightSlot \<Rightarrow> lsectorid (secs a) < i \<and> (\<forall>y \<in> set ys. i < lsectorid (secs y))"
      using Node d by (auto simp: Let_def sorted_wrt_append)
    then show ?thesis using left Node.prems by (intro exI [of _ xs] exI [of _ "ys @ b # inorder r"]) (auto simp: sorted_wrt_append split: slot.splits)
  next
    case right
    then obtain xs ys where "inorder r = xs @ a # ys" "case sl of LeftSlot \<Rightarrow> i < lsectorid (secs a) \<and> (\<forall>x \<in> set xs. lsectorid (secs x) < i)
      | RightSlot \<Rightarrow> lsectorid (secs a) < i \<and> (\<forall>y \<in> set ys. i < lsectorid (secs y))"
      using Node d by (auto simp: Let_def sorted_wrt_append)
    then show ?thesis using right Node.prems by (intro exI [of _ "inorder l @ b # xs"] exI [of _ ys]) (auto simp: sorted_wrt_append split: slot.splits)
  next
    case leftslot
    then show ?thesis using Node.prems d by (intro exI [of _ "[]"] exI [of _ "inorder r"]) (auto simp: Let_def)
  next
    case rightslot
    then show ?thesis using Node.prems d by (intro exI [of _ "inorder l"] exI [of _ "[]"]) (auto simp: Let_def)
  next
    case here
    then show ?thesis using Node.prems d by (simp add: Let_def)
  qed
qed simp

lemma sector_slot_At: "sector_slot secs t i = At a \<Longrightarrow> sector_lookup secs t i = Some a"
  by (induction secs t i rule: sector_slot.induct) (simp_all add: Let_def split: if_splits)

lemma sector_slot_Slot: "sector_slot secs t i = Slot p \<Longrightarrow> sector_lookup secs t i = None"
  by (induction secs t i rule: sector_slot.induct) (auto simp: Let_def split: if_splits)

lemma option_eqI: "(\<And>x. a = Some x \<longleftrightarrow> b = Some x) \<Longrightarrow> a = b"
  by (cases a; cases b) auto

lemma focus_left: "a \<in> set (inorder l) \<Longrightarrow> a \<noteq> b \<Longrightarrow> focus a (Node l b h r) fs = focus a l (InLeft b h r # fs)"
  using focus_complete [of a l "InLeft b h r # fs"] by auto

lemma focus_right: "a \<notin> set (inorder l) \<Longrightarrow> a \<noteq> b \<Longrightarrow> focus a (Node l b h r) fs = focus a r (InRight l b h # fs)"
  using focus_None [of a l "InLeft b h r # fs"] by simp

lemma sector_slot_in: "sector_slot secs t i = Slot (Some (a, sl)) \<Longrightarrow> a \<in> set (inorder t)"
  by (induction secs t i rule: sector_slot.induct) (auto simp: Let_def split: if_splits)

lemma sector_slot_free:
  "sector_slot secs t i = Slot (Some (a, sl)) \<Longrightarrow> distinct (inorder t) \<Longrightarrow>
    \<exists>l h r gs. focus a t fs = Some (Node l a h r, gs) \<and> (case sl of LeftSlot \<Rightarrow> l = Null | RightSlot \<Rightarrow> r = Null)"
proof (induction t arbitrary: fs)
  case (Node l b h r)
  let ?d = "sector_diff i (lsectorid (secs b))"
  consider (left) "?d < 0" "l \<noteq> Null" | (right) "?d > 0" "r \<noteq> Null" | (leftslot) "?d < 0" "l = Null" | (rightslot) "?d > 0" "r = Null" | (here) "?d = 0"
    by linarith
  then show ?case
  proof cases
    case left
    then have sl: "sector_slot secs l i = Slot (Some (a, sl))" using Node.prems(1) by (simp add: Let_def)
    then have "a \<in> set (inorder l)" by (rule sector_slot_in)
    then have "focus a (Node l b h r) fs = focus a l (InLeft b h r # fs)" using Node.prems(2) by (intro focus_left) auto
    then show ?thesis using Node.IH(1) [OF sl] Node.prems(2) by simp
  next
    case right
    then have sl: "sector_slot secs r i = Slot (Some (a, sl))" using Node.prems(1) by (simp add: Let_def)
    then have "a \<in> set (inorder r)" by (rule sector_slot_in)
    then have "focus a (Node l b h r) fs = focus a r (InRight l b h # fs)" using Node.prems(2) by (intro focus_right) auto
    then show ?thesis using Node.IH(2) [OF sl] Node.prems(2) by simp
  qed (use Node.prems(1) in \<open>simp_all add: Let_def\<close>)
qed simp

text \<open>Setting the place of a sector changes the map at its id.\<close>

lemma runs_set_sector_log_offset:
  assumes ok: "tree_ok s" and i: "i < 2 ^ 31"
    and post: "\<And>tree secs n. tree_ok (s\<lparr>sectorsinlog := tree, inlog := secs, allocated := n\<rparr>) \<Longrightarrow>
      (\<And>j. j < 2 ^ 31 \<Longrightarrow> in_log (s\<lparr>sectorsinlog := tree, inlog := secs, allocated := n\<rparr>) j =
        (if j = i then Some \<lparr>lsectorid = i, inlogoffset = off, lauth = auth\<rparr> else in_log s j)) \<Longrightarrow>
      Q () (s\<lparr>sectorsinlog := tree, inlog := secs, allocated := n\<rparr>)"
  shows "runs (psync_fs_crypto_set_sector_log_offset i off auth) s Q"
proof -
  let ?t = "sectorsinlog s" and ?se = "\<lparr>lsectorid = i, inlogoffset = off, lauth = auth\<rparr>"
  have tree: "avl ?t" "distinct (inorder ?t)" "sorted_wrt (\<lambda>a b. lsectorid (inlog s a) < lsectorid (inlog s b)) (inorder ?t)"
    "\<forall>a \<in> set (inorder ?t). a < allocated s \<and> lsectorid (inlog s a) < 2 ^ 31" using ok by (simp_all add: tree_ok_def)
  have lk: "sector_lookup (inlog s) ?t i = Some b \<longleftrightarrow> b \<in> set (inorder ?t) \<and> lsectorid (inlog s b) = i" for b
    using tree(4) by (intro sector_lookup_sorted [OF i tree(3)]) simp
  have map: "in_log s' j = (if j = i then Some ?se else in_log s j)"
    if "tree_ok s'" "j < 2 ^ 31" "\<And>se. (\<exists>a \<in> set (inorder (sectorsinlog s')). inlog s' a = se) \<longleftrightarrow> se = ?se \<or> (\<exists>a \<in> set (inorder ?t). inlog s a = se) \<and> lsectorid se \<noteq> i" for s' j
  proof -
    have "in_log s' j = Some se \<longleftrightarrow> (if j = i then Some ?se else in_log s j) = Some se" for se
    proof -
      have "in_log s' j = Some se \<longleftrightarrow> (\<exists>a \<in> set (inorder (sectorsinlog s')). inlog s' a = se) \<and> lsectorid se = j"
        unfolding in_log_iff [OF that(1,2)] by blast
      moreover have "in_log s j = Some se \<longleftrightarrow> (\<exists>a \<in> set (inorder ?t). inlog s a = se) \<and> lsectorid se = j"
        unfolding in_log_iff [OF ok that(2)] by blast
      moreover have "lsectorid ?se = i" by simp
      ultimately show ?thesis using that(3) [of se] by (cases "j = i") (metis option.inject)+
    qed
    then show ?thesis by (rule option_eqI)
  qed
  show ?thesis
  proof (cases "sector_slot (inlog s) ?t i")
    case (At a)
    then have a: "a \<in> set (inorder ?t)" "lsectorid (inlog s a) = i"
      using sector_slot_At [OF At] lk [of a] by blast+
    have only: "b = a" if "b \<in> set (inorder ?t)" "lsectorid (inlog s b) = i" for b
      using lk [of a] lk [of b] a that by simp
    let ?s = "s\<lparr>sectorsinlog := ?t, inlog := (inlog s)(a := (inlog s a)\<lparr>inlogoffset := off, lauth := auth\<rparr>), allocated := allocated s\<rparr>"
    have se: "(inlog s a)\<lparr>inlogoffset := off, lauth := auth\<rparr> = ?se" using a(2) by simp
    have ids: "lsectorid (inlog ?s b) = lsectorid (inlog s b)" for b by simp
    have ok': "tree_ok ?s" using ok unfolding tree_ok_def ids by simp
    have "(\<exists>b \<in> set (inorder (sectorsinlog ?s)). inlog ?s b = se) \<longleftrightarrow> se = ?se \<or> (\<exists>b \<in> set (inorder ?t). inlog s b = se) \<and> lsectorid se \<noteq> i" for se
    proof -
      have "(\<exists>b \<in> set (inorder (sectorsinlog ?s)). inlog ?s b = se) \<longleftrightarrow> se = ?se \<or> (\<exists>b \<in> set (inorder ?t). b \<noteq> a \<and> inlog s b = se)"
        using a(1) by (auto simp: se)
      moreover have "(\<exists>b \<in> set (inorder ?t). b \<noteq> a \<and> inlog s b = se) \<longleftrightarrow> (\<exists>b \<in> set (inorder ?t). inlog s b = se) \<and> lsectorid se \<noteq> i"
        using a(2) only by metis
      ultimately show ?thesis by blast
    qed
    then have "Q () ?s" using map [OF ok'] by (intro post [OF ok']) blast
    then show ?thesis using At by (simp add: psync_fs_crypto_set_sector_log_offset_def runs_modify)
  next
    case (Slot place)
    have fresh: "lsectorid (inlog s b) \<noteq> i" if "b \<in> set (inorder ?t)" for b
      using lk [of b] that sector_slot_Slot [OF Slot] by simp
    let ?s = "\<lambda>t. s\<lparr>sectorsinlog := t, inlog := (inlog s)(allocated s := ?se), allocated := allocated s + 1\<rparr>"
    have new: "allocated s \<notin> set (inorder ?t)" using tree(4) by auto
    have fin: "runs (psync_fs_crypto_set_sector_log_offset i off auth) s Q"
      if "psync_tree_get_added_at ?t place (allocated s) = Some t" "avl t" "inorder t = xs @ allocated s # ys" "inorder ?t = xs @ ys"
        "\<forall>x \<in> set xs. lsectorid (inlog s x) < i" "\<forall>y \<in> set ys. i < lsectorid (inlog s y)" for t xs ys
    proof -
      have ids: "b \<in> set (inorder ?t) \<Longrightarrow> inlog (?s t) b = inlog s b" for b using new by auto
      let ?lt = "\<lambda>a b. lsectorid (inlog s a) < lsectorid (inlog s b)" and ?lt' = "\<lambda>a b. lsectorid (inlog (?s t) a) < lsectorid (inlog (?s t) b)"
      have sorted: "sorted_wrt ?lt xs" "sorted_wrt ?lt ys" "\<forall>x \<in> set xs. \<forall>y \<in> set ys. ?lt x y"
        using tree(3) unfolding that(4) by (simp_all add: sorted_wrt_append)
      have new': "allocated s \<notin> set xs" "allocated s \<notin> set ys" using new unfolding that(4) by simp_all
      have "sorted_wrt ?lt' xs" "sorted_wrt ?lt' ys"
        using new' by (auto intro: sorted_wrt_mono_rel [OF _ sorted(1)] sorted_wrt_mono_rel [OF _ sorted(2)])
      then have "sorted_wrt ?lt' (inorder t)"
        unfolding that(3) using new' sorted(3) that(5,6) by (auto simp: sorted_wrt_append)
      moreover have "\<forall>b \<in> set (inorder t). b < allocated s + 1 \<and> lsectorid (inlog (?s t) b) < 2 ^ 31"
        using tree(4) i unfolding that(3,4) by (auto simp: less_Suc_eq)
      moreover have "distinct (inorder t)" using tree(2) new' unfolding that(3,4) by auto
      ultimately have ok': "tree_ok (?s t)" using that(2) by (simp add: tree_ok_def)
      have "(\<exists>b \<in> set (inorder (sectorsinlog (?s t))). inlog (?s t) b = se) \<longleftrightarrow> se = ?se \<or> (\<exists>b \<in> set (inorder ?t). inlog s b = se) \<and> lsectorid se \<noteq> i" for se
      proof -
        have "(\<exists>b \<in> set (inorder (sectorsinlog (?s t))). inlog (?s t) b = se) \<longleftrightarrow>
            inlog (?s t) (allocated s) = se \<or> (\<exists>b \<in> set (inorder ?t). inlog (?s t) b = se)"
          using that(3,4) by auto
        moreover have "(\<exists>b \<in> set (inorder ?t). inlog (?s t) b = se) \<longleftrightarrow> (\<exists>b \<in> set (inorder ?t). inlog s b = se)"
          using ids by (intro bex_cong refl) simp
        moreover have "(\<exists>b \<in> set (inorder ?t). inlog s b = se) \<Longrightarrow> lsectorid se \<noteq> i" using fresh by auto
        moreover have "inlog (?s t) (allocated s) = ?se" by simp
        ultimately show ?thesis by metis
      qed
      then have "Q () (?s t)" using map [OF ok'] by (intro post [OF ok']) blast
      then show ?thesis using Slot that(1)
        by (simp add: psync_fs_crypto_set_sector_log_offset_def) (intro runs_bind_some runs_modify, auto)
    qed
    show ?thesis
    proof (cases place)
      case None
      then have "?t = Null" using sector_slot_None Slot by blast
      then show ?thesis
        by (intro fin [of "psync_tree_init_node (allocated s)" "[]" "[]"]) (simp_all add: None psync_tree_get_added_at_def psync_tree_init_node_def)
    next
      case (Some ap)
      obtain a sl where ap: "ap = (a, sl)" by fastforce
      have slot: "sector_slot (inlog s) ?t i = Slot (Some (a, sl))" using Slot Some ap by simp
      obtain xs ys where split: "inorder ?t = xs @ a # ys" and pos: "case sl of LeftSlot \<Rightarrow> i < lsectorid (inlog s a) \<and> (\<forall>x \<in> set xs. lsectorid (inlog s x) < i)
          | RightSlot \<Rightarrow> lsectorid (inlog s a) < i \<and> (\<forall>y \<in> set ys. i < lsectorid (inlog s y))"
        using sector_slot_between [OF i tree(3) _ slot] tree(4) by blast
      obtain l h r gs where foc: "focus a ?t [] = Some (Node l a h r, gs)" "case sl of LeftSlot \<Rightarrow> l = Null | RightSlot \<Rightarrow> r = Null"
        using sector_slot_free [OF slot tree(2)] by blast
      have ord: "\<forall>x \<in> set xs. lsectorid (inlog s x) < lsectorid (inlog s a)" "\<forall>y \<in> set ys. lsectorid (inlog s a) < lsectorid (inlog s y)"
        using tree(3) unfolding split by (simp_all add: sorted_wrt_append)
      show ?thesis
      proof (cases sl)
        case LeftSlot
        have "good (xs @ allocated s # a # ys) (psync_tree_get_added_at ?t (Some (a, LeftSlot)) (allocated s))"
          using foc LeftSlot by (intro get_added_at_left_good [OF tree(1,2) split]) simp
        then obtain t where "psync_tree_get_added_at ?t (Some (a, LeftSlot)) (allocated s) = Some t" "avl t" "inorder t = xs @ allocated s # a # ys"
          by (auto simp: good_def)
        then show ?thesis using pos ord LeftSlot by (intro fin [of t xs "a # ys"]) (auto simp: Some ap split)
      next
        case RightSlot
        have "good (xs @ a # allocated s # ys) (psync_tree_get_added_at ?t (Some (a, RightSlot)) (allocated s))"
          using foc RightSlot by (intro get_added_at_right_good [OF tree(1,2) split]) simp
        then obtain t where "psync_tree_get_added_at ?t (Some (a, RightSlot)) (allocated s) = Some t" "avl t" "inorder t = xs @ a # allocated s # ys"
          by (auto simp: good_def)
        then show ?thesis using pos ord RightSlot by (intro fin [of t "xs @ [a]" ys]) (auto simp: Some ap split)
      qed
    qed
  qed
qed

end
