(* ===== verification/Pfscontent.thy ===== *)
theory Pfscontent
  imports Pfsops
begin

section \<open>The content of a file that is written through its log (pfscrypto.c)\<close>

text \<open>
  The content of a new encrypted file is a list of bytes. \<open>content_ok\<close> says when a state of \<open>Pfslog\<close>
  stands for a content: every sector in the log is an encoding of that sector of the content, the
  newest record for its place, and the other sectors are those of the data file.
\<close>

subsection \<open>States that stand for a content\<close>

definition env_ok :: "file_env \<Rightarrow> bool" where
  "env_ok env \<longleftrightarrow> hash_env_ok (hashing env) \<and> aes_ok (fE env) (fD env) \<and> sha_ok (fsha env) \<and> (\<forall>n. length (randoms env n) = 16) \<and>
     (\<forall>level. length (stack_auth env level) = 4096) \<and> length (stack_pad env) = 4"

text \<open>A sector of a content; empty behind its end.\<close>

definition sector :: "byte list \<Rightarrow> nat \<Rightarrow> byte list" where
  "sector c i = take 4096 (drop (4096 * i) c)"

abbreviation data_offset :: "nat \<Rightarrow> nat" where
  "data_offset \<equiv> psync_fs_crypto_data_offset_by_sectorid"

text \<open>Where the authentication block of a sector is in the data file.\<close>

definition auth_position :: "crypto_offsets \<Rightarrow> nat \<Rightarrow> nat" where
  "auth_position offsets i =
     (if i div 128 = get_last_sectorid_by_size (plainsize offsets) div 128 then lastauthsectoroff offsets ! 0
      else psync_fs_crypto_auth_offset 0 (i div 128)) + i mod 128 * 32"

definition sector_stored :: "file_env \<Rightarrow> file_bytes \<Rightarrow> crypto_offsets \<Rightarrow> byte list \<Rightarrow> nat \<Rightarrow> bool" where
  "sector_stored env dfd offsets p i \<longleftrightarrow>
     data_offset i + length (sector p i) \<le> length dfd \<and> auth_position offsets i + 32 \<le> length dfd \<and>
     decode_sector env (take (length (sector p i)) (drop (data_offset i) dfd)) (take 32 (drop (auth_position offsets i) dfd)) i = (sector p i, 0)"

definition stored_file :: "file_env \<Rightarrow> file_bytes \<Rightarrow> byte list \<Rightarrow> bool" where
  "stored_file env dfd p \<longleftrightarrow> (\<exists>offsets. psync_fs_crypto_offsets_by_plainsize (length p) = Some offsets \<and>
     length dfd = crypto_file_size offsets \<and> (\<forall>i. 4096 * i < length p \<longrightarrow> sector_stored env dfd offsets p i))"

text \<open>The records of a log: bytes for the data file, with their place.\<close>

definition log_bytes :: "writes \<Rightarrow> byte list" where
  "log_bytes recs = concat (List.map (\<lambda>(off, data). header_bytes (data_header (length data) off) @ data) recs)"

definition log_ok :: "file_env \<Rightarrow> openfile \<Rightarrow> writes \<Rightarrow> bool" where
  "log_ok env s recs \<longleftrightarrow> (\<exists>start chunks. logfile s = Some (start @ log_bytes recs) \<and> length start = 4096 \<and>
     logoffset s = 4096 + length (log_bytes recs) \<and> concat chunks = log_bytes recs \<and>
     loghashctx s = foldl (fh_update (hashing env)) (fh_init (hashing env)) chunks) \<and>
     (\<forall>(off, data) \<in> set recs. length data \<le> 4096 \<and> off < 2 ^ 64)"

text \<open>The newest record for a sector, and what it holds.\<close>

definition entry_ok :: "file_env \<Rightarrow> byte list \<Rightarrow> writes \<Rightarrow> sector_inlog \<Rightarrow> bool" where
  "entry_ok env c recs se \<longleftrightarrow> (\<exists>pre data post. recs = pre @ (data_offset (lsectorid se), data) # post \<and>
     data_offset (lsectorid se) \<notin> fst ` set post \<and> inlogoffset se = 4096 + length (log_bytes pre) \<and> length (lauth se) = 32 \<and>
     length data = length (sector c (lsectorid se)) \<and> decode_sector env data (lauth se) (lsectorid se) = (sector c (lsectorid se), 0))"

definition content_ok :: "file_env \<Rightarrow> byte list \<Rightarrow> openfile \<Rightarrow> bool" where
  "content_ok env c s \<longleftrightarrow> newfile s \<and> tree_ok s \<and> length c \<le> 2 ^ 43 \<and>
     (\<exists>recs. log_ok env s recs \<and>
        (\<forall>i se. i < 2 ^ 31 \<longrightarrow> in_log s i = Some se \<longrightarrow> 4096 * i < length c \<and> entry_ok env c recs se) \<and>
        (\<forall>(off, data) \<in> set recs. \<exists>i. i < 2 ^ 31 \<and> in_log s i \<noteq> None \<and> off = data_offset i \<and> length data \<le> length (sector c i))) \<and>
     (\<exists>p. stored_file env (datafile s) p \<and> length p \<le> length c \<and> (\<forall>i < 2 ^ 31. in_log s i = None \<longrightarrow> sector p i = sector c i))"

definition file_ok :: "file_env \<Rightarrow> byte list \<Rightarrow> openfile \<Rightarrow> bool" where
  "file_ok env c s \<longleftrightarrow> content_ok env c s \<and> currentsize s = length c"

lemma in_log_pending [simp]: "in_log (s\<lparr>pending := fs\<rparr>) = in_log s"
  by (rule ext) (simp add: in_log_def)

lemma content_ok_pending [simp]: "content_ok env c (s\<lparr>pending := fs\<rparr>) = content_ok env c s"
  by (simp add: content_ok_def tree_ok_def log_ok_def)

lemma file_ok_pending [simp]: "file_ok env c (s\<lparr>pending := fs\<rparr>) = file_ok env c s"
  by (simp add: file_ok_def)

lemma content_ok_currentsize [simp]: "content_ok env c (s\<lparr>currentsize := n\<rparr>) = content_ok env c s"
  by (simp add: content_ok_def tree_ok_def log_ok_def in_log_def)

lemma length_header_bytes [simp]: "length (header_bytes h) = 16"
  by (simp add: header_bytes_def)

lemma header_of_data_header: "len \<le> 4096 \<Longrightarrow> off < 2 ^ 64 \<Longrightarrow> header_of (header_bytes (data_header len off)) = data_header len off"
  by (simp add: header_of_def header_bytes_def data_header_def le_val_le_bytes del: le_bytes.simps)

lemma log_bytes_simps [simp]:
  "log_bytes [] = []" "log_bytes ((off, data) # recs) = header_bytes (data_header (length data) off) @ data @ log_bytes recs"
  "log_bytes (recs @ recs') = log_bytes recs @ log_bytes recs'"
  by (simp_all add: log_bytes_def)

lemma sector_index_bound: "i < 2 ^ 31 \<Longrightarrow> sector_index i < 2 ^ 32"
  using sector_index_le [of i] by simp

lemma data_offset_eq: "i < 2 ^ 31 \<Longrightarrow> data_offset i = 4096 * sector_index i"
  by (rule data_offset_index) simp

lemma data_offset_less: "i < 2 ^ 31 \<Longrightarrow> data_offset i < 2 ^ 44"
  using sector_index_bound [of i] by (simp add: data_offset_eq)

lemma data_sectorid_eq: "i < 2 ^ 31 \<Longrightarrow> psync_fs_crypto_data_sectorid_by_sectorid i * 4096 = data_offset i"
proof -
  assume i: "i < 2 ^ 31"
  have "i + sector_index (i div 128) < 2 ^ 32" using sector_index_bound [OF i] by (simp add: sector_index_rec [of i, symmetric])
  then have "psync_fs_crypto_data_sectorid_by_sectorid i = i + sector_index (i div 128)"
    unfolding psync_fs_crypto_data_sectorid_by_sectorid_def by (intro data_sectorid_loop_eq) simp
  then show ?thesis using data_offset_eq [OF i] sector_index_rec [of i] by simp
qed

lemma data_offset_inj: "i < 2 ^ 31 \<Longrightarrow> j < 2 ^ 31 \<Longrightarrow> data_offset i = data_offset j \<longleftrightarrow> i = j"
  using sector_index_less [of i j] sector_index_less [of j i] by (cases rule: linorder_cases [of i j]) (simp_all add: data_offset_eq)

lemma encode_sector_lengths:
  assumes "env_ok env" and "length rnd = 16" and "psync_crypto_aes256_encode_sector (fsha env) (fE env) (fiv env) rnd data i = (d, auth)"
  shows "length d = length data \<and> length auth = 32"
proof -
  have aes: "aes_ok (fE env) (fD env)" and sha: "sha_ok (fsha env)" using assms(1) by (simp_all add: env_ok_def)
  let ?m = "take 16 (sector_hmac (fsha env) (fiv env) data i rnd)"
  have m: "length ?m = 16" using sha by simp
  show ?thesis
  proof (cases "length data < 16")
    case True
    then have "length (xor_bytes (take (length data) rnd) data @ drop (length data) rnd) = 16" using assms(2) by simp
    then show ?thesis using assms(2,3) True m by (auto simp: encode_sector_eq aes_okD [OF aes])
  next
    case False
    then have "length (take 8 rnd @ ?m @ drop 8 rnd) = 32" using assms(2) m by simp
    then have "length (psync_aes256_encode_2blocks_consec (fE env) (take 8 rnd @ ?m @ drop 8 rnd)) = 32"
      by (simp add: psync_aes256_encode_2blocks_consec_def aes_okD [OF aes])
    then show ?thesis using assms(2,3) False encode_data_length(1) [OF aes m, of data] by (auto simp: encode_sector_eq)
  qed
qed

lemma decode_encoded:
  assumes "env_ok env" and "length rnd = 16" and "psync_crypto_aes256_encode_sector (fsha env) (fE env) (fiv env) rnd data (of_nat i) = (d, auth)"
  shows "decode_sector env d auth i = (data, 0)"
  unfolding decode_sector_def
  using sector_decode_iff [of "fE env" "fD env" "fsha env" auth "fiv env" d "of_nat i" data] encode_sector_lengths [OF assms] assms
  by (auto simp: env_ok_def)

text \<open>Reading a sector gives that sector of the content, or fails.\<close>

lemma runs_read_from_log:
  assumes log: "log_ok env s recs" and e: "entry_ok env c recs se" and i: "lsectorid se < 2 ^ 31"
    and post: "\<And>fs. (pending s = [] \<Longrightarrow> fs = []) \<Longrightarrow> Q (sector c (lsectorid se)) (s\<lparr>pending := fs\<rparr>)"
  shows "runs (psync_fs_crypto_read_newfile_full_sector_from_log env se) s Q"
proof -
  obtain start where l: "logfile s = Some (start @ log_bytes recs)" "length start = 4096" and small: "\<forall>(off, data) \<in> set recs. length data \<le> 4096 \<and> off < 2 ^ 64"
    using log by (auto simp: log_ok_def)
  obtain pre data rest where r: "recs = pre @ (data_offset (lsectorid se), data) # rest" "inlogoffset se = 4096 + length (log_bytes pre)"
      "decode_sector env data (lauth se) (lsectorid se) = (sector c (lsectorid se), 0)"
    using e by (auto simp: entry_ok_def)
  let ?h = "data_header (length data) (data_offset (lsectorid se))"
  have lf: "logfile s = Some (start @ log_bytes pre @ header_bytes ?h @ data @ log_bytes rest)" using l(1) r(1) by simp
  have at: "take 16 (drop (inlogoffset se) (start @ log_bytes pre @ header_bytes ?h @ data @ log_bytes rest)) = header_bytes ?h"
      "take (length data) (drop (inlogoffset se + 16) (start @ log_bytes pre @ header_bytes ?h @ data @ log_bytes rest)) = data"
    using l(2) r(2) by simp_all
  have h: "header_of (header_bytes ?h) = ?h" using small r(1) by (intro header_of_data_header) auto
  have f: "htype ?h = PSYNC_CRYPTO_LOG_DATA" "hoffset ?h = data_offset (lsectorid se)" "hlength ?h = length data" by (simp_all add: data_header_def)
  have len: "length data \<le> 4096" using small r(1) by auto
  show ?thesis
    unfolding psync_fs_crypto_read_newfile_full_sector_from_log_def
    using at l(2) r(2,3) len f data_sectorid_eq [OF i]
    by (intro runs_log_pread [OF lf, where cnt = 16, unfolded of_nat_numeral])
      (auto simp: h Let_def lf intro!: runs_bind_assert runs_log_pread runs_return post)
qed

text \<open>The layout of a file that is not empty.\<close>

definition end_of_data :: "nat \<Rightarrow> nat \<Rightarrow> nat" where
  "end_of_data n L = bytes_to n L - 32 * (\<Sum>k<L. last_blocks n k)"

lemma layout_of:
  assumes "0 < n" and "n \<le> 2 ^ 44"
  obtains L where "is_height n L" "psync_fs_crypto_offsets_by_plainsize n = Some (block_offsets n L (end_of_data n L))"
    "crypto_file_size (block_offsets n L (end_of_data n L)) = bytes_to n L + (if n > 4096 then 32 else 0)"
    "bytes_to n L < 2 ^ 48" "masterauthoff (block_offsets n L (end_of_data n L)) = bytes_to n L"
    "psync_fs_crypto_offsets_by_cryptosize (bytes_to n L + (if n > 4096 then 32 else 0)) = Some (block_offsets n L (end_of_data n L))"
proof -
  obtain L where L: "is_height n L" using height_exists [OF assms] by blast
  let ?b = "block_offsets n L (end_of_data n L)"
  have master: "masterauthoff ?b = bytes_to n L" using block_offsets_le [OF L assms(1)] by (simp add: block_offsets_def end_of_data_def)
  have "L = 1 \<or> L = 2 \<or> L = 3 \<or> L = 4 \<or> L = 5" using L by (auto simp: is_height_def)
  then have "max_level_size ! L \<le> 0x810204081000" by (auto simp: max_level_size_def)
  moreover have "bytes_to n L \<le> nsect n L * max_level_size ! L"
    using bytes_to_bounds [OF assms(1), of L] L by (auto simp: is_height_def)
  ultimately have small: "bytes_to n L < 2 ^ 48" using L by (simp add: is_height_def)
  have "crypto_file_size ?b = wrap64 (bytes_to n L + (if n > 4096 then 32 else 0))"
    unfolding crypto_file_size_def master by (simp add: block_offsets_def)
  then have "crypto_file_size ?b = bytes_to n L + (if n > 4096 then 32 else 0)" using small by (simp add: wrap64_def)
  then show thesis
    using that [OF L] plainsize_offsets [OF assms L] cryptosize_offsets [OF assms(1) L] small master by (simp add: end_of_data_def)
qed

lemma crypto_offsets_both:
  assumes "n \<le> 2 ^ 44"
  shows "\<exists>offsets. psync_fs_crypto_offsets_by_plainsize n = Some offsets \<and> plainsize offsets = n \<and> crypto_file_size offsets < 2 ^ 49 \<and>
    psync_fs_crypto_offsets_by_cryptosize (crypto_file_size offsets) = Some offsets"
proof (cases "n = 0")
  case True
  then show ?thesis
    by (simp add: psync_fs_crypto_offsets_by_plainsize_def crypto_file_size_def zero_offsets_def psync_fs_crypto_offsets_by_cryptosize_def wrap64_def)
next
  case False
  then obtain L where "psync_fs_crypto_offsets_by_plainsize n = Some (block_offsets n L (end_of_data n L))"
      "crypto_file_size (block_offsets n L (end_of_data n L)) = bytes_to n L + (if n > 4096 then 32 else 0)" "bytes_to n L < 2 ^ 48"
      "psync_fs_crypto_offsets_by_cryptosize (bytes_to n L + (if n > 4096 then 32 else 0)) = Some (block_offsets n L (end_of_data n L))"
    using layout_of [of n] assms by blast
  then show ?thesis by (simp add: block_offsets_def)
qed

lemma length_sector: "length (sector c i) = min 4096 (length c - 4096 * i)"
  by (simp add: sector_def)

lemma runs_read_from_datafile:
  assumes st: "stored_file env (datafile s) p" and len: "length p \<le> 2 ^ 44"
    and post: "\<And>fs. (pending s = [] \<Longrightarrow> fs = []) \<Longrightarrow> Q (sector p i) (s\<lparr>pending := fs\<rparr>)"
  shows "runs (psync_fs_crypto_read_newfile_full_sector_from_datafile env i) s Q"
proof -
  obtain offsets where o: "psync_fs_crypto_offsets_by_plainsize (length p) = Some offsets" "plainsize offsets = length p"
      "psync_fs_crypto_offsets_by_cryptosize (length (datafile s)) = Some offsets"
    using st crypto_offsets_both [OF len] by (auto simp: stored_file_def)
  have stored: "4096 * i < length p \<Longrightarrow> sector_stored env (datafile s) offsets p i" using st o(1) by (auto simp: stored_file_def)
  have none: "length p \<le> i * 4096 \<Longrightarrow> sector p i = []" by (simp add: sector_def)
  have len: "\<not> length p \<le> i * 4096 \<Longrightarrow> (if i * 4096 + 4096 > length p then length p - i * 4096 else 4096) = length (sector p i)"
    by (simp add: length_sector mult.commute)
  show ?thesis
    unfolding psync_fs_crypto_read_newfile_full_sector_from_datafile_def
  proof (rule runs_data_size, rule runs_bind_some)
    fix fs :: faults
    assume fs: "pending s = [] \<Longrightarrow> fs = []"
    show "psync_fs_crypto_offsets_by_cryptosize (nat (int (length (datafile s)))) = Some offsets" using o(3) by simp
    show "runs (if plainsize offsets \<le> i * 4096 then op_return []
      else let ssize = if plainsize offsets < i * 4096 + 4096 then plainsize offsets - i * 4096 else 4096
        in op_bind (data_pread ssize (data_offset i)) (\<lambda>(rd, buff). op_bind (op_unless (rd = int ssize) EIO) (\<lambda>_.
          let off = if i div 128 = get_last_sectorid_by_size (plainsize offsets) div 128 then lastauthsectoroff offsets ! 0
                else psync_fs_crypto_auth_offset 0 (i div 128); off = off + i mod 128 * 32
          in op_bind (data_pread 32 off) (\<lambda>(rd, auth). op_bind (op_unless (rd = int 32) EIO) (\<lambda>_.
            case decode_sector env buff auth i of (buf, bad) \<Rightarrow> op_bind (op_unless (bad = 0) EIO) (\<lambda>_. op_return buf)))))) (s\<lparr>pending := fs\<rparr>) Q"
    proof (cases "length p \<le> i * 4096")
      case True
      then show ?thesis using o(2) none post [OF fs] by (auto intro: runs_return)
    next
      case False
      have "sector_stored env (datafile s) offsets p i" using stored False by simp
      then have st: "data_offset i + length (sector p i) \<le> length (datafile s)" "auth_position offsets i + 32 \<le> length (datafile s)"
          "decode_sector env (take (length (sector p i)) (drop (data_offset i) (datafile s))) (take 32 (drop (auth_position offsets i) (datafile s))) i = (sector p i, 0)"
        by (simp_all add: sector_stored_def)
      have if1: "(if length p \<le> i * 4096 then A else B) = B" for A B :: "byte list op" using False by simp
      have auth: "runs (op_bind (data_pread 32 (auth_position offsets i)) (\<lambda>(rd, auth). op_bind (op_unless (rd = int 32) EIO) (\<lambda>_.
            case decode_sector env (take (length (sector p i)) (drop (data_offset i) (datafile s))) auth i of (buf, bad) \<Rightarrow>
              op_bind (op_unless (bad = 0) EIO) (\<lambda>_. op_return buf)))) (s\<lparr>pending := fs1\<rparr>) Q" if "pending s = [] \<Longrightarrow> fs1 = []" for fs1
        by (rule runs_data_pread) (use st that in \<open>auto intro!: runs_return post\<close>)
      show ?thesis
        unfolding Let_def o(2) if1 len [OF False] auth_position_def [of offsets, unfolded o(2), symmetric]
        by (rule runs_data_pread) (use st fs auth in \<open>auto\<close>)
    qed
  qed
qed

lemma runs_read_sector:
  assumes ok: "content_ok env c s" and i: "i < 2 ^ 31"
    and post: "\<And>fs. (pending s = [] \<Longrightarrow> fs = []) \<Longrightarrow> Q (sector c i) (s\<lparr>pending := fs\<rparr>)"
  shows "runs (psync_fs_crypto_read_newfile_full_sector env i) s Q"
proof (cases "in_log s i")
  case (Some se)
  obtain recs where "log_ok env s recs" "entry_ok env c recs se" using ok i Some by (auto simp: content_ok_def)
  moreover have "lsectorid se = i" using ok i Some in_log_iff [of s i se] by (auto simp: content_ok_def)
  ultimately have "runs (psync_fs_crypto_read_newfile_full_sector_from_log env se) s Q"
    using i post by (intro runs_read_from_log) auto
  then show ?thesis using Some by (auto simp: psync_fs_crypto_read_newfile_full_sector_def in_log_def)
next
  case None
  obtain p where p: "stored_file env (datafile s) p" "length p \<le> length c" "sector p i = sector c i" "length c \<le> 2 ^ 43"
    using ok i None by (auto simp: content_ok_def)
  have "runs (psync_fs_crypto_read_newfile_full_sector_from_datafile env i) s Q"
  proof (rule runs_read_from_datafile [OF p(1)])
    show "length p \<le> 2 ^ 44" using p(2,4) by simp
    show "Q (sector p i) (s\<lparr>pending := fs\<rparr>)" if "pending s = [] \<Longrightarrow> fs = []" for fs unfolding p(3) using that by (rule post)
  qed
  then show ?thesis using None by (simp add: psync_fs_crypto_read_newfile_full_sector_def in_log_def)
qed

subsection \<open>Writing a sector\<close>

definition put_sector :: "byte list \<Rightarrow> nat \<Rightarrow> byte list \<Rightarrow> byte list" where
  "put_sector c i b = take (4096 * i) c @ b @ drop (4096 * i + 4096) c"

text \<open>The sectors that may be written: whole ones, and the last one if it does not get shorter.\<close>

definition fits :: "byte list \<Rightarrow> nat \<Rightarrow> byte list \<Rightarrow> bool" where
  "fits c i b \<longleftrightarrow> 4096 * i \<le> length c \<and> b \<noteq> [] \<and> length b \<le> 4096 \<and> (length b = 4096 \<or> length c \<le> 4096 * i + length b)"

lemma length_put_sector: "fits c i b \<Longrightarrow> length (put_sector c i b) = max (length c) (4096 * i + length b)"
  by (auto simp: fits_def put_sector_def)

lemma sector_put: "fits c i b \<Longrightarrow> sector (put_sector c i b) i = b"
  by (auto simp: fits_def put_sector_def sector_def)

lemma sector_put_other:
  assumes "fits c i b" and "j \<noteq> i"
  shows "sector (put_sector c i b) j = sector c j"
proof (cases "j < i")
  case True
  then have "4096 * j + 4096 \<le> 4096 * i" by simp
  then have "take 4096 (drop (4096 * j) (take (4096 * i) c)) = take 4096 (drop (4096 * j) c)" "length (take (4096 * i) c) = 4096 * i"
    using assms(1) by (simp_all add: drop_take min_def fits_def)
  then show ?thesis using \<open>4096 * j + 4096 \<le> 4096 * i\<close> by (simp add: sector_def put_sector_def)
next
  case False
  then have j: "4096 * i + 4096 \<le> 4096 * j" using assms(2) by simp
  show ?thesis
  proof (cases "length b = 4096")
    case True
    then show ?thesis using assms(1) j by (simp add: fits_def sector_def put_sector_def add.commute)
  next
    case False
    then have "length c \<le> 4096 * j" "length (put_sector c i b) \<le> 4096 * j" using assms(1) j by (auto simp: length_put_sector fits_def)
    then show ?thesis by (simp add: sector_def)
  qed
qed

lemma file_write_end: "off = length f \<Longrightarrow> file_write off data f = f @ data"
  by (simp add: file_write_def)

lemma log_ok_append:
  assumes "log_ok env s recs" and "length data \<le> 4096" "off < 2 ^ 64"
    and "logfile s' = Some (file_write (logoffset s) (header_bytes (data_header (length data) off) @ data) (the (logfile s)))"
    and "logoffset s' = logoffset s + 16 + length data"
    and "concat chunks = header_bytes (data_header (length data) off) @ data" "loghashctx s' = foldl (fh_update (hashing env)) (loghashctx s) chunks"
  shows "log_ok env s' (recs @ [(off, data)])"
proof -
  obtain start cs where "logfile s = Some (start @ log_bytes recs)" "length start = 4096" "logoffset s = 4096 + length (log_bytes recs)"
      "concat cs = log_bytes recs" "loghashctx s = foldl (fh_update (hashing env)) (fh_init (hashing env)) cs" "\<forall>(off, data) \<in> set recs. length data \<le> 4096 \<and> off < 2 ^ 64"
    using assms(1) by (auto simp: log_ok_def)
  then show ?thesis
    unfolding log_ok_def using assms(2-)
    by (intro conjI exI [of _ start] exI [of _ "cs @ chunks"]) (auto simp: file_write_end)
qed

lemma entry_ok_append:
  assumes "entry_ok env c recs se" and "off \<noteq> data_offset (lsectorid se)" and "sector c' (lsectorid se) = sector c (lsectorid se)"
  shows "entry_ok env c' (recs @ [(off, data)]) se"
proof -
  obtain pre d post where "recs = pre @ (data_offset (lsectorid se), d) # post" "data_offset (lsectorid se) \<notin> fst ` set post"
      "inlogoffset se = 4096 + length (log_bytes pre)" "length (lauth se) = 32" "length d = length (sector c (lsectorid se))"
      "decode_sector env d (lauth se) (lsectorid se) = (sector c (lsectorid se), 0)"
    using assms(1) by (auto simp: entry_ok_def)
  then show ?thesis
    unfolding entry_ok_def using assms(2,3) by (intro exI [of _ pre] exI [of _ d] exI [of _ "post @ [(off, data)]"]) auto
qed

lemma content_ok_put:
  assumes ok: "content_ok env c s" and i: "i < 2 ^ 31" and fits: "fits c i b" and len: "length (put_sector c i b) \<le> 2 ^ 43"
    and enc: "decode_sector env d auth i = (b, 0)" "length d = length b" "length auth = 32"
    and new: "tree_ok s'" "newfile s'" "datafile s' = datafile s"
      "\<And>j. j < 2 ^ 31 \<Longrightarrow> in_log s' j = (if j = i then Some \<lparr>lsectorid = i, inlogoffset = logoffset s, lauth = auth\<rparr> else in_log s j)"
      "\<And>recs. log_ok env s recs \<Longrightarrow> log_ok env s' (recs @ [(data_offset i, d)])"
  shows "content_ok env (put_sector c i b) s'"
proof -
  let ?c = "put_sector c i b"
  obtain recs p where log: "log_ok env s recs"
    and secs: "\<And>j se. j < 2 ^ 31 \<Longrightarrow> in_log s j = Some se \<Longrightarrow> 4096 * j < length c \<and> entry_ok env c recs se"
    and recs: "\<And>off data. (off, data) \<in> set recs \<Longrightarrow> \<exists>j. j < 2 ^ 31 \<and> in_log s j \<noteq> None \<and> off = data_offset j \<and> length data \<le> length (sector c j)"
    and p: "stored_file env (datafile s) p" "length p \<le> length c" "\<And>j. j < 2 ^ 31 \<Longrightarrow> in_log s j = None \<Longrightarrow> sector p j = sector c j"
    using ok unfolding content_ok_def by fastforce
  have tree: "tree_ok s" using ok by (simp add: content_ok_def)
  have longer: "length c \<le> length ?c" "4096 * i < length ?c" using length_put_sector [OF fits] fits by (auto simp: fits_def)
  have grows: "length (sector c j) \<le> length (sector ?c j)" for j using longer(1) by (simp add: length_sector)
  have loc: "logoffset s = 4096 + length (log_bytes recs)" using log by (auto simp: log_ok_def)
  have entries: "4096 * j < length ?c \<and> entry_ok env ?c (recs @ [(data_offset i, d)]) se" if j: "j < 2 ^ 31" "in_log s' j = Some se" for j se
  proof (cases "j = i")
    case True
    then have "se = \<lparr>lsectorid = i, inlogoffset = logoffset s, lauth = auth\<rparr>" using j new(4) [OF j(1)] by simp
    then show ?thesis
      using True longer(2) enc loc sector_put [OF fits] by (auto simp: entry_ok_def intro!: exI [of _ recs])
  next
    case False
    then have se: "in_log s j = Some se" using j new(4) [OF j(1)] by simp
    then have id: "lsectorid se = j" using in_log_iff [OF tree j(1)] by auto
    show ?thesis
      using secs [OF j(1) se] longer(1) entry_ok_append [of env c recs se "data_offset i" ?c d] sector_put_other [OF fits False] data_offset_inj [OF i j(1)] False
      by (auto simp: id)
  qed
  have records: "\<exists>j. j < 2 ^ 31 \<and> in_log s' j \<noteq> None \<and> off = data_offset j \<and> length data \<le> length (sector ?c j)"
    if "(off, data) \<in> set (recs @ [(data_offset i, d)])" for off data
  proof (cases "(off, data) \<in> set recs")
    case True
    from recs [OF this] obtain j where "j < 2 ^ 31" "in_log s j \<noteq> None" "off = data_offset j" "length data \<le> length (sector c j)" by blast
    then show ?thesis using new(4) [of j] grows [of j] by (intro exI [of _ j]) (auto simp: in_log_iff)
  next
    case False
    then show ?thesis using that i new(4) [OF i] sector_put [OF fits] enc(2) by (intro exI [of _ i]) auto
  qed
  have data: "sector p j = sector ?c j" if "j < 2 ^ 31" "in_log s' j = None" for j
    using that new(4) [OF that(1)] p(3) [OF that(1)] sector_put_other [OF fits, of j] by (auto split: if_splits)
  show ?thesis
    unfolding content_ok_def
  proof (intro conjI exI [of _ "recs @ [(data_offset i, d)]"] exI [of _ p] ballI, goal_cases)
    case (6 rec)
    then show ?case using records [of "fst rec" "snd rec"] by (simp add: case_prod_beta)
  qed (use new(1,2,3) len new(5) [OF log] entries p(1,2) longer(1) data in auto)
qed

lemma init_log_not_None: "psync_fs_crypto_init_log env s \<noteq> None"
proof (cases "logfile s")
  case (Some f)
  obtain wrt f' fs where "psync_file_pwrite f (replicate 4096 0xff) 0 (pending s) = (wrt, f', fs)" using prod_cases3 by blast
  then show ?thesis
    using Some by (simp add: psync_fs_crypto_init_log_def op_bind_def log_pwrite_def op_unless_def op_return_def op_error_def op_modify_def)
qed (simp add: psync_fs_crypto_init_log_def op_bind_def log_pwrite_def op_unless_def op_error_def)

lemma completes_try_init: "completes (op_bind (op_try (psync_fs_crypto_init_log env)) (\<lambda>_. op_return ())) s (\<lambda>_ _. True)"
proof -
  obtain r s' where "psync_fs_crypto_init_log env s = Some (r, s')" using init_log_not_None [of env s] by auto
  then show ?thesis by (cases r) (simp_all add: completes_def op_bind_def op_try_def op_return_def)
qed

lemma reset_completes:
  assumes "stored_file env (datafile s) p" and "length p \<le> 2 ^ 44" and "logfile s = Some f"
  shows "completes (psync_fs_crypto_reset_log_to_off env off) s (\<lambda>_ _. True)"
proof -
  obtain n where n: "psync_fs_crypto_plain_size (length (datafile s)) = Some n"
    using assms(1) crypto_offsets_both [OF assms(2)] by (auto simp: stored_file_def psync_fs_crypto_plain_size_def)
  have data: "completes (reset_to_datafile env) s' (\<lambda>_ _. True)" if "datafile s' = datafile s" for s'
    unfolding reset_to_datafile_def
  proof (rule completes_data_size)
    fix sz fs
    assume "sz = -1 \<or> sz = int (length (datafile s'))"
    then have "sz \<noteq> -1 \<Longrightarrow> psync_fs_crypto_plain_size (nat sz) = Some n" using n that by auto
    moreover have "completes (op_bind file_call (\<lambda>_. op_bind file_call (\<lambda>_. op_bind file_call (\<lambda>bad.
        op_bind (op_modify (\<lambda>s. s\<lparr>logfile := if bad then None else Some []\<rparr>)) (\<lambda>_.
        if bad then op_return () else op_bind (op_try (psync_fs_crypto_init_log env)) (\<lambda>_. op_return ())))))) s2 (\<lambda>_ _. True)" for s2
      by (intro completes_file_call) (simp add: completes_try_init)
    ultimately show "completes (if sz = -1 then op_return () else
        op_bind (op_some (psync_fs_crypto_plain_size (nat sz))) (\<lambda>fsize.
        op_bind (op_modify (\<lambda>s. s\<lparr>currentsize := fsize\<rparr>)) (\<lambda>_.
        op_bind file_call (\<lambda>_. op_bind file_call (\<lambda>_. op_bind file_call (\<lambda>bad.
        op_bind (op_modify (\<lambda>s. s\<lparr>logfile := if bad then None else Some []\<rparr>)) (\<lambda>_.
        if bad then op_return () else op_bind (op_try (psync_fs_crypto_init_log env)) (\<lambda>_. op_return ())))))))) (s'\<lparr>pending := fs\<rparr>) (\<lambda>_ _. True)"
      by (cases "sz = -1") (simp_all add: completes_some)
  qed
  have cut: "completes (if sz > int off then log_seek_truncate off else op_return False) s' (\<lambda>_ s2. datafile s2 = datafile s)"
    if "datafile s' = datafile s" "logfile s' = Some f" for sz s'
    using that by (auto simp: completes_def log_seek_truncate_def op_return_def split: prod.splits)
  show ?thesis
    unfolding psync_fs_crypto_reset_log_to_off_def
  proof (rule completes_log_size [OF _ assms(3)], rule completes_bind)
    fix sz fs
    show "completes (if sz > int off then log_seek_truncate off else op_return False) (s\<lparr>pending := fs\<rparr>)
        (\<lambda>bad s2. completes (if sz = -1 \<or> sz < int off \<or> bad then reset_to_datafile env else op_return ()) s2 (\<lambda>_ _. True))"
      using cut [of "s\<lparr>pending := fs\<rparr>" sz] assms(3) data by (auto simp: completes_def op_return_def)
  qed
qed

lemma completes_then_error: "completes m s (\<lambda>_ _. True) \<Longrightarrow> fails (op_bind m (\<lambda>_. op_error (- EIO))) s"
  by (auto simp: completes_def fails_def op_bind_def op_error_def)

lemma runs_write_full_sector:
  assumes env: "env_ok env" and ok: "content_ok env c s" and i: "i < 2 ^ 31" and fits: "fits c i b" and len: "length (put_sector c i b) \<le> 2 ^ 43"
    and room: "logoffset s + 4112 < 2 ^ 32"
    and post: "\<And>s'. content_ok env (put_sector c i b) s' \<Longrightarrow> currentsize s' = currentsize s \<Longrightarrow> logoffset s' = logoffset s + 16 + length b \<Longrightarrow>
      (pending s = [] \<Longrightarrow> pending s' = []) \<Longrightarrow> Q () s'"
  shows "runs (psync_fs_crypto_write_newfile_full_sector env b i) s Q"
proof -
  have b: "length b \<le> 4096" using fits by (simp add: fits_def)
  obtain lf where lf: "logfile s = Some lf" using ok by (auto simp: content_ok_def log_ok_def)
  obtain p where p: "stored_file env (datafile s) p" "length p \<le> 2 ^ 44" using ok by (auto simp: content_ok_def)
  obtain d auth where e: "psync_crypto_aes256_encode_sector (fsha env) (fE env) (fiv env) (randoms env (draws s)) b (of_nat i) = (d, auth)" by fastforce
  have rnd: "length (randoms env (draws s)) = 16" using env by (simp add: env_ok_def)
  note lens = encode_sector_lengths [OF env rnd e] and dec = decode_encoded [OF env rnd e]
  define rec where "rec = header_bytes (data_header (length b) (data_offset i)) @ d"
  have rec: "take (16 + length b) rec = rec" "length rec = 16 + length b" using lens by (simp_all add: rec_def)
  have new: "newfile s" "tree_ok s" using ok by (simp_all add: content_ok_def)
  let ?K = "op_bind (hash_update env rec) (\<lambda>_.
      op_bind (psync_fs_crypto_set_sector_log_offset i (logoffset s) auth) (\<lambda>_.
      op_bind (op_modify (\<lambda>s'. s'\<lparr>logoffset := wrap32 (logoffset s + (16 + length b))\<rparr>)) (\<lambda>_.
      op_bind (op_get newfile) (\<lambda>isnew.
      if \<not> isnew then psync_fs_crypt_add_sector_to_interval_tree i (length b) else op_return ()))))"
  let ?s = "\<lambda>fs. s\<lparr>draws := draws s + 1, logfile := Some (file_write (logoffset s) rec lf), pending := fs\<rparr>"
  have good: "runs ?K (?s fs) Q" if fs: "pending s = [] \<Longrightarrow> fs = []" for fs
  proof -
    let ?s1 = "(?s fs)\<lparr>loghashctx := fh_update (hashing env) (loghashctx s) rec\<rparr>"
    have in1: "in_log ?s1 = in_log s" by (rule ext) (simp add: in_log_def)
    have "tree_ok ?s1" using new(2) by (simp add: tree_ok_def)
    then have "runs (psync_fs_crypto_set_sector_log_offset i (logoffset s) auth) ?s1 (\<lambda>_ s'.
        runs (op_bind (op_modify (\<lambda>s'. s'\<lparr>logoffset := wrap32 (logoffset s + (16 + length b))\<rparr>)) (\<lambda>_. op_bind (op_get newfile) (\<lambda>isnew.
          if \<not> isnew then psync_fs_crypt_add_sector_to_interval_tree i (length b) else op_return ()))) s' Q)"
    proof (rule runs_set_sector_log_offset [OF _ i], goal_cases)
      case (1 tree secs n)
      let ?s2 = "?s1\<lparr>sectorsinlog := tree, inlog := secs, allocated := n\<rparr>"
      let ?s3 = "?s2\<lparr>logoffset := logoffset s + 16 + length b\<rparr>"
      have w: "wrap32 (logoffset s + (16 + length b)) = logoffset s + 16 + length b" using room b by (simp add: wrap32_def)
      have in3: "in_log ?s3 = in_log ?s2" by (rule ext) (simp add: in_log_def)
      have "content_ok env (put_sector c i b) ?s3"
      proof (rule content_ok_put [OF ok i fits len dec])
        show "length d = length b" "length auth = 32" using lens by simp_all
        show "tree_ok ?s3" using 1(1) by (simp add: tree_ok_def)
        show "newfile ?s3" "datafile ?s3 = datafile s" using new by simp_all
        show "in_log ?s3 j = (if j = i then Some \<lparr>lsectorid = i, inlogoffset = logoffset s, lauth = auth\<rparr> else in_log s j)" if "j < 2 ^ 31" for j
          unfolding in3 using 1(2) [OF that] by (simp only: in1)
        show "log_ok env ?s3 (recs @ [(data_offset i, d)])" if "log_ok env s recs" for recs
          by (rule log_ok_append [OF that, where chunks = "[rec]"])
            (use data_offset_less [OF i] b lens lf in \<open>simp_all add: rec_def\<close>)
      qed
      then have "Q () ?s3" using fs by (intro post) simp_all
      moreover have "newfile ?s3" using new by simp
      ultimately show ?case by (intro runs_bind_modify) (simp_all add: w runs_return)
    qed
    then show ?thesis by (intro runs_bind [of "hash_update env rec"]) (simp add: hash_update_def runs_modify runs_bind)
  qed
  have bad: "fails (op_bind (psync_fs_crypto_reset_log_to_off env (logoffset s)) (\<lambda>_. op_error (- EIO))) s'"
    if "datafile s' = datafile s" "logfile s' = Some f" for s' f
    using reset_completes [of env s' p f] p that by (intro completes_then_error) simp
  have "runs (op_bind (log_pwrite rec (logoffset s)) (\<lambda>wrt. if wrt \<noteq> int (length rec)
      then op_bind (psync_fs_crypto_reset_log_to_off env (logoffset s)) (\<lambda>_. op_error (- EIO)) else ?K)) (s\<lparr>draws := draws s + 1\<rparr>) Q"
  proof (rule runs_log_pwrite_if [where f = lf])
    show "runs ?K (s\<lparr>draws := draws s + 1, logfile := Some (file_write (logoffset s) rec lf), pending := fs\<rparr>) Q"
      if "pending (s\<lparr>draws := draws s + 1\<rparr>) = [] \<Longrightarrow> fs = []" for fs using good [of fs] that by simp
    show "fails (op_bind (psync_fs_crypto_reset_log_to_off env (logoffset s)) (\<lambda>_. op_error (- EIO)))
        (s\<lparr>draws := draws s + 1, logfile := Some (file_write (logoffset s) (take n rec) lf), pending := fs\<rparr>)" for n fs
      by (rule bad) simp_all
  qed (simp add: lf)
  moreover have loff: "logoffset (s\<lparr>draws := draws s + 1\<rparr>) = logoffset s" "pending (s\<lparr>draws := draws s + 1\<rparr>) = pending s" by simp_all
  ultimately show ?thesis
    unfolding psync_fs_crypto_write_newfile_full_sector_def draw_random_def op_bind_assoc
    by (intro runs_bind_assert b, simp only: runs_bind_get, intro runs_bind_modify)
      (simp_all only: op_bind_return e prod.case Let_def rec_def [symmetric] rec runs_bind_get loff)
qed

subsection \<open>Writing bytes anywhere\<close>

text \<open>On the content a write is a write to a file: a hole before it is filled with zeros.\<close>

lemma put_sector_nth:
  assumes "fits c i b" and "p < length (put_sector c i b)"
  shows "put_sector c i b ! p = (if 4096 * i \<le> p \<and> p < 4096 * i + length b then b ! (p - 4096 * i) else c ! p)"
proof -
  have len: "length (take (4096 * i) c) = 4096 * i" using assms(1) by (simp add: fits_def)
  consider "p < 4096 * i" | "4096 * i \<le> p" "p < 4096 * i + length b" | "4096 * i + length b \<le> p" "length b = 4096"
    using assms length_put_sector [OF assms(1)] unfolding fits_def by linarith
  then show ?thesis
  proof cases
    case 1
    then show ?thesis using len by (simp add: put_sector_def nth_append)
  next
    case 2
    then obtain k where "p = 4096 * i + k" using le_Suc_ex by blast
    then show ?thesis using 2 len by (simp add: put_sector_def nth_append)
  next
    case 3
    then obtain k where k: "p = 4096 * i + 4096 + k" using le_Suc_ex by (metis add.assoc)
    then have "p < length c" using assms(2) 3 length_put_sector [OF assms(1)] by (simp add: less_max_iff_disj)
    then show ?thesis using 3 len k by (simp add: put_sector_def nth_append)
  qed
qed

lemma put_sector_write: "fits c i b \<Longrightarrow> put_sector c i b = file_write (4096 * i) b c"
  by (rule nth_equalityI)
    (auto simp: length_put_sector length_file_write put_sector_nth file_write_nth fits_def)

definition patched_sector :: "byte list \<Rightarrow> nat \<Rightarrow> byte list \<Rightarrow> byte list" where
  "patched_sector old off buf =
     (let buff = old @ replicate (4096 - length old) 0; buff = take off buff @ buf @ drop (off + length buf) buff
      in take (if length old < length buf + off then length buf + off else length old) buff)"

lemma patched_length:
  "length old \<le> 4096 \<Longrightarrow> off + length buf \<le> 4096 \<Longrightarrow> length (patched_sector old off buf) = max (length old) (off + length buf)"
  by (auto simp: patched_sector_def Let_def min_def max_def)

lemma patched_nth:
  assumes "length old \<le> 4096" and "off + length buf \<le> 4096" and q: "q < length (patched_sector old off buf)"
  shows "patched_sector old off buf ! q = (if off \<le> q \<and> q < off + length buf then buf ! (q - off) else if q < length old then old ! q else 0)"
proof -
  define B where "B = old @ replicate (4096 - length old) 0"
  have B: "length B = 4096" "q < 4096 \<Longrightarrow> B ! q = (if q < length old then old ! q else 0)" using assms(1) by (simp_all add: B_def nth_append)
  have q': "q < max (length old) (off + length buf)" using q patched_length [OF assms(1,2)] by simp
  then have "q < 4096" using assms(1,2) by (simp add: less_max_iff_disj) linarith
  moreover have "patched_sector old off buf = take (max (length old) (off + length buf)) (take off B @ buf @ drop (off + length buf) B)"
    unfolding patched_sector_def Let_def B_def [symmetric] by (rule arg_cong [where f = "\<lambda>n. take n _"]) auto
  then have "patched_sector old off buf ! q = (take off B @ buf @ drop (off + length buf) B) ! q" using q' by (simp only: nth_take)
  ultimately show ?thesis using B assms(2) by (auto simp: nth_append)
qed

lemma sector_nth: "q < length (sector c i) \<Longrightarrow> sector c i ! q = c ! (4096 * i + q)"
proof -
  assume "q < length (sector c i)"
  then have "q < 4096" "q < length c - 4096 * i" by (simp_all add: sector_def)
  moreover from this have "4096 * i \<le> length c" by linarith
  ultimately show ?thesis by (simp add: sector_def)
qed

lemma patched_sector:
  assumes "4096 * i \<le> length c" and "buf \<noteq> []" and "off + length buf \<le> 4096"
  shows "fits c i (patched_sector (sector c i) off buf)"
    "put_sector c i (patched_sector (sector c i) off buf) = file_write (4096 * i + off) buf c"
proof -
  let ?old = "sector c i" and ?b = "patched_sector (sector c i) off buf"
  have old: "length ?old = min 4096 (length c - 4096 * i)" by (rule length_sector)
  have o: "length ?old \<le> 4096" "length ?old = 4096 \<or> 4096 * i + length ?old = length c" using old assms(1) by (simp_all add: min_def)
  have len: "length ?b = max (length ?old) (off + length buf)" by (rule patched_length [OF o(1) assms(3)])
  have "0 < length buf" using assms(2) by simp
  then have "0 < length ?b" "length ?b \<le> 4096" "length ?old \<le> length ?b"
    unfolding len using o(1) assms(3) by (simp_all add: less_max_iff_disj)
  then show fits: "fits c i ?b" using assms(1) o(2) unfolding fits_def by auto
  have nth: "?b ! q = (if off \<le> q \<and> q < off + length buf then buf ! (q - off) else if q < length ?old then c ! (4096 * i + q) else 0)" if "q < length ?b" for q
    using patched_nth [OF o(1) assms(3) that] sector_nth [of q c i] by (auto split: if_splits)
  have "length (put_sector c i ?b) = length (file_write (4096 * i + off) buf c)"
  proof -
    have "4096 * i + length ?old \<le> length c" using old assms(1) by simp
    then show ?thesis using length_put_sector [OF fits] len assms(2) by (simp add: length_file_write max_def)
  qed
  moreover have "put_sector c i ?b ! p = file_write (4096 * i + off) buf c ! p" if p: "p < length (put_sector c i ?b)" for p
  proof -
    have f: "p < length (file_write (4096 * i + off) buf c)" using p calculation by simp
    have b4096: "length ?b \<le> 4096" "off + length buf \<le> length ?b" using len o(1) assms(3) by simp_all
    consider (before) "p < 4096 * i" | (inside) q where "p = 4096 * i + q" "q < length ?b" | (behind) q where "p = 4096 * i + q" "length ?b \<le> q"
      using le_Suc_ex [of "4096 * i" p] by (cases "p < 4096 * i") (auto simp: not_less intro: leI)
    then show ?thesis
    proof cases
      case before
      then show ?thesis using assms(1) put_sector_nth [OF fits p] file_write_nth [OF f] by simp
    next
      case inside
      then have "q < length ?old \<longleftrightarrow> p < length c" using old b4096(1) by (simp add: less_diff_conv add.commute)
      moreover have "p - 4096 * i = q" "p - (4096 * i + off) = q - off" using inside by simp_all
      ultimately show ?thesis using inside put_sector_nth [OF fits p] file_write_nth [OF f] nth [OF inside(2)] by simp
    next
      case behind
      then have "p < length c" using p length_put_sector [OF fits] by (simp add: less_max_iff_disj)
      moreover have "\<not> p < 4096 * i + off + length buf" using behind b4096(2) by simp
      ultimately show ?thesis using behind put_sector_nth [OF fits p] file_write_nth [OF f] by simp
    qed
  qed
  ultimately show "put_sector c i ?b = file_write (4096 * i + off) buf c" by (rule nth_equalityI)
qed

lemma file_write_append:
  assumes "a \<noteq> []"
  shows "file_write (off + length a) b (file_write off a c) = file_write off (a @ b) c"
proof (rule nth_equalityI)
  show len: "length (file_write (off + length a) b (file_write off a c)) = length (file_write off (a @ b) c)"
    using assms by (auto simp: length_file_write)
  fix p
  assume "p < length (file_write (off + length a) b (file_write off a c))"
  then have p: "p < length (file_write (off + length a) b (file_write off a c))" "p < length (file_write off (a @ b) c)"
    using len by simp_all
  let ?g = "file_write off a c"
  have g: "length ?g = max (length c) (off + length a)" using assms by (simp add: length_file_write)
  have l: "file_write (off + length a) b ?g ! p = (if off + length a \<le> p \<and> p < off + length a + length b then b ! (p - (off + length a)) else if p < length ?g then ?g ! p else 0)"
    by (rule file_write_nth [OF p(1)])
  have r: "file_write off (a @ b) c ! p = (if off \<le> p \<and> p < off + length (a @ b) then (a @ b) ! (p - off) else if p < length c then c ! p else 0)"
    by (rule file_write_nth [OF p(2)])
  consider (b) "off + length a \<le> p" "p < off + length a + length b" | (a) "off \<le> p" "p < off + length a"
    | (c) "p < off \<or> off + length a + length b \<le> p" by linarith
  then show "file_write (off + length a) b ?g ! p = file_write off (a @ b) c ! p"
  proof cases
    case b
    then have "\<not> p - off < length a" by linarith
    then have "(a @ b) ! (p - off) = b ! (p - off - length a)" by (simp add: nth_append)
    then show ?thesis using b unfolding l r by simp
  next
    case a
    then have "p < length ?g" "p - off < length a" using g by simp_all
    then show ?thesis using a file_write_nth [of p off a c] unfolding l r by (simp add: nth_append)
  next
    case c
    then show ?thesis using g file_write_nth [of p off a c] unfolding l r by (auto simp: less_max_iff_disj)
  qed
qed

lemma file_write_hole:
  assumes "length c \<le> off"
  shows "file_write off buf (c @ replicate (off - length c) 0) = (if buf = [] then c @ replicate (off - length c) 0 else file_write off buf c)"
  using assms by (simp add: file_write_def)

lemma runs_write_partial_sector:
  assumes env: "env_ok env" and ok: "content_ok env c s" and i: "4096 * i \<le> length c" "4096 * i + off + length buf \<le> 2 ^ 43"
    and buf: "buf \<noteq> []" "off + length buf \<le> 4096" and room: "logoffset s + 4112 < 2 ^ 32"
    and post: "\<And>s'. content_ok env (file_write (4096 * i + off) buf c) s' \<Longrightarrow> currentsize s' = currentsize s \<Longrightarrow> logoffset s' \<le> logoffset s + 4112 \<Longrightarrow>
      (pending s = [] \<Longrightarrow> pending s' = []) \<Longrightarrow> Q () s'"
  shows "runs (psync_fs_crypto_write_newfile_partial_sector env buf i off) s Q"
proof -
  let ?b = "patched_sector (sector c i) off buf"
  note patch = patched_sector [OF i(1) buf]
  have i31: "i < 2 ^ 31" using i(2) buf(1) by (cases buf) simp_all
  have len: "length (put_sector c i ?b) \<le> 2 ^ 43"
    unfolding patch(2) using i(2) ok by (simp add: length_file_write content_ok_def)
  have "length ?b \<le> 4096" using patch(1) by (simp add: fits_def)
  then have full: "runs (psync_fs_crypto_write_newfile_full_sector env ?b i) (s\<lparr>pending := fs\<rparr>) Q" if "pending s = [] \<Longrightarrow> fs = []" for fs
    using that room ok by (intro runs_write_full_sector [OF env _ i31 patch(1) len]) (auto simp: patch(2) intro!: post)
  show ?thesis
    unfolding psync_fs_crypto_write_newfile_partial_sector_def
  proof (intro runs_bind_assert buf(2) runs_bind [OF runs_read_sector [OF ok i31]])
    fix fs :: faults
    assume "pending s = [] \<Longrightarrow> fs = []"
    from full [OF this] show "runs (let buff = sector c i @ replicate (4096 - length (sector c i)) 0; buff = take off buff @ buf @ drop (off + length buf) buff;
          rd = if length (sector c i) < length buf + off then length buf + off else length (sector c i)
        in psync_fs_crypto_write_newfile_full_sector env (take rd buff) i) (s\<lparr>pending := fs\<rparr>) Q"
      by (simp only: patched_sector_def Let_def)
  qed
qed

lemma runs_grow: "runs (grow_currentsize off) s Q \<longleftrightarrow> Q () (if currentsize s < off then s\<lparr>currentsize := off\<rparr> else s)"
  by (auto simp: runs_def grow_currentsize_def op_modify_def)

lemma runs_bind_grow: "runs (K ()) (if currentsize s < off then s\<lparr>currentsize := off\<rparr> else s) Q \<Longrightarrow> runs (op_bind (grow_currentsize off) K) s Q"
  by (rule runs_bind) (simp add: runs_grow)

lemma grown_ok:
  assumes "content_ok env (file_write off buf c) s" and "currentsize s = length c" and "buf \<noteq> []"
  shows "file_ok env (file_write off buf c) (if currentsize s < off + length buf then s\<lparr>currentsize := off + length buf\<rparr> else s)"
  using assms by (auto simp: file_ok_def length_file_write)

text \<open>A state of the file after some bytes were written, with the sectors that were appended to the log.\<close>

definition wrote :: "file_env \<Rightarrow> byte list \<Rightarrow> openfile \<Rightarrow> nat \<Rightarrow> openfile \<Rightarrow> bool" where
  "wrote env c s n s' \<longleftrightarrow> file_ok env c s' \<and> logoffset s' \<le> logoffset s + 4112 * n \<and> (pending s = [] \<longrightarrow> pending s' = [])"

lemma wrote_trans: "wrote env c1 s m s1 \<Longrightarrow> wrote env c2 s1 n s2 \<Longrightarrow> m + n \<le> k \<Longrightarrow> wrote env c2 s k s2"
proof -
  assume "wrote env c1 s m s1" "wrote env c2 s1 n s2" "m + n \<le> k"
  moreover from this have "logoffset s2 \<le> logoffset s + 4112 * m + 4112 * n" "4112 * (m + n) \<le> 4112 * k"
    unfolding wrote_def by (linarith, intro mult_le_mono2)
  ultimately show ?thesis unfolding wrote_def by (simp add: add_mult_distrib2)
qed

lemma runs_write_grow_full:
  assumes env: "env_ok env" and ok: "file_ok env c s" and i: "off = 4096 * i" "fits c i buf" "off + length buf \<le> 2 ^ 43"
    and room: "logoffset s + 4112 < 2 ^ 32"
    and post: "\<And>s'. wrote env (file_write off buf c) s 1 s' \<Longrightarrow> runs (K ()) s' Q"
  shows "runs (op_bind (psync_fs_crypto_write_newfile_full_sector env buf i) (\<lambda>_. op_bind (grow_currentsize (off + length buf)) K)) s Q"
proof (rule runs_bind, rule runs_write_full_sector [OF env])
  show "content_ok env c s" using ok by (simp add: file_ok_def)
  have "length buf > 0" using i(2) by (simp add: fits_def)
  then have "4096 * i < 2 ^ 43" using i(1,3) by linarith
  then show "i < 2 ^ 31" by simp
  show "fits c i buf" by (rule i(2))
  show "length (put_sector c i buf) \<le> 2 ^ 43" using i ok by (simp add: length_put_sector file_ok_def content_ok_def)
  show "logoffset s + 4112 < 2 ^ 32" by (rule room)
  fix s'
  assume s': "content_ok env (put_sector c i buf) s'" "currentsize s' = currentsize s" "logoffset s' = logoffset s + 16 + length buf"
    "pending s = [] \<Longrightarrow> pending s' = []"
  have "file_ok env (file_write off buf c) (if currentsize s' < off + length buf then s'\<lparr>currentsize := off + length buf\<rparr> else s')"
    using s' ok i(1,2) put_sector_write [OF i(2)] by (intro grown_ok) (simp_all add: file_ok_def fits_def)
  then have "wrote env (file_write off buf c) s 1 (if currentsize s' < off + length buf then s'\<lparr>currentsize := off + length buf\<rparr> else s')"
    using s'(3,4) i(2) by (simp add: wrote_def fits_def)
  then show "runs (op_bind (grow_currentsize (off + length buf)) K) s' Q" by (intro runs_bind_grow post)
qed

lemma runs_write_grow_partial:
  assumes env: "env_ok env" and ok: "file_ok env c s" and i: "4096 * i \<le> length c" "4096 * i + off + length buf \<le> 2 ^ 43" "off + length buf \<le> 4096" "buf \<noteq> []"
    and room: "logoffset s + 4112 < 2 ^ 32"
    and post: "\<And>s'. wrote env (file_write (4096 * i + off) buf c) s 1 s' \<Longrightarrow> runs (K ()) s' Q"
  shows "runs (op_bind (psync_fs_crypto_write_newfile_partial_sector env buf i off) (\<lambda>_. op_bind (grow_currentsize (4096 * i + off + length buf)) K)) s Q"
proof (rule runs_bind, rule runs_write_partial_sector [OF env _ i(1,2,4,3) room])
  show "content_ok env c s" using ok by (simp add: file_ok_def)
  fix s'
  assume s': "content_ok env (file_write (4096 * i + off) buf c) s'" "currentsize s' = currentsize s" "logoffset s' \<le> logoffset s + 4112"
    "pending s = [] \<Longrightarrow> pending s' = []"
  let ?s = "if currentsize s' < 4096 * i + off + length buf then s'\<lparr>currentsize := 4096 * i + off + length buf\<rparr> else s'"
  have "file_ok env (file_write (4096 * i + off) buf c) ?s"
    using s' ok i(4) by (intro grown_ok) (simp_all add: file_ok_def)
  then have "wrote env (file_write (4096 * i + off) buf c) s 1 ?s" using s'(3,4) by (simp add: wrote_def)
  then show "runs (op_bind (grow_currentsize (4096 * i + off + length buf)) K) s' Q" by (intro runs_bind_grow post)
qed

lemma op_bind_return_right: "op_bind m op_return = m"
  by (rule ext) (simp add: op_bind_def op_return_def split: option.splits sum.splits prod.splits)

lemma runs_wrote: "wrote env c s n s \<Longrightarrow> runs (op_return ()) s (\<lambda>_. wrote env c s n)"
  by (simp add: runs_return)

lemma wrote_mono: "wrote env c s m s' \<Longrightarrow> m \<le> n \<Longrightarrow> wrote env c s n s'"
  using wrote_trans [of env c s m s' c 0 s' n] by (simp add: wrote_def)

lemma wrote_room: "wrote env c s m s' \<Longrightarrow> logoffset s + 4112 * (m + n) < 2 ^ 32 \<Longrightarrow> logoffset s' + 4112 * n < 2 ^ 32"
  by (simp add: wrote_def)

lemma runs_write_sectors:
  assumes env: "env_ok env"
  shows "file_ok env c s \<Longrightarrow> off = 4096 * i \<Longrightarrow> off \<le> length c \<Longrightarrow> off + length buf \<le> 2 ^ 43 \<Longrightarrow> length buf \<le> 4096 * k \<Longrightarrow>
    logoffset s + 4112 * (k + 1) < 2 ^ 32 \<Longrightarrow> runs (write_sectors env buf off i) s (\<lambda>_. wrote env (file_write off buf c) s k)"
proof (induction k arbitrary: c s off i buf)
  case 0
  then show ?case by (simp add: write_sectors.simps [of env "[]"] runs_return wrote_def)
next
  case (Suc k)
  note ok = Suc.prems(1) and off = Suc.prems(2,3) and len = Suc.prems(4,5)
  have room: "logoffset s + 4112 < 2 ^ 32" using Suc.prems(6) by simp
  consider (long) "4096 \<le> length buf" | (short) "length buf < 4096" "buf \<noteq> []" | (none) "buf = []" by linarith
  then show ?case
  proof cases
    case long
    let ?a = "take 4096 buf" and ?b = "drop 4096 buf"
    have a: "length ?a = 4096" using long by simp
    then have ne: "?a \<noteq> []" by auto
    have fits: "fits c i ?a" using off a long by (auto simp: fits_def)
    have i: "wrap32 (i + 1) = i + 1" using off(1) len(1) long by (simp add: wrap32_def)
    have "runs (write_sectors env ?b (off + 4096) (wrap32 (i + 1))) s' (\<lambda>_. wrote env (file_write off buf c) s (Suc k))"
      if s': "wrote env (file_write off ?a c) s 1 s'" for s'
    proof -
      have "runs (write_sectors env ?b (off + 4096) (i + 1)) s' (\<lambda>_. wrote env (file_write (off + 4096) ?b (file_write off ?a c)) s' k)"
      proof (rule Suc.IH)
        show "file_ok env (file_write off ?a c) s'" using s' by (simp add: wrote_def)
        show "off + 4096 = 4096 * (i + 1)" using off by simp
        show "off + 4096 \<le> length (file_write off ?a c)" using ne long by (simp add: length_file_write le_max_iff_disj)
        show "off + 4096 + length ?b \<le> 2 ^ 43" "length ?b \<le> 4096 * k" using len long by simp_all
        show "logoffset s' + 4112 * (k + 1) < 2 ^ 32" by (rule wrote_room [OF s']) (use Suc.prems(6) in simp)
      qed
      moreover have "file_write (off + 4096) ?b (file_write off ?a c) = file_write off buf c"
        using file_write_append [OF ne, of off ?b c] by (simp only: a append_take_drop_id)
      ultimately have "runs (write_sectors env ?b (off + 4096) (i + 1)) s' (\<lambda>_. wrote env (file_write off buf c) s' k)" by (simp only:)
      then show ?thesis unfolding i by (rule runs_mono) (use wrote_trans [OF s'] in \<open>auto\<close>)
    qed
    then have "runs (op_bind (psync_fs_crypto_write_newfile_full_sector env ?a i) (\<lambda>_. op_bind (grow_currentsize (off + length ?a))
        (\<lambda>_. write_sectors env ?b (off + 4096) (wrap32 (i + 1))))) s (\<lambda>_. wrote env (file_write off buf c) s (Suc k))"
      using len(1) a by (intro runs_write_grow_full [OF env ok off(1) fits _ room]) simp_all
    then show ?thesis using long a by (subst write_sectors.simps) simp
  next
    case short
    have i31: "4096 * i + 0 + length buf \<le> 2 ^ 43" using off len by simp
    have "runs (op_bind (if off = length c then psync_fs_crypto_write_newfile_full_sector env buf i
          else psync_fs_crypto_write_newfile_partial_sector env buf i 0) (\<lambda>_. op_bind (grow_currentsize (off + length buf)) op_return))
        s (\<lambda>_. wrote env (file_write off buf c) s (Suc k))"
    proof (cases "off = length c")
      case True
      then have fits: "fits c i buf" using off short by (simp add: fits_def)
      have "runs (op_bind (psync_fs_crypto_write_newfile_full_sector env buf i) (\<lambda>_. op_bind (grow_currentsize (off + length buf)) op_return))
          s (\<lambda>_. wrote env (file_write off buf c) s (Suc k))"
        by (rule runs_write_grow_full [OF env ok off(1) fits len(1) room]) (auto intro: runs_return wrote_mono)
      then show ?thesis using True by simp
    next
      case False
      have "runs (op_bind (psync_fs_crypto_write_newfile_partial_sector env buf i 0) (\<lambda>_. op_bind (grow_currentsize (4096 * i + 0 + length buf)) op_return))
          s (\<lambda>_. wrote env (file_write off buf c) s (Suc k))"
        using off short i31 by (intro runs_write_grow_partial [OF env ok _ i31 _ _ room]) (auto intro: runs_return wrote_mono)
      then show ?thesis using False off(1) by simp
    qed
    moreover have "currentsize s = length c" using ok by (simp add: file_ok_def)
    ultimately show ?thesis using short by (subst write_sectors.simps) (simp add: op_bind_return_right)
  next
    case none
    then show ?thesis using ok by (subst write_sectors.simps) (simp add: runs_return wrote_def)
  qed
qed

lemma sector_end: "(off::nat) mod 4096 + n = 4096 \<Longrightarrow> off + n = 4096 * (off div 4096 + 1)"
  using mult_div_mod_eq [of 4096 off] by (simp only: distrib_left mult_1_right)

lemma runs_fillzero_sectors:
  assumes env: "env_ok env"
  shows "file_ok env c s \<Longrightarrow> length c = 4096 * i \<Longrightarrow> length c + n \<le> 2 ^ 43 \<Longrightarrow> n \<le> 4096 * k \<Longrightarrow>
    logoffset s + 4112 * (k + 1) < 2 ^ 32 \<Longrightarrow> runs (fillzero_sectors env n (length c) i) s (\<lambda>_. wrote env (c @ replicate n 0) s k)"
proof (induction k arbitrary: c s i n)
  case 0
  then show ?case by (simp add: fillzero_sectors.simps [of env 0] runs_return wrote_def)
next
  case (Suc k)
  note ok = Suc.prems(1) and c = Suc.prems(2) and len = Suc.prems(3,4)
  have room: "logoffset s + 4112 < 2 ^ 32" using Suc.prems(5) by simp
  show ?case
  proof (cases "n = 0")
    case True
    then show ?thesis using ok by (subst fillzero_sectors.simps) (simp add: runs_return wrote_def)
  next
    case False
    define wr where "wr = (if n > 4096 then 4096 else n)"
    let ?z = "replicate wr (0 :: byte)"
    have wr: "0 < wr" "wr \<le> 4096" "wr \<le> n" "n - wr \<le> 4096 * k" "n - wr = 0 \<or> wr = 4096" using False len(2) by (auto simp: wr_def)
    have fits: "fits c i ?z" using c wr by (simp add: fits_def)
    have eof: "file_write (length c) ?z c = c @ ?z" by (rule file_write_end) simp
    have i: "wrap32 (i + 1) = i + 1" using c len(1) wr by (simp add: wrap32_def)
    have "runs (fillzero_sectors env (n - wr) (length c + wr) (wrap32 (i + 1))) s' (\<lambda>_. wrote env (c @ replicate n 0) s (Suc k))"
      if s': "wrote env (file_write (length c) ?z c) s 1 s'" for s'
    proof (cases "n - wr = 0")
      case True
      then have "c @ ?z = c @ replicate n 0" using wr(3) by simp
      then show ?thesis using True s' unfolding eof by (subst fillzero_sectors.simps) (auto intro: runs_return wrote_mono)
    next
      case False
      then have w: "wr = 4096" using wr by simp
      have "runs (fillzero_sectors env (n - wr) (length (c @ ?z)) (i + 1)) s' (\<lambda>_. wrote env ((c @ ?z) @ replicate (n - wr) 0) s' k)"
      proof (rule Suc.IH)
        show "file_ok env (c @ ?z) s'" using s' by (simp add: wrote_def eof)
        show "length (c @ ?z) = 4096 * (i + 1)" "length (c @ ?z) + (n - wr) \<le> 2 ^ 43" "n - wr \<le> 4096 * k" using c w wr len by simp_all
        show "logoffset s' + 4112 * (k + 1) < 2 ^ 32" by (rule wrote_room [OF s']) (use Suc.prems(5) in simp)
      qed
      moreover have z: "(c @ ?z) @ replicate (n - wr) 0 = c @ replicate n 0" using wr(3) by (simp flip: replicate_add)
      moreover have "length (c @ ?z) = length c + wr" by simp
      ultimately have "runs (fillzero_sectors env (n - wr) (length c + wr) (i + 1)) s' (\<lambda>_. wrote env (c @ replicate n 0) s' k)"
        by (simp only: z)
      then show ?thesis unfolding i by (rule runs_mono) (use wrote_trans [OF s'] in \<open>auto\<close>)
    qed
    then have "runs (op_bind (psync_fs_crypto_write_newfile_full_sector env ?z i) (\<lambda>_. op_bind (grow_currentsize (length c + length ?z))
        (\<lambda>_. fillzero_sectors env (n - wr) (length c + wr) (wrap32 (i + 1))))) s (\<lambda>_. wrote env (c @ replicate n 0) s (Suc k))"
      using len wr by (intro runs_write_grow_full [OF env ok c fits _ room]) simp_all
    then show ?thesis using False by (subst fillzero_sectors.simps) (simp add: Let_def wr_def [symmetric])
  qed
qed

lemma runs_fillzero:
  assumes env: "env_ok env" and ok: "file_ok env c s" and len: "length c + n \<le> 2 ^ 43" "0 < n" "n \<le> 4096 * k"
    and room: "logoffset s + 4112 * (k + 2) < 2 ^ 32"
  shows "runs (psync_fs_newfile_fillzero env n (length c)) s (\<lambda>_. wrote env (c @ replicate n 0) s (k + 1))"
proof -
  have i: "wrap32 (length c div 4096) = length c div 4096" using len by (simp add: wrap32_def)
  show ?thesis
  proof (cases "length c mod 4096 = 0")
    case True
    then have "length c = 4096 * (length c div 4096)" using mult_div_mod_eq [of 4096 "length c"] by simp
    from runs_fillzero_sectors [OF env ok this len(1,3)] show ?thesis
      using True room i by (auto simp: psync_fs_newfile_fillzero_def elim!: runs_mono intro: wrote_mono)
  next
    case False
    let ?i = "length c div 4096" and ?off = "length c mod 4096"
    define wr where "wr = min (4096 - ?off) n"
    let ?z = "replicate wr (0 :: byte)"
    have split: "4096 * ?i + ?off = length c" by simp
    have "?off < 4096" by simp
    then have wr: "0 < wr" "?off + wr \<le> 4096" "wr \<le> n" "n - wr = 0 \<or> ?off + wr = 4096" using len by (auto simp: wr_def)
    have eof: "file_write (length c) ?z c = c @ ?z" by (rule file_write_end) simp
    have "runs (fillzero_sectors env (n - wr) (length c + wr) (wrap32 (?i + 1))) s' (\<lambda>_. wrote env (c @ replicate n 0) s (k + 1))"
      if s': "wrote env (c @ ?z) s 1 s'" for s'
    proof (cases "n - wr = 0")
      case True
      then have "c @ ?z = c @ replicate n 0" using wr(3) by simp
      then show ?thesis using True s' by (subst fillzero_sectors.simps) (auto intro: runs_return wrote_mono)
    next
      case False
      have i1: "wrap32 (?i + 1) = ?i + 1" using len by (simp add: wrap32_def)
      have "length c + wr = 4096 * (?i + 1)" using False wr(4) by (intro sector_end) simp
      then have "length (c @ ?z) = 4096 * (?i + 1)" by simp
      then have "runs (fillzero_sectors env (n - wr) (length (c @ ?z)) (?i + 1)) s' (\<lambda>_. wrote env ((c @ ?z) @ replicate (n - wr) 0) s' k)"
        using s' len wr room wrote_room [OF s', of "k + 1"] by (intro runs_fillzero_sectors [OF env]) (auto simp: wrote_def)
      moreover have z: "(c @ ?z) @ replicate (n - wr) 0 = c @ replicate n 0" using wr(3) by (simp flip: replicate_add)
      moreover have "length (c @ ?z) = length c + wr" by simp
      ultimately have "runs (fillzero_sectors env (n - wr) (length c + wr) (?i + 1)) s' (\<lambda>_. wrote env (c @ replicate n 0) s' k)"
        by (simp only: z)
      then show ?thesis unfolding i1 by (rule runs_mono) (use wrote_trans [OF s'] in \<open>auto\<close>)
    qed
    then have "runs (op_bind (psync_fs_crypto_write_newfile_partial_sector env ?z ?i ?off) (\<lambda>_. op_bind (grow_currentsize (4096 * ?i + ?off + length ?z))
        (\<lambda>_. fillzero_sectors env (n - wr) (length c + wr) (wrap32 (?i + 1))))) s (\<lambda>_. wrote env (c @ replicate n 0) s (k + 1))"
      using len wr room split eof by (intro runs_write_grow_partial [OF env ok]) auto
    then show ?thesis using False i by (simp add: psync_fs_newfile_fillzero_def Let_def wr_def [symmetric])
  qed
qed

text \<open>A write up to the point where the log may be finalised.\<close>

definition write_before_finalize :: "file_env \<Rightarrow> byte list \<Rightarrow> nat \<Rightarrow> unit op" where
  "write_before_finalize env buf off =
     op_bind (op_get currentsize) (\<lambda>fsize.
     op_bind (if fsize < off then psync_fs_newfile_fillzero env (off - fsize) fsize else op_return ()) (\<lambda>_.
     op_bind (op_get currentsize) (\<lambda>fsize'.
     op_bind (op_assert (fsize < off \<longrightarrow> fsize' = off)) (\<lambda>_.
     write_at env buf off))))"

lemma write_newfile_split:
  "wrap64 (length buf + off + 4096 - 1) div 4096 \<le> PSYNC_CRYPTO_MAX_SECTORID \<Longrightarrow> buf \<noteq> [] \<Longrightarrow>
   psync_fs_crypto_write_newfile_locked_nu env buf off =
     op_bind (write_before_finalize env buf off) (\<lambda>_.
     op_bind (op_get logoffset) (\<lambda>logoff.
     op_bind (if logoff \<ge> PSYNC_CRYPTO_MAX_LOG_SIZE then psync_fs_crypto_finalize_log env else op_return ()) (\<lambda>_.
     op_return (length buf))))"
  unfolding psync_fs_crypto_write_newfile_locked_nu_def write_before_finalize_def Let_def op_bind_assoc by (simp only: not_le [symmetric] if_False simp_thms op_bind_assoc)

lemma runs_write_at:
  assumes env: "env_ok env" and ok: "file_ok env c s" and off: "off \<le> length c" "off + length buf \<le> 2 ^ 43" "buf \<noteq> []"
    and k: "length buf \<le> 4096 * k" and room: "logoffset s + 4112 * (k + 2) < 2 ^ 32"
  shows "runs (write_at env buf off) s (\<lambda>_. wrote env (file_write off buf c) s (k + 1))"
proof -
  let ?i = "off div 4096" and ?off2 = "off mod 4096"
  have "0 < length buf" using off(3) by simp
  then have "off < 2 ^ 43" using off(2) by linarith
  then have i: "wrap32 ?i = ?i" "wrap32 (?i + 1) = ?i + 1" by (simp_all add: wrap32_def)
  have split: "4096 * ?i + ?off2 = off" by simp
  show ?thesis
  proof (cases "?off2 = 0")
    case True
    then have o: "off = 4096 * ?i" using split by simp
    have "runs (write_sectors env buf off ?i) s (\<lambda>_. wrote env (file_write off buf c) s k)"
      using room by (intro runs_write_sectors [OF env ok o off(1,2) k]) simp
    then show ?thesis using True i by (auto simp: write_at_def elim!: runs_mono intro: wrote_mono)
  next
    case False
    define n where "n = min (4096 - ?off2) (length buf)"
    let ?a = "take n buf" and ?b = "drop n buf"
    have "?off2 < 4096" by simp
    then have n: "0 < n" "n \<le> length buf" "?off2 + n \<le> 4096" "n = length buf \<or> ?off2 + n = 4096" using \<open>0 < length buf\<close> by (auto simp: n_def)
    have a: "length ?a = n" "?a \<noteq> []" using n by auto
    have rest: "runs (write_sectors env ?b (off + n) (wrap32 (?i + 1))) s' (\<lambda>_. wrote env (file_write off buf c) s (k + 1))"
      if s': "wrote env (file_write off ?a c) s 1 s'" for s'
    proof (cases "?b = []")
      case True
      then have "n = length buf" using n(2) by simp
      then have "?a = buf" by simp
      then show ?thesis using True s' by (subst write_sectors.simps) (auto intro: runs_return wrote_mono)
    next
      case False
      then have full: "?off2 + n = 4096" using n(4) by auto
      have "runs (write_sectors env ?b (off + n) (?i + 1)) s' (\<lambda>_. wrote env (file_write (off + n) ?b (file_write off ?a c)) s' k)"
      proof (rule runs_write_sectors [OF env])
        show "file_ok env (file_write off ?a c) s'" using s' by (simp add: wrote_def)
        show "off + n = 4096 * (?i + 1)" using full by (rule sector_end)
        show "off + n \<le> length (file_write off ?a c)" using a by (simp add: length_file_write)
        show "off + n + length ?b \<le> 2 ^ 43" "length ?b \<le> 4096 * k" using off(2) n(2) k by simp_all
        show "logoffset s' + 4112 * (k + 1) < 2 ^ 32" by (rule wrote_room [OF s']) (use room in simp)
      qed
      moreover have "file_write (off + n) ?b (file_write off ?a c) = file_write off buf c"
        using file_write_append [OF a(2), of off ?b c] by (simp only: a(1) append_take_drop_id)
      ultimately have "runs (write_sectors env ?b (off + n) (?i + 1)) s' (\<lambda>_. wrote env (file_write off buf c) s' k)" by (simp only:)
      then show ?thesis unfolding i by (rule runs_mono) (use wrote_trans [OF s'] in auto)
    qed
    have room1: "logoffset s + 4112 < 2 ^ 32" using room by simp
    have "runs (op_bind (psync_fs_crypto_write_newfile_partial_sector env ?a ?i ?off2) (\<lambda>_. op_bind (grow_currentsize (4096 * ?i + ?off2 + length ?a))
        (\<lambda>_. write_sectors env ?b (off + n) (wrap32 (?i + 1))))) s (\<lambda>_. wrote env (file_write off buf c) s (k + 1))"
    proof (rule runs_write_grow_partial [OF env ok _ _ _ a(2) room1])
      show "4096 * ?i \<le> length c" using split off(1) by linarith
      show "4096 * ?i + ?off2 + length ?a \<le> 2 ^ 43" "?off2 + length ?a \<le> 4096" using off(2) n a(1) by simp_all
      show "runs (write_sectors env ?b (off + n) (wrap32 (?i + 1))) s' (\<lambda>_. wrote env (file_write off buf c) s (k + 1))"
        if "wrote env (file_write (4096 * ?i + ?off2) ?a c) s 1 s'" for s' using that rest by simp
    qed
    then show ?thesis using False i a(1) by (simp add: write_at_def Let_def n_def [symmetric])
  qed
qed

lemma runs_write_before_finalize:
  assumes env: "env_ok env" and ok: "file_ok env c s" and off: "off + length buf \<le> 2 ^ 43" "buf \<noteq> []"
    and k: "length buf \<le> 4096 * k" "off \<le> length c + 4096 * h" and room: "logoffset s + 4112 * (h + k + 3) < 2 ^ 32"
  shows "runs (write_before_finalize env buf off) s (\<lambda>_. wrote env (file_write off buf c) s (h + k + 2))"
proof -
  have size: "currentsize s = length c" using ok by (simp add: file_ok_def)
  show ?thesis
  proof (cases "length c < off")
    case False
    have "runs (write_at env buf off) s (\<lambda>_. wrote env (file_write off buf c) s (k + 1))"
      using False room by (intro runs_write_at [OF env ok _ off k(1)]) simp_all
    then have "runs (write_before_finalize env buf off) s (\<lambda>_. wrote env (file_write off buf c) s (k + 1))"
      using False size by (simp add: write_before_finalize_def runs_bind_assert)
    then show ?thesis by (rule runs_mono) (auto intro: wrote_mono)
  next
    case True
    let ?c = "c @ replicate (off - length c) 0"
    have c: "length ?c = off" "file_write off buf ?c = file_write off buf c" using True file_write_hole [of c off buf] off(2) by simp_all
    have "runs (psync_fs_newfile_fillzero env (off - length c) (length c)) s (\<lambda>_. wrote env ?c s (h + 1))"
      using True k(2) off(1) room by (intro runs_fillzero [OF env ok]) simp_all
    moreover have "runs (op_bind (op_assert (length c < off \<longrightarrow> currentsize s' = off)) (\<lambda>_. write_at env buf off)) s' (\<lambda>_. wrote env (file_write off buf c) s (h + k + 2))" if s': "wrote env ?c s (h + 1) s'" for s'
    proof -
      have ok': "file_ok env ?c s'" using s' by (simp add: wrote_def)
      then have "currentsize s' = off" using c(1) by (simp add: file_ok_def)
      moreover have "logoffset s' + 4112 * (k + 2) < 2 ^ 32" by (rule wrote_room [OF s']) (use room in simp)
      then have "runs (write_at env buf off) s' (\<lambda>_. wrote env (file_write off buf ?c) s' (k + 1))"
        using c(1) by (intro runs_write_at [OF env ok' _ off k(1)]) simp_all
      then have "runs (write_at env buf off) s' (\<lambda>_. wrote env (file_write off buf c) s (h + k + 2))"
        unfolding c(2) by (rule runs_mono) (use wrote_trans [OF s'] in auto)
      ultimately show ?thesis by (intro runs_bind_assert) simp_all
    qed
    ultimately show ?thesis
      using True size by (simp add: write_before_finalize_def) (intro runs_bind, erule runs_mono, simp)
  qed
qed

subsection \<open>Reading\<close>

definition read_result :: "byte list \<Rightarrow> openfile \<Rightarrow> nat \<Rightarrow> nat \<Rightarrow> byte list \<Rightarrow> openfile \<Rightarrow> bool" where
  "read_result c s len off b s' \<longleftrightarrow> b = take len (drop off c) \<and> s' = s\<lparr>pending := pending s'\<rparr>"

lemma read_result_pending [simp]: "read_result c (s\<lparr>pending := fs\<rparr>) = read_result c s"
  by (intro ext) (auto simp: read_result_def)

lemma part_of_sector: "off + len \<le> 4096 \<Longrightarrow> take len (drop off (sector c i)) = take len (drop (4096 * i + off) c)"
  by (simp add: sector_def drop_take min_def add.commute)

lemma runs_read_partial:
  assumes "content_ok env c s" "i < 2 ^ 31" "off + len \<le> 4096"
  shows "runs (psync_fs_crypto_read_newfile_partial_sector env i len off) s (read_result c s len (4096 * i + off))"
  unfolding psync_fs_crypto_read_newfile_partial_sector_def
proof (rule runs_bind_assert, use assms(3) in simp, rule runs_bind, rule runs_read_sector [OF assms(1,2)], rule runs_return)
  fix fs
  have "(if length (sector c i) \<le> off then [] else take len (drop off (sector c i))) = take len (drop off (sector c i))" by simp
  then show "read_result c s len (4096 * i + off) (if length (sector c i) \<le> off then [] else take len (drop off (sector c i))) (s\<lparr>pending := fs\<rparr>)"
    using assms(3) by (auto simp: read_result_def part_of_sector)
qed

lemma read_more:
  assumes "n \<le> len"
  shows "take n (drop off c) @ take (len - n) (drop (off + n) c) = take len (drop off c)"
  using assms take_add [of n "len - n" "drop off c"] by (simp add: add.commute)

lemma runs_read_sectors:
  assumes "content_ok env c s" "4096 * i + len \<le> length c" "length c \<le> 2 ^ 43"
  shows "runs (read_sectors env len i) s (read_result c s len (4096 * i))"
  using assms
proof (induction env len i arbitrary: s rule: read_sectors.induct)
  case (1 env len i)
  show ?case
  proof (cases "4096 \<le> len")
    case True
    have i: "i < 2 ^ 31" "wrap32 (i + 1) = i + 1" using "1.prems" True by (simp_all add: wrap32_def)
    have full: "length (sector c i) = 4096" using "1.prems" True by (simp add: length_sector)
    have sec: "sector c i = take 4096 (drop (4096 * i) c)" by (simp add: sector_def)
    have nxt: "4096 * (i + 1) + (len - 4096) \<le> length c" using "1.prems" True by simp
    have rest: "runs (op_bind (read_sectors env (len - 4096) (i + 1)) (\<lambda>rest. op_return (sector c i @ rest))) (s\<lparr>pending := fs\<rparr>) (read_result c s len (4096 * i))" for fs
    proof -
      have "runs (read_sectors env (len - 4096) (i + 1)) (s\<lparr>pending := fs\<rparr>) (read_result c s (len - 4096) (4096 * (i + 1)))"
        using "1.IH" [of "sector c i" "s\<lparr>pending := fs\<rparr>"] full True "1.prems" nxt unfolding i(2) by simp
      then show ?thesis
        using read_more [OF True, of "4096 * i" c] sec
        by (intro runs_bind) (auto elim!: runs_mono intro!: runs_return simp: read_result_def add.commute)
    qed
    show ?thesis
      using True i full rest "1.prems"(1) by (subst read_sectors.simps) (auto intro!: runs_bind runs_read_sector)
  next
    case False
    show ?thesis
    proof (cases "len = 0")
      case True
      then show ?thesis by (subst read_sectors.simps) (auto intro!: runs_return simp: read_result_def)
    next
      case len: False
      then have "i < 2 ^ 31" using "1.prems" by simp
      then show ?thesis using False len runs_read_partial [OF "1.prems"(1), of i 0 len] by (subst read_sectors.simps) simp
    qed
  qed
qed

lemma runs_read_newfile:
  assumes ok: "file_ok env c s" and len: "off + len \<le> 2 ^ 43"
  shows "runs (psync_fs_crypto_read_newfile_locked env len off) s (read_result c s len off)"
proof -
  have c: "content_ok env c s" "currentsize s = length c" "length c \<le> 2 ^ 43" using ok by (simp_all add: file_ok_def content_ok_def)
  have noerr: "\<not> wrap64 (len + off + 4096 - 1) div 4096 > PSYNC_CRYPTO_MAX_SECTORID" and wrap: "wrap64 (off + len) = off + len"
    using len by (simp_all add: wrap64_def)
  show ?thesis
  proof (cases "len = 0 \<or> length c \<le> off")
    case True
    then show ?thesis
      using noerr c(2) by (auto simp: psync_fs_crypto_read_newfile_locked_def read_result_def intro!: runs_return)
  next
    case False
    define n where "n = (if off + len > length c then length c - off else len)"
    have n: "off + n \<le> length c" "take n (drop off c) = take len (drop off c)" "0 < n" using False by (auto simp: n_def)
    have res: "read_result c s n off = read_result c s len off" using n(2) by (simp add: read_result_def fun_eq_iff)
    let ?i = "off div 4096" and ?o = "off mod 4096"
    have split: "4096 * ?i + ?o = off" by simp
    have i: "?i + 1 < 2 ^ 32" "?i < 2 ^ 31" using n(1,3) c(3) by simp_all
    then have wr: "wrap32 ?i = ?i" "wrap32 (?i + 1) = ?i + 1" by (simp_all add: wrap32_def)
    define m where "m = (if 4096 - ?o < n then 4096 - ?o else n)"
    have m: "m \<le> n" "?o + m \<le> 4096" "n = m \<or> ?o + m = 4096" by (auto simp: m_def)
    have body: "runs (if ?o \<noteq> 0 then
         op_bind (psync_fs_crypto_read_newfile_partial_sector env ?i m ?o) (\<lambda>buf.
         if length buf \<noteq> m then op_return buf
         else op_bind (read_sectors env (n - m) (?i + 1)) (\<lambda>rest. op_return (buf @ rest)))
       else read_sectors env n ?i) s (read_result c s n off)"
    proof (cases "?o = 0")
      case True
      then show ?thesis using runs_read_sectors [OF c(1), of ?i n] n(1) c(3) split by simp
    next
      case False
      have part: "runs (psync_fs_crypto_read_newfile_partial_sector env ?i m ?o) s (read_result c s m off)"
        using runs_read_partial [OF c(1) i(2) m(2)] unfolding split .
      have "runs (if length buf \<noteq> m then op_return buf else op_bind (read_sectors env (n - m) (?i + 1)) (\<lambda>rest. op_return (buf @ rest))) s' (read_result c s n off)"
        if r: "read_result c s m off buf s'" for buf s'
      proof -
        have buf: "buf = take m (drop off c)" "s' = s\<lparr>pending := pending s'\<rparr>" using r by (simp_all add: read_result_def)
        then have len: "length buf = m" using n(1) m(1) by simp
        have ok': "content_ok env c s'" by (subst buf(2)) (simp add: c(1))
        have here: "n = m \<or> 4096 * (?i + 1) = off + m" using m(3) sector_end by metis
        have at: "4096 * (?i + 1) + (n - m) \<le> length c \<or> n = m" using here n(1) m(1) by auto
        have "runs (read_sectors env (n - m) (?i + 1)) s' (read_result c s' (n - m) (off + m))"
        proof (cases "n = m")
          case True
          then show ?thesis by (subst read_sectors.simps) (simp add: read_result_def runs_return)
        next
          case False
          then show ?thesis using runs_read_sectors [OF ok', of "?i + 1" "n - m"] here at c(3) by simp
        qed
        moreover have "read_result c s' = read_result c s" by (subst buf(2)) simp
        ultimately show ?thesis
          using len read_more [OF m(1), of off c] buf(1)
          by (auto intro!: runs_bind runs_return elim!: runs_mono simp: read_result_def)
      qed
      then show ?thesis using False by (auto intro!: runs_bind runs_mono [OF part])
    qed
    have noerr': "(wrap64 (len + off + 4096 - 1) div 4096 > PSYNC_CRYPTO_MAX_SECTORID) = False" and more: "(len = 0 \<or> length c \<le> off) = False"
      using noerr False by simp_all
    show ?thesis
      using body unfolding psync_fs_crypto_read_newfile_locked_def
      by (simp only: noerr' if_False runs_bind_get c(2) more Let_def wrap n_def [symmetric] m_def [symmetric] wr res)
  qed
qed

end
