(* ===== verification/Pfsareas.thy ===== *)
theory Pfsareas
  imports Pfscontent
begin

section \<open>The areas of an encrypted file (pfscrypto.c)\<close>

text \<open>
  Where the data sectors and the authentication sectors of a file of a given size are, the last one of each level
  and the master block included, and that these areas do not overlap. A replay of records for these areas is then
  seen area by area.
\<close>

definition sized :: "nat \<Rightarrow> nat \<Rightarrow> bool" where
  "sized n L \<longleftrightarrow> 0 < n \<and> n \<le> 2 ^ 43 \<and> is_height n L"

fun tail_length :: "nat \<Rightarrow> nat \<Rightarrow> nat \<Rightarrow> nat" where
  "tail_length n L l = (if l < L then 32 * last_blocks n l else 32)"

definition tail_offset :: "nat \<Rightarrow> nat \<Rightarrow> nat \<Rightarrow> nat" where
  "tail_offset n L l = end_of_data n L + 32 * (\<Sum>k<l. last_blocks n k)"

fun area_offset :: "nat \<Rightarrow> nat \<Rightarrow> place \<Rightarrow> nat" where
  "area_offset n L (Data_sector i) = data_offset i"
| "area_offset n L (Auth_sector l j) = (if Suc j = nsect n (Suc l) then tail_offset n L l else psync_fs_crypto_auth_offset l j)"

fun area_length :: "nat \<Rightarrow> nat \<Rightarrow> place \<Rightarrow> nat" where
  "area_length n L (Data_sector i) = min 4096 (n - 4096 * i)"
| "area_length n L (Auth_sector l j) = (if Suc j = nsect n (Suc l) then tail_length n L l else 4096)"

text \<open>The places that a file of this size has; a file of one sector has no master block.\<close>

fun in_file :: "nat \<Rightarrow> nat \<Rightarrow> place \<Rightarrow> bool" where
  "in_file n L (Data_sector i) \<longleftrightarrow> 4096 * i < n"
| "in_file n L (Auth_sector l j) \<longleftrightarrow> (l < L \<or> l = L \<and> 4096 < n) \<and> j < nsect n (Suc l)"

declare nsect.simps(1) [simp del] area_offset.simps [simp del] area_length.simps [simp del] in_file.simps [simp del]

lemma nsect_0_less: "4096 * i < n \<longleftrightarrow> i < nsect n 0"
  using less_eq_div_iff_mult_less_eq [of 4096 "Suc i" "n + 4095"] by (simp add: nsect.simps Suc_le_eq mult.commute)

lemma sized_first: "sized n L \<Longrightarrow> nsect n 0 \<le> 2 ^ 31 \<and> 0 < nsect n 0 \<and> 4096 * (nsect n 0 - 1) < n \<and> n \<le> 4096 * nsect n 0"
proof -
  assume s: "sized n L"
  then have n: "0 < n" "n \<le> 2 ^ 43" by (simp_all add: sized_def)
  then have "(n + 4095) div 4096 \<le> (4095 + 2 ^ 31 * 4096) div 4096" using n(2) by (intro div_le_mono) simp
  moreover have "0 < nsect n 0" using n(1) by (rule nsect_pos)
  moreover have "4096 * (nsect n 0 - 1) < n" using nsect_0_less [of "nsect n 0 - 1" n] calculation by simp
  moreover have "\<not> 4096 * nsect n 0 < n" using nsect_0_less [of "nsect n 0" n] by simp
  ultimately show ?thesis by (simp add: nsect.simps)
qed

lemma index_sum: "0 < n \<Longrightarrow> nsect n L = 1 \<Longrightarrow> l \<le> L \<Longrightarrow> sector_index (nsect n l - 1) = (\<Sum>j=l..<L. nsect n j - 1)"
proof (induction "L - l" arbitrary: l)
  case 0
  then show ?case by (simp add: sector_index.simps)
next
  case (Suc k)
  have "sector_index (nsect n l - 1) = nsect n l - 1 + sector_index (nsect n (Suc l) - 1)"
    using sector_index_rec [of "nsect n l - 1"] nsect_pred [OF Suc.prems(1), of l] by simp
  moreover have "sector_index (nsect n (Suc l) - 1) = (\<Sum>j=Suc l..<L. nsect n j - 1)" using Suc by simp
  moreover have "l < L" using Suc.hyps(2) by simp
  ultimately show ?case by (simp add: sum.atLeast_Suc_lessThan)
qed

lemma end_of_data_eq:
  assumes "sized n L"
  shows "end_of_data n L = 4096 * sector_index (nsect n 0 - 1) + (n - 4096 * (nsect n 0 - 1))"
proof -
  have n: "0 < n" "is_height n L" using assms by (simp_all add: sized_def)
  have L: "0 < L" "nsect n L = 1" using n(2) by (simp_all add: is_height_def)
  have "sector_index (nsect n 0 - 1) = nsect n 0 - 1 + (\<Sum>j=Suc 0..<L. nsect n j - 1)"
    using index_sum [OF n(1) L(2), of 0] L(1) by (simp add: sum.atLeast_Suc_lessThan)
  then show ?thesis using first_offset [OF n] unfolding end_of_data_def by simp
qed

text \<open>Each authentication sector that is not the last of its level ends before the last data sector.\<close>

lemma auth_before_last:
  assumes "0 < n" and "Suc j < nsect n (Suc l)"
  shows "128 ^ Suc l * Suc j < nsect n 0"
  using assms(2)
proof (induction l arbitrary: j)
  case (0 j)
  have "128 * Suc j \<le> 128 * (nsect n 1 - 1)" using 0 by (intro mult_le_mono2) simp
  also have "\<dots> < nsect n 0" using ceil_div(1) [of "nsect n 0"] nsect_pos [OF assms(1), of 0] by (simp add: nsect.simps(2))
  finally show ?case by simp
next
  case (Suc l j)
  have "128 * Suc j \<le> 128 * (nsect n (Suc (Suc l)) - 1)" using Suc(2) by (intro mult_le_mono2) simp
  also have "\<dots> < nsect n (Suc l)" using ceil_div(1) [OF nsect_pos [OF assms(1), of "Suc l"]] by (simp add: nsect.simps(2))
  finally have "Suc (128 * Suc j - 1) < nsect n (Suc l)" by simp
  from Suc.IH [OF this] show ?case by (simp add: algebra_simps)
qed

text \<open>Areas are of two kinds: places in the order of \<open>place_index\<close>, and the tail behind the data.\<close>

lemma area_inner:
  assumes s: "sized n L" and p: "in_file n L p" and inner: "\<forall>l j. p = Auth_sector l j \<longrightarrow> Suc j \<noteq> nsect n (Suc l)"
  shows "area_offset n L p = 4096 * place_index p \<and> area_length n L p \<le> 4096 \<and> area_offset n L p + area_length n L p \<le> end_of_data n L"
proof (cases p)
  case (Data_sector i)
  have n0: "nsect n 0 \<le> 2 ^ 31" "4096 * (nsect n 0 - 1) < n" using sized_first [OF s] by simp_all
  have i: "4096 * i < n" "i < nsect n 0" using p nsect_0_less Data_sector by (simp_all add: in_file.simps)
  have eq: "data_offset i = 4096 * sector_index i" using i(2) n0 by (intro data_offset_eq) linarith
  have "4096 * sector_index i + min 4096 (n - 4096 * i) \<le> end_of_data n L"
  proof (cases "i = nsect n 0 - 1")
    case False
    then have "sector_index i < sector_index (nsect n 0 - 1)" using i by (intro sector_index_less) linarith
    then show ?thesis using end_of_data_eq [OF s] by linarith
  qed (simp add: end_of_data_eq [OF s] min.coboundedI2)
  then show ?thesis using Data_sector eq by (simp add: area_offset.simps area_length.simps)
next
  case (Auth_sector l j)
  have j: "Suc j < nsect n (Suc l)" using inner p Auth_sector by (auto simp: in_file.simps)
  have n0: "nsect n 0 \<le> 2 ^ 31" "0 < nsect n 0" "0 < n" using sized_first [OF s] s by (simp_all add: sized_def)
  have before: "128 ^ Suc l * Suc j < nsect n 0" by (rule auth_before_last [OF n0(3) j])
  then have "place_before (nsect n 0 - 1) p" by (simp add: Auth_sector del: power_Suc)
  then have "place_index p < sector_index (nsect n 0 - 1)" by (rule place_index_less)
  moreover have "psync_fs_crypto_auth_offset l j = 4096 * place_index p"
    using auth_offset_index [of l j] before n0 by (simp add: Auth_sector del: power_Suc)
  ultimately show ?thesis using Auth_sector j end_of_data_eq [OF s] by (simp add: area_offset.simps area_length.simps)
qed

lemma area_tail:
  assumes "Suc j = nsect n (Suc l)"
  shows "area_offset n L (Auth_sector l j) = tail_offset n L l" "area_length n L (Auth_sector l j) = tail_length n L l"
  using assms by (simp_all add: area_offset.simps area_length.simps)

lemma tail_ordered: "l < k \<Longrightarrow> k \<le> L \<Longrightarrow> tail_offset n L l + tail_length n L l \<le> tail_offset n L k"
proof -
  assume "l < k" "k \<le> L"
  then have "(\<Sum>j<Suc l. last_blocks n j) \<le> (\<Sum>j<k. last_blocks n j)" by (intro sum_mono2) auto
  then show ?thesis using \<open>l < k\<close> \<open>k \<le> L\<close> by (simp add: tail_offset_def)
qed

lemma area_kinds:
  obtains (inner) "\<forall>l j. r = Auth_sector l j \<longrightarrow> Suc j \<noteq> nsect n (Suc l)" | (tail) l j where "r = Auth_sector l j" "Suc j = nsect n (Suc l)"
  by blast

definition apart :: "nat \<Rightarrow> nat \<Rightarrow> nat \<Rightarrow> nat \<Rightarrow> bool" where
  "apart a m b n \<longleftrightarrow> a + m \<le> b \<or> b + n \<le> a"

lemma areas_apart:
  assumes s: "sized n L" and p: "in_file n L p" and q: "in_file n L q" and "p \<noteq> q"
  shows "apart (area_offset n L p) (area_length n L p) (area_offset n L q) (area_length n L q)"
proof -
  show ?thesis
  proof (cases rule: area_kinds [of p n])
    case inner
    note ip = area_inner [OF s p inner]
    show ?thesis
    proof (cases rule: area_kinds [of q n])
      case inner
      note iq = area_inner [OF s q inner]
      have "place_index p < place_index q \<or> place_index q < place_index p" using place_index_inj [of p q] assms(4) by linarith
      then show ?thesis using ip iq unfolding apart_def by linarith
    next
      case (tail l j)
      then show ?thesis using ip area_tail [OF tail(2)] by (simp add: apart_def tail_offset_def)
    qed
  next
    case (tail l j)
    note tp = tail
    show ?thesis
    proof (cases rule: area_kinds [of q n])
      case inner
      then show ?thesis using area_inner [OF s q inner] tp area_tail [OF tp(2)] by (simp add: apart_def tail_offset_def)
    next
      case (tail k i)
      have "l \<noteq> k" using tp tail assms(4) by auto
      moreover have "l \<le> L" "k \<le> L" using p q tp(1) tail(1) by (auto simp: in_file.simps)
      ultimately show ?thesis
        using tail_ordered [of l k L n] tail_ordered [of k l L n] tp tail area_tail [OF tp(2)] area_tail [OF tail(2)] unfolding apart_def
        by (metis linorder_neqE_nat)
    qed
  qed
qed

text \<open>The areas end inside the file, and they are where the computed offsets say.\<close>

definition crypto_bytes :: "nat \<Rightarrow> nat \<Rightarrow> nat" where
  "crypto_bytes n L = bytes_to n L + (if n > 4096 then 32 else 0)"

abbreviation offsets_of :: "nat \<Rightarrow> nat \<Rightarrow> crypto_offsets" where
  "offsets_of n L \<equiv> block_offsets n L (end_of_data n L)"

lemma layout_sized:
  assumes "0 < n" and "n \<le> 2 ^ 43"
  obtains L where "sized n L" "psync_fs_crypto_offsets_by_plainsize n = Some (offsets_of n L)" "crypto_file_size (offsets_of n L) = crypto_bytes n L"
    "psync_fs_crypto_offsets_by_cryptosize (crypto_bytes n L) = Some (offsets_of n L)" "crypto_bytes n L < 2 ^ 49" "32 < crypto_bytes n L"
proof -
  have n: "n \<le> 2 ^ 44" using assms(2) by simp
  obtain L where L: "is_height n L" "psync_fs_crypto_offsets_by_plainsize n = Some (offsets_of n L)"
    "crypto_file_size (offsets_of n L) = crypto_bytes n L" "bytes_to n L < 2 ^ 48"
    "psync_fs_crypto_offsets_by_cryptosize (crypto_bytes n L) = Some (offsets_of n L)"
    using layout_of [OF assms(1) n] unfolding crypto_bytes_def by blast
  have "0 < L" using L(1) by (simp add: is_height_def)
  then have "nsect n 0 \<le> (\<Sum>k<L. nsect n k)" by (intro member_le_sum) auto
  moreover have "0 < nsect n 0" using assms(1) by (rule nsect_pos)
  ultimately have "32 < bytes_to n L" using assms(1) by (simp add: bytes_to_def)
  then show thesis using that [of L] L assms by (simp add: sized_def crypto_bytes_def)
qed

lemma sized_bytes: "sized n L \<Longrightarrow> bytes_to n L < 2 ^ 48"
proof -
  assume "sized n L"
  then have L: "1 \<le> L" "L \<le> 5" "nsect n L = 1" "0 < n" by (simp_all add: sized_def is_height_def)
  then have "L = 1 \<or> L = 2 \<or> L = 3 \<or> L = 4 \<or> L = 5" by auto
  then have "max_level_size ! L \<le> 0x810204081000" by (auto simp: max_level_size_def)
  then show ?thesis using bytes_to_bounds [OF L(4), of L] L(2,3) by simp
qed

lemma tail_end: "sized n L \<Longrightarrow> tail_offset n L L = bytes_to n L"
  using block_offsets_le [of n L] by (simp add: tail_offset_def end_of_data_def sized_def)

lemma area_inside:
  assumes s: "sized n L" and p: "in_file n L p"
  shows "area_offset n L p + area_length n L p \<le> crypto_bytes n L"
proof (cases rule: area_kinds [of p n])
  case inner
  have "end_of_data n L \<le> tail_offset n L L" by (simp add: tail_offset_def)
  then show ?thesis using area_inner [OF s p inner] tail_end [OF s] by (simp add: crypto_bytes_def)
next
  case (tail l j)
  show ?thesis
  proof (cases "l < L")
    case True
    then show ?thesis using tail area_tail [OF tail(2), of L] tail_ordered [of l L L n] tail_end [OF s] by (simp add: crypto_bytes_def)
  next
    case False
    then have "l = L" "4096 < n" using p tail(1) by (auto simp: in_file.simps)
    then show ?thesis using tail area_tail [OF tail(2), of L] tail_end [OF s] by (simp add: crypto_bytes_def)
  qed
qed

lemma sized_height: "sized n L \<Longrightarrow> 1 \<le> L \<and> L \<le> 5 \<and> nsect n L = 1"
  by (simp add: sized_def is_height_def)

lemma offsets_fields:
  assumes "sized n L" and "l \<le> L"
  shows "lastauthsectoroff (offsets_of n L) ! l = tail_offset n L l" "lastauthsectorlen (offsets_of n L) ! l = tail_length n L l"
  using assms sized_height [OF assms(1)] by (simp_all add: block_offsets_def tail_offset_def nth_append)

lemma offsets_simps [simp]:
  "plainsize (offsets_of n L) = n" "treelevels (offsets_of n L) = L" "needmasterauth (offsets_of n L) = (4096 < n)"
  by (simp_all add: block_offsets_def)

lemma masterauthoff_eq: "sized n L \<Longrightarrow> masterauthoff (offsets_of n L) = bytes_to n L"
  using tail_end [of n L] by (simp add: block_offsets_def tail_offset_def)

lemma auth_place_area:
  assumes "sized n L" and "l \<le> L" and "j < nsect n (Suc l)"
  shows "auth_place (offsets_of n L) l j (nsect n (Suc l) - 1) = Some (area_offset n L (Auth_sector l j), area_length n L (Auth_sector l j))"
  using assms offsets_fields [OF assms(1,2)] by (auto simp: auth_place_def area_offset.simps area_length.simps)

lemma last_sectorid: "0 < n \<Longrightarrow> n \<le> 2 ^ 43 \<Longrightarrow> get_last_sectorid_by_size n = nsect n 0 - 1"
proof -
  assume n: "0 < n" "n \<le> 2 ^ 43"
  obtain m where m: "n = Suc m" using n(1) by (cases n) simp_all
  have "(n + 4095) div 4096 = (m + 4096) div 4096" using m by simp
  also have "\<dots> = Suc (m div 4096)" by simp
  finally have "nsect n 0 - 1 = m div 4096" by (simp add: nsect.simps)
  moreover have "m div 4096 < 2 ^ 31" using n(2) m by simp
  ultimately show ?thesis using m by (simp add: get_last_sectorid_by_size_def wrap32_def)
qed

lemma group_bound: "4096 * i < n \<Longrightarrow> i div 128 < nsect n 1"
proof -
  assume "4096 * i < n"
  then have "i < nsect n 0" by (simp only: nsect_0_less)
  also have "\<dots> \<le> 128 * nsect n 1" using ceil_div(2) [of "nsect n 0"] calculation by (simp add: nsect.simps(2))
  finally show ?thesis by (simp add: less_mult_imp_div_less mult.commute)
qed

lemma auth_position_area:
  assumes "sized n L" and "4096 * i < n"
  shows "auth_position (offsets_of n L) i = area_offset n L (Auth_sector 0 (i div 128)) + i mod 128 * 32"
proof -
  have n: "0 < n" "n \<le> 2 ^ 43" using assms(1) by (simp_all add: sized_def)
  have "get_last_sectorid_by_size n div 128 = nsect n 1 - 1" using last_sectorid [OF n] nsect_pred [OF n(1), of 0] by simp
  moreover have "i div 128 < nsect n 1" by (rule group_bound [OF assms(2)])
  ultimately show ?thesis
    using offsets_fields [OF assms(1), of 0] by (auto simp: auth_position_def area_offset.simps)
qed

lemma block_inside:
  assumes "sized n L" and "4096 * i < n"
  shows "i mod 128 * 32 + 32 \<le> area_length n L (Auth_sector 0 (i div 128))"
proof (cases "Suc (i div 128) = nsect n 1")
  case True
  have n: "0 < n" using assms(1) by (simp add: sized_def)
  have "i < 128 * (nsect n 1 - 1) + last_blocks n 0" using last_blocks_eq [OF n, of 0] assms(2) by (simp add: nsect_0_less)
  then have "i < 128 * (i div 128) + last_blocks n 0" unfolding True [symmetric] by simp
  moreover have "128 * (i div 128) + i mod 128 = i" by simp
  ultimately have "i mod 128 < last_blocks n 0" by linarith
  then show ?thesis using True sized_height [OF assms(1)] by (simp add: area_length.simps)
next
  case False
  have "i mod 128 < 128" by simp
  then have "i mod 128 * 32 + 32 \<le> 4096" by linarith
  then show ?thesis using False by (simp add: area_length.simps)
qed

text \<open>The authentication sector of a full group stays where it is when the file grows.\<close>

lemma full_group:
  assumes s: "sized n L" and g: "Suc g = nsect n 1" and full: "n = 4096 * (128 * Suc g)"
  shows "area_offset n L (Auth_sector 0 g) = psync_fs_crypto_auth_offset 0 g"
proof -
  have sect: "nsect n 0 = 128 * Suc g" unfolding nsect.simps(1) full by simp
  then have "128 * Suc g \<le> 2 ^ 31" using sized_first [OF s] by simp
  then have "psync_fs_crypto_auth_offset 0 g = 4096 * (sector_index (128 * Suc g - 1) + 1)" using auth_offset_index [of 0 g] by simp
  moreover have "n - 4096 * (nsect n 0 - 1) = 4096" unfolding sect using full by simp
  moreover have "end_of_data n L = 4096 * (sector_index (128 * Suc g - 1) + 1)"
    using end_of_data_eq [OF s] calculation(2) unfolding sect by simp
  ultimately show ?thesis using g by (simp add: area_offset.simps tail_offset_def)
qed

subsection \<open>Replaying records for areas\<close>

definition spares :: "writes \<Rightarrow> nat \<Rightarrow> nat \<Rightarrow> bool" where
  "spares ws off len \<longleftrightarrow> (\<forall>(o1, d) \<in> set ws. apart o1 (length d) off len)"

lemma spares_simps [simp]:
  "spares [] off len" "spares (w # ws) off len \<longleftrightarrow> apart (fst w) (length (snd w)) off len \<and> spares ws off len"
  "spares (ws @ vs) off len \<longleftrightarrow> spares ws off len \<and> spares vs off len"
  by (auto simp: spares_def)

lemma part_nth: "off + len \<le> length f \<Longrightarrow> k < len \<Longrightarrow> take len (drop off f) ! k = f ! (off + k)"
  by simp

lemma spared_bytes:
  assumes "spares ws off len" and "off + len \<le> length f"
  shows "take len (drop off (write_all ws f)) = take len (drop off f) \<and> off + len \<le> length (write_all ws f)"
proof -
  have no: "\<not> written ws p" if "off \<le> p" "p < off + len" for p
    using assms(1) that by (auto simp: written_def spares_def apart_def)
  have len: "off + len \<le> length (write_all ws f)"
  proof (cases len)
    case 0
    have "length f \<le> length (write_all ws f)"
    proof (induction ws arbitrary: f)
      case (Cons w ws)
      have "length f \<le> length (file_write (fst w) (snd w) f)" by (simp add: length_file_write)
      then show ?case using Cons [of "file_write (fst w) (snd w) f"] by simp
    qed simp
    then show ?thesis using assms(2) by linarith
  next
    case (Suc k)
    then show ?thesis using write_all_untouched [of "off + k" f ws] no [of "off + k"] assms(2) by simp
  qed
  moreover have "take len (drop off (write_all ws f)) = take len (drop off f)"
  proof (rule nth_equalityI)
    show "length (take len (drop off (write_all ws f))) = length (take len (drop off f))" using len assms(2) by simp
    show "take len (drop off (write_all ws f)) ! k = take len (drop off f) ! k" if "k < length (take len (drop off (write_all ws f)))" for k
      using that len assms(2) write_all_untouched [of "off + k" f ws] no [of "off + k"] by simp
  qed
  ultimately show ?thesis by simp
qed

lemma written_bytes: "take (length data) (drop off (file_write off data f)) = data \<and> (data \<noteq> [] \<longrightarrow> off + length data \<le> length (file_write off data f))"
proof (cases "data = []")
  case False
  have "length (take off (f @ replicate (off - length f) 0)) = off" by simp
  then show ?thesis using False by (simp add: file_write_def)
qed simp

lemma newest_bytes:
  assumes "spares post off (length data)" and "data \<noteq> []"
  shows "take (length data) (drop off (write_all (pre @ (off, data) # post) f)) = data"
  using spared_bytes [OF assms(1), of "file_write off data (write_all pre f)"] written_bytes [of data off "write_all pre f"] assms(2) by simp

lemma file_set_size_part: "off + len \<le> n \<Longrightarrow> off + len \<le> length f \<Longrightarrow> take len (drop off (file_set_size n f)) = take len (drop off f)"
  by (simp add: file_set_size_def drop_take min_def)

text \<open>A log of data records is replayed as these writes, or the replay fails.\<close>

lemma replay_data_records:
  assumes "\<forall>(o1, d) \<in> set recs. length d \<le> 4096 \<and> o1 + length d \<le> fsize" and "fsize < 2 ^ 64" and "rrecs st = []"
    and "lfd = front @ log_bytes recs" "off = length front" and "process_records lfd fsize off st fs = (rc, st', fs')"
  shows "(rc = Some 0 \<or> rc = Some (-1)) \<and> (rc = Some 0 \<longrightarrow> rdfd st' = write_all recs (rdfd st) \<and> rrecs st' = []) \<and> (fs = [] \<longrightarrow> rc = Some 0 \<and> fs' = [])"
  using assms
proof (induction recs arbitrary: front off st fs)
  case Nil
  obtain rd hb fs1 where r: "psync_file_pread lfd 16 off fs = (rd, hb, fs1)" using prod_cases3 by blast
  then have "rd = 0 \<or> rd = -1" using Nil pread_progress [OF r] by auto
  moreover have "fs = [] \<Longrightarrow> rd = 0 \<and> fs1 = []" using r Nil by simp
  ultimately show ?case using Nil.prems(6) [unfolded process_records.simps [of lfd fsize off st fs] r prod.case] Nil.prems(3) by auto
next
  case (Cons rec recs)
  obtain o1 d where rec: "rec = (o1, d)" by fastforce
  let ?h = "data_header (length d) o1"
  have d: "length d \<le> 4096" "o1 + length d \<le> fsize" "o1 < 2 ^ 64" using Cons.prems(1,2) rec by auto
  have h: "header_of (header_bytes ?h) = ?h" using d by (intro header_of_data_header) auto
  have f: "htype ?h = PSYNC_CRYPTO_LOG_DATA" "hoffset ?h = o1" "hlength ?h = length d" by (simp_all add: data_header_def)
  have w: "wrap64 (o1 + length d) = o1 + length d" using d(2) Cons.prems(2) by (simp add: wrap64_def)
  have at: "take 16 (drop off lfd) = header_bytes ?h" "take (length d) (drop (off + 16) lfd) = d" "off + 16 + length d \<le> length lfd"
    using Cons.prems(4,5) rec by simp_all
  obtain rd hb fs1 where r: "psync_file_pread lfd 16 off fs = (rd, hb, fs1)" using prod_cases3 by blast
  have nil: "fs = [] \<Longrightarrow> rd = 16 \<and> fs1 = []" using r at by auto
  show ?case
  proof (cases "rd = 16")
    case False
    have "rd \<noteq> 0" using r at(3) by (auto simp: psync_file_pread_def Let_def split: fault.splits prod.splits)
    then show ?thesis using False nil Cons.prems(6) [unfolded process_records.simps [of lfd fsize off st fs] r prod.case] by auto
  next
    case True
    then have hb: "hb = header_bytes ?h" using pread_all [of lfd 16 off fs hb fs1] r at(1) by simp
    obtain rd2 buff fs2 where r2: "psync_file_pread lfd (length d) (off + 16) fs1 = (rd2, buff, fs2)" using prod_cases3 by blast
    have run: "(rc, st', fs') = (if rd2 \<noteq> int (length d) then (Some (- 1), st, fs2)
        else case psync_file_pwrite (rdfd st) buff o1 fs2 of (rd, dfd, fs) \<Rightarrow>
          if rd \<noteq> int (length d) then (Some (- 1), st\<lparr>rdfd := dfd\<rparr>, fs) else process_records lfd fsize (off + 16 + length d) (st\<lparr>rdfd := dfd\<rparr>) fs)"
      using Cons.prems(6) [unfolded process_records.simps [of lfd fsize off st fs] r prod.case True hb Let_def h f w r2] d Cons.prems(3) by simp
    obtain rd3 dfd fs3 where w3: "psync_file_pwrite (rdfd st) buff o1 fs2 = (rd3, dfd, fs3)" using prod_cases3 by blast
    show ?thesis
    proof (cases "rd2 = int (length d) \<and> rd3 = int (length d)")
      case False
      have "fs = [] \<Longrightarrow> rd2 = int (length d) \<and> rd3 = int (length d)" using nil r2 w3 at by auto
      then show ?thesis using False run w3 by (auto split: if_splits)
    next
      case True
      then have buff: "buff = d" using pread_all [of lfd "length d" "off + 16" fs1 buff fs2] r2 at(2) by simp
      have dfd: "dfd = file_write o1 d (rdfd st)" using pwrite_part [OF w3] True by (auto simp: buff)
      have "fs = [] \<Longrightarrow> fs3 = []" using nil r2 w3 by auto
      moreover have "lfd = (front @ header_bytes ?h @ d) @ log_bytes recs" using Cons.prems(4) rec by simp
      moreover have "off + 16 + length d = length (front @ header_bytes ?h @ d)" using Cons.prems(5) by simp
      moreover have "process_records lfd fsize (off + 16 + length d) (st\<lparr>rdfd := dfd\<rparr>) fs3 = (rc, st', fs')" using run True w3 by simp
      ultimately show ?thesis
        using Cons.IH [of "st\<lparr>rdfd := dfd\<rparr>" "front @ header_bytes ?h @ d" "off + 16 + length d" fs3] Cons.prems(1,2,3) rec dfd by auto
    qed
  qed
qed

end
