(* ===== verification/Pfsfinal.thy ===== *)
theory Pfsfinal
  imports Pfsareas
begin

section \<open>Finalising a log keeps the content (pfscrypto.c)\<close>

text \<open>
  Finalising writes the authentication sectors of the changed sectors to the log and replays it. The records it writes are for
  areas of the new layout; those of the lowest level hold the blocks of all sectors of their group, the
  unchanged ones as they were in the data file. So the data file stands for the content afterwards, with an empty log.
\<close>

subsection \<open>Records of authentication sectors\<close>

text \<open>Only the log has changed.\<close>

definition same_file :: "openfile \<Rightarrow> openfile \<Rightarrow> bool" where
  "same_file s s' \<longleftrightarrow> s' = s\<lparr>logfile := logfile s', logoffset := logoffset s', loghashctx := loghashctx s', pending := pending s'\<rparr>"

lemma same_file_refl [simp]: "same_file s s"
  by (simp add: same_file_def)

lemma same_file_simps:
  assumes "same_file s s'"
  shows "datafile s' = datafile s" "indexfile s' = indexfile s" "sectorsinlog s' = sectorsinlog s" "inlog s' = inlog s" "currentsize s' = currentsize s"
    "newfile s' = newfile s" "flog s' = flog s" "allocated s' = allocated s"
proof -
  have eq: "s' = s\<lparr>logfile := logfile s', logoffset := logoffset s', loghashctx := loghashctx s', pending := pending s'\<rparr>"
    using assms by (simp add: same_file_def)
  show "datafile s' = datafile s" "indexfile s' = indexfile s" "sectorsinlog s' = sectorsinlog s" "inlog s' = inlog s" "currentsize s' = currentsize s"
    "newfile s' = newfile s" "flog s' = flog s" "allocated s' = allocated s"
    by (subst eq, simp)+
qed

lemma same_file_trans: "same_file s s' \<Longrightarrow> same_file s' s'' \<Longrightarrow> same_file s s''"
  by (cases s; cases s'; cases s'') (simp add: same_file_def)

lemma same_file_pending [simp]: "same_file s (s'\<lparr>pending := fs\<rparr>) = same_file s s'"
  by (cases s; cases s') (simp add: same_file_def)

lemma log_ok_pending [simp]: "log_ok env (s\<lparr>pending := fs\<rparr>) recs = log_ok env s recs"
  by (simp add: log_ok_def)

lemma runs_auth_record:
  assumes log: "log_ok env s recs" and new: "newfile s" and data: "length data = sz" "sz \<le> 4096" "off < 2 ^ 64" and room: "logoffset s + 4112 < 2 ^ 32"
    and rest: "\<And>s'. same_file s s' \<Longrightarrow> log_ok env s' (recs @ [(off, data)]) \<Longrightarrow> logoffset s' = logoffset s + 16 + sz \<Longrightarrow> runs K s' Q"
  shows "runs (op_bind (op_get logoffset) (\<lambda>logoff.
      op_bind (log_pwrite (header_bytes (data_header sz off)) logoff) (\<lambda>wrt.
      op_bind (op_unless (wrt = 16) EIO) (\<lambda>_.
      op_bind (hash_update env (header_bytes (data_header sz off))) (\<lambda>_.
      op_bind (log_pwrite data (logoff + 16)) (\<lambda>wrt.
      op_bind (op_unless (wrt = int sz) EIO) (\<lambda>_.
      op_bind (hash_update env data) (\<lambda>_.
      op_bind (add_written_interval off (wrap64 (off + sz))) (\<lambda>_.
      op_bind (op_modify (\<lambda>s. s\<lparr>logoffset := wrap32 (logoff + sz + 16)\<rparr>)) (\<lambda>_. K)))))))))) s Q"
proof -
  let ?hb = "header_bytes (data_header sz off)"
  obtain start where l: "logfile s = Some (start @ log_bytes recs)" "length start = 4096" "logoffset s = 4096 + length (log_bytes recs)"
    using log by (auto simp: log_ok_def)
  let ?f = "start @ log_bytes recs"
  have w: "wrap32 (logoffset s + sz + 16) = logoffset s + sz + 16"
    using room data(2) by (simp_all add: wrap32_def)
  have f1: "file_write (logoffset s) ?hb ?f = ?f @ ?hb" "file_write (logoffset s + 16) data (?f @ ?hb) = ?f @ ?hb @ data"
    using l(2,3) file_write_end [of "logoffset s + 16" "?f @ ?hb" data] by (simp_all add: file_write_end)
  let ?s = "\<lambda>fs. s\<lparr>logfile := Some (?f @ ?hb @ data), pending := fs, loghashctx := fh_update (hashing env) (fh_update (hashing env) (loghashctx s) ?hb) data, logoffset := logoffset s + 16 + sz\<rparr>"
  have fin: "runs K (?s fs) Q" for fs
  proof (rule rest)
    show "log_ok env (?s fs) (recs @ [(off, data)])"
      by (rule log_ok_append [OF log, where chunks = "[?hb, data]"]) (use data l in \<open>simp_all add: file_write_end\<close>)
  qed (simp_all add: same_file_def)
  have hash: "op_bind (hash_update env bs) (\<lambda>_. m) = op_bind (op_modify (\<lambda>s. s\<lparr>loghashctx := fh_update (hashing env) (loghashctx s) bs\<rparr>)) (\<lambda>_. m)"
    for bs and m :: "'b op" by (simp add: hash_update_def)
  have second: "runs (op_bind (log_pwrite data (logoffset s + 16)) (\<lambda>wrt.
      op_bind (op_unless (wrt = int sz) EIO) (\<lambda>_.
      op_bind (hash_update env data) (\<lambda>_.
      op_bind (add_written_interval off (wrap64 (off + sz))) (\<lambda>_.
      op_bind (op_modify (\<lambda>s2. s2\<lparr>logoffset := wrap32 (logoffset s + sz + 16)\<rparr>)) (\<lambda>_. K))))))
      (s\<lparr>logfile := Some (?f @ ?hb), pending := fs, loghashctx := fh_update (hashing env) (loghashctx s) ?hb\<rparr>) Q" for fs
    unfolding w
  proof (rule runs_log_pwrite)
    fix fs2
    show "runs (op_bind (hash_update env data) (\<lambda>_. op_bind (add_written_interval off (wrap64 (off + sz))) (\<lambda>_.
        op_bind (op_modify (\<lambda>s2. s2\<lparr>logoffset := logoffset s + sz + 16\<rparr>)) (\<lambda>_. K))))
        (s\<lparr>logfile := Some (?f @ ?hb), pending := fs, loghashctx := fh_update (hashing env) (loghashctx s) ?hb,
           logfile := Some (file_write (logoffset s + 16) data (?f @ ?hb)), pending := fs2\<rparr>) Q"
      unfolding f1 hash add_written_interval_def op_bind_assoc
      by (intro runs_bind_modify, simp, simp add: new, intro runs_bind_modify, simp, use fin [of fs2] in \<open>simp add: ac_simps\<close>)
  qed (use data in simp_all)
  show ?thesis
    unfolding runs_bind_get w
  proof (rule runs_log_pwrite [OF l(1)])
    fix fs
    show "runs (op_bind (hash_update env ?hb) (\<lambda>_. op_bind (log_pwrite data (logoffset s + 16)) (\<lambda>wrt.
        op_bind (op_unless (wrt = int sz) EIO) (\<lambda>_. op_bind (hash_update env data) (\<lambda>_.
        op_bind (add_written_interval off (wrap64 (off + sz))) (\<lambda>_.
        op_bind (op_modify (\<lambda>s2. s2\<lparr>logoffset := logoffset s + sz + 16\<rparr>)) (\<lambda>_. K)))))))
        (s\<lparr>logfile := Some (file_write (logoffset s) ?hb ?f), pending := fs\<rparr>) Q"
      using second [of fs] unfolding f1 hash w by (intro runs_bind_modify) simp_all
  qed simp
qed

text \<open>A record for an authentication sector of a level or one above it.\<close>

definition auth_record :: "nat \<Rightarrow> nat \<Rightarrow> nat \<Rightarrow> nat \<times> byte list \<Rightarrow> bool" where
  "auth_record n L l w \<longleftrightarrow> (\<exists>k j. l \<le> k \<and> in_file n L (Auth_sector k j) \<and>
     fst w = area_offset n L (Auth_sector k j) \<and> length (snd w) = area_length n L (Auth_sector k j))"

lemma auth_record_mono: "auth_record n L l w \<Longrightarrow> k \<le> l \<Longrightarrow> auth_record n L k w"
  unfolding auth_record_def by (meson le_trans)

definition arrays_ok :: "auth_array \<Rightarrow> bool" where
  "arrays_ok arr \<longleftrightarrow> (\<forall>k. length (arr k) = 4096)"

lemma arrays_set: "arrays_ok arr \<Longrightarrow> length auth = 32 \<Longrightarrow> i < 128 \<Longrightarrow> arrays_ok (set_auth_block l i auth arr)"
  by (auto simp: arrays_ok_def set_auth_block_def)

lemma length_sign_auth: "env_ok env \<Longrightarrow> length (sign_auth env data) = 32"
proof -
  assume env: "env_ok env"
  then have aes: "aes_ok (fE env) (fD env)" and sha: "sha_ok (fsha env)" by (simp_all add: env_ok_def)
  have "length (take 32 (psync_hmac_sha512 (fsha env) data (fiv env))) = 32" using sha by (simp add: psync_hmac_sha512_def sha_ok_def)
  then show ?thesis by (simp add: sign_auth_def psync_crypto_sign_auth_sector_def psync_aes256_encode_2blocks_consec_def aes_okD [OF aes])
qed

lemma area_length_le: "area_length n L p \<le> 4096"
proof (cases p)
  case (Auth_sector l j)
  have "last_blocks n l \<le> 128" by (simp add: last_blocks_def less_imp_le)
  then have "tail_length n L l \<le> 4096" by simp
  then show ?thesis using Auth_sector by (simp add: area_length.simps del: tail_length.simps)
qed (simp add: area_length.simps)

text \<open>What \<open>switch_write\<close> has fin: a record for the sector of its level, then records for levels above.\<close>

definition sectors_written :: "file_env \<Rightarrow> nat \<Rightarrow> nat \<Rightarrow> nat \<Rightarrow> nat \<Rightarrow> auth_array \<Rightarrow> openfile \<Rightarrow> writes \<Rightarrow> auth_array \<Rightarrow> openfile \<Rightarrow> bool" where
  "sectors_written env n L l old arr s recs arr' s' \<longleftrightarrow>
     same_file s s' \<and> arrays_ok arr' \<and> (\<forall>k\<le>l. arr' k = arr k) \<and> logoffset s' \<le> logoffset s + 4112 * (L - l) \<and>
     (\<exists>upper. log_ok env s' (recs @ (area_offset n L (Auth_sector l old), take (area_length n L (Auth_sector l old)) (arr l)) # upper) \<and>
        (\<forall>w \<in> set upper. auth_record n L (Suc l) w))"

lemma sectors_written_up:
  assumes w: "sectors_written env n L (Suc l) j arr1 s1 (recs @ [(area_offset n L (Auth_sector l old), take (area_length n L (Auth_sector l old)) (arr l))]) arr' s'"
    and s1: "same_file s s1" "logoffset s1 \<le> logoffset s + 4112" and l: "Suc l < L" and same: "\<And>k. k \<le> l \<Longrightarrow> arr1 k = arr k"
    and j: "j < nsect n (Suc (Suc l))" and ok: "arrays_ok arr1"
  shows "sectors_written env n L l old arr s recs arr' s'"
proof -
  let ?w = "(area_offset n L (Auth_sector (Suc l) j), take (area_length n L (Auth_sector (Suc l) j)) (arr1 (Suc l)))"
  obtain upper where u: "log_ok env s' ((recs @ [(area_offset n L (Auth_sector l old), take (area_length n L (Auth_sector l old)) (arr l))]) @ ?w # upper)"
    "\<forall>w \<in> set upper. auth_record n L (Suc (Suc l)) w" using w by (auto simp: sectors_written_def)
  have "length (arr1 (Suc l)) = 4096" using ok by (simp add: arrays_ok_def)
  then have "auth_record n L (Suc l) ?w"
    unfolding auth_record_def using l j area_length_le [of n L "Auth_sector (Suc l) j"]
    by (intro exI [of _ "Suc l"] exI [of _ j]) (simp add: in_file.simps)
  then have "\<forall>w \<in> set (?w # upper). auth_record n L (Suc l) w" using u(2) auth_record_mono by fastforce
  moreover have "4112 * (L - l) = 4112 + 4112 * (L - Suc l)" using l by (simp add: algebra_simps Suc_diff_Suc flip: mult_Suc_right)
  moreover have "same_file s s'" using same_file_trans [OF s1(1)] w by (auto simp: sectors_written_def)
  ultimately show ?thesis
    using w s1(2) u(1) same unfolding sectors_written_def by (auto intro!: exI [of _ "?w # upper"])
qed

lemma runs_switch_write:
  assumes env: "env_ok env" and size: "sized n L"
  shows "l < L \<Longrightarrow> old < nsect n (Suc l) \<Longrightarrow> log_ok env s recs \<Longrightarrow> newfile s \<Longrightarrow> arrays_ok arr \<Longrightarrow> logoffset s + 4112 * (L - l) < 2 ^ 32 \<Longrightarrow>
    runs (switch_write env (offsets_of n L) l old new (nsect n (Suc l) - 1) arr) s (sectors_written env n L l old arr s recs)"
proof (induction "L - l" arbitrary: l old new arr s recs)
  case (Suc d)
  let ?p = "Auth_sector l old"
  let ?off = "area_offset n L ?p" and ?sz = "area_length n L ?p"
  let ?data = "take ?sz (arr l)" and ?arr = "set_auth_block (l + 1) (old mod 128) (sign_auth env (take ?sz (arr l))) arr"
  have n: "0 < n" using size by (simp add: sized_def)
  have p: "in_file n L ?p" using Suc.prems(1,2) by (simp add: in_file.simps)
  have inside: "?off + ?sz \<le> crypto_bytes n L" by (rule area_inside [OF size p])
  have "?off + ?sz < 2 ^ 49" "?off + ?sz \<le> masterauthoff (offsets_of n L) + 32"
    using inside sized_bytes [OF size] masterauthoff_eq [OF size] by (simp_all add: crypto_bytes_def split: if_splits)
  then have assert: "wrap64 (?off + ?sz) \<le> masterauthoff (offsets_of n L) + 32" "?off < 2 ^ 64" by (simp_all add: wrap64_def)
  have sz: "?sz \<le> 4096" by (rule area_length_le)
  have data: "length ?data = ?sz" using Suc.prems(5) sz by (simp add: arrays_ok_def)
  have arr: "arrays_ok ?arr" using Suc.prems(5) length_sign_auth [OF env] by (intro arrays_set) simp_all
  have same: "?arr k = arr k" if "k \<le> l" for k using that by (simp add: set_auth_block_def)
  have place: "auth_place (offsets_of n L) l old (nsect n (Suc l) - 1) = Some (?off, ?sz)"
    using auth_place_area [OF size _ Suc.prems(2)] Suc.prems(1) by simp
  have div: "(nsect n (Suc l) - 1) div 128 = nsect n (Suc (Suc l)) - 1" by (rule nsect_pred [OF n])
  have old: "old div 128 < nsect n (Suc (Suc l))"
  proof -
    have "nsect n (Suc l) \<le> 128 * nsect n (Suc (Suc l))" using ceil_div(2) [OF nsect_pos [OF n, of "Suc l"]] by (simp add: nsect.simps(2))
    then show ?thesis using Suc.prems(2) by (simp add: less_mult_imp_div_less mult.commute)
  qed
  have Ll: "L - l = Suc (L - Suc l)" using Suc.prems(1) by simp
  have K: "runs (if old div 128 \<noteq> new div 128 \<and> l + 1 < L
        then switch_write env (offsets_of n L) (l + 1) (old div 128) (new div 128) (nsect n (Suc (Suc l)) - 1) ?arr else op_return ?arr)
      s' (sectors_written env n L l old arr s recs)"
    if s': "same_file s s'" "log_ok env s' (recs @ [(?off, ?data)])" "logoffset s' = logoffset s + 16 + ?sz" for s'
  proof (cases "old div 128 \<noteq> new div 128 \<and> l + 1 < L")
    case True
    have "runs (switch_write env (offsets_of n L) (Suc l) (old div 128) (new div 128) (nsect n (Suc (Suc l)) - 1) ?arr) s'
        (sectors_written env n L (Suc l) (old div 128) ?arr s' (recs @ [(?off, ?data)]))"
    proof (rule Suc.hyps(1) [OF _ _ old s'(2) _ arr])
      show "newfile s'" using same_file_simps(6) [OF s'(1)] Suc.prems(4) by simp
      show "logoffset s' + 4112 * (L - Suc l) < 2 ^ 32" using Suc.prems(6) sz s'(3) unfolding Ll by simp
    qed (use Suc.hyps(2) True in simp_all)
    then show ?thesis
      using True by (simp, elim runs_mono) (rule sectors_written_up [OF _ s'(1) _ _ same old arr], use s'(3) sz True in simp_all)
  next
    case False
    then show ?thesis
      using s' arr same sz Ll unfolding sectors_written_def by (auto intro!: runs_return exI [of _ "[]"])
  qed
  show ?case
    unfolding switch_write.simps [of env _ l] Let_def offsets_simps div
    by (intro runs_bind_some [OF place], unfold prod.case, intro runs_bind_assert [OF assert(1)] runs_auth_record [OF Suc.prems(3,4) data sz assert(2)])
      (use Suc.prems(6) Ll K in simp_all)
qed simp

text \<open>What \<open>switch_read\<close> has fin: the sector of its level is the old one, if the old file has it.\<close>

definition sectors_read :: "nat \<Rightarrow> nat \<Rightarrow> nat \<Rightarrow> nat \<Rightarrow> auth_array \<Rightarrow> openfile \<Rightarrow> auth_array \<Rightarrow> openfile \<Rightarrow> bool" where
  "sectors_read n L l j arr s arr' s' \<longleftrightarrow>
     s' = s\<lparr>pending := pending s'\<rparr> \<and> arrays_ok arr' \<and> (\<forall>k<l. arr' k = arr k) \<and>
     (let off = area_offset n L (Auth_sector l j); sz = area_length n L (Auth_sector l j) in
      arr' l = (if j < nsect n (Suc l) then take sz (drop off (datafile s)) @ drop sz (arr l) else arr l))"

lemma runs_switch_read:
  assumes size: "sized n L"
  shows "l < L \<or> l = L \<and> 4096 < n \<Longrightarrow> length (datafile s) = crypto_bytes n L \<Longrightarrow> arrays_ok arr \<Longrightarrow>
    runs (switch_read nl (offsets_of n L) l old new (nsect n (Suc l) - 1) arr) s (sectors_read n L l new arr s)"
proof (induction "nl - l" arbitrary: l old new arr s rule: less_induct)
  case less
  let ?p = "Auth_sector l new"
  let ?off = "area_offset n L ?p" and ?sz = "area_length n L ?p"
  define A where "A = (if new < nsect n (Suc l) then arr(l := take ?sz (drop ?off (datafile s)) @ drop ?sz (arr l)) else arr)"
  have n: "0 < n" using size by (simp add: sized_def)
  have le: "new \<le> nsect n (Suc l) - 1 \<longleftrightarrow> new < nsect n (Suc l)" using nsect_pos [OF n, of "Suc l"] by linarith
  have div: "(nsect n (Suc l) - 1) div 128 = nsect n (Suc (Suc l)) - 1" by (rule nsect_pred [OF n])
  have sz: "?sz \<le> 4096" by (rule area_length_le)
  have inside: "new < nsect n (Suc l) \<Longrightarrow> ?off + ?sz \<le> length (datafile s)"
    using area_inside [OF size, of ?p] less.prems(1,2) by (simp add: in_file.simps)
  have arr: "arrays_ok A" using less.prems(3) inside sz by (auto simp: arrays_ok_def A_def)
  have K: "runs (if old div 128 \<noteq> new div 128 \<and> l + 1 < nl \<and> (l + 1 < L \<or> 4096 < n \<and> l + 1 = L)
        then switch_read nl (offsets_of n L) (l + 1) (old div 128) (new div 128) (nsect n (Suc (Suc l)) - 1) A else op_return A)
      (s\<lparr>pending := fs\<rparr>) (sectors_read n L l new arr s)" for fs
  proof (cases "old div 128 \<noteq> new div 128 \<and> l + 1 < nl \<and> (l + 1 < L \<or> 4096 < n \<and> l + 1 = L)")
    case True
    have "runs (switch_read nl (offsets_of n L) (Suc l) (old div 128) (new div 128) (nsect n (Suc (Suc l)) - 1) A) (s\<lparr>pending := fs\<rparr>)
        (sectors_read n L (Suc l) (new div 128) A (s\<lparr>pending := fs\<rparr>))"
      by (rule less.hyps) (use True less.prems(2) arr in auto)
    moreover have "sectors_read n L l new arr s arr' s'" if "sectors_read n L (Suc l) (new div 128) A (s\<lparr>pending := fs\<rparr>) arr' s'" for arr' s'
      using that by (simp add: sectors_read_def Let_def A_def)
    ultimately show ?thesis using True by (simp only: simp_thms if_True Suc_eq_plus1) (elim runs_mono)
  next
    case False
    then show ?thesis using arr by (auto intro!: runs_return simp: sectors_read_def Let_def A_def)
  qed
  have first: "runs (if new < nsect n (Suc l)
         then op_bind (op_some (auth_place (offsets_of n L) l new (nsect n (Suc l) - 1))) (\<lambda>(off, sz).
           op_bind (data_pread sz off) (\<lambda>(rd, data). op_bind (op_unless (rd = int sz) EIO) (\<lambda>_. op_return (arr(l := data @ drop sz (arr l))))))
         else op_return arr) s (\<lambda>arr s'. arr = A \<and> s' = s\<lparr>pending := pending s'\<rparr>)"
  proof (cases "new < nsect n (Suc l)")
    case True
    have "runs (op_bind (data_pread ?sz ?off) (\<lambda>(rd, data). op_bind (op_unless (rd = int ?sz) EIO) (\<lambda>_. op_return (arr(l := data @ drop ?sz (arr l)))))) s
        (\<lambda>arr s'. arr = A \<and> s' = s\<lparr>pending := pending s'\<rparr>)"
      using inside [OF True] True by (intro runs_data_pread) (auto intro!: runs_return simp: A_def)
    moreover have "l \<le> L" using less.prems(1) by auto
    ultimately show ?thesis
      unfolding if_P [OF True] by (intro runs_bind_some [OF auth_place_area [OF size _ True]]) simp_all
  qed (simp add: runs_return A_def)
  show ?case
    unfolding switch_read.simps [of nl _ l] Let_def offsets_simps div le
  proof (rule runs_bind, rule runs_mono [OF first], elim conjE, simp only:)
    fix s' :: openfile
    assume s': "s' = s\<lparr>pending := pending s'\<rparr>"
    show "runs (if old div 128 \<noteq> new div 128 \<and> l + 1 < nl \<and> (l + 1 < L \<or> 4096 < n \<and> l + 1 = L)
        then switch_read nl (offsets_of n L) (l + 1) (old div 128) (new div 128) (nsect n (Suc (Suc l)) - 1) A else op_return A) s' (sectors_read n L l new arr s)"
      by (subst s') (rule K)
  qed
qed

subsection \<open>The authentication sectors of the lowest level\<close>

text \<open>
  The block of a sector after the finalisation: that of the newest copy in the log, or the one in the data file. A state can be
  finalised for a content of \<open>n\<close> bytes if every sector is in the log or in the data file, which stands for \<open>m\<close> bytes.
\<close>

definition block_of :: "openfile \<Rightarrow> crypto_offsets \<Rightarrow> nat \<Rightarrow> byte list" where
  "block_of s offs i = (case in_log s i of Some se \<Rightarrow> lauth se | None \<Rightarrow> take 32 (drop (auth_position offs i) (datafile s)))"

definition finalisable :: "openfile \<Rightarrow> crypto_offsets \<Rightarrow> nat \<Rightarrow> nat \<Rightarrow> bool" where
  "finalisable s offs m n \<longleftrightarrow> newfile s \<and> tree_ok s \<and> n \<le> 2 ^ 43 \<and>
     (\<forall>i se. i < 2 ^ 31 \<longrightarrow> in_log s i = Some se \<longrightarrow> 4096 * i < n \<and> length (lauth se) = 32) \<and>
     (\<forall>i. in_log s i = None \<longrightarrow> 4096 * i < n \<longrightarrow> 4096 * i < m) \<and>
     (if m = 0 then datafile s = []
      else \<exists>L. sized m L \<and> offs = offsets_of m L \<and> length (datafile s) = crypto_bytes m L \<and> 32 < crypto_bytes m L \<and>
        psync_fs_crypto_offsets_by_cryptosize (crypto_bytes m L) = Some offs)"

definition group_good :: "openfile \<Rightarrow> crypto_offsets \<Rightarrow> nat \<Rightarrow> nat \<Rightarrow> byte list \<Rightarrow> bool" where
  "group_good s offs n g data \<longleftrightarrow> (\<forall>i. i div 128 = g \<longrightarrow> 4096 * i < n \<longrightarrow> take 32 (drop (i mod 128 * 32) data) = block_of s offs i)"

definition final_record :: "openfile \<Rightarrow> crypto_offsets \<Rightarrow> nat \<Rightarrow> nat \<Rightarrow> nat \<times> byte list \<Rightarrow> bool" where
  "final_record s offs n L w \<longleftrightarrow> auth_record n L 1 w \<or>
     (\<exists>g < nsect n 1. fst w = area_offset n L (Auth_sector 0 g) \<and> length (snd w) = area_length n L (Auth_sector 0 g) \<and> group_good s offs n g (snd w))"

text \<open>Records for the groups \<open>G\<close> have been written, and none that is wrong.\<close>

definition progress :: "file_env \<Rightarrow> openfile \<Rightarrow> crypto_offsets \<Rightarrow> nat \<Rightarrow> nat \<Rightarrow> writes \<Rightarrow> nat set \<Rightarrow> openfile \<Rightarrow> bool" where
  "progress env s0 offs n L recs G s \<longleftrightarrow> same_file s0 s \<and>
     (\<exists>ws. log_ok env s (recs @ ws) \<and> (\<forall>w \<in> set ws. final_record s0 offs n L w) \<and>
        (\<forall>g \<in> G. \<exists>data. (area_offset n L (Auth_sector 0 g), data) \<in> set ws))"

text \<open>The sector being put together has the blocks of the sectors \<open>D\<close> of the group, and those that are not in the log.\<close>

definition group_part :: "openfile \<Rightarrow> crypto_offsets \<Rightarrow> nat \<Rightarrow> nat \<Rightarrow> nat set \<Rightarrow> auth_array \<Rightarrow> bool" where
  "group_part s offs n g D arr \<longleftrightarrow> (\<forall>i. i div 128 = g \<longrightarrow> 4096 * i < n \<longrightarrow> in_log s i = None \<or> i \<in> D \<longrightarrow>
     take 32 (drop (i mod 128 * 32) (arr 0)) = block_of s offs i)"

lemma part_of_take: "a + n \<le> k \<Longrightarrow> take n (drop a (take k xs)) = take n (drop a xs)"
  by (simp add: drop_take min_absorb1)

lemma part_of_area: "a + n \<le> k \<Longrightarrow> off + k \<le> length f \<Longrightarrow> take n (drop a (take k (drop off f) @ ys)) = take n (drop (off + a) f)"
  by (simp add: drop_take min_absorb1 add.commute)

lemma group_part_good:
  assumes size: "sized n L" and part: "group_part s offs n g D arr" and all: "\<And>i. i div 128 = g \<Longrightarrow> in_log s i \<noteq> None \<Longrightarrow> i \<in> D"
  shows "group_good s offs n g (take (area_length n L (Auth_sector 0 g)) (arr 0))"
  unfolding group_good_def
proof (intro allI impI)
  fix i
  assume i: "i div 128 = g" "4096 * i < n"
  have inside: "i mod 128 * 32 + 32 \<le> area_length n L (Auth_sector 0 g)" using block_inside [OF size i(2)] i(1) by simp
  have "take 32 (drop (i mod 128 * 32) (arr 0)) = block_of s offs i" using part all i unfolding group_part_def by blast
  then show "take 32 (drop (i mod 128 * 32) (take (area_length n L (Auth_sector 0 g)) (arr 0))) = block_of s offs i"
    using part_of_take [OF inside, of "arr 0"] by simp
qed

lemma runs_switch_out:
  assumes env: "env_ok env" and size: "sized n L" and g: "g < nsect n 1" and arr: "arrays_ok arr" and fin: "newfile s0"
    and prog: "progress env s0 offs n L recs G s" and room: "logoffset s + 20560 < 2 ^ 32"
    and good: "group_good s0 offs n g (take (area_length n L (Auth_sector 0 g)) (arr 0))"
  shows "runs (switch_write env (offsets_of n L) 0 g new (nsect n 1 - 1) arr) s
    (\<lambda>arr' s'. arrays_ok arr' \<and> progress env s0 offs n L recs (insert g G) s' \<and> logoffset s' \<le> logoffset s + 20560)"
proof -
  let ?p = "Auth_sector 0 g"
  have L: "1 \<le> L" "L \<le> 5" using sized_height [OF size] by simp_all
  obtain ws where ws: "same_file s0 s" "log_ok env s (recs @ ws)" "\<forall>w \<in> set ws. final_record s0 offs n L w"
      "\<forall>g \<in> G. \<exists>data. (area_offset n L (Auth_sector 0 g), data) \<in> set ws" using prog by (auto simp: progress_def)
  have "runs (switch_write env (offsets_of n L) 0 g new (nsect n (Suc 0) - 1) arr) s (sectors_written env n L 0 g arr s (recs @ ws))"
    by (rule runs_switch_write [OF env size]) (use L g ws(2) arr room fin same_file_simps(6) [OF ws(1)] in simp_all)
  moreover have "arrays_ok arr' \<and> progress env s0 offs n L recs (insert g G) s' \<and> logoffset s' \<le> logoffset s + 20560"
    if w: "sectors_written env n L 0 g arr s (recs @ ws) arr' s'" for arr' s'
  proof -
    let ?w = "(area_offset n L ?p, take (area_length n L ?p) (arr 0))"
    obtain upper where u: "log_ok env s' ((recs @ ws) @ ?w # upper)" "\<forall>w \<in> set upper. auth_record n L (Suc 0) w"
      using w by (auto simp: sectors_written_def)
    have "final_record s0 offs n L ?w"
      unfolding final_record_def using good g arr area_length_le [of n L ?p] by (intro disjI2 exI [of _ g]) (simp add: arrays_ok_def)
    then have "\<forall>w \<in> set (ws @ ?w # upper). final_record s0 offs n L w" using ws(3) u(2) by (auto simp: final_record_def)
    then have "progress env s0 offs n L recs (insert g G) s'"
      unfolding progress_def using w u(1) ws(1,4) same_file_trans
      by (intro conjI exI [of _ "ws @ ?w # upper"]) (auto simp: sectors_written_def)
    moreover have "4112 * L \<le> 20560" using L by simp
    ultimately show ?thesis using w by (auto simp: sectors_written_def)
  qed
  ultimately show ?thesis by (simp, elim runs_mono) blast
qed

lemma runs_switch_in:
  assumes fin: "finalisable s0 offs m n" and arr: "arrays_ok arr" and size: "sized n L"
    and prog: "progress env s0 offs n L recs G s" and Q: "\<And>arr' s'. arrays_ok arr' \<Longrightarrow> progress env s0 offs n L recs G s' \<Longrightarrow> logoffset s' = logoffset s \<Longrightarrow>
      group_part s0 offs n g {} arr' \<Longrightarrow> Q arr' s'"
  shows "runs (op_bind data_size (\<lambda>fsize.
        op_bind (op_unless (fsize \<noteq> -1) EIO) (\<lambda>_.
        if fsize > int PSYNC_CRYPTO_AUTH_SIZE then
          op_bind (op_some (psync_fs_crypto_offsets_by_cryptosize (nat fsize))) (\<lambda>ooffsets.
          switch_read (treelevels (offsets_of n L)) ooffsets 0 old g (get_last_sectorid_by_size (plainsize ooffsets) div PSYNC_CRYPTO_HASH_TREE_SECTORS) arr)
        else op_return arr))) s Q"
proof (rule runs_data_size)
  fix fs
  have same: "same_file s0 s" "datafile s = datafile s0" using prog same_file_simps(1) by (auto simp: progress_def)
  have prog': "progress env s0 offs n L recs G (s\<lparr>pending := fs\<rparr>)" for fs using prog by (simp add: progress_def)
  show "runs (if int (length (datafile s)) > int PSYNC_CRYPTO_AUTH_SIZE then
          op_bind (op_some (psync_fs_crypto_offsets_by_cryptosize (nat (int (length (datafile s)))))) (\<lambda>ooffsets.
          switch_read (treelevels (offsets_of n L)) ooffsets 0 old g (get_last_sectorid_by_size (plainsize ooffsets) div PSYNC_CRYPTO_HASH_TREE_SECTORS) arr)
        else op_return arr) (s\<lparr>pending := fs\<rparr>) Q"
  proof (cases "m = 0")
    case True
    then have "length (datafile s) = 0" "group_part s0 offs n g {} arr" using fin same(2) by (auto simp: finalisable_def group_part_def)
    then show ?thesis using arr prog' by (auto intro!: runs_return Q)
  next
    case False
    then obtain L0 where L0: "sized m L0" "offs = offsets_of m L0" "length (datafile s) = crypto_bytes m L0" "32 < crypto_bytes m L0"
        "psync_fs_crypto_offsets_by_cryptosize (crypto_bytes m L0) = Some offs" using fin same(2) by (auto simp: finalisable_def)
    have m: "0 < m" "m \<le> 2 ^ 43" using L0(1) by (simp_all add: sized_def)
    have last: "get_last_sectorid_by_size m div 128 = nsect m (Suc 0) - 1" using last_sectorid [OF m] nsect_pred [OF m(1), of 0] by simp
    have "runs (switch_read L (offsets_of m L0) 0 old g (nsect m (Suc 0) - 1) arr) (s\<lparr>pending := fs\<rparr>) (sectors_read m L0 0 g arr (s\<lparr>pending := fs\<rparr>))"
      by (rule runs_switch_read [OF L0(1)]) (use L0(3) arr sized_height [OF L0(1)] in auto)
    moreover have "Q arr' s'" if r: "sectors_read m L0 0 g arr (s\<lparr>pending := fs\<rparr>) arr' s'" for arr' s'
    proof (rule Q)
      have s': "s' = s\<lparr>pending := pending s'\<rparr>" using r by (simp add: sectors_read_def)
      show "progress env s0 offs n L recs G s'" by (subst s') (rule prog')
      show "logoffset s' = logoffset s" by (subst s') simp
      show "arrays_ok arr'" using r by (simp add: sectors_read_def)
      let ?off = "area_offset m L0 (Auth_sector 0 g)" and ?sz = "area_length m L0 (Auth_sector 0 g)"
      show "group_part s0 offs n g {} arr'"
        unfolding group_part_def
      proof (intro allI impI)
        fix i
        assume i: "i div 128 = g" "4096 * i < n" "in_log s0 i = None \<or> i \<in> {}"
        then have im: "4096 * i < m" using fin by (simp add: finalisable_def)
        have "g < nsect m 1" using group_bound [OF im] i(1) by simp
        then have arr': "arr' 0 = take ?sz (drop ?off (datafile s0)) @ drop ?sz (arr 0)" using r same(2) by (simp add: sectors_read_def Let_def)
        have inside: "i mod 128 * 32 + 32 \<le> ?sz" using block_inside [OF L0(1) im] i(1) by simp
        have "?off + ?sz \<le> length (datafile s0)"
          using area_inside [OF L0(1), of "Auth_sector 0 g"] \<open>g < nsect m 1\<close> sized_height [OF L0(1)] L0(3) same(2) by (simp add: in_file.simps)
        then have "take 32 (drop (i mod 128 * 32) (arr' 0)) = take 32 (drop (?off + i mod 128 * 32) (datafile s0))"
          unfolding arr' using inside by (intro part_of_area)
        then show "take 32 (drop (i mod 128 * 32) (arr' 0)) = block_of s0 offs i"
          using auth_position_area [OF L0(1) im] i by (simp add: block_of_def L0(2))
      qed
    qed
    ultimately show ?thesis
      using L0(3,4,5) last by (auto simp: L0(2) intro!: runs_bind_some elim!: runs_mono)
  qed
qed

text \<open>The loop over the sectors in the log.\<close>

lemma set_auth_block_part:
  assumes "length (arr 0) = 4096" and "length auth = 32" and "k < 128" and "j < 128"
  shows "take 32 (drop (j * 32) (set_auth_block 0 k auth arr 0)) = (if j = k then auth else take 32 (drop (j * 32) (arr 0)))"
proof -
  consider "j < k" | "j = k" | "k < j" by linarith
  then show ?thesis
  proof cases
    case 1
    then have "j * 32 + 32 \<le> 32 * k" by simp
    then obtain d where d: "32 * k = j * 32 + 32 + d" using le_Suc_ex by blast
    then show ?thesis using assms 1 part_of_take [of "j * 32" 32 "32 * k" "arr 0"] by (simp add: set_auth_block_def)
  next
    case 2
    then show ?thesis using assms by (simp add: set_auth_block_def mult.commute)
  next
    case 3
    then have "32 * k + 32 \<le> j * 32" by simp
    then obtain d where d: "j * 32 = 32 * k + 32 + d" using le_Suc_ex by blast
    then show ?thesis using assms 3 unfolding d by (simp add: set_auth_block_def add.commute)
  qed
qed

definition loop_state :: "file_env \<Rightarrow> openfile \<Rightarrow> crypto_offsets \<Rightarrow> nat \<Rightarrow> nat \<Rightarrow> writes \<Rightarrow> nat list \<Rightarrow> nat \<Rightarrow> auth_array \<Rightarrow> openfile \<Rightarrow> bool" where
  "loop_state env s0 offs n L recs dn lastsect arr s \<longleftrightarrow>
     lastsect = (if dn = [] then PSYNC_CRYPTO_INVALID_SECTORID else lsectorid (inlog s0 (last dn))) \<and> arrays_ok arr \<and>
     progress env s0 offs n L recs ((\<lambda>a. lsectorid (inlog s0 a) div 128) ` set dn - {lastsect div 128}) s \<and>
     (dn \<noteq> [] \<longrightarrow> group_part s0 offs n (lastsect div 128) ((\<lambda>a. lsectorid (inlog s0 a)) ` set dn) arr)"

text \<open>The group of the last sector is complete when no sector in the log that belongs to it is left.\<close>

lemma runs_write_group:
  assumes env: "env_ok env" and size: "sized n L" and fin: "finalisable s0 offs m n" and st: "loop_state env s0 offs n L recs dn lastsect arr s"
    and sub: "set dn \<subseteq> set (inorder (sectorsinlog s0))"
    and all: "\<And>b. dn \<noteq> [] \<Longrightarrow> b \<in> set (inorder (sectorsinlog s0)) \<Longrightarrow> lsectorid (inlog s0 b) div 128 = lastsect div 128 \<Longrightarrow> b \<in> set dn"
    and room: "logoffset s + 20560 < 2 ^ 32"
  shows "runs (if lastsect \<noteq> PSYNC_CRYPTO_INVALID_SECTORID then
       switch_write env (offsets_of n L) 0 (lastsect div 128) new (get_last_sectorid_by_size (plainsize (offsets_of n L)) div 128) arr
     else op_return arr) s (\<lambda>arr' s'. arrays_ok arr' \<and> progress env s0 offs n L recs ((\<lambda>a. lsectorid (inlog s0 a) div 128) ` set dn) s' \<and>
       logoffset s' \<le> logoffset s + 20560)"
proof (cases "dn = []")
  case True
  then show ?thesis using st by (simp add: loop_state_def runs_return)
next
  case False
  let ?id = "\<lambda>a. lsectorid (inlog s0 a)" and ?g = "lastsect div 128"
  have tree: "tree_ok s0" and isnew: "newfile s0" using fin by (simp_all add: finalisable_def)
  have ids: "?id b < 2 ^ 31" if "b \<in> set (inorder (sectorsinlog s0))" for b using tree that by (simp add: tree_ok_def)
  have st': "arrays_ok arr" "progress env s0 offs n L recs ((\<lambda>a. ?id a div 128) ` set dn - {lastsect div 128}) s"
      "group_part s0 offs n (lastsect div 128) (?id ` set dn) arr" using st False unfolding loop_state_def by blast+
  have l: "lastsect = ?id (last dn)" "last dn \<in> set dn" using st False by (simp_all add: loop_state_def)
  then have li: "lastsect < 2 ^ 31" using ids [of "last dn"] sub by auto
  then have inval: "lastsect \<noteq> PSYNC_CRYPTO_INVALID_SECTORID" by simp
  have "in_log s0 lastsect \<noteq> None" using in_log_iff [OF tree li, of "inlog s0 (last dn)"] l sub by auto
  then have "4096 * lastsect < n" using fin li by (auto simp: finalisable_def)
  then have g: "?g < nsect n 1" by (rule group_bound)
  have n: "0 < n" "n \<le> 2 ^ 43" using size by (simp_all add: sized_def)
  have last: "get_last_sectorid_by_size (plainsize (offsets_of n L)) div 128 = nsect n 1 - 1"
    using last_sectorid [OF n] nsect_pred [OF n(1), of 0] by simp
  have "group_good s0 offs n ?g (take (area_length n L (Auth_sector 0 ?g)) (arr 0))"
  proof (rule group_part_good [OF size st'(3)])
    fix j
    assume j: "j div 128 = ?g" "in_log s0 j \<noteq> None"
    have "j < 2 ^ 31"
    proof -
      have "j < 128 * (?g + 1)" using j(1) by (simp add: div_less_iff_less_mult flip: less_Suc_eq_le)
      moreover have "128 * (?g + 1) \<le> 2 ^ 31" using li by simp
      ultimately show ?thesis by simp
    qed
    then have "\<exists>b \<in> set (inorder (sectorsinlog s0)). ?id b = j" using in_log_iff [OF tree, of j "the (in_log s0 j)"] j(2) by auto
    then obtain b where "b \<in> set (inorder (sectorsinlog s0))" "?id b = j" by blast
    then show "j \<in> ?id ` set dn" using all [OF False, of b] j(1) by auto
  qed
  then have "runs (switch_write env (offsets_of n L) 0 ?g new (nsect n 1 - 1) arr) s
      (\<lambda>arr' s'. arrays_ok arr' \<and> progress env s0 offs n L recs (insert ?g ((\<lambda>a. ?id a div 128) ` set dn - {?g})) s' \<and> logoffset s' \<le> logoffset s + 20560)"
    by (intro runs_switch_out [OF env size g st'(1) isnew st'(2) room])
  moreover have "insert ?g ((\<lambda>a. ?id a div 128) ` set dn - {?g}) = (\<lambda>a. ?id a div 128) ` set dn" using l by auto
  ultimately show ?thesis using inval by (simp only: last simp_thms if_True)
qed

lemma runs_loop_step:
  assumes env: "env_ok env" and size: "sized n L" and fin: "finalisable s0 offs m n" and st: "loop_state env s0 offs n L recs dn lastsect arr s"
    and split: "inorder (sectorsinlog s0) = dn @ a # rest" and room: "logoffset s + 20560 < 2 ^ 32"
  shows "runs (if lastsect div 128 \<noteq> lsectorid (inlog s0 a) div 128 then psync_fs_crypto_switch_sectors env lastsect (lsectorid (inlog s0 a)) (offsets_of n L) arr
      else op_return arr) s (\<lambda>arr' s'. logoffset s' \<le> logoffset s + 20560 \<and>
        loop_state env s0 offs n L recs (dn @ [a]) (lsectorid (inlog s0 a)) (set_auth_block 0 (lsectorid (inlog s0 a) mod 128) (lauth (inlog s0 a)) arr') s')"
proof -
  let ?id = "\<lambda>a. lsectorid (inlog s0 a)"
  let ?i = "?id a"
  have tree: "tree_ok s0" and new: "newfile s0" using fin by (simp_all add: finalisable_def)
  have ids: "?id b < 2 ^ 31" if "b \<in> set (inorder (sectorsinlog s0))" for b using tree that by (simp add: tree_ok_def)
  have sorted: "\<forall>b \<in> set dn. ?id b < ?i" "\<forall>b \<in> set rest. ?i < ?id b"
    using tree unfolding tree_ok_def split by (auto simp: sorted_wrt_append)
  have i: "?i < 2 ^ 31" using ids split by simp
  have here: "in_log s0 ?i = Some (inlog s0 a)" using in_log_iff [OF tree i] split by auto
  have lens: "length (lauth (inlog s0 a)) = 32" "4096 * ?i < n" using fin here i by (auto simp: finalisable_def)
  have known: "\<exists>b \<in> set (inorder (sectorsinlog s0)). ?id b = j" if "in_log s0 j \<noteq> None" "j < 2 ^ 31" for j
    using that(1) in_log_iff [OF tree that(2), of "the (in_log s0 j)"] by auto
  have st': "lastsect = (if dn = [] then PSYNC_CRYPTO_INVALID_SECTORID else ?id (last dn))" "arrays_ok arr"
      "progress env s0 offs n L recs ((\<lambda>a. ?id a div 128) ` set dn - {lastsect div 128}) s"
      "dn \<noteq> [] \<Longrightarrow> group_part s0 offs n (lastsect div 128) (?id ` set dn) arr" using st unfolding loop_state_def by blast+
  have fill: "loop_state env s0 offs n L recs (dn @ [a]) ?i (set_auth_block 0 (?i mod 128) (lauth (inlog s0 a)) arr') s'"
    if "arrays_ok arr'" "progress env s0 offs n L recs ((\<lambda>a. ?id a div 128) ` set dn - {?i div 128}) s'"
      "group_part s0 offs n (?i div 128) (?id ` set dn) arr'" for arr' s'
  proof -
    let ?arr = "set_auth_block 0 (?i mod 128) (lauth (inlog s0 a)) arr'"
    have "take 32 (drop (j mod 128 * 32) (?arr 0)) = block_of s0 offs j"
      if j: "j div 128 = ?i div 128" "4096 * j < n" "in_log s0 j = None \<or> j \<in> ?id ` set (dn @ [a])" for j
    proof (cases "j = ?i")
      case True
      then show ?thesis using set_auth_block_part [of arr' "lauth (inlog s0 a)" "?i mod 128" "?i mod 128"] \<open>arrays_ok arr'\<close> lens here
        by (simp add: arrays_ok_def block_of_def)
    next
      case False
      then have "j mod 128 \<noteq> ?i mod 128" using j(1) by (metis mult_div_mod_eq)
      moreover have "take 32 (drop (j mod 128 * 32) (arr' 0)) = block_of s0 offs j"
        using that(3) \<open>group_part s0 offs n (?i div 128) (?id ` set dn) arr'\<close> j False unfolding group_part_def by auto
      ultimately show ?thesis
        using set_auth_block_part [of arr' "lauth (inlog s0 a)" "?i mod 128" "j mod 128"] \<open>arrays_ok arr'\<close> lens by (simp add: arrays_ok_def)
    qed
    then have "group_part s0 offs n (?i div 128) (?id ` set (dn @ [a])) ?arr" unfolding group_part_def by blast
    moreover have "(\<lambda>a. ?id a div 128) ` set (dn @ [a]) - {?i div 128} = (\<lambda>a. ?id a div 128) ` set dn - {?i div 128}" by auto
    ultimately show ?thesis using that(1,2) lens(1) by (simp add: loop_state_def arrays_set)
  qed
  show ?thesis
  proof (cases "lastsect div 128 = ?i div 128")
    case True
    have "dn \<noteq> []"
    proof
      assume "dn = []"
      then have "lastsect div 128 = 33554431" using st'(1) by simp
      moreover have "?i div 128 < 33554431" using i by (simp add: less_mult_imp_div_less)
      ultimately show False using True by simp
    qed
    then have "group_part s0 offs n (?i div 128) (?id ` set dn) arr" using st'(4) True by simp
    moreover have "progress env s0 offs n L recs ((\<lambda>a. ?id a div 128) ` set dn - {?i div 128}) s" using st'(3) True by simp
    ultimately have "loop_state env s0 offs n L recs (dn @ [a]) ?i (set_auth_block 0 (?i mod 128) (lauth (inlog s0 a)) arr) s"
      using st'(2) by (intro fill)
    then show ?thesis using True by (simp add: runs_return)
  next
    case False
    have newgroup: "?id b div 128 < ?i div 128" if "b \<in> set dn" for b
    proof -
      have "dn \<noteq> []" using that by auto
      have "sorted_wrt (\<lambda>a b. ?id a < ?id b) dn" using tree unfolding tree_ok_def split by (simp add: sorted_wrt_append)
      then have "?id b \<le> ?id (last dn)"
        using that \<open>dn \<noteq> []\<close> by (induction dn) (auto split: if_splits intro: less_imp_le)
      moreover have "?id (last dn) < ?i" using sorted(1) \<open>dn \<noteq> []\<close> by simp
      then have "?id (last dn) div 128 \<le> ?i div 128" by (intro div_le_mono) simp
      moreover have "?id (last dn) div 128 \<noteq> ?i div 128" using False st'(1) \<open>dn \<noteq> []\<close> by simp
      ultimately show ?thesis using div_le_mono [of "?id b" "?id (last dn)" 128] by linarith
    qed
    have other: "?id b div 128 \<noteq> ?i div 128" if "b \<in> set dn" for b using newgroup [OF that] by simp
    then have G: "(\<lambda>a. ?id a div 128) ` set dn - {?i div 128} = (\<lambda>a. ?id a div 128) ` set dn"
      by (intro Diff_triv equals0I) (elim IntE imageE, simp)
    have inval: "?i \<noteq> PSYNC_CRYPTO_INVALID_SECTORID" using i by simp
    have out: "runs (if lastsect \<noteq> PSYNC_CRYPTO_INVALID_SECTORID then
           switch_write env (offsets_of n L) 0 (lastsect div 128) (?i div 128) (get_last_sectorid_by_size (plainsize (offsets_of n L)) div 128) arr
         else op_return arr) s (\<lambda>arr' s'. arrays_ok arr' \<and> progress env s0 offs n L recs ((\<lambda>a. ?id a div 128) ` set dn) s' \<and> logoffset s' \<le> logoffset s + 20560)"
    proof (rule runs_write_group [OF env size fin st _ _ room])
      show "set dn \<subseteq> set (inorder (sectorsinlog s0))" using split by auto
      fix b
      assume dn: "dn \<noteq> []" and b: "b \<in> set (inorder (sectorsinlog s0))" "?id b div 128 = lastsect div 128"
      then have "lastsect = ?id (last dn)" "last dn \<in> set dn" using st by (simp_all add: loop_state_def)
      then have "?id b div 128 < ?i div 128" using newgroup [of "last dn"] b(2) by simp
      then have "?id b < ?i" by (metis div_le_mono leD leI)
      then show "b \<in> set dn" using b(1) sorted(2) unfolding split by auto
    qed
    show ?thesis
      unfolding psync_fs_crypto_switch_sectors_def Let_def if_P [OF False] if_P [OF inval]
    proof (rule runs_bind, rule runs_mono [OF out], elim conjE)
      fix arr1 s1
      assume s1: "arrays_ok arr1" "progress env s0 offs n L recs ((\<lambda>a. ?id a div 128) ` set dn) s1" "logoffset s1 \<le> logoffset s + 20560"
      show "runs (op_bind data_size (\<lambda>fsize. op_bind (op_unless (fsize \<noteq> -1) EIO) (\<lambda>_.
          if int PSYNC_CRYPTO_AUTH_SIZE < fsize then
            op_bind (op_some (psync_fs_crypto_offsets_by_cryptosize (nat fsize))) (\<lambda>ooffsets.
            switch_read (treelevels (offsets_of n L)) ooffsets 0 (lastsect div 128) (?i div 128) (get_last_sectorid_by_size (plainsize ooffsets) div 128) arr1)
          else op_return arr1))) s1 (\<lambda>arr' s'. logoffset s' \<le> logoffset s + 20560 \<and>
            loop_state env s0 offs n L recs (dn @ [a]) ?i (set_auth_block 0 (?i mod 128) (lauth (inlog s0 a)) arr') s')"
      proof (rule runs_switch_in [OF fin s1(1) size s1(2)], intro conjI)
        fix arr' s'
        assume s': "arrays_ok arr'" "progress env s0 offs n L recs ((\<lambda>a. ?id a div 128) ` set dn) s'" "logoffset s' = logoffset s1"
          "group_part s0 offs n (?i div 128) {} arr'"
        show "logoffset s' \<le> logoffset s + 20560" using s'(3) s1(3) by simp
        have "group_part s0 offs n (?i div 128) (?id ` set dn) arr'"
          using s'(4) other unfolding group_part_def by blast
        then show "loop_state env s0 offs n L recs (dn @ [a]) ?i (set_auth_block 0 (?i mod 128) (lauth (inlog s0 a)) arr') s'"
          using s'(1,2) by (intro fill) (simp_all add: G)
      qed
    qed
  qed
qed

lemma runs_write_auth_loop:
  assumes env: "env_ok env" and size: "sized n L" and fin: "finalisable s0 offs m n"
  shows "inorder (sectorsinlog s0) = dn @ rest \<Longrightarrow> loop_state env s0 offs n L recs dn lastsect arr s \<Longrightarrow> length rest \<le> k \<Longrightarrow>
    logoffset s + 20560 * length rest < 2 ^ 32 \<Longrightarrow>
    runs (write_auth_loop k env (offsets_of n L) (if rest = [] then None else Some (hd rest)) lastsect arr) s (\<lambda>(lastsect', arr') s'.
      loop_state env s0 offs n L recs (inorder (sectorsinlog s0)) lastsect' arr' s' \<and> logoffset s' \<le> logoffset s + 20560 * length rest)"
proof (induction rest arbitrary: dn lastsect arr s k)
  case Nil
  then show ?case by (cases k) (simp_all add: runs_return)
next
  case (Cons a rest)
  obtain k' where k: "k = Suc k'" using Cons.prems(3) by (cases k) simp_all
  have same: "same_file s0 s" using Cons.prems(2) by (simp add: loop_state_def progress_def)
  have tree: "tree_ok s0" using fin by (simp add: finalisable_def)
  have "psync_tree_get_next (sectorsinlog s) a = (if rest = [] then None else Some (hd rest))"
    using get_next_inorder [of "sectorsinlog s0" dn a rest] Cons.prems(1) tree same_file_simps(3) [OF same] by (simp add: tree_ok_def)
  then have here: "(inlog s a, psync_tree_get_next (sectorsinlog s) a) = (inlog s0 a, if rest = [] then None else Some (hd rest))"
    using same_file_simps(4) [OF same] by simp
  have first: "(if a # rest = [] then None else Some (hd (a # rest))) = Some a" by simp
  let ?i = "lsectorid (inlog s0 a)"
  have step: "runs (if lastsect div 128 \<noteq> ?i div 128 then psync_fs_crypto_switch_sectors env lastsect ?i (offsets_of n L) arr else op_return arr) s
      (\<lambda>arr' s'. logoffset s' \<le> logoffset s + 20560 \<and> loop_state env s0 offs n L recs (dn @ [a]) ?i (set_auth_block 0 (?i mod 128) (lauth (inlog s0 a)) arr') s')"
    using Cons.prems(1,2,4) by (intro runs_loop_step [OF env size fin]) simp_all
  show ?case
    unfolding k first write_auth_loop.simps runs_bind_get here prod.case
  proof (rule runs_bind, rule runs_mono [OF step], elim conjE)
    fix arr' s'
    assume s': "logoffset s' \<le> logoffset s + 20560"
      "loop_state env s0 offs n L recs (dn @ [a]) ?i (set_auth_block 0 (?i mod 128) (lauth (inlog s0 a)) arr') s'"
    have "runs (write_auth_loop k' env (offsets_of n L) (if rest = [] then None else Some (hd rest)) ?i (set_auth_block 0 (?i mod 128) (lauth (inlog s0 a)) arr')) s'
        (\<lambda>(lastsect', arr') s2. loop_state env s0 offs n L recs (inorder (sectorsinlog s0)) lastsect' arr' s2 \<and> logoffset s2 \<le> logoffset s' + 20560 * length rest)"
      using Cons.prems s' k by (intro Cons.IH [of "dn @ [a]"]) simp_all
    then show "runs (write_auth_loop k' env (offsets_of n L) (if rest = [] then None else Some (hd rest)) ?i (set_auth_block 0 (?i mod 128) (lauth (inlog s0 a)) arr')) s'
        (\<lambda>(lastsect', arr') s2. loop_state env s0 offs n L recs (inorder (sectorsinlog s0)) lastsect' arr' s2 \<and> logoffset s2 \<le> logoffset s + 20560 * length (a # rest))"
      using s'(1) by (elim runs_mono) auto
  qed
qed

lemma runs_write_master:
  assumes env: "env_ok env" and size: "sized n L" and many: "4096 < n" and fin: "newfile s0" and arr: "arrays_ok arr"
    and prog: "progress env s0 offs n L recs G s" and room: "logoffset s + 48 < 2 ^ 32"
  shows "runs (psync_fs_crypto_write_master_auth env (offsets_of n L) arr) s (\<lambda>_ s'. progress env s0 offs n L recs G s' \<and> logoffset s' = logoffset s + 48)"
proof -
  have L: "1 \<le> L" "L \<le> 5" "nsect n L = 1" using sized_height [OF size] by simp_all
  obtain ws where ws: "same_file s0 s" "log_ok env s (recs @ ws)" "\<forall>w \<in> set ws. final_record s0 offs n L w"
      "\<forall>g \<in> G. \<exists>data. (area_offset n L (Auth_sector 0 g), data) \<in> set ws" using prog by (auto simp: progress_def)
  obtain start where l: "logfile s = Some (start @ log_bytes (recs @ ws))" "length start = 4096" "logoffset s = 4096 + length (log_bytes (recs @ ws))"
    using ws(2) by (auto simp: log_ok_def)
  let ?off = "masterauthoff (offsets_of n L)"
  let ?auth = "sign_auth env (take (lastauthsectorlen (offsets_of n L) ! (L - 1)) (arr (L - 1)))"
  let ?data = "header_bytes (data_header 32 ?off) @ ?auth"
  have auth: "length ?auth = 32" by (rule length_sign_auth [OF env])
  have len: "lastauthsectorlen (offsets_of n L) ! (L - 1) = 32 * last_blocks n (L - 1)" using offsets_fields [OF size, of "L - 1"] L by simp
  have blocks: "0 < last_blocks n (L - 1)" "last_blocks n (L - 1) \<le> 128" by (simp_all add: last_blocks_def less_imp_le)
  have off: "?off = tail_offset n L L" using masterauthoff_eq [OF size] tail_end [OF size] by simp
  have one: "nsect n (Suc L) = 1" using L by (simp add: nsect.simps)
  have "in_file n L (Auth_sector L 0)" "area_offset n L (Auth_sector L 0) = ?off" "area_length n L (Auth_sector L 0) = 32"
    using one many off by (simp_all add: in_file.simps area_offset.simps area_length.simps)
  then have rec: "final_record s0 offs n L (?off, ?auth)" using L(1) auth unfolding final_record_def auth_record_def by (intro disjI1 exI [of _ L] exI [of _ 0]) simp
  have w: "wrap32 (logoffset s + 48) = logoffset s + 48" using room by (simp add: wrap32_def)
  have small: "?off < 2 ^ 64" using masterauthoff_eq [OF size] sized_bytes [OF size] by simp
  have hash: "op_bind (hash_update env bs) (\<lambda>_. m) = op_bind (op_modify (\<lambda>s. s\<lparr>loghashctx := fh_update (hashing env) (loghashctx s) bs\<rparr>)) (\<lambda>_. m)"
    for bs and m :: "'b op" by (simp add: hash_update_def)
  have "runs (op_bind (hash_update env ?data) (\<lambda>_. op_bind (add_written_interval ?off (wrap64 (?off + 32))) (\<lambda>_.
      op_modify (\<lambda>s2. s2\<lparr>logoffset := wrap32 (logoffset s + 48)\<rparr>))))
      (s\<lparr>logfile := Some (file_write (logoffset s) ?data (start @ log_bytes (recs @ ws))), pending := fs\<rparr>) (\<lambda>_ s'. progress env s0 offs n L recs G s' \<and> logoffset s' = logoffset s + 48)" for fs
  proof -
    let ?s = "s\<lparr>logfile := Some (file_write (logoffset s) ?data (start @ log_bytes (recs @ ws))), pending := fs,
        loghashctx := fh_update (hashing env) (loghashctx s) ?data, logoffset := logoffset s + 48\<rparr>"
    have "log_ok env ?s ((recs @ ws) @ [(?off, ?auth)])"
      by (rule log_ok_append [OF ws(2), where chunks = "[?data]"]) (use l auth small in simp_all)
    then have "progress env s0 offs n L recs G ?s"
      unfolding progress_def using ws(3,4) rec same_file_trans [OF ws(1), of ?s]
      by (intro conjI exI [of _ "ws @ [(?off, ?auth)]"]) (auto simp: same_file_def)
    moreover have "newfile s" using same_file_simps(6) [OF ws(1)] fin by simp
    ultimately show ?thesis
      unfolding hash add_written_interval_def op_bind_assoc w
      by (intro runs_bind_modify, simp, simp add: runs_modify)
  qed
  then show ?thesis
    unfolding psync_fs_crypto_write_master_auth_def Let_def offsets_simps
    using L(1) blocks len auth l(1) by (intro runs_bind_assert) (auto intro!: runs_log_pwrite)
qed

lemma runs_write_auth_tree:
  assumes env: "env_ok env" and size: "sized n L" and fin: "finalisable s0 offs m n" and log: "log_ok env s0 recs"
    and room: "logoffset s0 + 20560 * (length (inorder (sectorsinlog s0)) + 1) + 48 < 2 ^ 32"
  shows "runs (psync_fs_write_auth_tree_to_log env (offsets_of n L)) s0
    (\<lambda>_ s'. progress env s0 offs n L recs ((\<lambda>a. lsectorid (inlog s0 a) div 128) ` set (inorder (sectorsinlog s0))) s' \<and>
      logoffset s' \<le> logoffset s0 + 20560 * (length (inorder (sectorsinlog s0)) + 1) + 48)"
proof -
  let ?all = "inorder (sectorsinlog s0)" and ?max = "logoffset s0 + 20560 * (length (inorder (sectorsinlog s0)) + 1) + 48" and ?G = "(\<lambda>a. lsectorid (inlog s0 a) div 128) ` set (inorder (sectorsinlog s0))"
  have isnew: "newfile s0" using fin by (simp add: finalisable_def)
  have "progress env s0 offs n L recs {} s0" unfolding progress_def using log by (intro conjI exI [of _ "[]"]) simp_all
  moreover have "arrays_ok (stack_auth env)" using env by (simp add: env_ok_def arrays_ok_def)
  ultimately have "loop_state env s0 offs n L recs [] PSYNC_CRYPTO_INVALID_SECTORID (stack_auth env) s0" by (simp add: loop_state_def)
  then have loop: "runs (write_auth_loop (length ?all) env (offsets_of n L) (if ?all = [] then None else Some (hd ?all)) PSYNC_CRYPTO_INVALID_SECTORID (stack_auth env)) s0
      (\<lambda>(lastsect', arr') s'. loop_state env s0 offs n L recs ?all lastsect' arr' s' \<and> logoffset s' \<le> logoffset s0 + 20560 * length ?all)"
    using room by (intro runs_write_auth_loop [OF env size fin]) simp_all
  have rest: "runs (op_bind (psync_fs_crypto_switch_sectors env lastsect PSYNC_CRYPTO_INVALID_SECTORID (offsets_of n L) arr) (\<lambda>arr.
      if needmasterauth (offsets_of n L) then psync_fs_crypto_write_master_auth env (offsets_of n L) arr else op_return ())) s (\<lambda>_ s'. progress env s0 offs n L recs ?G s' \<and> logoffset s' \<le> ?max)"
    if st: "loop_state env s0 offs n L recs ?all lastsect arr s" "logoffset s \<le> logoffset s0 + 20560 * length ?all" for lastsect arr s
  proof (rule runs_bind)
    have "runs (if lastsect \<noteq> PSYNC_CRYPTO_INVALID_SECTORID then switch_write env (offsets_of n L) 0 (lastsect div 128)
          (PSYNC_CRYPTO_INVALID_SECTORID div 128) (get_last_sectorid_by_size (plainsize (offsets_of n L)) div 128) arr
        else op_return arr) s (\<lambda>arr' s'. arrays_ok arr' \<and> progress env s0 offs n L recs ?G s' \<and> logoffset s' \<le> logoffset s + 20560)"
      by (rule runs_write_group [OF env size fin st(1)]) (use st(2) room in simp_all)
    then have "runs (psync_fs_crypto_switch_sectors env lastsect PSYNC_CRYPTO_INVALID_SECTORID (offsets_of n L) arr) s
        (\<lambda>arr' s'. arrays_ok arr' \<and> progress env s0 offs n L recs ?G s' \<and> logoffset s' \<le> logoffset s + 20560)"
      unfolding psync_fs_crypto_switch_sectors_def Let_def by (intro runs_bind) (elim runs_mono, simp add: runs_return)
    then show "runs (psync_fs_crypto_switch_sectors env lastsect PSYNC_CRYPTO_INVALID_SECTORID (offsets_of n L) arr) s (\<lambda>arr s'.
        runs (if needmasterauth (offsets_of n L) then psync_fs_crypto_write_master_auth env (offsets_of n L) arr else op_return ()) s' (\<lambda>_ s'. progress env s0 offs n L recs ?G s' \<and> logoffset s' \<le> ?max))"
      by (rule runs_mono) (use st(2) room in \<open>auto intro!: runs_mono [OF runs_write_master [OF env size _ isnew]] runs_return\<close>)
  qed
  show ?thesis
    unfolding psync_fs_write_auth_tree_to_log_def runs_bind_get prod.case get_first_inorder
    by (rule runs_bind, rule runs_mono [OF loop]) (use rest in auto)
qed

subsection \<open>The master record, and the replay\<close>

lemma op_bind_right: "op_bind m op_return = m"
  by (rule ext) (simp add: op_bind_def op_return_def split: option.splits sum.splits)

lemma length_fh_final: "length (fh_final env ctx) = 32"
  by (simp add: fh_final_def psync_fast_hash256_final_def Let_def split: prod.splits)

lemma master_of_bytes:
  assumes "mstatus mr < 2 ^ 32" "mhashid mr < 2 ^ 32" "mlogsize mr < 2 ^ 64" "mfilesize mr < 2 ^ 64" "length (mhash mr) = 32" "mcrc mr < 2 ^ 32"
  shows "master_of (master_bytes pad mr) = mr"
  using assms by (simp add: master_of_def master_bytes_def master_prefix_def le_val_le_bytes_mod del: le_bytes.simps)

text \<open>A complete log of some records.\<close>

definition complete_log :: "file_env \<Rightarrow> file_bytes \<Rightarrow> nat \<Rightarrow> writes \<Rightarrow> bool" where
  "complete_log env lf fsize recs \<longleftrightarrow> log_valid (hashing env) lf True \<and> mfilesize (master_of (take 64 lf)) = fsize \<and>
     length lf < 2 ^ 33 \<and> (\<exists>start. length start = 4096 \<and> lf = start @ log_bytes recs)"

lemma complete_log_master:
  fixes env :: file_env and fsize len :: nat and ctx :: fast_hash256_ctx
  defines "mr \<equiv> \<lparr>mstatus = PSYNC_LOG_STATUS_FINALIZED, mhashid = PSYNC_LOG_HASHID_FH256, mlogsize = len, mfilesize = fsize,
      mhash = fh_final (hashing env) ctx, mcrc = 0\<rparr>"
  defines "mb \<equiv> master_bytes (stack_pad env) (mr\<lparr>mcrc := crc_of (hashing env) (master_prefix mr)\<rparr>)"
  assumes env: "env_ok env" and sizes: "fsize < 2 ^ 64" "len = length start + length (log_bytes recs)" "len < 2 ^ 33" "length start = 4096"
    and ctx: "concat chunks = log_bytes recs" "ctx = foldl (fh_update (hashing env)) (fh_init (hashing env)) chunks"
  shows "length mb = 64" "complete_log env (mb @ drop 64 start @ log_bytes recs) fsize recs"
proof -
  have hash: "hash_env_ok (hashing env)" and pad: "length (stack_pad env) = 4" using env by (simp_all add: env_ok_def)
  define mr' where "mr' = mr\<lparr>mcrc := crc_of (hashing env) (master_prefix mr)\<rparr>"
  have mb: "mb = master_bytes (stack_pad env) mr'" by (simp add: mb_def mr'_def)
  have fields: "mstatus mr' = 1" "mhashid mr' = 0" "mlogsize mr' = len" "mfilesize mr' = fsize" "mhash mr' = fh_final (hashing env) ctx"
      "mcrc mr' = crc_of (hashing env) (master_prefix mr)" "master_prefix mr' = master_prefix mr"
    by (simp_all add: mr'_def mr_def master_prefix_def)
  have pre: "length (master_prefix mr) = 56" by (simp add: master_prefix_def mr_def length_fh_final del: le_bytes.simps)
  show len: "length mb = 64" using pre pad fields by (simp add: mb master_bytes_def del: le_bytes.simps)
  have crc: "crc_of (hashing env) bs = unat (foldl crc_byte 0 bs)" for bs by (rule crc_of_bytes [OF hash])
  have m: "master_of mb = mr'"
    unfolding mb using sizes(1,3) fields length_fh_final crc unsigned_less [of "foldl crc_byte 0 (master_prefix mr)"]
    by (intro master_of_bytes) simp_all
  let ?lf = "mb @ drop 64 start @ log_bytes recs"
  have t64: "take 64 ?lf = mb" using len by simp
  have t56: "take 56 ?lf = master_prefix mr" using pre len fields(7) by (simp add: mb master_bytes_def)
  have d: "drop 4096 ?lf = log_bytes recs" using len sizes(4) by simp
  have l: "length ?lf = len" using len sizes by simp
  have "fh_final (hashing env) ctx = fh_hash (hashing env) (log_bytes recs)" using fh_hash_chunks [OF hash, of chunks] ctx by simp
  then have "log_valid (hashing env) ?lf True"
    unfolding log_valid_def t64 t56 d l m Let_def using fields crc sizes(3) len sizes(2,4) by simp
  moreover have "?lf = (mb @ drop 64 start) @ log_bytes recs" "length (mb @ drop 64 start) = 4096" using len sizes(4) by simp_all
  ultimately show "complete_log env ?lf fsize recs"
    unfolding complete_log_def t64 m l using fields sizes(3) by blast
qed

lemma runs_mark:
  assumes env: "env_ok env" and log: "log_ok env s recs" and room: "logoffset s < 2 ^ 33" and size: "fsize < 2 ^ 64"
  shows "runs (psync_fs_crypto_mark_log_finalized env fsize) s (\<lambda>_ s'. same_file s s' \<and> (\<exists>lf. logfile s' = Some lf \<and> complete_log env lf fsize recs))"
proof -
  obtain start chunks where l: "logfile s = Some (start @ log_bytes recs)" "length start = 4096" "logoffset s = 4096 + length (log_bytes recs)"
      "concat chunks = log_bytes recs" "loghashctx s = foldl (fh_update (hashing env)) (fh_init (hashing env)) chunks"
    using log by (auto simp: log_ok_def)
  let ?lf = "start @ log_bytes recs" and ?ctx = "loghashctx s"
  have hash: "crc_hw_ok (ins8 (hashing env)) (ins64 (hashing env))" "length (stack_junk (hashing env)) = 64" using env by (simp_all add: env_ok_def hash_env_ok_def)
  have "hashed (state_of_bytes (table_bytes 0 2 48)) ([] @ concat chunks) ?ctx"
    unfolding l(5) fh_update_def fh_init_def by (intro hashed_updates [OF hash(1)] hashed_init hash(2))
  then have "fh_length ?ctx = of_nat (length (log_bytes recs))" using hashedD(2) l(4) by fastforce
  then have "uint (fh_length ?ctx + of_nat 4096) = int (length (log_bytes recs) + 4096)"
    using room l(3) by (simp only: unsigned_of_nat take_bit_eq_mod flip: of_nat_add) simp
  then have assert: "int (length ?lf) = uint (fh_length ?ctx + of_nat 4096)" using l(2) by simp
  define mr where "mr = \<lparr>mstatus = PSYNC_LOG_STATUS_FINALIZED, mhashid = PSYNC_LOG_HASHID_FH256, mlogsize = length ?lf, mfilesize = fsize,
      mhash = fh_final (hashing env) ?ctx, mcrc = 0\<rparr>"
  define mb where "mb = master_bytes (stack_pad env) (mr\<lparr>mcrc := crc_of (hashing env) (master_prefix mr)\<rparr>)"
  have fin: "length mb = 64" "complete_log env (mb @ drop 64 start @ log_bytes recs) fsize recs"
    unfolding mb_def mr_def using complete_log_master [OF env size _ _ l(2) l(4,5), of "length ?lf"] room l(2,3) by simp_all
  have w: "file_write 0 mb ?lf = mb @ drop 64 start @ log_bytes recs" using fin(1) l(2) by (auto simp: file_write_def)
  show ?thesis
    unfolding psync_fs_crypto_mark_log_finalized_def
  proof (rule runs_log_size [OF l(1)], unfold runs_bind_get, rule runs_bind_assert)
    fix fs
    show "int (length ?lf) = uint (fh_length (loghashctx (s\<lparr>pending := fs\<rparr>)) + of_nat 4096)" using assert by simp
    have "runs (op_bind (log_pwrite mb 0) (\<lambda>wrt. op_bind (op_unless (wrt = 64) EIO) op_return)) (s\<lparr>pending := fs\<rparr>)
        (\<lambda>_ s'. same_file s s' \<and> (\<exists>lf. logfile s' = Some lf \<and> complete_log env lf fsize recs))"
      by (rule runs_log_pwrite) (use l(1) fin w in \<open>auto intro!: runs_return simp: same_file_def\<close>)
    then show "runs (let mr = \<lparr>mstatus = PSYNC_LOG_STATUS_FINALIZED, mhashid = PSYNC_LOG_HASHID_FH256, mlogsize = nat (int (length ?lf)), mfilesize = fsize,
                mhash = fh_final (hashing env) (loghashctx (s\<lparr>pending := fs\<rparr>)), mcrc = 0\<rparr>;
          mr = mr\<lparr>mcrc := crc_of (hashing env) (master_prefix mr)\<rparr>
      in op_bind (log_pwrite (master_bytes (stack_pad env) mr) 0) (\<lambda>wrt. op_unless (wrt = 64) EIO)) (s\<lparr>pending := fs\<rparr>)
        (\<lambda>_ s'. same_file s s' \<and> (\<exists>lf. logfile s' = Some lf \<and> complete_log env lf fsize recs))"
      by (simp add: Let_def mr_def mb_def op_bind_right nat_int_add)
  qed
qed

end
