(* ===== verification/Pfsnewfile.thy ===== *)
theory Pfsnewfile
  imports Pfsfinal
begin

section \<open>A new encrypted file is a list of bytes (pfscrypto.c)\<close>

text \<open>
  Replaying a complete log leaves a data file that stores the content, so finalising keeps it, and a new file answers
  any sequence of reads and writes as a list of bytes does, whether its log is finalised in between or not.
\<close>

subsection \<open>Replaying a complete log\<close>

lemma replay_complete:
  assumes env: "env_ok env" and lf: "complete_log env lf fsize recs" and fits: "\<forall>(o1, d) \<in> set recs. length d \<le> 4096 \<and> o1 + length d \<le> fsize"
    and size: "fsize < 2 ^ 64" and run: "psync_fs_crypto_process_log (hashing env) lf dfd ifd checkhash fs = (rc, dfd', ifd', fs')"
  shows "(rc = Some 0 \<or> rc = Some (-1)) \<and> (rc = Some 0 \<longrightarrow> dfd' = file_set_size fsize (write_all recs (file_set_size fsize dfd))) \<and>
    (fs = [] \<longrightarrow> rc = Some 0 \<and> fs' = [])"
proof -
  have hash: "hash_env_ok (hashing env)" using env by (simp add: env_ok_def)
  obtain start where start: "length start = 4096" "lf = start @ log_bytes recs" using lf by (auto simp: complete_log_def)
  have valid: "log_valid (hashing env) lf checkhash" "mlogsize (master_of (take 64 lf)) \<noteq> 2 ^ 64 - 1" "mfilesize (master_of (take 64 lf)) = fsize"
    using lf by (auto simp: complete_log_def log_valid_def Let_def)
  obtain res fs1 where c: "process_log_check (hashing env) lf checkhash fs = (res, fs1)" by fastforce
  have res: "res = None \<or> res = Some (master_of (take 64 lf))" using log_check_any [OF hash _ valid(2)] c by (cases res) auto
  have nil: "fs = [] \<Longrightarrow> res \<noteq> None \<and> fs1 = []" using log_check_Full [OF hash valid(1)] c by auto
  obtain bad d1 fs2 where t1: "seek_truncate dfd fsize fs1 = (bad, d1, fs2)" using prod_cases3 by blast
  obtain bad2 i1 fs3 where t2: "seek_truncate_index ifd fs2 = (bad2, i1, fs3)" using prod_cases3 by blast
  let ?st = "\<lparr>rdfd = d1, rifd = i1, rrecs = [], rioff = 0\<rparr>"
  obtain rc1 st1 fs4 where p: "process_records lf fsize LOG_START ?st fs3 = (rc1, st1, fs4)" using prod_cases3 by blast
  have rec: "(rc1 = Some 0 \<or> rc1 = Some (-1)) \<and> (rc1 = Some 0 \<longrightarrow> rdfd st1 = write_all recs d1 \<and> rrecs st1 = []) \<and> (fs3 = [] \<longrightarrow> rc1 = Some 0 \<and> fs4 = [])"
    using replay_data_records [OF fits size _ start(2) start(1) [symmetric] p] by simp
  obtain bad3 d2 fs5 where t3: "seek_truncate (rdfd st1) fsize fs4 = (bad3, d2, fs5)" using prod_cases3 by blast
  note run' = run [unfolded psync_fs_crypto_process_log_def c prod.case]
  show ?thesis
  proof (cases res)
    case None
    then show ?thesis using run' nil by auto
  next
    case (Some mr)
    then have mr: "mfilesize mr = fsize" using res valid(3) by simp
    note run'' = run' [unfolded Some option.case mr t1 t2 prod.case process_log_replay_def p t3]
    have bads: "fs = [] \<Longrightarrow> \<not> bad \<and> \<not> bad2 \<and> fs3 = [] \<and> (fs4 = [] \<longrightarrow> \<not> bad3 \<and> fs5 = [])"
      using nil t1 t2 t3 seek_truncate_index_Full [of ifd] by auto
    show ?thesis
    proof (cases "bad \<or> bad2 \<or> rc1 \<noteq> Some 0")
      case True
      then show ?thesis using run'' rec bads by (auto split: if_splits)
    next
      case False
      then have "rdfd st1 = write_all recs d1" "rrecs st1 = []" using rec by simp_all
      then have "rc = Some (if bad3 then -1 else 0)" "dfd' = d2" "fs' = fs5" using False run'' t3 by simp_all
      moreover have "d1 = file_set_size fsize dfd" "\<not> bad3 \<Longrightarrow> d2 = file_set_size fsize (rdfd st1)"
        using seek_truncate_any [OF t1] seek_truncate_any [OF t3] False by auto
      ultimately show ?thesis using False rec bads by auto
    qed
  qed
qed

subsection \<open>The data file stands for the content\<close>

lemma apart_shorter: "apart a m b n \<Longrightarrow> m' \<le> m \<Longrightarrow> apart a m' b n"
  by (auto simp: apart_def)

text \<open>The records of sectors in the log are for data areas, those of the finalisation for authentication areas.\<close>

definition data_record :: "byte list \<Rightarrow> openfile \<Rightarrow> nat \<times> byte list \<Rightarrow> bool" where
  "data_record c s w \<longleftrightarrow> (\<exists>j. j < 2 ^ 31 \<and> in_log s j \<noteq> None \<and> 4096 * j < length c \<and> fst w = data_offset j \<and> length (snd w) \<le> length (sector c j))"

lemma data_record_apart:
  assumes size: "sized n L" and n: "length c = n" and w: "data_record c s w" and q: "in_file n L q" and no: "\<And>j. q = Data_sector j \<Longrightarrow> fst w \<noteq> data_offset j"
  shows "apart (fst w) (length (snd w)) (area_offset n L q) (area_length n L q)"
proof -
  obtain j where j: "4096 * j < n" "fst w = data_offset j" "length (snd w) \<le> length (sector c j)" using w n by (auto simp: data_record_def)
  have "q \<noteq> Data_sector j" using no j(2) by auto
  then have "apart (area_offset n L (Data_sector j)) (area_length n L (Data_sector j)) (area_offset n L q) (area_length n L q)"
    using j(1) by (intro areas_apart [OF size _ q]) (auto simp: in_file.simps)
  then show ?thesis using j apart_shorter n by (auto simp: area_offset.simps area_length.simps length_sector)
qed

lemma final_record_area:
  assumes "sized n L" and "final_record s offs n L w"
  shows "\<exists>l j. in_file n L (Auth_sector l j) \<and> fst w = area_offset n L (Auth_sector l j) \<and> length (snd w) = area_length n L (Auth_sector l j)"
  using assms(2) unfolding final_record_def
proof (elim disjE exE conjE)
  fix g
  assume "g < nsect n 1" "fst w = area_offset n L (Auth_sector 0 g)" "length (snd w) = area_length n L (Auth_sector 0 g)"
  then show ?thesis using sized_height [OF assms(1)] by (intro exI [of _ 0] exI [of _ g]) (simp add: in_file.simps)
qed (auto simp: auth_record_def)

lemma final_record_apart:
  assumes size: "sized n L" and w: "final_record s offs n L w" and q: "in_file n L q" and low: "\<And>l g. q = Auth_sector l g \<Longrightarrow> l = 0 \<and> fst w \<noteq> area_offset n L (Auth_sector 0 g)"
  shows "apart (fst w) (length (snd w)) (area_offset n L q) (area_length n L q)"
proof -
  obtain l j where p: "in_file n L (Auth_sector l j)" "fst w = area_offset n L (Auth_sector l j)" "length (snd w) = area_length n L (Auth_sector l j)"
    using final_record_area [OF size w] by blast
  then have "Auth_sector l j \<noteq> q" using low by auto
  then show ?thesis using areas_apart [OF size p(1) q] p(2,3) by simp
qed

lemma area_length_pos: "sized n L \<Longrightarrow> in_file n L p \<Longrightarrow> 0 < area_length n L p"
  by (cases p) (auto simp: area_length.simps in_file.simps last_blocks_def)

lemma final_record_group:
  assumes size: "sized n L" and w: "final_record s offs n L w" and g: "g < nsect n 1" "fst w = area_offset n L (Auth_sector 0 g)"
  shows "length (snd w) = area_length n L (Auth_sector 0 g) \<and> group_good s offs n g (snd w)"
proof -
  have q: "in_file n L (Auth_sector 0 g)" using g(1) sized_height [OF size] by (simp add: in_file.simps)
  have same: "Auth_sector l j = Auth_sector 0 g" if "in_file n L (Auth_sector l j)" "fst w = area_offset n L (Auth_sector l j)" for l j
    using areas_apart [OF size that(1) q] area_length_pos [OF size that(1)] area_length_pos [OF size q] that(2) g(2)
    by (cases "Auth_sector l j = Auth_sector 0 g") (auto simp: apart_def)
  show ?thesis
    using w unfolding final_record_def
  proof (elim disjE exE conjE)
    assume "auth_record n L 1 w"
    then obtain l j where "1 \<le> l" "in_file n L (Auth_sector l j)" "fst w = area_offset n L (Auth_sector l j)" by (auto simp: auth_record_def)
    then show ?thesis using same [of l j] by simp
  next
    fix h
    assume h: "h < nsect n 1" "fst w = area_offset n L (Auth_sector 0 h)" "length (snd w) = area_length n L (Auth_sector 0 h)" "group_good s offs n h (snd w)"
    have "in_file n L (Auth_sector 0 h)" using h(1) sized_height [OF size] by (simp add: in_file.simps)
    then have "h = g" using same [of 0 h] h(2) by simp
    then show ?thesis using h by simp
  qed
qed

text \<open>A group that no changed sector belongs to is where it was, the same sectors with the same blocks.\<close>

lemma unchanged_group:
  assumes new: "sized n L" and old: "sized m L0" and mn: "m \<le> n" and i: "4096 * i < n" and len: "length c = n" "length p = m"
    and same: "\<And>j. j div 128 = i div 128 \<Longrightarrow> 4096 * j < n \<Longrightarrow> sector p j = sector c j"
  shows "area_offset m L0 (Auth_sector 0 (i div 128)) = area_offset n L (Auth_sector 0 (i div 128)) \<or> m = n"
proof -
  let ?g = "i div 128"
  have sl: "min 4096 (m - 4096 * j) = min 4096 (n - 4096 * j)" if "j div 128 = ?g" "4096 * j < n" for j
    using same [OF that] len length_sector [of p j] length_sector [of c j] by simp
  have g: "?g < nsect n 1" by (rule group_bound [OF i])
  have n: "0 < n" "0 < m" using new old by (simp_all add: sized_def)
  show ?thesis
  proof (cases "Suc ?g = nsect n 1")
    case True
    let ?l = "nsect n 0 - 1"
    have "?l div 128 = ?g" using nsect_pred [OF n(1), of 0] True by simp
    moreover have "4096 * ?l < n" "n - 4096 * ?l \<le> 4096" using sized_first [OF new] by (auto simp: algebra_simps)
    ultimately have "min 4096 (m - 4096 * ?l) = n - 4096 * ?l" using sl [of ?l] by simp
    then have "m = n" using mn \<open>4096 * ?l < n\<close> by linarith
    then show ?thesis ..
  next
    case False
    then have "Suc ?g < nsect n (Suc 0)" using g by simp
    then have "128 * Suc ?g < nsect n 0" using auth_before_last [OF n(1), of ?g 0] by simp
    then have full: "4096 * (128 * Suc ?g) < n" by (simp only: nsect_0_less)
    have "(128 * ?g + 127) div 128 = ?g" by simp
    moreover have "4096 * (128 * ?g + 127) < n" using full by simp
    ultimately have "min 4096 (m - 4096 * (128 * ?g + 127)) = min 4096 (n - 4096 * (128 * ?g + 127))" by (rule sl)
    moreover have "4096 \<le> n - 4096 * (128 * ?g + 127)" using full by simp
    ultimately have m: "4096 * (128 * Suc ?g) \<le> m" by (simp add: min_def split: if_splits)
    show ?thesis
    proof (cases "Suc ?g = nsect m 1")
      case True
      have "nsect m 0 \<le> 128 * nsect m 1" using ceil_div(2) [OF nsect_pos [OF n(2), of 0]] by (simp add: nsect.simps)
      then have "m \<le> 4096 * (128 * Suc ?g)" using sized_first [OF old] True by (simp flip: True)
      then have "m = 4096 * (128 * Suc ?g)" using m by simp
      then show ?thesis using full_group [OF old True] False by (simp add: area_offset.simps)
    next
      case other: False
      then show ?thesis using False by (simp add: area_offset.simps)
    qed
  qed
qed

definition replayed_file :: "nat \<Rightarrow> writes \<Rightarrow> file_bytes \<Rightarrow> file_bytes" where
  "replayed_file n ws f = file_set_size n (write_all ws (file_set_size n f))"

lemma replayed_spared:
  assumes "spares ws off len" "off + len \<le> n" "off + len \<le> length f"
  shows "take len (drop off (replayed_file n ws f)) = take len (drop off f)"
  using spared_bytes [OF assms(1), of "file_set_size n f"] assms(2,3) file_set_size_part [OF assms(2), of "write_all ws (file_set_size n f)"]
    file_set_size_part [OF assms(2,3)] by (simp add: replayed_file_def)

lemma replayed_newest:
  assumes "ws = pre @ (off, data) # post" "spares post off (length data)" "off + length data \<le> n" "data \<noteq> []"
  shows "take (length data) (drop off (replayed_file n ws f)) = data"
proof -
  have "off + length data \<le> length (file_write off data (write_all pre (file_set_size n f)))" using assms(4) by (simp add: length_file_write)
  then have "off + length data \<le> length (write_all ws (file_set_size n f))" using spared_bytes [OF assms(2)] by (simp add: assms(1))
  then show ?thesis
    using newest_bytes [OF assms(2,4), of pre "file_set_size n f"] file_set_size_part [OF assms(3), of "write_all ws (file_set_size n f)"] assms(1)
    by (simp add: replayed_file_def)
qed

lemma last_entry: "\<exists>x \<in> set xs. P x \<Longrightarrow> \<exists>pre x post. xs = pre @ x # post \<and> P x \<and> (\<forall>y \<in> set post. \<not> P y)"
  using split_list_last_prop [of xs P] by blast

lemma sector_of_longer: "4096 * i < n \<Longrightarrow> length c = n \<Longrightarrow> length (sector c i) = area_length n L (Data_sector i) \<and> 0 < length (sector c i)"
  by (simp add: length_sector area_length.simps)

lemma finalised_sector:
  assumes env: "env_ok env" and size: "sized n L" and c: "length c = n" and fin: "finalisable s offs m n" and m: "m = length p" "m \<le> n"
    and secs: "\<And>i se. i < 2 ^ 31 \<Longrightarrow> in_log s i = Some se \<Longrightarrow> lsectorid se = i \<and> entry_ok env c recs se"
    and recs: "\<forall>w \<in> set recs. data_record c s w"
    and p: "0 < m \<Longrightarrow> psync_fs_crypto_offsets_by_plainsize m = Some offs" "\<And>i. 4096 * i < m \<Longrightarrow> sector_stored env (datafile s) offs p i"
      "\<And>i. i < 2 ^ 31 \<Longrightarrow> in_log s i = None \<Longrightarrow> sector p i = sector c i"
    and ws: "\<forall>w \<in> set ws. final_record s offs n L w"
    and groups: "\<And>i. i < 2 ^ 31 \<Longrightarrow> in_log s i \<noteq> None \<Longrightarrow> \<exists>data. (area_offset n L (Auth_sector 0 (i div 128)), data) \<in> set ws"
    and new: "psync_fs_crypto_offsets_by_plainsize n = Some (offsets_of n L)"
    and i: "4096 * i < n"
  shows "sector_stored env (replayed_file (crypto_bytes n L) (recs @ ws) (datafile s)) (offsets_of n L) c i"
proof -
  let ?D = "replayed_file (crypto_bytes n L) (recs @ ws) (datafile s)" and ?g = "i div 128"
  let ?q = "Data_sector i" and ?a = "Auth_sector 0 ?g"
  let ?goff = "area_offset n L ?a" and ?glen = "area_length n L ?a" and ?pos = "auth_position (offsets_of n L) i"
  have n: "n \<le> 2 ^ 43" "0 < n" using size by (simp_all add: sized_def)
  have small: "j < 2 ^ 31" if "4096 * j < n" for j using that n by simp
  have q: "in_file n L ?q" "in_file n L ?a" using i group_bound [OF i] sized_height [OF size] by (simp_all add: in_file.simps)
  have len: "length (sector c i) = area_length n L ?q" "0 < length (sector c i)" using sector_of_longer [OF i c] by simp_all
  have inside: "data_offset i + length (sector c i) \<le> crypto_bytes n L" "?goff + ?glen \<le> crypto_bytes n L"
    using area_inside [OF size q(1)] area_inside [OF size q(2)] len by (simp_all add: area_offset.simps)
  have pos: "?pos = ?goff + i mod 128 * 32" "i mod 128 * 32 + 32 \<le> ?glen" by (rule auth_position_area [OF size i], rule block_inside [OF size i])
  have lenD: "length ?D = crypto_bytes n L" by (simp add: replayed_file_def)
  have stored: "sector_stored env (datafile s) offs p i" "sector p i = sector c i" "4096 * i < m" if "in_log s i = None"
  proof -
    show "4096 * i < m" using fin that i by (simp add: finalisable_def)
    then show "sector_stored env (datafile s) offs p i" by (rule p(2))
    show "sector p i = sector c i" using p(3) [OF small [OF i] that] .
  qed
  have other_data: "spares ws (data_offset i) (length (sector c i))"
    using final_record_apart [OF size _ q(1)] ws len(1) by (auto simp: spares_def area_offset.simps)
  have data: "decode_sector env (take (length (sector c i)) (drop (data_offset i) ?D)) (block_of s offs i) i = (sector c i, 0)"
  proof (cases "in_log s i")
    case (Some se)
    then obtain pre d post where e: "recs = pre @ (data_offset i, d) # post" "data_offset i \<notin> fst ` set post" "length d = length (sector c i)"
        "decode_sector env d (lauth se) i = (sector c i, 0)" using secs [OF small [OF i] Some] by (auto simp: entry_ok_def)
    have "spares post (data_offset i) (length d)"
      unfolding spares_def
    proof (clarify)
      fix o1 d1
      assume w: "(o1, d1) \<in> set post"
      then have "data_record c s (o1, d1)" "o1 \<noteq> data_offset i" using recs e(1,2) by force+
      then show "apart o1 (length d1) (data_offset i) (length d)"
        using data_record_apart [OF size c, of s "(o1, d1)" ?q] q(1) e(3) len(1) by (simp add: area_offset.simps)
    qed
    then have "take (length d) (drop (data_offset i) ?D) = d"
      using inside(1) e len other_data by (intro replayed_newest [of _ pre _ _ "post @ ws"]) auto
    then show ?thesis using e Some by (simp add: block_of_def)
  next
    case None
    have "spares recs (data_offset i) (length (sector c i))"
      unfolding spares_def
    proof (clarify)
      fix o1 d1
      assume w: "(o1, d1) \<in> set recs"
      then have r: "data_record c s (o1, d1)" using recs by blast
      then obtain j where j: "j < 2 ^ 31" "in_log s j \<noteq> None" "o1 = data_offset j" by (auto simp: data_record_def)
      then have "o1 \<noteq> data_offset i" using data_offset_inj [OF j(1) small [OF i]] None by auto
      then show "apart o1 (length d1) (data_offset i) (length (sector c i))"
        using data_record_apart [OF size c r q(1)] len(1) by (simp add: area_offset.simps)
    qed
    then have "take (length (sector c i)) (drop (data_offset i) ?D) = take (length (sector c i)) (drop (data_offset i) (datafile s))"
      using inside(1) other_data stored [OF None] by (intro replayed_spared) (simp_all add: sector_stored_def)
    then show ?thesis using stored [OF None] None by (simp add: sector_stored_def block_of_def)
  qed
  have auth: "take 32 (drop ?pos ?D) = block_of s offs i"
  proof (cases "\<exists>w \<in> set ws. fst w = ?goff")
    case True
    then obtain pre w post where w: "ws = pre @ w # post" "fst w = ?goff" "\<forall>y \<in> set post. fst y \<noteq> ?goff" using last_entry [of ws "\<lambda>w. fst w = ?goff"] by blast
    have fw: "final_record s offs n L w" using ws w(1) by simp
    have good: "length (snd w) = ?glen" "group_good s offs n ?g (snd w)" using final_record_group [OF size fw group_bound [OF i] w(2)] by simp_all
    have "spares post ?goff ?glen"
      unfolding spares_def
    proof (clarify)
      fix o1 d1
      assume y: "(o1, d1) \<in> set post"
      then have "final_record s offs n L (o1, d1)" "o1 \<noteq> ?goff" using ws w(1,3) by auto
      then show "apart o1 (length d1) ?goff ?glen" using final_record_apart [OF size _ q(2), of s offs "(o1, d1)"] by simp
    qed
    then have spared: "spares post ?goff (length (snd w))" using good(1) by simp
    have split: "recs @ ws = (recs @ pre) @ (?goff, snd w) # post" using w(1,2) by (cases w) simp
    have "snd w \<noteq> []" using good(1) area_length_pos [OF size q(2)] by auto
    then have "take (length (snd w)) (drop ?goff ?D) = snd w"
      using inside(2) good(1) by (intro replayed_newest [OF split spared]) simp_all
    then have "take ?glen (drop ?goff ?D) = snd w" using good(1) by simp
    then have "take 32 (drop (i mod 128 * 32) (take ?glen (drop ?goff ?D))) = block_of s offs i" using good(2) i by (simp add: group_good_def)
    then show ?thesis using part_of_area [OF pos(2), of ?goff ?D "[]"] inside(2) lenD pos(1) by simp
  next
    case False
    then have no: "in_log s j = None" if "j div 128 = ?g" "4096 * j < n" for j
      using groups [OF small [OF that(2)]] that(1) by (metis fst_conv)
    have none: "in_log s i = None" by (rule no [OF refl i])
    note st = stored [OF none]
    have m0: "0 < m" using st(3) by simp
    obtain L0 where L0: "sized m L0" "offs = offsets_of m L0" using fin m0 by (auto simp: finalisable_def)
    have "area_offset m L0 ?a = ?goff \<or> m = n"
      by (rule unchanged_group [OF size L0(1) m(2) i c m(1) [symmetric]]) (use no p(3) small in blast)
    then have same: "auth_position offs i = ?pos"
      using auth_position_area [OF L0(1) st(3)] pos(1) L0(2) p(1) [OF m0] new by auto
    have "spares recs ?goff ?glen"
      unfolding spares_def using data_record_apart [OF size c _ q(2)] recs by fastforce
    moreover have "spares ws ?goff ?glen"
      unfolding spares_def using final_record_apart [OF size _ q(2)] ws False by fastforce
    ultimately have "spares (recs @ ws) ?pos 32" using pos unfolding spares_def apart_def by fastforce
    then have "take 32 (drop ?pos ?D) = take 32 (drop ?pos (datafile s))"
      using st(1) same inside(2) pos by (intro replayed_spared) (auto simp: sector_stored_def)
    then show ?thesis using none same by (simp add: block_of_def)
  qed
  show ?thesis
    unfolding sector_stored_def auth lenD using data inside pos by simp
qed

subsection \<open>Finalising as a whole\<close>

lemma runs_data_size_any:
  assumes "\<And>sz fs. sz = -1 \<or> sz = int (length (datafile s)) \<Longrightarrow> (pending s = [] \<Longrightarrow> fs = []) \<Longrightarrow> runs (K sz) (s\<lparr>pending := fs\<rparr>) Q"
  shows "runs (op_bind data_size K) s Q"
proof -
  obtain sz fs where z: "psync_file_size (datafile s) (pending s) = (sz, fs)" by fastforce
  have "data_size s = Some (Inr sz, s\<lparr>pending := fs\<rparr>)" using z by (simp add: data_size_def)
  then show ?thesis using file_size_any [OF z] assms [of sz fs] by (intro runs_or_fails [where m = data_size and x = sz]) auto
qed

lemma runs_call_ok:
  assumes "\<And>fs. runs K (s\<lparr>pending := fs\<rparr>) Q"
  shows "runs (op_bind file_call (\<lambda>bad. op_bind (op_unless (\<not> bad) EIO) (\<lambda>_. K))) s Q"
proof (rule runs_file_call)
  fix bad and fs :: faults
  assume "pending s = [] \<Longrightarrow> \<not> bad \<and> fs = []"
  then show "runs (op_bind (op_unless (\<not> bad) EIO) (\<lambda>_. K)) (s\<lparr>pending := fs\<rparr>) Q \<or>
      pending s \<noteq> [] \<and> fails (op_bind (op_unless (\<not> bad) EIO) (\<lambda>_. K)) (s\<lparr>pending := fs\<rparr>)"
    using assms by (cases bad) (auto intro: fails_bind_l)
qed

lemma runs_try:
  assumes "runs m s Q" and "\<And>s'. Q () s' \<Longrightarrow> runs (K 0) s' R" and "\<And>s'. fails (K (- EIO)) s'"
  shows "runs (op_bind (op_try m) K) s R"
proof -
  obtain r s' where r: "m s = Some (r, s')" "case r of Inl e \<Rightarrow> e = - EIO | Inr x \<Rightarrow> Q x s'" "pending s = [] \<longrightarrow> pending s' = [] \<and> (\<exists>x. r = Inr x)"
    using assms(1) by (auto simp: runs_def)
  show ?thesis
  proof (cases r)
    case (Inl e)
    then have "op_try m s = Some (Inr (- EIO), s')" using r by (simp add: op_try_def)
    then show ?thesis using assms(3) [of s'] r(3) Inl by (intro runs_or_fails [where m = "op_try m"]) auto
  next
    case (Inr x)
    then have "op_try m s = Some (Inr 0, s')" "runs (K 0) s' R" using r assms(2) [of s'] by (simp_all add: op_try_def)
    then show ?thesis using r(3) by (intro runs_or_fails [where m = "op_try m"]) auto
  qed
qed

lemma runs_switch_logs:
  assumes post: "\<And>fs. Q () (s\<lparr>flog := logfile s, logfile := Some (replicate 4096 0xff), logoffset := 4096, loghashctx := fh_init (hashing env), sectorsinlog := Null, pending := fs\<rparr>)"
  shows "runs (finalize_switch_logs env) s Q"
proof -
  have ff: "file_write 0 (replicate 4096 0xff) [] = replicate 4096 0xff" by (simp add: file_write_def)
  have fin: "runs (op_bind (psync_fs_crypto_init_log env) (\<lambda>_. op_modify (\<lambda>s. s\<lparr>sectorsinlog := Null\<rparr>))) s1 Q"
    if s1: "s1 = s\<lparr>logfile := Some [], flog := logfile s, pending := pending s1\<rparr>" for s1
  proof -
    have "runs (op_bind (log_pwrite (replicate 4096 0xff) 0) (\<lambda>wrt. op_bind (op_unless (wrt = int 4096) EIO) (\<lambda>_.
        op_bind (op_modify (\<lambda>s. s\<lparr>logoffset := 4096, loghashctx := fh_init (hashing env)\<rparr>)) (\<lambda>_. op_modify (\<lambda>s. s\<lparr>sectorsinlog := Null\<rparr>))))) s1 Q"
    proof (rule runs_log_pwrite)
      show "logfile s1 = Some []" by (subst s1) simp
      fix fs
      have "s1\<lparr>logfile := Some (file_write 0 (replicate 4096 0xff) []), pending := fs, logoffset := 4096, loghashctx := fh_init (hashing env), sectorsinlog := Null\<rparr> =
          s\<lparr>flog := logfile s, logfile := Some (replicate 4096 0xff), logoffset := 4096, loghashctx := fh_init (hashing env), sectorsinlog := Null, pending := fs\<rparr>"
        unfolding ff by (subst s1) (cases s, simp)
      then show "runs (op_bind (op_modify (\<lambda>s. s\<lparr>logoffset := 4096, loghashctx := fh_init (hashing env)\<rparr>)) (\<lambda>_. op_modify (\<lambda>s. s\<lparr>sectorsinlog := Null\<rparr>)))
          (s1\<lparr>logfile := Some (file_write 0 (replicate 4096 0xff) []), pending := fs\<rparr>) Q"
        using post [of fs] by (intro runs_bind_modify runs_modify) simp_all
    qed simp
    then show ?thesis by (simp add: psync_fs_crypto_init_log_def op_bind_assoc)
  qed
  have close: "runs (op_bind file_call (\<lambda>bad. op_bind (op_modify (\<lambda>s. s\<lparr>logfile := None\<rparr>)) (\<lambda>_. op_bind (op_unless (\<not> bad) EIO) (\<lambda>_. K)))) s Q"
    if K: "\<And>fs. runs K (s\<lparr>pending := fs, logfile := None\<rparr>) Q" for K
  proof (rule runs_file_call)
    fix bad and fs :: faults
    assume "pending s = [] \<Longrightarrow> \<not> bad \<and> fs = []"
    then show "runs (op_bind (op_modify (\<lambda>s. s\<lparr>logfile := None\<rparr>)) (\<lambda>_. op_bind (op_unless (\<not> bad) EIO) (\<lambda>_. K))) (s\<lparr>pending := fs\<rparr>) Q \<or>
        pending s \<noteq> [] \<and> fails (op_bind (op_modify (\<lambda>s. s\<lparr>logfile := None\<rparr>)) (\<lambda>_. op_bind (op_unless (\<not> bad) EIO) (\<lambda>_. K))) (s\<lparr>pending := fs\<rparr>)"
      using K [of fs] by (cases bad) (auto simp: op_modify_def fails_def op_bind_def op_error_def runs_def op_return_def)
  qed
  show ?thesis
    unfolding finalize_switch_logs_def runs_bind_get
    by (rule close, rule runs_call_ok, rule runs_bind_modify, simp, rule runs_call_ok, rule runs_bind_modify, simp, rule fin) (cases s, simp)
qed

lemma runs_flush_and_process:
  assumes env: "env_ok env" and lf: "flog s = Some lf" "complete_log env lf fsize recs" "fsize < 2 ^ 64"
    and fits: "\<forall>(o1, d) \<in> set recs. length d \<le> 4096 \<and> o1 + length d \<le> fsize" and new: "newfile s"
    and post: "\<And>ifd fs. Q () (s\<lparr>datafile := replayed_file fsize recs (datafile s), indexfile := ifd, pending := fs\<rparr>)"
  shows "runs (psync_fs_crypto_log_flush_and_process env) s Q"
proof -
  let ?after = "\<lambda>rc. op_bind file_call (\<lambda>_. if rc \<noteq> (0::int) then op_error (- EIO) else op_bind file_call (\<lambda>bad. op_bind (op_unless (\<not> bad) EIO) (\<lambda>_.
      op_bind (op_get newfile) (\<lambda>isnew. if \<not> isnew then op_bind file_call (\<lambda>bad. op_unless (\<not> bad) EIO) else op_return ()))))"
  have ok: "runs (?after 0) (s\<lparr>datafile := replayed_file fsize recs (datafile s), indexfile := ifd, pending := fs\<rparr>) Q" for ifd fs
  proof (rule runs_file_call)
    fix bad and fs2 :: faults
    show "runs (if 0 \<noteq> (0::int) then op_error (- EIO) else op_bind file_call (\<lambda>bad. op_bind (op_unless (\<not> bad) EIO) (\<lambda>_.
      op_bind (op_get newfile) (\<lambda>isnew. if \<not> isnew then op_bind file_call (\<lambda>bad. op_unless (\<not> bad) EIO) else op_return ()))))
        (s\<lparr>datafile := replayed_file fsize recs (datafile s), indexfile := ifd, pending := fs, pending := fs2\<rparr>) Q \<or> P" for P
      by (rule disjI1) (simp only: simp_thms if_False, rule runs_call_ok, use new post in \<open>simp add: runs_return\<close>)
  qed
  have bad: "fails (?after (-1)) s'" for s'
    by (auto simp: fails_def op_bind_def file_call_def op_error_def split: prod.splits)
  have process: "runs (op_bind (process_flog env) ?after) (s\<lparr>pending := fs\<rparr>) Q" for fs
  proof -
    obtain rc dfd' ifd' fs' where run: "psync_fs_crypto_process_log (hashing env) lf (datafile s) (indexfile s) False fs = (rc, dfd', ifd', fs')" using prod_cases4 by blast
    note r = replay_complete [OF env lf(2) fits lf(3) run]
    have step: "rc = Some v \<Longrightarrow> process_flog env (s\<lparr>pending := fs\<rparr>) = Some (Inr v, s\<lparr>datafile := dfd', indexfile := ifd', pending := fs'\<rparr>)" for v
      using run lf(1) by (simp add: process_flog_def)
    show ?thesis
    proof (cases "rc = Some 0")
      case True
      then have "dfd' = replayed_file fsize recs (datafile s)" using r by (simp add: replayed_file_def)
      then show ?thesis using step [OF True] ok r by (intro runs_or_fails [where m = "process_flog env"]) auto
    next
      case False
      then have rc: "rc = Some (-1)" "fs \<noteq> []" using r by auto
      then show ?thesis using step [OF rc(1)] bad by (intro runs_or_fails [where m = "process_flog env"]) auto
    qed
  qed
  show ?thesis
    unfolding psync_fs_crypto_log_flush_and_process_def
  proof (rule runs_call_ok, rule runs_file_call)
    fix fs bad and fs2 :: faults
    assume ok: "pending (s\<lparr>pending := fs\<rparr>) = [] \<Longrightarrow> \<not> bad \<and> fs2 = []"
    have "fails (op_bind file_call (\<lambda>_. op_error (- EIO))) s'" for s' by (auto simp: fails_def op_bind_def file_call_def op_error_def split: prod.splits)
    then show "runs (if bad then op_bind file_call (\<lambda>_. op_error (- EIO)) else op_bind (process_flog env) ?after) (s\<lparr>pending := fs, pending := fs2\<rparr>) Q \<or>
        pending (s\<lparr>pending := fs\<rparr>) \<noteq> [] \<and> fails (if bad then op_bind file_call (\<lambda>_. op_error (- EIO)) else op_bind (process_flog env) ?after) (s\<lparr>pending := fs, pending := fs2\<rparr>)"
      using process [of fs2] ok by (cases bad) auto
  qed
qed

text \<open>The parts of \<open>content_ok\<close> as the lemmas above use them.\<close>

lemma content_parts:
  assumes ok: "content_ok env c s"
  obtains recs p offs where "log_ok env s recs" "\<forall>w \<in> set recs. data_record c s w"
    "\<forall>i se. i < 2 ^ 31 \<longrightarrow> in_log s i = Some se \<longrightarrow> lsectorid se = i \<and> entry_ok env c recs se"
    "length p \<le> length c" "0 < length p \<longrightarrow> psync_fs_crypto_offsets_by_plainsize (length p) = Some offs"
    "\<forall>i. 4096 * i < length p \<longrightarrow> sector_stored env (datafile s) offs p i"
    "\<forall>i. i < 2 ^ 31 \<longrightarrow> in_log s i = None \<longrightarrow> sector p i = sector c i" "finalisable s offs (length p) (length c)"
proof -
  have tree: "tree_ok s" and new: "newfile s" and len: "length c \<le> 2 ^ 43" using ok by (simp_all add: content_ok_def)
  obtain recs p where log: "log_ok env s recs"
    and secs: "\<And>j se. j < 2 ^ 31 \<Longrightarrow> in_log s j = Some se \<Longrightarrow> 4096 * j < length c \<and> entry_ok env c recs se"
    and recs: "\<And>off data. (off, data) \<in> set recs \<Longrightarrow> \<exists>j. j < 2 ^ 31 \<and> in_log s j \<noteq> None \<and> off = data_offset j \<and> length data \<le> length (sector c j)"
    and p: "stored_file env (datafile s) p" "length p \<le> length c" "\<And>j. j < 2 ^ 31 \<Longrightarrow> in_log s j = None \<Longrightarrow> sector p j = sector c j"
    using ok unfolding content_ok_def by fastforce
  obtain offs where offs: "psync_fs_crypto_offsets_by_plainsize (length p) = Some offs" "length (datafile s) = crypto_file_size offs"
      "\<And>i. 4096 * i < length p \<Longrightarrow> sector_stored env (datafile s) offs p i" using p(1) by (auto simp: stored_file_def)
  have ids: "lsectorid se = i" if "i < 2 ^ 31" "in_log s i = Some se" for i se using that in_log_iff [OF tree that(1)] by auto
  have data: "\<forall>w \<in> set recs. data_record c s w"
  proof
    fix w
    assume "w \<in> set recs"
    then obtain j where "j < 2 ^ 31" "in_log s j \<noteq> None" "fst w = data_offset j" "length (snd w) \<le> length (sector c j)"
      using recs [of "fst w" "snd w"] by auto
    then show "data_record c s w" using secs unfolding data_record_def by blast
  qed
  have "4096 * i < length p" if "in_log s i = None" "4096 * i < length c" for i
  proof -
    have "i < 2 ^ 31" using that(2) len by simp
    then have "length (sector p i) = length (sector c i)" using p(3) that(1) by simp
    then show ?thesis using that(2) by (simp add: length_sector min_def split: if_splits)
  qed
  moreover have "length (lauth se) = 32" if "i < 2 ^ 31" "in_log s i = Some se" for i se using secs [OF that] by (auto simp: entry_ok_def)
  moreover have "datafile s = []" if "length p = 0"
    using offs(1,2) that by (auto simp: psync_fs_crypto_offsets_by_plainsize_def crypto_file_size_def zero_offsets_def wrap64_def)
  moreover have "\<exists>L. sized (length p) L \<and> offs = offsets_of (length p) L \<and> length (datafile s) = crypto_bytes (length p) L \<and> 32 < crypto_bytes (length p) L \<and>
        psync_fs_crypto_offsets_by_cryptosize (crypto_bytes (length p) L) = Some offs" if "length p \<noteq> 0"
  proof -
    have "0 < length p" "length p \<le> 2 ^ 43" using that p(2) len by simp_all
    then obtain L where "sized (length p) L" "psync_fs_crypto_offsets_by_plainsize (length p) = Some (offsets_of (length p) L)"
        "crypto_file_size (offsets_of (length p) L) = crypto_bytes (length p) L" "32 < crypto_bytes (length p) L"
        "psync_fs_crypto_offsets_by_cryptosize (crypto_bytes (length p) L) = Some (offsets_of (length p) L)" by (rule layout_sized)
    then show ?thesis using offs(1,2) by auto
  qed
  ultimately have "finalisable s offs (length p) (length c)" unfolding finalisable_def using new tree len secs by auto
  then show thesis using that [OF log data _ p(2)] secs ids offs(1,3) p(3) by blast
qed

text \<open>All sectors in the log but the last have a record of 4112 bytes, so there are not too many.\<close>

lemma records_fill:
  assumes "distinct A" and "\<And>i. i \<in> set A \<Longrightarrow> i < 2 ^ 31 \<and> (\<exists>d. (data_offset i, d) \<in> set recs \<and> length d = 4096)"
  shows "4112 * length A \<le> length (log_bytes recs)"
  using assms
proof (induction A arbitrary: recs)
  case (Cons i A)
  obtain d where d: "(data_offset i, d) \<in> set recs" "length d = 4096" "i < 2 ^ 31" using Cons.prems(2) by auto
  obtain pre post where recs: "recs = pre @ (data_offset i, d) # post" using split_list [OF d(1)] by blast
  have "4112 * length A \<le> length (log_bytes (pre @ post))"
  proof (rule Cons.IH)
    fix j
    assume j: "j \<in> set A"
    then obtain e where e: "j < 2 ^ 31" "(data_offset j, e) \<in> set recs" "length e = 4096" using Cons.prems(2) by auto
    have "data_offset j \<noteq> data_offset i" using data_offset_inj [OF e(1) d(3)] j Cons.prems(1) by auto
    then show "j < 2 ^ 31 \<and> (\<exists>d. (data_offset j, d) \<in> set (pre @ post) \<and> length d = 4096)" using e recs by auto
  qed (use Cons.prems(1) in simp)
  then show ?case using d(2) by (simp add: recs)
qed simp

lemma sectors_in_log:
  assumes tree: "tree_ok s" and log: "log_ok env s recs"
    and secs: "\<And>i se. i < 2 ^ 31 \<Longrightarrow> in_log s i = Some se \<Longrightarrow> lsectorid se = i \<and> entry_ok env c recs se \<and> 4096 * i < length c"
  shows "4112 * (length (inorder (sectorsinlog s)) - 1) + 4096 \<le> logoffset s"
proof (cases "inorder (sectorsinlog s) = []")
  case False
  let ?all = "inorder (sectorsinlog s)" and ?id = "\<lambda>a. lsectorid (inlog s a)"
  have split: "?all = butlast ?all @ [last ?all]" using False by simp
  have sorted: "sorted_wrt (\<lambda>a b. ?id a < ?id b) ?all" and ids: "\<forall>a \<in> set ?all. ?id a < 2 ^ 31" using tree by (simp_all add: tree_ok_def)
  have less: "\<forall>a \<in> set (butlast ?all). ?id a < ?id (last ?all)" using sorted by (subst (asm) split) (simp add: sorted_wrt_append)
  have "sorted_wrt (\<lambda>a b. ?id a < ?id b) (butlast ?all)" using sorted by (subst (asm) split) (simp add: sorted_wrt_append)
  then have "sorted_wrt (<) (List.map ?id (butlast ?all))" by (simp add: sorted_wrt_map)
  then have dist: "distinct (List.map ?id (butlast ?all))" by (simp add: strict_sorted_iff)
  have here: "in_log s (?id a) = Some (inlog s a)" if "a \<in> set ?all" for a using in_log_iff [OF tree, of "?id a"] ids that by auto
  have last: "4096 * ?id (last ?all) < length c" using secs [of "?id (last ?all)"] here [of "last ?all"] ids False by simp
  have "4112 * length (List.map ?id (butlast ?all)) \<le> length (log_bytes recs)"
  proof (rule records_fill [OF dist])
    fix i
    assume "i \<in> set (List.map ?id (butlast ?all))"
    then obtain a where a: "a \<in> set (butlast ?all)" "i = ?id a" by auto
    then have all: "a \<in> set ?all" by (simp add: in_set_butlastD)
    have i: "i < 2 ^ 31" using ids all a(2) by simp
    have "i < ?id (last ?all)" using less a by simp
    then have "length (sector c i) = 4096" using last by (simp add: length_sector)
    moreover have "entry_ok env c recs (inlog s a)" "?id a = i" using secs [OF i, of "inlog s a"] here [OF all] a(2) by auto
    ultimately show "i < 2 ^ 31 \<and> (\<exists>d. (data_offset i, d) \<in> set recs \<and> length d = 4096)" using i by (auto simp: entry_ok_def)
  qed
  then show ?thesis using log by (auto simp: log_ok_def)
qed (use log in \<open>auto simp: log_ok_def\<close>)

lemma file_ok_flog [simp]: "file_ok env c (s\<lparr>flog := f\<rparr>) = file_ok env c s"
  by (simp add: file_ok_def content_ok_def tree_ok_def log_ok_def in_log_def)

text \<open>The parts of a state that is finalised, with the layout of its new size.\<close>

definition ready :: "file_env \<Rightarrow> byte list \<Rightarrow> openfile \<Rightarrow> writes \<Rightarrow> byte list \<Rightarrow> crypto_offsets \<Rightarrow> nat \<Rightarrow> bool" where
  "ready env c s recs p offs L \<longleftrightarrow> log_ok env s recs \<and> (\<forall>w \<in> set recs. data_record c s w) \<and>
     (\<forall>i se. i < 2 ^ 31 \<longrightarrow> in_log s i = Some se \<longrightarrow> lsectorid se = i \<and> entry_ok env c recs se) \<and>
     length p \<le> length c \<and> (0 < length p \<longrightarrow> psync_fs_crypto_offsets_by_plainsize (length p) = Some offs) \<and>
     (\<forall>i. 4096 * i < length p \<longrightarrow> sector_stored env (datafile s) offs p i) \<and>
     (\<forall>i. i < 2 ^ 31 \<longrightarrow> in_log s i = None \<longrightarrow> sector p i = sector c i) \<and> finalisable s offs (length p) (length c) \<and>
     sized (length c) L \<and> psync_fs_crypto_offsets_by_plainsize (length c) = Some (offsets_of (length c) L) \<and>
     crypto_file_size (offsets_of (length c) L) = crypto_bytes (length c) L \<and> crypto_bytes (length c) L < 2 ^ 49"

lemma content_ready:
  assumes ok: "content_ok env c s" and c: "c \<noteq> []"
  shows "\<exists>recs p offs L. ready env c s recs p offs L"
proof -
  have len: "length c \<le> 2 ^ 43" "0 < length c" using ok c by (simp_all add: content_ok_def)
  obtain L where L: "sized (length c) L" "psync_fs_crypto_offsets_by_plainsize (length c) = Some (offsets_of (length c) L)"
      "crypto_file_size (offsets_of (length c) L) = crypto_bytes (length c) L" "crypto_bytes (length c) L < 2 ^ 49"
    by (rule layout_sized [OF len(2,1)])
  show ?thesis
  proof (rule content_parts [OF ok])
    fix recs p offs
    assume "log_ok env s recs" "\<forall>w \<in> set recs. data_record c s w"
      "\<forall>i se. i < 2 ^ 31 \<longrightarrow> in_log s i = Some se \<longrightarrow> lsectorid se = i \<and> entry_ok env c recs se"
      "length p \<le> length c" "0 < length p \<longrightarrow> psync_fs_crypto_offsets_by_plainsize (length p) = Some offs"
      "\<forall>i. 4096 * i < length p \<longrightarrow> sector_stored env (datafile s) offs p i"
      "\<forall>i. i < 2 ^ 31 \<longrightarrow> in_log s i = None \<longrightarrow> sector p i = sector c i" "finalisable s offs (length p) (length c)"
    then have "ready env c s recs p offs L" using L unfolding ready_def by (intro conjI) assumption+
    then show ?thesis by blast
  qed
qed

lemma ready_pending [simp]: "ready env c (s\<lparr>pending := fs\<rparr>) recs p offs L = ready env c s recs p offs L"
proof -
  have "data_record c (s\<lparr>pending := fs\<rparr>) = data_record c s" by (intro ext) (simp add: data_record_def)
  then show ?thesis by (simp add: ready_def finalisable_def tree_ok_def)
qed

lemma ready_room:
  assumes r: "ready env c s recs p offs L" and room: "logoffset s \<le> 2 ^ 29"
  shows "logoffset s + 20560 * (length (inorder (sectorsinlog s)) + 1) + 48 < 2 ^ 32"
proof -
  define k where "k = length (inorder (sectorsinlog s)) - 1"
  have tree: "tree_ok s" and log: "log_ok env s recs" using r by (simp_all add: ready_def finalisable_def)
  have "4112 * k + 4096 \<le> logoffset s"
    unfolding k_def by (rule sectors_in_log [OF tree log, of c]) (use r in \<open>auto simp: ready_def finalisable_def\<close>)
  moreover have "length (inorder (sectorsinlog s)) \<le> Suc k" by (simp add: k_def)
  ultimately show ?thesis using room by simp
qed

lemma ready_fits:
  assumes r: "ready env c s recs p offs L" and ws: "\<forall>w \<in> set ws. final_record s offs (length c) L w"
  shows "\<forall>(o1, d) \<in> set (recs @ ws). length d \<le> 4096 \<and> o1 + length d \<le> crypto_bytes (length c) L"
proof -
  have L: "sized (length c) L" and recs: "\<forall>w \<in> set recs. data_record c s w" using r by (simp_all add: ready_def)
  have "length (snd w) \<le> 4096 \<and> fst w + length (snd w) \<le> crypto_bytes (length c) L" if w: "data_record c s w" for w
  proof -
    obtain j where j: "4096 * j < length c" "fst w = data_offset j" "length (snd w) \<le> length (sector c j)" using w by (auto simp: data_record_def)
    have "in_file (length c) L (Data_sector j)" using j(1) by (simp add: in_file.simps)
    then have "data_offset j + length (sector c j) \<le> crypto_bytes (length c) L"
      using area_inside [OF L] sector_of_longer [OF j(1) refl, of L] by (metis area_offset.simps(1))
    moreover have "length (sector c j) \<le> 4096" by (simp add: length_sector)
    ultimately show ?thesis using j(2,3) by linarith
  qed
  moreover have "length (snd w) \<le> 4096 \<and> fst w + length (snd w) \<le> crypto_bytes (length c) L" if "final_record s offs (length c) L w" for w
    using final_record_area [OF L that] area_inside [OF L] area_length_le by metis
  ultimately show ?thesis using recs ws by fastforce
qed

lemma ready_stored:
  assumes env: "env_ok env" and r: "ready env c s recs p offs L" and ws: "\<forall>w \<in> set ws. final_record s offs (length c) L w"
    and groups: "\<forall>g \<in> (\<lambda>a. lsectorid (inlog s a) div 128) ` set (inorder (sectorsinlog s)). \<exists>data. (area_offset (length c) L (Auth_sector 0 g), data) \<in> set ws"
  shows "stored_file env (replayed_file (crypto_bytes (length c) L) (recs @ ws) (datafile s)) c"
proof -
  have tree: "tree_ok s" using r by (simp add: ready_def finalisable_def)
  have g: "\<exists>data. (area_offset (length c) L (Auth_sector 0 (i div 128)), data) \<in> set ws" if i: "i < 2 ^ 31" "in_log s i \<noteq> None" for i
  proof -
    obtain se where "in_log s i = Some se" using i(2) by blast
    then obtain a where "a \<in> set (inorder (sectorsinlog s))" "lsectorid (inlog s a) = i" using in_log_iff [OF tree i(1)] by auto
    then show ?thesis using groups by auto
  qed
  have "sector_stored env (replayed_file (crypto_bytes (length c) L) (recs @ ws) (datafile s)) (offsets_of (length c) L) c i" if i: "4096 * i < length c" for i
    by (rule finalised_sector [OF env, where m = "length p" and p = p and offs = offs]) (use r ws g i in \<open>simp_all add: ready_def\<close>)
  then show ?thesis using r by (simp add: stored_file_def ready_def replayed_file_def)
qed

text \<open>The first half: the log is completed; replaying it gives a data file that stores the content.\<close>

definition completed :: "file_env \<Rightarrow> byte list \<Rightarrow> openfile \<Rightarrow> openfile \<Rightarrow> bool" where
  "completed env c s s' \<longleftrightarrow> same_file s s' \<and> (\<exists>lf fsize recs. logfile s' = Some lf \<and> complete_log env lf fsize recs \<and> fsize < 2 ^ 64 \<and>
     (\<forall>(o1, d) \<in> set recs. length d \<le> 4096 \<and> o1 + length d \<le> fsize) \<and> stored_file env (replayed_file fsize recs (datafile s)) c)"

lemma runs_complete:
  assumes env: "env_ok env" and r: "ready env c s recs p offs L" and room: "logoffset s \<le> 2 ^ 29"
  shows "runs (psync_fs_write_auth_tree_to_log env (offsets_of (length c) L)) s
    (\<lambda>_ s1. newfile s1 \<and> runs (psync_fs_crypto_mark_log_finalized env (crypto_bytes (length c) L)) s1 (\<lambda>_. completed env c s))"
proof -
  let ?n = "length c" and ?N = "crypto_bytes (length c) L" and ?G = "(\<lambda>a. lsectorid (inlog s a) div 128) ` set (inorder (sectorsinlog s))"
  have parts: "log_ok env s recs" "finalisable s offs (length p) ?n" "sized ?n L" "?N < 2 ^ 49" using r by (simp_all add: ready_def)
  have N: "?N < 2 ^ 64" using parts(4) by simp
  note few = ready_room [OF r room]
  show ?thesis
  proof (rule runs_mono [OF runs_write_auth_tree [OF env parts(3,2,1) few]], elim conjE)
    fix s1
    assume s1: "progress env s offs ?n L recs ?G s1" "logoffset s1 \<le> logoffset s + 20560 * (length (inorder (sectorsinlog s)) + 1) + 48"
    obtain ws where ws: "same_file s s1" "log_ok env s1 (recs @ ws)" "\<forall>w \<in> set ws. final_record s offs ?n L w"
        "\<forall>g \<in> ?G. \<exists>data. (area_offset ?n L (Auth_sector 0 g), data) \<in> set ws" using s1(1) by (auto simp: progress_def)
    have small: "logoffset s1 < 2 ^ 33" using s1(2) few by simp
    have "completed env c s s2" if s2: "same_file s1 s2" "\<exists>lf. logfile s2 = Some lf \<and> complete_log env lf ?N (recs @ ws)" for s2
      unfolding completed_def using s2 N ready_fits [OF r ws(3)] ready_stored [OF env r ws(3,4)] same_file_trans [OF ws(1) s2(1)] by blast
    moreover have "newfile s1" using same_file_simps(6) [OF ws(1)] parts(2) by (simp add: finalisable_def)
    ultimately show "newfile s1 \<and> runs (psync_fs_crypto_mark_log_finalized env ?N) s1 (\<lambda>_. completed env c s)"
      by (intro conjI runs_mono [OF runs_mark [OF env ws(2) small N]]) blast+
  qed
qed

text \<open>The second half: the log is moved away and replayed.\<close>

lemma file_ok_emptied:
  assumes "newfile s" "sectorsinlog s = Null" "logfile s = Some (replicate 4096 0xff)" "logoffset s = 4096"
    "loghashctx s = fh_init (hashing env)" "stored_file env (datafile s) c" "currentsize s = length c" "length c \<le> 2 ^ 43"
  shows "file_ok env c s"
proof -
  have "log_ok env s []" unfolding log_ok_def using assms by (intro conjI exI [of _ "replicate 4096 0xff"] exI [of _ "[]"]) simp_all
  moreover have "tree_ok s" "in_log s i = None" for i using assms(2) by (simp_all add: tree_ok_def in_log_def)
  ultimately show ?thesis using assms by (auto simp: file_ok_def content_ok_def)
qed

lemma runs_replay_complete:
  assumes env: "env_ok env" and s1: "completed env c s s1" and ok: "newfile s" "currentsize s = length c" "length c \<le> 2 ^ 43"
  shows "runs (op_bind (finalize_switch_logs env) (\<lambda>_. op_bind (op_try (psync_fs_crypto_log_flush_and_process env)) (\<lambda>rc. op_bind file_call (\<lambda>bad.
      op_bind (op_modify (\<lambda>s. if bad then s else s\<lparr>flog := None\<rparr>)) (\<lambda>_. if rc \<noteq> 0 then op_error rc else op_return ()))))) s1
    (\<lambda>_ s'. file_ok env c s' \<and> logoffset s' = 4096)"
proof (rule runs_bind, rule runs_switch_logs)
  fix fs
  obtain lf fsize recs where lf: "logfile s1 = Some lf" "complete_log env lf fsize recs" "fsize < 2 ^ 64"
      "\<forall>(o1, d) \<in> set recs. length d \<le> 4096 \<and> o1 + length d \<le> fsize" "stored_file env (replayed_file fsize recs (datafile s)) c" "same_file s s1"
    using s1 by (auto simp: completed_def)
  note same = same_file_simps [OF lf(6)]
  let ?s3 = "s1\<lparr>flog := logfile s1, logfile := Some (replicate 4096 0xff), logoffset := 4096, loghashctx := fh_init (hashing env), sectorsinlog := Null, pending := fs\<rparr>"
  show "runs (op_bind (op_try (psync_fs_crypto_log_flush_and_process env)) (\<lambda>rc. op_bind file_call (\<lambda>bad.
      op_bind (op_modify (\<lambda>s. if bad then s else s\<lparr>flog := None\<rparr>)) (\<lambda>_. if rc \<noteq> 0 then op_error rc else op_return ())))) ?s3
      (\<lambda>_ s'. file_ok env c s' \<and> logoffset s' = 4096)"
  proof (rule runs_try)
    show "runs (psync_fs_crypto_log_flush_and_process env) ?s3 (\<lambda>_ s'. file_ok env c s' \<and> logoffset s' = 4096)"
    proof (rule runs_flush_and_process [OF env _ lf(2,3,4)], goal_cases)
      case (3 ifd fs2)
      have "file_ok env c (?s3\<lparr>datafile := replayed_file fsize recs (datafile ?s3), indexfile := ifd, pending := fs2\<rparr>)"
        by (rule file_ok_emptied) (use same ok lf(5) in simp_all)
      then show ?case by simp
    qed (use same ok lf(1) in simp_all)
  next
    fix s4
    assume "file_ok env c s4 \<and> logoffset s4 = 4096"
    then show "runs (op_bind file_call (\<lambda>bad. op_bind (op_modify (\<lambda>s. if bad then s else s\<lparr>flog := None\<rparr>)) (\<lambda>_. if 0 \<noteq> (0::int) then op_error 0 else op_return ()))) s4
        (\<lambda>_ s'. file_ok env c s' \<and> logoffset s' = 4096)"
      by (intro runs_file_call disjI1 runs_bind_modify) (simp_all add: runs_return)
  next
    fix s4
    show "fails (op_bind file_call (\<lambda>bad. op_bind (op_modify (\<lambda>s. if bad then s else s\<lparr>flog := None\<rparr>)) (\<lambda>_. if - EIO \<noteq> 0 then op_error (- EIO) else op_return ()))) s4"
      by (auto simp: fails_def op_bind_def file_call_def op_modify_def op_error_def split: prod.splits)
  qed
qed

lemma runs_finalize:
  assumes env: "env_ok env" and ok: "file_ok env c s" and c: "c \<noteq> []" and room: "logoffset s \<le> 2 ^ 29"
  shows "runs (psync_fs_crypto_finalize_log env) s (\<lambda>_ s'. file_ok env c s' \<and> logoffset s' = 4096)"
proof -
  have content: "content_ok env c s" "currentsize s = length c" "length c \<le> 2 ^ 43" "newfile s" using ok by (simp_all add: file_ok_def content_ok_def)
  obtain recs p offs L where r: "ready env c s recs p offs L" using content_ready [OF content(1) c] by blast
  let ?N = "crypto_bytes (length c) L"
  have L: "psync_fs_crypto_offsets_by_plainsize (length c) = Some (offsets_of (length c) L)" "crypto_file_size (offsets_of (length c) L) = ?N"
    using r by (simp_all add: ready_def)
  let ?replay = "op_bind (finalize_switch_logs env) (\<lambda>_. op_bind (op_try (psync_fs_crypto_log_flush_and_process env)) (\<lambda>rc. op_bind file_call (\<lambda>bad.
      op_bind (op_modify (\<lambda>s. if bad then s else s\<lparr>flog := None\<rparr>)) (\<lambda>_. if rc \<noteq> 0 then op_error rc else op_return ()))))"
  let ?body = "op_bind (psync_fs_write_auth_tree_to_log env (offsets_of (length c) L)) (\<lambda>_. op_bind (op_get newfile) (\<lambda>isnew.
       op_bind (if \<not> isnew then psync_fs_write_interval_tree_to_log env else op_return ()) (\<lambda>_.
       op_bind (psync_fs_crypto_mark_log_finalized env ?N) (\<lambda>_. ?replay))))"
  have body: "runs ?body s2 (\<lambda>_ s'. file_ok env c s' \<and> logoffset s' = 4096)" if s2: "s2 = s\<lparr>pending := fs\<rparr>" for s2 fs
  proof -
    have r2: "ready env c s2 recs p offs L" "logoffset s2 \<le> 2 ^ 29" using r room s2 by simp_all
    have f2: "newfile s2" "currentsize s2 = length c" using content s2 by simp_all
    show ?thesis
    proof (rule runs_bind, rule runs_mono [OF runs_complete [OF env r2]], elim conjE)
      fix s1
      assume s1: "newfile s1" "runs (psync_fs_crypto_mark_log_finalized env ?N) s1 (\<lambda>_. completed env c s2)"
      have "runs (op_bind (psync_fs_crypto_mark_log_finalized env ?N) (\<lambda>_. ?replay)) s1 (\<lambda>_ s'. file_ok env c s' \<and> logoffset s' = 4096)"
        by (rule runs_bind, rule runs_mono [OF s1(2)]) (rule runs_replay_complete [OF env _ f2 content(3)])
      then show "runs (op_bind (op_get newfile) (\<lambda>isnew. op_bind (if \<not> isnew then psync_fs_write_interval_tree_to_log env else op_return ()) (\<lambda>_.
          op_bind (psync_fs_crypto_mark_log_finalized env ?N) (\<lambda>_. ?replay)))) s1 (\<lambda>_ s'. file_ok env c s' \<and> logoffset s' = 4096)"
        using s1(1) by simp
    qed
  qed
  let ?skip = "\<lambda>dsize. if logoffset s = 4096 \<and> int ?N = dsize mod 2 ^ 64 then op_return () else ?body"
  have skip: "runs (?skip dsize) (s\<lparr>pending := fs\<rparr>) (\<lambda>_ s'. file_ok env c s' \<and> logoffset s' = 4096)" for dsize fs
    using body [of "s\<lparr>pending := fs\<rparr>" fs] ok by (auto intro!: runs_return)
  have "runs (op_bind (if logoffset s = 4096 then data_size else op_return (-1)) ?skip) s (\<lambda>_ s'. file_ok env c s' \<and> logoffset s' = 4096)"
  proof (cases "logoffset s = 4096")
    case True
    show ?thesis unfolding if_P [OF True] by (rule runs_data_size_any) (rule skip)
  next
    case False
    then show ?thesis using skip [of "-1" "pending s"] by simp
  qed
  then show ?thesis
    unfolding psync_fs_crypto_finalize_log_def psync_fs_crypto_do_finalize_log_def runs_bind_get content(2)
    by (intro runs_bind_some [OF L(1)]) (simp only: runs_bind_get L(2))
qed

subsection \<open>A new file is a list of bytes\<close>

lemma runs_write_newfile:
  assumes env: "env_ok env" and ok: "file_ok env c s" and off: "off + length buf \<le> 2 ^ 43" and much: "length buf + (off - length c) \<le> 2 ^ 28"
    and room: "logoffset s < PSYNC_CRYPTO_MAX_LOG_SIZE"
  shows "runs (psync_fs_crypto_write_newfile_locked env buf off) s
    (\<lambda>n s'. n = length buf \<and> file_ok env (file_write off buf c) s' \<and> logoffset s' < PSYNC_CRYPTO_MAX_LOG_SIZE)"
proof -
  have noerr: "wrap64 (length buf + off + 4096 - 1) div 4096 \<le> PSYNC_CRYPTO_MAX_SECTORID" using off by (simp add: wrap64_def)
  show ?thesis
  proof (cases "buf = []")
    case True
    then show ?thesis
      using noerr ok room by (simp add: psync_fs_crypto_write_newfile_locked_def psync_fs_crypto_write_newfile_locked_nu_def runs_return)
  next
    case False
    define k where "k = length buf div 4096 + 1"
    define h where "h = (off - length c) div 4096 + 1"
    have up: "a \<le> 4096 * (a div 4096 + 1)" for a :: nat using dividend_less_times_div [of 4096 a] by simp
    have k: "length buf \<le> 4096 * k" "off \<le> length c + 4096 * h" using up [of "length buf"] up [of "off - length c"] by (simp_all add: k_def h_def)
    have "4096 * (h + k) \<le> 2 ^ 28 + 8192"
      using much div_times_less_eq_dividend [of "length buf" 4096] div_times_less_eq_dividend [of "off - length c" 4096] unfolding k_def h_def by simp
    then have hk: "h + k \<le> 65538" by simp
    have "runs (write_before_finalize env buf off) s (\<lambda>_. wrote env (file_write off buf c) s (h + k + 2))"
      using hk room by (intro runs_write_before_finalize [OF env ok off False k]) simp
    moreover have "runs (op_bind (op_get logoffset) (\<lambda>logoff. op_bind (if logoff \<ge> PSYNC_CRYPTO_MAX_LOG_SIZE then psync_fs_crypto_finalize_log env else op_return ())
        (\<lambda>_. op_return (length buf)))) s' (\<lambda>n s'. n = length buf \<and> file_ok env (file_write off buf c) s' \<and> logoffset s' < PSYNC_CRYPTO_MAX_LOG_SIZE)"
      if s': "wrote env (file_write off buf c) s (h + k + 2) s'" for s'
    proof -
      have w: "file_ok env (file_write off buf c) s'" "logoffset s' \<le> logoffset s + 4112 * (h + k + 2)" using s' by (simp_all add: wrote_def)
      have ne: "file_write off buf c \<noteq> []" using False by (simp add: file_write_def)
      have "logoffset s' \<le> 2 ^ 29" using w(2) hk room by simp
      then have "runs (psync_fs_crypto_finalize_log env) s' (\<lambda>_ s2. file_ok env (file_write off buf c) s2 \<and> logoffset s2 = 4096)"
        by (rule runs_finalize [OF env w(1) ne])
      then show ?thesis using w(1) by (auto intro!: runs_bind runs_return elim!: runs_mono)
    qed
    ultimately show ?thesis
      unfolding psync_fs_crypto_write_newfile_locked_def write_newfile_split [OF noerr False] by (intro runs_bind) (elim runs_mono)
  qed
qed

text \<open>Requests of the file system to an open file, and what a list of bytes answers.\<close>

datatype request = Read_request nat nat | Write_request nat "byte list"

fun serve :: "file_env \<Rightarrow> request \<Rightarrow> byte list op" where
  "serve env (Read_request off len) = psync_fs_crypto_read_newfile_locked env len off"
| "serve env (Write_request off buf) = op_bind (psync_fs_crypto_write_newfile_locked env buf off) (\<lambda>_. op_return [])"

fun serve_all :: "file_env \<Rightarrow> request list \<Rightarrow> byte list list op" where
  "serve_all env [] = op_return []"
| "serve_all env (r # rs) = op_bind (serve env r) (\<lambda>b. op_bind (serve_all env rs) (\<lambda>bs. op_return (b # bs)))"

fun answer :: "request \<Rightarrow> byte list \<Rightarrow> byte list" where
  "answer (Read_request off len) c = take len (drop off c)"
| "answer (Write_request off buf) c = []"

fun content_after :: "request \<Rightarrow> byte list \<Rightarrow> byte list" where
  "content_after (Read_request off len) c = c"
| "content_after (Write_request off buf) c = file_write off buf c"

fun answers :: "request list \<Rightarrow> byte list \<Rightarrow> byte list list" where
  "answers [] c = []"
| "answers (r # rs) c = answer r c # answers rs (content_after r c)"

text \<open>Requests inside 8 TiB; one write puts down at most 256 MiB, the hole before it included, so that the log stays below the 4 GiB its offset can count.\<close>

fun allowed :: "request list \<Rightarrow> byte list \<Rightarrow> bool" where
  "allowed [] c \<longleftrightarrow> True"
| "allowed (Read_request off len # rs) c \<longleftrightarrow> off + len \<le> 2 ^ 43 \<and> allowed rs c"
| "allowed (Write_request off buf # rs) c \<longleftrightarrow> off + length buf \<le> 2 ^ 43 \<and> length buf + (off - length c) \<le> 2 ^ 28 \<and> allowed rs (file_write off buf c)"

lemma allowed_rest: "allowed (r # rs) c \<Longrightarrow> allowed rs (content_after r c)"
  by (cases r) simp_all

lemma runs_serve:
  assumes "env_ok env" and "file_ok env c s" and "logoffset s < PSYNC_CRYPTO_MAX_LOG_SIZE" and "allowed (r # rs) c"
  shows "runs (serve env r) s (\<lambda>b s'. b = answer r c \<and> file_ok env (content_after r c) s' \<and> logoffset s' < PSYNC_CRYPTO_MAX_LOG_SIZE)"
proof (cases r)
  case (Read_request off len)
  have "runs (psync_fs_crypto_read_newfile_locked env len off) s (read_result c s len off)"
    using assms(2,4) Read_request by (intro runs_read_newfile) simp_all
  moreover have "b = take len (drop off c) \<and> file_ok env c s' \<and> logoffset s' < PSYNC_CRYPTO_MAX_LOG_SIZE" if r: "read_result c s len off b s'" for b s'
  proof -
    have s': "s' = s\<lparr>pending := pending s'\<rparr>" using r by (simp add: read_result_def)
    have "file_ok env c s'" by (subst s') (use assms(2) in simp)
    moreover have "logoffset s' < PSYNC_CRYPTO_MAX_LOG_SIZE" by (subst s') (use assms(3) in simp)
    ultimately show ?thesis using r by (simp add: read_result_def)
  qed
  ultimately show ?thesis unfolding Read_request serve.simps answer.simps content_after.simps by (elim runs_mono) blast
next
  case (Write_request off buf)
  have "runs (psync_fs_crypto_write_newfile_locked env buf off) s
      (\<lambda>n s'. n = length buf \<and> file_ok env (file_write off buf c) s' \<and> logoffset s' < PSYNC_CRYPTO_MAX_LOG_SIZE)"
    using assms Write_request by (intro runs_write_newfile) simp_all
  then show ?thesis unfolding Write_request serve.simps answer.simps content_after.simps by (intro runs_bind) (auto elim!: runs_mono intro!: runs_return)
qed

lemma runs_serve_all:
  assumes env: "env_ok env"
  shows "file_ok env c s \<Longrightarrow> logoffset s < PSYNC_CRYPTO_MAX_LOG_SIZE \<Longrightarrow> allowed rs c \<Longrightarrow>
    runs (serve_all env rs) s (\<lambda>bs s'. bs = answers rs c \<and> file_ok env (fold content_after rs c) s' \<and> logoffset s' < PSYNC_CRYPTO_MAX_LOG_SIZE)"
proof (induction rs arbitrary: c s)
  case (Cons r rs)
  have rest: "runs (serve_all env rs) s' (\<lambda>bs s'. bs = answers rs (content_after r c) \<and> file_ok env (fold content_after rs (content_after r c)) s' \<and>
      logoffset s' < PSYNC_CRYPTO_MAX_LOG_SIZE)"
    if "file_ok env (content_after r c) s'" "logoffset s' < PSYNC_CRYPTO_MAX_LOG_SIZE" for s'
    using Cons.IH that allowed_rest [OF Cons.prems(3)] by blast
  have "runs (op_bind (serve_all env rs) (\<lambda>bs. op_return (answer r c # bs))) s' (\<lambda>bs s'. bs = answers (r # rs) c \<and>
      file_ok env (fold content_after (r # rs) c) s' \<and> logoffset s' < PSYNC_CRYPTO_MAX_LOG_SIZE)"
    if "file_ok env (content_after r c) s'" "logoffset s' < PSYNC_CRYPTO_MAX_LOG_SIZE" for s'
    by (rule runs_bind, rule runs_mono [OF rest [OF that]]) (simp add: runs_return)
  then show ?case
    unfolding serve_all.simps by (intro runs_bind, intro runs_mono [OF runs_serve [OF env Cons.prems]]) simp
qed (simp add: runs_return)

lemma runs_result:
  "runs m s Q \<Longrightarrow> \<exists>r s'. m s = Some (r, s') \<and> (r = Inl (- EIO) \<or> (\<exists>x. r = Inr x \<and> Q x s')) \<and> (pending s = [] \<longrightarrow> (\<exists>x. r = Inr x \<and> Q x s'))"
proof -
  assume "runs m s Q"
  then obtain r s' where "m s = Some (r, s')" "case r of Inl e \<Rightarrow> e = - EIO | Inr x \<Rightarrow> Q x s'" "pending s = [] \<longrightarrow> (\<exists>x. r = Inr x)"
    by (auto simp: runs_def)
  then show ?thesis by (cases r) auto
qed

text \<open>A file that was just created: the data file and the log are empty.\<close>

definition created :: "openfile \<Rightarrow> bool" where
  "created s \<longleftrightarrow> newfile s \<and> datafile s = [] \<and> currentsize s = 0 \<and> sectorsinlog s = Null \<and> logfile s = Some []"

lemma runs_created:
  assumes env: "env_ok env" and s: "created s"
  shows "runs (psync_fs_crypto_init_log env) s (\<lambda>_ s'. file_ok env [] s' \<and> logoffset s' = 4096)"
proof -
  have ff: "file_write 0 (replicate 4096 0xff) [] = replicate 4096 0xff" by (simp add: file_write_def)
  have zero: "psync_fs_crypto_offsets_by_plainsize 0 = Some zero_offsets" "crypto_file_size zero_offsets = 0"
    by (simp_all add: psync_fs_crypto_offsets_by_plainsize_def zero_offsets_def crypto_file_size_def wrap64_def)
  show ?thesis
    unfolding psync_fs_crypto_init_log_def
  proof (rule runs_log_pwrite)
    fix fs
    have "file_ok env [] (s\<lparr>logfile := Some (file_write 0 (replicate 4096 0xff) []), pending := fs, logoffset := 4096, loghashctx := fh_init (hashing env)\<rparr>)"
      by (rule file_ok_emptied) (use s zero ff in \<open>simp_all add: created_def stored_file_def\<close>)
    then show "runs (op_modify (\<lambda>s. s\<lparr>logoffset := 4096, loghashctx := fh_init (hashing env)\<rparr>))
        (s\<lparr>logfile := Some (file_write 0 (replicate 4096 0xff) []), pending := fs\<rparr>) (\<lambda>_ s'. file_ok env [] s' \<and> logoffset s' = 4096)"
      by (simp add: runs_modify)
  qed (use s in \<open>simp_all add: created_def\<close>)
qed

lemma runs_session:
  assumes env: "env_ok env" and s: "created s" and rs: "allowed rs []"
  shows "runs (op_bind (psync_fs_crypto_init_log env) (\<lambda>_. serve_all env rs)) s (\<lambda>bs s'. bs = answers rs [] \<and>
    file_ok env (fold content_after rs []) s' \<and> logoffset s' < PSYNC_CRYPTO_MAX_LOG_SIZE)"
  by (rule runs_bind, rule runs_mono [OF runs_created [OF env s]]) (use runs_serve_all [OF env _ _ rs] in simp)

text \<open>With an empty log the data file alone stores the content.\<close>

lemma sectors_eq:
  assumes len: "length p \<le> length c" "length c \<le> 2 ^ 43" and eq: "\<And>i. i < 2 ^ 31 \<Longrightarrow> sector p i = sector c i"
  shows "p = c"
proof (rule nth_equalityI)
  have small: "k div 4096 < 2 ^ 31" if "k < length c" for k using that len(2) by simp
  show lens: "length p = length c"
  proof (rule ccontr)
    assume "length p \<noteq> length c"
    then have less: "length p < length c" using len(1) by simp
    have "length (sector p (length p div 4096)) = length (sector c (length p div 4096))" using eq [OF small [OF less]] by simp
    moreover have "length p - 4096 * (length p div 4096) < 4096" "4096 * (length p div 4096) \<le> length p" by (simp_all add: minus_mult_div_eq_mod)
    ultimately show False using less by (simp add: length_sector min_def split: if_splits)
  qed
  fix k
  assume k: "k < length p"
  let ?i = "k div 4096" and ?q = "k mod 4096"
  have split: "4096 * ?i + ?q = k" by simp
  have "?q < length p - 4096 * ?i" using k split by linarith
  then have "?q < length (sector p ?i)" by (simp add: length_sector)
  moreover have "sector p ?i = sector c ?i" using eq [OF small] k len(1) by simp
  ultimately show "p ! k = c ! k" using sector_nth [of ?q p ?i] sector_nth [of ?q c ?i] by (simp only: split)
qed

lemma emptied_stored:
  assumes ok: "file_ok env c s" and empty: "logoffset s = 4096"
  shows "stored_file env (datafile s) c"
proof -
  have ok': "content_ok env c s" "length c \<le> 2 ^ 43" using ok by (simp_all add: file_ok_def content_ok_def)
  obtain recs where log: "log_ok env s recs" "\<And>i se. i < 2 ^ 31 \<Longrightarrow> in_log s i = Some se \<Longrightarrow> entry_ok env c recs se"
    using ok'(1) unfolding content_ok_def by blast
  obtain p where p: "stored_file env (datafile s) p" "length p \<le> length c" "\<And>i. i < 2 ^ 31 \<Longrightarrow> in_log s i = None \<Longrightarrow> sector p i = sector c i"
    using ok'(1) unfolding content_ok_def by blast
  have "log_bytes recs = []" using log(1) empty by (auto simp: log_ok_def)
  then have "recs = []" by (cases recs) (auto simp: header_bytes_def)
  then have "in_log s i = None" if "i < 2 ^ 31" for i using log(2) [OF that] by (cases "in_log s i") (auto simp: entry_ok_def)
  then have "p = c" using p(3) by (intro sectors_eq [OF p(2) ok'(2)]) simp
  then show ?thesis using p(1) by simp
qed

text \<open>
  C1. A new file, from the creation of its log on, answers a sequence of reads and writes as a list of bytes does (holes before a
  write read as zeros), however often the log is finalised on the way, provided that (1) every request ends within 8 TiB and
  (2) the bytes a write has to put down, its own and those of the hole between the end of the file and its offset, are at most \<open>2 ^ 28\<close>: within
  these limits the log stays far below the \<open>2 ^ 32\<close> bytes its offset can count. If every system call on the data file and on the log
  does what it is asked for, every request is answered, and rightly. If some fail or come short, the sequence either still ends with the right
  answers or the first request that fails reports \<open>-EIO\<close>. In no case does an assertion fail or a loop run out of fuel. Nothing is claimed
  for a larger write: with a hole of 4 GiB or more the offset of the log wraps and its records are written over.
\<close>

theorem newfile_is_a_file:
  assumes "env_ok env" and "created s" and "allowed rs []"
  shows "\<exists>r s'. op_bind (psync_fs_crypto_init_log env) (\<lambda>_. serve_all env rs) s = Some (r, s') \<and>
    (r = Inl (- EIO) \<or> r = Inr (answers rs [])) \<and> (pending s = [] \<longrightarrow> r = Inr (answers rs []))"
  using runs_result [OF runs_session [OF assms]] by auto

definition sample_file_env :: file_env where
  "sample_file_env = \<lparr>hashing = sample_env, fsha = sample_sha, fE = sample_aes, fD = sample_aes, fiv = [1, 2, 3], randoms = (\<lambda>n. replicate 16 (of_nat n)),
     stack_auth = (\<lambda>_. replicate 4096 7), stack_pad = replicate 4 9\<rparr>"

definition sample_file :: openfile where
  "sample_file = \<lparr>datafile = [], indexfile = None, logfile = Some [], logoffset = 0, loghashctx = fh_init sample_env, sectorsinlog = Null,
     inlog = (\<lambda>_. \<lparr>lsectorid = 0, inlogoffset = 0, lauth = []\<rparr>), currentsize = 0, newfile = True, writeintervals = \<lparr>root = Null, ivals = (\<lambda>_. undefined)\<rparr>,
     flog = None, allocated = 0, draws = 0, pending = []\<rparr>"

lemma sample_file_env_ok: "env_ok sample_file_env"
  using sample_ok sample_env_ok by (simp add: env_ok_def sample_file_env_def)

lemma sample_file_created: "created (sample_file\<lparr>pending := fs\<rparr>)"
  by (simp add: created_def sample_file_def)

lemma newfile_is_a_file_witness:
  "\<exists>r s'. op_bind (psync_fs_crypto_init_log sample_file_env) (\<lambda>_. serve_all sample_file_env
       [Write_request 5 [1, 2, 3], Read_request 3 20, Write_request 1 [7], Read_request 0 3]) (sample_file\<lparr>pending := []\<rparr>) = Some (r, s') \<and>
    r = Inr [[], [0, 0, 1, 2, 3], [], [0, 7, 0]]"
proof -
  have a: "answers [Write_request 5 [1, 2, 3], Read_request 3 20, Write_request 1 [7], Read_request 0 3] [] = [[], [0, 0, 1, 2, 3], [], [0, 7, 0]]"
    by (simp add: file_write_def numeral_eq_Suc)
  show ?thesis
    using newfile_is_a_file [OF sample_file_env_ok sample_file_created, of "[Write_request 5 [1, 2, 3], Read_request 3 20, Write_request 1 [7], Read_request 0 3]" "[]"]
    by (simp only: a) simp
qed

lemma runs_session_finalize:
  assumes env: "env_ok env" and s: "created s" and rs: "allowed rs []" and c: "fold content_after rs [] \<noteq> []"
  shows "runs (op_bind (psync_fs_crypto_init_log env) (\<lambda>_. op_bind (serve_all env rs) (\<lambda>_. psync_fs_crypto_finalize_log env))) s
    (\<lambda>_ s'. stored_file env (datafile s') (fold content_after rs []) \<and> logoffset s' = 4096)"
proof -
  let ?c = "fold content_after rs []"
  have fin: "runs (psync_fs_crypto_finalize_log env) s' (\<lambda>_ s'. stored_file env (datafile s') ?c \<and> logoffset s' = 4096)"
    if "file_ok env ?c s'" "logoffset s' < PSYNC_CRYPTO_MAX_LOG_SIZE" for s'
    by (rule runs_mono [OF runs_finalize [OF env that(1) c]]) (use that(2) emptied_stored in auto)
  show ?thesis
    unfolding op_bind_assoc [symmetric] by (rule runs_bind, rule runs_mono [OF runs_session [OF env s rs]]) (use fin in blast)
qed

text \<open>
  C2. Finalising the log of a new file after any such sequence of requests moves the whole content into the data file: the data
  file has the size computed from that of the content, every sector is where the layout says and is accepted by
  \<open>decode_sector\<close> with its authentication block as that part of the content, and the log is empty. Unless a file operation
  fails it succeeds; otherwise the error is \<open>-EIO\<close>. The loops over the sectors end within the fuel, and no assertion fails.
\<close>

theorem finalize_stores_content:
  assumes "env_ok env" and "created s" and "allowed rs []" and "fold content_after rs [] \<noteq> []"
  shows "\<exists>r s'. op_bind (psync_fs_crypto_init_log env) (\<lambda>_. op_bind (serve_all env rs) (\<lambda>_. psync_fs_crypto_finalize_log env)) s = Some (r, s') \<and>
    (r = Inl (- EIO) \<or> r = Inr () \<and> stored_file env (datafile s') (fold content_after rs []) \<and> logoffset s' = 4096) \<and>
    (pending s = [] \<longrightarrow> r = Inr ())"
  using runs_result [OF runs_session_finalize [OF assms]] by auto

lemma finalize_stores_content_witness:
  "\<exists>r s'. op_bind (psync_fs_crypto_init_log sample_file_env) (\<lambda>_. op_bind (serve_all sample_file_env [Write_request 5 [1, 2, 3]])
      (\<lambda>_. psync_fs_crypto_finalize_log sample_file_env)) (sample_file\<lparr>pending := []\<rparr>) = Some (r, s') \<and>
    r = Inr () \<and> stored_file sample_file_env (datafile s') [0, 0, 0, 0, 0, 1, 2, 3]"
proof -
  have c: "fold content_after [Write_request 5 [1, 2, 3]] [] = [0, 0, 0, 0, 0, 1, 2, 3]" by (simp add: file_write_def numeral_eq_Suc)
  show ?thesis
    using finalize_stores_content [OF sample_file_env_ok sample_file_created, of "[Write_request 5 [1, 2, 3]]" "[]"]
    unfolding c by auto
qed

text \<open>A replay that stopped anywhere can be repeated, and the hash in the log fits.\<close>

lemma complete_log_again:
  assumes env: "env_ok env" and s: "completed env c s0 s" and lf: "logfile s = Some lf"
    and run: "psync_fs_crypto_process_log (hashing env) lf (datafile s) (indexfile s) checkhash fs = (rc, dfd1, ifd1, fs1)"
  shows "\<exists>dfd2 ifd2. psync_fs_crypto_process_log (hashing env) lf dfd1 ifd1 checkhash2 [] = (Some 0, dfd2, ifd2, []) \<and> stored_file env dfd2 c"
proof -
  have hash: "hash_env_ok (hashing env)" using env by (simp add: env_ok_def)
  obtain fsize recs where l: "complete_log env lf fsize recs" "fsize < 2 ^ 64" "\<forall>(o1, d) \<in> set recs. length d \<le> 4096 \<and> o1 + length d \<le> fsize"
      "stored_file env (replayed_file fsize recs (datafile s0)) c" "same_file s0 s" using s lf by (auto simp: completed_def)
  have valid: "log_valid (hashing env) lf b" "mlogsize (master_of (take 64 lf)) \<noteq> 2 ^ 64 - 1" for b
    using l(1) by (auto simp: complete_log_def log_valid_def Let_def)
  have flag: "psync_fs_crypto_process_log (hashing env) lf d i checkhash2 [] = psync_fs_crypto_process_log (hashing env) lf d i checkhash []" for d i
    by (simp add: psync_fs_crypto_process_log_def log_check_Full [OF hash valid(1)])
  have again: "psync_fs_crypto_process_log (hashing env) lf dfd1 ifd1 checkhash2 [] = psync_fs_crypto_process_log (hashing env) lf (datafile s) (indexfile s) checkhash []"
    unfolding flag by (rule replay_valid_again [OF hash valid(2) run valid(1)])
  obtain rc2 dfd2 ifd2 fs2 where r: "psync_fs_crypto_process_log (hashing env) lf (datafile s) (indexfile s) checkhash [] = (rc2, dfd2, ifd2, fs2)"
    using prod_cases4 by blast
  have "dfd2 = replayed_file fsize recs (datafile s0)" "rc2 = Some 0" "fs2 = []"
    using replay_complete [OF env l(1,3,2) r] same_file_simps(1) [OF l(5)] by (simp_all add: replayed_file_def)
  then show ?thesis using again r l(4) by simp
qed

text \<open>A session, and then the steps of \<^verbatim>\<open>psync_fs_crypto_do_finalize_log\<close> up to the one that marks the log as complete.\<close>

definition finalize_up_to_mark :: "file_env \<Rightarrow> request list \<Rightarrow> crypto_offsets \<Rightarrow> unit op" where
  "finalize_up_to_mark env rs offs = op_bind (psync_fs_crypto_init_log env) (\<lambda>_. op_bind (serve_all env rs) (\<lambda>_.
     op_bind (psync_fs_write_auth_tree_to_log env offs) (\<lambda>_. psync_fs_crypto_mark_log_finalized env (crypto_file_size offs))))"

lemma runs_up_to_mark:
  assumes "env_ok env" and "created s" and "allowed rs []" and "fold content_after rs [] \<noteq> []"
    and "psync_fs_crypto_offsets_by_plainsize (length (fold content_after rs [])) = Some offs"
  shows "runs (finalize_up_to_mark env rs offs) s (\<lambda>_ s1. \<exists>s0. completed env (fold content_after rs []) s0 s1)"
proof -
  let ?c = "fold content_after rs []"
  have mark: "runs (op_bind (psync_fs_write_auth_tree_to_log env offs) (\<lambda>_. psync_fs_crypto_mark_log_finalized env (crypto_file_size offs))) s'
      (\<lambda>_ s1. \<exists>s0. completed env ?c s0 s1)" if s': "file_ok env ?c s'" "logoffset s' < PSYNC_CRYPTO_MAX_LOG_SIZE" for s'
  proof -
    have "content_ok env ?c s'" using s'(1) by (simp add: file_ok_def)
    then obtain recs p offs0 L where r: "ready env ?c s' recs p offs0 L" using content_ready [OF _ assms(4)] by blast
    then have o: "offs = offsets_of (length ?c) L" "crypto_file_size offs = crypto_bytes (length ?c) L" using assms(5) by (auto simp: ready_def)
    have room: "logoffset s' \<le> 2 ^ 29" using s'(2) by simp
    show ?thesis
      unfolding o(2) unfolding o(1)
      by (rule runs_bind, rule runs_mono [OF runs_complete [OF assms(1) r room]], elim conjE, erule runs_mono) blast
  qed
  show ?thesis
    unfolding finalize_up_to_mark_def op_bind_assoc [symmetric, of "psync_fs_crypto_init_log env"]
    by (rule runs_bind, rule runs_mono [OF runs_session [OF assms(1,2,3)]]) (use mark in blast)
qed

text \<open>
  C5. No crash while the log is replayed loses anything: once the log of a new file is marked as complete, a replay of it that any
  file operations fail in or cut short leaves files from which replaying the log again, as the next start does with its
  hash checked, gives a data file that stores the whole content.
\<close>

theorem finalize_survives_crash:
  assumes "env_ok env" and "created s" and "allowed rs []" and "fold content_after rs [] \<noteq> []"
    and "psync_fs_crypto_offsets_by_plainsize (length (fold content_after rs [])) = Some offs"
  shows "\<exists>r s1. finalize_up_to_mark env rs offs s = Some (r, s1) \<and> (pending s = [] \<longrightarrow> r = Inr ()) \<and> (r = Inl (- EIO) \<or>
    r = Inr () \<and> (\<forall>checkhash fs. case psync_fs_crypto_process_log (hashing env) (the (logfile s1)) (datafile s1) (indexfile s1) checkhash fs of
      (rc, dfd1, ifd1, fs1) \<Rightarrow> \<exists>dfd2 ifd2. psync_fs_crypto_process_log (hashing env) (the (logfile s1)) dfd1 ifd1 True [] = (Some 0, dfd2, ifd2, []) \<and>
        stored_file env dfd2 (fold content_after rs [])))"
proof -
  have "\<exists>dfd2 ifd2. psync_fs_crypto_process_log (hashing env) (the (logfile s1)) dfd1 ifd1 True [] = (Some 0, dfd2, ifd2, []) \<and>
      stored_file env dfd2 (fold content_after rs [])"
    if s0: "completed env (fold content_after rs []) s0 s1"
      and run: "psync_fs_crypto_process_log (hashing env) (the (logfile s1)) (datafile s1) (indexfile s1) checkhash fs = (rc, dfd1, ifd1, fs1)"
    for s0 s1 checkhash fs rc dfd1 ifd1 fs1
  proof -
    obtain lf where "logfile s1 = Some lf" using s0 by (auto simp: completed_def)
    then show ?thesis using complete_log_again [OF assms(1) s0] run by simp
  qed
  then show ?thesis using runs_result [OF runs_up_to_mark [OF assms]] by (fastforce split: prod.splits)
qed

lemma finalize_survives_crash_witness:
  "\<exists>s1. finalize_up_to_mark sample_file_env [Write_request 5 [1, 2, 3]] (offsets_of 8 1) (sample_file\<lparr>pending := []\<rparr>) = Some (Inr (), s1) \<and>
    (case psync_fs_crypto_process_log (hashing sample_file_env) (the (logfile s1)) (datafile s1) (indexfile s1) False [Full, Full, Short 3] of
      (rc, dfd1, ifd1, fs1) \<Rightarrow> \<exists>dfd2 ifd2. psync_fs_crypto_process_log (hashing sample_file_env) (the (logfile s1)) dfd1 ifd1 True [] = (Some 0, dfd2, ifd2, []) \<and>
        stored_file sample_file_env dfd2 [0, 0, 0, 0, 0, 1, 2, 3])"
proof -
  have c: "fold content_after [Write_request 5 [1, 2, 3]] [] = [0, 0, 0, 0, 0, 1, 2, 3]" by (simp add: file_write_def numeral_eq_Suc)
  have len: "length [0, 0, 0, 0, 0, 1, 2, 3 :: byte] = 8" by simp
  have o: "psync_fs_crypto_offsets_by_plainsize (length [0, 0, 0, 0, 0, 1, 2, 3 :: byte]) = Some (offsets_of 8 1)"
  proof -
    obtain L where "sized 8 L" "psync_fs_crypto_offsets_by_plainsize 8 = Some (offsets_of 8 L)" by (rule layout_sized [of 8]) simp_all
    moreover have "L = 1"
    proof (rule ccontr)
      assume "L \<noteq> 1"
      then have "1 < nsect 8 (Suc 0)" using \<open>sized 8 L\<close> by (simp add: sized_def is_height_def)
      then show False by (simp add: nsect.simps)
    qed
    ultimately show ?thesis unfolding len by simp
  qed
  show ?thesis
    using finalize_survives_crash [OF sample_file_env_ok sample_file_created, of "[Write_request 5 [1, 2, 3]]" "offsets_of 8 1" "[]"] o
    unfolding c by auto
qed

end
