(* ===== verification/Pblockhash.thy ===== *)
theory Pblockhash
  imports Prelude
begin

section \<open>Checksums of blocks: Adler-32, rolling, and the hash table of a file's blocks\<close>

text \<open>
  The first half of the delta transfer of \<^verbatim>\<open>pnetlibs.c\<close>: the checksum \<^verbatim>\<open>adler32\<close> of a block and its step by one byte
  (\<^verbatim>\<open>adler32_roll\<close>), and the open hash table \<^verbatim>\<open>psync_file_checksum_hash\<close> from the checksums of a remote file to the numbers of its
  blocks: \<^verbatim>\<open>psync_net_create_hash\<close>, the two lookups and \<^verbatim>\<open>psync_net_hash_remove\<close>. A slot holds the number of a block plus one, or
  0. The loops that may not end are partial functions: \<open>None\<close> is not returning.
\<close>

unbundle bit_operations_syntax

subsection \<open>Adler-32\<close>

abbreviation ADLER32_BASE :: nat where "ADLER32_BASE \<equiv> 65521"
abbreviation ADLER32_NMAX :: nat where "ADLER32_NMAX \<equiv> 5552"
abbreviation ADLER32_INITIAL :: u32 where "ADLER32_INITIAL \<equiv> 1"

definition ADLER32_1 :: "u32 \<times> u32 \<Rightarrow> byte \<Rightarrow> u32 \<times> u32" where
  "ADLER32_1 st b = (let adler = fst st + ucast b in (adler, snd st + adler))"

definition ADLER32_16 :: "u32 \<times> u32 \<Rightarrow> byte list \<Rightarrow> u32 \<times> u32" where
  "ADLER32_16 st buff = foldl ADLER32_1 st (take 16 buff)"

fun adler_rounds :: "nat \<Rightarrow> u32 \<times> u32 \<Rightarrow> byte list \<Rightarrow> (u32 \<times> u32) \<times> byte list" where
  "adler_rounds 0 st buff = (st, buff)"
| "adler_rounds (Suc i) st buff = adler_rounds i (ADLER32_16 st buff) (drop 16 buff)"

definition adler_mod :: "u32 \<times> u32 \<Rightarrow> u32 \<times> u32" where
  "adler_mod st = (fst st mod of_nat ADLER32_BASE, snd st mod of_nat ADLER32_BASE)"

lemma drop_adler_rounds: "snd (adler_rounds i st buff) = drop (16 * i) buff"
  by (induction i arbitrary: st buff) (simp_all add: add.commute)

function adler_long :: "u32 \<times> u32 \<Rightarrow> byte list \<Rightarrow> (u32 \<times> u32) \<times> byte list" where
  "adler_long st buff =
     (if ADLER32_NMAX \<le> length buff
      then case adler_rounds (ADLER32_NMAX div 16) st buff of (st, buff') \<Rightarrow> adler_long (adler_mod st) buff'
      else (st, buff))"
  by pat_completeness auto
termination
  by (relation "measure (\<lambda>(st, buff). length buff)") (auto dest: arg_cong [where f = snd] simp: drop_adler_rounds)

declare adler_long.simps [simp del]

function adler_tail :: "u32 \<times> u32 \<Rightarrow> byte list \<Rightarrow> (u32 \<times> u32) \<times> byte list" where
  "adler_tail st buff = (if 16 \<le> length buff then adler_tail (ADLER32_16 st buff) (drop 16 buff) else (st, buff))"
  by pat_completeness auto
termination
  by (relation "measure (\<lambda>(st, buff). length buff)") auto

declare adler_tail.simps [simp del]

definition adler32 :: "u32 \<Rightarrow> byte list \<Rightarrow> u32" where
  "adler32 adler buff =
     (case adler_long (adler AND 0xffff, drop_bit 16 adler) buff of (st, buff) \<Rightarrow>
      case adler_tail st buff of (st, buff) \<Rightarrow>
      case adler_mod (foldl ADLER32_1 st buff) of (adler, s) \<Rightarrow> adler OR push_bit 16 s)"

definition adler32_roll :: "u32 \<Rightarrow> byte \<Rightarrow> byte \<Rightarrow> u32 \<Rightarrow> u32" where
  "adler32_roll adler byteout bytein len =
     (let s = drop_bit 16 adler;
          adler = (adler AND 0xffff) + (of_nat ADLER32_BASE + ucast bytein - ucast byteout);
          s = (of_nat ADLER32_BASE * of_nat ADLER32_BASE + s - len * ucast byteout - ADLER32_INITIAL + adler) mod of_nat ADLER32_BASE
      in adler mod of_nat ADLER32_BASE OR push_bit 16 s)"

text \<open>The two sums as numbers, not reduced.\<close>

definition adler_sums :: "nat \<times> nat \<Rightarrow> byte list \<Rightarrow> nat \<times> nat" where
  "adler_sums st w = foldl (\<lambda>(a, s) b. (a + unat b, s + (a + unat b))) st w"

definition adler_pack :: "nat \<times> nat \<Rightarrow> u32" where
  "adler_pack st = of_nat (fst st mod ADLER32_BASE + 65536 * (snd st mod ADLER32_BASE))"

lemma adler_sums_simps [simp]:
  "adler_sums st [] = st" "adler_sums st (b # w) = adler_sums (fst st + unat b, snd st + (fst st + unat b)) w"
  "adler_sums st (v @ w) = adler_sums (adler_sums st v) w"
  by (cases st; simp add: adler_sums_def)+

lemma adler_sums_closed:
  "adler_sums (a, s) w = (a + sum_list (map unat w), s + length w * a + snd (adler_sums (0, 0) w))"
proof (induction w arbitrary: a s)
  case (Cons b w)
  show ?case
    using Cons.IH [of "a + unat b" "s + (a + unat b)"] Cons.IH [of "unat b" "unat b"] by (simp add: algebra_simps)
qed simp

lemma unat_byte_le: "unat (b :: byte) \<le> 255"
  using unat_byte_less [of b] by linarith

lemma sum_bytes_le: "sum_list (map unat w) \<le> 255 * length (w :: byte list)"
proof (induction w)
  case (Cons b w)
  then show ?case using unat_byte_le [of b] by simp
qed simp

lemma adler_sums_bound: "2 * snd (adler_sums (0, 0) w) \<le> 255 * (length w * (length w + 1))"
proof (induction w)
  case (Cons b w)
  have "(length w + 1) * unat b \<le> (length w + 1) * 255" using unat_byte_le by (intro mult_left_mono) auto
  then show ?case using Cons adler_sums_closed [of "unat b" "unat b" w] by (simp add: algebra_simps)
qed simp

lemma adler_sums_cong:
  "a mod ADLER32_BASE = a' mod ADLER32_BASE \<Longrightarrow> s mod ADLER32_BASE = s' mod ADLER32_BASE \<Longrightarrow>
   fst (adler_sums (a, s) w) mod ADLER32_BASE = fst (adler_sums (a', s') w) mod ADLER32_BASE \<and>
   snd (adler_sums (a, s) w) mod ADLER32_BASE = snd (adler_sums (a', s') w) mod ADLER32_BASE"
proof (induction w arbitrary: a s a' s')
  case (Cons b w)
  have a: "(a + unat b) mod ADLER32_BASE = (a' + unat b) mod ADLER32_BASE" by (rule mod_add_cong [OF Cons.prems(1) refl])
  have "(s + (a + unat b)) mod ADLER32_BASE = (s' + (a' + unat b)) mod ADLER32_BASE" by (rule mod_add_cong [OF Cons.prems(2) a])
  then show ?case unfolding adler_sums_simps fst_conv snd_conv by (rule Cons.IH [OF a])
qed simp

lemma adler_sums_less:
  assumes "a < ADLER32_BASE" and "s < ADLER32_BASE" and "length w \<le> ADLER32_NMAX"
  shows "fst (adler_sums (a, s) w) < 2 ^ 32" "snd (adler_sums (a, s) w) < 2 ^ 32"
proof -
  have "length w * (length w + 1) \<le> ADLER32_NMAX * (ADLER32_NMAX + 1)" using assms(3) by (intro mult_mono) auto
  then have "2 * snd (adler_sums (0, 0) w) \<le> 255 * (ADLER32_NMAX * (ADLER32_NMAX + 1))" using adler_sums_bound [of w] by linarith
  moreover have "length w * a \<le> ADLER32_NMAX * (ADLER32_BASE - 1)" using assms(1,3) by (intro mult_mono) auto
  ultimately show "snd (adler_sums (a, s) w) < 2 ^ 32" using assms(2) by (simp add: adler_sums_closed [of a s])
  show "fst (adler_sums (a, s) w) < 2 ^ 32" using assms sum_bytes_le [of w] by (simp add: adler_sums_closed [of a s])
qed

definition as_words :: "nat \<times> nat \<Rightarrow> u32 \<times> u32" where
  "as_words st = (of_nat (fst st), of_nat (snd st))"

lemma foldl_ADLER32_1: "foldl ADLER32_1 (as_words st) w = as_words (adler_sums st w)"
proof (induction w arbitrary: st)
  case (Cons b w)
  show ?case using Cons.IH [of "(fst st + unat b, snd st + (fst st + unat b))"] by (simp add: as_words_def ADLER32_1_def Let_def)
qed simp

lemma ADLER32_16_eq: "ADLER32_16 (as_words st) w = as_words (adler_sums st (take 16 w))"
  by (simp add: ADLER32_16_def foldl_ADLER32_1)

lemma adler_rounds_eq: "adler_rounds i (as_words st) w = (as_words (adler_sums st (take (16 * i) w)), drop (16 * i) w)"
proof (induction i arbitrary: st w)
  case (Suc i)
  have "take (16 * Suc i) w = take 16 w @ take (16 * i) (drop 16 w)" by (simp add: take_add)
  then show ?case using Suc.IH by (simp add: ADLER32_16_eq add.commute)
qed simp

definition reduce :: "nat \<times> nat \<Rightarrow> nat \<times> nat" where
  "reduce st = (fst st mod ADLER32_BASE, snd st mod ADLER32_BASE)"

lemma adler_mod_eq: "fst st < 2 ^ 32 \<Longrightarrow> snd st < 2 ^ 32 \<Longrightarrow> adler_mod (as_words st) = as_words (reduce st)"
  by (simp add: adler_mod_def as_words_def reduce_def word_unat_eq_iff unat_mod unat_of_nat)

lemma reduce_less: "fst (reduce st) < ADLER32_BASE" "snd (reduce st) < ADLER32_BASE" by (simp_all add: reduce_def)

lemma reduce_sums: "reduce (adler_sums (reduce st) w) = reduce (adler_sums st w)"
  using adler_sums_cong [of "fst st mod ADLER32_BASE" "fst st" "snd st mod ADLER32_BASE" "snd st" w] by (simp add: reduce_def)

lemma reduced: "fst st < ADLER32_BASE \<Longrightarrow> snd st < ADLER32_BASE \<Longrightarrow> reduce st = st"
  by (simp add: reduce_def prod_eq_iff)

lemma adler_long_eq:
  "fst st < ADLER32_BASE \<Longrightarrow> snd st < ADLER32_BASE \<Longrightarrow> \<exists>st' v. adler_long (as_words st) w = (as_words st', v) \<and> length v < ADLER32_NMAX \<and>
     fst st' < ADLER32_BASE \<and> snd st' < ADLER32_BASE \<and> reduce (adler_sums st' v) = reduce (adler_sums st w)"
proof (induction "length w" arbitrary: st w rule: less_induct)
  case less
  show ?case
  proof (cases "ADLER32_NMAX \<le> length w")
    case True
    let ?u = "take ADLER32_NMAX w" and ?v = "drop ADLER32_NMAX w"
    have small: "fst (adler_sums st ?u) < 2 ^ 32" "snd (adler_sums st ?u) < 2 ^ 32"
      using adler_sums_less [of "fst st" "snd st" ?u] less.prems True by simp_all
    have "length ?v < length w" using True by simp
    from less.hyps [OF this, of "reduce (adler_sums st ?u)"] reduce_less
    obtain st' v where st': "adler_long (as_words (reduce (adler_sums st ?u))) ?v = (as_words st', v)" "length v < ADLER32_NMAX"
        "fst st' < ADLER32_BASE" "snd st' < ADLER32_BASE" "reduce (adler_sums st' v) = reduce (adler_sums (reduce (adler_sums st ?u)) ?v)" by blast
    have "reduce (adler_sums st' v) = reduce (adler_sums st (?u @ ?v))"
      unfolding st'(5) reduce_sums by (simp only: adler_sums_simps)
    moreover have "adler_long (as_words st) w = (as_words st', v)"
      using True st'(1) adler_rounds_eq [of "ADLER32_NMAX div 16" st w] by (subst adler_long.simps) (simp add: adler_mod_eq [OF small])
    ultimately show ?thesis using st'(2-4) by (intro exI [of _ st'] exI [of _ v]) simp
  next
    case False
    then show ?thesis using less.prems by (intro exI [of _ st] exI [of _ w]) (subst adler_long.simps, simp)
  qed
qed

lemma adler_tail_eq: "\<exists>u v. w = u @ v \<and> adler_tail (as_words st) w = (as_words (adler_sums st u), v)"
proof (induction "length w" arbitrary: st w rule: less_induct)
  case less
  show ?case
  proof (cases "16 \<le> length w")
    case True
    then have "length (drop 16 w) < length w" by simp
    from less.hyps [OF this, of "adler_sums st (take 16 w)"]
    obtain u v where uv: "drop 16 w = u @ v" "adler_tail (as_words (adler_sums st (take 16 w))) (drop 16 w) = (as_words (adler_sums (adler_sums st (take 16 w)) u), v)" by blast
    have "w = (take 16 w @ u) @ v" using uv(1) append_take_drop_id [of 16 w] by simp
    moreover have "adler_tail (as_words st) w = (as_words (adler_sums st (take 16 w @ u)), v)"
      using True uv by (subst adler_tail.simps) (simp add: ADLER32_16_eq)
    ultimately show ?thesis by blast
  next
    case False
    then show ?thesis by (subst adler_tail.simps) (auto intro: exI [of _ "[]"])
  qed
qed

lemma adler_pack_or: "a < ADLER32_BASE \<Longrightarrow> s < ADLER32_BASE \<Longrightarrow> (of_nat a OR push_bit 16 (of_nat s) :: u32) = adler_pack (a, s)"
proof -
  assume as: "a < ADLER32_BASE" "s < ADLER32_BASE"
  then have "take_bit 16 a = a" by (simp add: take_bit_eq_mod)
  then have "take_bit 16 (of_nat a :: u32) = of_nat a" by (simp only: take_bit_of_nat)
  moreover have "take_bit 16 (x :: u32) AND push_bit 16 y = 0" for x y by (rule bit_word_eqI) (auto simp: bit_simps)
  ultimately have "(of_nat a :: u32) AND push_bit 16 (of_nat s) = 0" by metis
  then have "(of_nat a OR push_bit 16 (of_nat s) :: u32) = of_nat a + push_bit 16 (of_nat s)"
    using word_plus_and_or [of "of_nat a :: u32" "push_bit 16 (of_nat s)"] by simp
  then show ?thesis using as by (simp add: adler_pack_def push_bit_eq_mult)
qed

lemma adler_unpack: "adler_pack st AND 0xffff = of_nat (fst (reduce st))" "drop_bit 16 (adler_pack st) = of_nat (snd (reduce st))"
proof -
  let ?n = "fst (reduce st) + 65536 * snd (reduce st)"
  have pack: "adler_pack st = of_nat ?n" by (simp add: adler_pack_def reduce_def)
  have small: "fst (reduce st) < 65536" "?n < 2 ^ 32" using reduce_less [of st] by simp_all
  have "adler_pack st AND 0xffff = take_bit 16 (of_nat ?n)" by (simp add: pack take_bit_eq_mask mask_eq_exp_minus_1)
  also have "\<dots> = of_nat (take_bit 16 ?n)" by (rule take_bit_of_nat)
  also have "take_bit 16 ?n = ?n mod 65536" by (simp add: take_bit_eq_mod)
  also have "?n mod 65536 = fst (reduce st)" using small(1) by simp
  finally show "adler_pack st AND 0xffff = of_nat (fst (reduce st))" .
  have "unat (of_nat ?n :: u32) = ?n" using small(2) by (simp only: unat_of_nat) simp
  then have "unat (drop_bit 16 (adler_pack st)) = ?n div 65536" unfolding pack unat_drop_bit_eq by (simp add: drop_bit_eq_div)
  also have "\<dots> = snd (reduce st)" using small(1) by simp
  finally have "unat (drop_bit 16 (adler_pack st)) = snd (reduce st)" .
  from this [symmetric] show "drop_bit 16 (adler_pack st) = of_nat (snd (reduce st))" by (simp only: of_nat_unat ucast_id)
qed

lemma adler32_eq: "adler32 (adler_pack st) w = adler_pack (adler_sums st w)"
proof -
  obtain st' v where l: "adler_long (as_words (reduce st)) w = (as_words st', v)" "length v < ADLER32_NMAX"
      "fst st' < ADLER32_BASE" "snd st' < ADLER32_BASE" "reduce (adler_sums st' v) = reduce (adler_sums (reduce st) w)"
    using adler_long_eq [OF reduce_less] by blast
  obtain u x where t: "v = u @ x" "adler_tail (as_words st') v = (as_words (adler_sums st' u), x)" using adler_tail_eq by blast
  have "foldl ADLER32_1 (as_words (adler_sums st' u)) x = as_words (adler_sums st' v)" by (simp add: foldl_ADLER32_1 t(1))
  moreover have "fst (adler_sums st' v) < 2 ^ 32" "snd (adler_sums st' v) < 2 ^ 32"
    using adler_sums_less [of "fst st'" "snd st'" v] l(2-4) by simp_all
  moreover have "reduce (adler_sums st' v) = reduce (adler_sums st w)" using l(5) reduce_sums by simp
  ultimately have "adler_mod (foldl ADLER32_1 (as_words (adler_sums st' u)) x) = as_words (reduce (adler_sums st w))" by (simp only: adler_mod_eq)
  moreover have "(adler_pack st AND 0xffff, drop_bit 16 (adler_pack st)) = as_words (reduce st)" by (simp add: adler_unpack as_words_def)
  moreover have "fst (as_words (reduce st')) OR push_bit 16 (snd (as_words (reduce st'))) = adler_pack st'" for st'
    using adler_pack_or [OF reduce_less [of st']] by (simp add: as_words_def adler_pack_def reduce_def)
  ultimately show ?thesis
    unfolding adler32_def by (simp only: l(1) t(2) prod.case) (simp only: split_beta)
qed

lemma adler_initial: "ADLER32_INITIAL = adler_pack (1, 0)" by (simp add: adler_pack_def)

lemma adler_sums_shift:
  "adler_sums (1, 0) (w @ [y]) = (A', S') \<Longrightarrow> adler_sums (1, 0) (x # w) = (A, S) \<Longrightarrow>
   A' + unat x = A + unat y \<and> S' + (length w + 1) * unat x + 1 = S + A'"
  using adler_sums_closed [of 1 0 w] adler_sums_closed [of "1 + unat x" "1 + unat x" w] by (auto simp: algebra_simps)

lemma mod_cancel:
  assumes "(x + u) mod m = (y + u) mod (m :: nat)"
  shows "x mod m = y mod m"
proof -
  obtain q r where "x + u + m * q = y + u + m * r" using assms unfolding nat_mod_eq_iff by blast
  then have "x + m * q = y + m * r" by simp
  then show ?thesis unfolding nat_mod_eq_iff by blast
qed

lemma adler32_roll_eq:
  assumes "length w + 1 \<le> 2 ^ 24"
  shows "adler32_roll (adler32 ADLER32_INITIAL (x # w)) x y (of_nat (length w + 1)) = adler32 ADLER32_INITIAL (w @ [y])"
proof -
  obtain A S where st: "adler_sums (1, 0) (x # w) = (A, S)" by fastforce
  obtain A' S' where st': "adler_sums (1, 0) (w @ [y]) = (A', S')" by fastforce
  note sh = adler_sums_shift [OF st' st]
  define a s n u v where defs: "a = A mod ADLER32_BASE" "s = S mod ADLER32_BASE" "n = length w + 1" "u = unat x" "v = unat y"
  define a' where "a' = a + ADLER32_BASE + v - u"
  define s' where "s' = ADLER32_BASE * ADLER32_BASE + s + a' - n * u - 1"
  have uv: "u \<le> 255" "v \<le> 255" using unat_byte_le by (simp_all add: defs)
  have as: "a < ADLER32_BASE" "s < ADLER32_BASE" by (simp_all add: defs)
  have nu: "n * u \<le> 16777216 * 255" using assms uv(1) by (intro mult_mono) (auto simp: defs)
  have sub: "a' + u = a + (ADLER32_BASE + v)" "s' + (n * u + 1) = ADLER32_BASE * ADLER32_BASE + (s + a')"
    using uv as nu by (simp_all add: a'_def s'_def)
  have mA: "a mod ADLER32_BASE = A mod ADLER32_BASE" "s mod ADLER32_BASE = S mod ADLER32_BASE" by (simp_all add: defs)
  have "(a' + u) mod ADLER32_BASE = (A' + u) mod ADLER32_BASE"
  proof -
    have "A' + u = A + v" using sh by (simp add: defs)
    moreover have "(a + (ADLER32_BASE + v)) mod ADLER32_BASE = (a + v) mod ADLER32_BASE"
      using mod_add_self2 [of "a + v" ADLER32_BASE] by (simp only: ac_simps)
    ultimately show ?thesis unfolding sub(1) using mod_add_cong [OF mA(1) refl, of v] by simp
  qed
  then have ma: "a' mod ADLER32_BASE = A' mod ADLER32_BASE" by (rule mod_cancel)
  have "(s' + (n * u + 1)) mod ADLER32_BASE = (S' + (n * u + 1)) mod ADLER32_BASE"
  proof -
    have "S' + (n * u + 1) = S + A'" using sh by (simp add: defs)
    then show ?thesis unfolding sub(2) mod_mult_self4 using mod_add_cong [OF mA(2) ma] by simp
  qed
  then have ms: "s' mod ADLER32_BASE = S' mod ADLER32_BASE" by (rule mod_cancel)
  have wa: "(of_nat a :: u32) + (of_nat ADLER32_BASE + ucast y - ucast x) = of_nat a'"
    using arg_cong [OF sub(1), of "of_nat :: nat \<Rightarrow> u32"] by (simp add: defs(4,5) algebra_simps)
  have ws: "of_nat ADLER32_BASE * of_nat ADLER32_BASE + of_nat s - of_nat n * ucast x - ADLER32_INITIAL + of_nat a' = (of_nat s' :: u32)"
    using arg_cong [OF sub(2), of "of_nat :: nat \<Rightarrow> u32"] by (simp add: defs(4,5) algebra_simps)
  have bounds: "a' < 2 ^ 32" "s' < 2 ^ 32" using uv as nu by (simp_all add: a'_def s'_def)
  have red: "(of_nat a' :: u32) mod of_nat ADLER32_BASE = of_nat (a' mod ADLER32_BASE)" "(of_nat s' :: u32) mod of_nat ADLER32_BASE = of_nat (s' mod ADLER32_BASE)"
    using bounds by (simp_all add: word_unat_eq_iff unat_mod unat_of_nat)
  have old: "adler32 ADLER32_INITIAL (x # w) AND 0xffff = of_nat a" "drop_bit 16 (adler32 ADLER32_INITIAL (x # w)) = of_nat s"
    unfolding adler_initial adler32_eq st adler_unpack by (simp_all add: reduce_def defs)
  show ?thesis
    unfolding adler32_roll_def Let_def old defs(3) [symmetric] wa ws red unfolding ma ms
    using adler_pack_or [of "A' mod ADLER32_BASE" "S' mod ADLER32_BASE"]
    unfolding adler_initial adler32_eq st' by (simp add: adler_pack_def)
qed

subsection \<open>The hash table of the blocks of a file\<close>

text \<open>The checksums of a remote file; \<open>nextsame\<close> is the array \<^verbatim>\<open>next\<close>, which chains the blocks with the same SHA-1.\<close>

record block_checksum =
  sha1 :: "byte list"
  adler :: u32

record file_checksums =
  filesize :: nat
  blocksize :: nat
  blocks :: "block_checksum list"
  nextsame :: "nat list"

abbreviation blockcnt :: "file_checksums \<Rightarrow> nat" where "blockcnt cs \<equiv> length (blocks cs)"

function prime_from :: "nat \<Rightarrow> nat \<Rightarrow> bool" where
  "prime_from i num = (if i * i \<le> num then (if num mod i = 0 then False else prime_from (i + 2) num) else True)"
  by pat_completeness auto
termination
proof (relation "measure (\<lambda>(i, num). num + 1 - i)")
  fix i num :: nat
  assume "i * i \<le> num"
  moreover have "i \<le> i * i" by (cases i) auto
  ultimately have "i \<le> num" by (rule order_trans [rotated])
  then show "((i + 2, num), i, num) \<in> measure (\<lambda>(i, num). num + 1 - i)" by simp
qed simp

declare prime_from.simps [simp del]

definition psync_is_prime :: "nat \<Rightarrow> bool" where
  "psync_is_prime num = prime_from 5 num"

partial_function (option) next_size :: "nat \<Rightarrow> nat option" where
  "next_size cnt =
     (if psync_is_prime cnt then Some cnt
      else let cnt = cnt + 4 in if psync_is_prime cnt then Some cnt else next_size (cnt + 2))"

abbreviation MAX_ADLER_COLL :: nat where "MAX_ADLER_COLL \<equiv> 64"

definition next_slot :: "nat list \<Rightarrow> nat \<Rightarrow> nat" where
  "next_slot el k = (if length el \<le> k + 1 then 0 else k + 1)"

definition home :: "file_checksums \<Rightarrow> nat list \<Rightarrow> nat \<Rightarrow> nat" where
  "home cs el i = unat (adler (blocks cs ! i)) mod length el"

text \<open>The walk to a free slot: \<open>Inl\<close> the slot of a block with the same SHA-1, \<open>Inr (Some k)\<close> a free slot, \<open>Inr None\<close> after too many collisions.\<close>

function collide :: "file_checksums \<Rightarrow> nat list \<Rightarrow> byte list \<Rightarrow> nat \<Rightarrow> nat \<Rightarrow> nat + nat option" where
  "collide cs el sh k col =
     (if sh = sha1 (blocks cs ! (el ! k - 1)) then Inl k
      else let k = next_slot el k; col = col + 1
           in if MAX_ADLER_COLL < col then Inr None else if el ! k = 0 then Inr (Some k) else collide cs el sh k col)"
  by pat_completeness auto
termination by (relation "measure (\<lambda>(cs, el, sh, k, col). MAX_ADLER_COLL + 1 - col)") auto

declare collide.simps [simp del]

definition add_block :: "nat \<Rightarrow> file_checksums \<times> nat list \<Rightarrow> file_checksums \<times> nat list" where
  "add_block i h = (case h of (cs, el) \<Rightarrow>
     let k = home cs el i in
     if el ! k \<noteq> 0 then
       (case collide cs el (sha1 (blocks cs ! i)) k 0 of
          Inl k \<Rightarrow> (cs\<lparr>nextsame := (nextsame cs)[i := el ! k]\<rparr>, el[k := i + 1])
        | Inr (Some k) \<Rightarrow> (cs, el[k := i + 1])
        | Inr None \<Rightarrow> (cs, el))
     else (cs, el[k := i + 1]))"

definition psync_net_create_hash :: "file_checksums \<Rightarrow> (file_checksums \<times> nat list) option" where
  "psync_net_create_hash cs =
     do { cnt \<leftarrow> next_size (((blockcnt cs + 1) div 2) * 6 + 1);
          Some (fold add_block [0..<blockcnt cs] (cs, replicate cnt 0)) }"

text \<open>The walk of the lookups from a slot on: the slot whose block has the property, or none when a free slot comes first.\<close>

partial_function (option) probe :: "nat list \<Rightarrow> (nat \<Rightarrow> bool) \<Rightarrow> nat \<Rightarrow> nat option option" where
  "probe el P k =
     (let idx = el ! k in
      if idx = 0 then Some None else if P (idx - 1) then Some (Some k) else probe el P (next_slot el k))"

definition has_adler :: "file_checksums \<Rightarrow> u32 \<Rightarrow> nat \<Rightarrow> bool" where
  "has_adler cs a i \<longleftrightarrow> adler (blocks cs ! i) = a"

definition has_both :: "file_checksums \<Rightarrow> u32 \<Rightarrow> byte list \<Rightarrow> nat \<Rightarrow> bool" where
  "has_both cs a sh i \<longleftrightarrow> adler (blocks cs ! i) = a \<and> sha1 (blocks cs ! i) = sh"

definition psync_net_hash_has_adler :: "nat list \<Rightarrow> file_checksums \<Rightarrow> u32 \<Rightarrow> bool option" where
  "psync_net_hash_has_adler el cs a =
     do { r \<leftarrow> probe el (has_adler cs a) (unat a mod length el); Some (r \<noteq> None) }"

definition psync_net_hash_has_adler_and_sha1 :: "nat list \<Rightarrow> file_checksums \<Rightarrow> u32 \<Rightarrow> byte list \<Rightarrow> nat option" where
  "psync_net_hash_has_adler_and_sha1 el cs a sh =
     do { r \<leftarrow> probe el (has_both cs a sh) (unat a mod length el); Some (case r of None \<Rightarrow> 0 | Some k \<Rightarrow> el ! k) }"

text \<open>Closing the gap behind a removed entry: from the home of an entry on, what comes first, the gap or the slot of the entry?\<close>

partial_function (option) gap_first :: "nat list \<Rightarrow> nat \<Rightarrow> nat \<Rightarrow> nat \<Rightarrow> bool option" where
  "gap_first el zeroidx k bp =
     (if bp = zeroidx then Some True else if bp = k then Some False else gap_first el zeroidx k (next_slot el bp))"

partial_function (option) close_gap :: "file_checksums \<Rightarrow> nat list \<Rightarrow> nat \<Rightarrow> nat \<Rightarrow> nat list option" where
  "close_gap cs el zeroidx k =
     (let k = next_slot el k; idx = el ! k in
      if idx = 0 then Some el
      else let bp = home cs el (idx - 1) in
        if bp \<noteq> k then
          do { m \<leftarrow> gap_first el zeroidx k bp;
               if m then close_gap cs (el[zeroidx := idx, k := 0]) k k else close_gap cs el zeroidx k }
        else close_gap cs el zeroidx k)"

definition psync_net_hash_remove :: "nat list \<Rightarrow> file_checksums \<Rightarrow> u32 \<Rightarrow> byte list \<Rightarrow> nat list option" where
  "psync_net_hash_remove el cs a sh =
     do { r \<leftarrow> probe el (has_both cs a sh) (unat a mod length el);
          case r of None \<Rightarrow> Some el | Some k \<Rightarrow> close_gap cs (el[k := 0]) k k }"

text \<open>The size of the table is found, since a prime number without the factors 2 and 3 follows every number.\<close>

lemma prime_fromI: "(\<And>j. i \<le> j \<Longrightarrow> j * j \<le> num \<Longrightarrow> num mod j \<noteq> 0) \<Longrightarrow> prime_from i num"
proof (induction i num rule: prime_from.induct)
  case (1 i num)
  have "prime_from (i + 2) num" if "i * i \<le> num" "num mod i \<noteq> 0" using 1 that by simp
  then show ?case using 1(2) [of i] by (subst prime_from.simps) auto
qed

lemma prime_beyond: "\<exists>q. n \<le> q \<and> (q mod 6 = 1 \<or> q mod 6 = 5) \<and> psync_is_prime q"
proof -
  define m where "m = n + 4"
  define N where "N = \<Prod>{1..m} + 1"
  define q where "q = (LEAST d. 1 < d \<and> d dvd N)"
  have "0 < \<Prod>{1..m}" by (intro prod_pos) auto
  then have "1 < N \<and> N dvd N" by (simp add: N_def)
  then have q: "1 < q" "q dvd N" using LeastI [of "\<lambda>d. 1 < d \<and> d dvd N" N] unfolding q_def by blast+
  have least: "q \<le> d" if "1 < d" "d dvd N" for d using Least_le [of "\<lambda>d. 1 < d \<and> d dvd N" d] that unfolding q_def by blast
  have big: "m < d" if d: "1 < d" "d dvd N" for d
  proof (rule ccontr)
    assume "\<not> m < d"
    then have "d dvd \<Prod>{1..m}" using d(1) by (intro dvd_prodI) auto
    then have "d dvd 1" using d(2) unfolding N_def using dvd_add_right_iff by blast
    then show False using d(1) by simp
  qed
  have no: "\<not> d dvd q" if "1 < d" "d \<le> m" for d using big [of d] that dvd_trans [OF _ q(2)] by auto
  have "\<not> 2 dvd q" "\<not> 3 dvd q" using no [of 2] no [of 3] by (simp_all add: m_def)
  then have six: "q mod 6 = 1 \<or> q mod 6 = 5" by presburger
  have "q mod j \<noteq> 0" if j: "5 \<le> j" "j * j \<le> q" for j
  proof
    assume "q mod j = 0"
    then have "q \<le> j" using least [of j] j(1) dvd_trans [OF _ q(2)] by auto
    then have "j * j \<le> j" by (rule order_trans [OF j(2)])
    then show False using j(1) by (cases j) auto
  qed
  then have "psync_is_prime q" unfolding psync_is_prime_def by (intro prime_fromI) blast
  moreover have "n \<le> q" using big [OF q] by (simp add: m_def)
  ultimately show ?thesis using six by blast
qed

lemma next_size_returns: "cnt mod 6 = 1 \<Longrightarrow> \<exists>p\<ge>cnt. next_size cnt = Some p"
proof -
  assume cnt: "cnt mod 6 = 1"
  obtain q where q: "cnt \<le> q" "q mod 6 = 1 \<or> q mod 6 = 5" "psync_is_prime q" using prime_beyond by blast
  have "c mod 6 = 1 \<Longrightarrow> c \<le> q \<Longrightarrow> \<exists>p\<ge>c. next_size c = Some p" for c
  proof (induction "q - c" arbitrary: c rule: less_induct)
    case less
    show ?case
    proof (cases "psync_is_prime c \<or> psync_is_prime (c + 4)")
      case True
      then show ?thesis by (subst next_size.simps) (auto simp: Let_def)
    next
      case False
      then have "q \<noteq> c" "q \<noteq> c + 4" using q(3) by auto
      have c: "c + 6 \<le> q" "(c + 6) mod 6 = 1"
      proof -
        obtain d where d: "q = c + d" using less.prems(2) le_Suc_ex by blast
        have "q mod 6 = (1 + d) mod 6" unfolding d using less.prems(1) mod_add_left_eq [of c 6 d] by simp
        moreover have "d = 1 \<or> d = 2 \<or> d = 3 \<or> d = 5 \<or> 6 \<le> d" using \<open>q \<noteq> c\<close> \<open>q \<noteq> c + 4\<close> unfolding d by linarith
        ultimately show "c + 6 \<le> q" using q(2) unfolding d by (elim disjE) simp_all
        show "(c + 6) mod 6 = 1" using less.prems(1) by simp
      qed
      then have "q - (c + 6) < q - c" by simp
      from less.hyps [OF this c(2,1)] obtain p where "p \<ge> c + 6" "next_size (c + 6) = Some p" by blast
      then show ?thesis using False by (subst next_size.simps) (auto simp: Let_def numeral_eq_Suc)
    qed
  qed
  then show ?thesis using cnt q(1) by blast
qed

text \<open>Slots in the order of the walk: the one \<open>k\<close> places after \<open>z\<close>.\<close>

definition around :: "nat list \<Rightarrow> nat \<Rightarrow> nat \<Rightarrow> nat" where
  "around el z k = (z + k) mod length el"

lemma around_less [simp]: "el \<noteq> [] \<Longrightarrow> around el z k < length el"
  by (simp add: around_def)

lemma around_0 [simp]: "z < length el \<Longrightarrow> around el z 0 = z"
  by (simp add: around_def)

lemma around_update [simp]: "around (el[i := x]) z k = around el z k"
  by (simp add: around_def)

lemma next_slot_around: "z < length el \<Longrightarrow> next_slot el z = around el z 1"
  by (cases "z + 1 = length el") (auto simp: next_slot_def around_def)

lemma around_around [simp]: "around el (around el z j) k = around el z (j + k)"
  by (simp add: around_def mod_add_left_eq add.assoc)

lemma next_around: "el \<noteq> [] \<Longrightarrow> next_slot el (around el z k) = around el z (k + 1)"
  by (simp add: next_slot_around)

lemma around_inj: "around el z j = around el z k \<Longrightarrow> j < length el \<Longrightarrow> k < length el \<Longrightarrow> j = k"
  unfolding around_def by (metis add.commute mod_cancel mod_less)

lemma around_surj: "p < length el \<Longrightarrow> z < length el \<Longrightarrow> \<exists>k<length el. p = around el z k"
  by (rule exI [of _ "if z \<le> p then p - z else p + length el - z"]) (auto simp: around_def)

lemma around_period: "around el z (length el + k) = around el z k"
  by (simp add: around_def) (metis mod_add_self1 add.left_commute)

text \<open>A slot is reached from another over used slots.\<close>

definition reach :: "nat list \<Rightarrow> nat \<Rightarrow> nat \<Rightarrow> bool" where
  "reach el h p \<longleftrightarrow> (\<exists>k. p = around el h k \<and> (\<forall>j<k. el ! around el h j \<noteq> 0))"

lemma probe_result:
  assumes "el \<noteq> []"
  shows "z < length el \<Longrightarrow> el ! around el z m = 0 \<Longrightarrow> \<exists>r. probe el P z = Some r \<and>
     (case r of None \<Rightarrow> \<exists>k. el ! around el z k = 0 \<and> (\<forall>j<k. el ! around el z j \<noteq> 0 \<and> \<not> P (el ! around el z j - 1))
      | Some p \<Rightarrow> p < length el \<and> el ! p \<noteq> 0 \<and> P (el ! p - 1))"
proof (induction m arbitrary: z)
  case 0
  then show ?case by (subst probe.simps) (auto intro: exI [of _ 0])
next
  case (Suc m)
  consider "el ! z = 0" | "el ! z \<noteq> 0" "P (el ! z - 1)" | "el ! z \<noteq> 0" "\<not> P (el ! z - 1)" by blast
  then show ?case
  proof cases
    case 3
    let ?z = "around el z 1"
    have "el ! around el ?z m = 0" using Suc.prems(2) by simp
    from Suc.IH [OF _ this] assms obtain r where r: "probe el P ?z = Some r"
        "case r of None \<Rightarrow> \<exists>k. el ! around el ?z k = 0 \<and> (\<forall>j<k. el ! around el ?z j \<noteq> 0 \<and> \<not> P (el ! around el ?z j - 1))
         | Some p \<Rightarrow> p < length el \<and> el ! p \<noteq> 0 \<and> P (el ! p - 1)" by auto
    have "probe el P z = Some r" using 3 r(1) next_slot_around [OF Suc.prems(1)] by (subst probe.simps) simp
    moreover have "\<exists>k. el ! around el z k = 0 \<and> (\<forall>j<k. el ! around el z j \<noteq> 0 \<and> \<not> P (el ! around el z j - 1))" if none: "r = None"
    proof -
      obtain k where k: "el ! around el z (1 + k) = 0" "\<And>j. j < k \<Longrightarrow> el ! around el z (1 + j) \<noteq> 0 \<and> \<not> P (el ! around el z (1 + j) - 1)"
        using r(2) none by auto
      have "el ! around el z j \<noteq> 0 \<and> \<not> P (el ! around el z j - 1)" if "j < 1 + k" for j
        using that 3 k(2) [of "j - 1"] Suc.prems(1) by (cases j) auto
      then show ?thesis using k(1) by blast
    qed
    ultimately show ?thesis using r(2) by (auto split: option.splits)
  next
    case 1
    then show ?thesis using Suc.prems(1) by (subst probe.simps) (auto intro: exI [of _ 0])
  next
    case 2
    then show ?thesis using Suc.prems(1) by (subst probe.simps) auto
  qed
qed

text \<open>A table: every entry is reached from the home of its block, and some slot is free.\<close>

definition table_ok :: "file_checksums \<Rightarrow> nat list \<Rightarrow> bool" where
  "table_ok cs el \<longleftrightarrow> el \<noteq> [] \<and> 0 \<in> set el \<and> (\<forall>x \<in> set el. x \<le> blockcnt cs) \<and> (\<forall>x. x \<noteq> 0 \<longrightarrow> count (mset el) x \<le> 1) \<and>
     (\<forall>p<length el. el ! p \<noteq> 0 \<longrightarrow> reach el (home cs el (el ! p - 1)) p)"

definition stored :: "nat list \<Rightarrow> nat set" where
  "stored el = {i. i + 1 \<in> set el}"

lemma table_zero: "table_ok cs el \<Longrightarrow> z < length el \<Longrightarrow> \<exists>m<length el. el ! around el z m = 0"
  unfolding table_ok_def in_set_conv_nth by (metis around_surj)

lemma table_reach: "table_ok cs el \<Longrightarrow> p < length el \<Longrightarrow> el ! p = i + 1 \<Longrightarrow> reach el (home cs el i) p"
  unfolding table_ok_def by (metis add_diff_cancel_right' add_is_0 zero_neq_one)

lemma home_less: "el \<noteq> [] \<Longrightarrow> home cs el i < length el"
  by (simp add: home_def)

lemma probe_exact:
  assumes t: "table_ok cs el" and h: "\<And>i. P i \<Longrightarrow> home cs el i = h" "h < length el"
  shows "\<exists>r. probe el P h = Some r \<and> (case r of None \<Rightarrow> \<forall>i \<in> stored el. \<not> P i | Some p \<Rightarrow> p < length el \<and> el ! p \<noteq> 0 \<and> P (el ! p - 1))"
proof -
  have el: "el \<noteq> []" using t by (simp add: table_ok_def)
  obtain m where "el ! around el h m = 0" using table_zero [OF t h(2)] by blast
  from probe_result [OF el h(2) this, of P] obtain r where r: "probe el P h = Some r"
      "case r of None \<Rightarrow> \<exists>k. el ! around el h k = 0 \<and> (\<forall>j<k. el ! around el h j \<noteq> 0 \<and> \<not> P (el ! around el h j - 1))
       | Some p \<Rightarrow> p < length el \<and> el ! p \<noteq> 0 \<and> P (el ! p - 1)" by blast
  moreover have "\<not> P i" if none: "r = None" and i: "i \<in> stored el" for i
  proof
    assume P: "P i"
    obtain p where p: "p < length el" "el ! p = i + 1" using i by (auto simp: stored_def in_set_conv_nth)
    then have "reach el (home cs el i) p" by (rule table_reach [OF t])
    then obtain k where k: "p = around el h k" "\<forall>j<k. el ! around el h j \<noteq> 0" using h(1) [OF P] p(2) by (auto simp: reach_def)
    obtain l where l: "el ! around el h l = 0" "\<forall>j<l. el ! around el h j \<noteq> 0 \<and> \<not> P (el ! around el h j - 1)" using r(2) none by auto
    consider "l < k" | "l = k" | "k < l" by linarith
    then show False using k l p P by cases auto
  qed
  ultimately show ?thesis by (auto split: option.splits)
qed

text \<open>Adding a block.\<close>

lemma collide_result:
  assumes "el \<noteq> []"
  shows "z < length el \<Longrightarrow> el ! z \<noteq> 0 \<Longrightarrow> case collide cs el sh z col of
       Inl p \<Rightarrow> p < length el \<and> reach el z p \<and> el ! p \<noteq> 0 \<and> sha1 (blocks cs ! (el ! p - 1)) = sh
     | Inr (Some p) \<Rightarrow> p < length el \<and> reach el z p \<and> el ! p = 0
     | Inr None \<Rightarrow> True"
proof (induction cs el sh z col rule: collide.induct)
  case (1 cs el sh z col)
  let ?z = "next_slot el z"
  have el: "el \<noteq> []" using 1(2) by auto
  have z: "?z = around el z 1" "?z < length el" using next_slot_around [OF 1(2)] around_less [OF el] by simp_all
  have on: "reach el z p" if r: "reach el ?z p" for p
  proof -
    obtain k where k: "p = around el z (1 + k)" "\<forall>j<k. el ! around el z (1 + j) \<noteq> 0" using r unfolding reach_def z(1) by auto
    have "\<forall>j<1 + k. el ! around el z j \<noteq> 0"
    proof (intro allI impI)
      fix j
      assume "j < 1 + k"
      then show "el ! around el z j \<noteq> 0" using k(2)[rule_format, of "j - 1"] 1(2,3) by (cases j) auto
    qed
    then show ?thesis unfolding reach_def using k(1) by blast
  qed
  have here: "reach el z z" "reach el z ?z"
  proof -
    show "reach el z z" using 1(2) unfolding reach_def by (intro exI [of _ 0]) simp
    show "reach el z ?z" using 1(2,3) unfolding reach_def z(1) by (intro exI [of _ 1]) simp
  qed
  consider "sh = sha1 (blocks cs ! (el ! z - 1))" | "sh \<noteq> sha1 (blocks cs ! (el ! z - 1))" "MAX_ADLER_COLL < col + 1"
    | "sh \<noteq> sha1 (blocks cs ! (el ! z - 1))" "\<not> MAX_ADLER_COLL < col + 1" "el ! ?z = 0"
    | "sh \<noteq> sha1 (blocks cs ! (el ! z - 1))" "\<not> MAX_ADLER_COLL < col + 1" "el ! ?z \<noteq> 0" by blast
  then show ?case
  proof cases
    case 1
    then show ?thesis using here(1) \<open>z < length el\<close> \<open>el ! z \<noteq> 0\<close> by (subst collide.simps) simp
  next
    case 2
    then show ?thesis by (subst collide.simps) (simp add: Let_def)
  next
    case 3
    then show ?thesis using here(2) z(2) by (subst collide.simps) (simp add: Let_def)
  next
    case 4
    then have "collide cs el sh z col = collide cs el sh ?z (col + 1)" by (subst collide.simps) (simp add: Let_def)
    then show ?thesis using "1.IH" [OF 4(1) refl refl 4(2,3) z(2) 4(3)] on by (auto split: sum.splits option.splits)
  qed
qed

definition used :: "nat list \<Rightarrow> nat" where
  "used el = length (filter (\<lambda>x. x \<noteq> 0) el)"

lemma used_update: "used (el[p := x]) \<le> used el + 1"
proof (cases "p < length el")
  case True
  have "el = take p el @ el ! p # drop (Suc p) el" using True by (rule id_take_nth_drop)
  then have "used el = used (take p el @ el ! p # drop (Suc p) el)" by simp
  then show ?thesis by (simp add: upd_conv_take_nth_drop [OF True] used_def)
qed (simp add: list_update_beyond)

lemma used_zero: "used el < length el \<Longrightarrow> 0 \<in> set el"
  unfolding used_def using filter_True [of el "\<lambda>x. x \<noteq> 0"] by (metis less_irrefl)

lemma reach_more: "reach el h p \<Longrightarrow> x \<noteq> 0 \<Longrightarrow> reach (el[q := x]) h p"
  unfolding reach_def around_update by (metis nth_list_update_eq nth_list_update_neq list_update_beyond not_le_imp_less)

lemma home_update [simp]: "home cs (el[p := x]) i = home cs el i" "home (cs\<lparr>nextsame := ns\<rparr>) el i = home cs el i"
  by (simp_all add: home_def)

text \<open>The table while blocks are added: its entries are blocks that were added.\<close>

definition filling :: "file_checksums \<Rightarrow> nat \<Rightarrow> nat list \<Rightarrow> bool" where
  "filling cs i el \<longleftrightarrow> el \<noteq> [] \<and> used el \<le> i \<and> (\<forall>x \<in> set el. x \<le> i) \<and> (\<forall>x. x \<noteq> 0 \<longrightarrow> count (mset el) x \<le> 1) \<and>
     (\<forall>p<length el. el ! p \<noteq> 0 \<longrightarrow> reach el (home cs el (el ! p - 1)) p)"

lemma filling_add:
  assumes f: "filling cs i el" and p: "p < length el" "reach el (home cs el i) p"
  shows "filling cs (i + 1) (el[p := i + 1])"
  unfolding filling_def
proof (intro conjI allI impI ballI)
  show "el[p := i + 1] \<noteq> []" using p(1) by auto
  show "used (el[p := i + 1]) \<le> i + 1" using f used_update [of el p "i + 1"] by (simp add: filling_def)
  have small: "x \<le> i" if "x \<in> set el" for x using f that by (simp add: filling_def)
  show "x \<le> i + 1" if "x \<in> set (el[p := i + 1])" for x using that small set_update_subset_insert [of el p "i + 1"] by fastforce
  have "i + 1 \<notin> set el" using small by fastforce
  then have "count (mset el) (i + 1) = 0" by simp
  moreover have "count (mset el) x \<le> 1" if "x \<noteq> 0" for x using f that by (simp add: filling_def)
  ultimately show "count (mset (el[p := i + 1])) x \<le> 1" if "x \<noteq> 0" for x
    using that p(1) le_trans [OF diff_le_self] by (auto simp: mset_update)
  fix q
  assume q: "q < length (el[p := i + 1])" and nz: "el[p := i + 1] ! q \<noteq> 0"
  show "reach (el[p := i + 1]) (home cs (el[p := i + 1]) (el[p := i + 1] ! q - 1)) q"
  proof (cases "q = p")
    case True
    then show ?thesis using p reach_more [OF p(2), of "i + 1" p] by simp
  next
    case False
    then have "reach el (home cs el (el ! q - 1)) q" using f q nz by (simp add: filling_def)
    then show ?thesis using False reach_more [of el _ q "i + 1" p] by simp
  qed
qed

text \<open>The chains of blocks with the same SHA-1 go to lower numbers.\<close>

definition chains_ok :: "file_checksums \<Rightarrow> bool" where
  "chains_ok cs \<longleftrightarrow> length (nextsame cs) = blockcnt cs \<and>
     (\<forall>i<blockcnt cs. nextsame cs ! i \<noteq> 0 \<longrightarrow> nextsame cs ! i \<le> i \<and> sha1 (blocks cs ! (nextsame cs ! i - 1)) = sha1 (blocks cs ! i))"

lemma add_block_filling:
  assumes f: "filling cs i el" and c: "chains_ok cs" and i: "i < blockcnt cs" and r: "add_block i (cs, el) = (cs', el')"
  shows "filling cs' (i + 1) el'" "chains_ok cs'" "length el' = length el" "\<exists>ns. cs' = cs\<lparr>nextsame := ns\<rparr>"
proof -
  have el: "el \<noteq> []" using f by (simp add: filling_def)
  have h: "home cs el i < length el" by (rule home_less [OF el])
  have keep: "filling cs (i + 1) el" using f by (auto simp: filling_def)
  have cs: "filling (cs\<lparr>nextsame := ns\<rparr>) j el = filling cs j el" for ns j el by (simp add: filling_def)
  have "filling cs' (i + 1) el' \<and> chains_ok cs' \<and> length el' = length el \<and> (\<exists>ns. cs' = cs\<lparr>nextsame := ns\<rparr>)"
  proof (cases "el ! home cs el i = 0")
    case True
    have "reach el (home cs el i) (home cs el i)" using h unfolding reach_def by (intro exI [of _ 0]) simp
    then have "filling cs (i + 1) (el[home cs el i := i + 1])" by (rule filling_add [OF f h])
    then show ?thesis using True r c by (auto simp: add_block_def Let_def intro: exI [of _ "nextsame cs"])
  next
    case False
    note res = collide_result [OF el h False, of cs "sha1 (blocks cs ! i)" 0]
    show ?thesis
    proof (cases "collide cs el (sha1 (blocks cs ! i)) (home cs el i) 0")
      case (Inl p)
      then have p: "p < length el" "reach el (home cs el i) p" "el ! p \<noteq> 0" "sha1 (blocks cs ! (el ! p - 1)) = sha1 (blocks cs ! i)" using res by simp_all
      have new: "cs' = cs\<lparr>nextsame := (nextsame cs)[i := el ! p]\<rparr>" "el' = el[p := i + 1]" using r False Inl by (simp_all add: add_block_def Let_def)
      have "el ! p \<le> i" using f p(1) by (simp add: filling_def)
      then have "chains_ok cs'" using c i p(4) unfolding new chains_ok_def by (auto simp: nth_list_update)
      then show ?thesis using filling_add [OF f p(1,2)] unfolding new cs by auto
    next
      case (Inr x)
      have same: "\<exists>ns. cs = cs\<lparr>nextsame := ns\<rparr>" by (rule exI [of _ "nextsame cs"]) simp
      show ?thesis
      proof (cases x)
        case None
        then show ?thesis using r False Inr keep c same by (simp add: add_block_def Let_def)
      next
        case (Some p)
        then have p: "p < length el" "reach el (home cs el i) p" using res Inr by simp_all
        then have "cs' = cs \<and> el' = el[p := i + 1]" using r False Inr Some by (simp add: add_block_def Let_def)
        then show ?thesis using filling_add [OF f p] c same by simp
      qed
    qed
  qed
  then show "filling cs' (i + 1) el'" "chains_ok cs'" "length el' = length el" "\<exists>ns. cs' = cs\<lparr>nextsame := ns\<rparr>" by auto
qed

text \<open>Nothing is dropped while the table has at most 64 entries.\<close>

lemma collide_drops:
  "collide cs el sh z col = Inr None \<Longrightarrow> z < length el \<Longrightarrow> el ! z \<noteq> 0 \<Longrightarrow> j + col \<le> MAX_ADLER_COLL \<Longrightarrow> el ! around el z j \<noteq> 0"
proof (induction cs el sh z col arbitrary: j rule: collide.induct)
  case (1 cs el sh z col)
  have el: "el \<noteq> []" using 1(3) by auto
  have z: "next_slot el z = around el z 1" using next_slot_around [OF 1(3)] .
  have col: "col < MAX_ADLER_COLL" if "j \<noteq> 0" using 1(5) that by simp
  show ?case
  proof (cases j)
    case 0
    then show ?thesis using 1(3,4) by simp
  next
    case (Suc i)
    have c: "sh \<noteq> sha1 (blocks cs ! (el ! z - 1))" "\<not> MAX_ADLER_COLL < col + 1" "el ! around el z 1 \<noteq> 0"
        "collide cs el sh (around el z 1) (col + 1) = Inr None"
      using 1(2) col Suc unfolding z [symmetric] by (subst (asm) collide.simps, simp add: Let_def split: if_splits)+
    have "i + (col + 1) \<le> MAX_ADLER_COLL" using 1(5) Suc by simp
    then have "el ! around el (around el z 1) i \<noteq> 0"
      using "1.IH" [OF c(1) z [symmetric] refl c(2)] c(3,4) around_less [OF el] by blast
    then show ?thesis using Suc by simp
  qed
qed

lemma collide_room:
  assumes used: "used el \<le> MAX_ADLER_COLL" "used el < length el" and z: "z < length el" "el ! z \<noteq> 0"
  shows "collide cs el sh z 0 \<noteq> Inr None"
proof
  assume none: "collide cs el sh z 0 = Inr None"
  have el: "el \<noteq> []" using z by auto
  obtain p where "p < length el" "el ! p = 0" using used_zero [OF used(2)] by (auto simp: in_set_conv_nth)
  then have ex: "\<exists>m. m < length el \<and> el ! around el z m = 0" using around_surj z(1) by metis
  define m where "m = (LEAST m. m < length el \<and> el ! around el z m = 0)"
  have m: "m < length el" "el ! around el z m = 0" using LeastI_ex [OF ex] by (simp_all add: m_def)
  have nz: "el ! around el z j \<noteq> 0" if "j < m" for j using not_less_Least [of j "\<lambda>m. m < length el \<and> el ! around el z m = 0"] that m(1) by (auto simp: m_def)
  have "around el z ` {..<m} \<subseteq> {p. p < length el \<and> el ! p \<noteq> 0}" using nz el by auto
  moreover have "inj_on (around el z) {..<m}" using m(1) around_inj [of el z] by (auto simp: inj_on_def)
  ultimately have "card {..<m} \<le> card {p. p < length el \<and> el ! p \<noteq> 0}" by (intro card_inj_on_le) auto
  then have "m \<le> MAX_ADLER_COLL" using used(1) by (simp add: used_def length_filter_conv_card)
  then show False using collide_drops [OF none z, of m] m(2) by simp
qed

definition all_stored :: "file_checksums \<Rightarrow> nat \<Rightarrow> nat list \<Rightarrow> bool" where
  "all_stored cs n el \<longleftrightarrow> (\<forall>i<n. \<exists>j \<in> stored el. sha1 (blocks cs ! j) = sha1 (blocks cs ! i))"

lemma stored_update: "p < length el \<Longrightarrow> el ! p = 0 \<Longrightarrow> stored (el[p := i + 1]) = insert i (stored el)"
  "p < length el \<Longrightarrow> insert i (stored el) \<subseteq> insert (el ! p - 1) (stored (el[p := i + 1]))"
proof -
  have in_upd: "x \<in> set (el[p := i + 1]) \<longleftrightarrow> x = i + 1 \<or> (\<exists>q<length el. q \<noteq> p \<and> el ! q = x)" if "p < length el" for x
    using that unfolding in_set_conv_nth length_list_update by (metis nth_list_update_eq nth_list_update_neq)
  show "stored (el[p := i + 1]) = insert i (stored el)" if p: "p < length el" "el ! p = 0"
    unfolding stored_def in_upd [OF p(1)] using p(2) by (auto simp: in_set_conv_nth)
  show "insert i (stored el) \<subseteq> insert (el ! p - 1) (stored (el[p := i + 1]))" if p: "p < length el"
    unfolding stored_def in_upd [OF p] by (auto simp: in_set_conv_nth)
qed

lemma add_block_all:
  assumes f: "filling cs i el" and i: "i \<le> MAX_ADLER_COLL" "i < length el" and a: "all_stored cs i el" and r: "add_block i (cs, el) = (cs', el')"
  shows "all_stored cs (i + 1) el'"
proof -
  have el: "el \<noteq> []" using f by (simp add: filling_def)
  have h: "home cs el i < length el" by (rule home_less [OF el])
  have fresh: "all_stored cs (i + 1) (el[p := i + 1])" if "p < length el" "el ! p = 0" for p
    using a unfolding all_stored_def stored_update(1) [OF that] by (metis insertCI less_Suc_eq Suc_eq_plus1)
  show ?thesis
  proof (cases "el ! home cs el i = 0")
    case True
    then have "el' = el[home cs el i := i + 1]" using r by (auto simp: add_block_def Let_def)
    then show ?thesis using fresh [OF h True] by simp
  next
    case False
    note res = collide_result [OF el h False, of cs "sha1 (blocks cs ! i)" 0]
    have "used el \<le> MAX_ADLER_COLL" "used el < length el" using f i by (simp_all add: filling_def)
    note room = collide_room [OF this h False, of cs "sha1 (blocks cs ! i)"]
    show ?thesis
    proof (cases "collide cs el (sha1 (blocks cs ! i)) (home cs el i) 0")
      case (Inl p)
      then have p: "p < length el" "sha1 (blocks cs ! (el ! p - 1)) = sha1 (blocks cs ! i)" using res by simp_all
      have "el' = el[p := i + 1]" using r False Inl by (simp add: add_block_def Let_def)
      moreover have "i \<in> stored (el[p := i + 1])" using p(1) by (simp add: stored_def set_update_memI)
      moreover have "\<exists>j \<in> stored (el[p := i + 1]). sha1 (blocks cs ! j) = sha1 (blocks cs ! k)" if "k < i" for k
      proof -
        obtain j where j: "j \<in> stored el" "sha1 (blocks cs ! j) = sha1 (blocks cs ! k)" using a \<open>k < i\<close> unfolding all_stored_def by blast
        then have "j = el ! p - 1 \<or> j \<in> stored (el[p := i + 1])" using stored_update(2) [OF p(1), of i] by blast
        then show ?thesis using j(2) calculation(2) p(2) by auto
      qed
      ultimately show ?thesis unfolding all_stored_def by (metis less_Suc_eq Suc_eq_plus1)
    next
      case (Inr x)
      then obtain p where x: "x = Some p" using room by (cases x) auto
      then have p: "p < length el" "el ! p = 0" using res Inr by simp_all
      have "el' = el[p := i + 1]" using r False Inr x by (simp add: add_block_def Let_def)
      then show ?thesis using fresh [OF p] by simp
    qed
  qed
qed

lemma fold_add_block:
  assumes "filling cs 0 el" and "chains_ok cs" and "blockcnt cs < length el"
  shows "n \<le> blockcnt cs \<Longrightarrow> \<exists>ns el'. fold add_block [0..<n] (cs, el) = (cs\<lparr>nextsame := ns\<rparr>, el') \<and> filling (cs\<lparr>nextsame := ns\<rparr>) n el' \<and>
    chains_ok (cs\<lparr>nextsame := ns\<rparr>) \<and> length el' = length el \<and> (n \<le> MAX_ADLER_COLL \<longrightarrow> all_stored cs n el')"
proof (induction n)
  case 0
  then show ?case using assms by (auto simp: all_stored_def intro: exI [of _ "nextsame cs"])
next
  case (Suc n)
  then obtain ns el1 where IH: "fold add_block [0..<n] (cs, el) = (cs\<lparr>nextsame := ns\<rparr>, el1)" "filling (cs\<lparr>nextsame := ns\<rparr>) n el1"
      "chains_ok (cs\<lparr>nextsame := ns\<rparr>)" "length el1 = length el" "n \<le> MAX_ADLER_COLL \<longrightarrow> all_stored cs n el1" by auto
  obtain cs2 el2 where r: "add_block n (cs\<lparr>nextsame := ns\<rparr>, el1) = (cs2, el2)" by fastforce
  note step = add_block_filling [OF IH(2,3) _ r]
  have same: "all_stored (cs\<lparr>nextsame := ns\<rparr>) k e = all_stored cs k e" for k e by (simp add: all_stored_def)
  have n: "n < blockcnt (cs\<lparr>nextsame := ns\<rparr>)" using Suc.prems by simp
  obtain ns2 where "cs2 = cs\<lparr>nextsame := ns2\<rparr>" using step(4) [OF n] by auto
  moreover have "all_stored cs (n + 1) el2" if "n + 1 \<le> MAX_ADLER_COLL"
    using add_block_all [OF IH(2) _ _ _ r] IH(4,5) that n assms(3) unfolding same by simp
  ultimately show ?case using step(1-3) [OF n] IH(1,4) r by auto
qed

lemma create_hash_ok:
  assumes "nextsame cs = replicate (blockcnt cs) 0"
  shows "\<exists>ns el. psync_net_create_hash cs = Some (cs\<lparr>nextsame := ns\<rparr>, el) \<and> table_ok (cs\<lparr>nextsame := ns\<rparr>) el \<and> chains_ok (cs\<lparr>nextsame := ns\<rparr>) \<and>
    (blockcnt cs \<le> MAX_ADLER_COLL \<longrightarrow> all_stored cs (blockcnt cs) el)"
proof -
  let ?c = "((blockcnt cs + 1) div 2) * 6 + 1"
  have "?c mod 6 = 1" by presburger
  then obtain p where p: "p \<ge> ?c" "next_size ?c = Some p" using next_size_returns by blast
  have more: "blockcnt cs < p" using p(1) by presburger
  have "filling cs 0 (replicate p 0)" using more by (simp add: filling_def used_def)
  moreover have "chains_ok cs" using assms by (simp add: chains_ok_def)
  ultimately obtain ns el where r: "fold add_block [0..<blockcnt cs] (cs, replicate p 0) = (cs\<lparr>nextsame := ns\<rparr>, el)"
      "filling (cs\<lparr>nextsame := ns\<rparr>) (blockcnt cs) el" "chains_ok (cs\<lparr>nextsame := ns\<rparr>)" "length el = p"
      "blockcnt cs \<le> MAX_ADLER_COLL \<longrightarrow> all_stored cs (blockcnt cs) el"
    using fold_add_block [of cs "replicate p 0" "blockcnt cs"] more by auto
  have "0 \<in> set el" using r(2,4) more by (intro used_zero) (simp add: filling_def)
  then have "table_ok (cs\<lparr>nextsame := ns\<rparr>) el" using r(2) by (simp add: table_ok_def filling_def)
  then show ?thesis using r(1,3,5) p(2) unfolding psync_net_create_hash_def by (intro exI [of _ ns] exI [of _ el]) simp
qed

text \<open>Removing: while the gap is closed, entries may be reached over the gap.\<close>

definition reach_gap :: "nat list \<Rightarrow> nat \<Rightarrow> nat \<Rightarrow> nat \<Rightarrow> bool" where
  "reach_gap el g h p \<longleftrightarrow> (\<exists>k. p = around el h k \<and> (\<forall>j<k. el ! around el h j \<noteq> 0 \<or> around el h j = g))"

lemma gap_first_eq:
  assumes el: "z < length el" and e: "0 < e" "e < length el"
  shows "j \<le> length el \<Longrightarrow> gap_first el z (around el z e) (around el z j) = Some (j = 0 \<or> e < j)"
proof (induction "length el - j" arbitrary: j rule: less_induct)
  case less
  have z: "around el z (length el) = z" "around el z 0 = z" using el by (simp_all add: around_def)
  show ?case
  proof (cases "j = 0 \<or> j = length el \<or> j = e")
    case True
    have "around el z e \<noteq> z" using around_inj [of el z e 0] e el by (metis around_0 less_irrefl order.strict_trans)
    then show ?thesis using True z e by (subst gap_first.simps) auto
  next
    case False
    then have j: "0 < j" "j < length el" "j \<noteq> e" using less.prems by auto
    have "around el z j \<noteq> z" "around el z j \<noteq> around el z e" using around_inj [of el z j] j e el z(2) by (metis less_irrefl order.strict_trans)+
    then have "gap_first el z (around el z e) (around el z j) = gap_first el z (around el z e) (around el z (j + 1))"
      using next_around [of el z j] list.size(3) [where 'a = nat] el by (subst gap_first.simps) fastforce
    also have "\<dots> = Some (j + 1 = 0 \<or> e < j + 1)" using j by (intro less.hyps) auto
    finally show ?thesis using j by auto
  qed
qed

definition gapped :: "file_checksums \<Rightarrow> nat list \<Rightarrow> nat \<Rightarrow> nat \<Rightarrow> bool" where
  "gapped cs el z d \<longleftrightarrow> z < length el \<and> el ! z = 0 \<and>
     (\<forall>p<length el. el ! p \<noteq> 0 \<longrightarrow> reach_gap el z (home cs el (el ! p - 1)) p) \<and>
     (\<forall>k. 1 \<le> k \<and> k \<le> d \<longrightarrow> el ! around el z k \<noteq> 0 \<and> (\<exists>j. 1 \<le> j \<and> j \<le> k \<and> home cs el (el ! around el z k - 1) = around el z j))"

lemma gapped_reach: "gapped cs el z d \<Longrightarrow> p < length el \<Longrightarrow> el ! p \<noteq> 0 \<Longrightarrow> reach_gap el z (home cs el (el ! p - 1)) p"
  by (simp add: gapped_def)

lemma gap_done:
  assumes g: "gapped cs el z d" and e: "d + 1 < length el" "el ! around el z (d + 1) = 0" and p: "p < length el" "el ! p \<noteq> 0"
  shows "reach el (home cs el (el ! p - 1)) p"
proof -
  have z: "z < length el" "el ! z = 0" using g by (simp_all add: gapped_def)
  obtain k where k: "k < length el" "p = around el z k" using around_surj [OF p(1) z(1)] by blast
  have "k \<noteq> 0" "k \<noteq> d + 1" using k p(2) z e(2) by (auto intro: ccontr)
  then consider "1 \<le> k \<and> k \<le> d" | "d + 1 < k" by linarith
  then show ?thesis
  proof cases
    case 1
    then obtain j where j: "1 \<le> j" "j \<le> k" "home cs el (el ! p - 1) = around el z j" using g unfolding gapped_def k(2) by blast
    have "el ! around el z (j + i) \<noteq> 0" if "i < k - j" for i using g 1 j that by (auto simp: gapped_def)
    then show ?thesis unfolding reach_def j(3) using j(2) k(2) by (intro exI [of _ "k - j"]) simp
  next
    case 2
    let ?h = "home cs el (el ! p - 1)"
    obtain l where l: "p = around el ?h l" "\<And>i. i < l \<Longrightarrow> el ! around el ?h i \<noteq> 0 \<or> around el ?h i = z"
      using g p unfolding gapped_def reach_gap_def by blast
    have "around el ?h i \<noteq> z" if i: "i < l" for i
    proof
      assume at: "around el ?h i = z"
      have "around el z (l - i) = around el z k" using l(1) k(2) i unfolding at [symmetric] by simp
      then have "(l - i) mod length el = k"
        using around_inj [of el z "(l - i) mod length el" k] k(1) by (simp add: around_def mod_add_right_eq mod_less_divisor [OF le_less_trans [OF le0 k(1)]])
      then have "k \<le> l - i" by (metis mod_less_eq_dividend)
      then have "i + (d + 1) < l" using 2 by simp
      moreover have "around el ?h (i + (d + 1)) = around el z (d + 1)" using at by (metis around_around)
      ultimately have "around el z (d + 1) = z" using l(2) e(2) by metis
      then show False using around_inj [of el z "d + 1" 0] e(1) z(1) by (metis add_is_0 around_0 less_nat_zero_code not_less_zero nat_less_le zero_less_iff_neq_zero zero_neq_one)
    qed
    then show ?thesis unfolding reach_def using l by blast
  qed
qed

lemma gapped_move:
  assumes g: "gapped cs el z d" and e: "d + 1 < length el" "el ! around el z (d + 1) \<noteq> 0"
    and h: "home cs el (el ! around el z (d + 1) - 1) = around el z j" "j < length el" "j = 0 \<or> d + 1 < j"
  shows "gapped cs (el[z := el ! around el z (d + 1), around el z (d + 1) := 0]) (around el z (d + 1)) 0"
proof -
  let ?k = "around el z (d + 1)"
  let ?el = "el[z := el ! ?k, ?k := 0]"
  have z: "z < length el" "el ! z = 0" using g by (simp_all add: gapped_def)
  then have k: "?k < length el" "?k \<noteq> z" using e(2) by (auto intro: around_less)
  have sup: "?el ! x \<noteq> 0 \<or> x = ?k \<longleftrightarrow> el ! x \<noteq> 0 \<or> x = z" if "x < length el" for x
    using that z k e(2) by (auto simp: nth_list_update)
  have around: "around el h i < length el" for h i using z(1) by (auto intro: around_less)
  have "reach_gap ?el ?k (home cs ?el (?el ! p - 1)) p" if p: "p < length ?el" "?el ! p \<noteq> 0" for p
  proof (cases "p = z")
    case False
    have pk: "p \<noteq> ?k" using p k(1) by auto
    then have "el ! p \<noteq> 0" "?el ! p = el ! p" using p False by (auto simp: nth_list_update)
    moreover have "reach_gap el z (home cs el (el ! p - 1)) p" using g p calculation(1) by (simp add: gapped_def)
    ultimately show ?thesis unfolding reach_gap_def around_update home_update using sup around by metis
  next
    case True
    then have idx: "?el ! p = el ! ?k" using z k by simp
    have "reach_gap el z (around el z j) ?k" using gapped_reach [OF g k(1) e(2)] unfolding h(1) .
    then obtain l where l: "?k = around el z (j + l)" "\<And>i. i < l \<Longrightarrow> el ! around el z (j + i) \<noteq> 0 \<or> around el z (j + i) = z"
      unfolding reach_gap_def by auto
    define n where "n = (if j = 0 then 0 else length el - j)"
    have "n \<le> l"
    proof (cases "j = 0")
      case False
      have "length el \<le> j + l"
      proof (rule ccontr)
        assume "\<not> length el \<le> j + l"
        then have "d + 1 = j + l" using around_inj [OF l(1) e(1)] by simp
        then show False using False h(3) by simp
      qed
      then show ?thesis using False by (simp add: n_def le_diff_conv)
    qed (simp add: n_def)
    have at: "home cs ?el (?el ! p - 1) = around el z j" unfolding idx home_update by (rule h(1))
    have "z = around el z (j + n)" using h(2) z(1) by (simp add: n_def around_def)
    moreover have "?el ! around el z (j + i) \<noteq> 0 \<or> around el z (j + i) = ?k" if "i < n" for i
      unfolding sup [OF around] using l(2) that \<open>n \<le> l\<close> by simp
    ultimately show ?thesis unfolding reach_gap_def at around_update around_around using True by blast
  qed
  then show ?thesis using k(1) by (simp add: gapped_def)
qed

lemma close_gap_eq:
  "gapped cs el z d \<Longrightarrow> d < m \<Longrightarrow> m < length el \<Longrightarrow> el ! around el z m = 0 \<Longrightarrow>
   \<exists>el'. close_gap cs el z (around el z d) = Some el' \<and> (\<forall>p<length el'. el' ! p \<noteq> 0 \<longrightarrow> reach el' (home cs el' (el' ! p - 1)) p) \<and> mset el' = mset el"
proof (induction "m - d" arbitrary: el z d m rule: less_induct)
  case less
  let ?k = "around el z (d + 1)"
  have z: "z < length el" "el ! z = 0" using less.prems(1) by (simp_all add: gapped_def)
  have el: "el \<noteq> []" using z(1) by auto
  have e: "d + 1 < length el" using less.prems(2,3) by simp
  have kz: "?k \<noteq> z" using around_inj [of el z "d + 1" 0] e z(1) by (metis add_is_0 around_0 less_nat_zero_code not_less_zero nat_less_le zero_less_iff_neq_zero zero_neq_one)
  have unfold: "close_gap cs el z (around el z d) =
     (if el ! ?k = 0 then Some el
      else if home cs el (el ! ?k - 1) \<noteq> ?k then do { m \<leftarrow> gap_first el z ?k (home cs el (el ! ?k - 1));
        if m then close_gap cs (el[z := el ! ?k, ?k := 0]) ?k ?k else close_gap cs el z ?k }
      else close_gap cs el z ?k)"
    by (subst close_gap.simps) (simp only: next_around [OF el] Let_def)
  show ?case
  proof (cases "el ! ?k = 0")
    case True
    then show ?thesis unfolding unfold using gap_done [OF less.prems(1) e True] by auto
  next
    case False
    have dm: "d + 1 < m" using False less.prems(2,4) by (metis Suc_eq_plus1 Suc_leI nat_less_le)
    obtain j where j: "home cs el (el ! ?k - 1) = around el z j" "j < length el" using around_surj [OF home_less [OF el] z(1)] by metis
    have first: "gap_first el z ?k (around el z j) = Some (j = 0 \<or> d + 1 < j)" using j(2) by (intro gap_first_eq [OF z(1) _ e]) simp_all
    show ?thesis
    proof (cases "j = 0 \<or> d + 1 < j")
      case True
      let ?el = "el[z := el ! ?k, ?k := 0]"
      have jk: "around el z j \<noteq> ?k" using around_inj [of el z j "d + 1"] j(2) e True by auto
      have "around ?el ?k (m - (d + 1)) = around el z m" using dm by simp
      moreover have "?el ! around el z m = 0"
        using less.prems(4) around_inj [of el z m 0] less.prems(3) dm z(1) el by (cases "around el z m = ?k") (auto simp: nth_list_update around_less)
      ultimately have zero: "?el ! around ?el ?k (m - (d + 1)) = 0" by simp
      have "\<exists>el'. close_gap cs ?el ?k (around ?el ?k 0) = Some el' \<and> (\<forall>p<length el'. el' ! p \<noteq> 0 \<longrightarrow> reach el' (home cs el' (el' ! p - 1)) p) \<and> mset el' = mset ?el"
        using dm less.prems(3) by (intro less.hyps [OF _ gapped_move [OF less.prems(1) e False j True] _ _ zero]) simp_all
      moreover have "around ?el ?k 0 = ?k" using around_less [OF el, of z "d + 1"] by simp
      moreover have "mset ?el = mset el"
      proof -
        have "mset (el[z := el ! ?k, ?k := el ! z]) = mset el" using z(1) around_less [OF el] by (intro mset_swap)
        then show ?thesis using z(2) by simp
      qed
      ultimately show ?thesis unfolding unfold j(1) first using False True jk by simp
    next
      case False': False
      have "gapped cs el z (d + 1)" using less.prems(1) False False' j(1) unfolding gapped_def
        by (metis Suc_eq_plus1 le_Suc_eq less_one not_less)
      then have "\<exists>el'. close_gap cs el z ?k = Some el' \<and> (\<forall>p<length el'. el' ! p \<noteq> 0 \<longrightarrow> reach el' (home cs el' (el' ! p - 1)) p) \<and> mset el' = mset el"
        using dm less.prems(3,4) by (intro less.hyps [of m "d + 1"]) simp_all
      then show ?thesis unfolding unfold j(1) first using False False' by simp
    qed
  qed
qed

lemma used_gapped:
  assumes t: "table_ok cs el" and z: "z < length el" "el ! z \<noteq> 0"
  shows "gapped cs (el[z := 0]) z 0" "\<exists>m. 0 < m \<and> m < length (el[z := 0]) \<and> el[z := 0] ! around (el[z := 0]) z m = 0"
proof -
  have el: "el \<noteq> []" using z(1) by auto
  have "reach_gap (el[z := 0]) z (home cs el (el ! p - 1)) p" if p: "p < length el" "el ! p \<noteq> 0" for p
  proof -
    have "reach el (home cs el (el ! p - 1)) p" using t p by (simp add: table_ok_def)
    then show ?thesis unfolding reach_def reach_gap_def around_update by (metis nth_list_update_neq)
  qed
  then show "gapped cs (el[z := 0]) z 0" using z(1) by (auto simp: gapped_def nth_list_update)
  obtain m where m: "m < length el" "el ! around el z m = 0" using table_zero [OF t z(1)] by blast
  then have "0 < m" "around el z m \<noteq> z" using z by (auto intro: ccontr)
  then show "\<exists>m. 0 < m \<and> m < length (el[z := 0]) \<and> el[z := 0] ! around (el[z := 0]) z m = 0" using m by (intro exI [of _ m]) simp
qed

lemma close_gap_table:
  assumes t: "table_ok cs el" and z: "z < length el" "el ! z \<noteq> 0"
  shows "\<exists>el'. close_gap cs (el[z := 0]) z z = Some el' \<and> table_ok cs el' \<and> stored el' = stored el - {el ! z - 1}"
proof -
  obtain m where m: "0 < m" "m < length (el[z := 0])" "el[z := 0] ! around (el[z := 0]) z m = 0" using used_gapped(2) [OF t z] by blast
  obtain el' where r: "close_gap cs (el[z := 0]) z (around (el[z := 0]) z 0) = Some el'"
      "\<forall>p<length el'. el' ! p \<noteq> 0 \<longrightarrow> reach el' (home cs el' (el' ! p - 1)) p" "mset el' = mset (el[z := 0])"
    using close_gap_eq [OF used_gapped(1) [OF t z] m] by blast
  have ms: "mset el' = add_mset 0 (mset el - {#el ! z#})" unfolding r(3) by (rule mset_update [OF z(1)])
  have count: "count (mset el') x = count (mset el) x - (if x = el ! z then 1 else 0)" if "x \<noteq> 0" for x using that unfolding ms by simp
  have one: "count (mset el) x \<le> 1" if "x \<noteq> 0" for x using t that by (simp add: table_ok_def)
  have set: "x \<in> set el' \<longleftrightarrow> x \<in> set el \<and> x \<noteq> el ! z" if "x \<noteq> 0" for x
    using count [OF that] one [OF that] count_mset_0_iff [of el' x] count_mset_0_iff [of el x] by (cases "x = el ! z") auto
  have "0 \<in> set el'" using ms by (metis set_mset_mset union_single_eq_member)
  moreover have "\<forall>x \<in> set el'. x \<le> blockcnt cs" using set t by (metis le0 table_ok_def)
  moreover have "count (mset el') x \<le> 1" if "x \<noteq> 0" for x using count [OF that] one [OF that] by simp
  ultimately have "table_ok cs el'" unfolding table_ok_def using r(2) by (intro conjI) (use in_set_conv_nth in fastforce)+
  moreover have "i \<in> stored el' \<longleftrightarrow> i \<in> stored el - {el ! z - 1}" for i using set [of "i + 1"] z(2) unfolding stored_def by (cases "el ! z") simp_all
  then have "stored el' = stored el - {el ! z - 1}" by blast
  ultimately show ?thesis using r(1) z(1) by simp
qed

text \<open>The table as a set of blocks: lookups and removal.\<close>

lemma has_adler_exact:
  assumes "table_ok cs el"
  shows "psync_net_hash_has_adler el cs a = Some (\<exists>i \<in> stored el. adler (blocks cs ! i) = a)"
proof -
  have el: "el \<noteq> []" using assms by (simp add: table_ok_def)
  have home: "home cs el i = unat a mod length el" if "has_adler cs a i" for i using that by (simp add: has_adler_def home_def)
  obtain r where r: "probe el (has_adler cs a) (unat a mod length el) = Some r"
      "case r of None \<Rightarrow> \<forall>i \<in> stored el. \<not> has_adler cs a i | Some p \<Rightarrow> p < length el \<and> el ! p \<noteq> 0 \<and> has_adler cs a (el ! p - 1)"
    using probe_exact [OF assms, of "has_adler cs a" "unat a mod length el"] home el by auto
  have "r \<noteq> None \<longleftrightarrow> (\<exists>i \<in> stored el. adler (blocks cs ! i) = a)"
  proof (cases r)
    case (Some p)
    then have "el ! p - 1 \<in> stored el" "adler (blocks cs ! (el ! p - 1)) = a" using r(2) by (simp_all add: stored_def has_adler_def)
    then show ?thesis using Some by blast
  qed (use r(2) in \<open>simp add: has_adler_def\<close>)
  then show ?thesis by (simp add: psync_net_hash_has_adler_def r(1))
qed

lemma lookup_exact:
  assumes "table_ok cs el"
  obtains "psync_net_hash_has_adler_and_sha1 el cs a sh = Some 0" "psync_net_hash_remove el cs a sh = Some el"
      "\<forall>i \<in> stored el. \<not> (adler (blocks cs ! i) = a \<and> sha1 (blocks cs ! i) = sh)"
    | i el' where "psync_net_hash_has_adler_and_sha1 el cs a sh = Some (i + 1)" "i < blockcnt cs" "i \<in> stored el"
      "adler (blocks cs ! i) = a" "sha1 (blocks cs ! i) = sh" "psync_net_hash_remove el cs a sh = Some el'" "table_ok cs el'" "stored el' = stored el - {i}"
proof -
  have el: "el \<noteq> []" using assms by (simp add: table_ok_def)
  have home: "home cs el i = unat a mod length el" if "has_both cs a sh i" for i using that by (simp add: has_both_def home_def)
  obtain r where r: "probe el (has_both cs a sh) (unat a mod length el) = Some r"
      "case r of None \<Rightarrow> \<forall>i \<in> stored el. \<not> has_both cs a sh i | Some p \<Rightarrow> p < length el \<and> el ! p \<noteq> 0 \<and> has_both cs a sh (el ! p - 1)"
    using probe_exact [OF assms, of "has_both cs a sh" "unat a mod length el"] home el by auto
  show ?thesis
  proof (cases r)
    case None
    then show ?thesis
      using that(1) r by (simp add: psync_net_hash_has_adler_and_sha1_def psync_net_hash_remove_def has_both_def)
  next
    case (Some p)
    then have p: "p < length el" "el ! p \<noteq> 0" "has_both cs a sh (el ! p - 1)" using r(2) by simp_all
    obtain el' where el': "close_gap cs (el[p := 0]) p p = Some el'" "table_ok cs el'" "stored el' = stored el - {el ! p - 1}"
      using close_gap_table [OF assms p(1,2)] by blast
    have "el ! p \<in> set el" using p(1) by simp
    then have i: "el ! p - 1 \<in> stored el" "el ! p - 1 < blockcnt cs" using assms p(2) by (auto simp: stored_def table_ok_def)
    show ?thesis
      using that(2) [OF _ i(2,1) _ _ _ el'(2,3)] p r(1) Some el'(1)
      by (simp add: psync_net_hash_has_adler_and_sha1_def psync_net_hash_remove_def has_both_def)
  qed
qed

fun removals :: "file_checksums \<Rightarrow> (u32 \<times> byte list) list \<Rightarrow> nat list \<Rightarrow> nat list option" where
  "removals cs [] el = Some el"
| "removals cs ((a, sh) # rs) el = do { el \<leftarrow> psync_net_hash_remove el cs a sh; removals cs rs el }"

lemma removals_ok: "table_ok cs el \<Longrightarrow> \<exists>el'. removals cs rs el = Some el' \<and> table_ok cs el'"
proof (induction rs arbitrary: el)
  case (Cons r rs)
  obtain a sh where r: "r = (a, sh)" by fastforce
  obtain el1 where "psync_net_hash_remove el cs a sh = Some el1" "table_ok cs el1"
    by (rule lookup_exact [OF Cons.prems, of a sh]) (use Cons.prems in auto)
  then show ?case using Cons.IH by (simp add: r)
qed simp

text \<open>
  C22. The hash table of the blocks of a file is always built and always answers: the search for a prime size ends, every walk
  over the slots ends, after any sequence of removals, for any checksums however many of them collide. Of at most 64
  blocks none is dropped (of blocks with the same SHA-1 the table holds one); and the answers are exact:
  \<^verbatim>\<open>psync_net_hash_has_adler\<close> tells whether a block of the table has the checksum, \<^verbatim>\<open>psync_net_hash_has_adler_and_sha1\<close> gives
  a block with both checksums or 0 if the table has none, and \<^verbatim>\<open>psync_net_hash_remove\<close> removes that block and no other one.
\<close>

theorem block_hash_returns:
  assumes "nextsame cs = replicate (blockcnt cs) 0"
  shows "\<exists>cs' el. psync_net_create_hash cs = Some (cs', el) \<and> blocks cs' = blocks cs \<and>
    (blockcnt cs \<le> MAX_ADLER_COLL \<longrightarrow> (\<forall>i<blockcnt cs. \<exists>j \<in> stored el. sha1 (blocks cs ! j) = sha1 (blocks cs ! i))) \<and> (\<forall>rs. \<exists>el1. removals cs' rs el = Some el1 \<and>
    (\<forall>a. psync_net_hash_has_adler el1 cs' a = Some (\<exists>i \<in> stored el1. adler (blocks cs ! i) = a)) \<and>
    (\<forall>a sh. \<exists>n el2. psync_net_hash_has_adler_and_sha1 el1 cs' a sh = Some n \<and> psync_net_hash_remove el1 cs' a sh = Some el2 \<and>
      (if n = 0 then el2 = el1 \<and> (\<forall>i \<in> stored el1. adler (blocks cs ! i) = a \<longrightarrow> sha1 (blocks cs ! i) \<noteq> sh)
       else n - 1 \<in> stored el1 \<and> n \<le> blockcnt cs \<and> adler (blocks cs ! (n - 1)) = a \<and> sha1 (blocks cs ! (n - 1)) = sh \<and>
         stored el2 = stored el1 - {n - 1})))"
proof -
  obtain ns el where c: "psync_net_create_hash cs = Some (cs\<lparr>nextsame := ns\<rparr>, el)" "table_ok (cs\<lparr>nextsame := ns\<rparr>) el"
      "blockcnt cs \<le> MAX_ADLER_COLL \<longrightarrow> all_stored cs (blockcnt cs) el"
    using create_hash_ok [OF assms] by blast
  let ?cs = "cs\<lparr>nextsame := ns\<rparr>"
  have ans: "\<exists>n el2. psync_net_hash_has_adler_and_sha1 el1 ?cs a sh = Some n \<and> psync_net_hash_remove el1 ?cs a sh = Some el2 \<and>
      (if n = 0 then el2 = el1 \<and> (\<forall>i \<in> stored el1. adler (blocks cs ! i) = a \<longrightarrow> sha1 (blocks cs ! i) \<noteq> sh)
       else n - 1 \<in> stored el1 \<and> n \<le> blockcnt cs \<and> adler (blocks cs ! (n - 1)) = a \<and> sha1 (blocks cs ! (n - 1)) = sh \<and>
         stored el2 = stored el1 - {n - 1})" if "table_ok ?cs el1" for el1 a sh
    by (rule lookup_exact [OF that, of a sh]) auto
  have "\<exists>el1. removals ?cs rs el = Some el1 \<and> table_ok ?cs el1" for rs by (rule removals_ok [OF c(2)])
  then show ?thesis using c(1) c(3) [unfolded all_stored_def] ans has_adler_exact [of ?cs] by (intro exI [of _ ?cs] exI [of _ el]) fastforce
qed

definition sample_checksums :: file_checksums where
  "sample_checksums = \<lparr>filesize = 10, blocksize = 4, blocks = [\<lparr>sha1 = [1], adler = 3\<rparr>, \<lparr>sha1 = [2], adler = 10\<rparr>, \<lparr>sha1 = [1], adler = 3\<rparr>],
     nextsame = [0, 0, 0]\<rparr>"

lemma block_hash_returns_witness:
  "\<exists>cs' el. psync_net_create_hash sample_checksums = Some (cs', el) \<and>
    (\<forall>i<3. \<exists>j \<in> stored el. sha1 (blocks sample_checksums ! j) = sha1 (blocks sample_checksums ! i)) \<and>
    (\<exists>el1. removals cs' [(3, [1])] el = Some el1 \<and>
      psync_net_hash_has_adler el1 cs' 10 = Some (\<exists>i \<in> stored el1. adler (blocks sample_checksums ! i) = 10))"
proof -
  have n: "nextsame sample_checksums = replicate (blockcnt sample_checksums) 0" and b: "blockcnt sample_checksums = 3"
    by (simp_all add: sample_checksums_def numeral_eq_Suc)
  obtain cs' el where c: "psync_net_create_hash sample_checksums = Some (cs', el)"
      "3 \<le> MAX_ADLER_COLL \<longrightarrow> (\<forall>i<3. \<exists>j \<in> stored el. sha1 (blocks sample_checksums ! j) = sha1 (blocks sample_checksums ! i))"
      "\<forall>rs. \<exists>el1. removals cs' rs el = Some el1 \<and>
        (\<forall>a. psync_net_hash_has_adler el1 cs' a = Some (\<exists>i \<in> stored el1. adler (blocks sample_checksums ! i) = a))"
    using block_hash_returns [OF n] unfolding b by (elim exE conjE) blast
  have "(3 :: nat) \<le> MAX_ADLER_COLL" by simp
  then show ?thesis using c by (intro exI [of _ cs'] exI [of _ el]) blast
qed

end
