(* ===== verification/Pblockscan.thy ===== *)
theory Pblockscan
  imports Pblockhash
begin

section \<open>Delta downloads: finding the blocks of a remote file in local files\<close>

text \<open>
  The second half of the delta transfer of \<^verbatim>\<open>pnetlibs.c\<close>: \<^verbatim>\<open>psync_net_check_file_for_blocks\<close>, which reads a local file through a
  circular buffer of two halves and looks up the window of one block at every byte, and \<^verbatim>\<open>psync_net_download_ranges\<close>, which turns
  what was found into ranges to transfer and ranges to copy. SHA-1 is an argument; a file is the list of its bytes up to the
  first one that cannot be read, since a failing read ends the scan as the end of the file does. \<open>None\<close> is not returning, or
  following a null pointer.
\<close>

abbreviation PSYNC_COPY_BUFFER_SIZE :: nat where "PSYNC_COPY_BUFFER_SIZE \<equiv> 65536"

datatype range_type = PSYNC_RANGE_TRANSFER | PSYNC_RANGE_COPY

record block_action =
  aoff :: nat
  aidx :: nat
  atype :: range_type

text \<open>All blocks of the chain are copied from the place that was found.\<close>

partial_function (option) mark_chain :: "file_checksums \<Rightarrow> nat \<Rightarrow> nat \<Rightarrow> nat \<Rightarrow> block_action list \<Rightarrow> block_action list option" where
  "mark_chain cs cidx fileidx fileoffset acts =
     (let acts = acts[cidx := \<lparr>aoff = fileoffset, aidx = fileidx, atype = PSYNC_RANGE_COPY\<rparr>]; cidx = nextsame cs ! cidx
      in if cidx \<noteq> 0 then mark_chain cs (cidx - 1) fileidx fileoffset acts else Some acts)"

type_synonym found = "nat list \<times> block_action list"

definition psync_net_block_match_found :: "nat list \<Rightarrow> file_checksums \<Rightarrow> block_action list \<Rightarrow> nat \<Rightarrow> nat \<Rightarrow> nat \<Rightarrow> found option" where
  "psync_net_block_match_found el cs acts idx fileidx fileoffset =
     (let idx = idx - 1 in
      if atype (acts ! idx) \<noteq> PSYNC_RANGE_TRANSFER then Some (el, acts)
      else do { acts \<leftarrow> mark_chain cs idx fileidx fileoffset acts;
                el \<leftarrow> psync_net_hash_remove el cs (adler (blocks cs ! idx)) (sha1 (blocks cs ! idx));
                Some (el, acts) })"

text \<open>Looking up one window, given its checksums.\<close>

definition check_window :: "file_checksums \<Rightarrow> nat \<Rightarrow> u32 \<Rightarrow> byte list \<Rightarrow> nat \<Rightarrow> found \<Rightarrow> found option" where
  "check_window cs fileidx a sh fileoffset st = (case st of (el, acts) \<Rightarrow>
     do { b \<leftarrow> psync_net_hash_has_adler el cs a;
          if b then do { off \<leftarrow> psync_net_hash_has_adler_and_sha1 el cs a sh;
                         if off \<noteq> 0 then psync_net_block_match_found el cs acts off fileidx fileoffset else Some (el, acts) }
          else Some (el, acts) })"

text \<open>The buffer: \<open>spos\<close> is the position in the file.\<close>

record scan =
  sbuff :: "byte list"
  sbuffoff :: nat
  sbufferlen :: nat
  sin :: nat
  sout :: nat
  spos :: nat

definition psync_file_read :: "byte list \<Rightarrow> nat \<Rightarrow> nat \<Rightarrow> byte list" where
  "psync_file_read f pos n = take n (drop pos f)"

definition round_up :: "nat \<Rightarrow> nat \<Rightarrow> nat" where
  "round_up bs n = (n + bs - 1) div bs * bs"

definition put_bytes :: "nat \<Rightarrow> byte list \<Rightarrow> byte list \<Rightarrow> byte list" where
  "put_bytes off d buff = take off buff @ d @ drop (off + length d) buff"

definition scan_window :: "nat \<Rightarrow> scan \<Rightarrow> byte list" where
  "scan_window bs s = (if sout s < sin s then take bs (drop (sout s) (sbuff s)) else drop (sout s) (sbuff s) @ take (sin s) (sbuff s))"

text \<open>At the end of a block: going round the buffer, and reading its next half. \<open>None\<close> is the end of the scan.\<close>

definition scan_read :: "byte list \<Rightarrow> nat \<Rightarrow> nat \<Rightarrow> nat \<Rightarrow> scan \<Rightarrow> scan option" where
  "scan_read f bs hbuffersize start s =
     (let d = psync_file_read f (spos s) hbuffersize; s = s\<lparr>spos := spos s + length d\<rparr> in
      if length d \<noteq> hbuffersize then
        if d = [] then None
        else let n = round_up bs (length d) in
          Some (s\<lparr>sbuff := put_bytes start (d @ replicate (n - length d) 0) (sbuff s), sbufferlen := n + start\<rparr>)
      else Some (s\<lparr>sbuff := put_bytes start d (sbuff s)\<rparr>))"

definition scan_refill :: "byte list \<Rightarrow> nat \<Rightarrow> nat \<Rightarrow> scan \<Rightarrow> scan option" where
  "scan_refill f bs buffersize s =
     (let hbuffersize = buffersize div 2;
          s = (if sbufferlen s \<le> sout s then s\<lparr>sbuffoff := sbuffoff s + buffersize, sout := 0\<rparr> else s)
      in if sin s = sbufferlen s then
           if sbufferlen s \<noteq> buffersize then None else scan_read f bs hbuffersize 0 (s\<lparr>sin := 0\<rparr>)
         else if sin s = hbuffersize then scan_read f bs hbuffersize hbuffersize s
         else Some s)"

partial_function (option) scan_loop ::
    "(byte list \<Rightarrow> byte list) \<Rightarrow> byte list \<Rightarrow> file_checksums \<Rightarrow> nat \<Rightarrow> nat \<Rightarrow> u32 \<Rightarrow> scan \<Rightarrow> found \<Rightarrow> found option" where
  "scan_loop sha f cs buffersize fileidx a s st =
     do { st \<leftarrow> check_window cs fileidx a (sha (scan_window (blocksize cs) s)) (sbuffoff s + sout s) st;
          case (if sin s AND (blocksize cs - 1) = 0 then scan_refill f (blocksize cs) buffersize s else Some s) of
            None \<Rightarrow> Some st
          | Some s \<Rightarrow> scan_loop sha f cs buffersize fileidx (adler32_roll a (sbuff s ! sout s) (sbuff s ! sin s) (of_nat (blocksize cs)))
              (s\<lparr>sin := sin s + 1, sout := sout s + 1\<rparr>) st }"

definition scan_buffersize :: "nat \<Rightarrow> nat" where
  "scan_buffersize bs = (if bs * 2 > PSYNC_COPY_BUFFER_SIZE then bs * 2 else PSYNC_COPY_BUFFER_SIZE)"

definition psync_net_check_file_for_blocks ::
    "(byte list \<Rightarrow> byte list) \<Rightarrow> (nat \<Rightarrow> byte list) \<Rightarrow> byte list option \<Rightarrow> file_checksums \<Rightarrow> nat \<Rightarrow> found \<Rightarrow> found option" where
  "psync_net_check_file_for_blocks sha malloc file cs fileidx st =
     (case file of None \<Rightarrow> Some st
      | Some f \<Rightarrow>
        let bs = blocksize cs; buffersize = scan_buffersize bs; hbuffersize = buffersize div 2;
            d = psync_file_read f 0 hbuffersize; n = round_up bs (length d)
        in if length d < bs then Some st
           else let buff = put_bytes 0 (if length d < hbuffersize then d @ replicate (n - length d) 0 else d) (malloc buffersize);
                    s = \<lparr>sbuff = buff, sbuffoff = 0, sbufferlen = (if length d < hbuffersize then n else buffersize), sin = bs, sout = 0, spos = length d\<rparr>
                in scan_loop sha f cs buffersize fileidx (adler32 ADLER32_INITIAL (take bs buff)) s st)"

subsection \<open>The reference: every window of the file, padded with zeros to whole blocks\<close>

definition padded_file :: "nat \<Rightarrow> byte list \<Rightarrow> byte list" where
  "padded_file bs f = f @ replicate (round_up bs (length f) - length f) 0"

function scan_all :: "(byte list \<Rightarrow> byte list) \<Rightarrow> byte list \<Rightarrow> file_checksums \<Rightarrow> nat \<Rightarrow> nat \<Rightarrow> found \<Rightarrow> found option" where
  "scan_all sha g cs fileidx p st =
     (if p + blocksize cs \<le> length g then
        do { st \<leftarrow> (let w = take (blocksize cs) (drop p g) in check_window cs fileidx (adler32 ADLER32_INITIAL w) (sha w) p st);
             scan_all sha g cs fileidx (p + 1) st }
      else Some st)"
  by pat_completeness auto
termination by (relation "measure (\<lambda>(sha, g, cs, fi, p, st). length g + 1 - p)") auto

declare scan_all.simps [simp del]

lemma round_up:
  assumes "0 < bs"
  shows "round_up bs n mod bs = 0" "n \<le> round_up bs n" "round_up bs n < n + bs"
proof -
  let ?r = "(n + bs - 1) mod bs"
  have eq: "round_up bs n + ?r = n + bs - 1" by (simp add: round_up_def)
  have r: "?r < bs" using assms by simp
  show "round_up bs n mod bs = 0" by (simp add: round_up_def)
  show "n \<le> round_up bs n" "round_up bs n < n + bs" using eq r assms by linarith+
qed

lemma round_up_add:
  assumes "0 < bs" and m: "m mod bs = 0"
  shows "round_up bs (m + n) = m + round_up bs n"
proof -
  obtain k where k: "m = bs * k" using m by auto
  have e: "m + n + bs - 1 = bs * k + (n + bs - 1)" using assms k by simp
  have "(m + n + bs - 1) div bs = k + (n + bs - 1) div bs" unfolding e using assms(1) by (intro div_mult_self4) simp
  then show ?thesis by (simp add: round_up_def k algebra_simps)
qed

lemma round_up_le:
  assumes "0 < bs" and "n \<le> m" and "m mod bs = 0"
  shows "round_up bs n \<le> m"
proof -
  have "round_up bs n \<le> round_up bs (m + 0)" unfolding round_up_def using assms(2) by (intro mult_right_mono div_le_mono) auto
  also have "\<dots> = m" unfolding round_up_add [OF assms(1,3)] using assms(1) by (simp add: round_up_def)
  finally show ?thesis .
qed

text \<open>The scan of a file in terms of absolute positions. \<open>L\<close> is the end of what was read, a multiple of half the buffer.\<close>

definition loaded :: "byte list \<Rightarrow> nat \<Rightarrow> nat \<Rightarrow> nat \<Rightarrow> scan \<Rightarrow> bool" where
  "loaded f bs hb L s \<longleftrightarrow> length (sbuff s) = 2 * hb \<and> spos s = min L (length f) \<and> L mod hb = 0 \<and> hb \<le> L \<and> L < length f + hb \<and>
     sbufferlen s = (if L \<le> length f then 2 * hb else (L - hb) mod (2 * hb) + (length (padded_file bs f) - (L - hb))) \<and>
     (\<forall>x. L \<le> x + 2 * hb \<longrightarrow> x < L \<longrightarrow> x < length (padded_file bs f) \<longrightarrow> sbuff s ! (x mod (2 * hb)) = padded_file bs f ! x)"

text \<open>At the head of the loop, and before the step to the next byte; \<open>p\<close> is the start of the window.\<close>

definition at_head :: "byte list \<Rightarrow> nat \<Rightarrow> nat \<Rightarrow> nat \<Rightarrow> scan \<Rightarrow> bool" where
  "at_head f bs hb p s \<longleftrightarrow> p + bs \<le> length (padded_file bs f) \<and> sout s + 2 * hb * ((p - 1) div (2 * hb)) = p \<and> sbuffoff s = 2 * hb * ((p - 1) div (2 * hb)) \<and>
     sin s + 2 * hb * ((p + bs - 1) div (2 * hb)) = p + bs \<and> loaded f bs hb (hb * ((p + bs - 1) div hb + 1)) s"

definition at_step :: "byte list \<Rightarrow> nat \<Rightarrow> nat \<Rightarrow> nat \<Rightarrow> scan \<Rightarrow> bool" where
  "at_step f bs hb p s \<longleftrightarrow> p + bs < length (padded_file bs f) \<and> sout s = p mod (2 * hb) \<and> sbuffoff s = 2 * hb * (p div (2 * hb)) \<and>
     sin s = (p + bs) mod (2 * hb) \<and> loaded f bs hb (hb * ((p + bs) div hb + 1)) s"

lemma put_bytes:
  assumes "off + length d \<le> length buff"
  shows "length (put_bytes off d buff) = length buff"
    "i < length buff \<Longrightarrow> put_bytes off d buff ! i = (if off \<le> i \<and> i < off + length d then d ! (i - off) else buff ! i)"
  using assms by (auto simp: put_bytes_def nth_append)

lemma div_pred: "0 < m \<Longrightarrow> x mod m \<noteq> 0 \<Longrightarrow> (x - 1) div m = x div (m :: nat)"
  by (cases x) (auto simp: div_Suc split: if_splits)

lemma div_pred0: "0 < m \<Longrightarrow> x mod m = 0 \<Longrightarrow> 0 < x \<Longrightarrow> (x - 1) div m + 1 = x div (m :: nat)"
  by (cases x) (auto simp: div_Suc split: if_splits)

lemma pred_split: "0 < m \<Longrightarrow> 0 < x \<Longrightarrow> r + m * ((x - 1) div m) = x \<Longrightarrow> r = (x - 1) mod m + (1 :: nat)"
  using mult_div_mod_eq [of m "x - 1"] by linarith

lemma length_padded_file: "0 < bs \<Longrightarrow> length (padded_file bs f) = round_up bs (length f)"
  using round_up(2) [of bs "length f"] by (simp add: padded_file_def)

lemma nth_padded: "x < length f \<Longrightarrow> padded_file bs f ! x = f ! x"
  by (simp add: padded_file_def nth_append)

text \<open>The data that a read puts into the buffer, with the zeros behind it.\<close>

lemma read_padded:
  assumes bs: "0 < bs" "hb mod bs = 0" "E mod bs = 0" and E: "E < length f" and hb: "0 < hb"
  shows "let d = psync_file_read f E hb in d \<noteq> [] \<and>
    (if length d \<noteq> hb then d @ replicate (round_up bs (length d) - length d) 0 = take hb (drop E (padded_file bs f)) \<and> length f < E + hb \<and>
         E + round_up bs (length d) = length (padded_file bs f) \<and> length d = length f - E
     else d = take hb (drop E (padded_file bs f)) \<and> E + hb \<le> length f)"
proof -
  let ?d = "psync_file_read f E hb" and ?r = "length f - E"
  have len: "length ?d = min hb ?r" by (simp add: psync_file_read_def min.commute)
  have ru: "round_up bs (length f) = E + round_up bs ?r" using round_up_add [OF bs(1,3), of ?r] E by simp
  show ?thesis
  proof (cases "hb \<le> ?r")
    case True
    then show ?thesis using E hb len by (simp add: psync_file_read_def padded_file_def)
  next
    case False
    then have d: "?d = drop E f" "length ?d = ?r" by (simp_all add: psync_file_read_def)
    have "round_up bs ?r \<le> hb" using False by (intro round_up_le [OF bs(1) _ bs(2)]) simp
    then have "d @ replicate (round_up bs ?r - ?r) 0 = take hb (drop E (padded_file bs f))" if "d = drop E f" for d
      using that E ru round_up(2) [OF bs(1), of ?r] by (simp add: padded_file_def take_all)
    then show ?thesis using False E d ru length_padded_file [OF bs(1), of f] by simp
  qed
qed

lemma mod_back:
  assumes "E \<le> x + N" and "x < E"
  shows "x mod N = (E mod N + N - (E - x)) mod (N :: nat)"
proof -
  have "(E mod N + N - (E - x)) + E div N * N = x + N" using assms div_mult_mod_eq [of E N] by linarith
  then show ?thesis by (metis mod_add_self2 mod_mult_self1)
qed

lemma half_mod: "E mod hb = 0 \<Longrightarrow> E mod (2 * hb) = 0 \<or> E mod (2 * hb) = (hb :: nat)"
proof -
  assume "E mod hb = 0"
  then obtain k where k: "E = hb * k" by auto
  have "E mod (2 * hb) = hb * (k mod 2)" unfolding k by (metis mult.commute mult_mod_right)
  moreover have "k mod 2 = 0 \<or> k mod 2 = 1" by linarith
  ultimately show ?thesis by (elim disjE) (simp_all only: mult_0_right mult_1_right simp_thms)
qed

lemma loaded_put:
  assumes bs: "0 < bs" "hb mod bs = 0" "0 < hb" and E: "E mod hb = 0" "hb \<le> E" "E < length f" and l: "loaded f bs hb E s"
    and s': "length (sbuff s') = 2 * hb" "sbuff s' = put_bytes (E mod (2 * hb)) (take hb (drop E (padded_file bs f))) (sbuff s)" "spos s' = min (E + hb) (length f)"
      "sbufferlen s' = (if E + hb \<le> length f then 2 * hb else E mod (2 * hb) + (length (padded_file bs f) - E))"
  shows "loaded f bs hb (E + hb) s'"
proof -
  let ?G = "padded_file bs f" and ?N = "2 * hb"
  note hN = half_mod [OF E(1)]
  have room: "E mod ?N + length (take hb (drop E ?G)) \<le> length (sbuff s)" using hN l by (auto simp: loaded_def)
  have "sbuff s' ! (x mod ?N) = ?G ! x" if x: "E + hb \<le> x + ?N" "x < E + hb" "x < length ?G" for x
  proof -
    have N: "x mod ?N < length (sbuff s)" using bs(3) l by (simp add: loaded_def)
    show ?thesis
    proof (cases "E \<le> x")
      case True
      then obtain r where r: "x = E + r" using le_Suc_ex by blast
      have "E mod ?N + r < ?N" using hN x(2) unfolding r by auto
      then have "x mod ?N = E mod ?N + r" using mod_add_left_eq [of E ?N r] unfolding r by simp
      then show ?thesis unfolding s'(2) put_bytes(2) [OF room N] using x unfolding r by (simp add: less_diff_conv add.commute)
    next
      case False
      have "\<not> (E mod ?N \<le> x mod ?N \<and> x mod ?N < E mod ?N + hb)"
      proof
        assume a: "E mod ?N \<le> x mod ?N \<and> x mod ?N < E mod ?N + hb"
        have "x mod ?N = (E mod ?N + ?N - (E - x)) mod ?N" using False x(1) by (intro mod_back) auto
        moreover define d where "d = E - x"
        ultimately have xd: "x mod ?N = (E mod ?N + ?N - d) mod ?N" by simp
        have d: "0 < d" "d \<le> hb" using False x(1) by (auto simp: d_def)
        have one: "(hb + ?N - d) mod ?N = hb - d"
        proof -
          have "hb + ?N - d = (hb - d) + ?N" using d by simp
          then show ?thesis using d by (simp only: mod_add_self2) simp
        qed
        have zero: "(0 + ?N - d) mod ?N = ?N - d" using d bs(3) by simp
        from hN show False
        proof
          assume E0: "E mod ?N = 0"
          show False using a d xd [unfolded E0 zero] unfolding E0 by linarith
        next
          assume Eh: "E mod ?N = hb"
          show False using a d xd [unfolded Eh one] unfolding Eh by linarith
        qed
      qed
      then have "sbuff s' ! (x mod ?N) = sbuff s ! (x mod ?N)" unfolding s'(2) put_bytes(2) [OF room N] by auto
      then show ?thesis using l False x by (simp add: loaded_def)
    qed
  qed
  moreover have "E + hb < length f + hb" using E(3) by simp
  ultimately show ?thesis using s' E by (simp add: loaded_def)
qed

text \<open>The positions at the head of the loop; \<open>C\<close> is the start of the half that was read last.\<close>

lemma at_head_places:
  assumes bs: "0 < bs" "hb mod bs = 0" "0 < hb" and h: "at_head f bs hb p s"
  defines "C \<equiv> hb * ((p + bs - 1) div hb)"
  shows "C mod hb = 0" "C < p + bs" "p + bs \<le> C + hb" "loaded f bs hb (C + hb) s" "sin s = C mod (2 * hb) + (p + bs - C)" "C < length f"
    "C mod bs = 0" "(C + hb) mod (2 * hb) = (if C mod (2 * hb) = 0 then hb else 0)"
proof -
  let ?N = "2 * hb" and ?e = "p + bs - 1"
  have e: "C + ?e mod hb = ?e" by (simp add: C_def)
  have r: "?e mod hb < hb" using bs(3) by simp
  have p: "0 < p + bs" using bs(1) by simp
  show C: "C mod hb = 0" by (simp add: C_def)
  show Ce: "C < p + bs" "p + bs \<le> C + hb" using e r p by linarith+
  show l: "loaded f bs hb (C + hb) s" using h by (simp add: at_head_def C_def algebra_simps)
  then show "C < length f" by (simp add: loaded_def)
  show "C mod bs = 0" using bs(2) unfolding C_def by (metis dvd_eq_mod_eq_0 dvd_mult2)
  have N: "C mod ?N + (?e - C) < ?N" using half_mod [OF C] e r by auto
  have "?e mod ?N = C mod ?N + (?e - C)"
    using mod_add_left_eq [of C ?N "?e - C"] N Ce(1) by (metis le_add_diff_inverse less_or_eq_imp_le mod_less e le_add1)
  moreover have "sin s = ?e mod ?N + 1" using bs(3) h p by (intro pred_split) (auto simp: at_head_def)
  ultimately show "sin s = C mod ?N + (p + bs - C)" using Ce(1) e by linarith
  show "(C + hb) mod ?N = (if C mod ?N = 0 then hb else 0)"
    using half_mod [OF C] mod_add_left_eq [of C ?N hb] bs(3) by (auto simp flip: mult_2)
qed

lemma at_step_inner:
  assumes bs: "0 < bs" "hb mod bs = 0" "0 < hb" and h: "at_head f bs hb p s" and e: "(p + bs) mod bs \<noteq> 0"
  shows "at_step f bs hb p s"
proof -
  have nz: "x mod hb \<noteq> 0" "x mod (2 * hb) \<noteq> 0" if "x mod bs \<noteq> 0" for x
    using that bs(2) by (metis dvd_eq_mod_eq_0 dvd_trans dvd_triv_right mod_0_imp_dvd)+
  have p: "p mod bs \<noteq> 0" using e by simp
  have "p + bs \<noteq> length (padded_file bs f)" using e round_up(1) [OF bs(1)] length_padded_file [OF bs(1)] by metis
  moreover have "(p + bs - 1) div (2 * hb) = (p + bs) div (2 * hb)" "(p + bs - 1) div hb = (p + bs) div hb" "(p - 1) div (2 * hb) = p div (2 * hb)"
    using div_pred [OF _ nz(2) [OF e]] div_pred [OF _ nz(1) [OF e]] div_pred [OF _ nz(2) [OF p]] bs(3) by simp_all
  ultimately have "p + bs < length (padded_file bs f)" "sout s + 2 * hb * (p div (2 * hb)) = p" "sbuffoff s = 2 * hb * (p div (2 * hb))"
      "sin s + 2 * hb * ((p + bs) div (2 * hb)) = p + bs" "loaded f bs hb (hb * ((p + bs) div hb + 1)) s"
    using h by (simp_all add: at_head_def)
  then show ?thesis unfolding at_step_def by (metis add_diff_cancel_right' minus_mult_div_eq_mod)
qed

lemma loaded_cong: "loaded f bs hb L s \<Longrightarrow> sbuff s' = sbuff s \<Longrightarrow> spos s' = spos s \<Longrightarrow> sbufferlen s' = sbufferlen s \<Longrightarrow> loaded f bs hb L s'"
  by (simp add: loaded_def)

definition go_round :: "nat \<Rightarrow> scan \<Rightarrow> scan" where
  "go_round N s = (if sbufferlen s \<le> sout s then s\<lparr>sbuffoff := sbuffoff s + N, sout := 0\<rparr> else s)"

lemma go_round:
  assumes bs: "0 < bs" "hb mod bs = 0" "0 < hb" and h: "at_head f bs hb p s" and e: "p mod bs = 0"
  shows "sout (go_round (2 * hb) s) = p mod (2 * hb)" "sbuffoff (go_round (2 * hb) s) = 2 * hb * (p div (2 * hb))"
    "sin (go_round (2 * hb) s) = sin s" "sbuff (go_round (2 * hb) s) = sbuff s" "spos (go_round (2 * hb) s) = spos s"
    "sbufferlen (go_round (2 * hb) s) = sbufferlen s"
proof -
  let ?N = "2 * hb" and ?G = "padded_file bs f"
  define C where "C = hb * ((p + bs - 1) div hb)"
  note C = at_head_places [OF bs h, folded C_def]
  have "bs dvd p + bs - C" using e C(7) by (intro dvd_diff_nat) auto
  then have Cp: "C \<le> p" using C(2) dvd_imp_le [of bs "p + bs - C"] by linarith
  have pG: "p < length ?G" "p < C + hb" using h C(3) bs(1) by (simp_all add: at_head_def)
  have len: "sbufferlen s \<le> ?N"  "0 < sbufferlen s" "p mod ?N < sbufferlen s"
  proof -
    have l: "sbufferlen s = (if C + hb \<le> length f then ?N else C mod ?N + (length ?G - C))" using C(4) by (simp add: loaded_def)
    have "length ?G \<le> C + hb" if "length f < C + hb"
      unfolding length_padded_file [OF bs(1)] using that C(7) bs by (intro round_up_le) (auto simp flip: dvd_eq_mod_eq_0)
    then show "sbufferlen s \<le> ?N" using l half_mod [OF C(1)] by (auto split: if_splits)
    obtain r where r: "p = C + r" using Cp le_Suc_ex by blast
    have small: "C mod ?N + r < ?N" using half_mod [OF C(1)] pG(2) unfolding r by auto
    then have "p mod ?N = C mod ?N + r" unfolding r using mod_add_left_eq [of C ?N r] by simp
    moreover have "r < length ?G - C" using pG(1) unfolding r by simp
    ultimately show "p mod ?N < sbufferlen s" using l small by (cases "C + hb \<le> length f") simp_all
    then show "0 < sbufferlen s" by simp
  qed
  have so: "sout s + ?N * ((p - 1) div ?N) = p" "sbuffoff s = ?N * ((p - 1) div ?N)" using h by (simp_all add: at_head_def)
  have N: "0 < ?N" using bs(3) by simp
  consider "p = 0" | "0 < p" "p mod ?N = 0" | "p mod ?N \<noteq> 0" by fastforce
  then have "sout (go_round ?N s) = p mod ?N \<and> sbuffoff (go_round ?N s) = ?N * (p div ?N)"
  proof cases
    case 1
    then show ?thesis using so len by (simp add: go_round_def)
  next
    case 2
    have d: "(p - 1) div ?N + 1 = p div ?N" by (rule div_pred0 [OF N 2(2,1)])
    have "?N * (p div ?N) = p" using mult_div_mod_eq [of ?N p] 2(2) by simp
    then have so': "sout s = ?N" "sbuffoff s + ?N = p" using so unfolding d [symmetric] by (simp_all add: algebra_simps)
    then show ?thesis using 2(2) len(1) \<open>?N * (p div ?N) = p\<close> by (simp add: go_round_def)
  next
    case 3
    have d: "(p - 1) div ?N = p div ?N" by (rule div_pred [OF N 3])
    have so': "sout s = p mod ?N" using so(1) mult_div_mod_eq [of ?N p] unfolding d by linarith
    then show ?thesis using so(2) len(3) unfolding d by (simp add: go_round_def)
  qed
  then show "sout (go_round ?N s) = p mod ?N" "sbuffoff (go_round ?N s) = ?N * (p div ?N)" by blast+
  show "sin (go_round ?N s) = sin s" "sbuff (go_round ?N s) = sbuff s" "spos (go_round ?N s) = spos s" "sbufferlen (go_round ?N s) = sbufferlen s"
    by (simp_all add: go_round_def)
qed

lemma scan_refill_eq:
  "scan_refill f bs (2 * hb) s =
    (let s = go_round (2 * hb) s in
     if sin s = sbufferlen s then if sbufferlen s \<noteq> 2 * hb then None else scan_read f bs hb 0 (s\<lparr>sin := 0\<rparr>)
     else if sin s = hb then scan_read f bs hb hb s else Some s)"
  by (simp add: scan_refill_def go_round_def Let_def)

lemma scan_read_loaded:
  assumes bs: "0 < bs" "hb mod bs = 0" "0 < hb" and E: "E mod hb = 0" "hb \<le> E" "E < length f" and l: "loaded f bs hb E s"
  shows "\<exists>s'. scan_read f bs hb (E mod (2 * hb)) s = Some s' \<and> loaded f bs hb (E + hb) s' \<and> sin s' = sin s \<and> sout s' = sout s \<and> sbuffoff s' = sbuffoff s"
proof -
  let ?N = "2 * hb" and ?D = "take hb (drop E (padded_file bs f))"
  define d where "d = psync_file_read f E hb"
  define n where "n = round_up bs (length d)"
  have Ebs: "E mod bs = 0" using E(1) bs(2) by (metis dvd_trans mod_0_imp_dvd mod_eq_0_iff_dvd)
  have pos: "spos s = E" "sbufferlen s = ?N" "length (sbuff s) = ?N" using l E(3) by (simp_all add: loaded_def)
  have "E mod ?N + length ?D \<le> length (sbuff s)" using half_mod [OF E(1)] pos(3) by auto
  then have len: "length (put_bytes (E mod ?N) ?D (sbuff s)) = ?N" using put_bytes(1) pos(3) by metis
  note r = read_padded [OF bs(1,2) Ebs E(3) bs(3), folded d_def, unfolded Let_def, folded n_def]
  show ?thesis
  proof (cases "length d = hb")
    case True
    then have d: "d = ?D" "E + hb \<le> length f" using r by simp_all
    have "scan_read f bs hb (E mod ?N) s = Some (s\<lparr>spos := E + hb, sbuff := put_bytes (E mod ?N) ?D (sbuff s)\<rparr>)" (is "_ = Some ?s'")
      using True d(1) pos(1) by (simp add: scan_read_def Let_def flip: d_def)
    moreover have "loaded f bs hb (E + hb) ?s'" using d(2) len pos(2) by (intro loaded_put [OF bs E l]) simp_all
    ultimately show ?thesis by auto
  next
    case False
    then have d: "d \<noteq> []" "d @ replicate (n - length d) 0 = ?D" "length f < E + hb" "E + n = length (padded_file bs f)" "length d = length f - E"
      using r unfolding if_P [OF False] by blast+
    have "scan_read f bs hb (E mod ?N) s =
        Some (s\<lparr>spos := E + length d, sbuff := put_bytes (E mod ?N) ?D (sbuff s), sbufferlen := n + E mod ?N\<rparr>)" (is "_ = Some ?s'")
      using False d(1,2) pos(1) by (simp add: scan_read_def Let_def flip: d_def n_def)
    moreover have "loaded f bs hb (E + hb) ?s'" using d(3,4,5) len E(3) by (intro loaded_put [OF bs E l]) simp_all
    ultimately show ?thesis by auto
  qed
qed

lemma refill_end:
  assumes bs: "0 < bs" "hb mod bs = 0" "0 < hb" and h: "at_head f bs hb p s" and e: "p mod bs = 0" "p + bs = length (padded_file bs f)"
  shows "scan_refill f bs (2 * hb) s = None"
proof -
  let ?N = "2 * hb" and ?G = "padded_file bs f" and ?s = "go_round (2 * hb) s"
  define C where "C = hb * ((p + bs - 1) div hb)"
  note C = at_head_places [OF bs h, folded C_def] and g = go_round [OF bs h e(1)]
  have l: "sbufferlen s = (if C + hb \<le> length f then ?N else C mod ?N + (length ?G - C))" "spos s = min (C + hb) (length f)"
    using C(4) by (simp_all add: loaded_def)
  have fG: "length f \<le> length ?G" unfolding length_padded_file [OF bs(1)] by (rule round_up(2) [OF bs(1)])
  have no_more: "scan_read f bs hb start s1 = None" if "length f \<le> spos s" "spos s1 = spos s" for start s1
    using that bs(3) by (simp add: scan_read_def psync_file_read_def Let_def)
  have none: "scan_read f bs hb 0 (?s\<lparr>sin := 0\<rparr>) = None" "scan_read f bs hb hb ?s = None" if "length f \<le> spos s"
    by (simp_all add: no_more [OF that] g(5))
  have end_of_file: "length f \<le> spos s" if "sin s = sbufferlen s \<and> sbufferlen s = ?N \<or> C + hb \<le> length f"
    using l C(3) e(2) fG by (auto split: if_splits)
  show ?thesis
  proof (cases "C + hb \<le> length f")
    case False
    then have "sin s = sbufferlen s" using l(1) C(5) e(2) by simp
    then show ?thesis unfolding scan_refill_eq Let_def g(3,6) using end_of_file none by auto
  next
    case True
    then have "p + bs = C + hb" using C(3) e(2) fG by simp
    then have "sin s = C mod ?N + hb" using C(5) by simp
    then have "sin s = ?N \<or> sin s = hb" using half_mod [OF C(1)] by auto
    moreover have "sbufferlen s = ?N" using l(1) True by simp
    ultimately show ?thesis unfolding scan_refill_eq Let_def g(3,6) using end_of_file True none by auto
  qed
qed

lemma refill_more:
  assumes bs: "0 < bs" "hb mod bs = 0" "0 < hb" and h: "at_head f bs hb p s" and e: "p mod bs = 0" "p + bs < length (padded_file bs f)"
  shows "\<exists>s'. scan_refill f bs (2 * hb) s = Some s' \<and> at_step f bs hb p s'"
proof -
  let ?N = "2 * hb" and ?G = "padded_file bs f" and ?s = "go_round (2 * hb) s" and ?E = "p + bs"
  define C where "C = hb * ((?E - 1) div hb)"
  note C = at_head_places [OF bs h, folded C_def] and g = go_round [OF bs h e(1)]
  have l: "sbufferlen s = (if C + hb \<le> length f then ?N else C mod ?N + (length ?G - C))" "spos s = min (C + hb) (length f)"
      "length (sbuff s) = ?N"
    using C(4) by (simp_all add: loaded_def)
  show ?thesis
  proof (cases "?E = C + hb")
    case False
    then have E: "C < ?E" "?E < C + hb" using C(2,3) by simp_all
    have "sin s \<noteq> sbufferlen s"
    proof (cases "C + hb \<le> length f")
      case True
      then show ?thesis using l(1) C(5) E half_mod [OF C(1)] by auto
    next
      case False
      then show ?thesis using l(1) C(5) e(2) E(1) by auto
    qed
    moreover have "sin s \<noteq> hb" using C(5) E half_mod [OF C(1)] by auto
    ultimately have "scan_refill f bs ?N s = Some ?s" unfolding scan_refill_eq Let_def g(3,6) by simp
    moreover have "at_step f bs hb p ?s"
    proof -
      obtain r where r: "?E = C + r" using le_Suc_ex [OF less_imp_le [OF E(1)]] by blast
      have "r < hb" "0 < r" using E unfolding r by simp_all
      obtain q where q: "C = hb * q" using C(1) by auto
      have "?E div hb = q" using \<open>r < hb\<close> unfolding r q by simp
      then have "hb * (?E div hb + 1) = C + hb" using q by simp
      moreover have "C mod ?N + r < ?N" using half_mod [OF C(1)] \<open>r < hb\<close> by auto
      then have "?E mod ?N = C mod ?N + r" unfolding r using mod_add_left_eq [of C ?N r] by simp
      moreover have "sin s = C mod ?N + r" using C(5) unfolding r by simp
      moreover have "loaded f bs hb (C + hb) ?s" using C(4) g(4-6) by (rule loaded_cong)
      ultimately show ?thesis using e(2) g(1-3) unfolding at_step_def by (simp add: add.commute [of C])
    qed
    ultimately show ?thesis by blast
  next
    case True
    have Emod: "?E mod hb = 0" "hb \<le> ?E" using C(1) True by simp_all
    have Ebs: "?E mod bs = 0" using e(1) by simp
    have Ef: "?E < length f"
    proof (rule ccontr)
      assume "\<not> ?E < length f"
      then have "length ?G \<le> ?E" unfolding length_padded_file [OF bs(1)] using Ebs by (intro round_up_le [OF bs(1)]) simp_all
      then show False using e(2) by simp
    qed
    have N: "?E mod ?N = (if C mod ?N = 0 then hb else 0)" using C(8) unfolding True .
    define s0 where "s0 = ?s\<lparr>sin := ?E mod ?N\<rparr>"
    have full: "sbufferlen s = ?N" "sin s = C mod ?N + hb" using l(1) Ef C(5) unfolding True by simp_all
    have "scan_refill f bs ?N s = scan_read f bs hb (?E mod ?N) s0"
    proof (cases "C mod ?N = 0")
      case True
      have "s0 = ?s" using full(2) True N g(3) by (simp add: s0_def)
      then show ?thesis unfolding scan_refill_eq Let_def g(3,6) full N using True bs(3) by simp
    next
      case False
      then have "C mod ?N = hb" using half_mod [OF C(1)] by simp
      then show ?thesis unfolding scan_refill_eq Let_def g(3,6) full N s0_def using bs(3) by simp
    qed
    moreover have "loaded f bs hb ?E s0" using C(4) unfolding True [symmetric] by (rule loaded_cong) (simp_all add: s0_def g)
    then obtain s' where "scan_read f bs hb (?E mod ?N) s0 = Some s'" "loaded f bs hb (?E + hb) s'" "sin s' = sin s0" "sout s' = sout s0" "sbuffoff s' = sbuffoff s0"
      using scan_read_loaded [OF bs Emod(1,2) Ef] by blast
    moreover have "hb * (?E div hb + 1) = ?E + hb" using mult_div_mod_eq [of hb ?E] Emod(1) by simp
    ultimately show ?thesis using e(2) g by (auto simp: at_step_def s0_def add.commute [of hb])
  qed
qed

lemma window_at:
  assumes bs: "0 < bs" "hb mod bs = 0" "0 < hb" and h: "at_head f bs hb p s"
  shows "scan_window bs s = take bs (drop p (padded_file bs f))"
proof -
  let ?G = "padded_file bs f"
  define N where "N = 2 * hb"
  define C where "C = hb * ((p + bs - 1) div hb)"
  define q where "q = (p - 1) div N"
  define q' where "q' = (p + bs - 1) div N"
  note C = at_head_places [OF bs h, folded C_def, folded N_def]
  have le: "bs \<le> hb" using bs(2,3) by (metis dvd_imp_le mod_0_imp_dvd)
  have buff: "sbuff s ! ((p + i) mod N) = ?G ! (p + i)" if "i < bs" for i
    using C(2-4) h le that by (simp add: loaded_def at_head_def N_def)
  have so: "sout s + N * q = p" "sin s + N * q' = p + bs" using h by (simp_all add: at_head_def q_def q'_def N_def)
  have N: "0 < N" "bs + bs \<le> N" "length (sbuff s) = N" using bs(3) le C(4) by (simp_all add: N_def loaded_def)
  have "sout s \<le> N"
  proof (cases "p = 0")
    case False
    then have "sout s = (p - 1) mod N + 1" using pred_split [OF N(1), of p "sout s"] so(1) by (simp add: q_def)
    then show ?thesis using N(1) by (metis Suc_eq_plus1 Suc_leI mod_less_divisor)
  qed (use so in simp)
  have "sin s = (p + bs - 1) mod N + 1" using pred_split [OF N(1), of "p + bs" "sin s"] so(2) bs(1) by (simp add: q'_def)
  then have sin: "0 < sin s" "sin s \<le> N" using N(1) by (simp_all add: Suc_leI)
  have G: "p + bs \<le> length ?G" using h by (simp add: at_head_def)
  have at: "(p + i) mod N = (sout s + i) mod N" for i unfolding so(1) [symmetric] by (metis add.assoc add.commute mod_mult_self2)
  show ?thesis
  proof (cases "q' = q")
    case True
    then have eq: "sin s = sout s + bs" using so by simp
    have "take bs (drop (sout s) (sbuff s)) = take bs (drop p ?G)"
    proof (rule nth_equalityI)
      show "length (take bs (drop (sout s) (sbuff s))) = length (take bs (drop p ?G))" using eq sin(2) N(3) G by simp
      fix i
      assume "i < length (take bs (drop (sout s) (sbuff s)))"
      then have i: "i < bs" by simp
      then have "(p + i) mod N = sout s + i" unfolding at using eq sin(2) by simp
      then show "take bs (drop (sout s) (sbuff s)) ! i = take bs (drop p ?G) ! i" using i buff [OF i] eq sin(2) N(3) G by simp
    qed
    then show ?thesis using eq bs(1) by (simp add: scan_window_def)
  next
    case False
    have "q \<le> q'" unfolding q_def q'_def by (intro div_le_mono) simp
    then obtain d where d: "q' = q + 1 + d" using False by (metis Suc_eq_plus1 Suc_leI le_add_diff_inverse nat_less_le)
    have "sin s + N * d + N = sout s + bs" using so unfolding d by (simp add: algebra_simps)
    moreover have "d = 0"
    proof (rule ccontr)
      assume "d \<noteq> 0"
      then have "N \<le> N * d" by simp
      then show False using calculation \<open>sout s \<le> N\<close> N(2) sin(1) bs(1) by linarith
    qed
    ultimately have eq: "sin s + N = sout s + bs" by simp
    then have less: "\<not> sout s < sin s" "sin s \<le> bs" using N(2) bs(1) \<open>sout s \<le> N\<close> by linarith+
    have "drop (sout s) (sbuff s) @ take (sin s) (sbuff s) = take bs (drop p ?G)"
    proof (rule nth_equalityI)
      show "length (drop (sout s) (sbuff s) @ take (sin s) (sbuff s)) = length (take bs (drop p ?G))"
        using eq sin(2) N(3) G \<open>sout s \<le> N\<close> by simp
      fix i
      assume "i < length (drop (sout s) (sbuff s) @ take (sin s) (sbuff s))"
      then have i: "i < bs" using eq sin(2) N(3) \<open>sout s \<le> N\<close> by simp
      show "(drop (sout s) (sbuff s) @ take (sin s) (sbuff s)) ! i = take bs (drop p ?G) ! i"
      proof (cases "i < N - sout s")
        case True
        then have "(p + i) mod N = sout s + i" unfolding at by simp
        then show ?thesis using True i buff [OF i] N(3) G \<open>sout s \<le> N\<close> by (simp add: nth_append)
      next
        case False
        define j where "j = i - (N - sout s)"
        have j: "sout s + i = N + j" "j < sin s" "j < N" using False i eq \<open>sout s \<le> N\<close> sin(2) unfolding j_def by linarith+
        then have "(p + i) mod N = j" unfolding at by simp
        then show ?thesis using False j(2,3) i buff [OF i] N(3) G by (simp add: nth_append flip: j_def)
      qed
    qed
    then show ?thesis using less by (simp add: scan_window_def)
  qed
qed

lemma step_next:
  assumes bs: "0 < bs" "hb mod bs = 0" "0 < hb" and h: "at_step f bs hb p s"
  shows "sbuff s ! sout s = padded_file bs f ! p" "sbuff s ! sin s = padded_file bs f ! (p + bs)" "at_head f bs hb (p + 1) (s\<lparr>sin := sin s + 1, sout := sout s + 1\<rparr>)"
proof -
  define L where "L = hb * ((p + bs) div hb + 1)"
  have le: "bs \<le> hb" using bs(2,3) by (metis dvd_imp_le mod_0_imp_dvd)
  have L: "p + bs < L" "L \<le> p + bs + hb" using mult_div_mod_eq [of hb "p + bs"] mod_less_divisor [OF bs(3), of "p + bs"]
    unfolding L_def distrib_left mult_1_right by linarith+
  have l: "loaded f bs hb L s" "p + bs < length (padded_file bs f)" "sout s = p mod (2 * hb)" "sin s = (p + bs) mod (2 * hb)"
    using h by (simp_all add: at_step_def L_def)
  show "sbuff s ! sout s = padded_file bs f ! p" using l(1,2) L le unfolding l(3) by (simp add: loaded_def)
  show "sbuff s ! sin s = padded_file bs f ! (p + bs)" using l(1,2) L le unfolding l(4) by (simp add: loaded_def)
  have "loaded f bs hb L (s\<lparr>sin := sin s + 1, sout := sout s + 1\<rparr>)" using l(1) by (rule loaded_cong) simp_all
  then show "at_head f bs hb (p + 1) (s\<lparr>sin := sin s + 1, sout := sout s + 1\<rparr>)"
    using h mod_mult_div_eq [of p "2 * hb"] mod_mult_div_eq [of "p + bs" "2 * hb"] by (simp add: at_step_def at_head_def L_def)
qed

text \<open>A block is a power of two of bytes.\<close>

definition block_size :: "nat \<Rightarrow> bool" where
  "block_size bs \<longleftrightarrow> (\<exists>k\<le>24. bs = 2 ^ k)"

lemma block_mask: "block_size bs \<Longrightarrow> (n AND (bs - 1) = 0) = (n mod bs = 0)"
proof -
  assume "block_size bs"
  then obtain k where k: "bs = 2 ^ k" by (auto simp: block_size_def)
  then show ?thesis using take_bit_eq_mask [of k n] by (simp add: mask_eq_exp_minus_1 take_bit_eq_mod)
qed

lemma scan_sizes:
  assumes "block_size bs"
  shows "0 < bs" "scan_buffersize bs div 2 mod bs = 0" "0 < scan_buffersize bs div 2" "2 * (scan_buffersize bs div 2) = scan_buffersize bs" "bs \<le> 2 ^ 24"
proof -
  obtain k where k: "bs = 2 ^ k" "k \<le> 24" using assms by (auto simp: block_size_def)
  then show "0 < bs" "bs \<le> 2 ^ 24" using power_increasing [of k 24 "2 :: nat"] by simp_all
  show "0 < scan_buffersize bs div 2" "2 * (scan_buffersize bs div 2) = scan_buffersize bs" by (simp_all add: scan_buffersize_def)
  show "scan_buffersize bs div 2 mod bs = 0"
  proof (cases "bs * 2 > PSYNC_COPY_BUFFER_SIZE")
    case False
    then have "(2 :: nat) ^ k \<le> 2 ^ 15" using k(1) by simp
    then have "k \<le> 15" by (metis one_less_numeral_iff power_le_imp_le_exp semiring_norm(76))
    then have "bs dvd 2 ^ 15" unfolding k(1) by (rule le_imp_power_dvd)
    then show ?thesis using False by (simp add: scan_buffersize_def)
  qed (simp add: scan_buffersize_def)
qed

lemma scan_loop_eq:
  assumes bsz: "block_size (blocksize cs)" and hb: "hb = scan_buffersize (blocksize cs) div 2"
  shows "at_head f (blocksize cs) hb p s \<Longrightarrow>
    scan_loop sha f cs (2 * hb) fileidx (adler32 ADLER32_INITIAL (take (blocksize cs) (drop p (padded_file (blocksize cs) f)))) s st =
    scan_all sha (padded_file (blocksize cs) f) cs fileidx p st"
proof (induction "length (padded_file (blocksize cs) f) - p" arbitrary: p s st rule: less_induct)
  case less
  let ?bs = "blocksize cs" and ?G = "padded_file (blocksize cs) f"
  let ?a = "adler32 ADLER32_INITIAL (take ?bs (drop p ?G))"
  note bs = scan_sizes(1-3) [OF bsz, folded hb]
  have G: "p + ?bs \<le> length ?G" using less.prems by (simp add: at_head_def)
  have off: "sbuffoff s + sout s = p" using less.prems by (simp add: at_head_def)
  define C where "C = hb * ((p + ?bs - 1) div hb)"
  note C = at_head_places [OF bs less.prems, folded C_def]
  have masked: "(sin s AND (?bs - 1) = 0) = (p mod ?bs = 0)"
  proof -
    have "C mod (2 * hb) mod ?bs = 0" using half_mod [OF C(1)] bs(2) by auto
    moreover have "p + ?bs - C + C = p + ?bs" using C(2) by simp
    then have "(p + ?bs - C) mod ?bs = p mod ?bs" using C(7) by (metis mod_add_self2 mod_add_right_eq add.right_neutral)
    ultimately have "sin s mod ?bs = p mod ?bs" unfolding C(5) by (metis mod_add_left_eq add_0)
    then show ?thesis unfolding block_mask [OF bsz] by simp
  qed
  let ?r = "if p mod ?bs = 0 then scan_refill f ?bs (2 * hb) s else Some s"
  have unfold: "scan_loop sha f cs (2 * hb) fileidx ?a s st =
     do { st \<leftarrow> check_window cs fileidx ?a (sha (take ?bs (drop p ?G))) p st;
          case ?r of None \<Rightarrow> Some st
          | Some s \<Rightarrow> scan_loop sha f cs (2 * hb) fileidx (adler32_roll ?a (sbuff s ! sout s) (sbuff s ! sin s) (of_nat ?bs))
              (s\<lparr>sin := sin s + 1, sout := sout s + 1\<rparr>) st }"
    by (subst scan_loop.simps) (simp only: window_at [OF bs less.prems] off masked)
  have ref: "scan_all sha ?G cs fileidx p st =
     do { st \<leftarrow> check_window cs fileidx ?a (sha (take ?bs (drop p ?G))) p st; scan_all sha ?G cs fileidx (p + 1) st }"
    using G by (subst scan_all.simps) (simp add: Let_def)
  show ?case
  proof (cases "p + ?bs = length ?G")
    case True
    have "p mod ?bs = 0" using True round_up(1) [OF bs(1), of "length f"] length_padded_file [OF bs(1), of f] by (metis mod_add_self2)
    then have r: "?r = None" using refill_end [OF bs less.prems _ True] by simp
    have "scan_all sha ?G cs fileidx (p + 1) = Some" using True by (intro ext) (subst scan_all.simps, simp)
    then show ?thesis unfolding unfold ref r by simp
  next
    case False
    then have G': "p + ?bs < length ?G" using G by simp
    obtain s' where r: "?r = Some s'" "at_step f ?bs hb p s'"
      using refill_more [OF bs less.prems _ G'] at_step_inner [OF bs less.prems] by (cases "p mod ?bs = 0") auto
    note n = step_next [OF bs r(2)]
    obtain m where m: "?bs = m + 1" using bs(1) by (metis Suc_eq_plus1 gr0_implies_Suc)
    have w: "take ?bs (drop p ?G) = ?G ! p # take m (drop (p + 1) ?G)" "take ?bs (drop (p + 1) ?G) = take m (drop (p + 1) ?G) @ [?G ! (p + ?bs)]"
    proof -
      show "take ?bs (drop p ?G) = ?G ! p # take m (drop (p + 1) ?G)" using G' unfolding m by (subst Cons_nth_drop_Suc [symmetric]) simp_all
      show "take ?bs (drop (p + 1) ?G) = take m (drop (p + 1) ?G) @ [?G ! (p + ?bs)]"
        using take_Suc_conv_app_nth [of m "drop (p + 1) ?G"] G' unfolding m by (simp add: add.commute)
    qed
    have "length (take m (drop (p + 1) ?G)) + 1 \<le> 2 ^ 24" "of_nat (length (take m (drop (p + 1) ?G)) + 1) = (of_nat ?bs :: u32)"
      using scan_sizes(5) [OF bsz] G' m by simp_all
    then have roll: "adler32_roll ?a (?G ! p) (?G ! (p + ?bs)) (of_nat ?bs) = adler32 ADLER32_INITIAL (take ?bs (drop (p + 1) ?G))"
      using adler32_roll_eq [of "take m (drop (p + 1) ?G)" "?G ! p" "?G ! (p + ?bs)"] unfolding w by simp
    have "scan_loop sha f cs (2 * hb) fileidx (adler32_roll ?a (sbuff s' ! sout s') (sbuff s' ! sin s') (of_nat ?bs)) (s'\<lparr>sin := sin s' + 1, sout := sout s' + 1\<rparr>) st
        = scan_all sha ?G cs fileidx (p + 1) st" for st
      unfolding n(1,2) roll using G' by (intro less.hyps n(3)) simp
    then show ?thesis unfolding unfold ref r(1) by simp
  qed
qed

lemma check_file_windows:
  assumes "block_size (blocksize cs)" and "\<And>n. length (malloc n) = n"
  shows "psync_net_check_file_for_blocks sha malloc (Some f) cs fileidx st =
    (if length f < blocksize cs then Some st else scan_all sha (padded_file (blocksize cs) f) cs fileidx 0 st)"
proof -
  let ?bs = "blocksize cs" and ?G = "padded_file (blocksize cs) f"
  define hb where "hb = scan_buffersize ?bs div 2"
  note bs = scan_sizes(1-3) [OF assms(1), folded hb_def] and N = scan_sizes(4) [OF assms(1), folded hb_def]
  have le: "?bs \<le> hb" using bs(2,3) by (metis dvd_imp_le mod_0_imp_dvd)
  define d where "d = psync_file_read f 0 hb"
  define n where "n = round_up ?bs (length d)"
  have len: "length d = min hb (length f)" by (simp add: d_def psync_file_read_def min.commute)
  show ?thesis
  proof (cases "length f < ?bs")
    case True
    then show ?thesis using le len by (simp add: psync_net_check_file_for_blocks_def Let_def flip: d_def hb_def)
  next
    case False
    then have d: "\<not> length d < ?bs" using len le by simp
    have f: "0 < length f" using False bs(1) by linarith
    let ?buff = "put_bytes 0 (take hb ?G) (malloc (2 * hb))"
    let ?s = "\<lparr>sbuff = ?buff, sbuffoff = 0, sbufferlen = (if length d < hb then n else 2 * hb), sin = ?bs, sout = 0, spos = length d\<rparr>"
    have dd: "(if length d < hb then d @ replicate (n - length d) 0 else d) = take hb ?G"
    proof (cases "length d = hb")
      case True
      then show ?thesis using read_padded [OF bs(1,2) _ f bs(3)] by (simp add: Let_def flip: d_def)
    next
      case False
      moreover have "length d < hb" using False len by simp
      moreover note r = read_padded [OF bs(1,2) mod_0 f bs(3), folded d_def, unfolded Let_def, folded n_def, unfolded drop_0 if_P [OF False]]
      ultimately show ?thesis using r by (simp only: if_True)
    qed
    then have start: "psync_net_check_file_for_blocks sha malloc (Some f) cs fileidx st =
        scan_loop sha f cs (2 * hb) fileidx (adler32 ADLER32_INITIAL (take ?bs ?buff)) ?s st"
      by (simp only: psync_net_check_file_for_blocks_def option.case Let_def hb_def [symmetric] d_def [symmetric] n_def [symmetric] dd N d if_False)
    have fG: "length f \<le> length ?G" "?bs \<le> length ?G" using False round_up(2) [OF bs(1), of "length f"] length_padded_file [OF bs(1), of f] by simp_all
    have room: "0 + length (take hb ?G) \<le> length (malloc (2 * hb))" using assms(2) by simp
    have nth: "?buff ! x = ?G ! x" if "x < hb" "x < length ?G" for x
      using put_bytes(2) [OF room, of x] that assms(2) [of "2 * hb"] by simp
    have "loaded f ?bs hb hb ?s"
    proof -
      have "n = length ?G" if "length f < hb" using that len length_padded_file [OF bs(1), of f] by (simp add: n_def)
      then show ?thesis using bs(3) f len put_bytes(1) [OF room] assms(2) [of "2 * hb"] nth by (auto simp: loaded_def)
    qed
    then have h: "at_head f ?bs hb 0 ?s" using fG(2) bs le by (simp add: at_head_def)
    have "take ?bs ?buff = take ?bs (drop 0 ?G)"
      using fG(2) le put_bytes(1) [OF room] assms(2) [of "2 * hb"] nth by (intro nth_equalityI) simp_all
    then show ?thesis using False start scan_loop_eq [OF assms(1) hb_def h] by simp
  qed
qed

end
