(* ===== verification/Pblockranges.thy ===== *)
theory Pblockranges
  imports Pblockscan
begin

section \<open>Delta downloads: the ranges to transfer and to copy\<close>

text \<open>
  \<^verbatim>\<open>psync_net_download_ranges\<close> of \<^verbatim>\<open>pnetlibs.c\<close>: the checksums of the remote file, a scan of each old local file, and the
  list of ranges built from the actions of the blocks. Fetching the checksums is the argument \<open>fetched\<close>; a name of a file is
  opened by the argument \<open>opened\<close>. \<open>None\<close> is not returning, or following a null pointer.
\<close>

datatype fetched = Fetch_permfail | Fetch_tempfail | Fetch_ok "file_checksums option"

abbreviation PSYNC_NET_OK :: int where "PSYNC_NET_OK \<equiv> 0"
abbreviation PSYNC_NET_PERMFAIL :: int where "PSYNC_NET_PERMFAIL \<equiv> -1"
abbreviation PSYNC_NET_TEMPFAIL :: int where "PSYNC_NET_TEMPFAIL \<equiv> -2"

record range_list =
  roff :: nat
  rlen :: nat
  rtype :: range_type
  rfilename :: "string option"

definition new_range :: "string list \<Rightarrow> block_action \<Rightarrow> nat \<Rightarrow> nat \<Rightarrow> range_list" where
  "new_range files act off len =
     (if atype act = PSYNC_RANGE_COPY then \<lparr>roff = aoff act, rlen = len, rtype = atype act, rfilename = Some (files ! aidx act)\<rparr>
      else \<lparr>roff = off, rlen = len, rtype = atype act, rfilename = None\<rparr>)"

text \<open>The size of a block that is not the first one.\<close>

definition later_block_size :: "file_checksums \<Rightarrow> nat \<Rightarrow> nat" where
  "later_block_size cs i =
     (if i = blockcnt cs - 1 then let bs = filesize cs mod blocksize cs in if bs = 0 then blocksize cs else bs else blocksize cs)"

definition add_range :: "file_checksums \<Rightarrow> string list \<Rightarrow> block_action list \<Rightarrow> nat \<Rightarrow> range_list list \<Rightarrow> range_list list" where
  "add_range cs files acts i ranges =
     (let bs = later_block_size cs i; range = last ranges; act = acts ! i in
      if atype act \<noteq> rtype range \<or>
         (rtype range = PSYNC_RANGE_COPY \<and> (rfilename range \<noteq> Some (files ! aidx act) \<or> roff range + rlen range \<noteq> aoff act))
      then ranges @ [new_range files act (i * blocksize cs) bs]
      else butlast ranges @ [range\<lparr>rlen := rlen range + bs\<rparr>])"

definition full_download :: "nat \<Rightarrow> (int \<times> range_list list) option" where
  "full_download fsize = Some (PSYNC_NET_OK, [\<lparr>roff = 0, rlen = fsize, rtype = PSYNC_RANGE_TRANSFER, rfilename = None\<rparr>])"

fun scan_files ::
    "(byte list \<Rightarrow> byte list) \<Rightarrow> (nat \<Rightarrow> byte list) \<Rightarrow> (string \<Rightarrow> byte list option) \<Rightarrow> file_checksums \<Rightarrow> nat \<Rightarrow> string list \<Rightarrow> found \<Rightarrow> found option" where
  "scan_files sha malloc opened cs i [] st = Some st"
| "scan_files sha malloc opened cs i (name # names) st =
     do { st \<leftarrow> psync_net_check_file_for_blocks sha malloc (opened name) cs i st; scan_files sha malloc opened cs (i + 1) names st }"

definition psync_net_download_ranges ::
    "(byte list \<Rightarrow> byte list) \<Rightarrow> (nat \<Rightarrow> byte list) \<Rightarrow> (string \<Rightarrow> byte list option) \<Rightarrow> fetched \<Rightarrow> nat \<Rightarrow> string list \<Rightarrow> (int \<times> range_list list) option" where
  "psync_net_download_ranges sha malloc opened fetched fsize files =
     (if files = [] then full_download fsize
      else case fetched of
        Fetch_permfail \<Rightarrow> full_download fsize
      | Fetch_tempfail \<Rightarrow> Some (PSYNC_NET_TEMPFAIL, [])
      | Fetch_ok None \<Rightarrow> None
      | Fetch_ok (Some cs) \<Rightarrow>
          if filesize cs \<noteq> fsize then Some (PSYNC_NET_TEMPFAIL, [])
          else do { (cs, el) \<leftarrow> psync_net_create_hash cs;
                    (el, acts) \<leftarrow> scan_files sha malloc opened cs 0 files
                      (el, replicate (blockcnt cs) \<lparr>aoff = 0, aidx = 0, atype = PSYNC_RANGE_TRANSFER\<rparr>);
                    if acts = [] then None
                    else Some (PSYNC_NET_OK, fold (add_range cs files acts) [1..<blockcnt cs] [new_range files (acts ! 0) 0 (blocksize cs)]) })"

subsection \<open>What the scan finds\<close>

definition block_at :: "(byte list \<Rightarrow> byte list) \<Rightarrow> file_checksums \<Rightarrow> byte list \<Rightarrow> nat \<Rightarrow> nat \<Rightarrow> bool" where
  "block_at sha cs g off i \<longleftrightarrow> off + blocksize cs \<le> length g \<and> sha (take (blocksize cs) (drop off g)) = sha1 (blocks cs ! i)"

text \<open>The table is one, and each block that is to be copied is where its action says; \<open>gs\<close> are the files as the scan sees them.\<close>

definition found_ok :: "(byte list \<Rightarrow> byte list) \<Rightarrow> file_checksums \<Rightarrow> (nat \<Rightarrow> byte list) \<Rightarrow> nat \<Rightarrow> found \<Rightarrow> bool" where
  "found_ok sha cs gs n st \<longleftrightarrow> (case st of (el, acts) \<Rightarrow> table_ok cs el \<and> length acts = blockcnt cs \<and>
     (\<forall>i<blockcnt cs. atype (acts ! i) = PSYNC_RANGE_COPY \<longrightarrow> aidx (acts ! i) < n \<and> block_at sha cs (gs (aidx (acts ! i))) (aoff (acts ! i)) i))"

lemma mark_chain_marks:
  assumes c: "chains_ok cs"
  shows "i < blockcnt cs \<Longrightarrow> length acts = blockcnt cs \<Longrightarrow> \<exists>acts'. mark_chain cs i fi off acts = Some acts' \<and> length acts' = blockcnt cs \<and>
    (\<forall>j<blockcnt cs. acts' ! j = acts ! j \<or> sha1 (blocks cs ! j) = sha1 (blocks cs ! i) \<and> acts' ! j = \<lparr>aoff = off, aidx = fi, atype = PSYNC_RANGE_COPY\<rparr>)"
proof (induction i arbitrary: acts rule: less_induct)
  case (less i)
  let ?acts = "acts[i := \<lparr>aoff = off, aidx = fi, atype = PSYNC_RANGE_COPY\<rparr>]"
  show ?case
  proof (cases "nextsame cs ! i = 0")
    case True
    then show ?thesis using less.prems by (subst mark_chain.simps) (auto simp: Let_def nth_list_update)
  next
    case False
    let ?k = "nextsame cs ! i - 1"
    have k: "?k < i" "sha1 (blocks cs ! ?k) = sha1 (blocks cs ! i)" using c less.prems(1) False by (auto simp: chains_ok_def)
    then obtain acts' where a: "mark_chain cs ?k fi off ?acts = Some acts'" "length acts' = blockcnt cs"
        "\<And>j. j < blockcnt cs \<Longrightarrow> acts' ! j = ?acts ! j \<or> sha1 (blocks cs ! j) = sha1 (blocks cs ! ?k) \<and> acts' ! j = \<lparr>aoff = off, aidx = fi, atype = PSYNC_RANGE_COPY\<rparr>"
      using less.IH [of ?k ?acts] less.prems by auto
    have "mark_chain cs i fi off acts = Some acts'" using False a(1) by (subst mark_chain.simps) (simp add: Let_def)
    moreover have "acts' ! j = acts ! j \<or> sha1 (blocks cs ! j) = sha1 (blocks cs ! i) \<and> acts' ! j = \<lparr>aoff = off, aidx = fi, atype = PSYNC_RANGE_COPY\<rparr>"
      if "j < blockcnt cs" for j
      using a(3) [OF that] k(2) less.prems by (cases "j = i") (auto simp: nth_list_update)
    ultimately show ?thesis using a(2) by blast
  qed
qed

lemma check_window_ok:
  assumes c: "chains_ok cs" and f: "found_ok sha cs gs n st" and w: "p + blocksize cs \<le> length (gs fi)" "fi < n"
  shows "\<exists>st'. check_window cs fi a (sha (take (blocksize cs) (drop p (gs fi)))) p st = Some st' \<and> found_ok sha cs gs n st'"
proof -
  let ?sh = "sha (take (blocksize cs) (drop p (gs fi)))"
  obtain el acts where st: "st = (el, acts)" by fastforce
  have t: "table_ok cs el" "length acts = blockcnt cs" using f by (simp_all add: found_ok_def st)
  obtain b where b: "psync_net_hash_has_adler el cs a = Some b" using has_adler_exact [OF t(1)] by blast
  show ?thesis
  proof (rule lookup_exact [OF t(1), of a ?sh])
    assume "psync_net_hash_has_adler_and_sha1 el cs a ?sh = Some 0"
    then show ?thesis using f b by (simp add: check_window_def st)
  next
    fix i el'
    assume i: "psync_net_hash_has_adler_and_sha1 el cs a ?sh = Some (i + 1)" "i < blockcnt cs" "i \<in> stored el" "adler (blocks cs ! i) = a"
      "sha1 (blocks cs ! i) = ?sh" "psync_net_hash_remove el cs a ?sh = Some el'" "table_ok cs el'" "stored el' = stored el - {i}"
    obtain acts' where m: "mark_chain cs i fi p acts = Some acts'" "length acts' = blockcnt cs"
        "\<And>j. j < blockcnt cs \<Longrightarrow> acts' ! j = acts ! j \<or> sha1 (blocks cs ! j) = sha1 (blocks cs ! i) \<and> acts' ! j = \<lparr>aoff = p, aidx = fi, atype = PSYNC_RANGE_COPY\<rparr>"
      using mark_chain_marks [OF c i(2) t(2)] by blast
    have "found_ok sha cs gs n (el', acts')"
      unfolding found_ok_def prod.case
    proof (intro conjI allI impI)
      fix j
      assume j: "j < blockcnt cs" "atype (acts' ! j) = PSYNC_RANGE_COPY"
      show "aidx (acts' ! j) < n" "block_at sha cs (gs (aidx (acts' ! j))) (aoff (acts' ! j)) j"
        using m(3) [OF j(1)] f j w i(5) by (auto simp: found_ok_def st block_at_def)
    qed (use i m in auto)
    then show ?thesis using f b i(1,4,5,6) m(1) by (auto simp: check_window_def st psync_net_block_match_found_def)
  qed
qed

lemma scan_all_ok:
  assumes c: "chains_ok cs" and fi: "fi < n"
  shows "found_ok sha cs gs n st \<Longrightarrow> \<exists>st'. scan_all sha (gs fi) cs fi p st = Some st' \<and> found_ok sha cs gs n st'"
proof (induction "length (gs fi) + 1 - p" arbitrary: p st rule: less_induct)
  case less
  show ?case
  proof (cases "p + blocksize cs \<le> length (gs fi)")
    case True
    obtain st1 where s1: "check_window cs fi (adler32 ADLER32_INITIAL (take (blocksize cs) (drop p (gs fi)))) (sha (take (blocksize cs) (drop p (gs fi)))) p st = Some st1"
        "found_ok sha cs gs n st1" using check_window_ok [OF c less.prems True fi] by blast
    have "length (gs fi) + 1 - (p + 1) < length (gs fi) + 1 - p" using True by simp
    from less.hyps [OF this s1(2)] obtain st2 where "scan_all sha (gs fi) cs fi (p + 1) st1 = Some st2" "found_ok sha cs gs n st2" by blast
    then show ?thesis using True s1(1) by (subst scan_all.simps) (simp add: Let_def)
  next
    case False
    then show ?thesis using less.prems by (subst scan_all.simps) simp
  qed
qed

text \<open>
  C18. The scan of a local file looks up every window of one block, at every byte, in order, exactly once: reading through the two halves
  of the circular buffer, rolling the checksum from byte to byte and hashing windows that wrap around gives what looking up
  each window of the file with its own checksums gives, for a file of any length. Only a file shorter than a block is
  not scanned; the last block is filled up with zeros.
\<close>

theorem scan_is_every_window:
  assumes "block_size (blocksize cs)" and "\<And>n. length (malloc n) = n"
  shows "psync_net_check_file_for_blocks sha malloc file cs fileidx st =
    (case file of None \<Rightarrow> Some st
     | Some f \<Rightarrow> if length f < blocksize cs then Some st else scan_all sha (padded_file (blocksize cs) f) cs fileidx 0 st)"
proof (cases "file")
  case (Some f)
  then show ?thesis using check_file_windows [OF assms] by simp
qed (simp add: psync_net_check_file_for_blocks_def)

lemma scan_is_every_window_witness:
  "psync_net_check_file_for_blocks (\<lambda>w. w) (\<lambda>n. replicate n 7) (Some [9, 1, 2]) (sample_checksums\<lparr>blocksize := 2\<rparr>) 0 ([0, 0, 0], []) =
    scan_all (\<lambda>w. w) [9, 1, 2, 0] (sample_checksums\<lparr>blocksize := 2\<rparr>) 0 0 ([0, 0, 0], [])"
proof -
  have b: "block_size (blocksize (sample_checksums\<lparr>blocksize := 2\<rparr>))" by (auto simp: block_size_def intro: exI [of _ 1])
  have p: "padded_file 2 [9, 1, 2] = [9, 1, 2, 0]" by (simp add: padded_file_def round_up_def)
  show ?thesis
    using scan_is_every_window [OF b, of "\<lambda>n. replicate n 7" "\<lambda>w. w" "Some [9, 1, 2]"] by (simp add: p)
qed

text \<open>The files as the scan sees them: padded with zeros to whole blocks.\<close>

definition local_bytes :: "(string \<Rightarrow> byte list option) \<Rightarrow> nat \<Rightarrow> string \<Rightarrow> byte list" where
  "local_bytes opened bs name = (case opened name of None \<Rightarrow> [] | Some f \<Rightarrow> padded_file bs f)"

lemma found_ok_more: "found_ok sha cs gs n st \<Longrightarrow> n \<le> m \<Longrightarrow> found_ok sha cs gs m st"
  by (auto simp: found_ok_def)

lemma scan_files_ok:
  assumes c: "chains_ok cs" and bs: "block_size (blocksize cs)" and m: "\<And>n. length (malloc n) = n"
    and gs: "\<And>i. i < length files \<Longrightarrow> gs i = local_bytes opened (blocksize cs) (files ! i)"
  shows "i + length names = length files \<Longrightarrow> names = drop i files \<Longrightarrow> found_ok sha cs gs (length files) st \<Longrightarrow>
    \<exists>st'. scan_files sha malloc opened cs i names st = Some st' \<and> found_ok sha cs gs (length files) st'"
proof (induction names arbitrary: i st)
  case (Cons name names)
  have i: "i < length files" using Cons.prems(1) by simp
  have name: "name = files ! i" "names = drop (i + 1) files" using Cons.prems(2) i by (metis Cons_nth_drop_Suc Suc_eq_plus1 list.inject)+
  have "\<exists>st1. psync_net_check_file_for_blocks sha malloc (opened name) cs i st = Some st1 \<and> found_ok sha cs gs (length files) st1"
  proof (cases "opened name")
    case None
    then show ?thesis using Cons.prems(3) by (simp add: psync_net_check_file_for_blocks_def)
  next
    case (Some f)
    have "gs i = padded_file (blocksize cs) f" using gs [OF i] Some name(1) by (simp add: local_bytes_def)
    then show ?thesis
      unfolding Some check_file_windows [OF bs m] using Cons.prems(3) scan_all_ok [OF c i Cons.prems(3), of 0] by (cases st) auto
  qed
  then obtain st1 where "psync_net_check_file_for_blocks sha malloc (opened name) cs i st = Some st1" "found_ok sha cs gs (length files) st1" by blast
  then show ?case using Cons.IH [OF _ name(2)] Cons.prems(1) by simp
qed simp

subsection \<open>What the ranges say\<close>

definition padded_range :: "(string \<Rightarrow> byte list option) \<Rightarrow> nat \<Rightarrow> byte list \<Rightarrow> range_list \<Rightarrow> byte list" where
  "padded_range opened bs remote r =
     (if rtype r = PSYNC_RANGE_TRANSFER then take (rlen r) (drop (roff r) remote)
      else take (rlen r) (drop (roff r) (local_bytes opened bs (the (rfilename r)))))"

definition block_of :: "nat \<Rightarrow> byte list \<Rightarrow> nat \<Rightarrow> byte list" where
  "block_of bs remote i = take bs (drop (i * bs) remote)"

definition padded_block :: "nat \<Rightarrow> byte list \<Rightarrow> nat \<Rightarrow> byte list" where
  "padded_block bs remote i = block_of bs remote i @ replicate (bs - length (block_of bs remote i)) 0"

text \<open>The checksums are those of the remote file: the SHA-1 of each block, the last one as it is or filled up with zeros.\<close>

definition describes :: "(byte list \<Rightarrow> byte list) \<Rightarrow> file_checksums \<Rightarrow> byte list \<Rightarrow> bool" where
  "describes sha cs remote \<longleftrightarrow> filesize cs = length remote \<and> blockcnt cs = (length remote + blocksize cs - 1) div blocksize cs \<and>
     nextsame cs = replicate (blockcnt cs) 0 \<and>
     (\<forall>i<blockcnt cs. sha1 (blocks cs ! i) = sha (block_of (blocksize cs) remote i) \<or> sha1 (blocks cs ! i) = sha (padded_block (blocksize cs) remote i))"

text \<open>No block of the remote file has the SHA-1 of another window that the scan of the given local files looks at.\<close>

definition no_collision :: "(byte list \<Rightarrow> byte list) \<Rightarrow> nat \<Rightarrow> (string \<Rightarrow> byte list option) \<Rightarrow> string list \<Rightarrow> byte list \<Rightarrow> bool" where
  "no_collision sha bs opened files remote \<longleftrightarrow> (\<forall>name\<in>set files. let g = local_bytes opened bs name in
     \<forall>p<length g. p + bs \<le> length g \<longrightarrow> (\<forall>i<length remote. \<forall>x\<in>{block_of bs remote i, padded_block bs remote i}.
       sha (take bs (drop p g)) = sha x \<longrightarrow> take bs (drop p g) = x))"

lemma describes_block:
  assumes d: "describes sha cs remote" and n: "no_collision sha (blocksize cs) opened files remote" and i: "i < blockcnt cs" and bs: "0 < blocksize cs"
    and w: "name \<in> set files" "p + blocksize cs \<le> length (local_bytes opened (blocksize cs) name)"
      "sha (take (blocksize cs) (drop p (local_bytes opened (blocksize cs) name))) = sha1 (blocks cs ! i)"
  shows "\<exists>z. take (blocksize cs) (drop p (local_bytes opened (blocksize cs) name)) = block_of (blocksize cs) remote i @ z"
proof -
  let ?bs = "blocksize cs" and ?g = "local_bytes opened (blocksize cs) name"
  have "blockcnt cs = (length remote + ?bs - 1) div ?bs" using d by (simp add: describes_def)
  also have "\<dots> \<le> length remote"
  proof -
    have "length remote + ?bs - 1 < (length remote + 1) * ?bs" using bs by (cases ?bs) (simp_all add: algebra_simps)
    then show ?thesis using bs by (metis Suc_eq_plus1 less_Suc_eq_le less_mult_imp_div_less)
  qed
  finally have i': "i < length remote" using i by simp
  have "p < length ?g" using w(2) bs by simp
  then have eq: "sha (take ?bs (drop p ?g)) = sha x \<Longrightarrow> take ?bs (drop p ?g) = x" if "x \<in> {block_of ?bs remote i, padded_block ?bs remote i}" for x
    using n w(1,2) i' that unfolding no_collision_def Let_def by blast
  have "sha1 (blocks cs ! i) = sha (block_of ?bs remote i) \<or> sha1 (blocks cs ! i) = sha (padded_block ?bs remote i)" using d i by (simp add: describes_def)
  then have "take ?bs (drop p ?g) = block_of ?bs remote i \<or> take ?bs (drop p ?g) = padded_block ?bs remote i" using eq w(3) by auto
  then show ?thesis by (auto simp: padded_block_def)
qed

lemma later_block_size_eq:
  assumes d: "describes sha cs remote" and i: "i < blockcnt cs" and bs: "0 < blocksize cs"
  shows "later_block_size cs i = length (block_of (blocksize cs) remote i)" "i * blocksize cs < length remote" "i + 1 < blockcnt cs \<Longrightarrow> (i + 1) * blocksize cs \<le> length remote"
proof -
  let ?bs = "blocksize cs" and ?n = "length remote"
  have n: "blockcnt cs = (?n + ?bs - 1) div ?bs" "filesize cs = ?n" using d by (simp_all add: describes_def)
  define q r where "q = ?n div ?bs" and "r = ?n mod ?bs"
  have qr: "?n = q * ?bs + r" "r < ?bs" using bs by (simp_all add: q_def r_def)
  have cnt: "blockcnt cs = (if r = 0 then q else q + 1)"
  proof (cases "r = 0")
    case True
    then have "?n + ?bs - 1 = q * ?bs + (?bs - 1)" using qr bs by simp
    then have "blockcnt cs = (q * ?bs + (?bs - 1)) div ?bs" by (metis n(1))
    also have "\<dots> = q + (?bs - 1) div ?bs" using bs by (intro div_mult_self3) simp
    finally show ?thesis using True bs by simp
  next
    case False
    then have "?n + ?bs - 1 = (q + 1) * ?bs + (r - 1)" using qr bs by simp
    moreover have "r - 1 < ?bs" using qr(2) by simp
    ultimately have "blockcnt cs = q + 1 + (r - 1) div ?bs" using n(1) bs by (metis div_mult_self3 add.commute mult.commute less_irrefl)
    then show ?thesis using False \<open>r - 1 < ?bs\<close> by simp
  qed
  have iq: "i \<le> q" "r = 0 \<Longrightarrow> i < q" using i cnt by (auto split: if_splits)
  have whole: "(j + 1) * ?bs \<le> ?n" if "j < q" for j
  proof -
    have "(j + 1) * ?bs \<le> q * ?bs" using that by (intro mult_right_mono) auto
    then show ?thesis using qr(1) by linarith
  qed
  show lt: "i * ?bs < ?n"
  proof (cases "i < q")
    case True
    then show ?thesis using whole [OF True] bs by simp
  next
    case False
    then show ?thesis using iq qr(1) by (cases "r = 0") auto
  qed
  show "(i + 1) * ?bs \<le> ?n" if "i + 1 < blockcnt cs" using that cnt by (intro whole) (auto split: if_splits)
  show "later_block_size cs i = length (block_of ?bs remote i)"
  proof (cases "i < q")
    case True
    have "i * ?bs + ?bs \<le> ?n" using whole [OF True] by (simp add: algebra_simps)
    then have "length (block_of ?bs remote i) = ?bs" by (simp add: block_of_def)
    moreover have "later_block_size cs i = ?bs" using True cnt n(2) by (auto simp: later_block_size_def r_def [symmetric])
    ultimately show ?thesis by simp
  next
    case False
    then have "i = q" "r \<noteq> 0" using iq by auto
    then show ?thesis using cnt n(2) qr by (simp add: later_block_size_def block_of_def r_def [symmetric])
  qed
qed

text \<open>The ranges after the first \<open>k\<close> blocks; the last one ends where block \<open>k\<close> starts, or inside a local file.\<close>

definition last_ok :: "(string \<Rightarrow> byte list option) \<Rightarrow> nat \<Rightarrow> byte list \<Rightarrow> nat \<Rightarrow> range_list \<Rightarrow> bool" where
  "last_ok opened bs remote k r \<longleftrightarrow>
     (if rtype r = PSYNC_RANGE_TRANSFER then roff r + rlen r = min (k * bs) (length remote)
      else \<exists>name. rfilename r = Some name \<and> roff r + rlen r \<le> length (local_bytes opened bs name))"

definition in_local :: "(string \<Rightarrow> byte list option) \<Rightarrow> nat \<Rightarrow> range_list \<Rightarrow> bool" where
  "in_local opened bs r \<longleftrightarrow> (rtype r = PSYNC_RANGE_COPY \<longrightarrow> (\<exists>name f. rfilename r = Some name \<and> opened name = Some f \<and> roff r + rlen r \<le> length (padded_file bs f)))"

definition ranges_ok :: "(string \<Rightarrow> byte list option) \<Rightarrow> nat \<Rightarrow> byte list \<Rightarrow> nat \<Rightarrow> range_list list \<Rightarrow> bool" where
  "ranges_ok opened bs remote k ranges \<longleftrightarrow> ranges \<noteq> [] \<and> concat (map (padded_range opened bs remote) ranges) = take (k * bs) remote \<and>
     last_ok opened bs remote k (last ranges) \<and> (\<forall>r\<in>set ranges. in_local opened bs r)"

lemma not_transfer: "t \<noteq> PSYNC_RANGE_TRANSFER \<longleftrightarrow> t = PSYNC_RANGE_COPY" by (cases t) simp_all

definition action_ok :: "(string \<Rightarrow> byte list option) \<Rightarrow> nat \<Rightarrow> byte list \<Rightarrow> string list \<Rightarrow> block_action list \<Rightarrow> nat \<Rightarrow> bool" where
  "action_ok opened bs remote files acts i \<longleftrightarrow> (atype (acts ! i) = PSYNC_RANGE_COPY \<longrightarrow>
     (\<exists>z. take bs (drop (aoff (acts ! i)) (local_bytes opened bs (files ! aidx (acts ! i)))) = block_of bs remote i @ z) \<and>
     aoff (acts ! i) + bs \<le> length (local_bytes opened bs (files ! aidx (acts ! i))))"

lemma found_action_ok:
  assumes f: "found_ok sha (cs\<lparr>nextsame := ns\<rparr>) gs (length files) (el, acts)" and d: "describes sha cs remote" and i: "i < blockcnt cs"
    and n: "no_collision sha (blocksize cs) opened files remote" and bs: "0 < blocksize cs"
    and gs: "\<And>i. i < length files \<Longrightarrow> gs i = local_bytes opened (blocksize cs) (files ! i)"
  shows "action_ok opened (blocksize cs) remote files acts i"
  unfolding action_ok_def
proof (intro impI)
  let ?g = "local_bytes opened (blocksize cs) (files ! aidx (acts ! i))"
  assume "atype (acts ! i) = PSYNC_RANGE_COPY"
  then have "block_at sha (cs\<lparr>nextsame := ns\<rparr>) (gs (aidx (acts ! i))) (aoff (acts ! i)) i" "aidx (acts ! i) < length files"
    using f i by (simp_all add: found_ok_def)
  then have b: "aoff (acts ! i) + blocksize cs \<le> length ?g" "sha (take (blocksize cs) (drop (aoff (acts ! i)) ?g)) = sha1 (blocks cs ! i)"
    using gs by (simp_all add: block_at_def)
  moreover have "files ! aidx (acts ! i) \<in> set files"
    using \<open>aidx (acts ! i) < length files\<close> by simp
  ultimately show "(\<exists>z. take (blocksize cs) (drop (aoff (acts ! i)) ?g) = block_of (blocksize cs) remote i @ z) \<and> aoff (acts ! i) + blocksize cs \<le> length ?g"
    using describes_block [OF d n i bs _ b] by blast
qed

lemma copied_block:
  assumes a: "action_ok opened bs remote files acts i" "atype (acts ! i) = PSYNC_RANGE_COPY" and len: "len = length (block_of bs remote i)"
  shows "take len (drop (aoff (acts ! i)) (local_bytes opened bs (files ! aidx (acts ! i)))) = block_of bs remote i"
    "aoff (acts ! i) + len \<le> length (local_bytes opened bs (files ! aidx (acts ! i)))"
    "0 < bs \<Longrightarrow> \<exists>f. opened (files ! aidx (acts ! i)) = Some f \<and> local_bytes opened bs (files ! aidx (acts ! i)) = padded_file bs f"
proof -
  let ?g = "local_bytes opened bs (files ! aidx (acts ! i))"
  obtain z where z: "take bs (drop (aoff (acts ! i)) ?g) = block_of bs remote i @ z" "aoff (acts ! i) + bs \<le> length ?g"
    using a by (auto simp: action_ok_def)
  have len': "len \<le> bs" by (simp add: len block_of_def)
  have "take len (drop (aoff (acts ! i)) ?g) = take len (take bs (drop (aoff (acts ! i)) ?g))" using len' by (simp add: min_def)
  then show "take len (drop (aoff (acts ! i)) ?g) = block_of bs remote i" by (simp add: z(1) len)
  show "aoff (acts ! i) + len \<le> length ?g" using z(2) len' by simp
  show "\<exists>f. opened (files ! aidx (acts ! i)) = Some f \<and> ?g = padded_file bs f" if "0 < bs"
    using z(2) that by (cases "opened (files ! aidx (acts ! i))") (simp_all add: local_bytes_def)
qed

lemma new_range_bytes:
  assumes "action_ok opened bs remote files acts i" and "len = length (block_of bs remote i)" and "i * bs < length remote" and "0 < bs"
  shows "padded_range opened bs remote (new_range files (acts ! i) (i * bs) len) = block_of bs remote i"
    "last_ok opened bs remote (i + 1) (new_range files (acts ! i) (i * bs) len)" "in_local opened bs (new_range files (acts ! i) (i * bs) len)"
proof -
  have "i * bs + length (block_of bs remote i) = min ((i + 1) * bs) (length remote)" using assms(3) by (auto simp: block_of_def min_def)
  moreover have "take (length (block_of bs remote i)) (drop (i * bs) remote) = block_of bs remote i" by (simp add: block_of_def min_def)
  ultimately show "padded_range opened bs remote (new_range files (acts ! i) (i * bs) len) = block_of bs remote i"
    "last_ok opened bs remote (i + 1) (new_range files (acts ! i) (i * bs) len)"
    using copied_block [OF assms(1) _ assms(2)] assms(2) by (auto simp: new_range_def padded_range_def last_ok_def not_transfer)
  show "in_local opened bs (new_range files (acts ! i) (i * bs) len)"
    using copied_block(2,3) [OF assms(1) _ assms(2)] assms(4) by (auto simp: new_range_def in_local_def)
qed

lemma add_range_ok:
  assumes r: "ranges_ok opened bs remote i ranges" and a: "action_ok opened bs remote files acts i"
    and len: "later_block_size cs i = length (block_of bs remote i)" and i: "i * bs < length remote" and bs: "blocksize cs = bs" "0 < bs"
  shows "ranges_ok opened bs remote (i + 1) (add_range cs files acts i ranges)"
proof -
  let ?len = "later_block_size cs i" and ?r = "last ranges" and ?a = "acts ! i"
  have ne: "ranges \<noteq> []" "concat (map (padded_range opened bs remote) ranges) = take (i * bs) remote" "\<forall>r\<in>set ranges. in_local opened bs r"
    using r by (simp_all add: ranges_ok_def)
  have next_block: "take (i * bs) remote @ block_of bs remote i = take ((i + 1) * bs) remote"
    using take_add [of "i * bs" bs remote] by (simp add: block_of_def add.commute)
  show ?thesis
  proof (cases "atype ?a \<noteq> rtype ?r \<or> (rtype ?r = PSYNC_RANGE_COPY \<and> (rfilename ?r \<noteq> Some (files ! aidx ?a) \<or> roff ?r + rlen ?r \<noteq> aoff ?a))")
    case True
    have eq: "add_range cs files acts i ranges = ranges @ [new_range files ?a (i * bs) ?len]"
      unfolding add_range_def Let_def if_P [OF True] bs(1) ..
    show ?thesis
      unfolding eq ranges_ok_def using ne new_range_bytes [OF a len i bs(2)] next_block by simp
  next
    case False
    let ?m = "?r\<lparr>rlen := rlen ?r + ?len\<rparr>"
    have eq: "add_range cs files acts i ranges = butlast ranges @ [?m]" unfolding add_range_def Let_def if_not_P [OF False] ..
    have m: "padded_range opened bs remote ?m = padded_range opened bs remote ?r @ block_of bs remote i \<and> last_ok opened bs remote (i + 1) ?m \<and> in_local opened bs ?m"
    proof (cases "rtype ?r = PSYNC_RANGE_TRANSFER")
      case True
      then have e: "roff ?r + rlen ?r = i * bs" using r i by (simp add: ranges_ok_def last_ok_def)
      have "take ?len (drop (i * bs) remote) = block_of bs remote i" by (simp add: len block_of_def min_def)
      then have "take (rlen ?r + ?len) (drop (roff ?r) remote) = take (rlen ?r) (drop (roff ?r) remote) @ block_of bs remote i"
        by (simp only: take_add drop_drop add.commute [of "rlen ?r" "roff ?r"] e)
      moreover have "i * bs + ?len = min ((i + 1) * bs) (length remote)" using i by (auto simp: len block_of_def min_def)
      ultimately show ?thesis using True e by (simp add: padded_range_def last_ok_def in_local_def)
    next
      case copy: False
      then have t: "rtype ?r = PSYNC_RANGE_COPY" "atype ?a = PSYNC_RANGE_COPY" "rfilename ?r = Some (files ! aidx ?a)" "roff ?r + rlen ?r = aoff ?a"
        using False by (auto simp: not_transfer)
      note c = copied_block [OF a t(2) len]
      let ?g = "local_bytes opened bs (files ! aidx ?a)"
      have "take (rlen ?r + ?len) (drop (roff ?r) ?g) = take (rlen ?r) (drop (roff ?r) ?g) @ block_of bs remote i"
        using c(1) by (simp only: take_add drop_drop add.commute [of "rlen ?r" "roff ?r"] t(4))
      moreover have "roff ?r + (rlen ?r + ?len) \<le> length ?g" using c(2) t(4) by simp
      ultimately show ?thesis using t c(3) [OF bs(2)] by (auto simp: padded_range_def last_ok_def in_local_def)
    qed
    have "concat (map (padded_range opened bs remote) (butlast ranges @ [?r])) = take (i * bs) remote" using ne by simp
    then have "concat (map (padded_range opened bs remote) (butlast ranges)) @ padded_range opened bs remote ?r = take (i * bs) remote" by simp
    then have "concat (map (padded_range opened bs remote) (butlast ranges @ [?m])) = take ((i + 1) * bs) remote"
      using m next_block by (simp flip: append_assoc)
    moreover have "\<forall>r\<in>set (butlast ranges). in_local opened bs r" using ne(3) by (meson in_set_butlastD)
    ultimately show ?thesis unfolding eq ranges_ok_def using m by auto
  qed
qed

lemma ranges_rebuild_padded:
  assumes "describes sha cs remote" and "block_size (blocksize cs)" and "blocksize cs \<le> length remote" and "\<And>n. length (malloc n) = n"
    and "no_collision sha (blocksize cs) opened files remote"
  shows "\<exists>ranges. psync_net_download_ranges sha malloc opened (Fetch_ok (Some cs)) (length remote) files = Some (PSYNC_NET_OK, ranges) \<and>
    concat (map (padded_range opened (blocksize cs) remote) ranges) = remote \<and> (\<forall>r\<in>set ranges. in_local opened (blocksize cs) r)"
proof (cases "files = []")
  case True
  then show ?thesis by (simp add: psync_net_download_ranges_def full_download_def padded_range_def in_local_def)
next
  case False
  let ?bs = "blocksize cs"
  let ?gs = "\<lambda>i. local_bytes opened ?bs (files ! i)"
  have bs: "0 < ?bs" by (rule scan_sizes(1) [OF assms(2)])
  obtain ns el where h: "psync_net_create_hash cs = Some (cs\<lparr>nextsame := ns\<rparr>, el)" "table_ok (cs\<lparr>nextsame := ns\<rparr>) el" "chains_ok (cs\<lparr>nextsame := ns\<rparr>)"
  proof -
    have "nextsame cs = replicate (blockcnt cs) 0" using assms(1) unfolding describes_def by blast
    then show thesis using create_hash_ok that by blast
  qed
  let ?cs = "cs\<lparr>nextsame := ns\<rparr>" and ?none = "\<lparr>aoff = 0, aidx = 0, atype = PSYNC_RANGE_TRANSFER\<rparr>"
  have "found_ok sha ?cs ?gs (length files) (el, replicate (blockcnt cs) ?none)" using h(2) by (simp add: found_ok_def)
  then have "\<exists>st'. scan_files sha malloc opened ?cs 0 files (el, replicate (blockcnt cs) ?none) = Some st' \<and> found_ok sha ?cs ?gs (length files) st'"
    using assms(2,4) by (intro scan_files_ok [OF h(3)]) simp_all
  then obtain el' acts where s: "scan_files sha malloc opened ?cs 0 files (el, replicate (blockcnt cs) ?none) = Some (el', acts)"
      "found_ok sha ?cs ?gs (length files) (el', acts)" by auto
  have cnt: "0 < blockcnt cs" using assms(1,3) bs by (simp add: describes_def div_greater_zero_iff)
  have acts: "acts \<noteq> []" using s(2) cnt by (auto simp: found_ok_def)
  have act: "action_ok opened ?bs remote files acts i" if "i < blockcnt cs" for i
    by (rule found_action_ok [OF s(2) assms(1) that assms(5) bs]) simp
  note later = later_block_size_eq [OF assms(1) _ bs]
  have later': "later_block_size ?cs i = later_block_size cs i" for i by (simp add: later_block_size_def Let_def)
  have ne: "remote \<noteq> []" using assms(3) bs by auto
  have first: "length (block_of ?bs remote 0) = ?bs" using assms(3) by (simp add: block_of_def)
  have "ranges_ok opened ?bs remote k (fold (add_range ?cs files acts) [1..<k] [new_range files (acts ! 0) 0 ?bs])" if "0 < k" "k \<le> blockcnt cs" for k
    using that
  proof (induction k)
    case (Suc k)
    show ?case
    proof (cases "k = 0")
      case True
      then show ?thesis using new_range_bytes [OF act [OF cnt] first [symmetric]] ne bs by (simp add: ranges_ok_def block_of_def)
    next
      case False
      then have k: "0 < k" "k < blockcnt cs" using Suc.prems by simp_all
      have "ranges_ok opened ?bs remote (k + 1) (add_range ?cs files acts k (fold (add_range ?cs files acts) [1..<k] [new_range files (acts ! 0) 0 ?bs]))"
        using Suc.IH k later [OF k(2)] act [OF k(2)] bs by (intro add_range_ok) (simp_all add: later')
      then show ?thesis using k by simp
    qed
  qed simp
  from this [OF cnt] have "ranges_ok opened ?bs remote (blockcnt cs) (fold (add_range ?cs files acts) [1..<blockcnt cs] [new_range files (acts ! 0) 0 ?bs])" by simp
  moreover have "take (blockcnt cs * ?bs) remote = remote"
    using round_up(2) [OF bs, of "length remote"] assms(1) by (simp add: describes_def round_up_def)
  ultimately show ?thesis
    using False h(1) s(1) acts assms(1) by (simp add: psync_net_download_ranges_def describes_def ranges_ok_def)
qed

text \<open>
  The bytes of a range in \<^verbatim>\<open>pdownload.c\<close>: a copied range is read from the local file as it is, and when the file ends before the range does the
  read that gets nothing makes the download fail. The files do not change between the scan and the copy.
\<close>

definition range_bytes :: "(string \<Rightarrow> byte list option) \<Rightarrow> byte list \<Rightarrow> range_list \<Rightarrow> byte list option" where
  "range_bytes opened remote r =
     (if rtype r = PSYNC_RANGE_TRANSFER then Some (take (rlen r) (drop (roff r) remote))
      else do { name \<leftarrow> rfilename r; f \<leftarrow> opened name;
                if roff r + rlen r \<le> length f then Some (take (rlen r) (drop (roff r) f)) else None })"

fun download :: "(string \<Rightarrow> byte list option) \<Rightarrow> byte list \<Rightarrow> range_list list \<Rightarrow> byte list option" where
  "download opened remote [] = Some []"
| "download opened remote (r # rs) = do { b \<leftarrow> range_bytes opened remote r; bs \<leftarrow> download opened remote rs; Some (b @ bs) }"

text \<open>A copied range that ends in the zeros which the scan assumes behind the end of a local file.\<close>

definition past_end :: "(string \<Rightarrow> byte list option) \<Rightarrow> range_list \<Rightarrow> bool" where
  "past_end opened r \<longleftrightarrow> rtype r = PSYNC_RANGE_COPY \<and> (\<exists>name f. rfilename r = Some name \<and> opened name = Some f \<and> length f < roff r + rlen r)"

lemma range_bytes_in_local:
  "in_local opened bs r \<Longrightarrow> range_bytes opened remote r = (if past_end opened r then None else Some (padded_range opened bs remote r))"
  by (auto simp: in_local_def range_bytes_def past_end_def padded_range_def local_bytes_def padded_file_def not_transfer split: bind_splits)

lemma download_in_local:
  "\<forall>r\<in>set ranges. in_local opened bs r \<Longrightarrow>
   download opened remote ranges = (if \<exists>r\<in>set ranges. past_end opened r then None else Some (concat (map (padded_range opened bs remote) ranges)))"
  by (induction ranges) (auto simp: range_bytes_in_local)

text \<open>
  C6. The ranges of a delta download rebuild the remote file: for any old local files, whatever they hold and however their windows
  match, fetching the ranges to transfer and copying the others from the local files gives exactly the remote file, unless
  some copied range runs past the end of its local file; then the download fails. Such a range ends less than a block behind the end, in the zeros that the scan
  assumes there. The function returns, and no null pointer is followed. Taken for granted: the checksums
  are those of the remote file; none of its blocks has the SHA-1 of a different window of the local files; the remote file is at least one
  block long (for a shorter one the first range is too long); and a block is a power of two of at most \<open>2\<^sup>2\<^sup>4\<close> bytes.
\<close>

theorem download_ranges_rebuild:
  assumes "describes sha cs remote" and "no_collision sha (blocksize cs) opened files remote"
    and "blocksize cs \<le> length remote" and "block_size (blocksize cs)" and "\<And>n. length (malloc n) = n"
  shows "\<exists>ranges. psync_net_download_ranges sha malloc opened (Fetch_ok (Some cs)) (length remote) files = Some (PSYNC_NET_OK, ranges) \<and>
    download opened remote ranges = (if \<exists>r\<in>set ranges. past_end opened r then None else Some remote) \<and>
    (\<forall>r\<in>set ranges. rtype r = PSYNC_RANGE_COPY \<longrightarrow>
       (\<exists>name f. rfilename r = Some name \<and> opened name = Some f \<and> roff r + rlen r < length f + blocksize cs))"
proof -
  obtain ranges where r: "psync_net_download_ranges sha malloc opened (Fetch_ok (Some cs)) (length remote) files = Some (PSYNC_NET_OK, ranges)"
      "concat (map (padded_range opened (blocksize cs) remote) ranges) = remote" "\<forall>r\<in>set ranges. in_local opened (blocksize cs) r"
    using ranges_rebuild_padded [OF assms(1,4,3,5,2)] by blast
  have "length (padded_file (blocksize cs) f) < length f + blocksize cs" for f
    using round_up(2,3) [OF scan_sizes(1) [OF assms(4)], of "length f"] by (simp add: padded_file_def)
  then have "\<forall>r\<in>set ranges. rtype r = PSYNC_RANGE_COPY \<longrightarrow>
      (\<exists>name f. rfilename r = Some name \<and> opened name = Some f \<and> roff r + rlen r < length f + blocksize cs)"
    using r(3) unfolding in_local_def by (meson le_less_trans)
  then show ?thesis using r download_in_local [OF r(3), of remote] by auto
qed

text \<open>A digest of 20 bytes for the examples.\<close>

definition sample_digest :: "byte list \<Rightarrow> byte list" where
  "sample_digest w = take 20 (w @ replicate 20 0)"

lemma download_ranges_rebuild_witness:
  "\<exists>ranges. psync_net_download_ranges sample_digest (\<lambda>n. replicate n 0) (\<lambda>name. Some [9, 1, 2, 7])
      (Fetch_ok (Some \<lparr>filesize = 3, blocksize = 2, blocks = [\<lparr>sha1 = sample_digest [1, 2], adler = 393220\<rparr>, \<lparr>sha1 = sample_digest [3], adler = 524292\<rparr>],
         nextsame = [0, 0]\<rparr>)) 3 [''old''] = Some (PSYNC_NET_OK, ranges) \<and>
    download (\<lambda>name. Some [9, 1, 2, 7]) [1, 2, 3] ranges = (if \<exists>r\<in>set ranges. past_end (\<lambda>name. Some [9, 1, 2, 7]) r then None else Some [1, 2, 3])"
proof -
  let ?cs = "\<lparr>filesize = 3, blocksize = 2, blocks = [\<lparr>sha1 = sample_digest [1, 2], adler = 393220\<rparr>, \<lparr>sha1 = sample_digest [3], adler = 524292\<rparr>], nextsame = [0, 0]\<rparr>"
  have d: "describes sample_digest ?cs [1, 2, 3]"
    by (auto simp: describes_def block_of_def less_Suc_eq)
  have g: "local_bytes (\<lambda>name. Some [9, 1, 2, 7]) 2 name = [9, 1, 2, 7]" for name
    by (simp add: local_bytes_def padded_file_def round_up_def)
  have n: "no_collision sample_digest (blocksize ?cs) (\<lambda>name. Some [9, 1, 2, 7]) [''old''] [1, 2, 3]"
    by (simp add: no_collision_def g, simp add: block_of_def padded_block_def sample_digest_def less_Suc_eq numeral_eq_Suc all_conj_distrib)
  have b: "block_size (blocksize ?cs)" by (auto simp: block_size_def intro: exI [of _ 1])
  have len: "length [1, 2, 3 :: byte] = 3" and le: "blocksize ?cs \<le> length [1, 2, 3 :: byte]" by simp_all
  show ?thesis using download_ranges_rebuild [where malloc = "\<lambda>n. replicate n 0", OF d n le b length_replicate] unfolding len by blast
qed

text \<open>
  The remote file is the local one with a zero behind it: both blocks are copied as one range, which ends behind the end of the local file, so
  the download fails, and fails again when it is tried again.
\<close>

definition zero_behind :: file_checksums where
  "zero_behind = \<lparr>filesize = 4, blocksize = 2, blocks = [\<lparr>sha1 = sample_digest [9, 1], adler = 1376267\<rparr>, \<lparr>sha1 = sample_digest [2, 0], adler = 393219\<rparr>], nextsame = [0, 0]\<rparr>"

lemma zero_behind_simps [simp]:
  "filesize zero_behind = 4" "blocksize zero_behind = 2" "blockcnt zero_behind = 2"
  "adler (blocks zero_behind ! 0) = 1376267" "adler (blocks zero_behind ! 1) = 393219"
  "sha1 (blocks zero_behind ! 0) = sample_digest [9, 1]" "sha1 (blocks zero_behind ! 1) = sample_digest [2, 0]"
  "nextsame zero_behind ! 0 = 0" "nextsame zero_behind ! 1 = 0"
  "adler (blocks zero_behind ! Suc 0) = 393219" "sha1 (blocks zero_behind ! Suc 0) = sample_digest [2, 0]" "nextsame zero_behind ! Suc 0 = 0"
  by (simp_all add: zero_behind_def)

lemma list_update_numeral: "(xs :: nat list)[numeral k := x] = (case xs of [] \<Rightarrow> [] | y # ys \<Rightarrow> y # ys[pred_numeral k := x])"
  by (cases xs) (simp_all add: numeral_eq_Suc)

lemma zero_behind_table: "psync_net_create_hash zero_behind = Some (zero_behind, [0, 2, 0, 0, 1, 0, 0])"
proof -
  have "psync_is_prime 7" unfolding psync_is_prime_def by (subst prime_from.simps) simp
  then have n: "next_size 7 = Some 7" by (subst next_size.simps) simp
  have r: "replicate 7 (0 :: nat) = [0, 0, 0, 0, 0, 0, 0]" by (simp add: numeral_eq_Suc)
  have "home zero_behind el 0 = 4" "home zero_behind el 1 = 1" if "length el = 7" for el using that by (simp_all add: home_def)
  then have "add_block 0 (zero_behind, [0, 0, 0, 0, 0, 0, 0]) = (zero_behind, [0, 0, 0, 0, 1, 0, 0])"
    "add_block 1 (zero_behind, [0, 0, 0, 0, 1, 0, 0]) = (zero_behind, [0, 2, 0, 0, 1, 0, 0])"
    by (simp_all add: add_block_def list_update_numeral)
  moreover have "[0..<2] = [0, 1 :: nat]" by (simp add: numeral_2_eq_2)
  ultimately show ?thesis by (simp add: psync_net_create_hash_def n r)
qed

lemma zero_behind_probes:
  "psync_net_hash_has_adler [0, 2, 0, 0, 1, 0, 0] zero_behind 1376267 = Some True"
  "psync_net_hash_has_adler_and_sha1 [0, 2, 0, 0, 1, 0, 0] zero_behind 1376267 (sample_digest [9, 1]) = Some 1"
  "psync_net_hash_remove [0, 2, 0, 0, 1, 0, 0] zero_behind 1376267 (sample_digest [9, 1]) = Some [0, 2, 0, 0, 0, 0, 0]"
  "psync_net_hash_has_adler [0, 2, 0, 0, 0, 0, 0] zero_behind 393220 = Some False"
  "psync_net_hash_has_adler [0, 2, 0, 0, 0, 0, 0] zero_behind 393219 = Some True"
  "psync_net_hash_has_adler_and_sha1 [0, 2, 0, 0, 0, 0, 0] zero_behind 393219 (sample_digest [2, 0]) = Some 2"
  "psync_net_hash_remove [0, 2, 0, 0, 0, 0, 0] zero_behind 393219 (sample_digest [2, 0]) = Some [0, 0, 0, 0, 0, 0, 0]"
  by (simp_all add: psync_net_hash_has_adler_def psync_net_hash_has_adler_and_sha1_def psync_net_hash_remove_def
      probe.simps [of _ _ "numeral k" for k] probe.simps [of _ _ "Suc 0"] close_gap.simps has_adler_def has_both_def next_slot_def
      list_update_numeral)

lemma zero_behind_scan:
  fixes free :: block_action
  defines "free \<equiv> \<lparr>aoff = 0, aidx = 0, atype = PSYNC_RANGE_TRANSFER\<rparr>"
  shows "scan_all sample_digest [9, 1, 2, 0] zero_behind 0 0 ([0, 2, 0, 0, 1, 0, 0], [free, free]) =
    Some ([0, 0, 0, 0, 0, 0, 0], [\<lparr>aoff = 0, aidx = 0, atype = PSYNC_RANGE_COPY\<rparr>, \<lparr>aoff = 2, aidx = 0, atype = PSYNC_RANGE_COPY\<rparr>])"
proof -
  have a: "adler32 ADLER32_INITIAL [9, 1] = 1376267" "adler32 ADLER32_INITIAL [1, 2] = 393220" "adler32 ADLER32_INITIAL [2, 0] = 393219"
    unfolding adler_initial adler32_eq by (simp_all add: adler_pack_def)
  have d: "drop 1 [9, 1, 2, 0 :: byte] = [1, 2, 0]" by simp
  have m: "mark_chain zero_behind i 0 p acts = Some (acts[i := \<lparr>aoff = p, aidx = 0, atype = PSYNC_RANGE_COPY\<rparr>])" if "i = 0 \<or> i = 1" for i p acts
    using that by (subst mark_chain.simps) (auto simp: Let_def)
  show ?thesis
    by (simp add: Let_def d free_def a m zero_behind_probes check_window_def psync_net_block_match_found_def
        scan_all.simps [of _ _ _ _ "numeral k" for k] scan_all.simps [of _ _ _ _ 0] scan_all.simps [of _ _ _ _ 1] del: One_nat_def)
qed

lemma zero_behind_fails:
  defines "ranges \<equiv> [\<lparr>roff = 0, rlen = 4, rtype = PSYNC_RANGE_COPY, rfilename = Some ''old''\<rparr>]"
  shows "psync_net_download_ranges sample_digest (\<lambda>n. replicate n 0) (\<lambda>name. Some [9, 1, 2]) (Fetch_ok (Some zero_behind)) 4 [''old''] =
      Some (PSYNC_NET_OK, ranges)"
    "download (\<lambda>name. Some [9, 1, 2]) [9, 1, 2, 0] ranges = None"
proof -
  have b: "block_size (blocksize zero_behind)" by (auto simp: block_size_def intro: exI [of _ 1])
  have p: "padded_file 2 [9, 1, 2] = [9, 1, 2, 0]" by (simp add: padded_file_def round_up_def)
  have r: "replicate 2 x = [x, x]" for x :: block_action by (simp add: numeral_2_eq_2)
  have f: "fold (add_range zero_behind [''old''] acts) [1..<2] rs = add_range zero_behind [''old''] acts 1 rs" for acts rs
    by (simp add: numeral_2_eq_2)
  show "psync_net_download_ranges sample_digest (\<lambda>n. replicate n 0) (\<lambda>name. Some [9, 1, 2]) (Fetch_ok (Some zero_behind)) 4 [''old''] =
      Some (PSYNC_NET_OK, ranges)"
    using check_file_windows [OF b, of "\<lambda>n. replicate n 0" sample_digest "[9, 1, 2]" 0]
    by (simp add: psync_net_download_ranges_def zero_behind_table p zero_behind_scan [unfolded One_nat_def] f [unfolded One_nat_def] r ranges_def
        add_range_def new_range_def later_block_size_def)
  show "download (\<lambda>name. Some [9, 1, 2]) [9, 1, 2, 0] ranges = None" by (simp add: ranges_def range_bytes_def)
qed

end
