(* ===== verification/Ppages.thy ===== *)
theory Ppages
  imports Pfsreplay
begin

section \<open>Reading a remote file page by page (ppagecache.c)\<close>

text \<open>
  Unmodified parts of a remote file are read in pages of 4096 bytes: each page comes from memory, from the cache file
  listed in the database, or from the network. Rows of the table \<open>pagecache\<close> are a map from hash and page number to
  the place, the size and the checksum of a page; what a request to the network gives for a page is an argument.
  \<open>crc\<close> stands for \<^verbatim>\<open>psync_crc32c\<close> with its initial value.
\<close>

unbundle bit_operations_syntax

abbreviation PSYNC_FS_PAGE_SIZE :: nat where "PSYNC_FS_PAGE_SIZE \<equiv> 4096"
abbreviation CACHE_HASH :: nat where "CACHE_HASH \<equiv> 8192"

subsection \<open>State\<close>

datatype page_type = PAGE_TYPE_FREE | PAGE_TYPE_READ | PAGE_TYPE_CACHE

record cache_page =
  page :: "byte list"
  phash :: nat
  pageid :: nat
  lastuse :: nat
  psize :: nat
  usecnt :: nat
  pcrc :: u32
  ptype :: page_type

record page_row =
  rowid :: nat
  rowsize :: nat
  rowcrc :: "u32 option"

record page_cache =
  cache_hash :: "nat \<Rightarrow> cache_page list"
  cache_pages_in_hash :: nat
  free_pages :: "cache_page list"
  pagecache_rows :: "nat \<times> nat \<Rightarrow> page_row option"
  readcache :: file_bytes

definition pagehash_by_hash_and_pageid :: "nat \<Rightarrow> nat \<Rightarrow> nat" where
  "pagehash_by_hash_and_pageid hash pid = wrap64 (hash + pid) mod CACHE_HASH"

definition offset_round_down_to_page :: "u64 \<Rightarrow> u64" where
  "offset_round_down_to_page off = off AND NOT (of_nat PSYNC_FS_PAGE_SIZE - 1)"

definition size_round_up_to_page :: "u64 \<Rightarrow> u64" where
  "size_round_up_to_page len = ((len - 1) OR (of_nat PSYNC_FS_PAGE_SIZE - 1)) + 1"

subsection \<open>Pages in memory\<close>

text \<open>What of a page of \<open>psize\<close> bytes is copied: the loops use \<open>>\<close> and \<open>\<ge>\<close>, with the same effect.\<close>

definition copy_len :: "nat \<Rightarrow> nat \<Rightarrow> nat \<Rightarrow> nat" where
  "copy_len len off tot = (if len + off > tot then if off > tot then 0 else tot - off else len)"

text \<open>
  The walk over a bucket: a page of the wanted key is marked as used and copied, unless its checksum is wrong; then it is
  taken out and the walk ends. The result is the bucket, the page taken out, and what was copied last.
\<close>

fun check_bucket :: "(byte list \<Rightarrow> u32) \<Rightarrow> nat \<Rightarrow> nat \<Rightarrow> nat \<Rightarrow> nat \<Rightarrow> nat \<Rightarrow> byte list option \<Rightarrow> cache_page list \<Rightarrow>
    cache_page list \<times> cache_page option \<times> byte list option" where
  "check_bucket crc hash pid tm len off ret [] = ([], None, ret)"
| "check_bucket crc hash pid tm len off ret (p # ps) =
     (if phash p = hash \<and> pageid p = pid then
        (let p = (if tm > lastuse p + 5 then p\<lparr>usecnt := usecnt p + 1, lastuse := tm\<rparr> else p) in
         if crc (take (psize p) (page p)) \<noteq> pcrc p then (ps, Some p, ret)
         else
           (let len = copy_len len off (psize p);
                (ps, bad, ret) = check_bucket crc hash pid tm len off (Some (take len (drop off (page p)))) ps
            in (p # ps, bad, ret)))
      else (let (ps, bad, ret) = check_bucket crc hash pid tm len off ret ps in (p # ps, bad, ret)))"

definition check_page_in_memory_by_hash :: "(byte list \<Rightarrow> u32) \<Rightarrow> nat \<Rightarrow> nat \<Rightarrow> nat \<Rightarrow> nat \<Rightarrow> nat \<Rightarrow> page_cache \<Rightarrow>
    byte list option \<times> page_cache" where
  "check_page_in_memory_by_hash crc hash pid len off tm pc =
     (let h = pagehash_by_hash_and_pageid hash pid in
      case check_bucket crc hash pid tm len off None (cache_hash pc h) of (ps, bad, ret) \<Rightarrow>
        (ret, (case bad of
                 None \<Rightarrow> pc\<lparr>cache_hash := (cache_hash pc)(h := ps)\<rparr>
               | Some p \<Rightarrow> pc\<lparr>cache_hash := (cache_hash pc)(h := ps), free_pages := p # free_pages pc,
                     cache_pages_in_hash := cache_pages_in_hash pc - 1\<rparr>)))"

subsection \<open>Pages in the cache file\<close>

text \<open>Bytes that a failing read leaves in the buffer are not shown: the page is then waited for and put in the same place.\<close>

definition mark_page_free :: "nat \<times> nat \<Rightarrow> page_cache \<Rightarrow> page_cache" where
  "mark_page_free key pc = pc\<lparr>pagecache_rows := (pagecache_rows pc)(key := None)\<rparr>"

definition check_page_in_database_by_hash :: "(byte list \<Rightarrow> u32) \<Rightarrow> nat \<Rightarrow> nat \<Rightarrow> nat \<Rightarrow> nat \<Rightarrow> page_cache \<Rightarrow> faults \<Rightarrow>
    byte list option \<times> page_cache \<times> faults" where
  "check_page_in_database_by_hash crc hash pid len off pc fs =
     (case pagecache_rows pc (hash, pid) of
        None \<Rightarrow> (None, pc, fs)
      | Some row \<Rightarrow>
          (let len = copy_len len off (rowsize row) in
           case psync_file_pread (readcache pc) len (rowid row * PSYNC_FS_PAGE_SIZE + off) fs of (readret, data, fs) \<Rightarrow>
             if readret \<noteq> int len then (None, mark_page_free (hash, pid) pc, fs)
             else if rowcrc row \<noteq> None \<and> len = rowsize row \<and> off = 0 \<and> Some (crc data) \<noteq> rowcrc row
             then (None, mark_page_free (hash, pid) pc, fs)
             else (Some data, pc, fs)))"

subsection \<open>The page loop\<close>

text \<open>A page still to be waited for: the index of the page in the read, where its bytes go, and what part of it is wanted.\<close>

record page_waiter =
  pageidx :: nat
  wbuf :: nat
  wsize :: nat
  woff :: nat

text \<open>What of page \<open>i\<close> of \<open>pagecnt\<close> is wanted: the offset in the page, the number of bytes, and where in the buffer.\<close>

definition page_part :: "nat \<Rightarrow> nat \<Rightarrow> nat \<Rightarrow> nat \<Rightarrow> nat \<times> nat \<times> nat" where
  "page_part len pageoff pagecnt i =
     (if i = 0 then (pageoff, (if len > PSYNC_FS_PAGE_SIZE - pageoff then PSYNC_FS_PAGE_SIZE - pageoff else len), 0)
      else if i = pagecnt - 1 then
        (0, (let copysize = (len + pageoff) mod PSYNC_FS_PAGE_SIZE in if copysize = 0 then PSYNC_FS_PAGE_SIZE else copysize),
         i * PSYNC_FS_PAGE_SIZE - pageoff)
      else (0, PSYNC_FS_PAGE_SIZE, i * PSYNC_FS_PAGE_SIZE - pageoff))"

definition put_buf :: "nat \<Rightarrow> byte list \<Rightarrow> byte list \<Rightarrow> byte list" where
  "put_buf at data buf = take at buf @ data @ drop (at + length data) buf"

text \<open>
  The pages another read waits for are \<open>waited\<close>; the others are requested, in ranges that grow while pages follow each other (newest range first).
\<close>

definition add_page_waiter :: "nat \<Rightarrow> nat set \<times> (nat \<times> nat) list \<Rightarrow> nat set \<times> (nat \<times> nat) list" where
  "add_page_waiter pid st =
     (case st of (waited, ranges) \<Rightarrow>
        if pid \<in> waited then (waited, ranges)
        else (insert pid waited,
          (case ranges of
             [] \<Rightarrow> [(pid * PSYNC_FS_PAGE_SIZE, PSYNC_FS_PAGE_SIZE)]
           | (off, n) # rs \<Rightarrow>
               if off + n = pid * PSYNC_FS_PAGE_SIZE then (off, n + PSYNC_FS_PAGE_SIZE) # rs
               else (pid * PSYNC_FS_PAGE_SIZE, PSYNC_FS_PAGE_SIZE) # ranges)))"

record page_read =
  rcache :: page_cache
  rbuf :: "byte list"
  rlen :: nat
  rwaiting :: "page_waiter list"
  rrequest :: "nat set \<times> (nat \<times> nat) list"
  rfaults :: faults

text \<open>One page: it is found, in full or short of what was wanted (which ends the loop), or waited for. The flag tells whether to go on.\<close>

definition read_page :: "(byte list \<Rightarrow> u32) \<Rightarrow> nat \<Rightarrow> nat \<Rightarrow> nat \<Rightarrow> nat \<Rightarrow> nat \<Rightarrow> nat \<Rightarrow> page_read \<Rightarrow> bool \<times> page_read" where
  "read_page crc hash tm first_page_id pageoff pagecnt i st =
     (case page_part (rlen st) pageoff pagecnt i of (copyoff, copysize, pbuff) \<Rightarrow>
        case check_page_in_memory_by_hash crc hash (first_page_id + i) copysize copyoff tm (rcache st) of (rb, pc) \<Rightarrow>
        case (if rb = None then check_page_in_database_by_hash crc hash (first_page_id + i) copysize copyoff pc (rfaults st)
              else (rb, pc, rfaults st)) of (rb, pc, fs) \<Rightarrow>
          let st = st\<lparr>rcache := pc, rfaults := fs\<rparr> in
          case rb of
            Some data \<Rightarrow>
              if length data = copysize then (True, st\<lparr>rbuf := put_buf pbuff data (rbuf st)\<rparr>)
              else (False, st\<lparr>rbuf := put_buf pbuff data (rbuf st),
                rlen := (if i \<noteq> 0 then i * PSYNC_FS_PAGE_SIZE + length data - pageoff else length data)\<rparr>)
          | None \<Rightarrow> (True, st\<lparr>rwaiting := rwaiting st @ [\<lparr>pageidx = i, wbuf = pbuff, wsize = copysize, woff = copyoff\<rparr>],
                rrequest := add_page_waiter (first_page_id + i) (rrequest st)\<rparr>))"

fun read_pages :: "(byte list \<Rightarrow> u32) \<Rightarrow> nat \<Rightarrow> nat \<Rightarrow> nat \<Rightarrow> nat \<Rightarrow> nat \<Rightarrow> nat list \<Rightarrow> page_read \<Rightarrow> page_read" where
  "read_pages crc hash tm first_page_id pageoff pagecnt [] st = st"
| "read_pages crc hash tm first_page_id pageoff pagecnt (i # is) st =
     (case read_page crc hash tm first_page_id pageoff pagecnt i st of
        (True, st) \<Rightarrow> read_pages crc hash tm first_page_id pageoff pagecnt is st
      | (False, st) \<Rightarrow> st)"

text \<open>A page arrives: \<open>Inl\<close> an error, or its bytes, of which the waiter gets what it wants.\<close>

definition psync_pagecache_send_page_wait_page :: "page_waiter \<Rightarrow> byte list \<Rightarrow> byte list" where
  "psync_pagecache_send_page_wait_page pwt p =
     (let rsize = (if woff pwt + wsize pwt > length p then if woff pwt \<ge> length p then 0 else length p - woff pwt else wsize pwt)
      in take rsize (drop (woff pwt) p))"

fun wait_pages :: "(nat \<Rightarrow> int + byte list) \<Rightarrow> nat \<Rightarrow> nat \<Rightarrow> page_waiter list \<Rightarrow> int \<Rightarrow> byte list \<Rightarrow> int \<times> byte list" where
  "wait_pages net first_page_id pageoff [] ret buf = (ret, buf)"
| "wait_pages net first_page_id pageoff (pwt # ws) ret buf =
     (case net (first_page_id + pageidx pwt) of
        Inl e \<Rightarrow> wait_pages net first_page_id pageoff ws e buf
      | Inr p \<Rightarrow>
          (let data = psync_pagecache_send_page_wait_page pwt p; rsize = length data; buf = put_buf (wbuf pwt) data buf;
               upto = int (pageidx pwt * PSYNC_FS_PAGE_SIZE + rsize) - int pageoff;
               ret = (if rsize < wsize pwt \<and> ret \<ge> 0 then
                        (if rsize \<noteq> 0 then (if pageidx pwt \<noteq> 0 then upto else int rsize)
                         else if pageidx pwt \<noteq> 0 then (if upto < ret then upto else ret)
                         else int rsize)
                      else ret)
           in wait_pages net first_page_id pageoff ws ret buf))"

text \<open>The buffer given by the caller is \<open>buf\<close>; the result is what is returned, the buffer, and the cache with the ranges requested.\<close>

definition psync_pagecache_read_unmodified_locked ::
    "(byte list \<Rightarrow> u32) \<Rightarrow> (nat \<Rightarrow> int + byte list) \<Rightarrow> nat \<Rightarrow> nat \<Rightarrow> nat \<Rightarrow> nat set \<Rightarrow> nat \<Rightarrow> nat \<Rightarrow> byte list \<Rightarrow> page_cache \<Rightarrow> faults \<Rightarrow>
      int \<times> byte list \<times> (nat \<times> nat) list \<times> page_cache \<times> faults" where
  "psync_pagecache_read_unmodified_locked crc net hash initialsize tm waited len off buf pc fs =
     (if off \<ge> initialsize then (0, buf, [], pc, fs)
      else
        (let len = (if off + len > initialsize then initialsize - off else len);
             poffset = unat (offset_round_down_to_page (of_nat off));
             pageoff = off - poffset;
             psize = unat (size_round_up_to_page (of_nat (len + pageoff)));
             pagecnt = psize div PSYNC_FS_PAGE_SIZE;
             first_page_id = poffset div PSYNC_FS_PAGE_SIZE;
             st = read_pages crc hash tm first_page_id pageoff pagecnt [0 ..< pagecnt]
               \<lparr>rcache = pc, rbuf = buf, rlen = len, rwaiting = [], rrequest = (waited, []), rfaults = fs\<rparr>
         in case wait_pages net first_page_id pageoff (rwaiting st) (int (rlen st)) (rbuf st) of (ret, buf) \<Rightarrow>
           (ret, buf, rev (snd (rrequest st)), rcache st, rfaults st)))"

subsection \<open>The parts of the pages\<close>

definition page_of :: "byte list \<Rightarrow> nat \<Rightarrow> byte list" where
  "page_of f p = take PSYNC_FS_PAGE_SIZE (drop (p * PSYNC_FS_PAGE_SIZE) f)"

definition page_count :: "nat \<Rightarrow> nat" where
  "page_count n = (n + (PSYNC_FS_PAGE_SIZE - 1)) div PSYNC_FS_PAGE_SIZE"

lemma and_mask_split: "(x AND mask n) + (x AND NOT (mask n)) = (x :: u64)"
proof -
  have "(x AND mask n) AND (x AND NOT (mask n)) = 0" by (simp add: bit_eq_iff bit_simps)
  then have "(x AND mask n) + (x AND NOT (mask n)) = (x AND mask n) OR (x AND NOT (mask n))" by (rule disjunctive_add_eq_or)
  also have "\<dots> = x" by (auto simp: bit_eq_iff bit_simps)
  finally show ?thesis .
qed

lemma page_mask: "mask 12 = (0xFFF :: u64)" "NOT (mask 12) = (- 4096 :: u64)"
  by (simp_all add: mask_eq_exp_minus_1)

lemma page_count_pred: "0 < n \<Longrightarrow> page_count n = (n - 1) div 4096 + 1"
proof -
  assume "0 < n"
  then have "n + 4095 = (n - 1) + 4096" by simp
  then show ?thesis unfolding page_count_def by simp
qed

lemma unat_and_mask: "unat (x AND mask 12 :: u64) = unat x mod 4096"
  by (simp add: take_bit_eq_mask [symmetric] unsigned_take_bit_eq take_bit_eq_mod unat_mod)

lemma unat_and_page: "unat (x AND - 4096 :: u64) = unat x div 4096 * 4096"
proof -
  have "unat (x AND mask 12) + unat (x AND NOT (mask 12)) = unat x"
  proof -
    have "x AND mask 12 = x - (x AND NOT (mask 12))" using and_mask_split [of x 12] by (simp add: eq_diff_eq)
    moreover have "x AND NOT (mask 12) \<le> x" by (simp add: word_and_le1 word_and_le2)
    ultimately show ?thesis by (simp add: unat_sub word_le_nat_alt)
  qed
  then show ?thesis using div_mult_mod_eq [of "unat x" 4096] unfolding unat_and_mask page_mask(2) by linarith
qed

lemma offset_round_down: "off < 2 ^ 64 \<Longrightarrow> unat (offset_round_down_to_page (of_nat off)) = off div 4096 * 4096"
  by (simp add: offset_round_down_to_page_def unat_and_page unat_of_nat)

lemma size_round_up:
  assumes "0 < n" and "n < 2 ^ 63"
  shows "unat (size_round_up_to_page (of_nat n)) = page_count n * 4096"
proof -
  let ?x = "of_nat (n - 1) :: u64"
  have n1: "of_nat n - 1 = ?x" using assms(1) by (simp add: of_nat_diff)
  have "(?x AND NOT (mask 12)) AND mask 12 = 0" by (simp add: bit_eq_iff bit_simps)
  then have "(?x AND NOT (mask 12)) + mask 12 = (?x AND NOT (mask 12)) OR mask 12" by (rule disjunctive_add_eq_or)
  also have "\<dots> = ?x OR mask 12" by (auto simp: bit_eq_iff bit_simps)
  finally have "size_round_up_to_page (of_nat n) = (?x AND - 4096) + 0x1000"
    unfolding size_round_up_to_page_def n1 page_mask by (simp add: add.assoc flip: page_mask(1)) (simp add: page_mask add.commute)
  moreover have "unat (?x AND - 4096) = (n - 1) div 4096 * 4096"
    using assms(2) by (simp add: unat_and_page unat_of_nat)
  moreover have "n < 9223372036854775808" using assms(2) by simp
  then have "(n - 1) div 4096 * 4096 + 4096 < 18446744073709551616" using div_times_less_eq_dividend [of "n - 1" 4096] by linarith
  ultimately have "unat (size_round_up_to_page (of_nat n)) = (n - 1) div 4096 * 4096 + 4096"
    by (simp add: unat_word_ariths)
  moreover note page_count_pred [OF assms(1)]
  ultimately show ?thesis by simp
qed

lemma last_page: "0 < n \<Longrightarrow> (n - 1) div 4096 * 4096 + (if n mod 4096 = 0 then 4096 else n mod 4096) = (n :: nat)"
proof -
  assume n: "0 < n"
  define q r where "q = n div 4096" and "r = n mod 4096"
  have e: "n = q * 4096 + r" "r < 4096" by (simp_all add: q_def r_def)
  show ?thesis
  proof (cases "r = 0")
    case True
    then have "0 < q" using n e by (cases q) simp_all
    then have "n - 1 = (q - 1) * 4096 + 4095" using True e by (cases q) simp_all
    then have "(n - 1) div 4096 = q - 1" by simp
    then show ?thesis using True e \<open>0 < q\<close> by (cases q) simp_all
  next
    case False
    then have "n - 1 = q * 4096 + (r - 1)" using e by simp
    then have "(n - 1) div 4096 = q" using e(2) by simp
    then show ?thesis using False e by simp
  qed
qed

text \<open>Byte \<open>x\<close> of the read lies in page \<open>(x + pageoff) div 4096\<close>, counted from the first.\<close>

lemma page_part_correct:
  assumes "page_part len pageoff (page_count (len + pageoff)) i = (copyoff, copysize, pbuff)" and "0 < len" and "pageoff < 4096"
    and "i < page_count (len + pageoff)"
  shows "pbuff \<le> x \<and> x < pbuff + copysize \<longleftrightarrow> x < len \<and> (x + pageoff) div 4096 = i"
    and "pbuff \<le> x \<Longrightarrow> x < pbuff + copysize \<Longrightarrow> i * 4096 + copyoff + (x - pbuff) = x + pageoff"
    and "copyoff + copysize \<le> 4096" and "0 < copysize" and "pbuff + copysize \<le> len"
    and "i * 4096 + copyoff = pbuff + pageoff"
proof -
  consider (first) "i = 0" | (last) "i \<noteq> 0" "i = page_count (len + pageoff) - 1" | (middle) "i \<noteq> 0" "i < page_count (len + pageoff) - 1"
    using assms(4) by linarith
  note cs = this
  have "(pbuff \<le> x \<and> x < pbuff + copysize \<longleftrightarrow> x < len \<and> (x + pageoff) div 4096 = i) \<and> copyoff + copysize \<le> 4096 \<and> 0 < copysize \<and> pbuff + copysize \<le> len \<and>
      i * 4096 + copyoff = pbuff + pageoff"
    using cs
  proof cases
    case first
    then have "copyoff = pageoff" "pbuff = 0" "copysize = (if len > 4096 - pageoff then 4096 - pageoff else len)"
      using assms(1) by (auto simp: page_part_def)
    then show ?thesis using first assms(2,3) by (auto split: if_splits)
  next
    case last
    then have c: "copyoff = 0" "pbuff = i * 4096 - pageoff" "copysize = (if (len + pageoff) mod 4096 = 0 then 4096 else (len + pageoff) mod 4096)"
      using assms(1) by (simp_all add: page_part_def Let_def)
    have i: "i = (len + pageoff - 1) div 4096" using last(2) assms(2) page_count_pred [of "len + pageoff"] by simp
    have "i * 4096 + copysize = len + pageoff" using last_page [of "len + pageoff"] i assms(2) unfolding c(3) by simp
    moreover have "pageoff \<le> i * 4096" using last(1) assms(3) by (cases i) simp_all
    moreover have "(x + pageoff) div 4096 = i \<longleftrightarrow> i * 4096 \<le> x + pageoff \<and> x + pageoff < i * 4096 + 4096" by auto
    moreover have "copysize \<le> 4096" "0 < copysize" using c(3) by (auto simp: less_imp_le)
    ultimately show ?thesis using c(1,2) by auto
  next
    case middle
    then have c: "copyoff = 0" "pbuff = i * 4096 - pageoff" "copysize = 4096" using assms(1) by (simp_all add: page_part_def)
    have "i * 4096 + 4096 \<le> len + pageoff"
      using middle(2) div_times_less_eq_dividend [of "len + pageoff + 4095" 4096] unfolding page_count_def by linarith
    moreover have "pageoff \<le> i * 4096" using middle(1) assms(3) by (cases i) simp_all
    moreover have "(x + pageoff) div 4096 = i \<longleftrightarrow> i * 4096 \<le> x + pageoff \<and> x + pageoff < i * 4096 + 4096" by auto
    ultimately show ?thesis using c by auto
  qed
  then show "pbuff \<le> x \<and> x < pbuff + copysize \<longleftrightarrow> x < len \<and> (x + pageoff) div 4096 = i"
    "pbuff \<le> x \<Longrightarrow> x < pbuff + copysize \<Longrightarrow> i * 4096 + copyoff + (x - pbuff) = x + pageoff"
    "copyoff + copysize \<le> 4096" "0 < copysize" "pbuff + copysize \<le> len" "i * 4096 + copyoff = pbuff + pageoff"
    by auto
qed

subsection \<open>Right pages give the right bytes\<close>

text \<open>A page in memory whose checksum is right is the page of the file, and so is every page of the cache file that the database lists.\<close>

definition page_right :: "(byte list \<Rightarrow> u32) \<Rightarrow> nat \<Rightarrow> byte list \<Rightarrow> cache_page \<Rightarrow> bool" where
  "page_right crc hash f p \<longleftrightarrow> (phash p = hash \<and> crc (take (psize p) (page p)) = pcrc p \<longrightarrow>
     take (psize p) (page p) = page_of f (pageid p) \<and> psize p = length (page_of f (pageid p)))"

definition row_right :: "byte list \<Rightarrow> file_bytes \<Rightarrow> nat \<Rightarrow> page_row \<Rightarrow> bool" where
  "row_right f cfile pid row \<longleftrightarrow> rowsize row = length (page_of f pid) \<and>
     take (length (page_of f pid)) (drop (rowid row * PSYNC_FS_PAGE_SIZE) cfile) = page_of f pid"

definition pages_match :: "(byte list \<Rightarrow> u32) \<Rightarrow> nat \<Rightarrow> byte list \<Rightarrow> page_cache \<Rightarrow> bool" where
  "pages_match crc hash f pc \<longleftrightarrow> (\<forall>h. \<forall>p \<in> set (cache_hash pc h). page_right crc hash f p) \<and>
     (\<forall>pid row. pagecache_rows pc (hash, pid) = Some row \<longrightarrow> row_right f (readcache pc) pid row)"

text \<open>The pages that a read of \<open>len\<close> bytes at \<open>off\<close> takes as a whole.\<close>

definition whole_pages :: "byte list \<Rightarrow> nat \<Rightarrow> nat \<Rightarrow> nat set" where
  "whole_pages f off len = {pid. page_of f pid \<noteq> [] \<and> off \<le> pid * PSYNC_FS_PAGE_SIZE \<and> pid * PSYNC_FS_PAGE_SIZE + length (page_of f pid) \<le> off + len}"

text \<open>
  The bytes of the cache file may also be wrong, for pages of \<open>W\<close> that have a checksum, as long as it does not fit them.
\<close>

definition row_usable :: "(byte list \<Rightarrow> u32) \<Rightarrow> byte list \<Rightarrow> nat set \<Rightarrow> file_bytes \<Rightarrow> nat \<Rightarrow> page_row \<Rightarrow> bool" where
  "row_usable crc f W cfile pid row \<longleftrightarrow> row_right f cfile pid row \<or>
     (pid \<in> W \<and> rowsize row = length (page_of f pid) \<and> rowcrc row \<noteq> None \<and>
      rowcrc row \<noteq> Some (crc (take (rowsize row) (drop (rowid row * PSYNC_FS_PAGE_SIZE) cfile))))"

definition pages_usable :: "(byte list \<Rightarrow> u32) \<Rightarrow> nat \<Rightarrow> byte list \<Rightarrow> nat set \<Rightarrow> page_cache \<Rightarrow> bool" where
  "pages_usable crc hash f W pc \<longleftrightarrow> (\<forall>h. \<forall>p \<in> set (cache_hash pc h). page_right crc hash f p) \<and>
     (\<forall>pid row. pagecache_rows pc (hash, pid) = Some row \<longrightarrow> row_usable crc f W (readcache pc) pid row)"

lemma pages_usable_none: "pages_usable crc hash f {} pc \<longleftrightarrow> pages_match crc hash f pc"
  by (simp add: pages_usable_def pages_match_def row_usable_def)

lemma length_page_of: "length (page_of f p) = min 4096 (length f - p * 4096)"
  by (simp add: page_of_def)

lemma nth_page_of: "j < length (page_of f p) \<Longrightarrow> page_of f p ! j = f ! (p * 4096 + j)"
  by (auto simp: page_of_def intro!: nth_drop)

lemma copy_len_take: "take (copy_len len off n) (drop off xs) = take len (drop off (take n xs))"
  by (auto simp: copy_len_def drop_take min_def)

lemma check_bucket_right:
  assumes "\<forall>p \<in> set ps. page_right crc hash f p"
    and "check_bucket crc hash pid tm len off ret ps = (ps', bad, ret')"
  shows "(\<forall>p \<in> set ps'. page_right crc hash f p) \<and> (ret' = ret \<or> ret' = Some (take len (drop off (page_of f pid))))"
  using assms
proof (induction ps arbitrary: ps' bad ret' ret len)
  case (Cons p ps)
  define q where "q = (if tm > lastuse p + 5 then p\<lparr>usecnt := usecnt p + 1, lastuse := tm\<rparr> else p)"
  have q: "page q = page p" "phash q = phash p" "pageid q = pageid p" "psize q = psize p" "pcrc q = pcrc p" by (simp_all add: q_def)
  have "page_right crc hash f p" using Cons.prems(1) by simp
  then have right: "page_right crc hash f q" unfolding page_right_def q .
  show ?case
  proof (cases "phash p = hash \<and> pageid p = pid")
    case False
    obtain ps1 bad1 ret1 where r: "check_bucket crc hash pid tm len off ret ps = (ps1, bad1, ret1)" by (metis prod_cases3)
    then have "ps' = p # ps1" "ret' = ret1" using Cons.prems(2) False by auto
    then show ?thesis using Cons.IH [OF _ r] Cons.prems(1) by auto
  next
    case key: True
    show ?thesis
    proof (cases "crc (take (psize p) (page p)) = pcrc p")
      case False
      then have "ps' = ps" "ret' = ret" using Cons.prems(2) key q by (auto simp: Let_def q_def [symmetric])
      then show ?thesis using Cons.prems(1) by simp
    next
      case True
      then have p: "take (psize p) (page p) = page_of f pid" "psize p = length (page_of f pid)"
        using Cons.prems(1) key unfolding page_right_def by auto
      have data: "take (copy_len len off (psize p)) (drop off (page p)) = take len (drop off (page_of f pid))"
        by (simp only: copy_len_take p(1))
      let ?len = "copy_len len off (psize p)"
      show ?thesis
      proof -
        obtain ps1 bad1 ret1 where r: "check_bucket crc hash pid tm ?len off (Some (take ?len (drop off (page p)))) ps = (ps1, bad1, ret1)"
          by (metis prod_cases3)
        then have "ps' = q # ps1" "ret' = ret1" using Cons.prems(2) key True q by (auto simp: Let_def q_def [symmetric])
        moreover have "take ?len (drop off (page_of f pid)) = take len (drop off (page_of f pid))"
          using copy_len_take [of len off "psize p" "page_of f pid"] p(2) by simp
        ultimately show ?thesis using Cons.IH [OF _ r] Cons.prems(1) right data by auto
      qed
    qed
  qed
qed simp

lemma memory_usable:
  assumes "pages_usable crc hash f W pc"
    and "check_page_in_memory_by_hash crc hash pid len off tm pc = (ret, pc')"
  shows "pages_usable crc hash f W pc' \<and> (ret = None \<or> ret = Some (take len (drop off (page_of f pid))))"
proof -
  let ?h = "pagehash_by_hash_and_pageid hash pid"
  obtain ps bad r where b: "check_bucket crc hash pid tm len off None (cache_hash pc ?h) = (ps, bad, r)" by (metis prod_cases3)
  have "\<forall>p \<in> set (cache_hash pc ?h). page_right crc hash f p" using assms(1) by (simp add: pages_usable_def)
  from check_bucket_right [OF this b]
  have "\<forall>p \<in> set ps. page_right crc hash f p" "r = None \<or> r = Some (take len (drop off (page_of f pid)))" by simp_all
  moreover have "ret = r" "pc' = (case bad of None \<Rightarrow> pc\<lparr>cache_hash := (cache_hash pc)(?h := ps)\<rparr>
      | Some p \<Rightarrow> pc\<lparr>cache_hash := (cache_hash pc)(?h := ps), free_pages := p # free_pages pc, cache_pages_in_hash := cache_pages_in_hash pc - 1\<rparr>)"
    using assms(2) b by (simp_all add: check_page_in_memory_by_hash_def Let_def)
  ultimately show ?thesis using assms(1) by (auto simp: pages_usable_def split: option.splits)
qed

lemma memory_right:
  assumes "pages_match crc hash f pc"
    and "check_page_in_memory_by_hash crc hash pid len off tm pc = (ret, pc')"
  shows "pages_match crc hash f pc' \<and> (ret = None \<or> ret = Some (take len (drop off (page_of f pid))))"
  using memory_usable [OF assms(1) [folded pages_usable_none] assms(2)] by (simp add: pages_usable_none)

text \<open>A page that is read as a whole is checked.\<close>

lemma database_usable:
  assumes "pages_usable crc hash f W pc" and whole: "pid \<in> W \<Longrightarrow> off = 0 \<and> length (page_of f pid) \<le> len"
    and "check_page_in_database_by_hash crc hash pid len off pc fs = (ret, pc', fs')"
  shows "pages_usable crc hash f W pc' \<and> (ret = None \<or> ret = Some (take len (drop off (page_of f pid))))"
proof (cases "pagecache_rows pc (hash, pid)")
  case None
  then show ?thesis using assms(1,3) by (simp add: check_page_in_database_by_hash_def)
next
  case (Some row)
  let ?len = "copy_len len off (rowsize row)"
  have row: "row_usable crc f W (readcache pc) pid row" using assms(1) Some by (simp add: pages_usable_def)
  have gone: "pages_usable crc hash f W (mark_page_free (hash, pid) pc)" using assms(1) by (auto simp: pages_usable_def mark_page_free_def)
  obtain n data fs1 where r: "psync_file_pread (readcache pc) ?len (rowid row * 4096 + off) fs = (n, data, fs1)" by (metis prod_cases3)
  have data: "data = take ?len (drop (rowid row * 4096 + off) (readcache pc))" if "n = int ?len"
    using r that by (auto simp: psync_file_pread_def Let_def split: prod.splits fault.splits)
  have res: "(ret, pc', fs') =
    (if n \<noteq> int ?len then (None, mark_page_free (hash, pid) pc, fs1)
     else if rowcrc row \<noteq> None \<and> ?len = rowsize row \<and> off = 0 \<and> Some (crc data) \<noteq> rowcrc row
     then (None, mark_page_free (hash, pid) pc, fs1) else (Some data, pc, fs1))"
    using assms(3) r by (simp add: check_page_in_database_by_hash_def Some Let_def)
  consider (right) "row_right f (readcache pc) pid row"
    | (bad) "pid \<in> W" "rowsize row = length (page_of f pid)" "rowcrc row \<noteq> None"
        "rowcrc row \<noteq> Some (crc (take (rowsize row) (drop (rowid row * 4096) (readcache pc))))"
    using row unfolding row_usable_def by auto
  then show ?thesis
  proof cases
    case right
    then have "data = take len (drop off (page_of f pid))" if "n = int ?len"
      using data [OF that] copy_len_take [of len off "rowsize row" "drop (rowid row * 4096) (readcache pc)"]
      by (simp add: row_right_def add.commute)
    then show ?thesis using res gone assms(1) by (auto split: if_splits)
  next
    case bad
    then have "off = 0" "?len = rowsize row" using whole by (auto simp: copy_len_def)
    then show ?thesis using res gone data bad(3,4) by (auto split: if_splits)
  qed
qed

text \<open>A page of which only a part is read is not checked: whatever the cache file holds there is taken.\<close>

lemma partial_page_unchecked:
  assumes "pagecache_rows pc (hash, pid) = Some row" and "off + len \<le> rowsize row" and "len < rowsize row"
    and "rowid row * PSYNC_FS_PAGE_SIZE + off + len \<le> length (readcache pc)"
  shows "check_page_in_database_by_hash crc hash pid len off pc [] = (Some (take len (drop (rowid row * PSYNC_FS_PAGE_SIZE + off) (readcache pc))), pc, [])"
  using assms by (simp add: check_page_in_database_by_hash_def copy_len_def add.assoc add.commute)

subsection \<open>Every byte of the read\<close>

lemma put_buf:
  assumes "at + length data \<le> length buf"
  shows "length (put_buf at data buf) = length buf"
    and "x < length buf \<Longrightarrow> put_buf at data buf ! x = (if at \<le> x \<and> x < at + length data then data ! (x - at) else buf ! x)"
  using assms by (auto simp: put_buf_def nth_append)

lemma page_sum: "i * 4096 + c = p + m \<Longrightarrow> q * 4096 + m = off \<Longrightarrow> c + n + (q + i) * 4096 = off + p + (n :: nat)"
  unfolding add_mult_distrib by linarith

definition waiter_for :: "nat \<Rightarrow> nat \<Rightarrow> nat \<Rightarrow> page_waiter" where
  "waiter_for len pageoff i = (case page_part len pageoff (page_count (len + pageoff)) i of (copyoff, copysize, pbuff) \<Rightarrow>
     \<lparr>pageidx = i, wbuf = pbuff, wsize = copysize, woff = copyoff\<rparr>)"

text \<open>The read of \<open>len\<close> bytes at \<open>off\<close> inside the file, into a buffer that is long enough.\<close>

definition inside :: "byte list \<Rightarrow> nat \<Rightarrow> nat \<Rightarrow> byte list \<Rightarrow> bool" where
  "inside f off len buf \<longleftrightarrow> 0 < len \<and> off + len \<le> length f \<and> len \<le> length buf"

lemma put_page:
  assumes "inside f off len buf" and "i < page_count (len + off mod 4096)"
    and "page_part len (off mod 4096) (page_count (len + off mod 4096)) i = (copyoff, copysize, pbuff)"
    and "data = take copysize (drop copyoff (page_of f (off div 4096 + i)))"
  shows "copyoff + copysize \<le> length (page_of f (off div 4096 + i))" and "length data = copysize"
    and "length (put_buf pbuff data buf) = length buf"
    and "x < length buf \<Longrightarrow> put_buf pbuff data buf ! x =
      (if x < len \<and> (x + off mod 4096) div 4096 = i then f ! (off + x) else buf ! x)"
proof -
  note p = page_part_correct [OF assms(3) _ _ assms(2)]
  have len: "0 < len" "off + len \<le> length f" "len \<le> length buf" using assms(1) by (simp_all add: inside_def)
  have m: "off mod 4096 < 4096" by simp
  have "copyoff + copysize + (off div 4096 + i) * 4096 = off + pbuff + copysize"
    using page_sum [OF p(6) [OF len(1) m] div_mult_mod_eq] by simp
  moreover have "pbuff + copysize \<le> len" by (rule p(5) [OF len(1) m])
  ultimately show fit: "copyoff + copysize \<le> length (page_of f (off div 4096 + i))"
    using p(3) [OF len(1) m] len(2) by (simp add: length_page_of)
  then show ld: "length data = copysize" unfolding assms(4) by simp
  then have b: "pbuff + length data \<le> length buf" using p(5) [OF len(1) m] len(3) by simp
  show "length (put_buf pbuff data buf) = length buf" by (rule put_buf(1) [OF b])
  assume x: "x < length buf"
  have "data ! (x - pbuff) = f ! (off + x)" if "pbuff \<le> x" "x < pbuff + copysize"
  proof -
    have "data ! (x - pbuff) = f ! ((off div 4096 + i) * 4096 + (copyoff + (x - pbuff)))"
      using that fit nth_page_of [of "copyoff + (x - pbuff)" f "off div 4096 + i"] unfolding assms(4) by simp
    also have "(off div 4096 + i) * 4096 + (copyoff + (x - pbuff)) = off + x"
      using page_sum [of i "copyoff + (x - pbuff)" x "off mod 4096" "off div 4096" off 0] p(2) [OF len(1) m that] by simp
    finally show ?thesis .
  qed
  then show "put_buf pbuff data buf ! x = (if x < len \<and> (x + off mod 4096) div 4096 = i then f ! (off + x) else buf ! x)"
    using put_buf(2) [OF b x] p(1) [OF len(1) m, of x] ld by auto
qed

lemma whole_part:
  assumes "inside f off len buf" and "i < page_count (len + off mod 4096)"
    and "page_part len (off mod 4096) (page_count (len + off mod 4096)) i = (copyoff, copysize, pbuff)"
    and "off div 4096 + i \<in> whole_pages f off len"
  shows "copyoff = 0 \<and> length (page_of f (off div 4096 + i)) \<le> copysize"
proof -
  let ?p = "off div 4096 + i" and ?n = "length (page_of f (off div 4096 + i))"
  note p = page_part_correct [OF assms(3) _ _ assms(2)]
  have len: "0 < len" and m: "off mod 4096 < 4096" using assms(1) by (simp_all add: inside_def)
  have w: "0 < ?n" "?n \<le> 4096" "off \<le> ?p * 4096" "?p * 4096 + ?n \<le> off + len"
    using assms(4) by (simp_all add: whole_pages_def length_page_of [of f ?p, symmetric]) (simp add: length_page_of)
  have place: "copyoff + ?p * 4096 = off + pbuff" using page_sum [OF p(6) [OF len m] div_mult_mod_eq, of 0] by simp
  have "copyoff = 0"
  proof (cases "i = 0")
    case True
    then have "off \<le> off div 4096 * 4096" using w(3) by simp
    then have "off mod 4096 = 0" using div_mult_mod_eq [of off 4096] by linarith
    then show ?thesis using True assms(3) by (simp add: page_part_def)
  next
    case False
    then show ?thesis using assms(3) by (auto simp: page_part_def split: if_splits)
  qed
  moreover from this have x: "pbuff + (?n - 1) < len" "(pbuff + (?n - 1) + off mod 4096) = i * 4096 + (?n - 1)"
    using place w p(6) [OF len m] by linarith+
  have "(pbuff + (?n - 1) + off mod 4096) div 4096 = i" unfolding x(2) using w(1,2) by (subst div_mult_self3) simp_all
  then have "pbuff + (?n - 1) < pbuff + copysize" using p(1) [OF len m, of "pbuff + (?n - 1)"] x(1) by simp
  then have "?n \<le> copysize" using w(1) by linarith
  ultimately show ?thesis by simp
qed

text \<open>After some of the pages: their bytes are in the buffer, or are waited for.\<close>

definition pages_done :: "(byte list \<Rightarrow> u32) \<Rightarrow> nat \<Rightarrow> byte list \<Rightarrow> nat set \<Rightarrow> nat \<Rightarrow> nat \<Rightarrow> nat set \<Rightarrow> page_read \<Rightarrow> bool" where
  "pages_done crc hash f W off len is st \<longleftrightarrow> pages_usable crc hash f W (rcache st) \<and> W \<subseteq> whole_pages f off len \<and> rlen st = len \<and> inside f off len (rbuf st) \<and>
     (\<forall>w \<in> set (rwaiting st). \<exists>i < page_count (len + off mod 4096). w = waiter_for len (off mod 4096) i) \<and>
     (\<forall>x < len. (x + off mod 4096) div 4096 \<in> is \<longrightarrow>
        rbuf st ! x = f ! (off + x) \<or> waiter_for len (off mod 4096) ((x + off mod 4096) div 4096) \<in> set (rwaiting st))"

lemma read_page_done:
  assumes "pages_done crc hash f W off len is st" and "i < page_count (len + off mod 4096)"
    and "read_page crc hash tm (off div 4096) (off mod 4096) (page_count (len + off mod 4096)) i st = (b, st')"
  shows "b \<and> pages_done crc hash f W off len (insert i is) st' \<and> length (rbuf st') = length (rbuf st)"
proof -
  have inv: "pages_usable crc hash f W (rcache st)" "rlen st = len" "inside f off len (rbuf st)" "W \<subseteq> whole_pages f off len" using assms(1) by (simp_all add: pages_done_def)
  obtain copyoff copysize pbuff where part: "page_part len (off mod 4096) (page_count (len + off mod 4096)) i = (copyoff, copysize, pbuff)"
    by (metis prod_cases3)
  define data where "data = take copysize (drop copyoff (page_of f (off div 4096 + i)))"
  note put = put_page [OF inv(3) assms(2) part data_def]
  obtain rb pc where mem: "check_page_in_memory_by_hash crc hash (off div 4096 + i) copysize copyoff tm (rcache st) = (rb, pc)" by (metis prod.exhaust)
  have mem_r: "pages_usable crc hash f W pc" "rb = None \<or> rb = Some data" using memory_usable [OF inv(1) mem] by (simp_all add: data_def)
  obtain rb2 pc2 fs2 where db: "(if rb = None then check_page_in_database_by_hash crc hash (off div 4096 + i) copysize copyoff pc (rfaults st)
      else (rb, pc, rfaults st)) = (rb2, pc2, fs2)" by (metis prod_cases3)
  have db_r: "pages_usable crc hash f W pc2 \<and> (rb2 = None \<or> rb2 = Some data)"
  proof (cases "rb = None")
    case True
    have wh: "off div 4096 + i \<in> W \<Longrightarrow> copyoff = 0 \<and> length (page_of f (off div 4096 + i)) \<le> copysize"
      using whole_part [OF inv(3) assms(2) part] inv(4) by blast
    have chk: "check_page_in_database_by_hash crc hash (off div 4096 + i) copysize copyoff pc (rfaults st) = (rb2, pc2, fs2)"
      using db True by simp
    show ?thesis using database_usable [OF mem_r(1) wh chk] by (simp add: data_def)
  next
    case False
    then show ?thesis using mem_r db by auto
  qed
  have step: "(b, st') = (let st = st\<lparr>rcache := pc2, rfaults := fs2\<rparr> in
          case rb2 of
            Some data \<Rightarrow>
              if length data = copysize then (True, st\<lparr>rbuf := put_buf pbuff data (rbuf st)\<rparr>)
              else (False, st\<lparr>rbuf := put_buf pbuff data (rbuf st),
                rlen := (if i \<noteq> 0 then i * PSYNC_FS_PAGE_SIZE + length data - off mod 4096 else length data)\<rparr>)
          | None \<Rightarrow> (True, st\<lparr>rwaiting := rwaiting st @ [\<lparr>pageidx = i, wbuf = pbuff, wsize = copysize, woff = copyoff\<rparr>],
                rrequest := add_page_waiter (off div 4096 + i) (rrequest st)\<rparr>))"
    unfolding assms(3) [symmetric] read_page_def inv(2) part prod.case mem db ..
  consider (found) "rb2 = Some data" | (wait) "rb2 = None" using db_r by blast
  then show ?thesis
  proof cases
    case found
    then have st': "b" "st' = st\<lparr>rcache := pc2, rfaults := fs2, rbuf := put_buf pbuff data (rbuf st)\<rparr>"
      using step put(2) by (simp_all add: Let_def)
    have "inside f off len (rbuf st')" using inv(3) put(3) by (simp add: st' inside_def)
    moreover have "rbuf st' ! x = f ! (off + x) \<or> waiter_for len (off mod 4096) ((x + off mod 4096) div 4096) \<in> set (rwaiting st')"
      if "x < len" "(x + off mod 4096) div 4096 \<in> insert i is" for x
      using that assms(1) put(4) [of x] inv(3) by (auto simp: st' pages_done_def inside_def)
    ultimately show ?thesis using assms(1) st' db_r put(3) by (simp add: pages_done_def)
  next
    case wait
    then have st': "b" "rcache st' = pc2" "rlen st' = rlen st" "rbuf st' = rbuf st" "rwaiting st' = rwaiting st @ [waiter_for len (off mod 4096) i]"
      using step by (simp_all add: Let_def waiter_for_def part)
    then show ?thesis using assms(1,2) db_r by (auto simp: pages_done_def)
  qed
qed

lemma read_pages_done:
  assumes "pages_done crc hash f W off len done st" and "set is \<subseteq> {..< page_count (len + off mod 4096)}"
  shows "pages_done crc hash f W off len (done \<union> set is) (read_pages crc hash tm (off div 4096) (off mod 4096) (page_count (len + off mod 4096)) is st) \<and>
    length (rbuf (read_pages crc hash tm (off div 4096) (off mod 4096) (page_count (len + off mod 4096)) is st)) = length (rbuf st)"
  using assms
proof (induction "is" arbitrary: st "done")
  case (Cons i js)
  obtain b st' where r: "read_page crc hash tm (off div 4096) (off mod 4096) (page_count (len + off mod 4096)) i st = (b, st')" by (metis prod.exhaust)
  have "b" "pages_done crc hash f W off len (insert i done) st'" "length (rbuf st') = length (rbuf st)"
    using read_page_done [OF Cons.prems(1) _ r] Cons.prems(2) by auto
  then show ?case using Cons.IH [of "insert i done" st'] Cons.prems(2) r by simp
qed simp

text \<open>A page from the network is an error or the page of the file.\<close>

definition net_right :: "byte list \<Rightarrow> (nat \<Rightarrow> int + byte list) \<Rightarrow> bool" where
  "net_right f net \<longleftrightarrow> (\<forall>pid p. net pid = Inr p \<longrightarrow> p = page_of f pid) \<and> (\<forall>pid e. net pid = Inl e \<longrightarrow> e < 0)"

lemma wait_pages_right:
  assumes "net_right f net" and "inside f off len buf"
    and "\<forall>w \<in> set ws. \<exists>i < page_count (len + off mod 4096). w = waiter_for len (off mod 4096) i"
    and "wait_pages net (off div 4096) (off mod 4096) ws ret buf = (ret', buf')"
  shows "length buf' = length buf \<and>
    (ret' = ret \<and> (\<forall>x < len. buf' ! x = f ! (off + x) \<or> buf' ! x = buf ! x \<and> waiter_for len (off mod 4096) ((x + off mod 4096) div 4096) \<notin> set ws) \<or>
     (\<exists>pid. net pid = Inl ret'))"
  using assms(2-4)
proof (induction ws arbitrary: ret buf)
  case (Cons w ws)
  obtain i where i: "i < page_count (len + off mod 4096)" "w = waiter_for len (off mod 4096) i" using Cons.prems(2) by auto
  obtain copyoff copysize pbuff where part: "page_part len (off mod 4096) (page_count (len + off mod 4096)) i = (copyoff, copysize, pbuff)"
    by (metis prod_cases3)
  have w: "w = \<lparr>pageidx = i, wbuf = pbuff, wsize = copysize, woff = copyoff\<rparr>" using i(2) part by (simp add: waiter_for_def)
  show ?case
  proof (cases "net (off div 4096 + i)")
    case (Inl e)
    then have "wait_pages net (off div 4096) (off mod 4096) ws e buf = (ret', buf')" using Cons.prems(3) w by simp
    then show ?thesis using Cons.IH [OF Cons.prems(1) _ , of e] Cons.prems(2) Inl by auto
  next
    case (Inr p)
    then have p: "p = page_of f (off div 4096 + i)" using assms(1) by (simp add: net_right_def)
    define data where "data = take copysize (drop copyoff (page_of f (off div 4096 + i)))"
    note put = put_page [OF Cons.prems(1) i(1) part data_def]
    have send: "psync_pagecache_send_page_wait_page w p = data"
      using put(1) by (simp add: psync_pagecache_send_page_wait_page_def w p data_def)
    let ?buf = "put_buf pbuff data buf"
    have rest: "wait_pages net (off div 4096) (off mod 4096) ws ret ?buf = (ret', buf')"
      using Cons.prems(3) Inr send put(2) by (simp add: w Let_def)
    have inside: "inside f off len ?buf" using Cons.prems(1) put(3) by (simp add: inside_def)
    from Cons.IH [OF inside _ rest] Cons.prems(2)
    have ih: "length buf' = length ?buf \<and>
      (ret' = ret \<and> (\<forall>x < len. buf' ! x = f ! (off + x) \<or> buf' ! x = ?buf ! x \<and> waiter_for len (off mod 4096) ((x + off mod 4096) div 4096) \<notin> set ws) \<or>
       (\<exists>pid. net pid = Inl ret'))" by simp
    have "buf' ! x = f ! (off + x) \<or> buf' ! x = buf ! x \<and> waiter_for len (off mod 4096) ((x + off mod 4096) div 4096) \<notin> set (w # ws)"
      if "x < len" "buf' ! x = f ! (off + x) \<or> buf' ! x = ?buf ! x \<and> waiter_for len (off mod 4096) ((x + off mod 4096) div 4096) \<notin> set ws" for x
    proof (cases "(x + off mod 4096) div 4096 = i")
      case True
      then have "?buf ! x = f ! (off + x)" using put(4) [of x] that(1) Cons.prems(1) by (simp add: inside_def)
      then show ?thesis using that(2) by auto
    next
      case False
      then have "?buf ! x = buf ! x" using put(4) [of x] that(1) Cons.prems(1) by (simp add: inside_def)
      moreover have "waiter_for len (off mod 4096) ((x + off mod 4096) div 4096) \<noteq> w"
        using False by (auto simp: waiter_for_def w split: prod.splits)
      ultimately show ?thesis using that(2) by auto
    qed
    note keep = this
    from ih consider (net) "\<exists>pid. net pid = Inl ret'"
      | (all) "ret' = ret" "\<forall>x < len. buf' ! x = f ! (off + x) \<or> buf' ! x = ?buf ! x \<and>
          waiter_for len (off mod 4096) ((x + off mod 4096) div 4096) \<notin> set ws" by blast
    then show ?thesis
    proof cases
      case net
      then show ?thesis using ih put(3) by simp
    next
      case all
      have "\<forall>x < len. buf' ! x = f ! (off + x) \<or> buf' ! x = buf ! x \<and>
          waiter_for len (off mod 4096) ((x + off mod 4096) div 4096) \<notin> set (w # ws)"
        by (intro allI impI) (rule keep, assumption, use all(2) in blast)
      then show ?thesis using ih put(3) all(1) by simp
    qed
  qed
qed simp

lemma pages_of_read: "x < len \<Longrightarrow> (x + m) div 4096 < page_count (len + m)"
proof -
  assume "x < len"
  then have "x + m \<le> len + m - 1" "0 < len + m" by simp_all
  then show ?thesis using page_count_pred [of "len + m"] div_le_mono [of "x + m" "len + m - 1" 4096] by simp
qed

text \<open>
  Reading an unmodified range of a remote file: whichever of its pages are in memory, in the cache file or still have to be
  fetched, and however many are, the read gives the bytes of the file at that place, as many as there are, or the
  error of a page; no page in memory with a wrong checksum is used, nor a page of the cache file with a wrong checksum that is read as a whole. The
  cache stays as good as it was. (The number of bytes is returned in an \<open>int\<close>, so the read is one of less than 2^31 bytes.)
\<close>

lemma read_unmodified_usable:
  assumes "pages_usable crc hash f W pc" and "W \<subseteq> whole_pages f off len" and "net_right f net" and "length f < 2 ^ 62" and "0 < len" and "len < 2 ^ 31" and "len \<le> length buf"
    and "psync_pagecache_read_unmodified_locked crc net hash (length f) tm waited len off buf pc fs = (ret, buf', ranges, pc', fs')"
  shows "pages_usable crc hash f W pc' \<and> length buf' = length buf \<and>
    ((\<exists>pid. net pid = Inl ret \<and> ret < 0) \<or> ret = int (length (take len (drop off f))) \<and> take (nat ret) buf' = take len (drop off f))"
proof (cases "off < length f")
  case False
  then show ?thesis using assms(1,8) by (auto simp: psync_pagecache_read_unmodified_locked_def)
next
  case True
  define L where "L = (if off + len > length f then length f - off else len)"
  have L: "0 < L" "off + L \<le> length f" "L \<le> length buf" "L < 2 ^ 31" using True assms(5-7) by (auto simp: L_def)
  have W: "W \<subseteq> whole_pages f off L" 
  proof
    fix x assume "x \<in> W"
    then have x: "x \<in> whole_pages f off len" using assms(2) by blast
    then have "x * 4096 < length f" by (simp add: whole_pages_def page_of_def)
    then have "x * 4096 + length (page_of f x) \<le> length f" unfolding length_page_of by linarith
    then show "x \<in> whole_pages f off L" using x True by (auto simp: whole_pages_def L_def)
  qed
  have off: "off < 2 ^ 64" "L + off mod 4096 < 2 ^ 63" using True assms(4) L(4) mod_less_divisor [of 4096 off] by simp_all
  have poff: "unat (offset_round_down_to_page (of_nat off)) = off div 4096 * 4096" by (rule offset_round_down [OF off(1)])
  have pageoff: "off - off div 4096 * 4096 = off mod 4096" by (simp add: minus_div_mult_eq_mod)
  have psize: "unat (size_round_up_to_page (of_nat (L + off mod 4096))) = page_count (L + off mod 4096) * 4096"
    by (rule size_round_up) (use L(1) off(2) in simp_all)
  define st where "st = read_pages crc hash tm (off div 4096) (off mod 4096) (page_count (L + off mod 4096)) [0 ..< page_count (L + off mod 4096)]
    \<lparr>rcache = pc, rbuf = buf, rlen = L, rwaiting = [], rrequest = (waited, []), rfaults = fs\<rparr>"
  obtain ret1 buf1 where w: "wait_pages net (off div 4096) (off mod 4096) (rwaiting st) (int (rlen st)) (rbuf st) = (ret1, buf1)" by (metis prod.exhaust)
  have res: "ret = ret1" "buf' = buf1" "pc' = rcache st"
    using assms(8) True w poff pageoff psize
    by (simp_all add: psync_pagecache_read_unmodified_locked_def Let_def st_def flip: L_def)
  have start: "pages_done crc hash f W off L {} \<lparr>rcache = pc, rbuf = buf, rlen = L, rwaiting = [], rrequest = (waited, []), rfaults = fs\<rparr>"
    using assms(1) W L by (simp add: pages_done_def inside_def)
  have st: "pages_done crc hash f W off L {..< page_count (L + off mod 4096)} st" "length (rbuf st) = length buf"
    using read_pages_done [OF start, of "[0 ..< page_count (L + off mod 4096)]" tm] by (simp_all add: st_def atLeast0LessThan)
  then have st': "rlen st = L" "inside f off L (rbuf st)" "pages_usable crc hash f W (rcache st)"
    "\<forall>w \<in> set (rwaiting st). \<exists>i < page_count (L + off mod 4096). w = waiter_for L (off mod 4096) i" by (simp_all add: pages_done_def)
  have bytes: "rbuf st ! x = f ! (off + x) \<or> waiter_for L (off mod 4096) ((x + off mod 4096) div 4096) \<in> set (rwaiting st)" if "x < L" for x
    using st(1) that pages_of_read [OF that] by (simp add: pages_done_def)
  note right = wait_pages_right [OF assms(3) st'(2,4) w]
  then have len: "length buf1 = length buf" using st(2) by simp
  have slice: "take len (drop off f) = take L (drop off f)" by (simp add: L_def)
  consider (net) pid where "net pid = Inl ret1" | (all) "ret1 = int L" "\<forall>x < L. buf1 ! x = f ! (off + x)"
    using right bytes st'(1) by metis
  then show ?thesis
  proof cases
    case net
    then show ?thesis using assms(3) res st'(3) len unfolding net_right_def by blast
  next
    case all
    have "take L buf1 = take L (drop off f)" by (rule nth_equalityI) (use all(2) L len in auto)
    then show ?thesis using all(1) res st'(3) len L(2) slice by simp
  qed
qed

lemma read_unmodified_right:
  assumes "pages_match crc hash f pc" and "net_right f net" and "length f < 2 ^ 62" and "0 < len" and "len < 2 ^ 31" and "len \<le> length buf"
    and "psync_pagecache_read_unmodified_locked crc net hash (length f) tm waited len off buf pc fs = (ret, buf', ranges, pc', fs')"
  shows "pages_match crc hash f pc' \<and> length buf' = length buf \<and>
    ((\<exists>pid. net pid = Inl ret \<and> ret < 0) \<or> ret = int (length (take len (drop off f))) \<and> take (nat ret) buf' = take len (drop off f))"
  using read_unmodified_usable [OF assms(1) [folded pages_usable_none] _ assms(2-7)] by (simp add: pages_usable_none)

text \<open>Three bytes at the end of a file of two pages: the first page is in memory, the second has to be fetched.\<close>

definition demo_file :: "byte list" where
  "demo_file = replicate 4095 7 @ [1, 2, 3]"

definition demo_cache :: page_cache where
  "demo_cache = \<lparr>cache_hash = (\<lambda>h. if h = 9 then [\<lparr>page = page_of demo_file 0, phash = 9, pageid = 0, lastuse = 0, psize = 4096,
       usecnt = 1, pcrc = 5, ptype = PAGE_TYPE_READ\<rparr>] else []),
     cache_pages_in_hash = 1, free_pages = [], pagecache_rows = (\<lambda>k. None), readcache = []\<rparr>"

lemma read_unmodified_right_witness:
  "case psync_pagecache_read_unmodified_locked (\<lambda>bs. 5) (\<lambda>pid. Inr (page_of demo_file pid)) 9 (length demo_file) 100 {} 10 4094 (replicate 12 0) demo_cache []
     of (ret, buf, ranges, pc, fs) \<Rightarrow> ret = 4 \<and> take 4 buf = [7, 1, 2, 3] \<and> length buf = 12 \<and> pages_match (\<lambda>bs. 5) 9 demo_file pc"
proof -
  let ?net = "\<lambda>pid. Inr (page_of demo_file pid) :: int + byte list"
  obtain ret buf ranges pc fs where r: "psync_pagecache_read_unmodified_locked (\<lambda>bs. 5) ?net 9 (length demo_file) 100 {} 10 4094 (replicate 12 0) demo_cache []
      = (ret, buf, ranges, pc, fs)" by (metis prod_cases5)
  have len: "length demo_file = 4098" by (simp add: demo_file_def)
  have "pages_match (\<lambda>bs. 5) 9 demo_file demo_cache"
    by (simp add: pages_match_def demo_cache_def page_right_def length_page_of len)
  moreover have "net_right demo_file ?net" by (simp add: net_right_def)
  ultimately have "pages_match (\<lambda>bs. 5) 9 demo_file pc \<and> length buf = length (replicate 12 (0 :: byte)) \<and>
      ((\<exists>pid. ?net pid = Inl ret \<and> ret < 0) \<or>
        ret = int (length (take 10 (drop 4094 demo_file))) \<and> take (nat ret) buf = take 10 (drop 4094 demo_file))"
    by (rule read_unmodified_right [OF _ _ _ _ _ _ r]) (simp_all add: len)
  moreover have "take 10 (drop 4094 demo_file) = [7, 1, 2, 3]" by (simp add: demo_file_def)
  ultimately show ?thesis by (auto simp: r)
qed

end
