(* ===== verification/Pmodfile.thy ===== *)
theory Pmodfile
  imports Ppages Pintervaltree
begin

section \<open>Files modified locally (pfs.c)\<close>

text \<open>
  A file of the file system that is not encrypted is unchanged (its bytes are the remote ones), new (all of its bytes are
  in the data file) or modified: the data file is as long as the file, and an interval tree tells which of its bytes
  replace the remote ones. Every interval is also appended to the index file, from which the tree is built again.
  Functions return \<open>None\<close> when an assertion fails. Offsets and sizes are numbers here and 64-bit words in the tree.
\<close>

abbreviation EIO :: int where "EIO \<equiv> 5"
abbreviation INDEX_BATCH :: nat where "INDEX_BATCH \<equiv> 512"
abbreviation PSYNC_FS_MAX_SIZE_CONVERT_NEWFILE :: nat where "PSYNC_FS_MAX_SIZE_CONVERT_NEWFILE \<equiv> 32 * PSYNC_FS_PAGE_SIZE"

subsection \<open>State\<close>

record modfile =
  newfile :: bool
  modified :: bool
  fhash :: nat
  initialsize :: nat
  currentsize :: nat
  indexoff :: nat
  writeintervals :: "nat itree"
  datafile :: file_bytes
  indexfile :: file_bytes

definition empty_intervals :: "nat itree" where
  "empty_intervals = \<lparr>root = Null, ivals = (\<lambda>a. \<lparr>ifrom = 0, ito = 0\<rparr>)\<rparr>"

text \<open>The address of a new node is one that is not in use.\<close>

definition new_node :: "nat itree \<Rightarrow> nat" where
  "new_node t = Suc (fold max (inorder (root t)) 0)"

definition add_interval :: "nat itree \<Rightarrow> nat \<Rightarrow> nat \<Rightarrow> nat itree option" where
  "add_interval t fr end_off = psync_interval_tree_add t (of_nat fr) (of_nat end_off) (new_node t)"

definition index_record :: "nat \<Rightarrow> nat \<Rightarrow> byte list" where
  "index_record off len = le_bytes 8 off @ le_bytes 8 len"

subsection \<open>Loading the index\<close>

definition records_of :: "byte list \<Rightarrow> (nat \<times> nat) list" where
  "records_of data = map (\<lambda>j. (le_val (take 8 (drop (16 * j) data)), le_val (take 8 (drop (16 * j + 8) data)))) [0 ..< length data div 16]"

fun add_records :: "nat itree \<Rightarrow> (nat \<times> nat) list \<Rightarrow> nat itree option" where
  "add_records t [] = Some t"
| "add_records t ((off, len) # rs) = Option.bind (add_interval t off (off + len)) (\<lambda>t. add_records t rs)"

function load_batches :: "file_bytes \<Rightarrow> nat \<Rightarrow> nat \<Rightarrow> nat itree \<Rightarrow> faults \<Rightarrow> (bool \<times> nat itree \<times> faults) option" where
  "load_batches f cnt i t fs =
     (if i \<ge> cnt then Some (True, t, fs)
      else
        (let rd = (if INDEX_BATCH > cnt - i then cnt - i else INDEX_BATCH) in
         case psync_file_pread f (rd * INDEX_RECORD_SIZE) (i * INDEX_RECORD_SIZE + INDEX_HEADER_SIZE) fs of (rrd, data, fs) \<Rightarrow>
           if rrd \<noteq> int (rd * INDEX_RECORD_SIZE) then Some (False, t, fs)
           else Option.bind (add_records t (records_of data)) (\<lambda>t. load_batches f cnt (i + INDEX_BATCH) t fs)))"
  by pat_completeness auto
termination by (relation "measure (\<lambda>(f, cnt, i, t, fs). cnt - i)") auto

declare load_batches.simps [simp del]

definition psync_fs_load_interval_tree :: "file_bytes \<Rightarrow> nat \<Rightarrow> nat itree \<Rightarrow> faults \<Rightarrow> (int \<times> nat itree \<times> faults) option" where
  "psync_fs_load_interval_tree f len t fs =
     (if len < INDEX_HEADER_SIZE then Some (0, t, fs)
      else
        (let cnt = (len - INDEX_HEADER_SIZE) div INDEX_RECORD_SIZE in
         map_option (\<lambda>(ok, t, fs). (if ok then int cnt else -1, t, fs)) (load_batches f cnt 0 t fs)))"

text \<open>The header of the index has no bytes, so a size below it only says that the size is not known.\<close>

definition load_interval_tree :: "modfile \<Rightarrow> faults \<Rightarrow> (int \<times> modfile \<times> faults) option" where
  "load_interval_tree mf fs =
     (case psync_file_size (indexfile mf) fs of (ifs, fs) \<Rightarrow>
        if ifs = -1 then Some (-1, mf, fs)
        else map_option (\<lambda>(cnt, t, fs). if cnt = -1 then (-1, mf\<lparr>writeintervals := t\<rparr>, fs)
            else (0, mf\<lparr>writeintervals := t, indexoff := nat cnt\<rparr>, fs))
          (psync_fs_load_interval_tree (indexfile mf) (nat ifs) (writeintervals mf) fs))"

text \<open>The data and the index file have just been opened.\<close>

definition open_write_files :: "modfile \<Rightarrow> faults \<Rightarrow> (int \<times> modfile \<times> faults) option" where
  "open_write_files mf fs =
     (case psync_file_size (datafile mf) fs of (n, fs) \<Rightarrow>
        if n = -1 then Some (- EIO, mf, fs)
        else
          (let mf = mf\<lparr>currentsize := nat n\<rparr> in
           if newfile mf then Some (0, mf, fs)
           else map_option (\<lambda>(bad, mf, fs). (if bad \<noteq> 0 then - EIO else 0, mf, fs)) (load_interval_tree mf fs)))"

subsection \<open>Making a file writable\<close>

definition has_page_in_cache_by_hash :: "nat \<Rightarrow> nat \<Rightarrow> page_cache \<Rightarrow> bool" where
  "has_page_in_cache_by_hash hash pid pc \<longleftrightarrow>
     list_ex (\<lambda>p. phash p = hash \<and> pageid p = pid) (cache_hash pc (pagehash_by_hash_and_pageid hash pid))"

definition has_pages_in_db :: "nat \<Rightarrow> nat \<Rightarrow> nat \<Rightarrow> page_cache \<Rightarrow> bool list" where
  "has_pages_in_db hash pid pagecnt pc = map (\<lambda>i. pagecache_rows pc (hash, pid + i) \<noteq> None) [0 ..< pagecnt]"

definition psync_pagecache_have_all_pages_in_cache :: "nat \<Rightarrow> nat \<Rightarrow> page_cache \<Rightarrow> bool" where
  "psync_pagecache_have_all_pages_in_cache hash len pc =
     (let pagecnt = (len + PSYNC_FS_PAGE_SIZE - 1) div PSYNC_FS_PAGE_SIZE; db = has_pages_in_db hash 0 pagecnt pc
      in list_all (\<lambda>i. db ! i \<or> has_page_in_cache_by_hash hash i pc) [0 ..< pagecnt])"

text \<open>The pages are copied to the data file until one fails.\<close>

fun copy_pages :: "(byte list \<Rightarrow> u32) \<Rightarrow> nat \<Rightarrow> nat \<Rightarrow> nat list \<Rightarrow> modfile \<Rightarrow> page_cache \<Rightarrow> faults \<Rightarrow> bool \<times> modfile \<times> page_cache \<times> faults" where
  "copy_pages crc hash tm [] mf pc fs = (True, mf, pc, fs)"
| "copy_pages crc hash tm (i # is) mf pc fs =
     (case check_page_in_memory_by_hash crc hash i PSYNC_FS_PAGE_SIZE 0 tm pc of (rb, pc) \<Rightarrow>
        case (if rb = None then check_page_in_database_by_hash crc hash i PSYNC_FS_PAGE_SIZE 0 pc fs else (rb, pc, fs)) of
          (None, pc, fs) \<Rightarrow> (False, mf, pc, fs)
        | (Some buff, pc, fs) \<Rightarrow>
            (case psync_file_pwrite (datafile mf) buff (i * PSYNC_FS_PAGE_SIZE) fs of (n, d, fs) \<Rightarrow>
               if n \<noteq> int (length buff) then (False, mf\<lparr>datafile := d\<rparr>, pc, fs)
               else copy_pages crc hash tm is (mf\<lparr>datafile := d\<rparr>) pc fs))"

text \<open>\<open>psync_file_sync\<close> is the last file operation.\<close>

definition psync_pagecache_copy_all_pages_from_cache_to_file_locked ::
    "(byte list \<Rightarrow> u32) \<Rightarrow> nat \<Rightarrow> nat \<Rightarrow> nat \<Rightarrow> modfile \<Rightarrow> page_cache \<Rightarrow> faults \<Rightarrow> int \<times> modfile \<times> page_cache \<times> faults" where
  "psync_pagecache_copy_all_pages_from_cache_to_file_locked crc hash tm len mf pc fs =
     (let pagecnt = (len + PSYNC_FS_PAGE_SIZE - 1) div PSYNC_FS_PAGE_SIZE in
      case copy_pages crc hash tm [0 ..< pagecnt] mf pc fs of (ok, mf, pc, fs) \<Rightarrow>
        if \<not> ok then (-1, mf, pc, fs)
        else (case next_fault fs of (Fail, fs) \<Rightarrow> (-1, mf, pc, fs) | (_, fs) \<Rightarrow> (0, mf, pc, fs)))"

text \<open>
  The first write to an unchanged file; 1 asks the caller to look at the file again. The files of the new task are empty,
  the database can be locked and the task can be added; \<open>locked\<close> tells whether the pages can be kept from being cleaned.
\<close>

definition psync_fs_reopen_file_for_writing ::
    "(byte list \<Rightarrow> u32) \<Rightarrow> nat \<Rightarrow> bool \<Rightarrow> modfile \<Rightarrow> page_cache \<Rightarrow> faults \<Rightarrow> (int \<times> modfile \<times> page_cache \<times> faults) option" where
  "psync_fs_reopen_file_for_writing crc tm locked mf pc fs =
     (let fsize = initialsize mf in
      if fsize = 0 \<or> fsize \<le> PSYNC_FS_MAX_SIZE_CONVERT_NEWFILE \<and> psync_pagecache_have_all_pages_in_cache (fhash mf) fsize pc \<and> locked then
        Option.bind (open_write_files (mf\<lparr>newfile := True, modified := True\<rparr>) fs) (\<lambda>(ret, mf, fs).
          if ret \<noteq> 0 then Some (ret, mf, pc, fs)
          else
            (case (if fsize \<noteq> 0 then psync_pagecache_copy_all_pages_from_cache_to_file_locked crc (fhash mf) tm fsize mf pc fs else (0, mf, pc, fs)) of
               (ret, mf, pc, fs) \<Rightarrow>
                 if ret \<noteq> 0 then Some (- EIO, mf, pc, fs) else Some (1, mf\<lparr>currentsize := initialsize mf\<rparr>, pc, fs)))
      else
        Option.bind (open_write_files mf fs) (\<lambda>(ret, mf, fs).
          if ret \<noteq> 0 then Some (ret, mf, pc, fs)
          else
            (case seek_truncate (datafile mf) fsize fs of (bad, d, fs) \<Rightarrow>
               let mf = mf\<lparr>datafile := d\<rparr> in
               if bad then Some (- EIO, mf, pc, fs)
               else Some (0, mf\<lparr>modified := True, indexoff := 0, currentsize := initialsize mf\<rparr>, pc, fs))))"

subsection \<open>Writing and truncating\<close>

text \<open>The file is extended with zeros up to the given size, if it is shorter. True if that fails.\<close>

definition psync_fs_modfile_check_size_ok :: "modfile \<Rightarrow> nat \<Rightarrow> faults \<Rightarrow> (bool \<times> modfile \<times> faults) option" where
  "psync_fs_modfile_check_size_ok mf fsize fs =
     (if currentsize mf < fsize then
        (case seek_truncate (datafile mf) fsize fs of (bad, d, fs) \<Rightarrow>
           let mf = mf\<lparr>datafile := d\<rparr> in
           if bad then Some (True, mf, fs)
           else if newfile mf then Some (False, mf, fs)
           else
             (let ioff = indexoff mf; mf = mf\<lparr>indexoff := indexoff mf + 1\<rparr> in
              case psync_file_pwrite (indexfile mf) (index_record (currentsize mf) (fsize - currentsize mf)) (INDEX_RECORD_SIZE * ioff + INDEX_HEADER_SIZE) fs of
                (n, x, fs) \<Rightarrow>
                  let mf = mf\<lparr>indexfile := x\<rparr> in
                  if n \<noteq> int INDEX_RECORD_SIZE then Some (True, mf, fs)
                  else map_option (\<lambda>t. (False, mf\<lparr>writeintervals := t, currentsize := fsize\<rparr>, fs))
                    (add_interval (writeintervals mf) (currentsize mf) fsize)))
      else Some (False, mf, fs))"

definition psync_fs_write_modified :: "modfile \<Rightarrow> byte list \<Rightarrow> nat \<Rightarrow> faults \<Rightarrow> (int \<times> modfile \<times> faults) option" where
  "psync_fs_write_modified mf buf off fs =
     Option.bind (psync_fs_modfile_check_size_ok mf off fs) (\<lambda>(bad, mf, fs).
       if bad then Some (- EIO, mf, fs)
       else
         (let ioff = indexoff mf; mf = mf\<lparr>indexoff := indexoff mf + 1\<rparr> in
          case psync_file_pwrite (datafile mf) buf off fs of (bw, d, fs) \<Rightarrow>
            let mf = mf\<lparr>datafile := d\<rparr> in
            if bw = -1 then Some (- EIO, mf, fs)
            else
              (case psync_file_pwrite (indexfile mf) (index_record off (nat bw)) (INDEX_RECORD_SIZE * ioff + INDEX_HEADER_SIZE) fs of (n, x, fs) \<Rightarrow>
                 let mf = mf\<lparr>indexfile := x\<rparr> in
                 if n \<noteq> int INDEX_RECORD_SIZE then Some (- EIO, mf, fs)
                 else map_option (\<lambda>t.
                     let mf = mf\<lparr>writeintervals := t\<rparr>
                     in (bw, (if currentsize mf < off + length buf then mf\<lparr>currentsize := off + length buf\<rparr> else mf), fs))
                   (add_interval (writeintervals mf) off (off + nat bw)))))"

definition psync_fs_write_newfile :: "modfile \<Rightarrow> byte list \<Rightarrow> nat \<Rightarrow> faults \<Rightarrow> int \<times> modfile \<times> faults" where
  "psync_fs_write_newfile mf buf off fs =
     (case psync_file_pwrite (datafile mf) buf off fs of (bw, d, fs) \<Rightarrow>
        let mf = mf\<lparr>datafile := d\<rparr>
        in (bw, (if currentsize mf < off + length buf \<and> bw \<noteq> -1 then mf\<lparr>currentsize := off + length buf\<rparr> else mf), fs))"

text \<open>An operation on a writable file, after the file has been made writable where it was not.\<close>

definition on_writable ::
    "(byte list \<Rightarrow> u32) \<Rightarrow> nat \<Rightarrow> bool \<Rightarrow> (modfile \<Rightarrow> faults \<Rightarrow> (int \<times> modfile \<times> faults) option) \<Rightarrow> modfile \<Rightarrow> page_cache \<Rightarrow> faults \<Rightarrow>
      (int \<times> modfile \<times> page_cache \<times> faults) option" where
  "on_writable crc tm locked act mf pc fs =
     (if newfile mf \<or> modified mf then map_option (\<lambda>(ret, mf, fs). (ret, mf, pc, fs)) (act mf fs)
      else Option.bind (psync_fs_reopen_file_for_writing crc tm locked mf pc fs) (\<lambda>(ret, mf, pc, fs).
        if ret < 0 then Some (ret, mf, pc, fs)
        else map_option (\<lambda>(ret, mf, fs). (ret, mf, pc, fs)) (act mf fs)))"

definition psync_fs_write ::
    "(byte list \<Rightarrow> u32) \<Rightarrow> nat \<Rightarrow> bool \<Rightarrow> byte list \<Rightarrow> nat \<Rightarrow> modfile \<Rightarrow> page_cache \<Rightarrow> faults \<Rightarrow> (int \<times> modfile \<times> page_cache \<times> faults) option" where
  "psync_fs_write crc tm locked buf off mf pc fs =
     on_writable crc tm locked (\<lambda>mf fs.
       if newfile mf then (case psync_fs_write_newfile mf buf off fs of (ret, mf, fs) \<Rightarrow> Some (if ret = -1 then - EIO else ret, mf, fs))
       else psync_fs_write_modified mf buf off fs) mf pc fs"

definition truncate_writable :: "nat \<Rightarrow> modfile \<Rightarrow> faults \<Rightarrow> (int \<times> modfile \<times> faults) option" where
  "truncate_writable fsize mf fs =
     Option.bind (psync_fs_modfile_check_size_ok mf fsize fs) (\<lambda>(bad, mf, fs).
       if bad then Some (- EIO, mf, fs)
       else if currentsize mf \<noteq> fsize then
         (case seek_truncate (datafile mf) fsize fs of (bad, d, fs) \<Rightarrow>
            let mf = mf\<lparr>datafile := d\<rparr> in
            if bad then Some (- EIO, mf, fs) else Some (0, mf\<lparr>currentsize := fsize\<rparr>, fs))
       else Some (0, mf, fs))"

definition psync_fs_ftruncate_of_locked ::
    "(byte list \<Rightarrow> u32) \<Rightarrow> nat \<Rightarrow> bool \<Rightarrow> nat \<Rightarrow> modfile \<Rightarrow> page_cache \<Rightarrow> faults \<Rightarrow> (int \<times> modfile \<times> page_cache \<times> faults) option" where
  "psync_fs_ftruncate_of_locked crc tm locked fsize mf pc fs =
     (if currentsize mf = fsize then Some (0, mf, pc, fs) else on_writable crc tm locked (truncate_writable fsize) mf pc fs)"

subsection \<open>The bytes an interval tree stands for\<close>

definition local_bytes :: "nat itree \<Rightarrow> nat set" where
  "local_bytes t = unat ` covers t"

lemma new_node_fresh: "new_node t \<notin> set (inorder (root t))"
proof -
  have "x \<in> set xs \<Longrightarrow> x \<le> fold max xs a" and "a \<le> fold max xs a" for x a :: nat and xs
    by (induction xs arbitrary: a) (force intro: order_trans [OF max.cobounded2] order_trans [OF max.cobounded1])+
  then show ?thesis unfolding new_node_def using Suc_n_not_le_n by blast
qed

lemma empty_intervals_simps [simp]: "wf_itree empty_intervals" "local_bytes empty_intervals = {}"
  by (simp_all add: empty_intervals_def wf_itree_def ivlist_def covers_def local_bytes_def span_def)

lemma unat_interval: "b < 2 ^ 64 \<Longrightarrow> unat ` {of_nat a ..< of_nat b :: u64} = {a mod 2 ^ 64 ..< b}"
proof
  assume b: "b < 2 ^ 64"
  show "unat ` {of_nat a ..< of_nat b :: u64} \<subseteq> {a mod 2 ^ 64 ..< b}"
    using b by (auto simp: word_le_nat_alt word_less_nat_alt unat_of_nat)
  show "{a mod 2 ^ 64 ..< b} \<subseteq> unat ` {of_nat a ..< of_nat b :: u64}"
  proof
    fix p assume "p \<in> {a mod 2 ^ 64 ..< b}"
    then have "p = unat (of_nat p :: u64)" "of_nat p \<in> {of_nat a ..< of_nat b :: u64}"
      using b by (auto simp: word_le_nat_alt word_less_nat_alt unat_of_nat)
    then show "p \<in> unat ` {of_nat a ..< of_nat b :: u64}" by blast
  qed
qed

text \<open>The bytes of one node.\<close>

definition node_bytes :: "nat itree \<Rightarrow> nat \<Rightarrow> nat set" where
  "node_bytes t e = {unat (ifrom (ivals t e)) ..< unat (ito (ivals t e))}"

lemma unat_image_interval: "unat ` {a ..< b :: u64} = {unat a ..< unat b}"
proof -
  have "unat a < 2 ^ 64" "unat b < 2 ^ 64" using unsigned_less [of a] unsigned_less [of b] by simp_all
  then show ?thesis using unat_interval [of "unat b" "unat a"] by simp
qed

lemma local_bytes_nodes: "local_bytes t = (\<Union>e \<in> set (inorder (root t)). node_bytes t e)"
  by (simp add: local_bytes_def covers_def span_def ivlist_def image_UN unat_image_interval node_bytes_def)

lemma add_interval_local:
  assumes "wf_itree t" and "fr < end_off" and "end_off < 2 ^ 64"
  obtains t' where "add_interval t fr end_off = Some t'" "wf_itree t'" "local_bytes t' = local_bytes t \<union> {fr ..< end_off}"
proof -
  have "(of_nat fr :: u64) < of_nat end_off" using assms(2,3) by (simp add: word_less_nat_alt unat_of_nat)
  from interval_tree_add_correct [OF assms(1) this new_node_fresh]
  obtain t' where t': "add_interval t fr end_off = Some t'" "wf_itree t'" "covers t' = covers t \<union> {of_nat fr ..< of_nat end_off}"
    by (auto simp: added_def add_interval_def)
  moreover have "fr mod 2 ^ 64 = fr" using assms(2,3) by simp
  ultimately have "local_bytes t' = local_bytes t \<union> {fr ..< end_off}"
    using unat_interval [OF assms(3), of fr] by (simp add: local_bytes_def image_Un)
  with t' that show thesis by blast
qed

subsection \<open>The index file\<close>

definition recs_bytes :: "(nat \<times> nat) list \<Rightarrow> byte list" where
  "recs_bytes rs = concat (map (\<lambda>(off, len). index_record off len) rs)"

definition rec_ok :: "nat \<times> nat \<Rightarrow> bool" where
  "rec_ok r \<longleftrightarrow> 0 < snd r \<and> fst r + snd r < 2 ^ 64"

definition recs_cover :: "(nat \<times> nat) list \<Rightarrow> nat set" where
  "recs_cover rs = (\<Union>(off, len) \<in> set rs. {off ..< off + len})"

lemma recs_bytes_simps [simp]:
  "recs_bytes [] = []" "recs_bytes (rs @ ss) = recs_bytes rs @ recs_bytes ss" "recs_bytes ((off, len) # rs) = index_record off len @ recs_bytes rs"
  "length (index_record off len) = 16"
  by (simp_all add: recs_bytes_def index_record_def)

lemma index_record_nonempty [simp]: "index_record off len \<noteq> []"
  by (metis recs_bytes_simps(4) list.size(3) zero_neq_numeral)

lemma length_recs_bytes [simp]: "length (recs_bytes rs) = 16 * length rs"
  by (induction rs) auto

lemma recs_cover_simps [simp]:
  "recs_cover [] = {}" "recs_cover (rs @ ss) = recs_cover rs \<union> recs_cover ss" "recs_cover ((off, len) # rs) = {off ..< off + len} \<union> recs_cover rs"
  by (auto simp: recs_cover_def)

lemma recs_bytes_part: "take (16 * n) (drop (16 * i) (recs_bytes rs)) = recs_bytes (take n (drop i rs))"
proof -
  have "drop (16 * i) (recs_bytes rs) = recs_bytes (drop i rs)"
    by (cases "i \<le> length rs") (subst (1) append_take_drop_id [of i rs, symmetric], simp only: recs_bytes_simps, simp)+
  moreover have "take (16 * n) (recs_bytes ss) = recs_bytes (take n ss)" for ss
    by (cases "n \<le> length ss") (subst (1) append_take_drop_id [of n ss, symmetric], simp only: recs_bytes_simps, simp)+
  ultimately show ?thesis by simp
qed

lemma records_of_bytes: "list_all rec_ok rs \<Longrightarrow> records_of (recs_bytes rs) = rs"
proof (rule nth_equalityI)
  assume ok: "list_all rec_ok rs"
  fix j assume "j < length (records_of (recs_bytes rs))"
  then have j: "j < length rs" by (simp add: records_of_def)
  obtain off len where r: "rs ! j = (off, len)" by fastforce
  have "off < 256 ^ 8" "len < 256 ^ 8" using ok j r by (auto simp: list_all_length rec_ok_def)
  moreover have d: "drop (16 * j) (recs_bytes rs) = index_record off len @ recs_bytes (drop (Suc j) rs)"
  proof -
    have "recs_bytes rs = recs_bytes (take j rs) @ index_record off len @ recs_bytes (drop (Suc j) rs)"
      by (subst id_take_nth_drop [OF j]) (simp add: r)
    moreover have "length (recs_bytes (take j rs)) = 16 * j" using j by simp
    ultimately show ?thesis by (metis append_eq_conv_conj)
  qed
  moreover have "drop (16 * j + 8) (recs_bytes rs) = drop 8 (drop (16 * j) (recs_bytes rs))" by (simp add: add.commute)
  ultimately show "records_of (recs_bytes rs) ! j = rs ! j"
    using j r by (simp add: records_of_def index_record_def le_val_le_bytes)
qed (simp add: records_of_def)

lemma add_records_local:
  "wf_itree t \<Longrightarrow> list_all rec_ok rs \<Longrightarrow>
    \<exists>t'. add_records t rs = Some t' \<and> wf_itree t' \<and> local_bytes t' = local_bytes t \<union> recs_cover rs"
proof (induction rs arbitrary: t)
  case (Cons r rs)
  obtain off len where r: "r = (off, len)" by fastforce
  then have "off < off + len" "off + len < 2 ^ 64" using Cons.prems(2) by (simp_all add: rec_ok_def)
  from add_interval_local [OF Cons.prems(1) this] obtain t1 where
    "add_interval t off (off + len) = Some t1" "wf_itree t1" "local_bytes t1 = local_bytes t \<union> {off ..< off + len}" .
  then show ?case using Cons.IH [of t1] Cons.prems(2) r by (auto simp: Un_assoc)
qed simp

lemma load_batches_local:
  assumes "wf_itree t" and "list_all rec_ok rs"
  shows "\<exists>t'. load_batches (recs_bytes rs) (length rs) i t [] = Some (True, t', []) \<and> wf_itree t' \<and> local_bytes t' = local_bytes t \<union> recs_cover (drop i rs)"
  using assms(1)
proof (induction "length rs - i" arbitrary: i t rule: less_induct)
  case less
  show ?case
  proof (cases "i \<ge> length rs")
    case True
    then show ?thesis using less.prems by (simp add: load_batches.simps)
  next
    case False
    define rd where "rd = (if INDEX_BATCH > length rs - i then length rs - i else INDEX_BATCH)"
    let ?rs = "take rd (drop i rs)"
    have ok: "list_all rec_ok ?rs" using assms(2) by (auto simp: list_all_iff dest: in_set_takeD in_set_dropD)
    have part: "take (rd * 16) (drop (i * 16) (recs_bytes rs)) = recs_bytes ?rs" using recs_bytes_part [of rd i rs] by (simp add: mult.commute)
    have len: "length ?rs = rd" using False by (simp add: rd_def)
    obtain t1 where t1: "add_records t ?rs = Some t1" "wf_itree t1" "local_bytes t1 = local_bytes t \<union> recs_cover ?rs"
      using add_records_local [OF less.prems ok] by blast
    have step: "load_batches (recs_bytes rs) (length rs) i t [] = load_batches (recs_bytes rs) (length rs) (i + INDEX_BATCH) t1 []"
      using False len t1(1) by (subst load_batches.simps) (simp add: part records_of_bytes [OF ok] flip: rd_def)
    have "drop i rs = ?rs @ drop (i + INDEX_BATCH) rs"
    proof (cases "rd = INDEX_BATCH")
      case True
      then show ?thesis by (metis append_take_drop_id drop_drop add.commute)
    next
      case False
      then have "rd = length rs - i" "length rs \<le> i + INDEX_BATCH" by (simp_all add: rd_def split: if_splits)
      then show ?thesis by simp
    qed
    then have "recs_cover (drop i rs) = recs_cover ?rs \<union> recs_cover (drop (i + INDEX_BATCH) rs)" by (metis recs_cover_simps(2))
    moreover obtain t' where "load_batches (recs_bytes rs) (length rs) (i + INDEX_BATCH) t1 [] = Some (True, t', [])" "wf_itree t'"
      "local_bytes t' = local_bytes t1 \<union> recs_cover (drop (i + INDEX_BATCH) rs)"
      using less.hyps [OF _ t1(2), of "i + INDEX_BATCH"] diff_less_mono2 [of i "i + INDEX_BATCH" "length rs"] False by auto
    ultimately show ?thesis using step t1(3) by auto
  qed
qed

subsection \<open>The file that is seen\<close>

definition modfile_view :: "byte list \<Rightarrow> modfile \<Rightarrow> byte list" where
  "modfile_view remote mf =
     (if newfile mf then datafile mf
      else if modified mf then map (\<lambda>x. if x \<in> local_bytes (writeintervals mf) then datafile mf ! x else remote ! x) [0 ..< currentsize mf]
      else remote)"

definition index_right :: "modfile \<Rightarrow> bool" where
  "index_right mf \<longleftrightarrow> (\<exists>rs. indexfile mf = recs_bytes rs \<and> indexoff mf = length rs \<and> list_all rec_ok rs \<and>
     local_bytes (writeintervals mf) = recs_cover rs)"

definition modfile_ok :: "byte list \<Rightarrow> modfile \<Rightarrow> bool" where
  "modfile_ok remote mf \<longleftrightarrow> initialsize mf = length remote \<and> length remote < 2 ^ 62 \<and> currentsize mf < 2 ^ 63 \<and>
     (if newfile mf then length (datafile mf) = currentsize mf
      else if modified mf then wf_itree (writeintervals mf) \<and> length (datafile mf) = currentsize mf \<and>
        (\<forall>x. length remote \<le> x \<and> x < currentsize mf \<longrightarrow> x \<in> local_bytes (writeintervals mf)) \<and> index_right mf
      else currentsize mf = length remote \<and> datafile mf = [] \<and> indexfile mf = [] \<and> writeintervals mf = empty_intervals)"

text \<open>A modified file, without the case distinction.\<close>

definition changed :: "byte list \<Rightarrow> modfile \<Rightarrow> bool" where
  "changed remote mf \<longleftrightarrow> \<not> newfile mf \<and> modified mf \<and> modfile_ok remote mf"

lemma changed_view: "changed remote mf \<Longrightarrow> length (modfile_view remote mf) = currentsize mf"
  "changed remote mf \<Longrightarrow> x < currentsize mf \<Longrightarrow> modfile_view remote mf ! x = (if x \<in> local_bytes (writeintervals mf) then datafile mf ! x else remote ! x)"
  by (simp_all add: changed_def modfile_view_def)

lemma index_append:
  assumes "index_right mf" and "rec_ok (off, len)" and "wf_itree (writeintervals mf)"
  obtains t where "add_interval (writeintervals mf) off (off + len) = Some t" "wf_itree t"
    "local_bytes t = local_bytes (writeintervals mf) \<union> {off ..< off + len}"
    "index_right (mf\<lparr>indexoff := indexoff mf + 1, indexfile := file_write (INDEX_RECORD_SIZE * indexoff mf) (index_record off len) (indexfile mf),
       writeintervals := t\<rparr>)"
proof -
  obtain rs where rs: "indexfile mf = recs_bytes rs" "indexoff mf = length rs" "list_all rec_ok rs" "local_bytes (writeintervals mf) = recs_cover rs"
    using assms(1) by (auto simp: index_right_def)
  have "off < off + len" "off + len < 2 ^ 64" using assms(2) by (simp_all add: rec_ok_def)
  from add_interval_local [OF assms(3) this] obtain t where t: "add_interval (writeintervals mf) off (off + len) = Some t" "wf_itree t"
    "local_bytes t = local_bytes (writeintervals mf) \<union> {off ..< off + len}" .
  have "file_write (INDEX_RECORD_SIZE * indexoff mf) (index_record off len) (indexfile mf) = recs_bytes (rs @ [(off, len)])"
    by (auto simp: rs(1,2) file_write_def index_record_def)
  moreover have "list_all rec_ok (rs @ [(off, len)])" using rs(3) assms(2) by simp
  ultimately have "index_right (mf\<lparr>indexoff := indexoff mf + 1, indexfile := file_write (INDEX_RECORD_SIZE * indexoff mf) (index_record off len) (indexfile mf),
       writeintervals := t\<rparr>)"
    unfolding index_right_def by (intro exI [of _ "rs @ [(off, len)]"]) (simp add: rs(2) t(3) flip: rs(4))
  with t that show thesis by blast
qed

lemma file_set_size_nth: "x < n \<Longrightarrow> file_set_size n f ! x = (if x < length f then f ! x else 0)"
  by (simp add: file_set_size_def nth_append)

subsection \<open>Writing and truncating change the file that is seen as they change a plain file\<close>

lemma check_size_right:
  assumes "changed remote mf" and "n < 2 ^ 63"
  obtains mf' where "psync_fs_modfile_check_size_ok mf n [] = Some (False, mf', [])" "changed remote mf'"
    "currentsize mf' = max (currentsize mf) n"
    "modfile_view remote mf' = (if currentsize mf < n then file_set_size n (modfile_view remote mf) else modfile_view remote mf)"
proof (cases "currentsize mf < n")
  case False
  then show thesis using that [of mf] assms(1) by (simp add: psync_fs_modfile_check_size_ok_def max_def)
next
  case True
  let ?d = "file_set_size n (datafile mf)"
  have ok: "wf_itree (writeintervals mf)" "length (datafile mf) = currentsize mf" "index_right mf" "initialsize mf = length remote"
    "\<And>x. length remote \<le> x \<Longrightarrow> x < currentsize mf \<Longrightarrow> x \<in> local_bytes (writeintervals mf)" "\<not> newfile mf" "modified mf" "length remote < 2 ^ 62"
    using assms(1) by (simp_all add: changed_def modfile_ok_def)
  have "rec_ok (currentsize mf, n - currentsize mf)" using True assms(2) by (simp add: rec_ok_def)
  from index_append [OF ok(3) this ok(1)] obtain t where t: "add_interval (writeintervals mf) (currentsize mf) n = Some t" "wf_itree t"
    "local_bytes t = local_bytes (writeintervals mf) \<union> {currentsize mf ..< n}"
    "index_right (mf\<lparr>indexoff := indexoff mf + 1,
       indexfile := file_write (INDEX_RECORD_SIZE * indexoff mf) (index_record (currentsize mf) (n - currentsize mf)) (indexfile mf), writeintervals := t\<rparr>)"
    using True by auto
  define mf' where "mf' = mf\<lparr>datafile := ?d, indexoff := indexoff mf + 1,
     indexfile := file_write (INDEX_RECORD_SIZE * indexoff mf) (index_record (currentsize mf) (n - currentsize mf)) (indexfile mf),
     writeintervals := t, currentsize := n\<rparr>"
  have "psync_fs_modfile_check_size_ok mf n [] = Some (False, mf', [])"
    using True ok(6) t(1) by (simp add: psync_fs_modfile_check_size_ok_def mf'_def Let_def)
  moreover have "index_right mf'" using t(4) by (simp add: index_right_def mf'_def)
  then have "changed remote mf'"
    using ok t(2,3) assms(2) by (auto simp: changed_def modfile_ok_def mf'_def intro: leI)
  moreover have "modfile_view remote mf' = file_set_size n (modfile_view remote mf)"
  proof (rule nth_equalityI)
    have view': "length (modfile_view remote mf') = n"
      "\<And>x. x < n \<Longrightarrow> modfile_view remote mf' ! x = (if x \<in> local_bytes t then ?d ! x else remote ! x)"
      using changed_view [OF \<open>changed remote mf'\<close>] by (simp_all add: mf'_def)
    then show "length (modfile_view remote mf') = length (file_set_size n (modfile_view remote mf))" by simp
    fix x assume "x < length (modfile_view remote mf')"
    then show "modfile_view remote mf' ! x = file_set_size n (modfile_view remote mf) ! x"
      using view' changed_view [OF assms(1)] ok(2) t(3) by (simp add: file_set_size_nth)
  qed
  ultimately show thesis using that [of mf'] True by (simp add: mf'_def max_def)
qed

lemma write_after_extend: "data \<noteq> [] \<Longrightarrow> length f < off \<Longrightarrow> file_write off data (file_set_size off f) = file_write off data f"
  by (simp add: file_write_def file_set_size_def)

lemma write_modified_right:
  assumes "changed remote mf" and "off + length buf < 2 ^ 63" and "buf \<noteq> []"
  obtains mf' where "psync_fs_write_modified mf buf off [] = Some (int (length buf), mf', [])" "changed remote mf'"
    "modfile_view remote mf' = file_write off buf (modfile_view remote mf)"
proof -
  have "off < 2 ^ 63" using assms(2) by simp
  from check_size_right [OF assms(1) this] obtain m where m: "psync_fs_modfile_check_size_ok mf off [] = Some (False, m, [])" "changed remote m"
    "currentsize m = max (currentsize mf) off"
    "modfile_view remote m = (if currentsize mf < off then file_set_size off (modfile_view remote mf) else modfile_view remote mf)" .
  have ok: "wf_itree (writeintervals m)" "length (datafile m) = currentsize m" "index_right m" "initialsize m = length remote"
    "\<And>x. length remote \<le> x \<Longrightarrow> x < currentsize m \<Longrightarrow> x \<in> local_bytes (writeintervals m)" "\<not> newfile m" "modified m" "length remote < 2 ^ 62"
    "off \<le> currentsize m" "currentsize m < 2 ^ 63"
    using m(2,3) by (simp_all add: changed_def modfile_ok_def)
  have "rec_ok (off, length buf)" using assms(2,3) by (simp add: rec_ok_def)
  from index_append [OF ok(3) this ok(1)] obtain t where t: "add_interval (writeintervals m) off (off + length buf) = Some t" "wf_itree t"
    "local_bytes t = local_bytes (writeintervals m) \<union> {off ..< off + length buf}"
    "index_right (m\<lparr>indexoff := indexoff m + 1, indexfile := file_write (INDEX_RECORD_SIZE * indexoff m) (index_record off (length buf)) (indexfile m), writeintervals := t\<rparr>)" .
  define mf' where "mf' = m\<lparr>indexoff := indexoff m + 1, datafile := file_write off buf (datafile m),
    indexfile := file_write (INDEX_RECORD_SIZE * indexoff m) (index_record off (length buf)) (indexfile m), writeintervals := t,
    currentsize := max (currentsize m) (off + length buf)\<rparr>"
  have "(if currentsize m < off + length buf then m'\<lparr>currentsize := off + length buf\<rparr> else m') = m'\<lparr>currentsize := max (currentsize m) (off + length buf)\<rparr>"
    if "currentsize m' = currentsize m" for m' :: modfile using that by (simp add: max_def)
  then have "psync_fs_write_modified mf buf off [] = Some (int (length buf), mf', [])"
    by (simp add: psync_fs_write_modified_def m(1) Let_def t(1) mf'_def cong: if_cong)
  moreover have "index_right mf'" using t(4) by (simp add: index_right_def mf'_def)
  then have "changed remote mf'"
    using ok t(2,3) assms(2,3) by (auto simp: changed_def modfile_ok_def mf'_def length_file_write max_def intro: leI)
  moreover have "modfile_view remote mf' = file_write off buf (modfile_view remote m)"
  proof (rule nth_equalityI)
    have view': "length (modfile_view remote mf') = max (currentsize m) (off + length buf)"
      "\<And>x. x < max (currentsize m) (off + length buf) \<Longrightarrow>
        modfile_view remote mf' ! x = (if x \<in> local_bytes t then file_write off buf (datafile m) ! x else remote ! x)"
      using changed_view [OF \<open>changed remote mf'\<close>] by (simp_all add: mf'_def)
    then show "length (modfile_view remote mf') = length (file_write off buf (modfile_view remote m))"
      using changed_view(1) [OF m(2)] assms(3) by (simp add: length_file_write)
    fix x assume "x < length (modfile_view remote mf')"
    then show "modfile_view remote mf' ! x = file_write off buf (modfile_view remote m) ! x"
      using view' changed_view [OF m(2)] ok(2,9) t(3) assms(3) by (auto simp: file_write_nth length_file_write)
  qed
  moreover have "file_write off buf (modfile_view remote m) = file_write off buf (modfile_view remote mf)"
    using m(4) write_after_extend [OF assms(3)] changed_view(1) [OF assms(1)] by simp
  ultimately show thesis using that [of mf'] by simp
qed

lemma truncate_right:
  assumes "changed remote mf" and "n < 2 ^ 63"
  obtains mf' where "truncate_writable n mf [] = Some (0, mf', [])" "changed remote mf'" "modfile_view remote mf' = file_set_size n (modfile_view remote mf)"
proof -
  from check_size_right [OF assms] obtain m where m: "psync_fs_modfile_check_size_ok mf n [] = Some (False, m, [])" "changed remote m"
    "currentsize m = max (currentsize mf) n"
    "modfile_view remote m = (if currentsize mf < n then file_set_size n (modfile_view remote mf) else modfile_view remote mf)" .
  have whole: "file_set_size (length f) f = f" for f by (simp add: file_set_size_def)
  show thesis
  proof (cases "currentsize m = n")
    case True
    then have "modfile_view remote m = file_set_size n (modfile_view remote mf)"
      using m(3,4) changed_view(1) [OF assms(1)] whole [of "modfile_view remote mf"] by (auto split: if_splits)
    then show thesis using that [of m] m(1,2) True by (simp add: truncate_writable_def)
  next
    case False
    then have less: "n < currentsize m" "currentsize m = currentsize mf" "modfile_view remote m = modfile_view remote mf" using m(3,4) by (auto simp: max_def split: if_splits)
    let ?m = "m\<lparr>datafile := file_set_size n (datafile m), currentsize := n\<rparr>"
    have ch: "changed remote ?m" using m(2) less(1) assms(2) by (auto simp: changed_def modfile_ok_def index_right_def)
    have "length (datafile m) = currentsize m" using m(2) by (simp add: changed_def modfile_ok_def)
    then have "modfile_view remote ?m = file_set_size n (modfile_view remote m)"
      using changed_view [OF ch] changed_view [OF m(2)] less(1) by (intro nth_equalityI) (simp_all add: file_set_size_nth)
    then show thesis using that [of ?m] m(1) False ch less(3) by (simp add: truncate_writable_def)
  qed
qed

subsection \<open>New files\<close>

lemma write_newfile_right:
  assumes "newfile mf" and "modfile_ok remote mf" and "off + length buf < 2 ^ 63" and "buf \<noteq> []"
  obtains mf' where "psync_fs_write_newfile mf buf off [] = (int (length buf), mf', [])" "newfile mf'" "modfile_ok remote mf'"
    "modfile_view remote mf' = file_write off buf (modfile_view remote mf)"
proof -
  let ?m = "mf\<lparr>datafile := file_write off buf (datafile mf), currentsize := max (currentsize mf) (off + length buf)\<rparr>"
  have "psync_fs_write_newfile mf buf off [] = (int (length buf), ?m, [])"
    by (simp add: psync_fs_write_newfile_def Let_def max_def)
  moreover have "modfile_ok remote ?m" "newfile ?m" using assms by (simp_all add: modfile_ok_def length_file_write)
  moreover have "modfile_view remote ?m = file_write off buf (modfile_view remote mf)" using assms(1) by (simp add: modfile_view_def)
  ultimately show thesis using that by blast
qed

lemma truncate_newfile_right:
  assumes "newfile mf" and "modfile_ok remote mf" and "n < 2 ^ 63"
  obtains mf' where "truncate_writable n mf [] = Some (0, mf', [])" "newfile mf'" "modfile_ok remote mf'" "modfile_view remote mf' = file_set_size n (modfile_view remote mf)"
proof -
  have len: "length (datafile mf) = currentsize mf" using assms(1,2) by (simp add: modfile_ok_def)
  let ?m = "mf\<lparr>datafile := file_set_size n (datafile mf), currentsize := n\<rparr>"
  have whole: "file_set_size n (datafile mf) = datafile mf" if "currentsize mf = n" using len that by (simp add: file_set_size_def)
  have same: "mf\<lparr>datafile := file_set_size n (datafile mf), currentsize := n\<rparr> = mf" if "currentsize mf = n"
    using whole [OF that] that by (cases mf) simp
  have "truncate_writable n mf [] = Some (0, ?m, [])"
    using assms(1) same by (cases "currentsize mf = n") (auto simp: truncate_writable_def psync_fs_modfile_check_size_ok_def Let_def)
  moreover have "modfile_ok remote ?m" "newfile ?m" using assms by (simp_all add: modfile_ok_def)
  moreover have "modfile_view remote ?m = file_set_size n (modfile_view remote mf)" using assms(1) by (simp add: modfile_view_def)
  ultimately show thesis using that by blast
qed

subsection \<open>Making a file writable keeps its bytes\<close>

text \<open>All pages have right checksums.\<close>

definition pages_intact :: "(byte list \<Rightarrow> u32) \<Rightarrow> nat \<Rightarrow> byte list \<Rightarrow> page_cache \<Rightarrow> bool" where
  "pages_intact crc hash f pc \<longleftrightarrow> pages_match crc hash f pc \<and>
     (\<forall>h. \<forall>p \<in> set (cache_hash pc h). phash p = hash \<longrightarrow> crc (take (psize p) (page p)) = pcrc p) \<and>
     (\<forall>pid row. pagecache_rows pc (hash, pid) = Some row \<longrightarrow> rowcrc row = None \<or> rowcrc row = Some (crc (page_of f pid)))"

definition page_core :: "cache_page \<Rightarrow> nat \<times> nat \<times> byte list \<times> nat \<times> u32" where
  "page_core p = (phash p, pageid p, page p, psize p, pcrc p)"

text \<open>The same pages, but for how often they were used.\<close>

definition same_pages :: "page_cache \<Rightarrow> page_cache \<Rightarrow> bool" where
  "same_pages pc pc' \<longleftrightarrow> (\<forall>h. map page_core (cache_hash pc' h) = map page_core (cache_hash pc h)) \<and>
     pagecache_rows pc' = pagecache_rows pc \<and> readcache pc' = readcache pc"

lemma same_pages_refl [simp]: "same_pages pc pc"
  by (simp add: same_pages_def)

lemma same_pages_trans: "same_pages pc pc' \<Longrightarrow> same_pages pc' pc'' \<Longrightarrow> same_pages pc pc''"
  by (simp add: same_pages_def)

lemma core_mem: "map page_core ps' = map page_core ps \<Longrightarrow> p \<in> set ps' \<Longrightarrow> \<exists>q \<in> set ps. page_core q = page_core p"
  by (metis (no_types, lifting) imageE image_eqI list.set_map)

lemma pages_intact_same:
  assumes "same_pages pc pc'" and "pages_intact crc hash f pc"
  shows "pages_intact crc hash f pc'"
proof -
  have mem: "\<exists>q \<in> set (cache_hash pc h). page_core q = page_core p" if "p \<in> set (cache_hash pc' h)" for p h
    using assms(1) core_mem [OF _ that, of "cache_hash pc h"] by (simp add: same_pages_def)
  then have "page_right crc hash f p \<and> (phash p = hash \<longrightarrow> crc (take (psize p) (page p)) = pcrc p)" if "p \<in> set (cache_hash pc' h)" for p h
    using that assms(2) mem [OF that] by (fastforce simp: pages_intact_def pages_match_def page_right_def page_core_def)
  then show ?thesis using assms by (simp add: pages_intact_def pages_match_def same_pages_def)
qed

lemma check_bucket_intact:
  assumes "\<forall>p \<in> set ps. phash p = hash \<longrightarrow> crc (take (psize p) (page p)) = pcrc p"
    and "check_bucket crc hash pid tm len off ret ps = (ps', bad, ret')"
  shows "map page_core ps' = map page_core ps \<and> bad = None \<and>
    ((ret \<noteq> None \<or> (\<exists>p \<in> set ps. phash p = hash \<and> pageid p = pid)) \<longrightarrow> ret' \<noteq> None)"
  using assms
proof (induction ps arbitrary: ps' bad ret' ret len)
  case (Cons p ps)
  define q where "q = (if tm > lastuse p + 5 then p\<lparr>usecnt := usecnt p + 1, lastuse := tm\<rparr> else p)"
  have q: "page_core q = page_core p" "page q = page p" "psize q = psize p" "pcrc q = pcrc p" by (simp_all add: q_def page_core_def)
  show ?case
  proof (cases "phash p = hash \<and> pageid p = pid")
    case False
    obtain ps1 bad1 ret1 where r: "check_bucket crc hash pid tm len off ret ps = (ps1, bad1, ret1)" by (metis prod_cases3)
    then have "ps' = p # ps1" "ret' = ret1" "bad' = bad1" if "bad' = bad" for bad' using Cons.prems(2) False that by auto
    then show ?thesis using Cons.IH [OF _ r] Cons.prems(1) False by auto
  next
    case True
    let ?len = "copy_len len off (psize p)"
    obtain ps1 bad1 ret1 where r: "check_bucket crc hash pid tm ?len off (Some (take ?len (drop off (page p)))) ps = (ps1, bad1, ret1)"
      by (metis prod_cases3)
    have "crc (take (psize p) (page p)) = pcrc p" using Cons.prems(1) True by simp
    then have "ps' = q # ps1" "ret' = ret1" "bad = bad1" using Cons.prems(2) True r q by (auto simp: Let_def q_def [symmetric])
    then show ?thesis using Cons.IH [OF _ r] Cons.prems(1) q(1) by auto
  qed
qed simp

lemma memory_intact:
  assumes "pages_intact crc hash f pc" and "check_page_in_memory_by_hash crc hash pid len off tm pc = (ret, pc')"
  shows "same_pages pc pc' \<and> (ret = None \<or> ret = Some (take len (drop off (page_of f pid)))) \<and> (has_page_in_cache_by_hash hash pid pc \<longrightarrow> ret \<noteq> None)"
proof -
  let ?h = "pagehash_by_hash_and_pageid hash pid"
  obtain ps bad r where b: "check_bucket crc hash pid tm len off None (cache_hash pc ?h) = (ps, bad, r)" by (metis prod_cases3)
  have "\<forall>p \<in> set (cache_hash pc ?h). phash p = hash \<longrightarrow> crc (take (psize p) (page p)) = pcrc p" using assms(1) by (simp add: pages_intact_def)
  note i = check_bucket_intact [OF this b]
  then have "ret = r" "pc' = pc\<lparr>cache_hash := (cache_hash pc)(?h := ps)\<rparr>" using assms(2) b by (simp_all add: check_page_in_memory_by_hash_def Let_def)
  moreover have "pages_match crc hash f pc" using assms(1) by (simp add: pages_intact_def)
  note memory_right [OF this assms(2)]
  ultimately show ?thesis using i by (auto simp: same_pages_def has_page_in_cache_by_hash_def list_ex_iff)
qed

lemma database_intact:
  assumes "pages_intact crc hash f pc" and "pagecache_rows pc (hash, pid) \<noteq> None"
  shows "check_page_in_database_by_hash crc hash pid PSYNC_FS_PAGE_SIZE 0 pc [] = (Some (page_of f pid), pc, [])"
proof -
  obtain row where row: "pagecache_rows pc (hash, pid) = Some row" using assms(2) by blast
  then have r: "rowsize row = length (page_of f pid)" "take (length (page_of f pid)) (drop (rowid row * 4096) (readcache pc)) = page_of f pid"
    "rowcrc row = None \<or> rowcrc row = Some (crc (page_of f pid))"
    using assms(1) by (auto simp: pages_intact_def pages_match_def row_right_def)
  have "copy_len 4096 0 (rowsize row) = length (page_of f pid)" using r(1) by (auto simp: copy_len_def length_page_of)
  moreover have "min (length (readcache pc) - rowid row * 4096) (length (page_of f pid)) = length (page_of f pid)"
    using arg_cong [OF r(2), of length] by (simp only: length_take length_drop)
  ultimately show ?thesis using r by (auto simp: check_page_in_database_by_hash_def row Let_def)
qed

lemma file_pages: "i * 4096 < length f \<Longrightarrow> file_write (i * 4096) (page_of f i) (take (i * 4096) f) = take ((i + 1) * 4096) f"
proof -
  assume "i * 4096 < length f"
  then have "file_write (i * 4096) (page_of f i) (take (i * 4096) f) = take (i * 4096) f @ page_of f i"
    by (simp add: file_write_def page_of_def min_def)
  also have "\<dots> = take (i * 4096 + 4096) f" by (simp only: page_of_def take_add)
  also have "i * 4096 + 4096 = (i + 1) * 4096" by simp
  finally show ?thesis .
qed

lemma copy_pages_right:
  assumes "pages_intact crc hash f pc" and "\<forall>j < page_count (length f). pagecache_rows pc (hash, j) \<noteq> None \<or> has_page_in_cache_by_hash hash j pc"
    and "i \<le> page_count (length f)" and "datafile mf = take (i * 4096) f"
  shows "\<exists>pc'. copy_pages crc hash tm [i ..< page_count (length f)] mf pc [] = (True, mf\<lparr>datafile := f\<rparr>, pc', [])"
  using assms
proof (induction "page_count (length f) - i" arbitrary: i mf pc)
  case 0
  then have "i = page_count (length f)" by simp
  moreover have "length f \<le> page_count (length f) * 4096" using div_mult_mod_eq [of "length f + 4095" 4096] mod_less_divisor [of 4096 "length f + 4095"]
    unfolding page_count_def by linarith
  ultimately show ?case using 0(5) by simp
next
  case (Suc k)
  then have i: "i < page_count (length f)" by simp
  then have lt: "i * 4096 < length f"
    using page_count_pred [of "length f"] div_times_less_eq_dividend [of "length f - 1" 4096] by (cases "length f = 0") (auto simp: page_count_def)
  obtain rb pc1 where m: "check_page_in_memory_by_hash crc hash i PSYNC_FS_PAGE_SIZE 0 tm pc = (rb, pc1)" by (metis prod.exhaust)
  note mi = memory_intact [OF Suc.prems(1) m]
  have whole: "take 4096 (page_of f i) = page_of f i" by (simp add: page_of_def)
  have int1: "pages_intact crc hash f pc1" using pages_intact_same [OF _ Suc.prems(1)] mi by blast
  have row: "pagecache_rows pc1 (hash, i) \<noteq> None" if "rb = None"
    using Suc.prems(2) i mi that by (auto simp: same_pages_def)
  have got: "(if rb = None then check_page_in_database_by_hash crc hash i PSYNC_FS_PAGE_SIZE 0 pc1 [] else (rb, pc1, [])) = (Some (page_of f i), pc1, [])"
    using mi whole database_intact [OF int1 row] by auto
  let ?mf = "mf\<lparr>datafile := file_write (i * 4096) (page_of f i) (datafile mf)\<rparr>"
  have step: "copy_pages crc hash tm [i ..< page_count (length f)] mf pc [] = copy_pages crc hash tm [i + 1 ..< page_count (length f)] ?mf pc1 []"
    using i by (simp add: upt_conv_Cons m got)
  have "has_page_in_cache_by_hash hash j pc1 \<longleftrightarrow> has_page_in_cache_by_hash hash j pc" for j
  proof -
    have eq: "map page_core (cache_hash pc1 h) = map page_core (cache_hash pc h)" for h using mi by (simp add: same_pages_def)
    have "list_ex (\<lambda>p. phash p = hash \<and> pageid p = j) ps \<longleftrightarrow> list_ex (\<lambda>(h, k, _). h = hash \<and> k = j) (map page_core ps)" for ps
      by (induction ps) (auto simp: page_core_def)
    then show ?thesis unfolding has_page_in_cache_by_hash_def by (simp add: eq)
  qed
  then have "\<forall>j < page_count (length f). pagecache_rows pc1 (hash, j) \<noteq> None \<or> has_page_in_cache_by_hash hash j pc1"
    using Suc.prems(2) mi by (simp add: same_pages_def)
  moreover have "datafile ?mf = take ((i + 1) * 4096) f" using file_pages [OF lt] Suc.prems(4) by simp
  ultimately show ?case using Suc.hyps(1) [of "i + 1" pc1 ?mf] Suc.hyps(2) i int1 step by simp
qed

lemma reopen_right:
  assumes "modfile_ok remote mf" and "\<not> newfile mf" and "\<not> modified mf" and "pages_intact crc (fhash mf) remote pc"
  obtains ret mf' pc' where "psync_fs_reopen_file_for_writing crc tm locked mf pc [] = Some (ret, mf', pc', [])" "0 \<le> ret"
    "newfile mf' \<or> changed remote mf'" "modfile_ok remote mf'" "modfile_view remote mf' = remote"
proof -
  have mf: "initialsize mf = length remote" "length remote < 2 ^ 62" "currentsize mf = length remote" "datafile mf = []" "indexfile mf = []"
    "writeintervals mf = empty_intervals"
    using assms(1-3) by (simp_all add: modfile_ok_def)
  have size0: "psync_file_size [] [] = (0, [])" by (simp add: psync_file_size_def next_fault_def)
  show thesis
  proof (cases "length remote = 0 \<or> length remote \<le> PSYNC_FS_MAX_SIZE_CONVERT_NEWFILE \<and> psync_pagecache_have_all_pages_in_cache (fhash mf) (length remote) pc \<and> locked")
    case True
    let ?mf = "mf\<lparr>newfile := True, modified := True, currentsize := 0\<rparr>"
    have open_: "open_write_files (mf\<lparr>newfile := True, modified := True\<rparr>) [] = Some (0, ?mf, [])"
      by (simp add: open_write_files_def mf(4) size0)
    let ?mf' = "mf\<lparr>newfile := True, modified := True, datafile := remote, currentsize := length remote\<rparr>"
    obtain pc' where "psync_fs_reopen_file_for_writing crc tm locked mf pc [] = Some (1, ?mf', pc', [])"
    proof (cases "remote = []")
      case True
      then have "?mf' = ?mf" using mf(4) by (cases mf) simp
      then show thesis using that [of pc] True open_ mf(1) by (simp add: psync_fs_reopen_file_for_writing_def Let_def)
    next
      case False
      have cnt: "(length remote + PSYNC_FS_PAGE_SIZE - 1) div PSYNC_FS_PAGE_SIZE = page_count (length remote)" by (simp add: page_count_def)
      have "\<forall>j < page_count (length remote). pagecache_rows pc (fhash mf, j) \<noteq> None \<or> has_page_in_cache_by_hash (fhash mf) j pc"
        using True False by (auto simp: psync_pagecache_have_all_pages_in_cache_def cnt has_pages_in_db_def list_all_iff Let_def page_count_def add.commute)
      from copy_pages_right [OF assms(4) this, of 0 ?mf tm] mf(4)
      obtain pc' where "copy_pages crc (fhash mf) tm [0 ..< page_count (length remote)] ?mf pc [] = (True, ?mf\<lparr>datafile := remote\<rparr>, pc', [])" by auto
      then have copy: "psync_pagecache_copy_all_pages_from_cache_to_file_locked crc (fhash mf) tm (length remote) ?mf pc [] = (0, ?mf\<lparr>datafile := remote\<rparr>, pc', [])"
        using cnt by (simp add: psync_pagecache_copy_all_pages_from_cache_to_file_locked_def Let_def next_fault_def)
      show thesis by (rule that [of pc'], use True False open_ copy mf(1) in \<open>simp add: psync_fs_reopen_file_for_writing_def Let_def\<close>)
    qed
    then show thesis using that [of 1 ?mf' pc'] mf(1,2) by (simp add: modfile_ok_def modfile_view_def)
  next
    case False
    let ?d = "file_set_size (length remote) []"
    let ?mf' = "mf\<lparr>modified := True, datafile := ?d, indexoff := 0, currentsize := length remote\<rparr>"
    have "open_write_files mf [] = Some (0, mf\<lparr>currentsize := 0, indexoff := 0\<rparr>, [])"
      using assms(2) by (simp add: open_write_files_def load_interval_tree_def psync_fs_load_interval_tree_def load_batches.simps mf(4,5) size0)
    then have "psync_fs_reopen_file_for_writing crc tm locked mf pc [] = Some (0, ?mf', pc, [])"
      using False by (auto simp: psync_fs_reopen_file_for_writing_def mf(1,4) Let_def)
    moreover have "index_right ?mf'" by (simp add: index_right_def mf(5,6) exI [of _ "[]"])
    then have "changed remote ?mf'" using assms(2) mf(1,2,6) by (simp add: changed_def modfile_ok_def)
    moreover have "modfile_view remote ?mf' = remote" using assms(2) mf(6) by (simp add: modfile_view_def map_nth)
    ultimately show thesis using that [of 0 ?mf' pc] by (simp add: changed_def)
  qed
qed

lemma view_length: "modfile_ok remote mf \<Longrightarrow> length (modfile_view remote mf) = currentsize mf"
  by (auto simp: modfile_ok_def modfile_view_def split: if_splits)

text \<open>What an operation on a writable file does, it does on every file.\<close>

lemma on_writable_right:
  assumes "modfile_ok remote mf" and "\<not> newfile mf \<Longrightarrow> \<not> modified mf \<Longrightarrow> pages_intact crc (fhash mf) remote pc"
    and "\<And>m. newfile m \<or> changed remote m \<Longrightarrow> modfile_ok remote m \<Longrightarrow>
      \<exists>m'. act m [] = Some (r, m', []) \<and> (newfile m' \<or> changed remote m') \<and> modfile_ok remote m' \<and> modfile_view remote m' = g (modfile_view remote m)"
  shows "\<exists>mf' pc'. on_writable crc tm locked act mf pc [] = Some (r, mf', pc', []) \<and> (newfile mf' \<or> modified mf') \<and> modfile_ok remote mf' \<and>
    modfile_view remote mf' = g (modfile_view remote mf)"
proof (cases "newfile mf \<or> modified mf")
  case True
  then have "newfile mf \<or> changed remote mf" using assms(1) by (auto simp: changed_def)
  from assms(3) [OF this assms(1)] show ?thesis using True by (auto simp: on_writable_def changed_def)
next
  case False
  then obtain ret m pc' where m: "psync_fs_reopen_file_for_writing crc tm locked mf pc [] = Some (ret, m, pc', [])" "0 \<le> ret"
    "newfile m \<or> changed remote m" "modfile_ok remote m" "modfile_view remote m = remote"
    using reopen_right [OF assms(1) _ _ assms(2)] by blast
  have "modfile_view remote mf = remote" using False by (simp add: modfile_view_def)
  then show ?thesis using assms(3) [OF m(3,4)] False m(1,2,5) by (auto simp: on_writable_def changed_def)
qed

subsection \<open>Sequences of operations\<close>

datatype file_op = Write nat "byte list" | Truncate nat

fun run_op :: "(byte list \<Rightarrow> u32) \<Rightarrow> nat \<Rightarrow> bool \<Rightarrow> file_op \<Rightarrow> modfile \<Rightarrow> page_cache \<Rightarrow> (int \<times> modfile \<times> page_cache \<times> faults) option" where
  "run_op crc tm locked (Write off buf) mf pc = psync_fs_write crc tm locked buf off mf pc []"
| "run_op crc tm locked (Truncate n) mf pc = psync_fs_ftruncate_of_locked crc tm locked n mf pc []"

fun run_ops :: "(byte list \<Rightarrow> u32) \<Rightarrow> (nat \<times> bool \<times> file_op) list \<Rightarrow> modfile \<Rightarrow> page_cache \<Rightarrow> (int list \<times> modfile \<times> page_cache) option" where
  "run_ops crc [] mf pc = Some ([], mf, pc)"
| "run_ops crc ((tm, locked, op) # ops) mf pc =
     Option.bind (run_op crc tm locked op mf pc) (\<lambda>(ret, mf, pc, fs). map_option (\<lambda>(rets, mf, pc). (ret # rets, mf, pc)) (run_ops crc ops mf pc))"

text \<open>The operations on a plain file, and what they return.\<close>

fun plain_op :: "file_op \<Rightarrow> byte list \<Rightarrow> byte list" where
  "plain_op (Write off buf) f = file_write off buf f"
| "plain_op (Truncate n) f = file_set_size n f"

fun op_result :: "file_op \<Rightarrow> int" where
  "op_result (Write off buf) = int (length buf)"
| "op_result (Truncate n) = 0"

fun op_fits :: "file_op \<Rightarrow> bool" where
  "op_fits (Write off buf) = (buf \<noteq> [] \<and> off + length buf < 2 ^ 63)"
| "op_fits (Truncate n) = (n < 2 ^ 63)"

lemma run_op_right:
  assumes "modfile_ok remote mf" and "\<not> newfile mf \<Longrightarrow> \<not> modified mf \<Longrightarrow> pages_intact crc (fhash mf) remote pc" and "op_fits op"
  shows "\<exists>mf' pc'. run_op crc tm locked op mf pc = Some (op_result op, mf', pc', []) \<and> modfile_ok remote mf' \<and>
    modfile_view remote mf' = plain_op op (modfile_view remote mf) \<and> (newfile mf' \<or> modified mf' \<or> mf' = mf \<and> pc' = pc)"
proof (cases op)
  case (Write off buf)
  have fits: "off + length buf < 2 ^ 63" "buf \<noteq> []" using assms(3) Write by simp_all
  let ?act = "\<lambda>m fs. if newfile m then (case psync_fs_write_newfile m buf off fs of (ret, m, fs) \<Rightarrow> Some (if ret = -1 then - EIO else ret, m, fs))
       else psync_fs_write_modified m buf off fs"
  have act: "\<exists>m'. ?act m [] = Some (int (length buf), m', []) \<and> (newfile m' \<or> changed remote m') \<and> modfile_ok remote m' \<and>
       modfile_view remote m' = file_write off buf (modfile_view remote m)"
    if m: "newfile m \<or> changed remote m" "modfile_ok remote m" for m
  proof (cases "newfile m")
    case True
    from write_newfile_right [OF True m(2) fits] obtain m' where "psync_fs_write_newfile m buf off [] = (int (length buf), m', [])" "newfile m'"
      "modfile_ok remote m'" "modfile_view remote m' = file_write off buf (modfile_view remote m)" .
    then show ?thesis using True by simp
  next
    case False
    then have ch: "changed remote m" using m(1) by simp
    from write_modified_right [OF ch fits] obtain m' where "psync_fs_write_modified m buf off [] = Some (int (length buf), m', [])" "changed remote m'"
      "modfile_view remote m' = file_write off buf (modfile_view remote m)" .
    then show ?thesis using False by (auto simp: changed_def)
  qed
  have "\<exists>mf' pc'. on_writable crc tm locked ?act mf pc [] = Some (int (length buf), mf', pc', []) \<and> (newfile mf' \<or> modified mf') \<and> modfile_ok remote mf' \<and>
    modfile_view remote mf' = file_write off buf (modfile_view remote mf)"
    using on_writable_right [where act = ?act and r = "int (length buf)" and g = "file_write off buf" and tm = tm and locked = locked, OF assms(1,2) act] by blast
  then show ?thesis by (auto simp: Write psync_fs_write_def)
next
  case (Truncate n)
  then have n: "n < 2 ^ 63" using assms(3) by simp
  show ?thesis
  proof (cases "currentsize mf = n")
    case True
    then have "file_set_size n (modfile_view remote mf) = modfile_view remote mf" using view_length [OF assms(1)] by (simp add: file_set_size_def)
    then show ?thesis using True Truncate assms(1) by (simp add: psync_fs_ftruncate_of_locked_def)
  next
    case False
    have act: "\<exists>m'. truncate_writable n m [] = Some (0, m', []) \<and> (newfile m' \<or> changed remote m') \<and> modfile_ok remote m' \<and>
       modfile_view remote m' = file_set_size n (modfile_view remote m)" if m: "newfile m \<or> changed remote m" "modfile_ok remote m" for m
    proof (cases "newfile m")
      case True
      from truncate_newfile_right [OF True m(2) n] show ?thesis by metis
    next
      case False
      then have ch: "changed remote m" using m(1) by simp
      from truncate_right [OF ch n] show ?thesis by (metis changed_def)
    qed
    have "\<exists>mf' pc'. on_writable crc tm locked (truncate_writable n) mf pc [] = Some (0, mf', pc', []) \<and> (newfile mf' \<or> modified mf') \<and> modfile_ok remote mf' \<and>
      modfile_view remote mf' = file_set_size n (modfile_view remote mf)"
      using on_writable_right [where act = "truncate_writable n" and r = 0 and g = "file_set_size n" and tm = tm and locked = locked, OF assms(1,2) act] by blast
    then show ?thesis using False by (auto simp: Truncate psync_fs_ftruncate_of_locked_def)
  qed
qed

lemma run_ops_right:
  assumes "modfile_ok remote mf" and "\<not> newfile mf \<Longrightarrow> \<not> modified mf \<Longrightarrow> pages_intact crc (fhash mf) remote pc"
    and "\<forall>(tm, locked, op) \<in> set ops. op_fits op"
  shows "\<exists>mf' pc'. run_ops crc ops mf pc = Some (map (\<lambda>(tm, locked, op). op_result op) ops, mf', pc') \<and> modfile_ok remote mf' \<and>
    modfile_view remote mf' = fold (\<lambda>(tm, locked, op). plain_op op) ops (modfile_view remote mf)"
  using assms
proof (induction ops arbitrary: mf pc)
  case (Cons x ops)
  obtain tm locked op where x: "x = (tm, locked, op)" by (metis prod_cases3)
  then have "op_fits op" using Cons.prems(3) by simp
  from run_op_right [OF Cons.prems(1,2) this, of tm locked]
  obtain mf1 pc1 where r: "run_op crc tm locked op mf pc = Some (op_result op, mf1, pc1, [])" "modfile_ok remote mf1"
    "modfile_view remote mf1 = plain_op op (modfile_view remote mf)" "newfile mf1 \<or> modified mf1 \<or> mf1 = mf \<and> pc1 = pc" by blast
  have "pages_intact crc (fhash mf1) remote pc1" if "\<not> newfile mf1" "\<not> modified mf1" using r(4) that Cons.prems(2) by blast
  from Cons.IH [OF r(2) this] Cons.prems(3)
  obtain mf' pc' where "run_ops crc ops mf1 pc1 = Some (map (\<lambda>(tm, locked, op). op_result op) ops, mf', pc')" "modfile_ok remote mf'"
    "modfile_view remote mf' = fold (\<lambda>(tm, locked, op). plain_op op) ops (modfile_view remote mf1)" by auto
  then show ?case using r(1,3) x by simp
qed simp

subsection \<open>Opening a modified file again\<close>

lemma load_right:
  assumes "index_right mf"
  obtains t where "psync_fs_load_interval_tree (indexfile mf) (length (indexfile mf)) empty_intervals [] = Some (int (indexoff mf), t, [])"
    "wf_itree t" "local_bytes t = local_bytes (writeintervals mf)"
proof -
  obtain rs where rs: "indexfile mf = recs_bytes rs" "indexoff mf = length rs" "list_all rec_ok rs" "local_bytes (writeintervals mf) = recs_cover rs"
    using assms by (auto simp: index_right_def)
  obtain t where "load_batches (recs_bytes rs) (length rs) 0 empty_intervals [] = Some (True, t, [])" "wf_itree t" "local_bytes t = recs_cover rs"
    using load_batches_local [OF _ rs(3), of empty_intervals 0] by auto
  then show thesis using that [of t] rs by (simp add: psync_fs_load_interval_tree_def)
qed

lemma reload_right:
  assumes "changed remote mf"
  obtains mf' where "open_write_files (mf\<lparr>currentsize := c, indexoff := i, writeintervals := empty_intervals\<rparr>) [] = Some (0, mf', [])"
    "changed remote mf'" "modfile_view remote mf' = modfile_view remote mf" "indexoff mf' = indexoff mf" "currentsize mf' = currentsize mf"
proof -
  have ok: "index_right mf" "length (datafile mf) = currentsize mf" "\<not> newfile mf" using assms by (simp_all add: changed_def modfile_ok_def)
  obtain t where t: "psync_fs_load_interval_tree (indexfile mf) (length (indexfile mf)) empty_intervals [] = Some (int (indexoff mf), t, [])"
    "wf_itree t" "local_bytes t = local_bytes (writeintervals mf)" by (rule load_right [OF ok(1)])
  let ?mf = "mf\<lparr>writeintervals := t\<rparr>"
  have same: "mf\<lparr>currentsize := length (datafile mf), writeintervals := t\<rparr> = ?mf" using ok(2) by (cases mf) simp
  have "psync_file_size f [] = (int (length f), [])" for f by (simp add: psync_file_size_def next_fault_def)
  then have "open_write_files (mf\<lparr>currentsize := c, indexoff := i, writeintervals := empty_intervals\<rparr>) [] = Some (0, ?mf, [])"
    using same ok(3) t(1) by (simp add: open_write_files_def load_interval_tree_def)
  moreover have "index_right ?mf" using ok(1) t(3) by (simp add: index_right_def)
  then have "changed remote ?mf" using assms t(2,3) by (simp add: changed_def modfile_ok_def)
  moreover have "modfile_view remote ?mf = modfile_view remote mf" using t(3) by (simp add: modfile_view_def)
  ultimately show thesis using that by simp
qed

subsection \<open>Properties\<close>


definition no_pages :: page_cache where
  "no_pages = \<lparr>cache_hash = (\<lambda>h. []), cache_pages_in_hash = 0, free_pages = [], pagecache_rows = (\<lambda>k. None), readcache = []\<rparr>"

definition opened :: "byte list \<Rightarrow> modfile" where
  "opened remote = \<lparr>newfile = False, modified = False, fhash = 9, initialsize = length remote, currentsize = length remote, indexoff = 0,
     writeintervals = empty_intervals, datafile = [], indexfile = []\<rparr>"

lemma opened_ok: "length remote < 2 ^ 62 \<Longrightarrow> modfile_ok remote (opened remote)"
  by (simp add: modfile_ok_def opened_def)


text \<open>
  C19. A modified file survives a restart: its data file and its index file, opened again with an empty tree, give
  the same file to be seen and a position in the index behind all records.
\<close>

theorem reopened_file_is_the_same:
  assumes "modfile_ok remote mf" and "modified mf" and "\<not> newfile mf"
  shows "\<exists>mf'. open_write_files (mf\<lparr>currentsize := c, indexoff := i, writeintervals := empty_intervals\<rparr>) [] = Some (0, mf', []) \<and>
    modfile_ok remote mf' \<and> modfile_view remote mf' = modfile_view remote mf \<and> indexoff mf' = indexoff mf"
proof -
  have "changed remote mf" using assms by (simp add: changed_def)
  from reload_right [OF this, of i c] obtain mf' where
    "open_write_files (mf\<lparr>currentsize := c, indexoff := i, writeintervals := empty_intervals\<rparr>) [] = Some (0, mf', [])"
    "changed remote mf'" "modfile_view remote mf' = modfile_view remote mf" "indexoff mf' = indexoff mf" .
  then show ?thesis by (auto simp: changed_def)
qed

lemma reopened_file_is_the_same_witness:
  "\<exists>mf mf'. open_write_files (mf\<lparr>currentsize := 0, indexoff := 0, writeintervals := empty_intervals\<rparr>) [] = Some (0, mf', []) \<and>
     modfile_view [1, 2, 3] mf' = [1, 2, 7] \<and> modfile_view [1, 2, 3] mf = [1, 2, 7]"
proof -
  define start where "start = (opened [1, 2, 3])\<lparr>modified := True, datafile := [0, 0, 0]\<rparr>"
  have "index_right start" by (simp add: start_def opened_def index_right_def exI [of _ "[]"])
  then have "changed [1, 2, 3] start" by (simp add: start_def opened_def changed_def modfile_ok_def)
  from write_modified_right [OF this, of 2 "[7]"] obtain mf where mf: "changed [1, 2, 3] mf"
    "modfile_view [1, 2, 3] mf = file_write 2 [7] (modfile_view [1, 2, 3] start)" by auto
  then have "modfile_ok [1, 2, 3] mf" "modified mf" "\<not> newfile mf" by (simp_all add: changed_def)
  from reopened_file_is_the_same [OF this, of 0 0]
  obtain mf' where "open_write_files (mf\<lparr>currentsize := 0, indexoff := 0, writeintervals := empty_intervals\<rparr>) [] = Some (0, mf', [])"
    "modfile_view [1, 2, 3] mf' = modfile_view [1, 2, 3] mf" by blast
  moreover have "modfile_view [1, 2, 3] start = [1, 2, 3]" by (simp add: start_def opened_def modfile_view_def eval_nat_numeral)
  then have "modfile_view [1, 2, 3] mf = [1, 2, 7]" using mf(2) by (simp add: file_write_def)
  ultimately show ?thesis by auto
qed

subsection \<open>Failing writes\<close>

text \<open>
  A write whose data cannot be written still takes a place in the index. The next write leaves it filled with zeros: a
  record of an empty interval, on which the assertion of \<^verbatim>\<open>psync_interval_tree_add\<close> fails when the index is loaded again.
\<close>

lemma failed_write_breaks_index:
  "\<exists>mf1 mf2. psync_fs_write_modified ((opened [1, 2, 3])\<lparr>modified := True, datafile := [0, 0, 0]\<rparr>) [7] 0 [Fail] = Some (- EIO, mf1, []) \<and>
     psync_fs_write_modified mf1 [7] 0 [] = Some (1, mf2, []) \<and> open_write_files (mf2\<lparr>indexoff := 0, writeintervals := empty_intervals\<rparr>) [] = None"
proof -
  let ?mf = "(opened [1, 2, 3])\<lparr>modified := True, datafile := [0, 0, 0]\<rparr>"
  define mf1 where "mf1 = ?mf\<lparr>indexoff := 1\<rparr>"
  have w1: "psync_fs_write_modified ?mf [7] 0 [Fail] = Some (- EIO, mf1, [])"
    by (simp add: psync_fs_write_modified_def psync_fs_modfile_check_size_ok_def opened_def Let_def psync_file_pwrite_def next_fault_def mf1_def)
  obtain t where t: "add_interval empty_intervals 0 1 = Some t" using add_interval_local [of empty_intervals 0 1] by auto
  define mf2 where "mf2 = mf1\<lparr>indexoff := 2, datafile := [7, 0, 0], indexfile := replicate 16 0 @ index_record 0 1, writeintervals := t\<rparr>"
  have "file_write 16 (index_record 0 1) [] = replicate 16 0 @ index_record 0 1" by (simp add: file_write_def)
  then have w2: "psync_fs_write_modified mf1 [7] 0 [] = Some (1, mf2, [])"
    using t by (simp add: psync_fs_write_modified_def psync_fs_modfile_check_size_ok_def opened_def Let_def mf1_def mf2_def file_write_def)
  have "records_of (replicate 16 0 @ index_record 0 1) = [(0, 0), (0, 1)]"
    by (simp add: records_of_def index_record_def le_val_replicate_0 le_val_le_bytes upt_rec)
  moreover have "add_interval empty_intervals 0 0 = None" by (simp add: add_interval_def psync_interval_tree_add_def)
  ultimately have "load_batches (replicate 16 0 @ index_record 0 1) 2 0 empty_intervals [] = None"
    by (simp add: load_batches.simps)
  then have "open_write_files (mf2\<lparr>indexoff := 0, writeintervals := empty_intervals\<rparr>) [] = None"
    by (simp add: open_write_files_def load_interval_tree_def psync_fs_load_interval_tree_def mf2_def mf1_def opened_def psync_file_size_def next_fault_def)
  with w1 w2 show ?thesis by blast
qed

text \<open>
  Turning a file into a new one marks it as new before its pages are copied: when the copy fails, what is left is a new
  file without the remote bytes, and the next write goes to it.
\<close>

lemma failed_conversion_loses_bytes:
  assumes "pagecache_rows pc (fhash mf, 0) = Some row" and "initialsize mf = 3" and "datafile mf = []" and "\<not> newfile mf"
    and "cache_hash pc = (\<lambda>h. [])"
  shows "\<exists>mf' pc'. psync_fs_reopen_file_for_writing crc tm True mf pc [Full, Fail] = Some (- EIO, mf', pc', []) \<and> newfile mf' \<and> datafile mf' = []"
proof -
  have "psync_pagecache_have_all_pages_in_cache (fhash mf) 3 pc"
    using assms(1) by (simp add: psync_pagecache_have_all_pages_in_cache_def has_pages_in_db_def Let_def)
  moreover have "check_page_in_memory_by_hash crc (fhash mf) 0 4096 0 tm pc = (None, pc)"
  proof -
    have "(cache_hash pc)(h := []) = cache_hash pc" for h using assms(5) by auto
    then have "pc\<lparr>cache_hash := (cache_hash pc)(h := [])\<rparr> = pc" for h by (cases pc) simp
    then show ?thesis using assms(5) by (simp add: check_page_in_memory_by_hash_def Let_def)
  qed
  moreover have "psync_file_pread f n off [Fail] = (-1, [], [])" for f n off by (simp add: psync_file_pread_def next_fault_def)
  ultimately show ?thesis
    using assms by (simp add: psync_fs_reopen_file_for_writing_def open_write_files_def psync_file_size_def next_fault_def Let_def
      psync_pagecache_copy_all_pages_from_cache_to_file_locked_def check_page_in_database_by_hash_def)
qed

end
