(* ===== verification/Pmodread.thy ===== *)
theory Pmodread
  imports Pmodfile
begin

section \<open>Reading a modified file (ppagecache.c, pfs.c)\<close>

text \<open>
  Bytes of a modified file come from the data file where the interval tree covers them and from the remote file elsewhere. A read
  that one interval does not cover reads the remote file first and then puts the local bytes over it, interval by interval.
  Between the two the lock is given up; the model is that of a reader without a writer at the same time.
\<close>

subsection \<open>Operations\<close>

text \<open>Where the part of an interval that is read begins, and its length.\<close>

definition local_part :: "interval \<Rightarrow> nat \<Rightarrow> nat \<Rightarrow> nat \<times> nat" where
  "local_part fi len off =
     (let ioffset = unat (ifrom fi); isize = unat (ito fi) - ioffset;
          (ioffset, isize) = (if ioffset < off then (off, isize - (off - ioffset)) else (ioffset, isize))
      in (ioffset, (if ioffset + isize > off + len then off + len - ioffset else isize)))"

text \<open>The loop over the intervals from \<open>fi\<close> on; \<open>n\<close> bounds its rounds.\<close>

fun overlay :: "nat \<Rightarrow> nat itree \<Rightarrow> file_bytes \<Rightarrow> nat \<Rightarrow> nat \<Rightarrow> nat \<Rightarrow> int \<Rightarrow> byte list \<Rightarrow> faults \<Rightarrow> (int \<times> byte list \<times> faults) option" where
  "overlay 0 t d len off fi rd buf fs = None"
| "overlay (Suc n) t d len off fi rd buf fs =
     (case local_part (ivals t fi) len off of (ioffset, isize) \<Rightarrow>
      case psync_file_pread d isize ioffset fs of (br, data, fs) \<Rightarrow>
        let buf = put_buf (ioffset - off) data buf in
        if br = -1 then Some (- EIO, buf, fs)
        else
          (let rd = (if rd \<noteq> int len \<and> br + int ioffset - int off > rd then br + int ioffset - int off else rd) in
           case psync_tree_get_next (root t) fi of
             None \<Rightarrow> Some (rd, buf, fs)
           | Some fi \<Rightarrow> (if unat (ifrom (ivals t fi)) < off + len then overlay n t d len off fi rd buf fs else Some (rd, buf, fs))))"

declare overlay.simps [simp del]

definition psync_pagecache_read_modified_locked ::
    "(byte list \<Rightarrow> u32) \<Rightarrow> (nat \<Rightarrow> int + byte list) \<Rightarrow> nat \<Rightarrow> nat set \<Rightarrow> modfile \<Rightarrow> nat \<Rightarrow> nat \<Rightarrow> byte list \<Rightarrow> page_cache \<Rightarrow> faults \<Rightarrow>
      (int \<times> byte list \<times> page_cache \<times> faults) option" where
  "psync_pagecache_read_modified_locked crc net tm waited mf len off buf pc fs =
     (let t = writeintervals mf; fi = psync_interval_tree_first_interval_containing_or_after t (of_nat off) in
      if (case fi of None \<Rightarrow> False | Some e \<Rightarrow> ifrom (ivals t e) \<le> of_nat off \<and> ito (ivals t e) \<ge> of_nat (off + len)) then
        (case psync_file_pread (datafile mf) len off fs of (br, data, fs) \<Rightarrow>
           Some (if br = -1 then - EIO else br, put_buf 0 data buf, pc, fs))
      else
        (case psync_pagecache_read_unmodified_locked crc net (fhash mf) (initialsize mf) tm waited len off buf pc fs of
           (rd, buf, ranges, pc, fs) \<Rightarrow>
             if rd < 0 then Some (rd, buf, pc, fs)
             else
               (case psync_interval_tree_first_interval_containing_or_after t (of_nat off) of
                  None \<Rightarrow> Some (rd, buf, pc, fs)
                | Some e \<Rightarrow>
                    if ifrom (ivals t e) \<ge> of_nat (off + len) then Some (rd, buf, pc, fs)
                    else map_option (\<lambda>(ret, buf, fs). (ret, buf, pc, fs))
                      (overlay (length (inorder (root t))) t (datafile mf) len off e rd buf fs))))"

definition psync_read_newfile :: "modfile \<Rightarrow> nat \<Rightarrow> nat \<Rightarrow> byte list \<Rightarrow> faults \<Rightarrow> int \<times> byte list \<times> faults" where
  "psync_read_newfile mf len off buf fs =
     (case psync_file_pread (datafile mf) len off fs of (br, data, fs) \<Rightarrow> (if br = -1 then - EIO else br, put_buf 0 data buf, fs))"

text \<open>The measurement of the reading speed is left out: it only sizes the read-ahead.\<close>

definition psync_fs_read ::
    "(byte list \<Rightarrow> u32) \<Rightarrow> (nat \<Rightarrow> int + byte list) \<Rightarrow> nat \<Rightarrow> nat set \<Rightarrow> modfile \<Rightarrow> nat \<Rightarrow> nat \<Rightarrow> byte list \<Rightarrow> page_cache \<Rightarrow> faults \<Rightarrow>
      (int \<times> byte list \<times> page_cache \<times> faults) option" where
  "psync_fs_read crc net tm waited mf len off buf pc fs =
     (if newfile mf then (case psync_read_newfile mf len off buf fs of (ret, buf, fs) \<Rightarrow> Some (ret, buf, pc, fs))
      else if modified mf then psync_pagecache_read_modified_locked crc net tm waited mf len off buf pc fs
      else (case psync_pagecache_read_unmodified_locked crc net (fhash mf) (initialsize mf) tm waited len off buf pc fs of
              (rd, buf, ranges, pc, fs) \<Rightarrow> Some (rd, buf, pc, fs)))"

subsection \<open>Reads that are not cut short\<close>

definition no_short :: "faults \<Rightarrow> bool" where
  "no_short fs \<longleftrightarrow> (\<forall>n. Short n \<notin> set fs)"

lemma pread_faults: "psync_file_pread f cnt off fs = (n, data, fs') \<Longrightarrow> set fs' \<subseteq> set fs"
  by (auto simp: psync_file_pread_def next_fault_def Let_def split: list.splits fault.splits)

lemma pread_no_short:
  assumes "psync_file_pread f cnt off fs = (n, data, fs')" and "no_short fs"
  shows "no_short fs'" and "n = -1 \<and> Fail \<in> set fs \<or> n = int (length (take cnt (drop off f))) \<and> data = take cnt (drop off f)"
proof -
  show "no_short fs'" using pread_faults [OF assms(1)] assms(2) by (auto simp: no_short_def)
  show "n = -1 \<and> Fail \<in> set fs \<or> n = int (length (take cnt (drop off f))) \<and> data = take cnt (drop off f)"
    using assms by (auto simp: psync_file_pread_def next_fault_def Let_def no_short_def split: list.splits fault.splits)
qed

lemma database_faults: "check_page_in_database_by_hash crc hash pid len off pc fs = (ret, pc', fs') \<Longrightarrow> set fs' \<subseteq> set fs"
  by (auto simp: check_page_in_database_by_hash_def Let_def split: option.splits prod.splits if_splits dest!: pread_faults)

lemma read_page_faults: "read_page crc hash tm a b c i st = (go, st') \<Longrightarrow> set (rfaults st') \<subseteq> set (rfaults st)"
  by (auto simp: read_page_def Let_def split: option.splits prod.splits if_splits dest!: database_faults)

lemma read_pages_faults: "set (rfaults (read_pages crc hash tm a b c is st)) \<subseteq> set (rfaults st)"
proof (induction "is" arbitrary: st)
  case (Cons i js)
  obtain go st' where r: "read_page crc hash tm a b c i st = (go, st')" by (metis prod.exhaust)
  then show ?case using read_page_faults [OF r] Cons.IH [of st'] by (cases go) auto
qed simp

lemma unmodified_no_short:
  assumes "psync_pagecache_read_unmodified_locked crc net hash n tm waited len off buf pc fs = (ret, buf', ranges, pc', fs')" and "no_short fs"
  shows "no_short fs'" "set fs' \<subseteq> set fs"
proof -
  show "set fs' \<subseteq> set fs"
    using assms(1) read_pages_faults by (fastforce simp: psync_pagecache_read_unmodified_locked_def Let_def split: if_splits prod.splits)
  then show "no_short fs'" using assms(2) by (auto simp: no_short_def)
qed

subsection \<open>The local bytes over the remote ones\<close>

text \<open>One round, for an interval that meets the range that is read.\<close>

lemma overlay_round:
  fixes t :: "nat itree" and d :: file_bytes and off len b :: nat
  defines "io \<equiv> max (unat (ifrom (ivals t b))) off" and "endp \<equiv> min (unat (ito (ivals t b))) (off + len)"
  assumes "off < unat (ito (ivals t b))" and "unat (ifrom (ivals t b)) < off + len" and "unat (ifrom (ivals t b)) < unat (ito (ivals t b))"
    and "0 < len" and "off + len \<le> length d" and "len \<le> length buf" and "no_short fs"
  obtains (fail) buf' fs' where "overlay (Suc n) t d len off b rd buf fs = Some (- EIO, buf', fs')" "Fail \<in> set fs"
  | (go) buf' fs' where "length buf' = length buf" "no_short fs'" "set fs' \<subseteq> set fs"
    "\<And>x. x < len \<Longrightarrow> buf' ! x = (if off + x \<in> node_bytes t b then d ! (off + x) else buf ! x)"
    "overlay (Suc n) t d len off b rd buf fs =
       (let rd' = (if rd \<noteq> int len \<and> int endp - int off > rd then int endp - int off else rd) in
        case psync_tree_get_next (root t) b of
          None \<Rightarrow> Some (rd', buf', fs')
        | Some c \<Rightarrow> (if unat (ifrom (ivals t c)) < off + len then overlay n t d len off c rd' buf' fs' else Some (rd', buf', fs')))"
proof -
  let ?f = "unat (ifrom (ivals t b))" and ?u = "unat (ito (ivals t b))"
  have lt: "off < ?u" "?f < off + len" "?f < ?u" using assms by simp_all
  then have io: "io < endp" "off \<le> io" "endp \<le> off + len" using \<open>0 < len\<close> by (auto simp: io_def endp_def)
  have part: "local_part (ivals t b) len off = (io, endp - io)"
    using lt by (auto simp: local_part_def io_def endp_def max_def min_def Let_def)
  obtain br data fs' where r: "psync_file_pread d (endp - io) io fs = (br, data, fs')" by (metis prod_cases3)
  note rr = pread_no_short [OF r \<open>no_short fs\<close>]
  have step: "overlay (Suc n) t d len off b rd buf fs =
    (let buf = put_buf (io - off) data buf in
        if br = -1 then Some (- EIO, buf, fs')
        else
          (let rd = (if rd \<noteq> int len \<and> br + int io - int off > rd then br + int io - int off else rd) in
           case psync_tree_get_next (root t) b of
             None \<Rightarrow> Some (rd, buf, fs')
           | Some fi \<Rightarrow> (if unat (ifrom (ivals t fi)) < off + len then overlay n t d len off fi rd buf fs' else Some (rd, buf, fs'))))"
    unfolding overlay.simps(2) part prod.case r by simp
  show thesis
  proof (cases "br = -1")
    case True
    then show thesis using fail step rr(2) by (simp add: Let_def)
  next
    case False
    have dlen: "length (take (endp - io) (drop io d)) = endp - io" using io \<open>off + len \<le> length d\<close> by simp
    then have br: "br = int (endp - io)" "data = take (endp - io) (drop io d)" using rr(2) False by simp_all
    let ?buf = "put_buf (io - off) data buf"
    have fits: "io - off + length data \<le> length buf" using br(2) dlen io \<open>len \<le> length buf\<close> by simp
    have nth: "?buf ! x = (if off + x \<in> node_bytes t b then d ! (off + x) else buf ! x)" if "x < len" for x
    proof -
      have "?buf ! x = (if io - off \<le> x \<and> x < io - off + (endp - io) then data ! (x - (io - off)) else buf ! x)"
        using put_buf(2) [OF fits, of x] that \<open>len \<le> length buf\<close> br(2) dlen by simp
      moreover have "io - off \<le> x \<and> x < io - off + (endp - io) \<longleftrightarrow> off + x \<in> node_bytes t b"
        using that io lt by (auto simp: node_bytes_def io_def endp_def)
      moreover have "data ! (x - (io - off)) = d ! (off + x)" if "io - off \<le> x" "x < io - off + (endp - io)"
        using that br(2) io \<open>off + len \<le> length d\<close> by (simp add: add.commute)
      ultimately show ?thesis by auto
    qed
    have brio: "br + int io = int endp" using br(1) io by simp
    have "overlay (Suc n) t d len off b rd buf fs =
       (let rd' = (if rd \<noteq> int len \<and> int endp - int off > rd then int endp - int off else rd) in
        case psync_tree_get_next (root t) b of
          None \<Rightarrow> Some (rd', ?buf, fs')
        | Some c \<Rightarrow> (if unat (ifrom (ivals t c)) < off + len then overlay n t d len off c rd' ?buf fs' else Some (rd', ?buf, fs')))"
      using step False unfolding brio by (simp add: Let_def)
    then show thesis by (rule go [OF put_buf(1) [OF fits] rr(1) pread_faults [OF r] nth, rotated])
  qed
qed

lemma overlay_right:
  assumes "holds t (as @ b # bs)" and "separated (map (ivals t) (b # bs))" and "length bs < n"
    and "off < unat (ito (ivals t b))" and "unat (ifrom (ivals t b)) < off + len" and "0 < len" and "off + len \<le> length d" and "len \<le> length buf"
    and "rd \<le> int len" and "no_short fs"
  shows "\<exists>ret buf' fs'. overlay n t d len off b rd buf fs = Some (ret, buf', fs') \<and>
    (ret = - EIO \<and> Fail \<in> set fs \<or> length buf' = length buf \<and> rd \<le> ret \<and> ret \<le> int len \<and>
       (\<forall>x < len. buf' ! x = (if \<exists>e \<in> set (b # bs). off + x \<in> node_bytes t e then d ! (off + x) else buf ! x)) \<and>
       (rd = int len \<or> (\<exists>e \<in> set (b # bs). off + len - 1 \<in> node_bytes t e) \<longrightarrow> ret = int len))"
  using assms
proof (induction bs arbitrary: as b n rd buf fs)
  case Nil
  obtain m where n: "n = Suc m" using Nil.prems(3) by (cases n) simp_all
  have ne: "unat (ifrom (ivals t b)) < unat (ito (ivals t b))" using Nil.prems(2) by (simp add: word_less_nat_alt)
  have "psync_tree_get_next (root t) b = None" using holds_next [OF Nil.prems(1)] by simp
  show ?case
  proof (cases rule: overlay_round [OF Nil.prems(4,5) ne Nil.prems(6-8,10), of m rd, case_names fail go])
    case (fail buf' fs')
    then show ?thesis using n by blast
  next
    case (go buf' fs')
    then show ?thesis using n Nil.prems \<open>psync_tree_get_next (root t) b = None\<close> by (auto simp: Let_def node_bytes_def)
  qed
next
  case (Cons c cs)
  obtain m where n: "n = Suc m" using Cons.prems(3) by (cases n) simp_all
  have ne: "unat (ifrom (ivals t b)) < unat (ito (ivals t b))" using Cons.prems(2) by (simp add: word_less_nat_alt)
  have after: "unat (ito (ivals t b)) < unat (ifrom (ivals t e))" if "e \<in> set (c # cs)" for e
    using Cons.prems(2) that by (auto simp: word_less_nat_alt)
  have c: "unat (ifrom (ivals t c)) < unat (ito (ivals t c))" "unat (ifrom (ivals t c)) \<le> unat (ifrom (ivals t e))" if "e \<in> set (c # cs)" for e
    using Cons.prems(2) that by (auto simp: word_less_nat_alt intro: less_imp_le less_trans)
  have nxt: "psync_tree_get_next (root t) b = Some c" using holds_next [OF Cons.prems(1)] by simp
  show ?case
  proof (cases rule: overlay_round [OF Cons.prems(4,5) ne Cons.prems(6-8,10), of m rd, case_names fail go])
    case (fail buf' fs')
    then show ?thesis using n by blast
  next
    case (go buf1 fs1)
    define rd1 where "rd1 = (if rd \<noteq> int len \<and> int (min (unat (ito (ivals t b))) (off + len)) - int off > rd
      then int (min (unat (ito (ivals t b))) (off + len)) - int off else rd)"
    have rd1: "rd \<le> rd1" "rd1 \<le> int len" "rd = int len \<or> off + len - 1 \<in> node_bytes t b \<longrightarrow> rd1 = int len"
      using Cons.prems(9,6) by (auto simp: rd1_def node_bytes_def)
    have step: "overlay n t d len off b rd buf fs =
      (if unat (ifrom (ivals t c)) < off + len then overlay m t d len off c rd1 buf1 fs1 else Some (rd1, buf1, fs1))"
      using go(5) nxt by (simp add: n Let_def rd1_def)
    show ?thesis
    proof (cases "unat (ifrom (ivals t c)) < off + len")
      case True
      have "holds t ((as @ [b]) @ c # cs)" "separated (map (ivals t) (c # cs))" "length cs < m" "off < unat (ito (ivals t c))" "len \<le> length buf1"
        using Cons.prems n after [of c] c(1) [of c] go(1) by simp_all
      from Cons.IH [OF this(1-4) True Cons.prems(6,7) this(5) rd1(2) go(2)]
      obtain ret buf' fs' where ih: "overlay m t d len off c rd1 buf1 fs1 = Some (ret, buf', fs')"
        "ret = - EIO \<and> Fail \<in> set fs1 \<or> length buf' = length buf1 \<and> rd1 \<le> ret \<and> ret \<le> int len \<and>
         (\<forall>x < len. buf' ! x = (if \<exists>e \<in> set (c # cs). off + x \<in> node_bytes t e then d ! (off + x) else buf1 ! x)) \<and>
         (rd1 = int len \<or> (\<exists>e \<in> set (c # cs). off + len - 1 \<in> node_bytes t e) \<longrightarrow> ret = int len)" by blast
      show ?thesis
      proof (cases "ret = - EIO \<and> Fail \<in> set fs1")
        case True
        then show ?thesis using step ih(1) go(3) \<open>unat (ifrom (ivals t c)) < off + len\<close> by auto
      next
        case False
        have "\<forall>x < len. buf' ! x = (if \<exists>e \<in> set (b # c # cs). off + x \<in> node_bytes t e then d ! (off + x) else buf ! x)"
          using ih(2) False go(4) by (auto split: if_splits)
        moreover have "rd = int len \<or> (\<exists>e \<in> set (b # c # cs). off + len - 1 \<in> node_bytes t e) \<longrightarrow> ret = int len"
          using ih(2) False rd1(3) by auto
        ultimately show ?thesis using step ih \<open>unat (ifrom (ivals t c)) < off + len\<close> False rd1(1) go(1) by auto
      qed
    next
      case False
      have "off + x \<notin> node_bytes t e" if "e \<in> set (c # cs)" "x < len" for e x
        using c(2) [OF that(1)] False that(2) by (auto simp: node_bytes_def)
      moreover have "off + len - 1 \<notin> node_bytes t e" if "e \<in> set (c # cs)" for e
        using c(2) [OF that] False Cons.prems(6) by (auto simp: node_bytes_def)
      ultimately show ?thesis using step False go(1,4) rd1 by auto
    qed
  qed
qed

text \<open>The read of a file that has been modified.\<close>

lemma local_bytes_holds: "holds t as \<Longrightarrow> x \<in> local_bytes t \<longleftrightarrow> (\<exists>e \<in> set as. x \<in> node_bytes t e)"
  by (simp add: local_bytes_nodes holds_def)

lemma read_modified_right:
  assumes "changed remote mf" and "pages_usable crc (fhash mf) remote (whole_pages remote off len) pc" and "net_right remote net" and "no_short fs"
    and "0 < len" and "len < 2 ^ 31" and "off + len \<le> currentsize mf" and "len \<le> length buf"
  shows "\<exists>ret buf' pc' fs'. psync_pagecache_read_modified_locked crc net tm waited mf len off buf pc fs = Some (ret, buf', pc', fs') \<and>
    pages_usable crc (fhash mf) remote (whole_pages remote off len) pc' \<and>
    (ret = int len \<and> take len buf' = take len (drop off (modfile_view remote mf)) \<or>
     (\<exists>pid. net pid = Inl ret \<and> ret < 0) \<or> ret = - EIO \<and> Fail \<in> set fs)"
proof -
  let ?t = "writeintervals mf" and ?d = "datafile mf"
  have ok: "wf_itree ?t" "length ?d = currentsize mf" "initialsize mf = length remote" "length remote < 2 ^ 62" "currentsize mf < 2 ^ 63"
    "\<And>x. length remote \<le> x \<Longrightarrow> x < currentsize mf \<Longrightarrow> x \<in> local_bytes ?t"
    using assms(1) by (simp_all add: changed_def modfile_ok_def)
  have word: "unat (of_nat off :: u64) = off" "unat (of_nat (off + len) :: u64) = off + len"
    using assms(7) ok(5) by (simp_all add: unat_of_nat del: of_nat_add)
  obtain as bs where split: "inorder (root ?t) = as @ bs" "\<forall>a \<in> set as. ito (ivals ?t a) \<le> of_nat off" "\<forall>b \<in> set bs. of_nat off < ito (ivals ?t b)"
    "psync_interval_tree_first_interval_containing_or_after ?t (of_nat off) = (if bs = [] then None else Some (hd bs))"
    by (rule first_interval_split [OF ok(1)])
  have holds: "holds ?t (as @ bs)" and sep: "separated (map (ivals ?t) (as @ bs))"
    using ok(1) split(1) by (auto simp: wf_itree_def holds_def ivlist_def)
  have before: "off + x \<notin> node_bytes ?t e" if "e \<in> set as" for e x
    using split(2) that word(1) by (fastforce simp: node_bytes_def word_le_nat_alt)
  then have local: "off + x \<in> local_bytes ?t \<longleftrightarrow> (\<exists>e \<in> set bs. off + x \<in> node_bytes ?t e)" for x
    using local_bytes_holds [OF holds, of "off + x"] by auto
  have view: "take len (drop off (modfile_view remote mf)) = map (\<lambda>x. if off + x \<in> local_bytes ?t then ?d ! (off + x) else remote ! (off + x)) [0 ..< len]"
    by (rule nth_equalityI) (use changed_view [OF assms(1)] assms(7) in auto)
  have slice: "take len f = map g [0 ..< len]" if "\<And>x. x < len \<Longrightarrow> f ! x = g x" "len \<le> length f" for f :: "byte list" and g
    by (rule nth_equalityI) (use that in auto)
  show ?thesis
  proof (cases "bs \<noteq> [] \<and> ifrom (ivals ?t (hd bs)) \<le> of_nat off \<and> of_nat (off + len) \<le> ito (ivals ?t (hd bs))")
    case True
    then obtain b cs where b: "bs = b # cs" "unat (ifrom (ivals ?t b)) \<le> off" "off + len \<le> unat (ito (ivals ?t b))"
      using word by (cases bs) (auto simp: word_le_nat_alt simp del: of_nat_add)
    obtain br data fs' where r: "psync_file_pread ?d len off fs = (br, data, fs')" by (metis prod_cases3)
    have res: "psync_pagecache_read_modified_locked crc net tm waited mf len off buf pc fs =
      Some (if br = -1 then - EIO else br, put_buf 0 data buf, pc, fs')"
      using True split(4) r by (auto simp: psync_pagecache_read_modified_locked_def Let_def)
    have "br = int len \<and> data = take len (drop off ?d)" if "br \<noteq> -1"
      using pread_no_short(2) [OF r assms(4)] that assms(7) ok(2) by auto
    moreover have "take len (put_buf 0 (take len (drop off ?d)) buf) = take len (drop off (modfile_view remote mf))"
    proof -
      have "\<exists>e \<in> set bs. off + x \<in> node_bytes ?t e" if "x < len" for x using b that by (auto simp: node_bytes_def)
      then show ?thesis unfolding view using assms(7) ok(2) by (intro slice) (auto simp: put_buf_def local nth_append)
    qed
    moreover have "br = -1 \<Longrightarrow> Fail \<in> set fs" using pread_no_short(2) [OF r assms(4)] by auto
    ultimately show ?thesis using res assms(2) by auto
  next
    case False
    obtain rd buf1 ranges pc1 fs1 where r: "psync_pagecache_read_unmodified_locked crc net (fhash mf) (initialsize mf) tm waited len off buf pc fs = (rd, buf1, ranges, pc1, fs1)"
      by (metis prod_cases5)
    have "(case psync_interval_tree_first_interval_containing_or_after ?t (of_nat off) of None \<Rightarrow> False
        | Some e \<Rightarrow> ifrom (ivals ?t e) \<le> of_nat off \<and> ito (ivals ?t e) \<ge> of_nat (off + len)) = False"
      using False split(4) by (auto simp del: of_nat_add)
    then have res: "psync_pagecache_read_modified_locked crc net tm waited mf len off buf pc fs =
      (if rd < 0 then Some (rd, buf1, pc1, fs1)
       else (case (if bs = [] then None else Some (hd bs)) of
              None \<Rightarrow> Some (rd, buf1, pc1, fs1)
            | Some e \<Rightarrow> if ifrom (ivals ?t e) \<ge> of_nat (off + len) then Some (rd, buf1, pc1, fs1)
                else map_option (\<lambda>(ret, buf, fs). (ret, buf, pc1, fs)) (overlay (length (inorder (root ?t))) ?t ?d len off e rd buf1 fs1)))"
      unfolding psync_pagecache_read_modified_locked_def Let_def r prod.case split(4) by simp
    from read_unmodified_usable [OF assms(2) subset_refl assms(3) ok(4) assms(5,6,8), of tm waited fs] r ok(3)
    have rem: "pages_usable crc (fhash mf) remote (whole_pages remote off len) pc1" "length buf1 = length buf"
      "rd < 0 \<and> (\<exists>pid. net pid = Inl rd) \<or> rd = int (length (take len (drop off remote))) \<and> take (nat rd) buf1 = take len (drop off remote)" by auto
    show ?thesis
    proof (cases "rd < 0")
      case True
      then have "\<exists>pid. net pid = Inl rd \<and> rd < 0" using rem(3) by auto
      then show ?thesis using True res rem(1) by simp
    next
      case pos: False
      then have r3: "rd = int (length (take len (drop off remote))) \<and> take (nat rd) buf1 = take len (drop off remote)" using rem(3) by blast
      then have rd: "rd = int (min len (length remote - off))" "take (nat rd) buf1 = take len (drop off remote)"
        by (simp add: min.commute) (use r3 in blast)
      have remote: "buf1 ! x = remote ! (off + x)" if "x < len" "off + x < length remote" for x
      proof -
        have "buf1 ! x = take (nat rd) buf1 ! x" using that rd(1) by simp
        also have "\<dots> = remote ! (off + x)" unfolding rd(2) using that by simp
        finally show ?thesis .
      qed
      have outside: "off + x < length remote" if "x < len" "off + x \<notin> local_bytes ?t" for x
        using ok(6) [of "off + x"] that assms(7) by linarith
      show ?thesis
      proof (cases "bs = [] \<or> of_nat (off + len) \<le> ifrom (ivals ?t (hd bs))")
        case True
        have none: "off + x \<notin> local_bytes ?t" if "x < len" for x
        proof (cases bs)
          case Nil
          then show ?thesis by (simp add: local)
        next
          case (Cons b cs)
          have "off + len \<le> unat (ifrom (ivals ?t e))" if "e \<in> set bs" for e
          proof -
            have "ifrom (ivals ?t b) \<le> ifrom (ivals ?t e)"
              using sep that Cons by (auto simp: separated_append intro: less_imp_le less_trans)
            then show ?thesis using True Cons word(2) by (simp add: word_le_nat_alt del: of_nat_add)
          qed
          then show ?thesis using that by (fastforce simp: local node_bytes_def)
        qed
        then have "off + (len - 1) < length remote" using outside [of "len - 1"] none [of "len - 1"] assms(5) by simp
        then have "rd = int len" using rd(1) assms(5) by simp
        moreover have "take len buf1 = take len (drop off (modfile_view remote mf))"
          unfolding view using none remote outside rem(2) assms(8) by (intro slice) auto
        ultimately show ?thesis using res True rem(1) pos by auto
      next
        case go: False
        then obtain b cs where b: "bs = b # cs" "unat (ifrom (ivals ?t b)) < off + len"
          using word by (cases bs) (auto simp: word_le_nat_alt simp del: of_nat_add)
        have "off < unat (ito (ivals ?t b))" using split(3) b(1) word(1) by (simp add: word_less_nat_alt)
        moreover have "separated (map (ivals ?t) (b # cs))" using sep b(1) by (simp add: separated_append)
        moreover have "length cs < length (inorder (root ?t))" using split(1) b(1) by simp
        moreover have "rd \<le> int len" using rd(1) by simp
        ultimately obtain ret buf' fs' where o: "overlay (length (inorder (root ?t))) ?t ?d len off b rd buf1 fs1 = Some (ret, buf', fs')"
          "ret = - EIO \<and> Fail \<in> set fs1 \<or> length buf' = length buf1 \<and> rd \<le> ret \<and> ret \<le> int len \<and>
           (\<forall>x < len. buf' ! x = (if \<exists>e \<in> set (b # cs). off + x \<in> node_bytes ?t e then ?d ! (off + x) else buf1 ! x)) \<and>
           (rd = int len \<or> (\<exists>e \<in> set (b # cs). off + len - 1 \<in> node_bytes ?t e) \<longrightarrow> ret = int len)"
          using overlay_right [of ?t as b cs "length (inorder (root ?t))" off len ?d buf1 rd fs1] holds b assms(5,7,8) ok(2) rem(2)
            unmodified_no_short(1) [OF r assms(4)] by auto
        have call: "psync_pagecache_read_modified_locked crc net tm waited mf len off buf pc fs = Some (ret, buf', pc1, fs')"
          unfolding res using pos go o(1) b(1) by simp
        show ?thesis
        proof (cases "ret = - EIO \<and> Fail \<in> set fs1")
          case True
          then show ?thesis using call rem(1) unmodified_no_short(2) [OF r assms(4)] by auto
        next
          case False
          have "rd = int len \<or> (\<exists>e \<in> set (b # cs). off + len - 1 \<in> node_bytes ?t e)"
          proof (cases "off + (len - 1) \<in> local_bytes ?t")
            case True
            then show ?thesis using local [of "len - 1"] b(1) assms(5) by auto
          next
            case False
            then show ?thesis using outside [of "len - 1"] rd(1) assms(5) by auto
          qed
          then have "ret = int len" using o(2) False by blast
          moreover have "take len buf' = take len (drop off (modfile_view remote mf))"
            unfolding view
          proof (rule slice)
            fix x assume x: "x < len"
            show "buf' ! x = (if off + x \<in> local_bytes ?t then ?d ! (off + x) else remote ! (off + x))"
              using o(2) False x local [of x] b(1) remote [OF x] outside [OF x] by auto
          qed (use o(2) False rem(2) assms(8) in auto)
          ultimately show ?thesis using call rem(1) by auto
        qed
      qed
    qed
  qed
qed

text \<open>
  C8. A read inside a file gives exactly the bytes the file is seen to have, whether it is new, unchanged or modified and
  whichever mixture of local intervals, cached pages and pages from the network the range needs. It always returns, and it fails only
  with the error of a page of the network, or with \<open>-EIO\<close> when a read of a file fails. The network is taken to send an error or the page of the
  file. Pages in memory may be corrupted, as long as their checksum does not fit them, and so may be the pages of the cache file that
  have a checksum and that the read takes as a whole (they are fetched anew); pages of the cache file that it takes only a part of are not
  checked by the code (\<open>partial_page_unchecked\<close>) and are taken to be right, and so are those without a checksum. Reads of files are taken to fail or
  to give all that is there, never less.
\<close>

theorem read_gives_the_file:
  assumes "modfile_ok remote mf" and "pages_usable crc (fhash mf) remote (whole_pages remote off len) pc" and "net_right remote net" and "no_short fs"
    and "0 < len" and "len < 2 ^ 31" and "off + len \<le> currentsize mf" and "len \<le> length buf"
  shows "\<exists>ret buf' pc' fs'. psync_fs_read crc net tm waited mf len off buf pc fs = Some (ret, buf', pc', fs') \<and>
    pages_usable crc (fhash mf) remote (whole_pages remote off len) pc' \<and>
    (ret = int len \<and> take len buf' = take len (drop off (modfile_view remote mf)) \<or>
     (\<exists>pid. net pid = Inl ret \<and> ret < 0) \<or> ret = - EIO \<and> Fail \<in> set fs)"
proof -
  consider (new) "newfile mf" | (changed) "changed remote mf" | (same) "\<not> newfile mf" "\<not> modified mf" using assms(1) by (auto simp: changed_def)
  then show ?thesis
  proof cases
    case new
    obtain br data fs' where r: "psync_file_pread (datafile mf) len off fs = (br, data, fs')" by (metis prod_cases3)
    have "length (datafile mf) = currentsize mf" using new assms(1) by (simp add: modfile_ok_def)
    then have "br = -1 \<and> Fail \<in> set fs \<or> br = int len \<and> data = take len (drop off (datafile mf)) \<and> length data = len"
      using pread_no_short(2) [OF r assms(4)] assms(7) by auto
    then show ?thesis using new r assms(2) by (auto simp: psync_fs_read_def psync_read_newfile_def modfile_view_def put_buf_def)
  next
    case changed
    then show ?thesis using read_modified_right [OF changed assms(2-8), of tm waited] by (simp add: psync_fs_read_def changed_def)
  next
    case same
    then have ok: "initialsize mf = length remote" "length remote < 2 ^ 62" "currentsize mf = length remote" "modfile_view remote mf = remote"
      using assms(1) by (simp_all add: modfile_ok_def modfile_view_def)
    obtain rd buf1 ranges pc1 fs1 where r: "psync_pagecache_read_unmodified_locked crc net (fhash mf) (length remote) tm waited len off buf pc fs = (rd, buf1, ranges, pc1, fs1)"
      by (metis prod_cases5)
    have "length (take len (drop off remote)) = len" using assms(7) ok(3) by simp
    then have "pages_usable crc (fhash mf) remote (whole_pages remote off len) pc1"
      "(\<exists>pid. net pid = Inl rd \<and> rd < 0) \<or> rd = int len \<and> take len buf1 = take len (drop off remote)"
      using read_unmodified_usable [OF assms(2) subset_refl assms(3) ok(2) assms(5,6,8) r] by auto
    then show ?thesis using same ok r by (auto simp: psync_fs_read_def)
  qed
qed

text \<open>The remote file's only page is in the cache file, corrupted; the checksum of its bytes does not fit.\<close>

definition corrupted_page :: page_cache where
  "corrupted_page = no_pages\<lparr>pagecache_rows := (\<lambda>k. if snd k = 0 then Some \<lparr>rowid = 0, rowsize = 4, rowcrc = Some 5\<rparr> else None), readcache := [9, 9, 9, 9]\<rparr>"

lemma read_gives_the_file_witness:
  "\<exists>mf ret buf pc fs. modfile_view [1, 2, 3, 4] mf = [1, 2, 7, 4] \<and>
     psync_fs_read (\<lambda>bs. 0) (\<lambda>pid. Inr (page_of [1, 2, 3, 4] pid)) 0 {} mf 4 0 [0, 0, 0, 0] corrupted_page [] = Some (ret, buf, pc, fs) \<and>
     ret = 4 \<and> take 4 buf = [1, 2, 7, 4]"
proof -
  define start where "start = (opened [1, 2, 3, 4])\<lparr>modified := True, datafile := [0, 0, 0, 0]\<rparr>"
  have "index_right start" by (simp add: start_def opened_def index_right_def exI [of _ "[]"])
  then have start: "changed [1, 2, 3, 4] start" by (simp add: start_def opened_def changed_def modfile_ok_def)
  have "modfile_view [1, 2, 3, 4] start = [1, 2, 3, 4]" by (simp add: start_def opened_def modfile_view_def eval_nat_numeral)
  then obtain mf where mf: "changed [1, 2, 3, 4] mf" "modfile_view [1, 2, 3, 4] mf = [1, 2, 7, 4]"
    using write_modified_right [OF start, of 2 "[7]"] by (auto simp: file_write_def)
  have "pages_usable (\<lambda>bs. 0) (fhash mf) [1, 2, 3, 4] (whole_pages [1, 2, 3, 4] 0 4) corrupted_page"
    by (auto simp: pages_usable_def no_pages_def corrupted_page_def row_usable_def whole_pages_def page_of_def split: if_splits)
  moreover have "net_right [1, 2, 3, 4] (\<lambda>pid. Inr (page_of [1, 2, 3, 4] pid))" by (simp add: net_right_def)
  moreover have "currentsize mf = 4" using changed_view(1) [OF mf(1)] mf(2) by simp
  ultimately show ?thesis
    using read_gives_the_file [of "[1, 2, 3, 4]" mf "\<lambda>bs. 0" 0 4 corrupted_page "\<lambda>pid. Inr (page_of [1, 2, 3, 4] pid)" "[]" "[0, 0, 0, 0]" 0 "{}"] mf
    by (fastforce simp: changed_def no_short_def)
qed

text \<open>
  The size of the file is not looked at: after the file has been made shorter, a read past its end still gives the bytes
  of the remote file there.
\<close>

lemma read_past_the_end:
  "case truncate_writable 1 ((opened [1, 2, 3, 4])\<lparr>modified := True, datafile := [0, 0, 0, 0]\<rparr>) [] of
     Some (ret, mf, fs) \<Rightarrow> ret = 0 \<and> currentsize mf = 1 \<and>
       (\<exists>buf pc fs. psync_fs_read (\<lambda>bs. 0) (\<lambda>pid. Inr (page_of [1, 2, 3, 4] pid)) 0 {} mf 2 1 [0, 0] no_pages [] = Some (2, buf, pc, fs) \<and> take 2 buf = [2, 3])"
proof -
  let ?net = "\<lambda>pid. Inr (page_of [1, 2, 3, 4] pid) :: int + byte list"
  have m: "pages_match (\<lambda>bs. 0) 9 [1, 2, 3, 4] no_pages" "net_right [1, 2, 3, 4] ?net" by (simp_all add: pages_match_def no_pages_def net_right_def)
  obtain ret buf ranges pc fs where r: "psync_pagecache_read_unmodified_locked (\<lambda>bs. 0) ?net 9 (length [1, 2, 3, 4 :: byte]) 0 {} 2 1 [0, 0] no_pages [] = (ret, buf, ranges, pc, fs)"
    by (metis prod_cases5)
  have "(\<exists>pid. ?net pid = Inl ret \<and> ret < 0) \<or> ret = int (length (take 2 (drop 1 [1, 2, 3, 4 :: byte]))) \<and> take (nat ret) buf = take 2 (drop 1 [1, 2, 3, 4])"
    using read_unmodified_right [OF m _ _ _ _ r] by auto
  then have "ret = 2" "take 2 buf = [2, 3]" by auto
  moreover have "psync_interval_tree_first_interval_containing_or_after empty_intervals x = None" for x
    by (simp add: psync_interval_tree_first_interval_containing_or_after_def empty_intervals_def)
  ultimately show ?thesis using r
    by (simp add: truncate_writable_def psync_fs_modfile_check_size_ok_def opened_def psync_fs_read_def psync_pagecache_read_modified_locked_def)
qed

end
