(* ===== verification/Pmodupload.thy ===== *)
theory Pmodupload
  imports Pmodfile
begin

section \<open>Uploading a modified file (pfsupload.c)\<close>

text \<open>
  The server builds the new file from the remote one and the local changes: the client walks through the intervals of the
  index and tells it, piece by piece, to copy a range of the remote file or to take bytes of the data file. Commands are sent
  before the answers to earlier ones have come. What the network and the server do is given as lists that are used up:
  whether a command can be sent, whether an answer is waiting, what it says, whether the upload is to stop.
\<close>

abbreviation PSYNC_NET_OK :: int where "PSYNC_NET_OK \<equiv> 0"
abbreviation PSYNC_NET_PERMFAIL :: int where "PSYNC_NET_PERMFAIL \<equiv> -1"
abbreviation PSYNC_NET_TEMPFAIL :: int where "PSYNC_NET_TEMPFAIL \<equiv> -2"
abbreviation PSYNC_COPY_BUFFER_SIZE :: nat where "PSYNC_COPY_BUFFER_SIZE \<equiv> 65536"

datatype upload_cmd = Copy_from nat nat | Send_local nat "byte list"

record upload =
  sent :: "upload_cmd list"
  reqs :: nat
  answered :: nat
  sends :: "bool list"
  waiting :: "bool list"
  answers :: "int list"
  stops :: "bool list"
  ufaults :: faults

definition next_in :: "'a \<Rightarrow> 'a list \<Rightarrow> 'a \<times> 'a list" where
  "next_in d xs = (case xs of [] \<Rightarrow> (d, []) | x # xs \<Rightarrow> (x, xs))"

subsection \<open>Operations\<close>

definition upload_modify_send_copy_from :: "nat \<Rightarrow> nat \<Rightarrow> upload \<Rightarrow> int \<times> upload" where
  "upload_modify_send_copy_from off len u =
     (case next_in True (sends u) of (ok, ss) \<Rightarrow>
        let u = u\<lparr>sends := ss\<rparr> in
        if \<not> ok then (PSYNC_NET_TEMPFAIL, u) else (PSYNC_NET_OK, u\<lparr>sent := sent u @ [Copy_from off len]\<rparr>))"

text \<open>
  The data is read and sent in blocks: before each one the upload may be stopped; a read at the end of the file is an error that stays. The bytes
  are those that reached the socket.
\<close>

function send_blocks :: "file_bytes \<Rightarrow> nat \<Rightarrow> nat \<Rightarrow> nat \<Rightarrow> upload \<Rightarrow> int \<times> byte list \<times> upload" where
  "send_blocks d off len bw u =
     (if bw < len then
        (case next_in False (stops u) of (stop, ss) \<Rightarrow>
         if stop then (PSYNC_NET_TEMPFAIL, [], u\<lparr>stops := ss\<rparr>)
         else
           (let rd = (if len - bw > PSYNC_COPY_BUFFER_SIZE then PSYNC_COPY_BUFFER_SIZE else len - bw) in
            case psync_file_pread d rd (off + bw) (ufaults u) of (rrd, data, fs) \<Rightarrow>
            let u = u\<lparr>stops := ss, ufaults := fs\<rparr> in
            if rrd \<le> 0 then (if rrd = 0 then PSYNC_NET_PERMFAIL else PSYNC_NET_TEMPFAIL, [], u)
            else (case next_in True (sends u) of (ok, os) \<Rightarrow>
              if \<not> ok then (PSYNC_NET_TEMPFAIL, [], u\<lparr>sends := os\<rparr>)
              else (case send_blocks d off len (bw + nat rrd) (u\<lparr>sends := os\<rparr>) of (ret, rest, u) \<Rightarrow> (ret, data @ rest, u)))))
      else (PSYNC_NET_OK, [], u))"
  by auto
termination by (relation "measure (\<lambda>(d, off, len, bw, u). len - bw)") auto

declare send_blocks.simps [simp del]

definition upload_modify_send_local :: "file_bytes \<Rightarrow> nat \<Rightarrow> nat \<Rightarrow> upload \<Rightarrow> int \<times> upload" where
  "upload_modify_send_local d off len u =
     (case next_fault (ufaults u) of (seek, fs) \<Rightarrow>
        case next_in True (sends u) of (ok, ss) \<Rightarrow>
          if seek = Fail then (PSYNC_NET_TEMPFAIL, u\<lparr>ufaults := fs\<rparr>)
          else if \<not> ok then (PSYNC_NET_TEMPFAIL, u\<lparr>ufaults := fs, sends := ss\<rparr>)
          else (case send_blocks d off len 0 (u\<lparr>ufaults := fs, sends := ss\<rparr>) of (ret, data, u) \<Rightarrow>
            (ret, u\<lparr>sent := sent u @ [Send_local off data]\<rparr>)))"

definition upload_modify_read_req :: "upload \<Rightarrow> int \<times> upload" where
  "upload_modify_read_req u = (case next_in PSYNC_NET_OK (answers u) of (ret, as) \<Rightarrow> (ret, u\<lparr>answers := as, answered := answered u + 1\<rparr>))"

text \<open>An answer that is waiting is read before the next command is sent.\<close>

definition read_if_waiting :: "upload \<Rightarrow> int \<times> upload" where
  "read_if_waiting u =
     (if reqs u \<noteq> 0 then
        (case next_in False (waiting u) of (w, ws) \<Rightarrow>
           let u = u\<lparr>waiting := ws\<rparr> in
           if w then (case upload_modify_read_req u of (ret, u) \<Rightarrow> (ret, if ret = 0 then u\<lparr>reqs := reqs u - 1\<rparr> else u))
           else (0, u))
      else (0, u))"

text \<open>
  One round: what is sent, and the offset and interval to go on with. \<open>None\<close> leaves the loop, for an interval that
  ends before the offset.
\<close>

definition send_piece :: "nat itree \<Rightarrow> file_bytes \<Rightarrow> nat \<Rightarrow> nat \<Rightarrow> nat option \<Rightarrow> upload \<Rightarrow> (int \<times> nat \<times> nat option \<times> upload) option" where
  "send_piece t d fsize coff cinterval u =
     (case cinterval of
        None \<Rightarrow> (case upload_modify_send_copy_from coff (fsize - coff) u of (ret, u) \<Rightarrow> Some (ret, fsize, None, u\<lparr>reqs := reqs u + 1\<rparr>))
      | Some e \<Rightarrow>
          (let fr = unat (ifrom (ivals t e)); upto_off = unat (ito (ivals t e)) in
           if fr > coff then
             (let len = min fr fsize - coff in
              case upload_modify_send_copy_from coff len u of (ret, u) \<Rightarrow> Some (ret, coff + len, Some e, u\<lparr>reqs := reqs u + 1\<rparr>))
           else if upto_off > coff then
             (case upload_modify_send_local d coff (min upto_off fsize - coff) u of (ret, u) \<Rightarrow>
                Some (ret, upto_off, psync_tree_get_next (root t) e, u\<lparr>reqs := reqs u + 1\<rparr>))
           else None))"

lemma send_piece_progress:
  "send_piece t d fsize coff ci u = Some (ret, coff', ci', u') \<Longrightarrow> coff < fsize \<Longrightarrow> coff < coff'"
  by (auto simp: send_piece_def Let_def split: option.splits prod.splits if_splits)

text \<open>The loop: \<open>Inl\<close> with the error that ends it, 0 for a stop.\<close>

function upload_modify_loop :: "nat itree \<Rightarrow> file_bytes \<Rightarrow> nat \<Rightarrow> nat \<Rightarrow> nat option \<Rightarrow> upload \<Rightarrow> int + upload" where
  "upload_modify_loop t d fsize coff cinterval u =
     (if coff < fsize then
        (case read_if_waiting u of (ret, u) \<Rightarrow>
           if ret \<noteq> 0 then Inl ret
           else
             (case send_piece t d fsize coff cinterval u of
                None \<Rightarrow> Inr u
              | Some (ret, coff, cinterval, u) \<Rightarrow>
                  if ret \<noteq> 0 then Inl ret
                  else (case next_in False (stops u) of (stop, ss) \<Rightarrow>
                    if stop then Inl 0 else upload_modify_loop t d fsize coff cinterval (u\<lparr>stops := ss\<rparr>))))
      else Inr u)"
  by auto
termination by (relation "measure (\<lambda>(t, d, fsize, coff, ci, u). fsize - coff)") (auto dest: send_piece_progress)

declare upload_modify_loop.simps [simp del]

fun read_answers :: "nat \<Rightarrow> upload \<Rightarrow> int + upload" where
  "read_answers 0 u = Inr u"
| "read_answers (Suc n) u = (case upload_modify_read_req u of (ret, u) \<Rightarrow> if ret \<noteq> 0 then Inl ret else read_answers n u)"

text \<open>
  The upload has been created on the server. What remains after it is to compare the write id with the database and to save the upload; \<open>None\<close> is a failing
  assertion while the index is loaded.
\<close>

definition upload_modify :: "file_bytes \<Rightarrow> file_bytes \<Rightarrow> upload \<Rightarrow> (int + upload) option" where
  "upload_modify ifile dfile u =
     (case psync_file_size ifile (ufaults u) of (isize, fs) \<Rightarrow>
        if isize = -1 then Some (Inl PSYNC_NET_TEMPFAIL)
        else Option.bind (psync_fs_load_interval_tree ifile (nat isize) empty_intervals fs) (\<lambda>(cnt, t, fs).
          if cnt = -1 then Some (Inl PSYNC_NET_TEMPFAIL)
          else (case psync_file_size dfile fs of (fsize, fs) \<Rightarrow>
            if fsize = -1 then Some (Inl PSYNC_NET_TEMPFAIL)
            else (case upload_modify_loop t dfile (nat fsize) 0 (psync_tree_get_first (root t)) (u\<lparr>ufaults := fs\<rparr>) of
                    Inl e \<Rightarrow> Some (Inl e)
                  | Inr u \<Rightarrow> Some (read_answers (reqs u) u)))))"

subsection \<open>What the server makes of the commands\<close>

text \<open>Every command has to begin where the one before it ended, and copies have to stay inside the remote file.\<close>

fun server_build :: "byte list \<Rightarrow> byte list \<Rightarrow> upload_cmd list \<Rightarrow> byte list option" where
  "server_build remote f [] = Some f"
| "server_build remote f (Copy_from off len # cs) =
     (if off = length f \<and> off + len \<le> length remote then server_build remote (f @ take len (drop off remote)) cs else None)"
| "server_build remote f (Send_local off data # cs) = (if off = length f then server_build remote (f @ data) cs else None)"

lemma server_build_append: "server_build remote f (cs @ ds) = Option.bind (server_build remote f cs) (\<lambda>g. server_build remote g ds)"
  by (induction remote f cs rule: server_build.induct) auto

lemma send_blocks_step:
  assumes "bw < len" and "next_in False (stops u) = (stop, ss)" and "next_in True (sends u) = (ok, os)"
    and "psync_file_pread d (min (len - bw) PSYNC_COPY_BUFFER_SIZE) (off + bw) (ufaults u) = (n, bytes, fs)"
  shows "send_blocks d off len bw u =
    (if stop then (PSYNC_NET_TEMPFAIL, [], u\<lparr>stops := ss\<rparr>)
     else if n \<le> 0 then (if n = 0 then PSYNC_NET_PERMFAIL else PSYNC_NET_TEMPFAIL, [], u\<lparr>stops := ss, ufaults := fs\<rparr>)
     else if \<not> ok then (PSYNC_NET_TEMPFAIL, [], u\<lparr>stops := ss, ufaults := fs, sends := os\<rparr>)
     else (case send_blocks d off len (bw + nat n) (u\<lparr>stops := ss, ufaults := fs, sends := os\<rparr>) of (ret, rest, u) \<Rightarrow> (ret, bytes @ rest, u)))"
proof -
  have "(if len - bw > PSYNC_COPY_BUFFER_SIZE then PSYNC_COPY_BUFFER_SIZE else len - bw) = min (len - bw) PSYNC_COPY_BUFFER_SIZE" by simp
  then show ?thesis using assms by (subst send_blocks.simps) (simp add: Let_def)
qed

lemma send_blocks_keeps:
  "send_blocks d off len bw u = (ret, data, u') \<Longrightarrow> sent u' = sent u \<and> answered u' = answered u \<and> reqs u' = reqs u"
proof (induction "len - bw" arbitrary: bw u ret data u' rule: less_induct)
  case less
  show ?case
  proof (cases "bw < len")
    case False
    then show ?thesis using less.prems by (simp add: send_blocks.simps)
  next
    case True
    obtain n bytes fs where r: "psync_file_pread d (min (len - bw) PSYNC_COPY_BUFFER_SIZE) (off + bw) (ufaults u) = (n, bytes, fs)" by (metis prod_cases3)
    obtain stop ss where st: "next_in False (stops u) = (stop, ss)" by (metis prod.exhaust)
    obtain ok os where ok: "next_in True (sends u) = (ok, os)" by (metis prod.exhaust)
    obtain ret2 rest u2 where b: "send_blocks d off len (bw + nat n) (u\<lparr>stops := ss, ufaults := fs, sends := os\<rparr>) = (ret2, rest, u2)" by (metis prod_cases3)
    have "sent u2 = sent u \<and> answered u2 = answered u \<and> reqs u2 = reqs u" if "0 < n"
      using less.hyps [OF _ b] that True by simp
    then show ?thesis using less.prems unfolding send_blocks_step [OF True st ok r] b by (auto split: if_splits)
  qed
qed

lemma send_blocks_right:
  "send_blocks d off len bw u = (0, data, u') \<Longrightarrow> bw \<le> len \<Longrightarrow> data = take (len - bw) (drop (off + bw) d) \<and> length data = len - bw"
proof (induction "len - bw" arbitrary: bw u data rule: less_induct)
  case less
  show ?case
  proof (cases "bw < len")
    case False
    then show ?thesis using less.prems by (simp add: send_blocks.simps)
  next
    case True
    obtain n bytes fs where r: "psync_file_pread d (min (len - bw) PSYNC_COPY_BUFFER_SIZE) (off + bw) (ufaults u) = (n, bytes, fs)" by (metis prod_cases3)
    obtain stop ss where st: "next_in False (stops u) = (stop, ss)" by (metis prod.exhaust)
    obtain ok os where ok: "next_in True (sends u) = (ok, os)" by (metis prod.exhaust)
    obtain ret rest u2 where b: "send_blocks d off len (bw + nat n) (u\<lparr>stops := ss, ufaults := fs, sends := os\<rparr>) = (ret, rest, u2)" by (metis prod_cases3)
    have pos: "0 < n" "data = bytes @ rest" "ret = 0" "u2 = u'"
      using less.prems(1) unfolding send_blocks_step [OF True st ok r] b by (simp_all split: if_splits)
    have n: "n = int (length bytes)" "bytes = take (length bytes) (drop (off + bw) d)" "length bytes \<le> len - bw"
      using r pos(1) by (auto simp: psync_file_pread_def Let_def min_def split: prod.splits fault.splits)
    have le: "bw + nat n \<le> len" using n(1,3) True by simp
    have "len - (bw + nat n) < len - bw" using True pos(1) by simp
    note hyp = less.hyps [OF this b [unfolded pos(3,4)] le]
    have rest: "rest = take (len - (bw + nat n)) (drop (off + (bw + nat n)) d)" "length rest = len - (bw + nat n)"
      by (rule hyp [THEN conjunct1], rule hyp [THEN conjunct2])
    have "take (len - bw) (drop (off + bw) d) = take (length bytes) (drop (off + bw) d) @ take (len - bw - length bytes) (drop (off + bw + length bytes) d)"
      using take_add [of "length bytes" "len - bw - length bytes" "drop (off + bw) d"] n(1) le by (simp add: add.commute)
    then have "data = take (len - bw) (drop (off + bw) d)" using rest(1) pos(2) n(1,2) by (simp add: add.assoc)
    moreover have "length data = len - bw" unfolding pos(2) length_append using n(1) le rest(2) by simp
    ultimately show ?thesis by blast
  qed
qed

subsection \<open>The loop\<close>

definition upload_inv :: "byte list \<Rightarrow> byte list \<Rightarrow> nat \<Rightarrow> upload \<Rightarrow> bool" where
  "upload_inv remote f coff u \<longleftrightarrow> server_build remote [] (sent u) = Some (take coff f) \<and> answered u + reqs u = length (sent u)"

lemma read_if_waiting_inv:
  assumes "upload_inv remote f coff u" and "read_if_waiting u = (0, u')"
  shows "upload_inv remote f coff u'"
  using assms by (auto simp: upload_inv_def read_if_waiting_def upload_modify_read_req_def Let_def split: if_splits prod.splits)

lemma read_answers_inv:
  "read_answers n u = Inr u' \<Longrightarrow> sent u' = sent u \<and> answered u' = answered u + n"
  by (induction n arbitrary: u) (auto simp: upload_modify_read_req_def split: prod.splits if_splits)

text \<open>The pieces of the file seen that are sent.\<close>

lemma view_remote:
  assumes "changed remote mf" and "coff < e" and "e \<le> currentsize mf" and "\<And>x. coff \<le> x \<Longrightarrow> x < e \<Longrightarrow> x \<notin> local_bytes (writeintervals mf)"
  shows "e \<le> length remote" and "take e (modfile_view remote mf) = take coff (modfile_view remote mf) @ take (e - coff) (drop coff remote)"
proof -
  have ok: "\<And>x. length remote \<le> x \<Longrightarrow> x < currentsize mf \<Longrightarrow> x \<in> local_bytes (writeintervals mf)"
    using assms(1) by (simp add: changed_def modfile_ok_def)
  have "e - 1 < length remote" using assms(4) [of "e - 1"] ok [of "e - 1"] assms(2,3) by linarith
  then show e: "e \<le> length remote" by simp
  have "take (e - coff) (drop coff (modfile_view remote mf)) = take (e - coff) (drop coff remote)"
    by (rule nth_equalityI) (use assms changed_view [OF assms(1)] e in auto)
  then show "take e (modfile_view remote mf) = take coff (modfile_view remote mf) @ take (e - coff) (drop coff remote)"
    using take_add [of coff "e - coff" "modfile_view remote mf"] assms(2) by simp
qed

lemma view_local:
  assumes "changed remote mf" and "coff < e" and "e \<le> currentsize mf" and "\<And>x. coff \<le> x \<Longrightarrow> x < e \<Longrightarrow> x \<in> local_bytes (writeintervals mf)"
  shows "take e (modfile_view remote mf) = take coff (modfile_view remote mf) @ take (e - coff) (drop coff (datafile mf))"
proof -
  have "length (datafile mf) = currentsize mf" using assms(1) by (simp add: changed_def modfile_ok_def)
  then have "take (e - coff) (drop coff (modfile_view remote mf)) = take (e - coff) (drop coff (datafile mf))"
    by (intro nth_equalityI) (use assms changed_view [OF assms(1)] in auto)
  then show ?thesis using take_add [of coff "e - coff" "modfile_view remote mf"] assms(2) by simp
qed

lemma copy_inv:
  assumes "changed remote mf" and "coff < e" and "e \<le> currentsize mf" and "\<And>x. coff \<le> x \<Longrightarrow> x < e \<Longrightarrow> x \<notin> local_bytes (writeintervals mf)"
    and "upload_inv remote (modfile_view remote mf) coff u" and "upload_modify_send_copy_from coff (e - coff) u = (0, u')"
  shows "upload_inv remote (modfile_view remote mf) e (u'\<lparr>reqs := reqs u' + 1\<rparr>)"
proof -
  note v = view_remote [OF assms(1-4)]
  have "sent u' = sent u @ [Copy_from coff (e - coff)]" "answered u' = answered u" "reqs u' = reqs u"
    using assms(6) by (auto simp: upload_modify_send_copy_from_def Let_def split: prod.splits if_splits)
  moreover have "length (take coff (modfile_view remote mf)) = coff" using changed_view(1) [OF assms(1)] assms(2,3) by simp
  ultimately show ?thesis using assms(2,5) v by (simp add: upload_inv_def server_build_append)
qed

lemma local_inv:
  assumes "changed remote mf" and "coff < e" and "e \<le> currentsize mf" and "\<And>x. coff \<le> x \<Longrightarrow> x < e \<Longrightarrow> x \<in> local_bytes (writeintervals mf)"
    and "upload_inv remote (modfile_view remote mf) coff u" and "upload_modify_send_local (datafile mf) coff (e - coff) u = (0, u')"
  shows "upload_inv remote (modfile_view remote mf) e (u'\<lparr>reqs := reqs u' + 1\<rparr>)"
proof -
  note v = view_local [OF assms(1-4)]
  obtain data v v' where b: "send_blocks (datafile mf) coff (e - coff) 0 v = (0, data, v')" and v': "sent v = sent u" "answered v = answered u" "reqs v = reqs u"
    and u': "sent u' = sent v' @ [Send_local coff data]" "answered u' = answered v'" "reqs u' = reqs v'"
    using assms(6) by (fastforce simp: upload_modify_send_local_def Let_def split: prod.splits if_splits)
  note u' = u' [unfolded send_blocks_keeps [OF b, THEN conjunct1] send_blocks_keeps [OF b, THEN conjunct2, THEN conjunct1]
    send_blocks_keeps [OF b, THEN conjunct2, THEN conjunct2] v']
  have "data = take (e - coff) (drop coff (datafile mf))" using send_blocks_right [OF b] by simp
  moreover have "length (take coff (modfile_view remote mf)) = coff" using changed_view(1) [OF assms(1)] assms(2,3) by simp
  ultimately show ?thesis using assms(2,5) v u' by (simp add: upload_inv_def server_build_append)
qed

lemma send_piece_right:
  assumes "changed remote mf" and "t = writeintervals mf" and "holds t (as @ bs)" and "separated (map (ivals t) (as @ bs))"
    and "\<forall>a \<in> set as. unat (ito (ivals t a)) \<le> coff" and "\<forall>b \<in> set bs. coff < unat (ito (ivals t b))" and "coff < currentsize mf"
    and "upload_inv remote (modfile_view remote mf) coff u"
  obtains ret coff' u' as' bs' where
    "send_piece t (datafile mf) (currentsize mf) coff (if bs = [] then None else Some (hd bs)) u = Some (ret, coff', if bs' = [] then None else Some (hd bs'), u')"
    "as' @ bs' = as @ bs" "\<forall>a \<in> set as'. unat (ito (ivals t a)) \<le> coff'" "\<forall>b \<in> set bs'. coff' < unat (ito (ivals t b))"
    "ret = 0 \<Longrightarrow> upload_inv remote (modfile_view remote mf) coff' u'"
proof -
  have loc: "x \<in> local_bytes t \<longleftrightarrow> (\<exists>e \<in> set as \<union> set bs. x \<in> node_bytes t e)" for x
    using assms(3) by (auto simp: local_bytes_nodes holds_def)
  have past: "x \<notin> node_bytes t a" if "a \<in> set as" "coff \<le> x" for a x using assms(5) that by (fastforce simp: node_bytes_def)
  have fsize: "take (currentsize mf) (modfile_view remote mf) = take n (modfile_view remote mf)" if "currentsize mf \<le> n" for n
    using changed_view(1) [OF assms(1)] that by simp
  show thesis
  proof (cases bs)
    case Nil
    obtain ret u1 where c: "upload_modify_send_copy_from coff (currentsize mf - coff) u = (ret, u1)" by (metis prod.exhaust)
    have none: "x \<notin> local_bytes (writeintervals mf)" if "coff \<le> x" for x using loc [of x] past that Nil by (auto simp: assms(2))
    show thesis
    proof (rule that [of ret "currentsize mf" "[]" "u1\<lparr>reqs := reqs u1 + 1\<rparr>" as])
      show "send_piece t (datafile mf) (currentsize mf) coff (if bs = [] then None else Some (hd bs)) u =
          Some (ret, currentsize mf, if [] = [] then None else Some (hd []), u1\<lparr>reqs := reqs u1 + 1\<rparr>)"
        using Nil c by (simp add: send_piece_def)
      show "upload_inv remote (modfile_view remote mf) (currentsize mf) (u1\<lparr>reqs := reqs u1 + 1\<rparr>)" if "ret = 0"
        using copy_inv [OF assms(1,7) order_refl none assms(8)] c that by simp
    qed (use Nil assms(5,7) in auto)
  next
    case (Cons b cs)
    have b: "ifrom (ivals t b) < ito (ivals t b)" "\<forall>e \<in> set cs. ito (ivals t b) < ifrom (ivals t e)" "\<forall>e \<in> set cs. ifrom (ivals t e) < ito (ivals t e)"
      using assms(4) Cons separated_nonempty [of "map (ivals t) cs"] by (auto simp: separated_append)
    let ?f = "unat (ifrom (ivals t b))" and ?u = "unat (ito (ivals t b))"
    have order: "?f < ?u" "\<And>e. e \<in> set cs \<Longrightarrow> ?u < unat (ifrom (ivals t e))" "\<And>e. e \<in> set cs \<Longrightarrow> unat (ifrom (ivals t e)) < unat (ito (ivals t e))"
      using b by (simp_all add: word_less_nat_alt)
    show thesis
    proof (cases "coff < ?f")
      case True
      let ?e = "min ?f (currentsize mf)"
      obtain ret u1 where c: "upload_modify_send_copy_from coff (?e - coff) u = (ret, u1)" by (metis prod.exhaust)
      have none: "x \<notin> local_bytes (writeintervals mf)" if "coff \<le> x" "x < ?e" for x
      proof -
        have "x \<notin> node_bytes t e" if "e \<in> set (b # cs)" for e
          using that \<open>x < ?e\<close> order by (fastforce simp: node_bytes_def)
        then show ?thesis using loc [of x] past [of _ x] \<open>coff \<le> x\<close> Cons by (auto simp: assms(2))
      qed
      have e: "coff < ?e" "?e \<le> currentsize mf" using True assms(7) by simp_all
      show thesis
      proof (rule that [of ret ?e bs "u1\<lparr>reqs := reqs u1 + 1\<rparr>" as])
        show "send_piece t (datafile mf) (currentsize mf) coff (if bs = [] then None else Some (hd bs)) u =
            Some (ret, ?e, if bs = [] then None else Some (hd bs), u1\<lparr>reqs := reqs u1 + 1\<rparr>)"
          using Cons c True e by (simp add: send_piece_def Let_def)
        show "upload_inv remote (modfile_view remote mf) ?e (u1\<lparr>reqs := reqs u1 + 1\<rparr>)" if "ret = 0"
          using copy_inv [OF assms(1) e none assms(8)] c that by simp
        show "\<forall>a \<in> set as. unat (ito (ivals t a)) \<le> ?e" using assms(5) e(1) by fastforce
        show "\<forall>b \<in> set bs. ?e < unat (ito (ivals t b))" using Cons order by fastforce
      qed simp
    next
      case False
      let ?e = "min ?u (currentsize mf)"
      obtain ret u1 where c: "upload_modify_send_local (datafile mf) coff (?e - coff) u = (ret, u1)" by (metis prod.exhaust)
      have u: "coff < ?u" using assms(6) Cons by simp
      have all: "x \<in> local_bytes (writeintervals mf)" if "coff \<le> x" "x < ?e" for x
        using loc [of x] that False Cons by (auto simp: assms(2) node_bytes_def)
      have e: "coff < ?e" "?e \<le> currentsize mf" using u assms(7) by simp_all
      have nxt: "psync_tree_get_next (root t) b = (if cs = [] then None else Some (hd cs))" using holds_next [of t as b cs] assms(3) Cons by simp
      show thesis
      proof (rule that [of ret ?u cs "u1\<lparr>reqs := reqs u1 + 1\<rparr>" "as @ [b]"])
        show "send_piece t (datafile mf) (currentsize mf) coff (if bs = [] then None else Some (hd bs)) u =
            Some (ret, ?u, if cs = [] then None else Some (hd cs), u1\<lparr>reqs := reqs u1 + 1\<rparr>)"
          using Cons c False u nxt by (simp add: send_piece_def Let_def)
        show "upload_inv remote (modfile_view remote mf) ?u (u1\<lparr>reqs := reqs u1 + 1\<rparr>)" if "ret = 0"
        proof -
          have "upload_inv remote (modfile_view remote mf) ?e (u1\<lparr>reqs := reqs u1 + 1\<rparr>)"
            using local_inv [OF assms(1) e all assms(8)] c that by simp
          then show ?thesis using fsize [of ?u] by (simp add: upload_inv_def min_def split: if_splits)
        qed
        show "\<forall>a \<in> set (as @ [b]). unat (ito (ivals t a)) \<le> ?u" using assms(5) u by fastforce
        show "\<forall>b \<in> set cs. ?u < unat (ito (ivals t b))" using order by fastforce
      qed (simp add: Cons)
    qed
  qed
qed

text \<open>Nothing fails.\<close>

definition quiet :: "upload \<Rightarrow> bool" where
  "quiet u \<longleftrightarrow> sends u = [] \<and> answers u = [] \<and> stops u = [] \<and> ufaults u = []"

lemma send_blocks_quiet: "off + len \<le> length d \<Longrightarrow> quiet u \<Longrightarrow> \<exists>data u'. send_blocks d off len bw u = (0, data, u') \<and> quiet u'"
proof (induction "len - bw" arbitrary: bw u rule: less_induct)
  case less
  show ?case
  proof (cases "bw < len")
    case False
    then show ?thesis using less.prems by (simp add: send_blocks.simps)
  next
    case True
    define rd where "rd = (if len - bw > PSYNC_COPY_BUFFER_SIZE then PSYNC_COPY_BUFFER_SIZE else len - bw)"
    have rd: "0 < rd" "off + bw + rd \<le> length d" "bw < bw + rd" using True less.prems by (auto simp: rd_def)
    have "len - (bw + rd) < len - bw" using True rd(1) by simp
    from less.hyps [OF this less.prems(1), of "u\<lparr>stops := [], ufaults := [], sends := []\<rparr>"] less.prems(2)
    obtain data u' where "send_blocks d off len (bw + rd) (u\<lparr>stops := [], ufaults := [], sends := []\<rparr>) = (0, data, u')" "quiet u'"
      by (auto simp: quiet_def)
    then show ?thesis using True rd less.prems(2) by (subst send_blocks.simps) (simp add: quiet_def next_in_def Let_def flip: rd_def)
  qed
qed

lemma send_piece_quiet:
  assumes "send_piece t d (length d) coff ci u = Some (ret, coff', ci', u')" and "quiet u" and "coff < length d"
  shows "ret = 0 \<and> quiet u'"
proof -
  have "\<exists>u1. upload_modify_send_local d coff (min n (length d) - coff) u = (0, u1) \<and> quiet u1" for n
  proof -
    have "coff + (min n (length d) - coff) \<le> length d" using assms(3) by auto
    from send_blocks_quiet [OF this assms(2), of 0] obtain data u1
      where "send_blocks d coff (min n (length d) - coff) 0 u = (0, data, u1)" "quiet u1" by blast
    moreover have same: "u\<lparr>ufaults := [], sends := []\<rparr> = u" and "next_fault (ufaults u) = (Full, [])" and "next_in True (sends u) = (True, [])"
      using assms(2) by (simp_all add: quiet_def next_fault_def next_in_def)
    ultimately have "upload_modify_send_local d coff (min n (length d) - coff) u = (0, u1\<lparr>sent := sent u1 @ [Send_local coff data]\<rparr>)"
      by (simp add: upload_modify_send_local_def)
    then show ?thesis using \<open>quiet u1\<close> by (simp add: quiet_def)
  qed
  then have loc: "fst (upload_modify_send_local d coff (min n (length d) - coff) u) = 0 \<and> quiet (snd (upload_modify_send_local d coff (min n (length d) - coff) u))" for n
    by (metis fst_conv snd_conv)
  have copy: "fst (upload_modify_send_copy_from coff n u) = 0 \<and> quiet (snd (upload_modify_send_copy_from coff n u))" for n
    using assms(2) by (simp add: upload_modify_send_copy_from_def quiet_def next_in_def)
  have "quiet (v\<lparr>reqs := n\<rparr>) = quiet v" for v n by (simp add: quiet_def)
  then show ?thesis using assms(1) loc copy by (auto simp: send_piece_def Let_def split_def split: option.splits if_splits)
qed

lemma read_if_waiting_quiet: "read_if_waiting u = (ret, u') \<Longrightarrow> quiet u \<Longrightarrow> ret = 0 \<and> quiet u'"
  by (auto simp: read_if_waiting_def upload_modify_read_req_def quiet_def next_in_def Let_def split: if_splits prod.splits)

lemma read_answers_quiet: "quiet u \<Longrightarrow> \<exists>u'. read_answers n u = Inr u'"
  by (induction n arbitrary: u) (auto simp: upload_modify_read_req_def quiet_def next_in_def)

text \<open>The loop ends with all of the file sent, or for something that failed.\<close>

lemma upload_loop_right:
  assumes "changed remote mf" and "t = writeintervals mf" and "holds t (as @ bs)" and "separated (map (ivals t) (as @ bs))"
    and "\<forall>a \<in> set as. unat (ito (ivals t a)) \<le> coff" and "\<forall>b \<in> set bs. coff < unat (ito (ivals t b))"
    and "upload_inv remote (modfile_view remote mf) coff u"
  shows "case upload_modify_loop t (datafile mf) (currentsize mf) coff (if bs = [] then None else Some (hd bs)) u of
    Inl e \<Rightarrow> \<not> quiet u | Inr u' \<Rightarrow> upload_inv remote (modfile_view remote mf) (currentsize mf) u' \<and> (quiet u \<longrightarrow> quiet u')"
  using assms(3-7)
proof (induction "currentsize mf - coff" arbitrary: coff as bs u rule: less_induct)
  case less
  show ?case
  proof (cases "coff < currentsize mf")
    case False
    then have "take coff (modfile_view remote mf) = take (currentsize mf) (modfile_view remote mf)"
      using changed_view(1) [OF assms(1)] False by simp
    then show ?thesis using less.prems(5) False by (simp add: upload_modify_loop.simps upload_inv_def)
  next
    case True
    have d: "length (datafile mf) = currentsize mf" using assms(1) by (simp add: changed_def modfile_ok_def)
    obtain r u1 where w: "read_if_waiting u = (r, u1)" by (metis prod.exhaust)
    note loop = upload_modify_loop.simps [of t "datafile mf" "currentsize mf" coff "if bs = [] then None else Some (hd bs)" u]
    show ?thesis
    proof (cases "r = 0")
      case False
      then show ?thesis using read_if_waiting_quiet [OF w] True unfolding loop by (auto simp: w)
    next
      case r: True
      have u1: "upload_inv remote (modfile_view remote mf) coff u1" using read_if_waiting_inv [OF less.prems(5)] w r by simp
      obtain ret coff' u2 as' bs' where p: "send_piece t (datafile mf) (currentsize mf) coff (if bs = [] then None else Some (hd bs)) u1 =
          Some (ret, coff', if bs' = [] then None else Some (hd bs'), u2)"
        "as' @ bs' = as @ bs" "\<forall>a \<in> set as'. unat (ito (ivals t a)) \<le> coff'" "\<forall>b \<in> set bs'. coff' < unat (ito (ivals t b))"
        "ret = 0 \<longrightarrow> upload_inv remote (modfile_view remote mf) coff' u2"
        by (rule send_piece_right [OF assms(1,2) less.prems(1-4) True u1]) blast
      have q: "quiet u \<Longrightarrow> ret = 0 \<and> quiet u2" using read_if_waiting_quiet [OF w] send_piece_quiet p(1) d True by metis
      obtain stop ss where st: "next_in False (stops u2) = (stop, ss)" by (metis prod.exhaust)
      have qs: "quiet u \<Longrightarrow> \<not> stop \<and> quiet (u2\<lparr>stops := ss\<rparr>)" using q st by (auto simp: quiet_def next_in_def)
      show ?thesis
      proof (cases "ret = 0 \<and> \<not> stop")
        case False
        have "\<exists>e. upload_modify_loop t (datafile mf) (currentsize mf) coff (if bs = [] then None else Some (hd bs)) u = Inl e"
          unfolding loop using True False by (simp add: w r p(1) st)
        moreover have "\<not> quiet u" using False q qs by blast
        ultimately show ?thesis by auto
      next
        case go: True
        have step: "upload_modify_loop t (datafile mf) (currentsize mf) coff (if bs = [] then None else Some (hd bs)) u =
          upload_modify_loop t (datafile mf) (currentsize mf) coff' (if bs' = [] then None else Some (hd bs')) (u2\<lparr>stops := ss\<rparr>)"
          unfolding loop using True go by (simp add: w r p(1) st)
        have "currentsize mf - coff' < currentsize mf - coff" using send_piece_progress [OF p(1) True] True by simp
        moreover have "upload_inv remote (modfile_view remote mf) coff' (u2\<lparr>stops := ss\<rparr>)" using p(5) go by (simp add: upload_inv_def)
        ultimately have "case upload_modify_loop t (datafile mf) (currentsize mf) coff' (if bs' = [] then None else Some (hd bs')) (u2\<lparr>stops := ss\<rparr>) of
            Inl e \<Rightarrow> \<not> quiet (u2\<lparr>stops := ss\<rparr>)
          | Inr u' \<Rightarrow> upload_inv remote (modfile_view remote mf) (currentsize mf) u' \<and> (quiet (u2\<lparr>stops := ss\<rparr>) \<longrightarrow> quiet u')"
          using less.hyps [of coff' as' bs' "u2\<lparr>stops := ss\<rparr>", OF _ _ _ p(3,4)] less.prems(1,2) p(2) by simp
        then show ?thesis unfolding step using qs
          by (cases "upload_modify_loop t (datafile mf) (currentsize mf) coff' (if bs' = [] then None else Some (hd bs')) (u2\<lparr>stops := ss\<rparr>)")
            (simp_all only: sum.case, blast+)
      qed
    qed
  qed
qed

subsection \<open>The upload\<close>

text \<open>Whatever fails while an index is loaded, no assertion does; what is loaded is right.\<close>

lemma load_batches_any:
  assumes "wf_itree t" and "list_all rec_ok rs"
  shows "\<exists>ok t' fs'. load_batches (recs_bytes rs) (length rs) i t fs = Some (ok, t', fs') \<and>
    (ok \<longrightarrow> wf_itree t' \<and> local_bytes t' = local_bytes t \<union> recs_cover (drop i rs))"
  using assms(1)
proof (induction "length rs - i" arbitrary: i t fs rule: less_induct)
  case less
  show ?case
  proof (cases "i \<ge> length rs")
    case True
    then show ?thesis using less.prems by (auto simp: load_batches.simps intro: exI [of _ True])
  next
    case False
    define rd where "rd = (if INDEX_BATCH > length rs - i then length rs - i else INDEX_BATCH)"
    let ?rs = "take rd (drop i rs)"
    obtain n data fs1 where r: "psync_file_pread (recs_bytes rs) (rd * 16) (i * 16) fs = (n, data, fs1)" by (metis prod_cases3)
    show ?thesis
    proof (cases "n = int (rd * 16)")
      case n: False
      have "load_batches (recs_bytes rs) (length rs) i t fs = Some (False, t, fs1)"
        using False r n by (subst load_batches.simps) (simp flip: rd_def)
      then show ?thesis by blast
    next
      case n: True
      have ok: "list_all rec_ok ?rs" using assms(2) by (auto simp: list_all_iff dest: in_set_takeD in_set_dropD)
      have data: "data = recs_bytes ?rs" using pread_all r n recs_bytes_part [of rd i rs] by (metis mult.commute)
      obtain t1 where t1: "add_records t ?rs = Some t1" "wf_itree t1" "local_bytes t1 = local_bytes t \<union> recs_cover ?rs"
        using add_records_local [OF less.prems ok] by blast
      have step: "load_batches (recs_bytes rs) (length rs) i t fs = load_batches (recs_bytes rs) (length rs) (i + INDEX_BATCH) t1 fs1"
        using False t1(1) r n by (subst load_batches.simps) (simp add: data records_of_bytes [OF ok] flip: rd_def)
      have "recs_cover (drop i rs) = recs_cover ?rs \<union> recs_cover (drop (i + INDEX_BATCH) rs)"
      proof (cases "rd = INDEX_BATCH")
        case True
        then show ?thesis by (metis append_take_drop_id drop_drop add.commute recs_cover_simps(2))
      next
        case False
        then have "rd = length rs - i" "length rs \<le> i + INDEX_BATCH" by (simp_all add: rd_def split: if_splits)
        then show ?thesis by simp
      qed
      moreover obtain ok' t' fs' where "load_batches (recs_bytes rs) (length rs) (i + INDEX_BATCH) t1 fs1 = Some (ok', t', fs')"
        "ok' \<longrightarrow> wf_itree t' \<and> local_bytes t' = local_bytes t1 \<union> recs_cover (drop (i + INDEX_BATCH) rs)"
        using less.hyps [OF _ t1(2), of "i + INDEX_BATCH" fs1] diff_less_mono2 [of i "i + INDEX_BATCH" "length rs"] False by auto
      ultimately show ?thesis using step t1(3) by auto
    qed
  qed
qed

lemma load_any:
  assumes "index_right mf"
  obtains cnt t fs' where "psync_fs_load_interval_tree (indexfile mf) (length (indexfile mf)) empty_intervals fs = Some (cnt, t, fs')"
    "cnt = -1 \<or> wf_itree t \<and> local_bytes t = local_bytes (writeintervals mf)"
proof -
  obtain rs where rs: "indexfile mf = recs_bytes rs" "list_all rec_ok rs" "local_bytes (writeintervals mf) = recs_cover rs"
    using assms by (auto simp: index_right_def)
  obtain ok t fs' where "load_batches (recs_bytes rs) (length rs) 0 empty_intervals fs = Some (ok, t, fs')" "ok \<longrightarrow> wf_itree t \<and> local_bytes t = recs_cover rs"
    using load_batches_any [OF _ rs(2), of empty_intervals 0 fs] by auto
  then show thesis using that [of "if ok then int (length rs) else -1" t fs'] rs by (auto simp: psync_fs_load_interval_tree_def)
qed

lemma file_size_quiet: "psync_file_size f [] = (int (length f), [])"
  by (simp add: psync_file_size_def next_fault_def)

lemma opened_size: "psync_file_size f fs = (n, fs') \<Longrightarrow> n = -1 \<or> n = int (length f)"
  by (auto simp: psync_file_size_def split: prod.splits fault.splits)

text \<open>
  C9. An upload of a modified file that comes through has told the server to build exactly the file that is seen: the pieces
  follow each other without a gap or an overlap from the first byte to the last, copies stay inside the remote file, and the
  answer to every command was read, once. Whatever fails, the upload ends and no assertion fails; if nothing does, it comes through.
\<close>

theorem upload_rebuilds_the_file:
  assumes "modfile_ok remote mf" and "modified mf" and "\<not> newfile mf" and "sent u = []" and "reqs u = 0" and "answered u = 0"
  shows "\<exists>r. upload_modify (indexfile mf) (datafile mf) u = Some r \<and>
    (\<forall>u'. r = Inr u' \<longrightarrow> server_build remote [] (sent u') = Some (modfile_view remote mf) \<and> answered u' = length (sent u')) \<and>
    (quiet u \<longrightarrow> (\<exists>u'. r = Inr u'))"
proof -
  have ch: "changed remote mf" using assms by (simp add: changed_def)
  then have ok: "index_right mf" "length (datafile mf) = currentsize mf" by (simp_all add: changed_def modfile_ok_def)
  obtain isize fs1 where i: "psync_file_size (indexfile mf) (ufaults u) = (isize, fs1)" by (metis prod.exhaust)
  have qi: "quiet u \<Longrightarrow> isize \<noteq> -1 \<and> fs1 = []" using i by (auto simp: quiet_def file_size_quiet)
  show ?thesis
  proof (cases "isize = -1")
    case True
    then show ?thesis using qi by (auto simp: upload_modify_def i)
  next
    case False
    then have isize: "isize = int (length (indexfile mf))" using opened_size [OF i] by simp
    obtain cnt t fs2 where l: "psync_fs_load_interval_tree (indexfile mf) (length (indexfile mf)) empty_intervals fs1 = Some (cnt, t, fs2)"
      "cnt = -1 \<or> wf_itree t \<and> local_bytes t = local_bytes (writeintervals mf)" by (rule load_any [OF ok(1)])
    have ql: "quiet u \<Longrightarrow> cnt \<noteq> -1 \<and> fs2 = []"
      using qi l(1) load_right [OF ok(1)] by fastforce
    obtain dsize fs3 where d: "psync_file_size (datafile mf) fs2 = (dsize, fs3)" by (metis prod.exhaust)
    have qd: "quiet u \<Longrightarrow> dsize \<noteq> -1 \<and> fs3 = []" using ql d by (auto simp: file_size_quiet)
    show ?thesis
    proof (cases "cnt = -1 \<or> dsize = -1")
      case True
      then show ?thesis using False ql qd by (auto simp: upload_modify_def i isize l(1) d)
    next
      case go: False
      then have dsize: "dsize = int (currentsize mf)" using opened_size [OF d] ok(2) by simp
      let ?mf = "mf\<lparr>writeintervals := t\<rparr>" and ?u = "u\<lparr>ufaults := fs3\<rparr>"
      have t: "wf_itree t" "local_bytes t = local_bytes (writeintervals mf)" using l(2) go by simp_all
      have "index_right ?mf" using ok(1) t(2) by (simp add: index_right_def)
      then have ch': "changed remote ?mf" using ch t by (simp add: changed_def modfile_ok_def)
      have same: "currentsize ?mf = currentsize mf" by simp
      have view: "modfile_view remote ?mf = modfile_view remote mf" using t(2) by (simp add: modfile_view_def)
      obtain as where as: "holds t as" "separated (map (ivals t) as)" using t(1) by (auto simp: wf_holds)
      have first: "psync_tree_get_first (root t) = (if as = [] then None else Some (hd as))"
        using as(1) psync_tree.first_law [of "root t"] by (simp add: holds_def)
      have "\<forall>b \<in> set as. 0 < unat (ito (ivals t b))"
        using separated_nonempty [OF as(2)] by (force simp: word_less_nat_alt)
      moreover have "upload_inv remote (modfile_view remote ?mf) 0 ?u" using assms(4-6) by (simp add: upload_inv_def)
      ultimately have loop: "case upload_modify_loop t (datafile mf) (currentsize mf) 0 (psync_tree_get_first (root t)) ?u of
          Inl e \<Rightarrow> \<not> quiet ?u | Inr u' \<Rightarrow> upload_inv remote (modfile_view remote mf) (currentsize mf) u' \<and> (quiet ?u \<longrightarrow> quiet u')"
        using upload_loop_right [OF ch', of t "[]" as 0 ?u] as unfolding first view same by simp
      have qu: "quiet u \<Longrightarrow> quiet ?u" using qd by (simp add: quiet_def)
      have whole: "take (currentsize mf) (modfile_view remote mf) = modfile_view remote mf" using changed_view(1) [OF ch] by simp
      have step: "upload_modify (indexfile mf) (datafile mf) u =
        (case upload_modify_loop t (datafile mf) (currentsize mf) 0 (psync_tree_get_first (root t)) ?u of
           Inl e \<Rightarrow> Some (Inl e) | Inr u \<Rightarrow> Some (read_answers (reqs u) u))"
        using False go by (simp add: upload_modify_def i isize l(1) d dsize)
      show ?thesis
      proof (cases "upload_modify_loop t (datafile mf) (currentsize mf) 0 (psync_tree_get_first (root t)) ?u")
        case (Inl e)
        then show ?thesis using step loop qu by auto
      next
        case (Inr u1)
        then have inv: "upload_inv remote (modfile_view remote mf) (currentsize mf) u1" "quiet u \<Longrightarrow> quiet u1" using loop qu by simp_all
        have "server_build remote [] (sent u') = Some (modfile_view remote mf) \<and> answered u' = length (sent u')" if "read_answers (reqs u1) u1 = Inr u'" for u'
          using inv(1) read_answers_inv [OF that] whole by (simp add: upload_inv_def)
        moreover have "upload_modify (indexfile mf) (datafile mf) u = Some (read_answers (reqs u1) u1)" using step Inr by simp
        ultimately show ?thesis using read_answers_quiet [of u1 "reqs u1"] inv(2) by blast
      qed
    qed
  qed
qed

lemma upload_rebuilds_the_file_witness:
  "\<exists>mf r. modfile_view [1, 2, 3, 4] mf = [1, 2, 7, 4] \<and>
     upload_modify (indexfile mf) (datafile mf)
       \<lparr>sent = [], reqs = 0, answered = 0, sends = [], waiting = [True], answers = [], stops = [], ufaults = [Full, Full, Full, Full, Short 0]\<rparr> = Some r \<and>
     (\<forall>u. r = Inr u \<longrightarrow> server_build [1, 2, 3, 4] [] (sent u) = Some [1, 2, 7, 4] \<and> answered u = length (sent u))"
proof -
  define start where "start = (opened [1, 2, 3, 4])\<lparr>modified := True, datafile := [0, 0, 0, 0]\<rparr>"
  have "index_right start" by (simp add: start_def opened_def index_right_def exI [of _ "[]"])
  then have start: "changed [1, 2, 3, 4] start" by (simp add: start_def opened_def changed_def modfile_ok_def)
  have "modfile_view [1, 2, 3, 4] start = [1, 2, 3, 4]" by (simp add: start_def opened_def modfile_view_def eval_nat_numeral)
  then obtain mf where mf: "changed [1, 2, 3, 4] mf" "modfile_view [1, 2, 3, 4] mf = [1, 2, 7, 4]"
    using write_modified_right [OF start, of 2 "[7]"] by (auto simp: file_write_def)
  let ?u = "\<lparr>sent = [], reqs = 0, answered = 0, sends = [], waiting = [True], answers = [], stops = [], ufaults = [Full, Full, Full, Full, Short 0]\<rparr>"
  obtain r where "upload_modify (indexfile mf) (datafile mf) ?u = Some r"
    "\<forall>u. r = Inr u \<longrightarrow> server_build [1, 2, 3, 4] [] (sent u) = Some (modfile_view [1, 2, 3, 4] mf) \<and> answered u = length (sent u)"
    using upload_rebuilds_the_file [of "[1, 2, 3, 4]" mf ?u] mf(1) by (auto simp: changed_def)
  then show ?thesis using mf(2) by (intro exI [of _ mf] exI [of _ r]) simp
qed

end
