(* ===== verification/Spec2Isabelle.thy ===== *)
theory Spec2Isabelle
  imports Plocks Pintervaltree Papi Papirequest Pcodec Plocalscan Ptaskmanager Pfsnewfile Pblockranges Pmodread Pmodupload
begin

text \<open>
  A model of parts of pclsync, the client library of the pCloud storage service, with proofs about it.

  \<^bold>\<open>The program.\<close> The client keeps local folders and a mounted file system in step with an account. It talks
  to the servers in a binary protocol (\<^verbatim>\<open>papi.c\<close>), scans local folders for changes (\<^verbatim>\<open>plocalscan.c\<close>), keeps what
  it knows in an SQLite database (\<^verbatim>\<open>plibs.c\<close>, \<^verbatim>\<open>pdiff.c\<close>, \<^verbatim>\<open>pfolder.c\<close>) and moves file contents in the background
  (\<^verbatim>\<open>pupload.c\<close>, \<^verbatim>\<open>pdownload.c\<close>, \<^verbatim>\<open>pfs.c\<close>, \<^verbatim>\<open>pfstasks.c\<close>, \<^verbatim>\<open>pfsupload.c\<close>, \<^verbatim>\<open>ppagecache.c\<close>). Files of encrypted folders
  are encrypted sector by sector (\<^verbatim>\<open>pcrypto.c\<close>) and stored with a tree of authentication sectors; changes go
  through a log that is checked and replayed (\<^verbatim>\<open>pfscrypto.c\<close>), with checksums from \<^verbatim>\<open>pcrc32c.c\<close>. Trees, interval
  sets, lists and threads come from \<^verbatim>\<open>ptree.c\<close>, \<^verbatim>\<open>pintervaltree.c\<close>, \<^verbatim>\<open>plist.c\<close> and \<^verbatim>\<open>plibs.c\<close>.

  \<^bold>\<open>The theories.\<close>
  \<^item> \<open>Prelude\<close>: names for the machine integers, little-endian numbers, and lemmas the other theories share.
  \<^item> \<open>Plocks\<close> (\<^verbatim>\<open>plocks.c\<close>): the recursive read-write lock with reservation and upgrade, as a step relation of any number of threads. Its counters count
    the threads they are meant to, a writer is alone, and a free lock has signalled a thread that can take it; two concrete runs show where this fails,
    after a timeout of a writer and during an upgrade. Any call may be made in any state; it is shown which assertion of the code it fails, and when.
  \<^item> \<open>Ptree\<close> (\<^verbatim>\<open>ptree.c\<close>, \<^verbatim>\<open>ptree.h\<close>): the intrusive AVL tree. A node is its address; parent pointers are the frames of the path
    to the root, so that the assertions on the links of a node and its parent hold by construction and are not shown. Insertion and removal give a balanced tree with the expected nodes in order; iteration is in order;
    the \<open>_safe\<close> iteration visits a node after its subtrees. Locales state the container contract.
  \<^item> \<open>Pintervaltree\<close> (\<^verbatim>\<open>pintervaltree.c\<close>): sets of bytes as a tree of separated intervals. Adding, removing and cutting
    compute union, difference and restriction of the set, and keep the tree well formed.
  \<^item> \<open>Papi\<close> (\<^verbatim>\<open>papi.c\<close>): the two passes over a response, its lookup, and the reader that is fed by a socket.
    The first pass computes exactly the memory the second one fills; the only read behind the input is that of the byte after it,
    in the first pass, when an array or a hash is cut off there, and the model ends with that read: nothing is said of what follows in the code; together the passes
    invert the encoding given by the relation \<open>wire\<close>; the reader gives the response whatever the chunks are.
  \<^item> \<open>Papirequest\<close> (\<^verbatim>\<open>papi.c\<close>): the encoding of requests with its 32-bit sizes, and the choice of the host.
  \<^item> \<open>Pcodec\<close> (\<^verbatim>\<open>plibs.c\<close>): base 32 and 64, hexadecimal and decimal numbers, keys, name patterns, names of conflicting files.
  \<^item> \<open>Plist\<close> (\<^verbatim>\<open>plist.c\<close>): the bottom-up merge sort (sorted, stable, a permutation; its passes end) and the extraction of equal elements.
  \<^item> \<open>Plocalscan\<close> (\<^verbatim>\<open>plocalscan.c\<close>): the comparison of a directory with the database, and the pairing of renames.
  \<^item> \<open>Ptaskmanager\<close> (\<^verbatim>\<open>plibs.c\<close>): the task manager as a step relation, one step per critical section; invariants by rule induction.
  \<^item> \<open>Pcrypto\<close> (\<^verbatim>\<open>pcrypto.c\<close>, \<^verbatim>\<open>pssl-openssl.c\<close>): HMAC, counter mode, text and sector encoding. AES on a block and SHA-512 are
    arguments; \<open>aes_ok\<close> (two inverse functions on 16 bytes) and \<open>sha_ok\<close> (64 bytes) are all that is assumed of them.
  \<^item> \<open>Pfslayout\<close> (\<^verbatim>\<open>pfscrypto.c\<close>): where sectors and authentication sectors lie in an encrypted file, with the wrap-arounds of the code.
  \<^item> \<open>Pcrctables\<close>, \<open>Pcrc32c\<close>, \<open>Pfasthash\<close> (\<^verbatim>\<open>pcrc32c.c\<close>): the literal tables and what their entries are, the table-driven checksum and the one
    that uses the processor's instruction, equal to the checksum bit by bit, and the streaming hash. What the instruction computes is the hypothesis \<open>crc_hw_ok\<close>.
  \<^item> \<open>Pfsreplay\<close> (\<^verbatim>\<open>pfscrypto.c\<close>, \<^verbatim>\<open>pcompat.c\<close>): checking and replaying a log over files that are lists of bytes; a list of \<open>faults\<close> decides
    how each file operation ends. An invalid log changes nothing; a replay that was interrupted can be repeated.
  \<^item> \<open>Pfslog\<close> (\<^verbatim>\<open>pfscrypto.c\<close>): the state of a new encrypted file (its log, the sectors in the log, the authentication sectors) and
    the code that reads, writes and finalises it, function by function.
  \<^item> \<open>Pfsops\<close>, \<open>Pfscontent\<close>, \<open>Pfsareas\<close>, \<open>Pfsfinal\<close>, \<open>Pfsnewfile\<close>: its proofs. \<open>Pfsops\<close> says what one operation does to the log and
    to the memory; \<open>Pfscontent\<close> relates a state to the bytes of the plain file; \<open>Pfsareas\<close> shows that sectors and authentication
    sectors never overlap in the data file; \<open>Pfsfinal\<close> follows the finalised log through its replay; \<open>Pfsnewfile\<close> has the contract:
    the operations of the application refine those of a list of bytes, the data file ends as the encryption of that list, and a
    crash during finalisation loses nothing.
  \<^item> \<open>Pblockhash\<close>, \<open>Pblockscan\<close>, \<open>Pblockranges\<close> (\<^verbatim>\<open>pnetlibs.c\<close>): the delta transfer of downloads. \<open>Pblockhash\<close> has the rolling checksum and the
    open-addressing table of remote blocks (its searches return; its size is computed without the 32-bit wrap-around of the code), \<open>Pblockscan\<close> the scan of a local file through a circular buffer
    (it looks up every window of the file), \<open>Pblockranges\<close> the ranges to copy or transfer (together they give the remote file, and no copy
    reads past the end of a local file).
  \<^item> \<open>Ppages\<close> (\<^verbatim>\<open>ppagecache.c\<close>): reading a remote file page by page, each page from memory, from the cache file or from the network.
    What the network gives for a page and the checksum are arguments; pages that are right give the bytes of the file.
    A page of the cache file is checked only when it is read as a whole, so what is assumed of the cache file tells such pages from those read in part.
  \<^item> \<open>Pmodfile\<close>, \<open>Pmodread\<close>, \<open>Pmodupload\<close> (\<^verbatim>\<open>pfs.c\<close>, \<^verbatim>\<open>ppagecache.c\<close>, \<^verbatim>\<open>pfsupload.c\<close>): files that are not encrypted and are changed locally. \<open>Pmodfile\<close> has
    the data file, the interval tree and the index file; \<open>modfile_view\<close> is the file that is seen, and writing and truncating
    change it as they change a plain file, also across a restart. \<open>Pmodread\<close> shows that reads give it, \<open>Pmodupload\<close> that the commands
    of an upload tell the server to build it. Three lemmas show concrete failures: an index broken by a failed write, a
    conversion that loses the remote bytes, a read past the end.

  \<^bold>\<open>Conventions.\<close> A byte is a word of 8 bits; other integers keep their width as words, or are naturals with the reduction
  modulo a power of two written where the code's arithmetic can wrap. Pointers into buffers are the remaining bytes. Errors
  are values: \<open>None\<close> or a sum for failure, outcomes of their own where an over-read or a failing assertion has to be told
  from an error. Debug output and freeing of memory are left out; an allocation does not fail.

  \<^bold>\<open>Bounds and fuel.\<close> Loops over trees by \<open>get_next\<close> have the number of nodes as fuel, and the lemmas on iteration show that it is enough; the merge sort doubles
  its run length with the length of the list as fuel; the parser's recursion has the input length. Loops over the bytes of a file
  have termination proofs. The searches of the block table may run forever on a full table: they are partial functions, and \<open>block_hash_returns\<close> shows
  that they return. The layout is proved right up to \<open>2\<^sup>4\<^sup>4\<close> bytes (the limit the code checks for); the contract of new files holds up to 8 TiB, for writes of
  at most 256 MiB (the hole before the write included) and logs below \<open>2\<^sup>2\<^sup>9\<close> bytes when they are finalised, where the code's 32-bit sizes do not wrap.
  Files that are not encrypted hold up to \<open>2\<^sup>6\<^sup>3\<close> bytes, the remote ones \<open>2\<^sup>6\<^sup>2\<close>, and a read is one of less than \<open>2\<^sup>3\<^sup>1\<close> bytes; the loop over local intervals in a
  read has the number of nodes as fuel, which the proof shows to be enough. The loops of loading and uploading end by a measure.
  An offset past \<open>2\<^sup>6\<^sup>3\<close>, where the system call fails, is not an error of \<open>psync_file_pwrite\<close>.
  The delta transfer needs a block size that is a power of two and at most \<open>2\<^sup>2\<^sup>4\<close>.

  \<^bold>\<open>Not modelled.\<close> The parts that are sequences of SQL statements, API calls, network transfers or calls of the operating system, since
  their effect is that of the database, the servers or the system: the diff and the queues of tasks, uploads and downloads, the
  other file system callbacks, read-ahead and the flushing of cached pages, the peer-to-peer transfer, TLS, settings, notifications.
  Of an upload of a modified file, what follows the last answer is left out (the comparison of the write id with the database, and \<^verbatim>\<open>large_upload_save\<close>).
  A read of a modified file is that of a reader without a writer at the same time. Of \<^verbatim>\<open>pfscrypto.c\<close>: the extender thread, files that exist remotely and their checks against the hash tree, truncation, and the search for left-over logs.
\<close>

end
